(* ===== verification/Prelude.thy ===== *)
theory Prelude
  imports Main "HOL-Library.Word" "HOL-Library.Monad_Syntax"
begin

unbundle bit_operations_syntax

text \<open>
  Shared types and lemmas of the development.

  Conventions used by every component theory:
  \<^item> a C++ \<open>unsigned\<close> that is read bitwise or may wrap is a \<open>32 word\<close> (\<open>u32\<close>); an
    \<open>unsigned long long\<close> address (\<open>new_addr_type\<close>) is a \<open>64 word\<close> (\<open>addr\<close>); container
    indices and lengths are \<open>nat\<close>; a signed \<open>int\<close> is an \<open>int\<close>;
  \<^item> an operation that can end in a failed \<open>assert\<close>, in \<open>abort()\<close> or in an uncaught
    exception returns an \<open>option\<close>: \<open>None\<close> is "the simulator stops here".  The source
    is compiled without \<open>NDEBUG\<close>, so its assertions are live;
  \<^item> \<open>ensure b\<close> is \<open>assert( b )\<close> in the option monad.
\<close>

type_synonym u32 = "32 word"
type_synonym u64 = "64 word"
type_synonym addr = "64 word"

definition ensure :: "bool \<Rightarrow> unit option" where
  "ensure b = (if b then Some () else None)"

named_theorems ensure_simps "unfolding assertions of the option monad"
named_theorems config_defs "definitions of the configuration accessors"
named_theorems inv_defs "definitions of the component invariants"

lemma ensure_True [simp, ensure_simps]: "ensure True = Some ()"
  by (simp add: ensure_def)

lemma ensure_False [simp, ensure_simps]: "ensure False = None"
  by (simp add: ensure_def)

lemma ensure_eq_Some [simp, ensure_simps]: "(ensure b = Some u) = b"
  by (cases u) (simp add: ensure_def)

lemma ensure_eq_None [simp, ensure_simps]: "(ensure b = None) = (\<not> b)"
  by (simp add: ensure_def)

lemma ensure_bind [simp, ensure_simps]:
  "Option.bind (ensure b) f = (if b then f () else None)"
  by (simp add: ensure_def)

lemma bind_SomeE [elim]:
  assumes "Option.bind m f = Some y"
  obtains x where "m = Some x" and "f x = Some y"
  using assms by (cases m) auto

lemma map_fst_SomeD: "map_option fst x = Some a \<Longrightarrow> x = Some (a, snd (the x))"
  by (cases x) auto

lemma is_some_the: "x \<noteq> None \<Longrightarrow> x = Some (the x)"
  by auto

subsection \<open>Lists updated by index\<close>

lemma nth_update_cases: "i < length xs \<Longrightarrow> xs[i := v] ! j = (if i = j then v else xs ! j)"
  by (simp add: nth_list_update)

lemma filter_update_length:
  assumes "i < length xs"
  shows "length (filter P (xs[i := v])) + (if P (xs ! i) then 1 else 0) =
         length (filter P xs) + (if P v then 1 else 0)"
  using assms
proof (induction xs arbitrary: i)
  case Nil
  then show ?case by simp
next
  case (Cons x xs)
  then show ?case
  proof (cases i)
    case 0
    then show ?thesis by auto
  next
    case (Suc j)
    with Cons.prems Cons.IH[of j] show ?thesis by (simp split: if_splits)
  qed
qed

lemma set_update_subset: "set (xs[i := v]) \<subseteq> insert v (set xs)"
  by (rule set_update_subset_insert)

subsection \<open>Words and powers of two\<close>

lemma unat_and_le1: "unat (a AND b :: 'a::len word) \<le> unat a"
  by (metis word_and_le2 word_le_nat_alt)

lemma unat_and_le2: "unat (a AND b :: 'a::len word) \<le> unat b"
  by (metis word_and_le1 word_le_nat_alt)

lemma unat_pow2:
  assumes "k < 32"
  shows "unat (2 ^ k :: u32) = 2 ^ k"
proof -
  have "unat (push_bit k 1 :: u32) = take_bit LENGTH(32) (push_bit k (unat (1::u32)))"
    by (rule unsigned_push_bit_eq)
  then have "unat (2 ^ k :: u32) = 2 ^ k mod 2 ^ 32"
    unfolding push_bit_eq_mult take_bit_eq_mod by simp
  moreover have "(2::nat) ^ k < 2 ^ 32" using assms by (intro power_strict_increasing) auto
  ultimately show ?thesis by simp
qed

lemma unat_of_nat_small [simp]: "n < 32 \<Longrightarrow> unat (of_nat n :: u32) = n"
  by (simp add: unat_of_nat take_bit_eq_mod)

subsection \<open>Cyclic order\<close>

lemma cyclic_hits:
  assumes "j < (m :: nat)"
  obtains k where "k < m" "(k + off) mod m = j"
proof
  let ?k = "(j + (m - off mod m)) mod m"
  show "?k < m" using assms by simp
  have "(?k + off) mod m = (j + (m - off mod m) + off mod m) mod m"
    by (intro mod_add_cong) simp_all
  also have "j + (m - off mod m) + off mod m = j + m"
    using mod_less_divisor[of m off] assms by linarith
  finally show "(?k + off) mod m = j" using assms by simp
qed

subsection \<open>Sources that are drained one element at a time\<close>

text \<open>
  Several components answer a client by a pair "is something ready" / "take the next one":
  the MSHRs, the texture result FIFO, the pipelines between units.  \<open>drain n\<close> takes \<open>n\<close>
  elements; the locale states the contract such a source gives, with \<open>pending\<close> the abstract
  queue it represents.
\<close>

primrec drain :: "('s \<Rightarrow> ('a \<times> 's) option) \<Rightarrow> nat \<Rightarrow> 's \<Rightarrow> ('a list \<times> 's) option" where
  "drain nxt 0 s = Some ([], s)"
| "drain nxt (Suc n) s = do {
     (x, s') \<leftarrow> nxt s;
     (xs, s'') \<leftarrow> drain nxt n s';
     Some (x # xs, s'')
   }"

locale fifo_source =
  fixes ok :: "'s \<Rightarrow> bool"
    and pending :: "'s \<Rightarrow> 'a list"
    and ready :: "'s \<Rightarrow> bool"
    and nxt :: "'s \<Rightarrow> ('a \<times> 's) option"
  assumes ready_iff: "ok s \<Longrightarrow> ready s \<longleftrightarrow> pending s \<noteq> []"
    and nxt_pending: "ok s \<Longrightarrow> pending s = x # xs \<Longrightarrow>
           \<exists>s'. nxt s = Some (x, s') \<and> ok s' \<and> pending s' = xs"
begin

lemma drain_prefix:
  "ok s \<Longrightarrow> n \<le> length (pending s) \<Longrightarrow>
     \<exists>s'. drain nxt n s = Some (take n (pending s), s') \<and> ok s' \<and> pending s' = drop n (pending s)"
proof (induction n arbitrary: s)
  case (Suc n)
  then obtain x xs where p: "pending s = x # xs" by (cases "pending s") auto
  from nxt_pending[OF Suc.prems(1) p] obtain s1 where s1: "nxt s = Some (x, s1)" "ok s1" "pending s1 = xs"
    by blast
  with Suc.IH[of s1] Suc.prems(2) p show ?case by auto
qed simp

lemma drain_all:
  assumes "ok s"
  shows "\<exists>s'. drain nxt (length (pending s)) s = Some (pending s, s') \<and> ok s' \<and> \<not> ready s'"
  using drain_prefix[OF assms order_refl] ready_iff by auto

lemma ready_nxt: "ok s \<Longrightarrow> ready s \<Longrightarrow> nxt s \<noteq> None"
  using ready_iff nxt_pending by (cases "pending s") (auto, fastforce)

end

end
