(* ===== verification/CacheConfig.thy ===== *)
theory CacheConfig
  imports Prelude
begin

text \<open>
  \<open>cache_config\<close> of \<open>src/gpgpu-sim/gpu-cache.h\<close> and \<open>LOGB2\<close> of \<open>gpu-misc.cc\<close>: the
  parser of the cache configuration string, and the split of an address into tag, set
  index and block address at the machine's widths.  \<open>sscanf\<close> is modelled for the
  conversions the parser uses: \<open>%u\<close> skips white space, takes an optional sign and decimal
  digits (reduced modulo \<open>2 ^ 32\<close>, as the assignment to an \<open>unsigned\<close> does for values
  below \<open>2 ^ 64\<close>), \<open>%c\<close> takes one character, any other format character must match.
\<close>

subsection \<open>Integer logarithm (\<open>LOGB2\<close>)\<close>

definition logb2_step :: "u32 \<Rightarrow> nat \<Rightarrow> u32 \<times> u32 \<Rightarrow> u32 \<times> u32" where
  "logb2_step msk k vr =
     (let shift = push_bit k (if fst vr AND msk \<noteq> 0 then 1 else 0 :: u32)
      in (drop_bit (unat shift) (fst vr), snd vr OR shift))"

definition LOGB2 :: "u32 \<Rightarrow> u32" where
  "LOGB2 v =
     snd (logb2_step 0x2 0 (logb2_step 0xC 1 (logb2_step 0xF0 2
         (logb2_step 0xFF00 3 (logb2_step 0xFFFF0000 4 (v, 0))))))"

subsection \<open>The configuration object\<close>

datatype cache_block_state = INVALID | RESERVED | VALID | MODIFIED
datatype cache_request_status = HIT | HIT_RESERVED | MISS | RESERVATION_FAIL
datatype replacement_policy_t = LRU | FIFO
datatype write_policy_t = READ_ONLY | WRITE_BACK | WRITE_THROUGH | WRITE_EVICT
  | LOCAL_WB_GLOBAL_WT
datatype allocation_policy_t = ON_MISS | ON_FILL
datatype write_allocate_policy_t = NO_WRITE_ALLOCATE | WRITE_ALLOCATE
datatype mshr_config_t = TEX_FIFO | ASSOC

text \<open>
  The three anonymous unions of the source share one field each:
  \<open>m_mshr_entries\<close>/\<open>m_fragment_fifo_entries\<close>, \<open>m_mshr_max_merge\<close>/\<open>m_request_fifo_entries\<close>
  and \<open>m_miss_queue_size\<close>/\<open>m_rob_entries\<close>.
\<close>

record cache_config =
  m_config_string :: "string option"
  m_valid :: bool
  m_disabled :: bool
  m_line_sz :: u32
  m_line_sz_log2 :: u32
  m_nset :: u32
  m_nset_log2 :: u32
  m_assoc :: u32
  m_replacement_policy :: replacement_policy_t
  m_write_policy :: write_policy_t
  m_alloc_policy :: allocation_policy_t
  m_mshr_type :: mshr_config_t
  m_write_alloc_policy :: write_allocate_policy_t
  m_mshr_entries :: u32
  m_mshr_max_merge :: u32
  m_miss_queue_size :: u32
  m_result_fifo_entries :: u32

subsection \<open>\<open>sscanf\<close>\<close>

datatype scan_item = ScanU | ScanC | ScanLit char
datatype scan_val = ValU u32 | ValC char

definition is_digit :: "char \<Rightarrow> bool" where
  "is_digit c \<longleftrightarrow> 48 \<le> (of_char c :: nat) \<and> (of_char c :: nat) \<le> 57"

definition digit_val :: "char \<Rightarrow> nat" where
  "digit_val c = of_char c - 48"

fun skip_space :: "string \<Rightarrow> string" where
  "skip_space [] = []"
| "skip_space (c # cs) =
     (if (of_char c :: nat) = 32 \<or> 9 \<le> (of_char c :: nat) \<and> (of_char c :: nat) \<le> 13
      then skip_space cs else c # cs)"

fun scan_digits :: "nat \<Rightarrow> string \<Rightarrow> nat \<times> string" where
  "scan_digits a [] = (a, [])"
| "scan_digits a (c # cs) =
     (if is_digit c then scan_digits (10 * a + digit_val c) cs else (a, c # cs))"

fun scan_unsigned :: "string \<Rightarrow> (u32 \<times> string) option" where
  "scan_unsigned [] = None"
| "scan_unsigned (c # cs) =
     (let sign = (c = CHR ''-'' \<or> c = CHR ''+'');
          body = (if sign then cs else c # cs)
      in if body \<noteq> [] \<and> is_digit (hd body)
         then (let (n, rest) = scan_digits 0 body
               in Some (if c = CHR ''-'' then - of_nat n else of_nat n, rest))
         else None)"

fun sscanf :: "scan_item list \<Rightarrow> string \<Rightarrow> scan_val list" where
  "sscanf [] s = []"
| "sscanf (ScanLit c # fs) s =
     (case s of [] \<Rightarrow> [] | x # xs \<Rightarrow> if x = c then sscanf fs xs else [])"
| "sscanf (ScanC # fs) s =
     (case s of [] \<Rightarrow> [] | x # xs \<Rightarrow> ValC x # sscanf fs xs)"
| "sscanf (ScanU # fs) s =
     (case scan_unsigned (skip_space s) of
        None \<Rightarrow> []
      | Some (n, rest) \<Rightarrow> ValU n # sscanf fs rest)"

text \<open>The format \<open>"%u:%u:%u,%c:%c:%c:%c,%c:%u:%u,%u:%u"\<close>.\<close>

definition cache_config_format :: "scan_item list" where
  "cache_config_format =
     [ScanU, ScanLit CHR '':'', ScanU, ScanLit CHR '':'', ScanU, ScanLit CHR '','',
      ScanC, ScanLit CHR '':'', ScanC, ScanLit CHR '':'', ScanC, ScanLit CHR '':'', ScanC,
      ScanLit CHR '','', ScanC, ScanLit CHR '':'', ScanU, ScanLit CHR '':'', ScanU,
      ScanLit CHR '','', ScanU, ScanLit CHR '':'', ScanU]"

subsection \<open>\<open>cache_config::init\<close>\<close>

fun decode_replacement :: "char \<Rightarrow> replacement_policy_t option" where
  "decode_replacement c =
     (if c = CHR ''L'' then Some LRU else if c = CHR ''F'' then Some FIFO else None)"

fun decode_write_policy :: "char \<Rightarrow> write_policy_t option" where
  "decode_write_policy c =
     (if c = CHR ''R'' then Some READ_ONLY
      else if c = CHR ''B'' then Some WRITE_BACK
      else if c = CHR ''T'' then Some WRITE_THROUGH
      else if c = CHR ''E'' then Some WRITE_EVICT
      else if c = CHR ''L'' then Some LOCAL_WB_GLOBAL_WT else None)"

fun decode_alloc_policy :: "char \<Rightarrow> allocation_policy_t option" where
  "decode_alloc_policy c =
     (if c = CHR ''m'' then Some ON_MISS else if c = CHR ''f'' then Some ON_FILL else None)"

fun decode_mshr_type :: "char \<Rightarrow> mshr_config_t option" where
  "decode_mshr_type c =
     (if c = CHR ''F'' then Some TEX_FIFO else if c = CHR ''A'' then Some ASSOC else None)"

fun decode_write_alloc :: "char \<Rightarrow> write_allocate_policy_t option" where
  "decode_write_alloc c =
     (if c = CHR ''W'' then Some WRITE_ALLOCATE
      else if c = CHR ''N'' then Some NO_WRITE_ALLOCATE else None)"

text \<open>
  The two optional trailing conversions store into \<open>m_miss_queue_size\<close> and
  \<open>m_result_fifo_entries\<close> only when they succeed; otherwise the fields keep what the
  object held.
\<close>

fun store_optional :: "scan_val list \<Rightarrow> cache_config \<Rightarrow> cache_config" where
  "store_optional (ValU q # ValU r # _) c =
     c\<lparr>m_miss_queue_size := q, m_result_fifo_entries := r\<rparr>"
| "store_optional (ValU q # _) c = c\<lparr>m_miss_queue_size := q\<rparr>"
| "store_optional _ c = c"

definition cache_config_init :: "cache_config \<Rightarrow> cache_config option" where
  "cache_config_init c = do {
     s \<leftarrow> m_config_string c;
     let vs = sscanf cache_config_format s;
     let ntok = length vs;
     (if ntok < 10 then
        (if s = ''none'' then Some (c\<lparr>m_disabled := True\<rparr>) else None)
      else case vs of
        ValU nset # ValU line_sz # ValU assoc # ValC rp # ValC wp # ValC ap # ValC wap #
        ValC mt # ValU entries # ValU merge # opt \<Rightarrow> do {
          rp' \<leftarrow> decode_replacement rp;
          wp' \<leftarrow> decode_write_policy wp;
          ap' \<leftarrow> decode_alloc_policy ap;
          mt' \<leftarrow> decode_mshr_type mt;
          ensure (mt' = TEX_FIFO \<longrightarrow> ntok = 12);
          wap' \<leftarrow> decode_write_alloc wap;
          Some ((store_optional opt c)\<lparr>
            m_nset := nset, m_line_sz := line_sz, m_assoc := assoc,
            m_mshr_entries := entries, m_mshr_max_merge := merge,
            m_replacement_policy := rp', m_write_policy := wp', m_alloc_policy := ap',
            m_mshr_type := mt', m_line_sz_log2 := LOGB2 line_sz,
            m_nset_log2 := LOGB2 nset, m_valid := True, m_write_alloc_policy := wap'\<rparr>)
        }
      | _ \<Rightarrow> None)
   }"

definition get_line_sz :: "cache_config \<Rightarrow> u32 option" where
  "get_line_sz c = do { ensure (m_valid c); Some (m_line_sz c) }"

definition get_num_lines :: "cache_config \<Rightarrow> u32 option" where
  "get_num_lines c = do { ensure (m_valid c); Some (m_nset c * m_assoc c) }"

subsection \<open>Address decomposition\<close>

definition set_index :: "cache_config \<Rightarrow> addr \<Rightarrow> u32" where
  [config_defs]: "set_index c a =
     ucast (drop_bit (unat (m_line_sz_log2 c)) a AND ucast (m_nset c - 1))"

definition tag :: "cache_config \<Rightarrow> addr \<Rightarrow> addr" where
  [config_defs]: "tag c a = drop_bit (unat (m_line_sz_log2 c + m_nset_log2 c)) a"

text \<open>
  \<open>~(m_line_sz-1)\<close> is computed at 32 bits and zero-extended to 64 for the \<open>AND\<close>.
\<close>

definition block_addr :: "cache_config \<Rightarrow> addr \<Rightarrow> addr" where
  [config_defs]: "block_addr c a = a AND ucast (NOT (m_line_sz c - 1))"

subsection \<open>Correctness of \<open>LOGB2\<close>\<close>

lemma and_high_mask_nonzero: 
  assumes "unat (v::u32) < 2 ^ (2*n)" "2*n \<le> 32"
  shows "(v AND push_bit n (mask n) \<noteq> 0) = (2 ^ n \<le> unat v)"
proof -
  have m: "v AND push_bit n (mask n) = push_bit n (take_bit n (drop_bit n v))"
    by (rule bit_word_eqI) (auto simp: bit_simps)
  have q: "unat v div 2^n < 2 ^ n" using assms(1)
      by (simp add: div_less_iff_less_mult mult_2 power_add)
  have "unat v < 2^32" using unsigned_less[of v] by simp
  then have q2: "unat v div 2^n * 2^n < 2^32"
    by (meson div_times_less_eq_dividend le_less_trans)
  have "unat (push_bit n (take_bit n (drop_bit n v))) = take_bit 32 (push_bit n (take_bit n (drop_bit n (unat v))))"
    by (simp add: unsigned_push_bit_eq unsigned_take_bit_eq unat_drop_bit_eq)
  also have "\<dots> = (unat v div 2^n) * 2^n"
    using q q2 unfolding push_bit_eq_mult take_bit_eq_mod drop_bit_eq_div by simp
  finally show ?thesis unfolding m  by (metis div_eq_0_iff linorder_not_le  mult_is_0 power_not_zero unat_eq_0 zero_neq_numeral)
qed

lemma unat_or_push_bit: assumes "unat (r::u32) mod 2 ^ Suc k = 0" "unat r + 2^k < 2^32" shows "unat (r OR push_bit k 1) = unat r + 2 ^ k"
proof -
  have k: "k < 32" using assms(2) by (metis add_leE le_less_trans less_le_trans linorder_not_less not_add_less2 one_less_numeral_iff power_strict_increasing_iff semiring_norm(76) trans_le_add2)
  have "unat r AND 2^k = 0"
    using assms(1) by (metis (no_types, lifting) and_exp_eq_0_iff_not_bit bit_take_bit_iff lessI take_bit_eq_mod bit_0_eq bot_apply bot_bool_def)
  then have "unat r OR 2 ^ k = unat r + 2^k" by (simp add: disjunctive_add_eq_or)
  moreover have "unat (push_bit k 1 :: u32) = 2 ^ k"
    using unat_pow2[OF k] by (simp add: push_bit_eq_mult)
  ultimately show ?thesis by (simp add: unsigned_or_eq)
qed

definition logb2_inv :: "nat \<Rightarrow> nat \<Rightarrow> u32 \<times> u32 \<Rightarrow> bool" where
 "logb2_inv x k vr = (unat (fst vr) < 2 ^ (2 ^ k) \<and> 0 < unat (fst vr) \<and> unat (snd vr) mod 2 ^ k = 0 \<and> unat (snd vr) + 2 ^ k \<le> 32 \<and>
   unat (fst vr) * 2 ^ unat (snd vr) \<le> x \<and> x < (unat (fst vr) + 1) * 2 ^ unat (snd vr))"
lemma logb2_step_inv: assumes "logb2_inv x (Suc k) vr" "k \<le> 4" shows "logb2_inv x k (logb2_step (push_bit (2^k) (mask (2^k))) k vr)"
proof -
  obtain v r where vr: "vr = (v,r)" by (cases vr)
  let ?n = "2 ^ k :: nat"
  have a: "unat v < 2 ^ (2 * ?n)" "0 < unat v" "unat r mod 2 ^ Suc k = 0" "unat r + 2 * ?n \<le> 32"
     "unat v * 2 ^ unat r \<le> x" "x < (unat v + 1) * 2 ^ unat r"
    using assms(1) by (auto simp: logb2_inv_def vr)
  have n: "2 * ?n \<le> 32" using a(4) by simp
  have rm: "unat r mod ?n = 0" using a(3) by (metis mod_mod_cancel dvd_triv_left mod_0 power_Suc dvd_triv_right)
  note c = and_high_mask_nonzero[OF a(1) n]
  show ?thesis
  proof (cases "2 ^ ?n \<le> unat v")
    case False
    then show ?thesis using a c rm by (simp add: logb2_inv_def vr logb2_step_def)
  next
    case True
    have sh: "unat (push_bit k 1 :: u32) = ?n" using unat_or_push_bit[of 0 k] n by (simp) 
    have r': "unat (r OR push_bit k 1) = unat r + ?n" using unat_or_push_bit[OF a(3)] a(4) by simp
    have v': "unat (drop_bit ?n v) = unat v div 2 ^ ?n" by (simp only: unat_drop_bit_eq) (simp only: drop_bit_eq_div)
    have e: "logb2_step (push_bit ?n (mask ?n)) k vr = (drop_bit ?n v, r OR push_bit k 1)"
      using c True sh by (simp add: logb2_step_def vr Let_def)
    have q: "unat v div 2 ^ ?n < 2 ^ ?n" using a(1) by (simp add: div_less_iff_less_mult mult_2 power_add)
    have p: "0 < unat v div 2 ^ ?n" using True by (simp add: div_greater_zero_iff)
    have "(unat v div 2 ^ ?n) * 2 ^ (unat r + ?n) = (unat v div 2 ^ ?n * 2 ^ ?n) * 2 ^ unat r"
      by (simp add: power_add)
    also have "\<dots> \<le> unat v * 2 ^ unat r" by (intro mult_le_mono1) simp
    finally have lo: "(unat v div 2 ^ ?n) * 2 ^ (unat r + ?n) \<le> x" using a(5) by simp
    have "unat v + 1 \<le> (unat v div 2 ^ ?n + 1) * 2 ^ ?n"
      using dividend_less_div_times[of "2 ^ ?n" "unat v"] by (simp add: algebra_simps)
    then have "(unat v + 1) * 2 ^ unat r \<le> (unat v div 2 ^ ?n + 1) * 2 ^ ?n * 2 ^ unat r" by (intro mult_le_mono1)
    then have hi: "x < (unat v div 2 ^ ?n + 1) * 2 ^ (unat r + ?n)" using a(6) by (simp add: power_add ac_simps)
    have "(unat r + ?n) mod ?n = 0" using rm by simp
    then show ?thesis using a(4) p q lo hi unfolding e logb2_inv_def fst_conv snd_conv r' v' by auto
  qed
qed

lemma LOGB2_bounds:
  assumes "v \<noteq> 0"
  shows "2 ^ unat (LOGB2 v) \<le> unat v \<and> unat v < 2 ^ (unat (LOGB2 v) + 1)"
proof -
  let ?x = "unat v"
  have m: "push_bit (2^0) (mask (2^0)) = (0x2::u32)" "push_bit (2^1) (mask (2^1)) = (0xC::u32)" "push_bit (2^2) (mask (2^2)) = (0xF0::u32)"
    "push_bit (2^3) (mask (2^3)) = (0xFF00::u32)" "push_bit (2^4) (mask (2^4)) = (0xFFFF0000::u32)"
    by (simp_all add: mask_eq_exp_minus_1 push_bit_eq_mult)
  have start: "logb2_inv ?x 5 (v, 0)" using assms unsigned_less[of v] by (auto simp: logb2_inv_def unat_gt_0)
  define R where "R = logb2_step 0x2 0 (logb2_step 0xC 1 (logb2_step 0xF0 2 (logb2_step 0xFF00 3 (logb2_step 0xFFFF0000 4 (v, 0)))))"
  from start have "logb2_inv ?x 0 (logb2_step 0x2 0 (logb2_step 0xC 1 (logb2_step 0xF0 2 (logb2_step 0xFF00 3 (logb2_step 0xFFFF0000 4 (v, 0))))))"
    using start logb2_step_inv[of ?x 4] logb2_step_inv[of ?x 3] logb2_step_inv[of ?x 2] logb2_step_inv[of ?x 1] logb2_step_inv[of ?x 0] unfolding m by (simp add: numeral_eq_Suc)
  then have i: "logb2_inv ?x 0 (fst R, LOGB2 v)" by (simp add: LOGB2_def R_def)
  then have "unat (fst R) = 1" by (simp add: logb2_inv_def)
  with i show ?thesis by (simp add: logb2_inv_def)
qed

text \<open>
  C40: For every nonzero argument the five unrolled bit tests of \<open>LOGB2\<close> return the floor of the base-2 logarithm.
\<close>

theorem LOGB2_floor_log2:
  assumes "v \<noteq> 0"
  shows "2 ^ unat (LOGB2 v) \<le> unat v \<and> unat v < 2 ^ (unat (LOGB2 v) + 1)"
  by (rule LOGB2_bounds[OF assms])

lemma LOGB2_pow2: assumes "unat v = 2 ^ k" shows "unat (LOGB2 v) = k"
proof -
  have "v \<noteq> 0" using assms by (metis power_not_zero unat_0 zero_neq_numeral)
  from LOGB2_bounds[OF this] have "2 ^ unat (LOGB2 v) \<le> (2::nat) ^ k" "(2::nat) ^ k < 2 ^ (unat (LOGB2 v) + 1)"
    unfolding assms by auto
  then have "unat (LOGB2 v) \<le> k" "k < unat (LOGB2 v) + 1" by (simp_all only: power_increasing_iff power_strict_increasing_iff one_less_numeral_iff semiring_norm)
  then show ?thesis by simp
qed

subsection \<open>Well-formed configurations and the address split\<close>

text \<open>Line size and set count are powers of two that fit an \<open>unsigned\<close>, with the logs \<open>init\<close> stores.\<close>

definition config_wf :: "cache_config \<Rightarrow> nat \<Rightarrow> nat \<Rightarrow> bool" where
  "config_wf c l k \<longleftrightarrow> l + k < 32 \<and> m_line_sz c = 2 ^ l \<and> m_nset c = 2 ^ k \<and> m_line_sz_log2 c = of_nat l \<and> m_nset_log2 c = of_nat k"
lemma word_mask_minus: "l < 32 \<Longrightarrow> (2 ^ l - 1 :: u32) = mask l" by (simp add: mask_eq_exp_minus_1)

text \<open>Tag, set index and line offset of an address together determine it: the address is
  their concatenation, for every well-formed configuration.\<close>

theorem address_recompose: assumes "config_wf c l k"
  shows "a = (push_bit (l + k) (tag c a) OR push_bit l (ucast (set_index c a))) OR (a AND ucast (m_line_sz c - 1))"
proof (rule bit_word_eqI)
  fix n assume n: "n < LENGTH(64)"
  have [simp]: "of_nat l + of_nat k = (of_nat (l + k) :: u32)" by simp
  show "bit a n = bit ((push_bit (l + k) (tag c a) OR push_bit l (ucast (set_index c a))) OR (a AND ucast (m_line_sz c - 1))) n"
    using assms n by (cases "n < l"; cases "n < l + k") (auto simp: config_wf_def tag_def set_index_def bit_simps word_mask_minus simp del: of_nat_add)
qed

lemma set_index_less: assumes "config_wf c l k"
  shows "unat (set_index c a) < 2 ^ k"
proof -
  have "set_index c a = ucast (take_bit k (drop_bit l a))"
    by (rule bit_word_eqI) (use assms in \<open>auto simp: config_wf_def set_index_def bit_simps word_mask_minus\<close>)
  also have "unat \<dots> = take_bit 32 (take_bit k (unat (drop_bit l a)))"
    by (simp add: unsigned_ucast_eq unsigned_take_bit_eq min.commute)
  finally show ?thesis using assms by (simp add: config_wf_def)
qed

text \<open>The block address ignores the upper 32 bits of a 64-bit address, because the mask
  \<open>~(m_line_sz-1)\<close> is a zero-extended 32-bit value: addresses 4 GiB apart get the same
  block address.\<close>

theorem block_addr_aliases: "block_addr c (a + 2 ^ 32) = block_addr c a"
proof (rule bit_word_eqI)
  fix n assume "n < LENGTH(64)"
  have "unat (take_bit 32 (a + 2 ^ 32)) = unat (take_bit 32 a)"
    by (simp add: unsigned_take_bit_eq unat_word_ariths take_bit_eq_mod mod_mod_cancel)
  then have "take_bit 32 (a + 2 ^ 32) = take_bit 32 a" by (simp only: word_unat_eq_iff)
  then have "n < 32 \<Longrightarrow> bit (a + 2^32) n = bit a n" by (metis bit_take_bit_iff)
  then show "bit (block_addr c (a + 2 ^ 32)) n = bit (block_addr c a) n"
    by (auto simp: block_addr_def bit_simps)
qed

lemma block_addr_aligned: assumes "config_wf c l k" "unat a < 2 ^ 32"
  shows "block_addr c a = push_bit l (drop_bit l a)"
proof (rule bit_word_eqI)
  fix n assume "n < LENGTH(64)"
  have "unat (take_bit 32 a) = unat a"
    using assms(2) by (simp add: unsigned_take_bit_eq take_bit_nat_eq_self)
  then have "take_bit 32 a = a" by (simp only: word_unat_eq_iff)
  then have "n < 32" if "bit a n" using that by (metis bit_take_bit_iff)
  with \<open>n < LENGTH(64)\<close> show "bit (block_addr c a) n = bit (push_bit l (drop_bit l a)) n"
    using assms(1) by (auto simp: block_addr_def bit_simps config_wf_def word_mask_minus)
qed

subsection \<open>Printing and parsing a configuration\<close>

definition digit_char :: "nat \<Rightarrow> char" where "digit_char d = char_of (48 + d)"
fun show_nat :: "nat \<Rightarrow> string" where
  "show_nat n = (if n < 10 then [digit_char n] else show_nat (n div 10) @ [digit_char (n mod 10)])"
declare show_nat.simps [simp del]

lemma digit_char_props: "d < 10 \<Longrightarrow> is_digit (digit_char d) \<and> digit_val (digit_char d) = d"
  by (simp add: is_digit_def digit_val_def digit_char_def)

lemma scan_digits_show: "scan_digits a (show_nat n @ r) = scan_digits (a * 10 ^ length (show_nat n) + n) r"
proof (induction n arbitrary: a r rule: show_nat.induct)
  case (1 n)
  show ?case
  proof (cases "n < 10")
    case True
    then show ?thesis by (simp add: show_nat.simps[of n] digit_char_props mult.commute)
  next
    case False
    have "n mod 10 < 10" by simp
    note d = digit_char_props[OF this]
    from False show ?thesis using "1"[of a "digit_char (n mod 10) # r"]
      by (simp add: show_nat.simps[of n] d algebra_simps)
  qed
qed

lemma show_nat_Cons: "\<exists>c cs. show_nat n = c # cs \<and> is_digit c"
proof (induction n rule: show_nat.induct)
  case (1 n)
  then show ?case by (cases "n < 10") (auto simp: show_nat.simps[of n] digit_char_props)
qed

lemma skip_digit: "is_digit c \<Longrightarrow> skip_space (c # cs) = c # cs"
  by (auto simp: is_digit_def)

lemma scan_unsigned_show: assumes "rest = [] \<or> \<not> is_digit (hd rest)"
  shows "scan_unsigned (skip_space (show_nat (unat n) @ rest)) = Some (n, rest)"
proof -
  obtain c cs where c: "show_nat (unat n) = c # cs" "is_digit c" using show_nat_Cons by blast
  have "scan_digits 0 (c # cs @ rest) = scan_digits (unat n) rest"
    using scan_digits_show[of 0 "unat n" rest] by (simp only: c append_Cons) simp
  also have "\<dots> = (unat n, rest)" using assms by (cases rest) auto
  finally have s: "scan_digits 0 (c # cs @ rest) = (unat n, rest)" .
  have "c \<noteq> CHR ''-''" "c \<noteq> CHR ''+''" using c(2) by (auto simp: is_digit_def)
  then show ?thesis using c(2) s by (simp add: c skip_digit del: scan_digits.simps skip_space.simps)
qed
fun char_replacement :: "replacement_policy_t \<Rightarrow> char" where
  "char_replacement LRU = CHR ''L''" | "char_replacement FIFO = CHR ''F''"
fun char_write_policy :: "write_policy_t \<Rightarrow> char" where
  "char_write_policy READ_ONLY = CHR ''R''" | "char_write_policy WRITE_BACK = CHR ''B''"
| "char_write_policy WRITE_THROUGH = CHR ''T''" | "char_write_policy WRITE_EVICT = CHR ''E''"
| "char_write_policy LOCAL_WB_GLOBAL_WT = CHR ''L''"
fun char_alloc_policy :: "allocation_policy_t \<Rightarrow> char" where
  "char_alloc_policy ON_MISS = CHR ''m''" | "char_alloc_policy ON_FILL = CHR ''f''"
fun char_mshr_type :: "mshr_config_t \<Rightarrow> char" where
  "char_mshr_type TEX_FIFO = CHR ''F''" | "char_mshr_type ASSOC = CHR ''A''"
fun char_write_alloc :: "write_allocate_policy_t \<Rightarrow> char" where
  "char_write_alloc WRITE_ALLOCATE = CHR ''W''" | "char_write_alloc NO_WRITE_ALLOCATE = CHR ''N''"

definition render_config :: "cache_config \<Rightarrow> string" where
  "render_config c =
     show_nat (unat (m_nset c)) @ '':'' @ show_nat (unat (m_line_sz c)) @ '':'' @
     show_nat (unat (m_assoc c)) @ '','' @
     [char_replacement (m_replacement_policy c), CHR '':'',
      char_write_policy (m_write_policy c), CHR '':'',
      char_alloc_policy (m_alloc_policy c), CHR '':'',
      char_write_alloc (m_write_alloc_policy c), CHR '','',
      char_mshr_type (m_mshr_type c), CHR '':''] @
     show_nat (unat (m_mshr_entries c)) @ '':'' @ show_nat (unat (m_mshr_max_merge c)) @ '','' @
     show_nat (unat (m_miss_queue_size c)) @ '':'' @ show_nat (unat (m_result_fifo_entries c))"

definition config_reads :: "cache_config \<Rightarrow> cache_config \<Rightarrow> bool" where
  "config_reads d c \<longleftrightarrow> m_valid d \<and> m_nset d = m_nset c \<and> m_line_sz d = m_line_sz c \<and> m_assoc d = m_assoc c \<and>
     m_replacement_policy d = m_replacement_policy c \<and> m_write_policy d = m_write_policy c \<and>
     m_alloc_policy d = m_alloc_policy c \<and> m_write_alloc_policy d = m_write_alloc_policy c \<and>
     m_mshr_type d = m_mshr_type c \<and> m_mshr_entries d = m_mshr_entries c \<and>
     m_mshr_max_merge d = m_mshr_max_merge c \<and> m_miss_queue_size d = m_miss_queue_size c \<and>
     m_result_fifo_entries d = m_result_fifo_entries c \<and>
     m_line_sz_log2 d = LOGB2 (m_line_sz c) \<and> m_nset_log2 d = LOGB2 (m_nset c)"

lemma separators_not_digit: "\<not> is_digit CHR '':''" "\<not> is_digit CHR '',''" by (simp_all add: is_digit_def)
lemma decode_char: "decode_replacement (char_replacement a) = Some a" "decode_write_policy (char_write_policy b) = Some b"
 "decode_alloc_policy (char_alloc_policy d) = Some d" "decode_mshr_type (char_mshr_type e) = Some e" "decode_write_alloc (char_write_alloc f) = Some f"
  by ((cases a; simp), (cases b; simp), (cases d; simp), (cases e; simp), (cases f; simp))

lemma sscanf_render: "sscanf cache_config_format (render_config c) =
  [ValU (m_nset c), ValU (m_line_sz c), ValU (m_assoc c), ValC (char_replacement (m_replacement_policy c)), ValC (char_write_policy (m_write_policy c)),
   ValC (char_alloc_policy (m_alloc_policy c)), ValC (char_write_alloc (m_write_alloc_policy c)), ValC (char_mshr_type (m_mshr_type c)),
   ValU (m_mshr_entries c), ValU (m_mshr_max_merge c), ValU (m_miss_queue_size c), ValU (m_result_fifo_entries c)]"
  unfolding cache_config_format_def render_config_def
  using scan_unsigned_show[of "[]" "m_result_fifo_entries c"]
  by (simp add: scan_unsigned_show separators_not_digit)

lemma render_config_not_none: "render_config c \<noteq> ''none''"
proof -
  obtain x xs where "show_nat (unat (m_nset c)) = x # xs" "is_digit x" using show_nat_Cons by blast
  then show ?thesis by (auto simp: render_config_def is_digit_def)
qed

text \<open>C39: parsing the printed form of a configuration with \<open>cache_config::init\<close> gives the
  configuration back: every geometry, policy and queue-size field, and the two logarithms.\<close>

theorem cache_config_init_render:
  "\<exists>d. cache_config_init (old\<lparr>m_config_string := Some (render_config c)\<rparr>) = Some d \<and> config_reads d c"
  by (simp add: cache_config_init_def sscanf_render decode_char config_reads_def del: decode_replacement.simps decode_write_policy.simps decode_alloc_policy.simps decode_mshr_type.simps decode_write_alloc.simps)


text \<open>Powers of two give a well-formed configuration.\<close>

lemma config_reads_wf:
  assumes "config_reads d c" "m_line_sz c = 2 ^ l" "m_nset c = 2 ^ k" "l + k < 32"
  shows "config_wf d l k"
proof -
  have "unat (2 ^ n :: u32) = 2 ^ n" if "n < 32" for n
    using that by (rule unat_pow2)
  then have "unat (LOGB2 (2 ^ l)) = l" "unat (LOGB2 (2 ^ k)) = k"
    using assms(4) by (auto intro!: LOGB2_pow2)
  then have "LOGB2 (2 ^ l) = of_nat l" "LOGB2 (2 ^ k) = of_nat k"
    using word_unat_eq_iff assms(4) by (auto simp: word_unat_eq_iff)
  then show ?thesis using assms by (simp add: config_wf_def config_reads_def)
qed

theorem LOGB2_floor_log2_witness:
  "2 ^ unat (LOGB2 1000) \<le> unat (1000 :: u32) \<and> unat (1000 :: u32) < 2 ^ (unat (LOGB2 1000) + 1)"
  by (rule LOGB2_floor_log2) simp

definition sample_config :: cache_config where
  "sample_config =
     \<lparr>m_config_string = None, m_valid = True, m_disabled = False, m_line_sz = 128,
      m_line_sz_log2 = 7, m_nset = 2, m_nset_log2 = 1, m_assoc = 2,
      m_replacement_policy = LRU, m_write_policy = WRITE_BACK, m_alloc_policy = ON_MISS,
      m_mshr_type = ASSOC, m_write_alloc_policy = WRITE_ALLOCATE, m_mshr_entries = 4,
      m_mshr_max_merge = 2, m_miss_queue_size = 4, m_result_fifo_entries = 0\<rparr>"

lemma sample_config_wf: "config_wf sample_config 7 1"
  by (simp add: config_wf_def sample_config_def)

theorem address_recompose_witness:
  "(0x12345 :: addr) =
     (push_bit (7 + 1) (tag sample_config 0x12345) OR
      push_bit 7 (ucast (set_index sample_config 0x12345)))
     OR (0x12345 AND ucast (m_line_sz sample_config - 1))"
  by (rule address_recompose[OF sample_config_wf])

end
