(* ===== verification/MemFetch.thy ===== *)
theory MemFetch
  imports Prelude
begin

text \<open>
  \<open>mem_access_t\<close> (\<open>src/abstract_hardware_model.h\<close>) and \<open>mem_fetch\<close>
  (\<open>src/gpgpu-sim/mem_fetch.h\<close>, \<open>mem_fetch.cc\<close>), the object that carries one memory
  request through the simulator, with the allocators of the L1 caches (\<open>shader.h\<close>)
  and of the memory partitions (\<open>l2cache.cc\<close>).

  A \<open>mem_fetch*\<close> is a \<open>nat\<close> (\<open>mfp\<close>); the objects live in a heap, because queues, MSHRs
  and the caches' side tables share them and \<open>set_data_size\<close>/\<open>set_status\<close> mutate them in
  place.  The copied instruction is kept as what the modelled code reads of it: whether it
  is an atomic (\<open>mf_atomic\<close>).  The decoded DRAM coordinates of the request belong to the
  address mapping and are not fields of this record.
\<close>

datatype mem_access_type = GLOBAL_ACC_R | LOCAL_ACC_R | CONST_ACC_R | TEXTURE_ACC_R
  | GLOBAL_ACC_W | LOCAL_ACC_W | L1_WRBK_ACC | L2_WRBK_ACC | INST_ACC_R | L2_WR_ALLOC_R
  | NUM_MEM_ACCESS_TYPE | CPU_CL_REQUEST | CPU_CL_REPLY

datatype mf_type = READ_REQUEST | WRITE_REQUEST | READ_REPLY | WRITE_ACK
  | CPU_READ_REQUEST | CPU_READ_REPLY | CPU_WRITE_REQUEST | CPU_WRITE_REPLY

datatype mem_fetch_status = MEM_FETCH_INITIALIZED | IN_L1I_MISS_QUEUE | IN_L1D_MISS_QUEUE
  | IN_L1T_MISS_QUEUE | IN_L1C_MISS_QUEUE | IN_L1TLB_MISS_QUEUE | IN_VM_MANAGER_QUEUE
  | IN_ICNT_TO_MEM | IN_PARTITION_ROP_DELAY | IN_PARTITION_ICNT_TO_L2_QUEUE
  | IN_PARTITION_L2_TO_DRAM_QUEUE | IN_PARTITION_DRAM_LATENCY_QUEUE
  | IN_PARTITION_L2_MISS_QUEUE | IN_PARTITION_MC_INTERFACE_QUEUE
  | IN_PARTITION_MC_INPUT_QUEUE | IN_PARTITION_MC_BANK_ARB_QUEUE | IN_PARTITION_DRAM
  | IN_PARTITION_MC_RETURNQ | IN_PARTITION_DRAM_TO_L2_QUEUE | IN_PARTITION_L2_FILL_QUEUE
  | IN_PARTITION_L2_TO_ICNT_QUEUE | IN_ICNT_TO_SHADER | IN_CLUSTER_TO_SHADER_QUEUE
  | IN_SHADER_LDST_RESPONSE_FIFO | IN_SHADER_FETCHED | IN_SHADER_L1T_ROB
  | MEM_FETCH_DELETED | NUM_MEM_REQ_STAT | CPU_TO_ICNT | ICNT_TO_CPU

record mem_access_t =
  ma_type :: mem_access_type
  ma_addr :: addr
  ma_req_size :: u32
  ma_write :: bool
  ma_warp_mask :: "32 word"
  ma_byte_mask :: "128 word"

text \<open>The two constructors: without masks (both bitsets default to empty) and with them.\<close>

definition mem_access :: "mem_access_type \<Rightarrow> addr \<Rightarrow> u32 \<Rightarrow> bool \<Rightarrow> mem_access_t" where
  "mem_access t a sz wr =
     \<lparr>ma_type = t, ma_addr = a, ma_req_size = sz, ma_write = wr,
      ma_warp_mask = 0, ma_byte_mask = 0\<rparr>"

definition mem_access_masked ::
  "mem_access_type \<Rightarrow> addr \<Rightarrow> u32 \<Rightarrow> bool \<Rightarrow> 32 word \<Rightarrow> 128 word \<Rightarrow> mem_access_t" where
  "mem_access_masked t a sz wr wm bm =
     \<lparr>ma_type = t, ma_addr = a, ma_req_size = sz, ma_write = wr,
      ma_warp_mask = wm, ma_byte_mask = bm\<rparr>"

record mem_fetch =
  mf_access :: mem_access_t
  mf_data_size :: u32
  mf_ctrl_size :: u32
  mf_sid :: u32
  mf_tpc :: u32
  mf_wid :: u32
  mf_mtype :: mf_type
  mf_is_gpu :: bool
  mf_is_cpu :: bool
  mf_atomic :: bool
  mf_status :: mem_fetch_status
  mf_status_change :: u64
  mf_timestamp :: u32
  mf_timestamp2 :: u32
  mf_flit_size :: u32

type_synonym mfp = nat

text \<open>
  What the constructor reads of the rest of the simulator: the number of SIMT clusters, the
  current cycle \<open>gpu_sim_cycle + gpu_tot_sim_cycle\<close> and the interconnect flit size.
\<close>

record mf_env =
  n_simt_clusters :: u32
  now_cycle :: u64
  env_flit_size :: u32

subsection \<open>Operations of \<open>mem_fetch\<close>\<close>

definition new_mem_fetch ::
  "mf_env \<Rightarrow> mem_access_t \<Rightarrow> bool \<Rightarrow> u32 \<Rightarrow> u32 \<Rightarrow> u32 \<Rightarrow> u32 \<Rightarrow> mem_fetch" where
  "new_mem_fetch env acc atomic ctrl wid sid tpc =
     (let gpu = (tpc < n_simt_clusters env) in
      \<lparr>mf_access = acc, mf_data_size = ma_req_size acc, mf_ctrl_size = ctrl,
       mf_sid = sid, mf_tpc = tpc, mf_wid = wid,
       mf_mtype = (if gpu then (if ma_write acc then WRITE_REQUEST else READ_REQUEST)
                   else (if ma_write acc then CPU_WRITE_REQUEST else CPU_READ_REQUEST)),
       mf_is_gpu = gpu, mf_is_cpu = (\<not> gpu), mf_atomic = atomic,
       mf_status = MEM_FETCH_INITIALIZED, mf_status_change = now_cycle env,
       mf_timestamp = ucast (now_cycle env), mf_timestamp2 = 0,
       mf_flit_size = env_flit_size env\<rparr>)"

definition mf_set_status :: "mem_fetch_status \<Rightarrow> u64 \<Rightarrow> mem_fetch \<Rightarrow> mem_fetch" where
  "mf_set_status st cyc mf = mf\<lparr>mf_status := st, mf_status_change := cyc\<rparr>"

abbreviation mf_get_is_write :: "mem_fetch \<Rightarrow> bool" where
  "mf_get_is_write mf \<equiv> ma_write (mf_access mf)"

abbreviation mf_get_access_type :: "mem_fetch \<Rightarrow> mem_access_type" where
  "mf_get_access_type mf \<equiv> ma_type (mf_access mf)"

definition mf_set_reply :: "mem_fetch \<Rightarrow> mem_fetch option" where
  "mf_set_reply mf = do {
     ensure (mf_get_access_type mf \<noteq> L1_WRBK_ACC \<and> mf_get_access_type mf \<noteq> L2_WRBK_ACC);
     (case mf_mtype mf of
        READ_REQUEST \<Rightarrow> do { ensure (\<not> mf_get_is_write mf); Some (mf\<lparr>mf_mtype := READ_REPLY\<rparr>) }
      | WRITE_REQUEST \<Rightarrow> do { ensure (mf_get_is_write mf); Some (mf\<lparr>mf_mtype := WRITE_ACK\<rparr>) }
      | CPU_READ_REQUEST \<Rightarrow>
          do { ensure (\<not> mf_get_is_write mf); Some (mf\<lparr>mf_mtype := CPU_READ_REPLY\<rparr>) }
      | CPU_WRITE_REQUEST \<Rightarrow>
          do { ensure (mf_get_is_write mf); Some (mf\<lparr>mf_mtype := CPU_WRITE_REPLY\<rparr>) }
      | _ \<Rightarrow> Some mf)
   }"

definition mf_size :: "mem_fetch \<Rightarrow> u32" where
  "mf_size mf = mf_data_size mf + mf_ctrl_size mf"

text \<open>The division is by the configured flit size; a zero flit size is a division trap.\<close>

definition get_num_flits :: "bool \<Rightarrow> mem_fetch \<Rightarrow> u32 option" where
  "get_num_flits simt_to_mem mf =
     (let sz = (if simt_to_mem \<and> mf_get_is_write mf \<or>
                   \<not> (simt_to_mem \<or> mf_get_is_write mf)
                then mf_size mf else mf_ctrl_size mf)
      in if mf_flit_size mf = 0 then None
         else Some (sz div mf_flit_size mf + (if sz mod mf_flit_size mf \<noteq> 0 then 1 else 0)))"

subsection \<open>The two allocators\<close>

definition PACKET_SIZE :: u32 where
  "PACKET_SIZE = 8"

definition shader_core_mf_alloc ::
  "mf_env \<Rightarrow> u32 \<Rightarrow> u32 \<Rightarrow> addr \<Rightarrow> mem_access_type \<Rightarrow> u32 \<Rightarrow> bool \<Rightarrow> mem_fetch option" where
  "shader_core_mf_alloc env core_id cluster_id a t sz wr =
     Some (new_mem_fetch env (mem_access t a sz wr) False
             (if wr then PACKET_SIZE else PACKET_SIZE) (- 1) core_id cluster_id)"

text \<open>The overload for an instruction's access: \<open>wid\<close> and \<open>atomic\<close> are read off the instruction.\<close>

definition shader_core_mf_alloc_inst ::
  "mf_env \<Rightarrow> u32 \<Rightarrow> u32 \<Rightarrow> u32 \<Rightarrow> bool \<Rightarrow> mem_access_t \<Rightarrow> mem_fetch" where
  "shader_core_mf_alloc_inst env core_id cluster_id wid atomic acc =
     new_mem_fetch env acc atomic (if ma_write acc then PACKET_SIZE else PACKET_SIZE)
       wid core_id cluster_id"

definition partition_mf_alloc ::
  "mf_env \<Rightarrow> addr \<Rightarrow> mem_access_type \<Rightarrow> u32 \<Rightarrow> bool \<Rightarrow> mem_fetch option" where
  "partition_mf_alloc env a t sz wr = do {
     ensure wr;
     Some (new_mem_fetch env (mem_access t a sz wr) False PACKET_SIZE (- 1) (- 1) (- 1))
   }"

subsection \<open>Properties\<close>

text \<open>What every user of an allocator relies on, whichever cache level it belongs to.\<close>

locale mf_allocator =
  fixes alloc :: "addr \<Rightarrow> mem_access_type \<Rightarrow> u32 \<Rightarrow> bool \<Rightarrow> mem_fetch option"
  assumes alloc_write_total: "\<exists>mf. alloc a t sz True = Some mf"
    and alloc_access: "alloc a t sz wr = Some mf \<Longrightarrow> mf_access mf = mem_access t a sz wr"
    and alloc_size: "alloc a t sz wr = Some mf \<Longrightarrow> mf_data_size mf = sz"
    and alloc_not_atomic: "alloc a t sz wr = Some mf \<Longrightarrow> \<not> mf_atomic mf"
begin

lemma alloc_is_write: "alloc a t sz wr = Some mf \<Longrightarrow> mf_get_is_write mf = wr"
  by (drule alloc_access) (simp add: mem_access_def)

lemma alloc_addr: "alloc a t sz wr = Some mf \<Longrightarrow> ma_addr (mf_access mf) = a"
  by (drule alloc_access) (simp add: mem_access_def)

end

interpretation shader_alloc: mf_allocator "shader_core_mf_alloc env core_id cluster_id"
  by unfold_locales (auto simp: shader_core_mf_alloc_def new_mem_fetch_def mem_access_def Let_def)

interpretation partition_alloc: mf_allocator "partition_mf_alloc env"
  by unfold_locales (auto simp: partition_mf_alloc_def new_mem_fetch_def mem_access_def Let_def split: if_splits)

text \<open>
  The write-back requests an L2 bank allocates carry cluster number \<open>-1\<close>, so the
  constructor's test \<open>m_tpc < n_simt_clusters\<close> fails and they are classified as CPU
  writes, although they evict lines of GPU data.
\<close>

theorem l2_writeback_counts_as_cpu:
  assumes "partition_mf_alloc env a L2_WRBK_ACC sz True = Some mf"
  shows "mf_is_cpu mf \<and> \<not> mf_is_gpu mf \<and> mf_mtype mf = CPU_WRITE_REQUEST"
proof -
  have "\<not> (- 1 < n_simt_clusters env)"
    by (metis linorder_not_less word_n1_ge)
  with assms show ?thesis
    by (auto simp: partition_mf_alloc_def new_mem_fetch_def mem_access_def Let_def)
qed

text \<open>
  A freshly allocated request never fails the assertions of \<open>set_reply\<close> unless it is a
  write-back, the reply type matches the direction and the origin of the request, and a
  second \<open>set_reply\<close> changes nothing.
\<close>

theorem set_reply_new_mem_fetch:
  assumes "ma_type acc \<noteq> L1_WRBK_ACC" and "ma_type acc \<noteq> L2_WRBK_ACC"
    and "mf = new_mem_fetch env acc atomic ctrl wid sid tpc"
  shows "\<exists>r. mf_set_reply mf = Some r \<and> mf_set_reply r = Some r \<and>
           mf_access r = acc \<and> mf_data_size r = ma_req_size acc \<and>
           (mf_mtype r = (if tpc < n_simt_clusters env
              then (if ma_write acc then WRITE_ACK else READ_REPLY)
              else (if ma_write acc then CPU_WRITE_REPLY else CPU_READ_REPLY)))"
  using assms by (simp add: new_mem_fetch_def mf_set_reply_def Let_def)

definition sample_env :: mf_env where
  "sample_env = \<lparr>n_simt_clusters = 15, now_cycle = 7, env_flit_size = 32\<rparr>"

theorem l2_writeback_counts_as_cpu_witness:
  "mf_is_cpu (the (partition_mf_alloc sample_env 0x80 L2_WRBK_ACC 128 True)) \<and>
   \<not> mf_is_gpu (the (partition_mf_alloc sample_env 0x80 L2_WRBK_ACC 128 True)) \<and>
   mf_mtype (the (partition_mf_alloc sample_env 0x80 L2_WRBK_ACC 128 True)) = CPU_WRITE_REQUEST"
  by (rule l2_writeback_counts_as_cpu) (simp add: partition_mf_alloc_def)

theorem set_reply_new_mem_fetch_witness:
  "\<exists>r. mf_set_reply (new_mem_fetch sample_env (mem_access GLOBAL_ACC_R 0x80 128 False)
          False 8 0 1 2) = Some r \<and> mf_mtype r = READ_REPLY"
  using set_reply_new_mem_fetch[of "mem_access GLOBAL_ACC_R 0x80 128 False" _ sample_env
      False 8 0 1 2]
  by (auto simp: mem_access_def sample_env_def)

end
