(* ===== verification/TagArray.thy ===== *)
theory TagArray
  imports CacheConfig
begin

text \<open>
  \<open>cache_block_t\<close> and \<open>tag_array\<close> of \<open>src/gpgpu-sim/gpu-cache.h\<close> and \<open>gpu-cache.cc\<close>: probe,
  access with allocation, fill, flush and the window snapshot.  \<open>m_lines\<close> is the array of
  \<open>nset * assoc\<close> blocks; the sentinel \<open>(unsigned)-1\<close> of \<open>invalid_line\<close> and \<open>valid_line\<close> is
  \<open>None\<close>, and an output index that \<open>probe\<close> leaves untouched is \<open>None\<close> too.  The calls of
  \<open>shader_cache_access_log\<close> (a statistics log) are left out.
\<close>

record cache_block =
  m_tag :: addr
  m_block_addr :: addr
  m_alloc_time :: u32
  m_last_access_time :: u32
  m_fill_time :: u32
  m_status :: cache_block_state

definition new_cache_block :: cache_block where
  "new_cache_block =
     \<lparr>m_tag = 0, m_block_addr = 0, m_alloc_time = 0, m_last_access_time = 0,
      m_fill_time = 0, m_status = INVALID\<rparr>"

definition block_allocate :: "addr \<Rightarrow> addr \<Rightarrow> u32 \<Rightarrow> cache_block \<Rightarrow> cache_block" where
  "block_allocate t ba time b =
     b\<lparr>m_tag := t, m_block_addr := ba, m_alloc_time := time, m_last_access_time := time,
       m_fill_time := 0, m_status := RESERVED\<rparr>"

definition block_fill :: "u32 \<Rightarrow> cache_block \<Rightarrow> cache_block option" where
  "block_fill time b = do {
     ensure (m_status b = RESERVED);
     Some (b\<lparr>m_status := VALID, m_fill_time := time\<rparr>)
   }"

record tag_array =
  m_lines :: "cache_block list"
  m_access :: u32
  m_miss :: u32
  m_pending_hit :: u32
  m_prev_snapshot_access :: u32
  m_prev_snapshot_miss :: u32
  m_prev_snapshot_pending_hit :: u32

definition new_tag_array :: "cache_config \<Rightarrow> tag_array option" where
  "new_tag_array c = do {
     n \<leftarrow> get_num_lines c;
     Some \<lparr>m_lines = replicate (unat n) new_cache_block, m_access = 0, m_miss = 0,
           m_pending_hit = 0, m_prev_snapshot_access = 0, m_prev_snapshot_miss = 0,
           m_prev_snapshot_pending_hit = 0\<rparr>
   }"

subsection \<open>\<open>probe\<close>\<close>

definition replacement_key :: "cache_config \<Rightarrow> cache_block \<Rightarrow> u32" where
  "replacement_key c b =
     (case m_replacement_policy c of LRU \<Rightarrow> m_last_access_time b | FIFO \<Rightarrow> m_alloc_time b)"

text \<open>
  The loop over the ways: its state is \<open>invalid_line\<close>, \<open>valid_line\<close>, \<open>valid_timestamp\<close> and
  \<open>all_reserved\<close>; the empty list is the code after the loop.
\<close>

fun probe_loop ::
  "cache_config \<Rightarrow> addr \<Rightarrow> (nat \<times> cache_block) list \<Rightarrow> nat option \<Rightarrow> nat option \<Rightarrow> u32 \<Rightarrow> bool
   \<Rightarrow> (cache_request_status \<times> nat option) option" where
  "probe_loop c tg [] invalid_line valid_line valid_timestamp all_reserved =
     (if all_reserved
      then (if m_alloc_policy c = ON_MISS then Some (RESERVATION_FAIL, None) else None)
      else if invalid_line \<noteq> None then Some (MISS, invalid_line)
      else if valid_line \<noteq> None then Some (MISS, valid_line)
      else None)"
| "probe_loop c tg ((i, b) # ws) invalid_line valid_line valid_timestamp all_reserved =
     (if m_tag b = tg \<and> m_status b = RESERVED then Some (HIT_RESERVED, Some i)
      else if m_tag b = tg \<and> (m_status b = VALID \<or> m_status b = MODIFIED)
        then Some (HIT, Some i)
      else if m_status b = RESERVED
        then probe_loop c tg ws invalid_line valid_line valid_timestamp all_reserved
      else if m_status b = INVALID
        then probe_loop c tg ws (Some i) valid_line valid_timestamp False
      else if replacement_key c b < valid_timestamp
        then probe_loop c tg ws invalid_line (Some i) (replacement_key c b) False
      else probe_loop c tg ws invalid_line valid_line valid_timestamp False)"

definition set_base :: "cache_config \<Rightarrow> addr \<Rightarrow> nat" where
  "set_base c a = unat (set_index c a) * unat (m_assoc c)"

definition set_ways :: "cache_config \<Rightarrow> tag_array \<Rightarrow> addr \<Rightarrow> (nat \<times> cache_block) list" where
  "set_ways c t a = map (\<lambda>i. (i, m_lines t ! i)) [set_base c a..<set_base c a + unat (m_assoc c)]"

definition tag_probe ::
  "cache_config \<Rightarrow> addr \<Rightarrow> tag_array \<Rightarrow> (cache_request_status \<times> nat option) option" where
  "tag_probe c a t = probe_loop c (tag c a) (set_ways c t a) None None (- 1) True"

subsection \<open>\<open>access\<close>, \<open>fill\<close>, \<open>flush\<close>\<close>

definition update_line :: "nat \<Rightarrow> (cache_block \<Rightarrow> cache_block) \<Rightarrow> tag_array \<Rightarrow> tag_array" where
  "update_line i f t = t\<lparr>m_lines := (m_lines t)[i := f (m_lines t ! i)]\<rparr>"

text \<open>
  The five-argument overload: status, index, the evicted block when a modified line is
  replaced (\<open>wb\<close>), and the new tag array.
\<close>

definition tag_access ::
  "cache_config \<Rightarrow> addr \<Rightarrow> u32 \<Rightarrow> tag_array
   \<Rightarrow> (cache_request_status \<times> nat option \<times> cache_block option \<times> tag_array) option" where
  "tag_access c a time t0 = do {
     let t = t0\<lparr>m_access := m_access t0 + 1\<rparr>;
     (status, idx) \<leftarrow> tag_probe c a t;
     (case status of
        HIT_RESERVED \<Rightarrow>
          Some (status, idx, None,
            update_line (the idx) (\<lambda>b. b\<lparr>m_last_access_time := time\<rparr>)
              (t\<lparr>m_pending_hit := m_pending_hit t + 1\<rparr>))
      | HIT \<Rightarrow>
          Some (status, idx, None,
            update_line (the idx) (\<lambda>b. b\<lparr>m_last_access_time := time\<rparr>) t)
      | MISS \<Rightarrow>
          (let t' = t\<lparr>m_miss := m_miss t + 1\<rparr> in
           if m_alloc_policy c = ON_MISS then
             Some (status, idx,
               (if m_status (m_lines t ! the idx) = MODIFIED
                then Some (m_lines t ! the idx) else None),
               update_line (the idx) (block_allocate (tag c a) (block_addr c a) time) t')
           else Some (status, idx, None, t'))
      | RESERVATION_FAIL \<Rightarrow>
          Some (status, idx, None, t\<lparr>m_miss := m_miss t + 1\<rparr>))
   }"

text \<open>The three-argument overload asserts that nothing dirty was evicted.\<close>

definition tag_access_nowb ::
  "cache_config \<Rightarrow> addr \<Rightarrow> u32 \<Rightarrow> tag_array
   \<Rightarrow> (cache_request_status \<times> nat option \<times> tag_array) option" where
  "tag_access_nowb c a time t = do {
     (status, idx, evicted, t') \<leftarrow> tag_access c a time t;
     ensure (evicted = None);
     Some (status, idx, t')
   }"

definition tag_fill_addr :: "cache_config \<Rightarrow> addr \<Rightarrow> u32 \<Rightarrow> tag_array \<Rightarrow> tag_array option" where
  "tag_fill_addr c a time t = do {
     ensure (m_alloc_policy c = ON_FILL);
     (status, idx) \<leftarrow> tag_probe c a t;
     ensure (status = MISS);
     b \<leftarrow> block_fill time
            (block_allocate (tag c a) (block_addr c a) time (m_lines t ! the idx));
     Some (update_line (the idx) (\<lambda>_. b) t)
   }"

definition tag_fill_idx :: "cache_config \<Rightarrow> nat \<Rightarrow> u32 \<Rightarrow> tag_array \<Rightarrow> tag_array option" where
  "tag_fill_idx c i time t = do {
     ensure (m_alloc_policy c = ON_MISS);
     b \<leftarrow> block_fill time (m_lines t ! i);
     Some (update_line i (\<lambda>_. b) t)
   }"

definition tag_flush :: "tag_array \<Rightarrow> tag_array" where
  "tag_flush t = t\<lparr>m_lines := map (\<lambda>b. b\<lparr>m_status := INVALID\<rparr>) (m_lines t)\<rparr>"

definition tag_new_window :: "tag_array \<Rightarrow> tag_array" where
  "tag_new_window t =
     t\<lparr>m_prev_snapshot_access := m_access t, m_prev_snapshot_miss := m_miss t,
       m_prev_snapshot_pending_hit := m_pending_hit t\<rparr>"

subsection \<open>The tag invariant\<close>

text \<open>
  The array has its configured size and no two live blocks of a set carry the same tag.
\<close>

definition live :: "cache_block \<Rightarrow> bool" where
  "live b \<longleftrightarrow> m_status b \<noteq> INVALID"

definition tags_inv :: "cache_config \<Rightarrow> tag_array \<Rightarrow> bool" where
  [inv_defs]: "tags_inv c t \<longleftrightarrow>
     0 < unat (m_assoc c) \<and>
     length (m_lines t) = unat (m_nset c) * unat (m_assoc c) \<and>
     (\<forall>i < length (m_lines t). \<forall>j < length (m_lines t).
        i div unat (m_assoc c) = j div unat (m_assoc c) \<and> i \<noteq> j \<and>
        live (m_lines t ! i) \<and> live (m_lines t ! j) \<longrightarrow>
        m_tag (m_lines t ! i) \<noteq> m_tag (m_lines t ! j))"

lemma in_set_ways [simp]:
  "(i, b) \<in> set (set_ways c t a) \<longleftrightarrow>
     set_base c a \<le> i \<and> i < set_base c a + unat (m_assoc c) \<and> b = m_lines t ! i"
  by (auto simp: set_ways_def)

lemma same_set_iff:
  assumes "0 < unat (m_assoc c)"
  shows "set_base c a \<le> i \<and> i < set_base c a + unat (m_assoc c) \<longleftrightarrow>
    i div unat (m_assoc c) = unat (set_index c a)"
proof
  assume "set_base c a \<le> i \<and> i < set_base c a + unat (m_assoc c)"
  then show "i div unat (m_assoc c) = unat (set_index c a)"
    by (intro div_nat_eqI) (simp_all add: set_base_def mult.commute)
next
  assume e: "i div unat (m_assoc c) = unat (set_index c a)"
  then have "i = set_base c a + i mod unat (m_assoc c)"
    unfolding set_base_def by (metis div_mult_mod_eq)
  with mod_less_divisor[OF assms, of i]
  show "set_base c a \<le> i \<and> i < set_base c a + unat (m_assoc c)"
    by (intro conjI) linarith+
qed

lemma set_in_range:
  assumes "config_wf c l k" "tags_inv c t" "i < set_base c a + unat (m_assoc c)"
  shows "i < length (m_lines t)"
proof -
  have "unat (set_index c a) < unat (m_nset c)"
    using set_index_less[OF assms(1)] assms(1) unat_pow2[of k] by (simp add: config_wf_def)
  then have "(unat (set_index c a) + 1) * unat (m_assoc c) \<le> unat (m_nset c) * unat (m_assoc c)"
    by (intro mult_le_mono1) simp
  then show ?thesis using assms(2,3) by (simp add: tags_inv_def set_base_def)
qed

lemma probe_loop_step:
  "probe_loop c tg ((i, b) # ws) iv vl vt ar =
    (if m_tag b = tg \<and> live b
     then Some (if m_status b = RESERVED then HIT_RESERVED else HIT, Some i)
     else let better = (m_status b \<noteq> RESERVED \<and> live b \<and> replacement_key c b < vt)
       in probe_loop c tg ws (if live b then iv else Some i) (if better then Some i else vl)
            (if better then replacement_key c b else vt) (ar \<and> m_status b = RESERVED))"
  by (cases "m_status b") (simp_all add: live_def)

declare probe_loop.simps(2) [simp del]

lemma probe_loop_hit:
  assumes "probe_loop c tg ws iv vl vt ar = Some (st, io)" "st = HIT \<or> st = HIT_RESERVED"
  shows "\<exists>i b. io = Some i \<and> (i, b) \<in> set ws \<and> m_tag b = tg \<and> live b \<and>
     st = (if m_status b = RESERVED then HIT_RESERVED else HIT)"
  using assms
proof (induction ws arbitrary: iv vl vt ar)
  case Nil
  then show ?case by (auto split: if_splits)
next
  case (Cons w ws)
  obtain j b where w: "w = (j, b)" by (cases w)
  show ?case
  proof (cases "m_tag b = tg \<and> live b")
    case True
    with Cons.prems have "io = Some j" "st = (if m_status b = RESERVED then HIT_RESERVED else HIT)"
      by (auto simp: w probe_loop_step)
    with True show ?thesis by (intro exI[of _ j] exI[of _ b]) (simp add: w)
  next
    case False
    with Cons.prems obtain iv vl vt ar where "probe_loop c tg ws iv vl vt ar = Some (st, io)"
      by (auto simp: w probe_loop_step Let_def)
    from Cons.IH[OF this Cons.prems(2)] show ?thesis by auto
  qed
qed

lemma probe_loop_absent:
  assumes "probe_loop c tg ws iv vl vt ar = Some (st, io)" "st = MISS \<or> st = RESERVATION_FAIL"
    "(i, b) \<in> set ws"
  shows "\<not> (m_tag b = tg \<and> live b)"
  using assms
proof (induction ws arbitrary: iv vl vt ar)
  case Nil
  then show ?case by simp
next
  case (Cons w ws)
  obtain j d where w: "w = (j, d)" by (cases w)
  from Cons.prems have nl: "\<not> (m_tag d = tg \<and> live d)"
    by (auto simp: w probe_loop_step split: if_splits)
  with Cons.prems obtain iv vl vt ar where "probe_loop c tg ws iv vl vt ar = Some (st, io)"
    by (auto simp: w probe_loop_step Let_def)
  from Cons.IH[OF this Cons.prems(2)] Cons.prems(3) nl show ?case by (auto simp: w)
qed

lemma probe_loop_fail:
  assumes "probe_loop c tg ws iv vl vt ar = Some (RESERVATION_FAIL, io)"
  shows "ar \<and> io = None \<and> m_alloc_policy c = ON_MISS \<and> (\<forall>(i, b) \<in> set ws. m_status b = RESERVED)"
  using assms
proof (induction ws arbitrary: iv vl vt ar)
  case Nil
  then show ?case by (auto split: if_splits)
next
  case (Cons w ws)
  obtain j d where w: "w = (j, d)" by (cases w)
  from Cons.prems have nl: "\<not> (m_tag d = tg \<and> live d)"
    by (auto simp: w probe_loop_step split: if_splits)
  with Cons.prems obtain iv vl vt where "probe_loop c tg ws iv vl vt (ar \<and> m_status d = RESERVED) = Some (RESERVATION_FAIL, io)"
    by (auto simp: w probe_loop_step Let_def)
  from Cons.IH[OF this] show ?case by (auto simp: w)
qed

definition key_minimal :: "cache_config \<Rightarrow> (nat \<times> cache_block) list \<Rightarrow> u32 \<Rightarrow> bool" where
  "key_minimal c ws k \<longleftrightarrow> (\<forall>(j, d) \<in> set ws. m_status d \<noteq> RESERVED \<longrightarrow> k \<le> replacement_key c d)"

lemma key_minimal_simps [simp]:
  "key_minimal c [] k"
  "key_minimal c ((j, d) # ws) k \<longleftrightarrow>
     (m_status d \<noteq> RESERVED \<longrightarrow> k \<le> replacement_key c d) \<and> key_minimal c ws k"
  by (auto simp: key_minimal_def)

lemma key_minimal_le: "key_minimal c ws k \<Longrightarrow> k' \<le> k \<Longrightarrow> key_minimal c ws k'"
  by (fastforce simp: key_minimal_def)

text \<open>Which way the loop picks, given the candidates it has already seen.\<close>

definition victim_of ::
  "cache_config \<Rightarrow> (nat \<times> cache_block) list \<Rightarrow> nat option \<Rightarrow> nat option \<Rightarrow> u32 \<Rightarrow> nat \<Rightarrow> bool" where
  "victim_of c ws iv vl vt i \<longleftrightarrow>
     iv = Some i \<or> (\<exists>b. (i, b) \<in> set ws \<and> \<not> live b) \<or>
     iv = None \<and> (\<forall>(j, d) \<in> set ws. live d) \<and> vl = Some i \<and> key_minimal c ws vt \<or>
     iv = None \<and> (\<forall>(j, d) \<in> set ws. live d) \<and>
       (\<exists>b. (i, b) \<in> set ws \<and> m_status b \<noteq> RESERVED \<and> replacement_key c b < vt \<and>
            key_minimal c ws (replacement_key c b))"

lemma victim_of_invalid:
  "\<not> live d \<Longrightarrow> victim_of c ws (Some j) vl vt i \<Longrightarrow> victim_of c ((j, d) # ws) iv vl vt i"
  by (auto simp: victim_of_def)

lemma victim_of_better:
  assumes "live d" "m_status d \<noteq> RESERVED" "replacement_key c d < vt"
    "victim_of c ws iv (Some j) (replacement_key c d) i"
  shows "victim_of c ((j, d) # ws) iv vl vt i"
  using assms(4)[unfolded victim_of_def]
proof (elim disjE conjE exE)
  fix b assume "iv = None" "\<forall>(j, d) \<in> set ws. live d" "(i, b) \<in> set ws" "m_status b \<noteq> RESERVED"
    "replacement_key c b < replacement_key c d" "key_minimal c ws (replacement_key c b)"
  with assms(1-3) show "victim_of c ((j, d) # ws) iv vl vt i" unfolding victim_of_def
    by (intro disjI2 conjI exI[of _ b]) auto
qed (use assms(1-3) in \<open>auto simp: victim_of_def\<close>)

lemma victim_of_keep:
  assumes "live d" "m_status d = RESERVED \<or> \<not> replacement_key c d < vt"
    "victim_of c ws iv vl vt i"
  shows "victim_of c ((j, d) # ws) iv vl vt i"
  using assms(3)[unfolded victim_of_def]
proof (elim disjE conjE exE)
  fix b assume "iv = None" "\<forall>(j, d) \<in> set ws. live d" "(i, b) \<in> set ws" "m_status b \<noteq> RESERVED"
    "replacement_key c b < vt" "key_minimal c ws (replacement_key c b)"
  with assms(1,2) show "victim_of c ((j, d) # ws) iv vl vt i" unfolding victim_of_def
    by (intro disjI2 conjI exI[of _ b]) auto
qed (use assms(1,2) in \<open>auto simp: victim_of_def\<close>)

lemma probe_loop_victim:
  assumes "probe_loop c tg ws iv vl vt ar = Some (MISS, io)"
  shows "\<exists>i. io = Some i \<and> victim_of c ws iv vl vt i"
  using assms
proof (induction ws arbitrary: iv vl vt ar)
  case Nil
  then show ?case by (auto split: if_splits simp: victim_of_def)
next
  case (Cons w ws)
  obtain j d where w: "w = (j, d)" by (cases w)
  from Cons.prems have nl: "\<not> (m_tag d = tg \<and> live d)"
    by (auto simp: w probe_loop_step split: if_splits)
  show ?case
  proof (cases "live d")
    case False
    with Cons.prems nl have "probe_loop c tg ws (Some j) vl vt (ar \<and> m_status d = RESERVED) = Some (MISS, io)"
      by (simp add: w probe_loop_step)
    from Cons.IH[OF this] False show ?thesis by (auto simp: w intro: victim_of_invalid)
  next
    case True
    show ?thesis
    proof (cases "m_status d \<noteq> RESERVED \<and> replacement_key c d < vt")
      case better: True
      with True Cons.prems nl have "probe_loop c tg ws iv (Some j) (replacement_key c d) (ar \<and> m_status d = RESERVED) = Some (MISS, io)"
        by (simp add: w probe_loop_step)
      from Cons.IH[OF this] True better show ?thesis by (auto simp: w intro: victim_of_better)
    next
      case False
      with True Cons.prems nl have "probe_loop c tg ws iv vl vt (ar \<and> m_status d = RESERVED) = Some (MISS, io)"
        by (simp add: w probe_loop_step Let_def split: if_splits)
      from Cons.IH[OF this] True False show ?thesis by (auto simp: w intro: victim_of_keep)
    qed
  qed
qed

subsection \<open>\<open>probe\<close>: functional behaviour\<close>

lemma tag_probe_hit:
  assumes "tag_probe c a t = Some (st, io)" "st = HIT \<or> st = HIT_RESERVED"
  shows "\<exists>i. io = Some i \<and> set_base c a \<le> i \<and> i < set_base c a + unat (m_assoc c) \<and>
    m_tag (m_lines t ! i) = tag c a \<and> live (m_lines t ! i) \<and>
    st = (if m_status (m_lines t ! i) = RESERVED then HIT_RESERVED else HIT)"
  using probe_loop_hit[OF assms(1)[unfolded tag_probe_def] assms(2)] by auto

lemma tag_probe_absent:
  assumes "tag_probe c a t = Some (st, io)" "st = MISS \<or> st = RESERVATION_FAIL"
    "set_base c a \<le> i" "i < set_base c a + unat (m_assoc c)"
  shows "\<not> (m_tag (m_lines t ! i) = tag c a \<and> live (m_lines t ! i))"
  using probe_loop_absent[OF assms(1)[unfolded tag_probe_def] assms(2), of i] assms(3,4) by auto

lemma probe_loop_total:
  assumes "m_alloc_policy c = ON_MISS" "\<forall>(j, d) \<in> set ws. replacement_key c d < - 1"
    "vl \<noteq> None \<or> vt = - 1" "ar \<or> iv \<noteq> None \<or> vl \<noteq> None"
  shows "probe_loop c tg ws iv vl vt ar \<noteq> None"
  using assms
proof (induction ws arbitrary: iv vl vt ar)
  case Nil
  then show ?case by auto
next
  case (Cons w ws)
  obtain j d where w: "w = (j, d)" by (cases w)
  show ?case
  proof (cases "m_tag d = tg \<and> live d")
    case False
    have "replacement_key c d < - 1" using Cons.prems(2) by (simp add: w)
    then show ?thesis using False Cons.prems unfolding w probe_loop_step Let_def
      by (simp only: if_False) (rule Cons.IH, auto)
  qed (simp add: w probe_loop_step)
qed

lemma tag_probe_miss:
  assumes "tag_probe c a t = Some (MISS, io)"
  obtains i where "io = Some i" "set_base c a \<le> i" "i < set_base c a + unat (m_assoc c)"
    "m_status (m_lines t ! i) \<noteq> RESERVED"
    "\<And>j. set_base c a \<le> j \<Longrightarrow> j < set_base c a + unat (m_assoc c) \<Longrightarrow> live (m_lines t ! i) \<Longrightarrow>
       m_status (m_lines t ! j) \<noteq> RESERVED \<Longrightarrow>
       live (m_lines t ! j) \<and> replacement_key c (m_lines t ! i) \<le> replacement_key c (m_lines t ! j)"
proof -
  from assms obtain i where i: "io = Some i" and v: "victim_of c (set_ways c t a) None None (- 1) i"
    using probe_loop_victim unfolding tag_probe_def by blast
  have "set_base c a \<le> i" "i < set_base c a + unat (m_assoc c)" "m_status (m_lines t ! i) \<noteq> RESERVED"
    using v by (auto simp: victim_of_def live_def)
  moreover have "live (m_lines t ! j) \<and> replacement_key c (m_lines t ! i) \<le> replacement_key c (m_lines t ! j)"
    if "set_base c a \<le> j" "j < set_base c a + unat (m_assoc c)" "live (m_lines t ! i)"
      "m_status (m_lines t ! j) \<noteq> RESERVED" for j
    using v that by (auto simp: victim_of_def key_minimal_def)
  ultimately show thesis using that i by blast
qed

lemma tag_probe_fail:
  assumes "tag_probe c a t = Some (RESERVATION_FAIL, io)"
  shows "io = None" "set_base c a \<le> i \<Longrightarrow> i < set_base c a + unat (m_assoc c) \<Longrightarrow>
    m_status (m_lines t ! i) = RESERVED"
  using probe_loop_fail[OF assms[unfolded tag_probe_def]] by auto

text \<open>\<open>i\<close> is the index of a way of the set that \<open>a\<close> maps to.\<close>

definition way_of :: "cache_config \<Rightarrow> addr \<Rightarrow> nat \<Rightarrow> bool" where
  "way_of c a i \<longleftrightarrow> i div unat (m_assoc c) = unat (set_index c a)"

lemma way_of_iff: "0 < unat (m_assoc c) \<Longrightarrow>
   way_of c a i \<longleftrightarrow> set_base c a \<le> i \<and> i < set_base c a + unat (m_assoc c)"
  using same_set_iff by (simp add: way_of_def)

text \<open>The answer of a probe, stated on the set and not on the loop.\<close>

definition probe_spec ::
  "cache_config \<Rightarrow> addr \<Rightarrow> tag_array \<Rightarrow> cache_request_status \<Rightarrow> nat option \<Rightarrow> bool" where
  "probe_spec c a t st io \<longleftrightarrow>
    (case st of
       RESERVATION_FAIL \<Rightarrow> io = None \<and>
         (\<forall>j. way_of c a j \<longrightarrow> m_status (m_lines t ! j) = RESERVED \<and> m_tag (m_lines t ! j) \<noteq> tag c a)
     | MISS \<Rightarrow> (\<exists>i. io = Some i \<and> way_of c a i \<and> m_status (m_lines t ! i) \<noteq> RESERVED \<and>
         (\<forall>j. way_of c a j \<longrightarrow> \<not> (live (m_lines t ! j) \<and> m_tag (m_lines t ! j) = tag c a)) \<and>
         (\<forall>j. way_of c a j \<and> live (m_lines t ! i) \<and> m_status (m_lines t ! j) \<noteq> RESERVED \<longrightarrow>
            live (m_lines t ! j) \<and>
            replacement_key c (m_lines t ! i) \<le> replacement_key c (m_lines t ! j)))
     | _ \<Rightarrow> (\<exists>i. io = Some i \<and> way_of c a i \<and> m_tag (m_lines t ! i) = tag c a \<and>
         live (m_lines t ! i) \<and>
         st = (if m_status (m_lines t ! i) = RESERVED then HIT_RESERVED else HIT)))"

lemma probe_spec_holds:
  assumes p: "tag_probe c a t = Some (st, io)" and pos: "0 < unat (m_assoc c)"
  shows "probe_spec c a t st io"
proof (cases "st = MISS")
  case True
  with p have p': "tag_probe c a t = Some (MISS, io)" by simp
  from tag_probe_miss[OF this] obtain i where i: "io = Some i" "way_of c a i"
    "m_status (m_lines t ! i) \<noteq> RESERVED"
    and m: "\<And>j. way_of c a j \<Longrightarrow> live (m_lines t ! i) \<Longrightarrow> m_status (m_lines t ! j) \<noteq> RESERVED \<Longrightarrow>
       live (m_lines t ! j) \<and> replacement_key c (m_lines t ! i) \<le> replacement_key c (m_lines t ! j)"
    unfolding way_of_iff[OF pos] by metis
  have "\<And>j. way_of c a j \<Longrightarrow> \<not> (live (m_lines t ! j) \<and> m_tag (m_lines t ! j) = tag c a)"
    using tag_probe_absent[OF p'] unfolding way_of_iff[OF pos] by blast
  with i m show ?thesis by (simp add: probe_spec_def True)
next
  case False
  show ?thesis
  proof (cases "st = RESERVATION_FAIL")
    case True
    with p have p': "tag_probe c a t = Some (RESERVATION_FAIL, io)" by simp
    have r: "m_status (m_lines t ! j) = RESERVED" if "way_of c a j" for j
      using tag_probe_fail(2)[OF p'] that by (simp add: way_of_iff[OF pos])
    moreover have "m_tag (m_lines t ! j) \<noteq> tag c a" if "way_of c a j" for j
      using tag_probe_absent[OF p', of j] r[OF that] that by (simp add: way_of_iff[OF pos] live_def)
    ultimately show ?thesis using tag_probe_fail(1)[OF p'] True by (simp add: probe_spec_def)
  next
    case nf: False
    with False have h: "st = HIT \<or> st = HIT_RESERVED" by (cases st) auto
    from tag_probe_hit[OF p h] obtain i where i: "io = Some i" "way_of c a i"
      "m_tag (m_lines t ! i) = tag c a" "live (m_lines t ! i)"
      "st = (if m_status (m_lines t ! i) = RESERVED then HIT_RESERVED else HIT)"
      unfolding way_of_iff[OF pos] by blast
    then show ?thesis using h unfolding probe_spec_def by (auto simp del: if_split_asm split: cache_request_status.split)
  qed
qed

text \<open>
  C33: with on-miss allocation \<open>probe\<close> never reaches \<open>abort()\<close> as long as no block carries
  the timestamp \<open>0xFFFFFFFF\<close>; it answers with a hit in the block that holds the tag, a miss
  whose victim is an invalid way or, when all ways are live, a non-reserved way of least
  replacement key, or a reservation failure exactly because every way is reserved.
\<close>

theorem tag_probe_spec:
  assumes "m_alloc_policy c = ON_MISS"
    and "\<forall>b \<in> set (m_lines t). replacement_key c b < - 1"
    and "config_wf c l k" and "tags_inv c t"
  shows "\<exists>st io. tag_probe c a t = Some (st, io) \<and> probe_spec c a t st io"
proof -
  have pos: "0 < unat (m_assoc c)" using assms(4) by (simp add: tags_inv_def)
  have rng: "m_lines t ! i \<in> set (m_lines t)" if "i < set_base c a + unat (m_assoc c)" for i
    using set_in_range[OF assms(3,4) that] by simp
  have "tag_probe c a t \<noteq> None" unfolding tag_probe_def
    by (rule probe_loop_total) (use assms(1,2) rng in auto)
  then obtain st io where p: "tag_probe c a t = Some (st, io)" by auto
  with probe_spec_holds[OF p pos] show ?thesis by blast
qed

subsection \<open>The invariant is kept\<close>

lemma new_tag_array_inv:
  assumes "new_tag_array c = Some t" "0 < unat (m_assoc c)"
    "unat (m_nset c) * unat (m_assoc c) < 2 ^ 32"
  shows "tags_inv c t"
proof -
  have "unat (m_nset c * m_assoc c) = unat (m_nset c) * unat (m_assoc c)"
    using assms(3) by (simp add: unat_word_ariths)
  then show ?thesis using assms
    by (auto simp: new_tag_array_def get_num_lines_def tags_inv_def live_def new_cache_block_def
        split: if_splits)
qed

lemma tags_inv_cong:
  "m_lines t' = m_lines t \<Longrightarrow> tags_inv c t' = tags_inv c t"
  by (simp add: tags_inv_def)

lemma update_line_inv:
  assumes "tags_inv c t" "m_tag (f (m_lines t ! i)) = m_tag (m_lines t ! i)"
    "live (f (m_lines t ! i)) \<longrightarrow> live (m_lines t ! i)"
  shows "tags_inv c (update_line i f t)"
  using assms unfolding tags_inv_def update_line_def
  by (cases "i < length (m_lines t)")
     (auto simp: nth_list_update list_update_beyond split: if_splits)

lemma allocate_inv:
  assumes "tags_inv c t" "i < length (m_lines t)"
    "\<forall>j < length (m_lines t). j div unat (m_assoc c) = i div unat (m_assoc c) \<longrightarrow>
       \<not> (m_tag (m_lines t ! j) = tg \<and> live (m_lines t ! j))"
  shows "tags_inv c (update_line i (block_allocate tg ba time) t)"
  using assms unfolding tags_inv_def update_line_def
  by (auto simp: nth_list_update block_allocate_def)

lemma tag_probe_cong: "m_lines t' = m_lines t \<Longrightarrow> tag_probe c a t' = tag_probe c a t"
  by (simp add: tag_probe_def set_ways_def)

lemma tag_probe_index:
  assumes "tag_probe c a t = Some (st, io)" "st \<noteq> RESERVATION_FAIL"
  shows "\<exists>i. io = Some i \<and> set_base c a \<le> i \<and> i < set_base c a + unat (m_assoc c)"
proof (cases "st = MISS")
  case True
  with assms probe_loop_victim[of c _ "set_ways c t a"] show ?thesis
    by (fastforce simp: tag_probe_def victim_of_def)
next
  case False
  with assms tag_probe_hit[OF assms(1)] show ?thesis by (cases st) auto
qed

text \<open>\<open>access\<close> as one equation over the answer of the probe.\<close>

definition tag_access_tags ::
  "cache_config \<Rightarrow> addr \<Rightarrow> u32 \<Rightarrow> cache_request_status \<Rightarrow> nat option \<Rightarrow> tag_array \<Rightarrow> tag_array" where
  "tag_access_tags c a time st io t =
    (case st of
       MISS \<Rightarrow> if m_alloc_policy c = ON_MISS
         then update_line (the io) (block_allocate (tag c a) (block_addr c a) time) t else t
     | RESERVATION_FAIL \<Rightarrow> t
     | _ \<Rightarrow> update_line (the io) (\<lambda>b. b\<lparr>m_last_access_time := time\<rparr>) t)"

lemma tag_access_lines:
  assumes "tag_access c a time t = Some (st, io, ev, t')"
  shows "tag_probe c a t = Some (st, io)"
    and "m_lines t' = m_lines (tag_access_tags c a time st io t)"
    and "ev = (if st = MISS \<and> m_alloc_policy c = ON_MISS \<and> m_status (m_lines t ! the io) = MODIFIED
               then Some (m_lines t ! the io) else None)"
proof -
  have pc: "tag_probe c a (t\<lparr>m_access := n\<rparr>) = tag_probe c a t" for n
    by (rule tag_probe_cong) simp
  obtain s i where p: "tag_probe c a t = Some (s, i)"
    using assms by (cases "tag_probe c a t") (auto simp: tag_access_def pc)
  note d = assms[unfolded tag_access_def Let_def pc p, simplified]
  have si: "s = st \<and> i = io"
    using d by (cases s; cases "m_alloc_policy c") simp_all
  with p show "tag_probe c a t = Some (st, io)" by simp
  from d si show "m_lines t' = m_lines (tag_access_tags c a time st io t)"
    by (cases st; cases "m_alloc_policy c") (auto simp: tag_access_tags_def update_line_def)
  from d si show "ev = (if st = MISS \<and> m_alloc_policy c = ON_MISS \<and>
      m_status (m_lines t ! the io) = MODIFIED then Some (m_lines t ! the io) else None)"
    by (cases st; cases "m_alloc_policy c") auto
qed

lemma touch_inv: "tags_inv c t \<Longrightarrow>
   tags_inv c (update_line i (\<lambda>b. b\<lparr>m_last_access_time := time\<rparr>) t)"
  by (rule update_line_inv) (simp_all add: live_def)

lemma tag_access_keeps_inv:
  assumes "tag_access c a time t = Some (st, io, ev, t')" "tags_inv c t" "config_wf c l k"
  shows "tags_inv c t'"
proof -
  note cs = tag_access_lines[OF assms(1)]
  have pos: "0 < unat (m_assoc c)" using assms(2) by (simp add: tags_inv_def)
  have "tags_inv c (tag_access_tags c a time st io t)"
  proof (cases "st = MISS \<and> m_alloc_policy c = ON_MISS")
    case True
    with tag_probe_index[OF cs(1)] obtain i where i: "io = Some i" "set_base c a \<le> i"
      "i < set_base c a + unat (m_assoc c)" by auto
    have e: "i div unat (m_assoc c) = unat (set_index c a)"
      using same_set_iff[OF pos, of a i] i by simp
    have "tags_inv c (update_line i (block_allocate (tag c a) (block_addr c a) time) t)"
    proof (rule allocate_inv[OF assms(2) set_in_range[OF assms(3,2) i(3)]], intro allI impI)
      fix j assume "j div unat (m_assoc c) = i div unat (m_assoc c)"
      with e same_set_iff[OF pos, of a j] tag_probe_absent[OF cs(1), of j] True
      show "\<not> (m_tag (m_lines t ! j) = tag c a \<and> live (m_lines t ! j))" by simp
    qed
    with True i(1) show ?thesis by (simp add: tag_access_tags_def)
  next
    case False
    with assms(2) show ?thesis
      by (cases st; cases "m_alloc_policy c") (simp_all add: tag_access_tags_def touch_inv)
  qed
  then show ?thesis using tags_inv_cong[OF cs(2)] by simp
qed

text \<open>
  An access keeps the tag invariant, so no set ever holds two live blocks with the same
  tag, whatever the sequence of hits, misses and allocations.
\<close>

theorem tag_access_inv:
  assumes "tag_access c a time t = Some (st, io, ev, t')" and "tags_inv c t"
    and "config_wf c l k"
  shows "tags_inv c t'"
  by (rule tag_access_keeps_inv[OF assms])

subsection \<open>A line that was missed, filled and read again\<close>

lemma probe_loop_finds:
  assumes "\<exists>i b. (i, b) \<in> set ws \<and> m_tag b = tg \<and> live b"
  shows "\<exists>st io. probe_loop c tg ws iv vl vt ar = Some (st, io) \<and> (st = HIT \<or> st = HIT_RESERVED)"
  using assms
proof (induction ws arbitrary: iv vl vt ar)
  case (Cons w ws)
  obtain j d where w: "w = (j, d)" by (cases w)
  show ?case
  proof (cases "m_tag d = tg \<and> live d")
    case False
    with Cons.prems have "\<exists>i b. (i, b) \<in> set ws \<and> m_tag b = tg \<and> live b" by (auto simp: w)
    from Cons.IH[OF this] False show ?thesis by (simp only: w probe_loop_step if_False Let_def)
  qed (simp add: w probe_loop_step)
qed simp

lemma tag_probe_unique:
  assumes inv: "tags_inv c t" and wf: "config_wf c l k"
    and i: "way_of c a i" "m_tag (m_lines t ! i) = tag c a" "live (m_lines t ! i)"
  shows "tag_probe c a t =
    Some (if m_status (m_lines t ! i) = RESERVED then HIT_RESERVED else HIT, Some i)"
proof -
  have pos: "0 < unat (m_assoc c)" using inv by (simp add: tags_inv_def)
  have "\<exists>j b. (j, b) \<in> set (set_ways c t a) \<and> m_tag b = tag c a \<and> live b"
    using i way_of_iff[OF pos] by auto
  from probe_loop_finds[OF this] obtain st io where p: "tag_probe c a t = Some (st, io)"
    and h: "st = HIT \<or> st = HIT_RESERVED" unfolding tag_probe_def by blast
  from tag_probe_hit[OF p h] obtain j where j: "io = Some j" "way_of c a j"
    "m_tag (m_lines t ! j) = tag c a" "live (m_lines t ! j)"
    "st = (if m_status (m_lines t ! j) = RESERVED then HIT_RESERVED else HIT)"
    unfolding way_of_iff[OF pos] by blast
  have r: "x < length (m_lines t)" if "way_of c a x" for x
    using set_in_range[OF wf inv] that way_of_iff[OF pos] by blast
  have "i div unat (m_assoc c) = j div unat (m_assoc c)" using i(1) j(2) by (simp add: way_of_def)
  with inv[unfolded tags_inv_def] r[OF i(1)] r[OF j(2)] i(2,3) j(3,4) have "i = j" by metis
  with p j(1,5) show ?thesis by simp
qed

lemma miss_fill_facts:
  assumes "tag_access c a time t = Some (MISS, Some i, ev, t1)"
    and "m_alloc_policy c = ON_MISS" and "tags_inv c t" and "config_wf c l k"
    and "tag c a' = tag c a" and "set_index c a' = set_index c a"
  shows "\<exists>t2. tag_probe c a' t1 = Some (HIT_RESERVED, Some i) \<and>
    tag_fill_idx c i time' t1 = Some t2 \<and> tag_probe c a' t2 = Some (HIT, Some i) \<and>
    i < length (m_lines t1) \<and> length (m_lines t2) = length (m_lines t1) \<and>
    tag_probe c a' (update_line i (\<lambda>b. b\<lparr>m_status := MODIFIED\<rparr>) t2) = Some (HIT, Some i)"
proof -
  note cs = tag_access_lines[OF assms(1)]
  have pos: "0 < unat (m_assoc c)" using assms(3) by (simp add: tags_inv_def)
  have inv1: "tags_inv c t1" by (rule tag_access_keeps_inv[OF assms(1,3,4)])
  from tag_probe_index[OF cs(1)] have "way_of c a i" unfolding way_of_iff[OF pos] by auto
  then have w: "way_of c a' i" using assms(6) by (simp add: way_of_def)
  have il: "i < length (m_lines t)"
    using set_in_range[OF assms(4,3)] \<open>way_of c a i\<close> way_of_iff[OF pos] by blast
  have l1: "m_lines t1 = (m_lines t)[i := block_allocate (tag c a) (block_addr c a) time (m_lines t ! i)]"
    using cs(2) assms(2) by (simp add: tag_access_tags_def update_line_def)
  have b1: "m_tag (m_lines t1 ! i) = tag c a'" "m_status (m_lines t1 ! i) = RESERVED"
    using il assms(5) by (simp_all add: l1 block_allocate_def)
  have p1: "tag_probe c a' t1 = Some (HIT_RESERVED, Some i)"
    using tag_probe_unique[OF inv1 assms(4) w b1(1)] b1(2) by (simp add: live_def)
  define t2 where "t2 = update_line i (\<lambda>_. (m_lines t1 ! i)\<lparr>m_status := VALID, m_fill_time := time'\<rparr>) t1"
  have f: "tag_fill_idx c i time' t1 = Some t2"
    using assms(2) b1(2) by (simp add: tag_fill_idx_def block_fill_def t2_def)
  have inv2: "tags_inv c t2" unfolding t2_def
    by (rule update_line_inv[OF inv1]) (simp_all add: live_def b1)
  have b2: "m_tag (m_lines t2 ! i) = tag c a'" "m_status (m_lines t2 ! i) = VALID"
    using il b1 by (simp_all add: t2_def update_line_def l1)
  have "tag_probe c a' t2 = Some (HIT, Some i)"
    using tag_probe_unique[OF inv2 assms(4) w b2(1)] b2(2) by (simp add: live_def)
  define t3 where "t3 = update_line i (\<lambda>b. b\<lparr>m_status := MODIFIED\<rparr>) t2"
  have inv3: "tags_inv c t3" unfolding t3_def
    by (rule update_line_inv[OF inv2]) (simp_all add: live_def b2)
  have b3: "m_tag (m_lines t3 ! i) = tag c a'" "m_status (m_lines t3 ! i) = MODIFIED"
    using il b2 by (simp_all add: t3_def t2_def update_line_def l1)
  have p3: "tag_probe c a' t3 = Some (HIT, Some i)"
    using tag_probe_unique[OF inv3 assms(4) w b3(1)] b3(2) by (simp add: live_def)
  have "i < length (m_lines t1)" "length (m_lines t2) = length (m_lines t1)"
    using il by (simp_all add: l1 t2_def update_line_def)
  then show ?thesis using p1 f p3[unfolded t3_def] \<open>tag_probe c a' t2 = Some (HIT, Some i)\<close> by blast
qed

text \<open>
  With on-miss allocation, a missed line is found reserved at once and, after \<open>fill\<close> at
  the index the miss returned, every address of the same line hits that block.
\<close>

theorem miss_fill_hit:
  assumes "tag_access c a time t = Some (MISS, Some i, ev, t1)"
    and "m_alloc_policy c = ON_MISS" and "tags_inv c t" and "config_wf c l k"
    and "tag c a' = tag c a" and "set_index c a' = set_index c a"
  shows "tag_probe c a' t1 = Some (HIT_RESERVED, Some i) \<and>
    (\<exists>t2. tag_fill_idx c i time' t1 = Some t2 \<and> tag_probe c a' t2 = Some (HIT, Some i))"
  using miss_fill_facts[OF assms, of time'] by blast

lemma tag_fill_idx_inv:
  assumes "tag_fill_idx c i time t = Some t'" "tags_inv c t"
  shows "tags_inv c t'"
proof -
  from assms(1) have r: "m_status (m_lines t ! i) = RESERVED"
    and t': "t' = update_line i (\<lambda>_. (m_lines t ! i)\<lparr>m_status := VALID, m_fill_time := time\<rparr>) t"
    by (auto simp: tag_fill_idx_def block_fill_def split: if_splits)
  show ?thesis unfolding t' by (rule update_line_inv[OF assms(2)]) (simp_all add: live_def r)
qed

lemma tag_flush_inv: "tags_inv c t \<Longrightarrow> tags_inv c (tag_flush t)"
  by (simp add: tags_inv_def tag_flush_def live_def)

subsection \<open>Concrete instances\<close>

definition sample_tags :: tag_array where
  "sample_tags = the (new_tag_array sample_config)"

lemma sample_tags_lines: "m_lines sample_tags = replicate 4 new_cache_block"
  by (simp add: sample_tags_def new_tag_array_def get_num_lines_def sample_config_def)

lemma sample_tags_inv: "tags_inv sample_config sample_tags"
  by (rule new_tag_array_inv)
    (simp_all add: sample_tags_def new_tag_array_def get_num_lines_def sample_config_def)

theorem tag_probe_spec_witness:
  "\<exists>st io. tag_probe sample_config 0x80 sample_tags = Some (st, io) \<and>
     probe_spec sample_config 0x80 sample_tags st io"
  by (rule tag_probe_spec[OF _ _ sample_config_wf sample_tags_inv])
    (simp_all add: sample_tags_lines, simp_all add: sample_config_def replacement_key_def new_cache_block_def word_gt_0)

lemma sample_miss:
  "tag_access sample_config 0x80 5 sample_tags =
     Some (MISS, Some 3, None, the (map_option (snd \<circ> snd \<circ> snd) (tag_access sample_config 0x80 5 sample_tags)))"
  by code_simp

theorem tag_access_inv_witness:
  "tags_inv sample_config
     (the (map_option (snd \<circ> snd \<circ> snd) (tag_access sample_config 0x80 5 sample_tags)))"
  by (rule tag_access_inv[OF sample_miss sample_tags_inv sample_config_wf])

theorem miss_fill_hit_witness:
  "tag_probe sample_config 0x88
      (the (map_option (snd \<circ> snd \<circ> snd) (tag_access sample_config 0x80 5 sample_tags)))
     = Some (HIT_RESERVED, Some 3) \<and>
   (\<exists>t2. tag_fill_idx sample_config 3 9
      (the (map_option (snd \<circ> snd \<circ> snd) (tag_access sample_config 0x80 5 sample_tags))) = Some t2 \<and>
      tag_probe sample_config 0x88 t2 = Some (HIT, Some 3))"
  by (rule miss_fill_hit[OF sample_miss _ sample_tags_inv sample_config_wf]) code_simp+

end
