(* ===== verification/Mshr.thy ===== *)
theory Mshr
  imports MemFetch "HOL-Library.AList"
begin

text \<open>
  \<open>mshr_table\<close> (\<open>src/gpgpu-sim/gpu-cache.h\<close>, \<open>gpu-cache.cc\<close>): the miss-status holding
  registers of a cache.  The hash map \<open>m_data\<close> is an association list with distinct keys
  (the code only finds, inserts, erases, counts and folds a set over it, so the order of the
  buckets is not observable); \<open>m_current_response\<close> is the list of blocks whose fill arrived.
\<close>

type_synonym heap = "mfp \<Rightarrow> mem_fetch option"

record mshr_entry =
  m_list :: "mfp list"
  m_has_atomic :: bool

record mshr_table =
  m_num_entries :: u32
  m_max_merged :: u32
  m_data :: "(addr \<times> mshr_entry) list"
  m_current_response :: "addr list"

definition new_mshr_table :: "u32 \<Rightarrow> u32 \<Rightarrow> mshr_table" where
  "new_mshr_table n k =
     \<lparr>m_num_entries = n, m_max_merged = k, m_data = [], m_current_response = []\<rparr>"

definition new_mshr_entry :: mshr_entry where
  "new_mshr_entry = \<lparr>m_list = [], m_has_atomic = False\<rparr>"

definition mshr_probe :: "addr \<Rightarrow> mshr_table \<Rightarrow> bool" where
  "mshr_probe ba m \<longleftrightarrow> map_of (m_data m) ba \<noteq> None"

definition mshr_full :: "addr \<Rightarrow> mshr_table \<Rightarrow> bool" where
  "mshr_full ba m =
     (case map_of (m_data m) ba of
        Some e \<Rightarrow> length (m_list e) \<ge> unat (m_max_merged m)
      | None \<Rightarrow> length (m_data m) \<ge> unat (m_num_entries m))"

text \<open>\<open>m_data[block_addr]\<close>: the entry, default-constructed when absent.\<close>

definition entry_at :: "addr \<Rightarrow> mshr_table \<Rightarrow> mshr_entry" where
  "entry_at ba m = (case map_of (m_data m) ba of Some e \<Rightarrow> e | None \<Rightarrow> new_mshr_entry)"

definition mshr_add :: "addr \<Rightarrow> mfp \<Rightarrow> heap \<Rightarrow> mshr_table \<Rightarrow> mshr_table option" where
  "mshr_add ba p h m = do {
     let e = entry_at ba m;
     let e' = e\<lparr>m_list := m_list e @ [p]\<rparr>;
     let m' = m\<lparr>m_data := AList.update ba e' (m_data m)\<rparr>;
     ensure (length (m_data m') \<le> unat (m_num_entries m));
     ensure (length (m_list e') \<le> unat (m_max_merged m));
     mf \<leftarrow> h p;
     Some (if mf_atomic mf
           then m'\<lparr>m_data := AList.update ba (e'\<lparr>m_has_atomic := True\<rparr>) (m_data m')\<rparr>
           else m')
   }"

definition mshr_mark_ready :: "addr \<Rightarrow> mshr_table \<Rightarrow> (bool \<times> mshr_table) option" where
  "mshr_mark_ready ba m = do {
     e \<leftarrow> map_of (m_data m) ba;
     let m' = m\<lparr>m_current_response := m_current_response m @ [ba]\<rparr>;
     ensure (length (m_current_response m') \<le> length (m_data m'));
     Some (m_has_atomic e, m')
   }"

definition mshr_access_ready :: "mshr_table \<Rightarrow> bool" where
  "mshr_access_ready m \<longleftrightarrow> m_current_response m \<noteq> []"

definition mshr_next_access :: "mshr_table \<Rightarrow> (mfp \<times> mshr_table) option" where
  "mshr_next_access m =
     (case m_current_response m of
        [] \<Rightarrow> None
      | ba # rs \<Rightarrow>
         (case m_list (entry_at ba m) of
            [] \<Rightarrow> None
          | p # ps \<Rightarrow>
              Some (p, if ps = []
                then m\<lparr>m_data := AList.delete ba (m_data m), m_current_response := rs\<rparr>
                else m\<lparr>m_data := AList.update ba ((entry_at ba m)\<lparr>m_list := ps\<rparr>) (m_data m)\<rparr>)))"

text \<open>\<open>numUniqueWarps\<close>: the warps of the first request of each entry.\<close>

fun mshr_front_warps :: "heap \<Rightarrow> (addr \<times> mshr_entry) list \<Rightarrow> u32 list option" where
  "mshr_front_warps h [] = Some []"
| "mshr_front_warps h ((ba, e) # es) =
     (case m_list e of
        [] \<Rightarrow> mshr_front_warps h es
      | p # _ \<Rightarrow> do { mf \<leftarrow> h p; ws \<leftarrow> mshr_front_warps h es; Some (mf_wid mf # ws) })"

definition numUniqueWarps :: "heap \<Rightarrow> mshr_table \<Rightarrow> nat option" where
  "numUniqueWarps h m = map_option (\<lambda>ws. length (remdups ws)) (mshr_front_warps h (m_data m))"

subsection \<open>The invariant\<close>

definition mshr_inv :: "mshr_table \<Rightarrow> bool" where
  [inv_defs]: "mshr_inv m \<longleftrightarrow>
     distinct (map fst (m_data m)) \<and>
     length (m_data m) \<le> unat (m_num_entries m) \<and>
     (\<forall>(ba, e) \<in> set (m_data m). m_list e \<noteq> [] \<and> length (m_list e) \<le> unat (m_max_merged m)) \<and>
     distinct (m_current_response m) \<and>
     set (m_current_response m) \<subseteq> fst ` set (m_data m)"

lemma new_mshr_table_inv: "mshr_inv (new_mshr_table n k)"
  by (simp add: mshr_inv_def new_mshr_table_def)

lemma mshr_inv_entry:
  "mshr_inv m \<Longrightarrow> map_of (m_data m) ba = Some e \<Longrightarrow>
     m_list e \<noteq> [] \<and> length (m_list e) \<le> unat (m_max_merged m)"
  by (auto simp: mshr_inv_def dest: map_of_SomeD)

lemma length_AList_update:
  "length (AList.update k v xs) = (if k \<in> fst ` set xs then length xs else Suc (length xs))"
  by (induction xs) auto

lemma length_AList_delete:
  "distinct (map fst xs) \<Longrightarrow>
     length (AList.delete k xs) = (if k \<in> fst ` set xs then length xs - 1 else length xs)"
proof (induction xs)
  case (Cons x xs)
  then show ?case by (cases "xs = []") (auto simp: AList.delete_eq filter_id_conv image_iff)
qed (simp add: AList.delete_eq)

lemma in_set_AList_update:
  "distinct (map fst xs) \<Longrightarrow> (k', v') \<in> set (AList.update k v xs) \<Longrightarrow>
     (k' = k \<and> v' = v) \<or> ((k', v') \<in> set xs \<and> k' \<noteq> k)"
  by (induction xs) (auto simp: image_iff split: if_splits)

lemma mshr_probe_dom: "mshr_probe ba m \<longleftrightarrow> ba \<in> fst ` set (m_data m)"
  unfolding mshr_probe_def by (metis map_of_eq_None_iff)

lemma mshr_inv_member:
  "mshr_inv m \<Longrightarrow> (ba, e) \<in> set (m_data m) \<Longrightarrow>
     m_list e \<noteq> [] \<and> length (m_list e) \<le> unat (m_max_merged m)"
  unfolding mshr_inv_def by blast

text \<open>The effect of \<open>add\<close> on its entry.\<close>

definition entry_push :: "mfp \<Rightarrow> bool \<Rightarrow> mshr_entry \<Rightarrow> mshr_entry" where
  "entry_push p at e = e\<lparr>m_list := m_list e @ [p], m_has_atomic := m_has_atomic e \<or> at\<rparr>"

lemma entry_push_sel [simp]:
  "m_list (entry_push p at e) = m_list e @ [p]"
  "m_has_atomic (entry_push p at e) = (m_has_atomic e \<or> at)"
  by (simp_all add: entry_push_def)

lemma mshr_add_eq:
  assumes "h p = Some mf"
  shows "mshr_add ba p h m =
    (if (if mshr_probe ba m then length (m_data m) else Suc (length (m_data m))) \<le> unat (m_num_entries m)
        \<and> length (m_list (entry_at ba m)) < unat (m_max_merged m)
     then Some (m\<lparr>m_data := AList.update ba (entry_push p (mf_atomic mf) (entry_at ba m)) (m_data m)\<rparr>)
     else None)"
proof -
  have e: "entry_push p (mf_atomic mf) e = (if mf_atomic mf then e\<lparr>m_list := m_list e @ [p], m_has_atomic := True\<rparr> 
      else e\<lparr>m_list := m_list e @ [p]\<rparr>)" for e
    by (cases e) (simp add: entry_push_def)
  show ?thesis
    by (simp add: mshr_add_def Let_def length_AList_update mshr_probe_dom assms e Suc_le_eq)
qed

lemma mshr_add_SomeD:
  assumes "mshr_add ba p h m = Some m'"
  obtains mf where "h p = Some mf"
    "(if mshr_probe ba m then length (m_data m) else Suc (length (m_data m))) \<le> unat (m_num_entries m)"
    "length (m_list (entry_at ba m)) < unat (m_max_merged m)"
    "m' = m\<lparr>m_data := AList.update ba (entry_push p (mf_atomic mf) (entry_at ba m)) (m_data m)\<rparr>"
proof (cases "h p")
  case None
  with assms show ?thesis by (simp add: mshr_add_def Let_def split: if_splits)
next
  case (Some mf)
  show ?thesis
    by (rule that[OF Some]) (use assms in \<open>simp_all add: mshr_add_eq[where h=h, OF Some] split: if_split_asm\<close>)
qed

lemma mshr_add_total:
  assumes "mshr_inv m" "\<not> mshr_full ba m" "h p = Some mf" "0 < unat (m_max_merged m)"
  shows "mshr_add ba p h m = Some (m\<lparr>m_data := AList.update ba
      (entry_push p (mf_atomic mf) (entry_at ba m)) (m_data m)\<rparr>)"
proof (cases "map_of (m_data m) ba")
  case None
  with assms show ?thesis
    by (simp add: mshr_add_eq[where h=h, OF assms(3)] mshr_probe_def mshr_full_def entry_at_def new_mshr_entry_def)
next
  case (Some e)
  with assms show ?thesis
    by (simp add: mshr_add_eq[where h=h, OF assms(3)] mshr_probe_def mshr_full_def entry_at_def mshr_inv_def)
qed

lemma mshr_add_keeps_inv:
  assumes "mshr_add ba p h m = Some m'" "mshr_inv m"
  shows "mshr_inv m'"
proof (rule mshr_add_SomeD[OF assms(1)])
  fix mf
  assume b0: "h p = Some mf" and b:
    "(if mshr_probe ba m then length (m_data m) else Suc (length (m_data m))) \<le> unat (m_num_entries m)"
    "length (m_list (entry_at ba m)) < unat (m_max_merged m)"
    "m' = m\<lparr>m_data := AList.update ba (entry_push p (mf_atomic mf) (entry_at ba m)) (m_data m)\<rparr>"
  let ?e = "entry_push p (mf_atomic mf) (entry_at ba m)"
  have d: "distinct (map fst (m_data m))" using assms(2) by (simp add: mshr_inv_def)
  have "\<forall>(k, e) \<in> set (AList.update ba ?e (m_data m)). m_list e \<noteq> [] \<and> length (m_list e) \<le> unat (m_max_merged m)"
  proof safe
    fix k e assume "(k, e) \<in> set (AList.update ba ?e (m_data m))"
    from in_set_AList_update[OF d this] show "length (m_list e) \<le> unat (m_max_merged m)"
      using b(2) mshr_inv_member[OF assms(2), of k e] by (elim disjE conjE) (simp_all add: Suc_le_eq)
  next
    fix k e assume "(k, e) \<in> set (AList.update ba ?e (m_data m))" "m_list e = []"
    from in_set_AList_update[OF d this(1)] this(2) show False
      using mshr_inv_member[OF assms(2), of k e] by (elim disjE conjE) simp_all
  qed
  moreover have "length (AList.update ba ?e (m_data m)) \<le> unat (m_num_entries m)"
    using b(1) by (simp add: length_AList_update mshr_probe_dom)
  moreover have "set (m_current_response m) \<subseteq> fst ` set (AList.update ba ?e (m_data m))"
    using assms(2) by (auto simp: mshr_inv_def dom_update)
  ultimately show ?thesis using assms(2) AList.distinct_update[OF d, of ba ?e]
    unfolding b(3) mshr_inv_def by simp
qed

subsection \<open>Responses\<close>

text \<open>The requests that \<open>next_access\<close> will hand out, in order.\<close>

definition mshr_pending :: "mshr_table \<Rightarrow> mfp list" where
  "mshr_pending m = concat (map (\<lambda>ba. m_list (entry_at ba m)) (m_current_response m))"

lemma mshr_mark_ready_eq:
  assumes "mshr_inv m" "map_of (m_data m) ba = Some e" "ba \<notin> set (m_current_response m)"
  shows "mshr_mark_ready ba m =
           Some (m_has_atomic e, m\<lparr>m_current_response := m_current_response m @ [ba]\<rparr>)"
    and "mshr_inv (m\<lparr>m_current_response := m_current_response m @ [ba]\<rparr>)"
proof -
  let ?r = "m_current_response m @ [ba]"
  have k: "ba \<in> fst ` set (m_data m)" using assms(2) by (metis map_of_eq_None_iff option.simps(3))
  have d: "distinct ?r" and s: "set ?r \<subseteq> fst ` set (m_data m)"
    using assms(1,3) k by (auto simp: mshr_inv_def)
  have "length ?r = card (set ?r)" using distinct_card[OF d] by simp
  also have "\<dots> \<le> card (fst ` set (m_data m))" by (rule card_mono[OF _ s]) simp
  also have "\<dots> \<le> length (m_data m)" by (metis card_length length_map list.set_map)
  finally have "length ?r \<le> length (m_data m)" .
  then show "mshr_mark_ready ba m = Some (m_has_atomic e, m\<lparr>m_current_response := ?r\<rparr>)"
    using assms(2) by (simp add: mshr_mark_ready_def)
  show "mshr_inv (m\<lparr>m_current_response := ?r\<rparr>)"
    using assms(1) d s by (auto simp: mshr_inv_def)
qed

lemma map_of_delete_distinct:
  "map_of (AList.delete k xs) k' = (if k' = k then None else map_of xs k')"
  by (simp add: AList.delete_conv)

lemma mshr_next_access_step:
  assumes inv: "mshr_inv m" and p: "mshr_pending m = x # xs"
  shows "\<exists>m'. mshr_next_access m = Some (x, m') \<and> mshr_inv m' \<and> mshr_pending m' = xs"
proof -
  have ne: "m_list (entry_at b m) \<noteq> []" if "b \<in> set (m_current_response m)" for b
  proof -
    from that inv have "b \<in> fst ` set (m_data m)" by (auto simp: mshr_inv_def)
    then obtain e where "map_of (m_data m) b = Some e" by (metis map_of_eq_None_iff not_None_eq)
    with mshr_inv_entry[OF inv this] show ?thesis by (simp add: entry_at_def)
  qed
  from p obtain ba rs where r: "m_current_response m = ba # rs"
    by (cases "m_current_response m") (auto simp: mshr_pending_def)
  with ne obtain q ps where l: "m_list (entry_at ba m) = q # ps"
    by (metis list.exhaust list.set_intros(1))
  have q: "q = x" and xs: "xs = ps @ concat (map (\<lambda>b. m_list (entry_at b m)) rs)"
    using p by (auto simp: mshr_pending_def r l)
  have nb: "ba \<notin> set rs" and rsd: "distinct rs" "set rs \<subseteq> fst ` set (m_data m)"
    "ba \<in> fst ` set (m_data m)" and d: "distinct (map fst (m_data m))"
    using inv by (auto simp: mshr_inv_def r)
  show ?thesis
  proof (cases "ps = []")
    case True
    let ?m = "m\<lparr>m_data := AList.delete ba (m_data m), m_current_response := rs\<rparr>"
    have e: "entry_at b ?m = entry_at b m" if "b \<in> set rs" for b
      using that nb by (auto simp: entry_at_def AList.delete_conv)
    have "mshr_pending ?m = xs" by (auto simp: mshr_pending_def xs True e intro!: arg_cong[of _ _ concat])
    moreover have "mshr_inv ?m"
    proof -
      have "length (AList.delete ba (m_data m)) \<le> unat (m_num_entries m)"
        using inv length_AList_delete[OF d, of ba] unfolding mshr_inv_def by (auto split: if_splits)
      moreover have "\<forall>(k, e) \<in> set (AList.delete ba (m_data m)). m_list e \<noteq> [] \<and> length (m_list e) \<le> unat (m_max_merged m)"
        using inv unfolding mshr_inv_def AList.delete_eq by auto
      moreover have "set rs \<subseteq> fst ` set (AList.delete ba (m_data m))"
        using rsd(2) nb unfolding AList.delete_eq by (force simp: image_iff)
      ultimately show ?thesis using rsd(1) AList.distinct_delete[OF d, of ba] by (simp add: mshr_inv_def)
    qed
    ultimately show ?thesis using r l q True by (auto simp: mshr_next_access_def)
  next
    case False
    let ?e = "(entry_at ba m)\<lparr>m_list := ps\<rparr>"
    let ?m = "m\<lparr>m_data := AList.update ba ?e (m_data m)\<rparr>"
    have e: "entry_at b ?m = (if b = ba then ?e else entry_at b m)" for b
      by (simp add: entry_at_def AList.update_conv)
    have "map (\<lambda>b. m_list (entry_at b ?m)) rs = map (\<lambda>b. m_list (entry_at b m)) rs"
      using nb by (auto simp: e)
    moreover have "m_current_response ?m = ba # rs" using r by simp
    ultimately have pend: "mshr_pending ?m = xs"
      using e[of ba] by (simp only: mshr_pending_def xs list.map concat.simps) simp
    obtain e0 where e0: "map_of (m_data m) ba = Some e0" using rsd(3) by (metis map_of_eq_None_iff not_None_eq)
    have lim: "length ps \<le> unat (m_max_merged m)" using mshr_inv_entry[OF inv e0] l by (simp add: entry_at_def e0)
    have "\<forall>(k, e) \<in> set (AList.update ba ?e (m_data m)). m_list e \<noteq> [] \<and> length (m_list e) \<le> unat (m_max_merged m)"
    proof safe
      fix k e assume "(k, e) \<in> set (AList.update ba ?e (m_data m))"
      from in_set_AList_update[OF d this] show "length (m_list e) \<le> unat (m_max_merged m)"
        using lim mshr_inv_member[OF inv, of k e] by (elim disjE conjE) simp_all
    next
      fix k e assume "(k, e) \<in> set (AList.update ba ?e (m_data m))" "m_list e = []"
      from in_set_AList_update[OF d this(1)] this(2) show False
        using False mshr_inv_member[OF inv, of k e] by (elim disjE conjE) simp_all
    qed
    moreover have "length (AList.update ba ?e (m_data m)) \<le> unat (m_num_entries m)"
      using inv rsd(3) by (simp add: length_AList_update mshr_inv_def)
    moreover have "set (m_current_response m) \<subseteq> fst ` set (AList.update ba ?e (m_data m))"
      using inv by (auto simp: mshr_inv_def dom_update)
    ultimately have "mshr_inv ?m" using inv AList.distinct_update[OF d, of ba ?e]
      unfolding mshr_inv_def by simp
    with pend show ?thesis using r l q False by (auto simp: mshr_next_access_def)
  qed
qed

lemma mshr_ready_pending: "mshr_inv m \<Longrightarrow> mshr_access_ready m \<longleftrightarrow> mshr_pending m \<noteq> []"
proof (cases "m_current_response m")
  case (Cons ba rs)
  assume inv: "mshr_inv m"
  with Cons obtain e where "map_of (m_data m) ba = Some e"
    unfolding mshr_inv_def by (metis insert_subset list.simps(15) map_of_eq_None_iff not_None_eq)
  with mshr_inv_entry[OF inv this] Cons show ?thesis
    by (simp add: mshr_access_ready_def mshr_pending_def entry_at_def)
qed (simp add: mshr_access_ready_def mshr_pending_def)

interpretation mshr_source: fifo_source mshr_inv mshr_pending mshr_access_ready mshr_next_access
  by unfold_locales (simp_all add: mshr_ready_pending mshr_next_access_step)

subsection \<open>Properties\<close>

text \<open>
  A request whose block is not \<open>full\<close> is always accepted: \<open>add\<close> fails none of its
  assertions, keeps the table within its configured number of entries and merges, and appends
  the request behind those already waiting for the block.
\<close>

theorem mshr_add_accepts:
  assumes "mshr_inv m" and "\<not> mshr_full ba m" and "h p = Some mf" and "0 < unat (m_max_merged m)"
  shows "\<exists>m'. mshr_add ba p h m = Some m' \<and> mshr_inv m' \<and> mshr_probe ba m' \<and>
    m_list (entry_at ba m') = m_list (entry_at ba m) @ [p] \<and>
    m_has_atomic (entry_at ba m') = (m_has_atomic (entry_at ba m) \<or> mf_atomic mf) \<and>
    (\<forall>b. b \<noteq> ba \<longrightarrow> entry_at b m' = entry_at b m)"
proof -
  note a = mshr_add_total[where h=h, OF assms]
  from mshr_add_keeps_inv[OF a assms(1)] a show ?thesis
    by (auto simp: mshr_probe_def entry_at_def AList.update_conv split: option.splits)
qed

text \<open>
  C30: repeated \<open>next_access\<close> hands out exactly the merged requests of the blocks whose fill
  arrived, block by block in fill order and, within a block, in arrival order; it never fails
  an assertion on the way and stops being ready exactly when all of them are out.
\<close>

theorem mshr_drain_order:
  assumes "mshr_inv m"
  shows "\<exists>m'. drain mshr_next_access (length (mshr_pending m)) m = Some (mshr_pending m, m') \<and>
     mshr_inv m' \<and> \<not> mshr_access_ready m'"
  by (rule mshr_source.drain_all[OF assms])

text \<open>
  Marking the fill of a waiting block that is not yet marked succeeds, reports whether one
  of its merged requests is an atomic, and queues the block's requests behind those of the
  blocks filled before.
\<close>

theorem mshr_mark_ready_queues:
  assumes "mshr_inv m" and "mshr_probe ba m" and "ba \<notin> set (m_current_response m)"
  shows "\<exists>m'. mshr_mark_ready ba m = Some (m_has_atomic (entry_at ba m), m') \<and> mshr_inv m' \<and>
    mshr_pending m' = mshr_pending m @ m_list (entry_at ba m)"
proof -
  from assms(2) obtain e where e: "map_of (m_data m) ba = Some e" by (auto simp: mshr_probe_def)
  from mshr_mark_ready_eq[OF assms(1) e assms(3)] e show ?thesis
    by (simp add: entry_at_def mshr_pending_def)
qed

lemma front_warps_length: "mshr_front_warps h es = Some ws \<Longrightarrow> length ws \<le> length es"
proof (induction h es arbitrary: ws rule: mshr_front_warps.induct)
  case (2 h ba e es)
  then show ?case by (cases "m_list e") (fastforce elim!: bind_SomeE)+
qed simp

text \<open>
  \<open>numUniqueWarps\<close> never exceeds the number of entries, so it undercounts whenever
  requests of several warps are merged in one entry: only the first request of each list is
  looked at.
\<close>

theorem numUniqueWarps_bound:
  assumes "numUniqueWarps h m = Some n" and "mshr_inv m"
  shows "n \<le> length (m_data m) \<and> n \<le> unat (m_num_entries m)"
proof -
  from assms(1) obtain ws where "mshr_front_warps h (m_data m) = Some ws" "n = length (remdups ws)"
    by (auto simp: numUniqueWarps_def)
  with front_warps_length[OF this(1)] length_remdups_leq[of ws] have "n \<le> length (m_data m)"
    by linarith
  moreover have "length (m_data m) \<le> unat (m_num_entries m)"
    using assms(2) by (simp add: mshr_inv_def)
  ultimately show ?thesis by simp
qed

subsection \<open>Concrete instances\<close>

definition sample_heap :: heap where
  "sample_heap p =
     (if p < 8 then Some (new_mem_fetch sample_env (mem_access GLOBAL_ACC_R 0x80 32 False)
                (p = 2) 8 (of_nat p) 0 0) else None)"

definition sample_mshr :: mshr_table where
  "sample_mshr = the (do {
     m \<leftarrow> mshr_add 0x80 1 sample_heap (new_mshr_table 4 2);
     m \<leftarrow> mshr_add 0x80 2 sample_heap m;
     mshr_add 0x100 3 sample_heap m
   })"

lemma sample_mshr_inv: "mshr_inv sample_mshr"
  by (simp add: mshr_inv_def sample_mshr_def mshr_add_def entry_at_def new_mshr_entry_def
      new_mshr_table_def sample_heap_def new_mem_fetch_def Let_def)

lemma sample_ready_inv: "mshr_inv (sample_mshr\<lparr>m_current_response := [0x100, 0x80]\<rparr>)"
  by (simp add: mshr_inv_def sample_mshr_def mshr_add_def entry_at_def new_mshr_entry_def
      new_mshr_table_def sample_heap_def new_mem_fetch_def Let_def)

theorem mshr_add_accepts_witness:
  "\<exists>m'. mshr_add 0x100 4 sample_heap sample_mshr = Some m' \<and> mshr_inv m' \<and> mshr_probe 0x100 m' \<and>
     m_list (entry_at 0x100 m') = m_list (entry_at 0x100 sample_mshr) @ [4] \<and>
     m_has_atomic (entry_at 0x100 m') =
       (m_has_atomic (entry_at 0x100 sample_mshr) \<or> mf_atomic (the (sample_heap 4))) \<and>
     (\<forall>b. b \<noteq> 0x100 \<longrightarrow> entry_at b m' = entry_at b sample_mshr)"
  by (rule mshr_add_accepts[OF sample_mshr_inv]) code_simp+

theorem mshr_drain_order_witness:
  "\<exists>m'. drain mshr_next_access 3 (sample_mshr\<lparr>m_current_response := [0x100, 0x80]\<rparr>) = Some ([3, 1, 2], m') \<and>
     mshr_inv m' \<and> \<not> mshr_access_ready m'"
proof -
  have p: "mshr_pending (sample_mshr\<lparr>m_current_response := [0x100, 0x80]\<rparr>) = [3, 1, 2]" by code_simp
  have "length [3, 1, 2 :: mfp] = 3" by simp
  with mshr_drain_order[OF sample_ready_inv, unfolded p] show ?thesis by (simp only:)
qed

theorem mshr_mark_ready_queues_witness:
  "\<exists>m'. mshr_mark_ready 0x80 sample_mshr = Some (m_has_atomic (entry_at 0x80 sample_mshr), m') \<and>
     mshr_inv m' \<and> mshr_pending m' = mshr_pending sample_mshr @ m_list (entry_at 0x80 sample_mshr)"
  by (rule mshr_mark_ready_queues[OF sample_mshr_inv]) code_simp+

theorem numUniqueWarps_bound_witness:
  "(2::nat) \<le> length (m_data sample_mshr) \<and> (2::nat) \<le> unat (m_num_entries sample_mshr)"
  by (rule numUniqueWarps_bound[OF _ sample_mshr_inv, where h = sample_heap]) code_simp

end
