(* ===== verification/DataCache.thy ===== *)
theory DataCache
  imports TagArray Mshr
begin

text \<open>
  \<open>baseline_cache\<close>, \<open>read_only_cache\<close>, \<open>data_cache\<close>, \<open>l1_cache\<close> and \<open>l2_cache\<close>
  (\<open>src/gpgpu-sim/gpu-cache.h\<close>, \<open>gpu-cache.cc\<close>).

  \<open>cache_state\<close> holds the members of the object together with what its methods share with
  the rest of the simulator: the heap of requests, the next free request pointer and the
  caller's event list.  The configuration is a separate argument (a \<open>const\<close> reference in the
  code).  Parameters \<open>addr\<close> and \<open>status\<close> that the handlers never read are dropped.  A
  \<open>cache_index\<close> that was never assigned is \<open>None\<close>; using it as an index is undefined, so the
  operation is \<open>None\<close> too, as is dereferencing a pointer outside the heap.
\<close>

datatype cache_event = WRITE_BACK_REQUEST_SENT | READ_REQUEST_SENT | WRITE_REQUEST_SENT

definition was_write_sent :: "cache_event list \<Rightarrow> bool" where
  "was_write_sent es \<longleftrightarrow> list_ex (\<lambda>e. e = WRITE_REQUEST_SENT) es"

definition was_read_sent :: "cache_event list \<Rightarrow> bool" where
  "was_read_sent es \<longleftrightarrow> list_ex (\<lambda>e. e = READ_REQUEST_SENT) es"

record extra_mf_fields =
  ex_block_addr :: addr
  ex_cache_index :: "nat option"
  ex_data_size :: u32

record cache_state =
  c_tags :: tag_array
  c_mshrs :: mshr_table
  c_miss_queue :: "mfp list"
  c_miss_queue_status :: mem_fetch_status
  c_extra :: "mfp \<Rightarrow> extra_mf_fields option"
  c_read_access :: u32
  c_write_access :: u32
  c_read_miss :: u32
  c_write_miss :: u32
  c_simt_to_mem :: u32
  objs :: heap
  next_mf :: mfp
  events :: "cache_event list"

text \<open>The constructor; \<open>h\<close>, \<open>nx\<close> are the heap it starts with.\<close>

definition new_baseline_cache ::
  "cache_config \<Rightarrow> mem_fetch_status \<Rightarrow> heap \<Rightarrow> mfp \<Rightarrow> cache_state option" where
  "new_baseline_cache c st h nx = do {
     ensure (m_mshr_type c = ASSOC);
     t \<leftarrow> new_tag_array c;
     Some \<lparr>c_tags = t, c_mshrs = new_mshr_table (m_mshr_entries c) (m_mshr_max_merge c),
           c_miss_queue = [], c_miss_queue_status = st, c_extra = (\<lambda>_. None),
           c_read_access = 0, c_write_access = 0, c_read_miss = 0, c_write_miss = 0,
           c_simt_to_mem = 0, objs = h, next_mf = nx, events = []\<rparr>
   }"

text \<open>The \<open>data_cache\<close> constructor refuses the deprecated \<open>READ_ONLY\<close> write policy.\<close>

definition new_data_cache ::
  "cache_config \<Rightarrow> mem_fetch_status \<Rightarrow> heap \<Rightarrow> mfp \<Rightarrow> cache_state option" where
  "new_data_cache c st h nx = do {
     s \<leftarrow> new_baseline_cache c st h nx;
     ensure (m_write_policy c \<noteq> READ_ONLY);
     Some s
   }"

subsection \<open>Small steps of the handlers\<close>

definition upd_mf :: "mfp \<Rightarrow> (mem_fetch \<Rightarrow> mem_fetch) \<Rightarrow> cache_state \<Rightarrow> cache_state option" where
  "upd_mf p f s = do { mf \<leftarrow> objs s p; Some (s\<lparr>objs := (objs s)(p \<mapsto> f mf)\<rparr>) }"

definition new_mf :: "mem_fetch \<Rightarrow> cache_state \<Rightarrow> mfp \<times> cache_state" where
  "new_mf mf s = (next_mf s, s\<lparr>objs := (objs s)(next_mf s \<mapsto> mf), next_mf := next_mf s + 1\<rparr>)"

text \<open>\<open>m_tag_array.get_block(i).m_status = st\<close>\<close>

definition set_block_status ::
  "nat option \<Rightarrow> cache_block_state \<Rightarrow> cache_state \<Rightarrow> cache_state option" where
  "set_block_status idx st s = do {
     i \<leftarrow> idx;
     ensure (i < length (m_lines (c_tags s)));
     Some (s\<lparr>c_tags := update_line i (\<lambda>b. b\<lparr>m_status := st\<rparr>) (c_tags s)\<rparr>)
   }"

text \<open>\<open>m_tag_array.access\<close> with \<open>cache_index\<close> passed by reference, both overloads.\<close>

definition access_ro ::
  "cache_config \<Rightarrow> addr \<Rightarrow> u32 \<Rightarrow> nat option \<Rightarrow> cache_state \<Rightarrow> (nat option \<times> cache_state) option" where
  "access_ro c a time idx s = do {
     (st, i, t) \<leftarrow> tag_access_nowb c a time (c_tags s);
     Some (if i = None then idx else i, s\<lparr>c_tags := t\<rparr>)
   }"

definition access_wb ::
  "cache_config \<Rightarrow> addr \<Rightarrow> u32 \<Rightarrow> nat option \<Rightarrow> cache_state
   \<Rightarrow> (nat option \<times> cache_block option \<times> cache_state) option" where
  "access_wb c a time idx s = do {
     (st, i, ev, t) \<leftarrow> tag_access c a time (c_tags s);
     Some (if i = None then idx else i, ev, s\<lparr>c_tags := t\<rparr>)
   }"

definition miss_queue_full :: "cache_config \<Rightarrow> nat \<Rightarrow> cache_state \<Rightarrow> bool" where
  "miss_queue_full c n s \<longleftrightarrow> length (c_miss_queue s) + n \<ge> unat (m_miss_queue_size c)"

definition enqueue_miss :: "mfp \<Rightarrow> u32 \<Rightarrow> cache_state \<Rightarrow> cache_state option" where
  "enqueue_miss p time s =
     upd_mf p (mf_set_status (c_miss_queue_status s) (ucast time))
       (s\<lparr>c_miss_queue := c_miss_queue s @ [p]\<rparr>)"

definition send_write_request ::
  "mfp \<Rightarrow> cache_event \<Rightarrow> u32 \<Rightarrow> cache_state \<Rightarrow> cache_state option" where
  "send_write_request p ev time s = enqueue_miss p time (s\<lparr>events := events s @ [ev]\<rparr>)"

definition read_slot :: "cache_config \<Rightarrow> addr \<Rightarrow> cache_state \<Rightarrow> bool" where
  "read_slot c ba s \<longleftrightarrow> \<not> mshr_full ba (c_mshrs s) \<and>
     (mshr_probe ba (c_mshrs s) \<or> length (c_miss_queue s) < unat (m_miss_queue_size c))"

text \<open>
  \<open>send_read_request\<close>: \<open>(do_miss, evicted, state)\<close>.  With \<open>read_only\<close> the overload of
  \<open>access\<close> that asserts a clean victim is used.  The two guards of the code are
  \<open>mshr_hit && mshr_avail\<close> and \<open>!mshr_hit && mshr_avail && queue not full\<close>.
\<close>

definition send_read_request ::
  "cache_config \<Rightarrow> addr \<Rightarrow> nat option \<Rightarrow> mfp \<Rightarrow> u32 \<Rightarrow> bool \<Rightarrow> bool \<Rightarrow> cache_state
   \<Rightarrow> (bool \<times> cache_block option \<times> cache_state) option" where
  "send_read_request c ba idx p time read_only wa s =
     (let hit = mshr_probe ba (c_mshrs s); avail = \<not> mshr_full ba (c_mshrs s) in
      if hit \<and> avail then do {
        (idx', ev, s1) \<leftarrow>
          (if read_only
           then map_option (\<lambda>(i, s'). (i, None, s')) (access_ro c ba time idx s)
           else access_wb c ba time idx s);
        m \<leftarrow> mshr_add ba p (objs s1) (c_mshrs s1);
        Some (True, ev, s1\<lparr>c_mshrs := m\<rparr>)
      }
      else if \<not> hit \<and> avail \<and> length (c_miss_queue s) < unat (m_miss_queue_size c) then do {
        (idx', ev, s1) \<leftarrow>
          (if read_only
           then map_option (\<lambda>(i, s'). (i, None, s')) (access_ro c ba time idx s)
           else access_wb c ba time idx s);
        m \<leftarrow> mshr_add ba p (objs s1) (c_mshrs s1);
        mf \<leftarrow> objs s1 p;
        let s2 = s1\<lparr>c_mshrs := m,
          c_extra := (c_extra s1)(p \<mapsto> \<lparr>ex_block_addr = ba, ex_cache_index = idx',
                                       ex_data_size = mf_data_size mf\<rparr>)\<rparr>;
        line \<leftarrow> get_line_sz c;
        s3 \<leftarrow> upd_mf p (\<lambda>mf. mf\<lparr>mf_data_size := line\<rparr>) s2;
        s4 \<leftarrow> enqueue_miss p time s3;
        Some (True, ev, if wa then s4 else s4\<lparr>events := events s4 @ [READ_REQUEST_SENT]\<rparr>)
      }
      else Some (False, None, s))"

subsection \<open>\<open>cycle\<close>, \<open>fill\<close>, \<open>waiting_for_fill\<close>, \<open>next_access\<close>\<close>

text \<open>The memory port a cache pushes its misses to (\<open>mem_fetch_interface\<close>).\<close>

record 'p mem_port =
  port_full :: "'p \<Rightarrow> u32 \<Rightarrow> bool \<Rightarrow> bool"
  port_push :: "mfp \<Rightarrow> heap \<Rightarrow> 'p \<Rightarrow> (heap \<times> 'p) option"

definition cache_cycle ::
  "'p mem_port \<Rightarrow> 'p \<Rightarrow> cache_state \<Rightarrow> ('p \<times> cache_state) option" where
  "cache_cycle port q s =
     (case c_miss_queue s of
        [] \<Rightarrow> Some (q, s)
      | p # ps \<Rightarrow> do {
          mf \<leftarrow> objs s p;
          if port_full port q (mf_data_size mf) (mf_get_is_write mf) then Some (q, s)
          else do {
            (h, q') \<leftarrow> port_push port p (objs s) q;
            mf' \<leftarrow> h p;
            n \<leftarrow> get_num_flits True mf';
            Some (q', s\<lparr>c_miss_queue := ps, objs := h, c_simt_to_mem := c_simt_to_mem s + n\<rparr>)
          }
        })"

definition cache_fill :: "cache_config \<Rightarrow> mfp \<Rightarrow> u32 \<Rightarrow> cache_state \<Rightarrow> cache_state option" where
  "cache_fill c p time s = do {
     e \<leftarrow> c_extra s p;
     s1 \<leftarrow> upd_mf p (\<lambda>mf. mf\<lparr>mf_data_size := ex_data_size e\<rparr>) s;
     t \<leftarrow> (case m_alloc_policy c of
             ON_MISS \<Rightarrow> do {
               i \<leftarrow> ex_cache_index e;
               ensure (i < length (m_lines (c_tags s1)));
               tag_fill_idx c i time (c_tags s1)
             }
           | ON_FILL \<Rightarrow> tag_fill_addr c (ex_block_addr e) time (c_tags s1));
     (has_atomic, m) \<leftarrow> mshr_mark_ready (ex_block_addr e) (c_mshrs s1);
     let s2 = s1\<lparr>c_tags := t, c_mshrs := m\<rparr>;
     s3 \<leftarrow> (if has_atomic then do {
              ensure (m_alloc_policy c = ON_MISS);
              set_block_status (ex_cache_index e) MODIFIED s2
            } else Some s2);
     Some (s3\<lparr>c_extra := (c_extra s3)(p := None)\<rparr>)
   }"

definition waiting_for_fill :: "mfp \<Rightarrow> cache_state \<Rightarrow> bool" where
  "waiting_for_fill p s \<longleftrightarrow> c_extra s p \<noteq> None"

definition cache_access_ready :: "cache_state \<Rightarrow> bool" where
  "cache_access_ready s = mshr_access_ready (c_mshrs s)"

definition cache_next_access :: "cache_state \<Rightarrow> (mfp \<times> cache_state) option" where
  "cache_next_access s =
     map_option (\<lambda>(p, m). (p, s\<lparr>c_mshrs := m\<rparr>)) (mshr_next_access (c_mshrs s))"

definition cache_flush :: "cache_state \<Rightarrow> cache_state" where
  "cache_flush s = s\<lparr>c_tags := tag_flush (c_tags s)\<rparr>"

subsection \<open>Write hits\<close>

type_synonym access_result = "(cache_request_status \<times> cache_state) option"

definition wr_hit_wb ::
  "cache_config \<Rightarrow> addr \<Rightarrow> nat option \<Rightarrow> mfp \<Rightarrow> u32 \<Rightarrow> cache_state \<Rightarrow> access_result" where
  "wr_hit_wb c a idx p time s = do {
     (idx', s1) \<leftarrow> access_ro c (block_addr c a) time idx s;
     s2 \<leftarrow> set_block_status idx' MODIFIED s1;
     Some (HIT, s2\<lparr>c_write_access := c_write_access s2 + 1\<rparr>)
   }"

definition wr_hit_wt ::
  "cache_config \<Rightarrow> addr \<Rightarrow> nat option \<Rightarrow> mfp \<Rightarrow> u32 \<Rightarrow> cache_state \<Rightarrow> access_result" where
  "wr_hit_wt c a idx p time s =
     (if miss_queue_full c 0 s then Some (RESERVATION_FAIL, s)
      else do {
        (idx', s1) \<leftarrow> access_ro c (block_addr c a) time idx s;
        s2 \<leftarrow> set_block_status idx' MODIFIED s1;
        s3 \<leftarrow> send_write_request p WRITE_REQUEST_SENT time s2;
        Some (HIT, s3\<lparr>c_write_access := c_write_access s3 + 1\<rparr>)
      })"

definition wr_hit_we ::
  "cache_config \<Rightarrow> addr \<Rightarrow> nat option \<Rightarrow> mfp \<Rightarrow> u32 \<Rightarrow> cache_state \<Rightarrow> access_result" where
  "wr_hit_we c a idx p time s =
     (if miss_queue_full c 0 s then Some (RESERVATION_FAIL, s)
      else do {
        s1 \<leftarrow> send_write_request p WRITE_REQUEST_SENT time s;
        s2 \<leftarrow> set_block_status idx INVALID s1;
        Some (HIT, s2\<lparr>c_write_access := c_write_access s2 + 1\<rparr>)
      })"

definition wr_hit_global_we_local_wb ::
  "cache_config \<Rightarrow> addr \<Rightarrow> nat option \<Rightarrow> mfp \<Rightarrow> u32 \<Rightarrow> cache_state \<Rightarrow> access_result" where
  "wr_hit_global_we_local_wb c a idx p time s = do {
     mf \<leftarrow> objs s p;
     if mf_get_access_type mf = GLOBAL_ACC_W then wr_hit_we c a idx p time s
     else wr_hit_wb c a idx p time s
   }"

subsection \<open>Write misses\<close>

text \<open>
  \<open>alloc\<close> is \<open>m_memfetch_creator->alloc\<close>; \<open>env\<close> is what the \<open>mem_fetch\<close> constructor reads.
\<close>

type_synonym mf_alloc = "addr \<Rightarrow> mem_access_type \<Rightarrow> u32 \<Rightarrow> bool \<Rightarrow> mem_fetch option"

definition wr_miss_wa ::
  "mf_env \<Rightarrow> mf_alloc \<Rightarrow> cache_config \<Rightarrow> addr \<Rightarrow> nat option \<Rightarrow> mfp \<Rightarrow> u32 \<Rightarrow> cache_state
   \<Rightarrow> access_result" where
  "wr_miss_wa env alloc c a idx p time s =
     (let ba = block_addr c a;
          hit = mshr_probe ba (c_mshrs s); avail = \<not> mshr_full ba (c_mshrs s) in
      if miss_queue_full c 2 s \<or>
         (\<not> (hit \<and> avail) \<and>
          \<not> (\<not> hit \<and> avail \<and> length (c_miss_queue s) < unat (m_miss_queue_size c)))
      then Some (RESERVATION_FAIL, s)
      else do {
        s1 \<leftarrow> send_write_request p WRITE_REQUEST_SENT time s;
        mf \<leftarrow> objs s1 p;
        let acc = mem_access_masked L2_WR_ALLOC_R (ma_addr (mf_access mf)) (mf_data_size mf)
                    False (ma_warp_mask (mf_access mf)) (ma_byte_mask (mf_access mf));
        let (n, s2) = new_mf (new_mem_fetch env acc False (mf_ctrl_size mf) (mf_wid mf)
                                (mf_sid mf) (mf_tpc mf)) s1;
        (do_miss, ev, s3) \<leftarrow> send_read_request c ba idx n time False True s2;
        s4 \<leftarrow> (case ev of
                 None \<Rightarrow> Some s3
               | Some b \<Rightarrow>
                   if m_write_policy c \<noteq> WRITE_THROUGH then do {
                     line \<leftarrow> get_line_sz c;
                     w \<leftarrow> alloc (m_block_addr b) L2_WRBK_ACC line True;
                     let (wp, s') = new_mf w s3;
                     enqueue_miss wp time s'
                   } else Some s3);
        if do_miss
        then Some (MISS, s4\<lparr>c_write_access := c_write_access s4 + 1,
                            c_write_miss := c_write_miss s4 + 1\<rparr>)
        else Some (RESERVATION_FAIL, s4)
      })"

definition wr_miss_no_wa ::
  "cache_config \<Rightarrow> addr \<Rightarrow> nat option \<Rightarrow> mfp \<Rightarrow> u32 \<Rightarrow> cache_state \<Rightarrow> access_result" where
  "wr_miss_no_wa c a idx p time s =
     (if miss_queue_full c 0 s then Some (RESERVATION_FAIL, s)
      else do {
        s1 \<leftarrow> send_write_request p WRITE_REQUEST_SENT time s;
        Some (MISS, s1\<lparr>c_write_access := c_write_access s1 + 1,
                       c_write_miss := c_write_miss s1 + 1\<rparr>)
      })"

subsection \<open>Reads\<close>

definition rd_hit_base ::
  "cache_config \<Rightarrow> addr \<Rightarrow> nat option \<Rightarrow> mfp \<Rightarrow> u32 \<Rightarrow> cache_state \<Rightarrow> access_result" where
  "rd_hit_base c a idx p time s = do {
     (idx', s1) \<leftarrow> access_ro c (block_addr c a) time idx s;
     mf \<leftarrow> objs s1 p;
     s2 \<leftarrow> (if mf_atomic mf then do {
              ensure (mf_get_access_type mf = GLOBAL_ACC_R);
              set_block_status idx' MODIFIED s1
            } else Some s1);
     Some (HIT, s2\<lparr>c_read_access := c_read_access s2 + 1\<rparr>)
   }"

definition rd_miss_base ::
  "mf_alloc \<Rightarrow> cache_config \<Rightarrow> addr \<Rightarrow> nat option \<Rightarrow> mfp \<Rightarrow> u32 \<Rightarrow> cache_state \<Rightarrow> access_result" where
  "rd_miss_base alloc c a idx p time s =
     (if miss_queue_full c 1 s then Some (RESERVATION_FAIL, s)
      else do {
        (do_miss, ev, s1) \<leftarrow> send_read_request c (block_addr c a) idx p time False False s;
        s2 \<leftarrow> (case ev of
                 None \<Rightarrow> Some s1
               | Some b \<Rightarrow>
                   if m_write_policy c \<noteq> WRITE_THROUGH then do {
                     line \<leftarrow> get_line_sz c;
                     w \<leftarrow> alloc (m_block_addr b) L1_WRBK_ACC line True;
                     let (wp, s') = new_mf w s1;
                     send_write_request wp WRITE_BACK_REQUEST_SENT time s'
                   } else Some s1);
        if do_miss
        then Some (MISS, s2\<lparr>c_read_access := c_read_access s2 + 1,
                            c_read_miss := c_read_miss s2 + 1\<rparr>)
        else Some (RESERVATION_FAIL, s2)
      })"

subsection \<open>\<open>access\<close>\<close>

definition read_only_access ::
  "cache_config \<Rightarrow> addr \<Rightarrow> mfp \<Rightarrow> u32 \<Rightarrow> cache_state \<Rightarrow> access_result" where
  "read_only_access c a p time s = do {
     mf \<leftarrow> objs s p;
     line \<leftarrow> get_line_sz c;
     ensure (mf_data_size mf \<le> line);
     ensure (m_write_policy c = READ_ONLY);
     ensure (\<not> mf_get_is_write mf);
     let ba = block_addr c a;
     (st, idx) \<leftarrow> tag_probe c ba (c_tags s);
     if st = HIT then do { (_, s1) \<leftarrow> access_ro c ba time idx s; Some (HIT, s1) }
     else if st \<noteq> RESERVATION_FAIL \<and> \<not> miss_queue_full c 0 s then do {
       (do_miss, _, s1) \<leftarrow> send_read_request c ba idx p time True False s;
       Some (if do_miss then MISS else RESERVATION_FAIL, s1)
     }
     else Some (RESERVATION_FAIL, s)
   }"

text \<open>
  The constructor of \<open>data_cache\<close> selects the handlers by policy; \<open>READ_ONLY\<close> fails there.
\<close>

definition m_wr_hit ::
  "cache_config \<Rightarrow> addr \<Rightarrow> nat option \<Rightarrow> mfp \<Rightarrow> u32 \<Rightarrow> cache_state \<Rightarrow> access_result" where
  "m_wr_hit c =
     (case m_write_policy c of
        READ_ONLY \<Rightarrow> (\<lambda>a idx p time s. None)
      | WRITE_BACK \<Rightarrow> wr_hit_wb c
      | WRITE_THROUGH \<Rightarrow> wr_hit_wt c
      | WRITE_EVICT \<Rightarrow> wr_hit_we c
      | LOCAL_WB_GLOBAL_WT \<Rightarrow> wr_hit_global_we_local_wb c)"

definition m_wr_miss ::
  "mf_env \<Rightarrow> mf_alloc \<Rightarrow> cache_config \<Rightarrow> addr \<Rightarrow> nat option \<Rightarrow> mfp \<Rightarrow> u32 \<Rightarrow> cache_state
   \<Rightarrow> access_result" where
  "m_wr_miss env alloc c =
     (case m_write_alloc_policy c of
        WRITE_ALLOCATE \<Rightarrow> wr_miss_wa env alloc c
      | NO_WRITE_ALLOCATE \<Rightarrow> wr_miss_no_wa c)"

text \<open>\<open>l1_cache::access\<close>; \<open>l2_cache::access\<close> has the same body.\<close>

definition data_cache_access ::
  "mf_env \<Rightarrow> mf_alloc \<Rightarrow> cache_config \<Rightarrow> addr \<Rightarrow> mfp \<Rightarrow> u32 \<Rightarrow> cache_state \<Rightarrow> access_result" where
  "data_cache_access env alloc c a p time s = do {
     mf \<leftarrow> objs s p;
     line \<leftarrow> get_line_sz c;
     ensure (mf_data_size mf \<le> line);
     let wr = mf_get_is_write mf;
     (st, idx) \<leftarrow> tag_probe c (block_addr c a) (c_tags s);
     if wr then
       (if st = HIT then m_wr_hit c a idx p time s
        else if st \<noteq> RESERVATION_FAIL then m_wr_miss env alloc c a idx p time s
        else Some (RESERVATION_FAIL, s))
     else
       (if st = HIT then rd_hit_base c a idx p time s
        else if st \<noteq> RESERVATION_FAIL then rd_miss_base alloc c a idx p time s
        else Some (RESERVATION_FAIL, s))
   }"

definition l1_cache_access ::
  "mf_env \<Rightarrow> u32 \<Rightarrow> u32 \<Rightarrow> cache_config \<Rightarrow> addr \<Rightarrow> mfp \<Rightarrow> u32 \<Rightarrow> cache_state \<Rightarrow> access_result" where
  "l1_cache_access env core_id cluster_id =
     data_cache_access env (shader_core_mf_alloc env core_id cluster_id)"

definition l2_cache_access ::
  "mf_env \<Rightarrow> cache_config \<Rightarrow> addr \<Rightarrow> mfp \<Rightarrow> u32 \<Rightarrow> cache_state \<Rightarrow> access_result" where
  "l2_cache_access env = data_cache_access env (partition_mf_alloc env)"

subsection \<open>What a handler may change\<close>

text \<open>
  Every request that waits for a fill has the MSHR entry of its block, no two wait for the
  same block, and the block is not among the responses yet.
\<close>

definition extra_ok :: "(mfp \<Rightarrow> extra_mf_fields option) \<Rightarrow> mshr_table \<Rightarrow> bool" where
  "extra_ok x m \<longleftrightarrow>
     (\<forall>p e. x p = Some e \<longrightarrow>
        mshr_probe (ex_block_addr e) m \<and> ex_block_addr e \<notin> set (m_current_response m)) \<and>
     (\<forall>p q e e'. x p = Some e \<and> x q = Some e' \<and> ex_block_addr e = ex_block_addr e' \<longrightarrow> p = q)"

lemma extra_ok_mono:
  "extra_ok x m \<Longrightarrow> m_current_response m' = m_current_response m \<Longrightarrow>
     (\<And>b. mshr_probe b m \<Longrightarrow> mshr_probe b m') \<Longrightarrow> extra_ok x m'"
  unfolding extra_ok_def by metis

lemma extra_ok_insert:
  assumes "extra_ok x m" "m_current_response m' = m_current_response m"
    "\<And>b. mshr_probe b m \<Longrightarrow> mshr_probe b m'" "\<not> mshr_probe (ex_block_addr e) m" "mshr_inv m"
    "mshr_probe (ex_block_addr e) m'"
  shows "extra_ok (x(p \<mapsto> e)) m'"
proof -
  have "ex_block_addr e \<notin> set (m_current_response m)"
    using assms(4,5) by (auto simp: mshr_inv_def mshr_probe_dom)
  then show ?thesis using assms unfolding extra_ok_def
    by (auto split: if_splits) metis+
qed

lemma mshr_add_grows:
  assumes "mshr_add ba p h m = Some m'"
  shows "m_current_response m' = m_current_response m" "mshr_probe b m \<Longrightarrow> mshr_probe b m'"
    "mshr_probe ba m'"
proof -
  from mshr_add_SomeD[OF assms] obtain e where
    m': "m' = m\<lparr>m_data := AList.update ba e (m_data m)\<rparr>" by blast
  show "m_current_response m' = m_current_response m" "mshr_probe ba m'"
    by (simp_all add: m' mshr_probe_dom dom_update)
  show "mshr_probe b m'" if "mshr_probe b m"
    using that by (simp add: m' mshr_probe_dom dom_update)
qed

text \<open>
  \<open>step_ok c n s s'\<close>: from \<open>s\<close> to \<open>s'\<close> the tag and MSHR invariants are kept and at most
  \<open>n\<close> requests were appended to the miss queue.
\<close>

definition step_ok :: "cache_config \<Rightarrow> nat \<Rightarrow> cache_state \<Rightarrow> cache_state \<Rightarrow> bool" where
  "step_ok c n s s' \<longleftrightarrow>
     (tags_inv c (c_tags s) \<longrightarrow> tags_inv c (c_tags s')) \<and>
     (mshr_inv (c_mshrs s) \<longrightarrow> mshr_inv (c_mshrs s')) \<and>
     (mshr_inv (c_mshrs s) \<and> extra_ok (c_extra s) (c_mshrs s) \<longrightarrow> extra_ok (c_extra s') (c_mshrs s')) \<and>
     (\<exists>ps. c_miss_queue s' = c_miss_queue s @ ps \<and> length ps \<le> n)"

lemma step_ok_queue:
  "step_ok c n s s' \<Longrightarrow> \<exists>ps. c_miss_queue s' = c_miss_queue s @ ps \<and> length ps \<le> n"
  by (simp add: step_ok_def)

lemma step_ok_trans:
  assumes "step_ok c n s s'" "step_ok c k s' s''" "n + k \<le> l"
  shows "step_ok c l s s''"
proof -
  from step_ok_queue[OF assms(1)] step_ok_queue[OF assms(2)] obtain ps qs where
    "c_miss_queue s' = c_miss_queue s @ ps" "length ps \<le> n"
    "c_miss_queue s'' = c_miss_queue s' @ qs" "length qs \<le> k" by blast
  then have "c_miss_queue s'' = c_miss_queue s @ ps @ qs \<and> length (ps @ qs) \<le> l"
    using assms(3) by simp
  with assms show ?thesis unfolding step_ok_def by blast
qed

lemma step_ok_same:
  "c_tags s' = c_tags s \<Longrightarrow> c_mshrs s' = c_mshrs s \<Longrightarrow> c_miss_queue s' = c_miss_queue s \<Longrightarrow>
     c_extra s' = c_extra s \<Longrightarrow> step_ok c n s s'"
  by (simp add: step_ok_def)

lemma upd_mf_fields:
  assumes "upd_mf p f s = Some s'"
  shows "c_tags s' = c_tags s" "c_mshrs s' = c_mshrs s" "c_miss_queue s' = c_miss_queue s"
    "c_extra s' = c_extra s" "events s' = events s"
    "\<exists>mf. objs s p = Some mf \<and> objs s' = (objs s)(p \<mapsto> f mf)"
  using assms by (auto simp: upd_mf_def elim!: bind_SomeE)

lemma enqueue_miss_fields:
  assumes "enqueue_miss p time s = Some s'"
  shows "c_tags s' = c_tags s" "c_mshrs s' = c_mshrs s" "c_miss_queue s' = c_miss_queue s @ [p]"
    "c_extra s' = c_extra s" "events s' = events s"
    "\<exists>mf. objs s p = Some mf \<and>
       objs s' = (objs s)(p \<mapsto> mf_set_status (c_miss_queue_status s) (ucast time) mf)"
  using upd_mf_fields[OF assms[unfolded enqueue_miss_def]] by simp_all

lemma enqueue_miss_ok: "enqueue_miss p time s = Some s' \<Longrightarrow> step_ok c 1 s s'"
  using enqueue_miss_fields[of p time s s'] by (simp add: step_ok_def)

lemma send_write_request_ok: "send_write_request p ev time s = Some s' \<Longrightarrow> step_ok c 1 s s'"
  using enqueue_miss_fields[of p time _ s'] by (simp add: step_ok_def send_write_request_def)

lemma upd_mf_ok: "upd_mf p f s = Some s' \<Longrightarrow> step_ok c n s s'"
  using upd_mf_fields[of p f s s'] by (simp add: step_ok_def)

lemma new_mf_fields:
  assumes "new_mf mf s = (p, s')"
  shows "c_tags s' = c_tags s" "c_mshrs s' = c_mshrs s" "c_miss_queue s' = c_miss_queue s"
    "c_extra s' = c_extra s" "events s' = events s" "objs s' = (objs s)(p \<mapsto> mf)"
  using assms by (auto simp: new_mf_def)

lemma new_mf_ok: "new_mf mf s = (p, s') \<Longrightarrow> step_ok c n s s'"
  using new_mf_fields[of mf s p s'] by (simp add: step_ok_def)

lemma access_wb_fields:
  assumes "access_wb c a time idx s = Some (idx', ev, s')"
  shows "c_mshrs s' = c_mshrs s" "c_miss_queue s' = c_miss_queue s" "c_extra s' = c_extra s"
    "events s' = events s" "objs s' = objs s"
    "\<exists>st i. tag_access c a time (c_tags s) = Some (st, i, ev, c_tags s') \<and>
       idx' = (if i = None then idx else i)"
proof -
  from assms obtain st i t where t: "tag_access c a time (c_tags s) = Some (st, i, ev, t)"
    and s': "s' = s\<lparr>c_tags := t\<rparr>" and i: "idx' = (if i = None then idx else i)"
    by (auto simp: access_wb_def elim!: bind_SomeE)
  from s' show "c_mshrs s' = c_mshrs s" "c_miss_queue s' = c_miss_queue s" "c_extra s' = c_extra s"
    "events s' = events s" "objs s' = objs s" by simp_all
  from t i s' show "\<exists>st i. tag_access c a time (c_tags s) = Some (st, i, ev, c_tags s') \<and>
       idx' = (if i = None then idx else i)" by (intro exI[of _ st] exI[of _ i]) simp
qed

lemma access_ro_wb:
  "access_ro c a time idx s = Some (idx', s') \<Longrightarrow> access_wb c a time idx s = Some (idx', None, s')"
  by (auto simp: access_ro_def access_wb_def tag_access_nowb_def elim!: bind_SomeE split: if_splits)

lemma access_wb_ok:
  assumes "access_wb c a time idx s = Some (idx', ev, s')" "config_wf c l k"
  shows "step_ok c n s s'"
proof -
  from access_wb_fields(6)[OF assms(1)] obtain st i where
    "tag_access c a time (c_tags s) = Some (st, i, ev, c_tags s')" by blast
  from tag_access_keeps_inv[OF this _ assms(2)] access_wb_fields[OF assms(1)] show ?thesis
    by (simp add: step_ok_def)
qed

lemmas access_ro_ok = access_wb_ok[OF access_ro_wb]

lemma set_block_status_fields:
  assumes "set_block_status idx st s = Some s'"
  shows "c_mshrs s' = c_mshrs s" "c_miss_queue s' = c_miss_queue s" "c_extra s' = c_extra s"
    "events s' = events s" "objs s' = objs s"
    "\<exists>i. idx = Some i \<and> i < length (m_lines (c_tags s)) \<and>
       c_tags s' = update_line i (\<lambda>b. b\<lparr>m_status := st\<rparr>) (c_tags s)"
  using assms by (auto simp: set_block_status_def elim!: bind_SomeE split: if_splits)

lemma set_block_status_ok:
  assumes "set_block_status idx st s = Some s'"
    and "st \<noteq> INVALID \<Longrightarrow> live (m_lines (c_tags s) ! the idx)"
  shows "step_ok c n s s'"
proof -
  from set_block_status_fields(6)[OF assms(1)] obtain i where i: "idx = Some i"
    and t: "c_tags s' = update_line i (\<lambda>b. b\<lparr>m_status := st\<rparr>) (c_tags s)" by blast
  have "tags_inv c (c_tags s) \<Longrightarrow> tags_inv c (c_tags s')" unfolding t
    by (rule update_line_inv) (use assms(2) i in \<open>auto simp: live_def\<close>)
  then show ?thesis using set_block_status_fields[OF assms(1)] by (simp add: step_ok_def)
qed

text \<open>An access to a block that was probed as a hit leaves it live at the probed index.\<close>

lemma access_ro_hit:
  assumes "access_ro c a time idx s = Some (idx', s')" "tag_probe c a (c_tags s) = Some (HIT, io)"
  shows "idx' = io" "live (m_lines (c_tags s') ! the idx')"
proof -
  from access_wb_fields(6)[OF access_ro_wb[OF assms(1)]] obtain st i where
    t: "tag_access c a time (c_tags s) = Some (st, i, None, c_tags s')"
    and idx': "idx' = (if i = None then idx else i)" by blast
  note cs = tag_access_lines[OF t]
  from cs(1) assms(2) have st: "st = HIT" "i = io" by auto
  from tag_probe_hit[OF assms(2)] obtain j where j: "io = Some j" "live (m_lines (c_tags s) ! j)" by auto
  with idx' st show "idx' = io" by simp
  from cs(2) st j have "m_lines (c_tags s') =
     (m_lines (c_tags s))[j := (m_lines (c_tags s) ! j)\<lparr>m_last_access_time := time\<rparr>]"
    by (simp add: tag_access_tags_def update_line_def)
  with j idx' st show "live (m_lines (c_tags s') ! the idx')"
    by (cases "j < length (m_lines (c_tags s))") (simp_all add: live_def list_update_beyond)
qed

lemma send_read_request_new:
  assumes "send_read_request c ba idx p time ro wa s = Some (dm, ev, s')"
    "\<not> mshr_probe ba (c_mshrs s)" "\<not> mshr_full ba (c_mshrs s)"
    "length (c_miss_queue s) < unat (m_miss_queue_size c)"
  shows "\<exists>i s1 m mf line s3 s4.
     (if ro then map_option (\<lambda>(i, s'). (i, None, s')) (access_ro c ba time idx s)
      else access_wb c ba time idx s) = Some (i, ev, s1) \<and>
     mshr_add ba p (objs s1) (c_mshrs s1) = Some m \<and> objs s1 p = Some mf \<and>
     get_line_sz c = Some line \<and>
     upd_mf p (\<lambda>mf. mf\<lparr>mf_data_size := line\<rparr>) (s1\<lparr>c_mshrs := m, c_extra := (c_extra s1)(p \<mapsto>
        \<lparr>ex_block_addr = ba, ex_cache_index = i, ex_data_size = mf_data_size mf\<rparr>)\<rparr>) = Some s3 \<and>
     enqueue_miss p time s3 = Some s4 \<and>
     s' = (if wa then s4 else s4\<lparr>events := events s4 @ [READ_REQUEST_SENT]\<rparr>) \<and> dm"
  using assms unfolding send_read_request_def Let_def
  by (simp only: if_False if_True simp_thms)
    (elim bind_SomeE, auto elim!: bind_SomeE)

lemma send_read_request_ok:
  assumes "send_read_request c ba idx p time ro wa s = Some (dm, ev, s')" "config_wf c l k"
  shows "step_ok c 1 s s'" "\<not> dm \<Longrightarrow> s' = s \<and> ev = None"
    "dm = read_slot c ba s"
proof -
  let ?acc = "if ro then map_option (\<lambda>(i, s'). (i, None, s')) (access_ro c ba time idx s)
              else access_wb c ba time idx s"
  have acc: "step_ok c 0 s s1 \<and> c_mshrs s1 = c_mshrs s \<and> c_extra s1 = c_extra s" if "?acc = Some (i, e, s1)" for i e s1
    using that access_ro_ok[OF _ assms(2)] access_wb_ok[OF _ assms(2)]
      access_wb_fields(1,3) access_wb_fields(1,3)[OF access_ro_wb] by (cases ro) auto
  have mk: "step_ok c 0 s (s1\<lparr>c_mshrs := m\<rparr>)" if "?acc = Some (i, e, s1)" "mshr_add ba p h (c_mshrs s1) = Some m" for i e s1 m h
    using acc[OF that(1)] mshr_add_keeps_inv[OF that(2)] extra_ok_mono[OF _ mshr_add_grows(1,2)[OF that(2)]]
    by (simp add: step_ok_def)
  have mx: "step_ok c 0 s (s1\<lparr>c_mshrs := m, c_extra := (c_extra s1)(p \<mapsto> x)\<rparr>)"
    if "?acc = Some (i, e, s1)" "mshr_add ba p h (c_mshrs s1) = Some m" "ex_block_addr x = ba"
      "\<not> mshr_probe ba (c_mshrs s)" for i e s1 m h x
    using acc[OF that(1)] mshr_add_keeps_inv[OF that(2)] that(3,4)
      extra_ok_insert[OF _ mshr_add_grows(1,2)[OF that(2)], of _ x] mshr_add_grows(3)[OF that(2)]
    by (simp add: step_ok_def)
  consider (hit) "mshr_probe ba (c_mshrs s)" "\<not> mshr_full ba (c_mshrs s)"
    | (new) "\<not> mshr_probe ba (c_mshrs s)" "\<not> mshr_full ba (c_mshrs s)" "length (c_miss_queue s) < unat (m_miss_queue_size c)"
    | (no) "\<not> read_slot c ba s" unfolding read_slot_def by blast
  then have "step_ok c 1 s s' \<and> (\<not> dm \<longrightarrow> s' = s \<and> ev = None) \<and> dm = read_slot c ba s"
  proof cases
    case hit
    with assms(1) obtain i s1 m where a: "?acc = Some (i, ev, s1)" "mshr_add ba p (objs s1) (c_mshrs s1) = Some m"
      and s': "s' = s1\<lparr>c_mshrs := m\<rparr>" and dm: dm
      by (auto simp: send_read_request_def Let_def elim!: bind_SomeE)
    from mk[OF a] s' have "step_ok c 1 s s'" by (auto simp: step_ok_def)
    with dm hit show ?thesis by (simp add: read_slot_def)
  next
    case new
    let ?y = "\<lambda>i mf. \<lparr>ex_block_addr = ba, ex_cache_index = i, ex_data_size = mf_data_size mf\<rparr>"
    from send_read_request_new[OF assms(1) new] obtain i s1 m mf line s3 s4 where a:
        "?acc = Some (i, ev, s1)" "mshr_add ba p (objs s1) (c_mshrs s1) = Some m"
      and mf: "objs s1 p = Some mf"
      and s3: "upd_mf p (\<lambda>mf. mf\<lparr>mf_data_size := line\<rparr>)
             (s1\<lparr>c_mshrs := m, c_extra := (c_extra s1)(p \<mapsto> ?y i mf)\<rparr>) = Some s3"
      and s4: "enqueue_miss p time s3 = Some s4"
      and s': "s' = (if wa then s4 else s4\<lparr>events := events s4 @ [READ_REQUEST_SENT]\<rparr>)" and dm: dm
      by blast
    from mx[OF a, of "?y i mf"] new(1)
    have "step_ok c 0 s (s1\<lparr>c_mshrs := m, c_extra := (c_extra s1)(p \<mapsto> ?y i mf)\<rparr>)" by simp
    from step_ok_trans[OF this upd_mf_ok[OF s3, of c 0]] have "step_ok c 0 s s3" by simp
    from step_ok_trans[OF this enqueue_miss_ok[OF s4]] have "step_ok c 1 s s4" by simp
    then have "step_ok c 1 s s'" using s' by (simp add: step_ok_def)
    with dm new show ?thesis by (simp add: read_slot_def)
  next
    case no
    with assms(1) show ?thesis
      by (auto simp: send_read_request_def read_slot_def Let_def step_ok_def split: if_splits)
  qed
  then show "step_ok c 1 s s'" "\<not> dm \<Longrightarrow> s' = s \<and> ev = None" "dm = read_slot c ba s" by simp_all
qed

subsection \<open>Every handler keeps the invariants and the queue bound\<close>

definition handler_ok ::
  "cache_config \<Rightarrow> cache_state \<Rightarrow> cache_request_status \<Rightarrow> cache_state \<Rightarrow> bool" where
  "handler_ok c s st s' \<longleftrightarrow> step_ok c 3 s s' \<and>
     (length (c_miss_queue s) \<le> unat (m_miss_queue_size c) \<longrightarrow>
      length (c_miss_queue s') \<le> unat (m_miss_queue_size c)) \<and>
     (st = RESERVATION_FAIL \<longrightarrow> s' = s)"

lemma handler_okI:
  assumes "step_ok c n s s'" "n = 0 \<or> length (c_miss_queue s) + n \<le> unat (m_miss_queue_size c)"
    "n \<le> 3" "st \<noteq> RESERVATION_FAIL"
  shows "handler_ok c s st s'"
proof -
  from step_ok_queue[OF assms(1)] obtain ps where
    ps: "c_miss_queue s' = c_miss_queue s @ ps" "length ps \<le> n" by blast
  have "step_ok c 3 s s'" by (rule step_ok_trans[OF assms(1), where k=0]) (use assms(3) in \<open>simp_all add: step_ok_def\<close>)
  with ps assms(2,4) show ?thesis unfolding handler_ok_def by auto
qed

lemma handler_ok_refuse: "handler_ok c s st s"
  by (simp add: handler_ok_def step_ok_def)

lemma step_ok_counter:
  "step_ok c n s s' \<Longrightarrow> step_ok c n s (s'\<lparr>c_write_access := x\<rparr>)"
  "step_ok c n s s' \<Longrightarrow> step_ok c n s (s'\<lparr>c_read_access := x\<rparr>)"
  "step_ok c n s s' \<Longrightarrow> step_ok c n s (s'\<lparr>c_write_access := x, c_write_miss := y\<rparr>)"
  "step_ok c n s s' \<Longrightarrow> step_ok c n s (s'\<lparr>c_read_access := x, c_read_miss := y\<rparr>)"
  by (simp_all add: step_ok_def)

lemma wr_hit_wb_ok:
  assumes "wr_hit_wb c a io p time s = Some (st, s')" "config_wf c l k"
    "tag_probe c (block_addr c a) (c_tags s) = Some (HIT, io)"
  shows "handler_ok c s st s'"
proof -
  from assms(1) obtain i s1 s2 where a: "access_ro c (block_addr c a) time io s = Some (i, s1)"
    and b: "set_block_status i MODIFIED s1 = Some s2" and st: "st = HIT"
    and s': "s' = s2\<lparr>c_write_access := c_write_access s2 + 1\<rparr>"
    by (auto simp: wr_hit_wb_def elim!: bind_SomeE)
  have "step_ok c 0 s s2"
    by (rule step_ok_trans[OF access_ro_ok[OF a assms(2)] set_block_status_ok[OF b]])
      (use access_ro_hit[OF a assms(3)] in simp_all)
  then show ?thesis unfolding st s' by (intro handler_okI step_ok_counter) auto
qed

lemma wr_hit_wt_ok:
  assumes "wr_hit_wt c a io p time s = Some (st, s')" "config_wf c l k"
    "tag_probe c (block_addr c a) (c_tags s) = Some (HIT, io)"
  shows "handler_ok c s st s'"
proof (cases "miss_queue_full c 0 s")
  case True
  with assms(1) show ?thesis by (auto simp: wr_hit_wt_def handler_ok_refuse)
next
  case False
  with assms(1) obtain i s1 s2 s3 where a: "access_ro c (block_addr c a) time io s = Some (i, s1)"
    and b: "set_block_status i MODIFIED s1 = Some s2" and st: "st = HIT"
    and d: "send_write_request p WRITE_REQUEST_SENT time s2 = Some s3"
    and s': "s' = s3\<lparr>c_write_access := c_write_access s3 + 1\<rparr>"
    by (auto simp: wr_hit_wt_def elim!: bind_SomeE)
  have "step_ok c 0 s s2"
    by (rule step_ok_trans[OF access_ro_ok[OF a assms(2)] set_block_status_ok[OF b]])
      (use access_ro_hit[OF a assms(3)] in simp_all)
  from step_ok_trans[OF this send_write_request_ok[OF d]] have "step_ok c 1 s s3" by simp
  then show ?thesis unfolding st s' using False
    by (intro handler_okI[where n=1] step_ok_counter) (simp_all add: miss_queue_full_def)
qed

lemma wr_hit_we_ok:
  assumes "wr_hit_we c a io p time s = Some (st, s')"
  shows "handler_ok c s st s'"
proof (cases "miss_queue_full c 0 s")
  case True
  with assms(1) show ?thesis by (auto simp: wr_hit_we_def handler_ok_refuse)
next
  case False
  with assms(1) obtain s1 s2 where d: "send_write_request p WRITE_REQUEST_SENT time s = Some s1"
    and b: "set_block_status io INVALID s1 = Some s2" and st: "st = HIT"
    and s': "s' = s2\<lparr>c_write_access := c_write_access s2 + 1\<rparr>"
    by (auto simp: wr_hit_we_def elim!: bind_SomeE)
  have "step_ok c 1 s s2"
    by (rule step_ok_trans[OF send_write_request_ok[OF d] set_block_status_ok[OF b, where n=0]]) simp_all
  then show ?thesis unfolding st s' using False
    by (intro handler_okI[where n=1] step_ok_counter) (simp_all add: miss_queue_full_def)
qed

lemma wr_hit_global_we_local_wb_ok:
  assumes "wr_hit_global_we_local_wb c a io p time s = Some (st, s')" "config_wf c l k"
    "tag_probe c (block_addr c a) (c_tags s) = Some (HIT, io)"
  shows "handler_ok c s st s'"
  using assms(1) wr_hit_we_ok[of c a io p time s st s'] wr_hit_wb_ok[of c a io p time s st s'] assms(2,3)
  by (auto simp: wr_hit_global_we_local_wb_def elim!: bind_SomeE split: if_splits)

lemma wr_miss_no_wa_ok:
  assumes "wr_miss_no_wa c a io p time s = Some (st, s')"
  shows "handler_ok c s st s'"
proof (cases "miss_queue_full c 0 s")
  case True
  with assms(1) show ?thesis by (auto simp: wr_miss_no_wa_def handler_ok_refuse)
next
  case False
  with assms(1) obtain s1 where d: "send_write_request p WRITE_REQUEST_SENT time s = Some s1" and st: "st = MISS"
    and s': "s' = s1\<lparr>c_write_access := c_write_access s1 + 1, c_write_miss := c_write_miss s1 + 1\<rparr>"
    by (auto simp: wr_miss_no_wa_def elim!: bind_SomeE)
  show ?thesis unfolding st s' using False send_write_request_ok[OF d]
    by (intro handler_okI[where n=1] step_ok_counter) (simp_all add: miss_queue_full_def)
qed

lemma rd_hit_base_ok:
  assumes "rd_hit_base c a io p time s = Some (st, s')" "config_wf c l k"
    "tag_probe c (block_addr c a) (c_tags s) = Some (HIT, io)"
  shows "handler_ok c s st s'"
proof -
  from assms(1) obtain i s1 s2 mf where a: "access_ro c (block_addr c a) time io s = Some (i, s1)"
    and b: "(if mf_atomic mf then do { ensure (mf_get_access_type mf = GLOBAL_ACC_R);
              set_block_status i MODIFIED s1 } else Some s1) = Some s2" and st: "st = HIT"
    and s': "s' = s2\<lparr>c_read_access := c_read_access s2 + 1\<rparr>"
    by (auto simp: rd_hit_base_def elim!: bind_SomeE)
  have "step_ok c 0 s1 s2"
  proof (cases "mf_atomic mf")
    case True
    with b have "set_block_status i MODIFIED s1 = Some s2" by (simp split: if_splits)
    then show ?thesis by (rule set_block_status_ok) (use access_ro_hit[OF a assms(3)] in simp)
  next
    case False
    with b show ?thesis by (auto intro: step_ok_same)
  qed
  from step_ok_trans[OF access_ro_ok[OF a assms(2), where n=0] this] have "step_ok c 0 s s2" by simp
  then show ?thesis unfolding st s' by (intro handler_okI step_ok_counter) auto
qed

text \<open>The write-back a miss may have to send: at most one request.\<close>

lemma rd_writeback_ok:
  assumes "(case ev of None \<Rightarrow> Some s1
     | Some b \<Rightarrow> if m_write_policy c \<noteq> WRITE_THROUGH then do {
           line \<leftarrow> get_line_sz c; w \<leftarrow> alloc (m_block_addr b) t line True;
           let (wp, s') = new_mf w s1; send_write_request wp WRITE_BACK_REQUEST_SENT time s'
         } else Some s1) = Some s2"
  shows "step_ok c 1 s1 s2"
proof (cases "ev = None \<or> m_write_policy c = WRITE_THROUGH")
  case True
  with assms have "s2 = s1" by (auto split: option.splits)
  then show ?thesis by (simp add: step_ok_def)
next
  case False
  with assms obtain w wp s' where n: "new_mf w s1 = (wp, s')"
    and d: "send_write_request wp WRITE_BACK_REQUEST_SENT time s' = Some s2"
    by (auto elim!: bind_SomeE split: prod.splits)
  from step_ok_trans[OF new_mf_ok[OF n, where n=0] send_write_request_ok[OF d]] show ?thesis by simp
qed

lemma wa_writeback_ok:
  assumes "(case ev of None \<Rightarrow> Some s1
     | Some b \<Rightarrow> if m_write_policy c \<noteq> WRITE_THROUGH then do {
           line \<leftarrow> get_line_sz c; w \<leftarrow> alloc (m_block_addr b) t line True;
           let (wp, s') = new_mf w s1; enqueue_miss wp time s'
         } else Some s1) = Some s2"
  shows "step_ok c 1 s1 s2"
proof (cases "ev = None \<or> m_write_policy c = WRITE_THROUGH")
  case True
  with assms have "s2 = s1" by (auto split: option.splits)
  then show ?thesis by (simp add: step_ok_def)
next
  case False
  with assms obtain w wp s' where n: "new_mf w s1 = (wp, s')"
    and d: "enqueue_miss wp time s' = Some s2"
    by (auto elim!: bind_SomeE split: prod.splits)
  from step_ok_trans[OF new_mf_ok[OF n, where n=0] enqueue_miss_ok[OF d]] show ?thesis by simp
qed

lemma rd_miss_base_ok:
  assumes "rd_miss_base alloc c a io p time s = Some (st, s')" "config_wf c l k"
  shows "handler_ok c s st s'"
proof (cases "miss_queue_full c 1 s")
  case True
  with assms(1) show ?thesis by (auto simp: rd_miss_base_def handler_ok_refuse)
next
  case False
  from assms(1)[unfolded rd_miss_base_def] False obtain dm ev s1 s2 where
    r: "send_read_request c (block_addr c a) io p time False False s = Some (dm, ev, s1)"
    and w: "(case ev of None \<Rightarrow> Some s1
     | Some b \<Rightarrow> if m_write_policy c \<noteq> WRITE_THROUGH then do {
           line \<leftarrow> get_line_sz c; w \<leftarrow> alloc (m_block_addr b) L1_WRBK_ACC line True;
           let (wp, s') = new_mf w s1; send_write_request wp WRITE_BACK_REQUEST_SENT time s'
         } else Some s1) = Some s2"
    and f: "(st, s') = (if dm then (MISS, s2\<lparr>c_read_access := c_read_access s2 + 1, c_read_miss := c_read_miss s2 + 1\<rparr>)
       else (RESERVATION_FAIL, s2))"
    by (auto elim!: bind_SomeE split: if_splits)
  note ro = send_read_request_ok[OF r assms(2)]
  show ?thesis
  proof (cases dm)
    case True
    from step_ok_trans[OF ro(1) rd_writeback_ok[where alloc=alloc and t=L1_WRBK_ACC, OF w]] have "step_ok c 2 s s2" by simp
    with f True False show ?thesis
      by (auto intro!: handler_okI[where n=2] step_ok_counter simp: miss_queue_full_def)
  next
    case False
    with ro(2) w f show ?thesis by (simp add: handler_ok_refuse)
  qed
qed

lemma wr_miss_wa_ok:
  assumes "wr_miss_wa env alloc c a io p time s = Some (st, s')" "config_wf c l k"
  shows "handler_ok c s st s'"
proof -
  let ?ba = "block_addr c a"
  have rs: "(\<not> (mshr_probe ?ba (c_mshrs s) \<and> \<not> mshr_full ?ba (c_mshrs s)) \<and>
          \<not> (\<not> mshr_probe ?ba (c_mshrs s) \<and> \<not> mshr_full ?ba (c_mshrs s) \<and>
            length (c_miss_queue s) < unat (m_miss_queue_size c))) = (\<not> read_slot c ?ba s)"
    by (auto simp: read_slot_def)
  note d = assms(1)[unfolded wr_miss_wa_def Let_def rs]
  show ?thesis
  proof (cases "miss_queue_full c 2 s \<or> \<not> read_slot c ?ba s")
    case True
    with d show ?thesis by (auto simp: handler_ok_refuse)
  next
    case False
    with d obtain s1 n s2 x dm ev s3 s4 where
      w: "send_write_request p WRITE_REQUEST_SENT time s = Some s1"
      and n: "new_mf x s1 = (n, s2)"
      and r: "send_read_request c ?ba io n time False True s2 = Some (dm, ev, s3)"
      and e: "(case ev of None \<Rightarrow> Some s3
         | Some b \<Rightarrow> if m_write_policy c \<noteq> WRITE_THROUGH then do {
           line \<leftarrow> get_line_sz c; w \<leftarrow> alloc (m_block_addr b) L2_WRBK_ACC line True;
           let (wp, s') = new_mf w s3; enqueue_miss wp time s'
         } else Some s3) = Some s4"
      and f: "(st, s') = (if dm then (MISS, s4\<lparr>c_write_access := c_write_access s4 + 1, c_write_miss := c_write_miss s4 + 1\<rparr>)
       else (RESERVATION_FAIL, s4))"
      unfolding Let_def by (auto elim!: bind_SomeE split: if_splits prod.splits)
    note wf = enqueue_miss_fields[OF w[unfolded send_write_request_def]] and nf = new_mf_fields[OF n]
    have "c_mshrs s2 = c_mshrs s" "length (c_miss_queue s2) = length (c_miss_queue s) + 1"
      using wf nf by simp_all
    with False have "read_slot c ?ba s2" by (auto simp: read_slot_def miss_queue_full_def)
    with send_read_request_ok(3)[OF r assms(2)] have dm: dm by simp
    from step_ok_trans[OF send_write_request_ok[OF w] new_mf_ok[OF n, where n=0]] have "step_ok c 1 s s2" by simp
    from step_ok_trans[OF this send_read_request_ok(1)[OF r assms(2)]] have "step_ok c 2 s s3" by simp
    from step_ok_trans[OF this wa_writeback_ok[where alloc=alloc and t=L2_WRBK_ACC, OF e]] have "step_ok c 3 s s4" by simp
    with f dm False show ?thesis
      by (auto intro!: handler_okI[where n=3] step_ok_counter simp: miss_queue_full_def)
  qed
qed

subsection \<open>\<open>access\<close>\<close>

lemma m_wr_hit_ok:
  assumes "m_wr_hit c a io p time s = Some (st, s')" "config_wf c l k"
    "tag_probe c (block_addr c a) (c_tags s) = Some (HIT, io)"
  shows "handler_ok c s st s'"
  using assms wr_hit_wb_ok[of c a io p time s st s' l k] wr_hit_wt_ok[of c a io p time s st s' l k]
    wr_hit_we_ok[of c a io p time s st s'] wr_hit_global_we_local_wb_ok[of c a io p time s st s' l k]
  by (cases "m_write_policy c") (simp_all add: m_wr_hit_def)

lemma m_wr_miss_ok:
  assumes "m_wr_miss env alloc c a io p time s = Some (st, s')" "config_wf c l k"
  shows "handler_ok c s st s'"
  using assms wr_miss_wa_ok[of env alloc c a io p time s st s' l k] wr_miss_no_wa_ok[of c a io p time s st s']
  by (cases "m_write_alloc_policy c") (simp_all add: m_wr_miss_def)

lemma data_cache_access_cases:
  assumes "data_cache_access env alloc c a p time s = Some (st, s')"
  obtains (refuse) "st = RESERVATION_FAIL" "s' = s"
  | (wr_hit) mf io where "objs s p = Some mf" "mf_get_is_write mf"
      "tag_probe c (block_addr c a) (c_tags s) = Some (HIT, io)"
      "m_wr_hit c a io p time s = Some (st, s')"
  | (wr_miss) mf io ps where "objs s p = Some mf" "mf_get_is_write mf"
      "tag_probe c (block_addr c a) (c_tags s) = Some (ps, io)" "ps = MISS \<or> ps = HIT_RESERVED"
      "m_wr_miss env alloc c a io p time s = Some (st, s')"
  | (rd_hit) mf io where "objs s p = Some mf" "\<not> mf_get_is_write mf"
      "tag_probe c (block_addr c a) (c_tags s) = Some (HIT, io)"
      "rd_hit_base c a io p time s = Some (st, s')"
  | (rd_miss) mf io ps where "objs s p = Some mf" "\<not> mf_get_is_write mf"
      "tag_probe c (block_addr c a) (c_tags s) = Some (ps, io)" "ps = MISS \<or> ps = HIT_RESERVED"
      "rd_miss_base alloc c a io p time s = Some (st, s')"
proof -
  from assms obtain mf ps io where mf: "objs s p = Some mf"
    and pr: "tag_probe c (block_addr c a) (c_tags s) = Some (ps, io)"
    by (auto simp: data_cache_access_def Let_def elim!: bind_SomeE split: if_splits)
  note d = assms[unfolded data_cache_access_def Let_def mf pr]
  consider "ps = HIT" | "ps = RESERVATION_FAIL" | "ps = MISS \<or> ps = HIT_RESERVED" by (cases ps) auto
  then show thesis
  proof cases
    case 1
    with d show thesis using wr_hit[OF mf _ pr[unfolded 1]] rd_hit[OF mf _ pr[unfolded 1]]
      by (cases "mf_get_is_write mf") (auto elim!: bind_SomeE split: if_splits)
  next
    case 2
    with d refuse show thesis
      by (cases "mf_get_is_write mf") (auto elim!: bind_SomeE split: if_splits)
  next
    case 3
    then have "ps \<noteq> HIT" "ps \<noteq> RESERVATION_FAIL" by auto
    with d show thesis using wr_miss[OF mf _ pr 3] rd_miss[OF mf _ pr 3]
      by (cases "mf_get_is_write mf") (auto elim!: bind_SomeE split: if_splits)
  qed
qed

lemma data_cache_access_ok:
  assumes "data_cache_access env alloc c a p time s = Some (st, s')" "config_wf c l k"
  shows "handler_ok c s st s'"
  using assms(1)
proof (cases rule: data_cache_access_cases)
  case refuse
  then show ?thesis by (simp add: handler_ok_refuse)
next
  case wr_hit
  then show ?thesis using m_wr_hit_ok[OF _ assms(2)] by blast
next
  case wr_miss
  then show ?thesis using m_wr_miss_ok[OF _ assms(2)] by blast
next
  case rd_hit
  then show ?thesis using rd_hit_base_ok[OF _ assms(2)] by blast
next
  case rd_miss
  then show ?thesis using rd_miss_base_ok[OF _ assms(2)] by blast
qed

lemma read_only_access_ok:
  assumes "read_only_access c a p time s = Some (st, s')" "config_wf c l k"
  shows "handler_ok c s st s'"
proof -
  from assms(1) obtain ps io where
    pr: "tag_probe c (block_addr c a) (c_tags s) = Some (ps, io)"
    by (auto simp: read_only_access_def Let_def elim!: bind_SomeE split: if_splits)
  note d = assms(1)[unfolded read_only_access_def Let_def pr]
  consider "ps = HIT" | "ps \<noteq> HIT" "ps = RESERVATION_FAIL \<or> miss_queue_full c 0 s"
    | "ps \<noteq> HIT" "ps \<noteq> RESERVATION_FAIL" "\<not> miss_queue_full c 0 s" by blast
  then show ?thesis
  proof cases
    case 1
    with d obtain i where st: "st = HIT" and a: "access_ro c (block_addr c a) time io s = Some (i, s')"
      by (auto elim!: bind_SomeE split: if_splits)
    from access_ro_ok[OF a assms(2), where n=0] show ?thesis unfolding st by (intro handler_okI) auto
  next
    case 2
    with d show ?thesis by (auto elim!: bind_SomeE split: if_splits simp: handler_ok_refuse)
  next
    case 3
    with d obtain dm ev where r: "send_read_request c (block_addr c a) io p time True False s = Some (dm, ev, s')"
      and st: "st = (if dm then MISS else RESERVATION_FAIL)"
      by (auto elim!: bind_SomeE split: if_splits)
    note ro = send_read_request_ok[OF r assms(2)]
    show ?thesis
    proof (cases dm)
      case True
      with st ro(1) 3(3) show ?thesis
        by (intro handler_okI[where n=1]) (simp_all add: miss_queue_full_def)
    next
      case False
      with ro(2) show ?thesis by (simp add: handler_ok_refuse)
    qed
  qed
qed

text \<open>The cache invariant: tags, MSHRs, pending fills and the bounded miss queue.\<close>

definition cache_inv :: "cache_config \<Rightarrow> cache_state \<Rightarrow> bool" where
  [inv_defs]: "cache_inv c s \<longleftrightarrow> tags_inv c (c_tags s) \<and> mshr_inv (c_mshrs s) \<and>
     extra_ok (c_extra s) (c_mshrs s) \<and> length (c_miss_queue s) \<le> unat (m_miss_queue_size c)"

lemma handler_ok_inv: "handler_ok c s st s' \<Longrightarrow> cache_inv c s \<Longrightarrow> cache_inv c s'"
  by (simp add: handler_ok_def cache_inv_def step_ok_def)

text \<open>
  C1: an access of the L1 or L2 data cache, whatever its policies, keeps the cache invariant:
  unique tags per set, an MSHR table within its configured entries and merges, one MSHR entry
  per request that waits for a fill, and a miss queue that never exceeds \<open>m_miss_queue_size\<close>.  The admission guards, which reserve one,
  two or three slots, are exactly enough for the requests a handler sends.
\<close>

theorem data_cache_access_inv:
  assumes "data_cache_access env alloc c a p time s = Some (st, s')" and "config_wf c l k"
    and "cache_inv c s"
  shows "cache_inv c s'"
  by (rule handler_ok_inv[OF data_cache_access_ok[OF assms(1,2)] assms(3)])

text \<open>
  C28: an access that answers \<open>RESERVATION_FAIL\<close> is free of side effects: tags, replacement
  state, MSHRs, queues, counters, request objects and the caller's event list are as before,
  so the caller can replay it in a later cycle.
\<close>

theorem reservation_fail_no_effect:
  assumes "data_cache_access env alloc c a p time s = Some (RESERVATION_FAIL, s')"
    and "config_wf c l k"
  shows "s' = s"
  using data_cache_access_ok[OF assms] by (simp add: handler_ok_def)

text \<open>
  The same two facts for the read-only (instruction, constant) cache.
\<close>

theorem read_only_access_inv:
  assumes "read_only_access c a p time s = Some (st, s')" and "config_wf c l k"
    and "cache_inv c s"
  shows "cache_inv c s' \<and> (st = RESERVATION_FAIL \<longrightarrow> s' = s)"
  using read_only_access_ok[OF assms(1,2)] handler_ok_inv[OF _ assms(3)]
  by (auto simp: handler_ok_def)

subsection \<open>Fills\<close>

lemma place_inv:
  assumes "tags_inv c t" "i < length (m_lines t)"
    "\<forall>j < length (m_lines t). j div unat (m_assoc c) = i div unat (m_assoc c) \<longrightarrow>
       \<not> (m_tag (m_lines t ! j) = m_tag b \<and> live (m_lines t ! j))"
  shows "tags_inv c (update_line i (\<lambda>_. b) t)"
  using assms unfolding tags_inv_def update_line_def
  by (auto simp: nth_list_update)

lemma tag_fill_addr_inv:
  assumes "tag_fill_addr c a time t = Some t'" "tags_inv c t" "config_wf c l k"
  shows "tags_inv c t'"
proof -
  have pos: "0 < unat (m_assoc c)" using assms(2) by (simp add: tags_inv_def)
  from assms(1) obtain io b where p: "tag_probe c a t = Some (MISS, io)" and
    b: "block_fill time (block_allocate (tag c a) (block_addr c a) time (m_lines t ! the io)) = Some b"
    and t': "t' = update_line (the io) (\<lambda>_. b) t"
    by (auto simp: tag_fill_addr_def elim!: bind_SomeE split: if_splits)
  from tag_probe_index[OF p] obtain i where i: "io = Some i" "set_base c a \<le> i"
    "i < set_base c a + unat (m_assoc c)" by auto
  have e: "i div unat (m_assoc c) = unat (set_index c a)" using same_set_iff[OF pos, of a i] i by simp
  have tb: "m_tag b = tag c a" using b by (auto simp: block_fill_def block_allocate_def split: if_splits)
  show ?thesis unfolding t' i(1) option.sel
  proof (rule place_inv[OF assms(2) set_in_range[OF assms(3,2) i(3)]], intro allI impI)
    fix j assume "j div unat (m_assoc c) = i div unat (m_assoc c)"
    with e same_set_iff[OF pos, of a j] tag_probe_absent[OF p, of j]
    show "\<not> (m_tag (m_lines t ! j) = m_tag b \<and> live (m_lines t ! j))" by (simp add: tb)
  qed
qed

text \<open>The tag part of a fill.\<close>

definition fill_tags :: "cache_config \<Rightarrow> extra_mf_fields \<Rightarrow> u32 \<Rightarrow> tag_array \<Rightarrow> tag_array option" where
  "fill_tags c e time t =
     (case m_alloc_policy c of
        ON_MISS \<Rightarrow> do { i \<leftarrow> ex_cache_index e; ensure (i < length (m_lines t)); tag_fill_idx c i time t }
      | ON_FILL \<Rightarrow> tag_fill_addr c (ex_block_addr e) time t)"

lemma fill_tags_inv:
  assumes "fill_tags c e time t = Some t'" "tags_inv c t" "config_wf c l k"
  shows "tags_inv c t'"
  using assms tag_fill_addr_inv[of c "ex_block_addr e" time t t' l k] tag_fill_idx_inv[of c _ time t t']
  by (auto simp: fill_tags_def elim!: bind_SomeE split: allocation_policy_t.splits if_splits)

lemma cache_fill_parts:
  assumes "cache_fill c p time s = Some s'"
  obtains e mf t at m where "c_extra s p = Some e" "objs s p = Some mf"
    "fill_tags c e time (c_tags s) = Some t"
    "mshr_mark_ready (ex_block_addr e) (c_mshrs s) = Some (at, m)"
    "c_mshrs s' = m" "c_miss_queue s' = c_miss_queue s" "c_extra s' = (c_extra s)(p := None)"
    "objs s' = (objs s)(p \<mapsto> mf\<lparr>mf_data_size := ex_data_size e\<rparr>)"
    "if at then m_alloc_policy c = ON_MISS \<and> (\<exists>i. ex_cache_index e = Some i \<and>
        i < length (m_lines t) \<and> c_tags s' = update_line i (\<lambda>b. b\<lparr>m_status := MODIFIED\<rparr>) t)
     else c_tags s' = t"
proof -
  from assms obtain e s1 t at m s3 where e: "c_extra s p = Some e"
    and s1: "upd_mf p (\<lambda>mf. mf\<lparr>mf_data_size := ex_data_size e\<rparr>) s = Some s1"
    and t: "fill_tags c e time (c_tags s1) = Some t"
    and m: "mshr_mark_ready (ex_block_addr e) (c_mshrs s1) = Some (at, m)"
    and s3: "(if at then do { ensure (m_alloc_policy c = ON_MISS);
              set_block_status (ex_cache_index e) MODIFIED (s1\<lparr>c_tags := t, c_mshrs := m\<rparr>)
            } else Some (s1\<lparr>c_tags := t, c_mshrs := m\<rparr>)) = Some s3"
    and s': "s' = s3\<lparr>c_extra := (c_extra s3)(p := None)\<rparr>"
    unfolding cache_fill_def fill_tags_def Let_def by (auto elim!: bind_SomeE)
  note f1 = upd_mf_fields[OF s1]
  show thesis
  proof (cases at)
    case True
    with s3 have sb: "set_block_status (ex_cache_index e) MODIFIED (s1\<lparr>c_tags := t, c_mshrs := m\<rparr>) = Some s3"
      and om: "m_alloc_policy c = ON_MISS" by (auto split: if_splits)
    note f = set_block_status_fields[OF sb]
    from f1(6) obtain mf where mf: "objs s p = Some mf" "objs s1 = (objs s)(p \<mapsto> mf\<lparr>mf_data_size := ex_data_size e\<rparr>)" by blast
    show thesis by (rule that[OF e mf(1) t[unfolded f1(1)] m[unfolded f1(2)]])
        (use f f1 mf om s' True in auto)
  next
    case False
    from f1(6) obtain mf where mf: "objs s p = Some mf" "objs s1 = (objs s)(p \<mapsto> mf\<lparr>mf_data_size := ex_data_size e\<rparr>)" by blast
    show thesis by (rule that[OF e mf(1) t[unfolded f1(1)] m[unfolded f1(2)]])
        (use f1 mf s3 s' False in auto)
  qed
qed

lemma filled_live:
  assumes "fill_tags c e time t = Some t'" "m_alloc_policy c = ON_MISS" "ex_cache_index e = Some i"
  shows "i < length (m_lines t)" "m_status (m_lines t ! i) = RESERVED"
    "t' = update_line i (\<lambda>b. b\<lparr>m_status := VALID, m_fill_time := time\<rparr>) t"
  using assms by (auto simp: fill_tags_def tag_fill_idx_def block_fill_def update_line_def elim!: bind_SomeE split: if_splits)

lemma cache_fill_keeps:
  assumes "cache_fill c p time s = Some s'" "config_wf c l k" "cache_inv c s"
  shows "cache_inv c s'" "\<not> waiting_for_fill p s'"
    "\<exists>e. c_extra s p = Some e \<and> mshr_pending (c_mshrs s') =
       mshr_pending (c_mshrs s) @ m_list (entry_at (ex_block_addr e) (c_mshrs s))"
proof -
  from assms(3) have ti: "tags_inv c (c_tags s)" and mi: "mshr_inv (c_mshrs s)"
    and xi: "extra_ok (c_extra s) (c_mshrs s)" and qi: "length (c_miss_queue s) \<le> unat (m_miss_queue_size c)"
    by (simp_all add: cache_inv_def)
  from cache_fill_parts[OF assms(1)] obtain e mf t at m where
    f: "c_extra s p = Some e" "objs s p = Some mf" "fill_tags c e time (c_tags s) = Some t"
    "mshr_mark_ready (ex_block_addr e) (c_mshrs s) = Some (at, m)"
    "c_mshrs s' = m" "c_miss_queue s' = c_miss_queue s" "c_extra s' = (c_extra s)(p := None)"
    and tags: "if at then m_alloc_policy c = ON_MISS \<and> (\<exists>i. ex_cache_index e = Some i \<and>
        i < length (m_lines t) \<and> c_tags s' = update_line i (\<lambda>b. b\<lparr>m_status := MODIFIED\<rparr>) t)
     else c_tags s' = t" by metis
  from xi f(1) have pr: "mshr_probe (ex_block_addr e) (c_mshrs s)"
    and nr: "ex_block_addr e \<notin> set (m_current_response (c_mshrs s))"
    and un: "\<And>q e'. c_extra s q = Some e' \<Longrightarrow> ex_block_addr e' = ex_block_addr e \<Longrightarrow> q = p"
    unfolding extra_ok_def by metis+
  from pr obtain en where en: "map_of (m_data (c_mshrs s)) (ex_block_addr e) = Some en"
    by (auto simp: mshr_probe_def)
  from mshr_mark_ready_eq[OF mi en nr] f(4) have
    m: "m = (c_mshrs s)\<lparr>m_current_response := m_current_response (c_mshrs s) @ [ex_block_addr e]\<rparr>" and mi': "mshr_inv m"
    by simp_all
  have x': "extra_ok (c_extra s') (c_mshrs s')"
    using xi un unfolding extra_ok_def f(5,7) m by (auto simp: mshr_probe_def split: if_splits)
  have ti': "tags_inv c t" by (rule fill_tags_inv[OF f(3) ti assms(2)])
  have "tags_inv c (c_tags s')"
  proof (cases at)
    case True
    with tags obtain i where i: "ex_cache_index e = Some i" "m_alloc_policy c = ON_MISS"
      "c_tags s' = update_line i (\<lambda>b. b\<lparr>m_status := MODIFIED\<rparr>) t" by auto
    from filled_live[OF f(3) i(2,1)] have "live (m_lines t ! i)" by (simp add: live_def update_line_def)
    then show ?thesis unfolding i(3) by (intro update_line_inv[OF ti']) simp_all
  qed (use tags ti' in simp)
  with mi' x' qi f show "cache_inv c s'" by (simp add: cache_inv_def)
  show "\<not> waiting_for_fill p s'" using f(7) by (simp add: waiting_for_fill_def)
  show "\<exists>e. c_extra s p = Some e \<and> mshr_pending (c_mshrs s') =
       mshr_pending (c_mshrs s) @ m_list (entry_at (ex_block_addr e) (c_mshrs s))"
    using f(1,5) m by (simp add: mshr_pending_def entry_at_def)
qed

lemma cache_next_access_keeps:
  assumes "cache_next_access s = Some (p, s')" "cache_inv c s"
  shows "cache_inv c s'"
proof -
  from assms(1) obtain m where n: "mshr_next_access (c_mshrs s) = Some (p, m)" and s': "s' = s\<lparr>c_mshrs := m\<rparr>"
    by (auto simp: cache_next_access_def)
  have mi: "mshr_inv (c_mshrs s)" and x: "extra_ok (c_extra s) (c_mshrs s)" using assms(2) by (simp_all add: cache_inv_def)
  have ne: "mshr_pending (c_mshrs s) \<noteq> []"
    using n mshr_ready_pending[OF mi] by (auto simp: mshr_next_access_def mshr_access_ready_def split: list.splits)
  then obtain y ys where "mshr_pending (c_mshrs s) = y # ys" by (cases "mshr_pending (c_mshrs s)") auto
  from mshr_next_access_step[OF mi this] n have mi': "mshr_inv m" by auto
  from n obtain ba rs where r: "m_current_response (c_mshrs s) = ba # rs"
    by (auto simp: mshr_next_access_def split: list.splits)
  from n r obtain q ps where l: "m_list (entry_at ba (c_mshrs s)) = q # ps"
    and m: "m = (if ps = []
      then (c_mshrs s)\<lparr>m_data := AList.delete ba (m_data (c_mshrs s)), m_current_response := rs\<rparr>
      else (c_mshrs s)\<lparr>m_data := AList.update ba ((entry_at ba (c_mshrs s))\<lparr>m_list := ps\<rparr>) (m_data (c_mshrs s))\<rparr>)"
    unfolding mshr_next_access_def by (cases "m_list (entry_at ba (c_mshrs s))") auto
  have "mshr_probe b m \<and> b \<notin> set (m_current_response m)"
    if "mshr_probe b (c_mshrs s)" "b \<notin> set (m_current_response (c_mshrs s))" for b
    using that by (cases "ps = []")
      (simp_all add: m r mshr_probe_def AList.delete_conv AList.update_conv)
  then have "extra_ok (c_extra s) m" using x unfolding extra_ok_def by blast
  with mi' assms(2) show ?thesis by (simp add: s' cache_inv_def)
qed

text \<open>
  C29: a fill keeps the cache invariant, ends the wait of its request and queues the requests
  merged for its block, in arrival order, behind those already ready; so a sequence of
  accesses, fills and \<open>next_access\<close> calls never meets a missing or doubly marked MSHR entry.
\<close>

theorem cache_fill_inv:
  assumes "cache_fill c p time s = Some s'" and "config_wf c l k" and "cache_inv c s"
  shows "cache_inv c s' \<and> \<not> waiting_for_fill p s' \<and>
    (\<exists>e. c_extra s p = Some e \<and> mshr_pending (c_mshrs s') =
       mshr_pending (c_mshrs s) @ m_list (entry_at (ex_block_addr e) (c_mshrs s)))"
  using cache_fill_keeps[OF assms] by blast

lemma drain_next_access:
  "drain cache_next_access n s =
     map_option (\<lambda>(ps, m). (ps, s\<lparr>c_mshrs := m\<rparr>)) (drain mshr_next_access n (c_mshrs s))"
  by (induction n arbitrary: s)
    (auto simp: cache_next_access_def split: option.splits Option.bind_splits)

lemma drain_ready:
  assumes "mshr_inv (c_mshrs s)"
  shows "\<exists>s'. drain cache_next_access (length (mshr_pending (c_mshrs s))) s = Some (mshr_pending (c_mshrs s), s') \<and>
    \<not> cache_access_ready s'"
  using mshr_source.drain_all[OF assms] by (auto simp: drain_next_access cache_access_ready_def)

subsection \<open>A read miss comes back\<close>

lemma rd_writeback_frame:
  assumes "(case ev of None \<Rightarrow> Some s1
     | Some b \<Rightarrow> if m_write_policy c \<noteq> WRITE_THROUGH then do {
           line \<leftarrow> get_line_sz c; w \<leftarrow> alloc (m_block_addr b) t line True;
           let (wp, s') = new_mf w s1; send_write_request wp WRITE_BACK_REQUEST_SENT time s'
         } else Some s1) = Some s2" "p < next_mf s1"
  shows "c_tags s2 = c_tags s1" "c_mshrs s2 = c_mshrs s1" "c_extra s2 = c_extra s1" "objs s2 p = objs s1 p"
proof -
  have "c_tags s2 = c_tags s1 \<and> c_mshrs s2 = c_mshrs s1 \<and> c_extra s2 = c_extra s1 \<and> objs s2 p = objs s1 p"
  proof (cases "ev = None \<or> m_write_policy c = WRITE_THROUGH")
    case True
    with assms have "s2 = s1" by (auto split: option.splits)
    then show ?thesis by simp
  next
    case False
    with assms(1) obtain w wp s' where n: "new_mf w s1 = (wp, s')"
      and d: "send_write_request wp WRITE_BACK_REQUEST_SENT time s' = Some s2"
      by (auto elim!: bind_SomeE split: prod.splits)
    have "wp = next_mf s1" using n by (simp add: new_mf_def)
    with new_mf_fields[OF n] enqueue_miss_fields[OF d[unfolded send_write_request_def]] assms(2)
    show ?thesis by auto
  qed
  then show "c_tags s2 = c_tags s1" "c_mshrs s2 = c_mshrs s1" "c_extra s2 = c_extra s1" "objs s2 p = objs s1 p"
    by simp_all
qed

lemma enqueue_miss_next: "enqueue_miss p time s = Some s' \<Longrightarrow> next_mf s' = next_mf s"
  by (auto simp: enqueue_miss_def upd_mf_def elim!: bind_SomeE)

text \<open>A read miss on a block nobody waits for.\<close>

lemma rd_miss_base_new:
  assumes "rd_miss_base alloc c a io p time s = Some (MISS, s')"
    and "\<not> mshr_probe (block_addr c a) (c_mshrs s)" and "p < next_mf s" and "objs s p = Some mf"
    and "tag_probe c (block_addr c a) (c_tags s) = Some (MISS, Some i)"
  shows "\<exists>ev t m mf'. tag_access c (block_addr c a) time (c_tags s) = Some (MISS, Some i, ev, t) \<and>
     c_tags s' = t \<and> mshr_add (block_addr c a) p (objs s) (c_mshrs s) = Some m \<and> c_mshrs s' = m \<and>
     c_extra s' = (c_extra s)(p \<mapsto>
        \<lparr>ex_block_addr = block_addr c a, ex_cache_index = Some i, ex_data_size = mf_data_size mf\<rparr>) \<and>
     objs s' p = Some mf'"
proof -
  let ?ba = "block_addr c a"
  from assms(1)[unfolded rd_miss_base_def] obtain dm ev s1 s2 where
    r: "send_read_request c ?ba io p time False False s = Some (dm, ev, s1)"
    and w: "(case ev of None \<Rightarrow> Some s1
     | Some b \<Rightarrow> if m_write_policy c \<noteq> WRITE_THROUGH then do {
           line \<leftarrow> get_line_sz c; w \<leftarrow> alloc (m_block_addr b) L1_WRBK_ACC line True;
           let (wp, s') = new_mf w s1; send_write_request wp WRITE_BACK_REQUEST_SENT time s'
         } else Some s1) = Some s2"
    and f: "(MISS, s') = (if dm then (MISS, s2\<lparr>c_read_access := c_read_access s2 + 1, c_read_miss := c_read_miss s2 + 1\<rparr>)
       else (RESERVATION_FAIL, s2))"
    by (auto elim!: bind_SomeE split: if_splits)
  from f have dm: dm by (auto split: if_splits)
  have g: "\<not> mshr_full ?ba (c_mshrs s)" "length (c_miss_queue s) < unat (m_miss_queue_size c)"
    using r dm assms(2) by (auto simp: send_read_request_def Let_def split: if_splits)
  from send_read_request_new[OF r assms(2) g] obtain i' sa m line mf0 s3 s4 where
      a: "access_wb c ?ba time io s = Some (i', ev, sa)"
      and m: "mshr_add ?ba p (objs sa) (c_mshrs sa) = Some m" and mf0: "objs sa p = Some mf0"
      and s3: "upd_mf p (\<lambda>mf. mf\<lparr>mf_data_size := line\<rparr>) (sa\<lparr>c_mshrs := m, c_extra := (c_extra sa)(p \<mapsto>
        \<lparr>ex_block_addr = ?ba, ex_cache_index = i', ex_data_size = mf_data_size mf0\<rparr>)\<rparr>) = Some s3"
      and s4: "enqueue_miss p time s3 = Some s4"
      and s1: "s1 = s4\<lparr>events := events s4 @ [READ_REQUEST_SENT]\<rparr>"
    by auto
  note fa = access_wb_fields[OF a] and f3 = upd_mf_fields[OF s3] and f4 = enqueue_miss_fields[OF s4]
  from fa(6) obtain st j where t: "tag_access c ?ba time (c_tags s) = Some (st, j, ev, c_tags sa)"
    and i': "i' = (if j = None then io else j)" by blast
  from tag_access_lines(1)[OF t] assms(5) have sj: "st = MISS" "j = Some i" by auto
  have nx: "next_mf s1 = next_mf s"
  proof -
    have "next_mf sa = next_mf s" using a by (auto simp: access_wb_def elim!: bind_SomeE)
    moreover have "next_mf s3 = next_mf sa" using s3 by (auto simp: upd_mf_def elim!: bind_SomeE)
    ultimately show ?thesis using enqueue_miss_next[OF s4] s1 by simp
  qed
  have fr: "c_tags s2 = c_tags s1" "c_mshrs s2 = c_mshrs s1" "c_extra s2 = c_extra s1" "objs s2 p = objs s1 p"
    using rd_writeback_frame[where alloc=alloc and t=L1_WRBK_ACC, OF w] nx assms(3) by simp_all
  have s': "s' = s2\<lparr>c_read_access := c_read_access s2 + 1, c_read_miss := c_read_miss s2 + 1\<rparr>"
    using f dm by simp
  have mf: "mf0 = mf" using mf0 fa(5) assms(4) by simp
  have m': "mshr_add ?ba p (objs s) (c_mshrs s) = Some m" using m fa by simp
  have "c_tags s' = c_tags sa" "c_mshrs s' = m" using s' fr f3 f4 s1 by simp_all
  moreover have "c_extra s' = (c_extra s)(p \<mapsto>
        \<lparr>ex_block_addr = ?ba, ex_cache_index = Some i, ex_data_size = mf_data_size mf\<rparr>)"
    using s' fr f3(4) f4(4) s1 fa(3) i' sj mf by simp
  moreover have "\<exists>mf'. objs s' p = Some mf'" using s' fr f4(6) s1 by auto
  ultimately show ?thesis using t[unfolded sj] m' by blast
qed

text \<open>
  C4: a read miss that allocates a new MSHR entry is answered: the request waits for its fill,
  the fill succeeds, its data size is the requested one again, any address of the line hits, and
  repeated \<open>next_access\<close> hands out the requests that were already ready before the fill and then the
  original request, after which the cache has nothing ready.
\<close>

theorem read_miss_fill_returns:
  assumes "data_cache_access env alloc c a p time s = Some (MISS, s1)"
    and "config_wf c l k" and "cache_inv c s" and "m_alloc_policy c = ON_MISS"
    and "objs s p = Some mf" and "\<not> mf_get_is_write mf" and "p < next_mf s"
    and "tag_probe c (block_addr c a) (c_tags s) = Some (MISS, Some i)"
    and "\<not> mshr_probe (block_addr c a) (c_mshrs s)"
    and "tag c a' = tag c (block_addr c a)" and "set_index c a' = set_index c (block_addr c a)"
  shows "waiting_for_fill p s1 \<and>
    (\<exists>s2. cache_fill c p time' s1 = Some s2 \<and>
       mshr_pending (c_mshrs s2) = mshr_pending (c_mshrs s1) @ [p] \<and>
       map_option mf_data_size (objs s2 p) = Some (mf_data_size mf) \<and>
       tag_probe c a' (c_tags s2) = Some (HIT, Some i) \<and>
       (\<exists>s3. drain cache_next_access (length (mshr_pending (c_mshrs s1)) + 1) s2 =
            Some (mshr_pending (c_mshrs s1) @ [p], s3) \<and> \<not> cache_access_ready s3))"
proof -
  let ?ba = "block_addr c a"
  let ?e = "\<lparr>ex_block_addr = ?ba, ex_cache_index = Some i, ex_data_size = mf_data_size mf\<rparr>"
  have "rd_miss_base alloc c a (Some i) p time s = Some (MISS, s1)"
    using assms(1) by (cases rule: data_cache_access_cases) (use assms(5,6,8) in auto)
  from rd_miss_base_new[OF this assms(9,7,5,8)] obtain ev t m mf' where
    t: "tag_access c ?ba time (c_tags s) = Some (MISS, Some i, ev, t)" "c_tags s1 = t"
    and m: "mshr_add ?ba p (objs s) (c_mshrs s) = Some m" "c_mshrs s1 = m"
    and x: "c_extra s1 = (c_extra s)(p \<mapsto> ?e)" and o1: "objs s1 p = Some mf'" by blast
  have inv1: "cache_inv c s1" by (rule handler_ok_inv[OF data_cache_access_ok[OF assms(1,2)] assms(3)])
  have ti: "tags_inv c (c_tags s)" using assms(3) by (simp add: cache_inv_def)
  from miss_fill_facts[OF t(1) assms(4) ti assms(2,10,11), of time', folded t(2)] obtain t2 where
    f: "tag_fill_idx c i time' (c_tags s1) = Some t2" and h: "tag_probe c a' t2 = Some (HIT, Some i)"
    and il: "i < length (m_lines (c_tags s1))" and l2: "length (m_lines t2) = length (m_lines (c_tags s1))"
    and hm: "tag_probe c a' (update_line i (\<lambda>b. b\<lparr>m_status := MODIFIED\<rparr>) t2) = Some (HIT, Some i)" by blast
  from mshr_add_SomeD[OF m(1)] obtain mf0 where
    mf0: "objs s p = Some mf0"
    and md: "m = (c_mshrs s)\<lparr>m_data := AList.update ?ba (entry_push p (mf_atomic mf0)
               (entry_at ?ba (c_mshrs s))) (m_data (c_mshrs s))\<rparr>" by blast
  have "entry_at ?ba (c_mshrs s) = new_mshr_entry"
    using assms(9) by (simp add: entry_at_def mshr_probe_def)
  with mf0 assms(5) have en: "entry_at ?ba m = entry_push p (mf_atomic mf) new_mshr_entry"
    by (simp add: md entry_at_def AList.update_conv)
  have pr: "map_of (m_data m) ?ba = Some (entry_at ?ba m)"
    by (simp add: md entry_at_def AList.update_conv)
  have e1: "c_extra s1 p = Some ?e" by (simp add: x)
  have xo: "extra_ok (c_extra s1) m" and mi: "mshr_inv m"
    using inv1 m(2) by (simp_all add: cache_inv_def)
  from xo e1 have "ex_block_addr ?e \<notin> set (m_current_response m)" unfolding extra_ok_def by blast
  then have nr: "?ba \<notin> set (m_current_response m)" by simp
  note mr = mshr_mark_ready_eq(1)[OF mi pr nr]
  show ?thesis
  proof (intro conjI)
    show "waiting_for_fill p s1" by (simp add: waiting_for_fill_def x)
    let ?m = "m\<lparr>m_current_response := m_current_response m @ [?ba]\<rparr>"
    let ?t = "if mf_atomic mf then update_line i (\<lambda>b. b\<lparr>m_status := MODIFIED\<rparr>) t2 else t2"
    have at: "m_has_atomic (entry_at ?ba m) = mf_atomic mf" by (simp add: en new_mshr_entry_def)
    let ?s2 = "s1\<lparr>objs := (objs s1)(p \<mapsto> mf'\<lparr>mf_data_size := mf_data_size mf\<rparr>), c_tags := ?t,
                 c_mshrs := ?m, c_extra := (c_extra s1)(p := None)\<rparr>"
    have s2: "cache_fill c p time' s1 = Some ?s2"
      using f mr[unfolded at] il l2
      by (simp add: cache_fill_def upd_mf_def set_block_status_def e1 o1 assms(4) m(2))
    have "mshr_pending ?m = mshr_pending m @ [p]"
      using en by (simp add: mshr_pending_def entry_at_def new_mshr_entry_def)
    then have pend: "mshr_pending (c_mshrs ?s2) = mshr_pending (c_mshrs s1) @ [p]" by (simp add: m(2))
    have hit: "tag_probe c a' ?t = Some (HIT, Some i)" using h hm by simp
    have "mshr_inv (c_mshrs ?s2)" using cache_fill_keeps[OF s2 assms(2) inv1] by (simp add: cache_inv_def)
    from drain_ready[OF this] pend obtain s3 where
      d: "drain cache_next_access (length (mshr_pending (c_mshrs s1)) + 1) ?s2 = Some (mshr_pending (c_mshrs s1) @ [p], s3)"
      "\<not> cache_access_ready s3" by auto
    show "\<exists>s2. cache_fill c p time' s1 = Some s2 \<and>
       mshr_pending (c_mshrs s2) = mshr_pending (c_mshrs s1) @ [p] \<and>
       map_option mf_data_size (objs s2 p) = Some (mf_data_size mf) \<and>
       tag_probe c a' (c_tags s2) = Some (HIT, Some i) \<and>
       (\<exists>s3. drain cache_next_access (length (mshr_pending (c_mshrs s1)) + 1) s2 =
            Some (mshr_pending (c_mshrs s1) @ [p], s3) \<and> \<not> cache_access_ready s3)"
      by (intro exI[of _ ?s2] conjI s2 pend exI[of _ s3] d) (use hit in simp_all)
  qed
qed

subsection \<open>Concrete instances\<close>

definition sample_cache :: cache_state where
  "sample_cache = the (new_baseline_cache sample_config IN_L1D_MISS_QUEUE sample_heap 8)"

lemma sample_cache_fields:
  "c_tags sample_cache = sample_tags" "c_mshrs sample_cache = new_mshr_table 4 2"
  "c_miss_queue sample_cache = []" "c_extra sample_cache = (\<lambda>_. None)"
  "objs sample_cache = sample_heap" "next_mf sample_cache = 8"
  by (simp_all add: sample_cache_def new_baseline_cache_def sample_tags_def new_tag_array_def
      get_num_lines_def sample_config_def)

lemma sample_cache_inv: "cache_inv sample_config sample_cache"
  by (simp add: cache_inv_def sample_cache_fields sample_tags_inv new_mshr_table_inv extra_ok_def)

abbreviation sample_l1 where
  "sample_l1 \<equiv> data_cache_access sample_env (shader_core_mf_alloc sample_env 0 0)"

lemma sample_read: "sample_l1 sample_config 0x80 1 5 sample_cache =
    Some (MISS, snd (the (sample_l1 sample_config 0x80 1 5 sample_cache)))"
  by (rule map_fst_SomeD) code_simp

lemma sample_full: "sample_l1 (sample_config\<lparr>m_miss_queue_size := 0\<rparr>) 0x80 1 5 sample_cache =
    Some (RESERVATION_FAIL, snd (the (sample_l1 (sample_config\<lparr>m_miss_queue_size := 0\<rparr>) 0x80 1 5 sample_cache)))"
  by (rule map_fst_SomeD) code_simp

lemma sample_ro: "read_only_access (sample_config\<lparr>m_write_policy := READ_ONLY\<rparr>) 0x80 1 5 sample_cache =
    Some (MISS, snd (the (read_only_access (sample_config\<lparr>m_write_policy := READ_ONLY\<rparr>) 0x80 1 5 sample_cache)))"
  by (rule map_fst_SomeD) code_simp

theorem data_cache_access_inv_witness:
  "cache_inv sample_config (snd (the (sample_l1 sample_config 0x80 1 5 sample_cache)))"
  by (rule data_cache_access_inv[OF sample_read sample_config_wf sample_cache_inv])

theorem reservation_fail_no_effect_witness:
  "snd (the (sample_l1 (sample_config\<lparr>m_miss_queue_size := 0\<rparr>) 0x80 1 5 sample_cache)) = sample_cache"
  by (rule reservation_fail_no_effect[OF sample_full, of 7 1])
    (use sample_config_wf in \<open>simp add: config_wf_def\<close>)

theorem read_only_access_inv_witness:
  "cache_inv (sample_config\<lparr>m_write_policy := READ_ONLY\<rparr>)
     (snd (the (read_only_access (sample_config\<lparr>m_write_policy := READ_ONLY\<rparr>) 0x80 1 5 sample_cache)))"
  by (rule conjunct1[OF read_only_access_inv[OF sample_ro, of 7 1]])
    (use sample_config_wf sample_cache_inv in \<open>simp_all add: config_wf_def cache_inv_def tags_inv_def\<close>)

theorem read_miss_fill_returns_witness:
  "waiting_for_fill 1 (snd (the (sample_l1 sample_config 0x80 1 5 sample_cache))) \<and>
    (\<exists>s2. cache_fill sample_config 1 9 (snd (the (sample_l1 sample_config 0x80 1 5 sample_cache))) = Some s2 \<and>
       mshr_pending (c_mshrs s2) =
         mshr_pending (c_mshrs (snd (the (sample_l1 sample_config 0x80 1 5 sample_cache)))) @ [1] \<and>
       map_option mf_data_size (objs s2 1) = Some (mf_data_size (the (sample_heap 1))) \<and>
       tag_probe sample_config 0x84 (c_tags s2) = Some (HIT, Some 3) \<and>
       (\<exists>s3. drain cache_next_access
            (length (mshr_pending (c_mshrs (snd (the (sample_l1 sample_config 0x80 1 5 sample_cache))))) + 1) s2 =
          Some (mshr_pending (c_mshrs (snd (the (sample_l1 sample_config 0x80 1 5 sample_cache)))) @ [1], s3) \<and>
          \<not> cache_access_ready s3))"
proof (rule read_miss_fill_returns[OF sample_read sample_config_wf sample_cache_inv])
  show "objs sample_cache 1 = Some (the (sample_heap 1))"
    by (simp add: sample_cache_fields sample_heap_def)
  show "\<not> mf_get_is_write (the (sample_heap 1))" by code_simp
  show "tag_probe sample_config (block_addr sample_config 0x80) (c_tags sample_cache) = Some (MISS, Some 3)"
    by code_simp
qed code_simp+

definition sample_missed :: cache_state where
  "sample_missed = snd (the (sample_l1 sample_config 0x80 1 5 sample_cache))"

theorem cache_fill_inv_witness:
  "cache_inv sample_config (the (cache_fill sample_config 1 9 sample_missed)) \<and>
   \<not> waiting_for_fill 1 (the (cache_fill sample_config 1 9 sample_missed)) \<and>
   (\<exists>e. c_extra sample_missed 1 = Some e \<and>
      mshr_pending (c_mshrs (the (cache_fill sample_config 1 9 sample_missed))) =
      mshr_pending (c_mshrs sample_missed) @ m_list (entry_at (ex_block_addr e) (c_mshrs sample_missed)))"
proof (rule cache_fill_inv[OF _ sample_config_wf])
  show "cache_inv sample_config sample_missed" unfolding sample_missed_def
    by (rule handler_ok_inv[OF data_cache_access_ok[OF sample_read sample_config_wf] sample_cache_inv])
  show "cache_fill sample_config 1 9 sample_missed = Some (the (cache_fill sample_config 1 9 sample_missed))"
    by (rule is_some_the) code_simp
qed

end
