(* ===== verification/RingFifo.thy ===== *)
theory RingFifo
  imports Prelude
begin

text \<open>
  The bounded ring buffer \<open>tex_cache::fifo<T>\<close> (\<open>src/gpgpu-sim/gpu-cache.h\<close>): \<open>m_head\<close> is
  the slot the next entry goes to, \<open>m_tail\<close> the oldest entry.  The data array is a list of
  length \<open>m_size\<close>.  \<open>(m_head+1)%m_size\<close> is a division by zero when the size is zero, which
  \<open>push\<close> never reaches: an empty buffer of size zero is full.
\<close>

record 'a fifo =
  f_head :: nat
  f_tail :: nat
  f_num :: nat
  f_size :: nat
  f_data :: "'a list"

definition new_fifo :: "'a \<Rightarrow> nat \<Rightarrow> 'a fifo" where
  "new_fifo d sz = \<lparr>f_head = 0, f_tail = 0, f_num = 0, f_size = sz, f_data = replicate sz d\<rparr>"

definition fifo_full :: "'a fifo \<Rightarrow> bool" where
  "fifo_full q \<longleftrightarrow> f_num q = f_size q"

definition fifo_empty :: "'a fifo \<Rightarrow> bool" where
  "fifo_empty q \<longleftrightarrow> f_num q = 0"

definition inc_head :: "'a fifo \<Rightarrow> 'a fifo" where
  "inc_head q = q\<lparr>f_head := (f_head q + 1) mod f_size q, f_num := f_num q + 1\<rparr>"

definition inc_tail :: "'a fifo \<Rightarrow> 'a fifo option" where
  "inc_tail q = do {
     ensure (f_num q > 0);
     Some (q\<lparr>f_tail := (f_tail q + 1) mod f_size q, f_num := f_num q - 1\<rparr>)
   }"

definition fifo_push :: "'a \<Rightarrow> 'a fifo \<Rightarrow> (nat \<times> 'a fifo) option" where
  "fifo_push e q = do {
     ensure (\<not> fifo_full q);
     Some (f_head q, inc_head (q\<lparr>f_data := (f_data q)[f_head q := e]\<rparr>))
   }"

definition fifo_pop :: "'a fifo \<Rightarrow> ('a \<times> 'a fifo) option" where
  "fifo_pop q = do {
     ensure (\<not> fifo_empty q);
     q' \<leftarrow> inc_tail q;
     Some (f_data q ! f_tail q, q')
   }"

definition fifo_peek_at :: "nat \<Rightarrow> 'a fifo \<Rightarrow> 'a option" where
  "fifo_peek_at i q = do { ensure (i < f_size q); Some (f_data q ! i) }"

definition fifo_set_at :: "nat \<Rightarrow> 'a \<Rightarrow> 'a fifo \<Rightarrow> 'a fifo option" where
  "fifo_set_at i e q = do { ensure (i < f_size q); Some (q\<lparr>f_data := (f_data q)[i := e]\<rparr>) }"

definition fifo_peek :: "'a fifo \<Rightarrow> 'a option" where
  "fifo_peek q = (if f_tail q < length (f_data q) then Some (f_data q ! f_tail q) else None)"

definition next_pop_index :: "'a fifo \<Rightarrow> nat" where
  "next_pop_index q = f_tail q"

subsection \<open>Abstraction to a list\<close>

definition fifo_inv :: "'a fifo \<Rightarrow> bool" where
  [inv_defs]: "fifo_inv q \<longleftrightarrow>
     length (f_data q) = f_size q \<and> f_num q \<le> f_size q \<and>
     (f_size q = 0 \<longrightarrow> f_head q = 0 \<and> f_tail q = 0) \<and>
     (0 < f_size q \<longrightarrow> f_tail q < f_size q \<and> f_head q = (f_tail q + f_num q) mod f_size q)"

definition fifo_list :: "'a fifo \<Rightarrow> 'a list" where
  "fifo_list q = map (\<lambda>i. f_data q ! ((f_tail q + i) mod f_size q)) [0..<f_num q]"

lemma length_fifo_list [simp]: "length (fifo_list q) = f_num q"
  by (simp add: fifo_list_def)

lemma new_fifo_inv: "fifo_inv (new_fifo d sz)" "fifo_list (new_fifo d sz) = []"
  by (simp_all add: fifo_inv_def new_fifo_def fifo_list_def)

lemma fifo_empty_iff: "fifo_empty q \<longleftrightarrow> fifo_list q = []"
  by (auto simp: fifo_empty_def fifo_list_def)

text \<open>Slots at different distances from the tail are different.\<close>

lemma ring_slot_inj:
  assumes "(t + i) mod n = (t + j) mod n" "i < n" "j < (n::nat)"
  shows "i = j"
proof (cases "i \<le> j")
  case True
  have "n dvd (t + j) - (t + i)" using mod_eq_dvd_iff_nat[of "t + i" "t + j" n] assms(1) True by simp
  then have "n dvd j - i" by simp
  with assms(3) True show ?thesis using nat_dvd_not_less[of "j - i" n] by (cases "i = j") auto
next
  case False
  then have "n dvd (t + i) - (t + j)" using mod_eq_dvd_iff_nat[of "t + j" "t + i" n] assms(1) by simp
  then have "n dvd i - j" by simp
  with assms(2) False show ?thesis using nat_dvd_not_less[of "i - j" n] by auto
qed

lemma fifo_push_step:
  assumes "fifo_inv q" "\<not> fifo_full q"
  shows "\<exists>q'. fifo_push e q = Some (f_head q, q') \<and> fifo_inv q' \<and> fifo_list q' = fifo_list q @ [e] \<and>
    f_size q' = f_size q"
proof -
  let ?n = "f_size q" and ?q = "inc_head (q\<lparr>f_data := (f_data q)[f_head q := e]\<rparr>)"
  have n: "f_num q < ?n" "length (f_data q) = ?n" "f_tail q < ?n"
    and h: "f_head q = (f_tail q + f_num q) mod ?n"
    using assms by (auto simp: fifo_inv_def fifo_full_def)
  have hl: "f_head q < ?n" using n h by simp
  have "(f_data q)[f_head q := e] ! ((f_tail q + i) mod ?n) = f_data q ! ((f_tail q + i) mod ?n)"
    if "i < f_num q" for i
    using ring_slot_inj[of "f_tail q" i ?n "f_num q"] that n h by (auto simp: nth_list_update)
  then have "fifo_list ?q = fifo_list q @ [e]"
    using n hl h by (simp add: fifo_list_def inc_head_def)
  moreover have "fifo_inv ?q" using n h
    by (simp add: fifo_inv_def inc_head_def mod_Suc_eq)
  ultimately show ?thesis using assms(2) by (simp add: fifo_push_def inc_head_def)
qed

lemma fifo_pop_step:
  assumes "fifo_inv q" "fifo_list q = x # xs"
  shows "\<exists>q'. fifo_pop q = Some (x, q') \<and> fifo_inv q' \<and> fifo_list q' = xs \<and> f_size q' = f_size q"
proof -
  let ?n = "f_size q"
  have "0 < f_num q" using assms(2) by (cases "f_num q") (auto simp: fifo_list_def)
  then have n: "0 < f_num q" "f_num q \<le> ?n" "0 < ?n" "length (f_data q) = ?n" "f_tail q < ?n"
    "f_head q = (f_tail q + f_num q) mod ?n"
    using assms(1) by (auto simp: fifo_inv_def)
  define q' where "q' = q\<lparr>f_tail := (f_tail q + 1) mod ?n, f_num := f_num q - 1\<rparr>"
  have l: "fifo_list q = f_data q ! f_tail q #
     map (\<lambda>i. f_data q ! ((f_tail q + Suc i) mod ?n)) [0..<f_num q - 1]"
  proof -
    obtain k where k: "f_num q = Suc k" using n(1) by (cases "f_num q") auto
    have "[0..<Suc k] = 0 # map Suc [0..<k]" by (simp only: map_Suc_upt upt_conv_Cons zero_less_Suc)
    then show ?thesis using n(5) by (simp add: fifo_list_def k del: upt_Suc)
  qed
  have t: "fifo_list q' = map (\<lambda>i. f_data q ! ((f_tail q + Suc i) mod ?n)) [0..<f_num q - 1]"
    by (simp add: fifo_list_def q'_def mod_add_left_eq)
  have "f_head q = ((f_tail q + 1) mod ?n + (f_num q - 1)) mod ?n"
  proof -
    have "((f_tail q + 1) mod ?n + (f_num q - 1)) mod ?n = (f_tail q + 1 + (f_num q - 1)) mod ?n"
      by (rule mod_add_left_eq)
    also have "f_tail q + 1 + (f_num q - 1) = f_tail q + f_num q" using n(1) by simp
    finally show ?thesis using n(6) by simp
  qed
  then have "fifo_inv q'" using n by (simp add: fifo_inv_def q'_def)
  moreover have "fifo_pop q = Some (f_data q ! f_tail q, q')"
    using n(1) by (simp add: fifo_pop_def inc_tail_def fifo_empty_def q'_def)
  ultimately show ?thesis using l t assms(2) by (auto simp: q'_def)
qed

lemma fifo_peek_list:
  assumes "fifo_inv q" "fifo_list q = x # xs"
  shows "fifo_peek q = Some x"
proof -
  from fifo_pop_step[OF assms] have "f_data q ! f_tail q = x"
    by (auto simp: fifo_pop_def elim!: bind_SomeE split: if_splits)
  moreover have "f_tail q < length (f_data q)"
    using assms by (cases "f_size q") (auto simp: fifo_inv_def fifo_list_def)
  ultimately show ?thesis by (simp add: fifo_peek_def)
qed

interpretation ring_source: fifo_source fifo_inv fifo_list "\<lambda>q. \<not> fifo_empty q" fifo_pop
proof unfold_locales
  fix q :: "'a fifo" and x xs assume "fifo_inv q" "fifo_list q = x # xs"
  from fifo_pop_step[OF this] show "\<exists>s'. fifo_pop q = Some (x, s') \<and> fifo_inv s' \<and> fifo_list s' = xs"
    by blast
qed (simp add: fifo_empty_iff)

subsection \<open>Properties\<close>

text \<open>
  The ring buffer is a bounded FIFO: \<open>push\<close> on a buffer that is not full returns the
  slot it used and appends, and popping as often as there are entries returns them in push
  order and leaves it empty; the wrap-around of the two indices never shows.
\<close>

theorem fifo_push_drain:
  assumes "fifo_inv q" and "\<not> fifo_full q"
  shows "\<exists>q1 q2. fifo_push e q = Some (f_head q, q1) \<and> fifo_inv q1 \<and> fifo_list q1 = fifo_list q @ [e] \<and>
    drain fifo_pop (f_num q + 1) q1 = Some (fifo_list q @ [e], q2) \<and> fifo_empty q2 \<and> fifo_inv q2"
proof -
  from fifo_push_step[OF assms] obtain q1 where q1: "fifo_push e q = Some (f_head q, q1)"
    "fifo_inv q1" "fifo_list q1 = fifo_list q @ [e]" by blast
  from ring_source.drain_all[OF q1(2)] q1(3) obtain q2 where
    "drain fifo_pop (length (fifo_list q1)) q1 = Some (fifo_list q1, q2)" "fifo_inv q2" "fifo_empty q2" by blast
  moreover have "length (fifo_list q1) = f_num q + 1" using q1(3) by (metis length_append_singleton length_fifo_list Suc_eq_plus1)
  ultimately show ?thesis using q1 by auto
qed

theorem fifo_push_drain_witness:
  "\<exists>q1 q2. fifo_push (5::nat) (new_fifo 0 3) = Some (f_head (new_fifo (0::nat) 3), q1) \<and> fifo_inv q1 \<and>
    fifo_list q1 = fifo_list (new_fifo 0 3) @ [5] \<and>
    drain fifo_pop (f_num (new_fifo (0::nat) 3) + 1) q1 = Some (fifo_list (new_fifo 0 3) @ [5], q2) \<and>
    fifo_empty q2 \<and> fifo_inv q2"
  by (rule fifo_push_drain[OF new_fifo_inv(1)]) (simp add: fifo_full_def new_fifo_def)

end
