(* ===== verification/TexCache.thy ===== *)
theory TexCache
  imports DataCache RingFifo
begin

text \<open>
  \<open>tex_cache\<close> (\<open>src/gpgpu-sim/gpu-cache.h\<close>, \<open>gpu-cache.cc\<close>): the prefetching texture cache
  with its fragment, request and result FIFOs and its reorder buffer.  In \<open>cache_config\<close> the
  entry counts of the fragment FIFO, the request FIFO and the reorder buffer share (by
  unions) the fields \<open>m_mshr_entries\<close>, \<open>m_mshr_max_merge\<close> and \<open>m_miss_queue_size\<close>.
\<close>

record fragment_entry =
  fe_request :: mfp
  fe_cache_index :: nat
  fe_miss :: bool
  fe_data_size :: u32

record rob_entry =
  re_ready :: bool
  re_time :: u32
  re_index :: nat
  re_request :: "mfp option"
  re_block_addr :: addr

record data_block =
  db_valid :: bool
  db_block_addr :: addr

record tex_state =
  t_tags :: tag_array
  t_fragment :: "fragment_entry fifo"
  t_request :: "mfp fifo"
  t_rob :: "rob_entry fifo"
  t_cache :: "data_block list"
  t_result :: "mfp fifo"
  t_request_status :: mem_fetch_status
  t_rob_status :: mem_fetch_status
  t_extra :: "mfp \<Rightarrow> nat option"
  t_simt_to_mem :: u32
  t_objs :: heap
  t_events :: "cache_event list"

definition blank_fragment :: fragment_entry where
  "blank_fragment = \<lparr>fe_request = 0, fe_cache_index = 0, fe_miss = False, fe_data_size = 0\<rparr>"

definition blank_rob :: rob_entry where
  "blank_rob = \<lparr>re_ready = False, re_time = 0, re_index = 0, re_request = None, re_block_addr = 0\<rparr>"

definition new_tex_cache ::
  "cache_config \<Rightarrow> mem_fetch_status \<Rightarrow> mem_fetch_status \<Rightarrow> heap \<Rightarrow> tex_state option" where
  "new_tex_cache c req rob h = do {
     t \<leftarrow> new_tag_array c;
     ensure (m_mshr_type c = TEX_FIFO);
     ensure (m_write_policy c = READ_ONLY);
     ensure (m_alloc_policy c = ON_MISS);
     n \<leftarrow> get_num_lines c;
     Some \<lparr>t_tags = t,
       t_fragment = new_fifo blank_fragment (unat (m_mshr_entries c)),
       t_request = new_fifo 0 (unat (m_mshr_max_merge c)),
       t_rob = new_fifo blank_rob (unat (m_miss_queue_size c)),
       t_cache = replicate (unat n) \<lparr>db_valid = False, db_block_addr = 0\<rparr>,
       t_result = new_fifo 0 (unat (m_result_fifo_entries c)),
       t_request_status = req, t_rob_status = rob, t_extra = (\<lambda>_. None),
       t_simt_to_mem = 0, t_objs = h, t_events = []\<rparr>
   }"

definition tex_upd_mf :: "mfp \<Rightarrow> (mem_fetch \<Rightarrow> mem_fetch) \<Rightarrow> tex_state \<Rightarrow> tex_state option" where
  "tex_upd_mf p f s = do { mf \<leftarrow> t_objs s p; Some (s\<lparr>t_objs := (t_objs s)(p \<mapsto> f mf)\<rparr>) }"

definition tex_access ::
  "cache_config \<Rightarrow> addr \<Rightarrow> mfp \<Rightarrow> u32 \<Rightarrow> tex_state \<Rightarrow> (cache_request_status \<times> tex_state) option" where
  "tex_access c a p time s =
     (if fifo_full (t_fragment s) \<or> fifo_full (t_request s) \<or> fifo_full (t_rob s)
      then Some (RESERVATION_FAIL, s)
      else do {
        mf \<leftarrow> t_objs s p;
        line \<leftarrow> get_line_sz c;
        ensure (mf_data_size mf \<le> line);
        let ba = block_addr c a;
        (st, idx, t) \<leftarrow> tag_access_nowb c ba time (t_tags s);
        ensure (st \<noteq> RESERVATION_FAIL);
        ensure (st \<noteq> HIT_RESERVED);
        i \<leftarrow> idx;
        (_, fr) \<leftarrow> fifo_push \<lparr>fe_request = p, fe_cache_index = i, fe_miss = (st = MISS),
                             fe_data_size = mf_data_size mf\<rparr> (t_fragment s);
        let s1 = s\<lparr>t_tags := t, t_fragment := fr\<rparr>;
        if st = MISS then do {
          (ri, rob) \<leftarrow> fifo_push \<lparr>re_ready = False, re_time = 0, re_index = i,
                                 re_request = Some p, re_block_addr = ba\<rparr> (t_rob s1);
          let s2 = s1\<lparr>t_rob := rob, t_extra := (t_extra s1)(p \<mapsto> ri)\<rparr>;
          s3 \<leftarrow> tex_upd_mf p (\<lambda>mf. mf\<lparr>mf_data_size := line\<rparr>) s2;
          t' \<leftarrow> tag_fill_idx c i time (t_tags s3);
          (_, rq) \<leftarrow> fifo_push p (t_request s3);
          s4 \<leftarrow> tex_upd_mf p (mf_set_status (t_request_status s3) (ucast time))
                  (s3\<lparr>t_tags := t', t_request := rq\<rparr>);
          Some (MISS, s4\<lparr>t_events := t_events s4 @ [READ_REQUEST_SENT]\<rparr>)
        } else Some (HIT_RESERVED, s1)
      })"

text \<open>First half of \<open>cycle\<close>: the request FIFO.\<close>

definition tex_send :: "'p mem_port \<Rightarrow> 'p \<Rightarrow> tex_state \<Rightarrow> ('p \<times> tex_state) option" where
  "tex_send port q s =
     (if fifo_empty (t_request s) then Some (q, s)
      else do {
        p \<leftarrow> fifo_peek (t_request s);
        mf \<leftarrow> t_objs s p;
        if port_full port q (mf_ctrl_size mf) False then Some (q, s)
        else do {
          (_, rq) \<leftarrow> fifo_pop (t_request s);
          (h, q') \<leftarrow> port_push port p (t_objs s) q;
          mf' \<leftarrow> h p;
          n \<leftarrow> get_num_flits True mf';
          Some (q', s\<lparr>t_request := rq, t_objs := h, t_simt_to_mem := t_simt_to_mem s + n\<rparr>)
        }
      })"

text \<open>
  Second half: the head of the fragment FIFO.  The last assertion of the hit branch is
  written with a single \<open>=\<close>: it stores the block address and fails when that address is 0.
\<close>

definition tex_drain_fragment :: "cache_config \<Rightarrow> tex_state \<Rightarrow> tex_state option" where
  "tex_drain_fragment c s =
     (if fifo_empty (t_fragment s) \<or> fifo_full (t_result s) then Some s
      else do {
        e \<leftarrow> fifo_peek (t_fragment s);
        mf \<leftarrow> t_objs s (fe_request e);
        let ba = block_addr c (ma_addr (mf_access mf));
        if fe_miss e then do {
          r \<leftarrow> fifo_peek_at (next_pop_index (t_rob s)) (t_rob s);
          ensure (re_request r = Some (fe_request e));
          ensure (re_block_addr r = ba);
          if re_ready r then do {
            ensure (re_index r = fe_cache_index e);
            ensure (re_index r < length (t_cache s));
            (_, res) \<leftarrow> fifo_push (fe_request e) (t_result s);
            (_, rob) \<leftarrow> fifo_pop (t_rob s);
            (_, fr) \<leftarrow> fifo_pop (t_fragment s);
            Some (s\<lparr>t_cache := (t_cache s)[re_index r :=
                        \<lparr>db_valid = True, db_block_addr = re_block_addr r\<rparr>],
                    t_result := res, t_rob := rob, t_fragment := fr\<rparr>)
          } else Some s
        } else do {
          ensure (fe_cache_index e < length (t_cache s));
          ensure (db_valid (t_cache s ! fe_cache_index e));
          let cache' = (t_cache s)[fe_cache_index e :=
                          (t_cache s ! fe_cache_index e)\<lparr>db_block_addr := ba\<rparr>];
          ensure (ba \<noteq> 0);
          (_, res) \<leftarrow> fifo_push (fe_request e) (t_result s);
          (_, fr) \<leftarrow> fifo_pop (t_fragment s);
          Some (s\<lparr>t_cache := cache', t_result := res, t_fragment := fr\<rparr>)
        }
      })"

definition tex_cycle :: "cache_config \<Rightarrow> 'p mem_port \<Rightarrow> 'p \<Rightarrow> tex_state \<Rightarrow> ('p \<times> tex_state) option" where
  "tex_cycle c port q s = do {
     (q', s1) \<leftarrow> tex_send port q s;
     s2 \<leftarrow> tex_drain_fragment c s1;
     Some (q', s2)
   }"

definition tex_fill :: "cache_config \<Rightarrow> mfp \<Rightarrow> u32 \<Rightarrow> tex_state \<Rightarrow> tex_state option" where
  "tex_fill c p time s = do {
     ri \<leftarrow> t_extra s p;
     ensure (\<not> fifo_empty (t_rob s));
     s1 \<leftarrow> tex_upd_mf p (mf_set_status (t_rob_status s) (ucast time)) s;
     r \<leftarrow> fifo_peek_at ri (t_rob s1);
     ensure (\<not> re_ready r);
     rob \<leftarrow> fifo_set_at ri (r\<lparr>re_ready := True, re_time := time\<rparr>) (t_rob s1);
     mf \<leftarrow> t_objs s1 p;
     ensure (re_block_addr r = block_addr c (ma_addr (mf_access mf)));
     Some (s1\<lparr>t_rob := rob\<rparr>)
   }"

definition tex_access_ready :: "tex_state \<Rightarrow> bool" where
  "tex_access_ready s \<longleftrightarrow> \<not> fifo_empty (t_result s)"

definition tex_next_access :: "tex_state \<Rightarrow> (mfp \<times> tex_state) option" where
  "tex_next_access s = map_option (\<lambda>(p, q). (p, s\<lparr>t_result := q\<rparr>)) (fifo_pop (t_result s))"

subsection \<open>Requests leave in the order they came\<close>

definition tex_fifos_inv :: "tex_state \<Rightarrow> bool" where
  [inv_defs]: "tex_fifos_inv s \<longleftrightarrow>
     fifo_inv (t_fragment s) \<and> fifo_inv (t_request s) \<and> fifo_inv (t_rob s) \<and> fifo_inv (t_result s)"

text \<open>The accepted requests that have not been handed out, oldest first.\<close>

definition tex_pipeline :: "tex_state \<Rightarrow> mfp list" where
  "tex_pipeline s = fifo_list (t_result s) @ map fe_request (fifo_list (t_fragment s))"

lemma fifo_push_Some:
  assumes "fifo_push e q = Some (i, q')" "fifo_inv q"
  shows "fifo_inv q'" "fifo_list q' = fifo_list q @ [e]"
proof -
  have "\<not> fifo_full q" using assms(1) by (auto simp: fifo_push_def split: if_splits)
  from fifo_push_step[OF assms(2) this, of e] assms(1) show "fifo_inv q'" "fifo_list q' = fifo_list q @ [e]"
    by auto
qed

lemma fifo_pop_Some:
  assumes "fifo_pop q = Some (x, q')" "fifo_inv q"
  shows "fifo_inv q'" "fifo_list q = x # fifo_list q'"
proof -
  have "\<not> fifo_empty q" using assms(1) by (auto simp: fifo_pop_def split: if_splits)
  then obtain y ys where l: "fifo_list q = y # ys" by (cases "fifo_list q") (auto simp: fifo_empty_iff)
  from fifo_pop_step[OF assms(2) l] assms(1) l show "fifo_inv q'" "fifo_list q = x # fifo_list q'" by auto
qed

lemma fifo_set_at_Some:
  assumes "fifo_set_at i e q = Some q'" "fifo_inv q"
  shows "fifo_inv q'"
  using assms by (auto simp: fifo_set_at_def fifo_inv_def split: if_splits)

lemma tex_upd_mf_fields:
  assumes "tex_upd_mf p f s = Some s'"
  shows "t_fragment s' = t_fragment s" "t_request s' = t_request s" "t_rob s' = t_rob s"
    "t_result s' = t_result s" "t_tags s' = t_tags s" "t_request_status s' = t_request_status s"
  using assms by (auto simp: tex_upd_mf_def elim!: bind_SomeE)

lemma tex_access_order:
  assumes "tex_access c a p time s = Some (st, s')" "tex_fifos_inv s"
  shows "tex_fifos_inv s' \<and>
    tex_pipeline s' = tex_pipeline s @ (if st = RESERVATION_FAIL then [] else [p])"
proof (cases "fifo_full (t_fragment s) \<or> fifo_full (t_request s) \<or> fifo_full (t_rob s)")
  case True
  with assms show ?thesis by (auto simp: tex_access_def)
next
  case False
  from assms(1) False obtain mf tst i t fr x fe where
    st: "tst \<noteq> RESERVATION_FAIL" "tst \<noteq> HIT_RESERVED"
    and fr: "fifo_push fe (t_fragment s) = Some (x, fr)" and fe: "fe_request fe = p"
    and rest: "(if tst = MISS then do {
          (ri, rob) \<leftarrow> fifo_push \<lparr>re_ready = False, re_time = 0, re_index = i,
                                 re_request = Some p, re_block_addr = block_addr c a\<rparr> (t_rob s);
          line \<leftarrow> get_line_sz c;
          s3 \<leftarrow> tex_upd_mf p (\<lambda>mf. mf\<lparr>mf_data_size := line\<rparr>)
                 (s\<lparr>t_tags := t, t_fragment := fr, t_rob := rob, t_extra := (t_extra s)(p \<mapsto> ri)\<rparr>);
          t' \<leftarrow> tag_fill_idx c i time (t_tags s3);
          (_, rq) \<leftarrow> fifo_push p (t_request s3);
          s4 \<leftarrow> tex_upd_mf p (mf_set_status (t_request_status s3) (ucast time))
                  (s3\<lparr>t_tags := t', t_request := rq\<rparr>);
          Some (MISS, s4\<lparr>t_events := t_events s4 @ [READ_REQUEST_SENT]\<rparr>)
        } else Some (HIT_RESERVED, s\<lparr>t_tags := t, t_fragment := fr\<rparr>)) = Some (st, s')"
    unfolding tex_access_def Let_def by (fastforce elim!: bind_SomeE split: if_splits)
  have i: "fifo_inv (t_fragment s)" "fifo_inv (t_request s)" "fifo_inv (t_rob s)" "fifo_inv (t_result s)"
    using assms(2) by (simp_all add: tex_fifos_inv_def)
  note f = fifo_push_Some[OF fr i(1)]
  show ?thesis
  proof (cases "tst = MISS")
    case True
    with rest obtain y e rob s3 g t' z rq s4 g' x where r: "fifo_push e (t_rob s) = Some (y, rob)"
      and s3: "tex_upd_mf p g (s\<lparr>t_tags := t, t_fragment := fr, t_rob := rob, t_extra := x\<rparr>) = Some s3"
      and q: "fifo_push p (t_request s3) = Some (z, rq)"
      and s4: "tex_upd_mf p g' (s3\<lparr>t_tags := t', t_request := rq\<rparr>) = Some s4"
      and st': "st = MISS" and s': "s' = s4\<lparr>t_events := t_events s4 @ [READ_REQUEST_SENT]\<rparr>"
      by (auto elim!: bind_SomeE)
    note u3 = tex_upd_mf_fields[OF s3] and u4 = tex_upd_mf_fields[OF s4]
    from u3(2) have "t_request s3 = t_request s" by simp
    note q' = fifo_push_Some[OF q[unfolded this] i(2)] and r' = fifo_push_Some[OF r i(3)]
    show ?thesis using u3 u4 q' r' f i fe by (simp add: s' st' tex_fifos_inv_def tex_pipeline_def)
  next
    case False
    with rest f i fe show ?thesis by (auto simp: tex_fifos_inv_def tex_pipeline_def)
  qed
qed

lemma tex_send_order:
  assumes "tex_send port q s = Some (q', s')" "tex_fifos_inv s"
  shows "tex_fifos_inv s' \<and> tex_pipeline s' = tex_pipeline s"
proof -
  consider "s' = s" | x rq h k where "fifo_pop (t_request s) = Some (x, rq)"
      "s' = s\<lparr>t_request := rq, t_objs := h, t_simt_to_mem := k\<rparr>"
    using assms(1) unfolding tex_send_def by (fastforce elim!: bind_SomeE split: if_splits)
  then show ?thesis
  proof cases
    case 2
    with fifo_pop_Some(1)[OF 2(1)] assms(2) show ?thesis by (simp add: tex_fifos_inv_def tex_pipeline_def)
  qed (use assms(2) in simp)
qed

lemma tex_drain_fragment_order:
  assumes "tex_drain_fragment c s = Some s'" "tex_fifos_inv s"
  shows "tex_fifos_inv s' \<and> tex_pipeline s' = tex_pipeline s"
proof (cases "fifo_empty (t_fragment s) \<or> fifo_full (t_result s)")
  case True
  with assms show ?thesis by (auto simp: tex_drain_fragment_def)
next
  case False
  have i: "fifo_inv (t_fragment s)" "fifo_inv (t_request s)" "fifo_inv (t_rob s)" "fifo_inv (t_result s)"
    using assms(2) by (simp_all add: tex_fifos_inv_def)
  from False obtain e es where es: "fifo_list (t_fragment s) = e # es"
    by (cases "fifo_list (t_fragment s)") (auto simp: fifo_empty_iff)
  note pk = fifo_peek_list[OF i(1) es]
  note d = assms(1)[unfolded tex_drain_fragment_def Let_def pk]
  have "s' = s \<or> (\<exists>x res rob y fr c'. fifo_push (fe_request e) (t_result s) = Some (x, res) \<and>
       (rob = t_rob s \<or> (\<exists>z. fifo_pop (t_rob s) = Some (z, rob))) \<and>
       fifo_pop (t_fragment s) = Some (y, fr) \<and>
       s' = s\<lparr>t_cache := c', t_result := res, t_rob := rob, t_fragment := fr\<rparr>)"
  proof (cases "fe_miss e")
    case True
    with False d have "s' = s \<or> (\<exists>x res z rob y fr c'. fifo_push (fe_request e) (t_result s) = Some (x, res) \<and>
       fifo_pop (t_rob s) = Some (z, rob) \<and> fifo_pop (t_fragment s) = Some (y, fr) \<and>
       s' = s\<lparr>t_cache := c', t_result := res, t_rob := rob, t_fragment := fr\<rparr>)"
      by (fastforce elim!: bind_SomeE split: if_splits)
    then show ?thesis by blast
  next
    case nm: False
    with False d obtain x res y fr c' where
      "fifo_push (fe_request e) (t_result s) = Some (x, res)" "fifo_pop (t_fragment s) = Some (y, fr)"
      "s' = s\<lparr>t_cache := c', t_result := res, t_fragment := fr\<rparr>"
      by (auto elim!: bind_SomeE split: if_splits)
    moreover from this have "s' = s\<lparr>t_cache := c', t_result := res, t_rob := t_rob s, t_fragment := fr\<rparr>" by simp
    ultimately show ?thesis by blast
  qed
  then consider "s' = s" | x res rob y fr c' where "fifo_push (fe_request e) (t_result s) = Some (x, res)"
       "rob = t_rob s \<or> (\<exists>z. fifo_pop (t_rob s) = Some (z, rob))"
       "fifo_pop (t_fragment s) = Some (y, fr)"
       "s' = s\<lparr>t_cache := c', t_result := res, t_rob := rob, t_fragment := fr\<rparr>" by blast
  then show ?thesis
  proof cases
    case 2
    note r = fifo_push_Some[OF 2(1) i(4)] and f = fifo_pop_Some[OF 2(3) i(1)]
    have "fifo_inv rob" using 2(2) i(3) fifo_pop_Some(1) by auto
    moreover have "y = e" using f(2) es by simp
    ultimately show ?thesis using r f i 2(4) by (simp add: tex_fifos_inv_def tex_pipeline_def)
  qed (use assms(2) in simp)
qed

lemma tex_cycle_order:
  assumes "tex_cycle c port q s = Some (q', s')" "tex_fifos_inv s"
  shows "tex_fifos_inv s' \<and> tex_pipeline s' = tex_pipeline s"
proof -
  from assms(1) obtain s1 where "tex_send port q s = Some (q', s1)" "tex_drain_fragment c s1 = Some s'"
    by (auto simp: tex_cycle_def elim!: bind_SomeE)
  with tex_send_order tex_drain_fragment_order assms(2) show ?thesis by metis
qed

lemma tex_fill_order:
  assumes "tex_fill c p time s = Some s'" "tex_fifos_inv s"
  shows "tex_fifos_inv s' \<and> tex_pipeline s' = tex_pipeline s"
proof -
  from assms(1) obtain g s1 rob i r where s1: "tex_upd_mf p g s = Some s1"
    and r: "fifo_set_at i r (t_rob s1) = Some rob" and s': "s' = s1\<lparr>t_rob := rob\<rparr>"
    by (auto simp: tex_fill_def elim!: bind_SomeE split: if_splits)
  note u = tex_upd_mf_fields[OF s1]
  from assms(2) u fifo_set_at_Some[OF r] show ?thesis
    by (simp add: s' tex_fifos_inv_def tex_pipeline_def)
qed

lemma tex_next_order:
  assumes "tex_next_access s = Some (p, s')" "tex_fifos_inv s"
  shows "tex_fifos_inv s' \<and> tex_pipeline s = p # tex_pipeline s'"
proof -
  from assms(1) obtain q where q: "fifo_pop (t_result s) = Some (p, q)" and s': "s' = s\<lparr>t_result := q\<rparr>"
    by (auto simp: tex_next_access_def)
  from fifo_pop_Some[OF q] assms(2) show ?thesis by (simp add: s' tex_fifos_inv_def tex_pipeline_def)
qed

text \<open>One call of the cache's interface, with what it accepts and what it hands out.\<close>

inductive tex_step ::
  "cache_config \<Rightarrow> 'p mem_port \<Rightarrow> mfp list \<Rightarrow> mfp list \<Rightarrow> 'p \<times> tex_state \<Rightarrow> 'p \<times> tex_state \<Rightarrow> bool"
  for c port where
  access: "tex_access c a p time s = Some (st, s') \<Longrightarrow> st \<noteq> RESERVATION_FAIL \<Longrightarrow>
     tex_step c port [p] [] (q, s) (q, s')"
| refused: "tex_access c a p time s = Some (RESERVATION_FAIL, s') \<Longrightarrow> tex_step c port [] [] (q, s) (q, s')"
| cycle: "tex_cycle c port q s = Some (q', s') \<Longrightarrow> tex_step c port [] [] (q, s) (q', s')"
| fill: "tex_fill c p time s = Some s' \<Longrightarrow> tex_step c port [] [] (q, s) (q, s')"
| "next": "tex_next_access s = Some (p, s') \<Longrightarrow> tex_step c port [] [p] (q, s) (q, s')"

inductive_cases tex_step_cases: "tex_step c port ins outs x y"

inductive tex_run ::
  "cache_config \<Rightarrow> 'p mem_port \<Rightarrow> mfp list \<Rightarrow> mfp list \<Rightarrow> 'p \<times> tex_state \<Rightarrow> 'p \<times> tex_state \<Rightarrow> bool"
  for c port where
  refl: "tex_run c port [] [] x x"
| step: "tex_run c port ins outs x y \<Longrightarrow> tex_step c port i out y z \<Longrightarrow>
     tex_run c port (ins @ i) (outs @ out) x z"

lemma tex_step_order:
  assumes "tex_step c port ins outs x y" "tex_fifos_inv (snd x)"
  shows "tex_fifos_inv (snd y) \<and> tex_pipeline (snd x) @ ins = outs @ tex_pipeline (snd y)"
  using assms
  by (cases rule: tex_step.cases)
    (auto dest: tex_access_order tex_cycle_order tex_fill_order tex_next_order)

lemma tex_run_order:
  assumes "tex_run c port ins outs x y" "tex_fifos_inv (snd x)"
  shows "tex_fifos_inv (snd y) \<and> tex_pipeline (snd x) @ ins = outs @ tex_pipeline (snd y)"
  using assms
proof (induction rule: tex_run.induct)
  case (step ins outs x y i out z)
  then have a: "tex_fifos_inv (snd y)" "tex_pipeline (snd x) @ ins = outs @ tex_pipeline (snd y)" by auto
  from tex_step_order[OF step.hyps(2) a(1)] a(2) show ?case by (metis append.assoc)
qed simp

subsection \<open>Properties\<close>

lemma new_tex_cache_fifos:
  assumes "new_tex_cache c rs bs h = Some s"
  shows "tex_fifos_inv s" "tex_pipeline s = []"
  using assms by (auto simp: new_tex_cache_def tex_fifos_inv_def tex_pipeline_def new_fifo_inv
      elim!: bind_SomeE split: if_splits)

text \<open>
  C26: the texture cache is in order: in any run of accesses, cycles, fills and
  \<open>next_access\<close> calls from a new cache, the requests handed out so far, followed by those in
  the result and fragment FIFOs, are exactly the accepted requests in the order of acceptance,
  whether they hit or missed.
\<close>

theorem tex_in_order:
  assumes "new_tex_cache c rs bs h = Some s0" and "tex_run c port ins outs (q0, s0) (q, s)"
  shows "ins = outs @ tex_pipeline s"
  using tex_run_order[OF assms(2)] new_tex_cache_fifos[OF assms(1)] by simp

text \<open>
  The assertion of the hit branch of \<open>tex_cache::cycle\<close> assigns instead of comparing: a
  texture hit on the line at block address 0 stops the simulator although the cached block is
  that very line.
\<close>

theorem tex_hit_at_zero_aborts:
  assumes "fifo_inv (t_fragment s)" and "fifo_list (t_fragment s) = e # es" and "\<not> fe_miss e"
    and "\<not> fifo_full (t_result s)" and "t_objs s (fe_request e) = Some mf"
    and "block_addr c (ma_addr (mf_access mf)) = 0"
    and "fe_cache_index e < length (t_cache s)"
    and "t_cache s ! fe_cache_index e = \<lparr>db_valid = True, db_block_addr = 0\<rparr>"
  shows "tex_drain_fragment c s = None"
proof -
  have "\<not> fifo_empty (t_fragment s)" using assms(2) by (simp add: fifo_empty_iff)
  with assms fifo_peek_list[OF assms(1,2)] show ?thesis
    by (simp add: tex_drain_fragment_def Let_def)
qed

subsection \<open>Concrete instances\<close>

definition sample_tex_config :: cache_config where
  "sample_tex_config = sample_config\<lparr>m_mshr_type := TEX_FIFO, m_write_policy := READ_ONLY,
     m_result_fifo_entries := 2\<rparr>"

definition sample_port :: "mfp list mem_port" where
  "sample_port = \<lparr>port_full = (\<lambda>q sz wr. False), port_push = (\<lambda>p h q. Some (h, q @ [p]))\<rparr>"

definition zero_heap :: heap where
  "zero_heap p = Some (new_mem_fetch sample_env (mem_access TEXTURE_ACC_R 0 32 False) False 8 0 0 0)"

definition sample_tex :: tex_state where
  "sample_tex = the (new_tex_cache sample_tex_config IN_L1T_MISS_QUEUE IN_SHADER_L1T_ROB zero_heap)"

lemma sample_tex_new:
  "new_tex_cache sample_tex_config IN_L1T_MISS_QUEUE IN_SHADER_L1T_ROB zero_heap = Some sample_tex"
  unfolding sample_tex_def by (rule is_some_the) code_simp

theorem tex_in_order_witness:
  "[1 :: mfp] = [] @ tex_pipeline (snd (the (tex_access sample_tex_config 0 1 5 sample_tex)))"
proof -
  have "tex_access sample_tex_config 0 1 5 sample_tex =
      Some (MISS, snd (the (tex_access sample_tex_config 0 1 5 sample_tex)))"
    by (rule map_fst_SomeD) code_simp
  then have "tex_step sample_tex_config sample_port [1] [] ([], sample_tex)
      ([], snd (the (tex_access sample_tex_config 0 1 5 sample_tex)))"
    by (rule tex_step.access) simp
  from tex_run.step[OF tex_run.refl this] show ?thesis
    by (intro tex_in_order[OF sample_tex_new]) simp
qed

text \<open>The line at address 0 is missed by request 1, filled, and then hit by request 2.\<close>

definition tex_hit_state :: tex_state where
  "tex_hit_state = the (do {
     (_, s1) \<leftarrow> tex_access sample_tex_config 0 1 5 sample_tex;
     s2 \<leftarrow> tex_fill sample_tex_config 1 6 s1;
     s3 \<leftarrow> tex_drain_fragment sample_tex_config s2;
     (_, s4) \<leftarrow> tex_access sample_tex_config 0 2 7 s3;
     Some s4
   })"

theorem tex_hit_at_zero_aborts_witness:
  "tex_drain_fragment sample_tex_config tex_hit_state = None"
proof (rule tex_hit_at_zero_aborts)
  show "t_objs tex_hit_state (fe_request \<lparr>fe_request = 2, fe_cache_index = 1, fe_miss = False, fe_data_size = 32\<rparr>)
    = Some (the (t_objs tex_hit_state 2))" by (simp, rule is_some_the) code_simp
qed code_simp+

end
