(* ===== verification/Scoreboard.thy ===== *)
theory Scoreboard
  imports Prelude
begin

text \<open>
  \<open>Scoreboard\<close> (\<open>src/gpgpu-sim/scoreboard.h\<close>, \<open>scoreboard.cc\<close>): the registers with a pending
  write, per warp, and the set that is meant to hold those waiting for a long operation.
  Register numbers are \<open>nat\<close> (an \<open>unsigned\<close> that goes through \<open>std::set<int>\<close> and back
  unchanged); the two vectors are lists indexed by warp, and an index out of range, which is
  undefined in the code, is \<open>None\<close>.
\<close>

datatype memory_space = undefined_space | reg_space | local_space | shared_space
  | param_space_unclassified | param_space_kernel | param_space_local | const_space
  | tex_space | surf_space | global_space | generic_space | instruction_space

text \<open>What the scoreboard reads of a \<open>warp_inst_t\<close>.\<close>

record sb_inst =
  si_warp :: nat
  si_out :: "nat list"
  si_in :: "nat list"
  si_pred :: int
  si_ar1 :: int
  si_ar2 :: int
  si_is_load :: bool
  si_space :: memory_space

record scoreboard =
  reg_table :: "nat set list"
  longopregs :: "nat set list"

definition new_scoreboard :: "nat \<Rightarrow> scoreboard" where
  "new_scoreboard n = \<lparr>reg_table = replicate n {}, longopregs = replicate n {}\<rparr>"

definition reserveRegister :: "nat \<Rightarrow> nat \<Rightarrow> scoreboard \<Rightarrow> scoreboard option" where
  "reserveRegister wid r sb = do {
     ensure (wid < length (reg_table sb));
     ensure (r \<notin> reg_table sb ! wid);
     Some (sb\<lparr>reg_table := (reg_table sb)[wid := insert r (reg_table sb ! wid)]\<rparr>)
   }"

definition releaseRegister :: "nat \<Rightarrow> nat \<Rightarrow> scoreboard \<Rightarrow> scoreboard option" where
  "releaseRegister wid r sb = do {
     ensure (wid < length (reg_table sb));
     if r \<notin> reg_table sb ! wid then Some sb
     else Some (sb\<lparr>reg_table := (reg_table sb)[wid := reg_table sb ! wid - {r}]\<rparr>)
   }"

definition islongop :: "nat \<Rightarrow> nat \<Rightarrow> scoreboard \<Rightarrow> bool option" where
  "islongop wid r sb = do {
     ensure (wid < length (longopregs sb));
     Some (r \<in> longopregs sb ! wid)
   }"

text \<open>\<open>for r < 4: if out[r] > 0 then ...\<close>\<close>

fun reserve_outs :: "nat \<Rightarrow> nat list \<Rightarrow> scoreboard \<Rightarrow> scoreboard option" where
  "reserve_outs wid [] sb = Some sb"
| "reserve_outs wid (o1 # os) sb =
     (if o1 > 0 then do { sb' \<leftarrow> reserveRegister wid o1 sb; reserve_outs wid os sb' }
      else reserve_outs wid os sb)"

fun release_outs :: "nat \<Rightarrow> nat list \<Rightarrow> scoreboard \<Rightarrow> scoreboard option" where
  "release_outs wid [] sb = Some sb"
| "release_outs wid (o1 # os) sb =
     (if o1 > 0 then do { sb' \<leftarrow> releaseRegister wid o1 sb; release_outs wid os sb' }
      else release_outs wid os sb)"

text \<open>The loop inserts the loop index \<open>r\<close>, not \<open>out[r]\<close>.\<close>

definition long_indices :: "nat list \<Rightarrow> nat set" where
  "long_indices os = set (filter (\<lambda>r. os ! r > 0) [0..<length os])"

definition reserveRegisters :: "sb_inst \<Rightarrow> scoreboard \<Rightarrow> scoreboard option" where
  "reserveRegisters inst sb = do {
     sb1 \<leftarrow> reserve_outs (si_warp inst) (take 4 (si_out inst)) sb;
     if si_is_load inst \<and>
        (si_space inst = global_space \<or> si_space inst = local_space \<or> si_space inst = tex_space)
     then do {
       ensure (si_warp inst < length (longopregs sb1));
       Some (sb1\<lparr>longopregs := (longopregs sb1)[si_warp inst :=
               longopregs sb1 ! si_warp inst \<union> long_indices (take 4 (si_out inst))]\<rparr>)
     } else Some sb1
   }"

definition releaseRegisters :: "sb_inst \<Rightarrow> scoreboard \<Rightarrow> scoreboard option" where
  "releaseRegisters inst sb = do {
     sb1 \<leftarrow> release_outs (si_warp inst) (take 4 (si_out inst)) sb;
     ensure (si_warp inst < length (longopregs sb1));
     Some (sb1\<lparr>longopregs := (longopregs sb1)[si_warp inst := {}]\<rparr>)
   }"

definition inst_regs :: "sb_inst \<Rightarrow> nat list" where
  "inst_regs inst =
     filter (\<lambda>r. r > 0) (take 4 (si_out inst)) @ filter (\<lambda>r. r > 0) (take 4 (si_in inst)) @
     map nat (filter (\<lambda>r. r > 0) [si_pred inst, si_ar1 inst, si_ar2 inst])"

definition checkCollision :: "nat \<Rightarrow> sb_inst \<Rightarrow> scoreboard \<Rightarrow> bool option" where
  "checkCollision wid inst sb = do {
     ensure (wid < length (reg_table sb));
     Some (list_ex (\<lambda>r. r \<in> reg_table sb ! wid) (inst_regs inst))
   }"

definition pendingWrites :: "nat \<Rightarrow> scoreboard \<Rightarrow> bool option" where
  "pendingWrites wid sb = do { ensure (wid < length (reg_table sb)); Some (reg_table sb ! wid \<noteq> {}) }"

text \<open>The inner loop breaks after its first iteration: one per warp with a pending write.\<close>

definition ScoreboardSize :: "scoreboard \<Rightarrow> nat" where
  "ScoreboardSize sb = length (filter (\<lambda>s. s \<noteq> {}) (reg_table sb))"

subsection \<open>Lemmas\<close>

lemma reserve_outs_table:
  assumes "wid < length (reg_table sb)"
    "distinct (filter (\<lambda>r. r > 0) os)" "\<forall>r \<in> set os. r > 0 \<longrightarrow> r \<notin> reg_table sb ! wid"
  shows "reserve_outs wid os sb =
    Some (sb\<lparr>reg_table := (reg_table sb)[wid := reg_table sb ! wid \<union> {r \<in> set os. r > 0}]\<rparr>)"
  using assms
proof (induction os arbitrary: sb)
  case Nil
  then show ?case by simp
next
  case (Cons o1 os)
  show ?case
  proof (cases "o1 > 0")
    case True
    let ?sb = "sb\<lparr>reg_table := (reg_table sb)[wid := insert o1 (reg_table sb ! wid)]\<rparr>"
    have "reserveRegister wid o1 sb = Some ?sb"
      using Cons.prems True by (simp add: reserveRegister_def)
    moreover have "reserve_outs wid os ?sb =
      Some (?sb\<lparr>reg_table := (reg_table ?sb)[wid := reg_table ?sb ! wid \<union> {r \<in> set os. r > 0}]\<rparr>)"
      by (rule Cons.IH) (use Cons.prems True in auto)
    moreover have "insert o1 (reg_table sb ! wid) \<union> {r \<in> set os. r > 0} =
        reg_table sb ! wid \<union> {r \<in> set (o1 # os). r > 0}" using True by auto
    ultimately show ?thesis using True Cons.prems(1) by simp
  next
    case False
    moreover have "{r \<in> set (o1 # os). r > 0} = {r \<in> set os. r > 0}" using False by auto
    ultimately show ?thesis using Cons.IH[OF Cons.prems(1)] Cons.prems(2,3) by simp
  qed
qed

lemma release_outs_table:
  assumes "wid < length (reg_table sb)"
  shows "release_outs wid os sb =
    Some (sb\<lparr>reg_table := (reg_table sb)[wid := reg_table sb ! wid - {r \<in> set os. r > 0}]\<rparr>)"
  using assms
proof (induction os arbitrary: sb)
  case Nil
  then show ?case by simp
next
  case (Cons o1 os)
  show ?case
  proof (cases "o1 > 0")
    case True
    let ?sb = "sb\<lparr>reg_table := (reg_table sb)[wid := reg_table sb ! wid - {o1}]\<rparr>"
    have "releaseRegister wid o1 sb = Some ?sb"
      using Cons.prems by (simp add: releaseRegister_def)
    moreover have "release_outs wid os ?sb =
      Some (?sb\<lparr>reg_table := (reg_table ?sb)[wid := reg_table ?sb ! wid - {r \<in> set os. r > 0}]\<rparr>)"
      by (rule Cons.IH) (use Cons.prems in auto)
    moreover have "reg_table sb ! wid - {o1} - {r \<in> set os. r > 0} =
        reg_table sb ! wid - {r \<in> set (o1 # os). r > 0}" using True by auto
    ultimately show ?thesis using True Cons.prems(1) by simp
  next
    case False
    moreover have "{r \<in> set (o1 # os). r > 0} = {r \<in> set os. r > 0}" using False by auto
    ultimately show ?thesis using Cons.IH[OF Cons.prems(1)] by simp
  qed
qed

definition sb_wf :: "nat \<Rightarrow> scoreboard \<Rightarrow> bool" where
  "sb_wf n sb \<longleftrightarrow> length (reg_table sb) = n \<and> length (longopregs sb) = n"

lemma reserveRegisters_table:
  assumes "sb_wf n sb" "si_warp inst < n" "checkCollision (si_warp inst) inst sb = Some False"
    "distinct (filter (\<lambda>r. r > 0) (take 4 (si_out inst)))"
  shows "\<exists>sb'. reserveRegisters inst sb = Some sb' \<and> sb_wf n sb' \<and>
    reg_table sb' = (reg_table sb)[si_warp inst := reg_table sb ! si_warp inst \<union> {r \<in> set (take 4 (si_out inst)). r > 0}]"
proof -
  have "\<forall>r \<in> set (take 4 (si_out inst)). r > 0 \<longrightarrow> r \<notin> reg_table sb ! si_warp inst"
    using assms(3) by (auto simp: checkCollision_def inst_regs_def list_ex_iff split: if_splits)
  moreover have "si_warp inst < length (reg_table sb)" "si_warp inst < length (longopregs sb)"
    using assms(1,2) by (simp_all add: sb_wf_def)
  ultimately show ?thesis using reserve_outs_table[OF _ assms(4)] assms(1)
    by (auto simp: reserveRegisters_def sb_wf_def)
qed

subsection \<open>Properties\<close>

text \<open>
  Issue is safe: when \<open>checkCollision\<close> reports no hazard and the instruction's destination
  registers are distinct, \<open>reserveRegisters\<close> does not abort, and from then on any instruction
  of the warp that reads or writes one of those registers collides, until they are released.
\<close>

theorem no_collision_reserves:
  assumes "sb_wf n sb" and "si_warp inst < n" and "checkCollision (si_warp inst) inst sb = Some False"
    and "distinct (filter (\<lambda>r. r > 0) (take 4 (si_out inst)))"
  shows "\<exists>sb'. reserveRegisters inst sb = Some sb' \<and> sb_wf n sb' \<and>
    (\<forall>other r. r \<in> set (take 4 (si_out inst)) \<and> r \<in> set (inst_regs other) \<and> 0 < r \<longrightarrow>
       checkCollision (si_warp inst) other sb' = Some True) \<and>
    (\<forall>w. w \<noteq> si_warp inst \<longrightarrow> (\<forall>other. checkCollision w other sb' = checkCollision w other sb))"
proof -
  from reserveRegisters_table[OF assms] obtain sb' where s: "reserveRegisters inst sb = Some sb'" "sb_wf n sb'"
    "reg_table sb' = (reg_table sb)[si_warp inst := reg_table sb ! si_warp inst \<union> {r \<in> set (take 4 (si_out inst)). r > 0}]"
    by blast
  have l: "si_warp inst < length (reg_table sb)" using assms(1,2) by (simp add: sb_wf_def)
  have "checkCollision (si_warp inst) other sb' = Some True"
    if "r \<in> set (take 4 (si_out inst))" "r \<in> set (inst_regs other)" "0 < r" for other r
    using that l s(3) by (auto simp: checkCollision_def list_ex_iff)
  moreover have "checkCollision w other sb' = checkCollision w other sb" if "w \<noteq> si_warp inst" for w other
    using that by (simp add: checkCollision_def s(3))
  ultimately show ?thesis using s(1,2) by blast
qed

lemma release_outs_long: "release_outs wid os sb = Some sb' \<Longrightarrow> longopregs sb' = longopregs sb"
  by (induction wid os sb rule: release_outs.induct)
    (auto simp: releaseRegister_def elim!: bind_SomeE split: if_splits)

lemma reserve_outs_long: "reserve_outs wid os sb = Some sb' \<Longrightarrow> longopregs sb' = longopregs sb"
  by (induction wid os sb rule: reserve_outs.induct)
    (auto simp: reserveRegister_def elim!: bind_SomeE split: if_splits)

lemma reserveRegisters_long:
  assumes "reserveRegisters inst sb = Some sb'"
  shows "longopregs sb' = longopregs sb \<or>
    longopregs sb' = (longopregs sb)[si_warp inst := longopregs sb ! si_warp inst \<union> long_indices (take 4 (si_out inst))]"
  using assms reserve_outs_long by (fastforce simp: reserveRegisters_def elim!: bind_SomeE split: if_splits)

text \<open>
  C38: releasing the registers of an instruction that was reserved without a hazard, its destinations being distinct,
  restores the table of pending writes exactly.  The record of long operations is not restored: it becomes empty for
  the warp, also when an earlier load of the warp is still pending, and stays as it was for the other warps.
\<close>

theorem reserve_release_roundtrip:
  assumes "sb_wf n sb" and "si_warp inst < n" and "checkCollision (si_warp inst) inst sb = Some False"
    and "distinct (filter (\<lambda>r. r > 0) (take 4 (si_out inst)))"
  shows "\<exists>sb'. reserveRegisters inst sb = Some sb' \<and>
     releaseRegisters inst sb' = Some (sb\<lparr>longopregs := (longopregs sb)[si_warp inst := {}]\<rparr>)"
proof -
  let ?w = "si_warp inst"
  from reserveRegisters_table[OF assms] obtain sb' where s: "reserveRegisters inst sb = Some sb'" "sb_wf n sb'"
    "reg_table sb' = (reg_table sb)[?w := reg_table sb ! ?w \<union> {r \<in> set (take 4 (si_out inst)). r > 0}]"
    by blast
  have l: "?w < length (reg_table sb)" "?w < length (reg_table sb')" "?w < length (longopregs sb')"
    using assms(1,2) s(2) by (simp_all add: sb_wf_def)
  have d: "\<forall>r \<in> set (take 4 (si_out inst)). r > 0 \<longrightarrow> r \<notin> reg_table sb ! ?w"
    using assms(3) by (auto simp: checkCollision_def inst_regs_def list_ex_iff split: if_splits)
  have e: "(reg_table sb ! ?w \<union> {r \<in> set (take 4 (si_out inst)). r > 0}) - {r \<in> set (take 4 (si_out inst)). r > 0}
      = reg_table sb ! ?w" using d by auto
  have lo: "(longopregs sb')[?w := {}] = (longopregs sb)[?w := {}]" using reserveRegisters_long[OF s(1)] by auto
  have "releaseRegisters inst sb' = Some (sb'\<lparr>reg_table := reg_table sb, longopregs := (longopregs sb')[?w := {}]\<rparr>)"
    using l e release_outs_table[OF l(2), of "take 4 (si_out inst)"] by (simp add: releaseRegisters_def s(3))
  also have "sb'\<lparr>reg_table := reg_table sb, longopregs := (longopregs sb')[?w := {}]\<rparr> =
      sb\<lparr>longopregs := (longopregs sb)[?w := {}]\<rparr>" unfolding lo by simp
  finally show ?thesis using s(1) by blast
qed

text \<open>The scoreboards the operations can reach.\<close>

inductive sb_reach :: "nat \<Rightarrow> scoreboard \<Rightarrow> bool" for n where
  init: "sb_reach n (new_scoreboard n)"
| reserve: "sb_reach n sb \<Longrightarrow> reserveRegisters inst sb = Some sb' \<Longrightarrow> sb_reach n sb'"
| release: "sb_reach n sb \<Longrightarrow> releaseRegisters inst sb = Some sb' \<Longrightarrow> sb_reach n sb'"
| release1: "sb_reach n sb \<Longrightarrow> releaseRegister wid r sb = Some sb' \<Longrightarrow> sb_reach n sb'"

lemma long_indices_small: "long_indices (take 4 os) \<subseteq> {0..<4}"
  by (auto simp: long_indices_def)

lemma sb_reach_long:
  assumes "sb_reach n sb"
  shows "\<forall>s \<in> set (longopregs sb). s \<subseteq> {0..<4}"
  using assms
proof (induction rule: sb_reach.induct)
  case init
  then show ?case by (simp add: new_scoreboard_def)
next
  case (reserve sb inst sb')
  from reserve.hyps(2) obtain sb1 where r: "reserve_outs (si_warp inst) (take 4 (si_out inst)) sb = Some sb1"
    and c: "sb' = sb1 \<or> (si_warp inst < length (longopregs sb1) \<and> sb' = sb1\<lparr>longopregs := (longopregs sb1)[si_warp inst :=
               longopregs sb1 ! si_warp inst \<union> long_indices (take 4 (si_out inst))]\<rparr>)"
    by (auto simp: reserveRegisters_def elim!: bind_SomeE split: if_splits)
  have l: "longopregs sb1 = longopregs sb" by (rule reserve_outs_long[OF r])
  from c show ?case
  proof
    assume "sb' = sb1"
    with l reserve.IH show ?thesis by simp
  next
    assume c: "si_warp inst < length (longopregs sb1) \<and> sb' = sb1\<lparr>longopregs := (longopregs sb1)[si_warp inst :=
               longopregs sb1 ! si_warp inst \<union> long_indices (take 4 (si_out inst))]\<rparr>"
    then have "longopregs sb1 ! si_warp inst \<subseteq> {0..<4}" using l reserve.IH by simp
    with long_indices_small have "longopregs sb1 ! si_warp inst \<union> long_indices (take 4 (si_out inst)) \<subseteq> {0..<4}" by blast
    then show ?thesis using c l reserve.IH set_update_subset by fastforce
  qed
next
  case (release sb inst sb')
  from release.hyps(2) obtain sb1 where r: "release_outs (si_warp inst) (take 4 (si_out inst)) sb = Some sb1"
    and c: "sb' = sb1\<lparr>longopregs := (longopregs sb1)[si_warp inst := {}]\<rparr>"
    by (auto simp: releaseRegisters_def elim!: bind_SomeE split: if_splits)
  then show ?case using release_outs_long[OF r] release.IH set_update_subset by fastforce
next
  case (release1 sb wid r sb')
  then show ?case by (auto simp: releaseRegister_def split: if_splits)
qed

text \<open>
  A load reserves the \<open>indices\<close> of its destinations as long-operation registers instead of
  the registers: after any sequence of reservations and releases no register number from 4
  upwards is ever reported by \<open>islongop\<close>, so a warp that waits on such a register is not
  recognised as waiting for memory.
\<close>

theorem islongop_never_above_3:
  assumes "sb_reach n sb" and "wid < n" and "islongop wid r sb = Some b" and "4 \<le> r"
  shows "\<not> b"
proof
  assume b
  with assms(3) have "wid < length (longopregs sb)" "r \<in> longopregs sb ! wid"
    by (auto simp: islongop_def split: if_splits)
  with sb_reach_long[OF assms(1)] have "r < 4" by (meson atLeastLessThan_iff nth_mem subsetD)
  with assms(4) show False by simp
qed

subsection \<open>Concrete instances\<close>

definition sample_inst :: sb_inst where
  "sample_inst = \<lparr>si_warp = 1, si_out = [9, 0, 7, 0], si_in = [5, 0, 0, 0], si_pred = 0,
     si_ar1 = 3, si_ar2 = 0, si_is_load = True, si_space = global_space\<rparr>"

lemma sample_sb: "sb_wf 4 (new_scoreboard 4)"
  by (simp add: sb_wf_def new_scoreboard_def)

lemma sample_no_collision:
  "si_warp sample_inst < 4"
  "checkCollision (si_warp sample_inst) sample_inst (new_scoreboard 4) = Some False"
  "distinct (filter (\<lambda>r. r > 0) (take 4 (si_out sample_inst)))"
  by code_simp+

theorem no_collision_reserves_witness:
  "\<exists>sb'. reserveRegisters sample_inst (new_scoreboard 4) = Some sb' \<and> sb_wf 4 sb' \<and>
    (\<forall>other r. r \<in> set (take 4 (si_out sample_inst)) \<and> r \<in> set (inst_regs other) \<and> 0 < r \<longrightarrow>
       checkCollision (si_warp sample_inst) other sb' = Some True) \<and>
    (\<forall>w. w \<noteq> si_warp sample_inst \<longrightarrow>
       (\<forall>other. checkCollision w other sb' = checkCollision w other (new_scoreboard 4)))"
  by (rule no_collision_reserves[OF sample_sb sample_no_collision])

text \<open>The first load is pending when the second instruction is reserved and released; its long operation is forgotten.\<close>

definition pending_load :: scoreboard where
  "pending_load = \<lparr>reg_table = [{}, {4}, {}, {}], longopregs = [{}, {0}, {}, {1}]\<rparr>"

theorem reserve_release_roundtrip_witness:
  "\<exists>sb'. reserveRegisters sample_inst pending_load = Some sb' \<and>
     releaseRegisters sample_inst sb' = Some (pending_load\<lparr>longopregs := [{}, {}, {}, {1}]\<rparr>)"
proof -
  have h: "sb_wf 4 pending_load" "si_warp sample_inst < 4" "checkCollision (si_warp sample_inst) sample_inst pending_load = Some False"
    by (simp_all add: sb_wf_def pending_load_def sample_inst_def checkCollision_def inst_regs_def)
  have "pending_load\<lparr>longopregs := (longopregs pending_load)[si_warp sample_inst := {}]\<rparr> =
      pending_load\<lparr>longopregs := [{}, {}, {}, {1}]\<rparr>" by (simp add: pending_load_def sample_inst_def)
  with reserve_release_roundtrip[OF h sample_no_collision(3)] show ?thesis by simp
qed

theorem islongop_never_above_3_witness:
  "islongop 1 9 (the (reserveRegisters sample_inst (new_scoreboard 4))) = Some False"
proof -
  have "reserveRegisters sample_inst (new_scoreboard 4) = Some (the (reserveRegisters sample_inst (new_scoreboard 4)))"
    by (rule is_some_the) code_simp
  from sb_reach.reserve[OF sb_reach.init this]
  have r: "sb_reach 4 (the (reserveRegisters sample_inst (new_scoreboard 4)))" .
  obtain b where b: "islongop 1 9 (the (reserveRegisters sample_inst (new_scoreboard 4))) = Some b"
    using is_some_the[of "islongop 1 9 (the (reserveRegisters sample_inst (new_scoreboard 4)))"]
    by (cases "islongop 1 9 (the (reserveRegisters sample_inst (new_scoreboard 4)))")
      (simp_all add: islongop_def reserveRegisters_def sample_inst_def new_scoreboard_def
        reserveRegister_def long_indices_def)
  from islongop_never_above_3[OF r _ b] b show ?thesis by simp
qed

end
