(* ===== verification/DelayQueue.thy ===== *)
theory DelayQueue
  imports DataCache
begin

text \<open>
  \<open>fifo_pipeline<T>\<close> (\<open>src/gpgpu-sim/delayqueue.h\<close>): the queue with a minimum latency that
  connects the units of a memory partition.  The linked nodes from \<open>m_head\<close> to \<open>m_tail\<close> are
  the list \<open>q_nodes\<close>; a node without data is \<open>None\<close>.  \<open>m_n_element\<close> is an unsigned word.
\<close>

record 'a pipe =
  q_min_len :: nat
  q_max_len :: nat
  q_length :: nat
  q_n_element :: u32
  q_nodes :: "'a option list"

definition pipe_push :: "'a option \<Rightarrow> 'a pipe \<Rightarrow> 'a pipe option" where
  "pipe_push d s = do {
     ensure (q_length s < q_max_len s);
     if q_nodes s \<noteq> [] then
       (if last (q_nodes s) \<noteq> None \<or> q_length s < q_min_len s
        then Some (s\<lparr>q_nodes := q_nodes s @ [d], q_length := q_length s + 1,
                    q_n_element := q_n_element s + 1\<rparr>)
        else Some (s\<lparr>q_nodes := butlast (q_nodes s) @ [d]\<rparr>))
     else Some (s\<lparr>q_nodes := [d], q_length := q_length s + 1, q_n_element := q_n_element s + 1\<rparr>)
   }"

fun push_nulls :: "nat \<Rightarrow> 'a pipe \<Rightarrow> 'a pipe option" where
  "push_nulls 0 s = Some s"
| "push_nulls (Suc n) s = do { s' \<leftarrow> pipe_push None s; push_nulls n s' }"

definition new_pipe :: "nat \<Rightarrow> nat \<Rightarrow> 'a pipe option" where
  "new_pipe minlen maxlen = do {
     ensure (maxlen \<noteq> 0);
     push_nulls minlen \<lparr>q_min_len = minlen, q_max_len = maxlen, q_length = 0, q_n_element = 0, q_nodes = []\<rparr>
   }"

definition pipe_pop :: "'a pipe \<Rightarrow> ('a option \<times> 'a pipe) option" where
  "pipe_pop s =
     (case q_nodes s of
        [] \<Rightarrow> Some (None, s)
      | d # ds \<Rightarrow> do {
          let s1 = s\<lparr>q_nodes := ds, q_length := q_length s - 1\<rparr>;
          ensure (q_length s1 = 0 \<longrightarrow> ds = []);
          let s2 = s1\<lparr>q_n_element := q_n_element s - 1\<rparr>;
          if q_min_len s2 \<noteq> 0 \<and> q_length s2 < q_min_len s2 then do {
            s3 \<leftarrow> pipe_push None s2;
            Some (d, s3\<lparr>q_n_element := q_n_element s3 - 1\<rparr>)
          } else Some (d, s2)
        })"

definition pipe_top :: "'a pipe \<Rightarrow> 'a option" where
  "pipe_top s = (case q_nodes s of [] \<Rightarrow> None | d # _ \<Rightarrow> d)"

definition pipe_full :: "'a pipe \<Rightarrow> bool" where
  "pipe_full s \<longleftrightarrow> q_max_len s \<noteq> 0 \<and> q_length s \<ge> q_max_len s"

definition pipe_empty :: "'a pipe \<Rightarrow> bool" where
  "pipe_empty s \<longleftrightarrow> q_nodes s = []"

text \<open>The growing loop of \<open>set_min_length\<close>: every push below the minimum adds a node.\<close>

fun pad_loop :: "nat \<Rightarrow> 'a pipe \<Rightarrow> 'a pipe option" where
  "pad_loop 0 s = Some s"
| "pad_loop (Suc n) s = do {
     s' \<leftarrow> pipe_push None s;
     pad_loop n (s'\<lparr>q_n_element := q_n_element s' - 1\<rparr>)
   }"

text \<open>The shrinking loop: drops empty tail nodes; a single node is popped.\<close>

function shrink_loop :: "'a pipe \<Rightarrow> 'a pipe option" where
  "shrink_loop s =
     (if q_length s > q_min_len s then
        (case q_nodes s of
           [] \<Rightarrow> None
         | [d] \<Rightarrow> if d = None then map_option snd (pipe_pop s) else Some s
         | _ # _ # _ \<Rightarrow>
             if last (q_nodes s) = None
             then shrink_loop (s\<lparr>q_nodes := butlast (q_nodes s), q_length := q_length s - 1\<rparr>)
             else Some s)
      else Some s)"
  by pat_completeness auto
termination by (relation "measure (\<lambda>s. length (q_nodes s))") auto

declare shrink_loop.simps [simp del]

definition set_min_length :: "nat \<Rightarrow> 'a pipe \<Rightarrow> 'a pipe option" where
  "set_min_length n s =
     (if n = q_min_len s then Some s
      else if n > q_min_len s then pad_loop (n - q_length s) (s\<lparr>q_min_len := n\<rparr>)
      else do { ensure (q_nodes s \<noteq> []); shrink_loop (s\<lparr>q_min_len := n\<rparr>) })"

subsection \<open>The invariant and the queue it represents\<close>

definition pipe_inv :: "'a pipe \<Rightarrow> bool" where
  [inv_defs]: "pipe_inv s \<longleftrightarrow>
     q_length s = length (q_nodes s) \<and> q_min_len s \<le> q_length s \<and> q_length s \<le> q_max_len s \<and>
     0 < q_max_len s"

fun somes :: "'a option list \<Rightarrow> 'a list" where
  "somes [] = []"
| "somes (None # xs) = somes xs"
| "somes (Some x # xs) = x # somes xs"

lemma somes_append [simp]: "somes (xs @ ys) = somes xs @ somes ys"
  by (induction xs rule: somes.induct) auto

lemma somes_replicate_None [simp]: "somes (replicate n None) = []"
  by (induction n) auto

definition pipe_items :: "'a pipe \<Rightarrow> 'a list" where
  "pipe_items s = somes (q_nodes s)"

lemma push_nulls_nodes:
  assumes "q_length s = length (q_nodes s)" "length (q_nodes s) + n \<le> q_max_len s"
    "length (q_nodes s) + n \<le> q_min_len s"
  shows "push_nulls n s = Some (s\<lparr>q_nodes := q_nodes s @ replicate n None, q_length := q_length s + n,
     q_n_element := q_n_element s + of_nat n\<rparr>)"
  using assms
proof (induction n arbitrary: s)
  case (Suc n)
  let ?s = "s\<lparr>q_nodes := q_nodes s @ [None], q_length := q_length s + 1, q_n_element := q_n_element s + 1\<rparr>"
  have "pipe_push None s = Some ?s" using Suc.prems by (auto simp: pipe_push_def)
  moreover have "push_nulls n ?s = Some (?s\<lparr>q_nodes := q_nodes ?s @ replicate n None, q_length := q_length ?s + n,
     q_n_element := q_n_element ?s + of_nat n\<rparr>)"
    by (rule Suc.IH) (use Suc.prems in auto)
  ultimately show ?case by (simp add: ac_simps)
qed simp

lemma new_pipe_eq:
  assumes "maxlen \<noteq> 0" "minlen \<le> maxlen"
  shows "new_pipe minlen maxlen = Some \<lparr>q_min_len = minlen, q_max_len = maxlen, q_length = minlen,
     q_n_element = of_nat minlen, q_nodes = replicate minlen None\<rparr>"
  using assms by (simp add: new_pipe_def push_nulls_nodes)

lemma new_pipe_inv:
  assumes "maxlen \<noteq> 0" "minlen \<le> maxlen"
  shows "\<exists>s. new_pipe minlen maxlen = Some s \<and> pipe_inv s \<and> pipe_items s = []"
  using assms by (simp add: new_pipe_eq pipe_inv_def pipe_items_def)

lemma pipe_push_step:
  assumes "pipe_inv s" "\<not> pipe_full s"
  shows "\<exists>s'. pipe_push (Some x) s = Some s' \<and> pipe_inv s' \<and> pipe_items s' = pipe_items s @ [x] \<and>
    q_min_len s' = q_min_len s \<and> q_max_len s' = q_max_len s"
proof -
  have l: "q_length s < q_max_len s" using assms by (auto simp: pipe_full_def pipe_inv_def)
  show ?thesis
  proof (cases "q_nodes s = [] \<or> last (q_nodes s) \<noteq> None")
    case True
    with l assms(1) show ?thesis by (auto simp: pipe_push_def pipe_inv_def pipe_items_def)
  next
    case False
    then have "q_nodes s = butlast (q_nodes s) @ [None]" by (metis append_butlast_last_id)
    then have "somes (q_nodes s) = somes (butlast (q_nodes s))"
      by (metis somes_append somes.simps(1,2) append_Nil2)
    moreover have "\<not> q_length s < q_min_len s" using assms(1) by (simp add: pipe_inv_def)
    ultimately show ?thesis using False l assms(1)
      by (auto simp: pipe_push_def pipe_inv_def pipe_items_def)
  qed
qed

lemma pipe_pop_step:
  assumes "pipe_inv s"
  shows "\<exists>d s'. pipe_pop s = Some (d, s') \<and> pipe_inv s' \<and>
    pipe_items s = (case d of None \<Rightarrow> [] | Some x \<Rightarrow> [x]) @ pipe_items s' \<and>
    d = pipe_top s \<and> q_min_len s' = q_min_len s \<and> q_max_len s' = q_max_len s"
proof (cases "q_nodes s")
  case Nil
  with assms show ?thesis by (simp add: pipe_pop_def pipe_top_def)
next
  case (Cons d ds)
  have it: "somes (d # ds) = (case d of None \<Rightarrow> [] | Some x \<Rightarrow> [x]) @ somes ds" by (cases d) simp_all
  show ?thesis using assms Cons it
    by (cases "length ds < q_min_len s"; cases "ds = []")
      (auto simp: pipe_pop_def pipe_push_def pipe_inv_def pipe_items_def pipe_top_def Let_def)
qed

lemma pad_loop_nodes:
  assumes "q_length s = length (q_nodes s)" "length (q_nodes s) + n \<le> q_max_len s"
    "length (q_nodes s) + n \<le> q_min_len s"
  shows "pad_loop n s = Some (s\<lparr>q_nodes := q_nodes s @ replicate n None, q_length := q_length s + n\<rparr>)"
  using assms
proof (induction n arbitrary: s)
  case (Suc n)
  let ?s = "s\<lparr>q_nodes := q_nodes s @ [None], q_length := q_length s + 1, q_n_element := q_n_element s + 1\<rparr>"
  let ?t = "?s\<lparr>q_n_element := q_n_element ?s - 1\<rparr>"
  have "pipe_push None s = Some ?s" using Suc.prems by (auto simp: pipe_push_def)
  moreover have "pad_loop n ?t = Some (?t\<lparr>q_nodes := q_nodes ?t @ replicate n None, q_length := q_length ?t + n\<rparr>)"
    by (rule Suc.IH) (use Suc.prems in auto)
  ultimately show ?case by simp
qed simp

lemma shrink_loop_items:
  assumes "q_length s = length (q_nodes s)" "q_length s \<le> q_max_len s" "0 < q_max_len s"
    "q_min_len s \<le> q_length s"
  shows "\<exists>s'. shrink_loop s = Some s' \<and> pipe_inv s' \<and> pipe_items s' = pipe_items s \<and>
    q_min_len s' = q_min_len s"
  using assms
proof (induction s rule: shrink_loop.induct)
  case (1 s)
  show ?case
  proof (cases "q_length s > q_min_len s")
    case False
    with "1.prems" show ?thesis by (simp add: shrink_loop.simps[of s] pipe_inv_def)
  next
    case True
    then obtain d ds where n: "q_nodes s = d # ds" using "1.prems"(1) by (cases "q_nodes s") auto
    show ?thesis
    proof (cases ds)
      case Nil
      have inv: "pipe_inv s" using "1.prems" by (simp add: pipe_inv_def)
      from pipe_pop_step[OF this] obtain d' s' where p: "pipe_pop s = Some (d', s')" "pipe_inv s'"
        "pipe_items s = (case d' of None \<Rightarrow> [] | Some x \<Rightarrow> [x]) @ pipe_items s'" "d' = pipe_top s"
        "q_min_len s' = q_min_len s" by blast
      have "d' = d" using p(4) n by (simp add: pipe_top_def)
      then show ?thesis using True n Nil inv p
        by (cases d) (simp_all add: shrink_loop.simps[of s])
    next
      case (Cons e es)
      show ?thesis
      proof (cases "last (q_nodes s) = None")
        case False
        then have "shrink_loop s = Some s"
          using True n Cons by (auto simp: shrink_loop.simps[of s] simp del: last.simps)
        with "1.prems" show ?thesis by (simp add: pipe_inv_def)
      next
        case ln: True
        let ?s = "s\<lparr>q_nodes := butlast (q_nodes s), q_length := q_length s - 1\<rparr>"
        have e: "shrink_loop s = shrink_loop ?s" using True n Cons ln
          by (simp add: shrink_loop.simps[of s])
        have "\<exists>s'. shrink_loop ?s = Some s' \<and> pipe_inv s' \<and> pipe_items s' = pipe_items ?s \<and>
            q_min_len s' = q_min_len ?s"
          by (rule "1.IH"[OF True n Cons]) (use True "1.prems" n Cons ln in auto)
        moreover have "pipe_items ?s = pipe_items s"
        proof -
          have "q_nodes s = butlast (q_nodes s) @ [None]" using ln n by (metis append_butlast_last_id list.discI)
          then have "somes (q_nodes s) = somes (butlast (q_nodes s))"
            by (metis somes_append somes.simps(1,2) append_Nil2)
          then show ?thesis by (simp add: pipe_items_def)
        qed
        ultimately show ?thesis using e by simp
      qed
    qed
  qed
qed

text \<open>A pipeline without minimum latency holds no empty node and is a plain FIFO.\<close>

definition plain_inv :: "'a pipe \<Rightarrow> bool" where
  "plain_inv s \<longleftrightarrow> pipe_inv s \<and> q_min_len s = 0 \<and> None \<notin> set (q_nodes s)"

definition pipe_take :: "'a pipe \<Rightarrow> ('a \<times> 'a pipe) option" where
  "pipe_take s = do { (d, s') \<leftarrow> pipe_pop s; x \<leftarrow> d; Some (x, s') }"

lemma somes_all: "None \<notin> set xs \<Longrightarrow> xs = map Some (somes xs)"
  by (induction xs rule: somes.induct) auto

interpretation plain_pipe: fifo_source plain_inv pipe_items "\<lambda>s. \<not> pipe_empty s" pipe_take
proof unfold_locales
  fix s :: "'a pipe" assume "plain_inv s"
  then have "q_nodes s = map Some (pipe_items s)"
    using somes_all[of "q_nodes s"] by (simp add: plain_inv_def pipe_items_def)
  then show "(\<not> pipe_empty s) = (pipe_items s \<noteq> [])" by (simp add: pipe_empty_def)
next
  fix s :: "'a pipe" and x xs assume a: "plain_inv s" "pipe_items s = x # xs"
  then have "q_nodes s = map Some (x # xs)"
    using somes_all[of "q_nodes s"] by (simp add: plain_inv_def pipe_items_def)
  then have n: "q_nodes s = Some x # map Some xs" by simp
  have xs: "somes (map Some xs) = xs" by (induction xs) auto
  from a(1) n xs show "\<exists>s'. pipe_take s = Some (x, s') \<and> plain_inv s' \<and> pipe_items s' = xs"
    by (auto simp: pipe_take_def pipe_pop_def plain_inv_def pipe_inv_def pipe_items_def Let_def)
qed

subsection \<open>The L2 bank's port to DRAM\<close>

text \<open>\<open>L2interface\<close> (\<open>src/gpgpu-sim/l2cache.h\<close>): the port is the \<open>L2_to_DRAM\<close> queue.\<close>

definition L2interface :: "mfp pipe mem_port" where
  "L2interface = \<lparr>port_full = (\<lambda>q sz wr. pipe_full q),
     port_push = (\<lambda>p h q. do {
       mf \<leftarrow> h p;
       q' \<leftarrow> pipe_push (Some p) q;
       Some (h(p \<mapsto> mf_set_status IN_PARTITION_L2_TO_DRAM_QUEUE 0 mf), q')
     })\<rparr>"

text \<open>What a cache may rely on: a port that is not full takes a request and keeps its object.\<close>

locale memory_port =
  fixes port :: "'p mem_port" and ok :: "'p \<Rightarrow> bool" and sent :: "'p \<Rightarrow> mfp list"
  assumes push_ok: "ok q \<Longrightarrow> \<not> port_full port q sz wr \<Longrightarrow> h p = Some mf \<Longrightarrow>
    \<exists>h' q' mf'. port_push port p h q = Some (h', q') \<and> ok q' \<and> sent q' = sent q @ [p] \<and>
      h' = h(p \<mapsto> mf') \<and> mf_access mf' = mf_access mf \<and> mf_data_size mf' = mf_data_size mf \<and>
      mf_ctrl_size mf' = mf_ctrl_size mf \<and> mf_flit_size mf' = mf_flit_size mf"
begin

lemma cycle_sends:
  assumes "c_miss_queue s = p # ps" "objs s p = Some mf" "ok q" "mf_flit_size mf \<noteq> 0"
    "\<not> port_full port q (mf_data_size mf) (mf_get_is_write mf)"
  shows "\<exists>q' s'. cache_cycle port q s = Some (q', s') \<and> c_miss_queue s' = ps \<and>
    sent q' = sent q @ [p] \<and> ok q' \<and> c_tags s' = c_tags s \<and> c_mshrs s' = c_mshrs s \<and> c_extra s' = c_extra s"
proof -
  from push_ok[OF assms(3,5), of "objs s" p mf] assms(2) obtain h' q' mf' where
    p: "port_push port p (objs s) q = Some (h', q')" "ok q'" "sent q' = sent q @ [p]"
    "h' = (objs s)(p \<mapsto> mf')" "mf_flit_size mf' = mf_flit_size mf" by blast
  obtain n where "get_num_flits True mf' = Some n"
    using p(5) assms(4) by (auto simp: get_num_flits_def Let_def)
  with p assms show ?thesis by (simp add: cache_cycle_def)
qed

lemma cycle_blocked:
  assumes "c_miss_queue s = p # ps" "objs s p = Some mf"
    "port_full port q (mf_data_size mf) (mf_get_is_write mf)"
  shows "cache_cycle port q s = Some (q, s)"
  using assms by (simp add: cache_cycle_def)

end

interpretation l2_port: memory_port L2interface pipe_inv pipe_items
proof unfold_locales
  fix q :: "mfp pipe" and h :: heap and p mf and sz :: u32 and wr
  assume "pipe_inv q" "\<not> port_full L2interface q sz wr" "h p = Some mf"
  with pipe_push_step[of q p] obtain q' where q': "pipe_push (Some p) q = Some q'" "pipe_inv q'"
    "pipe_items q' = pipe_items q @ [p]" by (auto simp: L2interface_def)
  show "\<exists>h' q' mf'. port_push L2interface p h q = Some (h', q') \<and> pipe_inv q' \<and>
      pipe_items q' = pipe_items q @ [p] \<and> h' = h(p \<mapsto> mf') \<and> mf_access mf' = mf_access mf \<and>
      mf_data_size mf' = mf_data_size mf \<and> mf_ctrl_size mf' = mf_ctrl_size mf \<and>
      mf_flit_size mf' = mf_flit_size mf"
    by (rule exI[of _ "h(p \<mapsto> mf_set_status IN_PARTITION_L2_TO_DRAM_QUEUE 0 mf)"], rule exI[of _ q'],
        rule exI[of _ "mf_set_status IN_PARTITION_L2_TO_DRAM_QUEUE 0 mf"])
      (use q' \<open>h p = Some mf\<close> in \<open>simp add: L2interface_def mf_set_status_def\<close>)
qed

subsection \<open>Latency and drift\<close>

lemma pop_at_minimum:
  assumes "q_nodes s = d # ds" "q_length s = length (q_nodes s)" "q_min_len s = q_length s"
    "q_min_len s \<le> q_max_len s"
  shows "pipe_pop s = Some (d, s\<lparr>q_nodes := ds @ [None], q_n_element := q_n_element s - 1\<rparr>)"
  using assms by (cases "ds = []") (auto simp: pipe_pop_def pipe_push_def Let_def)

lemma drain_at_minimum:
  assumes "q_nodes s = xs @ ys" "q_length s = length (q_nodes s)" "q_min_len s = q_length s"
    "q_min_len s \<le> q_max_len s"
  shows "\<exists>s'. drain pipe_pop (length xs) s = Some (xs, s')"
  using assms
proof (induction xs arbitrary: s ys)
  case (Cons d ds)
  let ?s = "s\<lparr>q_nodes := (ds @ ys) @ [None], q_n_element := q_n_element s - 1\<rparr>"
  have p: "pipe_pop s = Some (d, ?s)" using pop_at_minimum[of s d "ds @ ys"] Cons.prems by simp
  have "\<exists>s'. drain pipe_pop (length ds) ?s = Some (ds, s')"
    by (rule Cons.IH[of _ "ys @ [None]"]) (use Cons.prems in auto)
  with p show ?case by auto
qed simp

fun push_pop :: "nat \<Rightarrow> 'a \<Rightarrow> 'a pipe \<Rightarrow> 'a pipe option" where
  "push_pop 0 x s = Some s"
| "push_pop (Suc n) x s = do {
     s1 \<leftarrow> pipe_push (Some x) s;
     (_, s2) \<leftarrow> pipe_pop s1;
     push_pop n x s2
   }"

lemma push_pop_drift:
  assumes "q_length s = length (q_nodes s)" "q_min_len s = q_length s" "0 < q_min_len s"
    "q_min_len s < q_max_len s" "last (q_nodes s) = None"
  shows "\<exists>s'. push_pop k x s = Some s' \<and> q_n_element s' = q_n_element s - of_nat k"
  using assms
proof (induction k arbitrary: s)
  case (Suc k)
  from Suc.prems have ne: "q_nodes s \<noteq> []" by auto
  let ?s1 = "s\<lparr>q_nodes := butlast (q_nodes s) @ [Some x]\<rparr>"
  have p: "pipe_push (Some x) s = Some ?s1" using Suc.prems ne by (simp add: pipe_push_def)
  obtain d ds where n: "butlast (q_nodes s) @ [Some x] = d # ds"
    by (cases "butlast (q_nodes s) @ [Some x]") auto
  have len: "length (d # ds) = length (q_nodes s)" using n ne by (metis length_append_singleton length_butlast Suc_pred' length_greater_0_conv)
  let ?s2 = "?s1\<lparr>q_nodes := ds @ [None], q_n_element := q_n_element s - 1\<rparr>"
  have q: "pipe_pop ?s1 = Some (d, ?s2)"
    using pop_at_minimum[of ?s1 d ds] Suc.prems n len by simp
  have "\<exists>s'. push_pop k x ?s2 = Some s' \<and> q_n_element s' = q_n_element ?s2 - of_nat k"
    by (rule Suc.IH) (use Suc.prems len in auto)
  with p q show ?case by (auto simp: algebra_simps)
qed simp

subsection \<open>Properties\<close>

text \<open>
  A pipeline delivers its requests in order, neither losing nor inventing one: pushing on
  a pipeline that is not full appends, popping removes the oldest request or returns nothing,
  and changing the minimum latency within the capacity keeps the requests.
\<close>

theorem pipe_in_order:
  assumes "pipe_inv s"
  shows "(pipe_full s \<or> (\<exists>s'. pipe_push (Some x) s = Some s' \<and> pipe_inv s' \<and> pipe_items s' = pipe_items s @ [x])) \<and>
    (\<exists>d s'. pipe_pop s = Some (d, s') \<and> pipe_inv s' \<and>
       pipe_items s = (case d of None \<Rightarrow> [] | Some y \<Rightarrow> [y]) @ pipe_items s') \<and>
    (n \<le> q_max_len s \<longrightarrow> q_nodes s \<noteq> [] \<or> q_min_len s \<le> n \<longrightarrow>
       (\<exists>s'. set_min_length n s = Some s' \<and> pipe_inv s' \<and> pipe_items s' = pipe_items s \<and> q_min_len s' = n))"
proof -
  have "\<exists>s'. set_min_length n s = Some s' \<and> pipe_inv s' \<and> pipe_items s' = pipe_items s \<and> q_min_len s' = n"
    if c: "n \<le> q_max_len s" "q_nodes s \<noteq> [] \<or> q_min_len s \<le> n"
  proof -
    consider "n = q_min_len s" | "q_min_len s < n" "q_length s < n" | "q_min_len s < n" "n \<le> q_length s"
      | "n < q_min_len s" by linarith
    then show ?thesis
    proof cases
      case 2
      with assms c pad_loop_nodes[of "s\<lparr>q_min_len := n\<rparr>" "n - q_length s"] show ?thesis
        by (simp add: set_min_length_def pipe_inv_def pipe_items_def)
    next
      case 4
      with c assms shrink_loop_items[of "s\<lparr>q_min_len := n\<rparr>"] show ?thesis
        by (simp add: set_min_length_def pipe_inv_def pipe_items_def)
    qed (use assms c in \<open>simp_all add: set_min_length_def pipe_inv_def pipe_items_def\<close>)
  qed
  then show ?thesis using pipe_push_step[OF assms, of x] pipe_pop_step[OF assms] by blast
qed

text \<open>
  The minimum length is a latency: a request pushed on a fresh pipeline of minimum length
  \<open>L\<close> comes out at exactly the \<open>L\<close>-th pop; the pops before it return nothing.
\<close>

theorem pipe_latency:
  fixes x :: 'a
  assumes "0 < L" and "L < M"
  shows "\<exists>s s1 s2. new_pipe L M = Some s \<and> pipe_push (Some x) s = Some s1 \<and>
    drain pipe_pop L s1 = Some (replicate (L - 1) None @ [Some x], s2)"
proof -
  obtain k where k: "L = Suc k" using assms(1) by (cases L) auto
  let ?s = "\<lparr>q_min_len = L, q_max_len = M, q_length = L, q_n_element = of_nat L, q_nodes = replicate L (None :: 'a option)\<rparr>"
  let ?s1 = "?s\<lparr>q_nodes := replicate k None @ [Some x]\<rparr>"
  have "new_pipe L M = Some ?s" using assms by (simp add: new_pipe_eq)
  moreover have "butlast (replicate (Suc k) None) = replicate k None"
    by (metis butlast_snoc replicate_append_same replicate_Suc)
  then have "pipe_push (Some x) ?s = Some ?s1" using assms
    by (simp add: pipe_push_def k del: butlast.simps replicate_Suc)
  moreover have "\<exists>s2. drain pipe_pop (length (replicate k None @ [Some x])) ?s1 = Some (replicate k None @ [Some x], s2)"
    by (rule drain_at_minimum[where ys = "[]"]) (use assms in \<open>simp_all add: k\<close>)
  ultimately show ?thesis by (simp add: k)
qed

text \<open>
  \<open>get_n_element\<close> does not count elements once there is a minimum latency: the
  constructor's empty nodes are counted, a push into an empty tail node is not, and every pop
  is; after \<open>k\<close> push/pop pairs on a fresh pipeline the counter is \<open>L - k\<close> modulo \<open>2^32\<close>.
\<close>

theorem pipe_n_element_drifts:
  fixes x :: 'a
  assumes "0 < L" and "L < M"
  shows "\<exists>s s'. new_pipe L M = Some s \<and> push_pop k x s = Some s' \<and> q_n_element s' = of_nat L - of_nat k"
proof -
  let ?s = "\<lparr>q_min_len = L, q_max_len = M, q_length = L, q_n_element = of_nat L, q_nodes = replicate L (None :: 'a option)\<rparr>"
  have "new_pipe L M = Some ?s" using assms by (simp add: new_pipe_eq)
  moreover have "\<exists>s'. push_pop k x ?s = Some s' \<and> q_n_element s' = q_n_element ?s - of_nat k"
    using push_pop_drift[of ?s k x] assms by simp
  ultimately show ?thesis by simp
qed

text \<open>
  One \<open>cycle\<close> of an L2 bank whose DRAM queue has room moves the oldest miss, and only
  that, from the miss queue to the end of the DRAM queue, without failing an assertion.
\<close>

theorem l2_cycle_sends:
  assumes "c_miss_queue s = p # ps" and "objs s p = Some mf" and "pipe_inv q" and "mf_flit_size mf \<noteq> 0"
    and "\<not> pipe_full q"
  shows "\<exists>q' s'. cache_cycle L2interface q s = Some (q', s') \<and> c_miss_queue s' = ps \<and>
    pipe_items q' = pipe_items q @ [p] \<and> pipe_inv q' \<and> c_tags s' = c_tags s \<and> c_mshrs s' = c_mshrs s \<and>
    c_extra s' = c_extra s"
  by (rule l2_port.cycle_sends[OF assms(1-4)]) (use assms(5) in \<open>simp add: L2interface_def\<close>)

definition sample_pipe :: "nat pipe" where
  "sample_pipe = the (new_pipe 2 4)"

theorem pipe_in_order_witness:
  "(pipe_full sample_pipe \<or> (\<exists>s'. pipe_push (Some 5) sample_pipe = Some s' \<and>
      pipe_inv s' \<and> pipe_items s' = pipe_items sample_pipe @ [5])) \<and>
    (\<exists>d s'. pipe_pop sample_pipe = Some (d, s') \<and> pipe_inv s' \<and>
       pipe_items sample_pipe = (case d of None \<Rightarrow> [] | Some y \<Rightarrow> [y]) @ pipe_items s') \<and>
    (\<exists>s'. set_min_length 3 sample_pipe = Some s' \<and> pipe_inv s' \<and>
       pipe_items s' = pipe_items sample_pipe \<and> q_min_len s' = 3)"
proof -
  have "pipe_inv sample_pipe" "3 \<le> q_max_len sample_pipe" "q_min_len sample_pipe \<le> 3"
    by (simp_all add: sample_pipe_def new_pipe_eq pipe_inv_def)
  with pipe_in_order[of sample_pipe 5 3] show ?thesis by blast
qed

theorem pipe_latency_witness:
  "\<exists>s s1 s2. new_pipe 3 4 = Some s \<and> pipe_push (Some (7::nat)) s = Some s1 \<and>
    drain pipe_pop 3 s1 = Some (replicate (3 - 1) None @ [Some 7], s2)"
  by (rule pipe_latency) simp_all

theorem pipe_n_element_drifts_witness:
  "\<exists>s s'. new_pipe 3 4 = Some s \<and> push_pop 4 (7::nat) s = Some s' \<and> q_n_element s' = of_nat 3 - of_nat 4"
  by (rule pipe_n_element_drifts) simp_all

theorem l2_cycle_sends_witness:
  "\<exists>q' s'. cache_cycle L2interface (the (new_pipe 0 4)) sample_missed = Some (q', s') \<and> c_miss_queue s' = [] \<and>
    pipe_items q' = pipe_items (the (new_pipe 0 4)) @ [1] \<and> pipe_inv q' \<and>
    c_tags s' = c_tags sample_missed \<and> c_mshrs s' = c_mshrs sample_missed \<and>
    c_extra s' = c_extra sample_missed"
proof (rule l2_cycle_sends)
  show "objs sample_missed 1 = Some (the (objs sample_missed 1))" by (rule is_some_the) code_simp
  show "c_miss_queue sample_missed = [1]" by code_simp
  show "mf_flit_size (the (objs sample_missed 1)) \<noteq> 0" by code_simp
qed (simp_all add: new_pipe_eq pipe_inv_def pipe_full_def)

end
