(* ===== verification/FrFcfs.thy ===== *)
theory FrFcfs
  imports Prelude "HOL-Library.AList"
begin

text \<open>
  \<open>frfcfs_scheduler\<close> (\<open>src/gpgpu-sim/dram_sched.h\<close>, \<open>dram_sched.cc\<close>): the first-ready
  first-come-first-served DRAM scheduler.  A bank's queue is a list of nodes, newest first;
  a node is a pair of its identity (the \<open>std::list\<close> iterator) and the request.  A bin holds
  the iterators of one row, newest first, and \<open>m_last_row\<close>, a pointer to the list stored in
  a bin, is the key of that bin; following it after the bin was erased would be \<open>None\<close>.
  The per-bank statistics the scheduler updates are fields of the bank.
\<close>

record dram_req =
  dr_id :: nat
  dr_bk :: nat
  dr_row :: u32
  dr_cpu :: bool
  dr_gpu :: bool

record frf_bank =
  fb_queue :: "(nat \<times> dram_req) list"
  fb_bins :: "(u32 \<times> nat list) list"
  fb_last_row :: "u32 option"
  fb_curr_row_service_time :: u32
  fb_row_service_timestamp :: u32
  fb_concurrent_row_access :: u32
  fb_max_conc_access2samerow :: u32
  fb_max_servicetime2samerow :: u32
  fb_num_activates :: u32
  fb_row_access :: u32

record frfcfs =
  fr_num_pending :: nat
  fr_banks :: "frf_bank list"
  fr_next :: nat
  fr_num_cpu_req :: u32
  fr_num_gpu_req :: u32

definition new_bank :: frf_bank where
  "new_bank = \<lparr>fb_queue = [], fb_bins = [], fb_last_row = None, fb_curr_row_service_time = 0,
     fb_row_service_timestamp = 0, fb_concurrent_row_access = 0, fb_max_conc_access2samerow = 0,
     fb_max_servicetime2samerow = 0, fb_num_activates = 0, fb_row_access = 0\<rparr>"

definition new_frfcfs :: "nat \<Rightarrow> frfcfs" where
  "new_frfcfs nbk = \<lparr>fr_num_pending = 0, fr_banks = replicate nbk new_bank, fr_next = 0,
     fr_num_cpu_req = 0, fr_num_gpu_req = 0\<rparr>"

definition bin_at :: "u32 \<Rightarrow> frf_bank \<Rightarrow> nat list" where
  "bin_at r b = (case map_of (fb_bins b) r of Some l \<Rightarrow> l | None \<Rightarrow> [])"

definition bank_add :: "nat \<Rightarrow> dram_req \<Rightarrow> frf_bank \<Rightarrow> frf_bank" where
  "bank_add n req b =
     b\<lparr>fb_queue := (n, req) # fb_queue b,
       fb_bins := AList.update (dr_row req) (n # bin_at (dr_row req) b) (fb_bins b)\<rparr>"

definition add_req :: "dram_req \<Rightarrow> frfcfs \<Rightarrow> frfcfs option" where
  "add_req req s = do {
     ensure (dr_bk req < length (fr_banks s));
     Some (s\<lparr>fr_num_pending := fr_num_pending s + 1,
             fr_banks := (fr_banks s)[dr_bk req := bank_add (fr_next s) req (fr_banks s ! dr_bk req)],
             fr_next := fr_next s + 1,
             fr_num_cpu_req := (if dr_cpu req then fr_num_cpu_req s + 1 else fr_num_cpu_req s),
             fr_num_gpu_req := (if dr_gpu req then fr_num_gpu_req s + 1 else fr_num_gpu_req s)\<rparr>)
   }"

definition data_collection :: "u64 \<Rightarrow> frf_bank \<Rightarrow> frf_bank" where
  "data_collection cycle b =
     (let st = (if ucast (fb_row_service_timestamp b) < cycle
                then ucast (cycle - ucast (fb_row_service_timestamp b))
                else fb_curr_row_service_time b);
          ms = (if ucast (fb_row_service_timestamp b) < cycle \<and> fb_max_servicetime2samerow b < st
                then st else fb_max_servicetime2samerow b);
          mc = (if fb_max_conc_access2samerow b < fb_concurrent_row_access b
                then fb_concurrent_row_access b else fb_max_conc_access2samerow b)
      in b\<lparr>fb_max_servicetime2samerow := ms, fb_curr_row_service_time := 0,
           fb_row_service_timestamp := ucast cycle, fb_max_conc_access2samerow := mc,
           fb_concurrent_row_access := 0, fb_num_activates := fb_num_activates b + 1\<rparr>)"

text \<open>The row the bank goes on with; \<open>None\<close> of the outer option is the failed assertion.\<close>

definition open_row :: "u64 \<Rightarrow> u32 \<Rightarrow> frf_bank \<Rightarrow> frf_bank option" where
  "open_row cycle curr_row b =
     (case map_of (fb_bins b) curr_row of
        None \<Rightarrow>
          (let req = snd (last (fb_queue b)) in
           case map_of (fb_bins b) (dr_row req) of
             None \<Rightarrow> None
           | Some _ \<Rightarrow> Some (data_collection cycle (b\<lparr>fb_last_row := Some (dr_row req)\<rparr>)))
      | Some _ \<Rightarrow> Some (b\<lparr>fb_last_row := Some curr_row\<rparr>))"

definition bank_take :: "frf_bank \<Rightarrow> (dram_req \<times> frf_bank) option" where
  "bank_take b = do {
     r \<leftarrow> fb_last_row b;
     l \<leftarrow> map_of (fb_bins b) r;
     ensure (l \<noteq> []);
     req \<leftarrow> map_of (fb_queue b) (last l);
     let b1 = b\<lparr>fb_concurrent_row_access := fb_concurrent_row_access b + 1,
                fb_row_access := fb_row_access b + 1,
                fb_bins := AList.update r (butlast l) (fb_bins b),
                fb_queue := AList.delete (last l) (fb_queue b)\<rparr>;
     Some (req, if butlast l = []
                then b1\<lparr>fb_bins := AList.delete (dr_row req) (fb_bins b1), fb_last_row := None\<rparr>
                else b1)
   }"

definition bank_schedule :: "u64 \<Rightarrow> u32 \<Rightarrow> frf_bank \<Rightarrow> (dram_req option \<times> frf_bank) option" where
  "bank_schedule cycle curr_row b =
     (if fb_last_row b = None \<and> fb_queue b = [] then Some (None, b)
      else do {
        b1 \<leftarrow> (if fb_last_row b = None then open_row cycle curr_row b else Some b);
        (req, b2) \<leftarrow> bank_take b1;
        Some (Some req, b2)
      })"

definition schedule :: "u64 \<Rightarrow> nat \<Rightarrow> u32 \<Rightarrow> frfcfs \<Rightarrow> (dram_req option \<times> frfcfs) option" where
  "schedule cycle bank curr_row s = do {
     ensure (bank < length (fr_banks s));
     (r, b) \<leftarrow> bank_schedule cycle curr_row (fr_banks s ! bank);
     (case r of
        None \<Rightarrow> Some (None, s)
      | Some req \<Rightarrow> do {
          ensure (fr_num_pending s \<noteq> 0);
          Some (Some req, s\<lparr>fr_num_pending := fr_num_pending s - 1,
                            fr_banks := (fr_banks s)[bank := b]\<rparr>)
        })
   }"

subsection \<open>The bank as a plain queue\<close>

text \<open>The nodes of one row, newest first.\<close>

definition row_nodes :: "u32 \<Rightarrow> (nat \<times> dram_req) list \<Rightarrow> (nat \<times> dram_req) list" where
  "row_nodes r q = filter (\<lambda>(i, req). dr_row req = r) q"

definition bank_inv :: "nat \<Rightarrow> frf_bank \<Rightarrow> bool" where
  [inv_defs]: "bank_inv n b \<longleftrightarrow>
     distinct (map fst (fb_queue b)) \<and> (\<forall>i \<in> fst ` set (fb_queue b). i < n) \<and>
     (\<forall>r. map_of (fb_bins b) r =
        (if row_nodes r (fb_queue b) = [] then None else Some (map fst (row_nodes r (fb_queue b))))) \<and>
     (case fb_last_row b of None \<Rightarrow> True | Some r \<Rightarrow> row_nodes r (fb_queue b) \<noteq> [])"

text \<open>
  The specification: go on with the open row; else take the row of the row buffer if some
  request wants it; else the row of the oldest request; then serve the oldest of that row.
\<close>

definition spec_row :: "u32 option \<Rightarrow> u32 \<Rightarrow> (nat \<times> dram_req) list \<Rightarrow> u32" where
  "spec_row lr crow q =
     (case lr of Some r \<Rightarrow> r
      | None \<Rightarrow> if row_nodes crow q \<noteq> [] then crow else dr_row (snd (last q)))"

definition spec_pick :: "u32 option \<Rightarrow> u32 \<Rightarrow> (nat \<times> dram_req) list \<Rightarrow> nat \<times> dram_req" where
  "spec_pick lr crow q = last (row_nodes (spec_row lr crow q) q)"

lemma row_nodes_remove:
  assumes "distinct (map fst q)"
  shows "row_nodes r (AList.delete i q) = filter (\<lambda>(j, _). j \<noteq> i) (row_nodes r q)"
  by (auto simp: row_nodes_def AList.delete_eq case_prod_beta intro: filter_cong)

lemma filter_not_last:
  "distinct xs \<Longrightarrow> xs \<noteq> [] \<Longrightarrow> filter (\<lambda>x. x \<noteq> last xs) xs = butlast xs"
proof -
  assume d: "distinct xs" and n: "xs \<noteq> []"
  then have e: "xs = butlast xs @ [last xs]" by simp
  with d have "last xs \<notin> set (butlast xs)" by (metis distinct_append not_distinct_conv_prefix distinct_butlast append_butlast_last_id in_set_conv_decomp)
  then have "filter (\<lambda>x. x \<noteq> last xs) (butlast xs) = butlast xs" by (intro filter_True) auto
  then show "filter (\<lambda>x. x \<noteq> last xs) xs = butlast xs"
    by (subst (2) e) (simp del: append_butlast_last_id)
qed

lemma filter_keys_last:
  assumes "distinct (map fst ns)" "ns \<noteq> []"
  shows "filter (\<lambda>(j, _). j \<noteq> fst (last ns)) ns = butlast ns"
proof -
  have "filter (\<lambda>(j, _). j \<noteq> fst (last ns)) ns = filter (\<lambda>x. x \<noteq> last ns) ns"
  proof (rule filter_cong)
    fix x assume x: "x \<in> set ns"
    have "fst x = fst (last ns) \<longleftrightarrow> x = last ns"
      using inj_on_eq_iff[OF distinct_map[THEN iffD1, OF assms(1), THEN conjunct2] x last_in_set[OF assms(2)]] .
    then show "(case x of (j, _) \<Rightarrow> j \<noteq> fst (last ns)) = (x \<noteq> last ns)" by (simp add: case_prod_unfold)
  qed simp
  also have "\<dots> = butlast ns"
    using assms filter_not_last[of ns] by (simp add: distinct_map)
  finally show ?thesis .
qed

lemma row_nodes_distinct:
  "distinct (map fst q) \<Longrightarrow> distinct (map fst (row_nodes r q))"
  by (simp add: row_nodes_def distinct_map_filter)

lemma row_nodes_set: "set (row_nodes r q) = {x \<in> set q. dr_row (snd x) = r}"
  by (auto simp: row_nodes_def)

lemma new_bank_inv: "bank_inv n new_bank"
  by (simp add: bank_inv_def new_bank_def row_nodes_def)

lemma bank_inv_mono: "bank_inv n b \<Longrightarrow> n \<le> m \<Longrightarrow> bank_inv m b"
  unfolding bank_inv_def by fastforce

lemma bank_add_inv:
  assumes "bank_inv n b"
  shows "bank_inv (Suc n) (bank_add n req b)"
proof -
  have nn: "n \<notin> fst ` set (fb_queue b)" using assms unfolding bank_inv_def by blast
  have bins: "bin_at r b = map fst (row_nodes r (fb_queue b))" for r
    using assms by (simp add: bank_inv_def bin_at_def)
  have "map_of (fb_bins (bank_add n req b)) r =
      (if row_nodes r ((n, req) # fb_queue b) = [] then None
       else Some (map fst (row_nodes r ((n, req) # fb_queue b))))" for r
    using assms bins[of r] by (auto simp: bank_add_def AList.update_conv row_nodes_def bank_inv_def)
  moreover have "distinct (map fst ((n, req) # fb_queue b))" "\<forall>i \<in> fst ` set ((n, req) # fb_queue b). i < Suc n"
    using nn assms by (auto simp: bank_inv_def)
  moreover have "case fb_last_row b of None \<Rightarrow> True | Some r \<Rightarrow> row_nodes r ((n, req) # fb_queue b) \<noteq> []"
    using assms by (auto simp: bank_inv_def row_nodes_def split: option.splits)
  ultimately show ?thesis by (cases "fb_last_row b") (simp_all add: bank_inv_def bank_add_def)
qed

lemma bank_take_spec:
  assumes inv: "bank_inv n b" and lr: "fb_last_row b = Some r"
  shows "\<exists>b'. bank_take b = Some (snd (last (row_nodes r (fb_queue b))), b') \<and> bank_inv n b' \<and>
    fb_queue b' = AList.delete (fst (last (row_nodes r (fb_queue b)))) (fb_queue b) \<and>
    fb_last_row b' = (if butlast (row_nodes r (fb_queue b)) = [] then None else Some r)"
proof -
  let ?q = "fb_queue b" and ?ns = "row_nodes r (fb_queue b)"
  from inv lr have ne: "?ns \<noteq> []" and d: "distinct (map fst ?q)"
    and bins: "\<And>r. map_of (fb_bins b) r = (if row_nodes r ?q = [] then None else Some (map fst (row_nodes r ?q)))"
    and lt: "\<forall>i \<in> fst ` set ?q. i < n"
    by (auto simp: bank_inv_def)
  let ?x = "last ?ns"
  have xin: "?x \<in> set ?q" "dr_row (snd ?x) = r" using last_in_set[OF ne] by (auto simp: row_nodes_set)
  then have look: "map_of ?q (fst ?x) = Some (snd ?x)" using d by (metis map_of_is_SomeI prod.collapse)
  have rows: "row_nodes r' (AList.delete (fst ?x) ?q) = (if r' = r then butlast ?ns else row_nodes r' ?q)" for r'
  proof (cases "r' = r")
    case True
    then show ?thesis using row_nodes_remove[OF d] filter_keys_last[OF row_nodes_distinct[OF d] ne] by simp
  next
    case False
    have "\<forall>y \<in> set (row_nodes r' ?q). fst y \<noteq> fst ?x"
    proof
      fix y assume y: "y \<in> set (row_nodes r' ?q)"
      then have "y \<in> set ?q" "dr_row (snd y) = r'" by (simp_all add: row_nodes_set)
      then have "y \<noteq> ?x" using False xin(2) by auto
      then show "fst y \<noteq> fst ?x"
        using inj_on_eq_iff[OF distinct_map[THEN iffD1, OF d, THEN conjunct2] \<open>y \<in> set ?q\<close> xin(1)] by simp
    qed
    then show ?thesis using False by (simp add: row_nodes_remove[OF d] case_prod_beta filter_id_conv)
  qed
  define b1 where "b1 = b\<lparr>fb_concurrent_row_access := fb_concurrent_row_access b + 1,
                fb_row_access := fb_row_access b + 1,
                fb_bins := AList.update r (butlast (map fst ?ns)) (fb_bins b),
                fb_queue := AList.delete (fst ?x) ?q\<rparr>"
  define b' where "b' = (if butlast ?ns = []
                then b1\<lparr>fb_bins := AList.delete r (fb_bins b1), fb_last_row := None\<rparr> else b1)"
  have q': "fb_queue b' = AList.delete (fst ?x) ?q" by (simp add: b'_def b1_def)
  have lr': "fb_last_row b' = (if butlast ?ns = [] then None else Some r)"
    by (simp add: b'_def b1_def lr)
  have t: "bank_take b = Some (snd ?x, b')"
    using lr ne look xin(2) bins[of r] by (simp add: bank_take_def last_map Let_def b'_def b1_def map_butlast[symmetric])
  have "map_of (fb_bins b') r' = (if row_nodes r' (fb_queue b') = [] then None
       else Some (map fst (row_nodes r' (fb_queue b'))))" for r'
    using bins[of r'] unfolding q' rows
    by (auto simp: b'_def b1_def AList.update_conv AList.delete_conv map_butlast)
  moreover have "distinct (map fst (fb_queue b'))" using d by (simp add: q' AList.distinct_delete)
  moreover have "\<forall>i \<in> fst ` set (fb_queue b'). i < n"
    using lt by (auto simp: q' AList.delete_eq)
  moreover have "case fb_last_row b' of None \<Rightarrow> True | Some r \<Rightarrow> row_nodes r (fb_queue b') \<noteq> []"
    unfolding lr' q' using rows by auto
  ultimately have "bank_inv n b'" by (simp add: bank_inv_def)
  with t q' lr' show ?thesis by blast
qed

lemma data_collection_fields [simp]:
  "fb_queue (data_collection cy b) = fb_queue b" "fb_bins (data_collection cy b) = fb_bins b"
  "fb_last_row (data_collection cy b) = fb_last_row b"
  by (simp_all add: data_collection_def Let_def)

lemma open_row_spec:
  assumes "bank_inv n b" "fb_last_row b = None" "fb_queue b \<noteq> []"
  shows "\<exists>b'. open_row cy crow b = Some b' \<and> bank_inv n b' \<and> fb_queue b' = fb_queue b \<and>
    fb_last_row b' = Some (spec_row None crow (fb_queue b))"
proof -
  let ?q = "fb_queue b"
  have bins: "\<And>r. map_of (fb_bins b) r = (if row_nodes r ?q = [] then None else Some (map fst (row_nodes r ?q)))"
    using assms(1) by (simp add: bank_inv_def)
  have "last ?q \<in> set (row_nodes (dr_row (snd (last ?q))) ?q)"
    using assms(3) by (simp add: row_nodes_set)
  then have "row_nodes (dr_row (snd (last ?q))) ?q \<noteq> []" by auto
  then show ?thesis using assms(1) bins
    by (cases "row_nodes crow ?q = []")
      (simp_all add: open_row_def spec_row_def Let_def bank_inv_def)
qed

lemma bank_schedule_spec:
  assumes "bank_inv n b"
  shows "\<exists>b'. bank_schedule cy crow b =
      Some (if fb_queue b = [] then None else Some (snd (spec_pick (fb_last_row b) crow (fb_queue b))), b') \<and>
    bank_inv n b' \<and>
    fb_queue b' = (if fb_queue b = [] then [] else AList.delete (fst (spec_pick (fb_last_row b) crow (fb_queue b))) (fb_queue b))"
proof (cases "fb_queue b = []")
  case True
  with assms have "fb_last_row b = None" by (auto simp: bank_inv_def row_nodes_def split: option.splits)
  with True assms show ?thesis by (simp add: bank_schedule_def)
next
  case False
  show ?thesis
  proof (cases "fb_last_row b")
    case None
    from open_row_spec[OF assms None False] obtain b1 where b1: "open_row cy crow b = Some b1" "bank_inv n b1"
      "fb_queue b1 = fb_queue b" "fb_last_row b1 = Some (spec_row None crow (fb_queue b))" by blast
    from bank_take_spec[OF b1(2,4)] b1(1,3) None False show ?thesis
      by (auto simp: bank_schedule_def spec_pick_def)
  next
    case (Some r)
    from bank_take_spec[OF assms Some] Some False show ?thesis
      by (auto simp: bank_schedule_def spec_pick_def spec_row_def)
  qed
qed

subsection \<open>The scheduler\<close>

definition frfcfs_inv :: "frfcfs \<Rightarrow> bool" where
  [inv_defs]: "frfcfs_inv s \<longleftrightarrow> (\<forall>b \<in> set (fr_banks s). bank_inv (fr_next s) b) \<and>
     fr_num_pending s = sum_list (map (\<lambda>b. length (fb_queue b)) (fr_banks s))"

definition bank_queue :: "nat \<Rightarrow> frfcfs \<Rightarrow> (nat \<times> dram_req) list" where
  "bank_queue k s = fb_queue (fr_banks s ! k)"

lemma sum_list_length_update:
  assumes "k < length bs"
  shows "sum_list (map f (bs[k := b])) + f (bs ! k) = sum_list (map f bs) + (f b :: nat)"
  using assms by (induction bs arbitrary: k) (auto simp: nth_Cons' split: nat.split)

lemma new_frfcfs_inv: "frfcfs_inv (new_frfcfs n)"
  by (simp add: frfcfs_inv_def new_frfcfs_def new_bank_inv) (simp add: new_bank_def sum_list_replicate)

lemma add_req_keeps:
  assumes "frfcfs_inv s" "dr_bk req < length (fr_banks s)"
  shows "\<exists>s'. add_req req s = Some s' \<and> frfcfs_inv s' \<and> fr_num_pending s' = fr_num_pending s + 1 \<and>
    bank_queue (dr_bk req) s' = (fr_next s, req) # bank_queue (dr_bk req) s"
proof -
  let ?k = "dr_bk req" and ?n = "fr_next s"
  let ?b = "bank_add ?n req (fr_banks s ! ?k)"
  have "bank_inv ?n (fr_banks s ! ?k)" using assms by (simp add: frfcfs_inv_def)
  then have b: "bank_inv (Suc ?n) ?b" by (rule bank_add_inv)
  have "\<forall>b \<in> set ((fr_banks s)[?k := ?b]). bank_inv (Suc ?n) b"
  proof
    fix x assume "x \<in> set ((fr_banks s)[?k := ?b])"
    then have "x = ?b \<or> x \<in> set (fr_banks s)" using set_update_subset by fastforce
    then show "bank_inv (Suc ?n) x" using b assms(1) bank_inv_mono[of ?n x "Suc ?n"]
      by (auto simp: frfcfs_inv_def)
  qed
  moreover have "sum_list (map (\<lambda>b. length (fb_queue b)) ((fr_banks s)[?k := ?b])) = fr_num_pending s + 1"
    using sum_list_length_update[OF assms(2), of "\<lambda>b. length (fb_queue b)" ?b] assms(1)
    by (simp add: frfcfs_inv_def bank_add_def)
  ultimately show ?thesis using assms(2)
    by (simp add: add_req_def frfcfs_inv_def bank_queue_def) (simp add: bank_add_def)
qed

subsection \<open>Properties\<close>

text \<open>
  C13: \<open>schedule\<close> refines the first-ready first-come-first-served specification on plain
  queues: on a reachable scheduler it never fails an assertion or follows a stale bin pointer,
  it answers nothing exactly when the bank has no request, and otherwise takes out the oldest
  request of the row being served, of the row in the row buffer, or of the row of the oldest
  request, in that order of preference.
\<close>

theorem schedule_refines_spec:
  assumes "frfcfs_inv s" and "k < length (fr_banks s)"
  shows "\<exists>s'. frfcfs_inv s' \<and>
    (if bank_queue k s = [] then schedule cy k crow s = Some (None, s') \<and> s' = s
     else schedule cy k crow s =
         Some (Some (snd (spec_pick (fb_last_row (fr_banks s ! k)) crow (bank_queue k s))), s') \<and>
       bank_queue k s' =
         AList.delete (fst (spec_pick (fb_last_row (fr_banks s ! k)) crow (bank_queue k s))) (bank_queue k s) \<and>
       fr_num_pending s' = fr_num_pending s - 1)"
proof -
  let ?b = "fr_banks s ! k"
  have bi: "bank_inv (fr_next s) ?b" using assms by (simp add: frfcfs_inv_def)
  from bank_schedule_spec[OF bi, of cy crow] obtain b' where
    b': "bank_schedule cy crow ?b = Some (if fb_queue ?b = [] then None
        else Some (snd (spec_pick (fb_last_row ?b) crow (fb_queue ?b))), b')" "bank_inv (fr_next s) b'"
    "fb_queue b' = (if fb_queue ?b = [] then []
        else AList.delete (fst (spec_pick (fb_last_row ?b) crow (fb_queue ?b))) (fb_queue ?b))" by blast
  show ?thesis
  proof (cases "bank_queue k s = []")
    case True
    with b' assms show ?thesis by (simp add: schedule_def bank_queue_def)
  next
    case False
    let ?s = "s\<lparr>fr_num_pending := fr_num_pending s - 1, fr_banks := (fr_banks s)[k := b']\<rparr>"
    have ne: "fb_queue ?b \<noteq> []" using False by (simp add: bank_queue_def)
    have one: "length (fb_queue b') + 1 = length (fb_queue ?b)"
    proof -
      let ?x = "spec_pick (fb_last_row ?b) crow (fb_queue ?b)"
      have d: "distinct (map fst (fb_queue ?b))" using bi by (simp add: bank_inv_def)
      have "row_nodes (spec_row (fb_last_row ?b) crow (fb_queue ?b)) (fb_queue ?b) \<noteq> []"
      proof (cases "fb_last_row ?b")
        case None
        have "last (fb_queue ?b) \<in> set (row_nodes (dr_row (snd (last (fb_queue ?b)))) (fb_queue ?b))"
          using ne by (simp add: row_nodes_set)
        then show ?thesis by (auto simp: spec_row_def None)
      qed (use bi in \<open>simp add: spec_row_def bank_inv_def\<close>)
      then have "?x \<in> set (fb_queue ?b)"
        unfolding spec_pick_def using last_in_set row_nodes_set by fastforce
      then have i: "fst ?x \<in> set (map fst (fb_queue ?b))" by simp
      have "length (filter (\<lambda>(j, _). j \<noteq> fst ?x) (fb_queue ?b)) = length (filter (\<lambda>j. j \<noteq> fst ?x) (map fst (fb_queue ?b)))"
        by (simp add: filter_map comp_def) (simp add: case_prod_unfold)
      also have "\<dots> = length (remove1 (fst ?x) (map fst (fb_queue ?b)))"
        using distinct_remove1_removeAll[OF d, of "fst ?x"] by (simp add: removeAll_filter_not_eq eq_commute)
      also have "\<dots> + 1 = length (fb_queue ?b)" using i length_remove1[of "fst ?x" "map fst (fb_queue ?b)"] ne
        by (cases "fb_queue ?b") auto
      finally show ?thesis using b'(3) ne by (simp add: AList.delete_eq eq_commute[of "fst (spec_pick (fb_last_row (fr_banks s ! k)) crow (fb_queue (fr_banks s ! k)))"])
    qed
    have sum: "sum_list (map (\<lambda>b. length (fb_queue b)) ((fr_banks s)[k := b'])) + 1 = fr_num_pending s"
      using sum_list_length_update[OF assms(2), of "\<lambda>b. length (fb_queue b)" b'] one assms(1)
      by (simp add: frfcfs_inv_def)
    have "frfcfs_inv ?s" unfolding frfcfs_inv_def
    proof (intro conjI ballI)
      fix x assume "x \<in> set (fr_banks ?s)"
      then have "x = b' \<or> x \<in> set (fr_banks s)" using set_update_subset by fastforce
      then show "bank_inv (fr_next ?s) x" using b'(2) assms(1) by (auto simp: frfcfs_inv_def)
    qed (use sum in simp)
    moreover have "schedule cy k crow s = Some (Some (snd (spec_pick (fb_last_row ?b) crow (fb_queue ?b))), ?s)"
      using b'(1) ne assms(2) sum by (simp add: schedule_def)
    ultimately show ?thesis using False b'(3) ne assms(2) by (auto simp: bank_queue_def)
  qed
qed

text \<open>
  \<open>add_req\<close> accepts every request of an existing bank, makes it the newest of its bank and
  keeps bins, row pointers and the pending count consistent.
\<close>

theorem add_req_consistent:
  assumes "frfcfs_inv s" and "dr_bk req < length (fr_banks s)"
  shows "\<exists>s'. add_req req s = Some s' \<and> frfcfs_inv s' \<and> fr_num_pending s' = fr_num_pending s + 1 \<and>
    bank_queue (dr_bk req) s' = (fr_next s, req) # bank_queue (dr_bk req) s"
  by (rule add_req_keeps[OF assms])

subsection \<open>Concrete instances\<close>

definition sample_req :: "nat \<Rightarrow> u32 \<Rightarrow> dram_req" where
  "sample_req i r = \<lparr>dr_id = i, dr_bk = 0, dr_row = r, dr_cpu = False, dr_gpu = True\<rparr>"

theorem add_req_consistent_witness:
  "\<exists>s'. add_req (sample_req 1 5) (new_frfcfs 2) = Some s' \<and> frfcfs_inv s' \<and>
    fr_num_pending s' = fr_num_pending (new_frfcfs 2) + 1 \<and>
    bank_queue (dr_bk (sample_req 1 5)) s' =
      (fr_next (new_frfcfs 2), sample_req 1 5) # bank_queue (dr_bk (sample_req 1 5)) (new_frfcfs 2)"
  by (rule add_req_consistent[OF new_frfcfs_inv]) code_simp

text \<open>Three requests; the row buffer holds row 5, so request 2 goes before the older request 1.\<close>

definition sample_sched :: frfcfs where
  "sample_sched = the (do {
     s1 \<leftarrow> add_req (sample_req 1 4) (new_frfcfs 2);
     s2 \<leftarrow> add_req (sample_req 2 5) s1;
     add_req (sample_req 3 5) s2
   })"

lemma sample_sched_inv: "frfcfs_inv sample_sched"
proof -
  from add_req_keeps[OF new_frfcfs_inv, of "sample_req 1 4" 2] obtain s1 where
    s1: "add_req (sample_req 1 4) (new_frfcfs 2) = Some s1" "frfcfs_inv s1"
    by (auto simp: sample_req_def new_frfcfs_def)
  have l1: "length (fr_banks s1) = 2" using s1(1) by (auto simp: add_req_def new_frfcfs_def split: if_splits)
  from add_req_keeps[OF s1(2), of "sample_req 2 5"] l1 obtain s2 where
    s2: "add_req (sample_req 2 5) s1 = Some s2" "frfcfs_inv s2" by (auto simp: sample_req_def)
  have l2: "length (fr_banks s2) = 2" using s2(1) l1 by (auto simp: add_req_def split: if_splits)
  from add_req_keeps[OF s2(2), of "sample_req 3 5"] l2 obtain s3 where
    s3: "add_req (sample_req 3 5) s2 = Some s3" "frfcfs_inv s3" by (auto simp: sample_req_def)
  show ?thesis using s1(1) s2(1) s3 by (simp add: sample_sched_def)
qed

theorem schedule_refines_spec_witness:
  "\<exists>s'. frfcfs_inv s' \<and> schedule 9 0 5 sample_sched = Some (Some (sample_req 2 5), s') \<and>
     fr_num_pending s' = 2"
proof -
  have v: "bank_queue 0 sample_sched \<noteq> []" "0 < length (fr_banks sample_sched)"
    "snd (spec_pick (fb_last_row (fr_banks sample_sched ! 0)) 5 (bank_queue 0 sample_sched)) = sample_req 2 5"
    "fr_num_pending sample_sched = 3" by code_simp+
  from schedule_refines_spec[OF sample_sched_inv v(2), of 9 5] v show ?thesis by auto
qed

end
