(* ===== verification/StdMap.thy ===== *)
theory StdMap
  imports Prelude
begin

text \<open>
  Two containers idioms of the source shared by several components: a \<open>std::map\<close>, kept as an
  association list in the order of its keys (the order iteration visits them), whose
  \<open>operator[]\<close> inserts a default value, and a \<open>for\<close> loop whose body can stop the simulator.
\<close>

subsection \<open>Loops that can stop\<close>

fun fold_opt :: "('a \<Rightarrow> 's \<Rightarrow> 's option) \<Rightarrow> 'a list \<Rightarrow> 's \<Rightarrow> 's option" where
  "fold_opt f [] s = Some s"
| "fold_opt f (x # xs) s = Option.bind (f x s) (fold_opt f xs)"

lemma fold_opt_append: "fold_opt f (xs @ ys) s = Option.bind (fold_opt f xs s) (fold_opt f ys)"
proof (induction xs arbitrary: s)
  case (Cons x xs)
  then show ?case by (cases "f x s") simp_all
qed simp

lemma fold_opt_inv:
  assumes "fold_opt f xs s = Some s'" "I [] s"
    "\<And>ys x zs t t'. xs = ys @ x # zs \<Longrightarrow> I ys t \<Longrightarrow> f x t = Some t' \<Longrightarrow> I (ys @ [x]) t'"
  shows "I xs s'"
  using assms
proof (induction xs arbitrary: s' rule: rev_induct)
  case (snoc x xs)
  from snoc.prems(1) obtain t where t: "fold_opt f xs s = Some t" "f x t = Some s'"
    by (cases "fold_opt f xs s") (simp_all add: fold_opt_append split: Option.bind_split_asm)
  have "I xs t" by (rule snoc.IH[OF t(1) snoc.prems(2)]) (use snoc.prems(3) in simp)
  with snoc.prems(3)[of xs x "[]"] t(2) show ?case by simp
qed simp

lemma fold_opt_total:
  assumes "I [] s"
    "\<And>ys x zs t. xs = ys @ x # zs \<Longrightarrow> I ys t \<Longrightarrow> \<exists>t'. f x t = Some t' \<and> I (ys @ [x]) t'"
  shows "\<exists>s'. fold_opt f xs s = Some s' \<and> I xs s'"
  using assms
proof (induction xs rule: rev_induct)
  case (snoc x xs)
  have "\<exists>s'. fold_opt f xs s = Some s' \<and> I xs s'"
    by (rule snoc.IH[OF snoc.prems(1)]) (use snoc.prems(2) in simp)
  then obtain t where t: "fold_opt f xs s = Some t" "I xs t" by blast
  from snoc.prems(2)[of xs x "[]" t] t show ?case by (auto simp: fold_opt_append)
qed simp

subsection \<open>Ordered maps\<close>

fun map_upd :: "'k::linorder \<Rightarrow> 'v \<Rightarrow> ('v \<Rightarrow> 'v) \<Rightarrow> ('k \<times> 'v) list \<Rightarrow> ('k \<times> 'v) list" where
  "map_upd k d f [] = [(k, f d)]"
| "map_upd k d f ((k', v) # m) =
     (if k < k' then (k, f d) # (k', v) # m
      else if k = k' then (k, f v) # m
      else (k', v) # map_upd k d f m)"

definition map_at :: "'k::linorder \<Rightarrow> 'v \<Rightarrow> ('k \<times> 'v) list \<Rightarrow> 'v" where
  "map_at k d m = (case map_of m k of None \<Rightarrow> d | Some v \<Rightarrow> v)"

abbreviation map_ok :: "('k::linorder \<times> 'v) list \<Rightarrow> bool" where
  "map_ok m \<equiv> sorted_wrt (<) (map fst m)"

lemma map_upd_keys: "set (map fst (map_upd k d f m)) = insert k (set (map fst m))"
proof (induction m)
  case (Cons p m)
  then show ?case by (cases p) (simp add: insert_commute)
qed simp

lemma map_upd_ok: "map_ok m \<Longrightarrow> map_ok (map_upd k d f m)"
proof (induction m)
  case (Cons p m)
  obtain k' v where p: "p = (k', v)" by (cases p)
  from Cons have "map_ok (map_upd k d f m)" by simp
  then show ?case using Cons.prems p map_upd_keys[of k d f m] by auto
qed simp

lemma map_ok_notin: "map_ok ((k', v) # m) \<Longrightarrow> k \<le> k' \<Longrightarrow> map_of m k = None"
  by (force simp: map_of_eq_None_iff)

lemma map_of_upd: "map_ok m \<Longrightarrow> map_of (map_upd k d f m) = (map_of m)(k \<mapsto> f (map_at k d m))"
proof (induction m)
  case (Cons p m)
  obtain k' v where p: "p = (k', v)" by (cases p)
  have ok: "map_ok m" using Cons.prems by simp
  have n: "k \<le> k' \<Longrightarrow> map_of m k = None" using Cons.prems p by (intro map_ok_notin[of k' v]) simp_all
  show ?case
  proof (cases "k < k'")
    case True
    with n p show ?thesis by (auto simp: map_at_def)
  next
    case False
    then show ?thesis using Cons.IH[OF ok] p by (auto simp: map_at_def fun_eq_iff)
  qed
qed (simp add: map_at_def)

lemma map_ok_distinct: "map_ok m \<Longrightarrow> distinct (map fst m)"
  by (simp add: strict_sorted_iff)

lemma map_ok_in: "map_ok m \<Longrightarrow> (k, v) \<in> set m \<longleftrightarrow> map_of m k = Some v"
  using map_ok_distinct[of m] by simp

lemma map_upd_in:
  assumes "map_ok m"
  shows "(k', v) \<in> set (map_upd k d f m) \<longleftrightarrow>
    (if k' = k then v = f (map_at k d m) else (k', v) \<in> set m)"
  using map_ok_in[OF map_upd_ok[OF assms], of k' v k d f] map_ok_in[OF assms, of k' v]
  by (auto simp: map_of_upd[OF assms])

lemma map_upd_at: "map_ok m \<Longrightarrow> map_at j d (map_upd k d f m) = (if j = k then f (map_at k d m) else map_at j d m)"
  by (simp add: map_at_def map_of_upd)

end
