(* ===== verification/AddrDec.thy ===== *)
theory AddrDec
  imports CacheConfig StdMap "HOL-Library.Signed_Division"
begin

text \<open>
  \<open>linear_to_raw_address_translation\<close> (\<open>src/gpgpu-sim/addrdec.cc\<close>): an address is split into the
  chip (memory partition), bank, row, column and burst by gathering the bits each mask selects, and the
  partition address is what is left of it inside its chip.  With \<open>gpgpu_dram_part\<close> the chips are divided
  between the GPU and the CPU.

  Addresses and masks are \<open>64 word\<close>, the fields of \<open>addrdec_t\<close> \<open>unsigned\<close>.  A shift by a
  negative amount and a remainder by zero, undefined in C++, are \<open>None\<close>.
\<close>

datatype addrdec_field = CHIP | BK | ROW | COL | BURST

record addrdec_t =
  tlx_chip :: u32
  tlx_bk :: u32
  tlx_row :: u32
  tlx_col :: u32
  tlx_burst :: u32

record addr_map =
  am_chip_s :: int
  am_mask :: "addrdec_field \<Rightarrow> addr"
  am_low :: "addrdec_field \<Rightarrow> nat"
  am_high :: "addrdec_field \<Rightarrow> nat"
  am_gap :: u32
  am_nchips :: int
  am_gpu_chip_weight :: u32
  am_dram_part :: bool

subsection \<open>Bits under a mask\<close>

definition packbits_step :: "addr \<Rightarrow> addr \<Rightarrow> nat \<Rightarrow> addr \<times> nat \<Rightarrow> addr \<times> nat" where
  "packbits_step msk val i rp = (case rp of (result, pos) \<Rightarrow>
     if msk AND push_bit i 1 \<noteq> 0
     then (result OR push_bit pos (drop_bit i (val AND push_bit i 1)), pos + 1)
     else (result, pos))"

definition addrdec_packbits :: "addr \<Rightarrow> addr \<Rightarrow> nat \<Rightarrow> nat \<Rightarrow> addr" where
  "addrdec_packbits msk val high low = fst (fold (packbits_step msk val) [low ..< high] (0, 0))"

text \<open>\<open>high\<close>, \<open>low\<close> and \<open>low_found\<close> after the loop.\<close>

definition masklimit_step :: "addr \<Rightarrow> nat \<Rightarrow> nat \<times> nat \<times> bool \<Rightarrow> nat \<times> nat \<times> bool" where
  "masklimit_step msk i s = (case s of (high, low, found) \<Rightarrow>
     if msk AND push_bit i 1 \<noteq> 0 then (if found then (i + 1, low, found) else (i + 1, i, True))
     else (high, low, found))"

definition addrdec_getmasklimit :: "addr \<Rightarrow> nat \<times> nat" where
  "addrdec_getmasklimit msk =
     (case fold (masklimit_step msk) [0 ..< 64] (64, 0, False) of (high, low, _) \<Rightarrow> (high, low))"

subsection \<open>Translation\<close>

text \<open>
  \<open>addr & ((1 << ADDR_CHIP_S) - 1)\<close>: the mask is computed in \<open>int\<close>, where the shift or the subtraction
  overflows from bit 31 on, and widened to 64 bits with its sign.
\<close>

definition low_bits :: "nat \<Rightarrow> addr \<Rightarrow> addr option" where
  "low_bits s a = do {
     ensure (s < 31);
     Some (a AND scast (push_bit s 1 - 1 :: u32)) }"

definition pack_field :: "addr_map \<Rightarrow> addrdec_field \<Rightarrow> addr \<Rightarrow> u32" where
  "pack_field m f a = ucast (addrdec_packbits (am_mask m f) a (am_high m f) (am_low m f))"

definition partition_address :: "addr_map \<Rightarrow> addr \<Rightarrow> addr option" where
  "partition_address m a =
     (if am_gap m = 0 then Some (addrdec_packbits (NOT (am_mask m CHIP)) a 64 0)
      else do {
        ensure (0 \<le> am_chip_s m \<and> am_chip_s m < 64 \<and> am_nchips m \<noteq> 0);
        let s = nat (am_chip_s m) in do {
        low \<leftarrow> low_bits s a;
        Some (push_bit s (drop_bit s a div of_int (am_nchips m)) OR low) } })"

definition part_chip :: "addr_map \<Rightarrow> addr \<Rightarrow> bool \<Rightarrow> u32 option" where
  "part_chip m a is_gpu = (let s = nat (am_chip_s m);
       divide = sint (am_gpu_chip_weight m * word_of_int (am_nchips m sdiv 8)) in do {
     ensure (0 \<le> am_chip_s m \<and> am_chip_s m < 64);
     (if is_gpu then do {
        ensure (divide \<noteq> 0);
        Some (ucast (drop_bit s a mod of_int divide)) }
      else do {
        ensure (am_nchips m \<noteq> divide);
        Some (ucast (drop_bit s a mod of_int (am_nchips m - divide) + of_int divide)) }) })"

definition addrdec_tlx :: "addr_map \<Rightarrow> addr \<Rightarrow> bool \<Rightarrow> addrdec_t option" where
  "addrdec_tlx m a is_gpu =
     (if am_gap m = 0 then do {
        chip \<leftarrow> (if am_dram_part m then part_chip m a is_gpu else Some (pack_field m CHIP a));
        Some \<lparr>tlx_chip = chip, tlx_bk = pack_field m BK a, tlx_row = pack_field m ROW a,
              tlx_col = pack_field m COL a, tlx_burst = pack_field m BURST a\<rparr> }
      else do {
        ensure (0 \<le> am_chip_s m \<and> am_chip_s m < 64 \<and> am_nchips m \<noteq> 0);
        rest \<leftarrow> partition_address m a;
        Some \<lparr>tlx_chip = ucast (drop_bit (nat (am_chip_s m)) a mod of_int (am_nchips m)),
              tlx_bk = pack_field m BK rest, tlx_row = pack_field m ROW rest,
              tlx_col = pack_field m COL rest, tlx_burst = pack_field m BURST rest\<rparr> })"

subsection \<open>\<open>init\<close>\<close>

definition new_addr_map :: "u32 \<Rightarrow> bool \<Rightarrow> addr_map" where
  "new_addr_map weight part =
     \<lparr>am_chip_s = 10,
      am_mask = (\<lambda>f. case f of CHIP \<Rightarrow> 0x1C00 | BK \<Rightarrow> 0x300 | ROW \<Rightarrow> 0xFFF0000 | COL \<Rightarrow> 0xE0FF | BURST \<Rightarrow> 0xF),
      am_low = (\<lambda>_. 0), am_high = (\<lambda>_. 64), am_gap = 0, am_nchips = 0,
      am_gpu_chip_weight = weight, am_dram_part = part\<rparr>"

text \<open>\<open>sscanf(option, "dramid@%d", \<dots>)\<close> and \<open>strchr(option, ';')\<close>.\<close>

definition dramid_format :: "scan_item list" where
  "dramid_format = map ScanLit ''dramid@'' @ [ScanU]"

definition after_semicolon :: "string \<Rightarrow> string" where
  "after_semicolon opt =
     (case dropWhile (\<lambda>c. c \<noteq> CHR '';'') opt of [] \<Rightarrow> opt | _ # cs \<Rightarrow> cs)"

text \<open>The loop over the mapping: the masks a character sets a bit in (\<open>Some []\<close> for the ignored bit
  \<open>0\<close>, \<open>None\<close> for a character that is skipped); a bit below position 0 shifts by a negative amount.\<close>

definition mapping_fields :: "char \<Rightarrow> addrdec_field list option" where
  "mapping_fields c =
     (if c = CHR ''D'' \<or> c = CHR ''d'' then Some [CHIP]
      else if c = CHR ''B'' \<or> c = CHR ''b'' then Some [BK]
      else if c = CHR ''R'' \<or> c = CHR ''r'' then Some [ROW]
      else if c = CHR ''C'' \<or> c = CHR ''c'' then Some [COL]
      else if c = CHR ''S'' \<or> c = CHR ''s'' then Some [BURST, COL]
      else if c = CHR ''0'' then Some [] else None)"

definition mapping_step ::
  "bool \<Rightarrow> char \<Rightarrow> int \<times> (addrdec_field \<Rightarrow> addr) \<Rightarrow> (int \<times> (addrdec_field \<Rightarrow> addr)) option" where
  "mapping_step dramid c om = (case om of (ofs, msk) \<Rightarrow> (case mapping_fields c of
       None \<Rightarrow> Some (ofs, msk)
     | Some fs \<Rightarrow> do {
         ensure (CHIP \<in> set fs \<longrightarrow> \<not> dramid);
         ensure (fs \<noteq> [] \<longrightarrow> 0 \<le> ofs);
         Some (ofs - 1, \<lambda>f. if f \<in> set fs then msk f OR push_bit (nat ofs) 1 else msk f) }))"

definition addrdec_parseoption :: "string \<Rightarrow> addr_map \<Rightarrow> addr_map option" where
  "addrdec_parseoption opt m =
     (let start = (case sscanf dramid_format opt of [ValU n] \<Rightarrow> Some (sint n) | _ \<Rightarrow> None) in do {
        (ofs, msk) \<leftarrow> fold_opt (mapping_step (start \<noteq> None)) (after_semicolon opt) (63, \<lambda>_. 0);
        ensure (ofs = - 1);
        Some (m\<lparr>am_chip_s := (case start of Some n \<Rightarrow> n | None \<Rightarrow> - 1), am_mask := msk\<rparr>) })"

text \<open>The \<open>switch\<close> over \<open>gpgpu_mem_address_mask\<close>: \<open>ADDR_CHIP_S\<close> and the masks of bank, row and column.\<close>

definition address_mask_case :: "int \<Rightarrow> (int \<times> addr \<times> addr \<times> addr) option" where
  "address_mask_case n = map_of
     [(0, 10, 0x300, 0x7FFE000, 0x1CFF), (1, 13, 0x1800, 0x7FFE000, 0x7FF), (2, 11, 0x1800, 0x7FFE000, 0x7FF),
      (3, 11, 0x1800, 0xFFFE000, 0x7FF), (14, 14, 0x1800, 0x7FFE000, 0x7FF), (15, 15, 0x1800, 0x7FFE000, 0x7FF),
      (16, 16, 0x1800, 0x7FFE000, 0x7FF), (6, 6, 0x1800, 0x7FFE000, 0x7FF), (5, 5, 0x1800, 0x7FFE000, 0x7FF),
      (100, 1, 0x3, 0x7FFE000, 0x1FFC), (103, 3, 0x3, 0x7FFE000, 0x1FFC), (106, 6, 0x1800, 0x7FFE000, 0x7FF),
      (160, 6, 0x300, 0x7FFE000, 0x1CFF)] n"

definition apply_address_mask :: "int \<Rightarrow> addr_map \<Rightarrow> addr_map" where
  "apply_address_mask n m =
     (case address_mask_case n of
        None \<Rightarrow> m
      | Some (s, bk, row, col) \<Rightarrow>
          m\<lparr>am_chip_s := s, am_mask := (am_mask m)(CHIP := 0, BK := bk, ROW := row, COL := col)\<rparr>)"

definition insert_chip_bits :: "nat \<Rightarrow> nat \<Rightarrow> (addrdec_field \<Rightarrow> addr) \<Rightarrow> addrdec_field \<Rightarrow> addr" where
  "insert_chip_bits s nchipbits msk =
     (let below = push_bit s 1 - 1;
          spread = (\<lambda>w. push_bit nchipbits (w AND NOT below) OR (w AND below)) in
      msk(BK := spread (msk BK), ROW := spread (msk ROW), COL := spread (msk COL),
           CHIP := fold (\<lambda>i w. w OR push_bit i 1) [s ..< s + nchipbits] (msk CHIP)))"

definition set_limits :: "addr_map \<Rightarrow> addr_map" where
  "set_limits m =
     m\<lparr>am_high := (\<lambda>f. fst (addrdec_getmasklimit (am_mask m f))),
       am_low := (\<lambda>f. snd (addrdec_getmasklimit (am_mask m f)))\<rparr>"

text \<open>\<open>powli(2, nchipbits)\<close> is a \<open>long\<close>, and \<open>gap\<close> the difference as an \<open>unsigned\<close>.\<close>

definition am_init :: "u32 \<Rightarrow> int \<Rightarrow> string option \<Rightarrow> addr_map \<Rightarrow> addr_map option" where
  "am_init nchips address_mask opt m =
     (let bits = unat (LOGB2 nchips); gap = nchips - 2 ^ bits; nchipbits = (if gap \<noteq> 0 then bits + 1 else bits);
          m1 = apply_address_mask address_mask (m\<lparr>am_nchips := sint nchips, am_gap := gap\<rparr>) in do {
        m2 \<leftarrow> (case opt of None \<Rightarrow> Some m1 | Some o' \<Rightarrow> addrdec_parseoption o' m1);
        m3 \<leftarrow> (if am_chip_s m2 \<noteq> - 1 then
                 (if gap = 0 then do {
                    ensure (0 \<le> am_chip_s m2 \<and> nat (am_chip_s m2) + nchipbits \<le> 64 \<and> am_chip_s m2 < 64);
                    Some (m2\<lparr>am_mask := insert_chip_bits (nat (am_chip_s m2)) nchipbits (am_mask m2)\<rparr>) }
                  else Some m2)
               else do {
                 ensure (nchips AND (nchips - 1) = 0);
                 Some m2 });
        Some (set_limits m3) })"

subsection \<open>Gathering bits\<close>

definition mask_bits :: "addr \<Rightarrow> nat \<Rightarrow> nat \<Rightarrow> nat list" where
  "mask_bits msk high low = filter (bit msk) [low ..< high]"

lemma and_single: "msk AND push_bit i 1 \<noteq> 0 \<longleftrightarrow> bit msk i" for msk :: addr
  using and_exp_eq_0_iff_not_bit[of msk i] by (simp add: push_bit_eq_mult)

lemma single_bit:
  "drop_bit i (val AND push_bit i 1) = of_bool (bit val i)" for val :: addr
  by (rule bit_eqI) (auto simp: bit_simps not_le dest: bit_imp_le_length)

lemma packbits_step_eq:
  "packbits_step msk val i (r, p) =
     (if bit msk i then (r OR push_bit p (of_bool (bit val i)), p + 1) else (r, p))"
  unfolding packbits_step_def prod.case and_single single_bit ..

lemma masklimit_step_eq:
  "masklimit_step msk i (h, l, f) =
     (if bit msk i then (if f then (i + 1, l, f) else (i + 1, i, True)) else (h, l, f))"
  unfolding masklimit_step_def prod.case and_single ..

lemma packbits_fold:
  assumes "pos + length (filter (bit msk) is) \<le> 64"
    "fold (packbits_step msk val) is (result, pos) = (result', pos')"
    "\<And>n. bit result n \<Longrightarrow> n < pos"
  shows "pos' = pos + length (filter (bit msk) is) \<and>
    (\<forall>n. bit result' n \<longleftrightarrow> bit result n \<or>
       (pos \<le> n \<and> n < pos' \<and> bit val (filter (bit msk) is ! (n - pos))))"
  using assms
proof (induction "is" arbitrary: result pos)
  case (Cons i "is")
  show ?case
  proof (cases "bit msk i")
    case False
    then have "fold (packbits_step msk val) is (result, pos) = (result', pos')"
      using Cons.prems(2) by (simp add: packbits_step_eq)
    then show ?thesis using Cons.IH[of pos result] Cons.prems(1,3) False by simp
  next
    case True
    let ?r = "result OR push_bit pos (of_bool (bit val i))"
    have pos: "pos < 64" using Cons.prems(1) True by simp
    have r: "bit ?r n \<longleftrightarrow> bit result n \<or> n = pos \<and> bit val i" for n
      using pos by (auto simp: bit_simps)
    have f: "fold (packbits_step msk val) is (?r, pos + 1) = (result', pos')"
      using Cons.prems(2) True by (simp add: packbits_step_eq)
    have "\<And>n. bit ?r n \<Longrightarrow> n < pos + 1" using r Cons.prems(3) by (metis Suc_eq_plus1 lessI less_SucI)
    from Cons.IH[OF _ f this] Cons.prems(1) True have IH:
      "pos' = pos + 1 + length (filter (bit msk) is)"
      "\<And>n. bit result' n \<longleftrightarrow> bit ?r n \<or> (pos + 1 \<le> n \<and> n < pos' \<and> bit val (filter (bit msk) is ! (n - (pos + 1))))"
      by auto
    have "bit result' n \<longleftrightarrow> bit result n \<or>
        (pos \<le> n \<and> n < pos' \<and> bit val (filter (bit msk) (i # is) ! (n - pos)))" for n
    proof (cases n pos rule: linorder_cases)
      case less
      then show ?thesis using IH(2) r by auto
    next
      case equal
      then show ?thesis using IH r True by auto
    next
      case greater
      then have "n - pos = Suc (n - (pos + 1))" by simp
      then have "filter (bit msk) (i # is) ! (n - pos) = filter (bit msk) is ! (n - (pos + 1))"
        using True by simp
      then show ?thesis using IH(2) r greater by auto
    qed
    then show ?thesis using IH(1) True by simp
  qed
qed auto

lemma bit_packbits:
  assumes "high \<le> 64"
  shows "bit (addrdec_packbits msk val high low) n \<longleftrightarrow>
    n < length (mask_bits msk high low) \<and> bit val (mask_bits msk high low ! n)"
proof -
  obtain r p where f: "fold (packbits_step msk val) [low ..< high] (0, 0) = (r, p)" by fastforce
  have "length (filter (bit msk) [low ..< high]) \<le> length [low ..< high]" by (rule length_filter_le)
  then have "0 + length (filter (bit msk) [low ..< high]) \<le> 64" using assms by simp
  from packbits_fold[OF this f] f show ?thesis by (auto simp: addrdec_packbits_def mask_bits_def)
qed

text \<open>Packing keeps exactly the bits under the mask.\<close>

lemma packbits_eq_iff:
  assumes "high \<le> 64" "\<And>i. bit msk i \<Longrightarrow> low \<le> i \<and> i < high"
  shows "addrdec_packbits msk a high low = addrdec_packbits msk b high low \<longleftrightarrow> a AND msk = b AND msk"
proof
  assume e: "addrdec_packbits msk a high low = addrdec_packbits msk b high low"
  show "a AND msk = b AND msk"
  proof (rule bit_eqI)
    fix i :: nat
    have "bit a i = bit b i" if m: "bit msk i"
    proof -
      have "i \<in> set (mask_bits msk high low)" using m assms(2)[OF m] by (simp add: mask_bits_def)
      then obtain n where "n < length (mask_bits msk high low)" "mask_bits msk high low ! n = i"
        by (auto simp: in_set_conv_nth)
      then show ?thesis using bit_packbits[OF assms(1), of msk _ low n] e by metis
    qed
    then show "bit (a AND msk) i = bit (b AND msk) i" by (auto simp: bit_and_iff)
  qed
next
  assume e: "a AND msk = b AND msk"
  have "bit a i = bit b i" if "bit msk i" for i
    using arg_cong[OF e, of "\<lambda>w. bit w i"] that by (simp add: bit_and_iff)
  moreover have "bit msk (mask_bits msk high low ! n)" if "n < length (mask_bits msk high low)" for n
    using nth_mem[OF that] by (simp add: mask_bits_def)
  ultimately show "addrdec_packbits msk a high low = addrdec_packbits msk b high low"
    by (intro bit_eqI) (auto simp: bit_packbits[OF assms(1)])
qed

text \<open>A field keeps its bits through the cast to \<open>unsigned\<close> when its mask has at most 32.\<close>

lemma packbits_ucast_inj:
  assumes "high \<le> 64" "length (mask_bits msk high low) \<le> 32"
    "(ucast (addrdec_packbits msk a high low) :: u32) = ucast (addrdec_packbits msk b high low)"
  shows "addrdec_packbits msk a high low = addrdec_packbits msk b high low"
proof (rule bit_eqI)
  fix n :: nat
  show "bit (addrdec_packbits msk a high low) n = bit (addrdec_packbits msk b high low) n"
  proof (cases "n < length (mask_bits msk high low)")
    case True
    then have n: "n < 32" using assms(2) by simp
    have "bit (ucast (addrdec_packbits msk a high low) :: u32) n = bit (ucast (addrdec_packbits msk b high low) :: u32) n"
      using assms(3) by simp
    then show ?thesis using n by (simp add: bit_simps)
  next
    case False
    then show ?thesis by (simp add: bit_packbits[OF assms(1)])
  qed
qed

lemma masklimit_fold:
  assumes "fold (masklimit_step msk) [0 ..< k] (64, 0, False) = (high, low, found)" "k \<le> 64"
  shows "(found \<longleftrightarrow> (\<exists>i < k. bit msk i)) \<and> (\<forall>i < k. bit msk i \<longrightarrow> low \<le> i \<and> i < high) \<and> high \<le> 64"
  using assms
proof (induction k arbitrary: high low found)
  case (Suc k)
  obtain h l f where r: "fold (masklimit_step msk) [0 ..< k] (64, 0, False) = (h, l, f)"
    by (metis prod_cases3)
  then have s: "masklimit_step msk k (h, l, f) = (high, low, found)" using Suc.prems(1) by simp
  from Suc.IH[OF r] Suc.prems(2) have IH: "f \<longleftrightarrow> (\<exists>i < k. bit msk i)"
    "\<And>i. i < k \<Longrightarrow> bit msk i \<Longrightarrow> l \<le> i \<and> i < h" "h \<le> 64" by auto
  show ?case
  proof (cases "bit msk k")
    case True
    then have "(high, low, found) = (if f then (k + 1, l, f) else (k + 1, k, True))"
      using s by (simp only: masklimit_step_eq if_True)
    moreover have "l \<le> k" if "f" using that IH(1,2) less_imp_le le_less_trans by (metis order.trans)
    ultimately show ?thesis using IH True Suc.prems(2) less_Suc_eq by (cases f) (auto split: if_splits)
  next
    case False
    then have "(high, low, found) = (h, l, f)" using s by (simp only: masklimit_step_eq if_False)
    then show ?thesis using IH False less_Suc_eq by auto
  qed
qed simp

lemma getmasklimit_covers:
  assumes "addrdec_getmasklimit msk = (high, low)" "bit msk i"
  shows "low \<le> i \<and> i < high \<and> high \<le> 64"
proof -
  obtain f where "fold (masklimit_step msk) [0 ..< 64] (64, 0, False) = (high, low, f)"
    using assms(1) by (auto simp: addrdec_getmasklimit_def split: prod.splits)
  from masklimit_fold[OF this] have "\<forall>i < 64. bit msk i \<longrightarrow> low \<le> i \<and> i < high" "high \<le> 64" by auto
  moreover have "i < 64" using bit_imp_le_length[OF assms(2)] by simp
  ultimately show ?thesis using assms(2) by blast
qed

subsection \<open>Chip and partition address identify an address\<close>

lemma set_limits_cover:
  assumes "bit (am_mask (set_limits m) f) i"
  shows "am_low (set_limits m) f \<le> i \<and> i < am_high (set_limits m) f \<and> am_high (set_limits m) f \<le> 64"
  using getmasklimit_covers[of "am_mask m f" "am_high (set_limits m) f" "am_low (set_limits m) f" i] assms
  by (simp add: set_limits_def)

lemma am_init_limits:
  assumes "am_init n k opt m0 = Some m"
  shows "(bit (am_mask m f) i \<longrightarrow> am_low m f \<le> i \<and> i < am_high m f \<and> am_high m f \<le> 64) \<and>
    am_nchips m = sint n \<and> am_dram_part m = am_dram_part m0 \<and> am_gpu_chip_weight m = am_gpu_chip_weight m0"
proof -
  obtain m3 where m: "m = set_limits m3" and m3: "am_nchips m3 = sint n" "am_dram_part m3 = am_dram_part m0"
    "am_gpu_chip_weight m3 = am_gpu_chip_weight m0"
    using assms
    by (auto simp: am_init_def Let_def addrdec_parseoption_def apply_address_mask_def
        split: if_splits option.splits prod.splits elim!: bind_SomeE)
  show ?thesis using set_limits_cover[of m3 f i] m3 unfolding m by (simp add: set_limits_def)
qed

lemma low_bits_eq: "s < 31 \<Longrightarrow> low_bits s a = Some (take_bit s a)"
proof -
  assume s: "s < 31"
  have "scast (push_bit s 1 - 1 :: u32) = (mask s :: addr)"
  proof (rule bit_eqI)
    fix i :: nat
    assume "possible_bit TYPE(addr) i"
    have "push_bit s 1 - 1 = (mask s :: u32)" by (simp add: push_bit_eq_mult mask_eq_exp_minus_1)
    then show "bit (scast (push_bit s 1 - 1 :: u32) :: addr) i = bit (mask s :: addr) i"
      using s \<open>possible_bit TYPE(addr) i\<close> by (auto simp: bit_simps min_def)
  qed
  with s show ?thesis by (simp add: low_bits_def take_bit_eq_mask)
qed

lemma low_bits_Some: "low_bits s a = Some l \<longleftrightarrow> s < 31 \<and> l = take_bit s a"
  using low_bits_eq[of s a] by (cases "s < 31") (auto simp: low_bits_def)

lemma split_address: "a = push_bit s (drop_bit s a) OR take_bit s a" for a :: addr
  by (simp add: bit_eq_iff bit_simps) (auto simp: not_le bit_imp_le_length)

lemma stitched_inj:
  fixes a b :: addr
  assumes "push_bit s (drop_bit s a div n) OR take_bit s a = push_bit s (drop_bit s b div n) OR take_bit s b"
    "drop_bit s a mod n = drop_bit s b mod n"
  shows "a = b"
proof -
  have l: "take_bit s a = take_bit s b"
    using arg_cong[OF assms(1), of "take_bit s"] by (simp add: take_bit_or take_bit_push_bit)
  have fits: "drop_bit s (push_bit s (drop_bit s x div n)) = drop_bit s x div n" for x :: addr
  proof (rule bit_eqI)
    fix i :: nat
    have "i + s < 64" if b: "bit (drop_bit s x div n) i"
    proof (rule ccontr)
      assume c: "\<not> i + s < 64"
      have "unat (drop_bit s x div n) \<le> unat (drop_bit s x)" by (simp add: unat_div)
      also have "unat (drop_bit s x) = unat x div 2 ^ s" unfolding unat_drop_bit_eq by (simp add: drop_bit_eq_div)
      also have "\<dots> < 2 ^ i"
      proof -
        have "unat x < 2 ^ 64" using unsigned_less[of x] by simp
        also have "(2 :: nat) ^ 64 \<le> 2 ^ (i + s)" using c by (intro power_increasing) auto
        finally show ?thesis by (simp add: less_mult_imp_div_less power_add)
      qed
      finally have "unat (drop_bit s x div n) div 2 ^ i = 0" by simp
      moreover have "bit (unat (drop_bit s x div n)) i" using b by (simp add: bit_unsigned_iff)
      ultimately show False by (simp add: bit_iff_odd)
    qed
    then show "bit (drop_bit s (push_bit s (drop_bit s x div n))) i = bit (drop_bit s x div n) i"
      by (auto simp: bit_simps)
  qed
  have z: "drop_bit s (take_bit s x) = 0" for x :: addr by (simp add: drop_bit_take_bit)
  have "drop_bit s a div n = drop_bit s b div n"
    using arg_cong[OF assms(1), of "drop_bit s"] by (simp add: drop_bit_or fits z)
  then have "drop_bit s a = drop_bit s b" using assms(2) by (metis div_mult_mod_eq)
  then show ?thesis using l split_address[of a s] split_address[of b s] by simp
qed

text \<open>C15: as long as the chips are not partitioned, no two addresses share both the chip and the address
  inside the chip (the aliases \<open>sweep_test\<close> looks for), for a power of two of chips as well as for any
  other number, when the chip mask has at most 32 bits and the translation is defined.  It is not defined when the
  number is no power of two and the chip bit is 31 or more, where the code shifts an \<open>int\<close> out of its range
  (\<open>wide_chip_bit_undefined\<close>).\<close>

theorem partition_address_injective:
  assumes "am_init nchips k opt (new_addr_map w False) = Some m" "0 < sint nchips"
    "length (mask_bits (am_mask m CHIP) (am_high m CHIP) (am_low m CHIP)) \<le> 32"
    "addrdec_tlx m a gpu = Some s" "addrdec_tlx m b gpu' = Some t" "tlx_chip s = tlx_chip t"
    "partition_address m a = partition_address m b"
  shows "a = b"
proof (cases "am_gap m = 0")
  case True
  note L = am_init_limits[OF assms(1)]
  have part: "\<not> am_dram_part m" using L by (simp add: new_addr_map_def)
  have c: "pack_field m CHIP a = pack_field m CHIP b"
    using assms(4-6) True part by (auto simp: addrdec_tlx_def)
  have chip: "a AND am_mask m CHIP = b AND am_mask m CHIP"
  proof (cases "am_mask m CHIP = 0")
    case False
    then obtain i where "bit (am_mask m CHIP) i" by (metis bit_eqI bit_0_eq bot_apply bot_bool_def)
    then have h: "am_high m CHIP \<le> 64" using L by blast
    have "addrdec_packbits (am_mask m CHIP) a (am_high m CHIP) (am_low m CHIP) =
        addrdec_packbits (am_mask m CHIP) b (am_high m CHIP) (am_low m CHIP)"
      by (rule packbits_ucast_inj[OF h assms(3)]) (use c in \<open>simp add: pack_field_def\<close>)
    then show ?thesis using packbits_eq_iff[OF h, of "am_mask m CHIP" "am_low m CHIP"] L by blast
  qed simp
  have "addrdec_packbits (NOT (am_mask m CHIP)) a 64 0 = addrdec_packbits (NOT (am_mask m CHIP)) b 64 0"
    using assms(7) True by (simp add: partition_address_def)
  moreover have "0 \<le> i \<and> i < 64" if "bit (NOT (am_mask m CHIP)) i" for i
    using bit_imp_le_length[OF that] by simp
  ultimately have rest: "a AND NOT (am_mask m CHIP) = b AND NOT (am_mask m CHIP)"
    using packbits_eq_iff[of 64 "NOT (am_mask m CHIP)" 0 a b] by simp
  show "a = b"
  proof (rule bit_eqI)
    fix i assume i: "possible_bit TYPE(64 word) i"
    show "bit a i = bit b i"
      using arg_cong[OF chip, of "\<lambda>x. bit x i"] arg_cong[OF rest, of "\<lambda>x. bit x i"] i
      by (auto simp: bit_simps)
  qed
next
  case False
  have n: "am_nchips m = sint nchips" using am_init_limits[OF assms(1)] by simp
  let ?n = "of_int (sint nchips) :: addr" and ?s = "nat (am_chip_s m)"
  have nn: "uint ?n = sint nchips" "sint nchips < 2 ^ 31"
  proof -
    show "sint nchips < 2 ^ 31" using sint_less[of nchips] by simp
    then show "uint ?n = sint nchips" by (subst uint_word_of_int) (use assms(2) in simp)
  qed
  have ch: "(ucast (drop_bit ?s a mod ?n) :: u32) = ucast (drop_bit ?s b mod ?n)"
    using assms(4-6) False n by (auto simp: addrdec_tlx_def elim!: bind_SomeE split: if_splits)
  have small: "uint (x mod ?n) < 2 ^ 32" for x :: addr
  proof -
    have "uint (x mod ?n) = uint x mod sint nchips" unfolding uint_mod nn(1) ..
    also have "\<dots> < sint nchips" using assms(2) by (rule pos_mod_bound)
    finally show ?thesis using nn(2) by simp
  qed
  have "uint (drop_bit ?s a mod ?n) = uint (drop_bit ?s b mod ?n)"
    using arg_cong[OF ch, of uint] small by (simp add: unsigned_ucast_eq take_bit_int_eq_self)
  then have md: "drop_bit ?s a mod ?n = drop_bit ?s b mod ?n" by (rule unsigned_word_eqI)
  obtain c where c: "partition_address m a = Some c"
    using assms(4) False by (auto simp: addrdec_tlx_def elim!: bind_SomeE split: if_splits)
  have e: "partition_address m x = Some c \<Longrightarrow> c = push_bit ?s (drop_bit ?s x div ?n) OR take_bit ?s x" for x
    using False n by (auto simp: partition_address_def Let_def low_bits_Some elim!: bind_SomeE split: if_splits)
  have "push_bit ?s (drop_bit ?s a div ?n) OR take_bit ?s a = push_bit ?s (drop_bit ?s b div ?n) OR take_bit ?s b"
    using e[OF c] e[of b] c assms(7) by simp
  then show "a = b" by (rule stitched_inj[OF _ md])
qed

text \<open>A chip bit of 31 or above with a number of chips that is no power of two: the mask of the low bits
  is shifted in \<open>int\<close>, so the translation is undefined for every address.\<close>

lemma wide_chip_bit_undefined:
  "am_gap m \<noteq> 0 \<Longrightarrow> 31 \<le> am_chip_s m \<Longrightarrow> addrdec_tlx m a gpu = None \<and> partition_address m a = None"
  by (auto simp: addrdec_tlx_def partition_address_def Let_def low_bits_def)

subsection \<open>Chips divided between GPU and CPU\<close>

lemma am_init_chip_bit:
  assumes "am_init nchips k opt m0 = Some m" "am_gap m = 0" "0 \<le> am_chip_s m"
  shows "am_chip_s m < 64"
  using assms
  by (auto simp: am_init_def Let_def set_limits_def addrdec_parseoption_def apply_address_mask_def
      split: if_splits option.splits prod.splits elim!: bind_SomeE)

lemma part_chip_range:
  assumes "0 \<le> am_chip_s m \<and> am_chip_s m < 64" "am_nchips m = int n" "n < 2 ^ 31"
    "w = unat (am_gpu_chip_weight m) * (n div 8)" "0 < w" "w < n"
  shows "\<exists>c. part_chip m a gpu = Some c \<and> (if gpu then unat c < w else w \<le> unat c \<and> unat c < n)"
proof -
  let ?h = "drop_bit (nat (am_chip_s m)) a"
  have d: "sint (am_gpu_chip_weight m * word_of_int (am_nchips m sdiv 8)) = int w"
  proof -
    have q: "int n sdiv 8 = int (n div 8)" by (cases "n = 0") (simp_all add: signed_divide_int_def zdiv_int)
    have w: "w < 2 ^ 31" using assms(3,6) by simp
    have "am_gpu_chip_weight m * word_of_int (am_nchips m sdiv 8) = of_nat w"
      unfolding assms(2) q assms(4) by simp
    moreover have "sint (of_nat w :: u32) = int w" 
      using w by (simp add: signed_of_nat signed_take_bit_int_eq_self)
    ultimately show ?thesis by simp
  qed
  have md: "unat (?h mod of_nat k) = unat ?h mod k" if "k < 2 ^ 32" for k
  proof -
    have "unat (of_nat k :: addr) = k" using that by (simp add: unat_of_nat take_bit_nat_eq_self)
    then show ?thesis by (simp add: unat_mod)
  qed
  have small: "unat (ucast x :: u32) = unat x" if "unat x < 2 ^ 32" for x :: addr
    using that by (simp add: unsigned_ucast_eq take_bit_nat_eq_self)
  show ?thesis
  proof (cases gpu)
    case True
    have "part_chip m a gpu = Some (ucast (?h mod of_nat w))"
      using assms(1,5) True d by (simp add: part_chip_def Let_def)
    moreover have "unat (?h mod of_nat w) < w" using md[of w] assms(3,5,6) by simp
    moreover from this have "unat (ucast (?h mod of_nat w) :: u32) = unat (?h mod of_nat w)"
      using assms(3,6) by (intro small) simp
    ultimately show ?thesis using True by simp
  next
    case False
    define q where "q = ?h mod of_nat (n - w)"
    have e: "am_nchips m \<noteq> int w" "of_int (am_nchips m - int w) = (of_nat (n - w) :: addr)"
      "of_int (int w) = (of_nat w :: addr)" using assms(2,6) by (simp_all add: of_nat_diff)
    have "part_chip m a gpu = Some (ucast (q + of_nat w))"
      unfolding part_chip_def Let_def d e(2,3) q_def[symmetric] using assms(1) False e(1) by simp
    moreover have lt: "unat q < n - w" using md[of "n - w"] assms(3,6) unfolding q_def by simp
    have "unat (of_nat w :: addr) = w" using assms(3,6) by (simp add: unat_of_nat take_bit_nat_eq_self)
    then have u: "unat (q + of_nat w) = unat q + w"
      using lt assms(3,6) by (subst unat_plus_if_size) (simp add: word_size)
    moreover have "unat (ucast (q + of_nat w) :: u32) = unat (q + of_nat w)"
      using lt assms(3) u by (intro small) simp
    ultimately show ?thesis using False lt by simp
  qed
qed


subsection \<open>Eight chips with the default masks\<close>

definition eight_chips :: "u32 \<Rightarrow> bool \<Rightarrow> addr_map" where
  "eight_chips w part = set_limits ((new_addr_map w part)\<lparr>am_chip_s := 13, am_nchips := 8,
     am_mask := (\<lambda>f. case f of CHIP \<Rightarrow> 0xE000 | BK \<Rightarrow> 0x1800 | ROW \<Rightarrow> 0x3FFF0000 | COL \<Rightarrow> 0x7FF | BURST \<Rightarrow> 0xF)\<rparr>)"

lemma LOGB2_8: "8 - 2 ^ unat (LOGB2 8) = (0 :: u32)" "unat (LOGB2 8) = 3"
  by code_simp+

lemma eight_chips_init: "am_init 8 1 None (new_addr_map w part) = Some (eight_chips w part)"
proof -
  have s: "sint (8 :: u32) = 8" by simp
  have m: "insert_chip_bits 13 3 (am_mask (apply_address_mask 1 (new_addr_map w part))) f =
      (case f of CHIP \<Rightarrow> 0xE000 | BK \<Rightarrow> 0x1800 | ROW \<Rightarrow> 0x3FFF0000 | COL \<Rightarrow> 0x7FF | BURST \<Rightarrow> 0xF)" for f
    by (cases f) (simp_all add: apply_address_mask_def address_mask_case_def new_addr_map_def
        insert_chip_bits_def Let_def upt_rec push_bit_eq_mult)
  then have m': "insert_chip_bits 13 3 (am_mask (apply_address_mask 1 (new_addr_map w part))) =
      (\<lambda>f. case f of CHIP \<Rightarrow> 0xE000 | BK \<Rightarrow> 0x1800 | ROW \<Rightarrow> 0x3FFF0000 | COL \<Rightarrow> 0x7FF | BURST \<Rightarrow> 0xF)" by (rule ext)
  show ?thesis
    unfolding am_init_def Let_def LOGB2_8 s using m'
    by (simp add: apply_address_mask_def address_mask_case_def eight_chips_def new_addr_map_def)
qed

lemma eight_chips_fields [simp]:
  "am_chip_s (eight_chips w part) = 13" "am_nchips (eight_chips w part) = 8" "am_gap (eight_chips w part) = 0"
  "am_dram_part (eight_chips w part) = part" "am_gpu_chip_weight (eight_chips w part) = w"
  by (simp_all add: eight_chips_def set_limits_def new_addr_map_def)

lemma eight_chips_mask:
  "am_mask (eight_chips w part) f =
     (case f of CHIP \<Rightarrow> 0xE000 | BK \<Rightarrow> 0x1800 | ROW \<Rightarrow> 0x3FFF0000 | COL \<Rightarrow> 0x7FF | BURST \<Rightarrow> 0xF)"
  by (simp add: eight_chips_def set_limits_def)

lemma eight_chips_pack:
  assumes "a AND am_mask (eight_chips w part) f = b AND am_mask (eight_chips w part) f"
  shows "pack_field (eight_chips w part) f a = pack_field (eight_chips w part) f b"
proof -
  let ?m = "eight_chips w part"
  note L = am_init_limits[OF eight_chips_init, of w part f]
  have "am_mask ?m f \<noteq> 0" by (cases f) (simp_all add: eight_chips_mask)
  then obtain i where "bit (am_mask ?m f) i" by (metis bit_eqI bit_0_eq bot_apply bot_bool_def)
  then have "am_high ?m f \<le> 64" using L by blast
  then show ?thesis
    using packbits_eq_iff[of "am_high ?m f" "am_mask ?m f" "am_low ?m f" a b] L assms
    by (simp add: pack_field_def)
qed

text \<open>With \<open>gpgpu_dram_part\<close> the masks still leave out the bits of the chip although it is no longer
  gathered from them: addresses that differ there only are aliases, the same chip, bank, row and column
  for two different addresses.\<close>

theorem dram_part_aliases:
  "am_init 8 1 None (new_addr_map 4 True) = Some (eight_chips 4 True) \<and>
   addrdec_tlx (eight_chips 4 True) 0 True = addrdec_tlx (eight_chips 4 True) 0x8000 True \<and>
   addrdec_tlx (eight_chips 4 True) 0 True \<noteq> None \<and>
   partition_address (eight_chips 4 True) 0 = partition_address (eight_chips 4 True) 0x8000"
proof -
  let ?m = "eight_chips 4 True"
  have p: "pack_field ?m f 0x8000 = pack_field ?m f 0" if "f \<noteq> CHIP" for f
    by (rule eight_chips_pack) (use that in \<open>cases f; simp add: eight_chips_mask\<close>)
  have c: "part_chip ?m 0 True = Some 0" "part_chip ?m 0x8000 True = Some 0"
    by (simp_all add: part_chip_def drop_bit_eq_div)
  have "0 \<le> i \<and> i < 64" if "bit (NOT (am_mask ?m CHIP)) i" for i
    using bit_imp_le_length[OF that] by simp
  then have "addrdec_packbits (NOT (am_mask ?m CHIP)) 0x8000 64 0 = addrdec_packbits (NOT (am_mask ?m CHIP)) 0 64 0"
    using packbits_eq_iff[of 64 "NOT (am_mask ?m CHIP)" 0 "0x8000" 0] by (simp add: eight_chips_mask)
  then show ?thesis
    using eight_chips_init c p by (simp add: addrdec_tlx_def partition_address_def)
qed

theorem partition_address_injective_witness:
  "\<exists>s t. addrdec_tlx (eight_chips 4 False) 5 True = Some s \<and> addrdec_tlx (eight_chips 4 False) 5 False = Some t \<and>
     tlx_chip s = tlx_chip t \<and> (5 :: addr) = 5"
proof -
  let ?m = "eight_chips 4 False"
  obtain s where s: "addrdec_tlx ?m 5 True = Some s" "addrdec_tlx ?m 5 False = Some s"
    by (simp add: addrdec_tlx_def)
  have "set (mask_bits (am_mask ?m CHIP) (am_high ?m CHIP) (am_low ?m CHIP)) \<subseteq> {13, 14, 15}"
  proof
    fix i assume "i \<in> set (mask_bits (am_mask ?m CHIP) (am_high ?m CHIP) (am_low ?m CHIP))"
    then have b: "bit (0xE000 :: addr) i" by (simp add: mask_bits_def eight_chips_mask)
    have e: "(0xE000 :: addr) = push_bit 13 7" by (simp add: push_bit_eq_mult)
    have "bit (push_bit 13 7 :: addr) i" using b unfolding e .
    then have "13 \<le> i" "bit (7 :: addr) (i - 13)" unfolding bit_push_bit_iff by simp_all
    moreover have "(7 :: addr) = take_bit 3 (- 1)" by (simp add: take_bit_minus_one_eq_mask mask_eq_exp_minus_1)
    ultimately have "i - 13 < 3" by (simp add: bit_simps)
    then show "i \<in> {13, 14, 15}" using \<open>13 \<le> i\<close> by auto
  qed
  moreover have "distinct (mask_bits (am_mask ?m CHIP) (am_high ?m CHIP) (am_low ?m CHIP))"
    by (simp add: mask_bits_def)
  ultimately have "length (mask_bits (am_mask ?m CHIP) (am_high ?m CHIP) (am_low ?m CHIP)) \<le> card {13, 14, 15 :: nat}"
    by (metis distinct_card card_mono finite.emptyI finite.insertI)
  then have "length (mask_bits (am_mask ?m CHIP) (am_high ?m CHIP) (am_low ?m CHIP)) \<le> 32"
    by (rule order.trans) simp
  from partition_address_injective[OF eight_chips_init _ this s refl refl] s show ?thesis by auto
qed


end
