(* ===== verification/Dram.thy ===== *)
theory Dram
  imports FrFcfs DelayQueue AddrDec
begin

text \<open>
  \<open>dram_t\<close> (\<open>src/gpgpu-sim/dram.h\<close>, \<open>dram.cc\<close>, and \<open>scheduler_frfcfs\<close> of \<open>dram_sched.cc\<close>): the memory
  controller of a partition.  Requests wait in \<open>mrqq\<close>, the scheduler hands one to each bank, the banks
  issue at most one command per cycle under the timing counters, each column command moves one atom
  through \<open>rwq\<close>, and a request whose atoms are through goes to \<open>returnq\<close>.

  A \<open>dram_req_t*\<close> is its number: \<open>dram_req\<close> holds the members that never change, \<open>dm_reqs\<close> the others
  (the object is shared by a bank and by its entries in \<open>rwq\<close>, and deleted at the last one).  The timing
  counters only count down to zero, so they are natural numbers.  \<open>cyc\<close> is \<open>gpu_sim_cycle\<close> and \<open>now\<close>
  \<open>gpu_sim_cycle + gpu_tot_sim_cycle\<close>.  The command a cycle issues, what \<open>DRAM_VERIFY\<close> prints, is part of
  its result.  The statistics are left out.
\<close>

datatype dram_rw = READ | WRITE
datatype bank_state = BANK_IDLE | BANK_ACTIVE
datatype dram_ctrl = DRAM_FIFO | DRAM_FRFCFS

record dram_timing =
  tm_nbk :: u32
  tm_nbkgrp :: u32
  tm_CCD :: u32
  tm_CCDL :: u32
  tm_RRD :: u32
  tm_RCD :: u32
  tm_RAS :: u32
  tm_RP :: u32
  tm_RC :: u32
  tm_CL :: u32
  tm_WL :: u32
  tm_CDLR :: u32
  tm_WR :: u32
  tm_RTPL :: u32
  tm_BL :: u32
  tm_freq_ratio :: u32
  tm_busW :: u32
  tm_mem_per_ctrlr :: u32

record dram_config =
  dc_nbk :: nat
  dc_nbkgrp :: nat
  dc_bk_tag_length :: nat
  dc_CCD :: nat
  dc_CCDL :: nat
  dc_RRD :: nat
  dc_RCD :: nat
  dc_RCDWR :: nat
  dc_RAS :: nat
  dc_RP :: nat
  dc_RC :: nat
  dc_RTW :: nat
  dc_WTR :: nat
  dc_WTP :: nat
  dc_RTPL :: nat
  dc_CL :: nat
  dc_WL :: nat
  dc_burst_cycles :: nat
  dc_atom_size :: nat
  dc_scheduler :: dram_ctrl
  dc_queue_size :: nat

text \<open>\<open>memory_config::init\<close>: the derived parameters, \<open>unsigned\<close> as there.  The loop for \<open>bk_tag_length\<close> counts
  the binary digits of the \<open>int\<close> \<open>nbk/nbkgrp\<close>.\<close>

fun binary_digits :: "nat \<Rightarrow> nat" where
  "binary_digits n = (if n = 0 then 0 else Suc (binary_digits (n div 2)))"

declare binary_digits.simps [simp del]

definition memory_config_init :: "dram_ctrl \<Rightarrow> nat \<Rightarrow> dram_timing \<Rightarrow> dram_config option" where
  "memory_config_init sched queue_size t = do {
     ensure (tm_nbkgrp t \<noteq> 0 \<and> tm_freq_ratio t \<noteq> 0);
     let burst = tm_BL t div tm_freq_ratio t in
     Some \<lparr>dc_nbk = unat (tm_nbk t), dc_nbkgrp = unat (tm_nbkgrp t),
       dc_bk_tag_length = binary_digits (nat (sint (tm_nbk t div tm_nbkgrp t))),
       dc_CCD = unat (tm_CCD t), dc_CCDL = unat (tm_CCDL t), dc_RRD = unat (tm_RRD t), dc_RCD = unat (tm_RCD t),
       dc_RCDWR = unat (tm_RCD t - (tm_WL t + 1)), dc_RAS = unat (tm_RAS t), dc_RP = unat (tm_RP t),
       dc_RC = unat (tm_RC t), dc_RTW = unat (tm_CL t + burst + 2 - tm_WL t),
       dc_WTR = unat (tm_WL t + burst + tm_CDLR t), dc_WTP = unat (tm_WL t + burst + tm_WR t),
       dc_RTPL = unat (tm_RTPL t), dc_CL = unat (tm_CL t), dc_WL = unat (tm_WL t), dc_burst_cycles = unat burst,
       dc_atom_size = unat (tm_BL t * tm_busW t * tm_mem_per_ctrlr t), dc_scheduler = sched, dc_queue_size = queue_size\<rparr> }"

record dreq_state =
  rq_data :: mfp
  rq_rw :: dram_rw
  rq_nbytes :: nat
  rq_txbytes :: nat
  rq_dqbytes :: nat

record bankgrp_t =
  bg_CCDLc :: nat
  bg_RTPLc :: nat

record bank_t =
  bk_RCDc :: nat
  bk_RCDWRc :: nat
  bk_RASc :: nat
  bk_RPc :: nat
  bk_RCc :: nat
  bk_WTPc :: nat
  bk_RTPc :: nat
  bk_state :: bank_state
  bk_curr_row :: u32
  bk_mrq :: "dram_req option"

record dram =
  dm_bk :: "bank_t list"
  dm_bkgrp :: "bankgrp_t list"
  dm_prio :: nat
  dm_RRDc :: nat
  dm_CCDc :: nat
  dm_RTWc :: nat
  dm_WTRc :: nat
  dm_rw :: dram_rw
  dm_rwq :: "nat pipe"
  dm_mrqq :: "dram_req pipe"
  dm_returnq :: "mfp pipe"
  dm_sched :: frfcfs
  dm_reqs :: "nat \<Rightarrow> dreq_state option"
  dm_next :: nat

definition new_bank_t :: bank_t where
  "new_bank_t = \<lparr>bk_RCDc = 0, bk_RCDWRc = 0, bk_RASc = 0, bk_RPc = 0, bk_RCc = 0, bk_WTPc = 0, bk_RTPc = 0,
     bk_state = BANK_IDLE, bk_curr_row = 0, bk_mrq = None\<rparr>"

definition new_dram :: "dram_config \<Rightarrow> dram option" where
  "new_dram c = do {
     rwq \<leftarrow> new_pipe (dc_CL c) (dc_CL c + 1);
     mrqq \<leftarrow> new_pipe 0 2;
     returnq \<leftarrow> new_pipe 0 (dc_queue_size c);
     Some \<lparr>dm_bk = replicate (dc_nbk c) new_bank_t, dm_bkgrp = replicate (dc_nbkgrp c) \<lparr>bg_CCDLc = 0, bg_RTPLc = 0\<rparr>,
       dm_prio = 0, dm_RRDc = 0, dm_CCDc = 0, dm_RTWc = 0, dm_WTRc = 0, dm_rw = READ, dm_rwq = rwq, dm_mrqq = mrqq,
       dm_returnq = returnq, dm_sched = new_frfcfs (dc_nbk c), dm_reqs = (\<lambda>_. None), dm_next = 0\<rparr>
   }"

definition dram_full :: "dram_config \<Rightarrow> dram \<Rightarrow> bool" where
  "dram_full c s =
     (if dc_queue_size c = 0 then False
      else case dc_scheduler c of
        DRAM_FRFCFS \<Rightarrow> dc_queue_size c \<le> fr_num_pending (dm_sched s)
      | DRAM_FIFO \<Rightarrow> pipe_full (dm_mrqq s))"

definition set_mf_status :: "mem_fetch_status \<Rightarrow> u64 \<Rightarrow> mfp \<Rightarrow> heap \<Rightarrow> heap option" where
  "set_mf_status st now p h = do { mf \<leftarrow> h p; Some (h(p \<mapsto> mf_set_status st now mf)) }"

subsection \<open>\<open>push\<close>\<close>

text \<open>The coordinates were decoded when the \<open>mem_fetch\<close> was made, from its address and origin.\<close>

definition dram_push :: "addr_map \<Rightarrow> u64 \<Rightarrow> mfp \<Rightarrow> heap \<times> dram \<Rightarrow> (heap \<times> dram) option" where
  "dram_push am now p hs = (case hs of (h, s) \<Rightarrow> do {
     mf \<leftarrow> h p;
     tlx \<leftarrow> addrdec_tlx am (ma_addr (mf_access mf)) (mf_is_gpu mf);
     let req = \<lparr>dr_id = dm_next s, dr_bk = unat (tlx_bk tlx), dr_row = tlx_row tlx,
                dr_cpu = mf_is_cpu mf, dr_gpu = mf_is_gpu mf\<rparr>;
         st = \<lparr>rq_data = p, rq_rw = (if mf_get_is_write mf then WRITE else READ),
                rq_nbytes = unat (mf_data_size mf), rq_txbytes = 0, rq_dqbytes = 0\<rparr> in do {
     h1 \<leftarrow> set_mf_status IN_PARTITION_MC_INTERFACE_QUEUE now p h;
     q \<leftarrow> pipe_push (Some req) (dm_mrqq s);
     Some (h1, s\<lparr>dm_mrqq := q, dm_reqs := (dm_reqs s)(dm_next s \<mapsto> st), dm_next := dm_next s + 1\<rparr>) } })"

subsection \<open>The schedulers\<close>

definition set_bank :: "nat \<Rightarrow> bank_t \<Rightarrow> dram \<Rightarrow> dram" where
  "set_bank j b s = s\<lparr>dm_bk := (dm_bk s)[j := b]\<rparr>"

definition req_data :: "dram_req \<Rightarrow> dram \<Rightarrow> mfp option" where
  "req_data req s = map_option rq_data (dm_reqs s (dr_id req))"

definition scheduler_fifo :: "u64 \<Rightarrow> heap \<times> dram \<Rightarrow> (heap \<times> dram) option" where
  "scheduler_fifo now hs = (case hs of (h, s) \<Rightarrow>
     if pipe_empty (dm_mrqq s) then Some (h, s)
     else do {
       req \<leftarrow> pipe_top (dm_mrqq s);
       p \<leftarrow> req_data req s;
       h1 \<leftarrow> set_mf_status IN_PARTITION_MC_BANK_ARB_QUEUE now p h;
       ensure (dr_bk req < length (dm_bk s));
       (if bk_mrq (dm_bk s ! dr_bk req) = None then do {
          (r, q) \<leftarrow> pipe_pop (dm_mrqq s);
          Some (h1, set_bank (dr_bk req) ((dm_bk s ! dr_bk req)\<lparr>bk_mrq := r\<rparr>) (s\<lparr>dm_mrqq := q\<rparr>)) }
        else Some (h1, s)) })"

text \<open>The loop that moves requests from \<open>mrqq\<close> to the scheduler; a turn shortens \<open>mrqq\<close>, so its length is
  fuel enough.\<close>

fun take_reqs :: "dram_config \<Rightarrow> u64 \<Rightarrow> nat \<Rightarrow> heap \<times> dram \<Rightarrow> (heap \<times> dram) option" where
  "take_reqs c now 0 hs = Some hs"
| "take_reqs c now (Suc n) (h, s) =
     (if pipe_empty (dm_mrqq s) \<or> dc_queue_size c \<noteq> 0 \<and> \<not> fr_num_pending (dm_sched s) < dc_queue_size c
      then Some (h, s)
      else do {
        (r, q) \<leftarrow> pipe_pop (dm_mrqq s);
        req \<leftarrow> r;
        p \<leftarrow> req_data req s;
        h1 \<leftarrow> set_mf_status IN_PARTITION_MC_INPUT_QUEUE now p h;
        sch \<leftarrow> add_req req (dm_sched s);
        take_reqs c now n (h1, s\<lparr>dm_mrqq := q, dm_sched := sch\<rparr>) })"

text \<open>The loop over the banks, up to the first that gets a request.\<close>

fun give_bank :: "dram_config \<Rightarrow> u64 \<Rightarrow> u64 \<Rightarrow> nat list \<Rightarrow> heap \<times> dram \<Rightarrow> (heap \<times> dram) option" where
  "give_bank c cyc now [] hs = Some hs"
| "give_bank c cyc now (i # is) (h, s) =
     (let b = (i + dm_prio s) mod dc_nbk c; bank = dm_bk s ! b in
      if bk_mrq bank = None then do {
        (r, sch) \<leftarrow> schedule cyc b (bk_curr_row bank) (dm_sched s);
        (case r of
           None \<Rightarrow> give_bank c cyc now is (h, s\<lparr>dm_sched := sch\<rparr>)
         | Some req \<Rightarrow> do {
             p \<leftarrow> req_data req s;
             h1 \<leftarrow> set_mf_status IN_PARTITION_MC_BANK_ARB_QUEUE now p h;
             Some (h1, set_bank b (bank\<lparr>bk_mrq := Some req\<rparr>)
               (s\<lparr>dm_sched := sch, dm_prio := (dm_prio s + 1) mod dc_nbk c\<rparr>)) }) }
      else give_bank c cyc now is (h, s))"

definition scheduler_frfcfs :: "dram_config \<Rightarrow> u64 \<Rightarrow> u64 \<Rightarrow> heap \<times> dram \<Rightarrow> (heap \<times> dram) option" where
  "scheduler_frfcfs c cyc now hs = do {
     hs1 \<leftarrow> take_reqs c now (q_length (dm_mrqq (snd hs))) hs;
     give_bank c cyc now [0 ..< dc_nbk c] hs1
   }"

subsection \<open>Commands\<close>

datatype dram_cmd = RD nat u32 | WR nat u32 | ACT nat u32 | PRE nat

definition read_ready :: "dram_config \<Rightarrow> dram \<Rightarrow> nat \<Rightarrow> nat \<Rightarrow> dram_req \<Rightarrow> dreq_state \<Rightarrow> bool" where
  "read_ready c s j g req st \<longleftrightarrow> dm_CCDc s = 0 \<and> bk_RCDc (dm_bk s ! j) = 0 \<and> bg_CCDLc (dm_bkgrp s ! g) = 0 \<and>
     bk_curr_row (dm_bk s ! j) = dr_row req \<and> rq_rw st = READ \<and> dm_WTRc s = 0 \<and>
     bk_state (dm_bk s ! j) = BANK_ACTIVE \<and> \<not> pipe_full (dm_rwq s)"

definition write_ready :: "dram_config \<Rightarrow> dram \<Rightarrow> nat \<Rightarrow> nat \<Rightarrow> dram_req \<Rightarrow> dreq_state \<Rightarrow> bool" where
  "write_ready c s j g req st \<longleftrightarrow> dm_CCDc s = 0 \<and> bk_RCDWRc (dm_bk s ! j) = 0 \<and> bg_CCDLc (dm_bkgrp s ! g) = 0 \<and>
     bk_curr_row (dm_bk s ! j) = dr_row req \<and> rq_rw st = WRITE \<and> dm_RTWc s = 0 \<and>
     bk_state (dm_bk s ! j) = BANK_ACTIVE \<and> \<not> pipe_full (dm_rwq s)"

definition act_ready :: "dram \<Rightarrow> nat \<Rightarrow> bool" where
  "act_ready s j \<longleftrightarrow> dm_RRDc s = 0 \<and> bk_state (dm_bk s ! j) = BANK_IDLE \<and> bk_RPc (dm_bk s ! j) = 0 \<and>
     bk_RCc (dm_bk s ! j) = 0"

definition pre_ready :: "dram \<Rightarrow> nat \<Rightarrow> nat \<Rightarrow> dram_req \<Rightarrow> bool" where
  "pre_ready s j g req \<longleftrightarrow> bk_curr_row (dm_bk s ! j) \<noteq> dr_row req \<and> bk_state (dm_bk s ! j) = BANK_ACTIVE \<and>
     bk_RASc (dm_bk s ! j) = 0 \<and> bk_WTPc (dm_bk s ! j) = 0 \<and> bk_RTPc (dm_bk s ! j) = 0 \<and> bg_RTPLc (dm_bkgrp s ! g) = 0"

text \<open>What a read and a write have in common: the direction of the bus, the atom in \<open>rwq\<close> and the counters
  \<open>CCDc\<close> and \<open>CCDLc\<close>; the bank lets go of a request whose last atom it is.\<close>

definition column_cmd ::
  "dram_config \<Rightarrow> dram_rw \<Rightarrow> nat \<Rightarrow> nat \<Rightarrow> nat \<Rightarrow> dreq_state \<Rightarrow> dram \<Rightarrow> dram option" where
  "column_cmd c dir j g i st s = do {
     q \<leftarrow> (if dm_rw s \<noteq> dir then set_min_length (case dir of READ \<Rightarrow> dc_CL c | WRITE \<Rightarrow> dc_WL c) (dm_rwq s)
           else Some (dm_rwq s));
     q1 \<leftarrow> pipe_push (Some i) q;
     let tx = rq_txbytes st + dc_atom_size c; b = dm_bk s ! j in
     Some (set_bank j (if tx < rq_nbytes st then b else b\<lparr>bk_mrq := None\<rparr>)
       (s\<lparr>dm_rw := dir, dm_rwq := q1, dm_reqs := (dm_reqs s)(i \<mapsto> st\<lparr>rq_txbytes := tx\<rparr>),
          dm_CCDc := dc_CCD c, dm_bkgrp := (dm_bkgrp s)[g := (dm_bkgrp s ! g)\<lparr>bg_CCDLc := dc_CCDL c\<rparr>]\<rparr>)) }"

definition read_cmd :: "dram_config \<Rightarrow> nat \<Rightarrow> nat \<Rightarrow> nat \<Rightarrow> dreq_state \<Rightarrow> dram \<Rightarrow> dram option" where
  "read_cmd c j g i st s = do {
     s1 \<leftarrow> column_cmd c READ j g i st s;
     Some (set_bank j ((dm_bk s1 ! j)\<lparr>bk_RTPc := dc_burst_cycles c\<rparr>)
       (s1\<lparr>dm_RTWc := dc_RTW c, dm_bkgrp := (dm_bkgrp s1)[g := (dm_bkgrp s1 ! g)\<lparr>bg_RTPLc := dc_RTPL c\<rparr>]\<rparr>)) }"

definition write_cmd :: "dram_config \<Rightarrow> nat \<Rightarrow> nat \<Rightarrow> nat \<Rightarrow> dreq_state \<Rightarrow> dram \<Rightarrow> dram option" where
  "write_cmd c j g i st s = do {
     s1 \<leftarrow> column_cmd c WRITE j g i st s;
     Some (set_bank j ((dm_bk s1 ! j)\<lparr>bk_WTPc := dc_WTP c\<rparr>) (s1\<lparr>dm_WTRc := dc_WTR c\<rparr>)) }"

definition act_cmd :: "dram_config \<Rightarrow> nat \<Rightarrow> dram_req \<Rightarrow> dram \<Rightarrow> dram" where
  "act_cmd c j req s =
     set_bank j ((dm_bk s ! j)\<lparr>bk_curr_row := dr_row req, bk_state := BANK_ACTIVE, bk_RCDc := dc_RCD c,
         bk_RCDWRc := dc_RCDWR c, bk_RASc := dc_RAS c, bk_RCc := dc_RC c\<rparr>)
       (s\<lparr>dm_RRDc := dc_RRD c, dm_prio := (j + 1) mod dc_nbk c\<rparr>)"

definition pre_cmd :: "dram_config \<Rightarrow> nat \<Rightarrow> dram \<Rightarrow> dram" where
  "pre_cmd c j s =
     set_bank j ((dm_bk s ! j)\<lparr>bk_state := BANK_IDLE, bk_RPc := dc_RP c\<rparr>) (s\<lparr>dm_prio := (j + 1) mod dc_nbk c\<rparr>)"

text \<open>One turn of the loop over the banks; \<open>issued\<close> is the command of the cycle so far.  \<open>prio\<close> is read anew in
  every turn.  An access beyond the last bank group is \<open>None\<close>.  A bank group beyond the last, an access out of bounds, is \<open>None\<close>.\<close>

definition bank_turn ::
  "dram_config \<Rightarrow> u64 \<Rightarrow> nat \<Rightarrow> heap \<times> dram \<times> dram_cmd option \<Rightarrow> (heap \<times> dram \<times> dram_cmd option) option" where
  "bank_turn c now i hsc = (case hsc of (h, s, issued) \<Rightarrow>
     let j = (i + dm_prio s) mod dc_nbk c; g = j div 2 ^ dc_bk_tag_length c in
     case bk_mrq (dm_bk s ! j) of
       None \<Rightarrow> Some (h, s, issued)
     | Some req \<Rightarrow> do {
         st \<leftarrow> dm_reqs s (dr_id req);
         h1 \<leftarrow> set_mf_status IN_PARTITION_DRAM now (rq_data st) h;
         ensure (g < length (dm_bkgrp s));
         (if issued \<noteq> None then Some (h1, s, issued)
          else if read_ready c s j g req st then do { s' \<leftarrow> read_cmd c j g (dr_id req) st s; Some (h1, s', Some (RD j (dr_row req))) }
          else if write_ready c s j g req st then do { s' \<leftarrow> write_cmd c j g (dr_id req) st s; Some (h1, s', Some (WR j (dr_row req))) }
          else if act_ready s j then Some (h1, act_cmd c j req s, Some (ACT j (dr_row req)))
          else if pre_ready s j g req then Some (h1, pre_cmd c j s, Some (PRE j))
          else Some (h1, s, None)) })"

subsection \<open>\<open>cycle\<close>\<close>

text \<open>An atom leaves \<open>rwq\<close>; \<open>done\<close> is the write-back the request was, when it was its last: the callback
  \<open>set_done\<close> of the partition, after which the \<open>mem_fetch\<close> is deleted.\<close>

definition data_out :: "dram_config \<Rightarrow> u64 \<Rightarrow> heap \<times> dram \<Rightarrow> (heap \<times> dram \<times> mfp option) option" where
  "data_out c now hs = (case hs of (h, s) \<Rightarrow>
     if pipe_full (dm_returnq s) then Some (h, s, None)
     else do {
       (cmd, q) \<leftarrow> pipe_pop (dm_rwq s);
       (case cmd of
          None \<Rightarrow> Some (h, s\<lparr>dm_rwq := q\<rparr>, None)
        | Some i \<Rightarrow> do {
            st \<leftarrow> dm_reqs s i;
            let dq = rq_dqbytes st + dc_atom_size c; s1 = s\<lparr>dm_rwq := q\<rparr> in
            if dq < rq_nbytes st then Some (h, s1\<lparr>dm_reqs := (dm_reqs s)(i \<mapsto> st\<lparr>rq_dqbytes := dq\<rparr>)\<rparr>, None)
            else do {
              h1 \<leftarrow> set_mf_status IN_PARTITION_MC_RETURNQ now (rq_data st) h;
              mf \<leftarrow> h1 (rq_data st);
              let s2 = s1\<lparr>dm_reqs := (dm_reqs s)(i := None)\<rparr> in
              if mf_get_access_type mf \<noteq> L1_WRBK_ACC \<and> mf_get_access_type mf \<noteq> L2_WRBK_ACC then do {
                mf' \<leftarrow> mf_set_reply mf;
                rq \<leftarrow> pipe_push (Some (rq_data st)) (dm_returnq s);
                Some (h1(rq_data st \<mapsto> mf'), s2\<lparr>dm_returnq := rq\<rparr>, None) }
              else Some (h1(rq_data st := None), s2, Some (rq_data st)) } }) })"

definition dec_bank :: "bank_t \<Rightarrow> bank_t" where
  "dec_bank b = b\<lparr>bk_RCDc := bk_RCDc b - 1, bk_RASc := bk_RASc b - 1, bk_RCc := bk_RCc b - 1,
     bk_RPc := bk_RPc b - 1, bk_RCDWRc := bk_RCDWRc b - 1, bk_WTPc := bk_WTPc b - 1, bk_RTPc := bk_RTPc b - 1\<rparr>"

definition dec_bankgrp :: "bankgrp_t \<Rightarrow> bankgrp_t" where
  "dec_bankgrp g = g\<lparr>bg_CCDLc := bg_CCDLc g - 1, bg_RTPLc := bg_RTPLc g - 1\<rparr>"

definition dec_counters :: "dram \<Rightarrow> dram" where
  "dec_counters s = s\<lparr>dm_RRDc := dm_RRDc s - 1, dm_CCDc := dm_CCDc s - 1, dm_RTWc := dm_RTWc s - 1,
     dm_WTRc := dm_WTRc s - 1, dm_bk := map dec_bank (dm_bk s), dm_bkgrp := map dec_bankgrp (dm_bkgrp s)\<rparr>"

definition run_scheduler :: "dram_config \<Rightarrow> u64 \<Rightarrow> u64 \<Rightarrow> heap \<times> dram \<Rightarrow> (heap \<times> dram) option" where
  "run_scheduler c cyc now hs =
     (case dc_scheduler c of DRAM_FIFO \<Rightarrow> scheduler_fifo now hs | DRAM_FRFCFS \<Rightarrow> scheduler_frfcfs c cyc now hs)"

definition dram_cycle ::
  "dram_config \<Rightarrow> u64 \<Rightarrow> u64 \<Rightarrow> heap \<times> dram \<Rightarrow> (heap \<times> dram \<times> dram_cmd option \<times> mfp option) option" where
  "dram_cycle c cyc now hs = do {
     (h1, s1, done) \<leftarrow> data_out c now hs;
     hs2 \<leftarrow> run_scheduler c cyc now (h1, s1);
     (h3, s3, cmd) \<leftarrow> fold_opt (bank_turn c now) [0 ..< dc_nbk c] (fst hs2, snd hs2, None);
     Some (h3, dec_counters s3, cmd, done)
   }"

definition dram_pop :: "heap \<times> dram \<Rightarrow> (mfp option \<times> heap \<times> dram) option" where
  "dram_pop hs = do {
     (p, q) \<leftarrow> pipe_pop (dm_returnq (snd hs));
     Some (p, fst hs, (snd hs)\<lparr>dm_returnq := q\<rparr>)
   }"

end
