(* ===== verification/DramTiming.thy ===== *)
theory DramTiming
  imports Dram
begin

text \<open>
  The commands a memory controller issues (\<open>src/gpgpu-sim/dram.cc\<close>) over any run of pushes, cycles and
  pops: they keep the distances the timing parameters ask for, and the discipline of the row buffers.
\<close>

inductive dram_trace :: "dram_config \<Rightarrow> addr_map \<Rightarrow> dram \<Rightarrow> dram_cmd option list \<Rightarrow> dram \<Rightarrow> bool"
  for c am s where
  trace_start: "dram_trace c am s [] s"
| trace_push: "dram_trace c am s tr t \<Longrightarrow> dram_push am now p (h, t) = Some (h', t') \<Longrightarrow> dram_trace c am s tr t'"
| trace_pop: "dram_trace c am s tr t \<Longrightarrow> dram_pop (h, t) = Some (r, h', t') \<Longrightarrow> dram_trace c am s tr t'"
| trace_cycle: "dram_trace c am s tr t \<Longrightarrow> dram_cycle c cyc now (h, t) = Some (h', t', cmd, d) \<Longrightarrow>
    dram_trace c am s (tr @ [cmd]) t'"

text \<open>The distance \<open>d\<close> from a command to a later one.\<close>

definition bank_group :: "dram_config \<Rightarrow> nat \<Rightarrow> nat" where
  "bank_group c j = j div 2 ^ dc_bk_tag_length c"

definition columns_apart :: "dram_config \<Rightarrow> nat \<Rightarrow> nat \<Rightarrow> nat \<Rightarrow> bool" where
  "columns_apart c i j d \<longleftrightarrow> dc_CCD c \<le> d \<and> (bank_group c i = bank_group c j \<longrightarrow> dc_CCDL c \<le> d)"

fun spaced :: "dram_config \<Rightarrow> dram_cmd \<Rightarrow> dram_cmd \<Rightarrow> nat \<Rightarrow> bool" where
  "spaced c (ACT i _) (ACT j _) d \<longleftrightarrow> dc_RRD c \<le> d \<and> (i = j \<longrightarrow> dc_RC c \<le> d)"
| "spaced c (ACT i _) (RD j _) d \<longleftrightarrow> (i = j \<longrightarrow> dc_RCD c \<le> d)"
| "spaced c (ACT i _) (WR j _) d \<longleftrightarrow> (i = j \<longrightarrow> dc_RCDWR c \<le> d)"
| "spaced c (ACT i _) (PRE j) d \<longleftrightarrow> (i = j \<longrightarrow> dc_RAS c \<le> d)"
| "spaced c (RD i _) (RD j _) d \<longleftrightarrow> columns_apart c i j d"
| "spaced c (RD i _) (WR j _) d \<longleftrightarrow> columns_apart c i j d \<and> dc_RTW c \<le> d"
| "spaced c (WR i _) (RD j _) d \<longleftrightarrow> columns_apart c i j d \<and> dc_WTR c \<le> d"
| "spaced c (WR i _) (WR j _) d \<longleftrightarrow> columns_apart c i j d"
| "spaced c (RD i _) (PRE j) d \<longleftrightarrow> (i = j \<longrightarrow> dc_burst_cycles c \<le> d) \<and> (bank_group c i = bank_group c j \<longrightarrow> dc_RTPL c \<le> d)"
| "spaced c (WR i _) (PRE j) d \<longleftrightarrow> (i = j \<longrightarrow> dc_WTP c \<le> d)"
| "spaced c (PRE i) (ACT j _) d \<longleftrightarrow> (i = j \<longrightarrow> dc_RP c \<le> d)"
| "spaced c _ _ d \<longleftrightarrow> True"

text \<open>The row buffer of a bank after some commands, and the commands it allows.\<close>

definition row_step :: "nat \<Rightarrow> dram_cmd option \<Rightarrow> u32 option \<Rightarrow> u32 option" where
  "row_step j cmd r = (case cmd of Some (ACT i row) \<Rightarrow> if i = j then Some row else r
     | Some (PRE i) \<Rightarrow> if i = j then None else r | _ \<Rightarrow> r)"

definition row_after :: "dram_cmd option list \<Rightarrow> nat \<Rightarrow> u32 option" where
  "row_after tr j = fold (row_step j) tr None"

fun row_allows :: "(nat \<Rightarrow> u32 option) \<Rightarrow> dram_cmd \<Rightarrow> bool" where
  "row_allows rows (RD j row) \<longleftrightarrow> rows j = Some row"
| "row_allows rows (WR j row) \<longleftrightarrow> rows j = Some row"
| "row_allows rows (ACT j row) \<longleftrightarrow> rows j = None"
| "row_allows rows (PRE j) \<longleftrightarrow> rows j \<noteq> None"

subsection \<open>The counters\<close>

text \<open>A counter, the value it is set to, the commands that set it and the commands it blocks.\<close>

datatype counter = RRDc | CCDc | RTWc | WTRc | RCDc nat | RCDWRc nat | RASc nat | RPc nat | RCc nat | WTPc nat
  | RTPc nat | CCDLc nat | RTPLc nat

fun limit :: "dram_config \<Rightarrow> counter \<Rightarrow> nat" where
  "limit c RRDc = dc_RRD c" | "limit c CCDc = dc_CCD c" | "limit c RTWc = dc_RTW c" | "limit c WTRc = dc_WTR c"
| "limit c (RCDc _) = dc_RCD c" | "limit c (RCDWRc _) = dc_RCDWR c" | "limit c (RASc _) = dc_RAS c"
| "limit c (RPc _) = dc_RP c" | "limit c (RCc _) = dc_RC c" | "limit c (WTPc _) = dc_WTP c"
| "limit c (RTPc _) = dc_burst_cycles c" | "limit c (CCDLc _) = dc_CCDL c" | "limit c (RTPLc _) = dc_RTPL c"

fun sets :: "dram_config \<Rightarrow> dram_cmd \<Rightarrow> counter set" where
  "sets c (RD j _) = {CCDc, CCDLc (bank_group c j), RTWc, RTPc j, RTPLc (bank_group c j)}"
| "sets c (WR j _) = {CCDc, CCDLc (bank_group c j), WTRc, WTPc j}"
| "sets c (ACT j _) = {RRDc, RCDc j, RCDWRc j, RASc j, RCc j}"
| "sets c (PRE j) = {RPc j}"

fun blocks :: "dram_config \<Rightarrow> counter \<Rightarrow> dram_cmd \<Rightarrow> bool" where
  "blocks c x (RD j _) \<longleftrightarrow> x \<in> {CCDc, RCDc j, CCDLc (bank_group c j), WTRc}"
| "blocks c x (WR j _) \<longleftrightarrow> x \<in> {CCDc, RCDWRc j, CCDLc (bank_group c j), RTWc}"
| "blocks c x (ACT j _) \<longleftrightarrow> x \<in> {RRDc, RPc j, RCc j}"
| "blocks c x (PRE j) \<longleftrightarrow> x \<in> {RASc j, WTPc j, RTPc j, RTPLc (bank_group c j)}"

lemma spaced_iff: "spaced c a b d \<longleftrightarrow> (\<forall>x. x \<in> sets c a \<longrightarrow> blocks c x b \<longrightarrow> limit c x \<le> d)"
  by (cases a; cases b) (auto simp: columns_apart_def)

definition at_bank :: "(bank_t \<Rightarrow> nat) \<Rightarrow> nat \<Rightarrow> dram \<Rightarrow> nat" where
  "at_bank f j s = (if j < length (dm_bk s) then f (dm_bk s ! j) else 0)"

definition at_grp :: "(bankgrp_t \<Rightarrow> nat) \<Rightarrow> nat \<Rightarrow> dram \<Rightarrow> nat" where
  "at_grp f g s = (if g < length (dm_bkgrp s) then f (dm_bkgrp s ! g) else 0)"

fun ctr :: "dram \<Rightarrow> counter \<Rightarrow> nat" where
  "ctr s RRDc = dm_RRDc s" | "ctr s CCDc = dm_CCDc s" | "ctr s RTWc = dm_RTWc s" | "ctr s WTRc = dm_WTRc s"
| "ctr s (RCDc j) = at_bank bk_RCDc j s" | "ctr s (RCDWRc j) = at_bank bk_RCDWRc j s"
| "ctr s (RASc j) = at_bank bk_RASc j s" | "ctr s (RPc j) = at_bank bk_RPc j s"
| "ctr s (RCc j) = at_bank bk_RCc j s" | "ctr s (WTPc j) = at_bank bk_WTPc j s"
| "ctr s (RTPc j) = at_bank bk_RTPc j s" | "ctr s (CCDLc g) = at_grp bg_CCDLc g s"
| "ctr s (RTPLc g) = at_grp bg_RTPLc g s"

lemma ctr_dec: "ctr (dec_counters s) x = ctr s x - 1"
  by (cases x) (simp_all add: dec_counters_def at_bank_def at_grp_def dec_bank_def dec_bankgrp_def)

text \<open>The open row of a bank.\<close>

definition open_row_of :: "dram \<Rightarrow> nat \<Rightarrow> u32 option" where
  "open_row_of s j = (if j < length (dm_bk s) \<and> bk_state (dm_bk s ! j) = BANK_ACTIVE
     then Some (bk_curr_row (dm_bk s ! j)) else None)"

text \<open>What the parts of a cycle that issue no command leave alone.\<close>

definition same_banks :: "dram_config \<Rightarrow> dram \<Rightarrow> dram \<Rightarrow> bool" where
  "same_banks c s t \<longleftrightarrow> ctr t = ctr s \<and> open_row_of t = open_row_of s \<and> length (dm_bk t) = length (dm_bk s) \<and>
     length (dm_bkgrp t) = length (dm_bkgrp s)"

lemma same_banks_refl [simp]: "same_banks c s s"
  by (simp add: same_banks_def)

lemma same_banks_trans: "same_banks c s t \<Longrightarrow> same_banks c t u \<Longrightarrow> same_banks c s u"
  by (simp add: same_banks_def)

lemma same_banksI:
  assumes "length (dm_bk t) = length (dm_bk s)" "dm_bkgrp t = dm_bkgrp s" "dm_RRDc t = dm_RRDc s" "dm_CCDc t = dm_CCDc s"
    "dm_RTWc t = dm_RTWc s" "dm_WTRc t = dm_WTRc s"
    "\<And>j. j < length (dm_bk s) \<Longrightarrow> \<exists>m. dm_bk t ! j = (dm_bk s ! j)\<lparr>bk_mrq := m\<rparr>"
  shows "same_banks c s t"
proof -
  have b: "at_bank f j t = at_bank f j s" if "\<And>b m. f (b\<lparr>bk_mrq := m\<rparr>) = f b" for f j
    using assms(1) assms(7)[of j] that by (fastforce simp: at_bank_def)
  have "ctr t x = ctr s x" for x by (cases x) (simp_all add: b at_grp_def assms)
  moreover have "open_row_of t j = open_row_of s j" for j
    using assms(1) assms(7)[of j] by (fastforce simp: open_row_of_def)
  ultimately show ?thesis using assms(1,2) by (auto simp: same_banks_def)
qed

lemma set_bank_mrq:
  assumes "same_banks c s t" "b = (dm_bk t ! j)\<lparr>bk_mrq := m\<rparr>"
  shows "same_banks c s (set_bank j b t)"
proof -
  have "same_banks c t (set_bank j b t)"
  proof (rule same_banksI)
    fix k assume "k < length (dm_bk t)"
    then have "dm_bk (set_bank j b t) ! k = (dm_bk t ! k)\<lparr>bk_mrq := if k = j then m else bk_mrq (dm_bk t ! k)\<rparr>"
      using assms(2) by (simp add: set_bank_def nth_list_update)
    then show "\<exists>m. dm_bk (set_bank j b t) ! k = (dm_bk t ! k)\<lparr>bk_mrq := m\<rparr>" by blast
  qed (simp_all add: set_bank_def)
  then show ?thesis by (rule same_banks_trans[OF assms(1)])
qed

lemma same_banks_fields:
  "dm_bk t = dm_bk s \<Longrightarrow> dm_bkgrp t = dm_bkgrp s \<Longrightarrow> dm_RRDc t = dm_RRDc s \<Longrightarrow> dm_CCDc t = dm_CCDc s \<Longrightarrow>
   dm_RTWc t = dm_RTWc s \<Longrightarrow> dm_WTRc t = dm_WTRc s \<Longrightarrow> same_banks c s t"
  by (rule same_banksI) (simp_all, metis bank_t.surjective bank_t.update_convs(10))

lemma take_reqs_banks: "take_reqs c now n (h, s) = Some (h', s') \<Longrightarrow> same_banks c s s'"
proof (induction n arbitrary: h s)
  case (Suc n)
  from Suc.prems show ?case
  proof (cases "pipe_empty (dm_mrqq s) \<or> dc_queue_size c \<noteq> 0 \<and> \<not> fr_num_pending (dm_sched s) < dc_queue_size c")
    case False
    with Suc.prems obtain q sch h1 where "take_reqs c now n (h1, s\<lparr>dm_mrqq := q, dm_sched := sch\<rparr>) = Some (h', s')"
      by (auto elim!: bind_SomeE)
    from Suc.IH[OF this] have "same_banks c (s\<lparr>dm_mrqq := q, dm_sched := sch\<rparr>) s'" .
    then show ?thesis by (rule same_banks_trans[rotated]) (rule same_banks_fields, simp_all)
  qed auto
qed simp

lemma give_bank_banks: "give_bank c cyc now is (h, s) = Some (h', s') \<Longrightarrow> same_banks c s s'"
proof (induction "is" arbitrary: h s)
  case (Cons i "is")
  let ?b = "(i + dm_prio s) mod dc_nbk c"
  show ?case
  proof (cases "bk_mrq (dm_bk s ! ?b) = None")
    case True
    with Cons.prems obtain r sch where r: "schedule cyc ?b (bk_curr_row (dm_bk s ! ?b)) (dm_sched s) = Some (r, sch)"
      by (auto simp: Let_def elim!: bind_SomeE)
    show ?thesis
    proof (cases r)
      case None
      then have "give_bank c cyc now is (h, s\<lparr>dm_sched := sch\<rparr>) = Some (h', s')" using Cons.prems True r by (simp add: Let_def)
      from Cons.IH[OF this] have "same_banks c (s\<lparr>dm_sched := sch\<rparr>) s'" .
      then show ?thesis by (rule same_banks_trans[rotated]) (rule same_banks_fields, simp_all)
    next
      case (Some req)
      then have "s' = set_bank ?b ((dm_bk s ! ?b)\<lparr>bk_mrq := Some req\<rparr>)
          (s\<lparr>dm_sched := sch, dm_prio := (dm_prio s + 1) mod dc_nbk c\<rparr>)"
        using Cons.prems True r by (auto simp: Let_def elim!: bind_SomeE)
      moreover have "same_banks c s (set_bank ?b ((dm_bk s ! ?b)\<lparr>bk_mrq := Some req\<rparr>)
          (s\<lparr>dm_sched := sch, dm_prio := (dm_prio s + 1) mod dc_nbk c\<rparr>))"
        by (rule set_bank_mrq[OF same_banks_fields]) simp_all
      ultimately show ?thesis by simp
    qed
  next
    case False
    then have "give_bank c cyc now is (h, s) = Some (h', s')"
      using Cons.prems by (simp only: give_bank.simps Let_def if_False)
    then show ?thesis by (rule Cons.IH)
  qed
qed simp

lemma run_scheduler_banks:
  assumes "run_scheduler c cyc now (h, s) = Some (h', s')"
  shows "same_banks c s s'"
proof (cases "dc_scheduler c")
  case DRAM_FIFO
  with assms have "scheduler_fifo now (h, s) = Some (h', s')" by (simp add: run_scheduler_def)
  moreover have "same_banks c s (set_bank j ((dm_bk s ! j)\<lparr>bk_mrq := m\<rparr>) (s\<lparr>dm_mrqq := q\<rparr>))" for j m q
    by (rule set_bank_mrq[OF same_banks_fields]) simp_all
  ultimately show ?thesis by (auto simp: scheduler_fifo_def split: if_splits elim!: bind_SomeE)
next
  case DRAM_FRFCFS
  with assms obtain h1 s1 where "take_reqs c now (q_length (dm_mrqq s)) (h, s) = Some (h1, s1)"
    "give_bank c cyc now [0 ..< dc_nbk c] (h1, s1) = Some (h', s')"
    by (auto simp: run_scheduler_def scheduler_frfcfs_def elim!: bind_SomeE)
  then show ?thesis using take_reqs_banks give_bank_banks same_banks_trans by blast
qed

lemma data_out_banks: "data_out c now (h, s) = Some (h', s', d) \<Longrightarrow> same_banks c s s'"
  by (auto simp: data_out_def Let_def split: if_splits option.splits elim!: bind_SomeE intro!: same_banks_fields)

lemma push_pop_banks:
  "dram_push am now p (h, s) = Some (h', s') \<Longrightarrow> same_banks c s s'"
  "dram_pop (h, s) = Some (r, h', s') \<Longrightarrow> same_banks c s s'"
  by (auto simp: dram_push_def dram_pop_def Let_def elim!: bind_SomeE intro!: same_banks_fields)

subsection \<open>A command\<close>

definition issues :: "dram_config \<Rightarrow> dram \<Rightarrow> dram_cmd \<Rightarrow> dram \<Rightarrow> bool" where
  "issues c s b t \<longleftrightarrow> (\<forall>x. blocks c x b \<longrightarrow> ctr s x = 0) \<and>
     (\<forall>x. ctr t x = (if x \<in> sets c b then limit c x else ctr s x)) \<and> row_allows (open_row_of s) b \<and>
     (\<forall>j. open_row_of t j = row_step j (Some b) (open_row_of s j)) \<and>
     length (dm_bk t) = length (dm_bk s) \<and> length (dm_bkgrp t) = length (dm_bkgrp s)"

lemmas command_simps = column_cmd_def set_bank_def at_bank_def at_grp_def Let_def open_row_of_def row_step_def
  nth_list_update

lemma read_issues:
  assumes "read_cmd c j (bank_group c j) n st s = Some t" "read_ready c s j (bank_group c j) req st"
    "j < length (dm_bk s)" "bank_group c j < length (dm_bkgrp s)"
  shows "issues c s (RD j (dr_row req)) t"
proof -
  have "ctr t x = (if x \<in> sets c (RD j (dr_row req)) then limit c x else ctr s x)" for x
    using assms(1,3,4) by (cases x) (auto simp: read_cmd_def command_simps elim!: bind_SomeE)
  moreover have "open_row_of t k = row_step k (Some (RD j (dr_row req))) (open_row_of s k)" for k
    using assms(1,3,4) by (auto simp: read_cmd_def command_simps split: if_splits elim!: bind_SomeE)
  moreover have "length (dm_bk t) = length (dm_bk s)" "length (dm_bkgrp t) = length (dm_bkgrp s)"
    using assms(1) by (auto simp: read_cmd_def command_simps elim!: bind_SomeE)
  ultimately show ?thesis using assms(2,3,4) by (auto simp: issues_def read_ready_def at_bank_def at_grp_def open_row_of_def)
qed

lemma write_issues:
  assumes "write_cmd c j (bank_group c j) n st s = Some t" "write_ready c s j (bank_group c j) req st"
    "j < length (dm_bk s)" "bank_group c j < length (dm_bkgrp s)"
  shows "issues c s (WR j (dr_row req)) t"
proof -
  have "ctr t x = (if x \<in> sets c (WR j (dr_row req)) then limit c x else ctr s x)" for x
    using assms(1,3,4) by (cases x) (auto simp: write_cmd_def command_simps elim!: bind_SomeE)
  moreover have "open_row_of t k = row_step k (Some (WR j (dr_row req))) (open_row_of s k)" for k
    using assms(1,3,4) by (auto simp: write_cmd_def command_simps split: if_splits elim!: bind_SomeE)
  moreover have "length (dm_bk t) = length (dm_bk s)" "length (dm_bkgrp t) = length (dm_bkgrp s)"
    using assms(1) by (auto simp: write_cmd_def command_simps elim!: bind_SomeE)
  ultimately show ?thesis using assms(2,3,4) by (auto simp: issues_def write_ready_def at_bank_def at_grp_def open_row_of_def)
qed

lemma act_issues:
  assumes "act_ready s j" "j < length (dm_bk s)"
  shows "issues c s (ACT j (dr_row req)) (act_cmd c j req s)"
proof -
  have "ctr (act_cmd c j req s) x = (if x \<in> sets c (ACT j (dr_row req)) then limit c x else ctr s x)" for x
    using assms(2) by (cases x) (auto simp: act_cmd_def command_simps)
  moreover have "open_row_of (act_cmd c j req s) k = row_step k (Some (ACT j (dr_row req))) (open_row_of s k)" for k
    using assms(2) by (auto simp: act_cmd_def command_simps)
  ultimately show ?thesis using assms
    by (auto simp: issues_def act_ready_def at_bank_def open_row_of_def act_cmd_def set_bank_def)
qed

lemma pre_issues:
  assumes "pre_ready s j (bank_group c j) req" "j < length (dm_bk s)" "bank_group c j < length (dm_bkgrp s)"
  shows "issues c s (PRE j) (pre_cmd c j s)"
proof -
  have "ctr (pre_cmd c j s) x = (if x \<in> sets c (PRE j) then limit c x else ctr s x)" for x
    using assms(2) by (cases x) (auto simp: pre_cmd_def command_simps)
  moreover have "open_row_of (pre_cmd c j s) k = row_step k (Some (PRE j)) (open_row_of s k)" for k
    using assms(2) by (auto simp: pre_cmd_def command_simps)
  ultimately show ?thesis using assms
    by (auto simp: issues_def pre_ready_def at_bank_def at_grp_def open_row_of_def pre_cmd_def set_bank_def)
qed

lemma bank_turn_issues:
  assumes "bank_turn c now i (h, s, issued) = Some (h', s', issued')" "length (dm_bk s) = dc_nbk c" "0 < dc_nbk c"
  shows "issued' = issued \<and> s' = s \<or> issued = None \<and> (\<exists>b. issued' = Some b \<and> issues c s b s')"
proof -
  define j where "j = (i + dm_prio s) mod dc_nbk c"
  have j: "j < length (dm_bk s)" using assms(2,3) by (simp add: j_def)
  show ?thesis
  proof (cases "bk_mrq (dm_bk s ! j)")
    case None
    then show ?thesis using assms(1) by (simp add: bank_turn_def Let_def flip: j_def)
  next
    case (Some req)
    let ?g = "bank_group c j"
    from assms(1) Some obtain st where st: "dm_reqs s (dr_id req) = Some st" and g: "?g < length (dm_bkgrp s)"
      and t: "(if issued \<noteq> None then s' = s \<and> issued' = issued
        else if read_ready c s j ?g req st then read_cmd c j ?g (dr_id req) st s = Some s' \<and> issued' = Some (RD j (dr_row req))
        else if write_ready c s j ?g req st then write_cmd c j ?g (dr_id req) st s = Some s' \<and> issued' = Some (WR j (dr_row req))
        else if act_ready s j then s' = act_cmd c j req s \<and> issued' = Some (ACT j (dr_row req))
        else if pre_ready s j ?g req then s' = pre_cmd c j s \<and> issued' = Some (PRE j)
        else s' = s \<and> issued' = None)"
      by (auto simp: bank_turn_def Let_def bank_group_def simp flip: j_def split: if_splits elim!: bind_SomeE)
    show ?thesis
      using t j g read_issues[of c j "dr_id req" st s s' req] write_issues[of c j "dr_id req" st s s' req]
        act_issues[of s j c req] pre_issues[of s j c req]
      by (auto split: if_splits)
  qed
qed

subsection \<open>A cycle and a run\<close>

lemma cycle_command:
  assumes "dram_cycle c cyc now (h, s) = Some (h', s', cmd, d)" "length (dm_bk s) = dc_nbk c"
  shows "(\<forall>b. cmd = Some b \<longrightarrow> row_allows (open_row_of s) b \<and> (\<forall>x. blocks c x b \<longrightarrow> ctr s x = 0))"
    and "ctr s' x = (if \<exists>b. cmd = Some b \<and> x \<in> sets c b then limit c x else ctr s x) - 1"
    and "open_row_of s' j = row_step j cmd (open_row_of s j)"
    and "length (dm_bk s') = dc_nbk c"
proof -
  from assms(1) obtain h1 s1 d1 hs2 h3 s3 where
    a: "data_out c now (h, s) = Some (h1, s1, d1)" "run_scheduler c cyc now (h1, s1) = Some hs2"
    and f: "fold_opt (bank_turn c now) [0 ..< dc_nbk c] (fst hs2, snd hs2, None) = Some (h3, s3, cmd)"
    and s': "s' = dec_counters s3"
    by (auto simp: dram_cycle_def elim!: bind_SomeE)
  have sb: "same_banks c s (snd hs2)"
    using data_out_banks[OF a(1)] run_scheduler_banks[of c cyc now h1 s1 "fst hs2" "snd hs2"] a(2) same_banks_trans by simp
  let ?I = "\<lambda>_ (h :: heap, t, iss). iss = None \<and> same_banks c s t \<or> (\<exists>b. iss = Some b \<and> issues c s b t)"
  have I: "?I [0 ..< dc_nbk c] (h3, s3, cmd)"
  proof (rule fold_opt_inv[where I = ?I, OF f])
    show "?I [] (fst hs2, snd hs2, None)" using sb by simp
  next
    fix ys x zs t t'
    assume x: "[0 ..< dc_nbk c] = ys @ x # zs" and I: "?I ys t" and t: "bank_turn c now x t = Some t'"
    have "x \<in> set [0 ..< dc_nbk c]" unfolding x by simp
    then have pos: "0 < dc_nbk c" by simp
    obtain h1 s1 i1 h2 s2 i2 where tt: "t = (h1, s1, i1)" "t' = (h2, s2, i2)" by (metis prod_cases3)
    have "length (dm_bk s1) = dc_nbk c" using I assms(2) by (auto simp: tt same_banks_def issues_def)
    from bank_turn_issues[OF t[unfolded tt] this pos] I show "?I (ys @ [x]) t'"
      by (auto simp: tt issues_def same_banks_def)
  qed
  have ctr3: "ctr s3 x = (if \<exists>b. cmd = Some b \<and> x \<in> sets c b then limit c x else ctr s x)" for x
    using I by (auto simp: same_banks_def issues_def)
  show "(\<forall>b. cmd = Some b \<longrightarrow> row_allows (open_row_of s) b \<and> (\<forall>x. blocks c x b \<longrightarrow> ctr s x = 0))"
    using I by (auto simp: issues_def)
  show "ctr s' x = (if \<exists>b. cmd = Some b \<and> x \<in> sets c b then limit c x else ctr s x) - 1"
    unfolding s' ctr_dec ctr3 ..
  have "open_row_of s' j = open_row_of s3 j"
    by (cases "j < length (dm_bk s3)") (simp_all add: s' open_row_of_def dec_counters_def dec_bank_def)
  also have "\<dots> = row_step j cmd (open_row_of s j)" using I by (auto simp: same_banks_def issues_def row_step_def)
  finally show "open_row_of s' j = row_step j cmd (open_row_of s j)" .
  show "length (dm_bk s') = dc_nbk c" using I assms(2) by (auto simp: s' dec_counters_def same_banks_def issues_def)
qed

text \<open>In every state: a counter a command set has come down by at most one per cycle since, and the banks hold
  the rows the commands left open.\<close>

definition timing_inv :: "dram_config \<Rightarrow> dram_cmd option list \<Rightarrow> dram \<Rightarrow> bool" where
  "timing_inv c tr s \<longleftrightarrow> length (dm_bk s) = dc_nbk c \<and> open_row_of s = row_after tr \<and>
     (\<forall>k < length tr. \<forall>a x. tr ! k = Some a \<longrightarrow> x \<in> sets c a \<longrightarrow> limit c x \<le> ctr s x + (length tr - k))"

lemma timing_inv_same: "timing_inv c tr s \<Longrightarrow> same_banks c s t \<Longrightarrow> timing_inv c tr t"
  by (simp add: timing_inv_def same_banks_def)

lemma new_dram_timing: "new_dram c = Some s \<Longrightarrow> timing_inv c [] s"
  by (auto simp: new_dram_def timing_inv_def open_row_of_def row_after_def new_bank_t_def fun_eq_iff elim!: bind_SomeE)

lemma cycle_timing_inv:
  assumes "timing_inv c tr s" "dram_cycle c cyc now (h, s) = Some (h', s', cmd, d)"
  shows "timing_inv c (tr @ [cmd]) s'"
proof -
  have len: "length (dm_bk s) = dc_nbk c" using assms(1) by (simp add: timing_inv_def)
  note C = cycle_command[OF assms(2) len]
  have "limit c x \<le> ctr s' x + (length (tr @ [cmd]) - k)"
    if k: "k < length (tr @ [cmd])" "(tr @ [cmd]) ! k = Some a" "x \<in> sets c a" for k a x
  proof (cases "k = length tr")
    case True
    with k have "cmd = Some a" by simp
    then show ?thesis using C(2)[of x] k(3) True by auto
  next
    case False
    then have "k < length tr" "tr ! k = Some a" using k by (simp_all add: nth_append)
    with assms(1) k(3) have "limit c x \<le> ctr s x + (length tr - k)" by (simp add: timing_inv_def)
    then show ?thesis using C(2)[of x] \<open>k < length tr\<close> by (auto split: if_splits)
  qed
  moreover have "open_row_of s' = row_after (tr @ [cmd])"
    using assms(1) by (simp add: timing_inv_def row_after_def C(3) fun_eq_iff)
  ultimately show ?thesis using C(4) unfolding timing_inv_def by blast
qed

definition obeys :: "dram_config \<Rightarrow> dram_cmd option list \<Rightarrow> nat \<Rightarrow> bool" where
  "obeys c tr m \<longleftrightarrow> (\<forall>b. tr ! m = Some b \<longrightarrow> row_allows (row_after (take m tr)) b \<and>
     (\<forall>k < m. \<forall>a. tr ! k = Some a \<longrightarrow> spaced c a b (m - k)))"

lemma cycle_obeys:
  assumes "timing_inv c tr s" "dram_cycle c cyc now (h, s) = Some (h', s', cmd, d)"
  shows "obeys c (tr @ [cmd]) (length tr)"
proof -
  have len: "length (dm_bk s) = dc_nbk c" using assms(1) by (simp add: timing_inv_def)
  note C = cycle_command(1)[OF assms(2) len]
  have "spaced c a b (length tr - k)" if "cmd = Some b" "k < length tr" "tr ! k = Some a" for a b k
    unfolding spaced_iff
  proof (intro allI impI)
    fix x assume x: "x \<in> sets c a" "blocks c x b"
    then have "ctr s x = 0" using C that(1) by blast
    with assms(1) that x(1) show "limit c x \<le> length tr - k" unfolding timing_inv_def by fastforce
  qed
  moreover have "row_allows (row_after tr) b" if "cmd = Some b" for b
    using C that assms(1) by (simp add: timing_inv_def)
  ultimately show ?thesis by (simp add: obeys_def nth_append)
qed

lemma trace_obeys:
  assumes "dram_trace c am s tr t" "timing_inv c [] s"
  shows "timing_inv c tr t \<and> (\<forall>m < length tr. obeys c tr m)"
  using assms
proof (induction rule: dram_trace.induct)
  case (trace_cycle tr t cyc now h h' t' cmd d)
  then have I: "timing_inv c tr t" "\<forall>m < length tr. obeys c tr m" by simp_all
  have "obeys c (tr @ [cmd]) m" if "m < length tr" for m
    using I(2) that by (simp add: obeys_def nth_append)
  then show ?case using cycle_timing_inv[OF I(1) trace_cycle(2)] cycle_obeys[OF I(1) trace_cycle(2)]
    by (auto simp: less_Suc_eq)
next
  case (trace_push tr t now p h h' t')
  then show ?case using timing_inv_same push_pop_banks(1) by blast
next
  case (trace_pop tr t h r h' t')
  then show ?case using timing_inv_same push_pop_banks(2) by blast
qed simp

text \<open>
  C7: Take any run of a memory controller from its construction: pushes, pops and cycles in any order, with any
  requests, times and memory.  A command issued in cycle \<open>m\<close> comes at least the distance the timing
  parameters ask for after every earlier command of the run: \<open>tRRD\<close> and \<open>tRC\<close> between activations, \<open>tRCD\<close> from an
  activation to a read and \<open>tRCDWR\<close> to a write, \<open>tRAS\<close> to the precharge, \<open>tCCD\<close> between column commands and \<open>tCCDL\<close> in one
  bank group, \<open>tRTW\<close> and \<open>tWTR\<close> when the bus turns, the burst, \<open>tRTPL\<close> and \<open>tWTP\<close> before a precharge and \<open>tRP\<close> after it.
  And it fits the row buffer: a column command is for the row that is open, an activation for a bank
  with no open row, a precharge for a bank with one.
\<close>
theorem dram_timing:
  assumes "new_dram c = Some s" "dram_trace c am s tr t" "m < length tr" "tr ! m = Some b"
  shows "row_allows (row_after (take m tr)) b \<and> (\<forall>k < m. \<forall>a. tr ! k = Some a \<longrightarrow> spaced c a b (m - k))"
  using trace_obeys[OF assms(2) new_dram_timing[OF assms(1)]] assms(3,4) by (simp add: obeys_def)

subsection \<open>Bank groups\<close>

lemma binary_digits_power: "binary_digits (2 ^ k) = Suc k"
proof (induction k)
  case 0
  show ?case by (subst binary_digits.simps, subst binary_digits.simps) simp
next
  case (Suc k)
  have "binary_digits (2 ^ Suc k) = Suc (binary_digits (2 ^ k))" by (subst binary_digits.simps) simp
  then show ?case by (simp add: Suc.IH)
qed

text \<open>
  With \<open>2^a\<close> banks in \<open>2^b\<close> groups, the group whose counters a command uses is not the bank's number divided by
  the banks per group, what \<open>bkgrpindex\<close> records, but half of that: \<open>bk_tag_length\<close> counts the digits of the
  banks per group, one more than the bits of a bank's number in its group, so pairs of groups share the
  counters \<open>CCDLc\<close> and \<open>RTPLc\<close>, and the distances of one group are kept between both.
\<close>
theorem bank_groups_in_pairs:
  assumes "memory_config_init sched n t = Some c" "tm_nbk t = 2 ^ a" "tm_nbkgrp t = 2 ^ b" "b \<le> a" "a < 31"
  shows "bank_group c j = j div (dc_nbk c div dc_nbkgrp c) div 2"
proof -
  have p: "unat (2 ^ k :: u32) = 2 ^ k" if "k < 32" for k
  proof -
    have "(2 :: nat) ^ k < 2 ^ 32" using that by (rule power_strict_increasing) simp
    then have "unat (of_nat (2 ^ k) :: u32) = 2 ^ k" unfolding unat_of_nat by (simp add: take_bit_nat_eq_self)
    then show ?thesis by simp
  qed
  have d: "unat (tm_nbk t div tm_nbkgrp t) = 2 ^ (a - b)"
    unfolding assms(2,3) unat_div_distrib using assms(4,5) by (simp add: p power_diff)
  have "(2 :: int) ^ (a - b) < 2 ^ 31" by (rule power_strict_increasing) (use assms(5) in simp_all)
  then have "uint (tm_nbk t div tm_nbkgrp t) < 2 ^ 31" unfolding uint_nat d by simp
  then have "sint (tm_nbk t div tm_nbkgrp t) = uint (tm_nbk t div tm_nbkgrp t)"
    unfolding sint_uint by (intro signed_take_bit_int_eq_self order_trans[OF _ uint_ge_0]) simp_all
  then have "nat (sint (tm_nbk t div tm_nbkgrp t)) = 2 ^ (a - b)" unfolding uint_nat d by simp
  then have "binary_digits (nat (sint (tm_nbk t div tm_nbkgrp t))) = Suc (a - b)" by (simp only: binary_digits_power)
  moreover have "dc_nbk c div dc_nbkgrp c = 2 ^ (a - b)"
    using assms(1,4,5) by (auto simp: memory_config_init_def Let_def assms(2,3) p power_diff split: if_splits elim!: bind_SomeE)
  moreover have "dc_bk_tag_length c = binary_digits (nat (sint (tm_nbk t div tm_nbkgrp t)))"
    using assms(1) by (auto simp: memory_config_init_def Let_def split: if_splits elim!: bind_SomeE)
  ultimately show ?thesis by (simp add: bank_group_def power_Suc2 div_mult2_eq del: power_Suc)
qed

subsection \<open>Example\<close>

text \<open>The controller of the address map whose fields are all empty: every request is for row 0 of bank 0.\<close>

definition one_bank_map :: addr_map where
  "one_bank_map = (new_addr_map 0 False)\<lparr>am_mask := (\<lambda>_. 0), am_high := (\<lambda>_. 0)\<rparr>"

fun cycles :: "dram_config \<Rightarrow> nat \<Rightarrow> heap \<times> dram \<Rightarrow> (heap \<times> dram \<times> dram_cmd option list) option" where
  "cycles c 0 (h, s) = Some (h, s, [])"
| "cycles c (Suc n) hs = do {
     (h, s, cmds) \<leftarrow> cycles c n hs;
     (h1, s1, cmd, d) \<leftarrow> dram_cycle c 0 0 (h, s);
     Some (h1, s1, cmds @ [cmd]) }"

lemma cycles_trace:
  assumes "dram_trace c am s tr t" "cycles c n (h, t) = Some (h', t', cmds)"
  shows "dram_trace c am s (tr @ cmds) t'"
  using assms(2)
proof (induction n arbitrary: h' t' cmds)
  case (Suc n)
  then obtain h1 t1 cmds1 cmd d where c: "cycles c n (h, t) = Some (h1, t1, cmds1)"
    "dram_cycle c 0 0 (h1, t1) = Some (h', t', cmd, d)" "cmds = cmds1 @ [cmd]"
    by (auto elim!: bind_SomeE)
  from trace_cycle[OF Suc.IH[OF c(1)] c(2)] show ?case by (simp add: c(3))
qed (use assms(1) in simp)

definition small_dram :: dram_config where
  "small_dram = the (memory_config_init DRAM_FRFCFS 4 \<lparr>tm_nbk = 2, tm_nbkgrp = 1, tm_CCD = 2, tm_CCDL = 0, tm_RRD = 2,
     tm_RCD = 3, tm_RAS = 6, tm_RP = 3, tm_RC = 9, tm_CL = 3, tm_WL = 1, tm_CDLR = 2, tm_WR = 3, tm_RTPL = 0, tm_BL = 4,
     tm_freq_ratio = 2, tm_busW = 4, tm_mem_per_ctrlr = 2\<rparr>)"

definition small_dram_start :: "(heap \<times> dram) option" where
  "small_dram_start = do {
     s \<leftarrow> new_dram small_dram;
     dram_push one_bank_map 0 0 ([0 \<mapsto> new_mem_fetch sample_env (mem_access GLOBAL_ACC_R 0 64 False) False 8 0 0 0], s) }"

definition small_dram_run :: "dram_cmd option list option" where
  "small_dram_run = do { hs \<leftarrow> small_dram_start; (h, s, tr) \<leftarrow> cycles small_dram 6 hs; Some tr }"

lemma small_dram_run_commands:
  "small_dram_run = Some [Some (ACT 0 0), None, None, Some (RD 0 0), None, Some (RD 0 0)]"
  by code_simp

text \<open>An activation and two reads.\<close>

theorem dram_timing_witness:
  "\<exists>s tr t. new_dram small_dram = Some s \<and> dram_trace small_dram one_bank_map s tr t \<and>
     tr ! 0 = Some (ACT 0 0) \<and> tr ! 5 = Some (RD 0 0) \<and> row_after (take 5 tr) 0 = Some 0 \<and>
     spaced small_dram (ACT 0 0) (RD 0 0) 5"
proof -
  let ?tr = "[Some (ACT 0 0), None, None, Some (RD 0 0), None, Some (RD 0 0)]"
  from small_dram_run_commands obtain s h0 h1 s1 h2 s2 where n: "new_dram small_dram = Some s"
    "dram_push one_bank_map 0 0 (h0, s) = Some (h1, s1)" "cycles small_dram 6 (h1, s1) = Some (h2, s2, ?tr)"
    by (auto simp: small_dram_run_def small_dram_start_def elim!: bind_SomeE)
  have tr: "dram_trace small_dram one_bank_map s ?tr s2"
    using cycles_trace[OF trace_push[OF trace_start n(2)] n(3)] by simp
  from dram_timing[OF n(1) tr, of 5 "RD 0 0"] have r: "row_after (take 5 ?tr) 0 = Some 0"
    and k: "\<forall>k<5. \<forall>a. ?tr ! k = Some a \<longrightarrow> spaced small_dram a (RD 0 0) (5 - k)" by simp_all
  from k[THEN spec, of 0] have "spaced small_dram (ACT 0 0) (RD 0 0) 5" by simp
  then show ?thesis using n(1) tr r by (intro exI[of _ s] exI[of _ ?tr] exI[of _ s2]) simp
qed

text \<open>The configuration of the Fermi boards: 16 banks in 4 groups.\<close>

definition fermi_timing :: dram_timing where
  "fermi_timing = \<lparr>tm_nbk = 16, tm_nbkgrp = 4, tm_CCD = 2, tm_CCDL = 3, tm_RRD = 6, tm_RCD = 12, tm_RAS = 28, tm_RP = 12,
     tm_RC = 40, tm_CL = 12, tm_WL = 4, tm_CDLR = 5, tm_WR = 12, tm_RTPL = 2, tm_BL = 8, tm_freq_ratio = 4, tm_busW = 4,
     tm_mem_per_ctrlr = 2\<rparr>"

theorem bank_groups_in_pairs_witness:
  "\<exists>c. memory_config_init DRAM_FRFCFS 16 fermi_timing = Some c \<and> bank_group c 5 = 5 div (dc_nbk c div dc_nbkgrp c) div 2"
proof -
  obtain c where c: "memory_config_init DRAM_FRFCFS 16 fermi_timing = Some c"
    by (simp add: memory_config_init_def fermi_timing_def)
  have "bank_group c 5 = 5 div (dc_nbk c div dc_nbkgrp c) div 2"
    by (rule bank_groups_in_pairs[OF c, where a = 4 and b = 2]) (simp_all add: fermi_timing_def)
  with c show ?thesis by blast
qed

end
