(* ===== verification/Throttle.thy ===== *)
theory Throttle
  imports StdMap
begin

text \<open>
  Dynamic warp throttling: \<open>gpgpu_sim::throttle\<close> and \<open>findWarpLevel\<close>
  (\<open>src/gpgpu-sim/throttling.cc\<close>) with the limit operations of clusters and cores
  (\<open>src/gpgpu-sim/shader.cc\<close>: \<open>set_num_warps\<close>, \<open>dec_num_warps\<close>, \<open>inc_num_warps\<close>,
  \<open>dyncta\<close>).

  A core is the limits of its warp-limiting schedulers and its activity counters; a cluster is
  a list of cores.  The globals of \<open>throttling.cc\<close> that survive a call are the fields of
  \<open>throttle_state\<close>; those written before they are read in every call are local.  The
  comparisons the code makes in \<open>double\<close> are comparisons of integers here: every operand is a
  32-bit count times a dyadic constant, which a double holds exactly (for the 64-bit windows
  of scheme 7 as long as they stay below \<open>2^50\<close>).  \<open>com_to_mem\<close> is computed and never used,
  so the quotient is left out, as is the trace file of scheme 8.
\<close>

datatype congestion_metric_level = LOW | MED | HIGH

record core =
  co_limits :: "u32 list"
  co_active :: u32
  co_active_last :: u32
  co_inactive :: u32
  co_inactive_last :: u32

record throttle_config =
  tc_scheme :: int
  tc_sample_freq :: nat
  tc_threshold :: u32
  tc_num_sched :: nat
  tc_n_clusters :: u32
  tc_cores_per_cluster :: u32
  tc_max_warps :: u32
  tc_initial_limit :: u32

text \<open>The counters \<open>throttle\<close> reads.\<close>

record throttle_in =
  gi_cycle :: u64
  gi_start :: bool
  gi_distro0 :: u32
  gi_distro1 :: u32
  gi_distro2 :: u32
  gi_stall_dramfull :: u32
  gi_stall_icnt2sh :: u32
  gi_memory_waiting :: u32
  gi_ScoreboardSize :: u64
  gi_numMemWarps :: u64
  gi_numPendingWrites :: u64

record throttle_state =
  ts_clusters :: "core list list"
  stall_dramfull_last :: u32
  stall_icnt2sh_last :: u32
  memory_waiting_last :: u32
  memory_waiting_window_last :: u32
  warp_limit_last :: u32
  memory_waiting_avg_past :: u32
  stall_dramfull_avg_past :: u32
  stall_icnt2sh_avg_past :: u32
  stall_avg_past :: u32
  warp_limit_avg_past :: u32
  inactive_cyc_last :: u32
  inactive_cyc_window_last :: u32
  ts_iter :: u32
  moving_avg :: "u32 \<Rightarrow> u32 option"
  ScoreboardSize_last :: u64
  numMemWarps_last :: u64
  numPendingWrites_last :: u64
  warp_limit_sum :: u64
  warp_limit_sum_last :: u64
  warp_limit_num :: u64

subsection \<open>Limits of schedulers, cores and clusters\<close>

definition core_set_num_warps :: "u32 \<Rightarrow> core \<Rightarrow> core" where
  "core_set_num_warps n c = c\<lparr>co_limits := map (\<lambda>_. n) (co_limits c)\<rparr>"

text \<open>The parameter \<open>step\<close> is overwritten in the loop, so it stays 1 for the schedulers after.\<close>

fun dec_limits :: "u32 \<Rightarrow> u32 \<Rightarrow> u32 list \<Rightarrow> u32 list" where
  "dec_limits step mn [] = []"
| "dec_limits step mn (l # ls) =
     (let st = (if l < 8 then 1 else step) in max (l - st) mn # dec_limits st mn ls)"

fun inc_limits :: "u32 \<Rightarrow> u32 \<Rightarrow> u32 list \<Rightarrow> u32 list" where
  "inc_limits step mx [] = []"
| "inc_limits step mx (l # ls) =
     (let st = (if step \<noteq> 4 \<and> l < 8 then 1 else step) in min (l + st) mx # inc_limits st mx ls)"

definition core_dec_num_warps :: "u32 \<Rightarrow> u32 \<Rightarrow> core \<Rightarrow> core" where
  "core_dec_num_warps step mn c = c\<lparr>co_limits := dec_limits step mn (co_limits c)\<rparr>"

definition core_inc_num_warps :: "u32 \<Rightarrow> u32 \<Rightarrow> core \<Rightarrow> core" where
  "core_inc_num_warps step mx c = c\<lparr>co_limits := inc_limits step mx (co_limits c)\<rparr>"

definition core_dyncta :: "throttle_config \<Rightarrow> bool \<Rightarrow> core \<Rightarrow> core" where
  "core_dyncta cfg start c =
     (let w = co_active c - co_active_last c in
      if start then
        (let c' = (if 640 < w then core_inc_num_warps 2 (tc_max_warps cfg) c
                   else if w < 246 then core_dec_num_warps 2 4 c else c)
         in c'\<lparr>co_active_last := co_active c', co_inactive_last := co_inactive c'\<rparr>)
      else c)"

definition all_cores :: "(core \<Rightarrow> core) \<Rightarrow> core list list \<Rightarrow> core list list" where
  "all_cores f cs = map (map f) cs"

text \<open>\<open>m_cluster[0]->get_warp_limit()\<close>: the first scheduler of the first core.\<close>

definition get_warp_limit :: "core list list \<Rightarrow> u32 option" where
  "get_warp_limit cs =
     (case cs of
        ((c # _) # _) \<Rightarrow> (case co_limits c of l # _ \<Rightarrow> Some l | [] \<Rightarrow> None)
      | _ \<Rightarrow> None)"

definition findWarpLevel :: "u32 \<Rightarrow> bool \<Rightarrow> u32" where
  "findWarpLevel l goes_up =
     (if goes_up then
        (if l = 1 then 2 else if l = 2 then 3 else if l = 3 then 4 else if l = 4 then 6
         else if l = 6 then 8 else if l = 8 then 16 else if l = 16 then 24
         else if l = 24 then 48 else if l = 48 then 48 else - 1)
      else
        (if l = 1 then 1 else if l = 2 then 1 else if l = 3 then 2 else if l = 4 then 3
         else if l = 6 then 4 else if l = 8 then 6 else if l = 16 then 8
         else if l = 24 then 16 else if l = 48 then 24 else - 1))"

subsection \<open>Metrics\<close>

text \<open>A 32-bit window against the sampling period: at least 100\% and below 25\%.\<close>

definition stall_level :: "nat \<Rightarrow> u32 \<Rightarrow> congestion_metric_level" where
  "stall_level freq w =
     (if freq \<le> unat w then HIGH else if 4 * unat w < freq then LOW else MED)"

definition com_mem_level :: "u64 \<Rightarrow> u64 \<Rightarrow> congestion_metric_level" where
  "com_mem_level compute pw =
     (if 5 * unat pw \<le> 4 * unat compute then HIGH
      else if 4 * unat compute < 3 * unat pw then LOW else MED)"

text \<open>\<open>x / 4 + (3 * y) / 4\<close> in unsigned arithmetic.\<close>

definition avg4 :: "u32 \<Rightarrow> u32 \<Rightarrow> u32" where
  "avg4 x y = x div 4 + (3 * y) div 4"

text \<open>
  The memory-waiting feedback shared by schemes 3 and 6: the last change of the limit made
  things worse.  Products are 32-bit, the factors 1.25 and 2 are applied in double.
\<close>

definition waiting_worse :: "u32 \<Rightarrow> u32 \<Rightarrow> u32 \<Rightarrow> u32 \<Rightarrow> bool" where
  "waiting_worse limit limit_last w w_last \<longleftrightarrow>
     limit \<noteq> 0 \<and> limit_last \<noteq> 0 \<and>
     (if limit < limit_last
      then 5 * unat (w_last * limit_last) < 4 * unat (w * limit)
      else if limit_last < limit
      then 2 * unat (w * limit) < unat (w_last * limit_last)
      else False)"

subsection \<open>The decision: \<open>(enable_decrement, enable_increment)\<close>\<close>

definition two_metrics :: "congestion_metric_level \<Rightarrow> congestion_metric_level \<Rightarrow> bool \<times> bool" where
  "two_metrics d i =
     (if d = HIGH \<or> i = HIGH then (True, False)
      else if d = LOW \<and> i = LOW then (False, True) else (False, False))"

definition decide ::
  "int \<Rightarrow> congestion_metric_level \<Rightarrow> congestion_metric_level \<Rightarrow> congestion_metric_level \<Rightarrow> bool
   \<Rightarrow> bool \<times> bool" where
  "decide scheme d i cm worse =
     (if scheme = 1 then
        (if d = HIGH then (True, False) else if d = LOW then (False, True) else (False, False))
      else if scheme = 2 then two_metrics d i
      else if scheme = 3 then (if worse then (False, True) else two_metrics d i)
      else if scheme = 5 then (False, False)
      else if scheme = 6 then (if worse then (False, False) else two_metrics d i)
      else if scheme = 7 then
        (if cm = LOW then (True, False) else if cm = HIGH then (False, True) else (False, False))
      else (False, False))"

subsection \<open>Scheme 8\<close>

text \<open>
  \<open>moving_avg[l] * 0.25 + inactive * 0.75\<close>, exact in double and truncated on assignment.
\<close>

definition blend :: "u32 \<Rightarrow> u32 \<Rightarrow> u32" where
  "blend old x = of_nat ((unat old + 3 * unat x) div 4)"

definition moving_update :: "u32 \<Rightarrow> u32 \<Rightarrow> (u32 \<Rightarrow> u32 option) \<Rightarrow> (u32 \<Rightarrow> u32 option)" where
  "moving_update limit inactive mv =
     mv(limit \<mapsto> (case mv limit of Some old \<Rightarrow> blend old inactive | None \<Rightarrow> inactive))"

definition decide8 ::
  "throttle_config \<Rightarrow> u32 \<Rightarrow> u32 \<Rightarrow> u32 \<Rightarrow> congestion_metric_level \<Rightarrow> congestion_metric_level
   \<Rightarrow> (u32 \<Rightarrow> u32 option) \<Rightarrow> bool \<times> bool" where
  "decide8 cfg limit up down d i mv =
     (let th = tc_threshold cfg;
          mx = of_nat (tc_sample_freq cfg) * of_nat (tc_num_sched cfg) * tc_n_clusters cfg *
               tc_cores_per_cluster cfg;
          cur = the (mv limit);
          e0 = two_metrics d i;
          e1 = (case mv up of
                  None \<Rightarrow> e0
                | Some u \<Rightarrow> if cur > u + th \<or> u + th \<ge> mx then (False, True) else e0)
      in (case mv down of
            None \<Rightarrow> e1
          | Some dn \<Rightarrow> if cur + th < dn then (False, snd e1) else e1))"

definition scheme8 ::
  "throttle_config \<Rightarrow> u32 \<Rightarrow> u32 \<Rightarrow> congestion_metric_level \<Rightarrow> congestion_metric_level
   \<Rightarrow> throttle_state \<Rightarrow> throttle_state option" where
  "scheme8 cfg limit inactive d i s = do {
     let up = findWarpLevel limit True;
     ensure (up \<noteq> - 1);
     let down = findWarpLevel limit False;
     ensure (down \<noteq> - 1);
     let mv = moving_update limit inactive (moving_avg s);
     let (dec, inc) = decide8 cfg limit up down d i mv;
     let cs = (if inc then all_cores (core_set_num_warps up) (ts_clusters s)
               else if dec then all_cores (core_set_num_warps down) (ts_clusters s)
               else ts_clusters s);
     now \<leftarrow> get_warp_limit cs;
     let it = (if limit = now then (ts_iter s + 1) mod 5 else 0);
     let cs' = (if it = 4
                then all_cores (core_set_num_warps (if limit < 6 then up else down)) cs
                else cs);
     Some (s\<lparr>ts_clusters := cs', moving_avg := mv, ts_iter := it\<rparr>)
   }"

subsection \<open>\<open>throttle\<close>\<close>

definition throttle_first :: "throttle_config \<Rightarrow> throttle_state \<Rightarrow> throttle_state" where
  "throttle_first cfg s =
     s\<lparr>ts_clusters := all_cores (core_set_num_warps (tc_initial_limit cfg)) (ts_clusters s),
       moving_avg := (\<lambda>_. None)\<rparr>"

text \<open>The part that changes the limits.\<close>

definition throttle_act ::
  "throttle_config \<Rightarrow> throttle_in \<Rightarrow> u32 \<Rightarrow> u32 \<Rightarrow> throttle_state \<Rightarrow> throttle_state option" where
  "throttle_act cfg g limit inactive s =
     (let d = stall_level (tc_sample_freq cfg) (gi_stall_dramfull g - stall_dramfull_last s);
          i = stall_level (tc_sample_freq cfg) (gi_stall_icnt2sh g - stall_icnt2sh_last s);
          sbw = gi_ScoreboardSize g - ScoreboardSize_last s;
          cm = com_mem_level (sbw - (gi_numMemWarps g - numMemWarps_last s))
                             (gi_numPendingWrites g - numPendingWrites_last s);
          worse = waiting_worse limit (warp_limit_last s)
                    (gi_memory_waiting g - memory_waiting_last s) (memory_waiting_window_last s)
      in if tc_scheme cfg = 8 then scheme8 cfg limit inactive d i s
         else
           (let cs = (if tc_scheme cfg = 5 \<or> tc_scheme cfg = 6 \<and> worse
                      then all_cores (core_dyncta cfg (gi_start g)) (ts_clusters s)
                      else ts_clusters s);
                (dec, inc) = decide (tc_scheme cfg) d i cm worse;
                cs' = (if dec then all_cores (core_dec_num_warps 2 1) cs
                       else if inc then all_cores (core_inc_num_warps 2 (tc_max_warps cfg)) cs
                       else cs)
            in Some (s\<lparr>ts_clusters := cs'\<rparr>)))"

definition throttle_sample ::
  "throttle_config \<Rightarrow> throttle_in \<Rightarrow> u32 \<Rightarrow> throttle_state \<Rightarrow> throttle_state option" where
  "throttle_sample cfg g inactive s = do {
     limit \<leftarrow> get_warp_limit (ts_clusters s);
     let dw = gi_stall_dramfull g - stall_dramfull_last s;
     let iw = gi_stall_icnt2sh g - stall_icnt2sh_last s;
     let mw = gi_memory_waiting g - memory_waiting_last s;
     let dc = avg4 dw (stall_dramfull_avg_past s);
     let ic = avg4 iw (stall_icnt2sh_avg_past s);
     let mc = avg4 mw (memory_waiting_avg_past s);
     let lc = avg4 limit (warp_limit_avg_past s);
     s1 \<leftarrow> throttle_act cfg g limit inactive s;
     now \<leftarrow> get_warp_limit (ts_clusters s1);
     let s2 = s1\<lparr>ScoreboardSize_last := gi_ScoreboardSize g,
       numMemWarps_last := gi_numMemWarps g,
       numPendingWrites_last := gi_numPendingWrites g,
       warp_limit_sum_last := warp_limit_sum s,
       warp_limit_sum := warp_limit_sum s + ucast limit,
       warp_limit_num := warp_limit_num s + 1,
       stall_dramfull_last := gi_stall_dramfull g, stall_icnt2sh_last := gi_stall_icnt2sh g,
       stall_dramfull_avg_past := dc, stall_icnt2sh_avg_past := ic, stall_avg_past := max dc ic,
       memory_waiting_last := gi_memory_waiting g, memory_waiting_avg_past := mc,
       warp_limit_avg_past := lc\<rparr>;
     Some (if limit \<noteq> now
           then s2\<lparr>memory_waiting_window_last := mw, warp_limit_last := limit\<rparr> else s2)
   }"

definition throttle :: "throttle_config \<Rightarrow> throttle_in \<Rightarrow> throttle_state \<Rightarrow> throttle_state option" where
  "throttle cfg g s0 =
     (let s = (if gi_cycle g = 1 then throttle_first cfg s0 else s0) in
      if tc_sample_freq cfg = 0 then None
      else if unat (gi_cycle g) mod tc_sample_freq cfg = 0 then do {
        let inactive = gi_distro0 g + gi_distro1 g + gi_distro2 g;
        let window = inactive - inactive_cyc_last s;
        s1 \<leftarrow> (if gi_start g then throttle_sample cfg g window s else Some s);
        Some (s1\<lparr>inactive_cyc_last := inactive, inactive_cyc_window_last := window\<rparr>)
      } else Some s)"

subsection \<open>Limits stay within the hardware\<close>

definition limits_in :: "u32 \<Rightarrow> u32 \<Rightarrow> core list list \<Rightarrow> bool" where
  "limits_in lo hi cs \<longleftrightarrow> (\<forall>cl \<in> set cs. \<forall>c \<in> set cl. \<forall>l \<in> set (co_limits c). lo \<le> l \<and> l \<le> hi)"

lemma limits_in_all_cores:
  assumes "limits_in lo hi cs"
    "\<And>c. \<forall>l \<in> set (co_limits c). lo \<le> l \<and> l \<le> hi \<Longrightarrow> \<forall>l \<in> set (co_limits (f c)). lo' \<le> l \<and> l \<le> hi'"
  shows "limits_in lo' hi' (all_cores f cs)"
  unfolding limits_in_def all_cores_def
proof (intro ballI)
  fix cl c l assume "cl \<in> set (map (map f) cs)" "c \<in> set cl" "l \<in> set (co_limits c)"
  then obtain cl0 c0 where "cl0 \<in> set cs" "c0 \<in> set cl0" "c = f c0" by auto
  with assms(1) assms(2)[of c0] \<open>l \<in> set (co_limits c)\<close> show "lo' \<le> l \<and> l \<le> hi'"
    unfolding limits_in_def by blast
qed

lemma limit_dec:
  fixes l st mn mx :: u32
  assumes "1 \<le> l" "l \<le> mx" "st \<le> 2" "1 \<le> mn" "mn \<le> mx"
  shows "1 \<le> max (l - (if l < 8 then 1 else st)) mn \<and> max (l - (if l < 8 then 1 else st)) mn \<le> mx"
proof -
  have "l - (if l < 8 then 1 else st) \<le> l"
  proof (rule word_sub_le)
    show "(if l < 8 then 1 else st) \<le> l"
      using assms(1,3) by (auto simp: not_less word_le_nat_alt)
  qed
  then show ?thesis using assms by (auto simp: max_def)
qed

lemma dec_limits_in:
  assumes "\<forall>l \<in> set ls. 1 \<le> l \<and> l \<le> mx" "st \<le> 2" "1 \<le> mn" "mn \<le> mx"
  shows "\<forall>l \<in> set (dec_limits st mn ls). 1 \<le> l \<and> l \<le> mx"
  using assms
proof (induction st mn ls rule: dec_limits.induct)
  case (2 st mn l ls)
  let ?st = "if l < 8 then 1 else st"
  have s: "?st \<le> 2" using "2.prems"(2) by (auto simp: word_le_nat_alt)
  have "\<forall>l \<in> set (dec_limits ?st mn ls). 1 \<le> l \<and> l \<le> mx"
    by (rule "2.IH"[OF refl]) (use "2.prems" s in auto)
  then show ?case using limit_dec[of l mx st mn] "2.prems" by (simp add: Let_def)
qed simp

lemma limit_inc:
  fixes l st mx :: u32
  assumes "1 \<le> l" "l \<le> mx" "st \<le> 2" "mx < 2 ^ 31"
  shows "1 \<le> min (l + st) mx \<and> min (l + st) mx \<le> mx"
proof -
  have "unat l + unat st < 2 ^ 32" using assms by (simp add: word_le_nat_alt word_less_nat_alt)
  then have "unat (l + st) = unat l + unat st" by (simp add: unat_word_ariths)
  then have "1 \<le> l + st" using assms(1) by (simp add: word_le_nat_alt)
  then show ?thesis using assms by (auto simp: min_def)
qed

lemma inc_limits_in:
  assumes "\<forall>l \<in> set ls. 1 \<le> l \<and> l \<le> mx" "st \<le> 2" "mx < 2 ^ 31"
  shows "\<forall>l \<in> set (inc_limits st mx ls). 1 \<le> l \<and> l \<le> mx"
  using assms
proof (induction st mx ls rule: inc_limits.induct)
  case (2 st mx l ls)
  let ?st = "if st \<noteq> 4 \<and> l < 8 then 1 else st"
  have s: "?st \<le> 2" using "2.prems"(2) by (auto simp: word_le_nat_alt)
  have "\<forall>l \<in> set (inc_limits ?st mx ls). 1 \<le> l \<and> l \<le> mx"
    by (rule "2.IH"[OF refl]) (use "2.prems" s in auto)
  then show ?case using limit_inc[of l mx ?st] "2.prems" s by (simp add: Let_def)
qed simp

lemma dyncta_in:
  assumes "\<forall>l \<in> set (co_limits c). 1 \<le> l \<and> l \<le> tc_max_warps cfg" "4 \<le> tc_max_warps cfg"
    "tc_max_warps cfg < 2 ^ 31"
  shows "\<forall>l \<in> set (co_limits (core_dyncta cfg start c)). 1 \<le> l \<and> l \<le> tc_max_warps cfg"
proof -
  have i: "\<forall>l \<in> set (inc_limits 2 (tc_max_warps cfg) (co_limits c)). 1 \<le> l \<and> l \<le> tc_max_warps cfg"
    by (rule inc_limits_in[OF assms(1) _ assms(3)]) simp
  have d: "\<forall>l \<in> set (dec_limits 2 4 (co_limits c)). 1 \<le> l \<and> l \<le> tc_max_warps cfg"
    by (rule dec_limits_in[OF assms(1) _ _ assms(2)]) simp_all
  have "co_limits (core_dyncta cfg start c) \<in>
      {co_limits c, inc_limits 2 (tc_max_warps cfg) (co_limits c), dec_limits 2 4 (co_limits c)}"
    by (simp add: core_dyncta_def Let_def core_inc_num_warps_def core_dec_num_warps_def)
  then show ?thesis using i d assms(1) by (elim insertE) (simp_all only: empty_iff)
qed

lemma throttle_act_in:
  assumes "throttle_act cfg g limit inactive s = Some s'" "tc_scheme cfg \<noteq> 8"
    "limits_in 1 (tc_max_warps cfg) (ts_clusters s)" "4 \<le> tc_max_warps cfg" "tc_max_warps cfg < 2 ^ 31"
  shows "limits_in 1 (tc_max_warps cfg) (ts_clusters s')"
proof -
  let ?mx = "tc_max_warps cfg"
  have dy: "limits_in 1 ?mx (all_cores (core_dyncta cfg st) cs)" if "limits_in 1 ?mx cs" for cs st
    by (rule limits_in_all_cores[OF that]) (use dyncta_in assms(4,5) in blast)
  have one: "1 \<le> ?mx" using assms(4) by (simp add: word_le_nat_alt)
  have de: "limits_in 1 ?mx (all_cores (core_dec_num_warps 2 1) cs)" if "limits_in 1 ?mx cs" for cs
  proof (rule limits_in_all_cores[OF that])
    fix c :: core assume a: "\<forall>l \<in> set (co_limits c). 1 \<le> l \<and> l \<le> ?mx"
    have e: "co_limits (core_dec_num_warps 2 1 c) = dec_limits 2 1 (co_limits c)" by (simp add: core_dec_num_warps_def)
    show "\<forall>l \<in> set (co_limits (core_dec_num_warps 2 1 c)). 1 \<le> l \<and> l \<le> ?mx"
      unfolding e by (rule dec_limits_in[OF a _ _ one]) simp_all
  qed
  have inc: "limits_in 1 ?mx (all_cores (core_inc_num_warps 2 ?mx) cs)" if "limits_in 1 ?mx cs" for cs
  proof (rule limits_in_all_cores[OF that])
    fix c :: core assume a: "\<forall>l \<in> set (co_limits c). 1 \<le> l \<and> l \<le> ?mx"
    have e: "co_limits (core_inc_num_warps 2 ?mx c) = inc_limits 2 ?mx (co_limits c)" by (simp add: core_inc_num_warps_def)
    show "\<forall>l \<in> set (co_limits (core_inc_num_warps 2 ?mx c)). 1 \<le> l \<and> l \<le> ?mx"
      unfolding e by (rule inc_limits_in[OF a _ assms(5)]) simp
  qed
  from assms(1,2) show ?thesis using dy de inc assms(3)
    by (auto simp: throttle_act_def Let_def split: prod.splits if_splits)
qed

lemma throttle_sample_clusters:
  assumes "throttle_sample cfg g inactive s = Some s'"
  obtains limit s1 where "get_warp_limit (ts_clusters s) = Some limit"
    "throttle_act cfg g limit inactive s = Some s1" "ts_clusters s' = ts_clusters s1"
    "ts_iter s' = ts_iter s1"
  using assms unfolding throttle_sample_def Let_def
  by (auto elim!: bind_SomeE split: if_splits)

lemma throttle_cases:
  assumes "throttle cfg g s = Some s'"
  defines "s0 \<equiv> if gi_cycle g = 1 then throttle_first cfg s else s"
  shows "ts_clusters s' = ts_clusters s0 \<or>
    (\<exists>limit w s1. get_warp_limit (ts_clusters s0) = Some limit \<and> throttle_act cfg g limit w s0 = Some s1 \<and>
       ts_clusters s' = ts_clusters s1)"
proof -
  show ?thesis
  proof (cases "unat (gi_cycle g) mod tc_sample_freq cfg = 0 \<and> tc_sample_freq cfg \<noteq> 0")
    case False
    with assms(1) have "s' = s0" unfolding throttle_def s0_def[symmetric] Let_def
      by (cases "tc_sample_freq cfg = 0") simp_all
    then show ?thesis by simp
  next
    case True
    with assms(1) obtain w s1 where s1: "(if gi_start g then throttle_sample cfg g w s0 else Some s0) = Some s1"
      and s': "ts_clusters s' = ts_clusters s1"
      unfolding throttle_def s0_def[symmetric] Let_def by (simp only: if_False) (auto elim!: bind_SomeE)
    show ?thesis
    proof (cases "gi_start g")
      case True
      with s1 have "throttle_sample cfg g w s0 = Some s1" by simp
      then show ?thesis by (rule throttle_sample_clusters) (use s' in auto)
    qed (use s1 s' in simp)
  qed
qed

lemma throttle_first_limits:
  "lo \<le> tc_initial_limit cfg \<Longrightarrow> tc_initial_limit cfg \<le> hi \<Longrightarrow>
     limits_in lo hi (ts_clusters (throttle_first cfg s))"
  by (auto simp: throttle_first_def limits_in_def all_cores_def core_set_num_warps_def)

text \<open>
  C37: under every scheme but 8, throttling keeps the limit of every scheduler of every core
  between 1 and \<open>max_warps_per_shader\<close>: no decrement wraps below zero and no increment
  exceeds the maximum, whatever the counters are.
\<close>

theorem throttle_limits_bounded:
  assumes "throttle cfg g s = Some s'" and "tc_scheme cfg \<noteq> 8"
    and "limits_in 1 (tc_max_warps cfg) (ts_clusters s)" and "4 \<le> tc_max_warps cfg"
    and "tc_max_warps cfg < 2 ^ 31" and "1 \<le> tc_initial_limit cfg" and "tc_initial_limit cfg \<le> tc_max_warps cfg"
  shows "limits_in 1 (tc_max_warps cfg) (ts_clusters s')"
proof -
  let ?s0 = "if gi_cycle g = 1 then throttle_first cfg s else s"
  have "limits_in 1 (tc_max_warps cfg) (ts_clusters ?s0)"
    using assms(3,6,7) throttle_first_limits by simp
  with throttle_cases[OF assms(1)] throttle_act_in[OF _ assms(2) _ assms(4,5)] show ?thesis by metis
qed

subsection \<open>The level ladder of scheme 8\<close>

definition warp_levels :: "u32 list" where
  "warp_levels = [1, 2, 3, 4, 6, 8, 16, 24, 48]"

text \<open>
  \<open>findWarpLevel\<close> walks the ladder 1, 2, 3, 4, 6, 8, 16, 24, 48: on a level it returns a
  level, going up and then down (or down and then up) comes back, the ends are fixed points,
  and on any other value it answers the failure value \<open>-1\<close> in both directions.
\<close>

theorem findWarpLevel_ladder:
  "(l \<in> set warp_levels \<longrightarrow>
      findWarpLevel l True \<in> set warp_levels \<and> findWarpLevel l False \<in> set warp_levels \<and>
      (l \<noteq> 48 \<longrightarrow> l < findWarpLevel l True \<and> findWarpLevel (findWarpLevel l True) False = l) \<and>
      (l \<noteq> 1 \<longrightarrow> findWarpLevel l False < l \<and> findWarpLevel (findWarpLevel l False) True = l)) \<and>
   findWarpLevel 48 True = 48 \<and> findWarpLevel 1 False = 1 \<and>
   (l \<notin> set warp_levels \<longrightarrow> findWarpLevel l True = - 1 \<and> findWarpLevel l False = - 1)"
  by (auto simp: warp_levels_def findWarpLevel_def)

text \<open>All schedulers of all cores have the limit \<open>l\<close>.\<close>

definition uniform :: "u32 \<Rightarrow> core list list \<Rightarrow> bool" where
  "uniform l cs \<longleftrightarrow> get_warp_limit cs = Some l \<and> limits_in l l cs"

lemma uniform_set:
  assumes "get_warp_limit cs = Some l0"
  shows "uniform l (all_cores (core_set_num_warps l) cs)"
  using assms
  by (auto simp: uniform_def limits_in_def all_cores_def core_set_num_warps_def get_warp_limit_def
      split: list.splits)

lemma ladder_member:
  "l \<in> set warp_levels \<Longrightarrow> findWarpLevel l b \<in> set warp_levels \<and> findWarpLevel l b \<noteq> - 1"
  by (cases b) (auto simp: warp_levels_def findWarpLevel_def)

lemma scheme8_uniform:
  assumes "uniform l (ts_clusters s)" "l \<in> set warp_levels"
  shows "\<exists>s' l'. scheme8 cfg l w d i s = Some s' \<and> uniform l' (ts_clusters s') \<and>
    l' \<in> {l, findWarpLevel l True, findWarpLevel l False}"
proof -
  let ?up = "findWarpLevel l True" and ?dn = "findWarpLevel l False"
  obtain de ic where e: "decide8 cfg l ?up ?dn d i (moving_update l w (moving_avg s)) = (de, ic)"
    by (cases "decide8 cfg l ?up ?dn d i (moving_update l w (moving_avg s))")
  define cs where "cs = (if ic then all_cores (core_set_num_warps ?up) (ts_clusters s)
      else if de then all_cores (core_set_num_warps ?dn) (ts_clusters s) else ts_clusters s)"
  have g: "get_warp_limit (ts_clusters s) = Some l" using assms(1) by (simp add: uniform_def)
  obtain n where n: "uniform n cs" "n \<in> {l, ?up, ?dn}"
    using uniform_set[OF g] assms(1) by (cases ic; cases de) (auto simp: cs_def)
  then have gn: "get_warp_limit cs = Some n" by (simp add: uniform_def)
  define it where "it = (if l = n then (ts_iter s + 1) mod 5 else 0)"
  define cs' where "cs' = (if it = 4 then all_cores (core_set_num_warps (if l < 6 then ?up else ?dn)) cs else cs)"
  have "scheme8 cfg l w d i s = Some (s\<lparr>ts_clusters := cs', moving_avg := moving_update l w (moving_avg s), ts_iter := it\<rparr>)"
    using ladder_member[OF assms(2)] e gn
    unfolding scheme8_def Let_def e by (simp add: cs_def[symmetric]) (simp add: cs'_def it_def)
  moreover have "\<exists>l'. uniform l' cs' \<and> l' \<in> {l, ?up, ?dn}"
    using n uniform_set[OF gn] by (auto simp: cs'_def)
  ultimately show ?thesis by auto
qed

text \<open>The limit a call starts from: cycle 1 sets the configured one.\<close>

definition start_limit :: "throttle_config \<Rightarrow> throttle_in \<Rightarrow> u32 \<Rightarrow> u32" where
  "start_limit cfg g l = (if gi_cycle g = 1 then tc_initial_limit cfg else l)"

lemma scheme8_step:
  assumes "uniform l (ts_clusters s)" and "l \<in> set warp_levels" and "tc_initial_limit cfg \<in> set warp_levels"
    and "tc_scheme cfg = 8" and "0 < tc_sample_freq cfg"
  shows "\<exists>s' l'. throttle cfg g s = Some s' \<and> uniform l' (ts_clusters s') \<and> l' \<in> set warp_levels \<and>
    l' \<in> {start_limit cfg g l, findWarpLevel (start_limit cfg g l) True, findWarpLevel (start_limit cfg g l) False}"
proof -
  define s0 where "s0 = (if gi_cycle g = 1 then throttle_first cfg s else s)"
  define l0 where "l0 = start_limit cfg g l"
  have "get_warp_limit (ts_clusters s) = Some l" using assms(1) by (simp add: uniform_def)
  from uniform_set[OF this] have u: "uniform l0 (ts_clusters s0)" "l0 \<in> set warp_levels"
    using assms(1-3) by (simp_all add: s0_def l0_def start_limit_def throttle_first_def)
  have th: "throttle cfg g s = (if unat (gi_cycle g) mod tc_sample_freq cfg = 0 then do {
        s1 \<leftarrow> (if gi_start g then throttle_sample cfg g (gi_distro0 g + gi_distro1 g + gi_distro2 g - inactive_cyc_last s0) s0 else Some s0);
        Some (s1\<lparr>inactive_cyc_last := gi_distro0 g + gi_distro1 g + gi_distro2 g,
          inactive_cyc_window_last := gi_distro0 g + gi_distro1 g + gi_distro2 g - inactive_cyc_last s0\<rparr>)
      } else Some s0)"
    unfolding throttle_def s0_def[symmetric] Let_def using assms(5) by simp
  have g: "get_warp_limit (ts_clusters s0) = Some l0" using u(1) by (simp add: uniform_def)
  show ?thesis unfolding l0_def[symmetric]
  proof (cases "unat (gi_cycle g) mod tc_sample_freq cfg = 0 \<and> gi_start g")
    case False
    then show "\<exists>s' l'. throttle cfg g s = Some s' \<and> uniform l' (ts_clusters s') \<and> l' \<in> set warp_levels \<and>
        l' \<in> {l0, findWarpLevel l0 True, findWarpLevel l0 False}"
      unfolding th using u by (auto intro!: exI[of _ l0])
  next
    case True
    let ?w = "gi_distro0 g + gi_distro1 g + gi_distro2 g - inactive_cyc_last s0"
    let ?d = "stall_level (tc_sample_freq cfg) (gi_stall_dramfull g - stall_dramfull_last s0)"
    let ?i = "stall_level (tc_sample_freq cfg) (gi_stall_icnt2sh g - stall_icnt2sh_last s0)"
    from scheme8_uniform[OF u, of cfg ?w ?d ?i] obtain s1 l' where
      s1: "scheme8 cfg l0 ?w ?d ?i s0 = Some s1" "uniform l' (ts_clusters s1)"
      "l' \<in> {l0, findWarpLevel l0 True, findWarpLevel l0 False}" by blast
    have a: "throttle_act cfg g l0 ?w s0 = Some s1"
      using assms(4) s1(1) by (simp add: throttle_act_def Let_def)
    have now: "get_warp_limit (ts_clusters s1) = Some l'" using s1(2) by (simp add: uniform_def)
    have "\<exists>s2. throttle_sample cfg g ?w s0 = Some s2 \<and> ts_clusters s2 = ts_clusters s1"
      using g a now by (simp add: throttle_sample_def Let_def)
    then obtain s2 where s2: "throttle_sample cfg g ?w s0 = Some s2" "ts_clusters s2 = ts_clusters s1" by blast
    have "l' \<in> set warp_levels" using s1(3) u(2) ladder_member by auto
    with s1(2,3) s2 True show "\<exists>s' l'. throttle cfg g s = Some s' \<and> uniform l' (ts_clusters s') \<and> l' \<in> set warp_levels \<and>
        l' \<in> {l0, findWarpLevel l0 True, findWarpLevel l0 False}" unfolding th by auto
  qed
qed

lemma scheme8_run:
  assumes "uniform l (ts_clusters s)" and "l \<in> set warp_levels" and "tc_initial_limit cfg \<in> set warp_levels"
    and "tc_scheme cfg = 8" and "0 < tc_sample_freq cfg"
  shows "\<exists>s' l'. fold_opt (throttle cfg) gs s = Some s' \<and> uniform l' (ts_clusters s') \<and> l' \<in> set warp_levels"
proof -
  have "\<exists>s'. fold_opt (throttle cfg) gs s = Some s' \<and> (\<exists>l'. uniform l' (ts_clusters s') \<and> l' \<in> set warp_levels)"
  proof (rule fold_opt_total)
    show "\<exists>l'. uniform l' (ts_clusters s) \<and> l' \<in> set warp_levels" using assms(1,2) by blast
    fix ys g zs and t :: throttle_state assume "\<exists>l'. uniform l' (ts_clusters t) \<and> l' \<in> set warp_levels"
    then obtain l' where "uniform l' (ts_clusters t)" "l' \<in> set warp_levels" by blast
    from scheme8_step[OF this assms(3-5), of g]
    show "\<exists>t'. throttle cfg g t = Some t' \<and> (\<exists>l'. uniform l' (ts_clusters t') \<and> l' \<in> set warp_levels)" by blast
  qed
  then show ?thesis by blast
qed

text \<open>
  C24: in every run of calls of \<open>throttle\<close> under scheme 8, the first cycle of a kernel included, that starts
  with one limit for all schedulers, on a level of the ladder, and when the configured initial limit is a
  level too, no call fails an assertion, all schedulers keep one limit, on the ladder, and each call moves it by
  at most one level, from the configured limit in cycle 1 and from the limit before otherwise.
\<close>

theorem scheme8_stays_on_ladder:
  assumes "uniform l (ts_clusters s)" and "l \<in> set warp_levels" and "tc_initial_limit cfg \<in> set warp_levels"
    and "tc_scheme cfg = 8" and "0 < tc_sample_freq cfg"
  shows "\<exists>s1 l1 s2 l2. fold_opt (throttle cfg) gs s = Some s1 \<and> uniform l1 (ts_clusters s1) \<and> l1 \<in> set warp_levels \<and>
    throttle cfg g s1 = Some s2 \<and> uniform l2 (ts_clusters s2) \<and> l2 \<in> set warp_levels \<and>
    l2 \<in> {start_limit cfg g l1, findWarpLevel (start_limit cfg g l1) True, findWarpLevel (start_limit cfg g l1) False}"
proof -
  from scheme8_run[OF assms, of gs] obtain s1 l1 where
    1: "fold_opt (throttle cfg) gs s = Some s1" "uniform l1 (ts_clusters s1)" "l1 \<in> set warp_levels" by blast
  from scheme8_step[OF 1(2,3) assms(3-5), of g] 1 show ?thesis by blast
qed

text \<open>
  With an initial limit that is not a level, as 32 is, the assertion fails at the first sample after cycle 1.
\<close>

lemma scheme8_off_ladder_stops:
  assumes "uniform l (ts_clusters s)" and "l \<notin> set warp_levels" and "tc_scheme cfg = 8" and "gi_start g"
    and "unat (gi_cycle g) mod tc_sample_freq cfg = 0" and "gi_cycle g \<noteq> 1"
  shows "throttle cfg g s = None"
proof -
  have g: "get_warp_limit (ts_clusters s) = Some l" using assms(1) by (simp add: uniform_def)
  have "findWarpLevel l True = - 1" using findWarpLevel_ladder[of l] assms(2) by blast
  then have "throttle_act cfg g l w s = None" for w
    using assms(3) by (simp add: throttle_act_def scheme8_def Let_def)
  then show ?thesis using g assms(4-6) by (simp add: throttle_def throttle_sample_def Let_def)
qed

text \<open>
  Scheme 8 never consults \<open>max_warps_per_shader\<close>: from the level 24, uncongested and
  without history for its neighbours, the limit becomes 48 also on a shader that supports
  fewer warps, although the scheduler's constructor asserts that the limit is within it.
\<close>

theorem scheme8_exceeds_max_warps:
  assumes "uniform 24 (ts_clusters s)" and "tc_max_warps cfg < 48"
    and "moving_avg s 48 = None" and "moving_avg s 16 = None"
  shows "\<exists>s'. scheme8 cfg 24 w LOW LOW s = Some s' \<and> uniform 48 (ts_clusters s') \<and>
    \<not> limits_in 1 (tc_max_warps cfg) (ts_clusters s')"
proof -
  have g: "get_warp_limit (ts_clusters s) = Some 24" using assms(1) by (simp add: uniform_def)
  have u: "uniform 48 (all_cores (core_set_num_warps 48) (ts_clusters s))" by (rule uniform_set[OF g])
  then have n: "get_warp_limit (all_cores (core_set_num_warps 48) (ts_clusters s)) = Some 48"
    by (simp add: uniform_def)
  have "\<exists>cl \<in> set (all_cores (core_set_num_warps 48) (ts_clusters s)). \<exists>c \<in> set cl. 48 \<in> set (co_limits c)"
    using n by (auto simp: get_warp_limit_def split: list.splits)
  then have "\<not> limits_in 1 (tc_max_warps cfg) (all_cores (core_set_num_warps 48) (ts_clusters s))"
    using assms(2) by (force simp: limits_in_def)
  with u n assms(3,4) show ?thesis
    by (simp add: scheme8_def findWarpLevel_def decide8_def two_metrics_def moving_update_def Let_def)
qed

text \<open>
  \<open>dec_num_warps\<close> overwrites its step: once a scheduler of the core has a limit below 8,
  every later scheduler of that core loses 1 instead of 2, whatever its own limit is.
\<close>

theorem dec_num_warps_step_sticks:
  assumes "l < 8"
  shows "dec_limits 2 1 (l # ls) = max (l - 1) 1 # map (\<lambda>x. max (x - 1) 1) ls"
proof -
  have "dec_limits 1 1 ls = map (\<lambda>x. max (x - 1) 1) ls" for ls
    by (induction ls) (simp_all add: Let_def)
  with assms show ?thesis by (simp add: Let_def)
qed

subsection \<open>Concrete instances\<close>

definition sample_cores :: "u32 \<Rightarrow> core list list" where
  "sample_cores l = [[\<lparr>co_limits = [l, l], co_active = 700, co_active_last = 0, co_inactive = 3,
     co_inactive_last = 0\<rparr>]]"

definition sample_tc :: "int \<Rightarrow> throttle_config" where
  "sample_tc sch = \<lparr>tc_scheme = sch, tc_sample_freq = 100, tc_threshold = 10, tc_num_sched = 2,
     tc_n_clusters = 1, tc_cores_per_cluster = 1, tc_max_warps = 32, tc_initial_limit = 24\<rparr>"

definition sample_gi :: throttle_in where
  "sample_gi = \<lparr>gi_cycle = 200, gi_start = True, gi_distro0 = 5, gi_distro1 = 6, gi_distro2 = 7,
     gi_stall_dramfull = 130, gi_stall_icnt2sh = 10, gi_memory_waiting = 9, gi_ScoreboardSize = 50,
     gi_numMemWarps = 20, gi_numPendingWrites = 10\<rparr>"

definition sample_ts :: "u32 \<Rightarrow> throttle_state" where
  "sample_ts l = \<lparr>ts_clusters = sample_cores l, stall_dramfull_last = 0, stall_icnt2sh_last = 0,
     memory_waiting_last = 0, memory_waiting_window_last = 0, warp_limit_last = 0,
     memory_waiting_avg_past = 0, stall_dramfull_avg_past = 0, stall_icnt2sh_avg_past = 0,
     stall_avg_past = 0, warp_limit_avg_past = 0, inactive_cyc_last = 0, inactive_cyc_window_last = 0,
     ts_iter = 0, moving_avg = (\<lambda>_. None), ScoreboardSize_last = 0, numMemWarps_last = 0,
     numPendingWrites_last = 0, warp_limit_sum = 0, warp_limit_sum_last = 0, warp_limit_num = 0\<rparr>"

lemma sample_uniform: "uniform l (ts_clusters (sample_ts l))"
  by (simp add: uniform_def sample_ts_def sample_cores_def get_warp_limit_def limits_in_def)

theorem throttle_limits_bounded_witness:
  "limits_in 1 (tc_max_warps (sample_tc 2))
     (ts_clusters (the (throttle (sample_tc 2) sample_gi (sample_ts 9))))"
proof (rule throttle_limits_bounded)
  show "throttle (sample_tc 2) sample_gi (sample_ts 9) = Some (the (throttle (sample_tc 2) sample_gi (sample_ts 9)))"
    by (rule is_some_the) code_simp
qed code_simp+

theorem findWarpLevel_ladder_witness:
  "findWarpLevel 6 True \<in> set warp_levels \<and> findWarpLevel 5 True = - 1"
  using findWarpLevel_ladder[of 6] findWarpLevel_ladder[of 5] by (simp add: warp_levels_def)

theorem scheme8_stays_on_ladder_witness:
  "\<exists>s1 l1 s2 l2. fold_opt (throttle (sample_tc 8)) [sample_gi, sample_gi\<lparr>gi_cycle := 1\<rparr>] (sample_ts 16) = Some s1 \<and>
    uniform l1 (ts_clusters s1) \<and> l1 \<in> set warp_levels \<and> throttle (sample_tc 8) sample_gi s1 = Some s2 \<and>
    uniform l2 (ts_clusters s2) \<and> l2 \<in> set warp_levels \<and> l2 \<in> {l1, findWarpLevel l1 True, findWarpLevel l1 False}"
proof -
  have c: "start_limit (sample_tc 8) sample_gi l = l" for l by (simp add: start_limit_def sample_gi_def)
  have h: "16 \<in> set warp_levels" "tc_initial_limit (sample_tc 8) \<in> set warp_levels" "tc_scheme (sample_tc 8) = 8"
    "0 < tc_sample_freq (sample_tc 8)" by (simp_all add: warp_levels_def sample_tc_def)
  from scheme8_stays_on_ladder[OF sample_uniform h, of "[sample_gi, sample_gi\<lparr>gi_cycle := 1\<rparr>]" sample_gi]
  show ?thesis unfolding c .
qed

theorem scheme8_exceeds_max_warps_witness:
  "\<exists>s'. scheme8 (sample_tc 8) 24 3 LOW LOW (sample_ts 24) = Some s' \<and> uniform 48 (ts_clusters s') \<and>
    \<not> limits_in 1 (tc_max_warps (sample_tc 8)) (ts_clusters s')"
  by (rule scheme8_exceeds_max_warps[OF sample_uniform]) (simp_all add: sample_tc_def sample_ts_def)

theorem dec_num_warps_step_sticks_witness:
  "dec_limits 2 1 (5 # [20, 30]) = max (5 - 1) 1 # map (\<lambda>x. max (x - 1) 1) [20, 30]"
  by (rule dec_num_warps_step_sticks) simp

end
