(* ===== verification/SimtStack.thy ===== *)
theory SimtStack
  imports Prelude
begin

text \<open>
  \<open>simt_stack\<close> (\<open>src/abstract_hardware_model.h\<close>, \<open>abstract_hardware_model.cc\<close>): the
  post-dominator reconvergence stack of a warp.  \<open>std::bitset\<close> masks are lists of booleans;
  the stack is a list with the top first (the code's \<open>back()\<close>).  Program counters are
  \<open>address_type\<close>, an \<open>unsigned\<close>, with \<open>null_pc\<close> its maximum.
\<close>

datatype op_type = NO_OP | ALU_OP | SFU_OP | ALU_SFU_OP | LOAD_OP | STORE_OP | BRANCH_OP
  | BARRIER_OP | MEMORY_BARRIER_OP | CALL_OPS | RET_OPS

datatype stack_entry_type = STACK_ENTRY_TYPE_NORMAL | STACK_ENTRY_TYPE_CALL

record simt_entry =
  se_pc :: u32
  se_calldepth :: u32
  se_mask :: "bool list"
  se_recvg_pc :: u32
  se_div_cycle :: u64
  se_type :: stack_entry_type

abbreviation null_pc :: u32 where
  "null_pc \<equiv> - 1"

definition no_threads :: "bool list" where
  "no_threads = replicate 32 False"

definition new_simt_entry :: simt_entry where
  "new_simt_entry = \<lparr>se_pc = - 1, se_calldepth = 0, se_mask = no_threads, se_recvg_pc = - 1,
     se_div_cycle = 0, se_type = STACK_ENTRY_TYPE_NORMAL\<rparr>"

definition simt_launch :: "u32 \<Rightarrow> bool list \<Rightarrow> simt_entry list" where
  "simt_launch start_pc m =
     [new_simt_entry\<lparr>se_pc := start_pc, se_calldepth := 1, se_mask := m,
                     se_type := STACK_ENTRY_TYPE_NORMAL\<rparr>]"

definition get_active_mask :: "simt_entry list \<Rightarrow> bool list option" where
  "get_active_mask st = (case st of [] \<Rightarrow> None | e # _ \<Rightarrow> Some (se_mask e))"

definition get_pdom_stack_top_info :: "simt_entry list \<Rightarrow> (u32 \<times> u32) option" where
  "get_pdom_stack_top_info st = (case st of [] \<Rightarrow> None | e # _ \<Rightarrow> Some (se_pc e, se_recvg_pc e))"

definition get_rp :: "simt_entry list \<Rightarrow> u32 option" where
  "get_rp st = (case st of [] \<Rightarrow> None | e # _ \<Rightarrow> Some (se_recvg_pc e))"

definition test :: "bool list \<Rightarrow> nat \<Rightarrow> bool" where
  "test m i \<longleftrightarrow> i < length m \<and> m ! i"

definition any :: "bool list \<Rightarrow> bool" where
  "any m \<longleftrightarrow> True \<in> set m"

text \<open>
  The inner \<open>for\<close>: threads \<open>n-1\<close> down to 0; the state is \<open>tmp_next_pc\<close>, \<open>tmp_active_mask\<close>
  and \<open>top_active_mask\<close>.
\<close>

fun extract_group ::
  "nat \<Rightarrow> bool list \<Rightarrow> u32 list \<Rightarrow> u32 \<Rightarrow> bool list \<Rightarrow> bool list \<Rightarrow> u32 \<times> bool list \<times> bool list" where
  "extract_group 0 dn npc tp tm tops = (tp, tm, tops)"
| "extract_group (Suc i) dn npc tp tm tops =
     (if test tops i then
        (if test dn i then extract_group i dn npc tp tm (tops[i := False])
         else if tp = null_pc
         then extract_group i dn npc (npc ! i) (tm[i := True]) (tops[i := False])
         else if tp = npc ! i
         then extract_group i dn npc tp (tm[i := True]) (tops[i := False])
         else extract_group i dn npc tp tm tops)
      else extract_group i dn npc tp tm tops)"

definition count_set :: "bool list \<Rightarrow> nat" where
  "count_set m = length (filter (\<lambda>b. b) m)"

lemma count_set_clear: "count_set (m[i := False]) \<le> count_set m"
  by (induction m arbitrary: i) (auto simp: count_set_def split: nat.split)

lemma count_set_clear_less: "test m i \<Longrightarrow> count_set (m[i := False]) < count_set m"
  by (induction m arbitrary: i) (auto simp: count_set_def test_def nth_Cons' split: nat.split)

lemma extract_group_count_le:
  "count_set (snd (snd (extract_group n dn npc tp tm tops))) \<le> count_set tops"
proof (induction n dn npc tp tm tops rule: extract_group.induct)
  case (2 i dn npc tp tm tops)
  then show ?case using count_set_clear[of tops i] by (auto intro: order_trans)
qed simp

lemma extract_group_count_less:
  "fst (extract_group n dn npc null_pc tm tops) \<noteq> null_pc \<Longrightarrow>
     count_set (snd (snd (extract_group n dn npc null_pc tm tops))) < count_set tops"
proof (induction n arbitrary: tm tops)
  case (Suc i)
  show ?case
  proof (cases "test tops i")
    case True
    then show ?thesis
      using count_set_clear_less[OF True] Suc.IH[of tm "tops[i := False]"] Suc.prems
        extract_group_count_le[of i dn npc "npc ! i" "tm[i := True]" "tops[i := False]"]
      by (auto intro: le_less_trans less_trans)
  qed (use Suc in simp)
qed simp

lemma extract_group_decreases:
  "(tp, y) = extract_group n dn npc null_pc tm tops \<Longrightarrow> (tm', tops') = y \<Longrightarrow> tp \<noteq> null_pc \<Longrightarrow>
     count_set tops' < count_set tops"
  using extract_group_count_less[of n dn npc tm tops] by (metis fst_conv snd_conv)

subsection \<open>\<open>update\<close>\<close>

text \<open>
  The \<open>while\<close> loop.  The stack is \<open>slot # rest\<close>; \<open>dv\<close> is \<open>warp_diverged\<close>, \<open>nrp\<close> is
  \<open>new_recvg_pc\<close>.  \<open>Inl\<close> is the early return of the call and return cases.
\<close>

function update_loop ::
  "nat \<Rightarrow> bool list \<Rightarrow> u32 list \<Rightarrow> u32 \<Rightarrow> op_type \<Rightarrow> u64 \<Rightarrow> stack_entry_type \<Rightarrow> u32
   \<Rightarrow> bool list \<Rightarrow> bool \<Rightarrow> u32 \<Rightarrow> simt_entry list
   \<Rightarrow> (simt_entry list + simt_entry list) option" where
  "update_loop w dn npc recvg opc cycle top_type top_recvg tops dv nrp st =
     (if \<not> any tops then Some (Inr st)
      else
        (let (tp, tm, tops') = extract_group w dn npc null_pc no_threads tops in
         if tp = null_pc then (if any tops' then None else Some (Inr st))
         else if opc = CALL_OPS then
           (if any tops' then None
            else Some (Inl (new_simt_entry\<lparr>se_pc := tp, se_mask := tm, se_div_cycle := cycle,
                                          se_type := STACK_ENTRY_TYPE_CALL\<rparr> # st)))
         else if opc = RET_OPS \<and> top_type = STACK_ENTRY_TYPE_CALL then
           (if any tops' then None
            else (case st of
                    _ # e # es \<Rightarrow>
                      (if tp = se_recvg_pc e \<and> se_type e \<noteq> STACK_ENTRY_TYPE_CALL
                       then Some (Inl es) else Some (Inl (e\<lparr>se_pc := tp\<rparr> # es)))
                  | _ \<Rightarrow> None))
         else if tp = top_recvg \<and> top_type \<noteq> STACK_ENTRY_TYPE_CALL
         then update_loop w dn npc recvg opc cycle top_type top_recvg tops' dv nrp st
         else
           (case st of
              [] \<Rightarrow> None
            | slot # rest \<Rightarrow>
                (let first = (any tops' \<and> \<not> dv);
                     dv' = (dv \<or> first);
                     nrp' = (if first then recvg else nrp);
                     st1 = (if first \<and> nrp' \<noteq> top_recvg
                            then new_simt_entry #
                                 slot\<lparr>se_pc := nrp', se_div_cycle := cycle\<rparr> # rest
                            else slot # rest)
                 in if dv' \<and> tp = nrp'
                    then update_loop w dn npc recvg opc cycle top_type top_recvg tops' dv' nrp' st1
                    else
                      (let e = (hd st1)\<lparr>se_pc := tp, se_mask := tm\<rparr>;
                           e' = (if dv' then e\<lparr>se_calldepth := 0, se_recvg_pc := nrp'\<rparr>
                                 else e\<lparr>se_recvg_pc := top_recvg\<rparr>)
                       in update_loop w dn npc recvg opc cycle top_type top_recvg tops' dv' nrp'
                            (new_simt_entry # e' # tl st1))))))"
  by pat_completeness auto

termination
proof (relation "measure (\<lambda>(w, dn, npc, recvg, opc, cycle, ty, tr, tops, dv, nrp, st). count_set tops)", goal_cases)
  case 1
  then show ?case by simp
next
  case 2
  then show ?case by (auto intro: extract_group_decreases)
next
  case 3
  then show ?case by (auto intro: extract_group_decreases)
next
  case 4
  then show ?case by (auto intro: extract_group_decreases)
qed

declare update_loop.simps [simp del]

definition simt_update ::
  "nat \<Rightarrow> bool list \<Rightarrow> u32 list \<Rightarrow> u32 \<Rightarrow> op_type \<Rightarrow> u64 \<Rightarrow> simt_entry list
   \<Rightarrow> simt_entry list option" where
  "simt_update w dn npc recvg opc cycle st =
     (case st of
        [] \<Rightarrow> None
      | t # rest \<Rightarrow> do {
          ensure (length npc = w);
          ensure (any (se_mask t));
          r \<leftarrow> update_loop w dn npc recvg opc cycle (se_type t) (se_recvg_pc t) (se_mask t)
                 False null_pc st;
          (case r of
             Inl st' \<Rightarrow> Some st'
           | Inr st' \<Rightarrow> (case st' of [] \<Rightarrow> None | _ # st'' \<Rightarrow> Some st''))
        })"

subsection \<open>One group\<close>

lemma test_update: "test (m[i := b]) j = (if i = j then i < length m \<and> b else test m j)"
  by (auto simp: test_def nth_list_update)

lemma any_test: "any m \<longleftrightarrow> (\<exists>i. test m i)"
  by (auto simp: any_def test_def in_set_conv_nth)

lemma extract_group_lengths:
  "length (fst (snd (extract_group n dn npc tp tm tops))) = length tm"
  "length (snd (snd (extract_group n dn npc tp tm tops))) = length tops"
  by (induction n dn npc tp tm tops rule: extract_group.induct) auto

definition takes :: "bool list \<Rightarrow> u32 list \<Rightarrow> u32 \<Rightarrow> nat \<Rightarrow> bool" where
  "takes dn npc tp i \<longleftrightarrow> test dn i \<or> npc ! i = tp"

lemma extract_group_step:
  assumes "tp \<noteq> null_pc"
  shows "extract_group (Suc i) dn npc tp tm tops =
    (if test tops i \<and> takes dn npc tp i
     then extract_group i dn npc tp (if test dn i then tm else tm[i := True]) (tops[i := False])
     else extract_group i dn npc tp tm tops)"
  using assms by (simp only: extract_group.simps takes_def eq_commute[of "npc ! i"]) simp

lemma extract_group_same:
  assumes "tp \<noteq> null_pc" "n \<le> length tm"
  shows "fst (extract_group n dn npc tp tm tops) = tp \<and>
    test (fst (snd (extract_group n dn npc tp tm tops))) i =
       (test tm i \<or> (i < n \<and> test tops i \<and> \<not> test dn i \<and> takes dn npc tp i)) \<and>
    test (snd (snd (extract_group n dn npc tp tm tops))) i =
       (test tops i \<and> \<not> (i < n \<and> takes dn npc tp i))"
  using assms
proof (induction n arbitrary: tm tops)
  case (Suc n)
  have ih: "fst (extract_group n dn npc tp m t) = tp \<and>
    test (fst (snd (extract_group n dn npc tp m t))) i =
       (test m i \<or> (i < n \<and> test t i \<and> \<not> test dn i \<and> takes dn npc tp i)) \<and>
    test (snd (snd (extract_group n dn npc tp m t))) i =
       (test t i \<and> \<not> (i < n \<and> takes dn npc tp i))" if "length m = length tm" for m t
    by (rule Suc.IH[OF Suc.prems(1)]) (use Suc.prems(2) that in simp)
  show ?case
  proof (cases "test tops n \<and> takes dn npc tp n")
    case True
    have e: "extract_group (Suc n) dn npc tp tm tops =
        extract_group n dn npc tp (if test dn n then tm else tm[n := True]) (tops[n := False])"
      using True by (simp only: extract_group_step[OF Suc.prems(1)] if_True simp_thms)
    have l: "length (if test dn n then tm else tm[n := True]) = length tm" by simp
    show ?thesis unfolding e
      using ih[OF l, of "tops[n := False]"] True Suc.prems(2)
      by (cases "i = n"; cases "test dn n") (simp_all add: test_update less_Suc_eq)
  next
    case False
    have e: "extract_group (Suc n) dn npc tp tm tops = extract_group n dn npc tp tm tops"
      using False by (simp only: extract_group_step[OF Suc.prems(1)] if_False)
    show ?thesis unfolding e using ih[OF refl, of tops] False
      by (cases "i = n") (auto simp: less_Suc_eq)
  qed
qed simp

text \<open>The whole extraction, on a mask that fits the warp and next PCs that are not null.\<close>

definition live_thread :: "bool list \<Rightarrow> bool list \<Rightarrow> nat \<Rightarrow> bool" where
  "live_thread dn tops i \<longleftrightarrow> test tops i \<and> \<not> test dn i"

lemma extract_group_spec:
  assumes "n \<le> length tm" "\<forall>i < n. live_thread dn tops i \<longrightarrow> npc ! i \<noteq> null_pc" "\<forall>i. \<not> test tm i"
    "extract_group n dn npc null_pc tm tops = (tp, tm', tops')"
  shows "(tp \<noteq> null_pc \<longleftrightarrow> (\<exists>i < n. live_thread dn tops i)) \<and>
     (tp \<noteq> null_pc \<longrightarrow> (\<exists>i < n. live_thread dn tops i \<and> npc ! i = tp)) \<and>
     (\<forall>i. test tm' i \<longleftrightarrow> i < n \<and> live_thread dn tops i \<and> npc ! i = tp) \<and>
     (\<forall>i. test tops' i \<longleftrightarrow> test tops i \<and> \<not> (i < n \<and> (test dn i \<or> npc ! i = tp)))"
  using assms
proof (induction n arbitrary: tm tops)
  case (Suc n)
  show ?case
  proof (cases "test tops n")
    case False
    then have nl: "\<not> live_thread dn tops n" by (simp add: live_thread_def)
    have e: "extract_group n dn npc null_pc tm tops = (tp, tm', tops')" using Suc.prems(4) False by simp
    have n: "n \<le> length tm" "\<forall>i < n. live_thread dn tops i \<longrightarrow> npc ! i \<noteq> null_pc"
      using Suc.prems(1,2) by auto
    have tn: "\<not> test tops n" by (rule False)
    show ?thesis using Suc.IH[OF n Suc.prems(3) e] nl tn
      by (simp only: Ex_less_Suc) (auto simp: less_Suc_eq)
  next
    case True
    show ?thesis
    proof (cases "test dn n")
      case d: True
      have nl: "\<not> live_thread dn tops n" using d by (simp add: live_thread_def)
      have lv: "live_thread dn (tops[n := False]) i = live_thread dn tops i" for i
        using d by (auto simp: live_thread_def test_update)
      have e: "extract_group n dn npc null_pc tm (tops[n := False]) = (tp, tm', tops')"
        using Suc.prems(4) True d by simp
      have n: "n \<le> length tm" "\<forall>i < n. live_thread dn (tops[n := False]) i \<longrightarrow> npc ! i \<noteq> null_pc"
        using Suc.prems(1,2) by (auto simp: lv)
      show ?thesis using Suc.IH[OF n Suc.prems(3) e, unfolded lv] nl d
        by (simp only: Ex_less_Suc) (auto simp: less_Suc_eq test_update)
    next
      case nd: False
      have l: "live_thread dn tops n" using True nd by (simp add: live_thread_def)
      have np: "npc ! n \<noteq> null_pc" using Suc.prems(2) l by simp
      have e: "extract_group n dn npc (npc ! n) (tm[n := True]) (tops[n := False]) = (tp, tm', tops')"
        using Suc.prems(4) True nd by simp
      have n: "n \<le> length (tm[n := True])" using Suc.prems(1) by simp
      note sm = extract_group_same[OF np n, of dn npc "tops[n := False]", unfolded e fst_conv snd_conv]
      have tp: "tp = npc ! n" using sm by blast
      have t1: "test tm' i = (i < Suc n \<and> live_thread dn tops i \<and> npc ! i = npc ! n)" for i
        using sm[of i] l Suc.prems(1,3) by (auto simp: live_thread_def takes_def test_update less_Suc_eq)
      have t2: "test tops' i = (test tops i \<and> \<not> (i < Suc n \<and> (test dn i \<or> npc ! i = npc ! n)))" for i
        using sm[of i] by (auto simp: takes_def test_update less_Suc_eq)
      show ?thesis unfolding tp using t1 t2 np l by blast
    qed
  qed
qed simp

subsection \<open>What the loop leaves on the stack\<close>

text \<open>
  \<open>groups_ok dn npc tops skip ents\<close>: the entries \<open>ents\<close> partition the live threads of the
  mask \<open>tops\<close> by next PC; threads whose next PC is in \<open>skip\<close> have reached a reconvergence
  point and belong to the entry below.
\<close>

definition groups_ok ::
  "bool list \<Rightarrow> u32 list \<Rightarrow> bool list \<Rightarrow> (u32 \<Rightarrow> bool) \<Rightarrow> simt_entry list \<Rightarrow> bool" where
  "groups_ok dn npc tops skip ents \<longleftrightarrow>
     distinct (map se_pc ents) \<and>
     (\<forall>e \<in> set ents. \<not> skip (se_pc e) \<and> any (se_mask e) \<and>
        (\<forall>i. test (se_mask e) i \<longleftrightarrow> live_thread dn tops i \<and> npc ! i = se_pc e)) \<and>
     (\<forall>i. live_thread dn tops i \<longrightarrow> skip (npc ! i) \<or> npc ! i \<in> se_pc ` set ents)"

definition mask_fits :: "nat \<Rightarrow> bool list \<Rightarrow> u32 list \<Rightarrow> bool list \<Rightarrow> bool" where
  "mask_fits w dn npc tops \<longleftrightarrow> w \<le> 32 \<and> (\<forall>i. test tops i \<longrightarrow> i < w) \<and>
     (\<forall>i < w. live_thread dn tops i \<longrightarrow> npc ! i \<noteq> null_pc)"

text \<open>One extraction, on a mask that fits.\<close>

lemma extract_fits:
  assumes "mask_fits w dn npc tops" "extract_group w dn npc null_pc no_threads tops = (tp, tm, tops')"
  shows "tp \<noteq> null_pc \<Longrightarrow> any tm"
    "test tm i \<longleftrightarrow> live_thread dn tops i \<and> npc ! i = tp"
    "tp = null_pc \<Longrightarrow> \<not> any tops'" "tp = null_pc \<Longrightarrow> \<not> live_thread dn tops i"
    "live_thread dn tops' i \<longleftrightarrow> live_thread dn tops i \<and> npc ! i \<noteq> tp"
    "mask_fits w dn npc tops'" "\<not> test dn i \<or> \<not> test tops' i"
proof -
  have w: "w \<le> length no_threads" and np: "\<forall>i < w. live_thread dn tops i \<longrightarrow> npc ! i \<noteq> null_pc"
    and fit: "\<And>i. test tops i \<Longrightarrow> i < w"
    using assms(1) by (auto simp: mask_fits_def no_threads_def)
  have nt: "\<forall>i. \<not> test no_threads i" by (simp add: test_def no_threads_def)
  note sp = extract_group_spec[OF w np nt assms(2)]
  have lw: "live_thread dn tops i \<Longrightarrow> i < w" for i using fit by (simp add: live_thread_def)
  from sp have tm: "test tm i \<longleftrightarrow> live_thread dn tops i \<and> npc ! i = tp" for i using lw by blast
  from sp have t': "test tops' i \<longleftrightarrow> test tops i \<and> \<not> (test dn i \<or> npc ! i = tp)" for i using fit by blast
  show "test tm i \<longleftrightarrow> live_thread dn tops i \<and> npc ! i = tp" by (rule tm)
  show "any tm" if "tp \<noteq> null_pc" using sp that tm unfolding any_test by blast
  show "\<not> live_thread dn tops i" if "tp = null_pc" using sp that lw by blast
  then show "\<not> any tops'" if "tp = null_pc"
    using sp that lw unfolding any_test t' by (auto simp: live_thread_def)
  show "live_thread dn tops' i \<longleftrightarrow> live_thread dn tops i \<and> npc ! i \<noteq> tp"
    by (auto simp: live_thread_def t')
  show "mask_fits w dn npc tops'" using assms(1) unfolding mask_fits_def live_thread_def t' by blast
  show "\<not> test dn i \<or> \<not> test tops' i" by (simp add: t')
qed

lemma groups_ok_none: "(\<And>i. \<not> live_thread dn tops i) \<Longrightarrow> groups_ok dn npc tops skip []"
  by (simp add: groups_ok_def)

lemma groups_ok_entry:
  assumes "groups_ok dn npc tops skip ents" "e \<in> set ents"
  shows "\<not> skip (se_pc e)" "any (se_mask e)"
    "test (se_mask e) i \<longleftrightarrow> live_thread dn tops i \<and> npc ! i = se_pc e"
  using assms unfolding groups_ok_def by blast+

lemma groups_ok_cover:
  "groups_ok dn npc tops skip ents \<Longrightarrow> live_thread dn tops i \<Longrightarrow> skip (npc ! i) \<or> npc ! i \<in> se_pc ` set ents"
  unfolding groups_ok_def by blast

lemma groups_okI:
  assumes "distinct (map se_pc ents)"
    "\<And>e. e \<in> set ents \<Longrightarrow> \<not> skip (se_pc e)" "\<And>e. e \<in> set ents \<Longrightarrow> any (se_mask e)"
    "\<And>e i. e \<in> set ents \<Longrightarrow> test (se_mask e) i \<longleftrightarrow> live_thread dn tops i \<and> npc ! i = se_pc e"
    "\<And>i. live_thread dn tops i \<Longrightarrow> skip (npc ! i) \<or> npc ! i \<in> se_pc ` set ents"
  shows "groups_ok dn npc tops skip ents"
  using assms unfolding groups_ok_def by blast

lemma groups_ok_skip:
  assumes g: "groups_ok dn npc tops' skip ents" and sk: "skip tp"
    and l: "\<And>i. live_thread dn tops' i \<longleftrightarrow> live_thread dn tops i \<and> npc ! i \<noteq> tp"
  shows "groups_ok dn npc tops skip ents"
proof (rule groups_okI)
  show "distinct (map se_pc ents)" using g by (simp add: groups_ok_def)
  fix e assume e: "e \<in> set ents"
  show ns: "\<not> skip (se_pc e)" and "any (se_mask e)" by (rule groups_ok_entry[OF g e])+
  have "se_pc e \<noteq> tp" using ns sk by auto
  then show "test (se_mask e) i \<longleftrightarrow> live_thread dn tops i \<and> npc ! i = se_pc e" for i
    using groups_ok_entry(3)[OF g e, of i] l[of i] by auto
next
  fix i assume "live_thread dn tops i"
  then show "skip (npc ! i) \<or> npc ! i \<in> se_pc ` set ents"
    using groups_ok_cover[OF g, of i] l[of i] sk by (cases "npc ! i = tp") simp_all
qed

lemma groups_ok_snoc:
  assumes g: "groups_ok dn npc tops' skip ents" and ns: "\<not> skip tp" and pc: "se_pc e = tp"
    and an: "any (se_mask e)"
    and m: "\<And>i. test (se_mask e) i \<longleftrightarrow> live_thread dn tops i \<and> npc ! i = tp"
    and l: "\<And>i. live_thread dn tops' i \<longleftrightarrow> live_thread dn tops i \<and> npc ! i \<noteq> tp"
  shows "groups_ok dn npc tops skip (ents @ [e])"
proof -
  have ne: "se_pc x \<noteq> tp" if "x \<in> set ents" for x
  proof
    assume p: "se_pc x = tp"
    from groups_ok_entry(2)[OF g that] obtain i where "test (se_mask x) i" unfolding any_test by blast
    with groups_ok_entry(3)[OF g that, of i] l[of i] p show False by simp
  qed
  show ?thesis
  proof (rule groups_okI)
    show "distinct (map se_pc (ents @ [e]))" using g ne pc by (force simp: groups_ok_def)
    fix x assume "x \<in> set (ents @ [e])"
    then consider "x = e" | "x \<in> set ents" by auto
    note c = this
    show "\<not> skip (se_pc x)" using c ns pc groups_ok_entry(1)[OF g] by cases auto
    show "any (se_mask x)" using c an groups_ok_entry(2)[OF g] by cases auto
    show "test (se_mask x) i \<longleftrightarrow> live_thread dn tops i \<and> npc ! i = se_pc x" for i
      using c
    proof cases
      case 1
      then show ?thesis using m pc by simp
    next
      case 2
      then show ?thesis using groups_ok_entry(3)[OF g 2, of i] l[of i] ne[OF 2] by auto
    qed
  next
    fix i assume "live_thread dn tops i"
    then show "skip (npc ! i) \<or> npc ! i \<in> se_pc ` set (ents @ [e])"
      using groups_ok_cover[OF g, of i] l[of i] pc by (cases "npc ! i = tp") auto
  qed
qed

definition plain_op :: "op_type \<Rightarrow> stack_entry_type \<Rightarrow> bool" where
  "plain_op opc ty \<longleftrightarrow> opc \<noteq> CALL_OPS \<and> \<not> (opc = RET_OPS \<and> ty = STACK_ENTRY_TYPE_CALL)"

definition skips :: "stack_entry_type \<Rightarrow> u32 \<Rightarrow> bool \<Rightarrow> u32 \<Rightarrow> u32 \<Rightarrow> bool" where
  "skips ty top_recvg dv recvg pc \<longleftrightarrow>
     pc = top_recvg \<and> ty \<noteq> STACK_ENTRY_TYPE_CALL \<or> dv \<and> pc = recvg"

text \<open>After the warp has diverged.\<close>

lemma update_loop_diverged:
  assumes "mask_fits w dn npc tops" "plain_op opc ty"
  shows "\<exists>slot' ents. update_loop w dn npc recvg opc cy ty tr tops True recvg (slot # rest) =
      Some (Inr (slot' # ents @ rest)) \<and> groups_ok dn npc tops (skips ty tr True recvg) ents \<and>
      (\<forall>e \<in> set ents. se_recvg_pc e = recvg)"
  using assms
proof (induction "count_set tops" arbitrary: tops slot rest rule: less_induct)
  case less
  show ?case
  proof (cases "any tops")
    case False
    then have "\<not> live_thread dn tops i" for i by (simp add: any_test live_thread_def)
    with False show ?thesis
      by (subst update_loop.simps) (auto intro!: exI[of _ slot] exI[of _ "[]"] groups_ok_none)
  next
    case True
    obtain tp tm tops' where x: "extract_group w dn npc null_pc no_threads tops = (tp, tm, tops')"
      by (cases "extract_group w dn npc null_pc no_threads tops") auto
    note xf = extract_fits[OF less.prems(1) x]
    show ?thesis
    proof (cases "tp = null_pc")
      case n: True
      have "update_loop w dn npc recvg opc cy ty tr tops True recvg (slot # rest) = Some (Inr (slot # [] @ rest))"
        using True n xf(3)[OF n] by (subst update_loop.simps) (simp add: x)
      then show ?thesis using groups_ok_none[of dn tops] xf(4)[OF n] by fastforce
    next
      case n: False
      have dec: "count_set tops' < count_set tops"
        using extract_group_decreases[OF x[symmetric] refl n] .
      note ih = less.hyps[OF dec xf(6) less.prems(2)]
      show ?thesis
      proof (cases "skips ty tr True recvg tp")
        case sk: True
        have "update_loop w dn npc recvg opc cy ty tr tops True recvg (slot # rest) =
          update_loop w dn npc recvg opc cy ty tr tops' True recvg (slot # rest)"
          using True n sk less.prems(2)
          by (subst update_loop.simps) (auto simp: x plain_op_def skips_def Let_def)
        with ih[of slot rest] obtain slot' ents where
          r: "update_loop w dn npc recvg opc cy ty tr tops True recvg (slot # rest) =
            Some (Inr (slot' # ents @ rest))"
          and g: "groups_ok dn npc tops' (skips ty tr True recvg) ents" "\<forall>e \<in> set ents. se_recvg_pc e = recvg"
          by auto
        have "groups_ok dn npc tops (skips ty tr True recvg) ents"
          by (rule groups_ok_skip[where skip = "skips ty tr True recvg" and tp = tp, OF g(1) sk])
            (rule xf(5))
        with r g(2) show ?thesis by blast
      next
        case sk: False
        let ?e = "slot\<lparr>se_pc := tp, se_mask := tm, se_calldepth := 0, se_recvg_pc := recvg\<rparr>"
        have eq: "update_loop w dn npc recvg opc cy ty tr tops True recvg (slot # rest) =
          update_loop w dn npc recvg opc cy ty tr tops' True recvg (new_simt_entry # ?e # rest)"
          using True n sk less.prems(2)
          by (subst update_loop.simps) (auto simp: x plain_op_def skips_def Let_def)
        from ih[of new_simt_entry "?e # rest"] obtain slot' ents where
          r: "update_loop w dn npc recvg opc cy ty tr tops' True recvg (new_simt_entry # ?e # rest) =
            Some (Inr (slot' # ents @ ?e # rest))"
          and g: "groups_ok dn npc tops' (skips ty tr True recvg) ents" "\<forall>e \<in> set ents. se_recvg_pc e = recvg"
          by blast
        have "groups_ok dn npc tops (skips ty tr True recvg) (ents @ [?e])"
          by (rule groups_ok_snoc[where skip = "skips ty tr True recvg" and tp = tp, OF g(1) sk])
            (use xf(1)[OF n] xf(2,5) in simp_all)
        with eq r g(2) show ?thesis by (intro exI[of _ slot'] exI[of _ "ents @ [?e]"]) auto
      qed
    qed
  qed
qed

text \<open>From the start.\<close>

definition reconv_entry :: "bool \<Rightarrow> u32 \<Rightarrow> u32 \<Rightarrow> u64 \<Rightarrow> simt_entry \<Rightarrow> simt_entry list" where
  "reconv_entry dv recvg tr cy slot =
     (if dv \<and> recvg \<noteq> tr then [slot\<lparr>se_pc := recvg, se_div_cycle := cy\<rparr>] else [])"

lemma update_loop_start:
  assumes "mask_fits w dn npc tops" "plain_op opc ty"
  shows "\<exists>slot' ents dv. update_loop w dn npc recvg opc cy ty tr tops False nrp (slot # rest) =
      Some (Inr (slot' # ents @ reconv_entry dv recvg tr cy slot @ rest)) \<and>
      groups_ok dn npc tops (skips ty tr dv recvg) ents \<and>
      (\<forall>e \<in> set ents. se_recvg_pc e = (if dv then recvg else tr)) \<and>
      (\<not> dv \<longrightarrow> length ents \<le> 1)"
  using assms
proof (induction "count_set tops" arbitrary: tops rule: less_induct)
  case less
  let ?loop = "update_loop w dn npc recvg opc cy ty tr"
  show ?case
  proof (cases "any tops")
    case False
    then have "\<not> live_thread dn tops i" for i by (simp add: any_test live_thread_def)
    with False show ?thesis
      by (subst update_loop.simps)
        (auto simp: reconv_entry_def intro!: exI[of _ slot] exI[of _ "[]"] exI[of _ False] groups_ok_none)
  next
    case True
    obtain tp tm tops' where x: "extract_group w dn npc null_pc no_threads tops = (tp, tm, tops')"
      by (cases "extract_group w dn npc null_pc no_threads tops") auto
    note xf = extract_fits[OF less.prems(1) x]
    show ?thesis
    proof (cases "tp = null_pc")
      case n: True
      have "?loop tops False nrp (slot # rest) = Some (Inr (slot # rest))"
        using True n xf(3)[OF n] by (subst update_loop.simps) (simp add: x)
      then show ?thesis using groups_ok_none[of dn tops] xf(4)[OF n]
        by (intro exI[of _ slot] exI[of _ "[]"] exI[of _ False]) (simp add: reconv_entry_def)
    next
      case n: False
      have dec: "count_set tops' < count_set tops"
        using extract_group_decreases[OF x[symmetric] refl n] .
      show ?thesis
      proof (cases "skips ty tr False recvg tp")
        case sk: True
        have eq: "?loop tops False nrp (slot # rest) = ?loop tops' False nrp (slot # rest)"
          using True n sk less.prems(2)
          by (subst update_loop.simps) (auto simp: x plain_op_def skips_def Let_def)
        from less.hyps[OF dec xf(6) less.prems(2)] obtain slot' ents dv where
          r: "?loop tops' False nrp (slot # rest) = Some (Inr (slot' # ents @ reconv_entry dv recvg tr cy slot @ rest))"
          and g: "groups_ok dn npc tops' (skips ty tr dv recvg) ents"
            "\<forall>e \<in> set ents. se_recvg_pc e = (if dv then recvg else tr)" "\<not> dv \<longrightarrow> length ents \<le> 1" by blast
        have "groups_ok dn npc tops (skips ty tr dv recvg) ents"
          by (rule groups_ok_skip[where skip = "skips ty tr dv recvg" and tp = tp, OF g(1)])
            (use sk xf(5) in \<open>auto simp: skips_def\<close>)
        with eq r g(2,3) show ?thesis by metis
      next
        case sk: False
        show ?thesis
        proof (cases "any tops'")
          case a: False
          let ?e = "slot\<lparr>se_pc := tp, se_mask := tm, se_recvg_pc := tr\<rparr>"
          have "?loop tops False nrp (slot # rest) = ?loop tops' False nrp (new_simt_entry # ?e # rest)"
            using True n sk less.prems(2) a
            by (subst update_loop.simps) (auto simp: x plain_op_def skips_def Let_def)
          also have "\<dots> = Some (Inr (new_simt_entry # ?e # rest))"
            using a by (subst update_loop.simps) simp
          finally have r: "?loop tops False nrp (slot # rest) = Some (Inr (new_simt_entry # ?e # rest))" .
          have "\<not> live_thread dn tops' i" for i using a by (simp add: any_test live_thread_def)
          then have g0: "groups_ok dn npc tops' (skips ty tr False recvg) []" by (rule groups_ok_none)
          have "groups_ok dn npc tops (skips ty tr False recvg) ([] @ [?e])"
            by (rule groups_ok_snoc[where skip = "skips ty tr False recvg" and tp = tp, OF g0 sk])
              (use xf(1)[OF n] xf(2,5) in simp_all)
          with r show ?thesis
            by (intro exI[of _ new_simt_entry] exI[of _ "[?e]"] exI[of _ False]) (simp add: reconv_entry_def)
        next
          case a: True
          define slot1 where "slot1 = (if recvg \<noteq> tr then new_simt_entry else slot)"
          define base where "base = reconv_entry True recvg tr cy slot @ rest"
          show ?thesis
          proof (cases "tp = recvg")
            case t: True
            have eq: "?loop tops False nrp (slot # rest) = ?loop tops' True recvg (slot1 # base)"
              using True n sk less.prems(2) a t
              by (subst update_loop.simps)
                (auto simp: x plain_op_def skips_def Let_def slot1_def base_def reconv_entry_def)
            from update_loop_diverged[OF xf(6) less.prems(2), of recvg cy tr slot1 base] obtain slot' ents where
              r: "?loop tops' True recvg (slot1 # base) = Some (Inr (slot' # ents @ base))"
              and g: "groups_ok dn npc tops' (skips ty tr True recvg) ents"
                "\<forall>e \<in> set ents. se_recvg_pc e = recvg" by blast
            have "groups_ok dn npc tops (skips ty tr True recvg) ents"
              by (rule groups_ok_skip[where skip = "skips ty tr True recvg" and tp = tp, OF g(1)])
                (use t xf(5) in \<open>auto simp: skips_def\<close>)
            with eq r g(2) show ?thesis
              by (intro exI[of _ slot'] exI[of _ ents] exI[of _ True]) (simp add: base_def)
          next
            case t: False
            let ?e = "slot1\<lparr>se_pc := tp, se_mask := tm, se_calldepth := 0, se_recvg_pc := recvg\<rparr>"
            have eq: "?loop tops False nrp (slot # rest) = ?loop tops' True recvg (new_simt_entry # ?e # base)"
              using True n sk less.prems(2) a t
              by (subst update_loop.simps)
                (auto simp: x plain_op_def skips_def Let_def slot1_def base_def reconv_entry_def)
            from update_loop_diverged[OF xf(6) less.prems(2), of recvg cy tr new_simt_entry "?e # base"] obtain slot' ents where
              r: "?loop tops' True recvg (new_simt_entry # ?e # base) = Some (Inr (slot' # ents @ ?e # base))"
              and g: "groups_ok dn npc tops' (skips ty tr True recvg) ents"
                "\<forall>e \<in> set ents. se_recvg_pc e = recvg" by blast
            have "groups_ok dn npc tops (skips ty tr True recvg) (ents @ [?e])"
              by (rule groups_ok_snoc[where skip = "skips ty tr True recvg" and tp = tp, OF g(1)])
                (use sk t xf(1)[OF n] xf(2,5) in \<open>auto simp: skips_def\<close>)
            with eq r g(2) show ?thesis
              by (intro exI[of _ slot'] exI[of _ "ents @ [?e]"] exI[of _ True]) (auto simp: base_def)
          qed
        qed
      qed
    qed
  qed
qed

subsection \<open>Properties\<close>

text \<open>
  C5: after an instruction that is neither a call nor a return from one, \<open>update\<close> succeeds and
  replaces the top entry by one entry per distinct next PC of the live threads, each with
  exactly the threads that go there; threads at the reconvergence PC are left to the entry
  below, which on a divergence is the old entry moved to that PC with its full mask.  So no
  live thread is lost, none is in two new entries, none is at a wrong PC, and the entries
  below are untouched.
\<close>

theorem simt_update_partition:
  assumes "length npc = w" and "mask_fits w dn npc (se_mask t)" and "any (se_mask t)"
    and "plain_op opc (se_type t)"
  shows "\<exists>ents dv. simt_update w dn npc recvg opc cy (t # rest) =
      Some (ents @ reconv_entry dv recvg (se_recvg_pc t) cy t @ rest) \<and>
    groups_ok dn npc (se_mask t) (skips (se_type t) (se_recvg_pc t) dv recvg) ents \<and>
    (\<forall>e \<in> set ents. se_recvg_pc e = (if dv then recvg else se_recvg_pc t)) \<and>
    (\<not> dv \<longrightarrow> length ents \<le> 1)"
proof -
  from update_loop_start[OF assms(2,4), of recvg cy "se_recvg_pc t" null_pc t rest] obtain slot' ents dv where
    "update_loop w dn npc recvg opc cy (se_type t) (se_recvg_pc t) (se_mask t) False null_pc (t # rest) =
      Some (Inr (slot' # ents @ reconv_entry dv recvg (se_recvg_pc t) cy t @ rest))"
    "groups_ok dn npc (se_mask t) (skips (se_type t) (se_recvg_pc t) dv recvg) ents"
    "\<forall>e \<in> set ents. se_recvg_pc e = (if dv then recvg else se_recvg_pc t)"
    "\<not> dv \<longrightarrow> length ents \<le> 1" by blast
  with assms(1,3) show ?thesis by (intro exI[of _ ents] exI[of _ dv]) (simp add: simt_update_def)
qed

lemma extract_uniform:
  assumes "mask_fits w dn npc tops" "\<forall>i. live_thread dn tops i \<longrightarrow> npc ! i = p"
    "live_thread dn tops k" "extract_group w dn npc null_pc no_threads tops = (tp, tm, tops')"
  shows "tp = p" "p \<noteq> null_pc" "\<not> any tops'" "any tops" "any tm" "\<And>i. test tm i \<longleftrightarrow> live_thread dn tops i"
proof -
  note f = extract_fits[OF assms(1,4)]
  have n: "tp \<noteq> null_pc"
  proof
    assume "tp = null_pc"
    from f(4)[OF this, of k] assms(3) show False by contradiction
  qed
  show an: "any tm" by (rule f(1)[OF n])
  then obtain i where "test tm i" unfolding any_test by (rule exE)
  then have "live_thread dn tops i" "npc ! i = tp" using f(2)[of i] by simp_all
  with assms(2) show tp: "tp = p" by simp
  with n show "p \<noteq> null_pc" by simp
  show "test tm i \<longleftrightarrow> live_thread dn tops i" for i using f(2)[of i] assms(2) tp by blast
  have "\<not> test tops' i" for i
    using f(5)[of i] f(7)[of i] assms(2) tp unfolding live_thread_def by blast
  then show "\<not> any tops'" unfolding any_test by simp
  show "any tops" using assms(3) unfolding any_test live_thread_def by (intro exI) (rule conjunct1)
qed

text \<open>
  When all live threads of the warp go to one PC, \<open>update\<close> moves the top entry to that PC
  with the finished threads removed from its mask, or pops it when that PC is the entry's
  reconvergence point.
\<close>

theorem simt_update_uniform:
  assumes "length npc = w" and "mask_fits w dn npc (se_mask t)" and "plain_op opc (se_type t)"
    and "live_thread dn (se_mask t) k" and "\<forall>i. live_thread dn (se_mask t) i \<longrightarrow> npc ! i = p"
  shows "\<exists>m. (\<forall>i. test m i \<longleftrightarrow> live_thread dn (se_mask t) i) \<and>
    simt_update w dn npc recvg opc cy (t # rest) =
      Some (if p = se_recvg_pc t \<and> se_type t \<noteq> STACK_ENTRY_TYPE_CALL then rest
            else t\<lparr>se_pc := p, se_mask := m\<rparr> # rest)"
proof -
  obtain tp tm tops' where x: "extract_group w dn npc null_pc no_threads (se_mask t) = (tp, tm, tops')"
    by (cases "extract_group w dn npc null_pc no_threads (se_mask t)") auto
  note xu = extract_uniform[OF assms(2,5,4) x]
  have none: "update_loop w dn npc recvg opc cy ty tr tops' dv nrp st = Some (Inr st)" for ty tr dv nrp st
    using xu(3) by (subst update_loop.simps) simp
  have p: "plain_op opc (se_type t)" by (rule assms(3))
  show ?thesis
  proof (cases "p = se_recvg_pc t \<and> se_type t \<noteq> STACK_ENTRY_TYPE_CALL")
    case True
    have "update_loop w dn npc recvg opc cy (se_type t) (se_recvg_pc t) (se_mask t) False null_pc (t # rest)
        = Some (Inr (t # rest))"
      using xu(1-4) p True
      by (subst update_loop.simps) (simp add: x plain_op_def none Let_def)
    with True xu(4,6) assms(1) show ?thesis by (intro exI[of _ tm]) (simp add: simt_update_def)
  next
    case False
    have "update_loop w dn npc recvg opc cy (se_type t) (se_recvg_pc t) (se_mask t) False null_pc (t # rest)
        = Some (Inr (new_simt_entry # t\<lparr>se_pc := p, se_mask := tm, se_recvg_pc := se_recvg_pc t\<rparr> # rest))"
      using xu(1-4) p False
      by (subst update_loop.simps) (auto simp: x plain_op_def none Let_def)
    moreover have "t\<lparr>se_pc := p, se_mask := tm, se_recvg_pc := se_recvg_pc t\<rparr> = t\<lparr>se_pc := p, se_mask := tm\<rparr>" by simp
    ultimately show ?thesis using False xu(4,6) assms(1)
      by (intro exI[of _ tm]) (auto simp: simt_update_def)
  qed
qed

text \<open>
  C36: a call pushes one entry with the live threads at the callee, and the matching return pops
  it and moves the caller's entry to the return PC (or pops that one too when the return PC is
  its reconvergence point): the rest of the stack comes back unchanged.
\<close>

theorem simt_call_return:
  assumes "length npc = w" and "mask_fits w dn npc (se_mask t)"
    and "live_thread dn (se_mask t) k" and "\<forall>i. live_thread dn (se_mask t) i \<longrightarrow> npc ! i = p"
    and "length npc' = w" and "\<forall>i < w. npc' ! i = p'" and "p' \<noteq> null_pc"
    and "se_type t = STACK_ENTRY_TYPE_NORMAL" and "test dn' k = False"
  shows "\<exists>c. simt_update w dn npc recvg CALL_OPS cy (t # rest) = Some (c # t # rest) \<and>
    se_pc c = p \<and> se_type c = STACK_ENTRY_TYPE_CALL \<and>
    (\<forall>i. test (se_mask c) i \<longleftrightarrow> live_thread dn (se_mask t) i) \<and>
    simt_update w dn' npc' recvg' RET_OPS cy' (c # t # rest) =
      Some (if p' = se_recvg_pc t then rest else t\<lparr>se_pc := p'\<rparr> # rest)"
proof -
  obtain tp tm tops' where x: "extract_group w dn npc null_pc no_threads (se_mask t) = (tp, tm, tops')"
    by (cases "extract_group w dn npc null_pc no_threads (se_mask t)") auto
  note xu = extract_uniform[OF assms(2,4,3) x]
  define c where "c = new_simt_entry\<lparr>se_pc := p, se_mask := tm, se_div_cycle := cy,
                                     se_type := STACK_ENTRY_TYPE_CALL\<rparr>"
  have call: "simt_update w dn npc recvg CALL_OPS cy (t # rest) = Some (c # t # rest)"
    using xu(1-4) assms(1) by (simp add: simt_update_def update_loop.simps x c_def)
  have mc: "se_mask c = tm" by (simp add: c_def)
  have tmw: "test tm i \<Longrightarrow> i < w" for i
    using xu(6) assms(2) by (auto simp: mask_fits_def live_thread_def)
  have fit': "mask_fits w dn' npc' tm"
    using assms(2,6,7) tmw by (auto simp: mask_fits_def)
  have lv': "live_thread dn' tm k" using xu(6)[of k] assms(3,9) by (simp add: live_thread_def)
  have un': "\<forall>i. live_thread dn' tm i \<longrightarrow> npc' ! i = p'" using assms(6) tmw by (auto simp: live_thread_def)
  obtain tp2 tm2 tops2 where x2: "extract_group w dn' npc' null_pc no_threads tm = (tp2, tm2, tops2)"
    by (cases "extract_group w dn' npc' null_pc no_threads tm") auto
  note xu2 = extract_uniform[OF fit' un' lv' x2]
  have "update_loop w dn' npc' recvg' RET_OPS cy' STACK_ENTRY_TYPE_CALL (se_recvg_pc c) tm False null_pc (c # t # rest)
      = Some (Inl (if p' = se_recvg_pc t then rest else t\<lparr>se_pc := p'\<rparr> # rest))"
    using xu2 assms(8) by (subst update_loop.simps) (auto simp: x2)
  then have "simt_update w dn' npc' recvg' RET_OPS cy' (c # t # rest) =
      Some (if p' = se_recvg_pc t then rest else t\<lparr>se_pc := p'\<rparr> # rest)"
    using assms(5) xu2(4) by (simp add: simt_update_def mc) (simp add: c_def)
  with call xu(6) show ?thesis by (intro exI[of _ c]) (simp add: c_def)
qed

subsection \<open>Concrete instances\<close>

definition sample_entry :: simt_entry where
  "sample_entry = \<lparr>se_pc = 8, se_calldepth = 1, se_mask = [True, True, False, True], se_recvg_pc = 40,
     se_div_cycle = 0, se_type = STACK_ENTRY_TYPE_NORMAL\<rparr>"

lemma sample_mask_fits:
  "\<forall>i < 4. npc ! i \<noteq> null_pc \<Longrightarrow> mask_fits 4 dn npc (se_mask sample_entry)"
  by (auto simp: mask_fits_def sample_entry_def test_def)

lemma sample_live: "live_thread [False, False, False, True] (se_mask sample_entry) 0"
  by code_simp

lemma sample_none_live: "live_thread [False, False, False, True] (se_mask sample_entry) i \<Longrightarrow> i = 0 \<or> i = 1"
  by (auto simp: live_thread_def sample_entry_def test_def less_Suc_eq nth_Cons' split: if_splits)

theorem simt_update_partition_witness:
  "\<exists>ents dv. simt_update 4 (replicate 4 False) [12, 24, 0, 12] 40 BRANCH_OP 7 (sample_entry # []) =
      Some (ents @ reconv_entry dv 40 (se_recvg_pc sample_entry) 7 sample_entry @ []) \<and>
    groups_ok (replicate 4 False) [12, 24, 0, 12] (se_mask sample_entry)
      (skips (se_type sample_entry) (se_recvg_pc sample_entry) dv 40) ents \<and>
    (\<forall>e \<in> set ents. se_recvg_pc e = (if dv then 40 else se_recvg_pc sample_entry)) \<and>
    (\<not> dv \<longrightarrow> length ents \<le> 1)"
  by (rule simt_update_partition[OF _ sample_mask_fits])
    (auto simp: less_Suc_eq nth_Cons' any_def plain_op_def sample_entry_def)

theorem simt_update_uniform_witness:
  "\<exists>m. (\<forall>i. test m i \<longleftrightarrow> live_thread [False, False, False, True] (se_mask sample_entry) i) \<and>
    simt_update 4 [False, False, False, True] [12, 12, 0, 9] 20 ALU_OP 7 (sample_entry # []) =
      Some (if (12::u32) = se_recvg_pc sample_entry \<and> se_type sample_entry \<noteq> STACK_ENTRY_TYPE_CALL then []
            else sample_entry\<lparr>se_pc := 12, se_mask := m\<rparr> # [])"
proof (rule simt_update_uniform[OF _ sample_mask_fits _ sample_live])
  show "\<forall>i. live_thread [False, False, False, True] (se_mask sample_entry) i \<longrightarrow> [12, 12, 0, 9] ! i = (12::u32)"
    by (intro allI impI, drule sample_none_live, elim disjE) simp_all
qed (auto simp: less_Suc_eq nth_Cons' plain_op_def)

theorem simt_call_return_witness:
  "\<exists>c. simt_update 4 [False, False, False, True] [12, 12, 0, 9] 20 CALL_OPS 7 (sample_entry # []) = Some (c # sample_entry # []) \<and>
    se_pc c = 12 \<and> se_type c = STACK_ENTRY_TYPE_CALL \<and>
    (\<forall>i. test (se_mask c) i \<longleftrightarrow> live_thread [False, False, False, True] (se_mask sample_entry) i) \<and>
    simt_update 4 (replicate 4 False) [16, 16, 16, 16] 20 RET_OPS 9 (c # sample_entry # []) =
      Some (if (16::u32) = se_recvg_pc sample_entry then [] else sample_entry\<lparr>se_pc := 16\<rparr> # [])"
proof (rule simt_call_return[OF _ sample_mask_fits sample_live])
  show "\<forall>i. live_thread [False, False, False, True] (se_mask sample_entry) i \<longrightarrow> [12, 12, 0, 9] ! i = (12::u32)"
    by (intro allI impI, drule sample_none_live, elim disjE) simp_all
  show "se_type sample_entry = STACK_ENTRY_TYPE_NORMAL" by (simp add: sample_entry_def)
  show "test (replicate 4 False) 0 = False" by (simp add: test_def)
  show "\<forall>i < 4. [16, 16, 16, 16] ! i = (16::u32)" by (auto simp: less_Suc_eq nth_Cons')
qed (auto simp: less_Suc_eq nth_Cons')

end
