(* ===== verification/Coalesce.thy ===== *)
theory Coalesce
  imports StdMap MemFetch Scoreboard SimtStack
begin

unbundle bit_operations_syntax

text \<open>
  How a warp's load or store becomes memory accesses:
  \<open>warp_inst_t::generate_mem_accesses\<close> and its helpers (\<open>src/abstract_hardware_model.cc\<close>).
  Global and local accesses are coalesced per sub-warp into 32, 64 or 128 byte transactions,
  atomics so that no transaction touches a byte twice, texture and constant accesses per cache
  line, and shared memory accesses become bank conflict cycles.

  A \<open>std::bitset<n>\<close> is an \<open>n word\<close>; \<open>set\<close> and \<open>test\<close> out of range throw, which is \<open>None\<close>.
  \<open>line_size_based_tag_func\<close> returns \<open>address_type\<close>, an \<open>unsigned\<close>: the upper half of a
  \<open>new_addr_type\<close> is lost there.
\<close>

datatype memory_op_t = no_memory_op | memory_load | memory_store

record core_config =
  cc_warp_size :: nat
  cc_coalesce_arch :: int
  cc_shmem_limited_broadcast :: bool
  cc_num_shmem_bank :: u32
  cc_mem_warp_parts :: nat
  cc_texl1_linesize :: u32
  cc_constl1_linesize :: u32

record transaction_info =
  ti_chunks :: "4 word"
  ti_bytes :: "128 word"
  ti_active :: "32 word"

definition new_transaction_info :: transaction_info where
  "new_transaction_info = \<lparr>ti_chunks = 0, ti_bytes = 0, ti_active = 0\<rparr>"

text \<open>\<open>m_per_scalar_thread\<close> is the list \<open>wi_addrs\<close> of the threads' address arrays.\<close>

record warp_inst =
  wi_empty :: bool
  wi_op :: op_type
  wi_memory_op :: memory_op_t
  wi_space :: memory_space
  wi_data_size :: nat
  wi_isatomic :: bool
  wi_active :: "32 word"
  wi_addr_valid :: bool
  wi_addrs :: "addr list list"
  wi_created :: bool
  wi_accessq :: "mem_access_t list"
  wi_cycles :: nat

definition inst_is_load :: "warp_inst \<Rightarrow> bool" where
  "inst_is_load w \<longleftrightarrow> wi_op w = LOAD_OP \<or> wi_memory_op w = memory_load"

definition inst_is_store :: "warp_inst \<Rightarrow> bool" where
  "inst_is_store w \<longleftrightarrow> wi_op w = STORE_OP \<or> wi_memory_op w = memory_store"

definition line_size_based_tag_func :: "addr \<Rightarrow> addr \<Rightarrow> u32" where
  "line_size_based_tag_func a line = ucast (a AND NOT (line - 1))"

definition shmem_bank_func :: "core_config \<Rightarrow> u32 \<Rightarrow> u32 option" where
  "shmem_bank_func c a =
     (if cc_num_shmem_bank c = 0 then None else Some ((a div 4) mod cc_num_shmem_bank c))"

definition active_thread :: "warp_inst \<Rightarrow> nat \<Rightarrow> bool option" where
  "active_thread w i = (if i < 32 then Some (bit (wi_active w) i) else None)"

definition thread_addr :: "warp_inst \<Rightarrow> nat \<Rightarrow> nat \<Rightarrow> addr option" where
  "thread_addr w i k =
     (if i < length (wi_addrs w) \<and> k < length (wi_addrs w ! i) then Some (wi_addrs w ! i ! k) else None)"

text \<open>\<open>for( i=0; i < n; i++ ) bytes.set(idx+i)\<close>.\<close>

definition set_bytes :: "nat \<Rightarrow> nat \<Rightarrow> 128 word \<Rightarrow> 128 word option" where
  "set_bytes idx n b = do {
     ensure (n = 0 \<or> idx + n \<le> 128);
     Some (fold set_bit [idx ..< idx + n] b)
   }"

function test_bytes :: "transaction_info \<Rightarrow> nat \<Rightarrow> nat \<Rightarrow> bool option" where
  "test_bytes t s e =
     (if e < s then Some False
      else if 128 \<le> s then None
      else if bit (ti_bytes t) s then Some True
      else test_bytes t (s + 1) e)"
  by pat_completeness auto

termination by (relation "measure (\<lambda>(t, s, e). e + 1 - s)") auto

declare test_bytes.simps [simp del]

text \<open>\<open>segment_size\<close> of the two coalescing routines; 0 is the \<open>switch\<close> with no case.\<close>

definition segment_size :: "nat \<Rightarrow> u32" where
  "segment_size ds =
     (if ds = 1 then 32 else if ds = 2 then 64 else if ds = 4 \<or> ds = 8 \<or> ds = 16 then 128 else 0)"

definition reduce_half :: "addr \<Rightarrow> bool \<Rightarrow> bool \<Rightarrow> (addr \<times> u32) option" where
  "reduce_half a lower upper =
     (if lower \<and> \<not> upper then Some (a, 32)
      else if \<not> lower \<and> upper then Some (a + 32, 32)
      else do { ensure (lower \<and> upper); Some (a, 64) })"

definition reduce_segment :: "4 word \<Rightarrow> addr \<Rightarrow> u32 \<Rightarrow> (addr \<times> u32) option" where
  "reduce_segment q a seg =
     (if seg = 128 then
        (let lower = (bit q 0 \<or> bit q 1); upper = (bit q 2 \<or> bit q 3) in
         if lower \<and> \<not> upper then reduce_half a (bit q 0) (bit q 1)
         else if \<not> lower \<and> upper then reduce_half (a + 64) (bit q 2) (bit q 3)
         else do { ensure (lower \<and> upper); Some (a, 128) })
      else if seg = 64 then
        (if a mod 128 = 0 then reduce_half a (bit q 0) (bit q 1)
         else do { ensure (a mod 128 = 64); reduce_half a (bit q 2) (bit q 3) })
      else Some (a, seg))"

definition reduce_and_send ::
  "bool \<Rightarrow> mem_access_type \<Rightarrow> u32 \<Rightarrow> addr \<times> transaction_info \<Rightarrow> mem_access_t list
   \<Rightarrow> mem_access_t list option" where
  "reduce_and_send wr ty seg t accq = do {
     ensure (fst t AND ucast (seg - 1) = 0);
     ensure (ti_chunks (snd t) \<noteq> 0);
     (a, sz) \<leftarrow> reduce_segment (ti_chunks (snd t)) (fst t) seg;
     Some (accq @ [mem_access_masked ty a sz wr (ti_active (snd t)) (ti_bytes (snd t))])
   }"

text \<open>One access of one thread, with its address given.\<close>

definition mark_access :: "nat \<Rightarrow> nat \<Rightarrow> addr \<Rightarrow> transaction_info \<Rightarrow> transaction_info option" where
  "mark_access ds thread a t = do {
     let idx = unat (a AND 127);
     b \<leftarrow> set_bytes idx ds (ti_bytes t);
     Some \<lparr>ti_chunks = set_bit (idx div 32) (ti_chunks t), ti_bytes = b,
           ti_active = set_bit thread (ti_active t)\<rparr>
   }"

definition one_segment :: "u32 \<Rightarrow> nat \<Rightarrow> addr \<Rightarrow> bool" where
  "one_segment seg ds a \<longleftrightarrow>
     line_size_based_tag_func a (ucast seg) = line_size_based_tag_func (a + of_nat ds - 1) (ucast seg)"

definition block_key :: "u32 \<Rightarrow> addr \<Rightarrow> addr" where
  "block_key seg a = ucast (line_size_based_tag_func a (ucast seg))"

definition add_access ::
  "u32 \<Rightarrow> nat \<Rightarrow> nat \<Rightarrow> addr \<Rightarrow> (addr \<times> transaction_info) list
   \<Rightarrow> (addr \<times> transaction_info) list option" where
  "add_access seg ds thread a m = do {
     ensure (one_segment seg ds a);
     t \<leftarrow> mark_access ds thread a (map_at (block_key seg a) new_transaction_info m);
     Some (map_upd (block_key seg a) new_transaction_info (\<lambda>_. t) m)
   }"

definition access_split :: "warp_inst \<Rightarrow> nat \<times> nat" where
  "access_split w =
     (if (wi_space w = local_space \<or> wi_space w = param_space_local) \<and> 4 \<le> wi_data_size w
      then (4, wi_data_size w div 4) else (wi_data_size w, 1))"

definition coalesce_thread ::
  "warp_inst \<Rightarrow> u32 \<Rightarrow> nat \<Rightarrow> (addr \<times> transaction_info) list
   \<Rightarrow> (addr \<times> transaction_info) list option" where
  "coalesce_thread w seg thread m = do {
     act \<leftarrow> active_thread w thread;
     if \<not> act then Some m
     else do {
       let (ds, n) = access_split w;
       ensure (n \<le> 8);
       fold_opt (\<lambda>k m. do {
         a \<leftarrow> thread_addr w thread k;
         add_access seg ds thread a m }) [0 ..< n] m
     }
   }"

definition subwarp_threads :: "nat \<Rightarrow> nat \<Rightarrow> nat list" where
  "subwarp_threads sz i = [i * sz ..< sz * (i + 1)]"

definition coalesce_subwarp ::
  "warp_inst \<Rightarrow> bool \<Rightarrow> mem_access_type \<Rightarrow> nat \<Rightarrow> nat \<Rightarrow> mem_access_t list \<Rightarrow> mem_access_t list option" where
  "coalesce_subwarp w wr ty sz i accq = do {
     m \<leftarrow> fold_opt (coalesce_thread w (segment_size (wi_data_size w))) (subwarp_threads sz i) [];
     fold_opt (reduce_and_send wr ty (segment_size (wi_data_size w))) m accq
   }"

definition memory_coalescing_arch_13 ::
  "core_config \<Rightarrow> bool \<Rightarrow> mem_access_type \<Rightarrow> warp_inst \<Rightarrow> warp_inst option" where
  "memory_coalescing_arch_13 c wr ty w = do {
     ensure (cc_mem_warp_parts c \<noteq> 0);
     let sz = cc_warp_size c div cc_mem_warp_parts c;
     accq \<leftarrow> fold_opt (coalesce_subwarp w wr ty sz) [0 ..< cc_mem_warp_parts c] (wi_accessq w);
     Some (w\<lparr>wi_accessq := accq\<rparr>)
   }"

subsection \<open>Atomics\<close>

text \<open>An atomic's access asserts that no byte it marks is marked already.\<close>

definition mark_fresh :: "nat \<Rightarrow> nat \<Rightarrow> addr \<Rightarrow> transaction_info \<Rightarrow> transaction_info option" where
  "mark_fresh ds thread a t = do {
     let idx = unat (a AND 127);
     ensure (\<forall>i \<in> set [idx ..< idx + ds]. \<not> bit (ti_bytes t) i);
     mark_access ds thread a t
   }"

text \<open>The first transaction of the list none of whose bytes the access touches; else a new one.\<close>

fun add_atomic ::
  "nat \<Rightarrow> nat \<Rightarrow> addr \<Rightarrow> transaction_info list \<Rightarrow> transaction_info list option" where
  "add_atomic ds thread a [] =
     map_option (\<lambda>t. [t]) (mark_fresh ds thread a new_transaction_info)"
| "add_atomic ds thread a (t # ts) =
     (let idx = unat (a AND 127) in
      case test_bytes t idx (unat (of_nat (idx + ds) - 1 :: u32)) of
        None \<Rightarrow> None
      | Some True \<Rightarrow> map_option (\<lambda>ts'. t # ts') (add_atomic ds thread a ts)
      | Some False \<Rightarrow> map_option (\<lambda>t'. t' # ts) (mark_fresh ds thread a t))"

definition atomic_thread ::
  "warp_inst \<Rightarrow> u32 \<Rightarrow> nat \<Rightarrow> (addr \<times> transaction_info list) list
   \<Rightarrow> (addr \<times> transaction_info list) list option" where
  "atomic_thread w seg thread m = do {
     act \<leftarrow> active_thread w thread;
     if \<not> act then Some m
     else do {
       a \<leftarrow> thread_addr w thread 0;
       ensure (one_segment seg (wi_data_size w) a);
       ts \<leftarrow> add_atomic (wi_data_size w) thread a (map_at (block_key seg a) [] m);
       Some (map_upd (block_key seg a) [] (\<lambda>_. ts) m)
     }
   }"

definition flatten_map :: "('k \<times> 'v list) list \<Rightarrow> ('k \<times> 'v) list" where
  "flatten_map m = concat (map (\<lambda>(k, ts). map (Pair k) ts) m)"

definition atomic_subwarp ::
  "warp_inst \<Rightarrow> bool \<Rightarrow> mem_access_type \<Rightarrow> nat \<Rightarrow> nat \<Rightarrow> mem_access_t list \<Rightarrow> mem_access_t list option" where
  "atomic_subwarp w wr ty sz i accq = do {
     m \<leftarrow> fold_opt (atomic_thread w (segment_size (wi_data_size w))) (subwarp_threads sz i) [];
     fold_opt (reduce_and_send wr ty (segment_size (wi_data_size w))) (flatten_map m) accq
   }"

definition memory_coalescing_arch_13_atomic ::
  "core_config \<Rightarrow> bool \<Rightarrow> mem_access_type \<Rightarrow> warp_inst \<Rightarrow> warp_inst option" where
  "memory_coalescing_arch_13_atomic c wr ty w = do {
     ensure (wi_space w = global_space);
     accq \<leftarrow> fold_opt (atomic_subwarp w wr ty (cc_warp_size c div 2)) [0 ..< 2] (wi_accessq w);
     Some (w\<lparr>wi_accessq := accq\<rparr>)
   }"

subsection \<open>Shared memory\<close>

definition bank_thread ::
  "core_config \<Rightarrow> warp_inst \<Rightarrow> nat \<Rightarrow> (u32 \<times> (addr \<times> nat) list) list
   \<Rightarrow> (u32 \<times> (addr \<times> nat) list) list option" where
  "bank_thread c w thread m = do {
     act \<leftarrow> active_thread w thread;
     if \<not> act then Some m
     else do {
       a \<leftarrow> thread_addr w thread 0;
       bank \<leftarrow> shmem_bank_func c (ucast a);
       let word = ucast (line_size_based_tag_func a 4);
       Some (map_upd bank [] (map_upd word 0 Suc) m)
     }
   }"

text \<open>The first bank, and its first word, accessed more than once.\<close>

fun find_broadcast :: "(u32 \<times> (addr \<times> nat) list) list \<Rightarrow> (u32 \<times> addr) option" where
  "find_broadcast [] = None"
| "find_broadcast ((b, ws) # m) =
     (case find (\<lambda>(x, n). n > 1) ws of
        Some (x, n) \<Rightarrow> Some (b, x)
      | None \<Rightarrow> find_broadcast m)"

definition bank_cost :: "(u32 \<times> addr) option \<Rightarrow> u32 \<times> (addr \<times> nat) list \<Rightarrow> nat option" where
  "bank_cost bc e = do {
     let tot = sum_list (map snd (snd e));
     (case bc of
        None \<Rightarrow> Some tot
      | Some (b, x) \<Rightarrow>
          if b = fst e then
            (case map_of (snd e) x of
               None \<Rightarrow> Some tot
             | Some n \<Rightarrow> do { ensure (n > 1); ensure (tot \<ge> n - 1); Some (tot - (n - 1)) })
          else Some tot)
   }"

definition max_bank :: "core_config \<Rightarrow> (u32 \<times> (addr \<times> nat) list) list \<Rightarrow> nat option" where
  "max_bank c m =
     (if cc_shmem_limited_broadcast c
      then fold_opt (\<lambda>e mx. map_option (max mx) (bank_cost (find_broadcast m) e)) m 0
      else Some (fold (\<lambda>e mx. max mx (length (snd e))) m 0))"

definition bank_subwarp :: "core_config \<Rightarrow> warp_inst \<Rightarrow> nat \<Rightarrow> nat \<Rightarrow> nat \<Rightarrow> nat option" where
  "bank_subwarp c w sz i tot = do {
     m \<leftarrow> fold_opt (bank_thread c w) (subwarp_threads sz i) [];
     k \<leftarrow> max_bank c m;
     Some (tot + k)
   }"

definition shared_cycles :: "core_config \<Rightarrow> warp_inst \<Rightarrow> warp_inst option" where
  "shared_cycles c w = do {
     ensure (cc_mem_warp_parts c \<noteq> 0);
     let sz = cc_warp_size c div cc_mem_warp_parts c;
     tot \<leftarrow> fold_opt (bank_subwarp c w sz) [0 ..< cc_mem_warp_parts c] 0;
     ensure (0 < tot \<and> tot \<le> cc_warp_size c);
     Some (w\<lparr>wi_cycles := tot\<rparr>)
   }"

subsection \<open>Texture and constant accesses\<close>

text \<open>The state is the map from block to threads and the byte mask all the accesses share.\<close>

definition line_thread ::
  "warp_inst \<Rightarrow> u32 \<Rightarrow> nat \<Rightarrow> (addr \<times> 32 word) list \<times> 128 word
   \<Rightarrow> ((addr \<times> 32 word) list \<times> 128 word) option" where
  "line_thread w line thread s = do {
     act \<leftarrow> active_thread w thread;
     if \<not> act then Some s
     else do {
       a \<leftarrow> thread_addr w thread 0;
       let block = line_size_based_tag_func a (ucast line);
       let idx = (ucast (a - ucast block) :: u32);
       b \<leftarrow> set_bytes (unat idx) (wi_data_size w) (snd s);
       Some (map_upd (ucast block) 0 (set_bit thread) (fst s), b)
     }
   }"

definition line_accesses ::
  "core_config \<Rightarrow> bool \<Rightarrow> mem_access_type \<Rightarrow> u32 \<Rightarrow> warp_inst \<Rightarrow> warp_inst option" where
  "line_accesses c wr ty line w =
     (if line = 0 then Some w
      else do {
        ensure (wi_accessq w = []);
        (m, b) \<leftarrow> fold_opt (line_thread w line) [0 ..< cc_warp_size c] ([], 0);
        Some (w\<lparr>wi_accessq := wi_accessq w @
                 map (\<lambda>(a, act). mem_access_masked ty a line wr act b) m\<rparr>)
      })"

subsection \<open>\<open>generate_mem_accesses\<close>\<close>

definition space_access_type :: "memory_space \<Rightarrow> bool \<Rightarrow> mem_access_type option" where
  "space_access_type s wr =
     (case s of
        const_space \<Rightarrow> Some CONST_ACC_R
      | param_space_kernel \<Rightarrow> Some CONST_ACC_R
      | tex_space \<Rightarrow> Some TEXTURE_ACC_R
      | global_space \<Rightarrow> Some (if wr then GLOBAL_ACC_W else GLOBAL_ACC_R)
      | local_space \<Rightarrow> Some (if wr then LOCAL_ACC_W else LOCAL_ACC_R)
      | param_space_local \<Rightarrow> Some (if wr then LOCAL_ACC_W else LOCAL_ACC_R)
      | _ \<Rightarrow> None)"

definition generate_mem_accesses :: "core_config \<Rightarrow> warp_inst \<Rightarrow> warp_inst option" where
  "generate_mem_accesses c w =
     (if wi_empty w \<or> wi_op w = MEMORY_BARRIER_OP \<or> wi_created w then Some w
      else if \<not> (wi_op w = LOAD_OP \<or> wi_op w = STORE_OP) then Some w
      else if wi_active w = 0 then Some w
      else do {
        ensure (inst_is_load w \<or> inst_is_store w);
        ensure (wi_addr_valid w);
        let wr = inst_is_store w;
        w' \<leftarrow>
          (if wi_space w = shared_space then shared_cycles c w
           else do {
             ty \<leftarrow> space_access_type (wi_space w) wr;
             if wi_space w = tex_space then line_accesses c wr ty (cc_texl1_linesize c) w
             else if wi_space w = const_space \<or> wi_space w = param_space_kernel
             then line_accesses c wr ty (cc_constl1_linesize c) w
             else do {
               ensure (cc_coalesce_arch c = 13);
               if wi_isatomic w then memory_coalescing_arch_13_atomic c wr ty w
               else memory_coalescing_arch_13 c wr ty w
             }
           });
        Some (w'\<lparr>wi_created := True\<rparr>)
      })"

subsection \<open>Addresses as numbers\<close>

lemma unat_take_bit: "unat (take_bit k a :: 'a::len word) = unat a mod 2 ^ k"
  by (simp add: unsigned_take_bit_eq flip: take_bit_eq_mod)

lemma unat_and_not_mask: "unat (a AND NOT (mask k) :: 'a::len word) = unat a div 2 ^ k * 2 ^ k"
proof -
  have "a AND NOT (mask k) = a AND NOT (take_bit k a)"
    by (rule bit_word_eqI) (auto simp: bit_simps)
  also have "\<dots> = a - take_bit k a" by (rule disjunctive_diff[symmetric]) (simp add: bit_take_bit_iff)
  also have "unat \<dots> = unat a - unat (take_bit k a)"
    by (rule unat_sub) (simp add: word_le_nat_alt unat_take_bit)
  finally show ?thesis by (simp add: unat_take_bit minus_mod_eq_div_mult)
qed

lemma unat_and_127: "unat (a AND 127 :: addr) = unat a mod 128"
proof -
  have "a AND 127 = take_bit 7 a" unfolding take_bit_eq_mask by (simp add: mask_eq_exp_minus_1)
  then have "unat (a AND 127) = unat (take_bit 7 a)" by (rule arg_cong)
  then show ?thesis by (simp only: unat_take_bit) simp
qed

definition seg_ok :: "u32 \<Rightarrow> bool" where
  "seg_ok seg \<longleftrightarrow> seg = 32 \<or> seg = 64 \<or> seg = 128"

lemma seg_okE:
  assumes "seg_ok seg"
  obtains k where "k \<in> {5, 6, 7}" "unat seg = 2 ^ k" "(ucast seg :: addr) - 1 = mask k" "ucast (seg - 1) = (mask k :: addr)"
  using assms unfolding seg_ok_def
proof (elim disjE)
  assume "seg = 32" with that[of 5] show thesis by (simp add: mask_eq_exp_minus_1)
next
  assume "seg = 64" with that[of 6] show thesis by (simp add: mask_eq_exp_minus_1)
next
  assume "seg = 128" with that[of 7] show thesis by (simp add: mask_eq_exp_minus_1)
qed

lemma unat_tag_func:
  assumes "seg_ok seg" "unat a < 2 ^ 32"
  shows "unat (line_size_based_tag_func a (ucast seg)) = unat a div unat seg * unat seg"
proof -
  from seg_okE[OF assms(1)] obtain k where k: "unat seg = 2 ^ k" "(ucast seg :: addr) - 1 = mask k" by metis
  have "unat (line_size_based_tag_func a (ucast seg)) = unat (a AND NOT (mask k)) mod 2 ^ 32"
    unfolding line_size_based_tag_func_def k(2) by (simp add: unsigned_ucast_eq take_bit_eq_mod)
  also have "unat (a AND NOT (mask k)) mod 2 ^ 32 = unat a div 2 ^ k * 2 ^ k"
    unfolding unat_and_not_mask using assms(2) by (intro mod_less) (metis div_times_less_eq_dividend le_less_trans)
  finally show ?thesis by (simp add: k(1))
qed

lemma unat_block_key:
  assumes "seg_ok seg" "unat a < 2 ^ 32"
  shows "unat (block_key seg a) = unat a div unat seg * unat seg"
proof -
  have "unat (block_key seg a) = unat (line_size_based_tag_func a (ucast seg))"
    unfolding block_key_def by (simp add: unsigned_ucast_eq take_bit_nat_eq_self unsigned_less[THEN less_le_trans])
  with unat_tag_func[OF assms] show ?thesis by simp
qed

lemma div_within: "0 < d \<Longrightarrow> d dvd a \<Longrightarrow> d dvd s \<Longrightarrow> i < d \<Longrightarrow> (a + i) div s = a div (s::nat)"
  by (elim dvdE) (simp add: div_mult2_eq)

lemma mod_within:
  assumes "0 < d" "d dvd a" "d dvd s" "i < d"
  shows "(a + i) mod s = a mod s + (i::nat)"
proof -
  have "(a + i) div s * s = a div s * s" by (simp only: div_within[OF assms])
  with div_mult_mod_eq[of "a + i" s] div_mult_mod_eq[of a s] show ?thesis by linarith
qed

lemma pow2_size_dvd: "ds \<in> {1, 2, 4, 8, 16} \<Longrightarrow> ds dvd (32::nat) \<and> ds dvd 64 \<and> ds dvd 128 \<and> 0 < ds"
  by auto

lemma seg_ok_dvd: "seg_ok seg \<Longrightarrow> unat seg dvd 128 \<and> 32 dvd unat seg \<and> 0 < unat seg \<and> unat seg \<le> 128"
  unfolding seg_ok_def by (elim disjE) simp_all

lemma one_segment_aligned:
  assumes "seg_ok seg" "unat a < 2 ^ 32" "ds \<in> {1, 2, 4, 8, 16}" "ds dvd unat a"
  shows "one_segment seg ds a"
proof -
  note d = pow2_size_dvd[OF assms(3)]
  have dvs: "ds dvd unat seg" using seg_ok_dvd[OF assms(1)] d dvd_trans by blast
  have lt: "unat a + (ds - 1) < 2 ^ 32"
  proof -
    have "(unat a + (ds - 1)) div 2 ^ 32 = unat a div 2 ^ 32"
      by (rule div_within[of ds]) (use d assms(3,4) in \<open>auto intro: dvd_trans[of ds 32]\<close>)
    with assms(2) show ?thesis by (simp add: div_eq_0_iff)
  qed
  have e: "a + of_nat ds - 1 = a + of_nat (ds - 1)" using d by (simp add: of_nat_diff)
  have "unat (a + of_nat (ds - 1)) = unat a + (ds - 1)"
    using lt by (simp add: unat_word_ariths unat_of_nat take_bit_eq_mod)
  then have u: "unat (a + of_nat ds - 1) = unat a + (ds - 1)" by (simp only: e)
  have "(unat a + (ds - 1)) div unat seg = unat a div unat seg"
    by (rule div_within[OF _ assms(4) dvs]) (use d in auto)
  moreover have "unat (a + of_nat ds - 1) < 2 ^ 32" by (simp only: u lt)
  from unat_tag_func[OF assms(1) this] have "unat (line_size_based_tag_func (a + of_nat ds - 1) (ucast seg)) =
      (unat a + (ds - 1)) div unat seg * unat seg" by (simp only: u)
  ultimately show ?thesis unfolding one_segment_def word_unat_eq_iff
    by (simp only: unat_tag_func[OF assms(1,2)])
qed

subsection \<open>Transactions\<close>

text \<open>
  The record of one segment: its chunks lie within the segment at \<open>b\<close>, and every byte lies in
  a recorded chunk.
\<close>

definition tinfo_ok :: "nat \<Rightarrow> u32 \<Rightarrow> transaction_info \<Rightarrow> bool" where
  "tinfo_ok b seg t \<longleftrightarrow>
     (\<forall>k. bit (ti_chunks t) k \<longrightarrow> b mod 128 \<le> 32 * k \<and> 32 * k < b mod 128 + unat seg) \<and>
     (\<forall>j. bit (ti_bytes t) j \<longrightarrow> bit (ti_chunks t) (j div 32))"

text \<open>Thread \<open>i\<close>'s access of \<open>ds\<close> bytes at \<open>a\<close> is in the record.\<close>

definition marked :: "nat \<Rightarrow> nat \<Rightarrow> addr \<Rightarrow> transaction_info \<Rightarrow> bool" where
  "marked ds i a t \<longleftrightarrow> bit (ti_active t) i \<and> bit (ti_chunks t) (unat a mod 128 div 32) \<and>
     (\<forall>k < ds. bit (ti_bytes t) (unat a mod 128 + k))"

definition aligned_access :: "nat \<Rightarrow> addr \<Rightarrow> bool" where
  "aligned_access ds a \<longleftrightarrow> unat a < 2 ^ 32 \<and> ds \<in> {1, 2, 4, 8, 16} \<and> ds dvd unat a"

lemma new_tinfo_ok: "tinfo_ok b seg new_transaction_info"
  by (simp add: tinfo_ok_def new_transaction_info_def)

lemma bit_fold_set_bit: "bit (fold set_bit xs (b :: 'a::len word)) j = (bit b j \<or> (j \<in> set xs \<and> j < LENGTH('a)))"
  by (induction xs arbitrary: b) (auto simp: bit_simps)

lemma aligned_idx:
  assumes "aligned_access ds a" "k < ds"
  shows "(unat a mod 128 + k) div 32 = unat a mod 128 div 32" "unat a mod 128 + k < 128"
proof -
  have d: "0 < ds" "ds dvd 32" "ds dvd 128" "ds dvd unat a" using assms(1) by (auto simp: aligned_access_def)
  have "ds dvd unat a mod 128" using d by (simp add: dvd_mod)
  then show "(unat a mod 128 + k) div 32 = unat a mod 128 div 32" by (rule div_within[OF d(1) _ d(2) assms(2)])
  have "(unat a + k) mod 128 = unat a mod 128 + k" by (rule mod_within[OF d(1,4,3) assms(2)])
  moreover have "(unat a + k) mod 128 < 128" by (rule mod_less_divisor) simp
  ultimately show "unat a mod 128 + k < 128" by linarith
qed

lemma mark_access_spec:
  assumes "aligned_access ds a" "i < 32"
  shows "\<exists>t'. mark_access ds i a t = Some t' \<and> marked ds i a t' \<and>
    (\<forall>k. bit (ti_chunks t') k \<longleftrightarrow> bit (ti_chunks t) k \<or> k = unat a mod 128 div 32) \<and>
    (\<forall>j. bit (ti_active t') j \<longleftrightarrow> bit (ti_active t) j \<or> j = i) \<and>
    (\<forall>j. bit (ti_bytes t') j \<longleftrightarrow> bit (ti_bytes t) j \<or> (\<exists>k < ds. j = unat a mod 128 + k))"
proof -
  have ds: "0 < ds" using assms(1) by (auto simp: aligned_access_def)
  have "unat a mod 128 + (ds - 1) < 128" using aligned_idx(2)[OF assms(1), of "ds - 1"] ds by simp
  with ds have r: "unat a mod 128 + ds \<le> 128" by simp
  let ?t = "\<lparr>ti_chunks = set_bit (unat a mod 128 div 32) (ti_chunks t),
    ti_bytes = fold set_bit [unat a mod 128 ..< unat a mod 128 + ds] (ti_bytes t),
    ti_active = set_bit i (ti_active t)\<rparr>"
  have c: "unat a mod 128 div 32 < 4" using mod_less_divisor[of 128 "unat a"] by linarith
  have "mark_access ds i a t = Some ?t"
    using r by (simp add: mark_access_def set_bytes_def unat_and_127 Let_def)
  moreover have bt: "bit (ti_bytes ?t) j \<longleftrightarrow> bit (ti_bytes t) j \<or> (\<exists>k < ds. j = unat a mod 128 + k)" for j
  proof -
    have "(j \<in> set [unat a mod 128 ..< unat a mod 128 + ds] \<and> j < 128) = (\<exists>k < ds. j = unat a mod 128 + k)"
      using r by (auto intro!: exI[of _ "j - unat a mod 128"])
    then show ?thesis by (simp add: bit_fold_set_bit)
  qed
  moreover have ch: "bit (ti_chunks ?t) k \<longleftrightarrow> bit (ti_chunks t) k \<or> k = unat a mod 128 div 32" for k
    using c by (auto simp: bit_simps)
  moreover have ac: "bit (ti_active ?t) j \<longleftrightarrow> bit (ti_active t) j \<or> j = i" for j
    using assms(2) by (auto simp: bit_simps)
  moreover have "marked ds i a ?t" unfolding marked_def using bt ch ac by blast
  ultimately show ?thesis by blast
qed

lemma marked_mono:
  assumes "marked ds i a t" "\<And>k. bit (ti_chunks t) k \<Longrightarrow> bit (ti_chunks t') k"
    "\<And>k. bit (ti_active t) k \<Longrightarrow> bit (ti_active t') k" "\<And>k. bit (ti_bytes t) k \<Longrightarrow> bit (ti_bytes t') k"
  shows "marked ds i a t'"
  using assms unfolding marked_def by blast

text \<open>The 32-byte chunk of an address lies in the segment of its block.\<close>

lemma chunk_of: "n mod 128 div 32 = n div 32 mod (4::nat)"
proof -
  have "n mod (32 * 4) = 32 * (n div 32 mod 4) + n mod 32" by (rule mod_mult2_eq)
  then show ?thesis by simp
qed

lemma segment_base:
  "n div 32 * 32 mod 128 = 32 * (n div 32 mod (4::nat))" "n div 64 * 64 mod 128 = 64 * (n div 32 div 2 mod (2::nat))"
  "n div 128 * 128 mod (128::nat) = 0"
proof -
  have "32 * (n div 32) mod (32 * 4) = 32 * (n div 32 mod 4)" "64 * (n div 64) mod (64 * 2) = 64 * (n div 64 mod 2)"
    by (simp_all only: mod_mult_mult1)
  then show "n div 32 * 32 mod 128 = 32 * (n div 32 mod 4)" "n div 64 * 64 mod 128 = 64 * (n div 32 div 2 mod 2)"
    by (simp_all add: mult.commute div_mult2_eq[symmetric])
qed simp

lemma half_of: "2 * (q div 2 mod 2) \<le> q mod 4 \<and> q mod 4 < 2 * (q div 2 mod 2) + (2::nat)"
  by presburger

lemma chunk_in_segment:
  assumes "seg_ok seg" "unat a < 2 ^ 32"
  shows "unat (block_key seg a) mod 128 \<le> 32 * (unat a mod 128 div 32) \<and>
    32 * (unat a mod 128 div 32) < unat (block_key seg a) mod 128 + unat seg"
proof -
  have "n div s * s mod 128 \<le> 32 * (n mod 128 div 32) \<and> 32 * (n mod 128 div 32) < n div s * s mod 128 + s"
    if "s = 32 \<or> s = 64 \<or> s = 128" for n s :: nat
    using that
  proof (elim disjE)
    assume "s = 32" then show ?thesis by (simp add: chunk_of segment_base)
  next
    assume "s = 64" then show ?thesis using half_of[of "n div 32"] by (simp only: chunk_of segment_base) linarith
  next
    assume "s = 128" then show ?thesis using mod_less_divisor[of 4 "n div 32"] by (simp add: chunk_of segment_base)
  qed
  moreover have "unat seg = 32 \<or> unat seg = 64 \<or> unat seg = 128" using assms(1) by (auto simp: seg_ok_def)
  ultimately show ?thesis unfolding unat_block_key[OF assms] by blast
qed

lemma mark_keeps_ok:
  assumes "seg_ok seg" "aligned_access ds a" "tinfo_ok (unat (block_key seg a)) seg t"
    "\<And>k. bit (ti_chunks t') k \<longleftrightarrow> bit (ti_chunks t) k \<or> k = unat a mod 128 div 32"
    "\<And>j. bit (ti_bytes t') j \<longleftrightarrow> bit (ti_bytes t) j \<or> (\<exists>k < ds. j = unat a mod 128 + k)"
  shows "tinfo_ok (unat (block_key seg a)) seg t'"
  using assms(3) chunk_in_segment[OF assms(1), of a] assms(2) aligned_idx(1)[OF assms(2)]
  unfolding tinfo_ok_def assms(4,5) aligned_access_def by blast

subsection \<open>The transactions of a sub-warp\<close>

definition seg_map_ok :: "u32 \<Rightarrow> (addr \<times> transaction_info) list \<Rightarrow> bool" where
  "seg_map_ok seg m \<longleftrightarrow> map_ok m \<and>
     (\<forall>(b, t) \<in> set m. unat b < 2 ^ 32 \<and> unat seg dvd unat b \<and> tinfo_ok (unat b) seg t \<and> ti_chunks t \<noteq> 0)"

definition recorded :: "u32 \<Rightarrow> nat \<Rightarrow> nat \<Rightarrow> addr \<Rightarrow> (addr \<times> transaction_info) list \<Rightarrow> bool" where
  "recorded seg ds i a m \<longleftrightarrow> (\<exists>t. (block_key seg a, t) \<in> set m \<and> marked ds i a t)"

lemma block_key_ok:
  assumes "seg_ok seg" "unat a < 2 ^ 32"
  shows "unat (block_key seg a) < 2 ^ 32" "unat seg dvd unat (block_key seg a)"
proof -
  have "unat (block_key seg a) \<le> unat a" unfolding unat_block_key[OF assms] by simp
  with assms(2) show "unat (block_key seg a) < 2 ^ 32" by linarith
  show "unat seg dvd unat (block_key seg a)" unfolding unat_block_key[OF assms] by simp
qed

lemma add_access_spec:
  assumes "seg_ok seg" "aligned_access ds a" "i < 32" "seg_map_ok seg m"
  shows "\<exists>m'. add_access seg ds i a m = Some m' \<and> seg_map_ok seg m' \<and> recorded seg ds i a m' \<and>
    (\<forall>ds' j a'. recorded seg ds' j a' m \<longrightarrow> recorded seg ds' j a' m') \<and>
    (\<forall>(b, t') \<in> set m'. \<forall>j. bit (ti_active t') j \<longrightarrow> j = i \<or> (\<exists>t. (b, t) \<in> set m \<and> bit (ti_active t) j))"
proof -
  let ?b = "block_key seg a"
  define t where "t = map_at ?b new_transaction_info m"
  have ok: "map_ok m" using assms(4) by (simp add: seg_map_ok_def)
  have al: "unat a < 2 ^ 32" using assms(2) by (simp add: aligned_access_def)
  have tin: "t = new_transaction_info \<or> (?b, t) \<in> set m"
    unfolding t_def map_at_def by (auto simp: map_ok_in[OF ok] split: option.splits)
  have tok: "tinfo_ok (unat ?b) seg t"
    using tin assms(4) new_tinfo_ok by (fastforce simp: seg_map_ok_def)
  from mark_access_spec[OF assms(2,3), of t] obtain t' where
    t': "mark_access ds i a t = Some t'" "marked ds i a t'"
    "\<And>k. bit (ti_chunks t') k \<longleftrightarrow> bit (ti_chunks t) k \<or> k = unat a mod 128 div 32"
    "\<And>j. bit (ti_active t') j \<longleftrightarrow> bit (ti_active t) j \<or> j = i"
    "\<And>j. bit (ti_bytes t') j \<longleftrightarrow> bit (ti_bytes t) j \<or> (\<exists>k < ds. j = unat a mod 128 + k)" by blast
  define m' where "m' = map_upd ?b new_transaction_info (\<lambda>_. t') m"
  have in': "(b, v) \<in> set m' \<longleftrightarrow> (if b = ?b then v = t' else (b, v) \<in> set m)" for b v
    unfolding m'_def by (rule map_upd_in[OF ok])
  have "one_segment seg ds a"
    using one_segment_aligned[OF assms(1) al] assms(2) by (simp add: aligned_access_def)
  then have e: "add_access seg ds i a m = Some m'"
    using t'(1) by (simp add: add_access_def t_def[symmetric] m'_def)
  have ch: "ti_chunks t' \<noteq> 0" using t'(2) unfolding marked_def by auto
  have "tinfo_ok (unat ?b) seg t'" by (rule mark_keeps_ok[OF assms(1,2) tok t'(3,5)])
  with ch block_key_ok[OF assms(1) al] have new: "unat ?b < 2 ^ 32 \<and> unat seg dvd unat ?b \<and>
    tinfo_ok (unat ?b) seg t' \<and> ti_chunks t' \<noteq> 0" by blast
  have "unat b < 2 ^ 32 \<and> unat seg dvd unat b \<and> tinfo_ok (unat b) seg v \<and> ti_chunks v \<noteq> 0"
    if "(b, v) \<in> set m'" for b v
  proof (cases "b = ?b")
    case True
    with that new show ?thesis by (simp add: in')
  next
    case False
    with that assms(4) show ?thesis unfolding seg_map_ok_def by (auto simp: in')
  qed
  moreover have "map_ok m'" unfolding m'_def by (rule map_upd_ok[OF ok])
  ultimately have "seg_map_ok seg m'" unfolding seg_map_ok_def by blast
  moreover have "recorded seg ds i a m'" unfolding recorded_def in' using t'(2) by simp
  moreover have "recorded seg ds' j a' m'" if r: "recorded seg ds' j a' m" for ds' j a'
  proof -
    from r obtain v where v: "(block_key seg a', v) \<in> set m" "marked ds' j a' v" unfolding recorded_def by blast
    show ?thesis
    proof (cases "block_key seg a' = ?b")
      case True
      then have "t = v" using v(1) unfolding t_def map_at_def by (simp add: map_ok_in[OF ok])
      then have "marked ds' j a' t'" by (intro marked_mono[OF v(2)]) (simp_all add: t'(3-5))
      with True show ?thesis unfolding recorded_def in' by simp
    next
      case False
      with v show ?thesis unfolding recorded_def in' by auto
    qed
  qed
  moreover have "j = i \<or> (\<exists>t. (b, t) \<in> set m \<and> bit (ti_active t) j)"
    if "(b, v) \<in> set m'" "bit (ti_active v) j" for b v j
  proof (cases "b = ?b")
    case True
    with that have "v = t'" by (simp add: in')
    with that t'(4) have "bit (ti_active t) j \<or> j = i" by blast
    with tin True show ?thesis by (auto simp: new_transaction_info_def)
  next
    case False
    with that show ?thesis by (auto simp: in')
  qed
  ultimately show ?thesis using e by (intro exI[of _ m']) blast
qed

definition warp_ok :: "core_config \<Rightarrow> warp_inst \<Rightarrow> bool" where
  "warp_ok c w \<longleftrightarrow> cc_warp_size c \<le> 32 \<and> cc_mem_warp_parts c \<noteq> 0 \<and> cc_mem_warp_parts c dvd cc_warp_size c \<and>
     length (wi_addrs w) = cc_warp_size c \<and> (\<forall>as \<in> set (wi_addrs w). length as = 8)"

definition warp_aligned :: "warp_inst \<Rightarrow> bool" where
  "warp_aligned w \<longleftrightarrow> wi_data_size w \<in> {1, 2, 4, 8, 16} \<and>
     (\<forall>i < length (wi_addrs w). bit (wi_active w) i \<longrightarrow>
        (\<forall>k < snd (access_split w). aligned_access (fst (access_split w)) (wi_addrs w ! i ! k)))"

definition threads_of :: "transaction_info \<Rightarrow> nat set" where
  "threads_of t = {j. bit (ti_active t) j}"

text \<open>Every requested access of thread \<open>i\<close> is recorded.\<close>

definition thread_recorded :: "warp_inst \<Rightarrow> nat \<Rightarrow> (addr \<times> transaction_info) list \<Rightarrow> bool" where
  "thread_recorded w i m \<longleftrightarrow>
     (\<forall>k < snd (access_split w).
        recorded (segment_size (wi_data_size w)) (fst (access_split w)) i (wi_addrs w ! i ! k) m)"

text \<open>
  Byte \<open>j\<close> of the 128 bytes around \<open>base\<close> is a byte of one of the requested accesses of one of
  the threads \<open>T\<close>.
\<close>

definition byte_asked :: "warp_inst \<Rightarrow> nat set \<Rightarrow> nat \<Rightarrow> nat \<Rightarrow> bool" where
  "byte_asked w T base j \<longleftrightarrow> (\<exists>i \<in> T. \<exists>k < snd (access_split w). \<exists>d < fst (access_split w).
     unat (wi_addrs w ! i ! k) + d = base div 128 * 128 + j)"

definition bytes_asked :: "warp_inst \<Rightarrow> (addr \<times> transaction_info) list \<Rightarrow> bool" where
  "bytes_asked w m \<longleftrightarrow>
     (\<forall>(b, t) \<in> set m. \<forall>j. bit (ti_bytes t) j \<longrightarrow> byte_asked w (threads_of t) (unat b) j)"

lemma byte_asked_mono: "byte_asked w T b j \<Longrightarrow> T \<subseteq> T' \<Longrightarrow> byte_asked w T' b j"
  unfolding byte_asked_def by blast

lemma block_key_128:
  assumes "seg_ok seg" "unat a < 2 ^ 32"
  shows "unat (block_key seg a) div 128 = unat a div 128"
proof -
  obtain r where r: "128 = unat seg * r" using seg_ok_dvd[OF assms(1)] by (elim conjE dvdE)
  have "unat a div unat seg * unat seg div (unat seg * r) = unat a div (unat seg * r)"
    using seg_ok_dvd[OF assms(1)] by (simp add: div_mult2_eq)
  then show ?thesis unfolding unat_block_key[OF assms] r .
qed

lemma add_access_bytes:
  assumes "seg_ok seg" "aligned_access (fst (access_split w)) a" "i < 32" "a = wi_addrs w ! i ! k"
    "k < snd (access_split w)" "map_ok m" "bytes_asked w m" "add_access seg (fst (access_split w)) i a m = Some m'"
  shows "map_ok m' \<and> bytes_asked w m'"
proof -
  let ?b = "block_key seg a" and ?ds = "fst (access_split w)"
  define t where "t = map_at ?b new_transaction_info m"
  from mark_access_spec[OF assms(2,3), of t] obtain t' where
    t': "mark_access ?ds i a t = Some t'"
    "\<And>j. bit (ti_active t') j \<longleftrightarrow> bit (ti_active t) j \<or> j = i"
    "\<And>j. bit (ti_bytes t') j \<longleftrightarrow> bit (ti_bytes t) j \<or> (\<exists>k < ?ds. j = unat a mod 128 + k)" by blast
  have m': "m' = map_upd ?b new_transaction_info (\<lambda>_. t') m"
    using assms(8) t'(1) by (auto simp: add_access_def t_def[symmetric] split: if_splits)
  have tin: "t = new_transaction_info \<or> (?b, t) \<in> set m"
    unfolding t_def map_at_def by (auto simp: map_ok_in[OF assms(6)] split: option.splits)
  have old: "byte_asked w (threads_of t) (unat ?b) j" if "bit (ti_bytes t) j" for j
    using tin that assms(7) by (auto simp: bytes_asked_def new_transaction_info_def)
  have al: "unat a < 2 ^ 32" using assms(2) by (simp add: aligned_access_def)
  have th: "threads_of t' = insert i (threads_of t)" by (auto simp: threads_of_def t'(2))
  have new: "byte_asked w (threads_of t') (unat ?b) j" if "bit (ti_bytes t') j" for j
  proof (cases "bit (ti_bytes t) j")
    case True
    from old[OF this] show ?thesis by (rule byte_asked_mono) (auto simp: th)
  next
    case False
    with that t'(3) obtain d where d: "d < ?ds" "j = unat a mod 128 + d" by blast
    then have "unat (wi_addrs w ! i ! k) + d = unat ?b div 128 * 128 + j"
      unfolding block_key_128[OF assms(1) al] assms(4)[symmetric] by simp
    with d(1) assms(5) show ?thesis unfolding byte_asked_def th by blast
  qed
  have "byte_asked w (threads_of v) (unat b) j" if "(b, v) \<in> set m'" "bit (ti_bytes v) j" for b v j
  proof (cases "b = ?b")
    case True
    with that(1) have "v = t'" unfolding m' by (simp add: map_upd_in[OF assms(6)])
    with new that(2) True show ?thesis by simp
  next
    case False
    with that(1) have "(b, v) \<in> set m" unfolding m' by (simp add: map_upd_in[OF assms(6)])
    with assms(7) that(2) show ?thesis unfolding bytes_asked_def by blast
  qed
  moreover have "map_ok m'" unfolding m' by (rule map_upd_ok[OF assms(6)])
  ultimately show ?thesis unfolding bytes_asked_def by blast
qed

lemma segment_size_ok: "wi_data_size w \<in> {1, 2, 4, 8, 16} \<Longrightarrow> seg_ok (segment_size (wi_data_size w))"
  by (auto simp: seg_ok_def segment_size_def)

lemma access_split_bound: "wi_data_size w \<in> {1, 2, 4, 8, 16} \<Longrightarrow> snd (access_split w) \<le> 8"
  by (auto simp: access_split_def)

lemma coalesce_thread_spec:
  assumes w: "warp_ok c w" "warp_aligned w" and i: "i < cc_warp_size c"
    and m: "seg_map_ok (segment_size (wi_data_size w)) m"
  shows "\<exists>m'. coalesce_thread w (segment_size (wi_data_size w)) i m = Some m' \<and>
    seg_map_ok (segment_size (wi_data_size w)) m' \<and> (bit (wi_active w) i \<longrightarrow> thread_recorded w i m') \<and>
    (\<forall>j. thread_recorded w j m \<longrightarrow> thread_recorded w j m') \<and>
    (\<forall>(b, t') \<in> set m'. \<forall>j \<in> threads_of t'. (j = i \<and> bit (wi_active w) i) \<or> (\<exists>t. (b, t) \<in> set m \<and> j \<in> threads_of t))"
proof (cases "bit (wi_active w) i")
  case False
  have "i < 32" using w(1) i by (simp add: warp_ok_def)
  with False m show ?thesis
    by (intro exI[of _ m]) (auto simp: coalesce_thread_def active_thread_def)
next
  case True
  let ?seg = "segment_size (wi_data_size w)" and ?ds = "fst (access_split w)" and ?n = "snd (access_split w)"
  have ds: "wi_data_size w \<in> {1, 2, 4, 8, 16}" using w(2) by (simp add: warp_aligned_def)
  have i32: "i < 32" using w(1) i by (simp add: warp_ok_def)
  note seg = segment_size_ok[OF ds] and n8 = access_split_bound[OF ds]
  have ta: "thread_addr w i k = Some (wi_addrs w ! i ! k)" if "k < ?n" for k
    using w(1) i that n8 nth_mem[of i "wi_addrs w"] unfolding thread_addr_def warp_ok_def by auto
  have al: "aligned_access ?ds (wi_addrs w ! i ! k)" if "k < ?n" for k
    using w True i that by (simp add: warp_aligned_def warp_ok_def)
  let ?I = "\<lambda>ks t. seg_map_ok ?seg t \<and> (\<forall>k \<in> set ks. recorded ?seg ?ds i (wi_addrs w ! i ! k) t) \<and>
    (\<forall>ds' j a'. recorded ?seg ds' j a' m \<longrightarrow> recorded ?seg ds' j a' t) \<and>
    (\<forall>(b, t') \<in> set t. \<forall>j \<in> threads_of t'. j = i \<or> (\<exists>t0. (b, t0) \<in> set m \<and> j \<in> threads_of t0))"
  have "\<exists>m'. fold_opt (\<lambda>k m. Option.bind (thread_addr w i k) (\<lambda>a. add_access ?seg ?ds i a m)) [0 ..< ?n] m
      = Some m' \<and> ?I [0 ..< ?n] m'"
  proof (rule fold_opt_total)
    show "?I [] m" using m by auto
    fix ys k zs t assume k: "[0 ..< ?n] = ys @ k # zs" and I: "?I ys t"
    then have kn: "k < ?n" by (metis in_set_conv_decomp atLeastLessThan_iff set_upt)
    have tok: "seg_map_ok ?seg t" using I by blast
    from add_access_spec[OF seg al[OF kn] i32 tok] obtain t' where
      t': "add_access ?seg ?ds i (wi_addrs w ! i ! k) t = Some t'" "seg_map_ok ?seg t'"
      "recorded ?seg ?ds i (wi_addrs w ! i ! k) t'"
      "\<forall>ds' j a'. recorded ?seg ds' j a' t \<longrightarrow> recorded ?seg ds' j a' t'"
      "\<forall>(b, v) \<in> set t'. \<forall>j. bit (ti_active v) j \<longrightarrow> j = i \<or> (\<exists>u. (b, u) \<in> set t \<and> bit (ti_active u) j)"
      by blast
    have th: "\<forall>(b, v) \<in> set t'. \<forall>j \<in> threads_of v. j = i \<or> (\<exists>t0. (b, t0) \<in> set m \<and> j \<in> threads_of t0)"
      using t'(5) I unfolding threads_of_def by fast
    show "\<exists>t'. Option.bind (thread_addr w i k) (\<lambda>a. add_access ?seg ?ds i a t) = Some t' \<and> ?I (ys @ [k]) t'"
      using t' I th by (intro exI[of _ t']) (simp add: ta[OF kn])
  qed
  then obtain m' where m': "fold_opt (\<lambda>k m. Option.bind (thread_addr w i k) (\<lambda>a. add_access ?seg ?ds i a m)) [0 ..< ?n] m
      = Some m'" "?I [0 ..< ?n] m'" by blast
  then have e: "coalesce_thread w ?seg i m = Some m'"
    using True i32 n8 by (simp add: coalesce_thread_def active_thread_def case_prod_beta Let_def)
  have "thread_recorded w i m'" using m'(2) by (simp add: thread_recorded_def)
  moreover have "thread_recorded w j m'" if "thread_recorded w j m" for j
    using that m'(2) by (simp add: thread_recorded_def)
  ultimately show ?thesis using e m'(2) True by (intro exI[of _ m']) blast
qed

lemma coalesce_thread_bytes:
  assumes w: "warp_ok c w" "warp_aligned w" and i: "i < cc_warp_size c" and m: "map_ok m" "bytes_asked w m"
    and r: "coalesce_thread w (segment_size (wi_data_size w)) i m = Some m'"
  shows "map_ok m' \<and> bytes_asked w m'"
proof (cases "bit (wi_active w) i")
  case False
  with r m show ?thesis by (auto simp: coalesce_thread_def active_thread_def split: if_splits)
next
  case True
  let ?seg = "segment_size (wi_data_size w)" and ?ds = "fst (access_split w)" and ?n = "snd (access_split w)"
  let ?f = "\<lambda>k m. Option.bind (thread_addr w i k) (\<lambda>a. add_access ?seg ?ds i a m)"
  have ds: "wi_data_size w \<in> {1, 2, 4, 8, 16}" using w(2) by (simp add: warp_aligned_def)
  have i32: "i < 32" using w(1) i by (simp add: warp_ok_def)
  have f: "fold_opt ?f [0 ..< ?n] m = Some m'"
    using r True i32 by (auto simp: coalesce_thread_def active_thread_def case_prod_beta Let_def split: if_splits)
  have al: "aligned_access ?ds (wi_addrs w ! i ! k)" if "k < ?n" for k
    using w True i that by (simp add: warp_aligned_def warp_ok_def)
  show ?thesis
  proof (rule fold_opt_inv[OF f, where I = "\<lambda>_ t. map_ok t \<and> bytes_asked w t"])
    fix ys k zs t t' assume k: "[0 ..< ?n] = ys @ k # zs" and I: "map_ok t \<and> bytes_asked w t" and e: "?f k t = Some t'"
    then have kn: "k < ?n" by (metis in_set_conv_decomp atLeastLessThan_iff set_upt)
    from e have a: "add_access ?seg ?ds i (wi_addrs w ! i ! k) t = Some t'"
      by (auto simp: thread_addr_def split: Option.bind_splits if_splits)
    show "map_ok t' \<and> bytes_asked w t'"
      by (rule add_access_bytes[OF segment_size_ok[OF ds] al[OF kn] i32 refl kn _ _ a]) (use I in blast)+
  qed (use m in simp)
qed

lemma subwarp_bytes:
  assumes w: "warp_ok c w" "warp_aligned w" and ts: "\<And>i. i \<in> set ts \<Longrightarrow> i < cc_warp_size c"
    and r: "fold_opt (coalesce_thread w (segment_size (wi_data_size w))) ts [] = Some m"
  shows "bytes_asked w m"
proof -
  have "map_ok m \<and> bytes_asked w m"
  proof (rule fold_opt_inv[OF r, where I = "\<lambda>_ t. map_ok t \<and> bytes_asked w t"])
    fix ys i zs t t' assume d: "ts = ys @ i # zs" and I: "map_ok t \<and> bytes_asked w t"
      and e: "coalesce_thread w (segment_size (wi_data_size w)) i t = Some t'"
    have i: "i < cc_warp_size c" by (rule ts) (simp add: d)
    show "map_ok t' \<and> bytes_asked w t'" by (rule coalesce_thread_bytes[OF w i _ _ e]) (use I in blast)+
  qed (simp add: bytes_asked_def)
  then show ?thesis ..
qed

lemma subwarp_spec:
  assumes w: "warp_ok c w" "warp_aligned w" and ts: "\<And>i. i \<in> set ts \<Longrightarrow> i < cc_warp_size c"
  shows "\<exists>m. fold_opt (coalesce_thread w (segment_size (wi_data_size w))) ts [] = Some m \<and>
    seg_map_ok (segment_size (wi_data_size w)) m \<and>
    (\<forall>i \<in> set ts. bit (wi_active w) i \<longrightarrow> thread_recorded w i m) \<and>
    (\<forall>(b, t) \<in> set m. threads_of t \<subseteq> {i \<in> set ts. bit (wi_active w) i})"
proof -
  let ?seg = "segment_size (wi_data_size w)"
  let ?I = "\<lambda>xs m. seg_map_ok ?seg m \<and> (\<forall>i \<in> set xs. bit (wi_active w) i \<longrightarrow> thread_recorded w i m) \<and>
    (\<forall>(b, t) \<in> set m. threads_of t \<subseteq> {i \<in> set xs. bit (wi_active w) i})"
  have "\<exists>m. fold_opt (coalesce_thread w ?seg) ts [] = Some m \<and> ?I ts m"
  proof (rule fold_opt_total)
    show "?I [] []" by (simp add: seg_map_ok_def)
    fix ys i zs m assume d: "ts = ys @ i # zs" and I: "?I ys m"
    have i: "i < cc_warp_size c" by (rule ts) (simp add: d)
    from I have mok: "seg_map_ok ?seg m" by blast
    from coalesce_thread_spec[OF w i mok] obtain m' where m': "coalesce_thread w ?seg i m = Some m'"
      "seg_map_ok ?seg m'" "bit (wi_active w) i \<longrightarrow> thread_recorded w i m'"
      "\<forall>j. thread_recorded w j m \<longrightarrow> thread_recorded w j m'"
      "\<forall>(b, t') \<in> set m'. \<forall>j \<in> threads_of t'. (j = i \<and> bit (wi_active w) i) \<or> (\<exists>t. (b, t) \<in> set m \<and> j \<in> threads_of t)"
      by blast
    have "threads_of t \<subseteq> {x \<in> set (ys @ [i]). bit (wi_active w) x}" if "(b, t) \<in> set m'" for b t
    proof
      fix j assume "j \<in> threads_of t"
      with m'(5) that consider "j = i" "bit (wi_active w) i" | u where "(b, u) \<in> set m" "j \<in> threads_of u" by blast
      then show "j \<in> {x \<in> set (ys @ [i]). bit (wi_active w) x}"
      proof cases
        case 2
        with I have "j \<in> {i \<in> set ys. bit (wi_active w) i}" by blast
        then show ?thesis by simp
      qed simp
    qed
    then have sub: "\<forall>(b, t) \<in> set m'. threads_of t \<subseteq> {x \<in> set (ys @ [i]). bit (wi_active w) x}" by blast
    have "thread_recorded w j m'" if "j \<in> set (ys @ [i])" "bit (wi_active w) j" for j
    proof (cases "j = i")
      case True
      with m'(3) that show ?thesis by simp
    next
      case False
      with that have "j \<in> set ys" by simp
      with I that(2) have "thread_recorded w j m" by blast
      with m'(4) show ?thesis by blast
    qed
    then have "\<forall>j \<in> set (ys @ [i]). bit (wi_active w) j \<longrightarrow> thread_recorded w j m'" by blast
    from m'(1,2) this sub show "\<exists>m'. coalesce_thread w ?seg i m = Some m' \<and> ?I (ys @ [i]) m'"
      by (intro exI[of _ m'] conjI)
  qed
  then show ?thesis .
qed

subsection \<open>Reducing and sending\<close>

lemma bit4: "(\<forall>k. bit (q :: 4 word) k \<longrightarrow> P k) \<longleftrightarrow>
    (bit q 0 \<longrightarrow> P 0) \<and> (bit q 1 \<longrightarrow> P 1) \<and> (bit q 2 \<longrightarrow> P 2) \<and> (bit q 3 \<longrightarrow> P 3)"
proof -
  have "k = 0 \<or> k = 1 \<or> k = 2 \<or> k = 3" if "bit q k" for k
    using bit_imp_le_length[OF that] by auto
  then show ?thesis by metis
qed

lemma word4_nonzero: "(q :: 4 word) \<noteq> 0 \<longleftrightarrow> bit q 0 \<or> bit q 1 \<or> bit q 2 \<or> bit q 3"
proof -
  have "q = 0 \<longleftrightarrow> (\<forall>k. bit q k \<longrightarrow> False)" by (auto intro!: bit_word_eqI)
  then show ?thesis unfolding bit4 by blast
qed

text \<open>
  The window \<open>[a, a + sz)\<close> a transaction is reduced to: a power of two of bytes, aligned, that
  holds every recorded chunk and cannot be halved.
\<close>

definition window_ok :: "4 word \<Rightarrow> nat \<Rightarrow> nat \<Rightarrow> bool" where
  "window_ok q a sz \<longleftrightarrow> sz \<in> {32, 64, 128} \<and> sz dvd a \<and>
     (\<forall>k. bit q k \<longrightarrow> a mod 128 \<le> 32 * k \<and> 32 * k + 32 \<le> a mod 128 + sz) \<and>
     (sz \<noteq> 32 \<longrightarrow> (\<exists>k. bit q k \<and> 32 * k < a mod 128 + sz div 2) \<and> (\<exists>k. bit q k \<and> a mod 128 + sz div 2 \<le> 32 * k))"

lemma window_32:
  assumes "a mod 128 = 32 * k" "\<forall>j. bit q j \<longrightarrow> j = k"
  shows "window_ok q a 32"
proof -
  have "32 dvd a" using assms(1) by presburger
  moreover have "32 * k \<le> 32 * j \<and> 32 * j + 32 \<le> 32 * k + 32" if "bit q j" for j using assms(2) that by simp
  ultimately show ?thesis unfolding window_ok_def assms(1) by simp
qed

lemma window_64:
  assumes "a mod 128 = 32 * k" "k = 0 \<or> k = 2" "bit q k" "bit q (k + 1)" "\<forall>j. bit q j \<longrightarrow> j = k \<or> j = k + 1"
  shows "window_ok q a 64"
proof -
  have "a = 128 * (a div 128) + 32 * k" using assms(1) mult_div_mod_eq[of 128 a] by simp
  moreover have "64 dvd 128 * (a div 128) + 32 * k" using assms(2) by (elim disjE) (simp_all add: dvd_add)
  ultimately have "64 dvd a" by (rule ssubst)
  moreover have "32 * k \<le> 32 * j \<and> 32 * j + 32 \<le> 32 * k + 64" if "bit q j" for j using assms(5) that by auto
  moreover have "\<exists>j. bit q j \<and> 32 * j < 32 * k + 64 div 2" by (rule exI[of _ k]) (simp add: assms(3))
  moreover have "\<exists>j. bit q j \<and> 32 * k + 64 div 2 \<le> 32 * j"
    by (rule exI[of _ "k + 1"]) (use assms(4) in simp)
  ultimately show ?thesis unfolding window_ok_def assms(1) by simp
qed

lemma window_128:
  assumes "a mod 128 = 0" "bit q 0 \<or> bit q 1" "bit q 2 \<or> bit q 3"
  shows "window_ok q a 128"
proof -
  have "128 dvd a" using assms(1) by presburger
  moreover have "32 * j + 32 \<le> 128" if "bit q j" for j using bit_imp_le_length[OF that] by simp
  moreover have "\<exists>j. bit q j \<and> 32 * j < 128 div (2::nat)" using assms(2)
  proof
    assume "bit q 0" then show ?thesis by (intro exI[of _ 0]) simp
  next
    assume "bit q 1" then show ?thesis by (intro exI[of _ 1]) simp
  qed
  moreover have "\<exists>j. bit q j \<and> 128 div (2::nat) \<le> 32 * j" using assms(3)
  proof
    assume "bit q 2" then show ?thesis by (intro exI[of _ 2]) simp
  next
    assume "bit q 3" then show ?thesis by (intro exI[of _ 3]) simp
  qed
  ultimately show ?thesis unfolding window_ok_def assms(1) by simp
qed

lemma unat_plus_small: "unat (b :: addr) < 2 ^ 32 \<Longrightarrow> n \<le> 128 \<Longrightarrow> unat (b + of_nat n) = unat b + n"
  by (simp add: unat_word_ariths unat_of_nat take_bit_eq_mod)

lemma reduce_half_spec:
  assumes "unat a mod 128 = 32 * k" "k = 0 \<or> k = 2" "unat a < 2 ^ 33" "\<forall>j. bit q j \<longrightarrow> j = k \<or> j = k + 1"
    "bit q k \<or> bit q (k + 1)"
  shows "\<exists>a' sz. reduce_half a (bit q k) (bit q (k + 1)) = Some (a', sz) \<and> window_ok q (unat a') (unat sz) \<and>
    unat a \<le> unat a' \<and> unat a' + unat sz \<le> unat a + 64"
proof -
  have p: "unat (a + 32) = unat a + 32" using assms(3) by (simp add: unat_word_ariths)
  have "(unat a + 32) mod 128 = (32 * k + 32) mod 128" by (subst mod_add_left_eq[symmetric]) (simp only: assms(1))
  then have m: "(unat a + 32) mod 128 = 32 * (k + 1)" using assms(2) by (elim disjE) simp_all
  consider "bit q k" "bit q (k + 1)" | "bit q k" "\<not> bit q (k + 1)" | "\<not> bit q k" "bit q (k + 1)"
    using assms(5) by blast
  then show ?thesis
  proof cases
    case 1
    have "window_ok q (unat a) 64" by (rule window_64[OF assms(1,2) 1 assms(4)])
    with 1 show ?thesis by (intro exI[of _ a] exI[of _ 64]) (simp add: reduce_half_def)
  next
    case 2
    have "\<forall>j. bit q j \<longrightarrow> j = k" using assms(4) 2 by blast
    then have "window_ok q (unat a) 32" by (rule window_32[OF assms(1)])
    with 2 show ?thesis by (intro exI[of _ a] exI[of _ 32]) (simp add: reduce_half_def)
  next
    case 3
    have "\<forall>j. bit q j \<longrightarrow> j = k + 1" using assms(4) 3 by blast
    then have "window_ok q (unat a + 32) 32" by (rule window_32[OF m])
    with 3 p show ?thesis by (intro exI[of _ "a + 32"] exI[of _ 32]) (simp add: reduce_half_def)
  qed
qed

lemma reduce_segment_32:
  assumes "unat b mod 128 = 32 * k" "\<forall>j. bit q j \<longrightarrow> j = k"
  shows "\<exists>a sz. reduce_segment q b 32 = Some (a, sz) \<and> window_ok q (unat a) (unat sz) \<and>
    unat b \<le> unat a \<and> unat a + unat sz \<le> unat b + 32"
  using window_32[OF assms] by (intro exI[of _ b] exI[of _ 32]) (simp add: reduce_segment_def)

lemma reduce_segment_64:
  assumes "unat b mod 128 = 32 * k" "k = 0 \<or> k = 2" "unat b < 2 ^ 33" "\<forall>j. bit q j \<longrightarrow> j = k \<or> j = k + 1"
    "bit q k \<or> bit q (k + 1)"
  shows "\<exists>a sz. reduce_segment q b 64 = Some (a, sz) \<and> window_ok q (unat a) (unat sz) \<and>
    unat b \<le> unat a \<and> unat a + unat sz \<le> unat b + 64"
proof -
  have bm: "unat (b mod 128) = 32 * k" using assms(1) by (simp add: unat_mod_distrib)
  have "reduce_segment q b 64 = reduce_half b (bit q k) (bit q (k + 1))" using assms(2)
  proof
    assume "k = 0" with bm have "b mod 128 = 0" by (simp add: unat_eq_zero)
    then show ?thesis by (simp add: reduce_segment_def \<open>k = 0\<close>)
  next
    assume k: "k = 2" with bm have "unat (b mod 128) = unat (64 :: addr)" by simp
    then have "b mod 128 = 64" by (simp only: word_unat_eq_iff)
    then show ?thesis by (simp add: reduce_segment_def k)
  qed
  with reduce_half_spec[OF assms] show ?thesis by simp
qed

lemma reduce_segment_128:
  assumes b0: "unat b mod 128 = 0" and b: "unat b < 2 ^ 32"
    and nz: "bit q 0 \<or> bit q 1 \<or> bit q 2 \<or> bit q 3"
  shows "\<exists>a sz. reduce_segment q b 128 = Some (a, sz) \<and> window_ok q (unat a) (unat sz) \<and>
    unat b \<le> unat a \<and> unat a + unat sz \<le> unat b + 128"
proof -
  have b33: "unat b < 2 ^ 33" using b by simp
  have b64: "unat (b + 64) = unat b + 64" using unat_plus_small[OF b, of 64] by simp
  consider "bit q 0 \<or> bit q 1" "bit q 2 \<or> bit q 3" | "bit q 0 \<or> bit q 1" "\<not> bit q 2" "\<not> bit q 3"
    | "\<not> bit q 0" "\<not> bit q 1" "bit q 2 \<or> bit q 3" using nz by blast
  then show ?thesis
  proof cases
    case h: 1
    have "window_ok q (unat b) 128" by (rule window_128[OF b0 h])
    with h show ?thesis by (intro exI[of _ b] exI[of _ 128]) (simp add: reduce_segment_def)
  next
    case h: 2
    have only: "\<forall>j. bit q j \<longrightarrow> j = 0 \<or> j = 0 + 1" unfolding bit4 using h by simp
    have m: "unat b mod 128 = 32 * 0" using b0 by simp
    have z: "bit q 0 \<or> bit q (0 + 1)" using h(1) by simp
    have "reduce_segment q b 128 = reduce_half b (bit q 0) (bit q (0 + 1))" using h by (simp add: reduce_segment_def)
    moreover from reduce_half_spec[OF m _ b33 only z] obtain a' sz where
      r: "reduce_half b (bit q 0) (bit q (0 + 1)) = Some (a', sz)" "window_ok q (unat a') (unat sz)"
      "unat b \<le> unat a'" "unat a' + unat sz \<le> unat b + 64" by blast
    moreover have "unat a' + unat sz \<le> unat b + 128" using r(4) by linarith
    ultimately show ?thesis by (intro exI[of _ a'] exI[of _ sz] conjI) (simp_all only:)
  next
    case h: 3
    have only: "\<forall>j. bit q j \<longrightarrow> j = 2 \<or> j = 2 + 1" unfolding bit4 using h by simp
    have "(unat b + 64) mod 128 = (0 + 64) mod 128" by (subst mod_add_left_eq[symmetric]) (simp only: b0)
    then have m: "unat (b + 64) mod 128 = 32 * 2" unfolding b64 by simp
    have lim: "unat (b + 64) < 2 ^ 33" using b b64 by simp
    have z: "bit q 2 \<or> bit q (2 + 1)" using h(3) by simp
    have "reduce_segment q b 128 = reduce_half (b + 64) (bit q 2) (bit q (2 + 1))" using h by (simp add: reduce_segment_def)
    moreover from reduce_half_spec[OF m _ lim only z] obtain a' sz where
      r: "reduce_half (b + 64) (bit q 2) (bit q (2 + 1)) = Some (a', sz)" "window_ok q (unat a') (unat sz)"
      "unat (b + 64) \<le> unat a'" "unat a' + unat sz \<le> unat (b + 64) + 64" by blast
    moreover have "unat b \<le> unat a'" "unat a' + unat sz \<le> unat b + 128" using r(3,4) unfolding b64 by linarith+
    ultimately show ?thesis by (intro exI[of _ a'] exI[of _ sz] conjI) (simp_all only:)
  qed
qed

lemma mod2_cases_nat: "x mod 2 = 0 \<or> x mod 2 = (1::nat)"
  by linarith

lemma reduce_segment_spec:
  assumes seg: "seg_ok seg" and b: "unat b < 2 ^ 32" "unat seg dvd unat b"
    and t: "tinfo_ok (unat b) seg t" "ti_chunks t \<noteq> 0"
  shows "\<exists>a sz. reduce_segment (ti_chunks t) b seg = Some (a, sz) \<and> window_ok (ti_chunks t) (unat a) (unat sz) \<and>
    unat b \<le> unat a \<and> unat a + unat sz \<le> unat b + unat seg"
proof -
  let ?q = "ti_chunks t"
  have ch: "unat b mod 128 \<le> 32 * k \<and> 32 * k < unat b mod 128 + unat seg" if "bit ?q k" for k
    using t(1) that unfolding tinfo_ok_def by blast
  have nz: "bit ?q 0 \<or> bit ?q 1 \<or> bit ?q 2 \<or> bit ?q 3" using t(2) word4_nonzero by blast
  from seg consider "seg = 32" | "seg = 64" | "seg = 128" unfolding seg_ok_def by blast
  then show ?thesis
  proof cases
    case 1
    have "32 dvd unat b" using b(2) 1 by simp
    then have "32 dvd unat b mod 128" by (simp add: dvd_mod)
    then obtain k where k: "unat b mod 128 = 32 * k" by (elim dvdE)
    have "j = k" if "bit ?q j" for j using ch[OF that] unfolding 1 k by simp
    then show ?thesis using reduce_segment_32[OF k, of ?q] unfolding 1 by simp
  next
    case 2
    have "64 dvd unat b" using b(2) 2 by simp
    then obtain x where x: "unat b = 64 * x" by (elim dvdE)
    have "64 * x mod (64 * 2) = 64 * (x mod 2)" by (rule mod_mult_mult1)
    moreover have "x mod 2 = 0 \<or> x mod 2 = 1" by (rule mod2_cases_nat)
    ultimately have "unat b mod 128 = 32 * 0 \<or> unat b mod 128 = 32 * 2" unfolding x by auto
    then obtain k where k: "unat b mod 128 = 32 * k" "k = 0 \<or> k = 2" by blast
    have "j = k \<or> j = k + 1" if "bit ?q j" for j using ch[OF that] unfolding 2 k(1) by auto
    then have only: "\<forall>j. bit ?q j \<longrightarrow> j = k \<or> j = k + 1" by blast
    have "bit ?q k \<or> bit ?q (k + 1)"
    proof (rule ccontr)
      assume n: "\<not> (bit ?q k \<or> bit ?q (k + 1))"
      have "\<not> bit ?q j" for j using only[rule_format, of j] n by auto
      with nz show False by simp
    qed
    from reduce_segment_64[OF k _ only this] b(1) show ?thesis unfolding 2 by simp
  next
    case 3
    have "128 dvd unat b" using b(2) 3 by simp
    then have "unat b mod 128 = 0" by (simp only: dvd_eq_mod_eq_0)
    from reduce_segment_128[OF this b(1) nz] show ?thesis unfolding 3 by simp
  qed
qed

subsection \<open>What the accesses cover\<close>

text \<open>
  An access serves \<open>ds\<close> bytes at \<open>a\<close> for thread \<open>i\<close>: the thread is in its mask, the bytes are in
  its byte mask (which is relative to the enclosing 128 bytes) and inside its window.
\<close>

definition serves :: "mem_access_t \<Rightarrow> nat \<Rightarrow> nat \<Rightarrow> addr \<Rightarrow> bool" where
  "serves x ds i a \<longleftrightarrow> bit (ma_warp_mask x) i \<and> (\<forall>k < ds. bit (ma_byte_mask x) (unat a mod 128 + k)) \<and>
     unat (ma_addr x) \<le> unat a \<and> unat a + ds \<le> unat (ma_addr x) + unat (ma_req_size x)"

text \<open>An access is well formed: 32, 64 or 128 bytes, aligned, its byte mask inside its window.\<close>

definition access_shape :: "mem_access_type \<Rightarrow> bool \<Rightarrow> mem_access_t \<Rightarrow> bool" where
  "access_shape ty wr x \<longleftrightarrow> ma_type x = ty \<and> ma_write x = wr \<and> unat (ma_req_size x) \<in> {32, 64, 128} \<and>
     unat (ma_req_size x) dvd unat (ma_addr x) \<and>
     (\<forall>j. bit (ma_byte_mask x) j \<longrightarrow> unat (ma_addr x) mod 128 \<le> j \<and>
        j < unat (ma_addr x) mod 128 + unat (ma_req_size x))"

definition access_threads :: "mem_access_t \<Rightarrow> nat set" where
  "access_threads x = {i. bit (ma_warp_mask x) i}"

text \<open>Every byte in an access's byte mask is a byte that one of its threads asked for.\<close>

definition only_asked :: "warp_inst \<Rightarrow> mem_access_t \<Rightarrow> bool" where
  "only_asked w x \<longleftrightarrow>
     (\<forall>j. bit (ma_byte_mask x) j \<longrightarrow> byte_asked w (access_threads x) (unat (ma_addr x)) j)"

lemma same_block:
  assumes "seg_ok seg" "unat a < 2 ^ 32" "unat (block_key seg a) \<le> n" "n + s \<le> unat (block_key seg a) + unat seg" "0 < s"
  shows "n div 128 = unat a div 128"
proof -
  let ?g = "unat seg" and ?b = "unat (block_key seg a)"
  have g: "?g dvd 128" "0 < ?g" using seg_ok_dvd[OF assms(1)] by auto
  have bq: "?b = unat a div ?g * ?g" by (rule unat_block_key[OF assms(1,2)])
  have "n div ?g = unat a div ?g"
  proof (rule div_nat_eqI)
    show "?g * (unat a div ?g) \<le> n" using assms(3) bq by (simp add: mult.commute)
    show "n < ?g * Suc (unat a div ?g)" using assms(4,5) bq by (simp add: mult.commute)
  qed
  then have e: "n div (?g * r) = unat a div (?g * r)" for r by (simp add: div_mult2_eq)
  from g(1) obtain r where r: "128 = ?g * r" by (elim dvdE)
  show ?thesis unfolding r by (rule e)
qed

lemma send_serves:
  assumes "seg_ok seg" "aligned_access ds a" "window_ok (ti_chunks t) (unat w) (unat sz)"
    "unat (block_key seg a) \<le> unat w" "unat w + unat sz \<le> unat (block_key seg a) + unat seg" "marked ds i a t"
  shows "serves (mem_access_masked ty w sz wr (ti_active t) (ti_bytes t)) ds i a"
proof -
  have al: "unat a < 2 ^ 32" "0 < ds" "ds dvd 32" "ds dvd unat a" using assms(2) by (auto simp: aligned_access_def)
  have s: "0 < unat sz" using assms(3) by (auto simp: window_ok_def)
  note bl = same_block[OF assms(1) al(1) assms(4,5) s]
  have c: "unat w mod 128 \<le> 32 * (unat a mod 128 div 32) \<and> 32 * (unat a mod 128 div 32) + 32 \<le> unat w mod 128 + unat sz"
    using assms(3,6) unfolding window_ok_def marked_def by blast
  have "32 * (unat a mod 128 div 32) + unat a mod 128 mod 32 = unat a mod 128" by (rule mult_div_mod_eq)
  moreover have r: "ds dvd unat a mod 128 mod 32" using al(3,4) by (simp add: dvd_mod dvd_trans[of ds 32 128])
  have "unat a mod 128 mod 32 + ds \<le> 32"
  proof -
    from r al(3) have "ds dvd 32 - unat a mod 128 mod 32" by (simp add: dvd_diff_nat)
    moreover have "0 < 32 - unat a mod 128 mod 32" by simp
    ultimately have "ds \<le> 32 - unat a mod 128 mod 32" by (rule dvd_imp_le)
    then show ?thesis by simp
  qed
  ultimately have "unat w mod 128 \<le> unat a mod 128 \<and> unat a mod 128 + ds \<le> unat w mod 128 + unat sz" using c by linarith
  with bl mult_div_mod_eq[of 128 "unat w"] mult_div_mod_eq[of 128 "unat a"]
  have "unat w \<le> unat a \<and> unat a + ds \<le> unat w + unat sz" by linarith
  with assms(6) show ?thesis by (simp add: serves_def marked_def mem_access_masked_def)
qed

lemma send_shape:
  assumes "tinfo_ok b seg t" "window_ok (ti_chunks t) (unat w) (unat sz)"
  shows "access_shape ty wr (mem_access_masked ty w sz wr (ti_active t) (ti_bytes t))"
proof -
  have "unat w mod 128 \<le> j \<and> j < unat w mod 128 + unat sz" if "bit (ti_bytes t) j" for j
  proof -
    have "bit (ti_chunks t) (j div 32)" using assms(1) that unfolding tinfo_ok_def by blast
    with assms(2) have "unat w mod 128 \<le> 32 * (j div 32) \<and> 32 * (j div 32) + 32 \<le> unat w mod 128 + unat sz"
      unfolding window_ok_def by blast
    moreover have "32 * (j div 32) \<le> j" "j < 32 * (j div 32) + 32"
      using mult_div_mod_eq[of 32 j] mod_less_divisor[of 32 j] by linarith+
    ultimately show ?thesis by linarith
  qed
  with assms(2) show ?thesis by (simp add: access_shape_def mem_access_masked_def window_ok_def)
qed

text \<open>One step of the second loop.\<close>

definition sent :: "bool \<Rightarrow> mem_access_type \<Rightarrow> u32 \<Rightarrow> addr \<times> transaction_info \<Rightarrow> mem_access_t" where
  "sent wr ty seg p = (case the (reduce_segment (ti_chunks (snd p)) (fst p) seg) of (a, sz) \<Rightarrow>
     mem_access_masked ty a sz wr (ti_active (snd p)) (ti_bytes (snd p)))"

definition entry_ok :: "u32 \<Rightarrow> addr \<times> transaction_info \<Rightarrow> bool" where
  "entry_ok seg p \<longleftrightarrow> unat (fst p) < 2 ^ 32 \<and> unat seg dvd unat (fst p) \<and>
     tinfo_ok (unat (fst p)) seg (snd p) \<and> ti_chunks (snd p) \<noteq> 0"

lemma reduce_and_send_eq:
  assumes "seg_ok seg" "entry_ok seg p"
  shows "reduce_and_send wr ty seg p accq = Some (accq @ [sent wr ty seg p])"
    and "access_shape ty wr (sent wr ty seg p)"
    and "access_threads (sent wr ty seg p) = threads_of (snd p)"
    and "aligned_access ds a \<Longrightarrow> fst p = block_key seg a \<Longrightarrow> marked ds i a (snd p) \<Longrightarrow> serves (sent wr ty seg p) ds i a"
    and "ma_byte_mask (sent wr ty seg p) = ti_bytes (snd p)"
    and "unat (ma_addr (sent wr ty seg p)) div 128 = unat (fst p) div 128"
proof -
  obtain b t where p: "p = (b, t)" by (cases p)
  have bt: "unat b < 2 ^ 32" "unat seg dvd unat b" "tinfo_ok (unat b) seg t" "ti_chunks t \<noteq> 0"
    using assms(2) by (simp_all add: entry_ok_def p)
  from reduce_segment_spec[OF assms(1) bt] obtain a' sz where
    r: "reduce_segment (ti_chunks t) b seg = Some (a', sz)" "window_ok (ti_chunks t) (unat a') (unat sz)"
    "unat b \<le> unat a'" "unat a' + unat sz \<le> unat b + unat seg" by blast
  have s: "sent wr ty seg p = mem_access_masked ty a' sz wr (ti_active t) (ti_bytes t)" by (simp add: sent_def p r(1))
  from seg_okE[OF assms(1)] obtain k where k: "unat seg = 2 ^ k" "ucast (seg - 1) = (mask k :: addr)" by metis
  have "b AND mask k = 0"
    using bt(2) unfolding k(1) by (simp add: take_bit_eq_mask[symmetric] word_unat_eq_iff unat_take_bit)
  then show "reduce_and_send wr ty seg p accq = Some (accq @ [sent wr ty seg p])"
    unfolding s by (simp add: reduce_and_send_def p bt(4) r(1) k(2))
  show "access_shape ty wr (sent wr ty seg p)" unfolding s by (rule send_shape[OF bt(3) r(2)])
  show "access_threads (sent wr ty seg p) = threads_of (snd p)"
    unfolding s by (simp add: access_threads_def threads_of_def mem_access_masked_def p)
  show "serves (sent wr ty seg p) ds i a" if "aligned_access ds a" "fst p = block_key seg a" "marked ds i a (snd p)"
    unfolding s using that r(2-4) by (intro send_serves[OF assms(1)]) (simp_all add: p)
  show "ma_byte_mask (sent wr ty seg p) = ti_bytes (snd p)" unfolding s by (simp add: mem_access_masked_def p)
  have "unat (block_key seg b) = unat b" unfolding unat_block_key[OF assms(1) bt(1)] using bt(2) by simp
  with r(2-4) have "unat a' div 128 = unat b div 128"
    by (intro same_block[OF assms(1) bt(1), of "unat a'" "unat sz"]) (auto simp: window_ok_def)
  then show "unat (ma_addr (sent wr ty seg p)) div 128 = unat (fst p) div 128"
    unfolding s by (simp add: mem_access_masked_def p)
qed

lemma fold_reduce_and_send:
  assumes "seg_ok seg" "\<forall>p \<in> set ps. entry_ok seg p"
  shows "fold_opt (reduce_and_send wr ty seg) ps accq = Some (accq @ map (sent wr ty seg) ps)"
  using assms(2) by (induction ps arbitrary: accq) (simp_all add: reduce_and_send_eq(1)[OF assms(1)])

subsection \<open>Properties of coalescing\<close>

lemma seg_map_entries: "seg_map_ok seg m \<Longrightarrow> \<forall>p \<in> set m. entry_ok seg p"
  unfolding seg_map_ok_def entry_ok_def by fastforce

lemma coalesce_subwarp_spec:
  assumes w: "warp_ok c w" "warp_aligned w" and ts: "\<And>i. i \<in> set (subwarp_threads n s) \<Longrightarrow> i < cc_warp_size c"
  shows "\<exists>xs. coalesce_subwarp w wr ty n s accq = Some (accq @ xs) \<and>
    (\<forall>x \<in> set xs. access_shape ty wr x \<and> only_asked w x \<and> access_threads x \<subseteq> {i \<in> set (subwarp_threads n s). bit (wi_active w) i}) \<and>
    (\<forall>i \<in> set (subwarp_threads n s). bit (wi_active w) i \<longrightarrow> (\<forall>k < snd (access_split w).
       \<exists>x \<in> set xs. serves x (fst (access_split w)) i (wi_addrs w ! i ! k)))"
proof -
  let ?seg = "segment_size (wi_data_size w)" and ?ts = "subwarp_threads n s"
  have ok: "seg_ok ?seg" using w(2) by (intro segment_size_ok) (simp add: warp_aligned_def)
  from subwarp_spec[OF w ts] obtain m where m: "fold_opt (coalesce_thread w ?seg) ?ts [] = Some m"
    "seg_map_ok ?seg m" "\<forall>i \<in> set ?ts. bit (wi_active w) i \<longrightarrow> thread_recorded w i m"
    "\<forall>(b, t) \<in> set m. threads_of t \<subseteq> {i \<in> set ?ts. bit (wi_active w) i}" by blast
  note en = seg_map_entries[OF m(2)]
  have ba: "bytes_asked w m" by (rule subwarp_bytes[OF w ts m(1)])
  let ?xs = "map (sent wr ty ?seg) m"
  have "coalesce_subwarp w wr ty n s accq = Some (accq @ ?xs)"
    unfolding coalesce_subwarp_def m(1) by (simp add: fold_reduce_and_send[OF ok en])
  moreover have "access_shape ty wr x \<and> only_asked w x \<and> access_threads x \<subseteq> {i \<in> set ?ts. bit (wi_active w) i}"
    if "x \<in> set ?xs" for x
  proof -
    from that obtain p where p: "p \<in> set m" "x = sent wr ty ?seg p" by auto
    with en have "entry_ok ?seg p" by blast
    note e = reduce_and_send_eq[OF ok this]
    have "threads_of (snd p) \<subseteq> {i \<in> set ?ts. bit (wi_active w) i}" using m(4) p(1) by (cases p) auto
    moreover have "only_asked w x"
      using ba p(1) unfolding only_asked_def p(2) e(3,5) byte_asked_def e(6) by (cases p) (auto simp: bytes_asked_def byte_asked_def)
    ultimately show ?thesis using e(2,3) p(2) by simp
  qed
  moreover have "\<exists>x \<in> set ?xs. serves x (fst (access_split w)) i (wi_addrs w ! i ! k)"
    if i: "i \<in> set ?ts" "bit (wi_active w) i" and k: "k < snd (access_split w)" for i k
  proof -
    from m(3) i have "thread_recorded w i m" by blast
    with k obtain t where t: "(block_key ?seg (wi_addrs w ! i ! k), t) \<in> set m"
      "marked (fst (access_split w)) i (wi_addrs w ! i ! k) t" unfolding thread_recorded_def recorded_def by blast
    have al: "aligned_access (fst (access_split w)) (wi_addrs w ! i ! k)"
      using w ts[OF i(1)] i(2) k by (simp add: warp_ok_def warp_aligned_def)
    let ?p = "(block_key ?seg (wi_addrs w ! i ! k), t)"
    from en t(1) have "entry_ok ?seg ?p" by blast
    from reduce_and_send_eq(4)[OF ok this al] t(2)
    have "serves (sent wr ty ?seg ?p) (fst (access_split w)) i (wi_addrs w ! i ! k)" by simp
    moreover have "sent wr ty ?seg ?p \<in> set ?xs" using t(1) by (simp only: set_map) (rule imageI)
    ultimately show ?thesis by blast
  qed
  ultimately show ?thesis by (intro exI[of _ ?xs]) blast
qed

lemma fold_subwarps:
  assumes "\<And>i accq. i < n \<Longrightarrow> \<exists>xs. f i accq = Some (accq @ xs) \<and> P i xs"
  shows "\<exists>ys. fold_opt f [0 ..< n] accq = Some (accq @ concat ys) \<and> length ys = n \<and> (\<forall>i < n. P i (ys ! i))"
  using assms
proof (induction n)
  case (Suc n)
  then obtain ys where ys: "fold_opt f [0 ..< n] accq = Some (accq @ concat ys)" "length ys = n" "\<forall>i < n. P i (ys ! i)"
    by (meson less_SucI)
  from Suc.prems[of n "accq @ concat ys"] obtain xs where xs: "f n (accq @ concat ys) = Some ((accq @ concat ys) @ xs)" "P n xs"
    by blast
  have "fold_opt f [0 ..< Suc n] accq = Some (accq @ concat (ys @ [xs]))"
    using ys(1) xs(1) by (simp add: fold_opt_append)
  moreover have "\<forall>i < Suc n. P i ((ys @ [xs]) ! i)" using ys(2,3) xs(2) by (auto simp: nth_append less_Suc_eq)
  ultimately show ?case using ys(2) by (intro exI[of _ "ys @ [xs]"]) simp
qed simp

lemma in_subwarp:
  assumes "p dvd n" "i < n"
  shows "i div (n div p) < p \<and> i \<in> set (subwarp_threads (n div p) (i div (n div p)))"
proof -
  obtain s where s: "n = p * s" using assms(1) by (elim dvdE)
  with assms(2) have "0 < p" "0 < s" by (auto intro: gr0I)
  then have "i div s < p" using assms(2) s by (simp add: less_mult_imp_div_less mult.commute)
  moreover have "s * (i div s) \<le> i" "i < s * (i div s) + s"
    using mult_div_mod_eq[of s i] mod_less_divisor[OF \<open>0 < s\<close>, of i] by linarith+
  ultimately show ?thesis using s \<open>0 < p\<close> by (simp add: subwarp_threads_def algebra_simps)
qed

lemma subwarp_bound:
  assumes "p dvd n" "s < p" "i \<in> set (subwarp_threads (n div p) s)"
  shows "i < (n::nat)"
proof -
  have "i < (n div p) * (s + 1)" using assms(3) by (simp add: subwarp_threads_def)
  also have "\<dots> \<le> (n div p) * p" using assms(2) by (intro mult_le_mono2) simp
  also have "\<dots> = n" using assms(1) by simp
  finally show ?thesis .
qed

text \<open>
  Coalescing a warp's load or store serves every active thread and nothing else: on aligned
  addresses below 4 GB it fails no assertion, and the accesses it appends are 32, 64 or 128
  bytes, aligned, with byte masks inside their windows and only active threads in their
  masks; each access of each active thread lies, with all its bytes, in one of them, and each
  byte in a byte mask is a byte of an access of a thread in the mask beside it.
\<close>

theorem coalesce_serves_all:
  assumes "warp_ok c w" and "warp_aligned w"
  shows "\<exists>xs. memory_coalescing_arch_13 c wr ty w = Some (w\<lparr>wi_accessq := wi_accessq w @ xs\<rparr>) \<and>
    (\<forall>x \<in> set xs. access_shape ty wr x \<and> only_asked w x \<and> access_threads x \<subseteq> {i. i < cc_warp_size c \<and> bit (wi_active w) i}) \<and>
    (\<forall>i < cc_warp_size c. bit (wi_active w) i \<longrightarrow> (\<forall>k < snd (access_split w).
       \<exists>x \<in> set xs. serves x (fst (access_split w)) i (wi_addrs w ! i ! k)))"
proof -
  let ?n = "cc_warp_size c div cc_mem_warp_parts c" and ?p = "cc_mem_warp_parts c"
  have dv: "?p dvd cc_warp_size c" "?p \<noteq> 0" using assms(1) by (simp_all add: warp_ok_def)
  let ?P = "\<lambda>s xs. (\<forall>x \<in> set xs. access_shape ty wr x \<and> only_asked w x \<and> access_threads x \<subseteq> {i \<in> set (subwarp_threads ?n s). bit (wi_active w) i}) \<and>
    (\<forall>i \<in> set (subwarp_threads ?n s). bit (wi_active w) i \<longrightarrow> (\<forall>k < snd (access_split w).
       \<exists>x \<in> set xs. serves x (fst (access_split w)) i (wi_addrs w ! i ! k)))"
  have "\<exists>xs. coalesce_subwarp w wr ty ?n s accq = Some (accq @ xs) \<and> ?P s xs" if "s < ?p" for s accq
    by (rule coalesce_subwarp_spec[OF assms]) (rule subwarp_bound[OF dv(1) that])
  from fold_subwarps[of ?p "coalesce_subwarp w wr ty ?n" ?P "wi_accessq w", OF this] obtain ys where
    ys: "fold_opt (coalesce_subwarp w wr ty ?n) [0 ..< ?p] (wi_accessq w) = Some (wi_accessq w @ concat ys)"
    "length ys = ?p" "\<forall>s < ?p. ?P s (ys ! s)" by blast
  have "memory_coalescing_arch_13 c wr ty w = Some (w\<lparr>wi_accessq := wi_accessq w @ concat ys\<rparr>)"
    using dv(2) ys(1) by (simp add: memory_coalescing_arch_13_def)
  moreover have "access_shape ty wr x \<and> only_asked w x \<and> access_threads x \<subseteq> {i. i < cc_warp_size c \<and> bit (wi_active w) i}"
    if "x \<in> set (concat ys)" for x
  proof -
    from that obtain y where y: "y \<in> set ys" "x \<in> set y" by auto
    then obtain s where "s < length ys" "ys ! s = y" unfolding in_set_conv_nth by blast
    with y(2) ys(2) have s: "s < ?p" "x \<in> set (ys ! s)" by simp_all
    with ys(3) have "access_shape ty wr x" "only_asked w x" "access_threads x \<subseteq> {i \<in> set (subwarp_threads ?n s). bit (wi_active w) i}" by blast+
    with subwarp_bound[OF dv(1) s(1)] show ?thesis by blast
  qed
  moreover have "\<exists>x \<in> set (concat ys). serves x (fst (access_split w)) i (wi_addrs w ! i ! k)"
    if "i < cc_warp_size c" "bit (wi_active w) i" "k < snd (access_split w)" for i k
  proof -
    from in_subwarp[OF dv(1) that(1)] have s: "i div ?n < ?p" "i \<in> set (subwarp_threads ?n (i div ?n))" by auto
    with ys(3) that(2,3) obtain x where x: "x \<in> set (ys ! (i div ?n))" "serves x (fst (access_split w)) i (wi_addrs w ! i ! k)" by blast
    from x(1) s(1) ys(2) have "x \<in> set (concat ys)" by auto
    with x(2) show ?thesis by blast
  qed
  ultimately show ?thesis by (intro exI[of _ "concat ys"]) blast
qed

subsection \<open>Atomics do not collide\<close>

lemma test_bytes_eq:
  "e < 128 \<Longrightarrow> test_bytes t s e = Some (\<exists>j. s \<le> j \<and> j \<le> e \<and> bit (ti_bytes t) j)"
proof (induction t s e rule: test_bytes.induct)
  case (1 t s e)
  show ?case
  proof (cases "e < s")
    case True
    then show ?thesis by (subst test_bytes.simps) auto
  next
    case False
    then have s: "s < 128" "s \<le> e" using 1(2) by simp_all
    show ?thesis
    proof (cases "bit (ti_bytes t) s")
      case True
      with s show ?thesis by (subst test_bytes.simps) auto
    next
      case nb: False
      have "test_bytes t s e = test_bytes t (s + 1) e" using s nb by (subst test_bytes.simps) simp
      also have "\<dots> = Some (\<exists>j. s + 1 \<le> j \<and> j \<le> e \<and> bit (ti_bytes t) j)" using 1 s nb by simp
      also have "(\<exists>j. s + 1 \<le> j \<and> j \<le> e \<and> bit (ti_bytes t) j) = (\<exists>j. s \<le> j \<and> j \<le> e \<and> bit (ti_bytes t) j)"
        using nb by (metis Suc_eq_plus1 Suc_leD le_antisym not_less_eq_eq)
      finally show ?thesis .
    qed
  qed
qed

definition apart :: "nat \<Rightarrow> nat \<Rightarrow> nat \<Rightarrow> bool" where
  "apart ds x y \<longleftrightarrow> x + ds \<le> y \<or> y + ds \<le> x"

lemma apartI:
  assumes "0 < ds" "\<And>k k'. k < ds \<Longrightarrow> k' < ds \<Longrightarrow> x + k \<noteq> y + k'"
  shows "apart ds x y"
proof (rule ccontr)
  assume "\<not> apart ds x y"
  then have "max x y - x < ds" "max x y - y < ds" "x + (max x y - x) = y + (max x y - y)"
    by (auto simp: apart_def max_def)
  with assms(2) show False by blast
qed

text \<open>
  A transaction of atomics with \<open>A\<close> the threads' addresses: every thread's bytes are in it, and
  no two threads share one.
\<close>

definition atom_ok :: "nat \<Rightarrow> (nat \<Rightarrow> addr) \<Rightarrow> transaction_info \<Rightarrow> bool" where
  "atom_ok ds A t \<longleftrightarrow> (\<forall>i \<in> threads_of t. marked ds i (A i) t) \<and>
     (\<forall>i \<in> threads_of t. \<forall>j \<in> threads_of t. i \<noteq> j \<longrightarrow> apart ds (unat (A i) mod 128) (unat (A j) mod 128))"

definition atoms_ok :: "u32 \<Rightarrow> nat \<Rightarrow> (nat \<Rightarrow> addr) \<Rightarrow> addr \<Rightarrow> nat set \<Rightarrow> transaction_info list \<Rightarrow> bool" where
  "atoms_ok seg ds A b T ts \<longleftrightarrow> (\<forall>t \<in> set ts. tinfo_ok (unat b) seg t \<and> ti_chunks t \<noteq> 0 \<and> atom_ok ds A t \<and>
     threads_of t \<subseteq> T)"

lemma mark_fresh_eq:
  assumes "\<And>k. k < ds \<Longrightarrow> \<not> bit (ti_bytes t) (unat a mod 128 + k)"
  shows "mark_fresh ds i a t = mark_access ds i a t"
proof -
  have "\<not> bit (ti_bytes t) j" if "j \<in> set [unat a mod 128 ..< unat a mod 128 + ds]" for j
  proof -
    from that have "unat a mod 128 \<le> j" "j - unat a mod 128 < ds" unfolding set_upt atLeastLessThan_iff by linarith+
    with assms[of "j - unat a mod 128"] show ?thesis by simp
  qed
  then show ?thesis by (simp add: mark_fresh_def unat_and_127 Let_def)
qed

lemma mark_atomic:
  assumes "seg_ok seg" "aligned_access ds (A i)" "i < 32" "i \<notin> T"
    and t: "tinfo_ok (unat (block_key seg (A i))) seg t" "atom_ok ds A t" "threads_of t \<subseteq> T"
    and free: "\<And>k. k < ds \<Longrightarrow> \<not> bit (ti_bytes t) (unat (A i) mod 128 + k)"
  shows "\<exists>t'. mark_fresh ds i (A i) t = Some t' \<and> atoms_ok seg ds A (block_key seg (A i)) (insert i T) [t'] \<and>
    threads_of t' = insert i (threads_of t)"
proof -
  have fr: "mark_fresh ds i (A i) t = mark_access ds i (A i) t" by (rule mark_fresh_eq[OF free])
  from mark_access_spec[OF assms(2,3), of t] obtain t' where
    t': "mark_access ds i (A i) t = Some t'" "marked ds i (A i) t'"
    "\<And>k. bit (ti_chunks t') k \<longleftrightarrow> bit (ti_chunks t) k \<or> k = unat (A i) mod 128 div 32"
    "\<And>j. bit (ti_active t') j \<longleftrightarrow> bit (ti_active t) j \<or> j = i"
    "\<And>j. bit (ti_bytes t') j \<longleftrightarrow> bit (ti_bytes t) j \<or> (\<exists>k < ds. j = unat (A i) mod 128 + k)" by blast
  have th: "threads_of t' = insert i (threads_of t)" by (auto simp: threads_of_def t'(4))
  have ok: "tinfo_ok (unat (block_key seg (A i))) seg t'" by (rule mark_keeps_ok[OF assms(1,2) t(1) t'(3,5)])
  have ch: "ti_chunks t' \<noteq> 0" using t'(2) unfolding marked_def by auto
  have ds: "0 < ds" using assms(2) by (auto simp: aligned_access_def)
  have ap: "apart ds (unat (A i) mod 128) (unat (A j) mod 128)" if "j \<in> threads_of t" for j
  proof (rule apartI[OF ds])
    fix k k' assume "k < ds" "k' < ds"
    moreover have "bit (ti_bytes t) (unat (A j) mod 128 + k')"
      using t(2) that \<open>k' < ds\<close> unfolding atom_ok_def marked_def by blast
    ultimately show "unat (A i) mod 128 + k \<noteq> unat (A j) mod 128 + k'" using free by metis
  qed
  have mk: "marked ds j (A j) t'" if "j \<in> threads_of t" for j
  proof -
    from t(2) that have "marked ds j (A j) t" unfolding atom_ok_def by blast
    then show ?thesis by (rule marked_mono) (simp_all add: t'(3-5))
  qed
  have "atom_ok ds A t'" unfolding atom_ok_def th
  proof (intro conjI ballI impI)
    fix j assume "j \<in> insert i (threads_of t)"
    then show "marked ds j (A j) t'" using t'(2) mk by blast
  next
    fix j l assume "j \<in> insert i (threads_of t)" "l \<in> insert i (threads_of t)" "j \<noteq> l"
    then consider "j = i" "l \<in> threads_of t" | "l = i" "j \<in> threads_of t" | "j \<in> threads_of t" "l \<in> threads_of t" by blast
    then show "apart ds (unat (A j) mod 128) (unat (A l) mod 128)"
    proof cases
      case 1 then show ?thesis using ap by simp
    next
      case 2 then show ?thesis using ap[of j] by (auto simp: apart_def)
    next
      case 3 then show ?thesis using t(2) \<open>j \<noteq> l\<close> unfolding atom_ok_def by blast
    qed
  qed
  with t'(1) th ok ch t(3) show ?thesis by (intro exI[of _ t']) (auto simp: atoms_ok_def fr)
qed

lemma add_atomic_spec:
  assumes "seg_ok seg" "aligned_access ds (A i)" "i < 32" "i \<notin> T"
    "atoms_ok seg ds A (block_key seg (A i)) T ts"
  shows "\<exists>ts'. add_atomic ds i (A i) ts = Some ts' \<and> atoms_ok seg ds A (block_key seg (A i)) (insert i T) ts' \<and>
    (\<exists>t \<in> set ts'. i \<in> threads_of t) \<and> (\<forall>j. (\<exists>t \<in> set ts. j \<in> threads_of t) \<longrightarrow> (\<exists>t \<in> set ts'. j \<in> threads_of t))"
  using assms(5)
proof (induction ts)
  case Nil
  have e: "threads_of new_transaction_info = {}" by (simp add: threads_of_def new_transaction_info_def)
  have "\<exists>t'. mark_fresh ds i (A i) new_transaction_info = Some t' \<and>
      atoms_ok seg ds A (block_key seg (A i)) (insert i T) [t'] \<and> threads_of t' = insert i (threads_of new_transaction_info)"
    by (rule mark_atomic[where A = A and i = i and seg = seg and ds = ds and T = T, OF assms(1-4)]) (simp_all add: new_tinfo_ok atom_ok_def e, simp add: new_transaction_info_def)
  then show ?case by auto
next
  case (Cons t ts)
  let ?idx = "unat (A i) mod 128"
  have ds: "0 < ds" "ds \<le> 16" using assms(2) by (auto simp: aligned_access_def)
  have lim: "?idx + ds \<le> 128" using aligned_idx(2)[OF assms(2), of "ds - 1"] ds by simp
  have en: "unat (of_nat (?idx + ds) - 1 :: u32) = ?idx + ds - 1"
  proof -
    have "(of_nat (?idx + ds) - 1 :: u32) = of_nat (?idx + ds - 1)" using ds by (simp add: of_nat_diff)
    moreover have "unat (of_nat (?idx + ds - 1) :: u32) = ?idx + ds - 1"
      using lim by (simp only: unat_of_nat take_bit_eq_mod) simp
    ultimately show ?thesis by (simp only:)
  qed
  have tb: "test_bytes t ?idx (?idx + ds - 1) = Some (\<exists>j. ?idx \<le> j \<and> j \<le> ?idx + ds - 1 \<and> bit (ti_bytes t) j)"
    by (rule test_bytes_eq) (use lim ds in simp)
  have t: "tinfo_ok (unat (block_key seg (A i))) seg t" "atom_ok ds A t" "threads_of t \<subseteq> T" "ti_chunks t \<noteq> 0"
    and ts: "atoms_ok seg ds A (block_key seg (A i)) T ts" using Cons.prems by (simp_all add: atoms_ok_def)
  show ?case
  proof (cases "\<exists>j. ?idx \<le> j \<and> j \<le> ?idx + ds - 1 \<and> bit (ti_bytes t) j")
    case True
    from Cons.IH[OF ts] obtain ts' where ts': "add_atomic ds i (A i) ts = Some ts'"
      "atoms_ok seg ds A (block_key seg (A i)) (insert i T) ts'" "\<exists>t \<in> set ts'. i \<in> threads_of t"
      "\<forall>j. (\<exists>t \<in> set ts. j \<in> threads_of t) \<longrightarrow> (\<exists>t \<in> set ts'. j \<in> threads_of t)" by blast
    have "test_bytes t ?idx (?idx + ds - 1) = Some True" using tb True by (simp only:)
    then have "add_atomic ds i (A i) (t # ts) = Some (t # ts')"
      by (simp add: unat_and_127 Let_def en ts'(1) del: of_nat_add)
    moreover have "atoms_ok seg ds A (block_key seg (A i)) (insert i T) (t # ts')"
      using t ts'(2) by (auto simp: atoms_ok_def)
    ultimately show ?thesis using ts'(3,4) by (intro exI[of _ "t # ts'"]) auto
  next
    case False
    then have "\<not> bit (ti_bytes t) (?idx + k)" if "k < ds" for k using that by force
    from mark_atomic[where A = A and i = i and seg = seg and ds = ds and T = T, OF assms(1-4) t(1-3) this] obtain t' where t': "mark_fresh ds i (A i) t = Some t'"
      "atoms_ok seg ds A (block_key seg (A i)) (insert i T) [t']" "threads_of t' = insert i (threads_of t)" by blast
    have "test_bytes t ?idx (?idx + ds - 1) = Some False" using tb False by (simp only:)
    then have "add_atomic ds i (A i) (t # ts) = Some (t' # ts)"
      by (simp add: unat_and_127 Let_def en t'(1) del: of_nat_add)
    moreover have "atoms_ok seg ds A (block_key seg (A i)) (insert i T) (t' # ts)"
      using t'(2) ts by (auto simp: atoms_ok_def)
    ultimately show ?thesis using t'(3) by (intro exI[of _ "t' # ts"]) auto
  qed
qed

definition atom_map_ok :: "u32 \<Rightarrow> nat \<Rightarrow> (nat \<Rightarrow> addr) \<Rightarrow> nat set \<Rightarrow> (addr \<times> transaction_info list) list \<Rightarrow> bool" where
  "atom_map_ok seg ds A T m \<longleftrightarrow> map_ok m \<and>
     (\<forall>(b, ts) \<in> set m. unat b < 2 ^ 32 \<and> unat seg dvd unat b \<and> atoms_ok seg ds A b T ts) \<and>
     (\<forall>i \<in> T. \<exists>ts. (block_key seg (A i), ts) \<in> set m \<and> (\<exists>t \<in> set ts. i \<in> threads_of t))"

lemma atoms_ok_mono: "atoms_ok seg ds A b T ts \<Longrightarrow> T \<subseteq> T' \<Longrightarrow> atoms_ok seg ds A b T' ts"
  unfolding atoms_ok_def by blast

definition atomic_aligned :: "warp_inst \<Rightarrow> bool" where
  "atomic_aligned w \<longleftrightarrow> wi_data_size w \<in> {1, 2, 4, 8, 16} \<and>
     (\<forall>i < length (wi_addrs w). bit (wi_active w) i \<longrightarrow> aligned_access (wi_data_size w) (wi_addrs w ! i ! 0))"

lemma atomic_thread_spec:
  assumes w: "warp_ok c w" "atomic_aligned w" and i: "i < cc_warp_size c" "i \<notin> T"
    and m: "atom_map_ok (segment_size (wi_data_size w)) (wi_data_size w) (\<lambda>i. wi_addrs w ! i ! 0) T m"
  shows "\<exists>m'. atomic_thread w (segment_size (wi_data_size w)) i m = Some m' \<and>
    atom_map_ok (segment_size (wi_data_size w)) (wi_data_size w) (\<lambda>i. wi_addrs w ! i ! 0)
      (if bit (wi_active w) i then insert i T else T) m'"
proof (cases "bit (wi_active w) i")
  case False
  have "i < 32" using w(1) i by (simp add: warp_ok_def)
  with False m show ?thesis by (intro exI[of _ m]) (simp add: atomic_thread_def active_thread_def)
next
  case True
  define seg ds A where "seg = segment_size (wi_data_size w)" and "ds = wi_data_size w"
    and "A = (\<lambda>i. wi_addrs w ! i ! 0)"
  have i32: "i < 32" using w(1) i by (simp add: warp_ok_def)
  have sok: "seg_ok seg" unfolding seg_def using w(2) by (intro segment_size_ok) (simp add: atomic_aligned_def)
  have al: "aligned_access ds (A i)" using w i(1) True by (simp add: warp_ok_def atomic_aligned_def ds_def A_def)
  then have a32: "unat (A i) < 2 ^ 32" "ds \<in> {1, 2, 4, 8, 16}" "ds dvd unat (A i)" by (simp_all add: aligned_access_def)
  have ta: "thread_addr w i 0 = Some (A i)"
    using w(1) i nth_mem[of i "wi_addrs w"] unfolding thread_addr_def warp_ok_def A_def by auto
  note m = m[folded seg_def ds_def A_def]
  let ?b = "block_key seg (A i)"
  have ok: "map_ok m" using m by (simp add: atom_map_ok_def)
  define ts where "ts = map_at ?b [] m"
  have tin: "ts = [] \<or> (?b, ts) \<in> set m"
    unfolding ts_def map_at_def by (auto simp: map_ok_in[OF ok] split: option.splits)
  have "atoms_ok seg ds A ?b T ts"
    using tin
  proof
    assume "ts = []" then show ?thesis by (simp add: atoms_ok_def)
  next
    assume "(?b, ts) \<in> set m" then show ?thesis using m unfolding atom_map_ok_def by blast
  qed
  from add_atomic_spec[where A = A and i = i and seg = seg and ds = ds and T = T, OF sok al i32 i(2) this]
  obtain ts' where ts': "add_atomic ds i (A i) ts = Some ts'" "atoms_ok seg ds A ?b (insert i T) ts'"
    "\<exists>t \<in> set ts'. i \<in> threads_of t" "\<forall>j. (\<exists>t \<in> set ts. j \<in> threads_of t) \<longrightarrow> (\<exists>t \<in> set ts'. j \<in> threads_of t)" by blast
  define m' where "m' = map_upd ?b [] (\<lambda>_. ts') m"
  have in': "(b, v) \<in> set m' \<longleftrightarrow> (if b = ?b then v = ts' else (b, v) \<in> set m)" for b v
    unfolding m'_def by (rule map_upd_in[OF ok])
  have e: "atomic_thread w seg i m = Some m'"
    using True i32 ts'(1) one_segment_aligned[OF sok a32]
    by (simp add: atomic_thread_def active_thread_def ta ts_def[symmetric] m'_def ds_def)
  have "unat b < 2 ^ 32 \<and> unat seg dvd unat b \<and> atoms_ok seg ds A b (insert i T) v" if "(b, v) \<in> set m'" for b v
  proof (cases "b = ?b")
    case b: True
    with that have "v = ts'" by (simp add: in')
    with b ts'(2) block_key_ok[OF sok a32(1)] show ?thesis by simp
  next
    case False
    with that have "(b, v) \<in> set m" by (simp add: in')
    with m have "unat b < 2 ^ 32 \<and> unat seg dvd unat b \<and> atoms_ok seg ds A b T v" unfolding atom_map_ok_def by blast
    with atoms_ok_mono[of seg ds A b T v "insert i T"] show ?thesis by blast
  qed
  moreover have "\<exists>v. (block_key seg (A j), v) \<in> set m' \<and> (\<exists>t \<in> set v. j \<in> threads_of t)" if "j \<in> insert i T" for j
  proof (cases "j = i")
    case j: True
    have "(?b, ts') \<in> set m'" by (simp add: in')
    with j ts'(3) show ?thesis by blast
  next
    case False
    with that m obtain v where v: "(block_key seg (A j), v) \<in> set m" "\<exists>t \<in> set v. j \<in> threads_of t"
      unfolding atom_map_ok_def by blast
    show ?thesis
    proof (cases "block_key seg (A j) = ?b")
      case b: True
      with v(1) have "ts = v" unfolding ts_def map_at_def by (simp add: map_ok_in[OF ok])
      with v(2) ts'(4) have "\<exists>t \<in> set ts'. j \<in> threads_of t" by blast
      moreover have "(block_key seg (A j), ts') \<in> set m'" by (simp add: in' b)
      ultimately show ?thesis by blast
    next
      case False
      with v(1) have "(block_key seg (A j), v) \<in> set m'" by (simp add: in')
      with v(2) show ?thesis by blast
    qed
  qed
  moreover have "map_ok m'" unfolding m'_def by (rule map_upd_ok[OF ok])
  ultimately have "atom_map_ok seg ds A (insert i T) m'" unfolding atom_map_ok_def by blast
  with e True show ?thesis unfolding seg_def ds_def A_def by simp
qed

lemma atomic_fold_spec:
  assumes w: "warp_ok c w" "atomic_aligned w" and ts: "\<And>i. i \<in> set xs \<Longrightarrow> i < cc_warp_size c" "distinct xs"
  shows "\<exists>m. fold_opt (atomic_thread w (segment_size (wi_data_size w))) xs [] = Some m \<and>
    atom_map_ok (segment_size (wi_data_size w)) (wi_data_size w) (\<lambda>i. wi_addrs w ! i ! 0)
      {i \<in> set xs. bit (wi_active w) i} m"
proof (rule fold_opt_total)
  let ?I = "\<lambda>ys. atom_map_ok (segment_size (wi_data_size w)) (wi_data_size w) (\<lambda>i. wi_addrs w ! i ! 0)
      {j \<in> set ys. bit (wi_active w) j}"
  show "?I [] []" by (simp add: atom_map_ok_def)
  fix ys x zs m assume d: "xs = ys @ x # zs" and I: "?I ys m"
  have x: "x < cc_warp_size c" by (rule ts(1)) (simp add: d)
  have nx: "x \<notin> {j \<in> set ys. bit (wi_active w) j}" using ts(2) by (simp add: d)
  have eq: "{j \<in> set (ys @ [x]). bit (wi_active w) j} =
      (if bit (wi_active w) x then insert x {j \<in> set ys. bit (wi_active w) j} else {j \<in> set ys. bit (wi_active w) j})"
    by auto
  show "\<exists>m'. atomic_thread w (segment_size (wi_data_size w)) x m = Some m' \<and> ?I (ys @ [x]) m'"
    unfolding eq by (rule atomic_thread_spec[OF w x nx I])
qed

definition collision_free :: "nat \<Rightarrow> (nat \<Rightarrow> addr) \<Rightarrow> mem_access_t \<Rightarrow> bool" where
  "collision_free ds A x \<longleftrightarrow> (\<forall>i \<in> access_threads x. \<forall>j \<in> access_threads x. i \<noteq> j \<longrightarrow>
     apart ds (unat (A i) mod 128) (unat (A j) mod 128))"

lemma atomic_subwarp_spec:
  assumes w: "warp_ok c w" "atomic_aligned w"
    and ts: "\<And>i. i \<in> set (subwarp_threads n s) \<Longrightarrow> i < cc_warp_size c"
  shows "\<exists>xs. atomic_subwarp w wr ty n s accq = Some (accq @ xs) \<and>
    (\<forall>x \<in> set xs. access_shape ty wr x \<and> collision_free (wi_data_size w) (\<lambda>i. wi_addrs w ! i ! 0) x \<and>
       access_threads x \<subseteq> {i \<in> set (subwarp_threads n s). bit (wi_active w) i}) \<and>
    (\<forall>i \<in> set (subwarp_threads n s). bit (wi_active w) i \<longrightarrow>
       (\<exists>x \<in> set xs. serves x (wi_data_size w) i (wi_addrs w ! i ! 0)))"
proof -
  define seg ds A where "seg = segment_size (wi_data_size w)" and "ds = wi_data_size w"
    and "A = (\<lambda>i. wi_addrs w ! i ! 0)"
  let ?ts = "subwarp_threads n s"
  let ?T = "{i \<in> set ?ts. bit (wi_active w) i}"
  have ok: "seg_ok seg" unfolding seg_def using w(2) by (intro segment_size_ok) (simp add: atomic_aligned_def)
  have "distinct ?ts" by (simp add: subwarp_threads_def)
  from atomic_fold_spec[OF w ts this] obtain m where m: "fold_opt (atomic_thread w seg) ?ts [] = Some m"
    "atom_map_ok seg ds A ?T m" unfolding seg_def ds_def A_def by blast
  have fl: "(b, t) \<in> set (flatten_map m) \<longleftrightarrow> (\<exists>v. (b, v) \<in> set m \<and> t \<in> set v)" for b t
    by (auto simp: flatten_map_def)
  have info: "unat b < 2 ^ 32 \<and> unat seg dvd unat b \<and> tinfo_ok (unat b) seg t \<and> ti_chunks t \<noteq> 0 \<and>
      atom_ok ds A t \<and> threads_of t \<subseteq> ?T" if "(b, t) \<in> set (flatten_map m)" for b t
    using that m(2) unfolding fl atom_map_ok_def atoms_ok_def by blast
  have en: "entry_ok seg p" if "p \<in> set (flatten_map m)" for p
    using info[of "fst p" "snd p"] that by (simp add: entry_ok_def)
  let ?xs = "map (sent wr ty seg) (flatten_map m)"
  have "fold_opt (reduce_and_send wr ty seg) (flatten_map m) accq = Some (accq @ ?xs)"
    by (rule fold_reduce_and_send[OF ok]) (use en in blast)
  with m(1) have "atomic_subwarp w wr ty n s accq = Some (accq @ ?xs)"
    by (simp add: atomic_subwarp_def seg_def[symmetric])
  moreover have "access_shape ty wr x \<and> collision_free ds A x \<and> access_threads x \<subseteq> ?T" if "x \<in> set ?xs" for x
  proof -
    from that obtain p where p: "p \<in> set (flatten_map m)" "x = sent wr ty seg p" by auto
    note e = reduce_and_send_eq[OF ok en[OF p(1)]]
    have th: "access_threads x = threads_of (snd p)" unfolding p(2) by (rule e(3))
    have "atom_ok ds A (snd p)" "threads_of (snd p) \<subseteq> ?T" using info[of "fst p" "snd p"] p(1) by simp_all
    then show ?thesis using e(2)[of ty wr] unfolding p(2)[symmetric] collision_free_def th atom_ok_def by blast
  qed
  moreover have "\<exists>x \<in> set ?xs. serves x ds i (A i)" if i: "i \<in> set ?ts" "bit (wi_active w) i" for i
  proof -
    from i m(2) obtain v t where t: "(block_key seg (A i), v) \<in> set m" "t \<in> set v" "i \<in> threads_of t"
      unfolding atom_map_ok_def by blast
    then have p: "(block_key seg (A i), t) \<in> set (flatten_map m)" unfolding fl by blast
    have al: "aligned_access ds (A i)" using w ts[OF i(1)] i(2)
      by (simp add: warp_ok_def atomic_aligned_def ds_def A_def)
    have mk: "marked ds i (A i) t" using info[OF p] t(3) unfolding atom_ok_def by blast
    have "serves (sent wr ty seg (block_key seg (A i), t)) ds i (A i)"
      by (rule reduce_and_send_eq(4)[OF ok en[OF p] al]) (simp_all add: mk)
    moreover have "sent wr ty seg (block_key seg (A i), t) \<in> set ?xs" using p by (simp only: set_map) (rule imageI)
    ultimately show ?thesis by blast
  qed
  ultimately show ?thesis unfolding ds_def A_def by (intro exI[of _ ?xs]) blast
qed

text \<open>
  C25: coalescing the warp's atomics fails none of its assertions on aligned addresses below
  4 GB, and serialises the conflicts: no access it appends holds two threads whose bytes
  overlap, while every active thread is served by one of them.
\<close>

theorem atomics_do_not_collide:
  assumes "warp_ok c w" and "atomic_aligned w" and "wi_space w = global_space" and "even (cc_warp_size c)"
  shows "\<exists>xs. memory_coalescing_arch_13_atomic c wr ty w = Some (w\<lparr>wi_accessq := wi_accessq w @ xs\<rparr>) \<and>
    (\<forall>x \<in> set xs. access_shape ty wr x \<and> collision_free (wi_data_size w) (\<lambda>i. wi_addrs w ! i ! 0) x \<and>
       access_threads x \<subseteq> {i. i < cc_warp_size c \<and> bit (wi_active w) i}) \<and>
    (\<forall>i < cc_warp_size c. bit (wi_active w) i \<longrightarrow>
       (\<exists>x \<in> set xs. serves x (wi_data_size w) i (wi_addrs w ! i ! 0)))"
proof -
  let ?n = "cc_warp_size c div 2"
  have dv: "2 dvd cc_warp_size c" using assms(4) by simp
  let ?P = "\<lambda>s xs. (\<forall>x \<in> set xs. access_shape ty wr x \<and> collision_free (wi_data_size w) (\<lambda>i. wi_addrs w ! i ! 0) x \<and>
       access_threads x \<subseteq> {i \<in> set (subwarp_threads ?n s). bit (wi_active w) i}) \<and>
    (\<forall>i \<in> set (subwarp_threads ?n s). bit (wi_active w) i \<longrightarrow>
       (\<exists>x \<in> set xs. serves x (wi_data_size w) i (wi_addrs w ! i ! 0)))"
  have "\<exists>xs. atomic_subwarp w wr ty ?n s accq = Some (accq @ xs) \<and> ?P s xs" if "s < 2" for s accq
    by (rule atomic_subwarp_spec[OF assms(1,2)]) (rule subwarp_bound[OF dv that])
  from fold_subwarps[of 2 "atomic_subwarp w wr ty ?n" ?P "wi_accessq w", OF this] obtain ys where
    ys: "fold_opt (atomic_subwarp w wr ty ?n) [0 ..< 2] (wi_accessq w) = Some (wi_accessq w @ concat ys)"
    "length ys = 2" "\<forall>s < 2. ?P s (ys ! s)" by blast
  have "memory_coalescing_arch_13_atomic c wr ty w = Some (w\<lparr>wi_accessq := wi_accessq w @ concat ys\<rparr>)"
    unfolding memory_coalescing_arch_13_atomic_def ys(1) by (simp add: assms(3))
  moreover have "access_shape ty wr x \<and> collision_free (wi_data_size w) (\<lambda>i. wi_addrs w ! i ! 0) x \<and>
      access_threads x \<subseteq> {i. i < cc_warp_size c \<and> bit (wi_active w) i}" if "x \<in> set (concat ys)" for x
  proof -
    from that obtain y where y: "y \<in> set ys" "x \<in> set y" by auto
    then obtain s where "s < length ys" "ys ! s = y" unfolding in_set_conv_nth by blast
    with y(2) ys(2) have s: "s < 2" "x \<in> set (ys ! s)" by simp_all
    with ys(3) have "access_shape ty wr x \<and> collision_free (wi_data_size w) (\<lambda>i. wi_addrs w ! i ! 0) x \<and>
      access_threads x \<subseteq> {i \<in> set (subwarp_threads ?n s). bit (wi_active w) i}" by blast
    with subwarp_bound[OF dv s(1)] show ?thesis by blast
  qed
  moreover have "\<exists>x \<in> set (concat ys). serves x (wi_data_size w) i (wi_addrs w ! i ! 0)"
    if "i < cc_warp_size c" "bit (wi_active w) i" for i
  proof -
    from in_subwarp[OF dv that(1)] have s: "i div ?n < 2" "i \<in> set (subwarp_threads ?n (i div ?n))" by auto
    with ys(3) that(2) obtain x where x: "x \<in> set (ys ! (i div ?n))" "serves x (wi_data_size w) i (wi_addrs w ! i ! 0)" by blast
    from x(1) s(1) ys(2) have "x \<in> set (concat ys)" by auto
    with x(2) show ?thesis by blast
  qed
  ultimately show ?thesis by (intro exI[of _ "concat ys"]) blast
qed

subsection \<open>Addresses above 4 GB\<close>

text \<open>
  \<open>line_size_based_tag_func\<close> returns 32 bits, so two addresses 4 GB apart fall into the
  same transaction and no block address above 4 GB is ever requested.
\<close>

theorem tag_func_loses_high_bits:
  "line_size_based_tag_func (a + 2 ^ 32) line = line_size_based_tag_func a line \<and>
   block_key seg (a + 2 ^ 32) = block_key seg a \<and> unat (block_key seg a) < 2 ^ 32"
proof -
  have "ucast (x AND m) = (ucast x AND ucast m :: u32)" for x m :: addr
    by (rule bit_word_eqI) (auto simp: bit_simps)
  moreover have "(ucast (a + 2 ^ 32) :: u32) = ucast a"
  proof -
    have "unat (ucast (a + 2 ^ 32) :: u32) = (unat a + 2 ^ 32) mod 2 ^ 64 mod 2 ^ 32"
      by (simp add: unsigned_ucast_eq take_bit_eq_mod unat_word_ariths)
    also have "\<dots> = (unat a + 2 ^ 32) mod 2 ^ 32" by (rule mod_mod_cancel) simp
    also have "\<dots> = unat (ucast a :: u32)" by (simp add: unsigned_ucast_eq take_bit_eq_mod)
    finally show ?thesis by (simp only: word_unat_eq_iff)
  qed
  ultimately have "line_size_based_tag_func (a + 2 ^ 32) l = line_size_based_tag_func a l" for l
    by (simp only: line_size_based_tag_func_def)
  moreover have "unat (block_key seg a) < 2 ^ 32"
  proof -
    have "unat (block_key seg a) = unat (line_size_based_tag_func a (ucast seg))"
      unfolding block_key_def by (simp add: unsigned_ucast_eq take_bit_nat_eq_self unsigned_less[THEN less_le_trans])
    then show ?thesis using unsigned_less[of "line_size_based_tag_func a (ucast seg)"] by simp
  qed
  ultimately show ?thesis by (simp add: block_key_def)
qed

subsection \<open>Bank conflicts\<close>

definition bank_of :: "core_config \<Rightarrow> warp_inst \<Rightarrow> nat \<Rightarrow> u32" where
  "bank_of c w i = (ucast (wi_addrs w ! i ! 0) div 4) mod cc_num_shmem_bank c"

definition word_of :: "warp_inst \<Rightarrow> nat \<Rightarrow> addr" where
  "word_of w i = ucast (line_size_based_tag_func (wi_addrs w ! i ! 0) 4)"

definition in_bank :: "core_config \<Rightarrow> warp_inst \<Rightarrow> u32 \<Rightarrow> nat set \<Rightarrow> nat set" where
  "in_bank c w b T = {i \<in> T. bank_of c w i = b}"

definition bank_entry_ok :: "core_config \<Rightarrow> warp_inst \<Rightarrow> nat set \<Rightarrow> u32 \<Rightarrow> (addr \<times> nat) list \<Rightarrow> bool" where
  "bank_entry_ok c w T b ws \<longleftrightarrow> map_ok ws \<and> (\<forall>(x, n) \<in> set ws. 0 < n) \<and>
     sum_list (map snd ws) = card (in_bank c w b T) \<and> set (map fst ws) = word_of w ` in_bank c w b T"

definition bank_map_ok :: "core_config \<Rightarrow> warp_inst \<Rightarrow> nat set \<Rightarrow> (u32 \<times> (addr \<times> nat) list) list \<Rightarrow> bool" where
  "bank_map_ok c w T m \<longleftrightarrow> finite T \<and> map_ok m \<and> (\<forall>(b, ws) \<in> set m. bank_entry_ok c w T b ws) \<and>
     set (map fst m) = bank_of c w ` T"

lemma sum_map_upd_Suc: "sum_list (map snd (map_upd k 0 Suc ws)) = Suc (sum_list (map snd ws))"
  by (induction ws) auto

lemma map_at_in: "map_ok m \<Longrightarrow> map_at k d m = d \<and> k \<notin> set (map fst m) \<or> (k, map_at k d m) \<in> set m"
  by (auto simp: map_at_def map_of_eq_None_iff split: option.splits dest: map_of_SomeD)

lemma map_upd_positive:
  assumes "\<forall>(x, n) \<in> set ws. 0 < n"
  shows "\<forall>(x, n) \<in> set (map_upd k 0 Suc ws). 0 < n"
  using assms by (induction ws) (auto split: if_splits)

lemma bank_step:
  assumes m: "bank_map_ok c w T m" and i: "i \<notin> T"
  shows "bank_map_ok c w (insert i T) (map_upd (bank_of c w i) [] (map_upd (word_of w i) 0 Suc) m)"
proof -
  let ?b = "bank_of c w i"
  have ok: "map_ok m" and fin: "finite T" using m by (simp_all add: bank_map_ok_def)
  have old: "bank_entry_ok c w T ?b (map_at ?b [] m)"
    using map_at_in[OF ok, of ?b "[]"]
  proof
    assume a: "map_at ?b [] m = [] \<and> ?b \<notin> set (map fst m)"
    then have "?b \<notin> bank_of c w ` T" using m unfolding bank_map_ok_def by simp
    then have "\<not> (\<exists>x \<in> T. bank_of c w x = ?b)" by (metis imageI)
    then have "in_bank c w ?b T = {}" unfolding in_bank_def by blast
    with a show ?thesis by (simp add: bank_entry_ok_def)
  next
    assume "(?b, map_at ?b [] m) \<in> set m"
    with m show ?thesis unfolding bank_map_ok_def by blast
  qed
  have ins: "in_bank c w ?b (insert i T) = insert i (in_bank c w ?b T)" by (auto simp: in_bank_def)
  have card: "card (in_bank c w ?b (insert i T)) = Suc (card (in_bank c w ?b T))"
    unfolding ins using i fin by (intro card_insert_disjoint) (auto simp: in_bank_def)
  have new: "bank_entry_ok c w (insert i T) ?b (map_upd (word_of w i) 0 Suc (map_at ?b [] m))"
    using old map_upd_positive[of "map_at ?b [] m" "word_of w i"]
    unfolding bank_entry_ok_def sum_map_upd_Suc map_upd_keys ins by (simp add: map_upd_ok card[unfolded ins])
  have other: "bank_entry_ok c w (insert i T) b ws" if "b \<noteq> ?b" "(b, ws) \<in> set m" for b ws
  proof -
    have "in_bank c w b (insert i T) = in_bank c w b T" using that(1) by (auto simp: in_bank_def)
    with that(2) m show ?thesis unfolding bank_map_ok_def bank_entry_ok_def by fastforce
  qed
  have "\<forall>(b, ws) \<in> set (map_upd ?b [] (map_upd (word_of w i) 0 Suc) m). bank_entry_ok c w (insert i T) b ws"
    using new other by (auto simp: map_upd_in[OF ok] split: if_splits)
  moreover have "set (map fst (map_upd ?b [] (map_upd (word_of w i) 0 Suc) m)) = bank_of c w ` insert i T"
    unfolding map_upd_keys using m by (simp add: bank_map_ok_def)
  ultimately show ?thesis using fin map_upd_ok[OF ok] by (simp add: bank_map_ok_def)
qed

lemma bank_fold_spec:
  assumes "warp_ok c w" "cc_num_shmem_bank c \<noteq> 0" "\<And>i. i \<in> set xs \<Longrightarrow> i < cc_warp_size c" "distinct xs"
  shows "\<exists>m. fold_opt (bank_thread c w) xs [] = Some m \<and> bank_map_ok c w {i \<in> set xs. bit (wi_active w) i} m"
proof (rule fold_opt_total)
  let ?I = "\<lambda>ys. bank_map_ok c w {j \<in> set ys. bit (wi_active w) j}"
  show "?I [] []" by (simp add: bank_map_ok_def)
  fix ys x zs m assume d: "xs = ys @ x # zs" and I: "?I ys m"
  have x: "x < cc_warp_size c" by (rule assms(3)) (simp add: d)
  then have x32: "x < 32" and ta: "thread_addr w x 0 = Some (wi_addrs w ! x ! 0)"
    using assms(1) nth_mem[of x "wi_addrs w"] unfolding thread_addr_def warp_ok_def by auto
  have nx: "x \<notin> {j \<in> set ys. bit (wi_active w) j}" using assms(4) by (simp add: d)
  show "\<exists>m'. bank_thread c w x m = Some m' \<and> ?I (ys @ [x]) m'"
  proof (cases "bit (wi_active w) x")
    case False
    then have "{j \<in> set (ys @ [x]). bit (wi_active w) j} = {j \<in> set ys. bit (wi_active w) j}" by auto
    with I False x32 show ?thesis by (simp add: bank_thread_def active_thread_def)
  next
    case True
    then have "{j \<in> set (ys @ [x]). bit (wi_active w) j} = insert x {j \<in> set ys. bit (wi_active w) j}" by auto
    with bank_step[OF I nx] True x32 assms(2) show ?thesis
      by (simp add: bank_thread_def active_thread_def ta shmem_bank_func_def bank_of_def word_of_def)
  qed
qed

text \<open>What the cost of a bank is: its distinct words, or its accesses less those a broadcast saves.\<close>

lemma fold_max: "fold (\<lambda>e mx. max mx (f e)) m k = Max (insert k (f ` set m))" for k :: nat
proof (induction m arbitrary: k)
  case (Cons e m)
  have "Max (insert (max k (f e)) (f ` set m)) = Max (insert k (insert (f e) (f ` set m)))"
    by (cases "m = []") (simp_all add: max.assoc)
  with Cons show ?case by simp
qed simp

lemma find_some_in: "find P xs = Some y \<Longrightarrow> y \<in> set xs \<and> P y"
  by (induction xs) (auto split: if_splits)

lemma find_broadcast_some:
  "find_broadcast m = Some (b, x) \<Longrightarrow> \<exists>ws n. (b, ws) \<in> set m \<and> (x, n) \<in> set ws \<and> 1 < n"
proof (induction m rule: find_broadcast.induct)
  case (2 b' ws m)
  show ?case
  proof (cases "find (\<lambda>(x, n). n > 1) ws")
    case None
    with 2 show ?thesis by fastforce
  next
    case (Some p)
    with 2(2) find_some_in[OF Some] show ?thesis by (cases p) auto
  qed
qed simp

lemma length_le_sum: "\<forall>(x, n) \<in> set ws. 0 < n \<Longrightarrow> length ws \<le> sum_list (map snd ws)"
  by (induction ws) auto

lemma snd_le_sum: "(x, n) \<in> set ws \<Longrightarrow> n \<le> sum_list (map snd ws)" for n :: nat
  by (induction ws) auto

text \<open>The result of \<open>max_bank\<close>: bounded by the threads, positive when there is one.\<close>

lemma bank_cost_spec:
  assumes "bank_map_ok c w T m" "e \<in> set m" "find_broadcast m = bc"
  shows "\<exists>k. bank_cost bc e = Some k \<and> 0 < k \<and> k \<le> card T"
proof -
  obtain b ws where e: "e = (b, ws)" by (cases e)
  have be: "bank_entry_ok c w T b ws" and fin: "finite T" and bt: "b \<in> bank_of c w ` T"
    using assms(1,2) e unfolding bank_map_ok_def by force+
  have ok: "map_ok ws" using be by (simp add: bank_entry_ok_def)
  have sm: "sum_list (map snd ws) = card (in_bank c w b T)" using be by (simp add: bank_entry_ok_def)
  have "in_bank c w b T \<noteq> {}" using bt by (auto simp: in_bank_def)
  moreover have f: "finite (in_bank c w b T)" "in_bank c w b T \<subseteq> T" using fin by (auto simp: in_bank_def)
  ultimately have pos: "0 < sum_list (map snd ws)" "sum_list (map snd ws) \<le> card T"
    unfolding sm using card_mono[OF fin f(2)] by (simp_all add: card_gt_0_iff)
  show ?thesis
  proof (cases bc)
    case None
    with pos show ?thesis by (simp add: bank_cost_def e)
  next
    case (Some p)
    obtain b' x where p: "p = (b', x)" by (cases p)
    show ?thesis
    proof (cases "b' = b")
      case False
      with Some p pos show ?thesis by (simp add: bank_cost_def e)
    next
      case True
      from find_broadcast_some[of m b' x] assms(3) Some p obtain ws' n where
        n: "(b, ws') \<in> set m" "(x, n) \<in> set ws'" "1 < n" unfolding True by blast
      have "map_ok m" using assms(1) by (simp add: bank_map_ok_def)
      with n(1) assms(2) e have "ws' = ws" by (simp add: map_ok_in)
      with n(2) have xin: "(x, n) \<in> set ws" by simp
      then have "map_of ws x = Some n" using map_ok_in[OF ok] by blast
      moreover have "n \<le> sum_list (map snd ws)" by (rule snd_le_sum[OF xin])
      ultimately show ?thesis using Some p True n(3) pos by (auto simp: bank_cost_def e Let_def)
    qed
  qed
qed

lemma fold_opt_max:
  assumes "\<forall>e \<in> set m. \<exists>k. f e = Some k \<and> 0 < k \<and> k \<le> (N::nat)"
  shows "\<exists>k. fold_opt (\<lambda>e mx. map_option (max mx) (f e)) m k0 = Some k \<and> k0 \<le> k \<and> (k0 \<le> N \<longrightarrow> k \<le> N) \<and> (m \<noteq> [] \<longrightarrow> 0 < k)"
  using assms
proof (induction m arbitrary: k0)
  case (Cons e m)
  from Cons.prems obtain k1 where k1: "f e = Some k1" "0 < k1" "k1 \<le> N" by auto
  from Cons.IH[of "max k0 k1"] Cons.prems obtain k where
    k: "fold_opt (\<lambda>e mx. map_option (max mx) (f e)) m (max k0 k1) = Some k" "max k0 k1 \<le> k"
    "max k0 k1 \<le> N \<longrightarrow> k \<le> N" by auto
  have "fold_opt (\<lambda>e mx. map_option (max mx) (f e)) (e # m) k0 = Some k" by (simp add: k1(1) k(1))
  moreover have "k0 \<le> k" "0 < k" using k(2) k1(2) by auto
  moreover have "k0 \<le> N \<longrightarrow> k \<le> N" using k(3) k1(3) by simp
  ultimately show ?case by blast
qed simp

lemma bank_lengths:
  assumes "bank_map_ok c w T m"
  shows "(\<lambda>e. length (snd e)) ` set m = (\<lambda>b. card (word_of w ` in_bank c w b T)) ` bank_of c w ` T"
proof -
  have len: "length (snd e) = card (word_of w ` in_bank c w (fst e) T)" if "e \<in> set m" for e
  proof -
    have be: "bank_entry_ok c w T (fst e) (snd e)" using assms that unfolding bank_map_ok_def by (cases e) auto
    then have "distinct (map fst (snd e))" by (intro map_ok_distinct) (simp add: bank_entry_ok_def)
    then have "length (snd e) = card (set (map fst (snd e)))" by (metis distinct_card length_map)
    with be show ?thesis unfolding bank_entry_ok_def by (simp only:)
  qed
  have "(\<lambda>e. length (snd e)) ` set m = (\<lambda>e. card (word_of w ` in_bank c w (fst e) T)) ` set m"
    by (rule image_cong[OF refl len])
  also have "\<dots> = (\<lambda>b. card (word_of w ` in_bank c w b T)) ` set (map fst m)" by (simp only: image_image set_map)
  also have "set (map fst m) = bank_of c w ` T" using assms unfolding bank_map_ok_def by blast
  finally show ?thesis .
qed

lemma bank_words_bound:
  assumes "finite T" "i \<in> T"
  shows "card (word_of w ` in_bank c w (bank_of c w i) T) \<le> card T \<and>
    0 < card (word_of w ` in_bank c w (bank_of c w i) T)"
proof -
  have f: "finite (in_bank c w (bank_of c w i) T)" using assms(1) by (simp add: in_bank_def)
  have "card (word_of w ` in_bank c w (bank_of c w i) T) \<le> card (in_bank c w (bank_of c w i) T)" by (rule card_image_le[OF f])
  also have "\<dots> \<le> card T" by (rule card_mono[OF assms(1)]) (auto simp: in_bank_def)
  finally have "card (word_of w ` in_bank c w (bank_of c w i) T) \<le> card T" .
  moreover have "i \<in> in_bank c w (bank_of c w i) T" using assms(2) by (simp add: in_bank_def)
  then have "0 < card (word_of w ` in_bank c w (bank_of c w i) T)" using f by (subst card_gt_0_iff) blast
  ultimately show ?thesis ..
qed

lemma max_bank_spec:
  assumes "bank_map_ok c w T m"
  shows "\<exists>k. max_bank c m = Some k \<and> k \<le> card T \<and> (T \<noteq> {} \<longrightarrow> 0 < k) \<and>
    (\<not> cc_shmem_limited_broadcast c \<longrightarrow> k = Max (insert 0 ((\<lambda>b. card (word_of w ` in_bank c w b T)) ` bank_of c w ` T)))"
proof (cases "cc_shmem_limited_broadcast c")
  case True
  have ne: "m \<noteq> []" if "T \<noteq> {}" using assms that unfolding bank_map_ok_def by auto
  have "\<forall>e \<in> set m. \<exists>k. bank_cost (find_broadcast m) e = Some k \<and> 0 < k \<and> k \<le> card T"
    using bank_cost_spec[OF assms _ refl] by blast
  from fold_opt_max[OF this, of 0] obtain k where "max_bank c m = Some k" "k \<le> card T" "m \<noteq> [] \<longrightarrow> 0 < k"
    using True by (auto simp: max_bank_def)
  with ne True show ?thesis by (intro exI[of _ k]) blast
next
  case False
  let ?S = "(\<lambda>b. card (word_of w ` in_bank c w b T)) ` bank_of c w ` T"
  have fin: "finite T" using assms unfolding bank_map_ok_def by blast
  have k: "max_bank c m = Some (Max (insert 0 ?S))"
    using False by (simp only: max_bank_def fold_max bank_lengths[OF assms] if_False)
  have fS: "finite (insert 0 ?S)" using fin by simp
  have "Max (insert 0 ?S) \<le> card T"
  proof (rule Max.boundedI[OF fS])
    fix x assume "x \<in> insert 0 ?S"
    then show "x \<le> card T" using bank_words_bound[OF fin] by fast
  qed simp
  moreover have "0 < Max (insert 0 ?S)" if "T \<noteq> {}"
  proof -
    from that obtain i where i: "i \<in> T" by blast
    then have "card (word_of w ` in_bank c w (bank_of c w i) T) \<in> insert 0 ?S" by blast
    from Max_ge[OF fS this] bank_words_bound[OF fin i, of w c] show ?thesis by linarith
  qed
  ultimately show ?thesis using k by blast
qed

definition active_in :: "warp_inst \<Rightarrow> nat \<Rightarrow> nat \<Rightarrow> nat set" where
  "active_in w n s = {i \<in> set (subwarp_threads n s). bit (wi_active w) i}"

definition conflict_cycles :: "core_config \<Rightarrow> warp_inst \<Rightarrow> nat set \<Rightarrow> nat" where
  "conflict_cycles c w T = Max (insert 0 ((\<lambda>b. card (word_of w ` in_bank c w b T)) ` bank_of c w ` T))"

lemma bank_subwarp_spec:
  assumes "warp_ok c w" "cc_num_shmem_bank c \<noteq> 0"
    "\<And>i. i \<in> set (subwarp_threads n s) \<Longrightarrow> i < cc_warp_size c"
  shows "\<exists>k. bank_subwarp c w n s tot = Some (tot + k) \<and> k \<le> n \<and> (active_in w n s \<noteq> {} \<longrightarrow> 0 < k) \<and>
    (\<not> cc_shmem_limited_broadcast c \<longrightarrow> k = conflict_cycles c w (active_in w n s))"
proof -
  have d: "distinct (subwarp_threads n s)" by (simp add: subwarp_threads_def)
  from bank_fold_spec[OF assms d] obtain m where m: "fold_opt (bank_thread c w) (subwarp_threads n s) [] = Some m"
    "bank_map_ok c w (active_in w n s) m" unfolding active_in_def by blast
  from max_bank_spec[OF m(2)] obtain k where k: "max_bank c m = Some k" "k \<le> card (active_in w n s)"
    "active_in w n s \<noteq> {} \<longrightarrow> 0 < k"
    "\<not> cc_shmem_limited_broadcast c \<longrightarrow> k = conflict_cycles c w (active_in w n s)" unfolding conflict_cycles_def by blast
  have "card (active_in w n s) \<le> card (set (subwarp_threads n s))"
    unfolding active_in_def by (rule card_mono) auto
  also have "\<dots> = n" by (simp add: subwarp_threads_def)
  finally have "k \<le> n" using k(2) by linarith
  with m(1) k(1,3,4) show ?thesis by (intro exI[of _ k]) (simp add: bank_subwarp_def)
qed

lemma sum_opt:
  assumes "\<And>s tot. s < p \<Longrightarrow> \<exists>k. f s tot = Some (tot + k) \<and> P s k"
  shows "\<exists>ks. fold_opt f [0 ..< p] tot = Some (tot + sum ks {..<p}) \<and> (\<forall>s < p. P s (ks s :: nat))"
  using assms
proof (induction p)
  case 0
  show ?case by (intro exI[of _ "\<lambda>_. 0"]) simp
next
  case (Suc p)
  then obtain ks where ks: "fold_opt f [0 ..< p] tot = Some (tot + sum ks {..<p})" "\<forall>s < p. P s (ks s)"
    by (meson less_SucI)
  from Suc.prems[of p "tot + sum ks {..<p}"] obtain k where k: "f p (tot + sum ks {..<p}) = Some (tot + sum ks {..<p} + k)" "P p k"
    by blast
  let ?ks = "ks(p := k)"
  have e: "sum ?ks {..<p} = sum ks {..<p}" by (rule sum.cong) auto
  have "fold_opt f [0 ..< Suc p] tot = Some (tot + sum ?ks {..<Suc p})"
    by (simp add: fold_opt_append ks(1) k(1) e add.assoc)
  moreover have "\<forall>s < Suc p. P s (?ks s)" using ks(2) k(2) by (auto simp: less_Suc_eq)
  ultimately show ?case by blast
qed

text \<open>
  The cycles charged for a shared memory access always satisfy the assertion in the code:
  between 1 and the warp size, for every address pattern, bank count and broadcast mode;
  without limited broadcast they are, summed over the sub-warps, the largest number of
  different words one bank is asked for.
\<close>

theorem shared_bank_cycles:
  assumes "warp_ok c w" and "cc_num_shmem_bank c \<noteq> 0" and "i < cc_warp_size c" and "bit (wi_active w) i"
  shows "\<exists>n. shared_cycles c w = Some (w\<lparr>wi_cycles := n\<rparr>) \<and> 0 < n \<and> n \<le> cc_warp_size c \<and>
    (\<not> cc_shmem_limited_broadcast c \<longrightarrow> n = (\<Sum>s < cc_mem_warp_parts c.
       conflict_cycles c w (active_in w (cc_warp_size c div cc_mem_warp_parts c) s)))"
proof -
  let ?p = "cc_mem_warp_parts c" and ?n = "cc_warp_size c div cc_mem_warp_parts c"
  have dv: "?p dvd cc_warp_size c" "?p \<noteq> 0" using assms(1) by (simp_all add: warp_ok_def)
  let ?P = "\<lambda>s k. k \<le> ?n \<and> (active_in w ?n s \<noteq> {} \<longrightarrow> 0 < k) \<and>
    (\<not> cc_shmem_limited_broadcast c \<longrightarrow> k = conflict_cycles c w (active_in w ?n s))"
  have "\<exists>k. bank_subwarp c w ?n s tot = Some (tot + k) \<and> ?P s k" if "s < ?p" for s tot
    by (rule bank_subwarp_spec[OF assms(1,2)]) (rule subwarp_bound[OF dv(1) that])
  from sum_opt[of ?p "bank_subwarp c w ?n" ?P 0, OF this] obtain ks where
    ks: "fold_opt (bank_subwarp c w ?n) [0 ..< ?p] 0 = Some (0 + sum ks {..<?p})" "\<forall>s < ?p. ?P s (ks s)" by blast
  have "sum ks {..<?p} \<le> sum (\<lambda>_. ?n) {..<?p}" by (rule sum_mono) (use ks(2) in blast)
  also have "\<dots> = cc_warp_size c" using dv(1) by simp
  finally have ub: "sum ks {..<?p} \<le> cc_warp_size c" .
  from in_subwarp[OF dv(1) assms(3)] have s: "i div ?n < ?p" "i \<in> active_in w ?n (i div ?n)"
    using assms(4) by (simp_all add: active_in_def)
  then have "0 < ks (i div ?n)" using ks(2) by blast
  also have "\<dots> \<le> sum ks {..<?p}" by (rule member_le_sum) (use s(1) in auto)
  finally have lb: "0 < sum ks {..<?p}" .
  have "sum ks {..<?p} = (\<Sum>s < ?p. conflict_cycles c w (active_in w ?n s))" if "\<not> cc_shmem_limited_broadcast c"
    by (rule sum.cong) (use ks(2) that in auto)
  moreover have "shared_cycles c w = Some (w\<lparr>wi_cycles := sum ks {..<?p}\<rparr>)"
    using ks(1) ub lb dv(2) by (simp add: shared_cycles_def)
  ultimately show ?thesis using ub lb by blast
qed

text \<open>
  C11: \<open>generate_mem_accesses\<close> on a warp's global or local load or store that is not atomic,
  of 1, 2, 4, 8 or 16 bytes per thread at addresses aligned to that size and below 4 GB, fails
  no assertion.  The accesses it queues are 32, 64 or 128 bytes, aligned, of the right kind,
  with byte masks inside their windows and only active threads in their masks; each access of
  each active thread lies with all its bytes in one of them; and each byte in a byte mask is a
  byte of an access of a thread in that mask, so no byte is requested that no thread asked
  for.  A second call adds nothing.
\<close>

theorem generate_serves_all:
  assumes "warp_ok c w" and "warp_aligned w" and "cc_coalesce_arch c = 13"
    and "wi_space w \<in> {global_space, local_space, param_space_local}" and "\<not> wi_isatomic w"
    and "wi_op w = LOAD_OP \<or> wi_op w = STORE_OP" and "\<not> wi_empty w" and "\<not> wi_created w"
    and "wi_addr_valid w" and "wi_active w \<noteq> 0"
  shows "\<exists>xs ty w'. generate_mem_accesses c w = Some w' \<and>
    w' = w\<lparr>wi_accessq := wi_accessq w @ xs, wi_created := True\<rparr> \<and> generate_mem_accesses c w' = Some w' \<and>
    space_access_type (wi_space w) (inst_is_store w) = Some ty \<and>
    (\<forall>x \<in> set xs. access_shape ty (inst_is_store w) x \<and> only_asked w x \<and>
       access_threads x \<subseteq> {i. i < cc_warp_size c \<and> bit (wi_active w) i}) \<and>
    (\<forall>i < cc_warp_size c. bit (wi_active w) i \<longrightarrow> (\<forall>k < snd (access_split w).
       \<exists>x \<in> set xs. serves x (fst (access_split w)) i (wi_addrs w ! i ! k)))"
proof -
  obtain ty where ty: "space_access_type (wi_space w) (inst_is_store w) = Some ty"
    using assms(4) by (auto simp: space_access_type_def)
  from coalesce_serves_all[OF assms(1,2), of "inst_is_store w" ty] obtain xs where
    xs: "memory_coalescing_arch_13 c (inst_is_store w) ty w = Some (w\<lparr>wi_accessq := wi_accessq w @ xs\<rparr>)"
    and rest: "\<forall>x \<in> set xs. access_shape ty (inst_is_store w) x \<and> only_asked w x \<and>
       access_threads x \<subseteq> {i. i < cc_warp_size c \<and> bit (wi_active w) i}"
      "\<forall>i < cc_warp_size c. bit (wi_active w) i \<longrightarrow> (\<forall>k < snd (access_split w).
       \<exists>x \<in> set xs. serves x (fst (access_split w)) i (wi_addrs w ! i ! k))" by blast
  let ?w = "w\<lparr>wi_accessq := wi_accessq w @ xs, wi_created := True\<rparr>"
  have ld: "inst_is_load w \<or> inst_is_store w" using assms(6) by (auto simp: inst_is_load_def inst_is_store_def)
  have nb: "wi_op w \<noteq> MEMORY_BARRIER_OP" using assms(6) by auto
  have "generate_mem_accesses c w = Some ?w"
    using assms(3-10) ld nb ty xs by (auto simp: generate_mem_accesses_def)
  moreover have "generate_mem_accesses c ?w = Some ?w" by (simp add: generate_mem_accesses_def)
  ultimately show ?thesis using ty rest by (intro exI[of _ xs] exI[of _ ty] exI[of _ ?w] conjI) (simp_all only:)
qed

subsection \<open>Concrete instances\<close>

definition sample_core :: core_config where
  "sample_core = \<lparr>cc_warp_size = 4, cc_coalesce_arch = 13, cc_shmem_limited_broadcast = False,
     cc_num_shmem_bank = 16, cc_mem_warp_parts = 2, cc_texl1_linesize = 64, cc_constl1_linesize = 64\<rparr>"

definition sample_warp :: warp_inst where
  "sample_warp = \<lparr>wi_empty = False, wi_op = LOAD_OP, wi_memory_op = no_memory_op, wi_space = global_space,
     wi_data_size = 4, wi_isatomic = False, wi_active = 11, wi_addr_valid = True,
     wi_addrs = map (\<lambda>a. a # replicate 7 0) [0x100, 0x104, 0, 0x1C4], wi_created = False,
     wi_accessq = [], wi_cycles = 0\<rparr>"

lemma sample_warp_ok: "warp_ok sample_core sample_warp"
  by (simp add: warp_ok_def sample_core_def sample_warp_def)

lemma four_cases: "i < 4 \<Longrightarrow> i = 0 \<or> i = 1 \<or> i = 2 \<or> i = (3::nat)"
  by linarith

lemma sample_addr_aligned: "i < 4 \<Longrightarrow> bit (11 :: u32) i \<Longrightarrow> aligned_access 4 (wi_addrs sample_warp ! i ! 0)"
  by (drule four_cases, elim disjE) (simp_all add: sample_warp_def aligned_access_def)

lemma sample_warp_aligned: "warp_aligned sample_warp" "atomic_aligned sample_warp"
  using sample_addr_aligned
  by (simp_all add: warp_aligned_def atomic_aligned_def access_split_def) (simp_all add: sample_warp_def)

theorem generate_serves_all_witness:
  "\<exists>xs ty w'. generate_mem_accesses sample_core sample_warp = Some w' \<and>
    w' = sample_warp\<lparr>wi_accessq := wi_accessq sample_warp @ xs, wi_created := True\<rparr> \<and>
    generate_mem_accesses sample_core w' = Some w' \<and>
    space_access_type (wi_space sample_warp) (inst_is_store sample_warp) = Some ty \<and>
    (\<forall>x \<in> set xs. access_shape ty (inst_is_store sample_warp) x \<and> only_asked sample_warp x \<and>
       access_threads x \<subseteq> {i. i < cc_warp_size sample_core \<and> bit (wi_active sample_warp) i}) \<and>
    (\<forall>i < cc_warp_size sample_core. bit (wi_active sample_warp) i \<longrightarrow> (\<forall>k < snd (access_split sample_warp).
       \<exists>x \<in> set xs. serves x (fst (access_split sample_warp)) i (wi_addrs sample_warp ! i ! k)))"
  by (rule generate_serves_all[OF sample_warp_ok sample_warp_aligned(1)])
    (simp_all add: sample_core_def sample_warp_def)

theorem atomics_do_not_collide_witness:
  "\<exists>xs. memory_coalescing_arch_13_atomic sample_core True GLOBAL_ACC_W sample_warp =
      Some (sample_warp\<lparr>wi_accessq := wi_accessq sample_warp @ xs\<rparr>) \<and>
    (\<forall>x \<in> set xs. access_shape GLOBAL_ACC_W True x \<and>
       collision_free (wi_data_size sample_warp) (\<lambda>i. wi_addrs sample_warp ! i ! 0) x \<and>
       access_threads x \<subseteq> {i. i < cc_warp_size sample_core \<and> bit (wi_active sample_warp) i}) \<and>
    (\<forall>i < cc_warp_size sample_core. bit (wi_active sample_warp) i \<longrightarrow>
       (\<exists>x \<in> set xs. serves x (wi_data_size sample_warp) i (wi_addrs sample_warp ! i ! 0)))"
  by (rule atomics_do_not_collide[OF sample_warp_ok sample_warp_aligned(2)])
    (simp_all add: sample_core_def sample_warp_def)

theorem shared_bank_cycles_witness:
  "\<exists>n. shared_cycles sample_core sample_warp = Some (sample_warp\<lparr>wi_cycles := n\<rparr>) \<and> 0 < n \<and>
    n \<le> cc_warp_size sample_core \<and> (\<not> cc_shmem_limited_broadcast sample_core \<longrightarrow> n = (\<Sum>s < cc_mem_warp_parts sample_core.
       conflict_cycles sample_core sample_warp
         (active_in sample_warp (cc_warp_size sample_core div cc_mem_warp_parts sample_core) s)))"
  by (rule shared_bank_cycles[OF sample_warp_ok, of 0]) (simp_all add: sample_core_def sample_warp_def)

end
