(* ===== verification/NocTypes.thy ===== *)
theory NocTypes
  imports Prelude
begin

text \<open>
  The data the routers of the interconnect (\<open>src/intersim\<close>) exchange and the sets of outputs
  their routing functions answer with: \<open>Flit\<close> (flit.hpp), \<open>Credit\<close> (credit.hpp),
  \<open>OutputSet\<close> (outputset.cpp) and the delay lines \<open>PipelineFIFO\<close> (pipefifo.hpp).

  Ports and virtual channels are C \<open>int\<close>s.  They stay \<open>int\<close> where the code asserts that they
  are not negative; counters are assumed not to reach \<open>2 ^ 31\<close> (signed overflow is undefined in
  C++).  The length of \<open>_outputs\<close> is \<open>_num_outputs\<close>.
\<close>

record flit =
  fl_data :: nat
  fl_net_num :: int
  fl_vc :: int
  fl_head :: bool
  fl_tail :: bool
  fl_true_tail :: bool
  fl_time :: int
  fl_sn :: int
  fl_rob_time :: int
  fl_id :: int
  fl_record :: bool
  fl_src :: int
  fl_dest :: int
  fl_pri :: int
  fl_hops :: int
  fl_watch :: bool
  fl_intm :: int
  fl_ph :: int
  fl_dr :: int
  fl_ring_par :: int
  fl_FlitsSta :: int

text \<open>\<open>vc[0 .. vc_cnt - 1]\<close> of a credit, which is \<open>new int [max_vcs]\<close> long.\<close>

record credit =
  cr_vc :: "int list"
  cr_max_vcs :: nat

definition new_credit :: "nat \<Rightarrow> credit" where
  "new_credit n = \<lparr>cr_vc = [], cr_max_vcs = n\<rparr>"

definition credit_push :: "int \<Rightarrow> credit \<Rightarrow> credit option" where
  "credit_push v c = do {
     ensure (length (cr_vc c) < cr_max_vcs c);
     Some (c\<lparr>cr_vc := cr_vc c @ [v]\<rparr>)
   }"

subsection \<open>\<open>OutputSet\<close>\<close>

record set_element =
  se_vc_start :: int
  se_vc_end :: int
  se_pri :: int

type_synonym output_set = "set_element list list"

definition new_output_set :: "nat \<Rightarrow> output_set" where
  "new_output_set n = replicate n []"

definition os_clear :: "output_set \<Rightarrow> output_set" where
  "os_clear os = map (\<lambda>_. []) os"

definition os_port :: "output_set \<Rightarrow> int \<Rightarrow> nat option" where
  "os_port os p = do { ensure (0 \<le> p \<and> p < int (length os)); Some (nat p) }"

definition os_add_range :: "int \<Rightarrow> int \<Rightarrow> int \<Rightarrow> int \<Rightarrow> output_set \<Rightarrow> output_set option" where
  "os_add_range p vs ve pri os = do {
     i \<leftarrow> os_port os p;
     ensure (vs \<le> ve);
     Some (os[i := os ! i @ [\<lparr>se_vc_start = vs, se_vc_end = ve, se_pri = pri\<rparr>]])
   }"

definition os_add :: "int \<Rightarrow> int \<Rightarrow> int \<Rightarrow> output_set \<Rightarrow> output_set option" where
  "os_add p v pri os = os_add_range p v v pri os"

definition os_size :: "output_set \<Rightarrow> int" where
  "os_size os = int (length os)"

definition os_output_empty :: "output_set \<Rightarrow> int \<Rightarrow> bool option" where
  "os_output_empty os p = do { i \<leftarrow> os_port os p; Some (os ! i = []) }"

definition se_range :: "set_element \<Rightarrow> int" where
  "se_range e = se_vc_end e - se_vc_start e + 1"

definition os_num_vcs :: "output_set \<Rightarrow> int \<Rightarrow> int option" where
  "os_num_vcs os p = do { i \<leftarrow> os_port os p; Some (fold (\<lambda>e t. t + se_range e) (os ! i) 0) }"

fun get_vc_loop :: "set_element list \<Rightarrow> int \<Rightarrow> int \<times> int" where
  "get_vc_loop [] remaining = (- 1, - 1)"
| "get_vc_loop (e # es) remaining =
     (if remaining \<ge> se_range e then get_vc_loop es (remaining - se_range e)
      else (se_vc_start e + remaining, se_pri e))"

text \<open>\<open>GetVC\<close> with a place for the priority: the channel and the priority.\<close>

definition os_get_vc :: "output_set \<Rightarrow> int \<Rightarrow> int \<Rightarrow> (int \<times> int) option" where
  "os_get_vc os p k = do { i \<leftarrow> os_port os p; Some (get_vc_loop (os ! i) k) }"

text \<open>
  \<open>GetPortVC\<close>: the loop over the outputs from \<open>out\<close> on, with \<open>used_outputs\<close>, \<open>single_output\<close>
  and the values written through the pointers so far.
\<close>

fun get_port_vc_loop ::
  "set_element list list \<Rightarrow> nat \<Rightarrow> nat \<Rightarrow> bool \<Rightarrow> (nat \<times> int) option \<Rightarrow> bool \<times> (nat \<times> int) option" where
  "get_port_vc_loop [] out used single res = (single, res)"
| "get_port_vc_loop ([] # os) out used single res =
     (if used > 1 then (False, res) else get_port_vc_loop os (out + 1) used single res)"
| "get_port_vc_loop ((e # es) # os) out used single res =
     (if se_vc_start e = se_vc_end e then
        (if used + 1 > 1 then (False, Some (out, se_vc_start e))
         else get_port_vc_loop os (out + 1) (used + 1) True (Some (out, se_vc_start e)))
      else (single, res))"

definition os_get_port_vc :: "output_set \<Rightarrow> bool \<times> (nat \<times> int) option" where
  "os_get_port_vc os = get_port_vc_loop os 0 0 False None"

subsection \<open>What an output set stands for\<close>

definition se_vcs :: "set_element \<Rightarrow> (int \<times> int) list" where
  "se_vcs e = map (\<lambda>v. (v, se_pri e)) [se_vc_start e .. se_vc_end e]"

definition os_vcs :: "output_set \<Rightarrow> nat \<Rightarrow> (int \<times> int) list" where
  "os_vcs os i = concat (map se_vcs (os ! i))"

definition os_ok :: "output_set \<Rightarrow> bool" where
  [inv_defs]: "os_ok os \<longleftrightarrow> (\<forall>es \<in> set os. \<forall>e \<in> set es. se_vc_start e \<le> se_vc_end e)"

lemma length_se_vcs: "se_vc_start e \<le> se_vc_end e \<Longrightarrow> int (length (se_vcs e)) = se_range e"
  by (simp add: se_vcs_def se_range_def)

lemma new_output_set_ok: "os_ok (new_output_set n)" "os_ok (os_clear os)"
  by (auto simp: os_ok_def new_output_set_def os_clear_def)

lemma os_port_Some: "i < length os \<Longrightarrow> os_port os (int i) = Some i"
  by (simp add: os_port_def)

lemma os_port_SomeD: "os_port os p = Some i \<Longrightarrow> i < length os \<and> p = int i"
  by (auto simp: os_port_def split: if_splits)

lemma os_add_range_ok:
  assumes "os_ok os" "os_add_range p vs ve pri os = Some os'"
  shows "os_ok os' \<and> length os' = length os"
proof -
  obtain i where i: "os_port os p = Some i" "vs \<le> ve"
    "os' = os[i := os ! i @ [\<lparr>se_vc_start = vs, se_vc_end = ve, se_pri = pri\<rparr>]]"
    using assms(2) by (auto simp: os_add_range_def split: if_splits)
  have "i < length os" using os_port_SomeD[OF i(1)] by simp
  moreover from this have "os ! i \<in> set os" by simp
  ultimately have "\<forall>e \<in> set (os ! i @ [\<lparr>se_vc_start = vs, se_vc_end = ve, se_pri = pri\<rparr>]).
    se_vc_start e \<le> se_vc_end e" using assms(1) i(2) by (auto simp: os_ok_def)
  then show ?thesis using assms(1)
    unfolding os_ok_def i(3) by (auto dest!: set_update_subset_insert[THEN subsetD])
qed

lemma os_add_range_vcs:
  assumes "os_add_range p vs ve pri os = Some os'" "j < length os"
  shows "os_vcs os' j =
    os_vcs os j @ (if int j = p then map (\<lambda>v. (v, pri)) [vs .. ve] else [])"
  using assms by (auto simp: os_add_range_def os_port_def os_vcs_def se_vcs_def nth_list_update
      split: if_splits)

lemma fold_range_sum: "fold (\<lambda>e t. t + se_range e) es (t :: int) = t + sum_list (map se_range es)"
  by (induction es arbitrary: t) auto

lemma sum_ranges:
  "\<forall>e \<in> set es. se_vc_start e \<le> se_vc_end e \<Longrightarrow>
     sum_list (map se_range es) = int (length (concat (map se_vcs es)))"
  by (induction es) (auto simp: length_se_vcs)

lemma os_ok_nth: "os_ok os \<Longrightarrow> i < length os \<Longrightarrow> \<forall>e \<in> set (os ! i). se_vc_start e \<le> se_vc_end e"
  unfolding os_ok_def using nth_mem[of i os] by blast

lemma os_num_vcs_length:
  "os_ok os \<Longrightarrow> i < length os \<Longrightarrow> os_num_vcs os (int i) = Some (int (length (os_vcs os i)))"
  by (simp add: os_num_vcs_def os_port_def fold_range_sum sum_ranges[OF os_ok_nth] os_vcs_def)

lemma nth_upto: "k < nat (b - a + 1) \<Longrightarrow> [a .. b] ! k = a + int k"
  by (simp add: nth_upto)

lemma get_vc_loop_nth:
  "\<forall>e \<in> set es. se_vc_start e \<le> se_vc_end e \<Longrightarrow> k < length (concat (map se_vcs es)) \<Longrightarrow>
     get_vc_loop es (int k) = concat (map se_vcs es) ! k"
proof (induction es arbitrary: k)
  case (Cons e es)
  have l: "int (length (se_vcs e)) = se_range e" using Cons.prems(1) by (intro length_se_vcs) simp
  show ?case
  proof (cases "k < length (se_vcs e)")
    case True
    then have "se_vcs e ! k = (se_vc_start e + int k, se_pri e)"
      by (simp add: se_vcs_def)
    with True l show ?thesis by (simp add: nth_append)
  next
    case False
    then have "get_vc_loop es (int (k - length (se_vcs e))) =
      concat (map se_vcs es) ! (k - length (se_vcs e))"
      using Cons.prems by (intro Cons.IH) auto
    with False l show ?thesis by (simp add: nth_append of_nat_diff)
  qed
qed simp

lemma get_vc_loop_end:
  "\<forall>e \<in> set es. se_vc_start e \<le> se_vc_end e \<Longrightarrow> int (length (concat (map se_vcs es))) \<le> k \<Longrightarrow>
     get_vc_loop es k = (- 1, - 1)"
proof (induction es arbitrary: k)
  case (Cons e es)
  have l: "int (length (se_vcs e)) = se_range e" using Cons.prems(1) by (intro length_se_vcs) simp
  with Cons show ?case by simp
qed simp

lemma os_get_vc_nth:
  "os_ok os \<Longrightarrow> i < length os \<Longrightarrow> k < length (os_vcs os i) \<Longrightarrow>
     os_get_vc os (int i) (int k) = Some (os_vcs os i ! k)"
  by (simp add: os_get_vc_def os_port_def os_vcs_def get_vc_loop_nth[OF os_ok_nth])

text \<open>The channels a router offers for an output are exactly those its routing function
  added: after an \<open>AddRange\<close> that does not fail, the output holds its former channels followed by
  the range's, every other output is unchanged, \<open>NumVCs\<close> is their number, \<open>GetVC\<close> with the
  indices below it enumerates them in order with their priorities, and from there on it answers
  \<open>-1\<close>.\<close>

theorem output_set_enumerates:
  assumes "os_ok os" "os_add_range p vs ve pri os = Some os'" "j < length os"
  defines "chs \<equiv> os_vcs os j @ (if int j = p then map (\<lambda>v. (v, pri)) [vs .. ve] else [])"
  shows "os_ok os' \<and> os_num_vcs os' (int j) = Some (int (length chs)) \<and>
    map (\<lambda>k. os_get_vc os' (int j) (int k)) [0 ..< length chs] = map Some chs \<and>
    os_get_vc os' (int j) (int (length chs)) = Some (- 1, - 1)"
proof -
  have ok: "os_ok os'" "length os' = length os" using os_add_range_ok[OF assms(1,2)] by auto
  have vcs: "os_vcs os' j = chs" using os_add_range_vcs[OF assms(2,3)] by (simp add: chs_def)
  have j: "j < length os'" using ok assms(3) by simp
  have "get_vc_loop (os' ! j) (int (length chs)) = (- 1, - 1)"
    using ok(1) j vcs by (intro get_vc_loop_end) (auto simp: os_ok_def os_vcs_def)
  then have e: "os_get_vc os' (int j) (int (length chs)) = Some (- 1, - 1)"
    using j by (simp add: os_get_vc_def os_port_def)
  have "map (\<lambda>k. os_get_vc os' (int j) (int k)) [0 ..< length chs] = map (\<lambda>k. Some (chs ! k)) [0 ..< length chs]"
    using os_get_vc_nth[OF ok(1) j] vcs by simp
  also have "\<dots> = map Some chs" by (rule nth_equalityI) auto
  finally show ?thesis using ok(1) os_num_vcs_length[OF ok(1) j] e vcs by simp
qed

theorem output_set_enumerates_witness:
  "os_num_vcs [[], [\<lparr>se_vc_start = 2, se_vc_end = 3, se_pri = 7\<rparr>, \<lparr>se_vc_start = 0, se_vc_end = 0, se_pri = 1\<rparr>]] 1
   = Some 3"
  using output_set_enumerates[of "[[], [\<lparr>se_vc_start = 2, se_vc_end = 3, se_pri = 7\<rparr>]]" 1 0 0 1
      "[[], [\<lparr>se_vc_start = 2, se_vc_end = 3, se_pri = 7\<rparr>, \<lparr>se_vc_start = 0, se_vc_end = 0, se_pri = 1\<rparr>]]" 1]
  by (simp add: os_ok_def os_add_range_def os_port_def os_vcs_def se_vcs_def)

text \<open>
  \<open>GetPortVC\<close> answers whether a single channel is selected.  It stops at the first range of more
  than one channel with the answer it had: an earlier single channel is then reported as the only
  one.
\<close>

theorem get_port_vc_misses_range:
  "os_get_port_vc [[\<lparr>se_vc_start = 3, se_vc_end = 3, se_pri = 0\<rparr>],
                   [\<lparr>se_vc_start = 0, se_vc_end = 1, se_pri = 0\<rparr>]] = (True, Some (0, 3))"
  by (simp add: os_get_port_vc_def)

subsection \<open>\<open>PipelineFIFO\<close>\<close>

text \<open>One delay line per lane; \<open>_data[l]\<close> has \<open>depth + 1\<close> slots and 0 is \<open>None\<close>.\<close>

record 'a pipeline_fifo =
  pf_lanes :: nat
  pf_pipe_len :: nat
  pf_pipe_ptr :: nat
  pf_data :: "'a option list list"

definition new_pipeline_fifo :: "nat \<Rightarrow> nat \<Rightarrow> 'a pipeline_fifo" where
  "new_pipeline_fifo lanes depth =
     \<lparr>pf_lanes = lanes, pf_pipe_len = depth + 1, pf_pipe_ptr = 0,
      pf_data = replicate lanes (replicate (depth + 1) None)\<rparr>"

definition pf_write :: "'a option \<Rightarrow> nat \<Rightarrow> 'a pipeline_fifo \<Rightarrow> 'a pipeline_fifo" where
  "pf_write x l p = p\<lparr>pf_data := (pf_data p)[l := (pf_data p ! l)[pf_pipe_ptr p := x]]\<rparr>"

definition pf_write_all :: "'a option \<Rightarrow> 'a pipeline_fifo \<Rightarrow> 'a pipeline_fifo" where
  "pf_write_all x p = fold (pf_write x) [0 ..< pf_lanes p] p"

definition pf_read :: "'a pipeline_fifo \<Rightarrow> nat \<Rightarrow> 'a option" where
  "pf_read p l = pf_data p ! l ! pf_pipe_ptr p"

definition pf_advance :: "'a pipeline_fifo \<Rightarrow> 'a pipeline_fifo" where
  "pf_advance p = p\<lparr>pf_pipe_ptr := (pf_pipe_ptr p + 1) mod pf_pipe_len p\<rparr>"

definition pf_inv :: "'a pipeline_fifo \<Rightarrow> bool" where
  [inv_defs]: "pf_inv p \<longleftrightarrow> length (pf_data p) = pf_lanes p \<and> pf_pipe_ptr p < pf_pipe_len p \<and>
     (\<forall>d \<in> set (pf_data p). length d = pf_pipe_len p)"

text \<open>What lane \<open>l\<close> will deliver: the slots from the one after the pointer on, the pointer's
  own slot last.\<close>

definition pf_line :: "'a pipeline_fifo \<Rightarrow> nat \<Rightarrow> 'a option list" where
  "pf_line p l = (let d = pf_data p ! l; k = pf_pipe_ptr p + 1 in drop k d @ take k d)"

lemma new_pipeline_fifo_inv: "pf_inv (new_pipeline_fifo n k)"
  by (simp add: pf_inv_def new_pipeline_fifo_def)

lemma pf_write_inv: "pf_inv p \<Longrightarrow> pf_inv (pf_write x l p)"
  unfolding pf_inv_def pf_write_def
  by (cases "l < length (pf_data p)")
    (auto simp: list_update_beyond dest!: set_update_subset_insert[THEN subsetD])

lemma pf_write_fields [simp]:
  "pf_lanes (pf_write x l p) = pf_lanes p" "pf_pipe_len (pf_write x l p) = pf_pipe_len p"
  "pf_pipe_ptr (pf_write x l p) = pf_pipe_ptr p" "length (pf_data (pf_write x l p)) = length (pf_data p)"
  by (simp_all add: pf_write_def)

lemma pf_advance_inv: "pf_inv p \<Longrightarrow> pf_inv (pf_advance p)"
  by (auto simp: pf_inv_def pf_advance_def)

lemma pf_line_len: "pf_inv p \<Longrightarrow> l < pf_lanes p \<Longrightarrow> length (pf_data p ! l) = pf_pipe_len p"
  by (simp add: pf_inv_def)

lemma pf_write_line:
  assumes "pf_inv p" "l < pf_lanes p"
  shows "pf_line (pf_write x l p) k = (if k = l then butlast (pf_line p l) @ [x] else pf_line p k)"
proof (cases "k = l")
  case True
  have l: "length (pf_data p ! l) = pf_pipe_len p" "pf_pipe_ptr p < pf_pipe_len p" "l < length (pf_data p)"
    using pf_line_len[OF assms] assms by (auto simp: pf_inv_def)
  then have "take (Suc (pf_pipe_ptr p)) ((pf_data p ! l)[pf_pipe_ptr p := x]) =
    butlast (take (Suc (pf_pipe_ptr p)) (pf_data p ! l)) @ [x]"
    by (simp add: take_Suc_conv_app_nth butlast_append)
  then show ?thesis using l True
    by (auto simp: pf_line_def pf_write_def butlast_append take_eq_Nil Let_def)
qed (simp add: pf_line_def pf_write_def Let_def)

lemma pf_advance_line:
  assumes "pf_inv p" "l < pf_lanes p"
  shows "pf_line (pf_advance p) l = rotate1 (pf_line p l)"
proof -
  let ?d = "pf_data p ! l" and ?k = "Suc (pf_pipe_ptr p)"
  have l: "length ?d = pf_pipe_len p" "pf_pipe_ptr p < pf_pipe_len p"
    using pf_line_len[OF assms] assms(1) by (auto simp: pf_inv_def)
  show ?thesis
  proof (cases "?k < pf_pipe_len p")
    case True
    then have "drop ?k ?d = ?d ! ?k # drop (Suc ?k) ?d" "take (Suc ?k) ?d = take ?k ?d @ [?d ! ?k]"
      using l by (simp_all add: Cons_nth_drop_Suc take_Suc_conv_app_nth)
    with True show ?thesis by (simp add: pf_line_def pf_advance_def Let_def)
  next
    case False
    with l have "?k = pf_pipe_len p" by simp
    moreover obtain x xs where "?d = x # xs" using l by (cases ?d) auto
    ultimately show ?thesis using l by (simp add: pf_line_def pf_advance_def Let_def)
  qed
qed

lemma pf_read_line:
  assumes "pf_inv p" "l < pf_lanes p"
  shows "pf_read p l = last (pf_line p l)"
proof -
  have l: "length (pf_data p ! l) = pf_pipe_len p" "pf_pipe_ptr p < pf_pipe_len p"
    using pf_line_len[OF assms] assms(1) by (auto simp: pf_inv_def)
  then show ?thesis
    by (simp add: pf_line_def pf_read_def Let_def last_append take_Suc_conv_app_nth)
qed

text \<open>One cycle of a router on lane \<open>l\<close>: write, advance, read; and a run of cycles.\<close>

definition pf_cycle :: "nat \<Rightarrow> 'a option \<Rightarrow> 'a pipeline_fifo \<Rightarrow> 'a option \<times> 'a pipeline_fifo" where
  "pf_cycle l x p = (let p' = pf_advance (pf_write x l p) in (pf_read p' l, p'))"

fun pf_run :: "nat \<Rightarrow> 'a option list \<Rightarrow> 'a pipeline_fifo \<Rightarrow> 'a option list" where
  "pf_run l [] p = []"
| "pf_run l (x # xs) p = fst (pf_cycle l x p) # pf_run l xs (snd (pf_cycle l x p))"

definition pf_queue :: "'a pipeline_fifo \<Rightarrow> nat \<Rightarrow> 'a option list" where
  "pf_queue p l = butlast (pf_line p l)"

lemma pf_cycle_queue:
  assumes "pf_inv p" "l < pf_lanes p"
  shows "fst (pf_cycle l x p) = hd (pf_queue p l @ [x])"
    "pf_queue (snd (pf_cycle l x p)) l = tl (pf_queue p l @ [x])"
    "pf_inv (snd (pf_cycle l x p))" "pf_lanes (snd (pf_cycle l x p)) = pf_lanes p"
proof -
  let ?p = "pf_write x l p"
  have w: "pf_inv ?p" "l < pf_lanes ?p" using pf_write_inv[OF assms(1)] assms(2) by auto
  have line: "pf_line (pf_advance ?p) l = rotate1 (pf_queue p l @ [x])"
    using pf_advance_line[OF w] pf_write_line[OF assms, of x l] by (simp add: pf_queue_def)
  obtain y ys where y: "pf_queue p l @ [x] = y # ys" by (cases "pf_queue p l @ [x]") auto
  have a: "pf_inv (pf_advance ?p)" "l < pf_lanes (pf_advance ?p)"
    using pf_advance_inv[OF w(1)] w(2) by (simp_all add: pf_advance_def)
  show "fst (pf_cycle l x p) = hd (pf_queue p l @ [x])"
    using pf_read_line[OF a] line y by (simp add: pf_cycle_def Let_def)
  show "pf_queue (snd (pf_cycle l x p)) l = tl (pf_queue p l @ [x])"
    using line y by (simp add: pf_cycle_def Let_def pf_queue_def[of "pf_advance _"])
  show "pf_inv (snd (pf_cycle l x p))" "pf_lanes (snd (pf_cycle l x p)) = pf_lanes p"
    using a by (simp_all add: pf_cycle_def Let_def pf_advance_def)
qed

lemma pf_run_queue:
  "pf_inv p \<Longrightarrow> l < pf_lanes p \<Longrightarrow> pf_run l xs p = take (length xs) (pf_queue p l @ xs)"
proof (induction xs arbitrary: p)
  case (Cons x xs)
  note c = pf_cycle_queue[OF Cons.prems, of x]
  have "pf_run l xs (snd (pf_cycle l x p)) = take (length xs) (tl (pf_queue p l @ [x]) @ xs)"
    using Cons.IH[of "snd (pf_cycle l x p)"] c Cons.prems by simp
  with c(1) show ?case by (cases "pf_queue p l") simp_all
qed simp

text \<open>A \<open>PipelineFIFO\<close> is a delay line: over any run of cycles a lane of a fresh pipeline
  delivers what was written to it, in order, \<open>depth\<close> cycles later, and nothing before.\<close>

theorem pipeline_fifo_delay:
  assumes "l < lanes"
  shows "pf_run l xs (new_pipeline_fifo lanes depth :: 'a pipeline_fifo) =
    take (length xs) (replicate depth None @ xs)"
proof -
  have "pf_queue (new_pipeline_fifo lanes depth :: 'a pipeline_fifo) l = replicate depth None"
  proof -
    have "pf_line (new_pipeline_fifo lanes depth :: 'a pipeline_fifo) l = replicate (Suc depth) None"
      using assms by (simp add: pf_line_def new_pipeline_fifo_def replicate_append_same)
    then show ?thesis by (simp add: pf_queue_def butlast_conv_take del: replicate.simps)
  qed
  then show ?thesis using pf_run_queue[OF new_pipeline_fifo_inv, of l lanes depth xs] assms
    by (simp add: new_pipeline_fifo_def)
qed

theorem pipeline_fifo_delay_witness:
  "pf_run 1 [Some 4, None, Some 5, Some 6] (new_pipeline_fifo 2 2 :: nat pipeline_fifo) =
    [None, None, Some 4, None]"
  using pipeline_fifo_delay[of 1 2 "[Some 4, None, Some 5, Some 6]" 2] by (simp add: numeral_2_eq_2)

end
