(* ===== verification/BufferState.thy ===== *)
theory BufferState
  imports NocTypes StdMap "HOL-Library.Signed_Division"
begin

text \<open>
  \<open>BufferState\<close> (\<open>src/intersim/buffer_state.cpp\<close>): what a router knows of the virtual channel
  buffers at the other end of one of its links.  It counts a flit when it is sent and discounts it
  when its credit comes back, and remembers which buffers are taken by a packet.
  \<open>Error\<close> ends the simulator, as a failed assertion does: both are \<open>None\<close>.
\<close>

record noc_config =
  nc_vc_buf_size :: int
  nc_num_vcs :: int
  nc_wait_for_tail_credit :: int

record buffer_state =
  bs_wait_for_tail_credit :: bool
  bs_buf_size :: int
  bs_vcs :: nat
  bs_last_avail :: nat
  bs_in_use :: "bool list"
  bs_tail_sent :: "bool list"
  bs_cur_occupied :: "int list"

text \<open>The share of the virtual channels a network gets when the CPU and GPU networks are
  separated; \<open>/\<close> on \<open>int\<close> truncates.\<close>

definition network_vcs :: "int \<Rightarrow> int \<Rightarrow> int \<Rightarrow> int" where
  "network_vcs vcs ratio net =
     (if ratio \<noteq> 0 then
        (if net sdiv 2 \<noteq> 0 then (vcs * ratio) sdiv 4 else vcs - (vcs * ratio) sdiv 4)
      else vcs)"

definition bs_init :: "noc_config \<Rightarrow> int \<Rightarrow> int \<Rightarrow> buffer_state option" where
  "bs_init c ratio net = (let vcs = network_vcs (nc_num_vcs c) ratio net in do {
     ensure (0 \<le> vcs);
     Some \<lparr>bs_wait_for_tail_credit = nc_wait_for_tail_credit c \<noteq> 0,
           bs_buf_size = nc_vc_buf_size c, bs_vcs = nat vcs, bs_last_avail = 0,
           bs_in_use = replicate (nat vcs) False, bs_tail_sent = replicate (nat vcs) False,
           bs_cur_occupied = replicate (nat vcs) 0\<rparr>
   })"

definition bs_vc :: "buffer_state \<Rightarrow> int \<Rightarrow> nat option" where
  "bs_vc b v = do { ensure (0 \<le> v \<and> v < int (bs_vcs b)); Some (nat v) }"

definition process_credit_vc :: "int \<Rightarrow> buffer_state \<Rightarrow> buffer_state option" where
  "process_credit_vc v b = do {
     i \<leftarrow> bs_vc b v;
     if bs_wait_for_tail_credit b \<and> \<not> bs_in_use b ! i then None
     else if bs_cur_occupied b ! i > 0 then
       (let occ = bs_cur_occupied b ! i - 1 in
        Some (b\<lparr>bs_cur_occupied := (bs_cur_occupied b)[i := occ],
                bs_in_use := (if occ = 0 \<and> bs_tail_sent b ! i then (bs_in_use b)[i := False]
                              else bs_in_use b)\<rparr>))
     else None
   }"

definition process_credit :: "credit \<Rightarrow> buffer_state \<Rightarrow> buffer_state option" where
  "process_credit c b = fold_opt process_credit_vc (cr_vc c) b"

definition sending_flit :: "flit \<Rightarrow> buffer_state \<Rightarrow> buffer_state option" where
  "sending_flit f b = do {
     i \<leftarrow> bs_vc b (fl_vc f);
     if bs_cur_occupied b ! i < bs_buf_size b then
       Some (b\<lparr>bs_cur_occupied := (bs_cur_occupied b)[i := bs_cur_occupied b ! i + 1],
               bs_tail_sent := (if fl_tail f then (bs_tail_sent b)[i := True] else bs_tail_sent b),
               bs_in_use := (if fl_tail f \<and> \<not> bs_wait_for_tail_credit b then (bs_in_use b)[i := False]
                             else bs_in_use b)\<rparr>)
     else None
   }"

definition take_buffer :: "int \<Rightarrow> buffer_state \<Rightarrow> buffer_state option" where
  "take_buffer v b = do {
     i \<leftarrow> bs_vc b v;
     if bs_in_use b ! i then None
     else Some (b\<lparr>bs_in_use := (bs_in_use b)[i := True], bs_tail_sent := (bs_tail_sent b)[i := False]\<rparr>)
   }"

definition is_full_for :: "buffer_state \<Rightarrow> int \<Rightarrow> bool option" where
  "is_full_for b v = do { i \<leftarrow> bs_vc b v; Some (bs_cur_occupied b ! i = bs_buf_size b) }"

definition is_available_for :: "buffer_state \<Rightarrow> int \<Rightarrow> bool option" where
  "is_available_for b v = do { i \<leftarrow> bs_vc b v; Some (\<not> bs_in_use b ! i) }"

text \<open>\<open>draw\<close> is the number \<open>ran_next()\<close> that \<open>RandomInt( _vcs - 1 )\<close> reduces; with no channels
  the reduction divides by zero.\<close>

definition find_available :: "nat \<Rightarrow> buffer_state \<Rightarrow> (int \<times> buffer_state) option" where
  "find_available draw b = do {
     ensure (bs_vcs b \<noteq> 0);
     let la = draw mod bs_vcs b;
     (case find (\<lambda>vc. \<not> bs_in_use b ! vc) (map (\<lambda>v. (v + la + 1) mod bs_vcs b) [0 ..< bs_vcs b]) of
        None \<Rightarrow> Some (- 1, b\<lparr>bs_last_avail := la\<rparr>)
      | Some vc \<Rightarrow> Some (int vc, b\<lparr>bs_last_avail := vc\<rparr>))
   }"

subsection \<open>Occupancy\<close>

definition bs_inv :: "buffer_state \<Rightarrow> bool" where
  [inv_defs]: "bs_inv b \<longleftrightarrow>
     length (bs_in_use b) = bs_vcs b \<and> length (bs_tail_sent b) = bs_vcs b \<and>
     length (bs_cur_occupied b) = bs_vcs b \<and>
     (\<forall>i < bs_vcs b. 0 \<le> bs_cur_occupied b ! i \<and> bs_cur_occupied b ! i \<le> bs_buf_size b)"

lemma bs_vc_Some [simp]: "bs_vc b v = Some i \<longleftrightarrow> i < bs_vcs b \<and> v = int i"
  by (auto simp: bs_vc_def split: if_splits)

lemma bs_vc_int: "i < bs_vcs b \<Longrightarrow> bs_vc b (int i) = Some i"
  by simp

lemma bs_init_inv:
  assumes "bs_init c ratio net = Some b" "0 \<le> nc_vc_buf_size c"
  shows "bs_inv b \<and> bs_cur_occupied b = replicate (bs_vcs b) 0 \<and>
    bs_in_use b = replicate (bs_vcs b) False \<and> bs_buf_size b = nc_vc_buf_size c"
  using assms by (auto simp: bs_init_def bs_inv_def Let_def split: if_splits)

lemma bs_stepD:
  assumes "process_credit_vc v b = Some b'"
  shows "\<exists>i < bs_vcs b. v = int i \<and> 0 < bs_cur_occupied b ! i \<and>
    bs_vcs b' = bs_vcs b \<and> bs_buf_size b' = bs_buf_size b \<and>
    bs_wait_for_tail_credit b' = bs_wait_for_tail_credit b \<and> bs_tail_sent b' = bs_tail_sent b \<and>
    bs_cur_occupied b' = (bs_cur_occupied b)[i := bs_cur_occupied b ! i - 1] \<and>
    (bs_in_use b' = bs_in_use b \<or>
     bs_in_use b' = (bs_in_use b)[i := False] \<and> bs_tail_sent b ! i \<and> bs_cur_occupied b ! i = 1) \<and>
    (bs_wait_for_tail_credit b \<longrightarrow> bs_in_use b ! i)"
  using assms by (cases "bs_vc b v") (auto simp: process_credit_vc_def bs_vc_int Let_def split: if_splits)

lemma sending_flitD:
  assumes "sending_flit f b = Some b'"
  shows "\<exists>i < bs_vcs b. fl_vc f = int i \<and> bs_cur_occupied b ! i < bs_buf_size b \<and>
    bs_vcs b' = bs_vcs b \<and> bs_buf_size b' = bs_buf_size b \<and>
    bs_wait_for_tail_credit b' = bs_wait_for_tail_credit b \<and>
    bs_cur_occupied b' = (bs_cur_occupied b)[i := bs_cur_occupied b ! i + 1] \<and>
    bs_tail_sent b' = (if fl_tail f then (bs_tail_sent b)[i := True] else bs_tail_sent b) \<and>
    bs_in_use b' = (if fl_tail f \<and> \<not> bs_wait_for_tail_credit b then (bs_in_use b)[i := False]
                    else bs_in_use b)"
  using assms by (cases "bs_vc b (fl_vc f)") (auto simp: sending_flit_def bs_vc_int split: if_splits)

lemma take_bufferD:
  assumes "take_buffer v b = Some b'"
  shows "\<exists>i < bs_vcs b. v = int i \<and> \<not> bs_in_use b ! i \<and>
    b' = b\<lparr>bs_in_use := (bs_in_use b)[i := True], bs_tail_sent := (bs_tail_sent b)[i := False]\<rparr>"
  using assms by (cases "bs_vc b v") (auto simp: take_buffer_def bs_vc_int split: if_splits)

lemma process_credit_vc_inv:
  assumes "bs_inv b" "process_credit_vc v b = Some b'"
  shows "bs_inv b'"
proof -
  from bs_stepD[OF assms(2)] obtain i where i: "i < bs_vcs b" "0 < bs_cur_occupied b ! i"
    "bs_vcs b' = bs_vcs b" "bs_buf_size b' = bs_buf_size b" "bs_tail_sent b' = bs_tail_sent b"
    "bs_cur_occupied b' = (bs_cur_occupied b)[i := bs_cur_occupied b ! i - 1]"
    "length (bs_in_use b') = length (bs_in_use b)" by auto
  have "\<forall>j < bs_vcs b. 0 \<le> bs_cur_occupied b' ! j \<and> bs_cur_occupied b' ! j \<le> bs_buf_size b"
    using assms(1) i(1,2,6) by (auto simp: bs_inv_def nth_list_update)
  with assms(1) i show ?thesis by (simp add: bs_inv_def)
qed

lemma sending_flit_inv:
  assumes "bs_inv b" "sending_flit f b = Some b'"
  shows "bs_inv b'"
proof -
  from sending_flitD[OF assms(2)] obtain i where i: "i < bs_vcs b" "bs_cur_occupied b ! i < bs_buf_size b"
    "bs_vcs b' = bs_vcs b" "bs_buf_size b' = bs_buf_size b" "length (bs_tail_sent b') = length (bs_tail_sent b)"
    "bs_cur_occupied b' = (bs_cur_occupied b)[i := bs_cur_occupied b ! i + 1]"
    "length (bs_in_use b') = length (bs_in_use b)" by auto
  have "\<forall>j < bs_vcs b. 0 \<le> bs_cur_occupied b' ! j \<and> bs_cur_occupied b' ! j \<le> bs_buf_size b"
    using assms(1) i(1,2,6) by (auto simp: bs_inv_def nth_list_update)
  with assms(1) i show ?thesis by (simp add: bs_inv_def)
qed

lemma take_buffer_inv: "bs_inv b \<Longrightarrow> take_buffer v b = Some b' \<Longrightarrow> bs_inv b'"
  by (drule take_bufferD) (auto simp: bs_inv_def)

subsection \<open>What a client may rely on\<close>

text \<open>The guards the routers use are exactly the conditions under which the operations do not
  stop the simulator.\<close>

lemma sending_flit_total:
  "bs_inv b \<Longrightarrow> is_full_for b (fl_vc f) = Some False \<Longrightarrow> \<exists>b'. sending_flit f b = Some b'"
  by (cases "bs_vc b (fl_vc f)")
    (auto simp: is_full_for_def sending_flit_def bs_inv_def bs_vc_int order.not_eq_order_implies_strict)

lemma take_buffer_total: "is_available_for b v = Some True \<Longrightarrow> \<exists>b'. take_buffer v b = Some b'"
  by (cases "bs_vc b v") (auto simp: is_available_for_def take_buffer_def bs_vc_int)

lemma is_full_for_int: "i < bs_vcs b \<Longrightarrow> is_full_for b (int i) = Some (bs_cur_occupied b ! i = bs_buf_size b)"
  by (simp add: is_full_for_def bs_vc_int)

lemma is_available_for_int: "i < bs_vcs b \<Longrightarrow> is_available_for b (int i) = Some (\<not> bs_in_use b ! i)"
  by (simp add: is_available_for_def bs_vc_int)

text \<open>\<open>FindAvailable\<close> answers with the first buffer not in use at or after its random
  starting point in cyclic order, and with \<open>-1\<close> exactly when all are in use; it changes no
  buffer.\<close>

theorem find_available_spec:
  assumes "bs_inv b" "find_available draw b = Some (r, b')"
  shows "bs_in_use b' = bs_in_use b \<and> bs_cur_occupied b' = bs_cur_occupied b \<and>
    (r = - 1 \<longleftrightarrow> (\<forall>i < bs_vcs b. bs_in_use b ! i)) \<and>
    (r \<noteq> - 1 \<longrightarrow> (\<exists>k < bs_vcs b. r = int ((k + draw mod bs_vcs b + 1) mod bs_vcs b) \<and>
       is_available_for b r = Some True \<and>
       (\<forall>k' < k. bs_in_use b ! ((k' + draw mod bs_vcs b + 1) mod bs_vcs b))))"
proof -
  let ?n = "bs_vcs b" and ?la = "draw mod bs_vcs b"
  let ?l = "map (\<lambda>v. (v + ?la + 1) mod ?n) [0 ..< ?n]"
  have n: "0 < ?n" using assms(2) by (auto simp: find_available_def split: if_splits)
  show ?thesis
  proof (cases "find (\<lambda>vc. \<not> bs_in_use b ! vc) ?l")
    case None
    then have r: "r = - 1" "b' = b\<lparr>bs_last_avail := ?la\<rparr>"
      using assms(2) n by (auto simp: find_available_def)
    have "bs_in_use b ! i" if i: "i < ?n" for i
    proof -
      obtain k where "k < ?n" "(k + (?la + 1)) mod ?n = i" using cyclic_hits[OF i] .
      then have "i \<in> set ?l" by (auto simp: image_iff intro!: bexI[of _ k])
      with None show ?thesis by (auto simp: find_None_iff)
    qed
    with r show ?thesis by simp
  next
    case (Some vc)
    then have r: "r = int vc" "b' = b\<lparr>bs_last_avail := vc\<rparr>"
      using assms(2) n by (auto simp: find_available_def)
    from Some obtain k where k: "k < ?n" "vc = ?l ! k" "\<not> bs_in_use b ! vc"
      "\<forall>j < k. bs_in_use b ! (?l ! j)"
      by (auto simp: find_Some_iff)
    have vc: "vc < ?n" using k n by simp
    have "\<exists>k < ?n. r = int ((k + ?la + 1) mod ?n) \<and> is_available_for b r = Some True \<and>
        (\<forall>k' < k. bs_in_use b ! ((k' + ?la + 1) mod ?n))"
      using k r vc by (intro exI[of _ k]) (simp add: is_available_for_int)
    with vc k(3) r show ?thesis by auto
  qed
qed

theorem find_available_spec_witness:
  "\<exists>k < 2. (1 :: int) = int ((k + 4 mod 2 + 1) mod 2)"
proof -
  let ?b = "\<lparr>bs_wait_for_tail_credit = True, bs_buf_size = 4, bs_vcs = 2, bs_last_avail = 0,
    bs_in_use = [True, False], bs_tail_sent = [False, False], bs_cur_occupied = [1, 0]\<rparr>"
  have i: "bs_inv ?b" by (simp add: bs_inv_def less_2_cases_iff)
  have f: "find_available 4 ?b = Some (1, ?b\<lparr>bs_last_avail := 1\<rparr>)"
    by (simp add: find_available_def upt_rec)
  show ?thesis using find_available_spec[OF i f] by auto
qed

end
