(* ===== verification/VChannel.thy ===== *)
theory VChannel
  imports NocTypes
begin

text \<open>
  \<open>VC\<close> (\<open>src/intersim/vc.cpp\<close>): a virtual channel buffer of a router input and the state of the
  packet at its head.  The constructor leaves \<open>_out_port\<close> and \<open>_out_vc\<close> unset: they are \<open>None\<close>
  until \<open>SetOutput\<close>.  A null flit pointer is \<open>None\<close>.
\<close>

datatype vc_state = idle | routing | vc_alloc | active

record vc =
  vc_size :: int
  vc_buffer :: "flit list"
  vc_st :: vc_state
  vc_state_time :: int
  vc_route_set :: output_set
  vc_out_port :: "nat option"
  vc_out_vc :: "nat option"
  vc_occupied_cnt :: int
  vc_total_cycles :: int
  vc_vc_alloc_cycles :: int
  vc_active_cycles :: int
  vc_idle_cycles :: int
  vc_pri :: int
  vc_watched :: bool

definition vc_init :: "int \<Rightarrow> nat \<Rightarrow> vc" where
  "vc_init buf_size outputs =
     \<lparr>vc_size = buf_size, vc_buffer = [], vc_st = idle, vc_state_time = 0,
      vc_route_set = new_output_set outputs, vc_out_port = None, vc_out_vc = None,
      vc_occupied_cnt = 0, vc_total_cycles = 0, vc_vc_alloc_cycles = 0, vc_active_cycles = 0,
      vc_idle_cycles = 0, vc_pri = 0, vc_watched = False\<rparr>"

definition vc_add_flit :: "flit \<Rightarrow> vc \<Rightarrow> bool \<times> vc" where
  "vc_add_flit f v =
     (if int (length (vc_buffer v)) \<noteq> vc_size v then (True, v\<lparr>vc_buffer := vc_buffer v @ [f]\<rparr>)
      else (False, v))"

definition vc_front_flit :: "vc \<Rightarrow> flit option" where
  "vc_front_flit v = (case vc_buffer v of [] \<Rightarrow> None | f # _ \<Rightarrow> Some f)"

definition vc_remove_flit :: "vc \<Rightarrow> flit option \<times> vc" where
  "vc_remove_flit v =
     (case vc_buffer v of [] \<Rightarrow> (None, v) | f # fs \<Rightarrow> (Some f, v\<lparr>vc_buffer := fs\<rparr>))"

definition vc_empty :: "vc \<Rightarrow> bool" where
  "vc_empty v \<longleftrightarrow> vc_buffer v = []"

definition vc_set_state :: "vc_state \<Rightarrow> vc \<Rightarrow> vc" where
  "vc_set_state s v =
     (let v1 = v\<lparr>vc_st := s, vc_state_time := 0\<rparr> in
      if s = active then
        v1\<lparr>vc_pri := (case vc_front_flit v of Some f \<Rightarrow> fl_pri f | None \<Rightarrow> vc_pri v),
           vc_occupied_cnt := vc_occupied_cnt v + 1\<rparr>
      else v1)"

definition vc_set_output :: "nat \<Rightarrow> nat \<Rightarrow> vc \<Rightarrow> vc" where
  "vc_set_output p c v = v\<lparr>vc_out_port := Some p, vc_out_vc := Some c\<rparr>"

text \<open>
  A routing function reads the flit, may write its \<open>mutable\<close> routing fields, and fills the output
  set.  The routers call \<open>Route\<close> with the flit at the front of the buffer, which the buffer shares.
\<close>

type_synonym routing_function = "flit \<Rightarrow> int \<Rightarrow> output_set \<Rightarrow> (flit \<times> output_set) option"

definition vc_route :: "routing_function \<Rightarrow> flit \<Rightarrow> int \<Rightarrow> vc \<Rightarrow> vc option" where
  "vc_route rf f in_channel v = do {
     (f', os) \<leftarrow> rf f in_channel (vc_route_set v);
     Some (v\<lparr>vc_route_set := os, vc_buffer := f' # tl (vc_buffer v)\<rparr>)
   }"

definition vc_advance_time :: "vc \<Rightarrow> vc" where
  "vc_advance_time v =
     (let v1 = v\<lparr>vc_state_time := vc_state_time v + 1, vc_total_cycles := vc_total_cycles v + 1\<rparr> in
      case vc_st v of
        idle \<Rightarrow> v1\<lparr>vc_idle_cycles := vc_idle_cycles v + 1\<rparr>
      | active \<Rightarrow> v1\<lparr>vc_active_cycles := vc_active_cycles v + 1\<rparr>
      | vc_alloc \<Rightarrow> v1\<lparr>vc_vc_alloc_cycles := vc_vc_alloc_cycles v + 1\<rparr>
      | routing \<Rightarrow> v1)"

lemma vc_set_state_fields [simp]:
  "vc_st (vc_set_state s v) = s" "vc_buffer (vc_set_state s v) = vc_buffer v"
  "vc_size (vc_set_state s v) = vc_size v" "vc_route_set (vc_set_state s v) = vc_route_set v"
  "vc_out_port (vc_set_state s v) = vc_out_port v" "vc_out_vc (vc_set_state s v) = vc_out_vc v"
  "vc_state_time (vc_set_state s v) = 0"
  by (simp_all add: vc_set_state_def Let_def)

lemma vc_set_output_fields [simp]:
  "vc_st (vc_set_output p c v) = vc_st v" "vc_buffer (vc_set_output p c v) = vc_buffer v"
  "vc_size (vc_set_output p c v) = vc_size v" "vc_route_set (vc_set_output p c v) = vc_route_set v"
  "vc_out_port (vc_set_output p c v) = Some p" "vc_out_vc (vc_set_output p c v) = Some c"
  by (simp_all add: vc_set_output_def)

lemma vc_advance_time_fields [simp]:
  "vc_st (vc_advance_time v) = vc_st v" "vc_buffer (vc_advance_time v) = vc_buffer v"
  "vc_size (vc_advance_time v) = vc_size v" "vc_route_set (vc_advance_time v) = vc_route_set v"
  "vc_out_port (vc_advance_time v) = vc_out_port v" "vc_out_vc (vc_advance_time v) = vc_out_vc v"
  by (cases "vc_st v"; simp add: vc_advance_time_def Let_def)+

lemma vc_add_flit_fields [simp]:
  "vc_st (snd (vc_add_flit f v)) = vc_st v" "vc_size (snd (vc_add_flit f v)) = vc_size v"
  "vc_route_set (snd (vc_add_flit f v)) = vc_route_set v"
  "vc_out_port (snd (vc_add_flit f v)) = vc_out_port v" "vc_out_vc (snd (vc_add_flit f v)) = vc_out_vc v"
  by (simp_all add: vc_add_flit_def)

lemma vc_remove_flit_fields [simp]:
  "vc_st (snd (vc_remove_flit v)) = vc_st v" "vc_size (snd (vc_remove_flit v)) = vc_size v"
  "vc_route_set (snd (vc_remove_flit v)) = vc_route_set v"
  "vc_out_port (snd (vc_remove_flit v)) = vc_out_port v" "vc_out_vc (snd (vc_remove_flit v)) = vc_out_vc v"
  "vc_buffer (snd (vc_remove_flit v)) = tl (vc_buffer v)"
  by (simp_all add: vc_remove_flit_def split: list.splits)

definition vc_nxt :: "vc \<Rightarrow> (flit \<times> vc) option" where
  "vc_nxt v = (case vc_remove_flit v of (None, _) \<Rightarrow> None | (Some f, v') \<Rightarrow> Some (f, v'))"

interpretation vc_source: fifo_source "\<lambda>_. True" vc_buffer "\<lambda>v. \<not> vc_empty v" vc_nxt
  by unfold_locales (auto simp: vc_empty_def vc_nxt_def vc_remove_flit_def)

end
