(* ===== verification/CreditFlow.thy ===== *)
theory CreditFlow
  imports BufferState VChannel
begin

text \<open>
  A link between two routers: the sender's \<open>BufferState\<close>, the flits on the wire, the receiver's
  virtual channels and the credits on their way back.  The steps are those the routers take
  (iq_router.cpp): a packet takes a buffer that is available (\<open>_VCAlloc\<close>), a flit is sent on a taken
  buffer that is not full (\<open>_SWAlloc\<close>), a flit arrives (\<open>_InputQueuing\<close>), the receiver forwards a
  flit and returns a credit for its channel (\<open>_SWAlloc\<close>), a credit is processed
  (\<open>_InputQueuing\<close>).  Wire and credits are FIFO.
\<close>

record link =
  lk_up :: buffer_state
  lk_wire :: "flit list"
  lk_down :: "vc list"
  lk_back :: "credit list"

definition new_link :: "noc_config \<Rightarrow> int \<Rightarrow> int \<Rightarrow> nat \<Rightarrow> link option" where
  "new_link c ratio net outputs = do {
     b \<leftarrow> bs_init c ratio net;
     Some \<lparr>lk_up = b, lk_wire = [], lk_down = replicate (bs_vcs b) (vc_init (nc_vc_buf_size c) outputs),
           lk_back = []\<rparr>
   }"

definition link_take :: "int \<Rightarrow> link \<Rightarrow> link option" where
  "link_take v l = do {
     av \<leftarrow> is_available_for (lk_up l) v;
     ensure av;
     b \<leftarrow> take_buffer v (lk_up l);
     Some (l\<lparr>lk_up := b\<rparr>)
   }"

definition link_send :: "flit \<Rightarrow> link \<Rightarrow> link option" where
  "link_send f l = do {
     av \<leftarrow> is_available_for (lk_up l) (fl_vc f);
     full \<leftarrow> is_full_for (lk_up l) (fl_vc f);
     ensure (\<not> av \<and> \<not> full);
     b \<leftarrow> sending_flit f (lk_up l);
     Some (l\<lparr>lk_up := b, lk_wire := lk_wire l @ [f]\<rparr>)
   }"

definition link_arrive :: "link \<Rightarrow> link option" where
  "link_arrive l =
     (case lk_wire l of
        [] \<Rightarrow> Some l
      | f # w \<Rightarrow> do {
          let i = nat (fl_vc f);
          ensure (0 \<le> fl_vc f \<and> i < length (lk_down l));
          (case vc_add_flit f (lk_down l ! i) of
             (ok, v) \<Rightarrow> if ok then Some (l\<lparr>lk_wire := w, lk_down := (lk_down l)[i := v]\<rparr>) else None) })"

definition link_forward :: "nat \<Rightarrow> link \<Rightarrow> link option" where
  "link_forward i l = do {
     ensure (i < length (lk_down l));
     (case vc_remove_flit (lk_down l ! i) of
        (None, _) \<Rightarrow> Some l
      | (Some f, v) \<Rightarrow> do {
          c \<leftarrow> credit_push (fl_vc f) (new_credit (bs_vcs (lk_up l)));
          Some (l\<lparr>lk_down := (lk_down l)[i := v], lk_back := lk_back l @ [c]\<rparr>) })
   }"

definition link_credit :: "link \<Rightarrow> link option" where
  "link_credit l =
     (case lk_back l of
        [] \<Rightarrow> Some l
      | c # cs \<Rightarrow> do {
          b \<leftarrow> process_credit c (lk_up l);
          Some (l\<lparr>lk_up := b, lk_back := cs\<rparr>) })"

inductive link_step :: "link \<Rightarrow> link \<Rightarrow> bool" where
  step_take: "link_take v l = Some l' \<Longrightarrow> link_step l l'"
| step_send: "link_send f l = Some l' \<Longrightarrow> link_step l l'"
| step_arrive: "link_arrive l = Some l' \<Longrightarrow> link_step l l'"
| step_forward: "link_forward i l = Some l' \<Longrightarrow> link_step l l'"
| step_credit: "link_credit l = Some l' \<Longrightarrow> link_step l l'"

inductive link_reach :: "link \<Rightarrow> link \<Rightarrow> bool" for l0 where
  reach_init: "link_reach l0 l0"
| reach_step: "link_reach l0 l \<Longrightarrow> link_step l l' \<Longrightarrow> link_reach l0 l'"

subsection \<open>Conservation of buffer slots\<close>

definition on_wire :: "nat \<Rightarrow> flit list \<Rightarrow> nat" where
  "on_wire i w = length (filter (\<lambda>f. fl_vc f = int i) w)"

definition coming_back :: "nat \<Rightarrow> credit list \<Rightarrow> nat" where
  "coming_back i cs = length (filter (\<lambda>v. v = int i) (concat (map cr_vc cs)))"

definition link_inv :: "link \<Rightarrow> bool" where
  [inv_defs]: "link_inv l \<longleftrightarrow>
     bs_inv (lk_up l) \<and> length (lk_down l) = bs_vcs (lk_up l) \<and>
     (\<forall>f \<in> set (lk_wire l). 0 \<le> fl_vc f \<and> nat (fl_vc f) < bs_vcs (lk_up l)) \<and>
     (\<forall>c \<in> set (lk_back l). \<exists>i < bs_vcs (lk_up l). cr_vc c = [int i]) \<and>
     (\<forall>i < bs_vcs (lk_up l).
        vc_size (lk_down l ! i) = bs_buf_size (lk_up l) \<and>
        (\<forall>f \<in> set (vc_buffer (lk_down l ! i)). fl_vc f = int i) \<and>
        bs_cur_occupied (lk_up l) ! i =
          int (on_wire i (lk_wire l) + length (vc_buffer (lk_down l ! i)) + coming_back i (lk_back l)) \<and>
        (bs_wait_for_tail_credit (lk_up l) \<longrightarrow> \<not> bs_in_use (lk_up l) ! i \<longrightarrow> bs_cur_occupied (lk_up l) ! i = 0))"

lemmas wire_simps = on_wire_def coming_back_def

lemma link_invD:
  assumes "link_inv l" "i < bs_vcs (lk_up l)"
  shows "vc_size (lk_down l ! i) = bs_buf_size (lk_up l)"
    "\<forall>f \<in> set (vc_buffer (lk_down l ! i)). fl_vc f = int i"
    "bs_cur_occupied (lk_up l) ! i =
       int (on_wire i (lk_wire l) + length (vc_buffer (lk_down l ! i)) + coming_back i (lk_back l))"
    "bs_wait_for_tail_credit (lk_up l) \<Longrightarrow> \<not> bs_in_use (lk_up l) ! i \<Longrightarrow> bs_cur_occupied (lk_up l) ! i = 0"
    "bs_cur_occupied (lk_up l) ! i \<le> bs_buf_size (lk_up l)"
    "0 \<le> bs_cur_occupied (lk_up l) ! i"
    "i < length (bs_in_use (lk_up l))" "i < length (bs_cur_occupied (lk_up l))"
    "i < length (lk_down l)"
  using assms by (auto simp: link_inv_def bs_inv_def)

lemma link_invI:
  assumes "bs_inv (lk_up l)" "length (lk_down l) = bs_vcs (lk_up l)"
    "\<And>f. f \<in> set (lk_wire l) \<Longrightarrow> 0 \<le> fl_vc f \<and> nat (fl_vc f) < bs_vcs (lk_up l)"
    "\<And>c. c \<in> set (lk_back l) \<Longrightarrow> \<exists>i < bs_vcs (lk_up l). cr_vc c = [int i]"
    "\<And>i. i < bs_vcs (lk_up l) \<Longrightarrow> vc_size (lk_down l ! i) = bs_buf_size (lk_up l)"
    "\<And>i f. i < bs_vcs (lk_up l) \<Longrightarrow> f \<in> set (vc_buffer (lk_down l ! i)) \<Longrightarrow> fl_vc f = int i"
    "\<And>i. i < bs_vcs (lk_up l) \<Longrightarrow> bs_cur_occupied (lk_up l) ! i =
       int (on_wire i (lk_wire l) + length (vc_buffer (lk_down l ! i)) + coming_back i (lk_back l))"
    "\<And>i. i < bs_vcs (lk_up l) \<Longrightarrow> bs_wait_for_tail_credit (lk_up l) \<Longrightarrow> \<not> bs_in_use (lk_up l) ! i \<Longrightarrow>
       bs_cur_occupied (lk_up l) ! i = 0"
  shows "link_inv l"
  using assms by (simp add: link_inv_def)

lemma new_link_inv:
  assumes "new_link c ratio net outputs = Some l" "0 \<le> nc_vc_buf_size c"
  shows "link_inv l"
proof -
  obtain b where b: "bs_init c ratio net = Some b"
    "l = \<lparr>lk_up = b, lk_wire = [], lk_down = replicate (bs_vcs b) (vc_init (nc_vc_buf_size c) outputs),
          lk_back = []\<rparr>"
    using assms(1) by (auto simp: new_link_def elim: bind_SomeE)
  from bs_init_inv[OF b(1) assms(2)] show ?thesis
    unfolding b(2) by (simp add: link_inv_def wire_simps vc_init_def)
qed

lemma link_take_inv:
  assumes "link_inv l" "link_take v l = Some l'"
  shows "link_inv l'"
proof -
  obtain b where b: "take_buffer v (lk_up l) = Some b" "l' = l\<lparr>lk_up := b\<rparr>"
    using assms(2) by (auto simp: link_take_def split: if_splits elim!: bind_SomeE)
  have inv: "bs_inv b" using take_buffer_inv[OF _ b(1)] assms(1) by (simp add: link_inv_def)
  from take_bufferD[OF b(1)] obtain i where i: "i < bs_vcs (lk_up l)"
    "b = (lk_up l)\<lparr>bs_in_use := (bs_in_use (lk_up l))[i := True],
                   bs_tail_sent := (bs_tail_sent (lk_up l))[i := False]\<rparr>" by blast
  note D = link_invD[OF assms(1)]
  show ?thesis
  proof (rule link_invI)
    show "bs_cur_occupied (lk_up l') ! j = 0"
      if "j < bs_vcs (lk_up l')" "bs_wait_for_tail_credit (lk_up l')" "\<not> bs_in_use (lk_up l') ! j" for j
    proof -
      have "\<not> bs_in_use (lk_up l) ! j" using that(3) D(7)[OF i(1)] b(2) i(2) by (cases "j = i") auto
      then show ?thesis using that D(4)[of j] b(2) i(2) by simp
    qed
  qed (use assms(1) inv b(2) i(2) D(3) in \<open>auto simp: link_inv_def\<close>)
qed

lemma on_wire_append: "on_wire i (w @ [f]) = on_wire i w + (if fl_vc f = int i then 1 else 0)"
  by (simp add: on_wire_def)

lemma on_wire_Cons: "on_wire i (f # w) = (if fl_vc f = int i then 1 else 0) + on_wire i w"
  by (simp add: on_wire_def)

lemma coming_back_append:
  "cr_vc c = [int j] \<Longrightarrow> coming_back i (cs @ [c]) = coming_back i cs + (if i = j then 1 else 0)"
  by (simp add: coming_back_def)

lemma coming_back_Cons:
  "cr_vc c = [int j] \<Longrightarrow> coming_back i (c # cs) = (if i = j then 1 else 0) + coming_back i cs"
  by (simp add: coming_back_def)

lemma link_send_inv:
  assumes "link_inv l" "link_send f l = Some l'"
  shows "link_inv l'"
proof -
  obtain b av where b: "sending_flit f (lk_up l) = Some b" "is_available_for (lk_up l) (fl_vc f) = Some av"
    "\<not> av" "l' = l\<lparr>lk_up := b, lk_wire := lk_wire l @ [f]\<rparr>"
    using assms(2) by (auto simp: link_send_def split: if_splits elim!: bind_SomeE)
  have inv: "bs_inv b" using sending_flit_inv[OF _ b(1)] assms(1) by (simp add: link_inv_def)
  from sending_flitD[OF b(1)] obtain i where i: "i < bs_vcs (lk_up l)" "fl_vc f = int i"
    and p: "bs_vcs b = bs_vcs (lk_up l)" "bs_buf_size b = bs_buf_size (lk_up l)"
    "bs_wait_for_tail_credit b = bs_wait_for_tail_credit (lk_up l)"
    "bs_cur_occupied b = (bs_cur_occupied (lk_up l))[i := bs_cur_occupied (lk_up l) ! i + 1]"
    "bs_wait_for_tail_credit (lk_up l) \<longrightarrow> bs_in_use b = bs_in_use (lk_up l)" by auto
  have used: "bs_in_use (lk_up l) ! i" using b(2,3) i by (simp add: is_available_for_int)
  note D = link_invD[OF assms(1)]
  show ?thesis
  proof (rule link_invI)
    show "bs_cur_occupied (lk_up l') ! j = int (on_wire j (lk_wire l') +
        length (vc_buffer (lk_down l' ! j)) + coming_back j (lk_back l'))" if "j < bs_vcs (lk_up l')" for j
      using D(3)[of j] D(8)[OF i(1)] that p b(4) i by (simp add: on_wire_append nth_list_update)
    show "bs_cur_occupied (lk_up l') ! j = 0"
      if "j < bs_vcs (lk_up l')" "bs_wait_for_tail_credit (lk_up l')" "\<not> bs_in_use (lk_up l') ! j" for j
      using D(4)[of j] that p b(4) used by (cases "j = i") auto
  qed (use assms(1) inv p b(4) i in \<open>auto simp: link_inv_def\<close>)
qed

lemma link_arrive_total:
  assumes "link_inv l"
  shows "\<exists>l'. link_arrive l = Some l' \<and> link_inv l'"
proof (cases "lk_wire l")
  case (Cons f w)
  then have "0 \<le> fl_vc f \<and> nat (fl_vc f) < bs_vcs (lk_up l)" using assms unfolding link_inv_def by simp
  then obtain i where i: "i < bs_vcs (lk_up l)" "fl_vc f = int i" by (metis int_nat_eq)
  note D = link_invD[OF assms]
  let ?v = "lk_down l ! i"
  have "on_wire i (lk_wire l) \<ge> 1" using Cons i by (simp add: on_wire_Cons)
  then have room: "int (length (vc_buffer ?v)) \<noteq> vc_size ?v"
    using D(1,3,5)[OF i(1)] by linarith
  then have add: "vc_add_flit f ?v = (True, ?v\<lparr>vc_buffer := vc_buffer ?v @ [f]\<rparr>)"
    by (simp add: vc_add_flit_def)
  let ?l = "l\<lparr>lk_wire := w, lk_down := (lk_down l)[i := ?v\<lparr>vc_buffer := vc_buffer ?v @ [f]\<rparr>]\<rparr>"
  have "link_arrive l = Some ?l"
    using Cons i D(9)[OF i(1)] add by (simp add: link_arrive_def)
  moreover have "link_inv ?l"
  proof (rule link_invI)
    show "bs_cur_occupied (lk_up ?l) ! j = int (on_wire j (lk_wire ?l) +
        length (vc_buffer (lk_down ?l ! j)) + coming_back j (lk_back ?l))" if "j < bs_vcs (lk_up ?l)" for j
      using D(3)[of j] D(9)[OF i(1)] that i Cons by (simp add: on_wire_Cons nth_list_update)
    show "fl_vc g = int j" if "j < bs_vcs (lk_up ?l)" "g \<in> set (vc_buffer (lk_down ?l ! j))" for j g
      using that D(2)[of j] D(9)[OF i(1)] i by (auto simp: nth_list_update split: if_splits)
    show "vc_size (lk_down ?l ! j) = bs_buf_size (lk_up ?l)" if "j < bs_vcs (lk_up ?l)" for j
      using that D(1)[of j] D(9)[OF i(1)] by (simp add: nth_list_update)
  qed (use assms Cons D(4) in \<open>auto simp: link_inv_def\<close>)
  ultimately show ?thesis by blast
qed (use assms in \<open>simp add: link_arrive_def\<close>)

lemma link_forward_inv:
  assumes "link_inv l" "link_forward i l = Some l'"
  shows "link_inv l'"
proof (cases "vc_buffer (lk_down l ! i)")
  case Nil
  then show ?thesis using assms by (auto simp: link_forward_def vc_remove_flit_def split: if_splits)
next
  case (Cons f fs)
  have i: "i < bs_vcs (lk_up l)" using assms by (auto simp: link_forward_def link_inv_def split: if_splits)
  note D = link_invD[OF assms(1)]
  have f: "fl_vc f = int i" using D(2)[OF i] Cons by simp
  let ?v = "lk_down l ! i"
  define c where "c = \<lparr>cr_vc = [int i], cr_max_vcs = bs_vcs (lk_up l)\<rparr>"
  have c: "cr_vc c = [int i]" by (simp add: c_def)
  have "l' = l\<lparr>lk_down := (lk_down l)[i := ?v\<lparr>vc_buffer := fs\<rparr>], lk_back := lk_back l @ [c]\<rparr>"
    using assms(2) Cons f i D(9)[OF i]
    by (simp add: link_forward_def vc_remove_flit_def credit_push_def new_credit_def c_def)
  then have l': "lk_up l' = lk_up l" "lk_wire l' = lk_wire l" "lk_back l' = lk_back l @ [c]"
    "lk_down l' = (lk_down l)[i := ?v\<lparr>vc_buffer := fs\<rparr>]" by simp_all
  show ?thesis
  proof (rule link_invI)
    show "bs_cur_occupied (lk_up l') ! j = int (on_wire j (lk_wire l') +
        length (vc_buffer (lk_down l' ! j)) + coming_back j (lk_back l'))" if "j < bs_vcs (lk_up l')" for j
      using D(3)[of j] D(9)[OF i] that l' Cons by (simp add: coming_back_append[OF c] nth_list_update)
    show "fl_vc g = int j" if "j < bs_vcs (lk_up l')" "g \<in> set (vc_buffer (lk_down l' ! j))" for j g
      using that D(2)[of j] D(9)[OF i] l' Cons by (auto simp: nth_list_update split: if_splits)
    show "vc_size (lk_down l' ! j) = bs_buf_size (lk_up l')" if "j < bs_vcs (lk_up l')" for j
      using that D(1)[of j] D(9)[OF i] l' by (simp add: nth_list_update)
    show "\<exists>k < bs_vcs (lk_up l'). cr_vc d = [int k]" if "d \<in> set (lk_back l')" for d
      using that l' c i assms(1) by (auto simp: link_inv_def)
  qed (use assms(1) l' D(4) in \<open>auto simp: link_inv_def\<close>)
qed

lemma link_credit_total:
  assumes "link_inv l"
  shows "\<exists>l'. link_credit l = Some l' \<and> link_inv l'"
proof (cases "lk_back l")
  case (Cons c cs)
  then obtain i where i: "i < bs_vcs (lk_up l)" "cr_vc c = [int i]"
    using assms by (auto simp: link_inv_def)
  note D = link_invD[OF assms]
  have pos: "0 < bs_cur_occupied (lk_up l) ! i"
    using D(3)[OF i(1)] Cons by (simp add: coming_back_Cons[OF i(2)])
  have used: "bs_wait_for_tail_credit (lk_up l) \<Longrightarrow> bs_in_use (lk_up l) ! i" using D(4)[OF i(1)] pos by force
  obtain b where b: "process_credit_vc (int i) (lk_up l) = Some b"
    using pos used i(1) by (auto simp: process_credit_vc_def bs_vc_int Let_def)
  then have "link_credit l = Some (l\<lparr>lk_up := b, lk_back := cs\<rparr>)"
    using Cons i by (simp add: link_credit_def process_credit_def)
  moreover have "link_inv (l\<lparr>lk_up := b, lk_back := cs\<rparr>)"
  proof -
    have inv: "bs_inv b" using process_credit_vc_inv[OF _ b] assms by (simp add: link_inv_def)
    from bs_stepD[OF b] have p: "bs_vcs b = bs_vcs (lk_up l)" "bs_buf_size b = bs_buf_size (lk_up l)"
      "bs_wait_for_tail_credit b = bs_wait_for_tail_credit (lk_up l)"
      "bs_cur_occupied b = (bs_cur_occupied (lk_up l))[i := bs_cur_occupied (lk_up l) ! i - 1]"
      "bs_in_use b = bs_in_use (lk_up l) \<or>
       bs_in_use b = (bs_in_use (lk_up l))[i := False] \<and> bs_cur_occupied (lk_up l) ! i = 1" by auto
    show ?thesis
    proof (rule link_invI, goal_cases)
      case (7 j)
      then show ?case using D(3)[of j] D(8)[OF i(1)] p Cons
        by (simp add: coming_back_Cons[OF i(2)] nth_list_update)
    next
      case (8 j)
      show ?case
      proof (cases "j = i")
        case True
        then show ?thesis using 8 p used D(8)[OF i(1)] D(7)[OF i(1)] by auto
      next
        case False
        then show ?thesis using 8 p D(4)[of j] by auto
      qed
    qed (use assms inv p Cons in \<open>auto simp: link_inv_def\<close>)
  qed
  ultimately show ?thesis by blast
qed (use assms in \<open>simp add: link_credit_def\<close>)

lemma link_step_inv:
  assumes "link_step l l'" "link_inv l"
  shows "link_inv l'"
  using assms(1)
proof cases
  case step_arrive
  then show ?thesis using link_arrive_total[OF assms(2)] by simp
next
  case step_credit
  then show ?thesis using link_credit_total[OF assms(2)] by simp
qed (use assms(2) link_take_inv link_send_inv link_forward_inv in \<open>blast+\<close>)

lemma link_reach_inv:
  assumes "link_reach l0 l" "link_inv l0"
  shows "link_inv l"
  using assms
proof induction
  case (reach_step l l')
  then show ?case using link_step_inv[of l l'] by blast
qed

text \<open>C6: Credit flow control is safe: in every state a link reaches, whatever order sends,
  arrivals, forwards and credits come in, the next arriving flit finds room in its virtual
  channel, the next credit is processed without an error, no virtual channel holds more than
  \<open>vc_buf_size\<close> flits, and the sender's occupancy of a buffer is the number of flits on the wire,
  in the buffer and of credits on their way back.\<close>

theorem credit_flow_safe:
  assumes "new_link c ratio net outputs = Some l0" "0 \<le> nc_vc_buf_size c" "link_reach l0 l"
  shows "link_arrive l \<noteq> None \<and> link_credit l \<noteq> None \<and>
    (\<forall>i < bs_vcs (lk_up l). int (length (vc_buffer (lk_down l ! i))) \<le> vc_size (lk_down l ! i) \<and>
       bs_cur_occupied (lk_up l) ! i =
         int (on_wire i (lk_wire l) + length (vc_buffer (lk_down l ! i)) + coming_back i (lk_back l)))"
proof -
  have inv: "link_inv l" using link_reach_inv[OF assms(3)] new_link_inv[OF assms(1,2)] by simp
  note D = link_invD[OF inv]
  have "int (length (vc_buffer (lk_down l ! i))) \<le> vc_size (lk_down l ! i)" if "i < bs_vcs (lk_up l)" for i
    using D(1,3,5)[OF that] by linarith
  then show ?thesis using link_arrive_total[OF inv] link_credit_total[OF inv] D(3) by auto
qed

theorem credit_flow_safe_witness:
  "\<exists>l0 l. link_reach l0 l \<and> link_arrive l \<noteq> None \<and> lk_wire l \<noteq> []"
proof -
  let ?c = "\<lparr>nc_vc_buf_size = 1, nc_num_vcs = 1, nc_wait_for_tail_credit = 1\<rparr>"
  let ?f = "\<lparr>fl_data = 0, fl_net_num = 0, fl_vc = 0, fl_head = True, fl_tail = True, fl_true_tail = True,
    fl_time = 0, fl_sn = 0, fl_rob_time = 0, fl_id = 0, fl_record = False, fl_src = 0, fl_dest = 1, fl_pri = 0,
    fl_hops = 0, fl_watch = False, fl_intm = 0, fl_ph = 0, fl_dr = 0, fl_ring_par = 0, fl_FlitsSta = 0\<rparr>"
  obtain l0 where l0: "new_link ?c 0 0 1 = Some l0"
    and l0': "lk_up l0 = \<lparr>bs_wait_for_tail_credit = True, bs_buf_size = 1, bs_vcs = 1, bs_last_avail = 0,
      bs_in_use = [False], bs_tail_sent = [False], bs_cur_occupied = [0]\<rparr>" "lk_wire l0 = []"
    by (simp add: new_link_def bs_init_def network_vcs_def)
  obtain l1 where l1: "link_take 0 l0 = Some l1" "lk_wire l1 = []"
    and l1': "lk_up l1 = (lk_up l0)\<lparr>bs_in_use := [True]\<rparr>"
    using l0' by (simp add: link_take_def is_available_for_def take_buffer_def bs_vc_def)
  obtain l2 where l2: "link_send ?f l1 = Some l2" "lk_wire l2 = [?f]"
    using l0' l1' l1 by (simp add: link_send_def is_available_for_def is_full_for_def sending_flit_def bs_vc_def)
  have "link_reach l0 l2"
    by (rule reach_step[OF reach_step[OF reach_init step_take[OF l1(1)]] step_send[OF l2(1)]])
  moreover from this have "link_arrive l2 \<noteq> None" using credit_flow_safe[OF l0, of l2] by simp
  ultimately show ?thesis using l2(2) by (intro exI[of _ l0] exI[of _ l2]) simp
qed

end
