(* ===== verification/Matching.thy ===== *)
theory Matching
  imports StdMap
begin

text \<open>
  The base class of the allocators, \<open>Allocator\<close> (\<open>src/intersim/allocator.cpp\<close>): a matching of
  inputs to outputs, \<open>_inmatch\<close> and \<open>_outmatch\<close>, with \<open>None\<close> for the \<open>-1\<close> of "not matched".
  The derived classes extend the record as they extend the class.  The arrays are unset until the
  first \<open>Allocate\<close> clears them; here they start empty.

  The locale \<open>matcher\<close> is the contract an allocator gives the router, and the last section holds
  the list operations the allocators and the arbiter share: lists ordered by a key into which a
  request is inserted before the first that is not smaller, and the round robin visit of such a
  list from an offset.
\<close>

record alloc_base =
  al_inputs :: nat
  al_outputs :: nat
  al_inmatch :: "nat option list"
  al_outmatch :: "nat option list"
  al_outmask :: "int list"

definition clear_matching :: "'a alloc_base_scheme \<Rightarrow> 'a alloc_base_scheme" where
  "clear_matching s =
     s\<lparr>al_inmatch := replicate (al_inputs s) None, al_outmatch := replicate (al_outputs s) None\<rparr>"

definition output_assigned :: "'a alloc_base_scheme \<Rightarrow> nat \<Rightarrow> nat option option" where
  "output_assigned s i = do { ensure (i < al_inputs s); Some (al_inmatch s ! i) }"

definition input_assigned :: "'a alloc_base_scheme \<Rightarrow> nat \<Rightarrow> nat option option" where
  "input_assigned s j = do { ensure (j < al_outputs s); Some (al_outmatch s ! j) }"

definition mask_output :: "nat \<Rightarrow> int \<Rightarrow> 'a alloc_base_scheme \<Rightarrow> 'a alloc_base_scheme option" where
  "mask_output j mk s = do {
     ensure (j < al_outputs s);
     Some (s\<lparr>al_outmask := (al_outmask s)[j := mk]\<rparr>)
   }"

text \<open>\<open>_inmatch[input] = output; _outmatch[output] = input\<close>.\<close>

definition set_match :: "nat \<Rightarrow> nat \<Rightarrow> 'a alloc_base_scheme \<Rightarrow> 'a alloc_base_scheme" where
  "set_match i j s = s\<lparr>al_inmatch := (al_inmatch s)[i := Some j], al_outmatch := (al_outmatch s)[j := Some i]\<rparr>"

lemma set_match_fields [simp]:
  "al_inputs (set_match i j s) = al_inputs s" "al_outputs (set_match i j s) = al_outputs s"
  "al_inmatch (set_match i j s) = (al_inmatch s)[i := Some j]"
  "al_outmatch (set_match i j s) = (al_outmatch s)[j := Some i]"
  "alloc_base.more (set_match i j s) = alloc_base.more s"
  by (simp_all add: set_match_def)

lemma clear_matching_fields [simp]:
  "al_inputs (clear_matching s) = al_inputs s" "al_outputs (clear_matching s) = al_outputs s"
  "al_inmatch (clear_matching s) = replicate (al_inputs s) None"
  "al_outmatch (clear_matching s) = replicate (al_outputs s) None"
  "alloc_base.more (clear_matching s) = alloc_base.more s"
  by (simp_all add: clear_matching_def)

subsection \<open>Matchings\<close>

definition legal_matching :: "(nat \<Rightarrow> nat \<Rightarrow> bool) \<Rightarrow> 'a alloc_base_scheme \<Rightarrow> bool" where
  "legal_matching req s \<longleftrightarrow>
     length (al_inmatch s) = al_inputs s \<and> length (al_outmatch s) = al_outputs s \<and>
     (\<forall>i < al_inputs s. \<forall>j. al_inmatch s ! i = Some j \<longrightarrow>
        j < al_outputs s \<and> req i j \<and> al_outmatch s ! j = Some i) \<and>
     (\<forall>j < al_outputs s. \<forall>i. al_outmatch s ! j = Some i \<longrightarrow>
        i < al_inputs s \<and> al_inmatch s ! i = Some j)"

definition maximal_matching :: "(nat \<Rightarrow> nat \<Rightarrow> bool) \<Rightarrow> 'a alloc_base_scheme \<Rightarrow> bool" where
  "maximal_matching req s \<longleftrightarrow>
     (\<forall>i < al_inputs s. \<forall>j < al_outputs s. req i j \<longrightarrow>
        al_inmatch s ! i \<noteq> None \<or> al_outmatch s ! j \<noteq> None)"

lemma legal_clear: "legal_matching req (clear_matching s)"
  by (simp add: legal_matching_def)

lemma legal_lengths:
  "legal_matching req s \<Longrightarrow> length (al_inmatch s) = al_inputs s"
  "legal_matching req s \<Longrightarrow> length (al_outmatch s) = al_outputs s"
  by (simp_all add: legal_matching_def)

lemma legal_in:
  "legal_matching req s \<Longrightarrow> i < al_inputs s \<Longrightarrow> al_inmatch s ! i = Some j \<Longrightarrow>
     j < al_outputs s \<and> req i j \<and> al_outmatch s ! j = Some i"
  unfolding legal_matching_def by blast

lemma legal_out:
  "legal_matching req s \<Longrightarrow> j < al_outputs s \<Longrightarrow> al_outmatch s ! j = Some i \<Longrightarrow>
     i < al_inputs s \<and> al_inmatch s ! i = Some j \<and> req i j"
  unfolding legal_matching_def by blast

lemma legal_set_match:
  assumes "legal_matching req s" "i < al_inputs s" "j < al_outputs s" "req i j"
    "al_inmatch s ! i = None" "al_outmatch s ! j = None"
  shows "legal_matching req (set_match i j s)"
proof -
  note l = legal_lengths[OF assms(1)]
  have 1: "j' < al_outputs s \<and> req i' j' \<and> (al_outmatch s)[j := Some i] ! j' = Some i'"
    if "i' < al_inputs s" "(al_inmatch s)[i := Some j] ! i' = Some j'" for i' j'
  proof (cases "i' = i")
    case True
    then show ?thesis using that assms l by simp
  next
    case False
    then have "al_inmatch s ! i' = Some j'" using that by simp
    from legal_in[OF assms(1) that(1) this] show ?thesis using assms(6) by (cases "j' = j") auto
  qed
  have 2: "i' < al_inputs s \<and> (al_inmatch s)[i := Some j] ! i' = Some j'"
    if "j' < al_outputs s" "(al_outmatch s)[j := Some i] ! j' = Some i'" for i' j'
  proof (cases "j' = j")
    case True
    then show ?thesis using that assms l by simp
  next
    case False
    then have "al_outmatch s ! j' = Some i'" using that by simp
    from legal_out[OF assms(1) that(1) this] show ?thesis using assms(5) by (cases "i' = i") auto
  qed
  show ?thesis unfolding legal_matching_def set_match_fields length_list_update using l 1 2 by blast
qed

lemma legal_matching_more:
  assumes "legal_matching req s" "al_inputs t = al_inputs s" "al_outputs t = al_outputs s"
    "al_inmatch t = al_inmatch s" "al_outmatch t = al_outmatch s"
  shows "legal_matching req t"
  using assms unfolding legal_matching_def by metis

subsection \<open>Phases of a matching\<close>

text \<open>The part of the state a matching consists of.\<close>

definition same_match :: "'a alloc_base_scheme \<Rightarrow> 'b alloc_base_scheme \<Rightarrow> bool" where
  "same_match s t \<longleftrightarrow> al_inputs t = al_inputs s \<and> al_outputs t = al_outputs s \<and>
     al_inmatch t = al_inmatch s \<and> al_outmatch t = al_outmatch s"

lemma same_match_refl [simp]: "same_match s s"
  by (simp add: same_match_def)

lemma legal_same_match: "same_match s t \<Longrightarrow> legal_matching req s \<Longrightarrow> legal_matching req t"
  by (rule legal_matching_more) (simp_all add: same_match_def)

text \<open>
  A phase in which each port of a list makes at most one match, all of them between partners that
  are free at the beginning and no two with a common partner.
\<close>

lemma match_fold_legal:
  fixes s :: "'a alloc_base_scheme" and step :: "'x \<Rightarrow> 'a alloc_base_scheme \<Rightarrow> 'a alloc_base_scheme"
  assumes "legal_matching req s" "distinct xs"
    "\<And>x i j. x \<in> set xs \<Longrightarrow> g x i j \<Longrightarrow> i < al_inputs s \<and> j < al_outputs s \<and> req i j \<and>
       al_inmatch s ! i = None \<and> al_outmatch s ! j = None"
    "\<And>x y i j i' j'. x \<in> set xs \<Longrightarrow> y \<in> set xs \<Longrightarrow> x \<noteq> y \<Longrightarrow> g x i j \<Longrightarrow> g y i' j' \<Longrightarrow> i \<noteq> i' \<and> j \<noteq> j'"
    "\<And>x t. x \<in> set xs \<Longrightarrow> P t \<Longrightarrow> P (step x t) \<and>
       (same_match t (step x t) \<or> (\<exists>i j. g x i j \<and> same_match (set_match i j t) (step x t)))"
    "P s"
  shows "legal_matching req (fold step xs s) \<and> P (fold step xs s) \<and>
    al_inputs (fold step xs s) = al_inputs s \<and> al_outputs (fold step xs s) = al_outputs s"
  using assms
proof (induction xs arbitrary: s)
  case (Cons x xs)
  note p = Cons.prems
  have step: "P (step x s)"
    "same_match s (step x s) \<or> (\<exists>i j. g x i j \<and> same_match (set_match i j s) (step x s))"
    using p(5)[of x s] p(6) by auto
  have "legal_matching req (step x s) \<and> al_inputs (step x s) = al_inputs s \<and>
    al_outputs (step x s) = al_outputs s \<and>
    (\<forall>y \<in> set xs. \<forall>i j. g y i j \<longrightarrow> al_inmatch (step x s) ! i = None \<and> al_outmatch (step x s) ! j = None)"
    using step(2)
  proof (elim disjE exE conjE)
    assume "same_match s (step x s)"
    moreover have "\<forall>y \<in> set xs. \<forall>i j. g y i j \<longrightarrow> al_inmatch s ! i = None \<and> al_outmatch s ! j = None"
      using p(3) by (meson list.set_intros(2))
    ultimately show ?thesis using legal_same_match[OF _ p(1), of "step x s"]
      unfolding same_match_def by simp
  next
    fix i j assume g: "g x i j" and m: "same_match (set_match i j s) (step x s)"
    have "i < al_inputs s" "j < al_outputs s" "req i j" "al_inmatch s ! i = None" "al_outmatch s ! j = None"
      using p(3)[of x, OF _ g] by auto
    from legal_set_match[OF p(1) this] have "legal_matching req (step x s)"
      using legal_same_match[OF m] by simp
    moreover have "al_inmatch (step x s) ! i' = None \<and> al_outmatch (step x s) ! j' = None"
      if "y \<in> set xs" "g y i' j'" for y i' j'
    proof -
      have "x \<noteq> y" using that p(2) by auto
      then have "i \<noteq> i' \<and> j \<noteq> j'" using p(4)[of x y, OF _ _ _ g that(2)] that by simp
      with p(3)[of y, OF _ that(2)] that m show ?thesis by (simp add: same_match_def)
    qed
    ultimately show ?thesis using m by (simp add: same_match_def)
  qed
  then have t: "legal_matching req (step x s)" "al_inputs (step x s) = al_inputs s"
    "al_outputs (step x s) = al_outputs s"
    "\<And>y i j. y \<in> set xs \<Longrightarrow> g y i j \<Longrightarrow> al_inmatch (step x s) ! i = None \<and> al_outmatch (step x s) ! j = None"
    by auto
  have "legal_matching req (fold step xs (step x s)) \<and> P (fold step xs (step x s)) \<and>
    al_inputs (fold step xs (step x s)) = al_inputs (step x s) \<and>
    al_outputs (fold step xs (step x s)) = al_outputs (step x s)"
  proof (rule Cons.IH[OF t(1)])
    show "distinct xs" using p(2) by simp
    show "P (step x s)" by (rule step(1))
    show "i < al_inputs (step x s) \<and> j < al_outputs (step x s) \<and> req i j \<and>
       al_inmatch (step x s) ! i = None \<and> al_outmatch (step x s) ! j = None"
      if "y \<in> set xs" "g y i j" for y i j
      using p(3)[of y, OF _ that(2)] that t by simp
    show "i \<noteq> i' \<and> j \<noteq> j'" if "y \<in> set xs" "z \<in> set xs" "y \<noteq> z" "g y i j" "g z i' j'" for y z i j i' j'
      using p(4)[of y z, OF _ _ that(3,4,5)] that by simp
    show "P (step y u) \<and> (same_match u (step y u) \<or> (\<exists>i j. g y i j \<and> same_match (set_match i j u) (step y u)))"
      if "y \<in> set xs" "P u" for y u
      using p(5)[of y u] that by simp
  qed
  then show ?case using t by simp
qed simp

subsection \<open>The contract of an allocator\<close>

locale matcher =
  fixes ok :: "'s \<Rightarrow> bool"
    and req :: "'s \<Rightarrow> nat \<Rightarrow> nat \<Rightarrow> bool"
    and base :: "'s \<Rightarrow> alloc_base"
    and allocate :: "'s \<Rightarrow> 's"
  assumes allocate_ok: "ok s \<Longrightarrow> ok (allocate s)"
    and allocate_req: "ok s \<Longrightarrow> req (allocate s) = req s"
    and allocate_size: "ok s \<Longrightarrow> al_inputs (base (allocate s)) = al_inputs (base s) \<and>
           al_outputs (base (allocate s)) = al_outputs (base s)"
    and allocate_legal: "ok s \<Longrightarrow> legal_matching (req s) (base (allocate s))"
begin

lemma granted_requested:
  assumes "ok s" "input_assigned (base (allocate s)) j = Some (Some i)"
  shows "req s i j \<and> i < al_inputs (base s) \<and> output_assigned (base (allocate s)) i = Some (Some j)"
  using legal_out[OF allocate_legal[OF assms(1)], of j i] assms(2) allocate_size[OF assms(1)]
  by (auto simp: input_assigned_def output_assigned_def split: if_splits)

lemma granted_requested_in:
  assumes "ok s" "output_assigned (base (allocate s)) i = Some (Some j)"
  shows "req s i j \<and> j < al_outputs (base s) \<and> input_assigned (base (allocate s)) j = Some (Some i)"
  using legal_in[OF allocate_legal[OF assms(1)], of i j] assms(2) allocate_size[OF assms(1)]
  by (auto simp: input_assigned_def output_assigned_def split: if_splits)

lemma one_output_per_input:
  assumes "ok s" "input_assigned (base (allocate s)) j = Some (Some i)"
    "input_assigned (base (allocate s)) j' = Some (Some i)"
  shows "j = j'"
  using granted_requested[OF assms(1,2)] granted_requested[OF assms(1,3)] by simp

lemma one_input_per_output:
  assumes "ok s" "output_assigned (base (allocate s)) i = Some (Some j)"
    "output_assigned (base (allocate s)) i' = Some (Some j)"
  shows "i = i'"
  using granted_requested_in[OF assms(1,2)] granted_requested_in[OF assms(1,3)] by simp

end

subsection \<open>Lists ordered by a key\<close>

text \<open>\<open>while( p != end && p->key < k ) p++\<close> and what is found there.\<close>

fun lb_find :: "('r \<Rightarrow> nat) \<Rightarrow> nat \<Rightarrow> 'r list \<Rightarrow> 'r option" where
  "lb_find key k [] = None"
| "lb_find key k (x # xs) = (if key x < k then lb_find key k xs else Some x)"

text \<open>The same walk, then \<open>insert\<close> before the position if \<open>add\<close> and \<open>erase\<close> of the element that was
  there if \<open>del\<close>.\<close>

fun lb_insert :: "('r \<Rightarrow> nat) \<Rightarrow> nat \<Rightarrow> bool \<Rightarrow> bool \<Rightarrow> 'r \<Rightarrow> 'r list \<Rightarrow> 'r list" where
  "lb_insert key k add del r [] = (if add then [r] else [])"
| "lb_insert key k add del r (x # xs) =
     (if key x < k then x # lb_insert key k add del r xs
      else (if add then [r] else []) @ (if del then xs else x # xs))"

text \<open>\<open>while( p != end && p->key != k ) p++; assert( p != end ); erase( p )\<close>.\<close>

fun key_erase :: "('r \<Rightarrow> nat) \<Rightarrow> nat \<Rightarrow> 'r list \<Rightarrow> 'r list option" where
  "key_erase key k [] = None"
| "key_erase key k (x # xs) = (if key x \<noteq> k then map_option ((#) x) (key_erase key k xs) else Some xs)"

abbreviation ordered_by :: "('r \<Rightarrow> nat) \<Rightarrow> 'r list \<Rightarrow> bool" where
  "ordered_by key l \<equiv> sorted_wrt (\<lambda>x y. key x < key y) l"

definition key_find :: "('r \<Rightarrow> nat) \<Rightarrow> nat \<Rightarrow> 'r list \<Rightarrow> 'r option" where
  "key_find key k l = find (\<lambda>x. key x = k) l"

lemma key_find_simps [simp]:
  "key_find key k [] = None"
  "key_find key k (x # xs) = (if key x = k then Some x else key_find key k xs)"
  by (simp_all add: key_find_def)

lemma key_find_Some: "key_find key k l = Some x \<Longrightarrow> x \<in> set l \<and> key x = k"
  by (induction l) (auto split: if_splits)

lemma key_find_None: "key_find key k l = None \<longleftrightarrow> (\<forall>x \<in> set l. key x \<noteq> k)"
  by (induction l) auto

lemma key_find_in: "ordered_by key l \<Longrightarrow> x \<in> set l \<Longrightarrow> key_find key (key x) l = Some x"
  by (induction l) auto

lemma lb_find_key:
  "ordered_by key l \<Longrightarrow>
     key_find key k l = (case lb_find key k l of Some x \<Rightarrow> if key x = k then Some x else None | None \<Rightarrow> None)"
proof (induction l)
  case (Cons x l)
  show ?case
  proof (cases "key x < k")
    case False
    moreover have "key_find key k l = None" if "k \<le> key x"
      using Cons.prems that by (fastforce simp: key_find_None)
    ultimately show ?thesis by auto
  qed (use Cons in simp)
qed simp

lemma lb_insert_find:
  assumes "ordered_by key l" "key r = k" "add \<or> \<not> del" "del \<longrightarrow> key_find key k l \<noteq> None"
    "add \<longrightarrow> del \<or> key_find key k l = None"
  shows "key_find key j (lb_insert key k add del r l) =
           (if j = k \<and> add then Some r else key_find key j l)"
  using assms
proof (induction l)
  case (Cons x l)
  show ?case
  proof (cases "key x < k")
    case True
    then show ?thesis using Cons by auto
  next
    case False
    have n: "k < key x \<Longrightarrow> key_find key k l = None"
      using Cons.prems(1) by (fastforce simp: key_find_None)
    show ?thesis using False n Cons.prems by (cases add; cases del) (auto split: if_splits)
  qed
qed auto

lemma lb_insert_set: "set (lb_insert key k add del r l) \<subseteq> insert r (set l)"
  by (induction l) auto

lemma lb_insert_ordered:
  assumes "ordered_by key l" "key r = k" "del \<longrightarrow> key_find key k l \<noteq> None"
    "add \<longrightarrow> del \<or> key_find key k l = None"
  shows "ordered_by key (lb_insert key k add del r l)"
  using assms
proof (induction l)
  case (Cons x l)
  show ?case
  proof (cases "key x < k")
    case True
    then have "ordered_by key (lb_insert key k add del r l)" using Cons by auto
    then show ?thesis using True Cons.prems(1,2) lb_insert_set[of key k add del r l] by auto
  next
    case False
    have n: "k < key x \<Longrightarrow> key_find key k l = None"
      using Cons.prems(1) by (fastforce simp: key_find_None)
    show ?thesis using False n Cons.prems by (cases add; cases del) (fastforce split: if_splits)+
  qed
qed auto

lemma key_erase_find:
  assumes "ordered_by key l" "key_find key k l \<noteq> None"
  shows "\<exists>l'. key_erase key k l = Some l' \<and> ordered_by key l' \<and> set l' \<subseteq> set l \<and>
    (\<forall>j. key_find key j l' = (if j = k then None else key_find key j l))"
  using assms
proof (induction l)
  case (Cons x l)
  show ?case
  proof (cases "key x = k")
    case True
    then have "key_find key k l = None" using Cons.prems(1) by (fastforce simp: key_find_None)
    then show ?thesis using True Cons.prems(1) by auto
  next
    case False
    with Cons obtain l' where l': "key_erase key k l = Some l'" "ordered_by key l'" "set l' \<subseteq> set l"
      "\<forall>j. key_find key j l' = (if j = k then None else key_find key j l)" by auto
    then show ?thesis using False Cons.prems(1) by auto
  qed
qed simp

text \<open>
  The round robin walks of the arbiters: from the first element whose key is not below the offset
  to the end, then from the beginning on while the key is below the offset; the first element is
  looked at before that test.  (The loop condition reads \<open>p->port\<close> even at \<open>end()\<close>; either way
  the walk stops there.)
\<close>

definition rr_visit :: "('r \<Rightarrow> nat) \<Rightarrow> nat \<Rightarrow> 'r list \<Rightarrow> 'r list" where
  "rr_visit key off l =
     dropWhile (\<lambda>x. key x < off) l @
     (case l of [] \<Rightarrow> [] | x # xs \<Rightarrow> x # takeWhile (\<lambda>x. key x < off) xs)"

lemma set_rr_visit [simp]: "set (rr_visit key off l) = set l"
proof -
  have "set l \<subseteq> set (rr_visit key off l)"
  proof
    fix x assume "x \<in> set l"
    then have "x \<in> set (takeWhile (\<lambda>x. key x < off) l) \<or> x \<in> set (dropWhile (\<lambda>x. key x < off) l)"
      by (metis Un_iff set_append takeWhile_dropWhile_id)
    then show "x \<in> set (rr_visit key off l)" by (cases l) (auto simp: rr_visit_def split: if_splits)
  qed
  moreover have "set (rr_visit key off l) \<subseteq> set l"
    by (cases l) (auto simp: rr_visit_def dest: set_dropWhileD set_takeWhileD split: if_splits)
  ultimately show ?thesis by blast
qed

lemma find_Some_in: "find P l = Some x \<Longrightarrow> x \<in> set l \<and> P x"
  by (induction l) (auto split: if_splits)

end
