(* ===== verification/SparseAlloc.thy ===== *)
theory SparseAlloc
  imports Matching
begin

text \<open>
  \<open>SparseAllocator\<close> (\<open>src/intersim/allocator.cpp\<close>): the requests are kept twice, per input
  ordered by output and per output ordered by input, with the ordered lists of the ports that have
  any.  The abstraction \<open>sp_read\<close> is the partial map from (input, output) to a request that
  \<open>ReadRequest\<close> shows; the operations are refined against updates of that map.
\<close>

record request =
  rq_port :: nat
  rq_label :: int
  rq_in_pri :: int
  rq_out_pri :: int

record sparse = alloc_base +
  sp_in_occ :: "nat list"
  sp_out_occ :: "nat list"
  sp_in_req :: "request list list"
  sp_out_req :: "request list list"

definition sp_clear :: "'a sparse_scheme \<Rightarrow> 'a sparse_scheme" where
  "sp_clear s = s\<lparr>sp_in_req := map (\<lambda>_. []) (sp_in_req s), sp_out_req := map (\<lambda>_. []) (sp_out_req s),
                  sp_in_occ := [], sp_out_occ := []\<rparr>"

definition sp_find_request :: "'a sparse_scheme \<Rightarrow> nat \<Rightarrow> nat \<Rightarrow> request option option" where
  "sp_find_request s i j = do {
     ensure (i < al_inputs s \<and> j < al_outputs s);
     Some (key_find rq_port j (sp_in_req s ! i))
   }"

definition sp_read_request :: "'a sparse_scheme \<Rightarrow> nat \<Rightarrow> nat \<Rightarrow> int option" where
  "sp_read_request s i j = do {
     r \<leftarrow> sp_find_request s i j;
     Some (case r of Some r \<Rightarrow> rq_label r | None \<Rightarrow> - 1)
   }"

text \<open>Insertion into \<open>_in_occ\<close> or \<open>_out_occ\<close>, when the port's list is empty.\<close>

definition occ_insert :: "request list \<Rightarrow> nat \<Rightarrow> nat list \<Rightarrow> nat list option" where
  "occ_insert l k occ =
     (if l = [] then do {
        ensure (lb_find (\<lambda>k. k) k occ \<noteq> Some k);
        Some (lb_insert (\<lambda>k. k) k True False k occ) }
      else Some occ)"

definition sp_add_request ::
  "nat \<Rightarrow> nat \<Rightarrow> int \<Rightarrow> int \<Rightarrow> int \<Rightarrow> 'a sparse_scheme \<Rightarrow> 'a sparse_scheme option" where
  "sp_add_request i j label in_pri out_pri s = do {
     ensure (i < al_inputs s \<and> j < al_outputs s);
     in_occ \<leftarrow> occ_insert (sp_in_req s ! i) i (sp_in_occ s);
     out_occ \<leftarrow> occ_insert (sp_out_req s ! j) j (sp_out_occ s);
     let r = \<lparr>rq_port = j, rq_label = label, rq_in_pri = in_pri, rq_out_pri = out_pri\<rparr>;
     let (del, add) =
       (case lb_find rq_port j (sp_in_req s ! i) of
          Some x \<Rightarrow>
            if rq_port x = j then (if rq_in_pri x < in_pri then (True, True) else (False, False))
            else (False, True)
        | None \<Rightarrow> (False, True));
     ensure (del \<longrightarrow> (case lb_find rq_port i (sp_out_req s ! j) of Some x \<Rightarrow> rq_port x = i | None \<Rightarrow> False));
     Some (s\<lparr>sp_in_occ := in_occ, sp_out_occ := out_occ,
             sp_in_req := (sp_in_req s)[i := lb_insert rq_port j add del r (sp_in_req s ! i)],
             sp_out_req := (sp_out_req s)[j := lb_insert rq_port i add del (r\<lparr>rq_port := i\<rparr>) (sp_out_req s ! j)]\<rparr>)
   }"

text \<open>Removal from \<open>_in_occ\<close> or \<open>_out_occ\<close>, when the port's list has become empty.\<close>

definition occ_remove :: "request list \<Rightarrow> nat \<Rightarrow> nat list \<Rightarrow> nat list option" where
  "occ_remove l k occ = (if l = [] then key_erase (\<lambda>k. k) k occ else Some occ)"

definition sp_remove_request :: "nat \<Rightarrow> nat \<Rightarrow> 'a sparse_scheme \<Rightarrow> 'a sparse_scheme option" where
  "sp_remove_request i j s = do {
     ensure (i < al_inputs s \<and> j < al_outputs s);
     inr \<leftarrow> key_erase rq_port j (sp_in_req s ! i);
     in_occ \<leftarrow> occ_remove inr i (sp_in_occ s);
     outr \<leftarrow> key_erase rq_port i (sp_out_req s ! j);
     out_occ \<leftarrow> occ_remove outr j (sp_out_occ s);
     Some (s\<lparr>sp_in_req := (sp_in_req s)[i := inr], sp_in_occ := in_occ,
             sp_out_req := (sp_out_req s)[j := outr], sp_out_occ := out_occ\<rparr>)
   }"

subsection \<open>The two indices mirror each other\<close>

definition rq_content :: "request \<Rightarrow> int \<times> int \<times> int" where
  "rq_content r = (rq_label r, rq_in_pri r, rq_out_pri r)"

definition sp_read :: "'a sparse_scheme \<Rightarrow> nat \<Rightarrow> nat \<Rightarrow> (int \<times> int \<times> int) option" where
  "sp_read s i j = map_option rq_content (key_find rq_port j (sp_in_req s ! i))"

definition sp_requested :: "'a sparse_scheme \<Rightarrow> nat \<Rightarrow> nat \<Rightarrow> bool" where
  "sp_requested s i j \<longleftrightarrow> i < al_inputs s \<and> j < al_outputs s \<and> sp_read s i j \<noteq> None"

text \<open>One side of the structure: \<open>n\<close> lists of requests to ports below \<open>m\<close>, and their occupied list.\<close>

definition side_ok :: "nat \<Rightarrow> nat \<Rightarrow> request list list \<Rightarrow> nat list \<Rightarrow> bool" where
  "side_ok n m l occ \<longleftrightarrow> length l = n \<and>
     (\<forall>i < n. ordered_by rq_port (l ! i) \<and> (\<forall>r \<in> set (l ! i). rq_port r < m)) \<and>
     ordered_by (\<lambda>k. k) occ \<and> set occ = {i. i < n \<and> l ! i \<noteq> []}"

definition sparse_inv :: "'a sparse_scheme \<Rightarrow> bool" where
  [inv_defs]: "sparse_inv s \<longleftrightarrow>
     side_ok (al_inputs s) (al_outputs s) (sp_in_req s) (sp_in_occ s) \<and>
     side_ok (al_outputs s) (al_inputs s) (sp_out_req s) (sp_out_occ s) \<and>
     (\<forall>i < al_inputs s. \<forall>j < al_outputs s.
        map_option rq_content (key_find rq_port i (sp_out_req s ! j)) = sp_read s i j)"

lemma side_okD:
  assumes "side_ok n m l occ" "i < n"
  shows "ordered_by rq_port (l ! i)" "\<forall>r \<in> set (l ! i). rq_port r < m" "length l = n"
  using assms by (auto simp: side_ok_def)

lemma occ_ok: "side_ok n m l occ \<Longrightarrow> ordered_by (\<lambda>k. k) occ \<and> set occ = {i. i < n \<and> l ! i \<noteq> []}"
  by (simp add: side_ok_def)

lemma side_ok_clear: "side_ok n m l occ \<Longrightarrow> side_ok n m (map (\<lambda>_. []) l) []"
  by (auto simp: side_ok_def)

lemma sp_clear_inv: "sparse_inv s \<Longrightarrow> sparse_inv (sp_clear s) \<and> \<not> sp_requested (sp_clear s) i j"
  by (auto simp: sparse_inv_def sp_clear_def sp_requested_def sp_read_def side_ok_clear side_ok_def)

lemma key_find_id: "key_find (\<lambda>k. k) k l = (if k \<in> set l then Some k else None)"
  by (induction l) auto

lemma in_by_key: "x \<in> set l \<longleftrightarrow> key_find (\<lambda>k. k) x l \<noteq> None"
  by (simp add: key_find_id)

lemma occ_insert_ok:
  assumes "side_ok n m l occ" "i < n" "occ_insert (l ! i) i occ = Some occ'" "xs \<noteq> []"
    "ordered_by rq_port xs" "\<forall>r \<in> set xs. rq_port r < m"
  shows "side_ok n m (l[i := xs]) occ'"
proof -
  have i: "i < length l" using assms(1,2) by (simp add: side_ok_def)
  have s: "ordered_by (\<lambda>k. k) occ'" "set occ' = insert i (set occ)"
  proof (atomize (full), cases "l ! i = []")
    case True
    then have n: "i \<notin> set occ" using occ_ok[OF assms(1)] by auto
    then have f: "key_find (\<lambda>k. k) i occ = None" by (simp add: key_find_id)
    have o: "occ' = lb_insert (\<lambda>k. k) i True False i occ" using assms(3) True by (simp add: occ_insert_def split: if_splits)
    have "ordered_by (\<lambda>k. k) occ'" unfolding o using occ_ok[OF assms(1)] f by (intro lb_insert_ordered) simp_all
    moreover have "x \<in> set occ' \<longleftrightarrow> x = i \<or> x \<in> set occ" for x
      using lb_insert_find[of "\<lambda>k. k" occ i i True False x] occ_ok[OF assms(1)] f
      unfolding o in_by_key[of x] by simp
    ultimately show "ordered_by (\<lambda>k. k) occ' \<and> set occ' = insert i (set occ)" by blast
  next
    case False
    then show "ordered_by (\<lambda>k. k) occ' \<and> set occ' = insert i (set occ)"
      using assms(2,3) occ_ok[OF assms(1)] by (auto simp: occ_insert_def)
  qed
  have "set occ' = {k. k < n \<and> l[i := xs] ! k \<noteq> []}"
    using s(2) occ_ok[OF assms(1)] assms(2,4) i by (auto simp: nth_list_update)
  then show ?thesis
    using s(1) assms(1,5,6) i by (auto simp: side_ok_def nth_list_update)
qed

lemma occ_insert_total:
  assumes "side_ok n m l occ" "i < n"
  shows "\<exists>occ'. occ_insert (l ! i) i occ = Some occ'"
proof (cases "l ! i = []")
  case True
  then have "i \<notin> set occ" using occ_ok[OF assms(1)] by auto
  then have f: "key_find (\<lambda>k. k) i occ = None" by (simp add: key_find_id)
  have "lb_find (\<lambda>k. k) i occ \<noteq> Some i"
  proof
    assume "lb_find (\<lambda>k. k) i occ = Some i"
    then have "key_find (\<lambda>k. k) i occ = Some i"
      unfolding lb_find_key[OF conjunct1[OF occ_ok[OF assms(1)]]] by simp
    with f show False by simp
  qed
  with True show ?thesis by (simp add: occ_insert_def)
qed (simp add: occ_insert_def)

lemma occ_remove_ok:
  assumes "side_ok n m l occ" "i < n" "l ! i \<noteq> []"
    "ordered_by rq_port xs" "\<forall>r \<in> set xs. rq_port r < m"
  shows "\<exists>occ'. occ_remove xs i occ = Some occ' \<and> side_ok n m (l[i := xs]) occ'"
proof -
  have i: "i < length l" using assms(1,2) by (simp add: side_ok_def)
  have o: "ordered_by (\<lambda>k. k) occ" "set occ = {k. k < n \<and> l ! k \<noteq> []}" using occ_ok[OF assms(1)] by auto
  show ?thesis
  proof (cases "xs = []")
    case True
    have "key_find (\<lambda>k. k) i occ \<noteq> None" using o(2) assms(2,3) by (auto simp: key_find_id)
    from key_erase_find[OF o(1) this] obtain occ' where e: "key_erase (\<lambda>k. k) i occ = Some occ'"
      "ordered_by (\<lambda>k. k) occ'" "\<forall>j. key_find (\<lambda>k. k) j occ' = (if j = i then None else key_find (\<lambda>k. k) j occ)" by blast
    have "x \<in> set occ' \<longleftrightarrow> x \<noteq> i \<and> x \<in> set occ" for x
      unfolding in_by_key[of x] using e(3) by simp
    then have "set occ' = {k. k < n \<and> l[i := xs] ! k \<noteq> []}"
      using o(2) i True by (auto simp: nth_list_update)
    then have "side_ok n m (l[i := xs]) occ'"
      using e(2) assms(1,4,5) i by (auto simp: side_ok_def nth_list_update)
    then show ?thesis using e(1) True by (simp add: occ_remove_def)
  next
    case False
    have "set occ = {k. k < n \<and> l[i := xs] ! k \<noteq> []}"
      using o(2) i False assms(2,3) by (auto simp: nth_list_update)
    then have "side_ok n m (l[i := xs]) occ"
      using o(1) assms(1,4,5) i by (auto simp: side_ok_def nth_list_update)
    then show ?thesis using False by (simp add: occ_remove_def)
  qed
qed

lemma lb_insert_ne: "l \<noteq> [] \<or> add \<Longrightarrow> add \<or> \<not> del \<Longrightarrow> lb_insert key k add del r l \<noteq> []"
  by (cases l) auto

subsection \<open>Refinement\<close>

lemma sp_add_request_run:
  assumes "sparse_inv s" "i < al_inputs s" "j < al_outputs s"
  shows "\<exists>s'. sp_add_request i j label in_pri out_pri s = Some s' \<and> sparse_inv s' \<and>
    (\<forall>i' < al_inputs s. \<forall>j' < al_outputs s. sp_read s' i' j' =
       (if i' = i \<and> j' = j \<and> (case sp_read s i j of Some (_, p, _) \<Rightarrow> p < in_pri | None \<Rightarrow> True)
        then Some (label, in_pri, out_pri) else sp_read s i' j'))"
proof -
  let ?li = "sp_in_req s ! i" and ?lo = "sp_out_req s ! j"
  let ?r = "\<lparr>rq_port = j, rq_label = label, rq_in_pri = in_pri, rq_out_pri = out_pri\<rparr>"
  have sin: "side_ok (al_inputs s) (al_outputs s) (sp_in_req s) (sp_in_occ s)"
    and sout: "side_ok (al_outputs s) (al_inputs s) (sp_out_req s) (sp_out_occ s)"
    and mirror: "\<And>i j. i < al_inputs s \<Longrightarrow> j < al_outputs s \<Longrightarrow>
      map_option rq_content (key_find rq_port i (sp_out_req s ! j)) = sp_read s i j"
    using assms(1) by (auto simp: sparse_inv_def)
  note I = side_okD[OF sin assms(2)] and O = side_okD[OF sout assms(3)]
  define add where "add = (case sp_read s i j of Some (_, p, _) \<Rightarrow> p < in_pri | None \<Rightarrow> True)"
  define del where "del = (case sp_read s i j of Some (_, p, _) \<Rightarrow> p < in_pri | None \<Rightarrow> False)"
  have da: "add \<or> \<not> del" "add \<longrightarrow> del \<or> sp_read s i j = None" "del \<longrightarrow> sp_read s i j \<noteq> None"
    "\<not> add \<longrightarrow> sp_read s i j \<noteq> None"
    by (auto simp: add_def del_def split: option.splits)
  have ki: "key_find rq_port j ?li = None \<longleftrightarrow> sp_read s i j = None"
    and ko: "key_find rq_port i ?lo = None \<longleftrightarrow> sp_read s i j = None"
    using mirror[OF assms(2,3)] by (auto simp: sp_read_def)
  have sel: "(case lb_find rq_port j ?li of
          Some x \<Rightarrow> if rq_port x = j then (if rq_in_pri x < in_pri then (True, True) else (False, False))
            else (False, True) | None \<Rightarrow> (False, True)) = (del, add)"
    using lb_find_key[OF I(1), of j]
    by (auto simp: sp_read_def add_def del_def rq_content_def split: option.splits if_splits)
  have chk: "del \<longrightarrow> (case lb_find rq_port i ?lo of Some x \<Rightarrow> rq_port x = i | None \<Rightarrow> False)"
    using lb_find_key[OF O(1), of i] da(3) ko by (auto split: option.splits if_splits)
  obtain io where io: "occ_insert ?li i (sp_in_occ s) = Some io" using occ_insert_total[OF sin assms(2)] by blast
  obtain oo where oo: "occ_insert ?lo j (sp_out_occ s) = Some oo" using occ_insert_total[OF sout assms(3)] by blast
  let ?in = "lb_insert rq_port j add del ?r ?li" and ?out = "lb_insert rq_port i add del (?r\<lparr>rq_port := i\<rparr>) ?lo"
  let ?s = "s\<lparr>sp_in_occ := io, sp_out_occ := oo, sp_in_req := (sp_in_req s)[i := ?in],
              sp_out_req := (sp_out_req s)[j := ?out]\<rparr>"
  have run: "sp_add_request i j label in_pri out_pri s = Some ?s"
    using assms(2,3) io oo sel chk by (simp add: sp_add_request_def)
  have di: "del \<longrightarrow> key_find rq_port j ?li \<noteq> None" "add \<longrightarrow> del \<or> key_find rq_port j ?li = None"
    and do: "del \<longrightarrow> key_find rq_port i ?lo \<noteq> None" "add \<longrightarrow> del \<or> key_find rq_port i ?lo = None"
    using da ki ko by auto
  have fi: "key_find rq_port k ?in = (if k = j \<and> add then Some ?r else key_find rq_port k ?li)" for k
    by (rule lb_insert_find[OF I(1) _ da(1) di]) simp
  have fo: "key_find rq_port k ?out = (if k = i \<and> add then Some (?r\<lparr>rq_port := i\<rparr>) else key_find rq_port k ?lo)" for k
    by (rule lb_insert_find[OF O(1) _ da(1) do]) simp
  have "?li \<noteq> [] \<or> add" "?lo \<noteq> [] \<or> add" using da(4) ki ko by (auto intro: ccontr)
  then have ne: "?in \<noteq> []" "?out \<noteq> []" using da(1) by (simp_all add: lb_insert_ne)
  have oi: "ordered_by rq_port ?in" "\<forall>r \<in> set ?in. rq_port r < al_outputs s"
    using lb_insert_ordered[OF I(1) _ di, of ?r] lb_insert_set[of rq_port j add del ?r ?li] I(2) assms(3) by auto
  have ooo: "ordered_by rq_port ?out" "\<forall>r \<in> set ?out. rq_port r < al_inputs s"
    using lb_insert_ordered[OF O(1) _ do, of "?r\<lparr>rq_port := i\<rparr>"]
      lb_insert_set[of rq_port i add del "?r\<lparr>rq_port := i\<rparr>" ?lo] O(2) assms(2) by auto
  have read: "sp_read ?s i' j' = (if i' = i \<and> j' = j \<and> add then Some (label, in_pri, out_pri) else sp_read s i' j')"
    if "i' < al_inputs s" for i' j'
    using that fi[of j'] I(3) assms(2) by (cases "i' = i") (auto simp: sp_read_def rq_content_def)
  have "map_option rq_content (key_find rq_port i' (sp_out_req ?s ! j')) = sp_read ?s i' j'"
    if "i' < al_inputs s" "j' < al_outputs s" for i' j'
    using mirror[OF that] fo[of i'] read[OF that(1), of j'] O(3) assms(3) that
    by (cases "j' = j") (auto simp: rq_content_def)
  then have "sparse_inv ?s"
    using occ_insert_ok[OF sin assms(2) io ne(1) oi] occ_insert_ok[OF sout assms(3) oo ne(2) ooo]
    by (simp add: sparse_inv_def)
  moreover have "\<forall>i' < al_inputs s. \<forall>j' < al_outputs s. sp_read ?s i' j' =
       (if i' = i \<and> j' = j \<and> (case sp_read s i j of Some (_, p, _) \<Rightarrow> p < in_pri | None \<Rightarrow> True)
        then Some (label, in_pri, out_pri) else sp_read s i' j')"
    using read by (simp only: add_def[symmetric]) blast
  ultimately show ?thesis using run by blast
qed

text \<open>C34: \<open>AddRequest\<close> implements its contract on the map of requests: on a consistent allocator
  it never fails, it keeps the two sorted indices and the lists of occupied ports consistent, and
  \<open>ReadRequest\<close> afterwards shows the new request unless one of at least its input priority was
  there already; all other requests are unchanged.\<close>

theorem sparse_add_request_refines:
  assumes "sparse_inv s" "i < al_inputs s" "j < al_outputs s"
  shows "\<exists>s'. sp_add_request i j label in_pri out_pri s = Some s' \<and> sparse_inv s' \<and>
    (\<forall>i' < al_inputs s. \<forall>j' < al_outputs s. sp_read s' i' j' =
       (if i' = i \<and> j' = j \<and> (case sp_read s i j of Some (_, p, _) \<Rightarrow> p < in_pri | None \<Rightarrow> True)
        then Some (label, in_pri, out_pri) else sp_read s i' j'))"
  by (rule sp_add_request_run[OF assms])

lemma sparse_add_request_spec:
  assumes "sparse_inv s" "i < al_inputs s" "j < al_outputs s"
  shows "\<exists>s'. sp_add_request i j label in_pri out_pri s = Some s' \<and> sparse_inv s' \<and>
    (\<forall>i' < al_inputs s. \<forall>j' < al_outputs s. sp_read s' i' j' = sp_read s i' j' \<or>
       i' = i \<and> j' = j \<and> sp_read s' i' j' = Some (label, in_pri, out_pri))"
  using sp_add_request_run[OF assms, of label in_pri out_pri] by meson

text \<open>\<open>RemoveRequest\<close> of a request that is there never fails, removes exactly it and keeps the
  indices consistent.\<close>

theorem sparse_remove_request_refines:
  assumes "sparse_inv s" "sp_requested s i j"
  shows "\<exists>s'. sp_remove_request i j s = Some s' \<and> sparse_inv s' \<and>
    (\<forall>i' < al_inputs s. \<forall>j' < al_outputs s. sp_read s' i' j' =
       (if i' = i \<and> j' = j then None else sp_read s i' j'))"
proof -
  let ?li = "sp_in_req s ! i" and ?lo = "sp_out_req s ! j"
  have sin: "side_ok (al_inputs s) (al_outputs s) (sp_in_req s) (sp_in_occ s)"
    and sout: "side_ok (al_outputs s) (al_inputs s) (sp_out_req s) (sp_out_occ s)"
    and mirror: "\<And>i j. i < al_inputs s \<Longrightarrow> j < al_outputs s \<Longrightarrow>
      map_option rq_content (key_find rq_port i (sp_out_req s ! j)) = sp_read s i j"
    using assms(1) by (auto simp: sparse_inv_def)
  have ij: "i < al_inputs s" "j < al_outputs s" and r: "sp_read s i j \<noteq> None"
    using assms(2) by (auto simp: sp_requested_def)
  note I = side_okD[OF sin ij(1)] and O = side_okD[OF sout ij(2)]
  have ki: "key_find rq_port j ?li \<noteq> None" and ko: "key_find rq_port i ?lo \<noteq> None"
    using mirror[OF ij] r by (auto simp: sp_read_def)
  from key_erase_find[OF I(1) ki] obtain xi where xi: "key_erase rq_port j ?li = Some xi"
    "ordered_by rq_port xi" "set xi \<subseteq> set ?li"
    "\<forall>k. key_find rq_port k xi = (if k = j then None else key_find rq_port k ?li)" by blast
  from key_erase_find[OF O(1) ko] obtain xo where xo: "key_erase rq_port i ?lo = Some xo"
    "ordered_by rq_port xo" "set xo \<subseteq> set ?lo"
    "\<forall>k. key_find rq_port k xo = (if k = i then None else key_find rq_port k ?lo)" by blast
  have "?li \<noteq> []" "?lo \<noteq> []" using ki ko by auto
  with occ_remove_ok[OF sin ij(1) _ xi(2)] occ_remove_ok[OF sout ij(2) _ xo(2)] xi(3) xo(3) I(2) O(2)
  obtain io oo where io: "occ_remove xi i (sp_in_occ s) = Some io"
      "side_ok (al_inputs s) (al_outputs s) ((sp_in_req s)[i := xi]) io"
    and oo: "occ_remove xo j (sp_out_occ s) = Some oo"
      "side_ok (al_outputs s) (al_inputs s) ((sp_out_req s)[j := xo]) oo" by blast
  let ?s = "s\<lparr>sp_in_req := (sp_in_req s)[i := xi], sp_in_occ := io,
              sp_out_req := (sp_out_req s)[j := xo], sp_out_occ := oo\<rparr>"
  have run: "sp_remove_request i j s = Some ?s"
    using ij xi(1) xo(1) io(1) oo(1) by (simp add: sp_remove_request_def)
  have read: "sp_read ?s i' j' = (if i' = i \<and> j' = j then None else sp_read s i' j')"
    if "i' < al_inputs s" for i' j'
    using that xi(4) I(3) ij(1) by (cases "i' = i") (auto simp: sp_read_def)
  have "map_option rq_content (key_find rq_port i' (sp_out_req ?s ! j')) = sp_read ?s i' j'"
    if "i' < al_inputs s" "j' < al_outputs s" for i' j'
    using mirror[OF that] xo(4) read[OF that(1), of j'] O(3) ij(2) that by (cases "j' = j") auto
  then have "sparse_inv ?s" using io(2) oo(2) by (simp add: sparse_inv_def)
  with run read show ?thesis by (intro exI[of _ ?s]) simp
qed

definition sample_sparse :: sparse where
  "sample_sparse = \<lparr>al_inputs = 2, al_outputs = 2, al_inmatch = [None, None], al_outmatch = [None, None],
     al_outmask = [0, 0], sp_in_occ = [1], sp_out_occ = [0],
     sp_in_req = [[], [\<lparr>rq_port = 0, rq_label = 5, rq_in_pri = 1, rq_out_pri = 1\<rparr>]],
     sp_out_req = [[\<lparr>rq_port = 1, rq_label = 5, rq_in_pri = 1, rq_out_pri = 1\<rparr>], []]\<rparr>"

lemma sample_sparse_inv: "sparse_inv sample_sparse"
  by (auto simp: sparse_inv_def side_ok_def sample_sparse_def sp_read_def rq_content_def
      numeral_2_eq_2 less_Suc_eq)

theorem sparse_add_request_refines_witness:
  "\<exists>s'. sp_add_request 1 0 7 2 2 sample_sparse = Some s' \<and> sp_read s' 1 0 = Some (7, 2, 2)"
proof -
  from sparse_add_request_refines[OF sample_sparse_inv, of 1 0 7 2 2]
  obtain s' where s': "sp_add_request 1 0 7 2 2 sample_sparse = Some s'"
    "\<forall>i' < 2. \<forall>j' < 2. sp_read s' i' j' =
       (if i' = 1 \<and> j' = 0 \<and> (case sp_read sample_sparse 1 0 of Some (_, p, _) \<Rightarrow> p < 2 | None \<Rightarrow> True)
        then Some (7, 2, 2) else sp_read sample_sparse i' j')"
    by (auto simp: sample_sparse_def)
  have "sp_read s' 1 0 = Some (7, 2, 2)"
    using s'(2)[rule_format, of 1 0] by (simp add: sp_read_def sample_sparse_def rq_content_def)
  with s'(1) show ?thesis by blast
qed

theorem sparse_remove_request_refines_witness:
  "\<exists>s'. sp_remove_request 1 0 sample_sparse = Some s' \<and> sparse_inv s'"
  using sparse_remove_request_refines[OF sample_sparse_inv, of 1 0]
  by (auto simp: sp_requested_def sp_read_def sample_sparse_def)

end
