(* ===== verification/ISlip.thy ===== *)
theory ISlip
  imports SparseAlloc
begin

text \<open>
  \<open>iSLIP_Sparse\<close> (\<open>src/intersim/islip.cpp\<close>): iterative round robin matching.  In each iteration
  every unmatched output grants the first unmatched input at or after its pointer that requests
  it, and every input accepts the first granting output at or after its own pointer.  The pointers
  move past the partner, and only for matches made in the first iteration.
\<close>

record islip = sparse +
  isl_iter :: int
  isl_grants :: "nat option list"
  isl_gptrs :: "nat list"
  isl_aptrs :: "nat list"

definition new_islip :: "nat \<Rightarrow> nat \<Rightarrow> int \<Rightarrow> islip" where
  "new_islip inputs outputs iters =
     \<lparr>al_inputs = inputs, al_outputs = outputs, al_inmatch = replicate inputs None,
      al_outmatch = replicate outputs None, al_outmask = replicate outputs 0,
      sp_in_occ = [], sp_out_occ = [], sp_in_req = replicate inputs [], sp_out_req = replicate outputs [],
      isl_iter = iters, isl_grants = replicate outputs None,
      isl_gptrs = replicate outputs 0, isl_aptrs = replicate inputs 0\<rparr>"

text \<open>The grant of one output.\<close>

definition islip_grant :: "islip \<Rightarrow> nat \<Rightarrow> nat option" where
  "islip_grant s j =
     (if sp_out_req s ! j = [] \<or> al_outmatch s ! j \<noteq> None then None
      else map_option rq_port
        (find (\<lambda>r. al_inmatch s ! rq_port r = None) (rr_visit rq_port (isl_gptrs s ! j) (sp_out_req s ! j))))"

text \<open>The accept of one input; \<open>first\<close> is \<open>iter == 0\<close>.\<close>

definition islip_accept :: "bool \<Rightarrow> nat \<Rightarrow> islip \<Rightarrow> islip" where
  "islip_accept first i s =
     (if sp_in_req s ! i = [] then s
      else case find (\<lambda>r. isl_grants s ! rq_port r = Some i)
                  (rr_visit rq_port (isl_aptrs s ! i) (sp_in_req s ! i)) of
        None \<Rightarrow> s
      | Some r \<Rightarrow>
          (let j = rq_port r; s1 = set_match i j s in
           if first then s1\<lparr>isl_gptrs := (isl_gptrs s)[j := (i + 1) mod al_inputs s],
                            isl_aptrs := (isl_aptrs s)[i := (j + 1) mod al_outputs s]\<rparr>
           else s1))"

definition islip_iteration :: "bool \<Rightarrow> islip \<Rightarrow> islip" where
  "islip_iteration first s =
     fold (islip_accept first) [0 ..< al_inputs s]
       (s\<lparr>isl_grants := map (islip_grant s) [0 ..< al_outputs s]\<rparr>)"

definition islip_allocate :: "islip \<Rightarrow> islip" where
  "islip_allocate s =
     fold (\<lambda>iter. islip_iteration (iter = 0)) [0 ..< nat (isl_iter s)] (clear_matching s)"

subsection \<open>What an iteration does\<close>

text \<open>Everything but the matching, the grants and the pointers.\<close>

definition same_requests :: "islip \<Rightarrow> islip \<Rightarrow> bool" where
  "same_requests s t \<longleftrightarrow> al_inputs t = al_inputs s \<and> al_outputs t = al_outputs s \<and>
     sp_in_req t = sp_in_req s \<and> sp_out_req t = sp_out_req s \<and> sp_in_occ t = sp_in_occ s \<and>
     sp_out_occ t = sp_out_occ s \<and> isl_iter t = isl_iter s"

lemma same_requests_refl [simp]: "same_requests s s"
  by (simp add: same_requests_def)

lemma same_requests_trans: "same_requests s t \<Longrightarrow> same_requests t u \<Longrightarrow> same_requests s u"
  by (simp add: same_requests_def)

lemma set_match_sparse [simp]:
  "sp_in_req (set_match i j s) = sp_in_req s" "sp_out_req (set_match i j s) = sp_out_req s"
  "sp_in_occ (set_match i j s) = sp_in_occ s" "sp_out_occ (set_match i j s) = sp_out_occ s"
  "isl_iter (set_match i j s') = isl_iter s'" "isl_grants (set_match i j s') = isl_grants s'"
  by (simp_all add: set_match_def)

lemma clear_matching_sparse [simp]:
  "sp_in_req (clear_matching s) = sp_in_req s" "sp_out_req (clear_matching s) = sp_out_req s"
  "sp_in_occ (clear_matching s) = sp_in_occ s" "sp_out_occ (clear_matching s) = sp_out_occ s"
  "isl_iter (clear_matching s') = isl_iter s'"
  by (simp_all add: clear_matching_def)

lemma accept_same: "same_requests s (islip_accept f i s)" "isl_grants (islip_accept f i s) = isl_grants s"
  by (simp_all add: islip_accept_def same_requests_def Let_def split: option.splits)

lemma fold_accept_same:
  "same_requests s (fold (islip_accept f) is s) \<and> isl_grants (fold (islip_accept f) is s) = isl_grants s"
proof (induction "is" arbitrary: s)
  case (Cons i "is")
  show ?case using Cons.IH[of "islip_accept f i s"] accept_same(1)[of s f i] accept_same(2)[of f i s]
      same_requests_trans[of s "islip_accept f i s"] by simp
qed simp

lemma iteration_same: "same_requests s (islip_iteration f s)"
proof -
  have "same_requests s (s\<lparr>isl_grants := map (islip_grant s) [0 ..< al_outputs s]\<rparr>)"
    by (simp add: same_requests_def)
  then show ?thesis using fold_accept_same same_requests_trans unfolding islip_iteration_def by blast
qed

lemma sp_requested_in:
  assumes "sparse_inv s"
  shows "sp_requested s i j \<longleftrightarrow> i < al_inputs s \<and> (\<exists>r \<in> set (sp_in_req s ! i). rq_port r = j)"
proof -
  have "i < al_inputs s \<Longrightarrow> r \<in> set (sp_in_req s ! i) \<Longrightarrow> rq_port r < al_outputs s" for r
    using assms by (auto simp: sparse_inv_def side_ok_def)
  moreover have "sp_read s i j \<noteq> None \<longleftrightarrow> (\<exists>r \<in> set (sp_in_req s ! i). rq_port r = j)"
    using key_find_None[of rq_port j "sp_in_req s ! i"] by (auto simp: sp_read_def)
  ultimately show ?thesis unfolding sp_requested_def by blast
qed

lemma sp_requested_out:
  assumes "sparse_inv s"
  shows "sp_requested s i j \<longleftrightarrow> j < al_outputs s \<and> (\<exists>r \<in> set (sp_out_req s ! j). rq_port r = i)"
proof -
  have "j < al_outputs s \<Longrightarrow> r \<in> set (sp_out_req s ! j) \<Longrightarrow> rq_port r < al_inputs s" for r
    using assms by (auto simp: sparse_inv_def side_ok_def)
  moreover have "i < al_inputs s \<Longrightarrow> j < al_outputs s \<Longrightarrow>
      sp_read s i j \<noteq> None \<longleftrightarrow> (\<exists>r \<in> set (sp_out_req s ! j). rq_port r = i)"
  proof -
    assume "i < al_inputs s" "j < al_outputs s"
    then have "map_option rq_content (key_find rq_port i (sp_out_req s ! j)) = sp_read s i j"
      using assms by (simp add: sparse_inv_def)
    then have "sp_read s i j \<noteq> None \<longleftrightarrow> key_find rq_port i (sp_out_req s ! j) \<noteq> None"
      by (metis option.map_disc_iff)
    also have "\<dots> \<longleftrightarrow> (\<exists>r \<in> set (sp_out_req s ! j). rq_port r = i)" by (simp add: key_find_None)
    finally show ?thesis .
  qed
  ultimately show ?thesis unfolding sp_requested_def by blast
qed

text \<open>The grants of an iteration: they go to unmatched inputs that request the output, and every
  unmatched output with a requesting unmatched input grants.\<close>

definition grants_ok :: "islip \<Rightarrow> bool" where
  "grants_ok s \<longleftrightarrow> length (isl_grants s) = al_outputs s \<and>
     (\<forall>j < al_outputs s. \<forall>i. isl_grants s ! j = Some i \<longrightarrow> sp_requested s i j)"

lemma islip_grant_Some:
  assumes "sparse_inv s" "j < al_outputs s" "islip_grant s j = Some i"
  shows "sp_requested s i j \<and> al_inmatch s ! i = None \<and> al_outmatch s ! j = None"
proof -
  obtain r where r: "find (\<lambda>r. al_inmatch s ! rq_port r = None)
      (rr_visit rq_port (isl_gptrs s ! j) (sp_out_req s ! j)) = Some r" "rq_port r = i"
    "al_outmatch s ! j = None"
    using assms(3) by (auto simp: islip_grant_def split: if_splits)
  from find_Some_in[OF r(1)] r assms(2) show ?thesis by (auto simp: sp_requested_out[OF assms(1)])
qed

lemma islip_grant_None:
  assumes "sparse_inv s" "islip_grant s j = None" "sp_requested s i j" "al_inmatch s ! i = None"
  shows "al_outmatch s ! j \<noteq> None"
proof
  assume n: "al_outmatch s ! j = None"
  obtain r where r: "r \<in> set (sp_out_req s ! j)" "rq_port r = i"
    using assms(3) by (auto simp: sp_requested_out[OF assms(1)])
  then have "sp_out_req s ! j \<noteq> []" by auto
  then have "find (\<lambda>r. al_inmatch s ! rq_port r = None)
      (rr_visit rq_port (isl_gptrs s ! j) (sp_out_req s ! j)) = None"
    using assms(2) n by (simp add: islip_grant_def)
  with r assms(4) show False by (auto simp: find_None_iff)
qed

text \<open>During the accept phase, with the inputs below \<open>k\<close> done: the matching is legal and the
  grants to the other inputs are still open on both sides.\<close>

definition accept_inv :: "islip \<Rightarrow> nat \<Rightarrow> bool" where
  "accept_inv s k \<longleftrightarrow> sparse_inv s \<and> grants_ok s \<and> legal_matching (sp_requested s) s \<and>
     (\<forall>j < al_outputs s. \<forall>i \<ge> k. isl_grants s ! j = Some i \<longrightarrow>
        al_inmatch s ! i = None \<and> al_outmatch s ! j = None)"

lemma same_requests_inv:
  "same_requests s t \<Longrightarrow> sparse_inv t = sparse_inv s"
  "same_requests s t \<Longrightarrow> sp_requested t = sp_requested s"
  by (auto simp: same_requests_def sparse_inv_def sp_requested_def sp_read_def fun_eq_iff)

lemma accept_step:
  assumes "accept_inv s k" "k < al_inputs s"
  shows "accept_inv (islip_accept f k s) (Suc k)"
    "al_inmatch s ! i = Some j \<Longrightarrow> al_inmatch (islip_accept f k s) ! i = Some j"
    "\<exists>j < al_outputs s. isl_grants s ! j = Some k \<Longrightarrow> al_inmatch (islip_accept f k s) ! k \<noteq> None"
proof -
  let ?t = "islip_accept f k s"
  let ?find = "find (\<lambda>r. isl_grants s ! rq_port r = Some k) (rr_visit rq_port (isl_aptrs s ! k) (sp_in_req s ! k))"
  have inv: "sparse_inv s" "grants_ok s" "legal_matching (sp_requested s) s"
    and op: "\<And>j i. j < al_outputs s \<Longrightarrow> k \<le> i \<Longrightarrow> isl_grants s ! j = Some i \<Longrightarrow>
        al_inmatch s ! i = None \<and> al_outmatch s ! j = None"
    using assms(1) by (auto simp: accept_inv_def)
  note len = legal_lengths[OF inv(3)]
  have same: "same_requests s ?t" "isl_grants ?t = isl_grants s" by (rule accept_same)+
  have base: "sparse_inv ?t" "grants_ok ?t"
    using inv same same_requests_inv[OF same(1)] by (auto simp: grants_ok_def same_requests_def)
  show "accept_inv ?t (Suc k)"
    "al_inmatch s ! i = Some j \<Longrightarrow> al_inmatch ?t ! i = Some j"
    "\<exists>j < al_outputs s. isl_grants s ! j = Some k \<Longrightarrow> al_inmatch ?t ! k \<noteq> None"
  proof (atomize (full), cases "sp_in_req s ! k = [] \<or> ?find = None")
    case True
    then have t: "?t = s" by (auto simp: islip_accept_def)
    have none: "isl_grants s ! j \<noteq> Some k" if "j < al_outputs s" for j
    proof
      assume g: "isl_grants s ! j = Some k"
      then have "sp_requested s k j" using inv(2) that by (simp add: grants_ok_def)
      then obtain r where r: "r \<in> set (sp_in_req s ! k)" "rq_port r = j"
        by (auto simp: sp_requested_in[OF inv(1)])
      with True g show False by (auto simp: find_None_iff)
    qed
    have "accept_inv s (Suc k)" using assms(1) unfolding accept_inv_def by (meson Suc_leD)
    then show "accept_inv ?t (Suc k) \<and> (al_inmatch s ! i = Some j \<longrightarrow> al_inmatch ?t ! i = Some j) \<and>
      ((\<exists>j < al_outputs s. isl_grants s ! j = Some k) \<longrightarrow> al_inmatch ?t ! k \<noteq> None)"
      unfolding t using none by auto
  next
    case False
    then obtain r where r: "?find = Some r" by auto
    let ?j = "rq_port r"
    have rin: "r \<in> set (sp_in_req s ! k)" and g: "isl_grants s ! ?j = Some k"
      using find_Some_in[OF r] by auto
    have reqk: "sp_requested s k ?j" using rin assms(2) by (auto simp: sp_requested_in[OF inv(1)])
    then have j: "?j < al_outputs s" by (simp add: sp_requested_def)
    have free: "al_inmatch s ! k = None" "al_outmatch s ! ?j = None" using op[OF j _ g] by auto
    have t: "al_inmatch ?t = (al_inmatch s)[k := Some ?j]" "al_outmatch ?t = (al_outmatch s)[?j := Some k]"
      "al_inputs ?t = al_inputs s" "al_outputs ?t = al_outputs s"
      using False r by (simp_all add: islip_accept_def Let_def)
    have "legal_matching (sp_requested s) (set_match k ?j s)"
      by (rule legal_set_match[OF inv(3) assms(2) j reqk free])
    then have legal: "legal_matching (sp_requested ?t) ?t"
      unfolding same_requests_inv(2)[OF same(1)] by (rule legal_matching_more) (use t in simp_all)
    have "al_inmatch ?t ! i' = None \<and> al_outmatch ?t ! j' = None"
      if "j' < al_outputs s" "Suc k \<le> i'" "isl_grants s ! j' = Some i'" for i' j'
    proof -
      have "j' \<noteq> ?j" using g that by auto
      with op[of j' i'] that t show ?thesis by simp
    qed
    then have "accept_inv ?t (Suc k)" using base legal same(2) t unfolding accept_inv_def by simp
    then show "accept_inv ?t (Suc k) \<and> (al_inmatch s ! i = Some j \<longrightarrow> al_inmatch ?t ! i = Some j) \<and>
      ((\<exists>j < al_outputs s. isl_grants s ! j = Some k) \<longrightarrow> al_inmatch ?t ! k \<noteq> None)"
      using t assms(2) len free by (cases "i = k") auto
  qed
qed

lemma accept_phase:
  fixes f :: bool
  assumes "accept_inv s 0" "k \<le> al_inputs s"
  defines "t \<equiv> fold (islip_accept f) [0 ..< k] s"
  shows "accept_inv t k \<and> al_inputs t = al_inputs s \<and> al_outputs t = al_outputs s \<and> isl_grants t = isl_grants s \<and>
    (\<forall>i j. al_inmatch s ! i = Some j \<longrightarrow> al_inmatch t ! i = Some j) \<and>
    (\<forall>i < k. (\<exists>j < al_outputs s. isl_grants s ! j = Some i) \<longrightarrow> al_inmatch t ! i \<noteq> None)"
  using assms(2) unfolding t_def
proof (induction k)
  case (Suc k)
  let ?t = "fold (islip_accept f) [0 ..< k] s"
  have IH: "accept_inv ?t k" "al_inputs ?t = al_inputs s" "al_outputs ?t = al_outputs s"
    "isl_grants ?t = isl_grants s" "\<And>i j. al_inmatch s ! i = Some j \<Longrightarrow> al_inmatch ?t ! i = Some j"
    "\<And>i. i < k \<Longrightarrow> \<exists>j < al_outputs s. isl_grants s ! j = Some i \<Longrightarrow> al_inmatch ?t ! i \<noteq> None"
    using Suc by auto
  have k: "k < al_inputs ?t" using Suc.prems IH(2) by simp
  have mono: "al_inmatch ?t ! i = Some j \<Longrightarrow> al_inmatch (islip_accept f k ?t) ! i = Some j" for i j
    by (rule accept_step(2)[OF IH(1) k])
  have new: "\<exists>j < al_outputs s. isl_grants s ! j = Some k \<Longrightarrow> al_inmatch (islip_accept f k ?t) ! k \<noteq> None"
    using accept_step(3)[OF IH(1) k] IH(3,4) by simp
  have "\<forall>i < Suc k. (\<exists>j < al_outputs s. isl_grants s ! j = Some i) \<longrightarrow>
      al_inmatch (islip_accept f k ?t) ! i \<noteq> None"
    using IH(6) mono new by (fastforce simp: less_Suc_eq)
  moreover have "same_requests ?t (islip_accept f k ?t)" by (rule accept_same)
  ultimately show ?case
    using accept_step(1)[OF IH(1) k, of f] IH(2,3,4,5) mono accept_same(2)[of f k ?t]
    by (simp add: same_requests_def)
qed (use assms(1) in simp)

lemma grant_phase:
  assumes "sparse_inv s" "legal_matching (sp_requested s) s"
  shows "accept_inv (s\<lparr>isl_grants := map (islip_grant s) [0 ..< al_outputs s]\<rparr>) 0"
proof -
  let ?g = "s\<lparr>isl_grants := map (islip_grant s) [0 ..< al_outputs s]\<rparr>"
  have same: "same_requests s ?g" by (simp add: same_requests_def)
  have "legal_matching (sp_requested s) ?g" by (rule legal_matching_more[OF assms(2)]) simp_all
  with assms islip_grant_Some[OF assms(1)] show ?thesis
    unfolding accept_inv_def grants_ok_def same_requests_inv[OF same] by simp
qed

definition matched_inputs :: "islip \<Rightarrow> nat set" where
  "matched_inputs s = {i. i < al_inputs s \<and> al_inmatch s ! i \<noteq> None}"

lemma iteration_legal:
  assumes "sparse_inv s" "legal_matching (sp_requested s) s"
  shows "sparse_inv (islip_iteration f s)" "legal_matching (sp_requested s) (islip_iteration f s)"
    "matched_inputs s \<subseteq> matched_inputs (islip_iteration f s)"
    "\<not> maximal_matching (sp_requested s) s \<Longrightarrow> matched_inputs s \<subset> matched_inputs (islip_iteration f s)"
    "al_inmatch s ! a = Some b \<Longrightarrow> al_inmatch (islip_iteration f s) ! a = Some b"
proof -
  let ?g = "s\<lparr>isl_grants := map (islip_grant s) [0 ..< al_outputs s]\<rparr>" and ?t = "islip_iteration f s"
  have ph: "accept_inv ?t (al_inputs s)" "al_inputs ?t = al_inputs s"
    "\<And>i j. al_inmatch s ! i = Some j \<Longrightarrow> al_inmatch ?t ! i = Some j"
    "\<And>i j. i < al_inputs s \<Longrightarrow> j < al_outputs s \<Longrightarrow> islip_grant s j = Some i \<Longrightarrow> al_inmatch ?t ! i \<noteq> None"
    using accept_phase[OF grant_phase[OF assms], of "al_inputs s" f]
    by (auto simp: islip_iteration_def simp del: upt_Suc)
  show "al_inmatch s ! a = Some b \<Longrightarrow> al_inmatch ?t ! a = Some b" by (rule ph(3))
  show "sparse_inv ?t" "legal_matching (sp_requested s) ?t"
    using ph(1) same_requests_inv(2)[OF iteration_same[of s f]] by (simp_all add: accept_inv_def)
  show sub: "matched_inputs s \<subseteq> matched_inputs ?t" using ph(2,3) by (auto simp: matched_inputs_def)
  assume "\<not> maximal_matching (sp_requested s) s"
  then obtain i j where ij: "i < al_inputs s" "j < al_outputs s" "sp_requested s i j"
    "al_inmatch s ! i = None" "al_outmatch s ! j = None" unfolding maximal_matching_def by blast
  then obtain i' where g: "islip_grant s j = Some i'"
    using islip_grant_None[OF assms(1) _ ij(3,4)] by (cases "islip_grant s j") auto
  from islip_grant_Some[OF assms(1) ij(2) g] have i': "i' < al_inputs s" "al_inmatch s ! i' = None"
    by (auto simp: sp_requested_def)
  then have "i' \<in> matched_inputs ?t - matched_inputs s"
    using ph(2) ph(4)[OF i'(1) ij(2) g] by (auto simp: matched_inputs_def)
  with sub show "matched_inputs s \<subset> matched_inputs ?t" by blast
qed

text \<open>\<open>k\<close> iterations.\<close>

definition islip_iterations :: "nat \<Rightarrow> islip \<Rightarrow> islip" where
  "islip_iterations k s = fold (\<lambda>iter. islip_iteration (iter = 0)) [0 ..< k] (clear_matching s)"

lemma islip_allocate_iterations: "islip_allocate s = islip_iterations (nat (isl_iter s)) s"
  by (simp add: islip_allocate_def islip_iterations_def)

lemma islip_iterations_Suc:
  "islip_iterations (Suc k) s = islip_iteration (k = 0) (islip_iterations k s)"
  by (simp add: islip_iterations_def)

lemma maximal_if_all_matched:
  assumes "al_inputs s \<le> card (matched_inputs s)"
  shows "maximal_matching R s"
proof -
  have "matched_inputs s \<subseteq> {..< al_inputs s}" by (auto simp: matched_inputs_def)
  moreover have "card {..< al_inputs s} \<le> card (matched_inputs s)" using assms by simp
  ultimately have "matched_inputs s = {..< al_inputs s}" by (intro card_seteq) simp_all
  then show ?thesis by (auto simp: maximal_matching_def matched_inputs_def)
qed

lemma maximal_kept:
  assumes "sparse_inv s" "legal_matching (sp_requested s) s" "maximal_matching (sp_requested s) s"
  shows "maximal_matching (sp_requested s) (islip_iteration f s)"
  unfolding maximal_matching_def
proof (intro allI impI)
  let ?t = "islip_iteration f s"
  fix i j assume ij: "i < al_inputs ?t" "j < al_outputs ?t" "sp_requested s i j"
  have size: "al_inputs ?t = al_inputs s" "al_outputs ?t = al_outputs s"
    using iteration_same[of s f] by (simp_all add: same_requests_def)
  note keep = iteration_legal(5)[OF assms(1,2)]
  have "al_outmatch ?t ! j \<noteq> None" if "al_outmatch s ! j = Some i'" for i'
  proof -
    have "i' < al_inputs s" "al_inmatch s ! i' = Some j" using legal_out[OF assms(2) _ that] ij size by auto
    with keep[of i' j f] legal_in[OF iteration_legal(2)[OF assms(1,2)], of i' f j] size
    show ?thesis by simp
  qed
  moreover have "al_inmatch s ! i \<noteq> None \<or> al_outmatch s ! j \<noteq> None"
    using assms(3) ij size unfolding maximal_matching_def by simp
  ultimately show "al_inmatch ?t ! i \<noteq> None \<or> al_outmatch ?t ! j \<noteq> None"
    using keep[of i _ f] by (cases "al_inmatch s ! i") auto
qed

lemma islip_iterations_inv:
  assumes "sparse_inv s"
  shows "same_requests s (islip_iterations k s) \<and> sparse_inv (islip_iterations k s) \<and>
    legal_matching (sp_requested s) (islip_iterations k s) \<and>
    (maximal_matching (sp_requested s) (islip_iterations k s) \<or> k \<le> card (matched_inputs (islip_iterations k s)))"
proof (induction k)
  case 0
  have "same_requests s (clear_matching s)" by (simp add: same_requests_def)
  then show ?case
    using assms legal_clear same_requests_inv(1) by (simp add: islip_iterations_def)
next
  case (Suc k)
  let ?u = "islip_iterations k s" and ?t = "islip_iteration (k = 0) (islip_iterations k s)"
  have u: "same_requests s ?u" "sparse_inv ?u" "legal_matching (sp_requested ?u) ?u"
    "maximal_matching (sp_requested ?u) ?u \<or> k \<le> card (matched_inputs ?u)"
    using Suc same_requests_inv(2)[of s ?u] by auto
  note it = iteration_legal[OF u(2,3), where f = "k = 0"]
  have same: "same_requests s ?t" using same_requests_trans[OF u(1) iteration_same] .
  have fin: "finite (matched_inputs ?t)" by (simp add: matched_inputs_def)
  have "maximal_matching (sp_requested ?u) ?t \<or> Suc k \<le> card (matched_inputs ?t)"
  proof (cases "maximal_matching (sp_requested ?u) ?u")
    case True
    then show ?thesis using maximal_kept[OF u(2,3)] by simp
  next
    case False
    with u(4) psubset_card_mono[OF fin it(4)] show ?thesis by simp
  qed
  with it(1,2) same same_requests_inv(2)[OF u(1)] show ?case by (simp add: islip_iterations_Suc)
qed

definition islip_ok :: "islip \<Rightarrow> bool" where
  "islip_ok s \<longleftrightarrow> sparse_inv s"

interpretation islip_matcher: matcher islip_ok sp_requested "alloc_base.truncate" islip_allocate
proof unfold_locales
  fix s assume ok: "islip_ok s"
  note inv = islip_iterations_inv[of s "nat (isl_iter s)", folded islip_allocate_iterations]
  have same: "same_requests s (islip_allocate s)" using inv ok by (simp add: islip_ok_def)
  show "islip_ok (islip_allocate s)" using inv ok by (simp add: islip_ok_def)
  show "sp_requested (islip_allocate s) = sp_requested s" by (rule same_requests_inv(2)[OF same])
  show "al_inputs (alloc_base.truncate (islip_allocate s)) = al_inputs (alloc_base.truncate s) \<and>
    al_outputs (alloc_base.truncate (islip_allocate s)) = al_outputs (alloc_base.truncate s)"
    using same by (simp add: same_requests_def alloc_base.defs)
  have "legal_matching (sp_requested s) (islip_allocate s)" using inv ok by (simp add: islip_ok_def)
  then show "legal_matching (sp_requested s) (alloc_base.truncate (islip_allocate s))"
    by (rule legal_matching_more) (simp_all add: alloc_base.defs)
qed

lemma new_islip_inv: "sparse_inv (new_islip n m it)"
  by (auto simp: sparse_inv_def side_ok_def new_islip_def sp_read_def)

text \<open>C17: \<open>iSLIP\<close> computes a legal matching of the requests (an input and an output are matched to
  each other or not at all, and only if the request was made), and one that no request can be
  added to once \<open>alloc_iters\<close> is at least the number of inputs.  It never touches the
  requests.\<close>

theorem islip_legal_maximal:
  assumes "sparse_inv s"
  shows "legal_matching (sp_requested s) (islip_allocate s) \<and>
    sp_in_req (islip_allocate s) = sp_in_req s \<and> sp_out_req (islip_allocate s) = sp_out_req s \<and>
    (int (al_inputs s) \<le> isl_iter s \<longrightarrow> maximal_matching (sp_requested s) (islip_allocate s))"
proof -
  note inv = islip_iterations_inv[OF assms, of "nat (isl_iter s)", folded islip_allocate_iterations]
  have "maximal_matching (sp_requested s) (islip_allocate s)" if "int (al_inputs s) \<le> isl_iter s"
  proof (rule disjE[OF inv[THEN conjunct2, THEN conjunct2, THEN conjunct2]])
    assume "nat (isl_iter s) \<le> card (matched_inputs (islip_allocate s))"
    then show ?thesis using that inv by (intro maximal_if_all_matched) (simp add: same_requests_def)
  qed
  with inv show ?thesis by (simp add: same_requests_def)
qed

text \<open>Two inputs that both ask for output 0, and one that also asks for output 1.\<close>

definition sample_islip :: islip where
  "sample_islip = (new_islip 2 2 2)\<lparr>sp_in_occ := [0, 1], sp_out_occ := [0, 1],
     sp_in_req := [[\<lparr>rq_port = 0, rq_label = 3, rq_in_pri = 0, rq_out_pri = 0\<rparr>],
       [\<lparr>rq_port = 0, rq_label = 5, rq_in_pri = 0, rq_out_pri = 0\<rparr>,
        \<lparr>rq_port = 1, rq_label = 5, rq_in_pri = 0, rq_out_pri = 0\<rparr>]],
     sp_out_req := [[\<lparr>rq_port = 0, rq_label = 3, rq_in_pri = 0, rq_out_pri = 0\<rparr>,
        \<lparr>rq_port = 1, rq_label = 5, rq_in_pri = 0, rq_out_pri = 0\<rparr>],
       [\<lparr>rq_port = 1, rq_label = 5, rq_in_pri = 0, rq_out_pri = 0\<rparr>]]\<rparr>"

lemma sample_islip_inv: "sparse_inv sample_islip"
  by (auto simp: sparse_inv_def side_ok_def sample_islip_def new_islip_def sp_read_def rq_content_def
      numeral_2_eq_2 less_Suc_eq)

theorem islip_legal_maximal_witness:
  "legal_matching (sp_requested sample_islip) (islip_allocate sample_islip) \<and>
   maximal_matching (sp_requested sample_islip) (islip_allocate sample_islip)"
  using islip_legal_maximal[OF sample_islip_inv] by (simp add: sample_islip_def new_islip_def)

end
