(* ===== verification/DenseAlloc.thy ===== *)
theory DenseAlloc
  imports SparseAlloc
begin

text \<open>
  \<open>DenseAllocator\<close> (\<open>src/intersim/allocator.cpp\<close>), which keeps the whole matrix of requests, a
  label of \<open>-1\<close> for none, and the allocators on it: \<open>Wavefront\<close> (wavefront.cpp), \<open>LOA\<close> (loa.cpp)
  and \<open>PIM\<close> (pim.cpp).  \<open>AddRequest\<close> overwrites the request that was there, whatever its priority.
  Allocators have at least one input and one output.
\<close>

record dense = alloc_base +
  dn_request :: "request list list"

definition no_request :: request where
  "no_request = \<lparr>rq_port = 0, rq_label = - 1, rq_in_pri = 0, rq_out_pri = 0\<rparr>"

definition dn_clear :: "'a dense_scheme \<Rightarrow> 'a dense_scheme" where
  "dn_clear s = s\<lparr>dn_request := map (map (\<lambda>r. r\<lparr>rq_label := - 1\<rparr>)) (dn_request s)\<rparr>"

definition dn_read_request :: "'a dense_scheme \<Rightarrow> nat \<Rightarrow> nat \<Rightarrow> int option" where
  "dn_read_request s i j = do {
     ensure (i < al_inputs s \<and> j < al_outputs s);
     Some (rq_label (dn_request s ! i ! j))
   }"

definition dn_update :: "nat \<Rightarrow> nat \<Rightarrow> (request \<Rightarrow> request) \<Rightarrow> 'a dense_scheme \<Rightarrow> 'a dense_scheme" where
  "dn_update i j f s =
     s\<lparr>dn_request := (dn_request s)[i := (dn_request s ! i)[j := f (dn_request s ! i ! j)]]\<rparr>"

definition dn_add_request ::
  "nat \<Rightarrow> nat \<Rightarrow> int \<Rightarrow> int \<Rightarrow> int \<Rightarrow> 'a dense_scheme \<Rightarrow> 'a dense_scheme option" where
  "dn_add_request i j label in_pri out_pri s = do {
     ensure (i < al_inputs s \<and> j < al_outputs s);
     Some (dn_update i j (\<lambda>r. r\<lparr>rq_label := label, rq_in_pri := in_pri, rq_out_pri := out_pri\<rparr>) s)
   }"

definition dn_remove_request :: "nat \<Rightarrow> nat \<Rightarrow> 'a dense_scheme \<Rightarrow> 'a dense_scheme option" where
  "dn_remove_request i j s = do {
     ensure (i < al_inputs s \<and> j < al_outputs s);
     Some (dn_update i j (\<lambda>r. r\<lparr>rq_label := - 1\<rparr>) s)
   }"

definition dn_requested :: "'a dense_scheme \<Rightarrow> nat \<Rightarrow> nat \<Rightarrow> bool" where
  "dn_requested s i j \<longleftrightarrow> i < al_inputs s \<and> j < al_outputs s \<and> rq_label (dn_request s ! i ! j) \<noteq> - 1"

lemma set_match_dense [simp]: "dn_request (set_match i j s) = dn_request s"
  by (simp add: set_match_def)

lemma clear_matching_dense [simp]: "dn_request (clear_matching s) = dn_request s"
  by (simp add: clear_matching_def)

definition same_dense :: "'a dense_scheme \<Rightarrow> 'a dense_scheme \<Rightarrow> bool" where
  "same_dense s t \<longleftrightarrow> al_inputs t = al_inputs s \<and> al_outputs t = al_outputs s \<and> dn_request t = dn_request s"

lemma same_dense_requested: "same_dense s t \<Longrightarrow> dn_requested t = dn_requested s"
  by (auto simp: same_dense_def dn_requested_def fun_eq_iff)

subsection \<open>Wavefront\<close>

record wavefront = dense +
  wf_square :: nat
  wf_pri :: nat

definition wave_cell :: "nat \<Rightarrow> nat \<Rightarrow> wavefront \<Rightarrow> wavefront" where
  "wave_cell i j s =
     (if j < al_outputs s \<and> al_inmatch s ! i = None \<and> al_outmatch s ! j = None \<and>
         rq_label (dn_request s ! i ! j) \<noteq> - 1
      then set_match i j s else s)"

definition wave_diagonal :: "nat \<Rightarrow> wavefront \<Rightarrow> wavefront" where
  "wave_diagonal p s =
     snd (fold (\<lambda>i (j, s). ((j + 1) mod wf_square s, wave_cell i j s)) [0 ..< al_inputs s]
            ((wf_pri s + p) mod wf_square s, s))"

definition wave_allocate :: "wavefront \<Rightarrow> wavefront" where
  "wave_allocate s =
     (let s1 = fold wave_diagonal [0 ..< wf_square s] (clear_matching s) in
      s1\<lparr>wf_pri := (wf_pri s1 + 1) mod wf_square s1\<rparr>)"

definition wave_ok :: "wavefront \<Rightarrow> bool" where
  "wave_ok s \<longleftrightarrow> wf_square s = max (al_inputs s) (al_outputs s)"

definition same_wave :: "wavefront \<Rightarrow> wavefront \<Rightarrow> bool" where
  "same_wave s t \<longleftrightarrow> same_dense s t \<and> wf_square t = wf_square s \<and> wf_pri t = wf_pri s"

text \<open>From one state of a wavefront pass to a later one: matches are only added.\<close>

definition grows :: "wavefront \<Rightarrow> wavefront \<Rightarrow> bool" where
  "grows s t \<longleftrightarrow> same_wave s t \<and>
     (\<forall>i. al_inmatch s ! i \<noteq> None \<longrightarrow> al_inmatch t ! i \<noteq> None) \<and>
     (\<forall>j. al_outmatch s ! j \<noteq> None \<longrightarrow> al_outmatch t ! j \<noteq> None)"

lemma grows_refl [simp]: "grows s s"
  by (simp add: grows_def same_wave_def same_dense_def)

lemma grows_trans: "grows s t \<Longrightarrow> grows t u \<Longrightarrow> grows s u"
  by (simp add: grows_def same_wave_def same_dense_def)

lemma set_match_wave [simp]: "wf_square (set_match i j s) = wf_square s" "wf_pri (set_match i j s) = wf_pri s"
  by (simp_all add: set_match_def)

definition served :: "wavefront \<Rightarrow> nat \<Rightarrow> nat \<Rightarrow> bool" where
  "served s i j \<longleftrightarrow> (dn_requested s i j \<longrightarrow> al_inmatch s ! i \<noteq> None \<or> al_outmatch s ! j \<noteq> None)"

lemma served_grows: "grows s t \<Longrightarrow> served s i j \<Longrightarrow> served t i j"
  unfolding served_def grows_def same_wave_def using same_dense_requested by metis

lemma nth_update_ne: "xs ! k \<noteq> None \<Longrightarrow> xs[i := Some v] ! k \<noteq> None"
  by (cases "i < length xs") (auto simp: nth_list_update list_update_beyond)

lemma wave_cell_ok:
  assumes "legal_matching (dn_requested s) s" "i < al_inputs s"
  shows "legal_matching (dn_requested s) (wave_cell i j s)" "grows s (wave_cell i j s)"
    "served (wave_cell i j s) i j"
proof -
  let ?c = "j < al_outputs s \<and> al_inmatch s ! i = None \<and> al_outmatch s ! j = None \<and>
         rq_label (dn_request s ! i ! j) \<noteq> - 1"
  have g: "grows s (set_match i j s)"
    by (simp add: grows_def same_wave_def same_dense_def nth_update_ne)
  show "grows s (wave_cell i j s)" using g by (simp add: wave_cell_def)
  show "legal_matching (dn_requested s) (wave_cell i j s)"
  proof (cases ?c)
    case True
    then have "dn_requested s i j" using assms(2) by (simp add: dn_requested_def)
    then show ?thesis using True legal_set_match[OF assms] by (simp add: wave_cell_def)
  qed (use assms(1) in \<open>auto simp: wave_cell_def\<close>)
  show "served (wave_cell i j s) i j"
  proof (cases ?c)
    case True
    then show ?thesis using assms(2) legal_lengths[OF assms(1)] by (simp add: served_def wave_cell_def)
  next
    case False
    then have "wave_cell i j s = s" by (auto simp: wave_cell_def)
    then show ?thesis using False by (auto simp: served_def dn_requested_def)
  qed
qed

lemma wave_diagonal_loop:
  assumes "legal_matching (dn_requested s) s" "k \<le> al_inputs s" "j0 = (wf_pri s + p) mod wf_square s"
  shows "\<exists>t. fold (\<lambda>i (j, s). ((j + 1) mod wf_square s, wave_cell i j s)) [0 ..< k] (j0, s) =
      ((wf_pri s + p + k) mod wf_square s, t) \<and>
    legal_matching (dn_requested s) t \<and> grows s t \<and>
    (\<forall>i < k. served t i ((wf_pri s + p + i) mod wf_square s))"
  using assms(2)
proof (induction k)
  case 0
  then show ?case using assms(1,3) by simp
next
  case (Suc k)
  let ?j = "(wf_pri s + p + k) mod wf_square s"
  from Suc obtain t where t:
    "fold (\<lambda>i (j, s). ((j + 1) mod wf_square s, wave_cell i j s)) [0 ..< k] (j0, s) = (?j, t)"
    "legal_matching (dn_requested s) t" "grows s t"
    "\<forall>i < k. served t i ((wf_pri s + p + i) mod wf_square s)" by auto
  have same: "wf_square t = wf_square s" "dn_requested t = dn_requested s" "al_inputs t = al_inputs s"
    using t(3) same_dense_requested by (auto simp: grows_def same_wave_def same_dense_def)
  note c = wave_cell_ok[of t k ?j, unfolded same, OF t(2)]
  have k: "k < al_inputs s" using Suc.prems by simp
  have "\<forall>i < Suc k. served (wave_cell k ?j t) i ((wf_pri s + p + i) mod wf_square s)"
    using t(4) served_grows[OF c(2)[OF k]] c(3)[OF k] by (auto simp: less_Suc_eq)
  moreover have "(?j + 1) mod wf_square s = (wf_pri s + p + Suc k) mod wf_square s"
    by (simp add: mod_simps)
  ultimately show ?case using t(1) same c(1)[OF k] grows_trans[OF t(3) c(2)[OF k]] by simp
qed

lemma wave_diagonal_ok:
  assumes "legal_matching (dn_requested s) s"
  shows "legal_matching (dn_requested s) (wave_diagonal p s) \<and> grows s (wave_diagonal p s) \<and>
    (\<forall>i < al_inputs s. served (wave_diagonal p s) i ((wf_pri s + p + i) mod wf_square s))"
  using wave_diagonal_loop[OF assms order_refl refl, of p] by (auto simp: wave_diagonal_def)

lemma wave_diagonals_ok:
  assumes "legal_matching (dn_requested s) s"
  shows "legal_matching (dn_requested s) (fold wave_diagonal [0 ..< k] s) \<and>
    grows s (fold wave_diagonal [0 ..< k] s) \<and>
    (\<forall>p < k. \<forall>i < al_inputs s.
       served (fold wave_diagonal [0 ..< k] s) i ((wf_pri s + p + i) mod wf_square s))"
proof (induction k)
  case (Suc k)
  let ?t = "fold wave_diagonal [0 ..< k] s"
  have t: "legal_matching (dn_requested s) ?t" "grows s ?t"
    "\<And>p i. p < k \<Longrightarrow> i < al_inputs s \<Longrightarrow> served ?t i ((wf_pri s + p + i) mod wf_square s)"
    using Suc by auto
  have same: "wf_square ?t = wf_square s" "wf_pri ?t = wf_pri s" "dn_requested ?t = dn_requested s"
    "al_inputs ?t = al_inputs s"
    using t(2) same_dense_requested by (auto simp: grows_def same_wave_def same_dense_def)
  note d = wave_diagonal_ok[of ?t k, unfolded same, OF t(1)]
  have "\<forall>p < Suc k. \<forall>i < al_inputs s.
      served (wave_diagonal k ?t) i ((wf_pri s + p + i) mod wf_square s)"
    using t(3) served_grows d by (auto simp: less_Suc_eq)
  then show ?case using d grows_trans[OF t(2)] by simp
qed (use assms in simp)

text \<open>Every cell lies on one of the diagonals.\<close>

lemma on_some_diagonal:
  assumes "i < n" "j < (n :: nat)"
  shows "\<exists>p < n. (pri + p + i) mod n = j"
proof (intro exI conjI)
  let ?p = "(j + 2 * n - i - pri mod n) mod n"
  show "?p < n" using assms by simp
  have le: "i + pri mod n \<le> j + 2 * n" using assms pos_mod_bound mod_less_divisor[of n pri] by linarith
  have "(pri + ?p + i) mod n = (pri mod n + (j + 2 * n - i - pri mod n) + i) mod n"
    by (intro mod_add_cong refl) simp_all
  also have "pri mod n + (j + 2 * n - i - pri mod n) + i = j + 2 * n" using le by simp
  finally show "(pri + ?p + i) mod n = j" using assms(2) by simp
qed

lemma wave_allocate_ok:
  assumes "wave_ok s"
  shows "same_dense s (wave_allocate s) \<and> wave_ok (wave_allocate s) \<and>
    legal_matching (dn_requested s) (wave_allocate s) \<and> maximal_matching (dn_requested s) (wave_allocate s)"
proof -
  let ?c = "clear_matching s" and ?t = "fold wave_diagonal [0 ..< wf_square s] (clear_matching s)"
  have c: "wf_square ?c = wf_square s" "dn_requested ?c = dn_requested s" "same_dense s ?c"
    by (auto simp: clear_matching_def same_dense_def dn_requested_def fun_eq_iff)
  note d = wave_diagonals_ok[of ?c "wf_square s", unfolded c, OF legal_clear]
  have t: "legal_matching (dn_requested s) ?t" "grows ?c ?t" using d by auto
  have size: "al_inputs ?t = al_inputs s" "al_outputs ?t = al_outputs s" "dn_requested ?t = dn_requested s"
    "wf_square ?t = wf_square s" "dn_request ?t = dn_request s"
    using t(2) same_dense_requested c by (auto simp: grows_def same_wave_def same_dense_def)
  have m: "maximal_matching (dn_requested s) ?t"
    unfolding maximal_matching_def
  proof (intro allI impI)
    fix i j assume ij: "i < al_inputs ?t" "j < al_outputs ?t" "dn_requested s i j"
    have "i < wf_square s" "j < wf_square s" using ij size assms by (auto simp: wave_ok_def)
    from on_some_diagonal[OF this] obtain p where "p < wf_square s" "(wf_pri ?c + p + i) mod wf_square s = j"
      by blast
    then have "served ?t i j" using d ij size by auto
    then show "al_inmatch ?t ! i \<noteq> None \<or> al_outmatch ?t ! j \<noteq> None"
      using ij size by (simp add: served_def)
  qed
  have a: "wave_allocate s = ?t\<lparr>wf_pri := (wf_pri ?t + 1) mod wf_square ?t\<rparr>"
    by (simp add: wave_allocate_def Let_def)
  show ?thesis
    unfolding a using t(1) m size assms
    by (auto intro: legal_matching_more simp: same_dense_def wave_ok_def maximal_matching_def)
qed

interpretation wave_matcher: matcher wave_ok dn_requested "alloc_base.truncate" wave_allocate
proof unfold_locales
  fix s assume ok: "wave_ok s"
  note a = wave_allocate_ok[OF ok]
  show "wave_ok (wave_allocate s)" using a by simp
  show "dn_requested (wave_allocate s) = dn_requested s" using a same_dense_requested by blast
  show "al_inputs (alloc_base.truncate (wave_allocate s)) = al_inputs (alloc_base.truncate s) \<and>
    al_outputs (alloc_base.truncate (wave_allocate s)) = al_outputs (alloc_base.truncate s)"
    using a by (simp add: same_dense_def alloc_base.defs)
  have "legal_matching (dn_requested s) (wave_allocate s)" using a by simp
  then show "legal_matching (dn_requested s) (alloc_base.truncate (wave_allocate s))"
    by (rule legal_matching_more) (simp_all add: alloc_base.defs)
qed

text \<open>C35: \<open>Wavefront\<close> computes a legal matching that no request can be added to: every cell of the
  request matrix is visited, on whatever diagonal the priority starts.\<close>

theorem wavefront_maximal:
  assumes "wf_square s = max (al_inputs s) (al_outputs s)"
  shows "legal_matching (dn_requested s) (wave_allocate s) \<and>
    maximal_matching (dn_requested s) (wave_allocate s) \<and> dn_request (wave_allocate s) = dn_request s"
  using wave_allocate_ok[of s] assms by (simp add: wave_ok_def same_dense_def)

definition sample_wave :: wavefront where
  "sample_wave = \<lparr>al_inputs = 2, al_outputs = 3, al_inmatch = [None, None], al_outmatch = [None, None, None],
     al_outmask = [0, 0, 0],
     dn_request = [[\<lparr>rq_port = 0, rq_label = 1, rq_in_pri = 0, rq_out_pri = 0\<rparr>, no_request, no_request],
       [\<lparr>rq_port = 0, rq_label = 1, rq_in_pri = 0, rq_out_pri = 0\<rparr>, no_request, no_request]],
     wf_square = 3, wf_pri = 1\<rparr>"

theorem wavefront_maximal_witness:
  "maximal_matching (dn_requested sample_wave) (wave_allocate sample_wave)"
  using wavefront_maximal[of sample_wave] by (simp add: sample_wave_def)

subsection \<open>Lonely output allocation\<close>

text \<open>The constructor does not initialise \<open>_rptr\<close> and \<open>_gptr\<close>: their first values are whatever the
  state starts with.  All that is proved holds for any of them.\<close>

record loa = dense +
  loa_req :: "nat option list"
  loa_counts :: "nat list"
  loa_rptr :: "nat list"
  loa_gptr :: "nat list"

definition loa_count :: "loa \<Rightarrow> nat \<Rightarrow> nat" where
  "loa_count s j = (\<Sum>i \<leftarrow> [0 ..< al_inputs s]. if rq_label (dn_request s ! i ! j) \<noteq> - 1 then 1 else 0)"

definition loa_lonely :: "loa \<Rightarrow> nat \<Rightarrow> nat option" where
  "loa_lonely s i =
     fst (fold (\<lambda>k (lonely, cnt).
            let j = (k + loa_rptr s ! i) mod al_outputs s in
            if rq_label (dn_request s ! i ! j) \<noteq> - 1 \<and> loa_counts s ! j < cnt
            then (Some j, loa_counts s ! j) else (lonely, cnt))
          [0 ..< al_outputs s] (None, al_inputs s + 1))"

definition loa_grant :: "nat \<Rightarrow> loa \<Rightarrow> loa" where
  "loa_grant j s =
     (case find (\<lambda>i. loa_req s ! i = Some j)
             (map (\<lambda>i. (i + loa_gptr s ! j) mod al_inputs s) [0 ..< al_inputs s]) of
        None \<Rightarrow> s
      | Some i \<Rightarrow>
          (set_match i j s)\<lparr>loa_rptr := (loa_rptr s)[i := (loa_rptr s ! i + 1) mod al_outputs s],
                            loa_gptr := (loa_gptr s)[j := (loa_gptr s ! j + 1) mod al_inputs s]\<rparr>)"

definition loa_requests :: "loa \<Rightarrow> loa" where
  "loa_requests s =
     (let s1 = (clear_matching s)\<lparr>loa_counts := map (loa_count s) [0 ..< al_outputs s]\<rparr> in
      s1\<lparr>loa_req := map (loa_lonely s1) [0 ..< al_inputs s]\<rparr>)"

definition loa_allocate :: "loa \<Rightarrow> loa" where
  "loa_allocate s = fold loa_grant [0 ..< al_outputs s] (loa_requests s)"

lemma loa_requests_fields [simp]:
  "al_inputs (loa_requests s) = al_inputs s" "al_outputs (loa_requests s) = al_outputs s"
  "dn_request (loa_requests s) = dn_request s"
  "al_inmatch (loa_requests s) = replicate (al_inputs s) None"
  "al_outmatch (loa_requests s) = replicate (al_outputs s) None"
  by (simp_all add: loa_requests_def Let_def)

lemma sum_list_pos: "x \<in> set xs \<Longrightarrow> f x = (1 :: nat) \<Longrightarrow> 0 < (\<Sum>y \<leftarrow> xs. f y)"
  by (induction xs) auto

lemma sum_list_le: "(\<And>x. x \<in> set xs \<Longrightarrow> f x \<le> (1 :: nat)) \<Longrightarrow> (\<Sum>y \<leftarrow> xs. f y) \<le> length xs"
proof (induction xs)
  case (Cons a xs)
  from Cons.prems[of a] have "f a \<le> 1" by simp
  moreover have "(\<Sum>y \<leftarrow> xs. f y) \<le> length xs" by (rule Cons.IH) (use Cons.prems in simp)
  ultimately show ?case by simp
qed simp

text \<open>The lonely output of an input is one it requests, and there is one if it requests any.\<close>

lemma loa_lonely_fold:
  fixes s :: loa and i :: nat
  assumes "0 < al_outputs s" "\<And>j. j < al_outputs s \<Longrightarrow> loa_counts s ! j \<le> al_inputs s"
  defines "F \<equiv> fold (\<lambda>k (lonely, cnt).
            let j = (k + loa_rptr s ! i) mod al_outputs s in
            if rq_label (dn_request s ! i ! j) \<noteq> - 1 \<and> loa_counts s ! j < cnt
            then (Some j, loa_counts s ! j) else (lonely, cnt))"
  shows "\<exists>l c. F [0 ..< k] (None, al_inputs s + 1) = (l, c) \<and>
    (l = None \<longrightarrow> c = al_inputs s + 1 \<and>
       (\<forall>k' < k. rq_label (dn_request s ! i ! ((k' + loa_rptr s ! i) mod al_outputs s)) = - 1)) \<and>
    (\<forall>j. l = Some j \<longrightarrow> j < al_outputs s \<and> rq_label (dn_request s ! i ! j) \<noteq> - 1)"
proof (induction k)
  case (Suc k)
  let ?j = "(k + loa_rptr s ! i) mod al_outputs s"
  have j: "?j < al_outputs s" using assms(1) by simp
  from Suc obtain l c where f: "F [0 ..< k] (None, al_inputs s + 1) = (l, c)"
    "l = None \<Longrightarrow> c = al_inputs s + 1 \<and>
       (\<forall>k' < k. rq_label (dn_request s ! i ! ((k' + loa_rptr s ! i) mod al_outputs s)) = - 1)"
    "\<And>j. l = Some j \<Longrightarrow> j < al_outputs s \<and> rq_label (dn_request s ! i ! j) \<noteq> - 1" by auto
  show ?case
  proof (cases "rq_label (dn_request s ! i ! ?j) \<noteq> - 1 \<and> loa_counts s ! ?j < c")
    case True
    then have "F [0 ..< Suc k] (None, al_inputs s + 1) = (Some ?j, loa_counts s ! ?j)"
      using f(1) by (simp add: F_def Let_def)
    then show ?thesis using True j by simp
  next
    case False
    then have "F [0 ..< Suc k] (None, al_inputs s + 1) = (l, c)"
      using f(1) by (simp add: F_def Let_def)
    moreover have "rq_label (dn_request s ! i ! ?j) = - 1" if "l = None"
      using False f(2)[OF that] assms(2)[OF j] by auto
    ultimately show ?thesis using f(2,3) by (auto simp: less_Suc_eq)
  qed
qed (simp add: F_def)

lemma loa_lonely_spec:
  assumes "i < al_inputs s"
  defines "l \<equiv> loa_req (loa_requests s) ! i"
  shows "l = Some j \<Longrightarrow> dn_requested s i j" "l = None \<Longrightarrow> j < al_outputs s \<Longrightarrow> \<not> dn_requested s i j"
proof -
  let ?s1 = "(clear_matching s)\<lparr>loa_counts := map (loa_count s) [0 ..< al_outputs s]\<rparr>"
  have rp: "loa_rptr (clear_matching s) = loa_rptr s" by (simp add: clear_matching_def)
  have l: "l = loa_lonely ?s1 i" using assms(1) by (simp add: l_def loa_requests_def Let_def)
  have cnt: "loa_counts ?s1 ! j \<le> al_inputs ?s1" if "j < al_outputs ?s1" for j
    using that sum_list_le[of "[0 ..< al_inputs s]" "\<lambda>i. if rq_label (dn_request s ! i ! j) \<noteq> - 1 then 1 else 0"]
    by (simp add: loa_count_def)
  have fold: "(l = None \<longrightarrow>
       (\<forall>k' < al_outputs s. rq_label (dn_request s ! i ! ((k' + loa_rptr s ! i) mod al_outputs s)) = - 1)) \<and>
    (\<forall>j. l = Some j \<longrightarrow> j < al_outputs s \<and> rq_label (dn_request s ! i ! j) \<noteq> - 1)"
    if "0 < al_outputs s"
    using loa_lonely_fold[of ?s1 i "al_outputs s", OF _ cnt] that
    unfolding l loa_lonely_def by (auto simp: rp)
  show "l = Some j \<Longrightarrow> dn_requested s i j"
  proof (cases "0 < al_outputs s")
    case False
    then show "l = Some j \<Longrightarrow> dn_requested s i j" unfolding l by (simp add: loa_lonely_def)
  qed (use fold assms(1) in \<open>auto simp: dn_requested_def\<close>)
  assume n: "l = None" "j < al_outputs s"
  obtain k where "k < al_outputs s" "(k + loa_rptr s ! i) mod al_outputs s = j"
    using cyclic_hits[OF n(2)] .
  moreover from this(1) have "0 < al_outputs s" by simp
  ultimately have "rq_label (dn_request s ! i ! j) = - 1" using fold n(1) by blast
  then show "\<not> dn_requested s i j" by (simp add: dn_requested_def)
qed

lemma loa_grant_cases:
  obtains (none) "loa_grant j s = s" "\<forall>i < al_inputs s. loa_req s ! i \<noteq> Some j \<or> al_inputs s = 0"
  | (some) i where "i < al_inputs s" "loa_req s ! i = Some j" "same_match (set_match i j s) (loa_grant j s)"
proof (cases "find (\<lambda>i. loa_req s ! i = Some j)
             (map (\<lambda>i. (i + loa_gptr s ! j) mod al_inputs s) [0 ..< al_inputs s])")
  case None
  let ?n = "al_inputs s" and ?off = "loa_gptr s ! j"
  have "loa_req s ! i \<noteq> Some j" if i: "i < ?n" for i
  proof -
    obtain k where "k < ?n" "(k + ?off) mod ?n = i" using cyclic_hits[OF i] .
    then have "i \<in> set (map (\<lambda>i. (i + ?off) mod ?n) [0 ..< ?n])" by (force simp: image_iff)
    then show ?thesis using None unfolding find_None_iff by blast
  qed
  then show ?thesis using None none by (simp add: loa_grant_def)
next
  case (Some i)
  from find_Some_in[OF Some] have "i < al_inputs s" "loa_req s ! i = Some j" by auto
  then show ?thesis using Some some by (simp add: loa_grant_def same_match_def)
qed

lemma loa_grant_same: "loa_req (loa_grant j s) = loa_req s" "same_dense s (loa_grant j s)"
  by (simp_all add: loa_grant_def same_dense_def set_match_def split: option.splits)

lemma loa_grants_served:
  assumes "length (al_outmatch s) = al_outputs s" "k \<le> al_outputs s"
  shows "same_dense s (fold loa_grant [0 ..< k] s) \<and> loa_req (fold loa_grant [0 ..< k] s) = loa_req s \<and>
    length (al_outmatch (fold loa_grant [0 ..< k] s)) = al_outputs s \<and>
    (\<forall>j < k. \<forall>i < al_inputs s. loa_req s ! i = Some j \<longrightarrow> al_outmatch (fold loa_grant [0 ..< k] s) ! j \<noteq> None)"
  using assms(2)
proof (induction k)
  case (Suc k)
  let ?t = "fold loa_grant [0 ..< k] s"
  have t: "same_dense s ?t" "loa_req ?t = loa_req s" "length (al_outmatch ?t) = al_outputs s"
    "\<And>j i. j < k \<Longrightarrow> i < al_inputs s \<Longrightarrow> loa_req s ! i = Some j \<Longrightarrow> al_outmatch ?t ! j \<noteq> None"
    using Suc by auto
  have sd: "same_dense s (loa_grant k ?t)"
    using t(1) loa_grant_same(2)[of ?t k] by (simp add: same_dense_def)
  have "length (al_outmatch (loa_grant k ?t)) = al_outputs s \<and>
    (\<forall>j < Suc k. \<forall>i < al_inputs s. loa_req s ! i = Some j \<longrightarrow> al_outmatch (loa_grant k ?t) ! j \<noteq> None)"
  proof (cases rule: loa_grant_cases[of k ?t])
    case none
    then show ?thesis using t by (auto simp: less_Suc_eq same_dense_def)
  next
    case (some i)
    have "al_outmatch (loa_grant k ?t) = (al_outmatch ?t)[k := Some i]"
      using some(3) by (simp add: same_match_def)
    then show ?thesis using t(3,4) Suc.prems by (auto simp: less_Suc_eq nth_list_update)
  qed
  then show ?case using sd loa_grant_same(1)[of k ?t] t(2) by simp
qed (use assms in \<open>simp add: same_dense_def\<close>)

lemma loa_legal:
  "legal_matching (dn_requested s) (loa_allocate s) \<and> same_dense s (loa_allocate s)"
proof -
  let ?s = "loa_requests s"
  have sd: "same_dense s ?s" by (simp add: same_dense_def)
  have start: "legal_matching (dn_requested s) ?s"
    by (rule legal_matching_more[OF legal_clear[of _ s]]) simp_all
  have "legal_matching (dn_requested s) (fold loa_grant [0 ..< al_outputs s] ?s) \<and>
    (same_dense s (fold loa_grant [0 ..< al_outputs s] ?s) \<and>
     loa_req (fold loa_grant [0 ..< al_outputs s] ?s) = loa_req ?s) \<and>
    al_inputs (fold loa_grant [0 ..< al_outputs s] ?s) = al_inputs ?s \<and>
    al_outputs (fold loa_grant [0 ..< al_outputs s] ?s) = al_outputs ?s"
  proof (rule match_fold_legal[OF start, where g = "\<lambda>x i j. j = x \<and> i < al_inputs s \<and> loa_req ?s ! i = Some j"
        and P = "\<lambda>t. same_dense s t \<and> loa_req t = loa_req ?s"])
    show "i < al_inputs ?s \<and> j < al_outputs ?s \<and> dn_requested s i j \<and>
       al_inmatch ?s ! i = None \<and> al_outmatch ?s ! j = None"
      if "x \<in> set [0 ..< al_outputs s]" "j = x \<and> i < al_inputs s \<and> loa_req ?s ! i = Some j" for x i j
      using that loa_lonely_spec(1)[of i s j] by simp
    show "i \<noteq> i' \<and> j \<noteq> j'"
      if "x \<noteq> y" "j = x \<and> i < al_inputs s \<and> loa_req ?s ! i = Some j"
        "j' = y \<and> i' < al_inputs s \<and> loa_req ?s ! i' = Some j'" for x y i j i' j'
      using that by auto
    show "(same_dense s (loa_grant x t) \<and> loa_req (loa_grant x t) = loa_req ?s) \<and>
      (same_match t (loa_grant x t) \<or>
       (\<exists>i j. (j = x \<and> i < al_inputs s \<and> loa_req ?s ! i = Some j) \<and> same_match (set_match i j t) (loa_grant x t)))"
      if "same_dense s t \<and> loa_req t = loa_req ?s" for x t
    proof -
      have "same_dense s (loa_grant x t)" using that loa_grant_same(2)[of t x] by (simp add: same_dense_def)
      moreover have "same_match t (loa_grant x t) \<or>
       (\<exists>i j. (j = x \<and> i < al_inputs s \<and> loa_req ?s ! i = Some j) \<and> same_match (set_match i j t) (loa_grant x t))"
        by (cases rule: loa_grant_cases[of x t]) (use that in \<open>auto simp: same_dense_def\<close>)
      ultimately show ?thesis using that loa_grant_same(1)[of x t] by simp
    qed
  qed (use sd in auto)
  then show ?thesis by (simp add: loa_allocate_def)
qed

interpretation loa_matcher: matcher "\<lambda>_. True" dn_requested "alloc_base.truncate" loa_allocate
proof unfold_locales
  fix s
  have sd: "same_dense s (loa_allocate s)" using loa_legal by blast
  show "dn_requested (loa_allocate s) = dn_requested s" by (rule same_dense_requested[OF sd])
  show "al_inputs (alloc_base.truncate (loa_allocate s)) = al_inputs (alloc_base.truncate s) \<and>
    al_outputs (alloc_base.truncate (loa_allocate s)) = al_outputs (alloc_base.truncate s)"
    using sd by (simp add: same_dense_def alloc_base.defs)
  show "legal_matching (dn_requested s) (alloc_base.truncate (loa_allocate s))"
    by (rule legal_matching_more[OF conjunct1[OF loa_legal]]) (simp_all add: alloc_base.defs)
qed simp

text \<open>\<open>LOA\<close> computes a legal matching whatever the pointers start with, and of the outputs any
  input requests at least one is matched: no requesting input can find all it asked for idle.\<close>

theorem loa_legal_progress:
  "legal_matching (dn_requested s) (loa_allocate s) \<and>
   (\<forall>i j. dn_requested s i j \<longrightarrow> (\<exists>j'. dn_requested s i j' \<and> al_outmatch (loa_allocate s) ! j' \<noteq> None))"
proof (intro conjI allI impI)
  show "legal_matching (dn_requested s) (loa_allocate s)" using loa_legal by blast
next
  fix i j assume r: "dn_requested s i j"
  then have ij: "i < al_inputs s" "j < al_outputs s" by (auto simp: dn_requested_def)
  with r loa_lonely_spec(2)[of i s j] obtain j' where j': "loa_req (loa_requests s) ! i = Some j'" by auto
  have "dn_requested s i j'" using loa_lonely_spec(1)[OF ij(1) j'] .
  moreover from this have "j' < al_outputs s" by (simp add: dn_requested_def)
  ultimately show "\<exists>j'. dn_requested s i j' \<and> al_outmatch (loa_allocate s) ! j' \<noteq> None"
    using loa_grants_served[of "loa_requests s" "al_outputs s"] ij j' by (auto simp: loa_allocate_def)
qed

subsection \<open>PIM\<close>

text \<open>\<open>rnd n\<close> is the result of the \<open>n\<close>-th call of \<open>ran_next()\<close> since the allocation began;
  \<open>RandomInt( max )\<close> reduces it modulo \<open>max + 1\<close>.  An iteration draws once for every output and then
  once for every input.\<close>

record pim = dense +
  pim_iter :: int
  pim_grants :: "nat option list"

definition pim_grant :: "(nat \<Rightarrow> nat) \<Rightarrow> nat \<Rightarrow> pim \<Rightarrow> nat \<Rightarrow> nat option" where
  "pim_grant rnd b s j =
     find (\<lambda>i. rq_label (dn_request s ! i ! j) \<noteq> - 1 \<and> al_inmatch s ! i = None \<and> al_outmatch s ! j = None)
       (map (\<lambda>i. (i + rnd (b + j) mod al_inputs s) mod al_inputs s) [0 ..< al_inputs s])"

definition pim_accept :: "(nat \<Rightarrow> nat) \<Rightarrow> nat \<Rightarrow> nat \<Rightarrow> pim \<Rightarrow> pim" where
  "pim_accept rnd b i s =
     (case find (\<lambda>j. pim_grants s ! j = Some i)
             (map (\<lambda>k. (k + rnd (b + i) mod al_outputs s) mod al_outputs s) [0 ..< al_outputs s]) of
        None \<Rightarrow> s
      | Some j \<Rightarrow> set_match i j s)"

definition pim_iteration :: "(nat \<Rightarrow> nat) \<Rightarrow> nat \<Rightarrow> pim \<Rightarrow> pim" where
  "pim_iteration rnd b s =
     fold (pim_accept rnd (b + al_outputs s)) [0 ..< al_inputs s]
       (s\<lparr>pim_grants := map (pim_grant rnd b s) [0 ..< al_outputs s]\<rparr>)"

definition pim_allocate :: "(nat \<Rightarrow> nat) \<Rightarrow> pim \<Rightarrow> pim" where
  "pim_allocate rnd s =
     fold (\<lambda>iter. pim_iteration rnd (iter * (al_outputs s + al_inputs s))) [0 ..< nat (pim_iter s)]
       (clear_matching s)"

lemma pim_iteration_legal:
  assumes "legal_matching (dn_requested s) s"
  shows "legal_matching (dn_requested s) (pim_iteration rnd b s) \<and> same_dense s (pim_iteration rnd b s)"
proof -
  let ?G = "map (pim_grant rnd b s) [0 ..< al_outputs s]"
  let ?s = "s\<lparr>pim_grants := ?G\<rparr>"
  have start: "legal_matching (dn_requested s) ?s" by (rule legal_matching_more[OF assms]) simp_all
  have g: "i < al_inputs s \<and> dn_requested s i j \<and> al_inmatch s ! i = None \<and> al_outmatch s ! j = None"
    if "j < al_outputs s" "?G ! j = Some i" for i j
  proof -
    have "pim_grant rnd b s j = Some i" using that by simp
    from find_Some_in[OF this[unfolded pim_grant_def]] that(1) show ?thesis by (auto simp: dn_requested_def)
  qed
  have "legal_matching (dn_requested s) (fold (pim_accept rnd (b + al_outputs s)) [0 ..< al_inputs s] ?s) \<and>
    (same_dense s (fold (pim_accept rnd (b + al_outputs s)) [0 ..< al_inputs s] ?s) \<and>
     pim_grants (fold (pim_accept rnd (b + al_outputs s)) [0 ..< al_inputs s] ?s) = ?G) \<and>
    al_inputs (fold (pim_accept rnd (b + al_outputs s)) [0 ..< al_inputs s] ?s) = al_inputs ?s \<and>
    al_outputs (fold (pim_accept rnd (b + al_outputs s)) [0 ..< al_inputs s] ?s) = al_outputs ?s"
  proof (rule match_fold_legal[OF start, where g = "\<lambda>x i j. i = x \<and> j < al_outputs s \<and> ?G ! j = Some i"
        and P = "\<lambda>t. same_dense s t \<and> pim_grants t = ?G"])
    show "i < al_inputs ?s \<and> j < al_outputs ?s \<and> dn_requested s i j \<and>
       al_inmatch ?s ! i = None \<and> al_outmatch ?s ! j = None"
      if "i = x \<and> j < al_outputs s \<and> ?G ! j = Some i" for x i j
      using g[of j i] that by simp
    show "i \<noteq> i' \<and> j \<noteq> j'"
      if "x \<noteq> y" "i = x \<and> j < al_outputs s \<and> ?G ! j = Some i"
        "i' = y \<and> j' < al_outputs s \<and> ?G ! j' = Some i'" for x y i j i' j'
      using that by auto
    show "(same_dense s (pim_accept rnd (b + al_outputs s) x t) \<and> pim_grants (pim_accept rnd (b + al_outputs s) x t) = ?G) \<and>
      (same_match t (pim_accept rnd (b + al_outputs s) x t) \<or>
       (\<exists>i j. (i = x \<and> j < al_outputs s \<and> ?G ! j = Some i) \<and>
          same_match (set_match i j t) (pim_accept rnd (b + al_outputs s) x t)))"
      if "same_dense s t \<and> pim_grants t = ?G" for x t
    proof (cases "find (\<lambda>j. pim_grants t ! j = Some x)
             (map (\<lambda>k. (k + rnd (b + al_outputs s + x) mod al_outputs t) mod al_outputs t) [0 ..< al_outputs t])")
      case None
      then have "pim_accept rnd (b + al_outputs s) x t = t" by (simp add: pim_accept_def)
      then show ?thesis using that by simp
    next
      case (Some j)
      from find_Some_in[OF Some] that have "j < al_outputs s \<and> ?G ! j = Some x"
        by (auto simp: same_dense_def)
      moreover have "pim_accept rnd (b + al_outputs s) x t = set_match x j t"
        using Some by (simp add: pim_accept_def)
      moreover have "pim_grants (set_match x j t) = pim_grants t" by (simp add: set_match_def)
      ultimately show ?thesis using that by (auto simp: same_dense_def)
    qed
  qed (auto simp: same_dense_def)
  then show ?thesis by (simp add: pim_iteration_def)
qed

lemma pim_legal: "legal_matching (dn_requested s) (pim_allocate rnd s) \<and> same_dense s (pim_allocate rnd s)"
proof -
  have run: "legal_matching (dn_requested s) (fold (\<lambda>iter. pim_iteration rnd (f iter)) xs t) \<and>
    same_dense s (fold (\<lambda>iter. pim_iteration rnd (f iter)) xs t)"
    if "legal_matching (dn_requested s) t" "same_dense s t" for f t and xs :: "nat list"
    using that
  proof (induction xs arbitrary: t)
    case (Cons x xs)
    have "dn_requested t = dn_requested s" by (rule same_dense_requested[OF Cons.prems(2)])
    with pim_iteration_legal[of t rnd "f x"] Cons.prems
    have "legal_matching (dn_requested s) (pim_iteration rnd (f x) t) \<and> same_dense s (pim_iteration rnd (f x) t)"
      by (simp add: same_dense_def)
    then show ?case using Cons.IH by simp
  qed simp
  have "same_dense s (clear_matching s)" by (simp add: same_dense_def)
  from run[OF legal_clear this] show ?thesis unfolding pim_allocate_def .
qed

interpretation pim_matcher: matcher "\<lambda>_. True" dn_requested "alloc_base.truncate" "pim_allocate rnd"
proof unfold_locales
  fix s
  have sd: "same_dense s (pim_allocate rnd s)" using pim_legal by blast
  show "dn_requested (pim_allocate rnd s) = dn_requested s" by (rule same_dense_requested[OF sd])
  show "al_inputs (alloc_base.truncate (pim_allocate rnd s)) = al_inputs (alloc_base.truncate s) \<and>
    al_outputs (alloc_base.truncate (pim_allocate rnd s)) = al_outputs (alloc_base.truncate s)"
    using sd by (simp add: same_dense_def alloc_base.defs)
  show "legal_matching (dn_requested s) (alloc_base.truncate (pim_allocate rnd s))"
    by (rule legal_matching_more[OF conjunct1[OF pim_legal]]) (simp_all add: alloc_base.defs)
qed simp

end
