(* ===== verification/IQRouter.thy ===== *)
theory IQRouter
  imports BufferState VChannel ISlip DenseAlloc
begin

text \<open>
  The input queued router (\<open>src/intersim/iq_router.cpp\<close>, \<open>router.cpp\<close>): flits wait in the virtual
  channels of their input, a packet is routed, wins an output virtual channel in \<open>_VCAlloc\<close>, and its
  flits cross the switch one by one as \<open>_SWAlloc\<close> grants them, while credits travel back.

  The allocators are reached through virtual functions: \<open>alloc_ops\<close> is their table, and the router
  is polymorphic in the two allocators' states.  Channels are the \<open>flit option\<close> (or
  \<open>credit option\<close>) a neighbour left on them; the network copies them between the routers.  A flit
  pointer is in one place at a time, so flits are values.  The energy counters and the debugging
  output are left out.
\<close>

record 's alloc_ops =
  ao_clear :: "'s \<Rightarrow> 's"
  ao_add_request :: "nat \<Rightarrow> nat \<Rightarrow> int \<Rightarrow> int \<Rightarrow> int \<Rightarrow> 's \<Rightarrow> 's option"
  ao_read_request :: "'s \<Rightarrow> nat \<Rightarrow> nat \<Rightarrow> int option"
  ao_allocate :: "'s \<Rightarrow> 's"
  ao_input_assigned :: "'s \<Rightarrow> nat \<Rightarrow> nat option option"
  ao_output_assigned :: "'s \<Rightarrow> nat \<Rightarrow> nat option option"

definition islip_ops :: "islip alloc_ops" where
  "islip_ops = \<lparr>ao_clear = sp_clear, ao_add_request = sp_add_request, ao_read_request = sp_read_request,
     ao_allocate = islip_allocate, ao_input_assigned = input_assigned, ao_output_assigned = output_assigned\<rparr>"

record iq_config =
  qc_noc :: noc_config
  qc_inputs :: nat
  qc_outputs :: nat
  qc_routing_delay :: int
  qc_vc_alloc_delay :: int
  qc_st_prepare_delay :: nat
  qc_st_final_delay :: nat
  qc_credit_delay :: nat
  qc_input_speedup :: nat
  qc_output_speedup :: nat
  qc_output_extra_latency :: int
  qc_hold_switch_for_packet :: bool

record ('v, 'w) iq_router =
  iq_cfg :: iq_config
  iq_vcs :: nat
  iq_time :: int
  iq_vc :: "vc list list"
  iq_next_vcs :: "buffer_state list"
  iq_vc_allocator :: 'v
  iq_sw_allocator :: 'w
  iq_sw_rr_offset :: "nat list"
  iq_crossbar_pipe :: "flit pipeline_fifo"
  iq_credit_pipe :: "credit pipeline_fifo"
  iq_input_buffer :: "flit list list"
  iq_output_buffer :: "(flit \<times> int) list list"
  iq_in_cred_buffer :: "credit list list"
  iq_out_cred_buffer :: "credit list list"
  iq_switch_hold_in :: "nat option list"
  iq_switch_hold_vc :: "nat option list"
  iq_switch_hold_out :: "nat option list"

text \<open>The constructor; \<open>new_alloc inputs outputs\<close> makes the allocators.\<close>

definition new_iq_router ::
  "iq_config \<Rightarrow> int \<Rightarrow> int \<Rightarrow> (nat \<Rightarrow> nat \<Rightarrow> 'v) \<Rightarrow> (nat \<Rightarrow> nat \<Rightarrow> 'w) \<Rightarrow> ('v, 'w) iq_router option" where
  "new_iq_router c ratio net new_vc_alloc new_sw_alloc =
     (let vcs = network_vcs (nc_num_vcs (qc_noc c)) ratio net;
          n = nat vcs; ei = qc_inputs c * qc_input_speedup c; eo = qc_outputs c * qc_output_speedup c in do {
        ensure (0 \<le> vcs);
        b \<leftarrow> bs_init (qc_noc c) ratio net;
        Some \<lparr>iq_cfg = c, iq_vcs = n, iq_time = 0,
          iq_vc = replicate (qc_inputs c) (replicate n (vc_init (nc_vc_buf_size (qc_noc c)) (qc_outputs c))),
          iq_next_vcs = replicate (qc_outputs c) b,
          iq_vc_allocator = new_vc_alloc (n * qc_inputs c) (n * qc_outputs c),
          iq_sw_allocator = new_sw_alloc ei eo,
          iq_sw_rr_offset = replicate ei 0,
          iq_crossbar_pipe = new_pipeline_fifo eo (qc_st_prepare_delay c + qc_st_final_delay c),
          iq_credit_pipe = new_pipeline_fifo (qc_inputs c) (qc_credit_delay c),
          iq_input_buffer = replicate (qc_inputs c) [], iq_output_buffer = replicate (qc_outputs c) [],
          iq_in_cred_buffer = replicate (qc_inputs c) [], iq_out_cred_buffer = replicate (qc_outputs c) [],
          iq_switch_hold_in = replicate ei None, iq_switch_hold_vc = replicate ei None,
          iq_switch_hold_out = replicate eo None\<rparr>
      })"

abbreviation iq_inputs :: "('v, 'w) iq_router \<Rightarrow> nat" where
  "iq_inputs r \<equiv> qc_inputs (iq_cfg r)"

abbreviation iq_outputs :: "('v, 'w) iq_router \<Rightarrow> nat" where
  "iq_outputs r \<equiv> qc_outputs (iq_cfg r)"

definition get_vc :: "('v, 'w) iq_router \<Rightarrow> nat \<Rightarrow> nat \<Rightarrow> vc" where
  "get_vc r i v = iq_vc r ! i ! v"

definition set_vc :: "nat \<Rightarrow> nat \<Rightarrow> vc \<Rightarrow> ('v, 'w) iq_router \<Rightarrow> ('v, 'w) iq_router" where
  "set_vc i v x r = r\<lparr>iq_vc := (iq_vc r)[i := (iq_vc r ! i)[v := x]]\<rparr>"

definition set_next :: "nat \<Rightarrow> buffer_state \<Rightarrow> ('v, 'w) iq_router \<Rightarrow> ('v, 'w) iq_router" where
  "set_next j b r = r\<lparr>iq_next_vcs := (iq_next_vcs r)[j := b]\<rparr>"

text \<open>\<open>for input, for vc\<close>.\<close>

definition all_vcs :: "nat \<Rightarrow> nat \<Rightarrow> (nat \<times> nat) list" where
  "all_vcs n vcs = List.product [0 ..< n] [0 ..< vcs]"

subsection \<open>Receiving\<close>

definition receive_flits :: "flit option list \<Rightarrow> ('v, 'w) iq_router \<Rightarrow> ('v, 'w) iq_router" where
  "receive_flits ch r =
     r\<lparr>iq_input_buffer := map (\<lambda>i. iq_input_buffer r ! i @ (case ch ! i of Some f \<Rightarrow> [f] | None \<Rightarrow> []))
                            [0 ..< iq_inputs r]\<rparr>"

definition receive_credits :: "credit option list \<Rightarrow> ('v, 'w) iq_router \<Rightarrow> ('v, 'w) iq_router" where
  "receive_credits ch r =
     r\<lparr>iq_out_cred_buffer := map (\<lambda>j. iq_out_cred_buffer r ! j @ (case ch ! j of Some c \<Rightarrow> [c] | None \<Rightarrow> []))
                               [0 ..< iq_outputs r]\<rparr>"

definition read_inputs ::
  "flit option list \<Rightarrow> credit option list \<Rightarrow> ('v, 'w) iq_router \<Rightarrow> ('v, 'w) iq_router" where
  "read_inputs fs cs r = receive_credits cs (receive_flits fs r)"

subsection \<open>\<open>_InputQueuing\<close> and \<open>_Route\<close>\<close>

definition queue_flit :: "nat \<Rightarrow> ('v, 'w) iq_router \<Rightarrow> ('v, 'w) iq_router option" where
  "queue_flit i r =
     (case iq_input_buffer r ! i of
        [] \<Rightarrow> Some r
      | f # fs \<Rightarrow> do {
          ensure (0 \<le> fl_vc f \<and> nat (fl_vc f) < iq_vcs r);
          (case vc_add_flit f (get_vc r i (nat (fl_vc f))) of (ok, v) \<Rightarrow>
             if ok then Some (set_vc i (nat (fl_vc f)) v (r\<lparr>iq_input_buffer := (iq_input_buffer r)[i := fs]\<rparr>))
             else None) })"

definition start_packet :: "routing_function \<Rightarrow> nat \<times> nat \<Rightarrow> ('v, 'w) iq_router \<Rightarrow> ('v, 'w) iq_router option" where
  "start_packet rf iv r = (let (i, v) = iv; cv = get_vc r i v in
     if vc_st cv = idle then
       (case vc_front_flit cv of
          None \<Rightarrow> Some r
        | Some f \<Rightarrow> do {
            ensure (fl_head f);
            cv' \<leftarrow> vc_route rf f (int i) cv;
            Some (set_vc i v (vc_set_state routing cv') r) })
     else Some r)"

definition queue_credit :: "nat \<Rightarrow> ('v, 'w) iq_router \<Rightarrow> ('v, 'w) iq_router option" where
  "queue_credit j r =
     (case iq_out_cred_buffer r ! j of
        [] \<Rightarrow> Some r
      | c # cs \<Rightarrow> do {
          b \<leftarrow> process_credit c (iq_next_vcs r ! j);
          Some (set_next j b (r\<lparr>iq_out_cred_buffer := (iq_out_cred_buffer r)[j := cs]\<rparr>)) })"

definition input_queuing :: "routing_function \<Rightarrow> ('v, 'w) iq_router \<Rightarrow> ('v, 'w) iq_router option" where
  "input_queuing rf r = do {
     r1 \<leftarrow> fold_opt queue_flit [0 ..< iq_inputs r] r;
     r2 \<leftarrow> fold_opt (start_packet rf) (all_vcs (iq_inputs r) (iq_vcs r)) r1;
     fold_opt queue_credit [0 ..< iq_outputs r] r2
   }"

definition route_vc :: "nat \<times> nat \<Rightarrow> ('v, 'w) iq_router \<Rightarrow> ('v, 'w) iq_router" where
  "route_vc iv r = (let (i, v) = iv; cv = get_vc r i v in
     if vc_st cv = routing \<and> qc_routing_delay (iq_cfg r) \<le> vc_state_time cv
     then set_vc i v (vc_set_state vc_alloc cv) r else r)"

definition route_all :: "('v, 'w) iq_router \<Rightarrow> ('v, 'w) iq_router" where
  "route_all r = fold route_vc (all_vcs (iq_inputs r) (iq_vcs r)) r"

subsection \<open>\<open>_VCAlloc\<close>\<close>

text \<open>One channel of one output the packet may take.\<close>

definition add_vc_request ::
  "'v alloc_ops \<Rightarrow> ('v, 'w) iq_router \<Rightarrow> vc \<Rightarrow> nat \<Rightarrow> nat \<Rightarrow> nat \<Rightarrow> 'v \<Rightarrow> 'v option" where
  "add_vc_request vo r cv input_index j k al = do {
     (out_vc, in_pri) \<leftarrow> os_get_vc (vc_route_set cv) (int j) (int k);
     av \<leftarrow> is_available_for (iq_next_vcs r ! j) out_vc;
     if av then ao_add_request vo input_index (j * iq_vcs r + nat out_vc) 1 in_pri (vc_pri cv) al
     else Some al
   }"

definition add_vc_requests ::
  "'v alloc_ops \<Rightarrow> ('v, 'w) iq_router \<Rightarrow> vc \<Rightarrow> nat \<Rightarrow> 'v \<Rightarrow> 'v option" where
  "add_vc_requests vo r cv input_index al =
     fold_opt (\<lambda>j al. do {
       cnt \<leftarrow> os_num_vcs (vc_route_set cv) (int j);
       fold_opt (add_vc_request vo r cv input_index j) [0 ..< nat cnt] al }) [0 ..< iq_outputs r] al"

definition vc_request ::
  "'v alloc_ops \<Rightarrow> ('v, 'w) iq_router \<Rightarrow> nat \<times> nat \<Rightarrow> 'v \<Rightarrow> 'v option" where
  "vc_request vo r iv al = (let (i, v) = iv; cv = get_vc r i v in
     if vc_st cv = vc_alloc \<and> qc_vc_alloc_delay (iq_cfg r) \<le> vc_state_time cv then do {
       ensure (\<not> vc_empty cv);
       add_vc_requests vo r cv (i * iq_vcs r + v) al }
     else Some al)"

definition vc_grant ::
  "'v alloc_ops \<Rightarrow> nat \<times> nat \<Rightarrow> ('v, 'w) iq_router \<Rightarrow> ('v, 'w) iq_router option" where
  "vc_grant vo jv r = (let (j, v) = jv in do {
     a \<leftarrow> ao_input_assigned vo (iq_vc_allocator r) (j * iq_vcs r + v);
     (case a of
        None \<Rightarrow> Some r
      | Some input_and_vc \<Rightarrow>
          (let mi = input_and_vc div iq_vcs r; mv = input_and_vc - mi * iq_vcs r;
               cv = vc_set_output j v (vc_set_state active (get_vc r mi mv)) in do {
             b \<leftarrow> take_buffer (int v) (iq_next_vcs r ! j);
             ensure (\<not> vc_empty cv);
             Some (set_next j b (set_vc mi mv cv r)) })) })"

definition vc_alloc_step :: "'v alloc_ops \<Rightarrow> ('v, 'w) iq_router \<Rightarrow> ('v, 'w) iq_router option" where
  "vc_alloc_step vo r = do {
     al \<leftarrow> fold_opt (vc_request vo r) (all_vcs (iq_inputs r) (iq_vcs r)) (ao_clear vo (iq_vc_allocator r));
     fold_opt (vc_grant vo) (all_vcs (iq_outputs r) (iq_vcs r))
       (r\<lparr>iq_vc_allocator := ao_allocate vo al\<rparr>)
   }"

subsection \<open>\<open>_SWAlloc\<close>\<close>

text \<open>One turn of the loop over the channels of an input: \<open>vc\<close> and the allocator.\<close>

definition sw_request_vc ::
  "'w alloc_ops \<Rightarrow> ('v, 'w) iq_router \<Rightarrow> nat \<Rightarrow> nat \<Rightarrow> nat \<times> 'w \<Rightarrow> (nat \<times> 'w) option" where
  "sw_request_vc so r i s va = (let (v, al) = va; c = iq_cfg r; nxt = (v + 1) mod iq_vcs r;
       ei = s * iq_inputs r + i; cv = get_vc r i v in
     if v mod qc_input_speedup c \<noteq> s then Some (nxt, al)
     else if vc_st cv = active \<and> \<not> vc_empty cv then do {
       op \<leftarrow> vc_out_port cv;
       ov \<leftarrow> vc_out_vc cv;
       full \<leftarrow> is_full_for (iq_next_vcs r ! op) (int ov);
       (if full then Some (nxt, al)
        else do {
          ensure (ei = (v mod qc_input_speedup c) * iq_inputs r + i);
          let eo = (i mod qc_output_speedup c) * iq_outputs r + op;
          (if iq_switch_hold_in r ! ei = None \<and> iq_switch_hold_out r ! eo = None then do {
             al' \<leftarrow> ao_add_request so ei eo (int v) (vc_pri cv) (vc_pri cv) al;
             Some (nxt, al') }
           else Some (nxt, al)) }) }
     else Some (nxt, al))"

definition sw_request_input ::
  "'w alloc_ops \<Rightarrow> ('v, 'w) iq_router \<Rightarrow> nat \<times> nat \<Rightarrow> 'w \<Rightarrow> 'w option" where
  "sw_request_input so r is al = (let (i, s) = is in
     map_option snd (fold_opt (\<lambda>_. sw_request_vc so r i s) [0 ..< iq_vcs r]
       (iq_sw_rr_offset r ! (s * iq_inputs r + i), al)))"

text \<open>The expanded output an expanded input sends to, and the channel: held or granted.\<close>

definition sw_winner ::
  "'w alloc_ops \<Rightarrow> ('v, 'w) iq_router \<Rightarrow> nat \<Rightarrow> nat \<Rightarrow> (nat \<times> nat) option option" where
  "sw_winner so r i ei =
     (case iq_switch_hold_in r ! ei of
        Some eo \<Rightarrow> do {
          v \<leftarrow> iq_switch_hold_vc r ! ei;
          Some (if vc_empty (get_vc r i v) then None else Some (eo, v)) }
      | None \<Rightarrow> do {
          a \<leftarrow> ao_output_assigned so (iq_sw_allocator r) ei;
          (case a of
             None \<Rightarrow> Some None
           | Some eo \<Rightarrow> do {
               l \<leftarrow> ao_read_request so (iq_sw_allocator r) ei eo;
               ensure (0 \<le> l \<and> nat l < iq_vcs r);
               Some (Some (eo, nat l)) }) })"

text \<open>
  The winning flit crosses the switch.  \<open>c\<close> is the credit of this input so far; the flit's \<open>vc\<close> is
  overwritten with the output channel before \<open>_sw_rr_offset\<close> is computed from it.
\<close>

definition sw_send ::
  "nat \<Rightarrow> nat \<Rightarrow> nat \<Rightarrow> nat \<Rightarrow> ('v, 'w) iq_router \<times> credit option
   \<Rightarrow> (('v, 'w) iq_router \<times> credit option) option" where
  "sw_send i ei eo v rc = (let (r0, c) = rc;
       r = (if qc_hold_switch_for_packet (iq_cfg r0)
            then r0\<lparr>iq_switch_hold_in := (iq_switch_hold_in r0)[ei := Some eo],
                    iq_switch_hold_vc := (iq_switch_hold_vc r0)[ei := Some v],
                    iq_switch_hold_out := (iq_switch_hold_out r0)[eo := Some ei]\<rparr> else r0);
       cv = get_vc r i v in do {
     ensure (vc_st cv = active \<and> \<not> vc_empty cv \<and> vc_out_port cv = Some (eo mod iq_outputs r));
     op \<leftarrow> vc_out_port cv;
     ov \<leftarrow> vc_out_vc cv;
     full \<leftarrow> is_full_for (iq_next_vcs r ! op) (int ov);
     ensure (\<not> full);
     f \<leftarrow> fst (vc_remove_flit cv);
     c' \<leftarrow> credit_push (fl_vc f) (case c of Some c \<Rightarrow> c | None \<Rightarrow> new_credit (iq_vcs r));
     let f' = f\<lparr>fl_hops := fl_hops f + 1, fl_vc := int ov\<rparr>;
     let cv1 = snd (vc_remove_flit cv);
     b \<leftarrow> sending_flit f' (iq_next_vcs r ! op);
     let r1 = (set_next op b r)\<lparr>iq_crossbar_pipe := pf_write (Some f') eo (iq_crossbar_pipe r),
                iq_sw_rr_offset := (iq_sw_rr_offset r)[ei := (ov + 1) mod iq_vcs r]\<rparr>;
     Some ((if fl_tail f' then
              (set_vc i v (vc_set_state idle cv1) r1)\<lparr>iq_switch_hold_in := (iq_switch_hold_in r)[ei := None],
                 iq_switch_hold_vc := (iq_switch_hold_vc r)[ei := None],
                 iq_switch_hold_out := (iq_switch_hold_out r)[eo := None]\<rparr>
            else set_vc i v cv1 r1), Some c')
   })"

definition sw_forward ::
  "'w alloc_ops \<Rightarrow> nat \<Rightarrow> nat \<Rightarrow> ('v, 'w) iq_router \<times> credit option
   \<Rightarrow> (('v, 'w) iq_router \<times> credit option) option" where
  "sw_forward so i s rc = (let ei = s * iq_inputs (fst rc) + i in do {
     w \<leftarrow> sw_winner so (fst rc) i ei;
     (case w of
        None \<Rightarrow> Some rc
      | Some (eo, v) \<Rightarrow> sw_send i ei eo v rc) })"

definition sw_forward_input ::
  "'w alloc_ops \<Rightarrow> nat \<Rightarrow> ('v, 'w) iq_router \<Rightarrow> ('v, 'w) iq_router option" where
  "sw_forward_input so i r = do {
     (r', c) \<leftarrow> fold_opt (sw_forward so i) [0 ..< qc_input_speedup (iq_cfg r)] (r, None);
     Some (r'\<lparr>iq_credit_pipe := pf_write c i (iq_credit_pipe r')\<rparr>)
   }"

definition sw_alloc_step :: "'w alloc_ops \<Rightarrow> ('v, 'w) iq_router \<Rightarrow> ('v, 'w) iq_router option" where
  "sw_alloc_step so r = do {
     al \<leftarrow> fold_opt (sw_request_input so r)
            (List.product [0 ..< iq_inputs r] [0 ..< qc_input_speedup (iq_cfg r)]) (ao_clear so (iq_sw_allocator r));
     fold_opt (sw_forward_input so) [0 ..< iq_inputs r]
       (r\<lparr>iq_sw_allocator := ao_allocate so al,
          iq_crossbar_pipe := pf_write_all None (iq_crossbar_pipe r)\<rparr>)
   }"

subsection \<open>A cycle\<close>

definition output_queuing :: "('v, 'w) iq_router \<Rightarrow> ('v, 'w) iq_router" where
  "output_queuing r =
     r\<lparr>iq_output_buffer := map (\<lambda>j. iq_output_buffer r ! j @
          map (\<lambda>f. (f, iq_time r)) (List.map_filter (\<lambda>t. pf_read (iq_crossbar_pipe r) (iq_outputs r * t + j))
             [0 ..< qc_output_speedup (iq_cfg r)])) [0 ..< iq_outputs r],
       iq_in_cred_buffer := map (\<lambda>i. iq_in_cred_buffer r ! i @
          (case pf_read (iq_credit_pipe r) i of Some c \<Rightarrow> [c] | None \<Rightarrow> [])) [0 ..< iq_inputs r]\<rparr>"

definition advance_vcs :: "('v, 'w) iq_router \<Rightarrow> ('v, 'w) iq_router" where
  "advance_vcs r = r\<lparr>iq_vc := map (map vc_advance_time) (iq_vc r)\<rparr>"

definition internal_step ::
  "routing_function \<Rightarrow> 'v alloc_ops \<Rightarrow> 'w alloc_ops \<Rightarrow> ('v, 'w) iq_router \<Rightarrow> ('v, 'w) iq_router option" where
  "internal_step rf vo so r = do {
     r1 \<leftarrow> input_queuing rf r;
     r2 \<leftarrow> vc_alloc_step vo (route_all r1);
     r3 \<leftarrow> sw_alloc_step so r2;
     let r4 = advance_vcs r3;
     Some (output_queuing (r4\<lparr>iq_crossbar_pipe := pf_advance (iq_crossbar_pipe r4),
       iq_credit_pipe := pf_advance (iq_credit_pipe r4), iq_time := iq_time r4 + 1\<rparr>))
   }"

definition send_flit :: "('v, 'w) iq_router \<Rightarrow> nat \<Rightarrow> flit option \<times> (flit \<times> int) list" where
  "send_flit r j =
     (case iq_output_buffer r ! j of
        [] \<Rightarrow> (None, [])
      | (f, t) # q \<Rightarrow>
          if qc_output_extra_latency (iq_cfg r) \<le> iq_time r - t then (Some f, q) else (None, (f, t) # q))"

definition send_credit :: "('v, 'w) iq_router \<Rightarrow> nat \<Rightarrow> credit option \<times> credit list" where
  "send_credit r i = (case iq_in_cred_buffer r ! i of [] \<Rightarrow> (None, []) | c # q \<Rightarrow> (Some c, q))"

definition write_outputs ::
  "('v, 'w) iq_router \<Rightarrow> flit option list \<times> credit option list \<times> ('v, 'w) iq_router" where
  "write_outputs r =
     (map (fst \<circ> send_flit r) [0 ..< iq_outputs r], map (fst \<circ> send_credit r) [0 ..< iq_inputs r],
      r\<lparr>iq_output_buffer := map (snd \<circ> send_flit r) [0 ..< iq_outputs r],
        iq_in_cred_buffer := map (snd \<circ> send_credit r) [0 ..< iq_inputs r]\<rparr>)"

text \<open>A cycle with what the neighbours left on the channels, and a run of cycles.\<close>

definition router_cycle ::
  "routing_function \<Rightarrow> 'v alloc_ops \<Rightarrow> 'w alloc_ops \<Rightarrow> flit option list \<times> credit option list
   \<Rightarrow> ('v, 'w) iq_router \<Rightarrow> ('v, 'w) iq_router option" where
  "router_cycle rf vo so io r = do {
     r' \<leftarrow> internal_step rf vo so (read_inputs (fst io) (snd io) r);
     Some (snd (snd (write_outputs r')))
   }"

definition router_run ::
  "routing_function \<Rightarrow> 'v alloc_ops \<Rightarrow> 'w alloc_ops \<Rightarrow> (flit option list \<times> credit option list) list
   \<Rightarrow> ('v, 'w) iq_router \<Rightarrow> ('v, 'w) iq_router option" where
  "router_run rf vo so ios r = fold_opt (router_cycle rf vo so) ios r"

end
