(* ===== verification/AllocOps.thy ===== *)
theory AllocOps
  imports IQRouter
begin

text \<open>
  What the router may rely on from its allocators, as a locale over their table of virtual functions,
  and the proof that \<open>iSLIP\<close>, \<open>Wavefront\<close>, \<open>LOA\<close> and \<open>PIM\<close> (\<open>src/intersim\<close>) provide it.  The
  predicate \<open>rq s i j l\<close> says that the allocator holds a request of input \<open>i\<close> for output \<open>j\<close> with
  label \<open>l\<close>.
\<close>

locale allocator =
  fixes ops :: "'s alloc_ops"
    and ok :: "'s \<Rightarrow> bool"
    and size_of :: "'s \<Rightarrow> nat \<times> nat"
    and rq :: "'s \<Rightarrow> nat \<Rightarrow> nat \<Rightarrow> int \<Rightarrow> bool"
  assumes clear_law: "ok s \<Longrightarrow> ok (ao_clear ops s) \<and> size_of (ao_clear ops s) = size_of s \<and> \<not> rq (ao_clear ops s) i j l"
    and add_law: "ok s \<Longrightarrow> i < fst (size_of s) \<Longrightarrow> j < snd (size_of s) \<Longrightarrow> 0 \<le> l \<Longrightarrow>
      \<exists>s'. ao_add_request ops i j l ip op s = Some s' \<and> ok s' \<and> size_of s' = size_of s \<and>
        (\<forall>i' j' l'. rq s' i' j' l' \<longrightarrow> rq s i' j' l' \<or> i' = i \<and> j' = j \<and> l' = l)"
    and add_range: "ao_add_request ops i j l ip op s = Some s' \<Longrightarrow> i < fst (size_of s) \<and> j < snd (size_of s)"
    and allocate_law: "ok s \<Longrightarrow> ok (ao_allocate ops s) \<and> size_of (ao_allocate ops s) = size_of s \<and>
      rq (ao_allocate ops s) = rq s"
    and assigned_total: "j < snd (size_of s) \<Longrightarrow> ao_input_assigned ops s j \<noteq> None"
      "i < fst (size_of s) \<Longrightarrow> ao_output_assigned ops s i \<noteq> None"
    and assigned_range: "ao_output_assigned ops s i \<noteq> None \<Longrightarrow> i < fst (size_of s)"
    and in_out: "ok s \<Longrightarrow> ao_input_assigned ops (ao_allocate ops s) j = Some (Some i) \<longleftrightarrow>
      ao_output_assigned ops (ao_allocate ops s) i = Some (Some j)"
    and granted: "ok s \<Longrightarrow> ao_output_assigned ops (ao_allocate ops s) i = Some (Some j) \<Longrightarrow> \<exists>l. rq s i j l"
    and read_law: "ok s \<Longrightarrow> rq s i j l \<Longrightarrow> ao_read_request ops s i j = Some l"
    and rq_range: "ok s \<Longrightarrow> rq s i j l \<Longrightarrow> i < fst (size_of s) \<and> j < snd (size_of s) \<and> 0 \<le> l"
begin

lemma one_grant_per_input:
  assumes "ok s" "ao_input_assigned ops (ao_allocate ops s) j = Some (Some i)"
    "ao_input_assigned ops (ao_allocate ops s) j' = Some (Some i)"
  shows "j = j'"
  using assms by (simp add: in_out)

lemma one_grant_per_output:
  assumes "ok s" "ao_output_assigned ops (ao_allocate ops s) i = Some (Some j)"
    "ao_output_assigned ops (ao_allocate ops s) i' = Some (Some j)"
  shows "i = i'"
  using assms by (simp flip: in_out)

lemma add_okD:
  assumes "ok s" "ao_add_request ops i j l ip op s = Some s'" "0 \<le> l"
  shows "ok s' \<and> size_of s' = size_of s \<and>
    (\<forall>i' j' l'. rq s' i' j' l' \<longrightarrow> rq s i' j' l' \<or> i' = i \<and> j' = j \<and> l' = l)"
  using add_law[OF assms(1) _ _ assms(3), of i j ip op] add_range[OF assms(2)] assms(2) by auto

text \<open>A request read back after an allocation is one that was added.\<close>

lemma granted_label:
  assumes "ok s" "ao_output_assigned ops (ao_allocate ops s) i = Some (Some j)"
  shows "\<exists>l. rq s i j l \<and> ao_read_request ops (ao_allocate ops s) i j = Some l"
  using granted[OF assms] allocate_law[OF assms(1)] read_law[of "ao_allocate ops s" i j] by auto

end

subsection \<open>iSLIP\<close>

definition base_size :: "'a alloc_base_scheme \<Rightarrow> nat \<times> nat" where
  "base_size s = (al_inputs s, al_outputs s)"

definition islip_ready :: "islip \<Rightarrow> bool" where
  "islip_ready s \<longleftrightarrow> sparse_inv s \<and> (\<forall>i j l p q. sp_read s i j = Some (l, p, q) \<longrightarrow> i < al_inputs s \<longrightarrow> 0 \<le> l)"

definition sp_rq :: "islip \<Rightarrow> nat \<Rightarrow> nat \<Rightarrow> int \<Rightarrow> bool" where
  "sp_rq s i j l \<longleftrightarrow> sp_requested s i j \<and> (\<exists>p q. sp_read s i j = Some (l, p, q))"

lemma input_assigned_total: "input_assigned s j \<noteq> None \<longleftrightarrow> j < al_outputs s"
  "output_assigned s i \<noteq> None \<longleftrightarrow> i < al_inputs s"
  by (simp_all add: input_assigned_def output_assigned_def)

lemma legal_in_out:
  assumes "legal_matching req s"
  shows "input_assigned s j = Some (Some i) \<longleftrightarrow> output_assigned s i = Some (Some j)"
    "output_assigned s i = Some (Some j) \<Longrightarrow> req i j"
proof -
  have io: "output_assigned s i = Some (Some j) \<longleftrightarrow> i < al_inputs s \<and> al_inmatch s ! i = Some j"
    "input_assigned s j = Some (Some i) \<longleftrightarrow> j < al_outputs s \<and> al_outmatch s ! j = Some i"
    by (auto simp: output_assigned_def input_assigned_def split: if_splits)
  show "input_assigned s j = Some (Some i) \<longleftrightarrow> output_assigned s i = Some (Some j)"
    unfolding io using legal_in[OF assms, of i j] legal_out[OF assms, of j i] by blast
  show "output_assigned s i = Some (Some j) \<Longrightarrow> req i j"
    unfolding io using legal_in[OF assms, of i j] by blast
qed

lemma sp_add_range:
  "sp_add_request i j l ip op s = Some s' \<Longrightarrow> i < al_inputs s \<and> j < al_outputs s"
  by (simp add: sp_add_request_def split: if_splits)

lemma sp_add_sizes:
  "sp_add_request i j l ip op s = Some s' \<Longrightarrow> al_inputs s' = al_inputs s \<and> al_outputs s' = al_outputs s"
  by (auto simp: sp_add_request_def Let_def split: if_splits prod.splits elim!: bind_SomeE)

lemma sp_read_content:
  assumes "sp_read s i j = Some (l, p, q)" "sp_find_request s i j = Some r"
  shows "\<exists>x. r = Some x \<and> rq_label x = l"
proof -
  have r: "r = key_find rq_port j (sp_in_req s ! i)"
    using assms(2) by (simp add: sp_find_request_def split: if_splits)
  obtain x where "key_find rq_port j (sp_in_req s ! i) = Some x" "rq_content x = (l, p, q)"
    using assms(1) unfolding sp_read_def by (meson map_option_eq_Some)
  then show ?thesis unfolding r by (simp add: rq_content_def)
qed

lemma islip_readyD: "islip_ready s \<Longrightarrow> sp_read s i j = Some (l, p, q) \<Longrightarrow> i < al_inputs s \<Longrightarrow> 0 \<le> l"
  unfolding islip_ready_def by blast

lemma islip_add_law:
  assumes "islip_ready s" "i < al_inputs s" "j < al_outputs s" "0 \<le> l"
  shows "\<exists>s'. sp_add_request i j l ip op s = Some s' \<and> islip_ready s' \<and> base_size s' = base_size s \<and>
    (\<forall>i' j' l'. sp_rq s' i' j' l' \<longrightarrow> sp_rq s i' j' l' \<or> i' = i \<and> j' = j \<and> l' = l)"
proof -
  have inv: "sparse_inv s" using assms(1) by (simp add: islip_ready_def)
  from sparse_add_request_spec[OF inv assms(2,3), of l ip op] obtain s' where
    s': "sp_add_request i j l ip op s = Some s'" "sparse_inv s'"
    and rd: "\<And>i' j'. i' < al_inputs s \<Longrightarrow> j' < al_outputs s \<Longrightarrow>
      sp_read s' i' j' = sp_read s i' j' \<or> i' = i \<and> j' = j \<and> sp_read s' i' j' = Some (l, ip, op)"
    by blast
  have size: "al_inputs s' = al_inputs s" "al_outputs s' = al_outputs s" using sp_add_sizes[OF s'(1)] by auto
  have inr: "sp_requested s' i' j'" if "sp_read s' i' j' \<noteq> None" "i' < al_inputs s" for i' j'
    using that sp_requested_in[OF s'(2), of i' j'] size key_find_Some[of rq_port j' "sp_in_req s' ! i'"]
    by (auto simp: sp_read_def)
  have "islip_ready s'"
    unfolding islip_ready_def
  proof (intro conjI allI impI)
    fix i' j' l' p q assume a: "sp_read s' i' j' = Some (l', p, q)" "i' < al_inputs s'"
    then have "j' < al_outputs s" using inr[of i' j'] size by (simp add: sp_requested_def)
    then have "sp_read s i' j' = Some (l', p, q) \<or> l' = l" using rd[of i' j'] a size by auto
    then show "0 \<le> l'" using islip_readyD[OF assms(1), of i' j' l' p q] assms(4) a(2) size by auto
  qed (rule s'(2))
  moreover have "sp_rq s i' j' l' \<or> i' = i \<and> j' = j \<and> l' = l" if "sp_rq s' i' j' l'" for i' j' l'
  proof -
    have r: "i' < al_inputs s" "j' < al_outputs s" using that size by (auto simp: sp_rq_def sp_requested_def)
    from rd[OF r] that r show ?thesis by (auto simp: sp_rq_def sp_requested_def)
  qed
  ultimately show ?thesis using s'(1) size by (auto simp: base_size_def)
qed

interpretation islip_alloc: allocator islip_ops islip_ready base_size sp_rq
proof unfold_locales
  fix s :: islip and i j l assume ok: "islip_ready s"
  have inv: "sparse_inv s" using ok by (simp add: islip_ready_def)
  show "islip_ready (ao_clear islip_ops s) \<and> base_size (ao_clear islip_ops s) = base_size s \<and>
      \<not> sp_rq (ao_clear islip_ops s) i j l"
  proof -
    have "sp_read (sp_clear s) i' j' = None" if "i' < al_inputs s" for i' j'
      using that inv by (simp add: sp_read_def sp_clear_def sparse_inv_def side_ok_def)
    then show ?thesis using sp_clear_inv[OF inv, of i j]
      by (auto simp: islip_ops_def islip_ready_def base_size_def sp_rq_def) (simp_all add: sp_clear_def)
  qed
next
  fix s :: islip and i j and l ip op :: int
  assume "islip_ready s" "i < fst (base_size s)" "j < snd (base_size s)" "0 \<le> l"
  then show "\<exists>s'. ao_add_request islip_ops i j l ip op s = Some s' \<and> islip_ready s' \<and> base_size s' = base_size s \<and>
        (\<forall>i' j' l'. sp_rq s' i' j' l' \<longrightarrow> sp_rq s i' j' l' \<or> i' = i \<and> j' = j \<and> l' = l)"
    using islip_add_law[of s i j l ip op] by (simp add: islip_ops_def base_size_def)
next
  fix i j l ip op and s s' :: islip
  assume "ao_add_request islip_ops i j l ip op s = Some s'"
  then show "i < fst (base_size s) \<and> j < snd (base_size s)"
    using sp_add_range[of i j l ip op s s'] by (simp add: islip_ops_def base_size_def)
next
  fix s :: islip assume ok: "islip_ready s"
  have inv: "sparse_inv s" using ok by (simp add: islip_ready_def)
  have same: "same_requests s (islip_allocate s)"
    using islip_iterations_inv[OF inv, of "nat (isl_iter s)", folded islip_allocate_iterations] by simp
  then have rd: "sp_read (islip_allocate s) = sp_read s" "base_size (islip_allocate s) = base_size s"
    by (auto simp: same_requests_def sp_read_def base_size_def fun_eq_iff)
  show "islip_ready (ao_allocate islip_ops s) \<and> base_size (ao_allocate islip_ops s) = base_size s \<and>
      sp_rq (ao_allocate islip_ops s) = sp_rq s"
    using ok rd same_requests_inv[OF same]
    by (simp add: islip_ops_def islip_ready_def sp_rq_def base_size_def fun_eq_iff)
next
  fix j and s :: islip assume "j < snd (base_size s)"
  then show "ao_input_assigned islip_ops s j \<noteq> None"
    by (simp add: islip_ops_def input_assigned_total base_size_def del: not_None_eq)
next
  fix i and s :: islip assume "i < fst (base_size s)"
  then show "ao_output_assigned islip_ops s i \<noteq> None"
    by (simp add: islip_ops_def input_assigned_total base_size_def del: not_None_eq)
next
  fix i and s :: islip assume "ao_output_assigned islip_ops s i \<noteq> None"
  then show "i < fst (base_size s)"
    by (simp add: islip_ops_def input_assigned_total base_size_def del: not_None_eq)
next
  fix s :: islip and i j assume ok: "islip_ready s"
  then have l: "legal_matching (sp_requested s) (islip_allocate s)"
    using islip_iterations_inv[of s "nat (isl_iter s)", folded islip_allocate_iterations]
    by (simp add: islip_ready_def)
  show "ao_input_assigned islip_ops (ao_allocate islip_ops s) j = Some (Some i) \<longleftrightarrow>
      ao_output_assigned islip_ops (ao_allocate islip_ops s) i = Some (Some j)"
    using legal_in_out(1)[OF l] by (simp add: islip_ops_def)
  assume "ao_output_assigned islip_ops (ao_allocate islip_ops s) i = Some (Some j)"
  then have "sp_requested s i j" using legal_in_out(2)[OF l, of i j] by (simp add: islip_ops_def)
  then show "\<exists>l. sp_rq s i j l" by (auto simp: sp_rq_def sp_requested_def)
next
  fix s :: islip and i j l assume ok: "islip_ready s" and r: "sp_rq s i j l"
  show "i < fst (base_size s) \<and> j < snd (base_size s) \<and> 0 \<le> l"
    using islip_readyD[OF ok, of i j l] r by (auto simp: sp_rq_def sp_requested_def base_size_def)
  obtain p q where rd: "sp_read s i j = Some (l, p, q)" using r by (auto simp: sp_rq_def)
  obtain y where y: "sp_find_request s i j = Some y"
    using r by (auto simp: sp_rq_def sp_requested_def sp_find_request_def)
  from sp_read_content[OF rd y] obtain x where "y = Some x" "rq_label x = l" by blast
  with y show "ao_read_request islip_ops s i j = Some l"
    by (simp add: islip_ops_def sp_read_request_def)
qed

subsection \<open>The dense allocators\<close>

definition dense_ops :: "('a dense_scheme \<Rightarrow> 'a dense_scheme) \<Rightarrow> 'a dense_scheme alloc_ops" where
  "dense_ops alloc = \<lparr>ao_clear = dn_clear, ao_add_request = dn_add_request, ao_read_request = dn_read_request,
     ao_allocate = alloc, ao_input_assigned = input_assigned, ao_output_assigned = output_assigned\<rparr>"

definition dense_ready :: "'a dense_scheme \<Rightarrow> bool" where
  "dense_ready s \<longleftrightarrow> length (dn_request s) = al_inputs s \<and>
     (\<forall>i < al_inputs s. length (dn_request s ! i) = al_outputs s) \<and>
     (\<forall>i < al_inputs s. \<forall>j < al_outputs s. - 1 \<le> rq_label (dn_request s ! i ! j))"

definition dn_rq :: "'a dense_scheme \<Rightarrow> nat \<Rightarrow> nat \<Rightarrow> int \<Rightarrow> bool" where
  "dn_rq s i j l \<longleftrightarrow> dn_requested s i j \<and> rq_label (dn_request s ! i ! j) = l"

lemma dn_clear_law:
  assumes "dense_ready s"
  shows "dense_ready (dn_clear s) \<and> base_size (dn_clear s) = base_size s \<and> \<not> dn_rq (dn_clear s) i j l"
proof -
  have "rq_label (dn_request (dn_clear s) ! i ! j) = - 1" if "i < al_inputs s" "j < al_outputs s" for i j
    using that assms by (simp add: dn_clear_def dense_ready_def)
  moreover have "al_inputs (dn_clear s) = al_inputs s" "al_outputs (dn_clear s) = al_outputs s"
    by (simp_all add: dn_clear_def)
  ultimately show ?thesis using assms
    by (auto simp: dense_ready_def base_size_def dn_rq_def dn_requested_def) (simp add: dn_clear_def)+
qed

lemma dn_add_law:
  fixes ip op :: int
  assumes "dense_ready s" "i < al_inputs s" "j < al_outputs s" "0 \<le> l"
  defines "s' \<equiv> dn_update i j (\<lambda>r. r\<lparr>rq_label := l, rq_in_pri := ip, rq_out_pri := op\<rparr>) s"
  shows "dn_add_request i j l ip op s = Some s'" "dense_ready s'" "base_size s' = base_size s"
    "dn_rq s' i' j' l' \<Longrightarrow> dn_rq s i' j' l' \<or> i' = i \<and> j' = j \<and> l' = l"
proof -
  show "dn_add_request i j l ip op s = Some s'" using assms by (simp add: dn_add_request_def)
  have lab: "rq_label (dn_request s' ! i' ! j') = (if i' = i \<and> j' = j then l else rq_label (dn_request s ! i' ! j'))"
    if "i' < al_inputs s" "j' < al_outputs s" for i' j'
    using that assms(1-3) by (cases "i' = i") (auto simp: s'_def dn_update_def dense_ready_def nth_list_update)
  have size: "al_inputs s' = al_inputs s" "al_outputs s' = al_outputs s" by (simp_all add: s'_def dn_update_def)
  then show "base_size s' = base_size s" by (simp add: base_size_def)
  have "length (dn_request s') = al_inputs s" "\<forall>i < al_inputs s. length (dn_request s' ! i) = al_outputs s"
    using assms(1,2) by (auto simp: s'_def dn_update_def dense_ready_def nth_list_update)
  then show "dense_ready s'" using lab size assms(1,4) unfolding dense_ready_def by simp
  show "dn_rq s' i' j' l' \<Longrightarrow> dn_rq s i' j' l' \<or> i' = i \<and> j' = j \<and> l' = l"
    using lab[of i' j'] size by (auto simp: dn_rq_def dn_requested_def split: if_splits)
qed

text \<open>Any dense allocator whose allocation keeps the requests and computes a legal matching.\<close>

lemma dense_allocator:
  fixes alloc :: "'a dense_scheme \<Rightarrow> 'a dense_scheme"
  assumes legal: "\<And>s. P s \<Longrightarrow> legal_matching (dn_requested s) (alloc s) \<and> same_dense s (alloc s) \<and> P (alloc s)"
    and keep: "\<And>s rs. P s \<Longrightarrow> P (s\<lparr>dn_request := rs\<rparr>)"
  shows "allocator (dense_ops alloc) (\<lambda>s. P s \<and> dense_ready s) base_size dn_rq"
proof unfold_locales
  fix s i j l assume ok: "P s \<and> dense_ready s"
  show "(P (ao_clear (dense_ops alloc) s) \<and> dense_ready (ao_clear (dense_ops alloc) s)) \<and>
      base_size (ao_clear (dense_ops alloc) s) = base_size s \<and> \<not> dn_rq (ao_clear (dense_ops alloc) s) i j l"
    using dn_clear_law[of s i j l] ok keep[of s] by (simp add: dense_ops_def dn_clear_def)
next
  fix s i j and l ip op :: int
  assume a: "P s \<and> dense_ready s" "i < fst (base_size s)" "j < snd (base_size s)" "0 \<le> l"
  let ?s = "dn_update i j (\<lambda>r. r\<lparr>rq_label := l, rq_in_pri := ip, rq_out_pri := op\<rparr>) s"
  have r: "dense_ready s" "i < al_inputs s" "j < al_outputs s" using a by (auto simp: base_size_def)
  note d = dn_add_law[OF r a(4), where ip = ip and op = op]
  have "P ?s" using a(1) keep by (simp add: dn_update_def)
  with d show "\<exists>s'. ao_add_request (dense_ops alloc) i j l ip op s = Some s' \<and> (P s' \<and> dense_ready s') \<and>
      base_size s' = base_size s \<and>
      (\<forall>i' j' l'. dn_rq s' i' j' l' \<longrightarrow> dn_rq s i' j' l' \<or> i' = i \<and> j' = j \<and> l' = l)"
    by (intro exI[of _ ?s]) (simp add: dense_ops_def)
next
  fix i j l ip op s s' assume "ao_add_request (dense_ops alloc) i j l ip op s = Some s'"
  then show "i < fst (base_size s) \<and> j < snd (base_size s)"
    by (simp add: dense_ops_def dn_add_request_def base_size_def split: if_splits)
next
  fix s assume ok: "P s \<and> dense_ready s"
  have same: "same_dense s (alloc s)" using legal ok by blast
  have "dense_ready (alloc s)" using same ok by (simp add: same_dense_def dense_ready_def)
  moreover have "dn_rq (alloc s) = dn_rq s"
    using same same_dense_requested[OF same] by (simp add: dn_rq_def fun_eq_iff same_dense_def)
  moreover have "base_size (alloc s) = base_size s" using same by (simp add: same_dense_def base_size_def)
  ultimately show "(P (ao_allocate (dense_ops alloc) s) \<and> dense_ready (ao_allocate (dense_ops alloc) s)) \<and>
      base_size (ao_allocate (dense_ops alloc) s) = base_size s \<and> dn_rq (ao_allocate (dense_ops alloc) s) = dn_rq s"
    using legal ok by (simp add: dense_ops_def)
next
  fix s :: "'a dense_scheme" and j assume "j < snd (base_size s)"
  then show "ao_input_assigned (dense_ops alloc) s j \<noteq> None"
    by (simp add: dense_ops_def input_assigned_total base_size_def del: not_None_eq)
next
  fix s :: "'a dense_scheme" and i assume "i < fst (base_size s)"
  then show "ao_output_assigned (dense_ops alloc) s i \<noteq> None"
    by (simp add: dense_ops_def input_assigned_total base_size_def del: not_None_eq)
next
  fix s :: "'a dense_scheme" and i assume "ao_output_assigned (dense_ops alloc) s i \<noteq> None"
  then show "i < fst (base_size s)"
    by (simp add: dense_ops_def input_assigned_total base_size_def del: not_None_eq)
next
  fix s i j assume ok: "P s \<and> dense_ready s"
  then have l: "legal_matching (dn_requested s) (alloc s)" using legal by blast
  show "ao_input_assigned (dense_ops alloc) (ao_allocate (dense_ops alloc) s) j = Some (Some i) \<longleftrightarrow>
      ao_output_assigned (dense_ops alloc) (ao_allocate (dense_ops alloc) s) i = Some (Some j)"
    using legal_in_out(1)[OF l] by (simp add: dense_ops_def)
  assume "ao_output_assigned (dense_ops alloc) (ao_allocate (dense_ops alloc) s) i = Some (Some j)"
  then have "dn_requested s i j" using legal_in_out(2)[OF l, of i j] by (simp add: dense_ops_def)
  then show "\<exists>l. dn_rq s i j l" by (simp add: dn_rq_def)
next
  fix s i j l assume ok: "P s \<and> dense_ready s" and r: "dn_rq s i j l"
  then show "ao_read_request (dense_ops alloc) s i j = Some l"
    by (simp add: dense_ops_def dn_read_request_def dn_rq_def dn_requested_def)
  have "- 1 \<le> rq_label (dn_request s ! i ! j)" "rq_label (dn_request s ! i ! j) \<noteq> - 1"
    using ok r by (auto simp: dense_ready_def dn_rq_def dn_requested_def)
  then show "i < fst (base_size s) \<and> j < snd (base_size s) \<and> 0 \<le> l"
    using r by (auto simp: dn_rq_def dn_requested_def base_size_def)
qed

interpretation wave_alloc: allocator "dense_ops wave_allocate" "\<lambda>s. wave_ok s \<and> dense_ready s" base_size dn_rq
  by (rule dense_allocator) (use wave_allocate_ok in \<open>auto simp: wave_ok_def\<close>)

interpretation loa_alloc: allocator "dense_ops loa_allocate" "\<lambda>s. True \<and> dense_ready s" base_size dn_rq
  by (rule dense_allocator) (use loa_legal in auto)

interpretation pim_alloc: allocator "dense_ops (pim_allocate rnd)" "\<lambda>s. True \<and> dense_ready s" base_size dn_rq
  by (rule dense_allocator) (use pim_legal in auto)

end
