(* ===== verification/RouterInv.thy ===== *)
theory RouterInv
  imports AllocOps
begin

text \<open>
  Correctness of the input queued router (\<open>src/intersim/iq_router.cpp\<close>) with allocators that keep
  their contract: the channels of the outputs are owned by at most one packet each, a channel that is
  taken always has its owner, no buffer overflows, and a cycle that accepts its inputs runs to the end:
  no assertion or \<open>Error\<close> of \<open>_Route\<close>, \<open>_VCAlloc\<close>, \<open>_SWAlloc\<close> or \<open>_OutputQueuing\<close> is reached.
\<close>

subsection \<open>Ownership of output channels\<close>

definition holds :: "'x set \<Rightarrow> ('x \<Rightarrow> 'p option) \<Rightarrow> 'p set \<Rightarrow> bool" where
  "holds D h T \<longleftrightarrow> (\<forall>x \<in> D. \<forall>y \<in> D. \<forall>p. h x = Some p \<longrightarrow> h y = Some p \<longrightarrow> x = y) \<and>
     {p. \<exists>x \<in> D. h x = Some p} = T"

lemma holds_add:
  assumes "holds D h T" "x \<in> D" "h x = None" "p \<notin> T"
  shows "holds D (h(x := Some p)) (insert p T)"
proof -
  let ?h = "h(x := Some p)"
  have n: "h y \<noteq> Some p" if "y \<in> D" for y using assms(1,4) that by (auto simp: holds_def)
  have "(\<exists>y \<in> D. ?h y = Some q) \<longleftrightarrow> q = p \<or> (\<exists>y \<in> D. h y = Some q)" for q
    using assms(2,3) by (metis fun_upd_apply option.distinct(1) option.inject)
  then have "{q. \<exists>y \<in> D. ?h y = Some q} = insert p T" using assms(1) by (auto simp: holds_def)
  moreover have "y = z" if "y \<in> D" "z \<in> D" "?h y = Some q" "?h z = Some q" for y z q
    using that n assms(1) unfolding holds_def by (metis fun_upd_apply option.inject)
  ultimately show ?thesis unfolding holds_def by blast
qed

lemma holds_remove:
  assumes "holds D h T" "x \<in> D" "h x = Some p"
  shows "holds D (h(x := None)) (T - {p})"
proof -
  let ?h = "h(x := None)"
  have u: "y = x" if "y \<in> D" "h y = Some p" for y using assms that unfolding holds_def by blast
  have "(\<exists>y \<in> D. ?h y = Some q) \<longleftrightarrow> q \<noteq> p \<and> (\<exists>y \<in> D. h y = Some q)" for q
    using u assms(2,3) by (metis fun_upd_apply option.distinct(1) option.inject)
  then have "{q. \<exists>y \<in> D. ?h y = Some q} = T - {p}" using assms(1) by (auto simp: holds_def)
  moreover have "y = z" if "y \<in> D" "z \<in> D" "?h y = Some q" "?h z = Some q" for y z q
    using that assms(1) unfolding holds_def by (metis fun_upd_apply option.distinct(1))
  ultimately show ?thesis unfolding holds_def by blast
qed

definition vc_holds :: "vc \<Rightarrow> (nat \<times> nat) option" where
  "vc_holds cv =
     (if vc_st cv = active then
        (case vc_out_port cv of None \<Rightarrow> None
         | Some p \<Rightarrow> (case vc_out_vc cv of None \<Rightarrow> None | Some c \<Rightarrow> Some (p, c)))
      else None)"

lemma vc_holds_Some:
  "vc_holds cv = Some (p, c) \<longleftrightarrow> vc_st cv = active \<and> vc_out_port cv = Some p \<and> vc_out_vc cv = Some c"
  by (auto simp: vc_holds_def split: option.splits)

lemma vc_holds_inactive: "vc_st cv \<noteq> active \<Longrightarrow> vc_holds cv = None"
  by (simp add: vc_holds_def)

lemma vc_holds_cong:
  "vc_st x = vc_st y \<Longrightarrow> vc_out_port x = vc_out_port y \<Longrightarrow> vc_out_vc x = vc_out_vc y \<Longrightarrow>
     vc_holds x = vc_holds y"
  unfolding vc_holds_def by (simp only:)

definition holder :: "('v, 'w) iq_router \<Rightarrow> nat \<times> nat \<Rightarrow> (nat \<times> nat) option" where
  "holder r iv = vc_holds (get_vc r (fst iv) (snd iv))"

definition chans :: "('v, 'w) iq_router \<Rightarrow> (nat \<times> nat) set" where
  "chans r = {(i, v). i < iq_inputs r \<and> v < iq_vcs r}"

text \<open>The channels of a link that a packet owns: taken and the tail not yet sent.\<close>

definition owned :: "nat \<Rightarrow> buffer_state \<Rightarrow> nat set" where
  "owned n b = {c. c < n \<and> bs_in_use b ! c \<and> \<not> bs_tail_sent b ! c}"

definition taken :: "('v, 'w) iq_router \<Rightarrow> (nat \<times> nat) set" where
  "taken r = {(j, c). j < iq_outputs r \<and> c \<in> owned (iq_vcs r) (iq_next_vcs r ! j)}"

definition route_ok :: "nat \<Rightarrow> nat \<Rightarrow> output_set \<Rightarrow> bool" where
  "route_ok outs vcs os \<longleftrightarrow> os_ok os \<and> length os = outs \<and>
     (\<forall>es \<in> set os. \<forall>e \<in> set es. 0 \<le> se_vc_start e \<and> se_vc_end e < int vcs)"

definition vc_wf :: "nat \<Rightarrow> nat \<Rightarrow> vc \<Rightarrow> bool" where
  "vc_wf outs vcs cv \<longleftrightarrow> length (vc_route_set cv) = outs \<and>
     (vc_st cv = active \<longrightarrow> (\<exists>p < outs. \<exists>c < vcs. vc_out_port cv = Some p \<and> vc_out_vc cv = Some c)) \<and>
     (vc_st cv \<in> {routing, vc_alloc} \<longrightarrow> vc_buffer cv \<noteq> [] \<and> route_ok outs vcs (vc_route_set cv))"

definition vcs_dim :: "('v, 'w) iq_router \<Rightarrow> bool" where
  "vcs_dim r \<longleftrightarrow> length (iq_vc r) = iq_inputs r \<and> (\<forall>i < iq_inputs r. length (iq_vc r ! i) = iq_vcs r)"

definition next_ok :: "('v, 'w) iq_router \<Rightarrow> bool" where
  "next_ok r \<longleftrightarrow> length (iq_next_vcs r) = iq_outputs r \<and>
     (\<forall>j < iq_outputs r. bs_inv (iq_next_vcs r ! j) \<and> bs_vcs (iq_next_vcs r ! j) = iq_vcs r)"

definition core_inv :: "('v, 'w) iq_router \<Rightarrow> bool" where
  [inv_defs]: "core_inv r \<longleftrightarrow> vcs_dim r \<and> next_ok r \<and>
     (\<forall>i < iq_inputs r. \<forall>v < iq_vcs r. vc_wf (iq_outputs r) (iq_vcs r) (get_vc r i v)) \<and>
     holds (chans r) (holder r) (taken r)"

lemma core_inv_cong:
  assumes "iq_cfg r' = iq_cfg r" "iq_vcs r' = iq_vcs r" "iq_vc r' = iq_vc r" "iq_next_vcs r' = iq_next_vcs r"
  shows "core_inv r' = core_inv r"
proof -
  have "get_vc r' = get_vc r" using assms by (simp add: get_vc_def fun_eq_iff)
  moreover from this have "holder r' = holder r" by (simp add: holder_def fun_eq_iff)
  moreover have "chans r' = chans r" "taken r' = taken r" "vcs_dim r' = vcs_dim r" "next_ok r' = next_ok r"
    using assms by (simp_all add: chans_def taken_def vcs_dim_def next_ok_def)
  ultimately show ?thesis using assms by (simp add: core_inv_def)
qed

lemma core_invD:
  assumes "core_inv r"
  shows "vcs_dim r" "next_ok r" "holds (chans r) (holder r) (taken r)"
    "i < iq_inputs r \<Longrightarrow> v < iq_vcs r \<Longrightarrow> vc_wf (iq_outputs r) (iq_vcs r) (get_vc r i v)"
    "j < iq_outputs r \<Longrightarrow> bs_inv (iq_next_vcs r ! j)" "j < iq_outputs r \<Longrightarrow> bs_vcs (iq_next_vcs r ! j) = iq_vcs r"
    "length (iq_next_vcs r) = iq_outputs r"
  using assms by (auto simp: core_inv_def next_ok_def)

lemma set_fields [simp]:
  "iq_cfg (set_vc i v x r) = iq_cfg r" "iq_vcs (set_vc i v x r) = iq_vcs r"
  "iq_next_vcs (set_vc i v x r) = iq_next_vcs r" "iq_cfg (set_next j b r) = iq_cfg r"
  "iq_vcs (set_next j b r) = iq_vcs r" "iq_vc (set_next j b r) = iq_vc r"
  "iq_next_vcs (set_next j b r) = (iq_next_vcs r)[j := b]"
  "get_vc (set_next j b r) = get_vc r"
  by (simp_all add: set_vc_def set_next_def get_vc_def fun_eq_iff)

lemma set_others [simp]:
  "iq_vc_allocator (set_vc i v x r) = iq_vc_allocator r" "iq_sw_allocator (set_vc i v x r) = iq_sw_allocator r"
  "iq_sw_rr_offset (set_vc i v x r) = iq_sw_rr_offset r" "iq_switch_hold_in (set_vc i v x r) = iq_switch_hold_in r"
  "iq_switch_hold_out (set_vc i v x r) = iq_switch_hold_out r" "iq_switch_hold_vc (set_vc i v x r) = iq_switch_hold_vc r"
  "iq_vc_allocator (set_next j b r) = iq_vc_allocator r" "iq_sw_allocator (set_next j b r) = iq_sw_allocator r"
  "iq_sw_rr_offset (set_next j b r) = iq_sw_rr_offset r" "iq_switch_hold_in (set_next j b r) = iq_switch_hold_in r"
  "iq_switch_hold_out (set_next j b r) = iq_switch_hold_out r" "iq_switch_hold_vc (set_next j b r) = iq_switch_hold_vc r"
  by (simp_all add: set_vc_def set_next_def)

lemma get_set_vc:
  assumes "vcs_dim r" "i < iq_inputs r" "v < iq_vcs r"
  shows "get_vc (set_vc i v x r) i' v' = (if i' = i \<and> v' = v then x else get_vc r i' v')"
  using assms by (auto simp: get_vc_def set_vc_def vcs_dim_def nth_list_update)

lemma vcs_dim_set: "vcs_dim r \<Longrightarrow> vcs_dim (set_vc i v x r)"
  by (cases "i < length (iq_vc r)") (auto simp: vcs_dim_def set_vc_def nth_list_update list_update_beyond)

text \<open>One channel and one link change together.\<close>

lemma core_update:
  assumes "core_inv r" "i < iq_inputs r" "v < iq_vcs r" "j < iq_outputs r"
    "vc_wf (iq_outputs r) (iq_vcs r) cv" "bs_inv b" "bs_vcs b = iq_vcs r"
    "holds (chans r) ((holder r)((i, v) := vc_holds cv))
       {(k, c). k < iq_outputs r \<and> c \<in> owned (iq_vcs r) (if k = j then b else iq_next_vcs r ! k)}"
  shows "core_inv (set_next j b (set_vc i v cv r))"
proof -
  let ?r = "set_next j b (set_vc i v cv r)"
  note D = core_invD[OF assms(1)]
  have gv: "get_vc ?r i' v' = (if i' = i \<and> v' = v then cv else get_vc r i' v')" for i' v'
    using get_set_vc[OF D(1) assms(2,3)] by simp
  then have "holder ?r = (holder r)((i, v) := vc_holds cv)" by (auto simp: holder_def fun_eq_iff)
  moreover have "taken ?r = {(k, c). k < iq_outputs r \<and> c \<in> owned (iq_vcs r) (if k = j then b else iq_next_vcs r ! k)}"
    using D(7) assms(4) by (auto simp: taken_def nth_list_update split: if_splits)
  moreover have "chans ?r = chans r" by (simp add: chans_def)
  moreover have "next_ok ?r" using D(2) assms(4,6,7) by (auto simp: next_ok_def nth_list_update)
  moreover have "vcs_dim ?r" using vcs_dim_set[OF D(1), of i v cv] by (simp add: vcs_dim_def)
  moreover have "vc_wf (iq_outputs r) (iq_vcs r) (get_vc ?r i' v')"
    if "i' < iq_inputs r" "v' < iq_vcs r" for i' v' using gv D(4) assms(5) that by simp
  ultimately show ?thesis using assms(8) by (simp add: core_inv_def)
qed

lemma taken_split:
  "j < iq_outputs r \<Longrightarrow> owned (iq_vcs r) b = owned (iq_vcs r) (iq_next_vcs r ! j) \<Longrightarrow>
   {(k, c). k < iq_outputs r \<and> c \<in> owned (iq_vcs r) (if k = j then b else iq_next_vcs r ! k)} = taken r"
  by (auto simp: taken_def split: if_splits)

lemma taken_remove:
  assumes "j < iq_outputs r" "owned (iq_vcs r) b = owned (iq_vcs r) (iq_next_vcs r ! j) - {d}"
  shows "{(k, c). k < iq_outputs r \<and> c \<in> owned (iq_vcs r) (if k = j then b else iq_next_vcs r ! k)} =
    taken r - {(j, d)}"
proof (rule set_eqI)
  fix x :: "nat \<times> nat"
  obtain k c where x: "x = (k, c)" by (cases x)
  show "x \<in> {(k, c). k < iq_outputs r \<and> c \<in> owned (iq_vcs r) (if k = j then b else iq_next_vcs r ! k)} \<longleftrightarrow>
      x \<in> taken r - {(j, d)}"
    unfolding x using assms by (cases "k = j") (simp_all add: taken_def)
qed

lemma core_set_vc:
  assumes "core_inv r" "i < iq_inputs r" "v < iq_vcs r" "vc_wf (iq_outputs r) (iq_vcs r) cv"
    "vc_holds cv = vc_holds (get_vc r i v)"
  shows "core_inv (set_vc i v cv r)"
proof -
  let ?r = "set_vc i v cv r"
  note D = core_invD[OF assms(1)]
  note gv = get_set_vc[OF D(1) assms(2,3), of cv]
  have "holder ?r = holder r" using assms(5) by (auto simp: holder_def fun_eq_iff gv)
  moreover have "taken ?r = taken r" "chans ?r = chans r" "next_ok ?r" using D(2) by (simp_all add: taken_def chans_def next_ok_def)
  moreover have "vcs_dim ?r" using vcs_dim_set[OF D(1), of i v cv] .
  moreover have "vc_wf (iq_outputs r) (iq_vcs r) (get_vc ?r i' v')"
    if "i' < iq_inputs r" "v' < iq_vcs r" for i' v' using gv D(4) assms(4) that by simp
  ultimately show ?thesis using D(3) by (simp add: core_inv_def)
qed

lemma core_set_next:
  assumes "core_inv r" "j < iq_outputs r" "bs_inv b" "bs_vcs b = iq_vcs r"
    "owned (iq_vcs r) b = owned (iq_vcs r) (iq_next_vcs r ! j)"
  shows "core_inv (set_next j b r)"
proof -
  let ?r = "set_next j b r"
  note D = core_invD[OF assms(1)]
  have "taken ?r = taken r" using D(7) assms(2,5) by (auto simp: taken_def nth_list_update split: if_splits)
  moreover have "next_ok ?r" using D(2) assms(2-4) by (auto simp: next_ok_def nth_list_update)
  moreover have "holder ?r = holder r" "chans ?r = chans r" "vcs_dim ?r"
    using D(1) by (simp_all add: holder_def chans_def vcs_dim_def fun_eq_iff)
  ultimately show ?thesis using D(3,4) by (simp add: core_inv_def)
qed

subsection \<open>Links\<close>

lemma owned_credit_vc:
  assumes "bs_inv b" "process_credit_vc v b = Some b'" "bs_vcs b = n"
  shows "owned n b' = owned n b"
proof -
  from bs_stepD[OF assms(2)] obtain i where i: "i < bs_vcs b" "bs_tail_sent b' = bs_tail_sent b"
    "bs_in_use b' = bs_in_use b \<or> bs_in_use b' = (bs_in_use b)[i := False] \<and> bs_tail_sent b ! i" by auto
  have l: "length (bs_in_use b) = n" using assms(1,3) by (simp add: bs_inv_def)
  show ?thesis using i l assms(3) by (auto simp: owned_def nth_list_update split: if_splits)
qed

lemma owned_credit:
  assumes "bs_inv b" "process_credit c b = Some b'"
  shows "bs_inv b' \<and> bs_vcs b' = bs_vcs b \<and> owned (bs_vcs b) b' = owned (bs_vcs b) b"
proof -
  have "(\<lambda>_ t. bs_inv t \<and> bs_vcs t = bs_vcs b \<and> owned (bs_vcs b) t = owned (bs_vcs b) b) (cr_vc c) b'"
  proof (rule fold_opt_inv[where I = "\<lambda>_ t. bs_inv t \<and> bs_vcs t = bs_vcs b \<and> owned (bs_vcs b) t = owned (bs_vcs b) b"])
    show "fold_opt process_credit_vc (cr_vc c) b = Some b'" using assms(2) by (simp add: process_credit_def)
    fix ys x zs t t'
    assume "bs_inv t \<and> bs_vcs t = bs_vcs b \<and> owned (bs_vcs b) t = owned (bs_vcs b) b"
      and s: "process_credit_vc x t = Some t'"
    then show "bs_inv t' \<and> bs_vcs t' = bs_vcs b \<and> owned (bs_vcs b) t' = owned (bs_vcs b) b"
      using process_credit_vc_inv[OF _ s] owned_credit_vc[OF _ s, of "bs_vcs b"] bs_stepD[OF s] by auto
  qed (use assms(1) in simp)
  then show ?thesis by simp
qed

lemma owned_take:
  assumes "bs_inv b" "take_buffer (int c) b = Some b'"
  shows "bs_inv b'" "bs_vcs b' = bs_vcs b" "c < bs_vcs b" "c \<notin> owned (bs_vcs b) b"
    "owned (bs_vcs b) b' = insert c (owned (bs_vcs b) b)"
proof -
  from take_bufferD[OF assms(2)] have c: "c < bs_vcs b" "\<not> bs_in_use b ! c"
    "b' = b\<lparr>bs_in_use := (bs_in_use b)[c := True], bs_tail_sent := (bs_tail_sent b)[c := False]\<rparr>" by auto
  have l: "length (bs_in_use b) = bs_vcs b" "length (bs_tail_sent b) = bs_vcs b"
    using assms(1) by (simp_all add: bs_inv_def)
  show "bs_inv b'" using take_buffer_inv[OF assms] .
  show "bs_vcs b' = bs_vcs b" "c < bs_vcs b" "c \<notin> owned (bs_vcs b) b" using c by (auto simp: owned_def)
  show "owned (bs_vcs b) b' = insert c (owned (bs_vcs b) b)"
    using c l by (auto simp: owned_def nth_list_update split: if_splits)
qed

lemma owned_send:
  assumes "bs_inv b" "sending_flit f b = Some b'" "fl_vc f = int c"
  shows "bs_inv b'" "bs_vcs b' = bs_vcs b"
    "owned (bs_vcs b) b' = (if fl_tail f then owned (bs_vcs b) b - {c} else owned (bs_vcs b) b)"
    "c' \<noteq> c \<Longrightarrow> bs_cur_occupied b' ! c' = bs_cur_occupied b ! c'" "bs_buf_size b' = bs_buf_size b"
proof -
  from sending_flitD[OF assms(2)] assms(3) have c: "c < bs_vcs b" "bs_vcs b' = bs_vcs b" "bs_buf_size b' = bs_buf_size b"
    "bs_cur_occupied b' = (bs_cur_occupied b)[c := bs_cur_occupied b ! c + 1]"
    "bs_tail_sent b' = (if fl_tail f then (bs_tail_sent b)[c := True] else bs_tail_sent b)"
    "bs_in_use b' = (if fl_tail f \<and> \<not> bs_wait_for_tail_credit b then (bs_in_use b)[c := False] else bs_in_use b)"
    by auto
  have l: "length (bs_in_use b) = bs_vcs b" "length (bs_tail_sent b) = bs_vcs b"
    using assms(1) by (simp_all add: bs_inv_def)
  show "bs_inv b'" using sending_flit_inv[OF assms(1,2)] .
  show "bs_vcs b' = bs_vcs b" "bs_buf_size b' = bs_buf_size b" by (fact c)+
  show "c' \<noteq> c \<Longrightarrow> bs_cur_occupied b' ! c' = bs_cur_occupied b ! c'" using c(4) by simp
  show "owned (bs_vcs b) b' = (if fl_tail f then owned (bs_vcs b) b - {c} else owned (bs_vcs b) b)"
    using c l by (auto simp: owned_def nth_list_update split: if_splits)
qed

subsection \<open>Accepting the inputs\<close>

text \<open>What the phases before the allocations leave alone.\<close>

definition quiet :: "('v, 'w) iq_router \<Rightarrow> ('v, 'w) iq_router \<Rightarrow> bool" where
  "quiet r t \<longleftrightarrow> iq_cfg t = iq_cfg r \<and> iq_vcs t = iq_vcs r \<and> iq_vc_allocator t = iq_vc_allocator r \<and>
     iq_sw_allocator t = iq_sw_allocator r \<and> iq_sw_rr_offset t = iq_sw_rr_offset r \<and>
     iq_switch_hold_in t = iq_switch_hold_in r \<and> iq_switch_hold_out t = iq_switch_hold_out r \<and>
     iq_switch_hold_vc t = iq_switch_hold_vc r"

lemma quiet_refl [simp]: "quiet r r"
  by (simp add: quiet_def)

lemma quiet_trans: "quiet r t \<Longrightarrow> quiet t u \<Longrightarrow> quiet r u"
  by (simp add: quiet_def)

lemma quiet_set [simp]: "quiet r (set_vc i v x r)" "quiet r (set_next j b r)"
  by (simp_all add: quiet_def)

lemma quiet_sizes: "quiet r t \<Longrightarrow> iq_cfg t = iq_cfg r \<and> iq_vcs t = iq_vcs r"
  by (simp add: quiet_def)

definition rf_ok :: "nat \<Rightarrow> nat \<Rightarrow> routing_function \<Rightarrow> bool" where
  "rf_ok outs vcs rf \<longleftrightarrow>
     (\<forall>f i os f' os'. length os = outs \<longrightarrow> rf f i os = Some (f', os') \<longrightarrow> route_ok outs vcs os')"

lemma vc_wf_idle: "vc_st cv = idle \<Longrightarrow> length (vc_route_set cv) = outs \<Longrightarrow> vc_wf outs vcs cv"
  by (simp add: vc_wf_def)

lemma vc_wf_buffer:
  assumes "vc_wf outs vcs cv" "vc_st cv' = vc_st cv" "vc_route_set cv' = vc_route_set cv"
    "vc_out_port cv' = vc_out_port cv" "vc_out_vc cv' = vc_out_vc cv" "vc_buffer cv \<noteq> [] \<longrightarrow> vc_buffer cv' \<noteq> []"
  shows "vc_wf outs vcs cv'"
  using assms unfolding vc_wf_def by simp

lemma queue_flit_inv:
  assumes "core_inv r" "i < iq_inputs r" "queue_flit i r = Some r'"
  shows "core_inv r' \<and> quiet r r'"
proof (cases "iq_input_buffer r ! i")
  case Nil
  then show ?thesis using assms by (simp add: queue_flit_def)
next
  case (Cons f fs)
  let ?v = "nat (fl_vc f)" and ?r = "r\<lparr>iq_input_buffer := (iq_input_buffer r)[i := fs]\<rparr>"
  obtain cv where cv: "vc_add_flit f (get_vc r i ?v) = (True, cv)" "?v < iq_vcs r" "r' = set_vc i ?v cv ?r"
    using assms(3) Cons by (auto simp: queue_flit_def split: if_splits prod.splits)
  have cvs: "cv = snd (vc_add_flit f (get_vc r i ?v))" using cv(1) by simp
  have g: "get_vc ?r = get_vc r" by (simp add: get_vc_def fun_eq_iff)
  have c: "core_inv ?r" using assms(1) core_inv_cong[of ?r r] by simp
  have "vc_wf (iq_outputs r) (iq_vcs r) cv"
    by (rule vc_wf_buffer[OF core_invD(4)[OF assms(1,2) cv(2)]])
      (simp_all add: cvs, simp add: vc_add_flit_def)
  moreover have "vc_holds cv = vc_holds (get_vc r i ?v)" by (rule vc_holds_cong) (simp_all add: cvs)
  ultimately have "core_inv r'" unfolding cv(3) using core_set_vc[OF c, of i ?v cv] assms(2) cv(2) g by simp
  moreover have "quiet r r'" unfolding cv(3) by (simp add: quiet_def)
  ultimately show ?thesis by simp
qed

lemma start_packet_inv:
  assumes "core_inv r" "rf_ok (iq_outputs r) (iq_vcs r) rf" "iv \<in> set (all_vcs (iq_inputs r) (iq_vcs r))"
    "start_packet rf iv r = Some r'"
  shows "core_inv r' \<and> quiet r r'"
proof (cases iv)
  case (Pair i v)
  then have iv: "i < iq_inputs r" "v < iq_vcs r" using assms(3) by (auto simp: all_vcs_def)
  let ?cv = "get_vc r i v"
  note wf = core_invD(4)[OF assms(1) iv]
  show ?thesis
  proof (cases "vc_st ?cv = idle \<and> vc_buffer ?cv \<noteq> []")
    case False
    then have "r' = r" using assms(4) Pair
      by (auto simp: start_packet_def vc_front_flit_def Let_def split: if_splits)
    then show ?thesis using assms(1) by simp
  next
    case True
    then obtain f fs where f: "vc_buffer ?cv = f # fs" by (cases "vc_buffer ?cv") auto
    then obtain f' os where rf: "rf f (int i) (vc_route_set ?cv) = Some (f', os)"
      and r': "r' = set_vc i v (vc_set_state routing (?cv\<lparr>vc_route_set := os, vc_buffer := f' # fs\<rparr>)) r"
      using assms(4) True Pair
      by (auto simp: start_packet_def vc_front_flit_def vc_route_def Let_def split: if_splits elim!: bind_SomeE)
    let ?x = "vc_set_state routing (?cv\<lparr>vc_route_set := os, vc_buffer := f' # fs\<rparr>)"
    have ro: "route_ok (iq_outputs r) (iq_vcs r) os" using assms(2) rf wf by (auto simp: rf_ok_def vc_wf_def)
    then have "vc_wf (iq_outputs r) (iq_vcs r) ?x" by (simp add: vc_wf_def route_ok_def)
    moreover have "vc_holds ?x = vc_holds ?cv" using True by (simp add: vc_holds_inactive)
    ultimately have "core_inv r'" unfolding r' by (rule core_set_vc[OF assms(1) iv])
    then show ?thesis by (simp add: r')
  qed
qed

lemma queue_credit_inv:
  assumes "core_inv r" "j < iq_outputs r" "queue_credit j r = Some r'"
  shows "core_inv r' \<and> quiet r r'"
proof (cases "iq_out_cred_buffer r ! j")
  case Nil
  then show ?thesis using assms by (simp add: queue_credit_def)
next
  case (Cons c cs)
  let ?r = "r\<lparr>iq_out_cred_buffer := (iq_out_cred_buffer r)[j := cs]\<rparr>"
  obtain b where b: "process_credit c (iq_next_vcs r ! j) = Some b" "r' = set_next j b ?r"
    using assms(3) Cons by (auto simp: queue_credit_def elim: bind_SomeE)
  have c: "core_inv ?r" using assms(1) core_inv_cong[of ?r r] by simp
  note o = owned_credit[OF core_invD(5)[OF assms(1,2)] b(1)]
  have "core_inv r'" unfolding b(2)
    using o core_invD(6)[OF assms(1,2)] assms(2) by (intro core_set_next[OF c]) simp_all
  moreover have "quiet r r'" unfolding b(2) by (simp add: quiet_def)
  ultimately show ?thesis by simp
qed

lemma fold_opt_core:
  assumes "fold_opt f xs r = Some r'" "core_inv r"
    "\<And>x t t'. x \<in> set xs \<Longrightarrow> core_inv t \<Longrightarrow> quiet r t \<Longrightarrow> f x t = Some t' \<Longrightarrow> core_inv t' \<and> quiet t t'"
  shows "core_inv r' \<and> quiet r r'"
proof -
  have "(\<lambda>_ t. core_inv t \<and> quiet r t) xs r'"
  proof (rule fold_opt_inv[OF assms(1), where I = "\<lambda>_ t. core_inv t \<and> quiet r t"])
    fix ys x zs t t' assume a: "xs = ys @ x # zs" "core_inv t \<and> quiet r t" "f x t = Some t'"
    then have "core_inv t' \<and> quiet t t'" by (intro assms(3)) simp_all
    then show "core_inv t' \<and> quiet r t'" using a(2) quiet_trans by blast
  qed (use assms(2) in simp)
  then show ?thesis by simp
qed

lemma input_queuing_inv:
  assumes "core_inv r" "rf_ok (iq_outputs r) (iq_vcs r) rf" "input_queuing rf r = Some r'"
  shows "core_inv r' \<and> quiet r r'"
proof -
  obtain r1 r2 where s: "fold_opt queue_flit [0 ..< iq_inputs r] r = Some r1"
    "fold_opt (start_packet rf) (all_vcs (iq_inputs r) (iq_vcs r)) r1 = Some r2"
    "fold_opt queue_credit [0 ..< iq_outputs r] r2 = Some r'"
    using assms(3) by (auto simp: input_queuing_def elim!: bind_SomeE)
  have 1: "core_inv r1 \<and> quiet r r1"
  proof (rule fold_opt_core[OF s(1) assms(1)])
    fix x t t' assume "x \<in> set [0 ..< iq_inputs r]" "core_inv t" "quiet r t" "queue_flit x t = Some t'"
    then show "core_inv t' \<and> quiet t t'" using queue_flit_inv[of t x t'] quiet_sizes[of r t] by simp
  qed
  have 2: "core_inv r2 \<and> quiet r1 r2"
  proof (rule fold_opt_core[OF s(2)])
    fix x t t' assume "x \<in> set (all_vcs (iq_inputs r) (iq_vcs r))" "core_inv t" "quiet r1 t" "start_packet rf x t = Some t'"
    then show "core_inv t' \<and> quiet t t'"
      using start_packet_inv[of t rf x t'] assms(2) quiet_sizes[of r r1] quiet_sizes[of r1 t] 1 by simp
  qed (use 1 in simp)
  have 3: "core_inv r' \<and> quiet r2 r'"
  proof (rule fold_opt_core[OF s(3)])
    fix x t t' assume "x \<in> set [0 ..< iq_outputs r]" "core_inv t" "quiet r2 t" "queue_credit x t = Some t'"
    then show "core_inv t' \<and> quiet t t'"
      using queue_credit_inv[of t x t'] quiet_sizes[of r r1] quiet_sizes[of r1 r2] quiet_sizes[of r2 t] 1 2 by simp
  qed (use 2 in simp)
  show ?thesis using 1 2 3 quiet_trans by blast
qed

lemma route_all_inv:
  assumes "core_inv r"
  shows "core_inv (route_all r) \<and> quiet r (route_all r)"
proof -
  have "core_inv (fold route_vc xs t) \<and> quiet r (fold route_vc xs t)"
    if "set xs \<subseteq> set (all_vcs (iq_inputs r) (iq_vcs r))" "core_inv t" "quiet r t" for xs t
    using that
  proof (induction xs arbitrary: t)
    case (Cons x xs)
    obtain i v where x: "x = (i, v)" by (cases x)
    have sz: "iq_cfg t = iq_cfg r" "iq_vcs t = iq_vcs r" using quiet_sizes[OF Cons.prems(3)] by auto
    then have iv: "i < iq_inputs t" "v < iq_vcs t" using Cons.prems(1) x by (auto simp: all_vcs_def)
    let ?cv = "get_vc t i v"
    note wf = core_invD(4)[OF Cons.prems(2) iv]
    have "core_inv (route_vc x t) \<and> quiet t (route_vc x t)"
    proof (cases "vc_st ?cv = routing \<and> qc_routing_delay (iq_cfg t) \<le> vc_state_time ?cv")
      case True
      have "vc_wf (iq_outputs t) (iq_vcs t) (vc_set_state vc_alloc ?cv)" using wf True by (simp add: vc_wf_def)
      moreover have "vc_holds (vc_set_state vc_alloc ?cv) = vc_holds ?cv" using True by (simp add: vc_holds_inactive)
      ultimately have "core_inv (set_vc i v (vc_set_state vc_alloc ?cv) t)" by (rule core_set_vc[OF Cons.prems(2) iv])
      then show ?thesis using True x by (simp add: route_vc_def)
    next
      case False
      then have "route_vc x t = t" using x by (auto simp: route_vc_def)
      then show ?thesis using Cons.prems(2) by simp
    qed
    then show ?case using Cons.IH[of "route_vc x t"] Cons.prems quiet_trans[of r t] by simp
  qed simp
  then show ?thesis using assms by (simp add: route_all_def)
qed

subsection \<open>Allocating output channels\<close>

lemma index_less: "j < (m :: nat) \<Longrightarrow> c < n \<Longrightarrow> j * n + c < n * m"
proof -
  assume "j < m" "c < n"
  then have "j * n + c < j * n + n" by simp
  moreover have "Suc j * n \<le> m * n" by (rule mult_le_mono1) (use \<open>j < m\<close> in simp)
  ultimately show ?thesis by (simp add: mult.commute)
qed

lemma index_div_mod:
  "c < (n :: nat) \<Longrightarrow> (j * n + c) div n = j" "c < n \<Longrightarrow> (j * n + c) mod n = c"
  "c < n \<Longrightarrow> j * n + c - (j * n + c) div n * n = c"
  by simp_all

lemma index_inj:
  assumes "s * n + i = s' * n + i'" "i < n" "i' < (n :: nat)"
  shows "s = s' \<and> i = i'"
  using index_div_mod(1,2)[OF assms(2), of s] index_div_mod(1,2)[OF assms(3), of s'] assms(1) by simp

lemma all_vcs_props: "distinct (all_vcs n vcs)" "(i, v) \<in> set (all_vcs n vcs) \<longleftrightarrow> i < n \<and> v < vcs"
  by (auto simp: all_vcs_def intro: distinct_product)

lemma route_ok_range:
  assumes "route_ok outs vcs os" "j < outs" "k < length (os_vcs os j)"
  shows "\<exists>c p. os_get_vc os (int j) (int k) = Some (int c, p) \<and> c < vcs"
proof -
  obtain v p where vp: "os_vcs os j ! k = (v, p)" by (cases "os_vcs os j ! k")
  then have "(v, p) \<in> set (os_vcs os j)" using assms(3) by (metis nth_mem)
  then obtain e where e: "e \<in> set (os ! j)" "v \<in> {se_vc_start e .. se_vc_end e}"
    by (auto simp: os_vcs_def se_vcs_def)
  have "os ! j \<in> set os" using assms(1,2) by (simp add: route_ok_def)
  with e assms(1) have "0 \<le> se_vc_start e \<and> se_vc_end e < int vcs" unfolding route_ok_def by blast
  with e(2) have "0 \<le> v" "v < int vcs" by auto
  moreover have "os_get_vc os (int j) (int k) = Some (v, p)"
    using os_get_vc_nth[of os j k] assms vp by (simp add: route_ok_def)
  ultimately show ?thesis by (intro exI[of _ "nat v"] exI[of _ p]) simp
qed

text \<open>As \<open>quiet\<close>, for the allocation phases: the sizes and the switch state stay.\<close>

definition steady :: "('v, 'w) iq_router \<Rightarrow> ('v, 'w) iq_router \<Rightarrow> bool" where
  "steady r t \<longleftrightarrow> iq_cfg t = iq_cfg r \<and> iq_vcs t = iq_vcs r \<and>
     iq_switch_hold_in t = iq_switch_hold_in r \<and> iq_switch_hold_out t = iq_switch_hold_out r \<and>
     iq_switch_hold_vc t = iq_switch_hold_vc r"

lemma steady_refl [simp]: "steady r r"
  by (simp add: steady_def)

lemma steady_trans: "steady r t \<Longrightarrow> steady t u \<Longrightarrow> steady r u"
  by (simp add: steady_def)

lemma quiet_steady: "quiet r t \<Longrightarrow> steady r t"
  by (simp add: quiet_def steady_def)

locale router_allocs = va: allocator vo vok vsize vrq + sa: allocator so wok wsize wrq
  for vo :: "'v alloc_ops" and vok vsize vrq
  and so :: "'w alloc_ops" and wok wsize wrq
begin

text \<open>The requests of \<open>_VCAlloc\<close>: from channels in \<open>vc_alloc\<close>, for channels not in use.\<close>

definition vc_reqs :: "('v, 'w) iq_router \<Rightarrow> 'v \<Rightarrow> bool" where
  "vc_reqs r al \<longleftrightarrow> vok al \<and> vsize al = (iq_vcs r * iq_inputs r, iq_vcs r * iq_outputs r) \<and>
     (\<forall>x y l. vrq al x y l \<longrightarrow> (\<exists>i < iq_inputs r. \<exists>v < iq_vcs r. \<exists>j < iq_outputs r. \<exists>c < iq_vcs r.
        x = i * iq_vcs r + v \<and> y = j * iq_vcs r + c \<and> vc_st (get_vc r i v) = vc_alloc \<and>
        \<not> bs_in_use (iq_next_vcs r ! j) ! c))"

lemma add_vc_request_total:
  assumes "core_inv r" "vc_reqs r al" "i < iq_inputs r" "v < iq_vcs r" "vc_st (get_vc r i v) = vc_alloc"
    "j < iq_outputs r" "k < length (os_vcs (vc_route_set (get_vc r i v)) j)"
  shows "\<exists>al'. add_vc_request vo r (get_vc r i v) (i * iq_vcs r + v) j k al = Some al' \<and> vc_reqs r al'"
proof -
  have ro: "route_ok (iq_outputs r) (iq_vcs r) (vc_route_set (get_vc r i v))"
    using core_invD(4)[OF assms(1,3,4)] assms(5) by (simp add: vc_wf_def)
  obtain c p where c: "os_get_vc (vc_route_set (get_vc r i v)) (int j) (int k) = Some (int c, p)" "c < iq_vcs r"
    using route_ok_range[OF ro assms(6,7)] by blast
  have bv: "bs_vcs (iq_next_vcs r ! j) = iq_vcs r" by (rule core_invD(6)[OF assms(1,6)])
  have av: "is_available_for (iq_next_vcs r ! j) (int c) = Some (\<not> bs_in_use (iq_next_vcs r ! j) ! c)"
    using c(2) bv by (intro is_available_for_int) simp
  show ?thesis
  proof (cases "bs_in_use (iq_next_vcs r ! j) ! c")
    case True
    then show ?thesis using c av assms(2) by (simp add: add_vc_request_def)
  next
    case False
    have R: "vok al" "vsize al = (iq_vcs r * iq_inputs r, iq_vcs r * iq_outputs r)"
      using assms(2) by (auto simp: vc_reqs_def)
    obtain al' where al': "ao_add_request vo (i * iq_vcs r + v) (j * iq_vcs r + c) 1 p (vc_pri (get_vc r i v)) al = Some al'"
      "vok al'" "vsize al' = vsize al"
      "\<And>x y l. vrq al' x y l \<Longrightarrow> vrq al x y l \<or> x = i * iq_vcs r + v \<and> y = j * iq_vcs r + c \<and> l = 1"
      using va.add_law[OF R(1), of "i * iq_vcs r + v" "j * iq_vcs r + c" 1 p "vc_pri (get_vc r i v)"]
        index_less[OF assms(3,4)] index_less[OF assms(6) c(2)] R(2) by auto
    have "vc_reqs r al'"
      unfolding vc_reqs_def
    proof (intro conjI allI impI)
      fix x y l assume "vrq al' x y l"
      from al'(4)[OF this] show "\<exists>i < iq_inputs r. \<exists>v < iq_vcs r. \<exists>j < iq_outputs r. \<exists>c < iq_vcs r.
        x = i * iq_vcs r + v \<and> y = j * iq_vcs r + c \<and> vc_st (get_vc r i v) = vc_alloc \<and>
        \<not> bs_in_use (iq_next_vcs r ! j) ! c"
      proof
        assume "vrq al x y l"
        then show ?thesis using assms(2) unfolding vc_reqs_def by blast
      next
        assume "x = i * iq_vcs r + v \<and> y = j * iq_vcs r + c \<and> l = 1"
        then show ?thesis using assms(3-6) c(2) False by blast
      qed
    qed (use al' R in auto)
    then show ?thesis using c av False al'(1) by (simp add: add_vc_request_def)
  qed
qed

lemma vc_request_total:
  assumes "core_inv r" "vc_reqs r al" "iv \<in> set (all_vcs (iq_inputs r) (iq_vcs r))"
  shows "\<exists>al'. vc_request vo r iv al = Some al' \<and> vc_reqs r al'"
proof -
  obtain i v where iv0: "iv = (i, v)" by (cases iv)
  with assms(3) have iv: "iv = (i, v)" "i < iq_inputs r" "v < iq_vcs r" by (simp_all add: all_vcs_props)
  let ?cv = "get_vc r i v"
  show ?thesis
  proof (cases "vc_st ?cv = vc_alloc \<and> qc_vc_alloc_delay (iq_cfg r) \<le> vc_state_time ?cv")
    case False
    then have "vc_request vo r iv al = Some al" by (auto simp: vc_request_def iv Let_def)
    then show ?thesis using assms(2) by simp
  next
    case True
    have wf: "vc_buffer ?cv \<noteq> []" "route_ok (iq_outputs r) (iq_vcs r) (vc_route_set ?cv)"
      using core_invD(4)[OF assms(1) iv(2,3)] True by (auto simp: vc_wf_def)
    have "\<exists>al'. add_vc_requests vo r ?cv (i * iq_vcs r + v) al = Some al' \<and> vc_reqs r al'"
      unfolding add_vc_requests_def
    proof (rule fold_opt_total[where I = "\<lambda>_. vc_reqs r"])
      fix ys j zs t assume j: "[0 ..< iq_outputs r] = ys @ j # zs" and t: "vc_reqs r t"
      then have "j \<in> set [0 ..< iq_outputs r]" by simp
      then have jo: "j < iq_outputs r" by simp
      have cnt: "os_num_vcs (vc_route_set ?cv) (int j) = Some (int (length (os_vcs (vc_route_set ?cv) j)))"
        using wf(2) jo by (intro os_num_vcs_length) (auto simp: route_ok_def)
      have "\<exists>t'. fold_opt (add_vc_request vo r ?cv (i * iq_vcs r + v) j)
          [0 ..< length (os_vcs (vc_route_set ?cv) j)] t = Some t' \<and> vc_reqs r t'"
      proof (rule fold_opt_total[where I = "\<lambda>_. vc_reqs r"])
        fix ys k zs u assume k: "[0 ..< length (os_vcs (vc_route_set ?cv) j)] = ys @ k # zs" and u: "vc_reqs r u"
        have "k \<in> set [0 ..< length (os_vcs (vc_route_set ?cv) j)]" using k by simp
        then show "\<exists>t'. add_vc_request vo r ?cv (i * iq_vcs r + v) j k u = Some t' \<and> vc_reqs r t'"
          using add_vc_request_total[OF assms(1) u iv(2,3) _ jo, of k] True by simp
      qed (rule t)
      then show "\<exists>t'. Option.bind (os_num_vcs (vc_route_set ?cv) (int j))
          (\<lambda>cnt. fold_opt (add_vc_request vo r ?cv (i * iq_vcs r + v) j) [0 ..< nat cnt] t) = Some t' \<and> vc_reqs r t'"
        by (simp add: cnt)
    qed (rule assms(2))
    then show ?thesis using True wf(1) by (simp add: vc_request_def iv vc_empty_def)
  qed
qed

text \<open>During the grants: channels of inputs not granted yet, and links not granted yet, are as
  before.\<close>

definition granting :: "('v, 'w) iq_router \<Rightarrow> (nat \<times> nat) list \<Rightarrow> ('v, 'w) iq_router \<Rightarrow> bool" where
  "granting r ys t \<longleftrightarrow> core_inv t \<and> steady r t \<and> iq_vc_allocator t = iq_vc_allocator r \<and>
     iq_sw_allocator t = iq_sw_allocator r \<and> iq_sw_rr_offset t = iq_sw_rr_offset r \<and>
     (\<forall>i < iq_inputs r. \<forall>v < iq_vcs r. get_vc t i v = get_vc r i v \<or>
        (\<exists>(j, c) \<in> set ys. ao_input_assigned vo (iq_vc_allocator r) (j * iq_vcs r + c) = Some (Some (i * iq_vcs r + v)))) \<and>
     (\<forall>j < iq_outputs r. \<forall>c < iq_vcs r. (j, c) \<notin> set ys \<longrightarrow>
        bs_in_use (iq_next_vcs t ! j) ! c = bs_in_use (iq_next_vcs r ! j) ! c)"

lemma vc_grant_total:
  assumes "core_inv r" "iq_vc_allocator r = ao_allocate vo al" "vc_reqs r al"
    "granting r ys t" "all_vcs (iq_outputs r) (iq_vcs r) = ys @ jc # zs"
  shows "\<exists>t'. vc_grant vo jc t = Some t' \<and> granting r (ys @ [jc]) t'"
proof -
  obtain j c where jc: "jc = (j, c)" by (cases jc)
  have "jc \<in> set (all_vcs (iq_outputs r) (iq_vcs r))" using assms(5) by simp
  then have jr: "j < iq_outputs r" "c < iq_vcs r" by (auto simp: all_vcs_props jc)
  have dist: "jc \<notin> set ys" using all_vcs_props(1)[of "iq_outputs r" "iq_vcs r"] assms(5) by simp
  have R: "vok al" "vsize al = (iq_vcs r * iq_inputs r, iq_vcs r * iq_outputs r)"
    using assms(3) by (auto simp: vc_reqs_def)
  have sz: "iq_cfg t = iq_cfg r" "iq_vcs t = iq_vcs r" "iq_vc_allocator t = ao_allocate vo al"
    using assms(2,4) by (auto simp: granting_def steady_def)
  have core: "core_inv t" using assms(4) by (simp add: granting_def)
  have "ao_input_assigned vo (ao_allocate vo al) (j * iq_vcs r + c) \<noteq> None"
    using va.assigned_total(1)[of "j * iq_vcs r + c" "ao_allocate vo al"] va.allocate_law[OF R(1)] R(2)
      index_less[OF jr] by simp
  then obtain a where a: "ao_input_assigned vo (ao_allocate vo al) (j * iq_vcs r + c) = Some a" by blast
  show ?thesis
  proof (cases a)
    case None
    then have "vc_grant vo jc t = Some t" using a sz by (simp add: vc_grant_def jc)
    moreover have "granting r (ys @ [jc]) t" using assms(4) unfolding granting_def by auto
    ultimately show ?thesis by blast
  next
    case (Some x)
    have xa: "ao_input_assigned vo (ao_allocate vo al) (j * iq_vcs r + c) = Some (Some x)" using a Some by simp
    then obtain l where "vrq al x (j * iq_vcs r + c) l" using va.granted[OF R(1)] va.in_out[OF R(1)] by blast
    then obtain i v j' c' where x: "i < iq_inputs r" "v < iq_vcs r" "j' < iq_outputs r" "c' < iq_vcs r"
        "x = i * iq_vcs r + v" "j * iq_vcs r + c = j' * iq_vcs r + c'" "vc_st (get_vc r i v) = vc_alloc"
        "\<not> bs_in_use (iq_next_vcs r ! j') ! c'"
      using assms(3) unfolding vc_reqs_def by blast
    have jj: "j' = j" "c' = c" using index_inj[OF x(6) jr(2) x(4)] by auto
    have xi: "x div iq_vcs r = i" "x - x div iq_vcs r * iq_vcs r = v"
      unfolding x(5) by (rule index_div_mod[OF x(2)])+
    have same: "get_vc t i v = get_vc r i v"
    proof (rule ccontr)
      assume ne: "get_vc t i v \<noteq> get_vc r i v"
      have "get_vc t i v = get_vc r i v \<or> (\<exists>(j, c) \<in> set ys.
          ao_input_assigned vo (iq_vc_allocator r) (j * iq_vcs r + c) = Some (Some (i * iq_vcs r + v)))"
        using assms(4) x(1,2) unfolding granting_def by blast
      with ne obtain p where p: "p \<in> set ys" "case p of (j, c) \<Rightarrow>
          ao_input_assigned vo (iq_vc_allocator r) (j * iq_vcs r + c) = Some (Some (i * iq_vcs r + v))" by blast
      obtain j1 c1 where p1: "p = (j1, c1)" by (cases p)
      have y: "(j1, c1) \<in> set ys" using p(1) unfolding p1 .
      have y2: "ao_input_assigned vo (ao_allocate vo al) (j1 * iq_vcs r + c1) = Some (Some x)"
        using p(2) unfolding p1 prod.case assms(2) x(5) .
      from va.one_grant_per_input[OF R(1) y2 xa] have e: "j1 * iq_vcs r + c1 = j * iq_vcs r + c" .
      have "(j1, c1) \<in> set (all_vcs (iq_outputs r) (iq_vcs r))" using y assms(5) by simp
      then have "c1 < iq_vcs r" by (simp add: all_vcs_props)
      from index_inj[OF e this jr(2)] show False using y dist jc by simp
    qed
    let ?cv = "vc_set_output j c (vc_set_state active (get_vc t i v))" and ?b0 = "iq_next_vcs t ! j"
    have bv: "bs_vcs ?b0 = iq_vcs r" "bs_inv ?b0" using core_invD(5,6)[OF core] jr sz by auto
    have free: "\<not> bs_in_use ?b0 ! c"
      using assms(4) x(8) dist jr unfolding jj jc granting_def by simp
    then obtain b where b: "take_buffer (int c) ?b0 = Some b"
      using take_buffer_total[of ?b0 "int c"] is_available_for_int[of c ?b0] bv jr by auto
    note ow = owned_take[OF bv(2) b, unfolded bv(1)]
    have wf: "vc_wf (iq_outputs t) (iq_vcs t) ?cv" "vc_buffer ?cv \<noteq> []"
      using core_invD(4)[OF core, of i v] x(1,2,7) sz same jr by (auto simp: vc_wf_def)
    have hc: "vc_holds ?cv = Some (j, c)" by (simp add: vc_holds_Some)
    have core': "core_inv (set_next j b (set_vc i v ?cv t))"
    proof (rule core_update[OF core _ _ _ wf(1) ow(1)])
      have "(i, v) \<in> chans t" using x(1,2) sz by (simp add: chans_def)
      moreover have "holder t (i, v) = None" using x(7) same by (simp add: holder_def vc_holds_inactive)
      moreover have "(j, c) \<notin> taken t" using ow(4) sz by (simp add: taken_def)
      ultimately have "holds (chans t) ((holder t)((i, v) := Some (j, c))) (insert (j, c) (taken t))"
        using holds_add[OF core_invD(3)[OF core]] by blast
      moreover have "{(k, d). k < iq_outputs t \<and> d \<in> owned (iq_vcs t) (if k = j then b else iq_next_vcs t ! k)} =
          insert (j, c) (taken t)"
        using ow(5) jr sz by (auto simp: taken_def split: if_splits)
      ultimately show "holds (chans t) ((holder t)((i, v) := vc_holds ?cv))
          {(k, d). k < iq_outputs t \<and> d \<in> owned (iq_vcs t) (if k = j then b else iq_next_vcs t ! k)}"
        unfolding hc by simp
    qed (use x(1,2) jr sz ow(2) bv(1) in simp_all)
    let ?t = "set_next j b (set_vc i v ?cv t)"
    have run: "vc_grant vo jc t = Some ?t"
      using xa xi sz b wf(2) by (simp add: vc_grant_def jc vc_empty_def Let_def)
    have gt: "get_vc ?t i' v' = (if i' = i \<and> v' = v then ?cv else get_vc t i' v')" for i' v'
      using get_set_vc[OF core_invD(1)[OF core], of i v ?cv] x(1,2) sz by simp
    have gi: "get_vc ?t i' v' = get_vc r i' v' \<or> (\<exists>(k, d) \<in> set (ys @ [jc]).
        ao_input_assigned vo (iq_vc_allocator r) (k * iq_vcs r + d) = Some (Some (i' * iq_vcs r + v')))"
      if "i' < iq_inputs r" "v' < iq_vcs r" for i' v'
    proof (cases "i' = i \<and> v' = v")
      case True
      then show ?thesis using xa assms(2) x(5) jc by auto
    next
      case False
      then show ?thesis using gt assms(4) that unfolding granting_def by auto
    qed
    have gn: "bs_in_use (iq_next_vcs ?t ! k) ! d = bs_in_use (iq_next_vcs r ! k) ! d"
      if "k < iq_outputs r" "d < iq_vcs r" "(k, d) \<notin> set (ys @ [jc])" for k d
    proof -
      have "bs_in_use b ! d = bs_in_use ?b0 ! d" if "k = j" using that take_bufferD[OF b] \<open>(k, d) \<notin> _\<close> jc by auto
      then have "bs_in_use (iq_next_vcs ?t ! k) ! d = bs_in_use (iq_next_vcs t ! k) ! d"
        using core_invD(7)[OF core] that sz by (cases "k = j") auto
      then show ?thesis using assms(4) that unfolding granting_def by simp
    qed
    have "steady r ?t" "iq_vc_allocator ?t = iq_vc_allocator r" "iq_sw_allocator ?t = iq_sw_allocator r"
      "iq_sw_rr_offset ?t = iq_sw_rr_offset r"
      using assms(4) by (simp_all add: granting_def steady_def)
    then have "granting r (ys @ [jc]) ?t" using core' gi gn unfolding granting_def by blast
    with run show ?thesis by blast
  qed
qed

lemma vc_alloc_total:
  fixes r :: "('v, 'w) iq_router"
  assumes "core_inv r" "vok (iq_vc_allocator r)"
    "vsize (iq_vc_allocator r) = (iq_vcs r * iq_inputs r, iq_vcs r * iq_outputs r)"
  shows "\<exists>r'. vc_alloc_step vo r = Some r' \<and> core_inv r' \<and> steady r r' \<and> vok (iq_vc_allocator r') \<and>
    vsize (iq_vc_allocator r') = vsize (iq_vc_allocator r) \<and>
    iq_sw_allocator r' = iq_sw_allocator r \<and> iq_sw_rr_offset r' = iq_sw_rr_offset r"
proof -
  have c0: "vc_reqs r (ao_clear vo (iq_vc_allocator r))"
    using va.clear_law[OF assms(2)] assms(3) by (simp add: vc_reqs_def)
  have "\<exists>al. fold_opt (vc_request vo r) (all_vcs (iq_inputs r) (iq_vcs r)) (ao_clear vo (iq_vc_allocator r)) = Some al \<and>
      vc_reqs r al"
  proof (rule fold_opt_total[where I = "\<lambda>_. vc_reqs r"])
    fix ys x zs t assume x: "all_vcs (iq_inputs r) (iq_vcs r) = ys @ x # zs" "vc_reqs r t"
    have "x \<in> set (all_vcs (iq_inputs r) (iq_vcs r))" unfolding x(1) by simp
    then show "\<exists>t'. vc_request vo r x t = Some t' \<and> vc_reqs r t'" by (rule vc_request_total[OF assms(1) x(2)])
  qed (rule c0)
  then obtain al where al: "fold_opt (vc_request vo r) (all_vcs (iq_inputs r) (iq_vcs r))
      (ao_clear vo (iq_vc_allocator r)) = Some al" "vc_reqs r al" by blast
  let ?r = "r\<lparr>iq_vc_allocator := ao_allocate vo al\<rparr>"
  have g: "get_vc ?r = get_vc r" by (simp add: get_vc_def fun_eq_iff)
  have core: "core_inv ?r" using assms(1) core_inv_cong[of ?r r] by simp
  have reqs: "vc_reqs ?r al" using al(2) by (simp add: vc_reqs_def g)
  have "\<exists>t. fold_opt (vc_grant vo) (all_vcs (iq_outputs r) (iq_vcs r)) ?r = Some t \<and>
      granting ?r (all_vcs (iq_outputs r) (iq_vcs r)) t"
  proof (rule fold_opt_total)
    show "granting ?r [] ?r" using core by (simp add: granting_def)
    fix ys x zs t assume "all_vcs (iq_outputs r) (iq_vcs r) = ys @ x # zs" "granting ?r ys t"
    then show "\<exists>t'. vc_grant vo x t = Some t' \<and> granting ?r (ys @ [x]) t'"
      using vc_grant_total[OF core _ reqs, of ys t x zs] by simp
  qed
  then obtain t where t: "fold_opt (vc_grant vo) (all_vcs (iq_outputs r) (iq_vcs r)) ?r = Some t"
    "granting ?r (all_vcs (iq_outputs r) (iq_vcs r)) t" by blast
  have vk: "vok (ao_allocate vo al)" "vsize (ao_allocate vo al) = vsize (iq_vc_allocator r)"
    using va.allocate_law[of al] al(2) assms(3) by (auto simp: vc_reqs_def)
  have "vc_alloc_step vo r = Some t" using al(1) t(1) by (simp add: vc_alloc_step_def)
  then show ?thesis using t(2) vk unfolding granting_def by (intro exI[of _ t]) (simp add: steady_def)
qed

end

subsection \<open>Allocating the switch\<close>

definition switch_ok :: "('v, 'w) iq_router \<Rightarrow> bool" where
  "switch_ok r \<longleftrightarrow> \<not> qc_hold_switch_for_packet (iq_cfg r) \<and>
     iq_switch_hold_in r = replicate (iq_inputs r * qc_input_speedup (iq_cfg r)) None \<and>
     iq_switch_hold_vc r = replicate (iq_inputs r * qc_input_speedup (iq_cfg r)) None \<and>
     iq_switch_hold_out r = replicate (iq_outputs r * qc_output_speedup (iq_cfg r)) None \<and>
     0 < qc_input_speedup (iq_cfg r) \<and> 0 < qc_output_speedup (iq_cfg r) \<and> 0 < iq_vcs r"

definition rr_ok :: "('v, 'w) iq_router \<Rightarrow> bool" where
  "rr_ok r \<longleftrightarrow> length (iq_sw_rr_offset r) = iq_inputs r * qc_input_speedup (iq_cfg r) \<and>
     (\<forall>v \<in> set (iq_sw_rr_offset r). v < iq_vcs r)"

lemma switch_ok_steady: "steady r t \<Longrightarrow> switch_ok r \<Longrightarrow> switch_ok t"
  by (simp add: steady_def switch_ok_def)

lemma rr_ok_cong: "steady r t \<Longrightarrow> iq_sw_rr_offset t = iq_sw_rr_offset r \<Longrightarrow> rr_ok r \<Longrightarrow> rr_ok t"
  by (simp add: steady_def rr_ok_def)

lemma replicate_None_update: "(replicate n None)[k := None] = replicate n None"
proof (rule nth_equalityI)
  fix i assume "i < length ((replicate n (None :: 'a option))[k := None])"
  then show "(replicate n None)[k := None] ! i = replicate n (None :: 'a option) ! i"
    by (cases "k = i") simp_all
qed simp

text \<open>A channel that may send: active with a flit, its output channel not full.\<close>

definition can_send :: "('v, 'w) iq_router \<Rightarrow> nat \<Rightarrow> nat \<Rightarrow> nat \<Rightarrow> nat \<Rightarrow> bool" where
  "can_send r i v p c \<longleftrightarrow> i < iq_inputs r \<and> v < iq_vcs r \<and> p < iq_outputs r \<and> c < iq_vcs r \<and>
     vc_holds (get_vc r i v) = Some (p, c) \<and> vc_buffer (get_vc r i v) \<noteq> [] \<and>
     is_full_for (iq_next_vcs r ! p) (int c) = Some False"

lemma can_sendI:
  assumes "core_inv r" "i < iq_inputs r" "v < iq_vcs r" "vc_st (get_vc r i v) = active"
    "\<not> vc_empty (get_vc r i v)"
  obtains p c where "vc_out_port (get_vc r i v) = Some p" "vc_out_vc (get_vc r i v) = Some c"
    "p < iq_outputs r" "c < iq_vcs r"
    "\<exists>b. is_full_for (iq_next_vcs r ! p) (int c) = Some b \<and> (\<not> b \<longrightarrow> can_send r i v p c)"
proof -
  obtain p c where pc: "p < iq_outputs r" "c < iq_vcs r" "vc_out_port (get_vc r i v) = Some p"
    "vc_out_vc (get_vc r i v) = Some c"
    using core_invD(4)[OF assms(1-3)] assms(4) by (auto simp: vc_wf_def)
  have "bs_vcs (iq_next_vcs r ! p) = iq_vcs r" by (rule core_invD(6)[OF assms(1) pc(1)])
  then have "is_full_for (iq_next_vcs r ! p) (int c) =
      Some (bs_cur_occupied (iq_next_vcs r ! p) ! c = bs_buf_size (iq_next_vcs r ! p))"
    using pc(2) by (intro is_full_for_int) simp
  moreover have "vc_holds (get_vc r i v) = Some (p, c)" using assms(4) pc by (simp add: vc_holds_Some)
  ultimately show ?thesis using pc assms by (intro that[of p c]) (auto simp: can_send_def vc_empty_def)
qed

context router_allocs
begin

definition sw_reqs :: "('v, 'w) iq_router \<Rightarrow> 'w \<Rightarrow> bool" where
  "sw_reqs r al \<longleftrightarrow> wok al \<and> wsize al = (iq_inputs r * qc_input_speedup (iq_cfg r), iq_outputs r * qc_output_speedup (iq_cfg r)) \<and>
     (\<forall>x y l. wrq al x y l \<longrightarrow> (\<exists>i s v p c. s < qc_input_speedup (iq_cfg r) \<and> can_send r i v p c \<and>
        v mod qc_input_speedup (iq_cfg r) = s \<and> x = s * iq_inputs r + i \<and> l = int v \<and>
        y = (i mod qc_output_speedup (iq_cfg r)) * iq_outputs r + p))"

lemma sw_request_vc_total:
  assumes "core_inv r" "switch_ok r" "sw_reqs r al" "i < iq_inputs r" "s < qc_input_speedup (iq_cfg r)" "v < iq_vcs r"
  shows "\<exists>al'. sw_request_vc so r i s (v, al) = Some ((v + 1) mod iq_vcs r, al') \<and> sw_reqs r al'"
proof -
  let ?c = "iq_cfg r" and ?cv = "get_vc r i v"
  show ?thesis
  proof (cases "v mod qc_input_speedup ?c \<noteq> s \<or> \<not> (vc_st ?cv = active \<and> \<not> vc_empty ?cv)")
    case True
    then have "sw_request_vc so r i s (v, al) = Some ((v + 1) mod iq_vcs r, al)"
      by (auto simp: sw_request_vc_def Let_def)
    then show ?thesis using assms(3) by simp
  next
    case False
    then have st: "v mod qc_input_speedup ?c = s" "vc_st ?cv = active" "\<not> vc_empty ?cv" by auto
    from can_sendI[OF assms(1,4,6) st(2,3)] obtain p c b where pc:
      "vc_out_port ?cv = Some p" "vc_out_vc ?cv = Some c" "p < iq_outputs r" "c < iq_vcs r"
      "is_full_for (iq_next_vcs r ! p) (int c) = Some b" "\<not> b \<Longrightarrow> can_send r i v p c" by metis
    show ?thesis
    proof (cases b)
      case True
      then have "sw_request_vc so r i s (v, al) = Some ((v + 1) mod iq_vcs r, al)"
        using st pc by (simp add: sw_request_vc_def Let_def)
      then show ?thesis using assms(3) by simp
    next
      case False
      let ?ei = "s * iq_inputs r + i" and ?eo = "(i mod qc_output_speedup ?c) * iq_outputs r + p"
      have ei: "?ei < iq_inputs r * qc_input_speedup ?c" by (rule index_less[OF assms(5,4)])
      have eo: "?eo < iq_outputs r * qc_output_speedup ?c"
        using assms(2) pc(3) by (intro index_less) (auto simp: switch_ok_def)
      have R: "wok al" "wsize al = (iq_inputs r * qc_input_speedup ?c, iq_outputs r * qc_output_speedup ?c)"
        using assms(3) by (auto simp: sw_reqs_def)
      obtain al' where al': "ao_add_request so ?ei ?eo (int v) (vc_pri ?cv) (vc_pri ?cv) al = Some al'" "wok al'"
        "wsize al' = wsize al"
        "\<And>x y l. wrq al' x y l \<Longrightarrow> wrq al x y l \<or> x = ?ei \<and> y = ?eo \<and> l = int v"
        using sa.add_law[OF R(1), of ?ei ?eo "int v" "vc_pri ?cv" "vc_pri ?cv"] ei eo R(2) by auto
      have "sw_reqs r al'"
        unfolding sw_reqs_def
      proof (intro conjI allI impI)
        fix x y l assume "wrq al' x y l"
        from al'(4)[OF this] show "\<exists>i s v p c. s < qc_input_speedup ?c \<and> can_send r i v p c \<and>
          v mod qc_input_speedup ?c = s \<and> x = s * iq_inputs r + i \<and> l = int v \<and>
          y = (i mod qc_output_speedup ?c) * iq_outputs r + p"
        proof
          assume "wrq al x y l"
          then show ?thesis using assms(3) unfolding sw_reqs_def by blast
        next
          assume "x = ?ei \<and> y = ?eo \<and> l = int v"
          then show ?thesis using pc(6)[OF False] st(1) assms(5) by blast
        qed
      qed (use al' R in auto)
      moreover have "sw_request_vc so r i s (v, al) = Some ((v + 1) mod iq_vcs r, al')"
        using st pc False al'(1) ei eo assms(2)
        by (simp add: sw_request_vc_def Let_def switch_ok_def)
      ultimately show ?thesis by blast
    qed
  qed
qed

lemma sw_request_input_total:
  assumes "core_inv r" "switch_ok r" "rr_ok r" "sw_reqs r al"
    "is \<in> set (List.product [0 ..< iq_inputs r] [0 ..< qc_input_speedup (iq_cfg r)])"
  shows "\<exists>al'. sw_request_input so r is al = Some al' \<and> sw_reqs r al'"
proof -
  obtain i s where is0: "is = (i, s)" by (cases "is")
  with assms(5) have is': "i < iq_inputs r" "s < qc_input_speedup (iq_cfg r)" by auto
  let ?v0 = "iq_sw_rr_offset r ! (s * iq_inputs r + i)"
  have v0: "?v0 < iq_vcs r"
    using assms(3) index_less[OF is'(2,1)] by (auto simp: rr_ok_def)
  have "\<exists>va. fold_opt (\<lambda>_. sw_request_vc so r i s) [0 ..< iq_vcs r] (?v0, al) = Some va \<and>
      (fst va < iq_vcs r \<and> sw_reqs r (snd va))"
  proof (rule fold_opt_total[where I = "\<lambda>_ va. fst va < iq_vcs r \<and> sw_reqs r (snd va)"])
    fix ys x zs and va :: "nat \<times> 'w" assume a: "fst va < iq_vcs r \<and> sw_reqs r (snd va)"
    obtain v al1 where va: "va = (v, al1)" by (cases va)
    from sw_request_vc_total[OF assms(1,2) _ is', of al1 v] a va obtain al2 where
      "sw_request_vc so r i s va = Some ((v + 1) mod iq_vcs r, al2)" "sw_reqs r al2" by auto
    moreover have "(v + 1) mod iq_vcs r < iq_vcs r" using assms(2) by (simp add: switch_ok_def)
    ultimately show "\<exists>t'. sw_request_vc so r i s va = Some t' \<and> (fst t' < iq_vcs r \<and> sw_reqs r (snd t'))"
      by (intro exI[of _ "((v + 1) mod iq_vcs r, al2)"]) simp
  qed (use v0 assms(4) in simp)
  then show ?thesis unfolding sw_request_input_def is0 by auto
qed

text \<open>While the winners are forwarded: the expanded inputs still to come find their channels and the
  output channels they hold as they were.\<close>

definition forwarding :: "('v, 'w) iq_router \<Rightarrow> (nat \<times> nat \<Rightarrow> bool) \<Rightarrow> ('v, 'w) iq_router \<Rightarrow> bool" where
  "forwarding r pend t \<longleftrightarrow> core_inv t \<and> steady r t \<and> rr_ok t \<and>
     iq_vc_allocator t = iq_vc_allocator r \<and> iq_sw_allocator t = iq_sw_allocator r \<and>
     (\<forall>i v p c. pend (i, v mod qc_input_speedup (iq_cfg r)) \<longrightarrow> can_send r i v p c \<longrightarrow>
        can_send t i v p c)"

lemma sw_send_total:
  assumes "core_inv t" "switch_ok t" "rr_ok t" "can_send t i v p c" "eo mod iq_outputs t = p"
    "case cr of None \<Rightarrow> True | Some d \<Rightarrow> length (cr_vc d) < iq_vcs t \<and> cr_max_vcs d = iq_vcs t"
  shows "\<exists>t' d. sw_send i ei eo v (t, cr) = Some (t', Some d) \<and> core_inv t' \<and> steady t t' \<and> rr_ok t' \<and>
    iq_vc_allocator t' = iq_vc_allocator t \<and> iq_sw_allocator t' = iq_sw_allocator t \<and>
    length (cr_vc d) = Suc (case cr of None \<Rightarrow> 0 | Some d \<Rightarrow> length (cr_vc d)) \<and> cr_max_vcs d = iq_vcs t \<and>
    (\<forall>i' v' p' c'. (i', v') \<noteq> (i, v) \<longrightarrow> can_send t i' v' p' c' \<longrightarrow> can_send t' i' v' p' c')"
proof -
  let ?cv = "get_vc t i v" and ?b0 = "iq_next_vcs t ! p"
  have cs: "i < iq_inputs t" "v < iq_vcs t" "p < iq_outputs t" "c < iq_vcs t"
    "vc_st ?cv = active" "vc_out_port ?cv = Some p" "vc_out_vc ?cv = Some c" "vc_buffer ?cv \<noteq> []"
    "is_full_for ?b0 (int c) = Some False" "vc_holds ?cv = Some (p, c)"
    using assms(4) by (auto simp: can_send_def vc_holds_Some)
  obtain f fs where f: "vc_buffer ?cv = f # fs" using cs(8) by (cases "vc_buffer ?cv") auto
  let ?f = "f\<lparr>fl_hops := fl_hops f + 1, fl_vc := int c\<rparr>"
  define d0 where "d0 = (case cr of Some d \<Rightarrow> d | None \<Rightarrow> new_credit (iq_vcs t))"
  define d1 where "d1 = d0\<lparr>cr_vc := cr_vc d0 @ [fl_vc f]\<rparr>"
  let ?cv1 = "?cv\<lparr>vc_buffer := fs\<rparr>"
  have d0: "length (cr_vc d0) = (case cr of None \<Rightarrow> 0 | Some d \<Rightarrow> length (cr_vc d))" "cr_max_vcs d0 = iq_vcs t"
    "length (cr_vc d0) < iq_vcs t"
    using assms(2,6) by (auto simp: d0_def new_credit_def switch_ok_def split: option.splits)
  have d: "credit_push (fl_vc f) d0 = Some d1" using d0 by (simp add: credit_push_def d1_def)
  have dl: "length (cr_vc d1) = Suc (case cr of None \<Rightarrow> 0 | Some d \<Rightarrow> length (cr_vc d))" "cr_max_vcs d1 = iq_vcs t"
    using d0 by (simp_all add: d1_def)
  have bi: "bs_inv ?b0" "bs_vcs ?b0 = iq_vcs t" using core_invD(5,6)[OF assms(1) cs(3)] by auto
  obtain b where b: "sending_flit ?f ?b0 = Some b" using sending_flit_total[OF bi(1), of ?f] cs(9) by auto
  have fc: "fl_vc ?f = int c" by simp
  note ow = owned_send[OF bi(1) b fc, unfolded bi(2)]
  let ?x = "if fl_tail f then vc_set_state idle ?cv1 else ?cv1"
  let ?u = "set_next p b (set_vc i v ?x t)"
  have wf: "vc_wf (iq_outputs t) (iq_vcs t) ?x"
    using core_invD(4)[OF assms(1) cs(1,2)] cs(5) by (auto simp: vc_wf_def)
  have core: "core_inv ?u"
  proof (rule core_update[OF assms(1) cs(1,2,3) wf ow(1)])
    have h: "holder t (i, v) = Some (p, c)" "(i, v) \<in> chans t" using cs by (simp_all add: holder_def chans_def)
    show "holds (chans t) ((holder t)((i, v) := vc_holds ?x))
        {(k, d). k < iq_outputs t \<and> d \<in> owned (iq_vcs t) (if k = p then b else iq_next_vcs t ! k)}"
    proof (cases "fl_tail f")
      case True
      have "{(k, d). k < iq_outputs t \<and> d \<in> owned (iq_vcs t) (if k = p then b else iq_next_vcs t ! k)} =
          taken t - {(p, c)}"
        by (rule taken_remove[OF cs(3)]) (use ow(3) True in simp)
      moreover have "vc_holds ?x = None" using True by (simp add: vc_holds_inactive)
      ultimately show ?thesis using holds_remove[OF core_invD(3)[OF assms(1)] h(2,1)] by simp
    next
      case False
      have "{(k, d). k < iq_outputs t \<and> d \<in> owned (iq_vcs t) (if k = p then b else iq_next_vcs t ! k)} = taken t"
        by (rule taken_split[OF cs(3)]) (use ow(3) False in simp)
      moreover have "vc_holds ?x = Some (p, c)" using False cs by (simp add: vc_holds_Some)
      then have "(holder t)((i, v) := vc_holds ?x) = holder t" using h(1) by auto
      ultimately show ?thesis using core_invD(3)[OF assms(1)] by simp
    qed
  qed (use ow(2) in simp)
  let ?rr = "(iq_sw_rr_offset t)[ei := (c + 1) mod iq_vcs t]"
  let ?t1 = "(set_next p b t)\<lparr>iq_crossbar_pipe := pf_write (Some ?f) eo (iq_crossbar_pipe t), iq_sw_rr_offset := ?rr\<rparr>"
  let ?t = "if fl_tail f then (set_vc i v ?x ?t1)\<lparr>iq_switch_hold_in := (iq_switch_hold_in t)[ei := None],
                 iq_switch_hold_vc := (iq_switch_hold_vc t)[ei := None],
                 iq_switch_hold_out := (iq_switch_hold_out t)[eo := None]\<rparr>
            else set_vc i v ?x ?t1"
  have run: "sw_send i ei eo v (t, cr) = Some (?t, Some d1)"
    using assms(2,5) cs f d b
    by (simp add: sw_send_def switch_ok_def vc_empty_def vc_remove_flit_def Let_def d0_def[symmetric])
  have fields: "iq_cfg ?t = iq_cfg ?u" "iq_vcs ?t = iq_vcs ?u" "iq_vc ?t = iq_vc ?u" "iq_next_vcs ?t = iq_next_vcs ?u"
    by (simp_all add: set_vc_def set_next_def)
  have core': "core_inv ?t" using core core_inv_cong[OF fields] by simp
  have st: "steady t ?t" using assms(2) by (simp add: steady_def switch_ok_def replicate_None_update)
  have "(c + 1) mod iq_vcs t < iq_vcs t" using assms(2) by (simp add: switch_ok_def)
  then have "\<forall>w \<in> set ?rr. w < iq_vcs t" using assms(3) by (auto simp: rr_ok_def dest!: set_update_subset_insert[THEN subsetD])
  then have rr: "rr_ok ?t" using assms(3) by (simp add: rr_ok_def)
  have keep: "can_send ?t i' v' p' c'" if "(i', v') \<noteq> (i, v)" "can_send t i' v' p' c'" for i' v' p' c'
  proof -
    have r': "i' < iq_inputs t" "v' < iq_vcs t" "p' < iq_outputs t" "c' < iq_vcs t"
      "vc_holds (get_vc t i' v') = Some (p', c')" using that(2) by (auto simp: can_send_def)
    have ne: "(p', c') \<noteq> (p, c)"
    proof
      assume "(p', c') = (p, c)"
      then have "holder t (i', v') = Some (p, c)" "holder t (i, v) = Some (p, c)"
        using r'(5) cs(10) by (simp_all add: holder_def)
      moreover have "(i', v') \<in> chans t" "(i, v) \<in> chans t" using r' cs by (simp_all add: chans_def)
      ultimately show False using core_invD(3)[OF assms(1)] that(1) unfolding holds_def by blast
    qed
    have "get_vc ?t = get_vc ?u" using fields by (simp add: get_vc_def fun_eq_iff)
    then have g: "get_vc ?t i' v' = get_vc t i' v'"
      using get_set_vc[OF core_invD(1)[OF assms(1)] cs(1,2), of ?x i' v'] that(1) by auto
    have "is_full_for (iq_next_vcs ?t ! p') (int c') = is_full_for (iq_next_vcs t ! p') (int c')"
    proof (cases "p' = p")
      case True
      then have "c' \<noteq> c" using ne by simp
      moreover have "iq_next_vcs ?t ! p' = b" using fields(4) True cs(3) core_invD(7)[OF assms(1)] by simp
      ultimately show ?thesis using True ow(2,4,5) bi(2) r'(4) by (simp add: is_full_for_int)
    next
      case False
      then show ?thesis using fields(4) by simp
    qed
    moreover have "iq_cfg ?t = iq_cfg t" "iq_vcs ?t = iq_vcs t" by simp_all
    ultimately show ?thesis using that(2) g unfolding can_send_def by simp
  qed
  have al: "iq_vc_allocator ?t = iq_vc_allocator t" "iq_sw_allocator ?t = iq_sw_allocator t" by simp_all
  show ?thesis
  proof (intro exI conjI)
    show "\<forall>i' v' p' c'. (i', v') \<noteq> (i, v) \<longrightarrow> can_send t i' v' p' c' \<longrightarrow> can_send ?t i' v' p' c'"
      by (intro allI impI) (rule keep)
  qed (fact run core' st rr al dl)+
qed

end

context router_allocs
begin

text \<open>The turn of one expanded input.  The credit has at most one entry per turn so far.\<close>

definition credit_ok :: "nat \<Rightarrow> nat \<Rightarrow> credit option \<Rightarrow> bool" where
  "credit_ok vcs s cr \<longleftrightarrow> (case cr of None \<Rightarrow> True | Some d \<Rightarrow> length (cr_vc d) \<le> s \<and> cr_max_vcs d = vcs)"

lemma sw_forward_total:
  assumes "switch_ok r" "iq_sw_allocator r = ao_allocate so al" "sw_reqs r al"
    "forwarding r pend t" "pend (i, s)" "i < iq_inputs r" "s < qc_input_speedup (iq_cfg r)"
    "credit_ok (iq_vcs r) s cr"
  shows "\<exists>t' cr'. sw_forward so i s (t, cr) = Some (t', cr') \<and>
    forwarding r (\<lambda>x. pend x \<and> x \<noteq> (i, s)) t' \<and> credit_ok (iq_vcs r) (Suc s) cr'"
proof -
  let ?isp = "qc_input_speedup (iq_cfg r)" and ?ei = "s * iq_inputs r + i"
  have st: "steady r t" "core_inv t" "rr_ok t" "iq_vc_allocator t = iq_vc_allocator r"
    "iq_sw_allocator t = iq_sw_allocator r"
    using assms(4) by (auto simp: forwarding_def)
  have sz: "iq_cfg t = iq_cfg r" "iq_vcs t = iq_vcs r" using st(1) by (auto simp: steady_def)
  have sw: "switch_ok t" by (rule switch_ok_steady[OF st(1) assms(1)])
  have ei: "?ei < iq_inputs r * ?isp" by (rule index_less[OF assms(7,6)])
  have hold: "iq_switch_hold_in t ! ?ei = None" using sw ei sz by (simp add: switch_ok_def)
  have R: "wok al" "wsize al = (iq_inputs r * ?isp, iq_outputs r * qc_output_speedup (iq_cfg r))"
    using assms(3) by (auto simp: sw_reqs_def)
  have "ao_output_assigned so (ao_allocate so al) ?ei \<noteq> None"
    using sa.assigned_total(2)[of ?ei "ao_allocate so al"] sa.allocate_law[OF R(1)] R(2) ei by simp
  then obtain a where a: "ao_output_assigned so (ao_allocate so al) ?ei = Some a" by blast
  have weaker: "forwarding r (\<lambda>x. pend x \<and> x \<noteq> (i, s)) t" using assms(4) unfolding forwarding_def by blast
  show ?thesis
  proof (cases a)
    case None
    then have "sw_forward so i s (t, cr) = Some (t, cr)"
      using a hold st(5) assms(2) sz by (simp add: sw_forward_def sw_winner_def)
    moreover have "credit_ok (iq_vcs r) (Suc s) cr" using assms(8) by (auto simp: credit_ok_def split: option.splits)
    ultimately show ?thesis using weaker by blast
  next
    case (Some eo)
    with a have g: "ao_output_assigned so (ao_allocate so al) ?ei = Some (Some eo)" by simp
    from sa.granted_label[OF R(1) g] obtain l where l: "wrq al ?ei eo l"
      "ao_read_request so (ao_allocate so al) ?ei eo = Some l" by blast
    then obtain i1 s1 v p c where w: "s1 < ?isp" "can_send r i1 v p c" "v mod ?isp = s1"
        "?ei = s1 * iq_inputs r + i1" "l = int v" "eo = (i1 mod qc_output_speedup (iq_cfg r)) * iq_outputs r + p"
      using assms(3) unfolding sw_reqs_def by blast
    have i1: "i1 < iq_inputs r" "v < iq_vcs r" "p < iq_outputs r" using w(2) by (auto simp: can_send_def)
    have eq: "s1 = s" "i1 = i" using index_inj[OF w(4) assms(6) i1(1)] by auto
    have cs: "can_send t i v p c" using assms(4,5) w(2,3) eq unfolding forwarding_def by blast
    have sv: "s < iq_vcs r" using w(3) i1(2) eq mod_less_eq_dividend[of v ?isp] by simp
    have eo: "eo mod iq_outputs t = p" using w(6) i1(3) sz by simp
    have cr: "case cr of None \<Rightarrow> True | Some d \<Rightarrow> length (cr_vc d) < iq_vcs t \<and> cr_max_vcs d = iq_vcs t"
      using assms(8) sv sz by (auto simp: credit_ok_def split: option.splits)
    from sw_send_total[OF st(2) sw st(3) cs eo cr, of ?ei] obtain t' d where t':
      "sw_send i ?ei eo v (t, cr) = Some (t', Some d)" "core_inv t'" "steady t t'" "rr_ok t'"
      "iq_vc_allocator t' = iq_vc_allocator t" "iq_sw_allocator t' = iq_sw_allocator t"
      "length (cr_vc d) = Suc (case cr of None \<Rightarrow> 0 | Some d \<Rightarrow> length (cr_vc d))" "cr_max_vcs d = iq_vcs t"
      "\<And>i' v' p' c'. (i', v') \<noteq> (i, v) \<Longrightarrow> can_send t i' v' p' c' \<Longrightarrow> can_send t' i' v' p' c'"
      by blast
    have "sw_winner so t i ?ei = Some (Some (eo, v))"
      using hold st(5) assms(2) g l(2) w(5) i1(2) sz by (simp add: sw_winner_def)
    then have run: "sw_forward so i s (t, cr) = Some (t', Some d)"
      using t'(1) sz by (simp add: sw_forward_def)
    have "forwarding r (\<lambda>x. pend x \<and> x \<noteq> (i, s)) t'"
      unfolding forwarding_def
    proof (intro conjI allI impI)
      fix i' v' p' c'
      assume p: "pend (i', v' mod ?isp) \<and> (i', v' mod ?isp) \<noteq> (i, s)" "can_send r i' v' p' c'"
      then have "can_send t i' v' p' c'" using assms(4) unfolding forwarding_def by blast
      moreover have "(i', v') \<noteq> (i, v)" using p(1) w(3) eq by auto
      ultimately show "can_send t' i' v' p' c'" by (rule t'(9)[rotated])
    qed (use t' st steady_trans in auto)
    moreover have "credit_ok (iq_vcs r) (Suc s) (Some d)"
      using t'(7,8) assms(8) sz by (auto simp: credit_ok_def split: option.splits)
    ultimately show ?thesis using run by blast
  qed
qed

lemma forwarding_pipe:
  "forwarding r pend t \<Longrightarrow> forwarding r pend (t\<lparr>iq_credit_pipe := x\<rparr>)"
proof -
  assume a: "forwarding r pend t"
  let ?t = "t\<lparr>iq_credit_pipe := x\<rparr>"
  have "get_vc ?t = get_vc t" by (simp add: get_vc_def fun_eq_iff)
  then have "can_send ?t i v p c = can_send t i v p c" for i v p c by (simp add: can_send_def)
  moreover have "core_inv ?t = core_inv t" by (rule core_inv_cong) simp_all
  moreover have "rr_ok ?t = rr_ok t" by (simp add: rr_ok_def)
  moreover have "steady r ?t = steady r t" by (simp add: steady_def)
  moreover have "iq_vc_allocator ?t = iq_vc_allocator t" "iq_sw_allocator ?t = iq_sw_allocator t" by simp_all
  ultimately show ?thesis using a unfolding forwarding_def by simp
qed

lemma sw_forward_input_total:
  assumes "switch_ok r" "iq_sw_allocator r = ao_allocate so al" "sw_reqs r al"
    "forwarding r pend t" "\<And>s. pend (i, s)" "i < iq_inputs r"
  shows "\<exists>t'. sw_forward_input so i t = Some t' \<and> forwarding r (\<lambda>x. pend x \<and> fst x \<noteq> i) t'"
proof -
  let ?isp = "qc_input_speedup (iq_cfg r)"
  have sz: "iq_cfg t = iq_cfg r" using assms(4) by (auto simp: forwarding_def steady_def)
  define I where "I ys tc = (forwarding r (\<lambda>x. pend x \<and> x \<notin> Pair i ` set ys) (fst tc) \<and>
      credit_ok (iq_vcs r) (length ys) (snd tc))" for ys :: "nat list" and tc :: "('v, 'w) iq_router \<times> credit option"
  have "\<exists>tc. fold_opt (sw_forward so i) [0 ..< ?isp] (t, None) = Some tc \<and> I [0 ..< ?isp] tc"
  proof (rule fold_opt_total)
    show "I [] (t, None)" using assms(4) by (simp add: I_def credit_ok_def)
    fix ys s zs and tc :: "('v, 'w) iq_router \<times> credit option"
    assume l: "[0 ..< ?isp] = ys @ s # zs" and I: "I ys tc"
    obtain u cr where tc: "tc = (u, cr)" by (cases tc)
    have s: "s < ?isp" using arg_cong[OF l, of set] by auto
    have "[0 ..< ?isp] ! length ys = s" using l by simp
    moreover have "length ys < ?isp" using arg_cong[OF l, of length] by simp
    ultimately have len: "length ys = s" by simp
    have "s \<notin> set ys" using distinct_upt[of 0 ?isp] l by auto
    then have P: "pend (i, s) \<and> (i, s) \<notin> Pair i ` set ys" using assms(5) by auto
    have F: "forwarding r (\<lambda>x. pend x \<and> x \<notin> Pair i ` set ys) u" and K: "credit_ok (iq_vcs r) s cr"
      using I len by (simp_all add: I_def tc)
    have "\<exists>t' cr'. sw_forward so i s (u, cr) = Some (t', cr') \<and>
        forwarding r (\<lambda>x. (pend x \<and> x \<notin> Pair i ` set ys) \<and> x \<noteq> (i, s)) t' \<and> credit_ok (iq_vcs r) (Suc s) cr'"
      by (rule sw_forward_total[OF assms(1-3) F P assms(6) s K])
    then obtain t' cr' where t': "sw_forward so i s (u, cr) = Some (t', cr')"
      "forwarding r (\<lambda>x. (pend x \<and> x \<notin> Pair i ` set ys) \<and> x \<noteq> (i, s)) t'" "credit_ok (iq_vcs r) (Suc s) cr'"
      by blast
    have "(\<lambda>x. (pend x \<and> x \<notin> Pair i ` set ys) \<and> x \<noteq> (i, s)) = (\<lambda>x. pend x \<and> x \<notin> Pair i ` set (ys @ [s]))"
      by auto
    then have "I (ys @ [s]) (t', cr')" using t'(2,3) len by (simp add: I_def)
    then show "\<exists>tc'. sw_forward so i s tc = Some tc' \<and> I (ys @ [s]) tc'" using t'(1) tc by blast
  qed
  then obtain u cr where u: "fold_opt (sw_forward so i) [0 ..< ?isp] (t, None) = Some (u, cr)"
    "forwarding r (\<lambda>x. pend x \<and> x \<notin> Pair i ` set [0 ..< ?isp]) u" by (auto simp: I_def)
  have "forwarding r (\<lambda>x. pend x \<and> fst x \<noteq> i) u"
    using u(2) unfolding forwarding_def by auto
  then show ?thesis using u(1) sz forwarding_pipe by (auto simp: sw_forward_input_def)
qed

lemma sw_alloc_total:
  fixes r :: "('v, 'w) iq_router"
  assumes "core_inv r" "switch_ok r" "rr_ok r" "wok (iq_sw_allocator r)"
    "wsize (iq_sw_allocator r) = (iq_inputs r * qc_input_speedup (iq_cfg r), iq_outputs r * qc_output_speedup (iq_cfg r))"
  shows "\<exists>r'. sw_alloc_step so r = Some r' \<and> core_inv r' \<and> steady r r' \<and> rr_ok r' \<and>
    iq_vc_allocator r' = iq_vc_allocator r \<and> wok (iq_sw_allocator r') \<and>
    wsize (iq_sw_allocator r') = wsize (iq_sw_allocator r)"
proof -
  let ?L = "List.product [0 ..< iq_inputs r] [0 ..< qc_input_speedup (iq_cfg r)]"
  have c0: "sw_reqs r (ao_clear so (iq_sw_allocator r))"
    using sa.clear_law[OF assms(4)] assms(5) by (simp add: sw_reqs_def)
  have "\<exists>al. fold_opt (sw_request_input so r) ?L (ao_clear so (iq_sw_allocator r)) = Some al \<and> sw_reqs r al"
  proof (rule fold_opt_total[where I = "\<lambda>_. sw_reqs r"])
    fix ys x zs t assume x: "?L = ys @ x # zs" "sw_reqs r t"
    have "x \<in> set ?L" unfolding x(1) by simp
    then show "\<exists>t'. sw_request_input so r x t = Some t' \<and> sw_reqs r t'"
      by (rule sw_request_input_total[OF assms(1-3) x(2)])
  qed (rule c0)
  then obtain al where al: "fold_opt (sw_request_input so r) ?L (ao_clear so (iq_sw_allocator r)) = Some al"
    "sw_reqs r al" by blast
  let ?r = "r\<lparr>iq_sw_allocator := ao_allocate so al, iq_crossbar_pipe := pf_write_all None (iq_crossbar_pipe r)\<rparr>"
  have g: "get_vc ?r = get_vc r" by (simp add: get_vc_def fun_eq_iff)
  have core: "core_inv ?r" using assms(1) core_inv_cong[of ?r r] by simp
  have cs: "can_send ?r i v p c = can_send r i v p c" for i v p c by (simp add: can_send_def g)
  have reqs: "sw_reqs ?r al" using al(2) unfolding sw_reqs_def cs by simp
  have sw: "switch_ok ?r" using assms(2) by (simp add: switch_ok_def)
  define I where "I ys t = forwarding ?r (\<lambda>x. fst x \<notin> set ys) t" for ys t
  have "\<exists>t. fold_opt (sw_forward_input so) [0 ..< iq_inputs r] ?r = Some t \<and> I [0 ..< iq_inputs r] t"
  proof (rule fold_opt_total)
    show "I [] ?r" using core assms(3) by (simp add: I_def forwarding_def rr_ok_def)
    fix ys i zs t assume l: "[0 ..< iq_inputs r] = ys @ i # zs" and I: "I ys t"
    have "i \<in> set [0 ..< iq_inputs r]" "i \<notin> set ys" using l distinct_upt[of 0 "iq_inputs r"] by auto
    then have i: "i < iq_inputs ?r" "fst (i, s) \<notin> set ys" for s by auto
    have "\<exists>t'. sw_forward_input so i t = Some t' \<and> forwarding ?r (\<lambda>x. fst x \<notin> set ys \<and> fst x \<noteq> i) t'"
      by (rule sw_forward_input_total[OF sw _ reqs I[unfolded I_def] i(2) i(1)]) simp
    moreover have "(\<lambda>x :: nat \<times> nat. fst x \<notin> set ys \<and> fst x \<noteq> i) = (\<lambda>x. fst x \<notin> set (ys @ [i]))" by auto
    ultimately show "\<exists>t'. sw_forward_input so i t = Some t' \<and> I (ys @ [i]) t'" by (simp only: I_def)
  qed
  then obtain t where t: "fold_opt (sw_forward_input so) [0 ..< iq_inputs r] ?r = Some t"
    "forwarding ?r (\<lambda>x. fst x \<notin> set [0 ..< iq_inputs r]) t" unfolding I_def by blast
  have wk: "wok (ao_allocate so al)" "wsize (ao_allocate so al) = wsize (iq_sw_allocator r)"
    using sa.allocate_law[of al] al(2) assms(5) by (auto simp: sw_reqs_def)
  have "sw_alloc_step so r = Some t" using al(1) t(1) by (simp add: sw_alloc_step_def)
  moreover have "core_inv t" "steady ?r t" "rr_ok t" "iq_vc_allocator t = iq_vc_allocator r"
    "iq_sw_allocator t = ao_allocate so al" using t(2) by (simp_all add: forwarding_def)
  ultimately show ?thesis using wk by (intro exI[of _ t]) (simp add: steady_def)
qed

end

end
