(* ===== verification/Routing.thy ===== *)
theory Routing
  imports VChannel "HOL-Library.Signed_Division"
begin

text \<open>
  The routing functions of the interconnect (\<open>src/intersim/routefunc.cpp\<close>) and the table
  \<open>gRoutingFunctionMap\<close> from which \<open>GetRoutingFunction\<close> picks one by name.

  \<open>route_globals\<close> holds the global variables they read (\<open>gK\<close> and \<open>gN\<close> of the topology, \<open>gNodes\<close>,
  the numbers of virtual channels); \<open>/\<close> and \<open>%\<close> on \<open>int\<close> are \<open>sdiv\<close> and \<open>smod\<close>, and a topology has
  \<open>gK > 0\<close>.  A router appears as its \<open>GetID\<close> and its channel faults.  \<open>rnd n\<close> is the \<open>n\<close>-th value of
  \<open>ran_next()\<close> since the call began; a function that draws twice passes the count on.  The output and
  energy statements are left out.
\<close>

record route_globals =
  g_k :: int
  g_n :: nat
  g_nodes :: int
  g_num_vcs :: int
  g_num_vcs_cpu :: int
  g_num_vcs_gpu :: int

record router_view =
  rv_id :: int
  rv_faults :: "bool list"

definition is_faulty_output :: "router_view \<Rightarrow> int \<Rightarrow> bool option" where
  "is_faulty_output r c = do {
     ensure (0 \<le> c \<and> c < int (length (rv_faults r)));
     Some (rv_faults r ! nat c)
   }"

definition random_int :: "(nat \<Rightarrow> nat) \<Rightarrow> nat \<Rightarrow> int \<Rightarrow> int" where
  "random_int rnd i mx = int (rnd i) smod (mx + 1)"

type_synonym routing = "route_globals \<Rightarrow> router_view \<Rightarrow> (nat \<Rightarrow> nat) \<Rightarrow> bool \<Rightarrow> routing_function"

text \<open>\<open>AddRange\<close> with the default priority.\<close>

abbreviation os_add_range0 :: "int \<Rightarrow> int \<Rightarrow> int \<Rightarrow> output_set \<Rightarrow> output_set option" where
  "os_add_range0 p vs ve os \<equiv> os_add_range p vs ve 0 os"

definition singlerf :: routing where
  "singlerf g r rnd inject f in_channel os = do {
     os \<leftarrow> os_add (fl_dest f) (fl_dest f smod g_num_vcs g) 0 (os_clear os);
     Some (f, os)
   }"

subsection \<open>Dimension order\<close>

text \<open>The loop to the first dimension that differs: \<open>dim_left\<close> and what is left of \<open>cur\<close> and \<open>dest\<close>.\<close>

fun dim_left_loop :: "int \<Rightarrow> nat \<Rightarrow> nat \<Rightarrow> int \<Rightarrow> int \<Rightarrow> nat \<times> int \<times> int" where
  "dim_left_loop k 0 d cur dest = (d, cur, dest)"
| "dim_left_loop k (Suc m) d cur dest =
     (if cur smod k \<noteq> dest smod k then (d, cur, dest)
      else dim_left_loop k m (Suc d) (cur sdiv k) (dest sdiv k))"

definition dor_port :: "route_globals \<Rightarrow> nat \<times> int \<times> int \<Rightarrow> int" where
  "dor_port g x = (case x of (dim_left, cur, dest) \<Rightarrow>
     if dim_left < g_n g then
       (if cur smod g_k g < dest smod g_k g then 2 * int dim_left else 2 * int dim_left + 1)
     else 2 * int (g_n g))"

text \<open>For another \<open>FlitsSta\<close> the result is unset.\<close>

definition dor_next_mesh :: "route_globals \<Rightarrow> int \<Rightarrow> int \<Rightarrow> int \<Rightarrow> int option" where
  "dor_next_mesh g cur dest flits_sta =
     (if flits_sta = 0 \<or> flits_sta = 2 then
        Some (dor_port g (dim_left_loop (g_k g) (g_n g) 0 cur dest))
      else if flits_sta = 1 \<or> flits_sta = 3 then
        Some (dor_port g
          (if cur = dest then (g_n g, cur, dest)
           else if cur sdiv g_k g \<noteq> dest sdiv g_k g then (1, cur sdiv g_k g, dest sdiv g_k g)
           else (0, cur, dest)))
      else None)"

text \<open>The output port, the partition if one is written, and the number of draws so far.\<close>

definition dor_next_torus ::
  "route_globals \<Rightarrow> (nat \<Rightarrow> nat) \<Rightarrow> int \<Rightarrow> int \<Rightarrow> int \<Rightarrow> bool \<Rightarrow> int \<times> int option" where
  "dor_next_torus g rnd cur dest in_port balance =
     (let k = g_k g in
      case dim_left_loop k (g_n g) 0 cur dest of (dim_left, cur, dest) \<Rightarrow>
      if dim_left < g_n g then
        (if in_port sdiv 2 \<noteq> int dim_left then
           (let cur = cur smod k; dest = dest smod k;
                dist2 = k - 2 * ((dest - cur + k) smod k);
                draw = (if dist2 = 0 then 1 else 0 :: nat);
                right = (dist2 > 0 \<or> dist2 = 0 \<and> random_int rnd 0 1 \<noteq> 0);
                port = (if right then 2 * int dim_left else 2 * int dim_left + 1) in
            if balance then
              (port, Some
                (if right \<and> cur > dest \<or> \<not> right \<and> cur < dest then 1
                 else if right \<and> cur \<le> (k - 1) sdiv 2 \<and> dest > (k - 1) sdiv 2 \<or>
                         \<not> right \<and> cur > (k - 1) sdiv 2 \<and> dest \<le> (k - 1) sdiv 2 then 0
                 else random_int rnd draw 1))
            else (port, Some (if right \<and> cur > dest \<or> \<not> right \<and> dest < cur then 1 else 0)))
         else (in_port XOR 1, None))
      else (2 * int (g_n g), None))"

definition set_par :: "int option \<Rightarrow> flit \<Rightarrow> flit" where
  "set_par p f = (case p of None \<Rightarrow> f | Some x \<Rightarrow> f\<lparr>fl_ring_par := x\<rparr>)"

text \<open>Both calls of \<open>AddRange\<close> are live: the braces and conditions around them are comments.  The number
  of channels of the network is assigned to \<open>gNumVCS\<close> first; no other routing function runs beside this one,
  so the assignment is local.\<close>

definition dim_order_mesh :: routing where
  "dim_order_mesh g r rnd inject f in_channel os =
     (let vcs = (if fl_net_num f sdiv 2 \<noteq> 0 then g_num_vcs_cpu g else g_num_vcs_gpu g) in
      if inject then do { os \<leftarrow> os_add_range0 0 0 (vcs - 1) (os_clear os); Some (f, os) }
      else do {
        p \<leftarrow> dor_next_mesh g (rv_id r) (fl_dest f) (fl_FlitsSta f);
        os \<leftarrow> os_add_range0 p 0 (vcs - 1) (os_clear os);
        os \<leftarrow> os_add_range0 p 0 (vcs - 1) os;
        Some (f, os) })"

definition dim_order_ni_mesh :: routing where
  "dim_order_ni_mesh g r rnd inject f in_channel os =
     (let vcs_per_dest = g_num_vcs g sdiv g_nodes g in do {
        p \<leftarrow> dor_next_mesh g (rv_id r) (fl_dest f) (fl_FlitsSta f);
        os \<leftarrow> os_add_range0 p (fl_dest f * vcs_per_dest) ((fl_dest f + 1) * vcs_per_dest - 1) (os_clear os);
        Some (f, os) })"

subsection \<open>Two phases over an intermediate node\<close>

fun rand_min_intr_loop :: "int \<Rightarrow> (nat \<Rightarrow> nat) \<Rightarrow> nat \<Rightarrow> nat \<Rightarrow> int \<Rightarrow> int \<Rightarrow> int \<Rightarrow> int \<Rightarrow> int" where
  "rand_min_intr_loop k rnd i 0 intm offset src dest = intm"
| "rand_min_intr_loop k rnd i (Suc m) intm offset src dest =
     (let dist = dest smod k - src smod k;
          intm' = intm + offset * (if dist > 0 then src smod k + random_int rnd i dist
                                   else dest smod k + random_int rnd i (- dist)) in
      rand_min_intr_loop k rnd (Suc i) m intm' (offset * k) (src sdiv k) (dest sdiv k))"

definition rand_min_intr_mesh :: "route_globals \<Rightarrow> (nat \<Rightarrow> nat) \<Rightarrow> int \<Rightarrow> int \<Rightarrow> int" where
  "rand_min_intr_mesh g rnd src dest = rand_min_intr_loop (g_k g) rnd 0 (g_n g) 0 1 src dest"

text \<open>The common start of the two phase algorithms: \<open>pick\<close> is the intermediate node.\<close>

definition two_phase :: "route_globals \<Rightarrow> router_view \<Rightarrow> int \<Rightarrow> int \<Rightarrow> flit \<Rightarrow> flit" where
  "two_phase g r in_channel pick f =
     (let f1 = (if in_channel = 2 * int (g_n g) then f\<lparr>fl_ph := 1, fl_intm := pick\<rparr> else f) in
      if fl_ph f1 = 1 \<and> rv_id r = fl_intm f1 then f1\<lparr>fl_ph := 2\<rparr> else f1)"

definition two_phase_mesh :: "route_globals \<Rightarrow> router_view \<Rightarrow> flit \<Rightarrow> output_set \<Rightarrow> (flit \<times> output_set) option" where
  "two_phase_mesh g r f os = (let vcs = g_num_vcs g in
     if fl_ph f = 1 then do {
       p \<leftarrow> dor_next_mesh g (rv_id r) (fl_intm f) (fl_FlitsSta f);
       os \<leftarrow> os_add_range0 p 0 (vcs sdiv 2 - 1) (os_clear os);
       Some (f, os) }
     else do {
       p \<leftarrow> dor_next_mesh g (rv_id r) (fl_dest f) (fl_FlitsSta f);
       os \<leftarrow> os_add_range0 p (vcs sdiv 2) (vcs - 1) (os_clear os);
       Some (f, os) })"

definition romm_mesh :: routing where
  "romm_mesh g r rnd inject f in_channel os =
     two_phase_mesh g r (two_phase g r in_channel (rand_min_intr_mesh g rnd (fl_src f) (fl_dest f)) f) os"

definition romm_ni_mesh :: routing where
  "romm_ni_mesh g r rnd inject f in_channel os =
     (let vcs_per_dest = g_num_vcs g sdiv g_nodes g;
          f = two_phase g r in_channel (rand_min_intr_mesh g rnd (fl_src f) (fl_dest f)) f in do {
        p \<leftarrow> dor_next_mesh g (rv_id r) (if fl_ph f = 1 then fl_intm f else fl_dest f) (fl_FlitsSta f);
        os \<leftarrow> os_add_range0 p (fl_dest f * vcs_per_dest) ((fl_dest f + 1) * vcs_per_dest - 1) (os_clear os);
        Some (f, os) })"

definition valiant_mesh :: routing where
  "valiant_mesh g r rnd inject f in_channel os =
     two_phase_mesh g r (two_phase g r in_channel (random_int rnd 0 (g_nodes g - 1)) f) os"

subsection \<open>Rings\<close>

definition torus_phase :: "(nat \<Rightarrow> nat) \<Rightarrow> route_globals \<Rightarrow> int \<Rightarrow> nat \<Rightarrow> nat" where
  "torus_phase rnd g in_channel n = rnd (if in_channel = 2 * int (g_n g) then Suc n else n)"

text \<open>The first lines of \<open>valiant_torus\<close> and \<open>valiant_ni_torus\<close>: the flit and the \<open>in_channel\<close> they
  go on with; the remaining draws follow the one of the intermediate node.\<close>

definition valiant_start :: "route_globals \<Rightarrow> router_view \<Rightarrow> (nat \<Rightarrow> nat) \<Rightarrow> int \<Rightarrow> flit \<Rightarrow> flit \<times> int" where
  "valiant_start g r rnd in_channel f =
     (let f1 = (if in_channel = 2 * int (g_n g)
                then f\<lparr>fl_ph := 1, fl_intm := random_int rnd 0 (g_nodes g - 1)\<rparr> else f) in
      if fl_ph f1 = 1 \<and> rv_id r = fl_intm f1 then (f1\<lparr>fl_ph := 2\<rparr>, 2 * int (g_n g)) else (f1, in_channel))"

definition valiant_torus :: routing where
  "valiant_torus g r rnd inject f in_channel os =
     (let (f1, ic) = valiant_start g r rnd in_channel f; vcs = g_num_vcs g;
          (p, par) = dor_next_torus g (torus_phase rnd g in_channel) (rv_id r)
                       (if fl_ph f1 = 1 then fl_intm f1 else fl_dest f1) ic False;
          f2 = set_par par f1;
          (lo, hi) = (if fl_ph f1 = 1 then
                        (if fl_ring_par f2 = 0 then (0, vcs sdiv 4 - 1) else (vcs sdiv 4, vcs sdiv 2 - 1))
                      else
                        (if fl_ring_par f2 = 0 then (vcs sdiv 2, (3 * vcs) sdiv 4 - 1)
                         else ((3 * vcs) sdiv 4, vcs - 1))) in do {
        os \<leftarrow> os_add_range0 p lo hi (os_clear os);
        Some (f2, os) })"

definition valiant_ni_torus :: routing where
  "valiant_ni_torus g r rnd inject f in_channel os =
     (let (f1, ic) = valiant_start g r rnd in_channel f;
          (p, par) = dor_next_torus g (torus_phase rnd g in_channel) (rv_id r)
                       (if fl_ph f1 = 1 then fl_intm f1 else fl_dest f1) ic False;
          f2 = set_par par f1;
          vc = fl_dest f2 + (if fl_ph f1 = 1 then (if fl_ring_par f2 = 0 then 0 else g_nodes g)
                             else (if fl_ring_par f2 = 0 then 2 * g_nodes g else 3 * g_nodes g)) in do {
        os \<leftarrow> os_add_range0 p vc vc (os_clear os);
        Some (f2, os) })"

text \<open>\<open>dim_order_torus\<close> and \<open>dim_order_bal_torus\<close> differ in the last argument of \<open>dor_next_torus\<close>.\<close>

definition dim_order_ring :: "bool \<Rightarrow> routing" where
  "dim_order_ring balance g r rnd inject f in_channel os =
     (let (p, par) = dor_next_torus g rnd (rv_id r) (fl_dest f) in_channel balance;
          f1 = set_par par f; vcs = g_num_vcs g;
          (lo, hi) = (if fl_ring_par f1 = 0 then (0, vcs sdiv 2 - 1) else (vcs sdiv 2, vcs - 1)) in do {
        os \<leftarrow> os_add_range0 p lo hi (os_clear os);
        Some (f1, os) })"

definition dim_order_torus :: routing where
  "dim_order_torus = dim_order_ring False"

definition dim_order_bal_torus :: routing where
  "dim_order_bal_torus = dim_order_ring True"

definition dim_order_ni_torus :: routing where
  "dim_order_ni_torus g r rnd inject f in_channel os =
     (let vcs_per_dest = g_num_vcs g sdiv g_nodes g;
          (p, par) = dor_next_torus g rnd (rv_id r) (fl_dest f) in_channel False in do {
        os \<leftarrow> os_add_range0 p (fl_dest f * vcs_per_dest) ((fl_dest f + 1) * vcs_per_dest - 1) (os_clear os);
        Some (set_par par f, os) })"

subsection \<open>Adaptive routing\<close>

text \<open>\<open>for ( n = 0; n < gN; ++n )\<close> with \<open>cur /= gK; dest /= gK\<close> at the end of its body.\<close>

fun for_dims ::
  "int \<Rightarrow> nat \<Rightarrow> nat \<Rightarrow> (int \<Rightarrow> int \<Rightarrow> int \<Rightarrow> 's \<Rightarrow> 's option) \<Rightarrow> int \<Rightarrow> int \<Rightarrow> 's \<Rightarrow> 's option" where
  "for_dims k 0 n body cur dest s = Some s"
| "for_dims k (Suc m) n body cur dest s =
     do { s' \<leftarrow> body (int n) cur dest s; for_dims k m (Suc n) body (cur sdiv k) (dest sdiv k) s' }"

definition min_adapt_mesh :: routing where
  "min_adapt_mesh g r rnd inject f in_channel os =
     (let k = g_k g; vcs = g_num_vcs g;
          in_vc = (if in_channel = 2 * int (g_n g) then vcs - 1 else fl_vc f) in do {
        p \<leftarrow> dor_next_mesh g (rv_id r) (fl_dest f) (fl_FlitsSta f);
        os \<leftarrow> os_add_range p 0 0 0 (os_clear os);
        os \<leftarrow> (if in_vc \<noteq> 0 then
                 for_dims k (g_n g) 0 (\<lambda>n cur dest os.
                   if cur smod k \<noteq> dest smod k then
                     (if cur smod k < dest smod k then os_add_range (2 * n) 1 (vcs - 1) 1 os
                      else os_add_range (2 * n + 1) 1 (vcs - 1) 1 os)
                   else Some os) (rv_id r) (fl_dest f) os
               else Some os);
        Some (f, os) })"

text \<open>\<open>planar_adapt_mesh\<close>: the loop to the adaptive plane \<open>n\<close>.\<close>

fun planar_loop :: "int \<Rightarrow> int \<Rightarrow> int \<Rightarrow> int \<Rightarrow> nat \<Rightarrow> nat \<Rightarrow> int \<Rightarrow> int \<Rightarrow> nat \<times> int \<times> int" where
  "planar_loop k in_channel in_vc vc_mult 0 n cur dest = (n, cur, dest)"
| "planar_loop k in_channel in_vc vc_mult (Suc m) n cur dest =
     (if cur smod k \<noteq> dest smod k \<and> \<not> (in_channel sdiv 2 = 0 \<and> n = 0 \<and> in_vc < 2 * vc_mult)
      then (n, cur, dest)
      else planar_loop k in_channel in_vc vc_mult m (Suc n) (cur sdiv k) (dest sdiv k))"

text \<open>The second dimension of the plane, \<open>n\<close>, once the first has been tried: \<open>fault\<close> there.\<close>

definition planar_second ::
  "int \<Rightarrow> router_view \<Rightarrow> (nat \<Rightarrow> nat) \<Rightarrow> int \<Rightarrow> int \<Rightarrow> int \<Rightarrow> int \<Rightarrow> bool \<Rightarrow> int \<Rightarrow> int \<Rightarrow> output_set
   \<Rightarrow> output_set option" where
  "planar_second k r rnd in_channel n cur dest fault vc_min vc_max os =
     (let c0 = (if cur smod k < dest smod k then 2 * n
                else if cur smod k \<noteq> dest smod k then 2 * n + 1 else - 1);
          c1 = (if c0 = in_channel then (if fault then in_channel XOR 1 else - 1) else c0) in
      if c1 \<noteq> - 1 then do {
        bad \<leftarrow> is_faulty_output r c1;
        if \<not> bad then os_add_range0 c1 vc_min vc_max os else if fault then None else Some os }
      else if fault then
        (let (c2, atedge) =
               (if cur smod k = 0 then (2 * n, True)
                else if cur smod k = k - 1 then (2 * n + 1, True)
                else (let c = 2 * n + random_int rnd 0 1 in (if c = in_channel then in_channel XOR 1 else c, False))) in do {
           bad \<leftarrow> is_faulty_output r c2;
           if \<not> bad then os_add_range0 c2 vc_min vc_max os
           else if atedge then None
           else do {
             bad' \<leftarrow> is_faulty_output r (c2 XOR 1);
             if \<not> bad' then os_add_range0 (c2 XOR 1) vc_min vc_max os else None } })
      else Some os)"

definition planar_adapt_mesh :: routing where
  "planar_adapt_mesh g r rnd inject f in_channel os =
     (let k = g_k g; vcs = g_num_vcs g; vc_mult = vcs sdiv 3 in
      if rv_id r \<noteq> fl_dest f then
        (case planar_loop k in_channel (fl_vc f) vc_mult (g_n g) 0 (rv_id r) (fl_dest f) of (n, cur, dest) \<Rightarrow> do {
           ensure (n < g_n g);
           let increase = (cur smod k < dest smod k);
               p = (if increase then 2 * int n else 2 * int n + 1);
               n' = int ((n + 1) mod g_n g);
               (vc_min, vc_max) = (if increase then (0, vc_mult - 1) else (vc_mult, 2 * vc_mult - 1)) in do {
             fault \<leftarrow> is_faulty_output r p;
             os \<leftarrow> (if fault then Some (os_clear os) else os_add_range0 p (2 * vc_mult) (vcs - 1) (os_clear os));
             os \<leftarrow> planar_second k r rnd in_channel n' (cur sdiv k) (dest sdiv k) fault vc_min vc_max os;
             Some (f, os) } })
      else do {
        os \<leftarrow> os_add_range0 (2 * int (g_n g)) 0 (vcs - 1) (os_clear os);
        Some (f, os) })"

definition limited_adapt_mesh :: routing where
  "limited_adapt_mesh g r rnd inject f in_channel os =
     (let k = g_k g; vcs = g_num_vcs g in
      if inject then do {
        os \<leftarrow> os_add_range0 0 0 (vcs - 2) (os_clear os);
        Some (f\<lparr>fl_dr := 0\<rparr>, os) }
      else if rv_id r \<noteq> fl_dest f then
        (if fl_vc f \<noteq> vcs - 1 \<and> fl_dr f \<noteq> vcs - 2 then do {
           os \<leftarrow> for_dims k (g_n g) 0 (\<lambda>n cur dest os.
              if cur smod k \<noteq> dest smod k then
                (let min_port = (if cur smod k < dest smod k then 2 * n else 2 * n + 1) in do {
                   os \<leftarrow> os_add_range min_port 0 (vcs - 2) 2 os;
                   os_add_range (min_port XOR 1) 0 (vcs - 2) 1 os })
              else do {
                os \<leftarrow> os_add_range (2 * n) 0 (vcs - 2) 1 os;
                os_add_range (2 * n + 1) 0 (vcs - 2) 1 os }) (rv_id r) (fl_dest f) (os_clear os);
           Some (f, os) }
         else do {
           p \<leftarrow> dor_next_mesh g (rv_id r) (fl_dest f) (fl_FlitsSta f);
           os \<leftarrow> os_add_range p (vcs - 1) (vcs - 1) 0 (os_clear os);
           Some (f, os) })
      else do {
        os \<leftarrow> os_add_range0 (2 * int (g_n g)) 0 (vcs - 1) (os_clear os);
        Some (f, os) })"

definition min_adapt_torus :: routing where
  "min_adapt_torus g r rnd inject f in_channel os =
     (let k = g_k g; n0 = 2 * int (g_n g);
          in_vc = (if in_channel = n0 then g_num_vcs g - 1 else fl_vc f) in do {
        os \<leftarrow> (if in_vc > 1 then
                 for_dims k (g_n g) 0 (\<lambda>n cur dest os.
                   if cur smod k \<noteq> dest smod k then
                     (let dist2 = k - 2 * ((dest smod k - cur smod k + k) smod k) in
                      if dist2 > 0 then os_add_range (2 * n) 3 3 1 os else os_add_range (2 * n + 1) 3 3 1 os)
                   else Some os) (rv_id r) (fl_dest f) (os_clear os)
               else Some (os_clear os));
        (case dor_next_torus g rnd (rv_id r) (fl_dest f) (if in_vc > 1 then n0 else in_channel) False of
           (p, par) \<Rightarrow> do {
             os \<leftarrow> (if fl_ring_par (set_par par f) = 0 then os_add_range p 0 0 0 os else os_add_range p 1 1 0 os);
             Some (set_par par f, os) }) })"

text \<open>\<open>while ( stage < ( gN - 1 ) )\<close> runs \<open>gN - 1 - stage\<close> times.\<close>

definition dest_tag :: routing where
  "dest_tag g r rnd inject f in_channel os =
     (let stage = (rv_id r * g_k g) sdiv g_nodes g;
          dest = ((\<lambda>d. d sdiv g_k g) ^^ nat (int (g_n g) - 1 - stage)) (fl_dest f) in do {
        os \<leftarrow> os_add_range0 (dest smod g_k g) 0 (g_num_vcs g - 1) (os_clear os);
        Some (f, os) })"

definition chaos_torus :: routing where
  "chaos_torus g r rnd inject f in_channel os =
     (let k = g_k g in
      if rv_id r \<noteq> fl_dest f then do {
        os \<leftarrow> for_dims k (g_n g) 0 (\<lambda>n cur dest os.
           if cur smod k \<noteq> dest smod k then
             (let dist2 = k - 2 * ((dest smod k - cur smod k + k) smod k) in do {
                os \<leftarrow> (if dist2 \<ge> 0 then os_add_range0 (2 * n) 0 0 os else Some os);
                if dist2 \<le> 0 then os_add_range0 (2 * n + 1) 0 0 os else Some os })
           else Some os) (rv_id r) (fl_dest f) (os_clear os);
        Some (f, os) }
      else do {
        os \<leftarrow> os_add_range0 (2 * int (g_n g)) 0 0 (os_clear os);
        Some (f, os) })"

definition chaos_mesh :: routing where
  "chaos_mesh g r rnd inject f in_channel os =
     (let k = g_k g in
      if rv_id r \<noteq> fl_dest f then do {
        os \<leftarrow> for_dims k (g_n g) 0 (\<lambda>n cur dest os.
           if cur smod k \<noteq> dest smod k then
             (if cur smod k < dest smod k then os_add_range0 (2 * n) 0 0 os
              else os_add_range0 (2 * n + 1) 0 0 os)
           else Some os) (rv_id r) (fl_dest f) (os_clear os);
        Some (f, os) }
      else do {
        os \<leftarrow> os_add_range0 (2 * int (g_n g)) 0 0 (os_clear os);
        Some (f, os) })"

subsection \<open>The table\<close>

definition routing_map :: "(string \<times> routing) list" where
  "routing_map =
     [(''single_single'', singlerf), (''dim_order_mesh'', dim_order_mesh), (''dim_order_ni_mesh'', dim_order_ni_mesh),
      (''dim_order_torus'', dim_order_torus), (''dim_order_ni_torus'', dim_order_ni_torus),
      (''dim_order_bal_torus'', dim_order_bal_torus), (''romm_mesh'', romm_mesh), (''romm_ni_mesh'', romm_ni_mesh),
      (''min_adapt_mesh'', min_adapt_mesh), (''min_adapt_torus'', min_adapt_torus),
      (''planar_adapt_mesh'', planar_adapt_mesh), (''limited_adapt_mesh'', limited_adapt_mesh),
      (''valiant_mesh'', valiant_mesh), (''valiant_torus'', valiant_torus), (''valiant_ni_torus'', valiant_ni_torus),
      (''dest_tag_fly'', dest_tag), (''chaos_mesh'', chaos_mesh), (''chaos_torus'', chaos_torus)]"

text \<open>\<open>GetRoutingFunction\<close> also sets the numbers of channels; the counts of the other network keep
  their value.  \<open>exit(-1)\<close> is \<open>None\<close>.\<close>

definition set_vc_counts :: "int \<Rightarrow> int \<Rightarrow> int \<Rightarrow> route_globals \<Rightarrow> route_globals" where
  "set_vc_counts num_vcs ratio net g =
     (let g1 = g\<lparr>g_num_vcs := num_vcs\<rparr> in
      if ratio \<noteq> 0 then
        (if net sdiv 2 \<noteq> 0 then g1\<lparr>g_num_vcs_cpu := (num_vcs * ratio) sdiv 4\<rparr>
         else g1\<lparr>g_num_vcs_gpu := num_vcs - (num_vcs * ratio) sdiv 4\<rparr>)
      else g1\<lparr>g_num_vcs_cpu := num_vcs, g_num_vcs_gpu := num_vcs\<rparr>)"

definition get_routing_function ::
  "string \<Rightarrow> string \<Rightarrow> int \<Rightarrow> int \<Rightarrow> int \<Rightarrow> route_globals \<Rightarrow> (routing \<times> route_globals) option" where
  "get_routing_function fn topo num_vcs ratio net g = do {
     rf \<leftarrow> map_of routing_map (fn @ ''_'' @ topo);
     Some (rf, set_vc_counts num_vcs ratio net g)
   }"

text \<open>The output, of \<open>outs\<close>, to which a routing function sends a flit at router \<open>u\<close>, when it offers one only.\<close>

definition next_port :: "nat \<Rightarrow> routing \<Rightarrow> route_globals \<Rightarrow> flit \<Rightarrow> nat \<Rightarrow> nat option" where
  "next_port outs rf g f u = do {
     (f', os) \<leftarrow> rf g \<lparr>rv_id = int u, rv_faults = []\<rparr> (\<lambda>_. 0) False f 0 (new_output_set outs);
     find (\<lambda>p. os ! p \<noteq> []) [0 ..< length os]
   }"

lemma sdiv_nat: "int a sdiv int b = int (a div b)" "int a smod int b = int (a mod b)"
  by (simp_all add: signed_divide_int_def signed_modulo_int_def sgn_if zdiv_int zmod_int minus_div_mult_eq_mod)

text \<open>The output that gets the only range.\<close>

lemma find_single: "p < n \<Longrightarrow> x \<noteq> [] \<Longrightarrow> find (\<lambda>q. (replicate n [])[p := x] ! q \<noteq> []) [0 ..< n] = Some p"
proof -
  assume a: "p < n" "x \<noteq> []"
  then have "(replicate n [])[p := x] ! q \<noteq> [] \<longleftrightarrow> q = p" if "q < n" for q using that by (simp add: nth_list_update)
  then show ?thesis using a by (auto simp: find_Some_iff intro!: exI[of _ p])
qed

end
