(* ===== verification/RouterRun.thy ===== *)
theory RouterRun
  imports RouterInv Routing
begin

text \<open>
  Whole cycles of the router (\<open>_InternalStep\<close> with \<open>ReadInputs\<close> and \<open>WriteOutputs\<close> of
  \<open>src/intersim/iq_router.cpp\<close>) and runs of cycles: the invariant of a router from its construction
  on, for any traffic its neighbours offer, and the safety of a cycle.
\<close>

lemma holds_cong: "(\<And>x. x \<in> D \<Longrightarrow> h x = h' x) \<Longrightarrow> holds D h T = holds D h' T"
  unfolding holds_def by simp

lemma get_advance:
  assumes "vcs_dim r" "i < iq_inputs r" "v < iq_vcs r"
  shows "get_vc (advance_vcs r) i v = vc_advance_time (get_vc r i v)"
  using assms by (simp add: get_vc_def advance_vcs_def vcs_dim_def)

lemma advance_fields [simp]:
  "iq_cfg (advance_vcs r) = iq_cfg r" "iq_vcs (advance_vcs r) = iq_vcs r"
  "iq_next_vcs (advance_vcs r) = iq_next_vcs r" "iq_vc_allocator (advance_vcs r) = iq_vc_allocator r"
  "iq_sw_allocator (advance_vcs r) = iq_sw_allocator r" "iq_sw_rr_offset (advance_vcs r) = iq_sw_rr_offset r"
  "iq_switch_hold_in (advance_vcs r) = iq_switch_hold_in r" "iq_switch_hold_vc (advance_vcs r) = iq_switch_hold_vc r"
  "iq_switch_hold_out (advance_vcs r) = iq_switch_hold_out r"
  by (simp_all add: advance_vcs_def)

lemma advance_core:
  assumes "core_inv r"
  shows "core_inv (advance_vcs r)"
proof -
  let ?r = "advance_vcs r"
  note D = core_invD[OF assms]
  have wf: "vc_wf (iq_outputs r) (iq_vcs r) (get_vc ?r i v)" if "i < iq_inputs r" "v < iq_vcs r" for i v
    unfolding get_advance[OF D(1) that] by (rule vc_wf_buffer[OF D(4)[OF that]]) simp_all
  have "vcs_dim ?r" using D(1) by (simp add: vcs_dim_def advance_vcs_def)
  moreover have "next_ok ?r" using D(2) by (simp add: next_ok_def)
  moreover have "holder ?r x = holder r x" if "x \<in> chans r" for x
  proof -
    have x: "fst x < iq_inputs r" "snd x < iq_vcs r" using that by (auto simp: chans_def)
    show ?thesis unfolding holder_def get_advance[OF D(1) x] by (rule vc_holds_cong) simp_all
  qed
  then have "holds (chans r) (holder ?r) (taken r)" using D(3) holds_cong[of "chans r" "holder ?r" "holder r"] by simp
  then have "holds (chans ?r) (holder ?r) (taken ?r)" by (simp add: chans_def taken_def)
  ultimately show ?thesis using wf by (simp add: core_inv_def)
qed

subsection \<open>The invariant\<close>

context router_allocs
begin

definition router_inv :: "('v, 'w) iq_router \<Rightarrow> bool" where
  "router_inv r \<longleftrightarrow> core_inv r \<and> switch_ok r \<and> rr_ok r \<and>
     vok (iq_vc_allocator r) \<and> vsize (iq_vc_allocator r) = (iq_vcs r * iq_inputs r, iq_vcs r * iq_outputs r) \<and>
     wok (iq_sw_allocator r) \<and> wsize (iq_sw_allocator r) =
       (iq_inputs r * qc_input_speedup (iq_cfg r), iq_outputs r * qc_output_speedup (iq_cfg r))"

lemma router_inv_cong:
  fixes r t :: "('v, 'w) iq_router"
  assumes "core_inv r \<Longrightarrow> core_inv t" "quiet r t" "router_inv r"
  shows "router_inv t"
  using assms unfolding router_inv_def quiet_def switch_ok_def rr_ok_def by simp

text \<open>\<open>read_inputs\<close>, \<open>output_queuing\<close> and \<open>write_outputs\<close> touch the buffers at the edge only.\<close>

lemma edge_inv:
  fixes r t :: "('v, 'w) iq_router"
  assumes "router_inv r" "quiet r t" "iq_vc t = iq_vc r" "iq_next_vcs t = iq_next_vcs r"
  shows "router_inv t"
  using router_inv_cong[OF _ assms(2,1)] core_inv_cong[of t r] assms by (simp add: quiet_def)

lemma internal_step_total:
  fixes r :: "('v, 'w) iq_router"
  assumes "router_inv r" "rf_ok (iq_outputs r) (iq_vcs r) rf" "input_queuing rf r = Some r1"
  shows "\<exists>r'. internal_step rf vo so r = Some r' \<and> router_inv r' \<and> iq_cfg r' = iq_cfg r \<and> iq_vcs r' = iq_vcs r"
proof -
  let ?r1 = "route_all r1"
  have core: "core_inv r" using assms(1) by (simp add: router_inv_def)
  have 1: "core_inv r1" "quiet r r1" using input_queuing_inv[OF core assms(2,3)] by auto
  have 2: "core_inv ?r1" "quiet r ?r1" using route_all_inv[OF 1(1)] quiet_trans[OF 1(2)] by auto
  have inv1: "router_inv ?r1" by (rule router_inv_cong[OF 2 assms(1)])
  from vc_alloc_total[of ?r1] inv1 obtain r2 where r2: "vc_alloc_step vo ?r1 = Some r2" "core_inv r2"
    "steady ?r1 r2" "vok (iq_vc_allocator r2)" "vsize (iq_vc_allocator r2) = vsize (iq_vc_allocator ?r1)"
    "iq_sw_allocator r2 = iq_sw_allocator ?r1" "iq_sw_rr_offset r2 = iq_sw_rr_offset ?r1"
    by (auto simp: router_inv_def)
  have inv2: "router_inv r2"
    using inv1 r2 switch_ok_steady[OF r2(3)] rr_ok_cong[OF r2(3) r2(7)] r2(3)
    by (simp add: router_inv_def steady_def)
  from sw_alloc_total[of r2] inv2 obtain r3 where r3: "sw_alloc_step so r2 = Some r3" "core_inv r3"
    "steady r2 r3" "rr_ok r3" "iq_vc_allocator r3 = iq_vc_allocator r2" "wok (iq_sw_allocator r3)"
    "wsize (iq_sw_allocator r3) = wsize (iq_sw_allocator r2)"
    by (auto simp: router_inv_def)
  have inv3: "router_inv r3"
    using inv2 r3 switch_ok_steady[OF r3(3)] by (simp add: router_inv_def steady_def)
  let ?r4 = "advance_vcs r3"
  have inv4: "router_inv ?r4" by (rule router_inv_cong[OF advance_core _ inv3]) (simp_all add: quiet_def)
  let ?r5 = "?r4\<lparr>iq_crossbar_pipe := pf_advance (iq_crossbar_pipe ?r4),
       iq_credit_pipe := pf_advance (iq_credit_pipe ?r4), iq_time := iq_time ?r4 + 1\<rparr>"
  let ?r' = "output_queuing ?r5"
  have "internal_step rf vo so r = Some ?r'" using assms(3) r2(1) r3(1) by (simp add: internal_step_def Let_def)
  moreover have "router_inv ?r'"
    by (rule edge_inv[OF inv4]) (simp_all add: quiet_def output_queuing_def)
  moreover have "iq_cfg ?r' = iq_cfg r \<and> iq_vcs ?r' = iq_vcs r"
    using 2(2) r2(3) r3(3) by (simp add: output_queuing_def quiet_def steady_def)
  ultimately show ?thesis by blast
qed

lemma read_inputs_inv:
  fixes r :: "('v, 'w) iq_router"
  assumes "router_inv r"
  shows "router_inv (read_inputs fs cs r)" "iq_cfg (read_inputs fs cs r) = iq_cfg r" "iq_vcs (read_inputs fs cs r) = iq_vcs r"
  by (rule edge_inv[OF assms]) (simp_all add: read_inputs_def receive_flits_def receive_credits_def quiet_def)

lemma router_cycle_total:
  fixes r :: "('v, 'w) iq_router"
  assumes "router_inv r" "rf_ok (iq_outputs r) (iq_vcs r) rf"
  shows "router_cycle rf vo so io r = None \<longleftrightarrow> input_queuing rf (read_inputs (fst io) (snd io) r) = None"
    "router_cycle rf vo so io r = Some r' \<Longrightarrow> router_inv r' \<and> iq_cfg r' = iq_cfg r \<and> iq_vcs r' = iq_vcs r"
proof -
  let ?r = "read_inputs (fst io) (snd io) r"
  have inv: "router_inv ?r" "iq_cfg ?r = iq_cfg r" "iq_vcs ?r = iq_vcs r" using read_inputs_inv[OF assms(1)] by auto
  have step: "\<exists>r'. internal_step rf vo so ?r = Some r' \<and> router_inv r' \<and> iq_cfg r' = iq_cfg r \<and> iq_vcs r' = iq_vcs r"
    if "input_queuing rf ?r = Some r1" for r1
    using internal_step_total[OF inv(1) _ that] assms(2) inv(2,3) by simp
  have bad: "internal_step rf vo so ?r = None" if "input_queuing rf ?r = None"
    using that by (simp add: internal_step_def)
  have out: "router_inv (snd (snd (write_outputs t)))" if "router_inv t" for t
    by (rule edge_inv[OF that]) (simp_all add: write_outputs_def quiet_def)
  have sz: "iq_cfg (snd (snd (write_outputs t))) = iq_cfg t" "iq_vcs (snd (snd (write_outputs t))) = iq_vcs t" for t :: "('v, 'w) iq_router"
    by (simp_all add: write_outputs_def)
  show "router_cycle rf vo so io r = None \<longleftrightarrow> input_queuing rf ?r = None"
    using step bad by (cases "input_queuing rf ?r") (auto simp: router_cycle_def)
  show "router_cycle rf vo so io r = Some r' \<Longrightarrow> router_inv r' \<and> iq_cfg r' = iq_cfg r \<and> iq_vcs r' = iq_vcs r"
  proof -
    assume a: "router_cycle rf vo so io r = Some r'"
    then obtain t where t: "internal_step rf vo so ?r = Some t" "r' = snd (snd (write_outputs t))"
      by (auto simp: router_cycle_def elim!: bind_SomeE)
    then obtain r1 where "input_queuing rf ?r = Some r1" using bad by (cases "input_queuing rf ?r") auto
    then show ?thesis using step t out sz by fastforce
  qed
qed

lemma router_run_inv:
  fixes r :: "('v, 'w) iq_router"
  assumes "router_inv r" "rf_ok (iq_outputs r) (iq_vcs r) rf" "router_run rf vo so ios r = Some r'"
  shows "router_inv r' \<and> iq_cfg r' = iq_cfg r \<and> iq_vcs r' = iq_vcs r"
  using assms
proof (induction ios arbitrary: r)
  case Nil
  then show ?case by (simp add: router_run_def)
next
  case (Cons io ios)
  from Cons.prems(3) obtain t where t: "router_cycle rf vo so io r = Some t" "router_run rf vo so ios t = Some r'"
    by (auto simp: router_run_def elim!: bind_SomeE)
  note c = router_cycle_total(2)[OF Cons.prems(1,2) t(1)]
  then show ?case using Cons.IH[of t] Cons.prems(2) t(2) by simp
qed

lemma new_router_inv:
  fixes r :: "('v, 'w) iq_router"
  assumes "new_iq_router c ratio net nv nw = Some r" "\<not> qc_hold_switch_for_packet c"
    "0 < qc_input_speedup c" "0 < qc_output_speedup c" "0 < iq_vcs r" "0 \<le> nc_vc_buf_size (qc_noc c)"
    "\<And>n m. vok (nv n m) \<and> vsize (nv n m) = (n, m)" "\<And>n m. wok (nw n m) \<and> wsize (nw n m) = (n, m)"
  shows "router_inv r \<and> iq_cfg r = c"
proof -
  let ?n = "nat (network_vcs (nc_num_vcs (qc_noc c)) ratio net)"
  obtain b where b: "bs_init (qc_noc c) ratio net = Some b" and
    r: "iq_cfg r = c" "iq_vcs r = ?n" "iq_next_vcs r = replicate (qc_outputs c) b"
    "iq_vc r = replicate (qc_inputs c) (replicate ?n (vc_init (nc_vc_buf_size (qc_noc c)) (qc_outputs c)))"
    "iq_vc_allocator r = nv (?n * qc_inputs c) (?n * qc_outputs c)"
    "iq_sw_allocator r = nw (qc_inputs c * qc_input_speedup c) (qc_outputs c * qc_output_speedup c)"
    "iq_sw_rr_offset r = replicate (qc_inputs c * qc_input_speedup c) 0"
    "iq_switch_hold_in r = replicate (qc_inputs c * qc_input_speedup c) None"
    "iq_switch_hold_vc r = replicate (qc_inputs c * qc_input_speedup c) None"
    "iq_switch_hold_out r = replicate (qc_outputs c * qc_output_speedup c) None"
    using assms(1) by (auto simp: new_iq_router_def Let_def split: if_splits elim!: bind_SomeE)
  have bi: "bs_inv b" "bs_in_use b = replicate (bs_vcs b) False" using bs_init_inv[OF b assms(6)] by auto
  have bv: "bs_vcs b = ?n" using b by (auto simp: bs_init_def Let_def split: if_splits)
  have g: "get_vc r i v = vc_init (nc_vc_buf_size (qc_noc c)) (qc_outputs c)" if "i < qc_inputs c" "v < ?n" for i v
    using that r by (simp add: get_vc_def)
  have "vc_wf (qc_outputs c) ?n (vc_init (nc_vc_buf_size (qc_noc c)) (qc_outputs c))"
    by (rule vc_wf_idle) (simp_all add: vc_init_def new_output_set_def)
  then have wf: "\<forall>i < iq_inputs r. \<forall>v < iq_vcs r. vc_wf (iq_outputs r) (iq_vcs r) (get_vc r i v)"
    using g r by simp
  have "holder r x = None" if "x \<in> chans r" for x
  proof -
    have "fst x < qc_inputs c" "snd x < ?n" using that r by (auto simp: chans_def)
    then show ?thesis using g by (simp add: holder_def vc_holds_inactive vc_init_def)
  qed
  moreover have "taken r = {}" using bi(2) bv r by (auto simp: taken_def owned_def)
  ultimately have h: "holds (chans r) (holder r) (taken r)" by (auto simp: holds_def)
  have "vcs_dim r" "next_ok r" using r bi bv by (simp_all add: vcs_dim_def next_ok_def)
  then have "core_inv r" using wf h by (simp add: core_inv_def)
  moreover have "switch_ok r" using assms(2-5) r by (simp add: switch_ok_def)
  moreover have "rr_ok r" using assms(5) r by (simp add: rr_ok_def)
  ultimately show ?thesis using assms(7,8) r by (simp add: router_inv_def)
qed

end

subsection \<open>The router with two iSLIP allocators\<close>

interpretation islip_router: router_allocs islip_ops islip_ready base_size sp_rq islip_ops islip_ready base_size sp_rq
  by unfold_locales

lemma new_islip_ready: "islip_ready (new_islip n m it) \<and> base_size (new_islip n m it) = (n, m)"
proof -
  have "sp_read (new_islip n m it) i j = None" if "i < n" for i j
    using that by (simp add: sp_read_def new_islip_def)
  moreover have "al_inputs (new_islip n m it) = n" "al_outputs (new_islip n m it) = m" by (simp_all add: new_islip_def)
  ultimately show ?thesis using new_islip_inv[of n m it] by (auto simp: islip_ready_def base_size_def)
qed

lemma islip_run_inv:
  assumes "new_iq_router c ratio net (\<lambda>n m. new_islip n m va) (\<lambda>n m. new_islip n m sa) = Some r0"
    "\<not> qc_hold_switch_for_packet c" "0 < qc_input_speedup c" "0 < qc_output_speedup c" "0 < iq_vcs r0"
    "0 \<le> nc_vc_buf_size (qc_noc c)" "rf_ok (qc_outputs c) (iq_vcs r0) rf"
    "router_run rf islip_ops islip_ops ios r0 = Some r"
  shows "islip_router.router_inv r \<and> iq_cfg r = c \<and> iq_vcs r = iq_vcs r0"
proof -
  have 0: "islip_router.router_inv r0 \<and> iq_cfg r0 = c"
    by (rule islip_router.new_router_inv[OF assms(1-6) new_islip_ready new_islip_ready])
  then show ?thesis using islip_router.router_run_inv[OF _ _ assms(8)] assms(7) by simp
qed

lemma holders_count:
  assumes "core_inv r" "j < iq_outputs r" "v < iq_vcs r"
  shows "card {x \<in> chans r. holder r x = Some (j, v)} =
    (if bs_in_use (iq_next_vcs r ! j) ! v \<and> \<not> bs_tail_sent (iq_next_vcs r ! j) ! v then 1 else 0)"
proof -
  let ?H = "{x \<in> chans r. holder r x = Some (j, v)}"
  have h: "holds (chans r) (holder r) (taken r)" using core_invD(3)[OF assms(1)] .
  have t: "(j, v) \<in> taken r \<longleftrightarrow> bs_in_use (iq_next_vcs r ! j) ! v \<and> \<not> bs_tail_sent (iq_next_vcs r ! j) ! v"
    using assms(2,3) by (auto simp: taken_def owned_def)
  have "taken r = {p. \<exists>x \<in> chans r. holder r x = Some p}" using h by (simp add: holds_def)
  then have ne: "(j, v) \<in> taken r \<longleftrightarrow> (\<exists>x. x \<in> ?H)" by blast
  have one: "x = y" if "x \<in> ?H" "y \<in> ?H" for x y using h that unfolding holds_def by blast
  show ?thesis
  proof (cases "(j, v) \<in> taken r")
    case True
    then obtain x where "x \<in> ?H" using ne by blast
    then have "?H = {x}" using one by blast
    then show ?thesis using True t by simp
  next
    case False
    then have "?H = {}" using ne by blast
    then show ?thesis using False t by (metis card.empty)
  qed
qed

text \<open>\<open>dim_order_mesh\<close> is a routing function the router can work with when the number of channels it
  names is not larger than the router's.\<close>

lemma route_ok_add:
  assumes "route_ok outs vcs os" "os_add_range p vs ve pri os = Some os'" "0 \<le> vs" "ve < int vcs"
  shows "route_ok outs vcs os'"
proof -
  have o: "os_ok os' \<and> length os' = length os" using os_add_range_ok[OF _ assms(2)] assms(1) by (simp add: route_ok_def)
  obtain i where i: "i < length os" "os' = os[i := os ! i @ [\<lparr>se_vc_start = vs, se_vc_end = ve, se_pri = pri\<rparr>]]"
    using assms(2) by (auto simp: os_add_range_def dest: os_port_SomeD split: if_splits elim!: bind_SomeE)
  have "se_vc_end e < int vcs \<and> 0 \<le> se_vc_start e" if "es \<in> set os'" "e \<in> set es" for es e
  proof -
    have "es \<in> set os \<or> es = os ! i @ [\<lparr>se_vc_start = vs, se_vc_end = ve, se_pri = pri\<rparr>]"
      using that(1) i(2) set_update_subset_insert[of os i] by auto
    then show ?thesis using that(2) assms(1,3,4) nth_mem[OF i(1)] by (auto simp: route_ok_def)
  qed
  then show ?thesis using o assms(1) by (auto simp: route_ok_def)
qed

lemma route_ok_clear: "length os = outs \<Longrightarrow> route_ok outs vcs (os_clear os)"
  by (auto simp: route_ok_def os_clear_def os_ok_def)

lemma dim_order_mesh_rf_ok:
  assumes "g_num_vcs_cpu g \<le> int vcs" "g_num_vcs_gpu g \<le> int vcs"
  shows "rf_ok outs vcs (dim_order_mesh g r rnd False)"
  unfolding rf_ok_def
proof (intro allI impI)
  fix f i os f' os' assume l: "length os = outs" and d: "dim_order_mesh g r rnd False f i os = Some (f', os')"
  let ?v = "(if fl_net_num f sdiv 2 \<noteq> 0 then g_num_vcs_cpu g else g_num_vcs_gpu g) - 1"
  from d obtain p o1 where o: "os_add_range0 p 0 ?v (os_clear os) = Some o1" "os_add_range0 p 0 ?v o1 = Some os'"
    by (auto simp: dim_order_mesh_def Let_def elim!: bind_SomeE)
  have v: "?v < int vcs" using assms by auto
  have "route_ok outs vcs o1" by (rule route_ok_add[OF route_ok_clear[OF l] o(1) _ v]) simp
  then show "route_ok outs vcs os'" by (rule route_ok_add[OF _ o(2) _ v]) simp
qed

subsection \<open>What a router promises\<close>

text \<open>C3: output channels are exclusive. Take a router with iSLIP allocators, built with any number of ports,
  channels, buffers and speedups, and run it for any number of cycles on any flits and credits its neighbours
  offer. If the run does not stop, then at every output channel: exactly one input channel holds it when it is
  taken and the tail of its packet has not been sent, and none does otherwise; the occupancy it counts for the
  neighbour's buffer stays between zero and the size of that buffer.\<close>

theorem output_channels_exclusive:
  assumes "new_iq_router c ratio net (\<lambda>n m. new_islip n m va) (\<lambda>n m. new_islip n m sa) = Some r0"
    "\<not> qc_hold_switch_for_packet c" "0 < qc_input_speedup c" "0 < qc_output_speedup c" "0 < iq_vcs r0"
    "0 \<le> nc_vc_buf_size (qc_noc c)" "rf_ok (qc_outputs c) (iq_vcs r0) rf"
    "router_run rf islip_ops islip_ops ios r0 = Some r" "j < qc_outputs c" "v < iq_vcs r0"
  shows "card {x \<in> chans r. holder r x = Some (j, v)} =
      (if bs_in_use (iq_next_vcs r ! j) ! v \<and> \<not> bs_tail_sent (iq_next_vcs r ! j) ! v then 1 else 0) \<and>
    0 \<le> bs_cur_occupied (iq_next_vcs r ! j) ! v \<and>
    bs_cur_occupied (iq_next_vcs r ! j) ! v \<le> bs_buf_size (iq_next_vcs r ! j)"
proof -
  have R: "islip_router.router_inv r" "iq_cfg r = c" "iq_vcs r = iq_vcs r0"
    using islip_run_inv[OF assms(1-8)] by auto
  have core: "core_inv r" using R(1) by (simp add: islip_router.router_inv_def)
  have jv: "j < iq_outputs r" "v < iq_vcs r" using assms(9,10) R by simp_all
  have "bs_inv (iq_next_vcs r ! j) \<and> bs_vcs (iq_next_vcs r ! j) = iq_vcs r"
    using core_invD(2)[OF core] jv(1) by (simp add: next_ok_def)
  then show ?thesis using holders_count[OF core jv] jv(2) by (simp add: bs_inv_def)
qed

text \<open>C12: a router cycle stops the simulator only on what its neighbours did, when the switch is not held for a packet.
  After any run of a router with iSLIP allocators, positive speedups and \<open>hold_switch_for_packet\<close> off, the next cycle
  fails an assertion exactly when \<open>_InputQueuing\<close> does: a flit for a full or unknown channel, a body flit without its
  head, a routing function without an answer, or a credit for an empty buffer.  The two allocation stages, the switch
  and the pipelines never stop, and the cycle then has a result.  With \<open>hold_switch_for_packet\<close> on they can stop
  (\<open>hold_switch_stops\<close>).\<close>

theorem allocation_never_stops:
  assumes "new_iq_router c ratio net (\<lambda>n m. new_islip n m va) (\<lambda>n m. new_islip n m sa) = Some r0"
    "\<not> qc_hold_switch_for_packet c" "0 < qc_input_speedup c" "0 < qc_output_speedup c" "0 < iq_vcs r0"
    "0 \<le> nc_vc_buf_size (qc_noc c)" "rf_ok (qc_outputs c) (iq_vcs r0) rf"
    "router_run rf islip_ops islip_ops ios r0 = Some r"
  shows "router_cycle rf islip_ops islip_ops io r = None \<longleftrightarrow>
    input_queuing rf (read_inputs (fst io) (snd io) r) = None"
  using islip_router.router_cycle_total(1)[of r rf io] islip_run_inv[OF assms] assms(7) by simp

text \<open>A mesh router with five ports, and two packets that want the same output.\<close>

definition mesh_config :: iq_config where
  "mesh_config = \<lparr>qc_noc = \<lparr>nc_vc_buf_size = 2, nc_num_vcs = 2, nc_wait_for_tail_credit = 0\<rparr>,
     qc_inputs = 5, qc_outputs = 5, qc_routing_delay = 0, qc_vc_alloc_delay = 0, qc_st_prepare_delay = 0,
     qc_st_final_delay = 0, qc_credit_delay = 0, qc_input_speedup = 1, qc_output_speedup = 1,
     qc_output_extra_latency = 0, qc_hold_switch_for_packet = False\<rparr>"

definition mesh_flit :: "bool \<Rightarrow> bool \<Rightarrow> flit" where
  "mesh_flit h t = \<lparr>fl_data = 1, fl_net_num = 0, fl_vc = 0, fl_head = h, fl_tail = t,
     fl_true_tail = t, fl_time = 0, fl_sn = 0, fl_rob_time = 0, fl_id = 0, fl_record = False, fl_src = 0,
     fl_dest = 2, fl_pri = 0, fl_hops = 0, fl_watch = False, fl_intm = 0, fl_ph = 0, fl_dr = 0,
     fl_ring_par = 0, fl_FlitsSta = 0\<rparr>"

definition mesh_rf :: routing_function where
  "mesh_rf = dim_order_mesh \<lparr>g_k = 6, g_n = 2, g_nodes = 36, g_num_vcs = 2, g_num_vcs_cpu = 2, g_num_vcs_gpu = 2\<rparr>
     \<lparr>rv_id = 7, rv_faults = replicate 5 False\<rparr> (\<lambda>_. 0) False"

definition mesh_ios :: "(flit option list \<times> credit option list) list" where
  "mesh_ios =
     [([Some (mesh_flit True False), None, Some (mesh_flit True True), None, None], replicate 5 None),
      ([Some (mesh_flit False True), None, None, None, None], replicate 5 None)]"

definition mesh_router :: "(islip, islip) iq_router" where
  "mesh_router = the (new_iq_router mesh_config 0 0 (\<lambda>n m. new_islip n m 2) (\<lambda>n m. new_islip n m 2))"

definition mesh_after :: "(islip, islip) iq_router" where
  "mesh_after = the (router_run mesh_rf islip_ops islip_ops mesh_ios mesh_router)"

lemma mesh_router_new:
  "new_iq_router mesh_config 0 0 (\<lambda>n m. new_islip n m 2) (\<lambda>n m. new_islip n m 2) = Some mesh_router \<and>
   iq_vcs mesh_router = 2"
  by (simp add: mesh_router_def new_iq_router_def mesh_config_def network_vcs_def bs_init_def)

lemma mesh_run: "router_run mesh_rf islip_ops islip_ops mesh_ios mesh_router \<noteq> None"
  by code_simp

lemma mesh_hyps:
  "rf_ok (qc_outputs mesh_config) (iq_vcs mesh_router) mesh_rf"
  "router_run mesh_rf islip_ops islip_ops mesh_ios mesh_router = Some mesh_after"
  using mesh_run mesh_router_new by (auto simp: mesh_rf_def mesh_after_def intro!: dim_order_mesh_rf_ok)

text \<open>
  With \<open>hold_switch_for_packet\<close> the switch is held for a packet of three flits and forwards the third into the neighbour's
  buffer, which has room for two: the cycle stops though \<open>_InputQueuing\<close> does not.  Without it the flit waits.
\<close>

definition hold_io :: "nat \<Rightarrow> flit option list \<times> credit option list" where
  "hold_io i = ([Some (mesh_flit (i = 0) False), None, None, None, None], replicate 5 None)"

definition hold_router :: "bool \<Rightarrow> (islip, islip) iq_router option" where
  "hold_router b = new_iq_router (mesh_config\<lparr>qc_hold_switch_for_packet := b\<rparr>) 0 0
     (\<lambda>n m. new_islip n m 2) (\<lambda>n m. new_islip n m 2)"

definition third_flit :: "bool \<Rightarrow> (bool \<times> bool) option" where
  "third_flit b = do {
     r0 \<leftarrow> hold_router b;
     r \<leftarrow> router_run mesh_rf islip_ops islip_ops [hold_io 0, hold_io 1] r0;
     Some (Option.is_none (input_queuing mesh_rf (read_inputs (fst (hold_io 2)) (snd (hold_io 2)) r)),
           Option.is_none (router_cycle mesh_rf islip_ops islip_ops (hold_io 2) r)) }"

lemma hold_switch_stops:
  "third_flit True = Some (False, True)"
  "third_flit False = Some (False, False)"
  by (code_simp, code_simp)

theorem output_channels_exclusive_witness:
  "card {x \<in> chans mesh_after. holder mesh_after x = Some (0, 0)} = 1"
proof -
  have "bs_in_use (iq_next_vcs mesh_after ! 0) ! 0 \<and> \<not> bs_tail_sent (iq_next_vcs mesh_after ! 0) ! 0"
    by code_simp
  then show ?thesis
    using output_channels_exclusive[OF mesh_router_new[THEN conjunct1] _ _ _ _ _ mesh_hyps, of 0 0] mesh_router_new
    by (simp add: mesh_config_def)
qed

theorem allocation_never_stops_witness:
  "router_cycle mesh_rf islip_ops islip_ops (hd mesh_ios) mesh_after \<noteq> None"
proof -
  have "input_queuing mesh_rf (read_inputs (fst (hd mesh_ios)) (snd (hd mesh_ios)) mesh_after) \<noteq> None" by code_simp
  then show ?thesis
    using allocation_never_stops[OF mesh_router_new[THEN conjunct1] _ _ _ _ _ mesh_hyps, of "hd mesh_ios"] mesh_router_new
    by (simp add: mesh_config_def)
qed

end
