(* ===== verification/Topology.thy ===== *)
theory Topology
  imports Prelude
begin

text \<open>
  The topologies of the interconnect: the channels \<open>KNCube\<close> (\<open>src/intersim/kncube.cpp\<close>) and \<open>KNFly\<close>
  (\<open>fly.cpp\<close>) connect to the ports of their routers, in the order in which \<open>_BuildNet\<close> adds them, and
  what it means that a packet is delivered over them.  \<open>KNCube\<close> reads the neighbours of a node from
  two hand-written tables; a node or dimension outside them leaves the result unset (\<open>None\<close>).

  A channel is named by its index in \<open>_chan\<close>, or is the injection or ejection channel of a node.
\<close>

datatype chan = Chan nat | Inject nat | Eject nat

record wiring =
  w_size :: nat
  w_in :: "nat \<Rightarrow> chan list option"
  w_out :: "nat \<Rightarrow> chan list option"

definition pow_i :: "nat \<Rightarrow> nat \<Rightarrow> nat" where
  "pow_i x y = fold (\<lambda>_ r. r * x) [0 ..< y] 1"

lemma pow_i_power [simp]: "pow_i x y = x ^ y"
  by (induction y) (simp_all add: pow_i_def mult.commute)

subsection \<open>\<open>KNCube\<close>\<close>

definition left_node :: "nat \<Rightarrow> nat \<Rightarrow> nat option" where
  "left_node node dim =
     (if dim = 0 \<and> node < 36 then
        Some ([3, 0, 5, 1, 2, 4, 10, 11, 6, 7, 8, 9, 16, 17, 12, 13, 14, 15, 23, 18, 19, 20, 21, 22, 27, 24,
              29, 25, 26, 28, 34, 35, 30, 31, 32, 33] ! node)
      else if dim = 1 \<and> node < 36 then
        Some ([30, 25, 26, 27, 28, 35, 0, 31, 32, 33, 34, 5, 6, 7, 8, 9, 10, 11, 12, 1, 2, 3, 4, 17, 18, 19,
              20, 21, 22, 23, 24, 13, 14, 15, 16, 29] ! node)
      else None)"

definition right_node :: "nat \<Rightarrow> nat \<Rightarrow> nat option" where
  "right_node node dim =
     (if dim = 0 \<and> node < 36 then
        Some ([1, 3, 4, 0, 5, 2, 8, 9, 10, 11, 6, 7, 14, 15, 16, 17, 12, 13, 19, 20, 21, 22, 23, 18, 25, 27,
              28, 24, 29, 26, 32, 33, 34, 35, 30, 31] ! node)
      else if dim = 1 \<and> node < 36 then
        Some ([6, 19, 20, 21, 22, 11, 12, 13, 14, 15, 16, 17, 18, 31, 32, 33, 34, 23, 24, 25, 26, 27, 28, 29,
              30, 1, 2, 3, 4, 35, 0, 7, 8, 9, 10, 5] ! node)
      else None)"

definition left_channel :: "nat \<Rightarrow> nat \<Rightarrow> nat \<Rightarrow> nat" where
  "left_channel n node dim = 2 * n * node + (2 * dim + 1)"

definition right_channel :: "nat \<Rightarrow> nat \<Rightarrow> nat \<Rightarrow> nat" where
  "right_channel n node dim = 2 * n * node + 2 * dim"

definition cube_inputs :: "nat \<Rightarrow> nat \<Rightarrow> chan list option" where
  "cube_inputs n node = do {
     cs \<leftarrow> those (map (\<lambda>dim. do {
       l \<leftarrow> left_node node dim;
       r \<leftarrow> right_node node dim;
       Some [Chan (left_channel n r dim), Chan (right_channel n l dim)] }) [0 ..< n]);
     Some (concat cs @ [Inject node]) }"

definition cube_outputs :: "nat \<Rightarrow> nat \<Rightarrow> chan list option" where
  "cube_outputs n node =
     Some (concat (map (\<lambda>dim. [Chan (right_channel n node dim), Chan (left_channel n node dim)]) [0 ..< n]) @
           [Eject node])"

definition cube :: "nat \<Rightarrow> nat \<Rightarrow> wiring" where
  "cube k n = \<lparr>w_size = pow_i k n, w_in = cube_inputs n, w_out = cube_outputs n\<rparr>"

subsection \<open>\<open>KNFly\<close>\<close>

text \<open>Router \<open>node\<close> is number \<open>node mod per_stage\<close> of stage \<open>node div per_stage\<close>.\<close>

definition fly_out_channel :: "nat \<Rightarrow> nat \<Rightarrow> nat \<Rightarrow> nat \<Rightarrow> nat \<Rightarrow> nat" where
  "fly_out_channel k n stage addr port = stage * pow_i k n + addr * k + port"

definition fly_in_channel :: "nat \<Rightarrow> nat \<Rightarrow> nat \<Rightarrow> nat \<Rightarrow> nat \<Rightarrow> nat" where
  "fly_in_channel k n stage addr port =
     (let shift = pow_i k (n - stage - 1); last_digit = port; zero_digit = (addr div shift) mod k;
          in_addr = addr - zero_digit * shift + last_digit * shift; in_port = zero_digit in
      (stage - 1) * pow_i k n + in_addr * k + in_port)"

definition fly_inputs :: "nat \<Rightarrow> nat \<Rightarrow> nat \<Rightarrow> chan list option" where
  "fly_inputs k n node =
     (let per_stage = pow_i k (n - 1); stage = node div per_stage; addr = node mod per_stage in
      Some (map (\<lambda>port. if stage = 0 then Inject (addr * k + port)
                         else Chan (fly_in_channel k n stage addr port)) [0 ..< k]))"

definition fly_outputs :: "nat \<Rightarrow> nat \<Rightarrow> nat \<Rightarrow> chan list option" where
  "fly_outputs k n node =
     (let per_stage = pow_i k (n - 1); stage = node div per_stage; addr = node mod per_stage in
      Some (map (\<lambda>port. if stage = n - 1 then Eject (addr * k + port)
                         else Chan (fly_out_channel k n stage addr port)) [0 ..< k]))"

definition fly :: "nat \<Rightarrow> nat \<Rightarrow> wiring" where
  "fly k n = \<lparr>w_size = n * pow_i k (n - 1), w_in = fly_inputs k n, w_out = fly_outputs k n\<rparr>"

subsection \<open>Delivery\<close>

text \<open>
  The router that reads a channel, and the way of a packet for which the router \<open>u\<close> picks the output
  port \<open>port u\<close>: where it is ejected and after how many hops, if \<open>fuel\<close> routers are enough.
\<close>

definition receiver :: "wiring \<Rightarrow> nat \<Rightarrow> nat option" where
  "receiver w c =
     find (\<lambda>v. case w_in w v of Some l \<Rightarrow> Chan c \<in> set l | None \<Rightarrow> False) [0 ..< w_size w]"

fun deliver :: "wiring \<Rightarrow> (nat \<Rightarrow> nat option) \<Rightarrow> nat \<Rightarrow> nat \<Rightarrow> (nat \<times> nat) option" where
  "deliver w port 0 u = None"
| "deliver w port (Suc fuel) u = do {
     p \<leftarrow> port u;
     out \<leftarrow> w_out w u;
     ensure (p < length out);
     (case out ! p of
        Eject d \<Rightarrow> Some (d, 0)
      | Inject _ \<Rightarrow> None
      | Chan c \<Rightarrow> do {
          v \<leftarrow> receiver w c;
          (d, h) \<leftarrow> deliver w port fuel v;
          Some (d, Suc h) }) }"

text \<open>Where a flit at router \<open>u\<close> is one hop later, and \<open>n\<close> hops later; \<open>None\<close> when it left the network or was
  stopped.\<close>

definition router_hop :: "wiring \<Rightarrow> (nat \<Rightarrow> nat option) \<Rightarrow> nat \<Rightarrow> nat option" where
  "router_hop w port u = do {
     p \<leftarrow> port u;
     out \<leftarrow> w_out w u;
     ensure (p < length out);
     (case out ! p of Eject d \<Rightarrow> None | Inject _ \<Rightarrow> None | Chan c \<Rightarrow> receiver w c) }"

fun travel :: "wiring \<Rightarrow> (nat \<Rightarrow> nat option) \<Rightarrow> nat \<Rightarrow> nat \<Rightarrow> nat option" where
  "travel w port 0 u = Some u"
| "travel w port (Suc n) u = do { v \<leftarrow> travel w port n u; router_hop w port v }"

lemma deliver_hop_None:
  "router_hop w port u = Some v \<Longrightarrow> deliver w port (Suc fuel) u = map_option (apsnd Suc) (deliver w port fuel v)"
  by (cases "deliver w port fuel v") (auto simp: router_hop_def split: chan.splits if_splits elim!: bind_SomeE)

lemma deliver_None_travelling:
  assumes "\<forall>n. travel w port n u \<noteq> None"
  shows "deliver w port fuel u = None"
proof -
  have "deliver w port fuel v = None" if "travel w port n u = Some v" for n v
    using that
  proof (induction fuel arbitrary: n v)
    case (Suc fuel)
    from assms[THEN spec, of "Suc n"] Suc.prems obtain v' where v': "router_hop w port v = Some v'" by auto
    with Suc.prems have "travel w port (Suc n) u = Some v'" by simp
    from Suc.IH[OF this] deliver_hop_None[OF v', of fuel] show ?case by simp
  qed simp
  from this[of 0 u] show ?thesis by simp
qed

text \<open>Every channel has one router that reads it.\<close>

locale wired =
  fixes w :: wiring
  assumes one_reader: "u < w_size w \<Longrightarrow> v < w_size w \<Longrightarrow> w_in w u = Some l \<Longrightarrow> w_in w v = Some m \<Longrightarrow>
    Chan c \<in> set l \<Longrightarrow> Chan c \<in> set m \<Longrightarrow> u = v"
begin

lemma receiver_eq:
  assumes "v < w_size w" "w_in w v = Some l" "Chan c \<in> set l"
  shows "receiver w c = Some v"
proof -
  let ?P = "\<lambda>v. case w_in w v of Some l \<Rightarrow> Chan c \<in> set l | None \<Rightarrow> False"
  have "find ?P [0 ..< w_size w] \<noteq> None" using assms by (auto simp: find_None_iff)
  then obtain u where u: "find ?P [0 ..< w_size w] = Some u" by blast
  then have "u < w_size w" "?P u" by (auto simp: find_Some_iff)
  moreover from this obtain m where "w_in w u = Some m" "Chan c \<in> set m" by (auto split: option.splits)
  ultimately have "u = v" using one_reader assms by blast
  with u show ?thesis by (simp add: receiver_def)
qed

lemma deliver_hop:
  assumes "port u = Some p" "w_out w u = Some out" "p < length out" "out ! p = Chan c"
    "v < w_size w" "w_in w v = Some l" "Chan c \<in> set l"
  shows "deliver w port (Suc fuel) u = map_option (apsnd Suc) (deliver w port fuel v)"
  using assms receiver_eq[OF assms(5-7)] by (cases "deliver w port fuel v") auto

end

lemma deliver_more: "deliver w port fuel u = Some x \<Longrightarrow> deliver w port (fuel + m) u = Some x"
  by (induction fuel arbitrary: u x) (auto split: chan.splits if_splits elim!: bind_SomeE)

lemma deliver_eject:
  "port u = Some p \<Longrightarrow> w_out w u = Some out \<Longrightarrow> p < length out \<Longrightarrow> out ! p = Eject d \<Longrightarrow>
     deliver w port (Suc fuel) u = Some (d, 0)"
  by simp

end
