(* ===== verification/IcntInterface.thy ===== *)
theory IcntInterface
  imports BufferState
begin

text \<open>
  The interface between the devices (shader clusters, CPUs, memory partitions) and the networks
  (\<open>src/intersim/interconnect_interface.cpp\<close>): the map from devices to nodes, the choice of the network
  and of \<open>FlitsSta\<close> for a packet, the flow control at the injection side, and the ejection side, where
  flits wait in \<open>ejection_buf\<close>, move to a \<open>boundary_buf\<close> and leave as whole packets.

  Data pointers are \<open>nat\<close>, \<open>0\<close> is \<open>NULL\<close>.  The modes with a fixed latency (\<open>fixed_lat_per_hop\<close>,
  \<open>perfect_icnt\<close>) are not modelled: \<open>fixed_lat_icnt\<close> is 0.
\<close>

record icnt =
  ic_net_c :: nat
  ic_flit_size :: nat
  ic_ratio :: nat
  ic_num_vcs :: nat
  ic_input_capacity :: nat
  ic_ejection_capacity :: nat
  ic_boundary_capacity :: nat
  ic_n_shader :: nat
  ic_n_cpu :: nat
  ic_node_map :: "nat list"
  ic_reverse_map :: "nat option list"

abbreviation quad_net :: "icnt \<Rightarrow> bool" where
  "quad_net c \<equiv> ic_net_c c = 4"

abbreviation doub_net :: "icnt \<Rightarrow> bool" where
  "doub_net c \<equiv> ic_net_c c = 2"

subsection \<open>Devices and nodes\<close>

definition node_map_table :: "nat \<Rightarrow> nat list" where
  "node_map_table nodes =
     (if nodes = 4 then [2, 3, 0, 1]
      else if nodes = 16 then [0, 2, 5, 7, 8, 10, 13, 15, 1, 3, 4, 6, 9, 11, 12, 14]
      else if nodes = 36 then
        [2, 4, 7, 9, 13, 15, 17, 18, 20, 22, 26, 28, 31, 33, 1, 3, 8, 10, 12, 14, 16, 19, 21, 23, 25, 27,
         32, 34, 5, 11, 29, 35, 0, 6, 24, 30]
      else if nodes = 64 then
        [0, 1, 2, 4, 5, 6, 7, 8, 9, 10, 11, 12, 13, 14, 16, 18, 19, 20, 21, 22, 23, 24, 25, 26, 27, 28, 30,
         31, 32, 33, 34, 35, 37, 38, 39, 40, 41, 42, 43, 44, 45, 46, 48, 50, 51, 52, 53, 54, 55, 56, 57, 58,
         59, 60, 62, 63, 3, 15, 17, 29, 36, 47, 49, 61]
      else if nodes = 121 then
        [0, 1, 2, 3, 4, 5, 6, 7, 8, 9, 10, 11, 13, 14, 15, 16, 17, 18, 19, 21, 22, 23, 24, 26, 27, 29, 30,
         31, 32, 33, 34, 35, 36, 37, 38, 39, 40, 41, 42, 43, 44, 45, 46, 47, 48, 49, 50, 51, 52, 53, 54, 55,
         56, 58, 59, 61, 62, 64, 65, 66, 67, 68, 69, 70, 71, 72, 73, 74, 75, 76, 77, 78, 79, 80, 81, 82, 83,
         84, 85, 86, 87, 88, 89, 90, 91, 93, 94, 96, 97, 98, 99, 101, 102, 103, 104, 105, 106, 107, 109, 110,
         111, 112, 113, 114, 115, 116, 117, 118, 119, 120, 12, 20, 25, 28, 57, 60, 63, 92, 95, 100, 108]
      else [0 ..< nodes])"

definition create_node_map :: "nat \<Rightarrow> bool \<Rightarrow> nat list" where
  "create_node_map nodes use_map = (if use_map then node_map_table nodes else [0 ..< nodes])"

text \<open>The first device of a node; a node without one keeps its unset entry.\<close>

definition create_reverse_map :: "nat list \<Rightarrow> nat option list" where
  "create_reverse_map nm = map (\<lambda>i. find (\<lambda>j. nm ! j = i) [0 ..< length nm]) [0 ..< length nm]"

definition is_shd :: "icnt \<Rightarrow> nat \<Rightarrow> bool option" where
  "is_shd c node = do { d \<leftarrow> ic_reverse_map c ! node; Some (d < ic_n_shader c) }"

definition is_mem :: "icnt \<Rightarrow> nat \<Rightarrow> bool option" where
  "is_mem c node = do { d \<leftarrow> ic_reverse_map c ! node; Some (\<not> d < ic_n_shader c + ic_n_cpu c) }"

definition is_cpu :: "icnt \<Rightarrow> nat \<Rightarrow> bool option" where
  "is_cpu c node = do { s \<leftarrow> is_shd c node; m \<leftarrow> is_mem c node; Some (\<not> s \<and> \<not> m) }"

subsection \<open>Injection\<close>

definition n_flits :: "nat \<Rightarrow> nat \<Rightarrow> nat option" where
  "n_flits bytes flit_size = do {
     ensure (flit_size \<noteq> 0);
     Some (bytes div flit_size + (if bytes mod flit_size \<noteq> 0 then 1 else 0))
   }"

definition flit_size_cpu :: "icnt \<Rightarrow> nat" where
  "flit_size_cpu c = (ic_flit_size c * ic_ratio c) div 4"

definition flit_size_gpu :: "icnt \<Rightarrow> nat" where
  "flit_size_gpu c = ic_flit_size c - flit_size_cpu c"

text \<open>With four networks both divisions are made; the GPU networks are 0 and 1.\<close>

definition quad_flits :: "icnt \<Rightarrow> nat \<Rightarrow> nat \<Rightarrow> nat option" where
  "quad_flits c bytes k = do {
     g \<leftarrow> n_flits bytes (flit_size_gpu c);
     p \<leftarrow> n_flits bytes (flit_size_cpu c);
     Some (if k < 2 then g else p)
   }"

text \<open>\<open>interconnect_push\<close>: source and destination node, network, \<open>_nets\<close> and number of flits.  With two
  networks \<open>_nets\<close> stays unset between memory nodes; with four that is an \<open>abort()\<close>.\<close>

record packet_route =
  pr_source :: nat
  pr_dest :: nat
  pr_net :: nat
  pr_nets :: nat
  pr_flits :: nat

definition traffic_class :: "icnt \<Rightarrow> nat \<Rightarrow> nat \<Rightarrow> nat option" where
  "traffic_class c input output = do {
     si \<leftarrow> is_shd c input;
     (if si then Some 0
      else do {
        ci \<leftarrow> is_cpu c input;
        (if ci then Some 2
         else do {
           so \<leftarrow> is_shd c output;
           (if so then Some 1
            else do {
              co \<leftarrow> is_cpu c output;
              if co then Some 3 else None }) }) }) }"

definition interconnect_push :: "icnt \<Rightarrow> nat \<Rightarrow> nat \<Rightarrow> nat \<Rightarrow> packet_route option" where
  "interconnect_push c input_node output_node bytes =
     (let output = ic_node_map c ! output_node; input = ic_node_map c ! input_node in
      if ic_net_c c = 1 then do {
        n \<leftarrow> n_flits bytes (ic_flit_size c);
        Some \<lparr>pr_source = input, pr_dest = output, pr_net = 0, pr_nets = 0, pr_flits = n\<rparr> }
      else if doub_net c then do {
        n \<leftarrow> n_flits bytes (ic_flit_size c);
        m \<leftarrow> is_mem c input;
        k \<leftarrow> traffic_class c input output;
        Some \<lparr>pr_source = input, pr_dest = output, pr_net = (if m then 1 else 0), pr_nets = k, pr_flits = n\<rparr> }
      else if quad_net c then do {
        _ \<leftarrow> n_flits bytes (ic_flit_size c);
        k \<leftarrow> traffic_class c input output;
        n \<leftarrow> quad_flits c bytes k;
        Some \<lparr>pr_source = input, pr_dest = output, pr_net = k, pr_nets = k, pr_flits = n\<rparr> }
      else None)"

text \<open>\<open>waiting net node\<close> is the length of \<open>traffic[net]->_partial_packets[node][0]\<close>.\<close>

definition interconnect_has_buffer :: "icnt \<Rightarrow> (nat \<Rightarrow> nat \<Rightarrow> nat) \<Rightarrow> nat \<Rightarrow> nat \<Rightarrow> nat \<Rightarrow> bool option" where
  "interconnect_has_buffer c waiting input_node output_node bytes =
     (let input = ic_node_map c ! input_node; output = ic_node_map c ! output_node;
          room = (\<lambda>net n. waiting net input + n \<le> ic_input_capacity c) in do {
        n \<leftarrow> n_flits bytes (ic_flit_size c);
        (if quad_net c then do {
           k \<leftarrow> traffic_class c input output;
           n \<leftarrow> quad_flits c bytes k;
           Some (room k n) }
         else do {
           m \<leftarrow> is_mem c input;
           Some (if doub_net c \<and> m then room 1 n else ic_net_c c \<le> 2 \<and> room 0 n) }) })"

subsection \<open>\<open>boundary_buf\<close>\<close>

record boundary_buf =
  bb_buf :: "nat list"
  bb_tail :: "bool list"
  bb_packet_n :: int
  bb_capacity :: nat

definition new_boundary_buf :: "nat \<Rightarrow> boundary_buf" where
  "new_boundary_buf cap = \<lparr>bb_buf = [], bb_tail = [], bb_packet_n = 0, bb_capacity = cap\<rparr>"

definition bb_is_full :: "boundary_buf \<Rightarrow> bool" where
  "bb_is_full b \<longleftrightarrow> length (bb_buf b) \<ge> bb_capacity b"

definition bb_has_packet :: "boundary_buf \<Rightarrow> bool" where
  "bb_has_packet b \<longleftrightarrow> bb_packet_n b \<noteq> 0"

definition bb_push_flit_data :: "nat \<Rightarrow> bool \<Rightarrow> boundary_buf \<Rightarrow> boundary_buf" where
  "bb_push_flit_data d is_tail b =
     b\<lparr>bb_buf := bb_buf b @ [d], bb_tail := bb_tail b @ [is_tail],
       bb_packet_n := (if is_tail then bb_packet_n b + 1 else bb_packet_n b)\<rparr>"

text \<open>\<open>while (data==NULL)\<close>: it ends by popping a tail with data, or fails its assertion, or reads the
  front of an empty queue.\<close>

fun bb_pop_loop :: "nat \<Rightarrow> nat list \<Rightarrow> bool list \<Rightarrow> int \<Rightarrow> (nat \<times> nat list \<times> bool list \<times> int) option" where
  "bb_pop_loop temp_d (d # ds) (t # ts) n =
     (let data = (if t then d else 0); n' = (if t then n - 1 else n) in
      if temp_d \<noteq> d then None
      else if data = 0 then bb_pop_loop temp_d ds ts n' else Some (data, ds, ts, n'))"
| "bb_pop_loop temp_d _ _ n = None"

definition bb_pop_packet :: "boundary_buf \<Rightarrow> (nat \<times> boundary_buf) option" where
  "bb_pop_packet b = do {
     ensure (bb_packet_n b \<noteq> 0 \<and> bb_buf b \<noteq> []);
     (d, ds, ts, n) \<leftarrow> bb_pop_loop (hd (bb_buf b)) (bb_buf b) (bb_tail b) (bb_packet_n b);
     Some (d, b\<lparr>bb_buf := ds, bb_tail := ts, bb_packet_n := n\<rparr>)
   }"

subsection \<open>Ejection\<close>

text \<open>The buffers of one output; \<open>ob_credits\<close> are the \<open>credit_return_queue[output]\<close> of the networks.\<close>

record output_bufs =
  ob_ejection :: "flit list list"
  ob_boundary :: "boundary_buf list"
  ob_credits :: "flit list list"
  ob_turn :: nat

definition ejection_bufs :: "icnt \<Rightarrow> nat" where
  "ejection_bufs c = (if quad_net c then 2 * ic_num_vcs c else ic_num_vcs c)"

definition new_output_bufs :: "icnt \<Rightarrow> output_bufs" where
  "new_output_bufs c =
     \<lparr>ob_ejection = replicate (ejection_bufs c) [],
      ob_boundary = replicate (ejection_bufs c) (new_boundary_buf (ic_boundary_capacity c)),
      ob_credits = replicate (ic_net_c c) [], ob_turn = 0\<rparr>"

text \<open>With four networks the assertion looks at queue \<open>vc\<close> while the flit goes to \<open>2*vc\<close> or \<open>2*vc + 1\<close>.\<close>

definition write_out_buf :: "icnt \<Rightarrow> flit \<Rightarrow> output_bufs \<Rightarrow> output_bufs option" where
  "write_out_buf c f o' =
     (let vc = nat (fl_vc f); eb = ob_ejection o' in do {
        ensure (0 \<le> fl_vc f \<and> vc < length eb \<and> length (eb ! vc) < ic_ejection_capacity c);
        k \<leftarrow> (if quad_net c then
                (if fl_net_num f = 0 \<or> fl_net_num f = 1 then Some (2 * vc)
                 else if fl_net_num f = 2 \<or> fl_net_num f = 3 then Some (2 * vc + 1) else None)
              else Some vc);
        ensure (k < length eb);
        Some (o'\<lparr>ob_ejection := eb[k := eb ! k @ [f]]\<rparr>) })"

definition transfer_vc :: "nat \<Rightarrow> nat \<Rightarrow> output_bufs \<Rightarrow> output_bufs option" where
  "transfer_vc output vc o' =
     (case ob_ejection o' ! vc of
        [] \<Rightarrow> Some o'
      | f # fs \<Rightarrow>
          if bb_is_full (ob_boundary o' ! vc) then Some o'
          else do {
            let net = nat (fl_net_num f) in do {
              ensure (0 \<le> fl_net_num f \<and> net < length (ob_credits o'));
              ensure (fl_head f \<longrightarrow> fl_dest f = int output);
              Some (o'\<lparr>ob_ejection := (ob_ejection o')[vc := fs],
                      ob_boundary := (ob_boundary o')[vc := bb_push_flit_data (fl_data f) (fl_tail f) (ob_boundary o' ! vc)],
                      ob_credits := (ob_credits o')[net := ob_credits o' ! net @ [f]]\<rparr>) } })"

definition transfer2boundary_buf :: "icnt \<Rightarrow> nat \<Rightarrow> output_bufs \<Rightarrow> output_bufs option" where
  "transfer2boundary_buf c output o' = fold_opt (transfer_vc output) [0 ..< ejection_bufs c] o'"

text \<open>\<open>interconnect_pop\<close>: at most one turn over the buffers, from \<open>round_robin_turn\<close>.\<close>

fun pop_loop :: "nat \<Rightarrow> nat \<Rightarrow> nat \<Rightarrow> output_bufs \<Rightarrow> (nat \<times> output_bufs) option" where
  "pop_loop bufs 0 turn o' = Some (0, o')"
| "pop_loop bufs (Suc k) turn o' =
     (let next_turn = (if turn + 1 = bufs then 0 else turn + 1) in
      if bb_has_packet (ob_boundary o' ! turn) then do {
        (d, b) \<leftarrow> bb_pop_packet (ob_boundary o' ! turn);
        let o'' = o'\<lparr>ob_boundary := (ob_boundary o')[turn := b]\<rparr> in
        (if d \<noteq> 0 then Some (d, o''\<lparr>ob_turn := next_turn\<rparr>) else pop_loop bufs k next_turn o'') }
      else pop_loop bufs k next_turn o')"

definition interconnect_pop :: "icnt \<Rightarrow> output_bufs \<Rightarrow> (nat \<times> output_bufs) option" where
  "interconnect_pop c o' = pop_loop (ejection_bufs c) (ejection_bufs c) (ob_turn o') o'"

subsection \<open>The node map is a permutation\<close>

lemma below_perm:
  assumes "distinct xs" "list_all (\<lambda>x. x < length xs) xs"
  shows "set xs = {0 ..< length xs}"
proof (rule card_subset_eq)
  show "set xs \<subseteq> {0 ..< length xs}" using assms(2) by (auto simp: list_all_iff)
  show "card (set xs) = card {0 ..< length xs}" using assms(1) by (simp add: distinct_card)
qed simp

lemma node_map_table_perm:
  "n \<in> {4, 16, 36, 64, 121} \<Longrightarrow>
     distinct (node_map_table n) \<and> length (node_map_table n) = n \<and> list_all (\<lambda>x. x < n) (node_map_table n)"
  by (elim insertE; simp add: node_map_table_def)

lemma node_map_perm: "distinct (create_node_map n use_map) \<and> set (create_node_map n use_map) = {0 ..< n} \<and>
    length (create_node_map n use_map) = n"
proof (cases "use_map \<and> n \<in> {4, 16, 36, 64, 121}")
  case True
  then show ?thesis
    using node_map_table_perm[of n] below_perm[of "node_map_table n"] by (auto simp: create_node_map_def)
next
  case False
  then have "create_node_map n use_map = [0 ..< n]" by (auto simp: create_node_map_def node_map_table_def)
  then show ?thesis by simp
qed

lemma reverse_map_inverse:
  assumes "distinct nm" "set nm = {0 ..< length nm}" "d < length nm"
  shows "create_reverse_map nm ! (nm ! d) = Some d"
proof -
  have n: "nm ! d < length nm" using assms(2,3) nth_mem by fastforce
  have "find (\<lambda>j. nm ! j = nm ! d) [0 ..< length nm] \<noteq> None" using assms(3) by (auto simp: find_None_iff)
  then obtain j where j: "find (\<lambda>j. nm ! j = nm ! d) [0 ..< length nm] = Some j" by blast
  then have "j < length nm" "nm ! j = nm ! d" by (auto simp: find_Some_iff)
  then have "j = d" using assms(1,3) by (simp add: nth_eq_iff_index_eq)
  then show ?thesis using j n by (simp add: create_reverse_map_def)
qed

text \<open>With or without \<open>use_map\<close>, every node has one device and \<open>reverse_map\<close> finds it, for the sizes
  that have a table and for the default: a reply that is sent to the node of a device reaches no other.\<close>

theorem node_map_bijective:
  "bij_betw (\<lambda>d. create_node_map n use_map ! d) {0 ..< n} {0 ..< n} \<and>
   map (\<lambda>d. create_reverse_map (create_node_map n use_map) ! (create_node_map n use_map ! d)) [0 ..< n] = map Some [0 ..< n]"
proof
  let ?nm = "create_node_map n use_map"
  have p: "distinct ?nm" "set ?nm = {0 ..< n}" "length ?nm = n" using node_map_perm[of n use_map] by auto
  then show "bij_betw (\<lambda>d. ?nm ! d) {0 ..< n} {0 ..< n}"
    using bij_betw_nth[of ?nm "{0 ..< n}" "{0 ..< n}"] by (simp add: atLeast0LessThan)
  show "map (\<lambda>d. create_reverse_map ?nm ! (?nm ! d)) [0 ..< n] = map Some [0 ..< n]"
    using reverse_map_inverse[OF p(1)] p(2,3) by simp
qed

subsection \<open>Whole packets leave a \<open>boundary_buf\<close>\<close>

fun packets :: "nat list \<Rightarrow> bool list \<Rightarrow> nat list" where
  "packets (d # ds) (t # ts) = (if t then d # packets ds ts else packets ds ts)"
| "packets _ _ = []"

text \<open>Between two tails there is the data of one packet.\<close>

fun whole :: "nat list \<Rightarrow> bool list \<Rightarrow> bool" where
  "whole (d # e # ds) (t # ts) \<longleftrightarrow> (t \<or> d = e) \<and> whole (e # ds) ts"
| "whole _ _ \<longleftrightarrow> True"

definition bb_ok :: "boundary_buf \<Rightarrow> bool" where
  [inv_defs]: "bb_ok b \<longleftrightarrow> length (bb_tail b) = length (bb_buf b) \<and> 0 \<notin> set (bb_buf b) \<and>
     whole (bb_buf b) (bb_tail b) \<and> bb_packet_n b = int (length (packets (bb_buf b) (bb_tail b)))"

lemma whole_tl: "whole (d # ds) (t # ts) \<Longrightarrow> whole ds ts"
  by (cases ds) simp_all

lemma bb_pop_loop_whole:
  assumes "length ts = length ds" "0 \<notin> set ds" "whole ds ts" "packets ds ts = p # ps" "hd ds = temp_d"
  shows "\<exists>ds' ts'. bb_pop_loop temp_d ds ts n = Some (p, ds', ts', n - 1) \<and> length ts' = length ds' \<and>
    0 \<notin> set ds' \<and> whole ds' ts' \<and> packets ds' ts' = ps"
  using assms
proof (induction ds arbitrary: ts n)
  case (Cons d ds)
  then obtain t ts1 where ts: "ts = t # ts1" by (cases ts) auto
  have d: "d = temp_d" "d \<noteq> 0" using Cons.prems by auto
  note w = whole_tl[OF Cons.prems(3)[unfolded ts]]
  show ?case
  proof (cases t)
    case True
    then show ?thesis using Cons.prems d w ts by auto
  next
    case False
    have p: "packets ds ts1 = p # ps" using Cons.prems(4) ts False by simp
    then obtain e ds1 where ds: "ds = e # ds1" by (cases ds) auto
    have "e = temp_d" using Cons.prems(3) ts False ds d by simp
    then have "hd ds = temp_d" using ds by simp
    from Cons.IH[OF _ _ w p this, of n] Cons.prems(1,2) ts show ?thesis using False d by simp
  qed
qed simp

lemma bb_pop_ok:
  assumes "bb_ok b" "packets (bb_buf b) (bb_tail b) = p # ps"
  shows "\<exists>b'. bb_pop_packet b = Some (p, b') \<and> bb_ok b' \<and> packets (bb_buf b') (bb_tail b') = ps"
proof -
  have ok: "length (bb_tail b) = length (bb_buf b)" "0 \<notin> set (bb_buf b)" "whole (bb_buf b) (bb_tail b)"
    "bb_packet_n b = 1 + int (length ps)" using assms by (simp_all add: bb_ok_def)
  from bb_pop_loop_whole[OF ok(1-3) assms(2) refl, of "bb_packet_n b"] obtain ds ts where
    r: "bb_pop_loop (hd (bb_buf b)) (bb_buf b) (bb_tail b) (bb_packet_n b) = Some (p, ds, ts, bb_packet_n b - 1)"
    "length ts = length ds" "0 \<notin> set ds" "whole ds ts" "packets ds ts = ps" by blast
  have "bb_buf b \<noteq> []" using assms(2) by auto
  then have "bb_pop_packet b = Some (p, b\<lparr>bb_buf := ds, bb_tail := ts, bb_packet_n := bb_packet_n b - 1\<rparr>)"
    using r(1) ok(4) by (simp add: bb_pop_packet_def)
  then show ?thesis using r ok(4) by (simp add: bb_ok_def)
qed

interpretation boundary_source: fifo_source bb_ok "\<lambda>b. packets (bb_buf b) (bb_tail b)" bb_has_packet bb_pop_packet
proof unfold_locales
  show "bb_has_packet b \<longleftrightarrow> packets (bb_buf b) (bb_tail b) \<noteq> []" if "bb_ok b" for b
    using that by (simp add: bb_has_packet_def bb_ok_def)
qed (rule bb_pop_ok)

lemma packets_append:
  "length ts = length ds \<Longrightarrow> packets (ds @ [d]) (ts @ [t]) = packets ds ts @ (if t then [d] else [])"
  by (induction ds ts rule: list_induct2') auto

lemma whole_append:
  "length ts = length ds \<Longrightarrow> whole ds ts \<Longrightarrow> (ds \<noteq> [] \<longrightarrow> last ts \<or> last ds = d) \<Longrightarrow> whole (ds @ [d]) (ts @ [t])"
proof (induction ds ts rule: whole.induct)
  case (1 d' e ds t' ts)
  then show ?case by (cases ts) auto
qed (auto split: list.splits simp: neq_Nil_conv length_Suc_conv)

lemma bb_push_ok:
  assumes "bb_ok b" "d \<noteq> 0" "bb_buf b \<noteq> [] \<longrightarrow> last (bb_tail b) \<or> last (bb_buf b) = d"
  shows "bb_ok (bb_push_flit_data d t b) \<and>
    packets (bb_buf (bb_push_flit_data d t b)) (bb_tail (bb_push_flit_data d t b)) =
      packets (bb_buf b) (bb_tail b) @ (if t then [d] else [])"
  using assms whole_append[of "bb_tail b" "bb_buf b" d t]
  by (auto simp: bb_push_flit_data_def bb_ok_def packets_append)

text \<open>A packet of \<open>n\<close> flits arrives: only the last is its tail.\<close>

definition push_flits :: "nat \<Rightarrow> nat \<Rightarrow> boundary_buf \<Rightarrow> boundary_buf" where
  "push_flits d n b = fold (\<lambda>i. bb_push_flit_data d (i + 1 = n)) [0 ..< n] b"

definition between_packets :: "boundary_buf \<Rightarrow> bool" where
  "between_packets b \<longleftrightarrow> bb_ok b \<and> (bb_buf b \<noteq> [] \<longrightarrow> last (bb_tail b))"

lemma push_body:
  assumes "between_packets b" "d \<noteq> 0" "k \<le> n" "n \<noteq> 0"
  shows "let b' = fold (\<lambda>i. bb_push_flit_data d (i + 1 = n)) [0 ..< k] b in
    bb_ok b' \<and> (bb_buf b' \<noteq> [] \<longrightarrow> last (bb_tail b') \<or> last (bb_buf b') = d) \<and>
    (k = n \<longrightarrow> bb_buf b' \<noteq> [] \<and> last (bb_tail b')) \<and>
    packets (bb_buf b') (bb_tail b') = packets (bb_buf b) (bb_tail b) @ (if k = n then [d] else [])"
  using assms(3)
proof (induction k)
  case 0
  then show ?case using assms(1,4) by (auto simp: between_packets_def)
next
  case (Suc k)
  define b1 where "b1 = fold (\<lambda>i. bb_push_flit_data d (i + 1 = n)) [0 ..< k] b"
  have IH: "bb_ok b1" "bb_buf b1 \<noteq> [] \<longrightarrow> last (bb_tail b1) \<or> last (bb_buf b1) = d"
    "packets (bb_buf b1) (bb_tail b1) = packets (bb_buf b) (bb_tail b)"
    using Suc by (auto simp: b1_def Let_def)
  let ?b = "bb_push_flit_data d (k + 1 = n) b1"
  have step: "fold (\<lambda>i. bb_push_flit_data d (i + 1 = n)) [0 ..< Suc k] b = ?b" by (simp add: b1_def)
  have "bb_ok ?b" "packets (bb_buf ?b) (bb_tail ?b) = packets (bb_buf b) (bb_tail b) @ (if Suc k = n then [d] else [])"
    using bb_push_ok[OF IH(1) assms(2) IH(2), of "k + 1 = n"] IH(3) by auto
  moreover have "last (bb_buf ?b) = d" "bb_buf ?b \<noteq> []" "last (bb_tail ?b) \<longleftrightarrow> Suc k = n"
    by (simp_all add: bb_push_flit_data_def)
  ultimately show ?case unfolding step Let_def by blast
qed

lemma push_flits_ok:
  assumes "between_packets b" "d \<noteq> 0" "n \<noteq> 0"
  shows "between_packets (push_flits d n b) \<and>
    packets (bb_buf (push_flits d n b)) (bb_tail (push_flits d n b)) = packets (bb_buf b) (bb_tail b) @ [d]"
  using push_body[OF assms(1,2) order_refl assms(3)]
  by (simp add: push_flits_def between_packets_def Let_def)

text \<open>C32: what goes in as flits comes out as packets: after the flits of any sequence of packets, each with
  data and at least one flit, \<open>pop_packet\<close> returns the data of the packets in their order, once each, and
  then there is no packet left.\<close>

theorem boundary_buf_roundtrip:
  assumes "\<forall>p \<in> set ps. fst p \<noteq> 0 \<and> snd p \<noteq> 0"
  shows "\<exists>b. drain bb_pop_packet (length ps) (fold (\<lambda>p. push_flits (fst p) (snd p)) ps (new_boundary_buf cap)) =
      Some (map fst ps, b) \<and> \<not> bb_has_packet b"
proof -
  have "between_packets (fold (\<lambda>p. push_flits (fst p) (snd p)) ps b) \<and>
      packets (bb_buf (fold (\<lambda>p. push_flits (fst p) (snd p)) ps b))
        (bb_tail (fold (\<lambda>p. push_flits (fst p) (snd p)) ps b)) = packets (bb_buf b) (bb_tail b) @ map fst ps"
    if "between_packets b" for b
    using assms that
  proof (induction ps arbitrary: b)
    case (Cons p ps)
    from push_flits_ok[OF Cons.prems(2), of "fst p" "snd p"] Cons.prems(1)
    have "between_packets (push_flits (fst p) (snd p) b)"
      "packets (bb_buf (push_flits (fst p) (snd p) b)) (bb_tail (push_flits (fst p) (snd p) b)) =
       packets (bb_buf b) (bb_tail b) @ [fst p]" by auto
    then show ?case using Cons.IH[of "push_flits (fst p) (snd p) b"] Cons.prems(1) by simp
  qed simp
  from this[of "new_boundary_buf cap"] boundary_source.drain_all
  show ?thesis by (force simp: between_packets_def new_boundary_buf_def bb_ok_def)
qed

theorem boundary_buf_roundtrip_witness:
  "\<exists>b. drain bb_pop_packet 3 (push_flits 4 1 (push_flits 4 5 (push_flits 7 2 (new_boundary_buf 16)))) =
     Some ([7, 4, 4], b)"
  using boundary_buf_roundtrip[of "[(7, 2), (4, 5), (4, 1)]" 16] by (auto simp: numeral_3_eq_3)

text \<open>With four networks \<open>write_out_buf\<close> tests the room of another queue than the one it fills: a flit
  of the CPU network is taken although its queue is at \<open>ejection_buf_size\<close>, and a flit of channel 1 is
  refused (the simulator stops) although its queue is empty.\<close>

theorem write_out_buf_wrong_queue:
  assumes "quad_net c" "0 < ic_ejection_capacity c"
  shows "(\<exists>f ob ob'. write_out_buf c f ob = Some ob' \<and> length (ob_ejection ob ! (2 * nat (fl_vc f) + 1)) = ic_ejection_capacity c \<and>
      length (ob_ejection ob' ! (2 * nat (fl_vc f) + 1)) = ic_ejection_capacity c + 1) \<and>
    (\<exists>f ob. write_out_buf c f ob = None \<and> fl_vc f = 1 \<and> fl_net_num f = 0 \<and> ob_ejection ob ! 2 = [])"
proof (intro conjI)
  let ?f = "\<lambda>vc net. \<lparr>fl_data = 1, fl_net_num = net, fl_vc = vc, fl_head = True, fl_tail = True,
    fl_true_tail = True, fl_time = 0, fl_sn = 0, fl_rob_time = 0, fl_id = 0, fl_record = False, fl_src = 0, fl_dest = 0, fl_pri = 0,
    fl_hops = 0, fl_watch = False, fl_intm = 0, fl_ph = 0, fl_dr = 0, fl_ring_par = 0, fl_FlitsSta = net\<rparr>"
  let ?full = "replicate (ic_ejection_capacity c) (?f 0 2)"
  let ?ob = "\<lparr>ob_ejection = [[], ?full, [], []], ob_boundary = [], ob_credits = [], ob_turn = 0\<rparr>"
  have "write_out_buf c (?f 0 2) ?ob = Some (?ob\<lparr>ob_ejection := [[], ?full @ [?f 0 2], [], []]\<rparr>)"
    using assms by (simp add: write_out_buf_def)
  then show "\<exists>f ob ob'. write_out_buf c f ob = Some ob' \<and> length (ob_ejection ob ! (2 * nat (fl_vc f) + 1)) = ic_ejection_capacity c \<and>
      length (ob_ejection ob' ! (2 * nat (fl_vc f) + 1)) = ic_ejection_capacity c + 1"
    by (intro exI[of _ "?f 0 2"] exI[of _ ?ob] exI conjI) (assumption, simp_all)
  have "write_out_buf c (?f 1 0) ?ob = None" by (simp add: write_out_buf_def)
  then show "\<exists>f ob. write_out_buf c f ob = None \<and> fl_vc f = 1 \<and> fl_net_num f = 0 \<and> ob_ejection ob ! 2 = []"
    by (intro exI[of _ "?f 1 0"] exI[of _ ?ob]) simp
qed

theorem write_out_buf_wrong_queue_witness:
  "\<exists>f ob ob'. write_out_buf \<lparr>ic_net_c = 4, ic_flit_size = 32, ic_ratio = 2, ic_num_vcs = 2, ic_input_capacity = 8,
       ic_ejection_capacity = 3, ic_boundary_capacity = 8, ic_n_shader = 1, ic_n_cpu = 1, ic_node_map = [2, 3, 0, 1],
       ic_reverse_map = create_reverse_map [2, 3, 0, 1]\<rparr> f ob = Some ob' \<and> length (ob_ejection ob' ! (2 * nat (fl_vc f) + 1)) = 4"
  using conjunct1[OF write_out_buf_wrong_queue[of "\<lparr>ic_net_c = 4, ic_flit_size = 32, ic_ratio = 2, ic_num_vcs = 2, ic_input_capacity = 8,
       ic_ejection_capacity = 3, ic_boundary_capacity = 8, ic_n_shader = 1, ic_n_cpu = 1, ic_node_map = [2, 3, 0, 1],
       ic_reverse_map = create_reverse_map [2, 3, 0, 1]\<rparr>"]] by fastforce

end
