(* ===== verification/BypassNet.thy ===== *)
theory BypassNet
  imports Topology Routing IcntInterface AddrDec
begin

text \<open>
  The heterogeneous system of \<open>configs/GTX480\<close> put together: 14 shader clusters, 14 CPUs and 8 memory
  partitions on the 36 nodes of \<open>KNCube\<close>, the node map, the dimension order routing (X first for requests,
  Y first for replies) and the address decoder that picks the memory partition.

  \<open>next_port\<close> is the output a routing function sends a flit to; \<open>deliver\<close> (\<open>Topology\<close>) follows it
  from router to router over the channels of the topology.
\<close>

text \<open>\<open>mem2device\<close> and \<open>cpu2device\<close>.\<close>

definition mem2device :: "icnt \<Rightarrow> nat \<Rightarrow> nat" where
  "mem2device c memid = memid + ic_n_shader c + ic_n_cpu c"

definition cpu2device :: "icnt \<Rightarrow> nat \<Rightarrow> nat" where
  "cpu2device c cpuid = ic_n_shader c + cpuid"

subsection \<open>The cube of 36 nodes\<close>

lemma neighbours_inverse:
  assumes "u < 36" "d < 2"
  shows "left_node (the (right_node u d)) d = Some u" "right_node (the (left_node u d)) d = Some u"
    "the (right_node u d) < 36" "the (left_node u d) < 36" "right_node u d = Some (the (right_node u d))"
    "left_node u d = Some (the (left_node u d))"
proof -
  have "list_all (\<lambda>d. list_all (\<lambda>u. left_node (the (right_node u d)) d = Some u \<and>
      right_node (the (left_node u d)) d = Some u \<and> the (right_node u d) < 36 \<and> the (left_node u d) < 36)
      [0 ..< 36]) [0, 1]"
    by code_simp
  then show "left_node (the (right_node u d)) d = Some u" "right_node (the (left_node u d)) d = Some u"
    "the (right_node u d) < 36" "the (left_node u d) < 36"
    using assms by (auto simp: list_all_iff less_2_cases_iff)
  show "right_node u d = Some (the (right_node u d))" "left_node u d = Some (the (left_node u d))"
    using assms by (auto simp: right_node_def left_node_def less_2_cases_iff)
qed

lemma cube_size [simp]: "w_size (cube 6 2) = 36" "w_in (cube 6 2) = cube_inputs 2" "w_out (cube 6 2) = cube_outputs 2"
  by (simp_all add: cube_def)

lemma cube_inputs_2:
  assumes "v < 36"
  shows "cube_inputs 2 v = Some [Chan (left_channel 2 (the (right_node v 0)) 0), Chan (right_channel 2 (the (left_node v 0)) 0),
    Chan (left_channel 2 (the (right_node v 1)) 1), Chan (right_channel 2 (the (left_node v 1)) 1), Inject v]"
proof -
  have "right_node v 0 = Some (the (right_node v 0))" "left_node v 0 = Some (the (left_node v 0))"
    "right_node v 1 = Some (the (right_node v 1))" "left_node v 1 = Some (the (left_node v 1))"
    using assms neighbours_inverse(5,6)[of v] by auto
  then obtain a b c d where "right_node v 0 = Some a" "left_node v 0 = Some b" "right_node v 1 = Some c" "left_node v 1 = Some d"
    by metis
  then show ?thesis by (simp add: cube_inputs_def upt_rec)
qed

lemma cube_outputs_2:
  "cube_outputs 2 u = Some [Chan (right_channel 2 u 0), Chan (left_channel 2 u 0),
     Chan (right_channel 2 u 1), Chan (left_channel 2 u 1), Eject u]"
  by (simp add: cube_outputs_def upt_rec)

text \<open>The router a channel of the cube leads to.\<close>

definition channel_sink :: "nat \<Rightarrow> nat" where
  "channel_sink c = the (if even c then right_node (c div 4) (c mod 4 div 2) else left_node (c div 4) (c mod 4 div 2))"

lemma channel_sink_eq:
  "u < 36 \<Longrightarrow> d < 2 \<Longrightarrow> channel_sink (right_channel 2 u d) = the (right_node u d)"
  "u < 36 \<Longrightarrow> d < 2 \<Longrightarrow> channel_sink (left_channel 2 u d) = the (left_node u d)"
proof -
  have q: "(4 * u + k) div 4 = u" "(4 * u + k) mod 4 = k" "even (4 * u + k) \<longleftrightarrow> even k" if "k < 4" for k
    using that by auto
  have c: "right_channel 2 u d = 4 * u + 2 * d" "left_channel 2 u d = 4 * u + (2 * d + 1)"
    by (simp_all add: right_channel_def left_channel_def)
  show "u < 36 \<Longrightarrow> d < 2 \<Longrightarrow> channel_sink (right_channel 2 u d) = the (right_node u d)"
    unfolding channel_sink_def c using q[of "2 * d"] by simp
  show "u < 36 \<Longrightarrow> d < 2 \<Longrightarrow> channel_sink (left_channel 2 u d) = the (left_node u d)"
    unfolding channel_sink_def c using q[of "2 * d + 1"] by simp
qed

lemma cube_reader:
  assumes "v < 36" "cube_inputs 2 v = Some l" "Chan c \<in> set l"
  shows "channel_sink c = v"
proof -
  note I0 = neighbours_inverse[OF assms(1), of 0] and I1 = neighbours_inverse[OF assms(1), of 1]
  have "c \<in> {left_channel 2 (the (right_node v 0)) 0, right_channel 2 (the (left_node v 0)) 0,
      left_channel 2 (the (right_node v 1)) 1, right_channel 2 (the (left_node v 1)) 1}"
    using assms(2,3) cube_inputs_2[OF assms(1)] by auto
  then show ?thesis using I0 I1 channel_sink_eq by auto
qed

interpretation cube_net: wired "cube 6 2"
proof unfold_locales
  fix u v l m c
  assume a: "u < w_size (cube 6 2)" "v < w_size (cube 6 2)" "w_in (cube 6 2) u = Some l" "w_in (cube 6 2) v = Some m"
    "Chan c \<in> set l" "Chan c \<in> set m"
  then have "channel_sink c = u" by (intro cube_reader[of u l c]) simp_all
  moreover have "channel_sink c = v" using a by (intro cube_reader[of v m c]) simp_all
  ultimately show "u = v" by simp
qed

definition neighbour :: "nat \<Rightarrow> nat \<Rightarrow> nat" where
  "neighbour p u = the (if even p then right_node u (p div 2) else left_node u (p div 2))"

lemma neighbour_less: "u < 36 \<Longrightarrow> p < 4 \<Longrightarrow> neighbour p u < 36"
proof -
  assume a: "u < 36" "p < 4"
  then have "p div 2 < 2" by auto
  then show ?thesis using neighbours_inverse(3,4)[OF a(1), of "p div 2"] by (simp add: neighbour_def)
qed

lemma cube_hop:
  assumes "u < 36" "port u = Some p" "p < 4"
  shows "router_hop (cube 6 2) port u = Some (neighbour p u)"
proof -
  let ?out = "[Chan (right_channel 2 u 0), Chan (left_channel 2 u 0), Chan (right_channel 2 u 1),
    Chan (left_channel 2 u 1), Eject u]"
  let ?v = "neighbour p u"
  have out: "w_out (cube 6 2) u = Some ?out" by (simp add: cube_outputs_2)
  let ?c = "if even p then right_channel 2 u (p div 2) else left_channel 2 u (p div 2)"
  have "p = 0 \<or> p = 1 \<or> p = 2 \<or> p = 3" using assms(3) by auto
  then have c: "?out ! p = Chan ?c" by (elim disjE) simp_all
  have v: "?v < 36" by (rule neighbour_less[OF assms(1,3)])
  have d: "p div 2 < 2" using assms(3) by auto
  note I = neighbours_inverse[OF assms(1) d]
  have "Chan ?c \<in> set [Chan (left_channel 2 (the (right_node ?v 0)) 0), Chan (right_channel 2 (the (left_node ?v 0)) 0),
    Chan (left_channel 2 (the (right_node ?v 1)) 1), Chan (right_channel 2 (the (left_node ?v 1)) 1), Inject ?v]"
    using I d by (auto simp: neighbour_def less_2_cases_iff)
  from cube_net.receiver_eq[OF _ _ this] v cube_inputs_2[OF v] have "receiver (cube 6 2) ?c = Some ?v" by simp
  with assms c out show ?thesis by (simp add: router_hop_def)
qed

lemma cube_deliver:
  assumes "u < 36" "port u = Some p"
  shows "p < 4 \<Longrightarrow> deliver (cube 6 2) port (Suc fuel) u = map_option (apsnd Suc) (deliver (cube 6 2) port fuel (neighbour p u))"
    "p = 4 \<Longrightarrow> deliver (cube 6 2) port (Suc fuel) u = Some (u, 0)"
proof -
  let ?out = "[Chan (right_channel 2 u 0), Chan (left_channel 2 u 0), Chan (right_channel 2 u 1),
    Chan (left_channel 2 u 1), Eject u]"
  have out: "w_out (cube 6 2) u = Some ?out" by (simp add: cube_outputs_2)
  show "p = 4 \<Longrightarrow> deliver (cube 6 2) port (Suc fuel) u = Some (u, 0)"
    using deliver_eject[where port = port and p = p and out = ?out and d = u, OF assms(2) out] by simp
  show "p < 4 \<Longrightarrow> deliver (cube 6 2) port (Suc fuel) u = map_option (apsnd Suc) (deliver (cube 6 2) port fuel (neighbour p u))"
    by (rule deliver_hop_None[OF cube_hop[where port = port, OF assms]])
qed

subsection \<open>Dimension order routing on the cube\<close>

lemma sdiv_6: "int a sdiv 6 = int (a div 6)" "int a smod 6 = int (a mod 6)"
  using sdiv_nat[of a 6] by simp_all

definition bypass_port :: "bool \<Rightarrow> nat \<Rightarrow> nat \<Rightarrow> nat" where
  "bypass_port yx dest u =
     (let x = (if u mod 6 < dest mod 6 then Some 0 else if u mod 6 > dest mod 6 then Some 1 else None);
          y = (if u div 6 < dest div 6 then Some 2 else if u div 6 > dest div 6 then Some 3 else None) in
      case (if yx then y else x) of Some p \<Rightarrow> p
      | None \<Rightarrow> (case (if yx then x else y) of Some p \<Rightarrow> p | None \<Rightarrow> 4))"

lemma bypass_port_le: "bypass_port yx d u \<le> 4"
  by (auto simp: bypass_port_def Let_def split: option.splits if_splits)

lemma mod_div_6_eq: "u mod 6 = d mod 6 \<Longrightarrow> u div 6 = d div 6 \<Longrightarrow> u = (d :: nat)"
  by (metis div_mult_mod_eq)

lemma dor_next_36:
  assumes "g_k g = 6" "g_n g = 2" "u < 36" "d < 36" "sta < 4"
  shows "dor_next_mesh g (int u) (int d) (int sta) = Some (int (bypass_port (odd sta) d u))"
proof -
  have lt: "u div 6 < 6" "d div 6 < 6" using assms(3,4) by auto
  have "sta = 0 \<or> sta = 2 \<or> sta = 1 \<or> sta = 3" using assms(5) by auto
  moreover have ?thesis if s: "sta = 0 \<or> sta = 2"
  proof -
    have o': "\<not> odd sta" "int sta = 0 \<or> int sta = 2" using s by auto
    have "dim_left_loop 6 2 0 (int u) (int d) =
        (if u mod 6 \<noteq> d mod 6 then (0, int u, int d)
         else if u div 6 \<noteq> d div 6 then (1, int (u div 6), int (d div 6)) else (2, int (u div 36), int (d div 36)))"
      using lt by (simp add: numeral_2_eq_2 sdiv_6 div_mult2_eq[symmetric])
    then show ?thesis
      using o' assms(1,2) lt by (auto simp: dor_next_mesh_def dor_port_def bypass_port_def sdiv_6 Let_def)
  qed
  moreover have ?thesis if s: "sta = 1 \<or> sta = 3"
  proof -
    have o': "odd sta" "\<not> (int sta = 0 \<or> int sta = 2)" "int sta = 1 \<or> int sta = 3" using s by auto
    show ?thesis
      using o' assms(1,2) lt mod_div_6_eq[of u d]
      by (auto simp: dor_next_mesh_def dor_port_def bypass_port_def sdiv_6 Let_def)
  qed
  ultimately show ?thesis by blast
qed

definition route_vcs :: "route_globals \<Rightarrow> flit \<Rightarrow> int" where
  "route_vcs g f = (if fl_net_num f sdiv 2 \<noteq> 0 then g_num_vcs_cpu g else g_num_vcs_gpu g)"

lemma next_port_dim_order:
  assumes "g_k g = 6" "g_n g = 2" "0 < route_vcs g f" "u < 36" "fl_dest f = int d" "d < 36"
    "fl_FlitsSta f = int sta" "sta < 4"
  shows "next_port 5 dim_order_mesh g f u = Some (bypass_port (odd sta) d u)"
proof -
  let ?p = "bypass_port (odd sta) d u" and ?vcs = "route_vcs g f" and ?r = "\<lparr>rv_id = int u, rv_faults = []\<rparr>"
  let ?e = "\<lparr>se_vc_start = 0, se_vc_end = ?vcs - 1, se_pri = 0\<rparr>"
  let ?os = "(replicate 5 [])[?p := [?e, ?e]]"
  have p: "?p < 5" using bypass_port_le[of "odd sta" d u] by simp
  have c: "os_clear (new_output_set 5) = replicate 5 []" by (simp add: os_clear_def new_output_set_def)
  have a1: "os_add_range0 (int ?p) 0 (?vcs - 1) (replicate 5 []) = Some ((replicate 5 [])[?p := [?e]])"
    using p assms(3) by (simp add: os_add_range_def os_port_def)
  have a2: "os_add_range0 (int ?p) 0 (?vcs - 1) ((replicate 5 [])[?p := [?e]]) = Some ?os"
    using p assms(3) by (simp add: os_add_range_def os_port_def)
  have "dim_order_mesh g ?r (\<lambda>_. 0) False f 0 (new_output_set 5) = Some (f, ?os)"
    using dor_next_36[OF assms(1,2,4,6,8)] assms(5,7) a1 a2
    by (simp add: dim_order_mesh_def c Let_def flip: route_vcs_def)
  then have "next_port 5 dim_order_mesh g f u = find (\<lambda>p. ?os ! p \<noteq> []) [0 ..< 5]"
    by (simp add: next_port_def)
  also have "\<dots> = Some ?p" by (rule find_single[OF p]) simp
  finally show ?thesis .
qed

fun hops :: "bool \<Rightarrow> nat \<Rightarrow> nat \<Rightarrow> nat \<Rightarrow> nat option" where
  "hops yx dest 0 u = None"
| "hops yx dest (Suc fuel) u =
     (let p = bypass_port yx dest u in
      if p = 4 then Some 0 else map_option Suc (hops yx dest fuel (neighbour p u)))"

lemma bypass_port_4: "u < 36 \<Longrightarrow> d < 36 \<Longrightarrow> bypass_port yx d u = 4 \<Longrightarrow> u = d"
  using mod_div_6_eq[of u d] by (auto simp: bypass_port_def Let_def split: if_splits)

lemma deliver_hops:
  assumes "g_k g = 6" "g_n g = 2" "0 < route_vcs g f" "fl_dest f = int d" "d < 36" "fl_FlitsSta f = int sta" "sta < 4"
    "u < 36"
  shows "deliver (cube 6 2) (next_port 5 dim_order_mesh g f) fuel u = map_option (Pair d) (hops (odd sta) d fuel u)"
  using assms(8)
proof (induction fuel arbitrary: u)
  case (Suc fuel)
  let ?p = "bypass_port (odd sta) d u"
  have n: "next_port 5 dim_order_mesh g f u = Some ?p" by (rule next_port_dim_order[OF assms(1-3) Suc.prems assms(4-7)])
  show ?case
  proof (cases "?p = 4")
    case True
    then show ?thesis
      using cube_deliver(2)[where port = "next_port 5 dim_order_mesh g f", OF Suc.prems n] bypass_port_4[OF Suc.prems assms(5) True] by (simp del: deliver.simps)
  next
    case False
    then have p: "?p < 4" using bypass_port_le[of "odd sta" d u] by simp
    show ?thesis
      using cube_deliver(1)[where port = "next_port 5 dim_order_mesh g f", OF Suc.prems n p, of fuel] Suc.IH[OF neighbour_less[OF Suc.prems p]] False
      by (cases "hops (odd sta) d fuel (neighbour ?p u)") (simp_all add: Let_def del: deliver.simps)
  qed
qed simp

lemma hops_less: "hops yx d fuel u = Some h \<Longrightarrow> h < fuel"
  by (induction fuel arbitrary: u h) (auto simp: Let_def split: if_splits)

subsection \<open>The devices of the heterogeneous system\<close>

definition hetero :: "icnt \<Rightarrow> bool" where
  "hetero c \<longleftrightarrow> ic_n_shader c = 14 \<and> ic_n_cpu c = 14 \<and> (doub_net c \<or> quad_net c) \<and>
     ic_node_map c = create_node_map 36 True \<and> ic_reverse_map c = create_reverse_map (ic_node_map c)"

definition node_of :: "nat \<Rightarrow> nat" where
  "node_of dev = create_node_map 36 True ! dev"

lemma node_of_less: "dev < 36 \<Longrightarrow> node_of dev < 36"
  using node_map_perm[of 36 True] nth_mem[of dev "create_node_map 36 True"] by (auto simp: node_of_def)

lemma hetero_kinds:
  assumes "hetero c" "dev < 36"
  shows "is_shd c (node_of dev) = Some (dev < 14)" "is_mem c (node_of dev) = Some (\<not> dev < 28)"
    "is_cpu c (node_of dev) = Some (14 \<le> dev \<and> dev < 28)"
proof -
  have "ic_reverse_map c ! node_of dev = Some dev"
    using assms node_map_perm[of 36 True] reverse_map_inverse[of "create_node_map 36 True" dev]
    by (simp add: hetero_def node_of_def)
  then show "is_shd c (node_of dev) = Some (dev < 14)" "is_mem c (node_of dev) = Some (\<not> dev < 28)"
    "is_cpu c (node_of dev) = Some (14 \<le> dev \<and> dev < 28)"
    using assms(1) by (auto simp: is_shd_def is_mem_def is_cpu_def hetero_def)
qed

lemma hetero_push:
  assumes "hetero c" "i < 36" "j < 36" "interconnect_push c i j bytes = Some r"
  shows "pr_source r = node_of i" "pr_dest r = node_of j"
    "pr_nets r = (if i < 14 then 0 else if i < 28 then 2 else if j < 14 then 1 else 3)"
proof -
  have m: "ic_node_map c ! i = node_of i" "ic_node_map c ! j = node_of j" using assms(1) by (simp_all add: hetero_def node_of_def)
  note K = hetero_kinds[OF assms(1,2)] hetero_kinds[OF assms(1,3)]
  have k: "traffic_class c (node_of i) (node_of j) = Some k \<Longrightarrow>
      k = (if i < 14 then 0 else if i < 28 then 2 else if j < 14 then 1 else 3)" for k
    using K by (auto simp: traffic_class_def split: if_splits)
  have "\<exists>k. traffic_class c (node_of i) (node_of j) = Some k \<and> pr_source r = node_of i \<and> pr_dest r = node_of j \<and> pr_nets r = k"
    using assms(1,4) unfolding interconnect_push_def Let_def m hetero_def by (auto elim!: bind_SomeE split: if_splits)
  then show "pr_source r = node_of i" "pr_dest r = node_of j"
    "pr_nets r = (if i < 14 then 0 else if i < 28 then 2 else if j < 14 then 1 else 3)" using k by auto
qed

text \<open>The partitions the GPU is given are at nodes 5, 11, 29 and 35, those of the CPUs at 0, 6, 24 and 30.\<close>

lemma gpu_paths:
  assumes "dev < 14" "28 \<le> mem" "mem < 32"
  shows "hops False (node_of mem) 9 (node_of dev) \<noteq> None" "hops True (node_of dev) 9 (node_of mem) \<noteq> None"
proof -
  have "list_all (\<lambda>s. list_all (\<lambda>d. hops False (node_of d) 9 (node_of s) \<noteq> None) [28, 29, 30, 31]) [0 ..< 14]"
    "list_all (\<lambda>s. list_all (\<lambda>d. hops True (node_of s) 9 (node_of d) \<noteq> None) [28, 29, 30, 31]) [0 ..< 14]"
    by code_simp+
  moreover have "mem \<in> set [28, 29, 30, 31]" using assms(2,3) by auto
  ultimately show "hops False (node_of mem) 9 (node_of dev) \<noteq> None" "hops True (node_of dev) 9 (node_of mem) \<noteq> None"
    using assms(1) unfolding list_all_iff by (metis atLeastLessThan_iff le0 set_upt)+
qed

lemma cpu_paths:
  assumes "14 \<le> dev" "dev < 28" "32 \<le> mem" "mem < 36"
  shows "hops False (node_of mem) 9 (node_of dev) \<noteq> None" "hops True (node_of dev) 9 (node_of mem) \<noteq> None"
proof -
  have "list_all (\<lambda>s. list_all (\<lambda>d. hops False (node_of d) 9 (node_of s) \<noteq> None) [32, 33, 34, 35]) [14 ..< 28]"
    "list_all (\<lambda>s. list_all (\<lambda>d. hops True (node_of s) 9 (node_of d) \<noteq> None) [32, 33, 34, 35]) [14 ..< 28]"
    by code_simp+
  moreover have "mem \<in> set [32, 33, 34, 35]" using assms(3,4) by auto
  ultimately show "hops False (node_of mem) 9 (node_of dev) \<noteq> None" "hops True (node_of dev) 9 (node_of mem) \<noteq> None"
    using assms(1,2) unfolding list_all_iff by (metis atLeastLessThan_iff set_upt)+
qed

lemma part_chip_of:
  assumes "am_init 8 k opt (new_addr_map w True) = Some m" "0 < unat w" "unat w < 8" "addrdec_tlx m a gpu = Some t"
  shows "if gpu then unat (tlx_chip t) < unat w else unat w \<le> unat (tlx_chip t) \<and> unat (tlx_chip t) < 8"
proof -
  note L = am_init_limits[OF assms(1)]
  have m: "am_nchips m = int 8" "am_dram_part m" "am_gpu_chip_weight m = w"
    using L by (simp_all add: new_addr_map_def)
  have "am_gap m = 0" using assms(1) LOGB2_8
    by (auto simp: am_init_def Let_def set_limits_def addrdec_parseoption_def apply_address_mask_def
        split: if_splits option.splits prod.splits elim!: bind_SomeE)
  then have t: "part_chip m a gpu = Some (tlx_chip t)" using assms(4) m(2) by (auto simp: addrdec_tlx_def elim!: bind_SomeE)
  then have "0 \<le> am_chip_s m \<and> am_chip_s m < 64" by (simp add: part_chip_def Let_def split: if_splits)
  from part_chip_range[OF this m(1), of "unat w" a gpu] m(3) assms(2,3) t show ?thesis by auto
qed

lemma hops_deliver:
  assumes "g_k g = 6" "g_n g = 2" "0 < route_vcs g f" "fl_dest f = int d" "d < 36" "fl_FlitsSta f = int sta" "sta < 4"
    "u < 36" "hops (odd sta) d 9 u \<noteq> None"
  shows "\<exists>h \<le> 8. deliver (cube 6 2) (next_port 5 dim_order_mesh g f) 9 u = Some (d, h)"
proof -
  obtain h where h: "hops (odd sta) d 9 u = Some h" using assms(9) by blast
  then have "h \<le> 8" using hops_less by fastforce
  then show ?thesis using deliver_hops[OF assms(1-8), of 9] h by auto
qed

text \<open>C2: requests and replies arrive.  With a \<open>gpu_chip_weight\<close> \<open>w\<close> of 1 to 7, which gives the GPU the first \<open>w\<close> of the
  eight partitions and the CPUs the others, the request of any cluster, when \<open>w\<close> is at most 4, and of any CPU, when \<open>w\<close> is
  at least 4, for any address crosses the network in at most 8 hops to the partition that holds the address, and the
  reply returns to the device that asked in at most 8: the hand-written rings of \<open>KNCube\<close>, X before Y for requests and
  Y before X for replies, and the node map agree.  So with the default weight 4 this holds for every device; with
  the weight 1 that is shipped it holds for the GPU only.\<close>

theorem hetero_memory_roundtrip:
  assumes "hetero c" "am_init 8 k opt (new_addr_map w True) = Some m" "0 < unat w" "unat w < 8"
    "if dev < 14 then unat w \<le> 4 else 4 \<le> unat w" "dev < 28"
    "addrdec_tlx m a (dev < 14) = Some t" "mem = mem2device c (unat (tlx_chip t))"
    "interconnect_push c dev mem bytes = Some rq" "interconnect_push c mem dev bytes' = Some rp"
    "g_k g = 6" "g_n g = 2"
    "fl_dest f = int (pr_dest rq)" "fl_FlitsSta f = int (pr_nets rq)" "0 < route_vcs g f"
    "fl_dest f' = int (pr_dest rp)" "fl_FlitsSta f' = int (pr_nets rp)" "0 < route_vcs g f'"
  shows "(\<exists>h \<le> 8. deliver (cube 6 2) (next_port 5 dim_order_mesh g f) 9 (pr_source rq) = Some (pr_dest rq, h)) \<and>
    (\<exists>h \<le> 8. deliver (cube 6 2) (next_port 5 dim_order_mesh g f') 9 (pr_source rp) = Some (pr_dest rp, h)) \<and>
    pr_source rp = pr_dest rq \<and> pr_dest rp = pr_source rq"
proof -
  have mem: "mem = unat (tlx_chip t) + 28" using assms(1,8) by (simp add: hetero_def mem2device_def)
  note chip = part_chip_of[OF assms(2-4,7)]
  have r: "mem < 36" "dev < 36" "28 \<le> mem" using chip mem assms(4,6) by (auto split: if_splits)
  note Q = hetero_push[OF assms(1) r(2,1) assms(9)] and P = hetero_push[OF assms(1) r(1,2) assms(10)]
  have h: "hops False (node_of mem) 9 (node_of dev) \<noteq> None" "hops True (node_of dev) 9 (node_of mem) \<noteq> None"
    using gpu_paths[of dev mem] cpu_paths[of dev mem] chip mem assms(5,6) r by (auto split: if_splits)
  have oq: "odd (pr_nets rq) = False" "pr_nets rq < 4" "odd (pr_nets rp) = True" "pr_nets rp < 4"
    using Q(3) P(3) assms(6) r(3) by (auto split: if_splits)
  note n = node_of_less[OF r(1)] node_of_less[OF r(2)]
  have "\<exists>h \<le> 8. deliver (cube 6 2) (next_port 5 dim_order_mesh g f) 9 (pr_source rq) = Some (pr_dest rq, h)"
    using hops_deliver[OF assms(11,12,15,13) _ assms(14) oq(2)] h(1) oq(1) n Q by simp
  moreover have "\<exists>h \<le> 8. deliver (cube 6 2) (next_port 5 dim_order_mesh g f') 9 (pr_source rp) = Some (pr_dest rp, h)"
    using hops_deliver[OF assms(11,12,18,16) _ assms(17) oq(4)] h(2) oq(3) n P by simp
  ultimately show ?thesis using Q P by simp
qed

subsection \<open>Requests that never arrive\<close>

definition trap_ring :: "nat list" where
  "trap_ring = [1, 3, 0]"

lemma trap_ring_step:
  "bypass_port False 11 (trap_ring ! (n mod 3)) < 4"
  "neighbour (bypass_port False 11 (trap_ring ! (n mod 3))) (trap_ring ! (n mod 3)) = trap_ring ! (Suc n mod 3)"
  "trap_ring ! (n mod 3) < 36"
proof -
  have "list_all (\<lambda>i. bypass_port False 11 (trap_ring ! i) < 4 \<and> trap_ring ! i < 36 \<and>
      neighbour (bypass_port False 11 (trap_ring ! i)) (trap_ring ! i) = trap_ring ! (Suc i mod 3)) [0, 1, 2]"
    by code_simp
  moreover have "n mod 3 \<in> set [0, 1, 2]" by auto
  ultimately show "bypass_port False 11 (trap_ring ! (n mod 3)) < 4"
    "neighbour (bypass_port False 11 (trap_ring ! (n mod 3))) (trap_ring ! (n mod 3)) = trap_ring ! (Suc n mod 3)"
    "trap_ring ! (n mod 3) < 36"
    unfolding list_all_iff by (metis mod_Suc_eq)+
qed

lemma trapped:
  assumes "g_k g = 6" "g_n g = 2" "0 < route_vcs g f" "fl_dest f = int 11" "fl_FlitsSta f = int sta" "sta < 4" "even sta"
  shows "travel (cube 6 2) (next_port 5 dim_order_mesh g f) n 1 = Some (trap_ring ! (n mod 3))"
proof (induction n)
  case (Suc n)
  let ?u = "trap_ring ! (n mod 3)"
  have "next_port 5 dim_order_mesh g f ?u = Some (bypass_port False 11 ?u)"
    using next_port_dim_order[OF assms(1-3) trap_ring_step(3) assms(4) _ assms(5,6), of n] assms(7) by simp
  note hop = cube_hop[where port = "next_port 5 dim_order_mesh g f", OF trap_ring_step(3) this trap_ring_step(1)]
  with Suc.IH show ?case by (simp add: trap_ring_step(2))
qed (simp add: trap_ring_def)

lemma chip_of_zero:
  assumes "am_init 8 k opt (new_addr_map 1 True) = Some m" "addrdec_tlx m 0 False = Some t"
  shows "unat (tlx_chip t) = 1"
proof -
  note L = am_init_limits[OF assms(1)]
  have m: "am_nchips m = 8" "am_dram_part m" "am_gpu_chip_weight m = 1" using L by (simp_all add: new_addr_map_def)
  have "am_gap m = 0" using assms(1) LOGB2_8
    by (auto simp: am_init_def Let_def set_limits_def addrdec_parseoption_def apply_address_mask_def
        split: if_splits option.splits prod.splits elim!: bind_SomeE)
  then have "part_chip m 0 False = Some (tlx_chip t)" using assms(2) m(2) by (auto simp: addrdec_tlx_def elim!: bind_SomeE)
  then show ?thesis using m by (auto simp: part_chip_def Let_def split: if_splits)
qed

text \<open>C14: the configuration in \<open>configs/GTX480/gpgpusim.config\<close> sets \<open>gpu_chip_weight\<close> to 1, so that the CPUs
  use the partitions 1 to 7.  The request of CPU 0 (device 14, node 1) for address 0 is sent to partition 1 at
  node 11, and never arrives: after any number \<open>n\<close> of hops it is at a router of the ring 1, 3, 0, which
  sends it on to the next one, and with no fuel is it delivered.\<close>

theorem shipped_weight_livelock:
  assumes "hetero c" "am_init 8 k opt (new_addr_map 1 True) = Some m" "addrdec_tlx m 0 False = Some t"
    "interconnect_push c (cpu2device c 0) (mem2device c (unat (tlx_chip t))) bytes = Some rq"
    "g_k g = 6" "g_n g = 2" "fl_dest f = int (pr_dest rq)" "fl_FlitsSta f = int (pr_nets rq)" "0 < route_vcs g f"
  shows "pr_dest rq = 11 \<and>
    (\<forall>n. travel (cube 6 2) (next_port 5 dim_order_mesh g f) n (pr_source rq) = Some ([1, 3, 0] ! (n mod 3))) \<and>
    (\<forall>fuel. deliver (cube 6 2) (next_port 5 dim_order_mesh g f) fuel (pr_source rq) = None)"
proof -
  have "mem2device c (unat (tlx_chip t)) = 29" "cpu2device c 0 = 14"
    using assms(1) chip_of_zero[OF assms(2,3)] by (simp_all add: mem2device_def cpu2device_def hetero_def)
  then have r: "interconnect_push c 14 29 bytes = Some rq" using assms(4) by simp
  have n: "node_of 14 = 1" "node_of 29 = 11" by (simp_all add: node_of_def create_node_map_def node_map_table_def)
  have q: "pr_source rq = 1" "pr_dest rq = 11" "pr_nets rq = 2" using hetero_push[OF assms(1) _ _ r] n by simp_all
  have t: "travel (cube 6 2) (next_port 5 dim_order_mesh g f) n 1 = Some (trap_ring ! (n mod 3))" for n
    by (rule trapped[OF assms(5,6,9) _ assms(8)]) (use assms(7) q in simp_all)
  have "\<forall>n. travel (cube 6 2) (next_port 5 dim_order_mesh g f) n 1 \<noteq> None" using t by blast
  from deliver_None_travelling[OF this] show ?thesis using q t unfolding trap_ring_def by simp
qed

definition sample_icnt :: icnt where
  "sample_icnt = \<lparr>ic_net_c = 2, ic_flit_size = 64, ic_ratio = 3, ic_num_vcs = 4, ic_input_capacity = 9,
     ic_ejection_capacity = 16, ic_boundary_capacity = 16, ic_n_shader = 14, ic_n_cpu = 14,
     ic_node_map = create_node_map 36 True, ic_reverse_map = create_reverse_map (create_node_map 36 True)\<rparr>"

definition sample_globals :: route_globals where
  "sample_globals = \<lparr>g_k = 6, g_n = 2, g_nodes = 36, g_num_vcs = 4, g_num_vcs_cpu = 4, g_num_vcs_gpu = 4\<rparr>"

definition sample_flit :: "int \<Rightarrow> int \<Rightarrow> flit" where
  "sample_flit dest sta = \<lparr>fl_data = 1, fl_net_num = 0, fl_vc = 0, fl_head = True, fl_tail = True,
     fl_true_tail = True, fl_time = 0, fl_sn = 0, fl_rob_time = 0, fl_id = 0, fl_record = False, fl_src = 0,
     fl_dest = dest, fl_pri = 0, fl_hops = 0, fl_watch = False, fl_intm = 0, fl_ph = 0, fl_dr = 0,
     fl_ring_par = 0, fl_FlitsSta = sta\<rparr>"

lemma sample_hetero: "hetero sample_icnt"
  by (simp add: hetero_def sample_icnt_def)

lemma sample_push:
  assumes "i < 36" "j < 36" "i < 28 \<or> j < 28"
  shows "\<exists>r. interconnect_push sample_icnt i j bytes = Some r"
proof -
  have m: "ic_node_map sample_icnt ! i = node_of i" "ic_node_map sample_icnt ! j = node_of j"
    by (simp_all add: sample_icnt_def node_of_def)
  note K = hetero_kinds[OF sample_hetero assms(1)] hetero_kinds[OF sample_hetero assms(2)]
  have "ic_net_c sample_icnt = 2" "ic_flit_size sample_icnt = 64" by (simp_all add: sample_icnt_def)
  then show ?thesis
    unfolding interconnect_push_def Let_def m using K assms(3)
    by (cases "i < 14"; cases "i < 28"; cases "j < 14") (auto simp: n_flits_def traffic_class_def)
qed

theorem hetero_memory_roundtrip_witness:
  "\<exists>(rq :: packet_route) f h. h \<le> 8 \<and> deliver (cube 6 2) (next_port 5 dim_order_mesh sample_globals f) 9 (pr_source rq) = Some (pr_dest rq, h)"
proof -
  let ?m = "eight_chips 4 True"
  obtain t where t: "addrdec_tlx ?m 0 (3 < (14 :: nat)) = Some t"
    by (simp add: addrdec_tlx_def part_chip_def Let_def)
  let ?mem = "mem2device sample_icnt (unat (tlx_chip t))"
  have "unat (tlx_chip t) < 4" using part_chip_of[OF eight_chips_init _ _ t] by simp
  then have mem: "?mem < 36" by (simp add: mem2device_def sample_icnt_def)
  obtain rq where rq: "interconnect_push sample_icnt 3 ?mem 8 = Some rq" using sample_push[of 3 ?mem 8] mem by auto
  obtain rp where rp: "interconnect_push sample_icnt ?mem 3 136 = Some rp" using sample_push[of ?mem 3 136] mem by auto
  let ?f = "sample_flit (int (pr_dest rq)) (int (pr_nets rq))" and ?f' = "sample_flit (int (pr_dest rp)) (int (pr_nets rp))"
  have "(\<exists>h \<le> 8. deliver (cube 6 2) (next_port 5 dim_order_mesh sample_globals ?f) 9 (pr_source rq) = Some (pr_dest rq, h)) \<and>
    (\<exists>h \<le> 8. deliver (cube 6 2) (next_port 5 dim_order_mesh sample_globals ?f') 9 (pr_source rp) = Some (pr_dest rp, h)) \<and>
    pr_source rp = pr_dest rq \<and> pr_dest rp = pr_source rq"
    by (rule hetero_memory_roundtrip[OF sample_hetero eight_chips_init _ _ _ _ t refl rq rp])
      (simp_all add: sample_globals_def sample_flit_def route_vcs_def)
  then show ?thesis by blast
qed

theorem shipped_weight_livelock_witness:
  "\<exists>(rq :: packet_route) f. pr_dest rq = 11 \<and>
    travel (cube 6 2) (next_port 5 dim_order_mesh sample_globals f) 1000 (pr_source rq) = Some 3"
proof -
  obtain t where t: "addrdec_tlx (eight_chips 1 True) 0 False = Some t"
    by (simp add: addrdec_tlx_def part_chip_def Let_def)
  have c: "unat (tlx_chip t) = 1" by (rule chip_of_zero[OF eight_chips_init t])
  have d: "cpu2device sample_icnt 0 = 14" "mem2device sample_icnt (unat (tlx_chip t)) = 29"
    using c by (simp_all add: cpu2device_def mem2device_def sample_icnt_def)
  obtain rq where "interconnect_push sample_icnt 14 29 8 = Some rq" using sample_push[of 14 29 8] by auto
  then have rq: "interconnect_push sample_icnt (cpu2device sample_icnt 0) (mem2device sample_icnt (unat (tlx_chip t))) 8 = Some rq"
    using d by simp
  let ?f = "sample_flit (int (pr_dest rq)) (int (pr_nets rq))"
  have w: "pr_dest rq = 11 \<and>
    (\<forall>n. travel (cube 6 2) (next_port 5 dim_order_mesh sample_globals ?f) n (pr_source rq) = Some ([1, 3, 0] ! (n mod 3))) \<and>
    (\<forall>fuel. deliver (cube 6 2) (next_port 5 dim_order_mesh sample_globals ?f) fuel (pr_source rq) = None)"
    by (rule shipped_weight_livelock[OF sample_hetero eight_chips_init t rq])
      (simp_all add: sample_globals_def sample_flit_def route_vcs_def)
  from w[THEN conjunct2, THEN conjunct1, THEN spec, of 1000] w[THEN conjunct1] show ?thesis by auto
qed

end
