(* ===== verification/FlyNet.thy ===== *)
theory FlyNet
  imports Topology Routing
begin

text \<open>
  The butterfly of the other configurations (\<open>KNFly\<close> of \<open>src/intersim/fly.cpp\<close> with \<open>dest_tag\<close> of
  \<open>routefunc.cpp\<close>): for any radix and number of stages every packet is ejected at its destination, after
  exactly one router of each stage.
\<close>

subsection \<open>Replacing a digit\<close>

definition swap_digit :: "nat \<Rightarrow> nat \<Rightarrow> nat \<Rightarrow> nat \<Rightarrow> nat" where
  "swap_digit k s a q = a - (a div s) mod k * s + q * s"

lemma swap_digit_split:
  assumes "0 < s"
  shows "swap_digit k s a q = (a div (s * k) * k + q) * s + a mod s"
proof -
  let ?X = "a div (s * k) * k * s" and ?Y = "(a div s) mod k * s"
  have "a div s = a div (s * k) * k + (a div s) mod k"
    by (metis div_mult2_eq div_mult_mod_eq)
  then have "a div s * s = ?X + ?Y" by (metis add_mult_distrib)
  then have "a = ?X + ?Y + a mod s" by (metis div_mult_mod_eq)
  then have "a - ?Y = ?X + a mod s" by simp
  then show ?thesis by (simp add: swap_digit_def add_mult_distrib)
qed

lemma swap_digit_div:
  assumes "0 < s" "q < k"
  shows "swap_digit k s a q div s = a div (s * k) * k + q" "swap_digit k s a q mod s = a mod s"
    "(swap_digit k s a q div s) mod k = q" "swap_digit k s a q div (s * k) = a div (s * k)"
proof -
  show d: "swap_digit k s a q div s = a div (s * k) * k + q" "swap_digit k s a q mod s = a mod s"
    unfolding swap_digit_split[OF assms(1)] using assms(1) by simp_all
  show "(swap_digit k s a q div s) mod k = q" unfolding d using assms(2) by simp
  show "swap_digit k s a q div (s * k) = a div (s * k)" unfolding div_mult2_eq d using assms(2) by (simp add: div_mult2_eq)
qed

lemma swap_digit_back:
  assumes "0 < s" "q < k"
  shows "swap_digit k s (swap_digit k s a q) ((a div s) mod k) = a"
proof -
  have "swap_digit k s (swap_digit k s a q) ((a div s) mod k) = (a div (s * k) * k + (a div s) mod k) * s + a mod s"
    unfolding swap_digit_split[OF assms(1), of k "swap_digit k s a q"] swap_digit_div(2,4)[OF assms] ..
  also have "a div (s * k) * k + (a div s) mod k = a div s" by (metis div_mult2_eq div_mult_mod_eq)
  finally show ?thesis by simp
qed

lemma swap_digit_less:
  assumes "0 < s" "q < k" "a < s * k * r"
  shows "swap_digit k s a q < s * k * r"
proof -
  have "a div (s * k) < r" using assms by (simp add: less_mult_imp_div_less mult.commute)
  then have "swap_digit k s a q div (s * k) < r" using swap_digit_div(4)[OF assms(1,2)] by simp
  then show ?thesis using assms(1,2) by (metis div_less_iff_less_mult less_nat_zero_code mult.commute nat_0_less_mult_iff not_gr_zero)
qed

subsection \<open>The wiring\<close>

lemma fly_in_swap:
  "fly_in_channel k n stage addr port =
     (stage - 1) * k ^ n + swap_digit k (k ^ (n - stage - 1)) addr port * k + (addr div k ^ (n - stage - 1)) mod k"
  by (simp add: fly_in_channel_def swap_digit_def Let_def)

text \<open>The router a channel leads to.\<close>

definition fly_sink :: "nat \<Rightarrow> nat \<Rightarrow> nat \<Rightarrow> nat" where
  "fly_sink k n c = (let stage = c div k ^ n + 1 in
     stage * k ^ (n - 1) + swap_digit k (k ^ (n - stage - 1)) ((c mod k ^ n) div k) (c mod k))"

lemma power_split: "0 < n \<Longrightarrow> (k :: nat) ^ n = k ^ (n - 1) * k"
  by (metis Suc_diff_1 power_Suc2)

lemma shift_split: "1 \<le> stage \<Longrightarrow> stage < n \<Longrightarrow> (k :: nat) ^ (n - 1) = k ^ (n - stage - 1) * k * k ^ (stage - 1)"
proof -
  assume "1 \<le> stage" "stage < n"
  then have "n - 1 = (n - stage - 1) + 1 + (stage - 1)" by simp
  then show ?thesis by (metis power_add power_one_right)
qed

lemma channel_parts:
  fixes k :: nat
  assumes "a < k ^ (n - 1)" "p < k" and n: "0 < n"
  shows "(s * k ^ n + a * k + p) div k ^ n = s" "((s * k ^ n + a * k + p) mod k ^ n) div k = a"
    "(s * k ^ n + a * k + p) mod k = p"
proof -
  have "a * k + p < k ^ (n - 1) * k"
  proof -
    have "a * k + p < Suc a * k" using assms(2) by simp
    also have "\<dots> \<le> k ^ (n - 1) * k" using assms(1) by (intro mult_le_mono1) simp
    finally show ?thesis .
  qed
  then have l: "a * k + p < k ^ n" using power_split[OF n, of k] by simp
  then have "k ^ n \<noteq> 0" by (metis less_nat_zero_code)
  then show "(s * k ^ n + a * k + p) div k ^ n = s" using l by (simp add: add.assoc)
  have "(s * k ^ n + a * k + p) mod k ^ n = a * k + p" using l by (simp add: add.assoc)
  then show "((s * k ^ n + a * k + p) mod k ^ n) div k = a" using assms(2) by simp
  have "s * k ^ n + a * k + p = (s * k ^ (n - 1) + a) * k + p" using power_split[OF n, of k] by (simp add: algebra_simps)
  then show "(s * k ^ n + a * k + p) mod k = p" using assms(2) by simp
qed

lemma fly_reader:
  assumes k: "0 < k" and n: "0 < n" and "v < n * k ^ (n - 1)" "fly_inputs k n v = Some l" "Chan c \<in> set l"
  shows "fly_sink k n c = v"
proof -
  let ?st = "v div k ^ (n - 1)" and ?ad = "v mod k ^ (n - 1)"
  have st: "?st < n" using assms(3) by (simp add: less_mult_imp_div_less)
  obtain q where q: "q < k" "?st \<noteq> 0" "c = fly_in_channel k n ?st ?ad q"
    using assms(4,5) by (auto simp: fly_inputs_def Let_def split: if_splits)
  let ?sh = "k ^ (n - ?st - 1)"
  have s0: "0 < ?sh" using k by simp
  have ad: "?ad < k ^ (n - 1)" using k by simp
  have sh: "k ^ (n - 1) = ?sh * k * k ^ (?st - 1)" by (rule shift_split) (use q(2) st in simp_all)
  have sw: "swap_digit k ?sh ?ad q < k ^ (n - 1)"
    by (subst sh) (rule swap_digit_less[OF s0 q(1)], subst sh[symmetric], rule ad)
  have z: "(?ad div ?sh) mod k < k" using k by simp
  note P = channel_parts[OF sw z n, of "?st - 1", folded fly_in_swap, folded q(3)]
  have "c div k ^ n + 1 = ?st" using P(1) q(2) by simp
  then have "fly_sink k n c = ?st * k ^ (n - 1) + swap_digit k ?sh (swap_digit k ?sh ?ad q) ((?ad div ?sh) mod k)"
    unfolding fly_sink_def Let_def P(2,3) by simp
  then show ?thesis unfolding swap_digit_back[OF s0 q(1)] div_mult_mod_eq .
qed

lemma wired_fly:
  assumes "0 < k" "0 < n"
  shows "wired (fly k n)"
proof unfold_locales
  fix u v l m c
  assume a: "u < w_size (fly k n)" "v < w_size (fly k n)" "w_in (fly k n) u = Some l" "w_in (fly k n) v = Some m"
    "Chan c \<in> set l" "Chan c \<in> set m"
  then show "u = v" using fly_reader[OF assms, of u l c] fly_reader[OF assms, of v m c] by (simp add: fly_def)
qed

text \<open>One hop from stage \<open>s\<close>.\<close>

lemma quotient_rest: "r < (m :: nat) \<Longrightarrow> (q * m + r) div m = q" "r < (m :: nat) \<Longrightarrow> (q * m + r) mod m = r"
  by simp_all

lemma fly_hop:
  assumes "s + 1 < n" "a < k ^ (n - 1)" "port (s * k ^ (n - 1) + a) = Some p" "p < k"
    and k: "0 < k" and n: "0 < n"
  shows "deliver (fly k n) port (Suc fuel) (s * k ^ (n - 1) + a) = map_option (apsnd Suc)
    (deliver (fly k n) port fuel ((s + 1) * k ^ (n - 1) + swap_digit k (k ^ (n - s - 2)) a p))"
proof -
  let ?sh = "k ^ (n - s - 2)" and ?u = "s * k ^ (n - 1) + a"
  let ?b = "swap_digit k ?sh a p" and ?c = "s * k ^ n + a * k + p" and ?q = "(a div ?sh) mod k"
  let ?v = "(s + 1) * k ^ (n - 1) + ?b"
  have s0: "0 < ?sh" using k by simp
  have sh: "k ^ (n - 1) = ?sh * k * k ^ s" using shift_split[of "s + 1" n k] assms(1) by simp
  have b: "?b < k ^ (n - 1)"
    by (subst sh) (rule swap_digit_less[OF s0 assms(4)], subst sh[symmetric], rule assms(2))
  have u: "?u div k ^ (n - 1) = s" "?u mod k ^ (n - 1) = a" by (rule quotient_rest[OF assms(2)])+
  have v: "?v div k ^ (n - 1) = s + 1" "?v mod k ^ (n - 1) = ?b" by (rule quotient_rest[OF b])+
  have "?v < (s + 2) * k ^ (n - 1)" using b by simp
  also have "\<dots> \<le> n * k ^ (n - 1)" using assms(1) by (intro mult_le_mono1) simp
  finally have size: "?v < w_size (fly k n)" by (simp add: fly_def)
  have "fly_outputs k n ?u = Some (map (\<lambda>port. Chan (s * k ^ n + a * k + port)) [0 ..< k])"
  proof -
    have "s \<noteq> n - 1" using assms(1) by simp
    then show ?thesis unfolding fly_outputs_def Let_def pow_i_power u by (simp add: fly_out_channel_def)
  qed
  then have out: "w_out (fly k n) ?u = Some (map (\<lambda>port. Chan (s * k ^ n + a * k + port)) [0 ..< k])"
    by (simp add: fly_def)
  have "fly_in_channel k n (s + 1) ?b ?q = ?c"
  proof -
    have e: "n - (s + 1) - 1 = n - s - 2" by simp
    show ?thesis unfolding fly_in_swap e swap_digit_back[OF s0 assms(4)] swap_digit_div(3)[OF s0 assms(4)] by simp
  qed
  moreover have "?q < k" using k by simp
  ultimately have "Chan ?c \<in> set (map (\<lambda>port. Chan (fly_in_channel k n (s + 1) ?b port)) [0 ..< k])"
    by (metis (mono_tags, lifting) atLeastLessThan_iff imageI le0 list.set_map set_upt)
  moreover have "w_in (fly k n) ?v = Some (map (\<lambda>port. Chan (fly_in_channel k n (s + 1) ?b port)) [0 ..< k])"
    using v by (simp add: fly_def fly_inputs_def Let_def)
  ultimately show ?thesis
    using wired.deliver_hop[OF wired_fly[OF k n], where port = port and u = ?u and p = p and c = ?c and v = ?v and fuel = fuel,
        OF assms(3) out _ _ size] assms(4) by simp
qed

subsection \<open>Destination tags\<close>

definition tag_port :: "nat \<Rightarrow> nat \<Rightarrow> nat \<Rightarrow> nat \<Rightarrow> nat" where
  "tag_port k n dest u = (dest div k ^ (n - 1 - u div k ^ (n - 1))) mod k"

lemma iterate_sdiv: "((\<lambda>d. d sdiv int k) ^^ m) (int d) = int (d div k ^ m)"
  by (induction m) (simp_all add: sdiv_nat div_mult2_eq[symmetric] mult.commute)

lemma next_port_dest_tag:
  assumes "g_k g = int k" "g_n g = n" "g_nodes g = int (k ^ n)" "0 < k" "0 < n" "0 < g_num_vcs g"
    "fl_dest f = int d" "u < n * k ^ (n - 1)"
  shows "next_port k dest_tag g f u = Some (tag_port k n d u)"
proof -
  let ?p = "tag_port k n d u" and ?r = "\<lparr>rv_id = int u, rv_faults = []\<rparr>"
  let ?e = "\<lparr>se_vc_start = 0, se_vc_end = g_num_vcs g - 1, se_pri = 0\<rparr>"
  have p: "?p < k" using assms(4) by (simp add: tag_port_def)
  have "u * k div k ^ n = u div k ^ (n - 1)"
    using power_split[OF assms(5), of k] assms(4) by simp
  then have st: "(int u * g_k g) sdiv g_nodes g = int (u div k ^ (n - 1))"
    using sdiv_nat(1)[of "u * k" "k ^ n"] assms(1,3) by simp
  have "nat (int n - 1 - int (u div k ^ (n - 1))) = n - 1 - u div k ^ (n - 1)" by simp
  then have dest: "((\<lambda>d. d sdiv g_k g) ^^ nat (int (g_n g) - 1 - int (u div k ^ (n - 1)))) (fl_dest f) smod g_k g = int ?p"
    unfolding assms(1,2,7) iterate_sdiv by (simp add: iterate_sdiv sdiv_nat tag_port_def)
  have "os_add_range0 (int ?p) 0 (g_num_vcs g - 1) (os_clear (new_output_set k)) = Some ((replicate k [])[?p := [?e]])"
    using p assms(6) by (simp add: os_add_range_def os_port_def os_clear_def new_output_set_def)
  then have "dest_tag g ?r (\<lambda>_. 0) False f 0 (new_output_set k) = Some (f, (replicate k [])[?p := [?e]])"
    using st dest by (simp add: dest_tag_def Let_def)
  then show ?thesis using find_single[OF p, of "[?e]"] by (simp add: next_port_def)
qed

lemma fly_deliver:
  assumes "0 < k" "0 < n" "dest < k ^ n" "m < n" "a < k ^ (n - 1)"
    "\<And>u. u < n * k ^ (n - 1) \<Longrightarrow> port u = Some (tag_port k n dest u)"
    "a div k ^ m = dest div k ^ (m + 1)"
  shows "deliver (fly k n) port (Suc m) ((n - 1 - m) * k ^ (n - 1) + a) = Some (dest, m)"
  using assms(4,5,7)
proof (induction m arbitrary: a)
  case 0
  let ?u = "(n - 1) * k ^ (n - 1) + a"
  have u: "?u div k ^ (n - 1) = n - 1" "?u mod k ^ (n - 1) = a" by (rule quotient_rest[OF 0(2)])+
  have "?u < n * k ^ (n - 1)" using 0(2) assms(2) by (cases n) simp_all
  then have p: "port ?u = Some (dest mod k)" using assms(6) u by (simp add: tag_port_def)
  have out: "w_out (fly k n) ?u = Some (map (\<lambda>port. Eject (a * k + port)) [0 ..< k])"
    unfolding fly_def fly_outputs_def Let_def pow_i_power wiring.simps u by simp
  have "a * k + dest mod k = dest" using 0(3) by simp
  then show ?case
    using deliver_eject[where port = port and u = ?u and d = dest, OF p out] assms(1) by simp
next
  case (Suc m)
  let ?s = "n - 1 - Suc m"
  let ?u = "?s * k ^ (n - 1) + a" and ?p = "tag_port k n dest (?s * k ^ (n - 1) + a)"
  have s: "?s + 1 < n" "n - ?s - 2 = m" "?s + 1 = n - 1 - m" using Suc.prems(1) by simp_all
  have u: "?u div k ^ (n - 1) = ?s" by (rule quotient_rest[OF Suc.prems(2)])
  have "?u < (?s + 1) * k ^ (n - 1)" using Suc.prems(2) by simp
  also have "\<dots> \<le> n * k ^ (n - 1)" using s(1) by (intro mult_le_mono1) simp
  finally have "?u < n * k ^ (n - 1)" .
  then have port: "port ?u = Some ?p" using assms(6) by simp
  have p: "?p = dest div k ^ (m + 1) mod k" "?p < k"
  proof -
    have "n - 1 - ?s = m + 1" using Suc.prems(1) by simp
    then show "?p = dest div k ^ (m + 1) mod k" unfolding tag_port_def u by simp
    then show "?p < k" using assms(1) by simp
  qed
  let ?b = "swap_digit k (k ^ m) a ?p"
  have m0: "0 < k ^ m" using assms(1) by simp
  have sh: "k ^ (n - 1) = k ^ m * k * k ^ ?s"
    using shift_split[of "?s + 1" n k] s by simp
  have b: "?b < k ^ (n - 1)"
    by (subst sh) (rule swap_digit_less[OF m0 p(2)], subst sh[symmetric], rule Suc.prems(2))
  have "a div (k ^ m * k) = dest div k ^ (m + 1) div k"
    using Suc.prems(3) by (simp add: div_mult2_eq[symmetric] mult.commute mult.left_commute)
  then have "?b div k ^ m = dest div k ^ (m + 1) div k * k + dest div k ^ (m + 1) mod k"
    unfolding swap_digit_div(1)[OF m0 p(2)] using p(1) by simp
  then have inv: "?b div k ^ m = dest div k ^ (m + 1)" by simp
  have "deliver (fly k n) port (Suc (Suc m)) ?u =
      map_option (apsnd Suc) (deliver (fly k n) port (Suc m) ((?s + 1) * k ^ (n - 1) + ?b))"
    using fly_hop[where s = ?s and a = a and port = port and p = ?p and k = k and n = n and fuel = "Suc m",
        OF s(1) Suc.prems(2) port p(2) assms(1,2)] unfolding s(2) .
  also have "deliver (fly k n) port (Suc m) ((?s + 1) * k ^ (n - 1) + ?b) = Some (dest, m)"
    unfolding s(3) using Suc.IH[OF _ b inv] Suc.prems(1) by simp
  finally show ?case by simp
qed

text \<open>C27: \<open>dest_tag\<close> routes every butterfly: a packet that enters the first stage at any router is ejected at
  its destination after one router of each of the \<open>n\<close> stages, for every radix \<open>k\<close> and every destination below
  \<open>k ^ n\<close>.\<close>

theorem fly_dest_tag_delivers:
  assumes "0 < k" "0 < n" "dest < k ^ n" "u < k ^ (n - 1)"
    "g_k g = int k" "g_n g = n" "g_nodes g = int (k ^ n)" "0 < g_num_vcs g" "fl_dest f = int dest"
  shows "deliver (fly k n) (next_port k dest_tag g f) n u = Some (dest, n - 1)"
proof -
  have "u div k ^ (n - 1) = dest div k ^ (n - 1 + 1)" using assms(2-4) by simp
  then have "deliver (fly k n) (next_port k dest_tag g f) (Suc (n - 1)) ((n - 1 - (n - 1)) * k ^ (n - 1) + u) = Some (dest, n - 1)"
    by (intro fly_deliver[OF assms(1-3) _ assms(4)] next_port_dest_tag[OF assms(5-7,1,2,8,9)]) (use assms(2) in simp_all)
  then show ?thesis using assms(2) by simp
qed

definition fly_flit :: "int \<Rightarrow> flit" where
  "fly_flit dest = \<lparr>fl_data = 1, fl_net_num = 0, fl_vc = 0, fl_head = True, fl_tail = True,
     fl_true_tail = True, fl_time = 0, fl_sn = 0, fl_rob_time = 0, fl_id = 0, fl_record = False, fl_src = 0,
     fl_dest = dest, fl_pri = 0, fl_hops = 0, fl_watch = False, fl_intm = 0, fl_ph = 0, fl_dr = 0,
     fl_ring_par = 0, fl_FlitsSta = 0\<rparr>"

theorem fly_dest_tag_delivers_witness:
  "deliver (fly 2 3) (next_port 2 dest_tag
     \<lparr>g_k = 2, g_n = 3, g_nodes = 8, g_num_vcs = 4, g_num_vcs_cpu = 4, g_num_vcs_gpu = 4\<rparr> (fly_flit 6)) 3 1 = Some (6, 2)"
  using fly_dest_tag_delivers[of 2 3 6 1 "\<lparr>g_k = 2, g_n = 3, g_nodes = 8, g_num_vcs = 4, g_num_vcs_cpu = 4, g_num_vcs_gpu = 4\<rparr>" "fly_flit 6"]
  by (simp add: fly_flit_def del: deliver.simps)

end
