(* ===== verification/Injection.thy ===== *)
theory Injection
  imports BufferState
begin

text \<open>
  The traffic manager of a network (\<open>src/intersim/trafficmanager.cpp\<close>): a packet is cut into flits, the
  flits of a source wait in its \<open>_partial_packets\<close> and enter the network one per cycle on a virtual
  channel of the injection link, and retire when their credit is returned.

  \<open>voq\<close> and \<open>reorder\<close> are 0 in every configuration; the virtual output queues and the reorder buffer
  are not modelled, nor are the statistics.  \<open>new Flit\<close> leaves its fields unset: \<open>raw\<close> is the memory
  it gets.  \<open>_in_flight\<close> is the set of its keys.
\<close>

datatype pri_type = class_based | age_based | no_pri
datatype sim_state = warming_up | running | draining | sim_done

record traffic_manager =
  tm_uid :: int
  tm_cur_id :: int
  tm_time :: int
  tm_in_flight :: "int set"
  tm_partial :: "flit list list list"
  tm_buf_states :: "buffer_state list"
  tm_split_packets :: int
  tm_pri_type :: pri_type
  tm_flit_timing :: bool
  tm_sim_state :: sim_state
  tm_drain_time :: int
  tm_measured_in_flight :: int
  tm_total_in_flight :: int

subsection \<open>\<open>_GeneratePacket\<close>\<close>

definition new_flit :: "flit \<Rightarrow> traffic_manager \<Rightarrow> flit \<times> traffic_manager" where
  "new_flit raw tm =
     (raw\<lparr>fl_id := tm_cur_id tm, fl_hops := 0, fl_watch := (tm_cur_id tm = - 1)\<rparr>,
      tm\<lparr>tm_in_flight := insert (tm_cur_id tm) (tm_in_flight tm), tm_cur_id := tm_cur_id tm + 1\<rparr>)"

text \<open>Flit \<open>i\<close> of the packet; \<open>time\<close> runs with the flits when \<open>_flit_timing\<close> is set.\<close>

definition generate_flit ::
  "flit \<Rightarrow> nat \<Rightarrow> int \<Rightarrow> nat \<Rightarrow> bool \<Rightarrow> nat \<Rightarrow> int \<Rightarrow> int \<Rightarrow> int \<Rightarrow> traffic_manager \<times> int \<Rightarrow> traffic_manager \<times> int" where
  "generate_flit raw source psize cl record_it data dest nets i tmt =
     (let (tm, time) = tmt; (f, tm1) = new_flit raw tm; sp = tm_split_packets tm;
          split_head = (sp > 0 \<and> i mod sp = 0); split_tail = (sp > 0 \<and> i mod sp = sp - 1);
          head = (i = 0 \<or> split_head); tail = (i = psize - 1 \<or> split_tail);
          f1 = f\<lparr>fl_src := int source, fl_time := time, fl_record := record_it, fl_data := data,
                 fl_net_num := tm_uid tm, fl_FlitsSta := nets, fl_head := head,
                 fl_dest := (if head then dest else - 1), fl_tail := tail, fl_true_tail := (i = psize - 1),
                 fl_pri := (case tm_pri_type tm of class_based \<Rightarrow> int cl | age_based \<Rightarrow> - time | no_pri \<Rightarrow> 0),
                 fl_vc := - 1\<rparr>;
          counted = (tail \<or> tm_flit_timing tm) in
      (tm1\<lparr>tm_measured_in_flight := tm_measured_in_flight tm + (if counted \<and> record_it then 1 else 0),
           tm_total_in_flight := tm_total_in_flight tm + (if counted then 1 else 0),
           tm_partial := (tm_partial tm)[source := (tm_partial tm ! source)[cl := tm_partial tm ! source ! cl @ [f1]]]\<rparr>,
       if tm_flit_timing tm then time + 1 else time))"

definition generate_packet ::
  "(nat \<Rightarrow> flit) \<Rightarrow> nat \<Rightarrow> int \<Rightarrow> nat \<Rightarrow> int \<Rightarrow> nat \<Rightarrow> int \<Rightarrow> int \<Rightarrow> traffic_manager \<Rightarrow> traffic_manager" where
  "generate_packet raw source psize cl time data dest nets tm =
     (let record_it = (tm_sim_state tm = running \<or> tm_sim_state tm = draining \<and> time < tm_drain_time tm) in
      fst (fold (\<lambda>i. generate_flit (raw i) source psize cl record_it data dest nets (int i)) [0 ..< nat psize] (tm, time)))"

subsection \<open>\<open>_ClassInject\<close>\<close>

text \<open>The last class with waiting flits, 0 if there is none.\<close>

definition highest_class :: "flit list list \<Rightarrow> nat" where
  "highest_class ps = fold (\<lambda>c h. if ps ! c = [] then h else c) [0 ..< length ps] 0"

text \<open>The flit at the front of the queue: its channel, if it is a head without one.\<close>

definition pick_vc :: "nat \<Rightarrow> flit \<Rightarrow> buffer_state \<Rightarrow> (flit \<times> buffer_state) option" where
  "pick_vc draw f b =
     (if fl_head f \<and> fl_vc f = - 1 then do {
        (vc, b1) \<leftarrow> find_available draw b;
        (if vc \<noteq> - 1 then do { b2 \<leftarrow> take_buffer vc b1; Some (f\<lparr>fl_vc := vc\<rparr>, b2) }
         else Some (f, b1)) }
      else Some (f, b))"

text \<open>One source: its queue and link after the cycle and the flit written to the network.\<close>

definition inject_front :: "nat \<Rightarrow> flit list \<Rightarrow> buffer_state \<Rightarrow> (flit option \<times> flit list \<times> buffer_state) option" where
  "inject_front draw q b =
     (case q of
        [] \<Rightarrow> Some (None, [], b)
      | f0 # fs \<Rightarrow> do {
          (f, b1) \<leftarrow> pick_vc draw f0 b;
          (if fl_vc f \<noteq> - 1 then do {
             full \<leftarrow> is_full_for b1 (fl_vc f);
             (if \<not> full then do {
                b2 \<leftarrow> sending_flit f b1;
                Some (Some f,
                  (case fs of [] \<Rightarrow> [] | nf # rest \<Rightarrow> if \<not> fl_tail f then nf\<lparr>fl_vc := fl_vc f\<rparr> # rest else fs), b2) }
              else Some (None, f # fs, b1)) }
           else Some (None, f # fs, b1)) })"

definition class_inject_input ::
  "nat \<Rightarrow> credit option \<Rightarrow> nat \<Rightarrow> traffic_manager \<Rightarrow> (flit option \<times> traffic_manager) option" where
  "class_inject_input draw cred input tm = do {
     b \<leftarrow> (case cred of None \<Rightarrow> Some (tm_buf_states tm ! input)
            | Some c \<Rightarrow> process_credit c (tm_buf_states tm ! input));
     let ps = tm_partial tm ! input; hc = highest_class ps in do {
       (out, q, b') \<leftarrow> inject_front draw (ps ! hc) b;
       Some (out, tm\<lparr>tm_buf_states := (tm_buf_states tm)[input := b'],
                     tm_partial := (tm_partial tm)[input := ps[hc := q]]\<rparr>) } }"

subsection \<open>\<open>_RetireFlit\<close>\<close>

definition retire_flit :: "flit \<Rightarrow> traffic_manager \<Rightarrow> traffic_manager option" where
  "retire_flit f tm = do {
     ensure (fl_id f \<in> tm_in_flight tm);
     let tm1 = tm\<lparr>tm_in_flight := tm_in_flight tm - {fl_id f}\<rparr> in
     (if fl_tail f \<or> tm_flit_timing tm then do {
        ensure (0 < tm_total_in_flight tm);
        let tm2 = tm1\<lparr>tm_total_in_flight := tm_total_in_flight tm - 1\<rparr> in
        (if tm_sim_state tm = warming_up \<or> fl_record f then do {
           ensure ((fl_true_tail f \<or> tm_flit_timing tm) \<longrightarrow> 0 < tm_time tm - fl_time f);
           (if fl_record f then do {
              ensure (0 < tm_measured_in_flight tm);
              Some (tm2\<lparr>tm_measured_in_flight := tm_measured_in_flight tm - 1\<rparr>) }
            else Some tm2) }
         else Some tm2) }
      else Some tm1) }"

subsection \<open>The flits of a packet\<close>

definition packet_flit :: "traffic_manager \<Rightarrow> nat \<Rightarrow> int \<Rightarrow> nat \<Rightarrow> nat \<Rightarrow> int \<Rightarrow> int \<Rightarrow> nat \<Rightarrow> flit \<Rightarrow> bool" where
  "packet_flit tm source psize cl data dest nets i f \<longleftrightarrow>
     fl_id f = tm_cur_id tm + int i \<and> fl_head f = (i = 0) \<and> fl_tail f = (int i = psize - 1) \<and>
     fl_true_tail f = (int i = psize - 1) \<and> fl_dest f = (if i = 0 then dest else - 1) \<and> fl_src f = int source \<and>
     fl_data f = data \<and> fl_net_num f = tm_uid tm \<and> fl_FlitsSta f = nets \<and> fl_vc f = - 1"

text \<open>The fields that stay while the flits are generated.\<close>

definition same_tm :: "traffic_manager \<Rightarrow> traffic_manager \<Rightarrow> bool" where
  "same_tm tm t \<longleftrightarrow> tm_uid t = tm_uid tm \<and> tm_split_packets t = tm_split_packets tm \<and>
     tm_buf_states t = tm_buf_states tm \<and> tm_flit_timing t = tm_flit_timing tm \<and> tm_pri_type t = tm_pri_type tm \<and>
     tm_time t = tm_time tm"

lemma generate_fold:
  assumes "tm_split_packets tm \<le> 0" "source < length (tm_partial tm)" "cl < length (tm_partial tm ! source)"
    "int k \<le> psize"
  shows "\<exists>fs t time'. fold (\<lambda>i. generate_flit (raw i) source psize cl rec data dest nets (int i)) [0 ..< k] (tm, time) = (t, time') \<and>
    length fs = k \<and> (\<forall>i < k. packet_flit tm source psize cl data dest nets i (fs ! i)) \<and>
    tm_partial t = (tm_partial tm)[source := (tm_partial tm ! source)[cl := tm_partial tm ! source ! cl @ fs]] \<and>
    tm_cur_id t = tm_cur_id tm + int k \<and> tm_in_flight t = tm_in_flight tm \<union> {tm_cur_id tm ..< tm_cur_id tm + int k} \<and>
    tm_total_in_flight t = tm_total_in_flight tm + (if tm_flit_timing tm then int k else if int k = psize \<and> k \<noteq> 0 then 1 else 0) \<and>
    same_tm tm t"
  using assms(4)
proof (induction k)
  case 0
  then show ?case by (simp add: same_tm_def)
next
  case (Suc k)
  then obtain fs t time' where IH:
    "fold (\<lambda>i. generate_flit (raw i) source psize cl rec data dest nets (int i)) [0 ..< k] (tm, time) = (t, time')"
    "length fs = k" "\<forall>i < k. packet_flit tm source psize cl data dest nets i (fs ! i)"
    "tm_partial t = (tm_partial tm)[source := (tm_partial tm ! source)[cl := tm_partial tm ! source ! cl @ fs]]"
    "tm_cur_id t = tm_cur_id tm + int k" "tm_in_flight t = tm_in_flight tm \<union> {tm_cur_id tm ..< tm_cur_id tm + int k}"
    "tm_total_in_flight t = tm_total_in_flight tm + (if tm_flit_timing tm then int k else if int k = psize \<and> k \<noteq> 0 then 1 else 0)"
    "same_tm tm t" by auto
  have sp: "\<not> tm_split_packets t > 0" using assms(1) IH(8) by (simp add: same_tm_def)
  let ?f = "(raw k)\<lparr>fl_id := tm_cur_id t, fl_hops := 0, fl_watch := (tm_cur_id t = - 1), fl_src := int source,
    fl_time := time', fl_record := rec, fl_data := data, fl_net_num := tm_uid t, fl_FlitsSta := nets,
    fl_head := (int k = 0), fl_dest := (if int k = 0 then dest else - 1), fl_tail := (int k = psize - 1),
    fl_true_tail := (int k = psize - 1),
    fl_pri := (case tm_pri_type t of class_based \<Rightarrow> int cl | age_based \<Rightarrow> - time' | no_pri \<Rightarrow> 0), fl_vc := - 1\<rparr>"
  obtain t2 time2 where t2: "generate_flit (raw k) source psize cl rec data dest nets (int k) (t, time') = (t2, time2)"
    by fastforce
  then have g: "tm_partial t2 = (tm_partial t)[source := (tm_partial t ! source)[cl := tm_partial t ! source ! cl @ [?f]]]"
    "tm_cur_id t2 = tm_cur_id t + 1" "tm_in_flight t2 = insert (tm_cur_id t) (tm_in_flight t)" "same_tm t t2"
    "tm_total_in_flight t2 = tm_total_in_flight t + (if int k = psize - 1 \<or> tm_flit_timing t then 1 else 0)"
    using sp by (auto simp: generate_flit_def new_flit_def Let_def same_tm_def)
  have "packet_flit tm source psize cl data dest nets k ?f"
    using IH(5,8) by (simp add: packet_flit_def same_tm_def)
  then have "\<forall>i < Suc k. packet_flit tm source psize cl data dest nets i ((fs @ [?f]) ! i)"
    using IH(2,3) by (auto simp: nth_append less_Suc_eq)
  moreover have "tm_partial t2 = (tm_partial tm)[source := (tm_partial tm ! source)[cl := tm_partial tm ! source ! cl @ fs @ [?f]]]"
    using g(1) IH(4) assms(2,3) by simp
  moreover have "tm_in_flight t2 = tm_in_flight tm \<union> {tm_cur_id tm ..< tm_cur_id tm + int (Suc k)}"
    using g(3) IH(5,6) by auto
  moreover have "tm_total_in_flight t2 = tm_total_in_flight tm +
      (if tm_flit_timing tm then int (Suc k) else if int (Suc k) = psize \<and> Suc k \<noteq> 0 then 1 else 0)"
    using g(5) IH(7,8) Suc.prems by (auto simp: same_tm_def)
  moreover have "same_tm tm t2" using IH(8) g(4) by (simp add: same_tm_def)
  moreover have "fold (\<lambda>i. generate_flit (raw i) source psize cl rec data dest nets (int i)) [0 ..< Suc k] (tm, time) = (t2, time2)"
    using IH(1) t2 by simp
  ultimately show ?case using IH(2,5) g(2) by (intro exI[of _ "fs @ [?f]"] exI[of _ t2] exI[of _ time2]) simp
qed

lemma generate_packet_spec:
  assumes "tm_split_packets tm \<le> 0" "source < length (tm_partial tm)" "cl < length (tm_partial tm ! source)"
    "0 \<le> psize"
  shows "\<exists>fs. length fs = nat psize \<and> (\<forall>i < nat psize. packet_flit tm source psize cl data dest nets i (fs ! i)) \<and>
    tm_partial (generate_packet raw source psize cl time data dest nets tm) =
      (tm_partial tm)[source := (tm_partial tm ! source)[cl := tm_partial tm ! source ! cl @ fs]] \<and>
    tm_in_flight (generate_packet raw source psize cl time data dest nets tm) =
      tm_in_flight tm \<union> {tm_cur_id tm ..< tm_cur_id tm + psize} \<and>
    tm_total_in_flight (generate_packet raw source psize cl time data dest nets tm) =
      tm_total_in_flight tm + (if tm_flit_timing tm then psize else if psize \<noteq> 0 then 1 else 0) \<and>
    same_tm tm (generate_packet raw source psize cl time data dest nets tm)"
proof -
  let ?rec = "tm_sim_state tm = running \<or> tm_sim_state tm = draining \<and> time < tm_drain_time tm"
  from generate_fold[OF assms(1-3), of "nat psize" psize raw ?rec data dest nets time] assms(4)
  obtain fs t time' where
    "fold (\<lambda>i. generate_flit (raw i) source psize cl ?rec data dest nets (int i)) [0 ..< nat psize] (tm, time) = (t, time')"
    "length fs = nat psize" "\<forall>i < nat psize. packet_flit tm source psize cl data dest nets i (fs ! i)"
    "tm_partial t = (tm_partial tm)[source := (tm_partial tm ! source)[cl := tm_partial tm ! source ! cl @ fs]]"
    "tm_in_flight t = tm_in_flight tm \<union> {tm_cur_id tm ..< tm_cur_id tm + psize}"
    "tm_total_in_flight t = tm_total_in_flight tm + (if tm_flit_timing tm then psize else if psize \<noteq> 0 then 1 else 0)"
    "same_tm tm t" by auto
  then show ?thesis by (intro exI[of _ fs]) (simp add: generate_packet_def Let_def)
qed

subsection \<open>The queue of a source\<close>

fun in_packets :: "flit list \<Rightarrow> bool" where
  "in_packets (f # g # fs) \<longleftrightarrow>
     (if fl_tail f then fl_head g \<and> fl_vc g = - 1 else \<not> fl_head g) \<and> in_packets (g # fs)"
| "in_packets [f] \<longleftrightarrow> fl_tail f"
| "in_packets [] \<longleftrightarrow> True"

definition front_ok :: "nat \<Rightarrow> flit \<Rightarrow> bool" where
  "front_ok vcs f \<longleftrightarrow> fl_head f \<and> fl_vc f = - 1 \<or> 0 \<le> fl_vc f \<and> fl_vc f < int vcs"

definition queue_ok :: "nat \<Rightarrow> flit list \<Rightarrow> bool" where
  [inv_defs]: "queue_ok vcs q \<longleftrightarrow> in_packets q \<and> (q \<noteq> [] \<longrightarrow> front_ok vcs (hd q))"

lemma in_packets_append:
  assumes "in_packets q" "in_packets p" "p \<noteq> [] \<longrightarrow> fl_head (hd p) \<and> fl_vc (hd p) = - 1"
  shows "in_packets (q @ p)"
  using assms by (induction q rule: in_packets.induct; cases p) auto

lemma packet_in_packets:
  assumes "length fs = nat psize" "\<forall>i < nat psize. packet_flit tm source psize cl data dest nets i (fs ! i)"
  shows "in_packets fs \<and> (fs \<noteq> [] \<longrightarrow> fl_head (hd fs) \<and> fl_vc (hd fs) = - 1)"
proof -
  have "in_packets (drop k fs)" for k
  proof (induction "length fs - k" arbitrary: k)
    case (Suc n)
    then have k: "k < length fs" by simp
    have IH: "in_packets (drop (Suc k) fs)" using Suc by simp
    have f: "packet_flit tm source psize cl data dest nets k (fs ! k)" using k assms by simp
    show ?case
    proof (cases "Suc k < length fs")
      case True
      then have "packet_flit tm source psize cl data dest nets (Suc k) (fs ! Suc k)" using assms by simp
      moreover have "drop k fs = fs ! k # fs ! Suc k # drop (Suc (Suc k)) fs"
        using Cons_nth_drop_Suc[OF k] Cons_nth_drop_Suc[OF True] by simp
      moreover have "drop (Suc k) fs = fs ! Suc k # drop (Suc (Suc k)) fs" using Cons_nth_drop_Suc[OF True] by simp
      moreover have "int k \<noteq> psize - 1" using True assms(1) by simp
      ultimately show ?thesis using f IH by (simp add: packet_flit_def)
    next
      case False
      then have "fl_tail (fs ! k)" using f k assms(1) by (auto simp: packet_flit_def)
      moreover have "drop k fs = [fs ! k]" using False k Cons_nth_drop_Suc[OF k] by simp
      ultimately show ?thesis by simp
    qed
  qed simp
  from this[of 0] show ?thesis
    using assms by (cases fs) (force simp: packet_flit_def)+
qed

lemma queue_append:
  assumes "queue_ok vcs q" "length fs = nat psize"
    "\<forall>i < nat psize. packet_flit tm source psize cl data dest nets i (fs ! i)"
  shows "queue_ok vcs (q @ fs)"
  using assms(1) packet_in_packets[OF assms(2,3)] in_packets_append[of q fs]
  by (cases q) (auto simp: queue_ok_def front_ok_def)

text \<open>A packet of \<open>psize\<close> flits goes to the end of its queue as \<open>psize\<close> flits with consecutive numbers,
  the first its head with the destination, the last its tail, all with its data, network and class; it counts
  as one packet in flight.\<close>

theorem generate_packet_flits:
  assumes "tm_split_packets tm \<le> 0" "\<not> tm_flit_timing tm" "source < length (tm_partial tm)"
    "cl < length (tm_partial tm ! source)" "0 < psize"
  shows "\<exists>fs. length fs = nat psize \<and>
    tm_partial (generate_packet raw source psize cl time data dest nets tm) =
      (tm_partial tm)[source := (tm_partial tm ! source)[cl := tm_partial tm ! source ! cl @ fs]] \<and>
    (\<forall>i < nat psize. fl_id (fs ! i) = tm_cur_id tm + int i \<and> fl_head (fs ! i) = (i = 0) \<and>
       fl_tail (fs ! i) = (int i = psize - 1) \<and> fl_data (fs ! i) = data \<and> fl_FlitsSta (fs ! i) = nets \<and>
       fl_net_num (fs ! i) = tm_uid tm \<and> fl_vc (fs ! i) = - 1) \<and> fl_dest (fs ! 0) = dest \<and>
    tm_total_in_flight (generate_packet raw source psize cl time data dest nets tm) = tm_total_in_flight tm + 1 \<and>
    tm_in_flight (generate_packet raw source psize cl time data dest nets tm) =
      tm_in_flight tm \<union> {tm_cur_id tm ..< tm_cur_id tm + psize}"
proof -
  from generate_packet_spec[OF assms(1,3,4), of psize data dest nets raw time] assms(5) obtain fs where
    fs: "length fs = nat psize" "\<forall>i < nat psize. packet_flit tm source psize cl data dest nets i (fs ! i)"
    "tm_partial (generate_packet raw source psize cl time data dest nets tm) =
      (tm_partial tm)[source := (tm_partial tm ! source)[cl := tm_partial tm ! source ! cl @ fs]]"
    "tm_in_flight (generate_packet raw source psize cl time data dest nets tm) =
      tm_in_flight tm \<union> {tm_cur_id tm ..< tm_cur_id tm + psize}"
    "tm_total_in_flight (generate_packet raw source psize cl time data dest nets tm) = tm_total_in_flight tm + 1"
    using assms(2) by auto
  have "packet_flit tm source psize cl data dest nets 0 (fs ! 0)" using fs(2) assms(5) by simp
  then show ?thesis using fs by (intro exI[of _ fs]) (auto simp: packet_flit_def)
qed

subsection \<open>Injection never stops\<close>

lemma find_available_total:
  assumes "bs_inv b" "0 < bs_vcs b"
  shows "\<exists>r b1. find_available draw b = Some (r, b1) \<and> bs_inv b1 \<and> bs_vcs b1 = bs_vcs b \<and>
    (r \<noteq> - 1 \<longrightarrow> is_available_for b1 r = Some True)"
proof -
  have "find_available draw b \<noteq> None" using assms(2) by (auto simp: find_available_def Let_def split: option.splits)
  then obtain r b1 where f: "find_available draw b = Some (r, b1)" by auto
  then have b1: "b1 = b\<lparr>bs_last_avail := bs_last_avail b1\<rparr>"
    by (auto simp: find_available_def Let_def split: option.splits if_splits)
  have "bs_inv b1" "bs_vcs b1 = bs_vcs b" by (subst b1, use assms(1) in \<open>simp add: bs_inv_def\<close>)+
  moreover have "is_available_for b1 r = Some True" if "r \<noteq> - 1"
  proof -
    have "r \<noteq> - 1 \<longrightarrow> (\<exists>i < bs_vcs b. r = int i \<and> \<not> bs_in_use b ! i)"
      using f assms(2) by (auto simp: find_available_def Let_def find_Some_iff split: option.splits)
    with that obtain i where "i < bs_vcs b" "r = int i" "\<not> bs_in_use b ! i" by blast
    then show ?thesis by (subst b1) (simp add: is_available_for_def bs_vc_int bs_vc_def)
  qed
  ultimately show ?thesis using f by blast
qed

lemma pick_vc_total:
  assumes "bs_inv b" "0 < bs_vcs b" "front_ok (bs_vcs b) f0"
  shows "\<exists>f b1. pick_vc draw f0 b = Some (f, b1) \<and> bs_inv b1 \<and> bs_vcs b1 = bs_vcs b \<and>
    front_ok (bs_vcs b) f \<and> f = f0\<lparr>fl_vc := fl_vc f\<rparr>"
proof (cases "fl_head f0 \<and> fl_vc f0 = - 1")
  case True
  obtain r b1 where r: "find_available draw b = Some (r, b1)" "bs_inv b1" "bs_vcs b1 = bs_vcs b"
    "r \<noteq> - 1 \<longrightarrow> is_available_for b1 r = Some True" using find_available_total[OF assms(1,2)] by blast
  show ?thesis
  proof (cases "r = - 1")
    case True
    then show ?thesis using r assms(3) \<open>fl_head f0 \<and> _\<close> by (simp add: pick_vc_def)
  next
    case False
    then obtain b2 where b2: "take_buffer r b1 = Some b2" using take_buffer_total r(4) by blast
    have "bs_inv b2" "bs_vcs b2 = bs_vcs b" "0 \<le> r \<and> r < int (bs_vcs b)"
      using take_buffer_inv[OF r(2) b2] take_bufferD[OF b2] r(3) by auto
    then show ?thesis using True r(1) b2 False by (simp add: pick_vc_def front_ok_def)
  qed
next
  case False
  then show ?thesis using assms by (auto simp: pick_vc_def)
qed

lemma inject_front_total:
  assumes "bs_inv b" "0 < bs_vcs b" "queue_ok (bs_vcs b) q"
  shows "\<exists>out q' b'. inject_front draw q b = Some (out, q', b') \<and> bs_inv b' \<and> bs_vcs b' = bs_vcs b \<and>
    queue_ok (bs_vcs b) q' \<and>
    (case out of None \<Rightarrow> map (fl_vc_update (\<lambda>_. 0)) q' = map (fl_vc_update (\<lambda>_. 0)) q
     | Some f \<Rightarrow> 0 \<le> fl_vc f \<and> fl_vc f < int (bs_vcs b) \<and> q \<noteq> [] \<and> f = (hd q)\<lparr>fl_vc := fl_vc f\<rparr> \<and>
         (\<not> fl_tail f \<longrightarrow> q' \<noteq> [] \<and> fl_vc (hd q') = fl_vc f) \<and>
         map (fl_vc_update (\<lambda>_. 0)) q' = map (fl_vc_update (\<lambda>_. 0)) (tl q))"
proof (cases q)
  case Nil
  then show ?thesis using assms by (simp add: inject_front_def queue_ok_def)
next
  case (Cons f0 fs)
  have fr: "front_ok (bs_vcs b) f0" "in_packets (f0 # fs)" using assms(3) Cons by (auto simp: queue_ok_def)
  obtain f b1 where f: "pick_vc draw f0 b = Some (f, b1)" "bs_inv b1" "bs_vcs b1 = bs_vcs b"
    "front_ok (bs_vcs b) f" "f = f0\<lparr>fl_vc := fl_vc f\<rparr>" using pick_vc_total[OF assms(1,2) fr(1)] by blast
  have f_fields: "fl_tail f = fl_tail f0" "fl_head f = fl_head f0" by (subst f(5), simp)+
  have stay: "queue_ok (bs_vcs b) (f # fs)" using fr(2) f(4) f_fields by (cases fs) (auto simp: queue_ok_def)
  have same: "f\<lparr>fl_vc := 0\<rparr> = f0\<lparr>fl_vc := 0\<rparr>" by (subst f(5)) simp
  show ?thesis
  proof (cases "fl_vc f \<noteq> - 1")
    case False
    then show ?thesis using Cons f(1-3) stay same by (simp add: inject_front_def)
  next
    case True
    then have v: "0 \<le> fl_vc f" "fl_vc f < int (bs_vcs b)" using f(4) by (auto simp: front_ok_def)
    then have "nat (fl_vc f) < bs_vcs b1" "fl_vc f = int (nat (fl_vc f))" using f(3) by auto
    then obtain full where full: "is_full_for b1 (fl_vc f) = Some full" using is_full_for_int by metis
    show ?thesis
    proof (cases full)
      case True
      then show ?thesis using Cons f(1-3) stay same full \<open>fl_vc f \<noteq> - 1\<close> by (simp add: inject_front_def)
    next
      case False
      then obtain b2 where b2: "sending_flit f b1 = Some b2" using sending_flit_total[OF f(2)] full by auto
      have b2i: "bs_inv b2" "bs_vcs b2 = bs_vcs b" using sending_flit_inv[OF f(2) b2] sending_flitD[OF b2] f(3) by auto
      let ?q = "case fs of [] \<Rightarrow> [] | nf # rest \<Rightarrow> if \<not> fl_tail f then nf\<lparr>fl_vc := fl_vc f\<rparr> # rest else fs"
      have run: "inject_front draw q b = Some (Some f, ?q, b2)"
        using Cons f(1) full False b2 \<open>fl_vc f \<noteq> - 1\<close> by (simp add: inject_front_def)
      have "queue_ok (bs_vcs b) ?q"
        using fr(2) f_fields v by (cases fs; cases "tl fs") (auto simp: queue_ok_def front_ok_def)
      moreover have "\<not> fl_tail f \<longrightarrow> ?q \<noteq> [] \<and> fl_vc (hd ?q) = fl_vc f" using fr(2) f_fields by (cases fs) auto
      moreover have "map (fl_vc_update (\<lambda>_. 0)) ?q = map (fl_vc_update (\<lambda>_. 0)) (tl q)" using Cons by (cases fs) auto
      ultimately show ?thesis using run b2i v f(5) Cons by auto
    qed
  qed
qed

lemma process_credit_inv:
  assumes "bs_inv b" "process_credit c b = Some b'"
  shows "bs_inv b' \<and> bs_vcs b' = bs_vcs b"
proof (rule fold_opt_inv[where I = "\<lambda>_ t. bs_inv t \<and> bs_vcs t = bs_vcs b"])
  show "fold_opt process_credit_vc (cr_vc c) b = Some b'" using assms(2) by (simp add: process_credit_def)
  fix ys x zs t t'
  assume "bs_inv t \<and> bs_vcs t = bs_vcs b" and s: "process_credit_vc x t = Some t'"
  then show "bs_inv t' \<and> bs_vcs t' = bs_vcs b" using process_credit_vc_inv[OF _ s] bs_stepD[OF s] by auto
qed (use assms(1) in simp)

definition inj_inv :: "traffic_manager \<Rightarrow> bool" where
  [inv_defs]: "inj_inv tm \<longleftrightarrow> tm_split_packets tm \<le> 0 \<and> length (tm_buf_states tm) = length (tm_partial tm) \<and>
     (\<forall>s < length (tm_partial tm). bs_inv (tm_buf_states tm ! s) \<and> 0 < bs_vcs (tm_buf_states tm ! s) \<and>
        tm_partial tm ! s \<noteq> [] \<and>
        (\<forall>q \<in> set (tm_partial tm ! s). queue_ok (bs_vcs (tm_buf_states tm ! s)) q))"

lemma highest_class_less: "ps \<noteq> [] \<Longrightarrow> highest_class ps < length ps"
proof -
  assume ne: "ps \<noteq> []"
  have "fold (\<lambda>c h. if ps ! c = [] then h else c) xs h < length ps"
    if "h < length ps" "\<forall>c \<in> set xs. c < length ps" for xs h
    using that by (induction xs arbitrary: h) auto
  then show ?thesis using ne by (simp add: highest_class_def)
qed

lemma class_inject_total:
  assumes "inj_inv tm" "input < length (tm_partial tm)"
    "case cred of None \<Rightarrow> True | Some c \<Rightarrow> process_credit c (tm_buf_states tm ! input) \<noteq> None"
  shows "\<exists>out tm'. class_inject_input draw cred input tm = Some (out, tm') \<and> inj_inv tm' \<and>
    (case out of None \<Rightarrow> True
     | Some f \<Rightarrow> 0 \<le> fl_vc f \<and> fl_vc f < int (bs_vcs (tm_buf_states tm ! input)) \<and>
         (let ps = tm_partial tm ! input; hc = highest_class ps in
            ps ! hc \<noteq> [] \<and> f = (hd (ps ! hc))\<lparr>fl_vc := fl_vc f\<rparr> \<and>
            (\<not> fl_tail f \<longrightarrow> tm_partial tm' ! input ! hc \<noteq> [] \<and> fl_vc (hd (tm_partial tm' ! input ! hc)) = fl_vc f)))"
proof -
  let ?b0 = "tm_buf_states tm ! input" and ?ps = "tm_partial tm ! input"
  have I: "bs_inv ?b0" "0 < bs_vcs ?b0" "?ps \<noteq> []" "\<forall>q \<in> set ?ps. queue_ok (bs_vcs ?b0) q"
    "length (tm_buf_states tm) = length (tm_partial tm)"
    using assms(1,2) by (auto simp: inj_inv_def)
  obtain b where b: "(case cred of None \<Rightarrow> Some ?b0 | Some c \<Rightarrow> process_credit c ?b0) = Some b"
    "bs_inv b" "bs_vcs b = bs_vcs ?b0"
    using assms(3) I(1) process_credit_inv[OF I(1)] by (cases cred) auto
  let ?hc = "highest_class ?ps"
  have hc: "?hc < length ?ps" by (rule highest_class_less[OF I(3)])
  then have "queue_ok (bs_vcs b) (?ps ! ?hc)" using I(4) b(3) by simp
  from inject_front_total[OF b(2) _ this, of draw] I(2) b(3) obtain out q' b' where r:
    "inject_front draw (?ps ! ?hc) b = Some (out, q', b')" "bs_inv b'" "bs_vcs b' = bs_vcs b"
    "queue_ok (bs_vcs b) q'" and o': "case out of None \<Rightarrow> True | Some f \<Rightarrow> 0 \<le> fl_vc f \<and> fl_vc f < int (bs_vcs b) \<and>
      ?ps ! ?hc \<noteq> [] \<and> f = (hd (?ps ! ?hc))\<lparr>fl_vc := fl_vc f\<rparr> \<and> (\<not> fl_tail f \<longrightarrow> q' \<noteq> [] \<and> fl_vc (hd q') = fl_vc f)"
    by (fastforce split: option.splits)
  let ?tm = "tm\<lparr>tm_buf_states := (tm_buf_states tm)[input := b'],
                tm_partial := (tm_partial tm)[input := ?ps[?hc := q']]\<rparr>"
  have run: "class_inject_input draw cred input tm = Some (out, ?tm)"
    using b(1) r(1) by (simp add: class_inject_input_def Let_def)
  have "\<forall>q \<in> set (?ps[?hc := q']). queue_ok (bs_vcs b') q"
    using I(4) r(3,4) b(3) set_update_subset[of ?ps ?hc q'] by auto
  then have "inj_inv ?tm"
    using assms(1,2) r(2,3) b(3) I unfolding inj_inv_def by (auto simp: nth_list_update)
  moreover have "tm_partial ?tm ! input ! ?hc = q'" using assms(2) hc by simp
  ultimately show ?thesis using run o' b(3) by (intro exI[of _ out] exI[of _ ?tm]) (auto simp: Let_def split: option.splits)
qed

lemma generate_inj_inv:
  assumes "inj_inv tm" "source < length (tm_partial tm)" "cl < length (tm_partial tm ! source)" "0 \<le> psize"
  shows "inj_inv (generate_packet raw source psize cl time data dest nets tm)"
proof -
  let ?tm = "generate_packet raw source psize cl time data dest nets tm" and ?ps = "tm_partial tm ! source"
  have sp: "tm_split_packets tm \<le> 0" using assms(1) by (simp add: inj_inv_def)
  from generate_packet_spec[OF sp assms(2-4), of data dest nets raw time] obtain fs where
    fs: "length fs = nat psize" "\<forall>i < nat psize. packet_flit tm source psize cl data dest nets i (fs ! i)"
    "tm_partial ?tm = (tm_partial tm)[source := ?ps[cl := ?ps ! cl @ fs]]" "same_tm tm ?tm" by blast
  have q: "queue_ok (bs_vcs (tm_buf_states tm ! source)) (?ps ! cl @ fs)"
    using queue_append[OF _ fs(1,2)] assms(1-3) by (simp add: inj_inv_def)
  then have "\<forall>q \<in> set (?ps[cl := ?ps ! cl @ fs]). queue_ok (bs_vcs (tm_buf_states tm ! source)) q"
    using set_update_subset[of ?ps cl "?ps ! cl @ fs"] assms(1,2) by (auto simp: inj_inv_def)
  then show ?thesis
    using assms(1,2) fs(3,4) unfolding inj_inv_def same_tm_def by (auto simp: nth_list_update)
qed

text \<open>What happens at a source: packets arrive, cycles pass.\<close>

inductive inj_reach :: "traffic_manager \<Rightarrow> traffic_manager \<Rightarrow> bool" for tm0 where
  start: "inj_reach tm0 tm0"
| arrive: "inj_reach tm0 tm \<Longrightarrow> source < length (tm_partial tm) \<Longrightarrow> cl < length (tm_partial tm ! source) \<Longrightarrow> 0 \<le> psize \<Longrightarrow>
    inj_reach tm0 (generate_packet raw source psize cl time data dest nets tm)"
| cycle: "inj_reach tm0 tm \<Longrightarrow> input < length (tm_partial tm) \<Longrightarrow>
    class_inject_input draw cred input tm = Some (out, tm') \<Longrightarrow> inj_reach tm0 tm'"

lemma class_inject_credit:
  assumes "class_inject_input draw cred input tm = Some x"
  shows "case cred of None \<Rightarrow> True | Some c \<Rightarrow> process_credit c (tm_buf_states tm ! input) \<noteq> None"
  using assms by (auto simp: class_inject_input_def split: option.splits elim!: bind_SomeE)

lemma inj_reach_inv: "inj_reach tm0 tm \<Longrightarrow> inj_inv tm0 \<Longrightarrow> inj_inv tm"
proof (induction rule: inj_reach.induct)
  case (cycle tm input draw cred out tm')
  then show ?case using class_inject_total[of tm input cred draw] class_inject_credit[of draw cred input tm] by auto
qed (auto intro: generate_inj_inv)

text \<open>C16: whatever packets arrive and whatever credits come back, a cycle of injection stops the simulator only
  over the credit itself: the channel it picks is free, the flit it sends is the front flit of the highest
  class and fits into its buffer, and the flits of a packet follow their head on its channel.\<close>

theorem injection_never_stops:
  assumes "inj_inv tm0" "inj_reach tm0 tm" "input < length (tm_partial tm)"
    "case cred of None \<Rightarrow> True | Some c \<Rightarrow> process_credit c (tm_buf_states tm ! input) \<noteq> None"
  shows "\<exists>out tm'. class_inject_input draw cred input tm = Some (out, tm') \<and>
    (case out of None \<Rightarrow> True
     | Some f \<Rightarrow> 0 \<le> fl_vc f \<and> fl_vc f < int (bs_vcs (tm_buf_states tm ! input)) \<and>
         (let ps = tm_partial tm ! input; hc = highest_class ps in
            ps ! hc \<noteq> [] \<and> f = (hd (ps ! hc))\<lparr>fl_vc := fl_vc f\<rparr> \<and>
            (\<not> fl_tail f \<longrightarrow> tm_partial tm' ! input ! hc \<noteq> [] \<and> fl_vc (hd (tm_partial tm' ! input ! hc)) = fl_vc f)))"
  using class_inject_total[OF inj_reach_inv[OF assms(2,1)] assms(3,4), of draw] by blast

definition sample_tm :: traffic_manager where
  "sample_tm = \<lparr>tm_uid = 0, tm_cur_id = 0, tm_time = 0, tm_in_flight = {}, tm_partial = [[[]]],
     tm_buf_states = [\<lparr>bs_wait_for_tail_credit = True, bs_buf_size = 4, bs_vcs = 2, bs_last_avail = 0,
       bs_in_use = [False, False], bs_tail_sent = [False, False], bs_cur_occupied = [0, 0]\<rparr>],
     tm_split_packets = 0, tm_pri_type = no_pri, tm_flit_timing = False, tm_sim_state = running,
     tm_drain_time = - 1, tm_measured_in_flight = 0, tm_total_in_flight = 0\<rparr>"

definition unset :: "nat \<Rightarrow> flit" where
  "unset i = \<lparr>fl_data = 0, fl_net_num = 0, fl_vc = 0, fl_head = False, fl_tail = False, fl_true_tail = False,
     fl_time = 0, fl_sn = 0, fl_rob_time = 0, fl_id = 0, fl_record = False, fl_src = 0, fl_dest = 0, fl_pri = 0,
     fl_hops = 0, fl_watch = False, fl_intm = 0, fl_ph = 0, fl_dr = 0, fl_ring_par = 0, fl_FlitsSta = 0\<rparr>"

theorem generate_packet_flits_witness:
  "\<exists>fs. length fs = 3 \<and> fl_dest (fs ! 0) = 7 \<and>
     tm_partial (generate_packet unset 0 3 0 5 9 7 1 sample_tm) = [[fs]]"
  using generate_packet_flits[of sample_tm 0 0 3 unset 5 9 7 1] by (auto simp: sample_tm_def)

theorem injection_never_stops_witness:
  "\<exists>out tm'. class_inject_input 0 None 0 (generate_packet unset 0 3 0 5 9 7 1 sample_tm) = Some (out, tm')"
proof -
  have i: "inj_inv sample_tm"
    by (simp add: inj_inv_def sample_tm_def queue_ok_def bs_inv_def less_2_cases_iff)
  have r: "inj_reach sample_tm (generate_packet unset 0 3 0 5 9 7 1 sample_tm)"
    by (rule arrive[OF start]) (simp_all add: sample_tm_def)
  have "length (tm_partial (generate_packet unset 0 3 0 5 9 7 1 sample_tm)) = 1"
    using generate_packet_spec[of sample_tm 0 0 3 9 7 1 unset 5] by (auto simp: sample_tm_def)
  then show ?thesis using injection_never_stops[OF i r, of 0 None 0] by auto
qed

end
