(* ===== verification/CpuCache.thy ===== *)
theory CpuCache
  imports StdMap MemFetch
begin

text \<open>
  The private caches of a CPU (\<open>src/cpu-sim/cache.cpp\<close>, \<open>cache.h\<close>) and the transactions they name
  (\<open>TRANSTYPE\<close> of \<open>transaction.h\<close>).  A \<open>long long\<close> that is shifted, masked and compared only is an \<open>int\<close>; \<open>>>\<close> on it is
  \<open>drop_bit\<close>, which is arithmetic as in the code.  \<open>clock\<close> is \<open>cpu_global_clock\<close>.  An index past the end of a vector
  is \<open>None\<close>, as is a shift by the width of its type.  The statistics and the checks under the
  debugging flags are left out.
\<close>

datatype cpu_state = CPU_MODIFIED | EXCLUSIVE | SHARED | CPU_INVALID

record cline =
  cl_address :: int
  cl_state :: cpu_state
  cl_timetouched :: int

record cset =
  cs_numlines :: int
  cs_clines :: "cline list"

record MSHR_entry =
  me_tr_id :: "int list"
  me_line_address :: int

record bq_node =
  bq_tr_id :: int
  bq_mshr :: "int list"

record cpu_cache =
  cc_assoc :: nat
  cc_level :: nat
  cc_set_shift :: nat
  cc_tag_shift :: nat
  cc_set_mask :: int
  cc_line_mask :: int
  cc_numrefs_for_repl :: int
  cc_sets :: "cset list"
  cc_queue :: "int list"
  cc_rq_size :: int
  cc_blocked_queue :: "bq_node list"
  cc_bq_size :: nat
  cc_MSHR :: "MSHR_entry list"

subsection \<open>Transactions\<close>

datatype tr_type = CPU_READ | CPU_WRITE | SNOOP | WRITEBACK | NETWORK | SIMPLE

datatype tr_state = START | EXIT | CORE_TO_LLC | LLC_TO_CORE | MLC_BUS_TRANSFER | MLC_QUEUED | MLC_LOOK_UP | LLC_BUS_TRANSFER
  | LLC_ICN_OVERFLOW | LLC_ICN_QUEUED | LLC_ICN_TRANSFER | LLC_QUEUED | LLC_LOOK_UP | MEM_QUEUED | MEM_BUS_TRANSFER | SNOOP_BLOCKED
  | LLC_BLOCKED_QUEUE_HEAD | LLC_REPLACE_SM | MLC_RESPONSE_TRANSFER | MLC_BLOCKED_HEAD_QUEUE | MLC_REPLACE_SM | MLC_RSM_LLC_TRANSFER
  | MLC_RSM_LLC_LOOKUP | LLC_RSM_LLC_LOOKUP | LLC_MSHR_PENDING | MLC_MSHR_PENDING | LLC_RSM_LOOKUP_COMPLETE | MLC_BQ_OVERFLOW
  | LLC_BQ_OVERFLOW | MEM_ICN_TRANSFER | MEM_ICN_OVERFLOW | TR_REQUEST | TR_RESPONSE | L1_REQUEST | L2_REQUEST | L1_RESPONSE | L2_RESPONSE

text \<open>The members the modelled code reads; \<open>timestamp\<close> is \<open>-1\<close> (\<open>BLOCKED\<close>) while something else must happen first.\<close>

record TRANSTYPE =
  tr_type :: tr_type
  tr_state :: tr_state
  tr_tr_id :: int
  tr_address :: int
  tr_cpuid :: nat
  tr_timestamp :: int
  tr_mem_op_id :: int
  tr_rob_entry :: nat
  tr_ptr_to_mf :: "nat option"

definition BLOCKED :: int where "BLOCKED = - 1"

text \<open>A \<open>long long\<close> that is passed as an \<open>int\<close>.\<close>

definition as_int :: "int \<Rightarrow> int" where
  "as_int x = sint (word_of_int x :: u32)"

fun map_transaction :: "int \<Rightarrow> TRANSTYPE list \<Rightarrow> TRANSTYPE option" where
  "map_transaction i [] = None"
| "map_transaction i (t # ts) = (if tr_tr_id t = i then Some t else map_transaction i ts)"

text \<open>An assignment through the pointer \<open>map_transaction\<close> returns.\<close>

fun update_transaction :: "int \<Rightarrow> (TRANSTYPE \<Rightarrow> TRANSTYPE) \<Rightarrow> TRANSTYPE list \<Rightarrow> TRANSTYPE list option" where
  "update_transaction i f [] = None"
| "update_transaction i f (t # ts) =
     (if tr_tr_id t = i then Some (f t # ts) else map_option ((#) t) (update_transaction i f ts))"

subsection \<open>Construction\<close>

text \<open>The number of binary digits: the first \<open>y\<close> with \<open>x>>y\<close> zero.\<close>

definition FloorLog2 :: "u32 \<Rightarrow> nat option" where
  "FloorLog2 x = do {
     ensure (x < 2 ^ 31);
     Some (length (takeWhile (\<lambda>y. drop_bit y x \<noteq> 0) [0 ..< 32])) }"

definition Log2Mask :: "nat \<Rightarrow> int option" where
  "Log2Mask x = do {
     ensure (x < 32);
     Some (fold (\<lambda>i mask. mask OR push_bit i 1) [0 ..< x] 0) }"

definition new_cline :: cline where
  "new_cline = \<lparr>cl_address = 0, cl_state = CPU_INVALID, cl_timetouched = 0\<rparr>"

definition new_cset :: "nat \<Rightarrow> cset" where
  "new_cset assoc = \<lparr>cs_numlines = 0, cs_clines = replicate assoc new_cline\<rparr>"

definition new_cpu_cache :: "nat \<Rightarrow> nat \<Rightarrow> nat \<Rightarrow> nat \<Rightarrow> cpu_cache option" where
  "new_cpu_cache csize lsize assoc level = do {
     ensure (lsize * assoc \<noteq> 0);
     let numsets = csize div (lsize * assoc) in do {
     set_shift \<leftarrow> FloorLog2 (word_of_nat lsize - 1);
     set_bits \<leftarrow> FloorLog2 (word_of_nat numsets - 1);
     set_mask \<leftarrow> Log2Mask set_bits;
     line_mask \<leftarrow> Log2Mask set_shift;
     Some \<lparr>cc_assoc = assoc, cc_level = level, cc_set_shift = set_shift, cc_tag_shift = set_shift + set_bits,
       cc_set_mask = set_mask, cc_line_mask = line_mask, cc_numrefs_for_repl = 0,
       cc_sets = replicate numsets (new_cset assoc), cc_queue = [], cc_rq_size = 0, cc_blocked_queue = [], cc_bq_size = 0,
       cc_MSHR = []\<rparr> } }"

subsection \<open>Lines\<close>

definition DECODE_SET :: "cpu_cache \<Rightarrow> int \<Rightarrow> nat" where
  "DECODE_SET c a = nat (drop_bit (cc_set_shift c) a AND cc_set_mask c)"

definition line_hit :: "cpu_cache \<Rightarrow> int \<Rightarrow> cline \<Rightarrow> bool" where
  "line_hit c a l \<longleftrightarrow> drop_bit (cc_tag_shift c) (cl_address l) = drop_bit (cc_tag_shift c) a \<and> cl_state l \<noteq> CPU_INVALID"

text \<open>The search of the lines of a set, \<open>None\<close> when it fails.\<close>

definition find_line :: "cpu_cache \<Rightarrow> int \<Rightarrow> cline list \<Rightarrow> nat option" where
  "find_line c a ls = find (\<lambda>i. line_hit c a (ls ! i)) [0 ..< length ls]"

definition the_set :: "cpu_cache \<Rightarrow> int \<Rightarrow> cset option" where
  "the_set c a = (if DECODE_SET c a < length (cc_sets c) then Some (cc_sets c ! DECODE_SET c a) else None)"

definition put_set :: "int \<Rightarrow> cset \<Rightarrow> cpu_cache \<Rightarrow> cpu_cache" where
  "put_set a s c = c\<lparr>cc_sets := (cc_sets c)[DECODE_SET c a := s]\<rparr>"

definition put_line :: "nat \<Rightarrow> cline \<Rightarrow> cset \<Rightarrow> cset" where
  "put_line i l s = s\<lparr>cs_clines := (cs_clines s)[i := l]\<rparr>"

definition func_look_up :: "int \<Rightarrow> bool \<Rightarrow> cpu_cache \<Rightarrow> (cpu_state \<times> cpu_cache) option" where
  "func_look_up a update c = do {
     s \<leftarrow> the_set c a;
     (case find_line c a (cs_clines s) of
        None \<Rightarrow> Some (CPU_INVALID, c)
      | Some i \<Rightarrow> let l = cs_clines s ! i in
          Some (cl_state l,
            if update then put_set a (put_line i (l\<lparr>cl_timetouched := cc_numrefs_for_repl c\<rparr>) s) c else c)) }"

definition look_up :: "int \<Rightarrow> bool \<Rightarrow> cpu_cache \<Rightarrow> (cpu_state \<times> cpu_cache) option" where
  "look_up a update c = do {
     s \<leftarrow> the_set c a;
     (case find_line c a (cs_clines s) of
        None \<Rightarrow> Some (CPU_INVALID, c)
      | Some i \<Rightarrow> let l = cs_clines s ! i in
          Some (cl_state l,
            if update then put_set a (put_line i (l\<lparr>cl_timetouched := cc_numrefs_for_repl c\<rparr>) s) c else c)) }"

definition func_change_state_on_hit :: "int \<Rightarrow> cpu_state \<Rightarrow> cpu_cache \<Rightarrow> cpu_cache option" where
  "func_change_state_on_hit a st c = do {
     s \<leftarrow> the_set c a;
     (case find_line c a (cs_clines s) of
        None \<Rightarrow> Some c
      | Some i \<Rightarrow> Some (put_set a (put_line i ((cs_clines s ! i)\<lparr>cl_state := st\<rparr>) s) c)) }"

definition change_state :: "int \<Rightarrow> cpu_state \<Rightarrow> cpu_cache \<Rightarrow> cpu_cache option" where
  "change_state a st c = do {
     s \<leftarrow> the_set c a;
     (case find_line c a (cs_clines s) of
        None \<Rightarrow> Some c
      | Some i \<Rightarrow>
          let s1 = put_line i ((cs_clines s ! i)\<lparr>cl_state := st\<rparr>) s in
          Some (put_set a (if st = CPU_INVALID then s1\<lparr>cs_numlines := cs_numlines s - 1\<rparr> else s1) c)) }"

text \<open>The least recently touched valid line: the loop keeps the first minimum, and starts from line 0.\<close>

fun lru_loop :: "cline list \<Rightarrow> nat \<Rightarrow> int \<times> nat \<Rightarrow> int \<times> nat" where
  "lru_loop [] i best = best"
| "lru_loop (l # ls) i (mintime, minpos) =
     lru_loop ls (i + 1)
       (if cl_timetouched l < mintime \<and> cl_state l \<noteq> CPU_INVALID then (cl_timetouched l, i) else (mintime, minpos))"

definition lru_pos :: "cline list \<Rightarrow> nat option" where
  "lru_pos ls = (case ls of [] \<Rightarrow> None | l # _ \<Rightarrow> Some (snd (lru_loop ls 0 (cl_timetouched l, 0))))"

text \<open>A set with room: the loop runs to \<open>assoc\<close> included, one line too far.\<close>

definition victim_lookup :: "int \<Rightarrow> cpu_cache \<Rightarrow> (int \<times> nat \<times> cpu_cache) option" where
  "victim_lookup a c = do {
     s \<leftarrow> the_set c a;
     (if cs_numlines s < int (cc_assoc c) then do {
        i \<leftarrow> find (\<lambda>i. cl_state (cs_clines s ! i) = CPU_INVALID) [0 ..< length (cs_clines s)];
        Some (a, i, put_set a (put_line i ((cs_clines s ! i)
          \<lparr>cl_address := a, cl_timetouched := cc_numrefs_for_repl c\<rparr>) s) c) }
      else do {
        i \<leftarrow> lru_pos (cs_clines s);
        Some (cl_address (cs_clines s ! i), i, c) }) }"

text \<open>\<open>vaddress\<close> and \<open>pos\<close> are the results of \<open>victim_lookup\<close>.\<close>

definition replace_victim :: "int \<Rightarrow> int \<Rightarrow> cpu_state \<Rightarrow> nat \<Rightarrow> cpu_cache \<Rightarrow> cpu_cache option" where
  "replace_victim vaddress a st pos c = do {
     s \<leftarrow> the_set c a;
     (if a \<noteq> vaddress then
        (case find_line c vaddress (cs_clines s) of
           None \<Rightarrow> Some c
         | Some i \<Rightarrow> Some (put_set a (put_line i \<lparr>cl_address = a, cl_state = st,
             cl_timetouched = cc_numrefs_for_repl c\<rparr> s) c))
      else do {
        ensure (pos < length (cs_clines s));
        Some (put_set a (put_line pos ((cs_clines s ! pos)\<lparr>cl_state := st\<rparr>) s
          \<lparr>cs_numlines := cs_numlines s + 1\<rparr>) c) }) }"

text \<open>\<open>func_change_state\<close> looks for the line, an invalid one (the last) and the victim in one loop; with no hit it
  makes room itself and returns what it put out.\<close>

definition func_change_state :: "int \<Rightarrow> cpu_state \<Rightarrow> cpu_cache \<Rightarrow> (int \<times> cpu_state \<times> cpu_cache) option" where
  "func_change_state a st c = do {
     s \<leftarrow> the_set c a;
     (case find_line c a (cs_clines s) of
        Some i \<Rightarrow>
          let s1 = put_line i ((cs_clines s ! i)\<lparr>cl_state := st\<rparr>) s in
          Some (- 1, CPU_INVALID, put_set a (if st = CPU_INVALID then s1\<lparr>cs_numlines := cs_numlines s - 1\<rparr> else s1) c)
      | None \<Rightarrow>
          let l = \<lparr>cl_address = a, cl_state = st, cl_timetouched = cc_numrefs_for_repl c\<rparr> in
          if st = CPU_INVALID then Some (- 1, CPU_INVALID, c)
          else if cs_numlines s < int (cc_assoc c) then do {
            i \<leftarrow> find (\<lambda>i. cl_state (cs_clines s ! i) = CPU_INVALID) (rev [0 ..< length (cs_clines s)]);
            Some (- 1, CPU_INVALID, put_set a (put_line i l s\<lparr>cs_numlines := cs_numlines s + 1\<rparr>) c) }
          else do {
            i \<leftarrow> lru_pos (cs_clines s);
            Some (cl_address (cs_clines s ! i), cl_state (cs_clines s ! i), put_set a (put_line i l s) c) }) }"

subsection \<open>Queues\<close>

definition insert_queue :: "int \<Rightarrow> cpu_cache \<Rightarrow> cpu_cache" where
  "insert_queue t c = c\<lparr>cc_rq_size := cc_rq_size c + 1, cc_queue := cc_queue c @ [t]\<rparr>"

definition insert_queue_after_head :: "TRANSTYPE list \<Rightarrow> int \<Rightarrow> cpu_cache \<Rightarrow> cpu_cache option" where
  "insert_queue_after_head pool t c = (let c1 = c\<lparr>cc_rq_size := cc_rq_size c + 1\<rparr> in
     case cc_queue c of
       [] \<Rightarrow> Some (c1\<lparr>cc_queue := [t]\<rparr>)
     | q # qs \<Rightarrow> do {
         tr \<leftarrow> map_transaction q pool;
         Some (c1\<lparr>cc_queue :=
           (if tr_state tr \<noteq> MLC_BQ_OVERFLOW \<and> tr_state tr \<noteq> LLC_BQ_OVERFLOW then q # t # qs else t # q # qs)\<rparr>) })"

definition delete_queue :: "cpu_cache \<Rightarrow> int \<times> cpu_cache" where
  "delete_queue c = (case cc_queue c of [] \<Rightarrow> (- 1, c)
     | q # qs \<Rightarrow> (q, c\<lparr>cc_rq_size := cc_rq_size c - 1, cc_queue := qs\<rparr>))"

definition delete_queue_tr :: "int \<Rightarrow> cpu_cache \<Rightarrow> int \<times> cpu_cache" where
  "delete_queue_tr t c =
     (if t \<in> set (cc_queue c) then (t, c\<lparr>cc_rq_size := cc_rq_size c - 1, cc_queue := remove1 t (cc_queue c)\<rparr>) else (- 1, c))"

definition queue_empty :: "cpu_cache \<Rightarrow> bool" where
  "queue_empty c \<longleftrightarrow> cc_queue c = []"

definition queue_head :: "cpu_cache \<Rightarrow> int" where
  "queue_head c = (case cc_queue c of [] \<Rightarrow> - 1 | q # _ \<Rightarrow> q)"

definition queue_full :: "(nat \<Rightarrow> nat) \<Rightarrow> cpu_cache \<Rightarrow> bool" where
  "queue_full cache_rq_size c \<longleftrightarrow> \<not> 2 < cc_level c \<and> cache_rq_size (cc_level c) \<le> length (cc_queue c)"

text \<open>The condition \<open>i<queue.size()<4?queue.size():4\<close> of the loop compares a truth value with 4, so it is \<open>queue.size()\<close>,
  which is not zero: the loop ends at the transaction, or where \<open>at\<close> throws.\<close>

fun top_4_loop :: "int \<Rightarrow> int list \<Rightarrow> int option" where
  "top_4_loop t [] = None"
| "top_4_loop t (q # qs) = (if q = t then Some t else top_4_loop t qs)"

definition queue_top_4 :: "int \<Rightarrow> cpu_cache \<Rightarrow> int option" where
  "queue_top_4 t c = (if cc_queue c = [] then Some (- 1) else top_4_loop t (cc_queue c))"

definition blocked_queue_full :: "(nat \<Rightarrow> nat) \<Rightarrow> cpu_cache \<Rightarrow> bool \<times> cpu_cache" where
  "blocked_queue_full cache_bq_size c =
     (let n = length (cc_blocked_queue c) + sum_list (map (length \<circ> bq_mshr) (cc_blocked_queue c)) in
      (cache_bq_size (cc_level c) \<le> n, c\<lparr>cc_bq_size := n\<rparr>))"

subsection \<open>Outstanding misses\<close>

definition same_line :: "cpu_cache \<Rightarrow> int \<Rightarrow> int \<Rightarrow> bool" where
  "same_line c a b \<longleftrightarrow> a AND NOT (cc_line_mask c) = b AND NOT (cc_line_mask c)"

fun blocked_address_loop :: "TRANSTYPE list \<Rightarrow> cpu_cache \<Rightarrow> int \<Rightarrow> int \<Rightarrow> bq_node list \<Rightarrow> bool option" where
  "blocked_address_loop pool c a t [] = Some False"
| "blocked_address_loop pool c a t (b # bs) = do {
     tr \<leftarrow> map_transaction (bq_tr_id b) pool;
     if same_line c (tr_address tr) a \<and> tr_tr_id tr \<noteq> t then Some True else blocked_address_loop pool c a t bs }"

definition address_in_blocked_queue :: "TRANSTYPE list \<Rightarrow> int \<Rightarrow> int \<Rightarrow> cpu_cache \<Rightarrow> bool option" where
  "address_in_blocked_queue pool a t c = blocked_address_loop pool c a t (cc_blocked_queue c)"

fun mshr_insert :: "cpu_cache \<Rightarrow> int \<Rightarrow> int \<Rightarrow> MSHR_entry list \<Rightarrow> bool \<times> MSHR_entry list" where
  "mshr_insert c t a [] = (False, [\<lparr>me_tr_id = [t], me_line_address = a\<rparr>])"
| "mshr_insert c t a (e # es) =
     (if same_line c a (me_line_address e) then (True, e\<lparr>me_tr_id := me_tr_id e @ [t]\<rparr> # es)
      else let (b, es') = mshr_insert c t a es in (b, e # es'))"

definition insert_blocked_queue :: "int \<Rightarrow> int \<Rightarrow> cpu_cache \<Rightarrow> bool \<times> cpu_cache" where
  "insert_blocked_queue t a c = (let (b, es) = mshr_insert c t a (cc_MSHR c) in (b, c\<lparr>cc_MSHR := es\<rparr>))"

definition wake :: "int \<Rightarrow> int \<Rightarrow> TRANSTYPE list \<Rightarrow> TRANSTYPE list option" where
  "wake clock i pool = update_transaction i (\<lambda>tr. tr\<lparr>tr_timestamp := clock + 1, tr_state := EXIT\<rparr>) pool"

text \<open>Erasing an entry moves the next one to its place, and the loop goes on behind it.\<close>

fun mshr_delete :: "cpu_cache \<Rightarrow> int \<Rightarrow> int \<Rightarrow> MSHR_entry list \<Rightarrow> TRANSTYPE list \<Rightarrow> (MSHR_entry list \<times> TRANSTYPE list) option" where
  "mshr_delete c clock a [] pool = Some ([], pool)"
| "mshr_delete c clock a (e # es) pool =
     (if same_line c a (me_line_address e) then do {
        pool1 \<leftarrow> fold_opt (wake clock) (me_tr_id e) pool;
        (case es of
           [] \<Rightarrow> Some ([], pool1)
         | e' # es' \<Rightarrow> do { (fs, pool2) \<leftarrow> mshr_delete c clock a es' pool1; Some (e' # fs, pool2) }) }
      else do { (fs, pool1) \<leftarrow> mshr_delete c clock a es pool; Some (e # fs, pool1) })"

definition delete_blocked_queue :: "int \<Rightarrow> int \<Rightarrow> cpu_cache \<times> TRANSTYPE list \<Rightarrow> (cpu_cache \<times> TRANSTYPE list) option" where
  "delete_blocked_queue clock a cp = do {
     (es, pool) \<leftarrow> mshr_delete (fst cp) clock a (cc_MSHR (fst cp)) (snd cp);
     Some ((fst cp)\<lparr>cc_MSHR := es\<rparr>, pool) }"

end
