(* ===== verification/CpuCacheInv.thy ===== *)
theory CpuCacheInv
  imports CpuCache
begin

text \<open>
  The invariant of a private cache of a CPU (\<open>src/cpu-sim/cache.cpp\<close>), and what a fill does to the lines it holds.
\<close>

subsection \<open>A set\<close>

abbreviation valid :: "cline \<Rightarrow> bool" where
  "valid l \<equiv> cl_state l \<noteq> CPU_INVALID"

lemma as_int_id: "0 \<le> x \<Longrightarrow> x < 2 ^ 31 \<Longrightarrow> as_int x = x"
  by (simp add: as_int_def sint_sbintrunc' signed_take_bit_int_eq_self)

definition tag_of :: "cpu_cache \<Rightarrow> int \<Rightarrow> int" where
  "tag_of c a = drop_bit (cc_tag_shift c) a"

definition lines_ok :: "cpu_cache \<Rightarrow> nat \<Rightarrow> cline list \<Rightarrow> bool" where
  "lines_ok c n ls \<longleftrightarrow> (\<forall>i < length ls. valid (ls ! i) \<longrightarrow> DECODE_SET c (cl_address (ls ! i)) = n) \<and>
     (\<forall>i < length ls. \<forall>j < length ls. valid (ls ! i) \<longrightarrow> valid (ls ! j) \<longrightarrow>
        tag_of c (cl_address (ls ! i)) = tag_of c (cl_address (ls ! j)) \<longrightarrow> i = j)"

definition n_valid :: "cline list \<Rightarrow> nat" where
  "n_valid ls = length (filter valid ls)"

definition set_ok :: "cpu_cache \<Rightarrow> nat \<Rightarrow> cset \<Rightarrow> bool" where
  "set_ok c n s \<longleftrightarrow> length (cs_clines s) = cc_assoc c \<and> cs_numlines s = int (n_valid (cs_clines s)) \<and> lines_ok c n (cs_clines s)"

text \<open>The line of a set that holds an address.\<close>

definition line_at :: "cpu_cache \<Rightarrow> int \<Rightarrow> cline list \<Rightarrow> cline option" where
  "line_at c a ls = map_option (\<lambda>i. ls ! i) (find_line c a ls)"

lemma find_line_None: "find_line c a ls = None \<longleftrightarrow> (\<forall>i < length ls. \<not> line_hit c a (ls ! i))"
  by (auto simp: find_line_def find_None_iff)

lemma find_line_SomeD:
  assumes "find_line c a ls = Some i"
  shows "i < length ls" "line_hit c a (ls ! i)"
  using assms by (auto simp: find_line_def find_Some_iff)

lemma find_line_eq:
  assumes "lines_ok c n ls" "i < length ls" "line_hit c a (ls ! i)"
  shows "find_line c a ls = Some i"
proof (cases "find_line c a ls")
  case None
  with assms show ?thesis by (auto simp: find_line_None)
next
  case (Some j)
  from find_line_SomeD[OF Some] assms show ?thesis
    by (auto simp: Some lines_ok_def line_hit_def tag_of_def)
qed

lemma line_at_None: "line_at c a ls = None \<longleftrightarrow> (\<forall>l \<in> set ls. \<not> line_hit c a l)"
  by (simp add: line_at_def find_line_None all_set_conv_all_nth)

lemma line_at_hit: "line_at c a ls = Some l \<Longrightarrow> l \<in> set ls \<and> line_hit c a l"
  by (auto simp: line_at_def dest: find_line_SomeD)

text \<open>A line put where an invalid one or the victim was.\<close>

lemma put_line_ok:
  assumes "lines_ok c n ls" "p < length ls" "line_at c (cl_address l) ls = None" "DECODE_SET c (cl_address l) = n"
  shows "lines_ok c n (ls[p := l])"
proof -
  have "\<not> line_hit c (cl_address l) (ls ! i)" if "i < length ls" for i
    using assms(3) that by (simp add: line_at_None all_set_conv_all_nth)
  then have h: "tag_of c (cl_address (ls ! i)) \<noteq> tag_of c (cl_address l)" if "i < length ls" "valid (ls ! i)" for i
    using that by (auto simp: line_hit_def tag_of_def)
  show ?thesis unfolding lines_ok_def
  proof (intro conjI allI impI)
    fix i assume "i < length (ls[p := l])" "valid (ls[p := l] ! i)"
    then show "DECODE_SET c (cl_address (ls[p := l] ! i)) = n"
      using assms(1,4) by (cases "i = p") (auto simp: lines_ok_def)
  next
    fix i j
    assume ij: "i < length (ls[p := l])" "j < length (ls[p := l])" "valid (ls[p := l] ! i)" "valid (ls[p := l] ! j)"
      "tag_of c (cl_address (ls[p := l] ! i)) = tag_of c (cl_address (ls[p := l] ! j))"
    show "i = j"
    proof (cases "i = p \<or> j = p")
      case True
      then show ?thesis using ij h[of i] h[of j] by (cases "i = j") (auto simp: nth_list_update)
    next
      case False
      then show ?thesis using ij assms(1) by (auto simp: lines_ok_def)
    qed
  qed
qed

lemma line_at_put:
  assumes "lines_ok c n ls" "p < length ls" "line_at c (cl_address l) ls = None" "DECODE_SET c (cl_address l) = n" "valid l"
  shows "line_at c b (ls[p := l]) =
    (if tag_of c b = tag_of c (cl_address l) then Some l
     else if line_hit c b (ls ! p) then None else line_at c b ls)"
proof -
  have ok: "lines_ok c n (ls[p := l])" by (rule put_line_ok[OF assms(1-4)])
  show ?thesis
  proof (cases "tag_of c b = tag_of c (cl_address l)")
    case True
    then have "line_hit c b (ls[p := l] ! p)" using assms(2,5) by (simp add: line_hit_def tag_of_def)
    then have "find_line c b (ls[p := l]) = Some p" by (rule find_line_eq[OF ok, rotated]) (use assms(2) in simp)
    then show ?thesis using True assms(2) by (simp add: line_at_def)
  next
    case False
    then have nb: "\<not> line_hit c b l" by (auto simp: line_hit_def tag_of_def)
    show ?thesis
    proof (cases "find_line c b ls")
      case None
      then have n: "\<not> line_hit c b (ls ! i)" if "i < length ls" for i using that by (simp add: find_line_None)
      have "\<not> line_hit c b (ls[p := l] ! i)" if "i < length ls" for i using n[OF that] nb that by (cases "i = p") simp_all
      then have "find_line c b (ls[p := l]) = None" by (simp add: find_line_None)
      then show ?thesis using False None by (simp add: line_at_def)
    next
      case (Some i)
      note i = find_line_SomeD[OF Some]
      show ?thesis
      proof (cases "i = p")
        case True
        have "\<not> line_hit c b (ls[p := l] ! j)" if "j < length ls" for j
        proof
          assume h: "line_hit c b (ls[p := l] ! j)"
          then have "j \<noteq> p" using nb that by auto
          with h have "line_hit c b (ls ! j)" by simp
          with find_line_eq[OF assms(1) that] Some True \<open>j \<noteq> p\<close> show False by simp
        qed
        then have "find_line c b (ls[p := l]) = None" by (simp add: find_line_None)
        then show ?thesis using False True i by (simp add: line_at_def)
      next
        case ip: False
        then have "find_line c b (ls[p := l]) = Some i" by (intro find_line_eq[OF ok]) (use i in auto)
        moreover have "\<not> line_hit c b (ls ! p)" using find_line_eq[OF assms(1,2)] Some ip by auto
        ultimately show ?thesis using False ip i(1) Some by (simp add: line_at_def)
      qed
    qed
  qed
qed

lemma n_valid_put: "p < length ls \<Longrightarrow> valid l \<Longrightarrow> n_valid (ls[p := l]) = n_valid ls + (if valid (ls ! p) then 0 else 1)"
  using filter_update_length[of p ls valid l] by (simp add: n_valid_def split: if_splits)

lemma n_valid_le: "n_valid ls \<le> length ls"
  by (simp add: n_valid_def)

lemma n_valid_full: "n_valid ls = length ls \<longleftrightarrow> (\<forall>l \<in> set ls. valid l)"
proof (induction ls)
  case (Cons l ls)
  have "length (filter valid ls) \<noteq> Suc (length ls)" using length_filter_le[of valid ls] by linarith
  with Cons show ?case by (auto simp: n_valid_def)
qed (simp add: n_valid_def)

subsection \<open>The victim\<close>

lemma lru_loop_min:
  assumes "lru_loop ls i (mt, mp) = (t, p)"
  shows "t \<le> mt \<and> (\<forall>l \<in> set ls. valid l \<longrightarrow> t \<le> cl_timetouched l) \<and>
    ((t, p) = (mt, mp) \<or> (\<exists>k < length ls. p = i + k \<and> t = cl_timetouched (ls ! k) \<and> valid (ls ! k)))"
  using assms
proof (induction ls arbitrary: i mt mp)
  case (Cons l ls)
  show ?case
  proof (cases "cl_timetouched l < mt \<and> valid l")
    case True
    from Cons.IH[of "i + 1" "cl_timetouched l" i] Cons.prems True show ?thesis
      by (fastforce simp: less_Suc_eq_0_disj)
  next
    case False
    then have "lru_loop ls (i + 1) (mt, mp) = (t, p)" using Cons.prems by (simp split: if_splits)
    from Cons.IH[OF this] False show ?thesis by (fastforce simp: less_Suc_eq_0_disj)
  qed
qed simp

lemma lru_pos_min:
  assumes "ls \<noteq> []" "\<forall>l \<in> set ls. valid l"
  shows "\<exists>p. lru_pos ls = Some p \<and> p < length ls \<and> (\<forall>l \<in> set ls. cl_timetouched (ls ! p) \<le> cl_timetouched l)"
proof -
  obtain l ls' where ls: "ls = l # ls'" using assms(1) by (cases ls) auto
  obtain t p where tp: "lru_loop ls 0 (cl_timetouched l, 0) = (t, p)" by fastforce
  note m = lru_loop_min[OF tp]
  then have "p < length ls \<and> t = cl_timetouched (ls ! p)" using ls by auto
  moreover have "lru_pos ls = Some p" using tp by (simp add: lru_pos_def ls)
  ultimately show ?thesis using m assms(2) by blast
qed

subsection \<open>The cache\<close>

definition block :: "cpu_cache \<Rightarrow> int \<Rightarrow> int" where
  "block c a = drop_bit (cc_set_shift c) a"

definition cpu_cache_ok :: "cpu_cache \<Rightarrow> bool" where
  "cpu_cache_ok c \<longleftrightarrow> 0 < cc_assoc c \<and>
     (\<exists>k. cc_set_mask c = mask k \<and> length (cc_sets c) = 2 ^ k \<and> cc_tag_shift c = cc_set_shift c + k) \<and>
     (\<forall>n < length (cc_sets c). set_ok c n (cc_sets c ! n))"

text \<open>The line that holds an address: the abstraction of a cache.\<close>

definition cpu_line :: "cpu_cache \<Rightarrow> int \<Rightarrow> cline option" where
  "cpu_line c a = line_at c a (cs_clines (cc_sets c ! DECODE_SET c a))"

definition line_state :: "cpu_cache \<Rightarrow> int \<Rightarrow> cpu_state" where
  "line_state c a = (case cpu_line c a of None \<Rightarrow> CPU_INVALID | Some l \<Rightarrow> cl_state l)"

text \<open>What an operation leaves of the parameters.\<close>

definition same_shape :: "cpu_cache \<Rightarrow> cpu_cache \<Rightarrow> bool" where
  "same_shape c d \<longleftrightarrow> cc_assoc d = cc_assoc c \<and> cc_set_shift d = cc_set_shift c \<and> cc_tag_shift d = cc_tag_shift c \<and>
     cc_set_mask d = cc_set_mask c \<and> cc_line_mask d = cc_line_mask c"

lemma same_shape_eqs:
  assumes "same_shape c d"
  shows "DECODE_SET d = DECODE_SET c" "line_hit d = line_hit c" "find_line d = find_line c" "line_at d = line_at c"
    "block d = block c" "tag_of d = tag_of c" "set_ok d = set_ok c"
  using assms by (auto simp: fun_eq_iff same_shape_def DECODE_SET_def line_hit_def find_line_def line_at_def block_def
      tag_of_def set_ok_def lines_ok_def)

lemma decode_set_eq:
  assumes "cc_set_mask c = mask k"
  shows "int (DECODE_SET c a) = take_bit k (block c a)" "DECODE_SET c a < 2 ^ k"
proof -
  show e: "int (DECODE_SET c a) = take_bit k (block c a)"
    by (simp add: DECODE_SET_def assms block_def take_bit_eq_mask)
  have "int (DECODE_SET c a) < 2 ^ k" unfolding e by (rule take_bit_int_less_exp)
  then show "DECODE_SET c a < 2 ^ k" by (metis of_nat_less_iff of_nat_numeral of_nat_power)
qed

lemma the_set_Some: "cpu_cache_ok c \<Longrightarrow> the_set c a = Some (cc_sets c ! DECODE_SET c a)"
  using decode_set_eq(2)[of c] by (auto simp: cpu_cache_ok_def the_set_def)

lemma decode_less: "cpu_cache_ok c \<Longrightarrow> DECODE_SET c a < length (cc_sets c)"
  using decode_set_eq(2)[of c] by (auto simp: cpu_cache_ok_def)

lemma block_eq_iff:
  assumes "cpu_cache_ok c"
  shows "block c a = block c b \<longleftrightarrow> DECODE_SET c a = DECODE_SET c b \<and> tag_of c a = tag_of c b"
proof -
  obtain k where k: "cc_set_mask c = mask k" "cc_tag_shift c = cc_set_shift c + k"
    using assms by (auto simp: cpu_cache_ok_def)
  have "tag_of c x = drop_bit k (block c x)" for x
    by (simp add: tag_of_def block_def k(2) add.commute)
  moreover have "DECODE_SET c a = DECODE_SET c b \<longleftrightarrow> take_bit k (block c a) = take_bit k (block c b)"
    using decode_set_eq(1)[OF k(1)] by (metis of_nat_eq_iff)
  moreover have "x = y" if "take_bit k x = take_bit k y" "drop_bit k x = drop_bit k y" for x y :: int
    using bits_ident[of k x] bits_ident[of k y] unfolding that by (rule trans[OF sym])
  ultimately show ?thesis by auto
qed

lemma func_look_up_eq:
  assumes "cpu_cache_ok c"
  shows "func_look_up a False c = Some (line_state c a, c)"
  by (auto simp: func_look_up_def the_set_Some[OF assms] line_state_def cpu_line_def line_at_def Let_def split: option.splits)

lemma cpu_line_block:
  assumes "cpu_cache_ok c" "cpu_line c a = Some l"
  shows "block c (cl_address l) = block c a" "valid l"
proof -
  let ?ls = "cs_clines (cc_sets c ! DECODE_SET c a)"
  have ok: "set_ok c (DECODE_SET c a) (cc_sets c ! DECODE_SET c a)"
    using assms(1) decode_less[OF assms(1)] by (simp add: cpu_cache_ok_def)
  from assms(2) have l: "l \<in> set ?ls" "line_hit c a l" by (auto simp: cpu_line_def dest: line_at_hit)
  then have "DECODE_SET c (cl_address l) = DECODE_SET c a"
    using ok by (auto simp: set_ok_def lines_ok_def line_hit_def in_set_conv_nth)
  with l show "block c (cl_address l) = block c a" "valid l"
    by (simp_all add: block_eq_iff[OF assms(1)] line_hit_def tag_of_def)
qed

text \<open>A set replaced by a good one.\<close>

lemma put_set_ok:
  assumes "cpu_cache_ok c" "set_ok c (DECODE_SET c a) s"
  shows "cpu_cache_ok (put_set a s c)"
proof -
  have sh: "same_shape c (put_set a s c)" by (simp add: same_shape_def put_set_def)
  show ?thesis
    unfolding cpu_cache_ok_def same_shape_eqs(7)[OF sh]
  proof (intro conjI allI impI)
    fix n assume "n < length (cc_sets (put_set a s c))"
    then show "set_ok c n (cc_sets (put_set a s c) ! n)"
      using assms by (cases "n = DECODE_SET c a") (auto simp: cpu_cache_ok_def put_set_def)
  qed (use assms(1) in \<open>auto simp: cpu_cache_ok_def put_set_def\<close>)
qed

lemma cpu_line_put_set:
  assumes "cpu_cache_ok c"
  shows "cpu_line (put_set a s c) b =
    (if DECODE_SET c b = DECODE_SET c a then line_at c b (cs_clines s) else cpu_line c b)"
proof -
  have sh: "same_shape c (put_set a s c)" by (simp add: same_shape_def put_set_def)
  show ?thesis
    using decode_less[OF assms] by (auto simp: cpu_line_def same_shape_eqs[OF sh]) (auto simp: put_set_def)
qed

lemma line_state_None: "cpu_cache_ok c \<Longrightarrow> line_state c a = CPU_INVALID \<longleftrightarrow> cpu_line c a = None"
  using cpu_line_block(2) by (auto simp: line_state_def split: option.splits)

text \<open>A block put into its set, at the place \<open>p\<close>.\<close>

definition filled :: "cpu_cache \<Rightarrow> int \<Rightarrow> cpu_state \<Rightarrow> nat \<Rightarrow> cset" where
  "filled c a st p = (let s = cc_sets c ! DECODE_SET c a in
     put_line p \<lparr>cl_address = a, cl_state = st, cl_timetouched = cc_numrefs_for_repl c\<rparr> s
       \<lparr>cs_numlines := int (n_valid (cs_clines s)) + (if valid (cs_clines s ! p) then 0 else 1)\<rparr>)"

lemma filled_ok:
  assumes "cpu_cache_ok c" "cpu_line c a = None" "valid \<lparr>cl_address = a, cl_state = st, cl_timetouched = cc_numrefs_for_repl c\<rparr>"
    "p < length (cs_clines (cc_sets c ! DECODE_SET c a))"
  shows "cpu_cache_ok (put_set a (filled c a st p) c)"
    and "cpu_line (put_set a (filled c a st p) c) b =
      (if block c b = block c a then Some \<lparr>cl_address = a, cl_state = st, cl_timetouched = cc_numrefs_for_repl c\<rparr>
       else if DECODE_SET c b = DECODE_SET c a \<and> line_hit c b (cs_clines (cc_sets c ! DECODE_SET c a) ! p) then None
       else cpu_line c b)"
proof -
  let ?s = "cc_sets c ! DECODE_SET c a" and ?l = "\<lparr>cl_address = a, cl_state = st, cl_timetouched = cc_numrefs_for_repl c\<rparr>"
  have ok: "set_ok c (DECODE_SET c a) ?s" using assms(1) decode_less[OF assms(1)] by (simp add: cpu_cache_ok_def)
  then have lok: "lines_ok c (DECODE_SET c a) (cs_clines ?s)" by (simp add: set_ok_def)
  have a: "line_at c (cl_address ?l) (cs_clines ?s) = None" using assms(2) by (simp add: cpu_line_def)
  have ls: "cs_clines (filled c a st p) = (cs_clines ?s)[p := ?l]" by (simp add: filled_def put_line_def Let_def)
  have "set_ok c (DECODE_SET c a) (filled c a st p)"
    using ok put_line_ok[OF lok assms(4) a] n_valid_put[OF assms(4,3)]
    by (simp add: set_ok_def ls) (simp add: filled_def Let_def)
  then show "cpu_cache_ok (put_set a (filled c a st p) c)" by (rule put_set_ok[OF assms(1)])
  show "cpu_line (put_set a (filled c a st p) c) b =
      (if block c b = block c a then Some ?l
       else if DECODE_SET c b = DECODE_SET c a \<and> line_hit c b (cs_clines ?s ! p) then None else cpu_line c b)"
    unfolding cpu_line_put_set[OF assms(1)] block_eq_iff[OF assms(1)] ls
    using line_at_put[OF lok assms(4) a _ assms(3), of b] by (auto simp: cpu_line_def)
qed

lemma cline_fields: "l\<lparr>cl_address := a, cl_timetouched := t, cl_state := st\<rparr> = \<lparr>cl_address = a, cl_state = st, cl_timetouched = t\<rparr>"
  by (cases l) simp

lemma numlines_same: "cs_numlines s = n \<Longrightarrow> s\<lparr>cs_clines := x, cs_numlines := n\<rparr> = s\<lparr>cs_clines := x\<rparr>"
  by (cases s) simp

lemma fill_room:
  assumes "cpu_cache_ok c" "cs_numlines (cc_sets c ! DECODE_SET c a) < int (cc_assoc c)"
  shows "\<exists>p c1. victim_lookup a c = Some (a, p, c1) \<and> replace_victim a a st p c1 = Some (put_set a (filled c a st p) c) \<and>
    p < length (cs_clines (cc_sets c ! DECODE_SET c a)) \<and> \<not> valid (cs_clines (cc_sets c ! DECODE_SET c a) ! p)"
proof -
  let ?s = "cc_sets c ! DECODE_SET c a"
  have ok: "set_ok c (DECODE_SET c a) ?s" using assms(1) decode_less[OF assms(1)] by (simp add: cpu_cache_ok_def)
  with assms(2) have "n_valid (cs_clines ?s) \<noteq> length (cs_clines ?s)" by (simp add: set_ok_def)
  then have "find (\<lambda>i. cl_state (cs_clines ?s ! i) = CPU_INVALID) [0 ..< length (cs_clines ?s)] \<noteq> None"
    by (auto simp: n_valid_full find_None_iff in_set_conv_nth)
  then obtain p where p: "find (\<lambda>i. cl_state (cs_clines ?s ! i) = CPU_INVALID) [0 ..< length (cs_clines ?s)] = Some p" by blast
  then have pl: "p < length (cs_clines ?s)" "\<not> valid (cs_clines ?s ! p)" by (auto simp: find_Some_iff)
  let ?c1 = "put_set a (put_line p ((cs_clines ?s ! p)\<lparr>cl_address := a, cl_timetouched := cc_numrefs_for_repl c\<rparr>) ?s) c"
  have v: "victim_lookup a c = Some (a, p, ?c1)"
    using assms(2) by (simp add: victim_lookup_def the_set_Some[OF assms(1)] p)
  have d: "DECODE_SET ?c1 a = DECODE_SET c a" by (simp add: DECODE_SET_def put_set_def)
  have s1: "the_set ?c1 a = Some (put_line p ((cs_clines ?s ! p)\<lparr>cl_address := a, cl_timetouched := cc_numrefs_for_repl c\<rparr>) ?s)"
    using decode_less[OF assms(1)] by (simp add: the_set_def d) (simp add: put_set_def)
  have "replace_victim a a st p ?c1 = Some (put_set a (filled c a st p) c)"
    using pl ok decode_less[OF assms(1)] d
    by (simp add: replace_victim_def s1) (simp add: cline_fields put_set_def put_line_def filled_def Let_def set_ok_def)
  with v pl show ?thesis by blast
qed

lemma fill_full:
  assumes "cpu_cache_ok c" "cpu_line c a = None" "\<not> cs_numlines (cc_sets c ! DECODE_SET c a) < int (cc_assoc c)"
  shows "\<exists>p l. victim_lookup a c = Some (cl_address l, p, c) \<and>
    replace_victim (cl_address l) a st p c = Some (put_set a (filled c a st p) c) \<and>
    p < length (cs_clines (cc_sets c ! DECODE_SET c a)) \<and> l = cs_clines (cc_sets c ! DECODE_SET c a) ! p \<and> valid l \<and>
    DECODE_SET c (cl_address l) = DECODE_SET c a \<and> cpu_line c (cl_address l) = Some l \<and>
    (\<forall>m \<in> set (cs_clines (cc_sets c ! DECODE_SET c a)). cl_timetouched l \<le> cl_timetouched m)"
proof -
  let ?s = "cc_sets c ! DECODE_SET c a"
  have ok: "set_ok c (DECODE_SET c a) ?s" using assms(1) decode_less[OF assms(1)] by (simp add: cpu_cache_ok_def)
  have lok: "lines_ok c (DECODE_SET c a) (cs_clines ?s)" using ok by (simp add: set_ok_def)
  from ok assms(3) n_valid_le[of "cs_clines ?s"] have "n_valid (cs_clines ?s) = length (cs_clines ?s)" by (simp add: set_ok_def)
  then have all: "\<forall>l \<in> set (cs_clines ?s). valid l" by (simp add: n_valid_full)
  have ne: "cs_clines ?s \<noteq> []" using ok assms(1) by (auto simp: set_ok_def cpu_cache_ok_def)
  obtain p where p: "lru_pos (cs_clines ?s) = Some p" "p < length (cs_clines ?s)"
    "\<forall>m \<in> set (cs_clines ?s). cl_timetouched (cs_clines ?s ! p) \<le> cl_timetouched m"
    using lru_pos_min[OF ne all] by blast
  let ?l = "cs_clines ?s ! p"
  have l: "valid ?l" using all p(2) by simp
  have d: "DECODE_SET c (cl_address ?l) = DECODE_SET c a" using lok p(2) l by (simp add: lines_ok_def)
  have f: "find_line c (cl_address ?l) (cs_clines ?s) = Some p"
    by (rule find_line_eq[OF lok p(2)]) (use l in \<open>simp add: line_hit_def\<close>)
  have cl: "cpu_line c (cl_address ?l) = Some ?l" by (simp add: cpu_line_def d line_at_def f)
  then have av: "a \<noteq> cl_address ?l" using assms(2) by auto
  have "victim_lookup a c = Some (cl_address ?l, p, c)"
    using assms(3) by (simp add: victim_lookup_def the_set_Some[OF assms(1)] p(1))
  moreover have "replace_victim (cl_address ?l) a st p c = Some (put_set a (filled c a st p) c)"
    using av ok l by (simp add: replace_victim_def the_set_Some[OF assms(1)] f filled_def put_line_def Let_def set_ok_def numlines_same)
  ultimately show ?thesis using p(2,3) l d cl by blast
qed

lemma cpu_cache_fill_effect:
  assumes "cpu_cache_ok c" "line_state c a = CPU_INVALID" "st \<noteq> CPU_INVALID"
  shows "\<exists>v pos c1 c2. victim_lookup a c = Some (v, pos, c1) \<and> replace_victim v a st pos c1 = Some c2 \<and> cpu_cache_ok c2 \<and> same_shape c c2 \<and> cc_MSHR c2 = cc_MSHR c \<and>
    (if cs_numlines (cc_sets c ! DECODE_SET c a) < int (cc_assoc c) then v = a
     else \<exists>l. cpu_line c v = Some l \<and> DECODE_SET c v = DECODE_SET c a \<and>
       (\<forall>b m. cpu_line c b = Some m \<longrightarrow> DECODE_SET c b = DECODE_SET c a \<longrightarrow> cl_timetouched l \<le> cl_timetouched m)) \<and>
    (\<forall>b. line_state c2 b = (if block c b = block c a then st else if block c b = block c v then CPU_INVALID else line_state c b))"
proof -
  have fr: "same_shape c (put_set a s c)" "cc_MSHR (put_set a s c) = cc_MSHR c" for s by (simp_all add: put_set_def same_shape_def)
  show ?thesis
proof (cases "cs_numlines (cc_sets c ! DECODE_SET c a) < int (cc_assoc c)")
  case True
  from fill_room[OF assms(1) True, of st] obtain p c1 where f: "victim_lookup a c = Some (a, p, c1)"
    "replace_victim a a st p c1 = Some (put_set a (filled c a st p) c)"
    and p: "p < length (cs_clines (cc_sets c ! DECODE_SET c a))" "\<not> valid (cs_clines (cc_sets c ! DECODE_SET c a) ! p)" by blast
  have a: "cpu_line c a = None" using assms(1,2) by (simp add: line_state_None)
  note F = filled_ok[OF assms(1) a _ p(1), of st]
  have "line_state (put_set a (filled c a st p) c) b = (if block c b = block c a then st else line_state c b)" for b
    using F(2)[of b] assms(3) p(2) by (simp add: line_state_def line_hit_def)
  then show ?thesis using f F(1) assms(3) True fr by (intro exI[of _ a] exI[of _ p] exI[of _ c1] exI[of _ "put_set a (filled c a st p) c"] conjI) auto
next
  case False
  have a: "cpu_line c a = None" using assms(1,2) by (simp add: line_state_None)
  from fill_full[OF assms(1) a False, of st] obtain p l where f: "victim_lookup a c = Some (cl_address l, p, c)"
    "replace_victim (cl_address l) a st p c = Some (put_set a (filled c a st p) c)"
    and p: "p < length (cs_clines (cc_sets c ! DECODE_SET c a))" "l = cs_clines (cc_sets c ! DECODE_SET c a) ! p" "valid l"
      "DECODE_SET c (cl_address l) = DECODE_SET c a" "cpu_line c (cl_address l) = Some l"
      "\<forall>m \<in> set (cs_clines (cc_sets c ! DECODE_SET c a)). cl_timetouched l \<le> cl_timetouched m" by blast
  note F = filled_ok[OF assms(1) a _ p(1), of st]
  have "line_hit c b l \<longleftrightarrow> tag_of c b = tag_of c (cl_address l)" for b using p(3) by (auto simp: line_hit_def tag_of_def)
  then have "line_state (put_set a (filled c a st p) c) b =
      (if block c b = block c a then st else if block c b = block c (cl_address l) then CPU_INVALID else line_state c b)" for b
    using F(2)[of b] assms(3) p(2,4) block_eq_iff[OF assms(1), of b "cl_address l"] by (simp add: line_state_def)
  moreover have "cl_timetouched l \<le> cl_timetouched m" if "cpu_line c b = Some m" "DECODE_SET c b = DECODE_SET c a" for b m
    using that p(6) by (auto simp: cpu_line_def dest: line_at_hit)
  ultimately show ?thesis using f F(1) assms(3) False p(4,5) fr
    by (intro exI[of _ "cl_address l"] exI[of _ p] exI[of _ c] exI[of _ "put_set a (filled c a st p) c"] conjI) auto
qed
qed

text \<open>
  C18: A block that is not in a private cache is filled: \<open>victim_lookup\<close> finds a place and \<open>replace_victim\<close> puts the block there.
  The cache then holds the block in the given state, and every other block as before, except that a
  full set gives up the one it touched least recently.  The invariant is kept, and nothing is read out of bounds.
\<close>
theorem cpu_cache_fill:
  assumes "cpu_cache_ok c" "line_state c a = CPU_INVALID" "st \<noteq> CPU_INVALID"
  shows "\<exists>v pos c1 c2. victim_lookup a c = Some (v, pos, c1) \<and> replace_victim v a st pos c1 = Some c2 \<and> cpu_cache_ok c2 \<and>
    (if cs_numlines (cc_sets c ! DECODE_SET c a) < int (cc_assoc c) then v = a
     else \<exists>l. cpu_line c v = Some l \<and> DECODE_SET c v = DECODE_SET c a \<and>
       (\<forall>b m. cpu_line c b = Some m \<longrightarrow> DECODE_SET c b = DECODE_SET c a \<longrightarrow> cl_timetouched l \<le> cl_timetouched m)) \<and>
    (\<forall>b. line_state c2 b = (if block c b = block c a then st else if block c b = block c v then CPU_INVALID else line_state c b))"
  using cpu_cache_fill_effect[OF assms] by blast

text \<open>An empty cache of one line.\<close>

definition empty_line_cache :: cpu_cache where
  "empty_line_cache = \<lparr>cc_assoc = 1, cc_level = 1, cc_set_shift = 7, cc_tag_shift = 7, cc_set_mask = 0, cc_line_mask = 127,
     cc_numrefs_for_repl = 0, cc_sets = [new_cset 1], cc_queue = [], cc_rq_size = 0, cc_blocked_queue = [], cc_bq_size = 0, cc_MSHR = []\<rparr>"

theorem cpu_cache_fill_witness:
  "\<exists>v pos c1 c2. victim_lookup 300 empty_line_cache = Some (v, pos, c1) \<and> replace_victim v 300 EXCLUSIVE pos c1 = Some c2 \<and>
     cpu_cache_ok c2 \<and> line_state c2 300 = EXCLUSIVE \<and> line_state c2 0 = CPU_INVALID"
proof -
  have ok: "cpu_cache_ok empty_line_cache"
    by (auto simp: cpu_cache_ok_def empty_line_cache_def set_ok_def n_valid_def lines_ok_def DECODE_SET_def new_cset_def new_cline_def
        intro!: exI[of _ 0])
  have inv: "line_state empty_line_cache 300 = CPU_INVALID" "line_state empty_line_cache 0 = CPU_INVALID"
    "block empty_line_cache 0 \<noteq> block empty_line_cache 300" by code_simp+
  from cpu_cache_fill[OF ok inv(1), of EXCLUSIVE] inv(2,3) show ?thesis by fastforce
qed

text \<open>The loop of \<open>queue_top_4\<close> has no bound: for a transaction that does not wait it runs out of the queue, where it was to
  return -1.\<close>

lemma queue_top_4_runs_out:
  assumes "cc_queue c \<noteq> []" "t \<notin> set (cc_queue c)"
  shows "queue_top_4 t c = None"
proof -
  have "t \<notin> set qs \<Longrightarrow> top_4_loop t qs = None" for qs by (induction qs) auto
  then show ?thesis using assms by (simp add: queue_top_4_def)
qed

subsection \<open>A hit\<close>

text \<open>An operation that changes no line's address or state.\<close>

definition same_lines :: "cpu_cache \<Rightarrow> cpu_cache \<Rightarrow> bool" where
  "same_lines c d \<longleftrightarrow> same_shape c d \<and> cc_MSHR d = cc_MSHR c \<and> cc_queue d = cc_queue c \<and> cpu_cache_ok d \<and>
     line_state d = line_state c"

lemma same_lines_refl: "cpu_cache_ok c \<Longrightarrow> same_lines c c"
  by (simp add: same_lines_def same_shape_def)

lemma same_lines_trans: "same_lines c d \<Longrightarrow> same_lines d e \<Longrightarrow> same_lines c e"
  by (simp add: same_lines_def same_shape_def)

lemma refs_same_lines:
  assumes "cpu_cache_ok c"
  shows "same_lines c (c\<lparr>cc_numrefs_for_repl := n\<rparr>)"
proof -
  have sh: "same_shape c (c\<lparr>cc_numrefs_for_repl := n\<rparr>)" by (simp add: same_shape_def)
  note E = same_shape_eqs[OF sh]
  have "cpu_cache_ok (c\<lparr>cc_numrefs_for_repl := n\<rparr>)" using assms by (simp add: cpu_cache_ok_def E)
  moreover have "line_state (c\<lparr>cc_numrefs_for_repl := n\<rparr>) = line_state c"
    by (simp add: fun_eq_iff line_state_def cpu_line_def E)
  ultimately show ?thesis using sh by (simp add: same_lines_def)
qed

lemma touch_line_list:
  assumes "i < length ls" "ls' = ls[i := (ls ! i)\<lparr>cl_timetouched := t\<rparr>]"
  shows "find_line c a ls' = find_line c a ls" "lines_ok c n ls' = lines_ok c n ls" "n_valid ls' = n_valid ls"
    "map_option cl_state (line_at c a ls') = map_option cl_state (line_at c a ls)"
proof -
  have e: "length ls' = length ls" "cl_address (ls' ! j) = cl_address (ls ! j)" "cl_state (ls' ! j) = cl_state (ls ! j)" for j
    using assms by (cases "i = j"; simp)+
  show f: "find_line c a ls' = find_line c a ls" by (simp add: find_line_def line_hit_def e)
  show "lines_ok c n ls' = lines_ok c n ls" by (simp add: lines_ok_def e)
  have "map cl_state ls' = map cl_state ls" by (rule nth_equalityI) (simp_all add: e)
  then have "filter (\<lambda>s. s \<noteq> CPU_INVALID) (map cl_state ls') = filter (\<lambda>s. s \<noteq> CPU_INVALID) (map cl_state ls)" by simp
  then have "length (filter (\<lambda>s. s \<noteq> CPU_INVALID) (map cl_state ls')) = length (filter (\<lambda>s. s \<noteq> CPU_INVALID) (map cl_state ls))" by simp
  then show "n_valid ls' = n_valid ls" by (simp add: n_valid_def filter_map comp_def)
  show "map_option cl_state (line_at c a ls') = map_option cl_state (line_at c a ls)"
    by (simp add: line_at_def f option.map_comp comp_def e)
qed

lemma line_state_map: "line_state c a = (case map_option cl_state (cpu_line c a) of None \<Rightarrow> CPU_INVALID | Some s \<Rightarrow> s)"
  by (simp add: line_state_def split: option.splits)

lemma func_look_up_touch:
  assumes "cpu_cache_ok c"
  shows "\<exists>d. func_look_up a True c = Some (line_state c a, d) \<and> same_lines c d"
proof -
  let ?s = "cc_sets c ! DECODE_SET c a"
  show ?thesis
  proof (cases "find_line c a (cs_clines ?s)")
    case None
    then show ?thesis using assms same_lines_refl[OF assms]
      by (simp add: func_look_up_def the_set_Some[OF assms] line_state_def cpu_line_def line_at_def)
  next
    case (Some i)
    note i = find_line_SomeD[OF Some]
    let ?s' = "put_line i ((cs_clines ?s ! i)\<lparr>cl_timetouched := cc_numrefs_for_repl c\<rparr>) ?s"
    let ?d = "put_set a ?s' c"
    have sh: "same_shape c ?d" by (simp add: same_shape_def put_set_def)
    have ls: "cs_clines ?s' = (cs_clines ?s)[i := (cs_clines ?s ! i)\<lparr>cl_timetouched := cc_numrefs_for_repl c\<rparr>]"
      by (simp add: put_line_def)
    note T = touch_line_list[OF i(1) ls]
    have "set_ok c (DECODE_SET c a) ?s" using assms decode_less[OF assms] by (simp add: cpu_cache_ok_def)
    then have "set_ok c (DECODE_SET c a) ?s'" using T(2,3) by (simp add: set_ok_def put_line_def)
    then have ok: "cpu_cache_ok ?d" by (rule put_set_ok[OF assms])
    have "map_option cl_state (cpu_line ?d b) = map_option cl_state (cpu_line c b)" for b
      unfolding cpu_line_put_set[OF assms] using T(4)[of c b] by (simp add: cpu_line_def[of c])
    then have "line_state ?d = line_state c" by (simp add: fun_eq_iff line_state_map)
    then have sl: "same_lines c ?d" using sh ok by (simp add: same_lines_def put_set_def)
    have "func_look_up a True c = Some (line_state c a, ?d)"
      by (simp add: func_look_up_def the_set_Some[OF assms] Some line_state_def cpu_line_def line_at_def Let_def)
    then show ?thesis using sl by blast
  qed
qed

end
