(* ===== verification/CpuTrace.thy ===== *)
theory CpuTrace
  imports CpuCacheInv CacheConfig
begin

text \<open>
  The trace a processor of the CPU model executes: \<open>processor_t::populateTraceBuffer\<close> of \<open>src/cpu-sim/processor.cpp\<close>
  reads the lines of a compressed file into \<open>mp_trace_buffer\<close> until it is full.  The file is zlib's: \<open>ts_read\<close> says
  what each look at it finds, \<open>gzeof\<close>, a failing \<open>gzgets\<close> or a line.  The lines are read as \<open>sscanf\<close> reads them; a
  conversion that fails would leave a variable as an earlier line left it, and has no value here.
  \<open>None\<close> is an \<open>exit(1)\<close>, a failed assertion, such a line, or a loop that never fills the buffer.
\<close>

datatype inst_type = CDLY_TYPE | READ_TYPE | WRITE_TYPE | NET_TYPE | MNET_TYPE

record trace_buffer_t =
  tb_type :: inst_type
  tb_cycles :: int
  tb_address :: int

datatype trace_format = INTEL_TRACE_FORMAT | MSR_TRACE_FORMAT | PEPSI_TRACE_FORMAT | NOP_TRACE_FORMAT

datatype gz_read = GzEof | GzError | GzLine string

record trace_source =
  ts_format :: trace_format
  ts_read :: "nat \<Rightarrow> gz_read"

subsection \<open>The conversions \<open>%d\<close>, \<open>%s\<close> and \<open>%llx\<close>\<close>

definition is_space :: "char \<Rightarrow> bool" where
  "is_space c \<longleftrightarrow> (of_char c :: nat) = 32 \<or> 9 \<le> (of_char c :: nat) \<and> (of_char c :: nat) \<le> 13"

definition scan_int :: "string \<Rightarrow> (int \<times> string) option" where
  "scan_int s =
     (let r = skip_space s; neg = (r \<noteq> [] \<and> hd r = CHR ''-'');
          body = (if r \<noteq> [] \<and> (hd r = CHR ''-'' \<or> hd r = CHR ''+'') then tl r else r) in
      if body \<noteq> [] \<and> is_digit (hd body)
      then (let (n, rest) = scan_digits 0 body; v = (if neg then - int n else int n) in
            if - 2147483648 \<le> v \<and> v \<le> 2147483647 then Some (v, rest) else None)
      else None)"

text \<open>The word must fit into \<open>ctype[20]\<close>.\<close>

definition scan_word :: "string \<Rightarrow> (string \<times> string) option" where
  "scan_word s =
     (let r = skip_space s; w = takeWhile (\<lambda>c. \<not> is_space c) r in
      if w \<noteq> [] \<and> length w < 20 then Some (w, dropWhile (\<lambda>c. \<not> is_space c) r) else None)"

definition hex_val :: "char \<Rightarrow> int option" where
  "hex_val c = (let n = (of_char c :: int) in
     if 48 \<le> n \<and> n \<le> 57 then Some (n - 48)
     else if 97 \<le> n \<and> n \<le> 102 then Some (n - 87)
     else if 65 \<le> n \<and> n \<le> 70 then Some (n - 55) else None)"

fun scan_hex_digits :: "int \<Rightarrow> string \<Rightarrow> int \<times> string" where
  "scan_hex_digits a [] = (a, [])"
| "scan_hex_digits a (c # cs) =
     (case hex_val c of None \<Rightarrow> (a, c # cs) | Some d \<Rightarrow> scan_hex_digits (16 * a + d) cs)"

definition scan_hex :: "string \<Rightarrow> (int \<times> string) option" where
  "scan_hex s =
     (let r = skip_space s;
          body = (if take 2 r = ''0x'' \<or> take 2 r = ''0X'' then drop 2 r else r) in
      if body \<noteq> [] \<and> hex_val (hd body) \<noteq> None
      then (let (n, rest) = scan_hex_digits 0 body in if n < 18446744073709551616 then Some (n, rest) else None)
      else None)"

subsection \<open>The records of a line\<close>

definition delay_record :: "int \<Rightarrow> trace_buffer_t" where
  "delay_record n = \<lparr>tb_type = CDLY_TYPE, tb_cycles = n, tb_address = 0\<rparr>"

text \<open>The number of the processor goes into the bits of the address from 48 on.\<close>

definition memory_record :: "inst_type \<Rightarrow> nat \<Rightarrow> int \<Rightarrow> trace_buffer_t" where
  "memory_record ty pid a = \<lparr>tb_type = ty, tb_cycles = 0, tb_address = take_bit 64 (a OR push_bit 48 (int pid))\<rparr>"

text \<open>The MSR format: a delay if it is not 0, then, when the buffer has room for it, a read or a write.\<close>

definition msr_records :: "nat \<Rightarrow> nat \<Rightarrow> string \<Rightarrow> trace_buffer_t list option" where
  "msr_records pid room l = do {
     (offset, r1) \<leftarrow> scan_int l;
     (ctype, r2) \<leftarrow> scan_word r1;
     (vaddr, r3) \<leftarrow> scan_hex r2;
     ensure (0 \<le> offset);
     let ds = (if offset \<noteq> 0 then [delay_record offset] else []);
     if ds \<noteq> [] \<and> room = 1 then Some ds
     else if ctype = ''R'' then Some (ds @ [memory_record READ_TYPE pid vaddr])
     else if ctype = ''W'' then Some (ds @ [memory_record WRITE_TYPE pid vaddr])
     else None
   }"

definition scan_default :: "string \<Rightarrow> int \<times> string" where
  "scan_default s = (case scan_int s of None \<Rightarrow> (0, []) | Some r \<Rightarrow> r)"

text \<open>The other formats; \<open>src\<close> and \<open>dst\<close> are 0 when they are missing, and a line that starts otherwise is skipped.\<close>

definition op_records :: "nat \<Rightarrow> string \<Rightarrow> trace_buffer_t list option" where
  "op_records pid l =
     (if take 4 l = ''CDLY'' then do {
        (ctype, r) \<leftarrow> scan_word l;
        (offset, r1) \<leftarrow> scan_int r;
        Some (if offset \<noteq> 0 then [delay_record offset] else []) }
      else if take 3 l = ''MRD'' then do {
        (ctype, r) \<leftarrow> scan_word l;
        (paddr, r1) \<leftarrow> scan_hex r;
        Some [memory_record READ_TYPE pid paddr] }
      else if take 3 l = ''MWR'' \<or> take 4 l = ''MWBX'' then do {
        (ctype, r) \<leftarrow> scan_word l;
        (paddr, r1) \<leftarrow> scan_hex r;
        Some [memory_record WRITE_TYPE pid paddr] }
      else if take 2 l = ''NT'' then do {
        (ctype, r) \<leftarrow> scan_word l;
        let (src, r1) = scan_default r;
        let (dst, r2) = scan_default r1;
        Some (if src = dst then [] else [\<lparr>tb_type = NET_TYPE, tb_cycles = 0, tb_address = 0\<rparr>]) }
      else if take 4 l = ''MNET'' then do {
        (ctype, r) \<leftarrow> scan_word l;
        Some [\<lparr>tb_type = MNET_TYPE, tb_cycles = 0, tb_address = 0\<rparr>] }
      else Some [])"

definition line_records :: "trace_format \<Rightarrow> nat \<Rightarrow> nat \<Rightarrow> string \<Rightarrow> trace_buffer_t list option" where
  "line_records fmt pid room l = (if fmt = MSR_TRACE_FORMAT then msr_records pid room l else op_records pid l)"

subsection \<open>The loop\<close>

text \<open>\<open>pos\<close> counts the looks at the file; at its end it is rewound.\<close>

partial_function (option) trace_loop ::
  "nat \<Rightarrow> trace_source \<Rightarrow> nat \<Rightarrow> nat \<Rightarrow> trace_buffer_t list \<Rightarrow> (trace_buffer_t list \<times> nat) option" where
  [code]: "trace_loop sz src pid pos buf =
     (if sz \<le> length buf then Some (buf, pos)
      else if ts_format src = NOP_TRACE_FORMAT then trace_loop sz src pid pos (buf @ [delay_record 5])
      else case ts_read src pos of
        GzEof \<Rightarrow> trace_loop sz src pid (pos + 1) buf
      | GzError \<Rightarrow> None
      | GzLine l \<Rightarrow> Option.bind (line_records (ts_format src) pid (sz - length buf) l)
          (\<lambda>rs. trace_loop sz src pid (pos + 1) (buf @ rs)))"

subsection \<open>Traces that can be executed\<close>

definition cpu_records :: "trace_buffer_t list \<Rightarrow> bool" where
  "cpu_records ts \<longleftrightarrow> (\<forall>t \<in> set ts. tb_type t \<in> {CDLY_TYPE, READ_TYPE, WRITE_TYPE})"

text \<open>A line that parses to delays, reads and writes.\<close>

definition line_ok :: "trace_format \<Rightarrow> string \<Rightarrow> bool" where
  "line_ok fmt l \<longleftrightarrow> (\<forall>pid room. 0 < room \<longrightarrow> (case line_records fmt pid room l of
     None \<Rightarrow> False | Some rs \<Rightarrow> cpu_records rs))"

definition line_counts :: "trace_format \<Rightarrow> string \<Rightarrow> bool" where
  "line_counts fmt l \<longleftrightarrow> (\<forall>pid room. 0 < room \<longrightarrow> line_records fmt pid room l \<noteq> Some [])"

text \<open>A file all of whose lines parse, that never fails to be read, and in which lines that count keep coming.\<close>

definition source_ok :: "trace_source \<Rightarrow> bool" where
  "source_ok src \<longleftrightarrow> ts_format src = NOP_TRACE_FORMAT \<or>
     (\<forall>i. ts_read src i \<noteq> GzError) \<and> (\<forall>i l. ts_read src i = GzLine l \<longrightarrow> line_ok (ts_format src) l) \<and>
     (\<forall>i. \<exists>n l. ts_read src (i + n) = GzLine l \<and> line_counts (ts_format src) l)"

lemma line_records_length:
  assumes "line_records fmt pid room l = Some rs" "0 < room"
  shows "length rs \<le> room"
proof -
  have "length rs \<le> room" if "msr_records pid room l = Some rs"
    using that assms(2) by (auto simp: msr_records_def Let_def split: if_splits prod.splits elim!: bind_SomeE)
  moreover have "length rs \<le> 1" if "op_records pid l = Some rs"
    using that by (auto simp: op_records_def Let_def split: if_splits prod.splits elim!: bind_SomeE)
  ultimately show ?thesis using assms by (fastforce simp: line_records_def split: if_splits)
qed

lemma trace_loop_nop:
  assumes "ts_format src = NOP_TRACE_FORMAT" "length buf \<le> sz" "cpu_records buf"
  shows "\<exists>ts. trace_loop sz src pid pos buf = Some (ts, pos) \<and> length ts = sz \<and> cpu_records ts"
  using assms(2,3)
proof (induction "sz - length buf" arbitrary: buf)
  case 0
  then show ?case by (subst trace_loop.simps) auto
next
  case (Suc n)
  let ?b = "buf @ [delay_record 5]"
  have "n = sz - length ?b" "length ?b \<le> sz" using Suc.hyps(2) by simp_all
  moreover have "cpu_records ?b" using Suc.prems(2) by (auto simp: cpu_records_def delay_record_def)
  ultimately obtain ts where "trace_loop sz src pid pos ?b = Some (ts, pos)" "length ts = sz" "cpu_records ts"
    using Suc.hyps(1) by blast
  then show ?case using Suc.hyps(2) assms(1) by (subst trace_loop.simps) auto
qed

lemma trace_loop_lines:
  assumes "ts_format src \<noteq> NOP_TRACE_FORMAT" "source_ok src" "length buf \<le> sz" "cpu_records buf"
  shows "\<exists>ts pos'. trace_loop sz src pid pos buf = Some (ts, pos') \<and> length ts = sz \<and> cpu_records ts"
  using assms(3,4)
proof (induction "sz - length buf" arbitrary: buf pos rule: less_induct)
  case less
  have S: "ts_read src i \<noteq> GzError" "ts_read src i = GzLine l \<Longrightarrow> line_ok (ts_format src) l"
    "\<exists>n l. ts_read src (i + n) = GzLine l \<and> line_counts (ts_format src) l" for i l
    using assms(1,2) unfolding source_ok_def by blast+
  show ?case
  proof (cases "sz \<le> length buf")
    case True
    with less.prems show ?thesis by (subst trace_loop.simps) auto
  next
    case False
    then have room: "0 < sz - length buf" by simp
    note un = trace_loop.simps[of sz src pid _ buf]
    have line: "\<exists>rs. line_records (ts_format src) pid (sz - length buf) l = Some rs \<and> cpu_records (buf @ rs) \<and>
        length (buf @ rs) \<le> sz" if "ts_read src i = GzLine l" for i l
    proof -
      from S(2)[OF that] room have "case line_records (ts_format src) pid (sz - length buf) l of
          None \<Rightarrow> False | Some rs \<Rightarrow> cpu_records rs" unfolding line_ok_def by blast
      then obtain rs where r: "line_records (ts_format src) pid (sz - length buf) l = Some rs" "cpu_records rs"
        by (auto split: option.splits)
      with line_records_length[OF r(1) room] less.prems(2) False show ?thesis by (auto simp: cpu_records_def)
    qed
    have fill: "\<exists>ts pos'. trace_loop sz src pid i buf = Some (ts, pos') \<and> length ts = sz \<and> cpu_records ts"
      if l: "ts_read src i = GzLine l" "line_counts (ts_format src) l" for i l
    proof -
      from line[OF l(1)] obtain rs where r: "line_records (ts_format src) pid (sz - length buf) l = Some rs"
        "cpu_records (buf @ rs)" "length (buf @ rs) \<le> sz" by blast
      have "rs \<noteq> []" using l(2) r(1) room unfolding line_counts_def by blast
      then have "sz - length (buf @ rs) < sz - length buf" using room by (cases rs) auto
      from less.hyps[OF this r(3,2), of "i + 1"] show ?thesis
        using False assms(1) l(1) r(1) by (simp add: un)
    qed
    have step: "\<exists>ts pos'. trace_loop sz src pid i buf = Some (ts, pos') \<and> length ts = sz \<and> cpu_records ts"
      if nxt: "\<exists>ts pos'. trace_loop sz src pid (i + 1) buf = Some (ts, pos') \<and> length ts = sz \<and> cpu_records ts" for i
    proof (cases "ts_read src i")
      case GzEof
      with nxt False assms(1) show ?thesis by (simp add: un)
    next
      case GzError
      with S(1) show ?thesis by blast
    next
      case (GzLine l)
      from line[OF this] obtain rs where r: "line_records (ts_format src) pid (sz - length buf) l = Some rs"
        "cpu_records (buf @ rs)" "length (buf @ rs) \<le> sz" by blast
      show ?thesis
      proof (cases "rs = []")
        case True
        with nxt False assms(1) GzLine r(1) show ?thesis by (simp add: un)
      next
        case ne: False
        then have "sz - length (buf @ rs) < sz - length buf" using room by (cases rs) auto
        from less.hyps[OF this r(3,2), of "i + 1"] show ?thesis
          using False assms(1) GzLine r(1) by (simp add: un)
      qed
    qed
    obtain n l where n: "ts_read src (pos + n) = GzLine l" "line_counts (ts_format src) l" using S(3) by blast
    have "m \<le> n \<Longrightarrow> \<exists>ts pos'. trace_loop sz src pid (pos + n - m) buf = Some (ts, pos') \<and> length ts = sz \<and> cpu_records ts" for m
    proof (induction m)
      case 0
      then show ?case using fill[OF n] by simp
    next
      case (Suc m)
      then have "pos + n - m = pos + n - Suc m + 1" by simp
      with Suc step show ?case by (metis Suc_leD)
    qed
    from this[of n] show ?thesis by simp
  qed
qed

text \<open>Every such file fills the buffer, wherever the reading stands.\<close>

lemma trace_loop_total:
  assumes "source_ok src"
  shows "\<exists>ts pos'. trace_loop sz src pid pos [] = Some (ts, pos') \<and> length ts = sz \<and> cpu_records ts"
proof (cases "ts_format src = NOP_TRACE_FORMAT")
  case True
  from trace_loop_nop[OF this, of "[]" sz pid pos] show ?thesis by (auto simp: cpu_records_def)
next
  case False
  from trace_loop_lines[OF this assms, of "[]" sz pid pos] show ?thesis by (simp add: cpu_records_def)
qed

text \<open>Lines of the two kinds of files.\<close>

lemma msr_read: "line_records MSR_TRACE_FORMAT pid room ''0 R 0'' = Some [memory_record READ_TYPE pid 0]"
  by (simp add: line_records_def msr_records_def scan_hex_def scan_int_def scan_word_def is_space_def is_digit_def digit_val_def
      hex_val_def)

lemma source_ok_always:
  assumes "\<And>i. \<exists>l. ts_read src i = GzLine l \<and> line_ok (ts_format src) l \<and> line_counts (ts_format src) l"
  shows "source_ok src"
proof -
  have "ts_read src i \<noteq> GzError" for i using assms[of i] by auto
  moreover have "line_ok (ts_format src) l" if "ts_read src i = GzLine l" for i l using assms[of i] that by auto
  moreover have "\<exists>n l. ts_read src (i + n) = GzLine l \<and> line_counts (ts_format src) l" for i
    using assms[of i] by (intro exI[of _ 0]) auto
  ultimately show ?thesis unfolding source_ok_def by blast
qed

lemma sample_lines:
  "map_option (map tb_type) (msr_records 0 9 ''12 W 7f0'') = Some [CDLY_TYPE, WRITE_TYPE]"
  "map_option (map tb_type) (msr_records 0 1 ''12 W 7f0'') = Some [CDLY_TYPE]"
  "map_option (map tb_address) (op_records 2 ''MRD 80 0'') = Some [562949953421440]"
  "op_records 0 ''NT 3 3'' = Some []"
  "map_option (map tb_type) (op_records 0 ''NT 3 4'') = Some [NET_TYPE]"
  by (code_simp, code_simp, code_simp, code_simp, code_simp)

end
