(* ===== verification/CpuCore.thy ===== *)
theory CpuCore
  imports CpuTrace
begin

text \<open>
  The processor of the CPU model (\<open>processor_t\<close> of \<open>src/cpu-sim/processor.cpp\<close>, \<open>processor.h\<close>) and the search of its
  private caches (\<open>transaction.cpp\<close>): a trace-driven core with a reorder buffer.  \<open>rob_array\<close> is a ring of
  \<open>window_size\<close> entries.  \<open>refill\<close> is the trace file of a processor (\<open>CpuTrace\<close>).  The \<open>exit\<close> of \<open>fetch\<close> for a memory
  instruction in the \<open>NOP\<close> format is left out: in that format the buffer holds delays only (\<open>trace_loop\<close>).
  The statistics are left out, and with them the entries they alone read; \<open>isOldestStallingNetwork\<close> stays, because it
  follows the pointer \<open>map_transaction\<close> returns, which is \<open>None\<close> here when it is the null pointer.
\<close>

record reorder_buffer_t =
  ro_ready :: bool
  ro_type :: inst_type
  ro_icount :: int
  ro_address :: int
  ro_tr_id :: int
  ro_min_retire_timestamp :: int
  ro_enter_time :: int

record cpu_config =
  ck_issue_width :: nat
  ck_commit_width :: nat
  ck_execution_width :: nat
  ck_flc_lookup_time :: int
  ck_mlc_lookup_time :: int
  ck_flc_rq_size :: nat
  ck_max_tr :: nat
  ck_trace_size :: nat

record processor =
  pr_procID :: nat
  pr_next :: nat
  pr_oldest :: nat
  pr_num_entrys :: nat
  pr_num_mem_entrys :: int
  pr_num_unfinished_mem_entrys :: int
  pr_instructions :: int
  pr_retired_instructions :: int
  pr_mem_op_id :: int
  pr_mp_trace_buffer :: "trace_buffer_t list"
  pr_trace_next :: nat
  pr_trace_pos :: nat
  pr_rob_array :: "reorder_buffer_t list"
  pr_throttle_mode :: bool
  pr_ot_MemRefs :: "int set"
  pr_cpu_response_fifo :: "mfp list"

text \<open>What a processor works on beside its own state: its caches, the transactions of all processors and the
  number of the next.\<close>

record cpu_world =
  wo_flc :: cpu_cache
  wo_mlc :: cpu_cache
  wo_tr_pool :: "TRANSTYPE list"
  wo_transaction_count :: int

abbreviation window_size :: "processor \<Rightarrow> nat" where
  "window_size p \<equiv> length (pr_rob_array p)"

definition set_rob :: "nat \<Rightarrow> (reorder_buffer_t \<Rightarrow> reorder_buffer_t) \<Rightarrow> processor \<Rightarrow> processor" where
  "set_rob i f p = p\<lparr>pr_rob_array := (pr_rob_array p)[i := f (pr_rob_array p ! i)]\<rparr>"

definition isEmpty :: "processor \<Rightarrow> bool" where
  "isEmpty p \<longleftrightarrow> pr_num_entrys p = 0"

definition isFull :: "processor \<Rightarrow> bool" where
  "isFull p \<longleftrightarrow> pr_num_entrys p = window_size p"

text \<open>The occupied positions, oldest first.\<close>

definition rob_positions :: "processor \<Rightarrow> nat list" where
  "rob_positions p = map (\<lambda>i. (pr_oldest p + i) mod window_size p) [0 ..< pr_num_entrys p]"

definition rob_match :: "processor \<Rightarrow> int \<Rightarrow> int \<Rightarrow> nat \<Rightarrow> bool" where
  "rob_match p a i k \<longleftrightarrow> ro_address (pr_rob_array p ! k) = a \<and> ro_tr_id (pr_rob_array p ! k) = i"

definition isPresent :: "int \<Rightarrow> int \<Rightarrow> processor \<Rightarrow> bool" where
  "isPresent a i p \<longleftrightarrow> (\<exists>k \<in> set (rob_positions p). rob_match p a i k)"

definition get_entry_id :: "int \<Rightarrow> int \<Rightarrow> processor \<Rightarrow> nat option" where
  "get_entry_id a i p = find (rob_match p a i) (rob_positions p)"

definition isOldestStallingNetwork :: "TRANSTYPE list \<Rightarrow> processor \<Rightarrow> bool option" where
  "isOldestStallingNetwork pool p = do {
     tr \<leftarrow> map_transaction (ro_tr_id (pr_rob_array p ! pr_oldest p)) pool;
     Some (tr_state tr \<in> {LLC_ICN_OVERFLOW, LLC_ICN_TRANSFER, MEM_ICN_TRANSFER} \<or>
       (tr_type tr = NETWORK \<or> tr_type tr = SIMPLE) \<and> tr_timestamp tr = BLOCKED) }"

text \<open>The line number is the address without its low seven bits.\<close>

definition setReady :: "int \<Rightarrow> nat \<Rightarrow> int \<Rightarrow> processor \<Rightarrow> processor option" where
  "setReady clock k i p = do {
     ensure (k < window_size p);
     ensure (ro_tr_id (pr_rob_array p ! k) = i);
     Some ((set_rob k (\<lambda>e. e\<lparr>ro_ready := True, ro_min_retire_timestamp := clock\<rparr>) p)
       \<lparr>pr_ot_MemRefs := pr_ot_MemRefs p - {drop_bit 7 (ro_address (pr_rob_array p ! k))},
        pr_num_unfinished_mem_entrys := pr_num_unfinished_mem_entrys p - 1\<rparr>) }"

subsection \<open>\<open>retire\<close>\<close>

fun retire_loop :: "int \<Rightarrow> TRANSTYPE list \<Rightarrow> nat \<Rightarrow> processor \<Rightarrow> processor option" where
  "retire_loop clock pool 0 p = Some p"
| "retire_loop clock pool (Suc n) p =
     (if isEmpty p then Some p
      else let e = pr_rob_array p ! pr_oldest p in
        if ro_ready e \<and> ro_min_retire_timestamp e \<le> clock then
          let p1 = p\<lparr>pr_retired_instructions := pr_retired_instructions p + 1, pr_num_entrys := pr_num_entrys p - 1,
                pr_oldest := (pr_oldest p + 1) mod window_size p\<rparr> in
          if ro_type e \<noteq> CDLY_TYPE then Some (p1\<lparr>pr_num_mem_entrys := pr_num_mem_entrys p - 1\<rparr>)
          else retire_loop clock pool n p1
        else do { isOldestStallingNetwork pool p; Some p })"

definition retire :: "cpu_config \<Rightarrow> int \<Rightarrow> TRANSTYPE list \<Rightarrow> processor \<Rightarrow> processor option" where
  "retire ck clock pool p = retire_loop clock pool (ck_commit_width ck) p"

subsection \<open>\<open>executeNonMemoryInstructions\<close>\<close>

fun execute_loop :: "nat \<Rightarrow> nat \<Rightarrow> processor \<Rightarrow> processor" where
  "execute_loop 0 i p = p"
| "execute_loop (Suc n) i p =
     (let k = (pr_oldest p + i) mod window_size p in
      if ro_type (pr_rob_array p ! k) = CDLY_TYPE
      then execute_loop n (i + 1) (set_rob k (\<lambda>e. e\<lparr>ro_ready := True\<rparr>) p) else p)"

definition executeNonMemoryInstructions :: "cpu_config \<Rightarrow> processor \<Rightarrow> processor" where
  "executeNonMemoryInstructions ck p = execute_loop (ck_execution_width ck) 0 p"

subsection \<open>The search of the caches\<close>

text \<open>\<open>determinel1miss\<close> and \<open>determinel2miss\<close>: reads and writes miss alike.  \<open>numrefs_for_repl\<close> is taken back after a miss.\<close>

definition determine_miss :: "int \<Rightarrow> cpu_cache \<Rightarrow> (bool \<times> cpu_cache) option" where
  "determine_miss a c = do {
     (st, c1) \<leftarrow> func_look_up a False c;
     (if st = CPU_INVALID then Some (True, c1)
      else do {
        (st2, c2) \<leftarrow> func_look_up a True (c1\<lparr>cc_numrefs_for_repl := cc_numrefs_for_repl c1 + 1\<rparr>);
        Some (False, c2) }) }"

definition new_transaction :: "int \<Rightarrow> processor \<Rightarrow> int \<Rightarrow> int \<Rightarrow> trace_buffer_t \<Rightarrow> TRANSTYPE" where
  "new_transaction clock p i m t = \<lparr>tr_type = (if tb_type t = READ_TYPE then CPU_READ else CPU_WRITE), tr_state = START,
     tr_tr_id = i, tr_address = tb_address t, tr_cpuid = pr_procID p, tr_timestamp = clock, tr_mem_op_id = as_int m,
     tr_rob_entry = pr_next p, tr_ptr_to_mf = None\<rparr>"

text \<open>\<open>hit\<close> is the code under \<open>insert == false\<close>.\<close>

definition insertMemTransaction ::
  "cpu_config \<Rightarrow> int \<Rightarrow> trace_buffer_t \<Rightarrow> cpu_world \<times> processor \<Rightarrow> (cpu_world \<times> processor) option" where
  "insertMemTransaction ck clock t wp = (case wp of (w, p0) \<Rightarrow>
     let line = drop_bit 7 (tb_address t); present = line \<in> pr_ot_MemRefs p0; n = pr_next p0;
         p = p0\<lparr>pr_ot_MemRefs := insert line (pr_ot_MemRefs p0)\<rparr>;
         hit = (\<lambda>time p. (set_rob n (\<lambda>e. e\<lparr>ro_ready := True, ro_min_retire_timestamp := time\<rparr>) p)
           \<lparr>pr_num_unfinished_mem_entrys := pr_num_unfinished_mem_entrys p - 1\<rparr>) in
     if present \<and> tb_type t = READ_TYPE then Some (w, hit (ro_min_retire_timestamp (pr_rob_array p ! n)) p)
     else do {
       (miss1, flc) \<leftarrow> determine_miss (tb_address t) (wo_flc w);
       let w1 = w\<lparr>wo_flc := flc\<rparr>; t1 = clock + ck_flc_lookup_time ck in
       if \<not> miss1 then Some (w1, hit t1 p)
       else do {
         (miss2, mlc) \<leftarrow> determine_miss (tb_address t) (wo_mlc w1);
         let w2 = w1\<lparr>wo_mlc := mlc\<rparr>; t2 = t1 + ck_mlc_lookup_time ck in
         if \<not> miss2 then Some (w2, hit t2 p)
         else
           let i = wo_transaction_count w2 in
           Some (w2\<lparr>wo_tr_pool := wo_tr_pool w2 @ [new_transaction clock p i (pr_mem_op_id p) t],
                   wo_transaction_count := i + 1\<rparr>,
                 (set_rob n (\<lambda>e. e\<lparr>ro_tr_id := i, ro_min_retire_timestamp := t2\<rparr>) p)\<lparr>pr_mem_op_id := pr_mem_op_id p + 1\<rparr>) } })"

subsection \<open>\<open>fetch\<close>\<close>

text \<open>\<open>pr_trace_pos\<close> counts the looks at the file; \<open>ck_trace_size\<close> is \<open>MAX_TRACE_SIZE\<close>.\<close>

definition populateTraceBuffer :: "cpu_config \<Rightarrow> trace_source \<Rightarrow> processor \<Rightarrow> processor option" where
  "populateTraceBuffer ck refill p = do {
     (ts, pos) \<leftarrow> trace_loop (ck_trace_size ck) refill (pr_procID p) (pr_trace_pos p) [];
     Some (p\<lparr>pr_trace_next := 0, pr_mp_trace_buffer := ts, pr_trace_pos := pos\<rparr>)
   }"

definition advance_trace :: "cpu_config \<Rightarrow> trace_source \<Rightarrow> processor \<Rightarrow> processor option" where
  "advance_trace ck refill p = (let p1 = p\<lparr>pr_trace_next := pr_trace_next p + 1\<rparr> in
     if pr_trace_next p1 = ck_trace_size ck then populateTraceBuffer ck refill p1 else Some p1)"

definition flc_transfer_overflow :: "cpu_config \<Rightarrow> nat \<Rightarrow> cpu_world \<Rightarrow> bool" where
  "flc_transfer_overflow ck cpuid w \<longleftrightarrow> (let size = length (cc_queue (wo_flc w)) in
     ck_flc_rq_size ck \<le> size \<or>
     ck_flc_rq_size ck \<le> size + length (filter (\<lambda>tr. tr_cpuid tr = cpuid \<and> tr_state tr = MLC_BUS_TRANSFER) (wo_tr_pool w)))"

definition fetched :: "int \<Rightarrow> inst_type \<Rightarrow> int \<Rightarrow> processor \<Rightarrow> processor" where
  "fetched clock ty a p = (set_rob (pr_next p) (\<lambda>e. e\<lparr>ro_type := ty, ro_ready := False, ro_icount := pr_instructions p + 1,
     ro_address := a, ro_tr_id := - 1, ro_enter_time := clock, ro_min_retire_timestamp := clock\<rparr>) p)
     \<lparr>pr_instructions := pr_instructions p + 1, pr_num_entrys := pr_num_entrys p + 1\<rparr>"

definition next_slot :: "processor \<Rightarrow> processor" where
  "next_slot p = p\<lparr>pr_next := (pr_next p + 1) mod window_size p\<rparr>"

definition fetch_delay :: "cpu_config \<Rightarrow> trace_source \<Rightarrow> int \<Rightarrow> trace_buffer_t \<Rightarrow> processor \<Rightarrow> processor option" where
  "fetch_delay ck refill clock t p =
     (let p1 = next_slot (fetched clock CDLY_TYPE (- 1) p);
          p2 = p1\<lparr>pr_mp_trace_buffer := (pr_mp_trace_buffer p1)[pr_trace_next p1 := t\<lparr>tb_cycles := tb_cycles t - 1\<rparr>]\<rparr> in
      if tb_cycles t - 1 \<le> 0 then advance_trace ck refill p2 else Some p2)"

text \<open>\<open>LOCALITY_AWARE_BANK_MAP\<close> is off.\<close>

definition fetch_memory ::
  "cpu_config \<Rightarrow> trace_source \<Rightarrow> int \<Rightarrow> trace_buffer_t \<Rightarrow> cpu_world \<times> processor \<Rightarrow> (cpu_world \<times> processor) option" where
  "fetch_memory ck refill clock t wp = (case wp of (w, p) \<Rightarrow>
     if ck_max_tr ck < length (wo_tr_pool w) \<or> flc_transfer_overflow ck (pr_procID p) w \<or> pr_throttle_mode p then Some (w, p)
     else do {
       ensure (tb_type t = READ_TYPE \<or> tb_type t = WRITE_TYPE);
       let p1 = (fetched clock (tb_type t) (tb_address t) p)\<lparr>pr_num_mem_entrys := pr_num_mem_entrys p + 1,
                 pr_num_unfinished_mem_entrys := pr_num_unfinished_mem_entrys p + 1\<rparr> in do {
       (w2, p2) \<leftarrow> insertMemTransaction ck clock t (w, p1);
       p3 \<leftarrow> advance_trace ck refill (next_slot p2);
       Some (w2, p3) } })"

fun fetch_loop :: "cpu_config \<Rightarrow> trace_source \<Rightarrow> int \<Rightarrow> nat \<Rightarrow> cpu_world \<times> processor \<Rightarrow> (cpu_world \<times> processor) option" where
  "fetch_loop ck refill clock 0 wp = Some wp"
| "fetch_loop ck refill clock (Suc n) (w, p) =
     (if isFull p then Some (w, p)
      else do {
        ensure (pr_trace_next p < length (pr_mp_trace_buffer p));
        let t = pr_mp_trace_buffer p ! pr_trace_next p in
        if tb_type t = CDLY_TYPE then do { p1 \<leftarrow> fetch_delay ck refill clock t p; fetch_loop ck refill clock n (w, p1) }
        else fetch_memory ck refill clock t (w, p) })"

definition fetch :: "cpu_config \<Rightarrow> trace_source \<Rightarrow> int \<Rightarrow> cpu_world \<times> processor \<Rightarrow> (cpu_world \<times> processor) option" where
  "fetch ck refill clock wp = fetch_loop ck refill clock (ck_issue_width ck) wp"

subsection \<open>\<open>doCycle\<close>\<close>

definition doCycle :: "cpu_config \<Rightarrow> trace_source \<Rightarrow> int \<Rightarrow> cpu_world \<times> processor \<Rightarrow> (cpu_world \<times> processor) option" where
  "doCycle ck refill clock wp = do {
     (w, p) \<leftarrow> fetch ck refill clock wp;
     p1 \<leftarrow> retire ck clock (wo_tr_pool w) (executeNonMemoryInstructions ck p);
     ensure (0 \<le> pr_num_mem_entrys p1 \<and> pr_num_mem_entrys p1 \<le> int (window_size p1));
     ensure (pr_num_entrys p1 \<le> window_size p1);
     ensure (pr_oldest p1 \<le> window_size p1 \<and> pr_next p1 \<le> window_size p1);
     Some (w, p1) }"

text \<open>\<open>retired_instructions\<close> is not set: \<open>retired\<close> is what it was, 0 in the global array of processors.\<close>

definition initProcessor ::
  "cpu_config \<Rightarrow> trace_source \<Rightarrow> nat \<Rightarrow> nat \<Rightarrow> reorder_buffer_t list \<Rightarrow> processor option" where
  "initProcessor ck refill proc_id retired rob = populateTraceBuffer ck refill
     \<lparr>pr_procID = proc_id, pr_next = 0, pr_oldest = 0, pr_num_entrys = 0, pr_num_mem_entrys = 0,
      pr_num_unfinished_mem_entrys = 0, pr_instructions = 0, pr_retired_instructions = int retired, pr_mem_op_id = 0,
      pr_mp_trace_buffer = [], pr_trace_next = 0, pr_trace_pos = 0, pr_rob_array = rob, pr_throttle_mode = False,
      pr_ot_MemRefs = {}, pr_cpu_response_fifo = []\<rparr>"

end
