(* ===== verification/CpuMem.thy ===== *)
theory CpuMem
  imports CpuCore Mshr AddrDec
begin

text \<open>
  The memory side of the CPU model: \<open>simulate_memory\<close> and \<open>cpu_cycle\<close> of \<open>src/cpu-sim/cpu_engine.cpp\<close> and
  \<open>processor_t::cpu_icnt_cycle\<close>.  A miss of both private caches is a transaction; the first for a line sends a request to
  a memory partition, the others wait in the \<open>MSHR\<close> of the second cache until the reply fills the line.

  The network is outside: \<open>room\<close> is what \<open>icnt_has_buffer\<close> answers, by transaction (each asks at most once in a
  cycle), the packets pushed are part of the result, and \<open>reply\<close> is what \<open>icnt_pop\<close> returns.  The numbers of the devices are
  those of \<open>shader_core_config\<close>.
\<close>

record device_config =
  dv_n_simt_clusters :: nat
  dv_n_cores_per_cluster :: nat
  dv_n_cpu :: nat

record cpu_packet =
  cp_src :: nat
  cp_dst :: nat
  cp_mf :: mfp
  cp_size :: u32

record cpu_sys =
  sy_procs :: "processor list"
  sy_flc :: "cpu_cache list"
  sy_mlc :: "cpu_cache list"
  sy_pool :: "TRANSTYPE list"
  sy_transaction_count :: int
  sy_heap :: heap
  sy_next_mf :: mfp

definition cpu_device :: "device_config \<Rightarrow> nat \<Rightarrow> nat" where
  "cpu_device dv cpuid = dv_n_simt_clusters dv + cpuid"

definition cpu2core :: "device_config \<Rightarrow> nat \<Rightarrow> nat" where
  "cpu2core dv cpuid = dv_n_simt_clusters dv * dv_n_cores_per_cluster dv + cpuid"

definition memory_device :: "device_config \<Rightarrow> nat \<Rightarrow> nat" where
  "memory_device dv chip = chip + dv_n_simt_clusters dv + dv_n_cpu dv"

definition set_tr :: "nat \<Rightarrow> (TRANSTYPE \<Rightarrow> TRANSTYPE) \<Rightarrow> cpu_sys \<Rightarrow> cpu_sys" where
  "set_tr i f s = s\<lparr>sy_pool := (sy_pool s)[i := f (sy_pool s ! i)]\<rparr>"

definition cache_of :: "nat \<Rightarrow> cpu_cache list \<Rightarrow> cpu_cache option" where
  "cache_of k cs = (if k < length cs then Some (cs ! k) else None)"

definition CLINE_CTRL_SIZE :: u32 where "CLINE_CTRL_SIZE = 8"
definition CLINE_REQUEST_SIZE :: u32 where "CLINE_REQUEST_SIZE = 128"

definition request_size :: "TRANSTYPE \<Rightarrow> u32" where
  "request_size tr = (if tr_type tr = CPU_WRITE then CLINE_REQUEST_SIZE else CLINE_CTRL_SIZE)"

definition cpu_request :: "device_config \<Rightarrow> mf_env \<Rightarrow> u64 \<Rightarrow> TRANSTYPE \<Rightarrow> mem_fetch" where
  "cpu_request dv env now tr = mf_set_status IN_ICNT_TO_MEM now
     (new_mem_fetch env (mem_access GLOBAL_ACC_R (word_of_int (tr_address tr)) CLINE_REQUEST_SIZE (tr_type tr = CPU_WRITE))
        False (request_size tr) (word_of_int (tr_tr_id tr)) (word_of_nat (cpu2core dv (tr_cpuid tr)))
        (word_of_nat (cpu_device dv (tr_cpuid tr))))"

subsection \<open>\<open>simulate_memory\<close>\<close>

definition core_to_llc ::
  "device_config \<Rightarrow> mf_env \<Rightarrow> addr_map \<Rightarrow> u64 \<Rightarrow> (int \<Rightarrow> bool) \<Rightarrow> nat \<Rightarrow> cpu_sys \<Rightarrow> (cpu_sys \<times> cpu_packet list) option" where
  "core_to_llc dv env am now room i s = (let tr = sy_pool s ! i; k = tr_cpuid tr in do {
     flc \<leftarrow> cache_of k (sy_flc s);
     mlc \<leftarrow> cache_of k (sy_mlc s);
     _ \<leftarrow> func_look_up (tr_address tr) False flc;
     (st, _) \<leftarrow> func_look_up (tr_address tr) False mlc;
     (if st \<noteq> CPU_INVALID then Some (set_tr i (\<lambda>t. t\<lparr>tr_state := EXIT\<rparr>) s, [])
      else if \<not> room (tr_tr_id tr) then Some (s, [])
      else
        let (merged, mlc') = insert_blocked_queue (tr_tr_id tr) (tr_address tr) mlc; s1 = s\<lparr>sy_mlc := (sy_mlc s)[k := mlc']\<rparr> in
        if merged then Some (set_tr i (\<lambda>t. t\<lparr>tr_timestamp := BLOCKED, tr_state := LLC_MSHR_PENDING\<rparr>) s1, [])
        else
          let mf = cpu_request dv env now tr; p = sy_next_mf s in do {
          tlx \<leftarrow> addrdec_tlx am (ma_addr (mf_access mf)) (mf_is_gpu mf);
          Some (set_tr i (\<lambda>t. t\<lparr>tr_timestamp := - 1, tr_ptr_to_mf := Some p\<rparr>)
              (s1\<lparr>sy_heap := (sy_heap s)(p \<mapsto> mf), sy_next_mf := p + 1\<rparr>),
            [\<lparr>cp_src = cpu_device dv k, cp_dst = memory_device dv (unat (tlx_chip tlx)), cp_mf = p, cp_size = request_size tr\<rparr>]) }) })"

text \<open>A cache takes the line, and the transactions that wait for it at this level are let go.\<close>

definition take_line :: "int \<Rightarrow> nat \<Rightarrow> cpu_cache \<times> TRANSTYPE list \<Rightarrow> (cpu_cache \<times> TRANSTYPE list) option" where
  "take_line clock i cp = (case cp of (c, pool) \<Rightarrow> let a = tr_address (pool ! i) in do {
     (st, _) \<leftarrow> func_look_up a False c;
     (if st \<noteq> CPU_INVALID then Some (c, pool)
      else do {
        (v, pos, c1) \<leftarrow> victim_lookup a c;
        c2 \<leftarrow> replace_victim v a EXCLUSIVE pos c1;
        _ \<leftarrow> func_look_up a False c2;
        (c3, pool1) \<leftarrow> delete_blocked_queue clock a (c2, pool[i := (pool ! i)\<lparr>tr_timestamp := clock\<rparr>]);
        Some (c3, pool1[i := (pool1 ! i)\<lparr>tr_state := EXIT\<rparr>]) }) })"

definition llc_to_core :: "int \<Rightarrow> nat \<Rightarrow> cpu_sys \<Rightarrow> cpu_sys option" where
  "llc_to_core clock i s = (let k = tr_cpuid (sy_pool s ! i) in do {
     flc \<leftarrow> cache_of k (sy_flc s);
     mlc \<leftarrow> cache_of k (sy_mlc s);
     (mlc', pool1) \<leftarrow> take_line clock i (mlc, sy_pool s);
     (flc', pool2) \<leftarrow> take_line clock i (flc, pool1);
     Some (s\<lparr>sy_pool := pool2, sy_mlc := (sy_mlc s)[k := mlc'], sy_flc := (sy_flc s)[k := flc']\<rparr>) })"

definition delete_mf :: "mfp option \<Rightarrow> heap \<Rightarrow> heap" where
  "delete_mf p h = (case p of None \<Rightarrow> h | Some q \<Rightarrow> h(q := None))"

definition drop_nth :: "nat \<Rightarrow> 'a list \<Rightarrow> 'a list" where
  "drop_nth i xs = take i xs @ drop (Suc i) xs"

definition exit_transaction :: "int \<Rightarrow> nat \<Rightarrow> cpu_sys \<Rightarrow> cpu_sys option" where
  "exit_transaction clock i s = (let tr = sy_pool s ! i; k = tr_cpuid tr in do {
     ensure (k < length (sy_procs s));
     ensure (isPresent (tr_address tr) (tr_tr_id tr) (sy_procs s ! k));
     (case get_entry_id (tr_address tr) (as_int (tr_tr_id tr)) (sy_procs s ! k) of
        None \<Rightarrow> Some s
      | Some e \<Rightarrow>
          if tr_mem_op_id tr = - 1 then Some s
          else do {
            p \<leftarrow> setReady clock e (tr_tr_id tr) (sy_procs s ! k);
            Some (s\<lparr>sy_procs := (sy_procs s)[k := p], sy_pool := drop_nth i (sy_pool s),
                    sy_heap := delete_mf (tr_ptr_to_mf tr) (sy_heap s)\<rparr>) }) })"

definition transaction_turn ::
  "device_config \<Rightarrow> cpu_config \<Rightarrow> mf_env \<Rightarrow> addr_map \<Rightarrow> int \<Rightarrow> u64 \<Rightarrow> (int \<Rightarrow> bool) \<Rightarrow> nat \<Rightarrow> cpu_sys \<times> cpu_packet list \<Rightarrow>
   (cpu_sys \<times> cpu_packet list) option" where
  "transaction_turn dv ck env am clock now room i so = (case so of (s, out) \<Rightarrow>
     if length (sy_pool s) \<le> i then Some (s, out)
     else let tr = sy_pool s ! i in
       if clock < tr_timestamp tr \<or> tr_timestamp tr = - 1 then Some (s, out)
       else case tr_state tr of
         START \<Rightarrow> Some (set_tr i (\<lambda>t. t\<lparr>tr_timestamp := clock + ck_flc_lookup_time ck + ck_mlc_lookup_time ck,
             tr_state := CORE_TO_LLC\<rparr>) s, out)
       | CORE_TO_LLC \<Rightarrow> do { (s', sent) \<leftarrow> core_to_llc dv env am now room i s; Some (s', out @ sent) }
       | LLC_TO_CORE \<Rightarrow> do { s' \<leftarrow> llc_to_core clock i s; Some (s', out) }
       | EXIT \<Rightarrow> do { s' \<leftarrow> exit_transaction clock i s; Some (s', out) }
       | _ \<Rightarrow> Some (s, out))"

text \<open>The index runs up to the length of the pool, which only shrinks; a transaction that is erased hands its place to the next.\<close>

definition simulate_memory ::
  "device_config \<Rightarrow> cpu_config \<Rightarrow> mf_env \<Rightarrow> addr_map \<Rightarrow> int \<Rightarrow> u64 \<Rightarrow> (int \<Rightarrow> bool) \<Rightarrow> cpu_sys \<Rightarrow> (cpu_sys \<times> cpu_packet list) option" where
  "simulate_memory dv ck env am clock now room s =
     fold_opt (transaction_turn dv ck env am clock now room) [0 ..< length (sy_pool s)] (s, [])"

subsection \<open>The processors\<close>

definition processor_cycle :: "cpu_config \<Rightarrow> (nat \<Rightarrow> trace_source) \<Rightarrow> int \<Rightarrow> nat \<Rightarrow> cpu_sys \<Rightarrow> cpu_sys option" where
  "processor_cycle ck refill clock k s = do {
     ensure (k < length (sy_procs s));
     flc \<leftarrow> cache_of k (sy_flc s);
     mlc \<leftarrow> cache_of k (sy_mlc s);
     (w, p) \<leftarrow> doCycle ck (refill k) clock
       (\<lparr>wo_flc = flc, wo_mlc = mlc, wo_tr_pool = sy_pool s, wo_transaction_count = sy_transaction_count s\<rparr>, sy_procs s ! k);
     Some (s\<lparr>sy_procs := (sy_procs s)[k := p], sy_flc := (sy_flc s)[k := wo_flc w], sy_mlc := (sy_mlc s)[k := wo_mlc w],
             sy_pool := wo_tr_pool w, sy_transaction_count := wo_transaction_count w\<rparr>) }"

definition cpu_cycle ::
  "device_config \<Rightarrow> cpu_config \<Rightarrow> mf_env \<Rightarrow> addr_map \<Rightarrow> (nat \<Rightarrow> trace_source) \<Rightarrow> int \<Rightarrow> u64 \<Rightarrow> (int \<Rightarrow> bool) \<Rightarrow>
   cpu_sys \<Rightarrow> (cpu_sys \<times> cpu_packet list) option" where
  "cpu_cycle dv ck env am refill clock now room s = do {
     s1 \<leftarrow> fold_opt (processor_cycle ck refill clock) [0 ..< length (sy_procs s)] s;
     simulate_memory dv ck env am clock now room s1 }"

text \<open>The first reply that waits goes to its transaction, which is found by the warp number of the request, an \<open>unsigned\<close>.\<close>

definition deliver_reply :: "int \<Rightarrow> nat \<Rightarrow> cpu_sys \<Rightarrow> cpu_sys option" where
  "deliver_reply clock k s = (let p = sy_procs s ! k in
     case pr_cpu_response_fifo p of
       [] \<Rightarrow> Some s
     | q # qs \<Rightarrow> do {
         mf \<leftarrow> sy_heap s q;
         pool \<leftarrow> update_transaction (uint (mf_wid mf)) (\<lambda>t. t\<lparr>tr_timestamp := clock + 1, tr_state := LLC_TO_CORE\<rparr>) (sy_pool s);
         Some (s\<lparr>sy_pool := pool, sy_procs := (sy_procs s)[k := p\<lparr>pr_cpu_response_fifo := qs\<rparr>]\<rparr>) })"

definition accept_reply :: "device_config \<Rightarrow> u64 \<Rightarrow> mfp option \<Rightarrow> nat \<Rightarrow> cpu_sys \<Rightarrow> cpu_sys option" where
  "accept_reply dv now reply k s = (let p = sy_procs s ! k in
     if length (pr_cpu_response_fifo p) < 8 then
       (case reply of
          None \<Rightarrow> Some s
        | Some q \<Rightarrow> do {
            mf \<leftarrow> sy_heap s q;
            ensure (unat (mf_tpc mf) = cpu_device dv k);
            ensure (mf_mtype mf = CPU_READ_REPLY \<or> mf_mtype mf = CPU_WRITE_REPLY);
            Some (s\<lparr>sy_heap := (sy_heap s)(q \<mapsto> mf_set_status IN_ICNT_TO_SHADER now mf),
                    sy_procs := (sy_procs s)[k := p\<lparr>pr_cpu_response_fifo := pr_cpu_response_fifo p @ [q]\<rparr>]\<rparr>) })
     else Some s)"

definition cpu_icnt_cycle :: "device_config \<Rightarrow> int \<Rightarrow> u64 \<Rightarrow> mfp option \<Rightarrow> nat \<Rightarrow> cpu_sys \<Rightarrow> cpu_sys option" where
  "cpu_icnt_cycle dv clock now reply k s = do {
     ensure (k < length (sy_procs s));
     s1 \<leftarrow> deliver_reply clock k s;
     accept_reply dv now reply k s1 }"

end
