(* ===== verification/CpuCoreInv.thy ===== *)
theory CpuCoreInv
  imports CpuCore
begin

text \<open>
  The reorder buffer of the CPU model (\<open>src/cpu-sim/processor.cpp\<close>) as the list of its entries, oldest first: \<open>fetch\<close>
  appends, \<open>retire\<close> takes from the front, and what lies outside the occupied part of the ring does not matter.
\<close>

definition rob_ok :: "processor \<Rightarrow> bool" where
  "rob_ok p \<longleftrightarrow> 0 < window_size p \<and> pr_oldest p < window_size p \<and> pr_num_entrys p \<le> window_size p \<and>
     pr_next p = (pr_oldest p + pr_num_entrys p) mod window_size p"

definition rob_list :: "processor \<Rightarrow> reorder_buffer_t list" where
  "rob_list p = map (\<lambda>k. pr_rob_array p ! k) (rob_positions p)"

lemma length_rob_positions [simp]: "length (rob_positions p) = pr_num_entrys p"
  by (simp add: rob_positions_def)

lemma length_rob_list [simp]: "length (rob_list p) = pr_num_entrys p"
  by (simp add: rob_list_def)

lemma rob_position: "i < pr_num_entrys p \<Longrightarrow> rob_positions p ! i = (pr_oldest p + i) mod window_size p"
  by (simp add: rob_positions_def)

lemma rob_list_nth: "i < pr_num_entrys p \<Longrightarrow> rob_list p ! i = pr_rob_array p ! ((pr_oldest p + i) mod window_size p)"
  by (simp add: rob_list_def rob_position)

text \<open>Positions of the ring are different.\<close>

lemma ring_inj:
  assumes "(b + i) mod w = (b + j) mod (w :: nat)" "i < w" "j < w"
  shows "i = j"
proof -
  have "\<bar>int i - int j\<bar> < int w" using assms(2,3) by linarith
  moreover have "int w dvd int (b + i) - int (b + j)"
    using assms(1) by (metis mod_eq_dvd_iff of_nat_mod)
  then have "int w dvd int i - int j" by simp
  ultimately show "i = j" using zdvd_not_zless[of "\<bar>int i - int j\<bar>" "int w"] by (cases "i = j") auto
qed

lemma rob_positions_distinct: "rob_ok p \<Longrightarrow> distinct (rob_positions p)"
  by (auto simp: distinct_conv_nth rob_position rob_ok_def dest: ring_inj)

lemma rob_positions_less: "rob_ok p \<Longrightarrow> k \<in> set (rob_positions p) \<Longrightarrow> k < window_size p"
  by (auto simp: rob_positions_def rob_ok_def)

text \<open>Writing an entry: the \<open>i\<close>-th of the list, or one outside the occupied part.\<close>

lemma set_rob_fields [simp]:
  "pr_oldest (set_rob k f p) = pr_oldest p" "pr_next (set_rob k f p) = pr_next p"
  "pr_num_entrys (set_rob k f p) = pr_num_entrys p" "length (pr_rob_array (set_rob k f p)) = length (pr_rob_array p)"
  "pr_procID (set_rob k f p) = pr_procID p" "pr_cpu_response_fifo (set_rob k f p) = pr_cpu_response_fifo p"
  "pr_retired_instructions (set_rob k f p) = pr_retired_instructions p" "pr_instructions (set_rob k f p) = pr_instructions p"
  "pr_num_mem_entrys (set_rob k f p) = pr_num_mem_entrys p" "pr_mem_op_id (set_rob k f p) = pr_mem_op_id p"
  "pr_mp_trace_buffer (set_rob k f p) = pr_mp_trace_buffer p" "pr_trace_next (set_rob k f p) = pr_trace_next p"
  by (simp_all add: set_rob_def)

lemma rob_ok_set_rob [simp]: "rob_ok (set_rob k f p) = rob_ok p"
  by (simp add: rob_ok_def)

lemma rob_list_set_rob:
  assumes "rob_ok p" "i < pr_num_entrys p"
  shows "rob_list (set_rob ((pr_oldest p + i) mod window_size p) f p) = (rob_list p)[i := f (rob_list p ! i)]"
proof (rule nth_equalityI)
  fix j assume j: "j < length (rob_list (set_rob ((pr_oldest p + i) mod window_size p) f p))"
  have e: "(pr_oldest p + i) mod window_size p = (pr_oldest p + j) mod window_size p \<longleftrightarrow> i = j"
    using ring_inj[of "pr_oldest p" i "window_size p" j] assms j by (auto simp: rob_ok_def)
  have w: "(pr_oldest p + j) mod window_size p < window_size p" using assms(1) by (simp add: rob_ok_def)
  show "rob_list (set_rob ((pr_oldest p + i) mod window_size p) f p) ! j = (rob_list p)[i := f (rob_list p ! i)] ! j"
    using j assms(2) e w by (cases "i = j") (simp_all add: rob_list_nth set_rob_def)
qed simp

lemma rob_list_set_other:
  assumes "rob_ok p" "k \<notin> set (rob_positions p)"
  shows "rob_list (set_rob k f p) = rob_list p"
proof -
  have "rob_positions (set_rob k f p) = rob_positions p" by (simp add: rob_positions_def)
  moreover have "pr_rob_array (set_rob k f p) ! x = pr_rob_array p ! x" if "x \<in> set (rob_positions p)" for x
    using assms(2) that by (cases "x = k") (auto simp: set_rob_def)
  ultimately show ?thesis by (simp add: rob_list_def)
qed

lemma pr_next_free:
  assumes "rob_ok p" "\<not> isFull p"
  shows "pr_next p \<notin> set (rob_positions p)"
proof
  assume "pr_next p \<in> set (rob_positions p)"
  then obtain i where i: "i < pr_num_entrys p" "pr_next p = (pr_oldest p + i) mod window_size p"
    by (auto simp: rob_positions_def)
  have "(pr_oldest p + pr_num_entrys p) mod window_size p = (pr_oldest p + i) mod window_size p"
    using i(2) assms(1) by (simp only: rob_ok_def)
  then have "pr_num_entrys p = i"
    by (rule ring_inj) (use assms i(1) in \<open>simp_all add: rob_ok_def isFull_def\<close>)
  with i(1) show False by simp
qed

text \<open>The new entry goes to the place after the last.\<close>

definition new_entry :: "int \<Rightarrow> inst_type \<Rightarrow> int \<Rightarrow> int \<Rightarrow> reorder_buffer_t" where
  "new_entry clock ty a n = \<lparr>ro_ready = False, ro_type = ty, ro_icount = n, ro_address = a, ro_tr_id = - 1,
     ro_min_retire_timestamp = clock, ro_enter_time = clock\<rparr>"

lemma fetched_fields [simp]:
  "pr_oldest (fetched clock ty a p) = pr_oldest p" "pr_num_entrys (fetched clock ty a p) = Suc (pr_num_entrys p)"
  "pr_next (fetched clock ty a p) = pr_next p" "length (pr_rob_array (fetched clock ty a p)) = length (pr_rob_array p)"
  by (simp_all add: fetched_def)

lemma rob_list_fetched:
  assumes "rob_ok p" "\<not> isFull p"
  shows "rob_list (fetched clock ty a p) = rob_list p @ [new_entry clock ty a (pr_instructions p + 1)]" (is "?l = _ @ [?e]")
proof (rule nth_equalityI)
  have n: "pr_next p < window_size p" using assms(1) by (simp add: rob_ok_def)
  fix i assume "i < length ?l"
  then have i: "i \<le> pr_num_entrys p" by simp
  have arr: "pr_rob_array (fetched clock ty a p) = (pr_rob_array p)[pr_next p := ?e]"
    by (cases "pr_rob_array p ! pr_next p") (simp add: fetched_def set_rob_def new_entry_def)
  show "?l ! i = (rob_list p @ [?e]) ! i"
  proof (cases "i = pr_num_entrys p")
    case True
    then have "(pr_oldest p + i) mod window_size p = pr_next p" using assms(1) by (simp add: rob_ok_def)
    then show ?thesis using n True by (simp add: rob_list_nth nth_append arr)
  next
    case False
    then have "(pr_oldest p + i) mod window_size p \<in> set (rob_positions p)" using i by (auto simp: rob_positions_def)
    then have "(pr_oldest p + i) mod window_size p \<noteq> pr_next p" using pr_next_free[OF assms] by auto
    then show ?thesis using i False by (simp add: rob_list_nth nth_append arr)
  qed
qed simp

text \<open>Fields the list does not depend on.\<close>

lemma rob_list_cong:
  "pr_rob_array q = pr_rob_array p \<Longrightarrow> pr_oldest q = pr_oldest p \<Longrightarrow> pr_num_entrys q = pr_num_entrys p \<Longrightarrow>
   rob_list q = rob_list p \<and> rob_positions q = rob_positions p"
  by (simp add: rob_list_def rob_positions_def)

text \<open>\<open>retire\<close> moves the front.\<close>

lemma rob_list_retired:
  assumes "rob_ok p" "\<not> isEmpty p" "pr_rob_array q = pr_rob_array p" "pr_num_entrys q = pr_num_entrys p - 1"
    "pr_oldest q = (pr_oldest p + 1) mod window_size p"
  shows "rob_list p = pr_rob_array p ! pr_oldest p # rob_list q"
proof (rule nth_equalityI)
  show "length (rob_list p) = length (pr_rob_array p ! pr_oldest p # rob_list q)" using assms(2,4) by (simp add: isEmpty_def)
next
  fix i assume i: "i < length (rob_list p)"
  show "rob_list p ! i = (pr_rob_array p ! pr_oldest p # rob_list q) ! i"
  proof (cases i)
    case 0
    then show ?thesis using assms(1,2) by (simp add: rob_list_nth rob_ok_def isEmpty_def)
  next
    case (Suc j)
    then show ?thesis using i assms(3-5) by (simp add: rob_list_nth mod_add_left_eq add.assoc)
  qed
qed

lemma rob_ok_retired:
  assumes "rob_ok p" "\<not> isEmpty p" "pr_rob_array q = pr_rob_array p" "pr_num_entrys q = pr_num_entrys p - 1"
    "pr_oldest q = (pr_oldest p + 1) mod window_size p" "pr_next q = pr_next p"
  shows "rob_ok q"
proof -
  have "((pr_oldest p + 1) mod window_size p + (pr_num_entrys p - 1)) mod window_size p =
      (pr_oldest p + 1 + (pr_num_entrys p - 1)) mod window_size p"
    by (rule mod_add_left_eq)
  also have "pr_oldest p + 1 + (pr_num_entrys p - 1) = pr_oldest p + pr_num_entrys p" using assms(2) by (simp add: isEmpty_def)
  finally show ?thesis using assms by (simp add: rob_ok_def) linarith
qed

subsection \<open>\<open>retire\<close>\<close>

definition retirable :: "int \<Rightarrow> reorder_buffer_t \<Rightarrow> bool" where
  "retirable clock e \<longleftrightarrow> ro_ready e \<and> ro_min_retire_timestamp e \<le> clock"

definition mem_inst :: "reorder_buffer_t \<Rightarrow> bool" where
  "mem_inst e \<longleftrightarrow> ro_type e \<noteq> CDLY_TYPE"

definition n_mem :: "reorder_buffer_t list \<Rightarrow> int" where
  "n_mem es = int (length (filter mem_inst es))"

lemma n_mem_append [simp]: "n_mem (xs @ ys) = n_mem xs + n_mem ys"
  by (simp add: n_mem_def)

lemma n_mem_simps [simp]: "n_mem [] = 0" "n_mem (e # es) = (if mem_inst e then 1 else 0) + n_mem es"
  by (simp_all add: n_mem_def)

lemma n_mem_bounds: "0 \<le> n_mem es" "n_mem es \<le> int (length es)"
  by (simp_all add: n_mem_def)

text \<open>What \<open>retire\<close> does not touch.\<close>

definition same_core :: "processor \<Rightarrow> processor \<Rightarrow> bool" where
  "same_core p q \<longleftrightarrow> pr_rob_array q = pr_rob_array p \<and> pr_next q = pr_next p \<and> pr_instructions q = pr_instructions p \<and>
     pr_procID q = pr_procID p \<and> pr_mem_op_id q = pr_mem_op_id p \<and> pr_cpu_response_fifo q = pr_cpu_response_fifo p"

lemma rob_head: "rob_ok p \<Longrightarrow> \<not> isEmpty p \<Longrightarrow> rob_list p ! 0 = pr_rob_array p ! pr_oldest p"
  by (simp add: rob_list_nth isEmpty_def rob_ok_def)

lemma retire_loop_effect:
  assumes "rob_ok p" "retire_loop clock pool n p = Some q"
  shows "\<exists>es. rob_list p = es @ rob_list q \<and> length es \<le> n \<and> (\<forall>e \<in> set es. retirable clock e) \<and>
    (\<forall>e \<in> set (butlast es). \<not> mem_inst e) \<and> rob_ok q \<and> same_core p q \<and>
    pr_retired_instructions q = pr_retired_instructions p + int (length es) \<and>
    pr_num_mem_entrys q = pr_num_mem_entrys p - n_mem es"
  using assms
proof (induction n arbitrary: p)
  case 0
  then show ?case by (intro exI[of _ "[]"]) (simp add: same_core_def)
next
  case (Suc n)
  let ?e = "pr_rob_array p ! pr_oldest p"
  show ?case
  proof (cases "isEmpty p \<or> \<not> retirable clock ?e")
    case True
    then have "q = p" using Suc.prems(2) by (auto simp: Let_def retirable_def split: if_splits elim!: bind_SomeE)
    then show ?thesis using Suc.prems(1) by (intro exI[of _ "[]"]) (simp add: same_core_def)
  next
    case False
    let ?p1 = "p\<lparr>pr_retired_instructions := pr_retired_instructions p + 1, pr_num_entrys := pr_num_entrys p - 1,
      pr_oldest := (pr_oldest p + 1) mod window_size p\<rparr>"
    have l: "rob_list p = ?e # rob_list ?p1" by (rule rob_list_retired) (use Suc.prems(1) False in simp_all)
    have ok: "rob_ok ?p1" by (rule rob_ok_retired[of p]) (use Suc.prems(1) False in simp_all)
    show ?thesis
    proof (cases "mem_inst ?e")
      case True
      then have q: "q = ?p1\<lparr>pr_num_mem_entrys := pr_num_mem_entrys p - 1\<rparr>"
        using Suc.prems(2) False by (simp add: Let_def retirable_def mem_inst_def)
      have "rob_list q = rob_list ?p1" unfolding q by (rule rob_list_cong[THEN conjunct1]) simp_all
      moreover have "rob_ok q" using ok by (simp add: q rob_ok_def)
      ultimately show ?thesis using l False True by (intro exI[of _ "[?e]"]) (simp add: q same_core_def)
    next
      case mem: False
      then have "retire_loop clock pool n ?p1 = Some q" using Suc.prems(2) False by (simp add: Let_def retirable_def mem_inst_def)
      from Suc.IH[OF ok this] obtain es where es: "rob_list ?p1 = es @ rob_list q" "length es \<le> n"
        "\<forall>e \<in> set es. retirable clock e" "\<forall>e \<in> set (butlast es). \<not> mem_inst e" "rob_ok q" "same_core ?p1 q"
        "pr_retired_instructions q = pr_retired_instructions ?p1 + int (length es)"
        "pr_num_mem_entrys q = pr_num_mem_entrys ?p1 - n_mem es" by blast
      then show ?thesis using l False mem
        by (intro exI[of _ "?e # es"]) (auto simp: same_core_def)
    qed
  qed
qed

text \<open>\<open>retire\<close> stops the simulator only at an entry that cannot retire yet and has no transaction.\<close>

lemma retire_loop_stops:
  assumes "rob_ok p" "retire_loop clock pool n p = None"
  shows "\<exists>es e fs. rob_list p = es @ e # fs \<and> length es < n \<and> (\<forall>x \<in> set es. retirable clock x \<and> \<not> mem_inst x) \<and>
    \<not> retirable clock e \<and> map_transaction (ro_tr_id e) pool = None"
  using assms
proof (induction n arbitrary: p)
  case (Suc n)
  let ?e = "pr_rob_array p ! pr_oldest p"
  let ?p1 = "p\<lparr>pr_retired_instructions := pr_retired_instructions p + 1, pr_num_entrys := pr_num_entrys p - 1,
    pr_oldest := (pr_oldest p + 1) mod window_size p\<rparr>"
  have ne: "\<not> isEmpty p" using Suc.prems(2) by auto
  have l: "rob_list p = ?e # rob_list ?p1" by (rule rob_list_retired) (use Suc.prems(1) ne in simp_all)
  show ?case
  proof (cases "retirable clock ?e")
    case True
    then have mem: "\<not> mem_inst ?e" and none: "retire_loop clock pool n ?p1 = None"
      using Suc.prems(2) ne by (auto simp: Let_def retirable_def mem_inst_def split: if_splits)
    have ok: "rob_ok ?p1" by (rule rob_ok_retired[of p]) (use Suc.prems(1) ne in simp_all)
    from Suc.IH[OF ok none] obtain es e fs where "rob_list ?p1 = es @ e # fs" "length es < n"
      "\<forall>x \<in> set es. retirable clock x \<and> \<not> mem_inst x" "\<not> retirable clock e" "map_transaction (ro_tr_id e) pool = None" by blast
    then show ?thesis using l True mem by (intro exI[of _ "?e # es"] exI[of _ e] exI[of _ fs]) simp
  next
    case False
    then have "map_transaction (ro_tr_id ?e) pool = None"
      using Suc.prems(2) ne
      by (cases "map_transaction (ro_tr_id ?e) pool") (auto simp: Let_def retirable_def isOldestStallingNetwork_def split: if_splits)
    then show ?thesis using l False by (intro exI[of _ "[]"] exI[of _ ?e] exI[of _ "rob_list ?p1"]) simp
  qed
qed simp

subsection \<open>\<open>executeNonMemoryInstructions\<close>\<close>

definition executed :: "reorder_buffer_t list \<Rightarrow> reorder_buffer_t list \<Rightarrow> bool" where
  "executed es fs \<longleftrightarrow> list_all2 (\<lambda>e f. f = e \<or> \<not> mem_inst e \<and> f = e\<lparr>ro_ready := True\<rparr>) es fs"

lemma executed_refl: "executed es es"
  by (simp add: executed_def list_all2_refl)

lemma executed_trans: "executed es fs \<Longrightarrow> executed fs gs \<Longrightarrow> executed es gs"
  unfolding executed_def
  by (rule list_all2_trans[where ?P1.0 = "\<lambda>e f. f = e \<or> \<not> mem_inst e \<and> f = e\<lparr>ro_ready := True\<rparr>"]) (auto simp: mem_inst_def)

lemma execute_loop_effect:
  assumes "rob_ok p"
  shows "executed (rob_list p) (rob_list (execute_loop n i p)) \<and> rob_ok (execute_loop n i p) \<and>
    (\<forall>j. i \<le> j \<longrightarrow> j < i + n \<longrightarrow> j < pr_num_entrys p \<longrightarrow> (\<forall>m. i \<le> m \<longrightarrow> m \<le> j \<longrightarrow> \<not> mem_inst (rob_list p ! m)) \<longrightarrow>
       ro_ready (rob_list (execute_loop n i p) ! j))"
  using assms
proof (induction n arbitrary: i p)
  case 0
  then show ?case by (simp add: executed_refl)
next
  case (Suc n)
  let ?k = "(pr_oldest p + i) mod window_size p"
  let ?f = "\<lambda>e. e\<lparr>ro_ready := True\<rparr>"
  show ?case
  proof (cases "ro_type (pr_rob_array p ! ?k) = CDLY_TYPE")
    case False
    then have "i < pr_num_entrys p \<Longrightarrow> mem_inst (rob_list p ! i)" by (simp add: rob_list_nth mem_inst_def)
    then show ?thesis using False Suc.prems by (auto simp: Let_def executed_refl intro: le_less_trans)
  next
    case True
    let ?p1 = "set_rob ?k ?f p"
    have ok: "rob_ok ?p1" using Suc.prems by simp
    have ex: "executed (rob_list p) (rob_list ?p1)"
    proof (cases "?k \<in> set (rob_positions p)")
      case False
      then show ?thesis using rob_list_set_other[OF Suc.prems] by (simp add: executed_refl)
    next
      case in_rob: True
      then obtain m where m: "m < pr_num_entrys p" "?k = (pr_oldest p + m) mod window_size p" by (auto simp: rob_positions_def)
      have "rob_list ?p1 = (rob_list p)[m := ?f (rob_list p ! m)]" unfolding m(2) by (rule rob_list_set_rob[OF Suc.prems m(1)])
      moreover have "\<not> mem_inst (rob_list p ! m)" using True m by (simp add: rob_list_nth mem_inst_def)
      moreover have "list_all2 (\<lambda>e f. f = e \<or> \<not> mem_inst e \<and> f = e\<lparr>ro_ready := True\<rparr>) es (es[m := ?f (es ! m)])"
        if "\<not> mem_inst (es ! m)" for es
        unfolding list_all2_conv_all_nth
      proof (intro conjI allI impI)
        fix i assume "i < length es"
        then show "es[m := ?f (es ! m)] ! i = es ! i \<or> \<not> mem_inst (es ! i) \<and> es[m := ?f (es ! m)] ! i = ?f (es ! i)"
          using that by (cases "i = m") simp_all
      qed simp
      ultimately show ?thesis by (simp add: executed_def)
    qed
    note IH = Suc.IH[OF ok, of "i + 1"]
    have same: "mem_inst (rob_list ?p1 ! m) = mem_inst (rob_list p ! m)" if "m < pr_num_entrys p" for m
      using ex that by (auto simp: executed_def list_all2_conv_all_nth mem_inst_def)
    have r: "ro_ready (rob_list (execute_loop n (i + 1) ?p1) ! j)"
      if j: "i \<le> j" "j < i + Suc n" "j < pr_num_entrys p" "\<forall>m. i \<le> m \<longrightarrow> m \<le> j \<longrightarrow> \<not> mem_inst (rob_list p ! m)" for j
    proof (cases "j = i")
      case True
      have "ro_ready (rob_list ?p1 ! i)" using rob_list_set_rob[OF Suc.prems, of i ?f] j(3) True by simp
      moreover have "rob_list (execute_loop n (i + 1) ?p1) ! i \<in> {rob_list ?p1 ! i, ?f (rob_list ?p1 ! i)}"
        using IH j(3) True by (auto simp: executed_def list_all2_conv_all_nth)
      ultimately show ?thesis using True by auto
    next
      case False
      then show ?thesis using IH j same by auto
    qed
    have "execute_loop (Suc n) i p = execute_loop n (i + 1) ?p1" using True by (simp add: Let_def)
    with IH r executed_trans[OF ex] show ?thesis by simp
  qed
qed

subsection \<open>\<open>fetch\<close>\<close>

lemma determine_miss_effect:
  assumes "cpu_cache_ok c"
  shows "\<exists>d. determine_miss a c = Some (line_state c a = CPU_INVALID, d) \<and> same_lines c d"
proof (cases "line_state c a = CPU_INVALID")
  case True
  then show ?thesis using same_lines_refl[OF assms] by (simp add: determine_miss_def func_look_up_eq[OF assms])
next
  case False
  let ?c = "c\<lparr>cc_numrefs_for_repl := cc_numrefs_for_repl c + 1\<rparr>"
  have s: "same_lines c ?c" by (rule refs_same_lines[OF assms])
  then have "cpu_cache_ok ?c" by (simp add: same_lines_def)
  from func_look_up_touch[OF this, of a] obtain d where d: "func_look_up a True ?c = Some (line_state ?c a, d)" "same_lines ?c d"
    by blast
  then have "determine_miss a c = Some (False, d)" using False by (simp add: determine_miss_def func_look_up_eq[OF assms])
  then show ?thesis using False same_lines_trans[OF s d(2)] by simp
qed

definition world_ok :: "cpu_world \<Rightarrow> bool" where
  "world_ok w \<longleftrightarrow> cpu_cache_ok (wo_flc w) \<and> cpu_cache_ok (wo_mlc w)"

text \<open>The entry that was just fetched: it is the last.\<close>

definition fresh :: "processor \<Rightarrow> bool" where
  "fresh p \<longleftrightarrow> 0 < window_size p \<and> pr_oldest p < window_size p \<and> 0 < pr_num_entrys p \<and> pr_num_entrys p \<le> window_size p \<and>
     pr_next p = (pr_oldest p + (pr_num_entrys p - 1)) mod window_size p"

lemma fresh_fetched: "rob_ok p \<Longrightarrow> \<not> isFull p \<Longrightarrow> fresh (fetched clock ty a p)"
  by (auto simp: fresh_def rob_ok_def isFull_def)

lemma rob_ok_next_slot:
  assumes "fresh p"
  shows "rob_ok (next_slot p)"
proof -
  have "Suc ((pr_oldest p + (pr_num_entrys p - 1)) mod window_size p) mod window_size p =
      Suc (pr_oldest p + (pr_num_entrys p - 1)) mod window_size p" by (rule mod_Suc_eq)
  also have "Suc (pr_oldest p + (pr_num_entrys p - 1)) = pr_oldest p + pr_num_entrys p" using assms by (simp add: fresh_def)
  finally show ?thesis using assms by (simp add: rob_ok_def next_slot_def fresh_def)
qed

lemma fresh_set_rob:
  assumes "fresh p" "rob_list p = es @ [e]"
  shows "rob_list (set_rob (pr_next p) f p) = es @ [f e]" "fresh (set_rob (pr_next p) f p)"
    "pr_rob_array p ! pr_next p = e"
proof -
  let ?q = "p\<lparr>pr_next := (pr_next p + 1) mod window_size p\<rparr>" and ?i = "pr_num_entrys p - 1"
  have ok: "rob_ok ?q" using rob_ok_next_slot[OF assms(1)] by (simp add: next_slot_def)
  have i: "?i < pr_num_entrys p" using assms(1) by (simp add: fresh_def)
  have len: "length es = ?i" using arg_cong[OF assms(2), of length] by simp
  have ql: "rob_list ?q = rob_list p" by (simp add: rob_list_def rob_positions_def)
  have "rob_list (set_rob (pr_next p) f p) = rob_list (set_rob (pr_next p) f ?q)"
    by (simp add: rob_list_def rob_positions_def set_rob_def)
  also have "\<dots> = (rob_list p)[?i := f (rob_list p ! ?i)]"
    using rob_list_set_rob[OF ok, of ?i f] i assms(1) ql by (simp add: fresh_def)
  also have "\<dots> = es @ [f e]" unfolding assms(2) len[symmetric] by simp
  finally show "rob_list (set_rob (pr_next p) f p) = es @ [f e]" .
  show "fresh (set_rob (pr_next p) f p)" using assms(1) by (simp add: fresh_def)
  have "pr_rob_array p ! pr_next p = rob_list p ! ?i" using rob_list_nth[OF i] assms(1) by (simp add: fresh_def)
  then show "pr_rob_array p ! pr_next p = e" unfolding assms(2) len[symmetric] by simp
qed

text \<open>What an instruction fetched from memory becomes: done at once, or a new transaction.\<close>

definition mem_fetched :: "int \<Rightarrow> cpu_world \<Rightarrow> processor \<Rightarrow> cpu_world \<Rightarrow> processor \<Rightarrow> reorder_buffer_t \<Rightarrow> bool" where
  "mem_fetched clock w p w' p' e \<longleftrightarrow>
     ro_ready e \<and> ro_tr_id e = - 1 \<and> wo_tr_pool w' = wo_tr_pool w \<and> wo_transaction_count w' = wo_transaction_count w \<and>
       pr_mem_op_id p' = pr_mem_op_id p \<or>
     \<not> ro_ready e \<and> ro_tr_id e = wo_transaction_count w \<and> wo_transaction_count w' = wo_transaction_count w + 1 \<and>
       pr_mem_op_id p' = pr_mem_op_id p + 1 \<and>
       (\<exists>t. wo_tr_pool w' = wo_tr_pool w @ [t] \<and> tr_state t = START \<and> tr_tr_id t = wo_transaction_count w \<and>
          tr_address t = ro_address e \<and> tr_cpuid t = pr_procID p \<and> tr_timestamp t = clock \<and> tr_mem_op_id t = as_int (pr_mem_op_id p) \<and>
          tr_ptr_to_mf t = None)"

definition same_world :: "cpu_world \<Rightarrow> cpu_world \<Rightarrow> bool" where
  "same_world w w' \<longleftrightarrow> same_lines (wo_flc w) (wo_flc w') \<and> same_lines (wo_mlc w) (wo_mlc w')"

text \<open>Fields \<open>fetch\<close> leaves alone.\<close>

definition fetch_frame :: "processor \<Rightarrow> processor \<Rightarrow> bool" where
  "fetch_frame p q \<longleftrightarrow> pr_procID q = pr_procID p \<and> pr_cpu_response_fifo q = pr_cpu_response_fifo p \<and>
     pr_retired_instructions q = pr_retired_instructions p \<and> window_size q = window_size p"

lemma insertMemTransaction_effect:
  assumes "world_ok w" "fresh p" "rob_list p = es @ [e]" "ro_tr_id e = - 1" "\<not> ro_ready e" "ro_address e = tb_address t"
  shows "\<exists>w' p' e'. insertMemTransaction ck clock t (w, p) = Some (w', p') \<and> same_world w w' \<and> fresh p' \<and>
    rob_list p' = es @ [e'] \<and> mem_inst e' = mem_inst e \<and> ro_address e' = ro_address e \<and> ro_icount e' = ro_icount e \<and>
    mem_fetched clock w p w' p' e' \<and> fetch_frame p p' \<and> pr_instructions p' = pr_instructions p \<and>
    pr_num_mem_entrys p' = pr_num_mem_entrys p \<and> pr_mp_trace_buffer p' = pr_mp_trace_buffer p \<and> pr_trace_next p' = pr_trace_next p"
proof -
  let ?p = "p\<lparr>pr_ot_MemRefs := insert (drop_bit 7 (tb_address t)) (pr_ot_MemRefs p)\<rparr>"
  have fr: "fresh ?p" "rob_list ?p = es @ [e]" using assms(2,3) by (simp_all add: fresh_def rob_list_def rob_positions_def)
  note F = fresh_set_rob[OF fr]
  have up: "fresh (q\<lparr>pr_num_unfinished_mem_entrys := n\<rparr>) = fresh q" "rob_list (q\<lparr>pr_num_unfinished_mem_entrys := n\<rparr>) = rob_list q"
    "fresh (q\<lparr>pr_mem_op_id := k\<rparr>) = fresh q" "rob_list (q\<lparr>pr_mem_op_id := k\<rparr>) = rob_list q" for q n k
    by (simp_all add: fresh_def rob_list_def rob_positions_def)
  obtain flc where flc: "determine_miss (tb_address t) (wo_flc w) = Some (line_state (wo_flc w) (tb_address t) = CPU_INVALID, flc)"
    "same_lines (wo_flc w) flc" using determine_miss_effect[of "wo_flc w"] assms(1) unfolding world_ok_def by blast
  obtain mlc where mlc: "determine_miss (tb_address t) (wo_mlc w) = Some (line_state (wo_mlc w) (tb_address t) = CPU_INVALID, mlc)"
    "same_lines (wo_mlc w) mlc" using determine_miss_effect[of "wo_mlc w"] assms(1) unfolding world_ok_def by blast
  have refl: "same_lines (wo_flc w) (wo_flc w)" "same_lines (wo_mlc w) (wo_mlc w)"
    using assms(1) same_lines_refl by (simp_all add: world_ok_def)
  show ?thesis
  proof (cases "drop_bit 7 (tb_address t) \<in> pr_ot_MemRefs p \<and> tb_type t = READ_TYPE")
    case True
    then show ?thesis
      using assms(4) F(1,2) refl by (simp add: insertMemTransaction_def Let_def up same_world_def mem_fetched_def fetch_frame_def mem_inst_def)
  next
    case False
    note step = False
    consider (l1) "line_state (wo_flc w) (tb_address t) \<noteq> CPU_INVALID"
      | (l2) "line_state (wo_flc w) (tb_address t) = CPU_INVALID" "line_state (wo_mlc w) (tb_address t) \<noteq> CPU_INVALID"
      | (miss) "line_state (wo_flc w) (tb_address t) = CPU_INVALID" "line_state (wo_mlc w) (tb_address t) = CPU_INVALID" by blast
    then show ?thesis
    proof cases
      case l1
      then show ?thesis using step assms(4) F(1,2) flc refl
        by (simp add: insertMemTransaction_def Let_def up same_world_def mem_fetched_def fetch_frame_def mem_inst_def)
    next
      case l2
      then show ?thesis using step assms(4) F(1,2) flc mlc refl
        by (simp add: insertMemTransaction_def Let_def up same_world_def mem_fetched_def fetch_frame_def mem_inst_def)
    next
      case miss
      then show ?thesis using step assms(4-6) F(1,2) flc mlc refl
        by (simp add: insertMemTransaction_def Let_def up same_world_def mem_fetched_def fetch_frame_def mem_inst_def new_transaction_def)
    qed
  qed
qed

definition trace_ok :: "cpu_config \<Rightarrow> trace_buffer_t list \<Rightarrow> bool" where
  "trace_ok ck ts \<longleftrightarrow> 0 < ck_trace_size ck \<and> length ts = ck_trace_size ck \<and> cpu_records ts"

definition buffer_ok :: "cpu_config \<Rightarrow> processor \<Rightarrow> bool" where
  "buffer_ok ck p \<longleftrightarrow> trace_ok ck (pr_mp_trace_buffer p) \<and> pr_trace_next p < ck_trace_size ck"

text \<open>Only the trace moves on.\<close>

definition same_rob :: "processor \<Rightarrow> processor \<Rightarrow> bool" where
  "same_rob p q \<longleftrightarrow> rob_list q = rob_list p \<and> fetch_frame p q \<and> pr_instructions q = pr_instructions p \<and>
     pr_num_mem_entrys q = pr_num_mem_entrys p \<and> pr_mem_op_id q = pr_mem_op_id p \<and> rob_ok q = rob_ok p"

lemma same_rob_trans: "same_rob p q \<Longrightarrow> same_rob q r \<Longrightarrow> same_rob p r"
  by (simp add: same_rob_def fetch_frame_def)

definition traces_ok :: "cpu_config \<Rightarrow> trace_source \<Rightarrow> bool" where
  "traces_ok ck src \<longleftrightarrow> 0 < ck_trace_size ck \<and> source_ok src"

lemma same_rob_trace: "same_rob p (p\<lparr>pr_trace_next := n\<rparr>)"
  "same_rob p (p\<lparr>pr_trace_next := n, pr_mp_trace_buffer := b, pr_trace_pos := r\<rparr>)"
  by (simp_all add: same_rob_def rob_list_def rob_positions_def fetch_frame_def rob_ok_def)

lemma populateTraceBuffer_effect:
  assumes "traces_ok ck refill"
  shows "\<exists>ts pos. populateTraceBuffer ck refill p = Some (p\<lparr>pr_trace_next := 0, pr_mp_trace_buffer := ts, pr_trace_pos := pos\<rparr>) \<and>
    trace_ok ck ts"
proof -
  obtain ts pos where "trace_loop (ck_trace_size ck) refill (pr_procID p) (pr_trace_pos p) [] = Some (ts, pos)"
    "length ts = ck_trace_size ck" "cpu_records ts"
    using trace_loop_total[of refill "ck_trace_size ck" "pr_procID p" "pr_trace_pos p"] assms by (auto simp: traces_ok_def)
  then show ?thesis using assms
    by (intro exI[of _ ts] exI[of _ pos]) (simp add: populateTraceBuffer_def trace_ok_def traces_ok_def)
qed

lemma advance_trace_effect:
  assumes "buffer_ok ck p" "traces_ok ck refill"
  shows "\<exists>q. advance_trace ck refill p = Some q \<and> buffer_ok ck q \<and> same_rob p q"
proof -
  let ?p = "p\<lparr>pr_trace_next := pr_trace_next p + 1\<rparr>"
  obtain ts pos where t: "populateTraceBuffer ck refill ?p = Some (?p\<lparr>pr_trace_next := 0, pr_mp_trace_buffer := ts, pr_trace_pos := pos\<rparr>)"
    "trace_ok ck ts" using populateTraceBuffer_effect[OF assms(2), of ?p] by blast
  show ?thesis
  proof (cases "pr_trace_next p + 1 = ck_trace_size ck")
    case True
    with t have "advance_trace ck refill p = Some (?p\<lparr>pr_trace_next := 0, pr_mp_trace_buffer := ts, pr_trace_pos := pos\<rparr>)"
      by (simp add: advance_trace_def Let_def)
    moreover have "buffer_ok ck (?p\<lparr>pr_trace_next := 0, pr_mp_trace_buffer := ts, pr_trace_pos := pos\<rparr>)"
      using t(2) by (simp add: buffer_ok_def trace_ok_def)
    ultimately show ?thesis using same_rob_trace(2)[where p = p and n = 0 and b = ts and r = pos] by simp
  next
    case False
    with assms(1) have "buffer_ok ck ?p" by (simp add: buffer_ok_def)
    with False same_rob_trace(1)[of p "pr_trace_next p + 1"] show ?thesis by (simp add: advance_trace_def)
  qed
qed

lemma fetch_delay_effect:
  assumes "rob_ok p" "\<not> isFull p" "buffer_ok ck p" "traces_ok ck refill" "tb_type t = CDLY_TYPE"
  shows "\<exists>q. fetch_delay ck refill clock t p = Some q \<and>
    rob_list q = rob_list p @ [new_entry clock CDLY_TYPE (- 1) (pr_instructions p + 1)] \<and> rob_ok q \<and> buffer_ok ck q \<and>
    fetch_frame p q \<and> pr_instructions q = pr_instructions p + 1 \<and> pr_num_mem_entrys q = pr_num_mem_entrys p \<and>
    pr_mem_op_id q = pr_mem_op_id p"
proof -
  let ?f = "fetched clock CDLY_TYPE (- 1) p" and ?p1 = "next_slot (fetched clock CDLY_TYPE (- 1) p)"
  let ?p2 = "?p1\<lparr>pr_mp_trace_buffer := (pr_mp_trace_buffer ?p1)[pr_trace_next ?p1 := t\<lparr>tb_cycles := tb_cycles t - 1\<rparr>]\<rparr>"
  have ok1: "rob_ok ?p1" by (rule rob_ok_next_slot[OF fresh_fetched[OF assms(1,2)]])
  have b: "pr_mp_trace_buffer ?p1 = pr_mp_trace_buffer p" "pr_trace_next ?p1 = pr_trace_next p"
    by (simp_all add: next_slot_def fetched_def)
  have "tb_type u \<in> {CDLY_TYPE, READ_TYPE, WRITE_TYPE}" if "u \<in> set (pr_mp_trace_buffer ?p2)" for u
    using that assms(3,5) set_update_subset_insert[of "pr_mp_trace_buffer p"]
    by (fastforce simp: b buffer_ok_def trace_ok_def cpu_records_def)
  then have "cpu_records (pr_mp_trace_buffer ?p2)" unfolding cpu_records_def by blast
  then have buf: "buffer_ok ck ?p2" using assms(3) by (auto simp: b buffer_ok_def trace_ok_def)
  have s2: "same_rob ?p1 ?p2" by (simp add: same_rob_def rob_list_def rob_positions_def fetch_frame_def rob_ok_def)
  obtain q where q: "fetch_delay ck refill clock t p = Some q" "buffer_ok ck q" "same_rob ?p1 q"
  proof (cases "tb_cycles t - 1 \<le> 0")
    case True
    from advance_trace_effect[OF buf assms(4)] obtain q where "advance_trace ck refill ?p2 = Some q" "buffer_ok ck q" "same_rob ?p2 q" by blast
    with True that same_rob_trans[OF s2] show thesis by (auto simp: fetch_delay_def Let_def)
  next
    case False
    with that buf s2 show thesis by (auto simp: fetch_delay_def Let_def)
  qed
  have "rob_list ?p1 = rob_list p @ [new_entry clock CDLY_TYPE (- 1) (pr_instructions p + 1)]"
    using rob_list_fetched[OF assms(1,2)] by (simp add: next_slot_def rob_list_def rob_positions_def)
  with q(3) ok1 have "rob_list q = rob_list p @ [new_entry clock CDLY_TYPE (- 1) (pr_instructions p + 1)]" "rob_ok q"
    by (simp_all add: same_rob_def)
  moreover have "fetch_frame p q" "pr_instructions q = pr_instructions p + 1" "pr_num_mem_entrys q = pr_num_mem_entrys p"
    "pr_mem_op_id q = pr_mem_op_id p"
    using q(3) by (simp_all add: same_rob_def fetch_frame_def next_slot_def fetched_def)
  ultimately show ?thesis using q(1,2) by blast
qed

definition fetch_result :: "int \<Rightarrow> cpu_world \<Rightarrow> processor \<Rightarrow> cpu_world \<Rightarrow> processor \<Rightarrow> bool" where
  "fetch_result clock w p w' p' \<longleftrightarrow> (\<exists>ds ms. rob_list p' = rob_list p @ ds @ ms \<and> (\<forall>e \<in> set ds. \<not> mem_inst e \<and> ro_tr_id e = - 1) \<and>
     map ro_icount (ds @ ms) = [pr_instructions p + 1 .. pr_instructions p'] \<and>
     pr_instructions p' = pr_instructions p + int (length (ds @ ms)) \<and>
     (ms = [] \<and> wo_tr_pool w' = wo_tr_pool w \<and> wo_transaction_count w' = wo_transaction_count w \<and>
        pr_mem_op_id p' = pr_mem_op_id p \<or>
      (\<exists>e. ms = [e] \<and> mem_inst e \<and> mem_fetched clock w p w' p' e)) \<and>
     pr_num_mem_entrys p' = pr_num_mem_entrys p + n_mem ms \<and> rob_ok p' \<and> same_world w w' \<and> fetch_frame p p')"

lemma same_world_refl: "world_ok w \<Longrightarrow> same_world w w"
  by (simp add: same_world_def world_ok_def same_lines_refl)

lemma fetch_result_none: "rob_ok p \<Longrightarrow> world_ok w \<Longrightarrow> fetch_result clock w p w p"
  unfolding fetch_result_def by (rule exI[of _ "[]"], rule exI[of _ "[]"]) (simp add: same_world_refl fetch_frame_def)

lemma fetch_memory_effect:
  assumes "rob_ok p" "\<not> isFull p" "buffer_ok ck p" "traces_ok ck refill" "world_ok w"
    "tb_type t = READ_TYPE \<or> tb_type t = WRITE_TYPE"
  shows "\<exists>w' p'. fetch_memory ck refill clock t (w, p) = Some (w', p') \<and> fetch_result clock w p w' p' \<and> buffer_ok ck p'"
proof (cases "ck_max_tr ck < length (wo_tr_pool w) \<or> flc_transfer_overflow ck (pr_procID p) w \<or> pr_throttle_mode p")
  case True
  then show ?thesis using fetch_result_none[OF assms(1,5)] assms(3) by (auto simp: fetch_memory_def)
next
  case False
  let ?f = "fetched clock (tb_type t) (tb_address t) p"
  let ?p1 = "?f\<lparr>pr_num_mem_entrys := pr_num_mem_entrys p + 1, pr_num_unfinished_mem_entrys := pr_num_unfinished_mem_entrys p + 1\<rparr>"
  let ?e = "new_entry clock (tb_type t) (tb_address t) (pr_instructions p + 1)"
  have f1: "fresh ?p1" using fresh_fetched[OF assms(1,2)] by (simp add: fresh_def)
  have l1: "rob_list ?p1 = rob_list p @ [?e]" using rob_list_fetched[OF assms(1,2)] by (simp add: rob_list_def rob_positions_def)
  obtain w' p2 e' where i: "insertMemTransaction ck clock t (w, ?p1) = Some (w', p2)" "same_world w w'" "fresh p2"
    "rob_list p2 = rob_list p @ [e']" "mem_inst e' = mem_inst ?e" "ro_icount e' = ro_icount ?e"
    "mem_fetched clock w ?p1 w' p2 e'" "fetch_frame ?p1 p2" "pr_instructions p2 = pr_instructions ?p1"
    "pr_num_mem_entrys p2 = pr_num_mem_entrys ?p1" "pr_mp_trace_buffer p2 = pr_mp_trace_buffer ?p1" "pr_trace_next p2 = pr_trace_next ?p1"
    using insertMemTransaction_effect[OF assms(5) f1 l1, of t ck clock] by (auto simp: new_entry_def)
  let ?p3 = "next_slot p2"
  have b3: "buffer_ok ck ?p3" using assms(3) i(11,12) by (simp add: buffer_ok_def next_slot_def fetched_def)
  obtain p4 where p4: "advance_trace ck refill ?p3 = Some p4" "buffer_ok ck p4" and s: "same_rob ?p3 p4"
    using advance_trace_effect[OF b3 assms(4)] by blast
  have "rob_list ?p3 = rob_list p2" by (simp add: next_slot_def rob_list_def rob_positions_def)
  then have l3: "rob_list p4 = rob_list p @ [] @ [e']" using s i(4) by (simp add: same_rob_def)
  have fr: "fetch_frame p p4"
    using s i(8) by (simp add: same_rob_def fetch_frame_def next_slot_def fetched_def)
  have in3: "pr_instructions p4 = pr_instructions p + 1"
    "pr_num_mem_entrys p4 = pr_num_mem_entrys p + 1"
    using s i(9,10) by (simp_all add: same_rob_def next_slot_def fetched_def)
  have mf: "mem_fetched clock w p w' p4 e'"
    using i(7) s by (simp add: mem_fetched_def same_rob_def next_slot_def fetched_def)
  have mem: "mem_inst e'" using i(5) assms(6) by (auto simp: mem_inst_def new_entry_def)
  have ok: "rob_ok p4" using s rob_ok_next_slot[OF i(3)] by (simp add: same_rob_def)
  have "fetch_result clock w p w' p4"
    unfolding fetch_result_def
    by (rule exI[of _ "[]"], rule exI[of _ "[e']"])
      (use l3 fr in3 mf mem ok i(2,6) in \<open>simp add: new_entry_def\<close>)
  moreover have "fetch_memory ck refill clock t (w, p) = Some (w', p4)"
    using False assms(6) i(1) p4(1) by (auto simp: fetch_memory_def Let_def)
  ultimately show ?thesis using p4(2) by blast
qed

lemma fetch_loop_effect:
  assumes "rob_ok p" "buffer_ok ck p" "traces_ok ck refill" "world_ok w"
  shows "\<exists>w' p'. fetch_loop ck refill clock n (w, p) = Some (w', p') \<and> fetch_result clock w p w' p' \<and> buffer_ok ck p'"
  using assms
proof (induction n arbitrary: p)
  case 0
  then show ?case using fetch_result_none by simp
next
  case (Suc n)
  show ?case
  proof (cases "isFull p")
    case True
    then show ?thesis using fetch_result_none Suc.prems by simp
  next
    case False
    let ?t = "pr_mp_trace_buffer p ! pr_trace_next p"
    have len: "pr_trace_next p < length (pr_mp_trace_buffer p)" using Suc.prems(2) by (simp add: buffer_ok_def trace_ok_def)
    show ?thesis
    proof (cases "tb_type ?t = CDLY_TYPE")
      case True
      from fetch_delay_effect[OF Suc.prems(1) False Suc.prems(2,3) True, of clock] obtain q where
        qd: "fetch_delay ck refill clock ?t p = Some q" and
        D: "rob_list q = rob_list p @ [new_entry clock CDLY_TYPE (- 1) (pr_instructions p + 1)]" "rob_ok q" "buffer_ok ck q"
        "fetch_frame p q" "pr_instructions q = pr_instructions p + 1" "pr_num_mem_entrys q = pr_num_mem_entrys p"
        "pr_mem_op_id q = pr_mem_op_id p" by blast
      from Suc.IH[OF D(2,3) Suc.prems(3,4)] obtain w' p' ds ms where r: "fetch_loop ck refill clock n (w, q) = Some (w', p')"
        "buffer_ok ck p'" "rob_list p' = rob_list q @ ds @ ms" "\<forall>e \<in> set ds. \<not> mem_inst e \<and> ro_tr_id e = - 1"
        "map ro_icount (ds @ ms) = [pr_instructions q + 1 .. pr_instructions p']"
        "pr_instructions p' = pr_instructions q + int (length (ds @ ms))"
        "ms = [] \<and> wo_tr_pool w' = wo_tr_pool w \<and> wo_transaction_count w' = wo_transaction_count w \<and> pr_mem_op_id p' = pr_mem_op_id q \<or>
          (\<exists>e. ms = [e] \<and> mem_inst e \<and> mem_fetched clock w q w' p' e)"
        "pr_num_mem_entrys p' = pr_num_mem_entrys q + n_mem ms" "rob_ok p'" "same_world w w'" "fetch_frame q p'"
        unfolding fetch_result_def by blast
      let ?e = "new_entry clock CDLY_TYPE (- 1) (pr_instructions p + 1)"
      have up: "(pr_instructions p + 1) # [pr_instructions p + 1 + 1 .. pr_instructions p'] = [pr_instructions p + 1 .. pr_instructions p']"
        using r(6) D(5) by (simp add: upto_rec1)
      have mf: "mem_fetched clock w q w' p' e = mem_fetched clock w p w' p' e" for e
        using D(4,7) by (simp add: mem_fetched_def fetch_frame_def)
      have "fetch_result clock w p w' p'"
        unfolding fetch_result_def
      proof (rule exI[of _ "?e # ds"], rule exI[of _ ms], intro conjI)
        show "rob_list p' = rob_list p @ (?e # ds) @ ms" using r(3) D(1) by simp
        show "\<forall>e \<in> set (?e # ds). \<not> mem_inst e \<and> ro_tr_id e = - 1" using r(4) by (simp add: new_entry_def mem_inst_def)
        show "map ro_icount ((?e # ds) @ ms) = [pr_instructions p + 1 .. pr_instructions p']"
          using r(5) up D(5) by (simp add: new_entry_def)
        show "pr_instructions p' = pr_instructions p + int (length ((?e # ds) @ ms))" using r(6) D(5) by simp
        show "ms = [] \<and> wo_tr_pool w' = wo_tr_pool w \<and> wo_transaction_count w' = wo_transaction_count w \<and> pr_mem_op_id p' = pr_mem_op_id p \<or>
          (\<exists>e. ms = [e] \<and> mem_inst e \<and> mem_fetched clock w p w' p' e)" using r(7) D(7) by (simp add: mf)
        show "pr_num_mem_entrys p' = pr_num_mem_entrys p + n_mem ms" using r(8) D(6) by simp
        show "fetch_frame p p'" using r(11) D(4) by (simp add: fetch_frame_def)
      qed (fact r(9,10))+
      then show ?thesis using r(1,2) qd False True len by auto
    next
      case mem: False
      have "?t \<in> set (pr_mp_trace_buffer p)" using len by simp
      then have "tb_type ?t = READ_TYPE \<or> tb_type ?t = WRITE_TYPE" using Suc.prems(2) mem by (auto simp: buffer_ok_def trace_ok_def cpu_records_def)
      from fetch_memory_effect[OF Suc.prems(1) False Suc.prems(2,3,4) this, of clock] show ?thesis using False mem len by simp
    qed
  qed
qed

subsection \<open>A cycle\<close>

text \<open>The instructions in the buffer are the ones fetched and not yet retired, in program order.\<close>

definition rob_inv :: "cpu_config \<Rightarrow> processor \<Rightarrow> bool" where
  "rob_inv ck p \<longleftrightarrow> rob_ok p \<and> buffer_ok ck p \<and>
     map ro_icount (rob_list p) = [pr_retired_instructions p + 1 .. pr_instructions p] \<and>
     pr_retired_instructions p \<le> pr_instructions p \<and> pr_num_mem_entrys p = n_mem (rob_list p)"

lemma executed_props:
  assumes "executed es fs"
  shows "length fs = length es" "map ro_icount fs = map ro_icount es" "map mem_inst fs = map mem_inst es"
    "map ro_tr_id fs = map ro_tr_id es" "map ro_address fs = map ro_address es" "n_mem fs = n_mem es"
proof -
  show len: "length fs = length es" using assms by (simp add: executed_def list_all2_lengthD)
  have e: "i < length es \<Longrightarrow> fs ! i = es ! i \<or> \<not> mem_inst (es ! i) \<and> fs ! i = (es ! i)\<lparr>ro_ready := True\<rparr>" for i
    using assms by (auto simp: executed_def list_all2_conv_all_nth)
  show "map ro_icount fs = map ro_icount es" by (rule nth_equalityI) (use e len in fastforce)+
  show m: "map mem_inst fs = map mem_inst es" by (rule nth_equalityI) (use e len in \<open>fastforce simp: mem_inst_def\<close>)+
  show "map ro_tr_id fs = map ro_tr_id es" by (rule nth_equalityI) (use e len in fastforce)+
  show "map ro_address fs = map ro_address es" by (rule nth_equalityI) (use e len in fastforce)+
  have nm: "n_mem xs = int (length (filter id (map mem_inst xs)))" for xs by (simp add: n_mem_def filter_map comp_def)
  show "n_mem fs = n_mem es" unfolding nm m ..
qed

lemma executed_fields:
  "pr_instructions (execute_loop n i p) = pr_instructions p" "pr_retired_instructions (execute_loop n i p) = pr_retired_instructions p"
  "pr_num_mem_entrys (execute_loop n i p) = pr_num_mem_entrys p" "pr_procID (execute_loop n i p) = pr_procID p"
  "pr_cpu_response_fifo (execute_loop n i p) = pr_cpu_response_fifo p" "pr_mem_op_id (execute_loop n i p) = pr_mem_op_id p"
  "pr_mp_trace_buffer (execute_loop n i p) = pr_mp_trace_buffer p" "pr_trace_next (execute_loop n i p) = pr_trace_next p"
  "length (pr_rob_array (execute_loop n i p)) = length (pr_rob_array p)" "pr_num_entrys (execute_loop n i p) = pr_num_entrys p"
  by (induction n arbitrary: i p) (simp_all add: Let_def)

lemma retire_loop_frame:
  "retire_loop clock pool n p = Some q \<Longrightarrow> pr_mp_trace_buffer q = pr_mp_trace_buffer p \<and> pr_trace_next q = pr_trace_next p"
  by (induction n arbitrary: p) (auto simp: Let_def split: if_splits elim!: bind_SomeE)

lemma upto_split:
  assumes "map f es @ map f fs = [a + 1 .. b :: int]"
  shows "map f fs = [a + int (length es) + 1 .. b]"
  using assms
proof (induction es arbitrary: a)
  case (Cons e es)
  then have "a + 1 \<le> b" by (metis append_Cons list.distinct(1) list.simps(9) upto_empty linorder_not_le)
  with Cons.prems have "map f es @ map f fs = [(a + 1) + 1 .. b]" by (simp add: upto_rec1)
  from Cons.IH[OF this] show ?case by (simp add: algebra_simps)
qed simp

text \<open>A cycle fetches at the end, marks the delays at the front, and retires from the front.\<close>

lemma doCycle_effect:
  assumes "rob_inv ck p" "traces_ok ck refill" "world_ok w"
  shows "\<exists>w1 p1 fs. fetch_result clock w p w1 p1 \<and> executed (rob_list p1) fs \<and>
    fetch ck refill clock (w, p) = Some (w1, p1) \<and> fs = rob_list (executeNonMemoryInstructions ck p1) \<and>
    (case doCycle ck refill clock (w, p) of
       None \<Rightarrow> \<exists>es e gs. fs = es @ e # gs \<and> length es < ck_commit_width ck \<and> \<not> retirable clock e \<and>
         (\<forall>x \<in> set es. \<not> mem_inst x) \<and> map_transaction (ro_tr_id e) (wo_tr_pool w1) = None \<and>
         (ck_commit_width ck \<le> ck_execution_width ck \<longrightarrow> mem_inst e \<or> ro_ready e)
     | Some (w2, p2) \<Rightarrow> w2 = w1 \<and> (\<exists>es. fs = es @ rob_list p2 \<and> (\<forall>e \<in> set es. retirable clock e) \<and> length es \<le> ck_commit_width ck \<and>
         (\<forall>e \<in> set (butlast es). \<not> mem_inst e) \<and>
         pr_retired_instructions p2 = pr_retired_instructions p + int (length es)) \<and> rob_inv ck p2 \<and>
         pr_instructions p2 = pr_instructions p1 \<and> pr_mem_op_id p2 = pr_mem_op_id p1 \<and>
         pr_procID p2 = pr_procID p \<and> pr_cpu_response_fifo p2 = pr_cpu_response_fifo p)"
proof -
  have p: "rob_ok p" "buffer_ok ck p" "map ro_icount (rob_list p) = [pr_retired_instructions p + 1 .. pr_instructions p]"
    "pr_retired_instructions p \<le> pr_instructions p" "pr_num_mem_entrys p = n_mem (rob_list p)" using assms(1) by (auto simp: rob_inv_def)
  obtain w1 p1 where f: "fetch ck refill clock (w, p) = Some (w1, p1)" "fetch_result clock w p w1 p1" "buffer_ok ck p1"
    using fetch_loop_effect[OF p(1,2) assms(2,3), of clock "ck_issue_width ck"] unfolding fetch_def by blast
  then obtain ds ms where r: "rob_list p1 = rob_list p @ ds @ ms" "\<forall>e \<in> set ds. \<not> mem_inst e"
    "map ro_icount (ds @ ms) = [pr_instructions p + 1 .. pr_instructions p1]"
    "pr_instructions p1 = pr_instructions p + int (length (ds @ ms))"
    "pr_num_mem_entrys p1 = pr_num_mem_entrys p + n_mem ms" "rob_ok p1" "fetch_frame p p1"
    unfolding fetch_result_def by blast
  let ?q = "executeNonMemoryInstructions ck p1"
  have E: "executed (rob_list p1) (rob_list ?q)" "rob_ok ?q"
    using execute_loop_effect[OF r(6), of "ck_execution_width ck" 0] by (simp_all add: executeNonMemoryInstructions_def)
  have Er: "ro_ready (rob_list ?q ! j)" if "j < ck_execution_width ck" "j < pr_num_entrys p1" "\<forall>m. m \<le> j \<longrightarrow> \<not> mem_inst (rob_list p1 ! m)" for j
    using execute_loop_effect[OF r(6), of "ck_execution_width ck" 0] that by (simp add: executeNonMemoryInstructions_def)
  have qf: "pr_instructions ?q = pr_instructions p1" "pr_retired_instructions ?q = pr_retired_instructions p1"
    "pr_num_mem_entrys ?q = pr_num_mem_entrys p1" "pr_procID ?q = pr_procID p1" "pr_cpu_response_fifo ?q = pr_cpu_response_fifo p1"
    "pr_mem_op_id ?q = pr_mem_op_id p1" "pr_mp_trace_buffer ?q = pr_mp_trace_buffer p1" "pr_trace_next ?q = pr_trace_next p1"
    "window_size ?q = window_size p1" by (simp_all add: executeNonMemoryInstructions_def executed_fields)
  note X = executed_props[OF E(1)]
  have "n_mem ds = 0" using r(2) by (simp add: n_mem_def filter_empty_conv)
  then have nm: "pr_num_mem_entrys ?q = n_mem (rob_list ?q)" using X(6) r(1,5) p(5) by (simp add: qf)
  have "[pr_retired_instructions p + 1 .. pr_instructions p1] =
      [pr_retired_instructions p + 1 .. pr_instructions p] @ [pr_instructions p + 1 .. pr_instructions p1]"
    using upto_split2[of "pr_retired_instructions p + 1" "pr_instructions p" "pr_instructions p1"] p(4) r(4)
    by (cases "pr_retired_instructions p = pr_instructions p") simp_all
  then have ic: "map ro_icount (rob_list ?q) = [pr_retired_instructions p + 1 .. pr_instructions p1]"
    using X(2) r(1,3) p(3) by simp
  have retp: "pr_retired_instructions p1 = pr_retired_instructions p" using r(7) by (simp add: fetch_frame_def)
  show ?thesis
  proof (intro exI[of _ w1] exI[of _ p1] exI[of _ "rob_list ?q"] conjI)
    show "case doCycle ck refill clock (w, p) of
       None \<Rightarrow> \<exists>es e gs. rob_list ?q = es @ e # gs \<and> length es < ck_commit_width ck \<and> \<not> retirable clock e \<and>
         (\<forall>x \<in> set es. \<not> mem_inst x) \<and> map_transaction (ro_tr_id e) (wo_tr_pool w1) = None \<and>
         (ck_commit_width ck \<le> ck_execution_width ck \<longrightarrow> mem_inst e \<or> ro_ready e)
     | Some (w2, p2) \<Rightarrow> w2 = w1 \<and> (\<exists>es. rob_list ?q = es @ rob_list p2 \<and> (\<forall>e \<in> set es. retirable clock e) \<and>
         length es \<le> ck_commit_width ck \<and> (\<forall>e \<in> set (butlast es). \<not> mem_inst e) \<and>
         pr_retired_instructions p2 = pr_retired_instructions p + int (length es)) \<and> rob_inv ck p2 \<and>
         pr_instructions p2 = pr_instructions p1 \<and> pr_mem_op_id p2 = pr_mem_op_id p1 \<and>
         pr_procID p2 = pr_procID p \<and> pr_cpu_response_fifo p2 = pr_cpu_response_fifo p"
    proof (cases "retire ck clock (wo_tr_pool w1) ?q")
      case None
      from retire_loop_stops[OF E(2) None[unfolded retire_def]] obtain es e gs where st: "rob_list ?q = es @ e # gs"
        "length es < ck_commit_width ck" "\<forall>x \<in> set es. retirable clock x \<and> \<not> mem_inst x" "\<not> retirable clock e"
        "map_transaction (ro_tr_id e) (wo_tr_pool w1) = None" by blast
      have "mem_inst e \<or> ro_ready e" if "ck_commit_width ck \<le> ck_execution_width ck"
      proof (rule ccontr)
        assume c: "\<not> (mem_inst e \<or> ro_ready e)"
        have im: "mem_inst (rob_list p1 ! m) = mem_inst (rob_list ?q ! m)" if "m < length (rob_list ?q)" for m
          using arg_cong[OF X(3), of "\<lambda>l. l ! m"] that X(1) by simp
        have "ro_ready (rob_list ?q ! length es)"
        proof (rule Er)
          show "length es < pr_num_entrys p1" using X(1) by (simp add: st(1))
          show "\<forall>m. m \<le> length es \<longrightarrow> \<not> mem_inst (rob_list p1 ! m)"
            using im c st(3) by (auto simp: st(1) nth_append less_le)
        qed (use st(2) that in simp)
        then show False using c by (simp add: st(1))
      qed
      then show ?thesis using st None by (auto simp: doCycle_def f(1))
    next
      case (Some p2)
      from retire_loop_effect[OF E(2) Some[unfolded retire_def]] obtain es where st: "rob_list ?q = es @ rob_list p2"
        "length es \<le> ck_commit_width ck" "\<forall>e \<in> set es. retirable clock e" "\<forall>e \<in> set (butlast es). \<not> mem_inst e" "rob_ok p2"
        "same_core ?q p2" "pr_retired_instructions p2 = pr_retired_instructions ?q + int (length es)"
        "pr_num_mem_entrys p2 = pr_num_mem_entrys ?q - n_mem es" by blast
      have "map ro_icount es @ map ro_icount (rob_list p2) = [pr_retired_instructions p + 1 .. pr_instructions p1]"
        using ic by (simp add: st(1))
      from upto_split[OF this] have ic2: "map ro_icount (rob_list p2) = [pr_retired_instructions p2 + 1 .. pr_instructions p2]"
        using st(6,7) by (simp add: qf retp same_core_def)
      have "length (map ro_icount (rob_list ?q)) = nat (pr_instructions p1 - pr_retired_instructions p)" unfolding ic by simp
      then have "int (length es) \<le> pr_instructions p1 - pr_retired_instructions p" using p(4) r(4) by (simp add: st(1))
      then have le: "pr_retired_instructions p2 \<le> pr_instructions p2" using st(6,7) by (simp add: qf retp same_core_def)
      have nm2: "pr_num_mem_entrys p2 = n_mem (rob_list p2)" using st(8) nm by (simp add: st(1))
      have w: "window_size p2 = window_size ?q" using st(6) by (simp add: same_core_def)
      have inv: "rob_inv ck p2"
        using st(5) ic2 le nm2 f(3) retire_loop_frame[OF Some[unfolded retire_def]] by (simp add: rob_inv_def buffer_ok_def qf)
      have asserts: "0 \<le> pr_num_mem_entrys p2" "pr_num_mem_entrys p2 \<le> int (window_size p2)" "pr_num_entrys p2 \<le> window_size p2"
        "pr_oldest p2 \<le> window_size p2" "pr_next p2 \<le> window_size p2"
        using st(5) n_mem_bounds[of "rob_list p2"] by (auto simp: nm2 rob_ok_def less_imp_le)
      have "doCycle ck refill clock (w, p) = Some (w1, p2)" using Some asserts by (simp add: doCycle_def f(1))
      then show ?thesis using st inv r(7) by (auto simp: qf retp same_core_def fetch_frame_def)
    qed
  qed (fact f(1,2) E(1) | rule refl)+
qed

subsection \<open>Hits\<close>

lemma insert_l1_hit:
  assumes "world_ok w" "fresh p" "rob_list p = es @ [e]" "drop_bit 7 (tb_address t) \<notin> pr_ot_MemRefs p"
    "line_state (wo_flc w) (tb_address t) \<noteq> CPU_INVALID"
  shows "\<exists>w' p'. insertMemTransaction ck clock t (w, p) = Some (w', p') \<and> wo_tr_pool w' = wo_tr_pool w \<and> fresh p' \<and>
    pr_ot_MemRefs p' = insert (drop_bit 7 (tb_address t)) (pr_ot_MemRefs p) \<and>
    rob_list p' = es @ [e\<lparr>ro_ready := True, ro_min_retire_timestamp := clock + ck_flc_lookup_time ck\<rparr>]"
proof -
  let ?p = "p\<lparr>pr_ot_MemRefs := insert (drop_bit 7 (tb_address t)) (pr_ot_MemRefs p)\<rparr>"
  let ?f = "\<lambda>e. e\<lparr>ro_ready := True, ro_min_retire_timestamp := clock + ck_flc_lookup_time ck\<rparr>"
  have fr: "fresh ?p" "rob_list ?p = es @ [e]" using assms(2,3) by (simp_all add: fresh_def rob_list_def rob_positions_def)
  note F = fresh_set_rob(1)[OF fr, of ?f] fresh_set_rob(2)[OF fr, of ?f]
  obtain flc where "determine_miss (tb_address t) (wo_flc w) = Some (False, flc)"
    using determine_miss_effect[of "wo_flc w" "tb_address t"] assms(1,5) by (auto simp: world_ok_def)
  moreover have "fresh (q\<lparr>pr_num_unfinished_mem_entrys := n\<rparr>) = fresh q" "rob_list (q\<lparr>pr_num_unfinished_mem_entrys := n\<rparr>) = rob_list q" for q n
    by (simp_all add: fresh_def rob_list_def rob_positions_def)
  ultimately show ?thesis using assms(4) F(1,2) by (simp add: insertMemTransaction_def Let_def set_rob_def)
qed

text \<open>A cache of one line that holds address 0, and a processor whose program loads it.\<close>

definition one_line_cache :: cpu_cache where
  "one_line_cache = \<lparr>cc_assoc = 1, cc_level = 1, cc_set_shift = 7, cc_tag_shift = 7, cc_set_mask = 0, cc_line_mask = 127,
     cc_numrefs_for_repl = 0, cc_sets = [\<lparr>cs_numlines = 1, cs_clines = [\<lparr>cl_address = 0, cl_state = EXCLUSIVE, cl_timetouched = 0\<rparr>]\<rparr>],
     cc_queue = [], cc_rq_size = 0, cc_blocked_queue = [], cc_bq_size = 0, cc_MSHR = []\<rparr>"

definition one_load :: trace_buffer_t where
  "one_load = \<lparr>tb_type = READ_TYPE, tb_cycles = 0, tb_address = 0\<rparr>"

definition one_world :: cpu_world where
  "one_world = \<lparr>wo_flc = one_line_cache, wo_mlc = one_line_cache, wo_tr_pool = [], wo_transaction_count = 0\<rparr>"

definition one_cpu :: cpu_config where
  "one_cpu = \<lparr>ck_issue_width = 1, ck_commit_width = 1, ck_execution_width = 1, ck_flc_lookup_time = 2, ck_mlc_lookup_time = 5,
     ck_flc_rq_size = 8, ck_max_tr = 8, ck_trace_size = 1\<rparr>"

definition one_trace :: trace_source where
  "one_trace = \<lparr>ts_format = MSR_TRACE_FORMAT, ts_read = (\<lambda>i. if even i then GzLine ''0 R 0'' else GzEof)\<rparr>"

definition one_processor :: processor where
  "one_processor = the (initProcessor one_cpu one_trace 0 0 [new_entry 0 CDLY_TYPE 0 0])"

lemma one_processor_eq: "one_processor =
   \<lparr>pr_procID = 0, pr_next = 0, pr_oldest = 0, pr_num_entrys = 0, pr_num_mem_entrys = 0,
    pr_num_unfinished_mem_entrys = 0, pr_instructions = 0, pr_retired_instructions = 0, pr_mem_op_id = 0,
    pr_mp_trace_buffer = [one_load], pr_trace_next = 0, pr_trace_pos = 1, pr_rob_array = [new_entry 0 CDLY_TYPE 0 0],
    pr_throttle_mode = False, pr_ot_MemRefs = {}, pr_cpu_response_fifo = []\<rparr>"
proof -
  have "trace_loop 1 one_trace 0 0 [] = Some ([one_load], 1)" by code_simp
  then show ?thesis by (simp add: one_processor_def initProcessor_def populateTraceBuffer_def one_cpu_def)
qed

lemma one_trace_ok: "traces_ok one_cpu one_trace"
proof -
  have r: "line_ok MSR_TRACE_FORMAT ''0 R 0''" "line_counts MSR_TRACE_FORMAT ''0 R 0''"
    by (simp_all add: line_ok_def line_counts_def msr_read cpu_records_def memory_record_def)
  have "\<exists>n l. ts_read one_trace (i + n) = GzLine l \<and> line_counts (ts_format one_trace) l" for i
    using r(2) by (intro exI[of _ "i mod 2"] exI[of _ "''0 R 0''"]) (auto simp: one_trace_def)
  then show ?thesis using r(1) by (auto simp: traces_ok_def source_ok_def one_trace_def one_cpu_def split: if_splits)
qed

lemma one_line_cache_ok: "cpu_cache_ok one_line_cache" "line_state one_line_cache 0 = EXCLUSIVE"
proof -
  show "cpu_cache_ok one_line_cache"
    by (auto simp: cpu_cache_ok_def one_line_cache_def set_ok_def n_valid_def lines_ok_def DECODE_SET_def intro!: exI[of _ 0])
  show "line_state one_line_cache 0 = EXCLUSIVE" by code_simp
qed

lemma one_world_ok: "world_ok one_world"
  by (simp add: world_ok_def one_world_def one_line_cache_ok)

text \<open>
  C22: A load that hits the first cache and becomes the oldest instruction in the cycle that fetches it stops the
  simulator, when the lookup takes time: the load is ready, but not before \<open>flc_lookup_time\<close> cycles, so \<open>retire\<close> asks whether
  it stalls on the network and follows the pointer \<open>map_transaction\<close> returns for the number -1, which no
  transaction has.
\<close>
theorem l1_hit_at_head_stops:
  assumes "rob_ok p" "isEmpty p" "buffer_ok ck p" "world_ok w" "traces_ok ck refill"
    "0 < ck_issue_width ck" "0 < ck_commit_width ck" "0 < ck_flc_lookup_time ck"
    "length (wo_tr_pool w) \<le> ck_max_tr ck" "\<not> flc_transfer_overflow ck (pr_procID p) w" "\<not> pr_throttle_mode p"
    "t = pr_mp_trace_buffer p ! pr_trace_next p" "tb_type t = READ_TYPE"
    "drop_bit 7 (tb_address t) \<notin> pr_ot_MemRefs p" "line_state (wo_flc w) (tb_address t) \<noteq> CPU_INVALID"
    "\<forall>tr \<in> set (wo_tr_pool w). tr_tr_id tr \<noteq> - 1"
  shows "doCycle ck refill clock (w, p) = None"
proof -
  have nf: "\<not> isFull p" using assms(1,2) by (auto simp: isFull_def isEmpty_def rob_ok_def)
  have el: "rob_list p = []" using assms(2) by (simp add: isEmpty_def rob_list_def rob_positions_def)
  let ?f = "fetched clock READ_TYPE (tb_address t) p"
  let ?p1 = "?f\<lparr>pr_num_mem_entrys := pr_num_mem_entrys p + 1, pr_num_unfinished_mem_entrys := pr_num_unfinished_mem_entrys p + 1\<rparr>"
  let ?e = "new_entry clock READ_TYPE (tb_address t) (pr_instructions p + 1)"
  have f1: "fresh ?p1" using fresh_fetched[OF assms(1) nf] by (simp add: fresh_def)
  have l1: "rob_list ?p1 = [] @ [?e]" using rob_list_fetched[OF assms(1) nf] el by (simp add: rob_list_def rob_positions_def)
  have ot: "drop_bit 7 (tb_address t) \<notin> pr_ot_MemRefs ?p1" using assms(14) by (simp add: fetched_def set_rob_def)
  from insert_l1_hit[OF assms(4) f1 l1 ot assms(15), of ck clock] obtain w' p2 where
    i: "insertMemTransaction ck clock t (w, ?p1) = Some (w', p2)" "wo_tr_pool w' = wo_tr_pool w" "fresh p2"
    "rob_list p2 = [?e\<lparr>ro_ready := True, ro_min_retire_timestamp := clock + ck_flc_lookup_time ck\<rparr>]" by auto
  let ?p3 = "next_slot p2"
  have "pr_mp_trace_buffer p2 = pr_mp_trace_buffer p" "pr_trace_next p2 = pr_trace_next p"
    using insertMemTransaction_effect[OF assms(4) f1 l1, of t ck clock] i(1) assms(13) by (auto simp: new_entry_def fetched_def)
  then have b3: "buffer_ok ck ?p3" using assms(3) by (simp add: buffer_ok_def next_slot_def)
  obtain p4 where p4: "advance_trace ck refill ?p3 = Some p4" "same_rob ?p3 p4"
    using advance_trace_effect[OF b3 assms(5)] by blast
  have m: "fetch_memory ck refill clock t (w, p) = Some (w', p4)"
    using assms(9-11,13) i(1) p4(1) by (simp add: fetch_memory_def Let_def)
  obtain n where n: "ck_issue_width ck = Suc n" using assms(6) by (cases "ck_issue_width ck") auto
  have "pr_trace_next p < length (pr_mp_trace_buffer p)" using assms(3) by (simp add: buffer_ok_def trace_ok_def)
  then have f: "fetch ck refill clock (w, p) = Some (w', p4)"
    using nf assms(12,13) m by (simp add: fetch_def n)
  have "rob_list ?p3 = rob_list p2" by (simp add: rob_list_def rob_positions_def next_slot_def)
  with p4(2) have "rob_list p4 = rob_list p2" "rob_ok p4 = rob_ok ?p3" by (simp_all add: same_rob_def)
  then have l4: "rob_list p4 = [?e\<lparr>ro_ready := True, ro_min_retire_timestamp := clock + ck_flc_lookup_time ck\<rparr>]" and ok: "rob_ok p4"
    using i(4) rob_ok_next_slot[OF i(3)] by simp_all
  let ?q = "executeNonMemoryInstructions ck p4"
  have E: "executed (rob_list p4) (rob_list ?q)" "rob_ok ?q"
    using execute_loop_effect[OF ok, of "ck_execution_width ck" 0] by (simp_all add: executeNonMemoryInstructions_def)
  then have q: "rob_list ?q = [?e\<lparr>ro_ready := True, ro_min_retire_timestamp := clock + ck_flc_lookup_time ck\<rparr>]"
    by (auto simp: executed_def l4 list_all2_Cons1 mem_inst_def new_entry_def)
  have ne: "\<not> isEmpty ?q" using arg_cong[OF q, of length] by (simp add: isEmpty_def)
  then have hd: "pr_rob_array ?q ! pr_oldest ?q = ?e\<lparr>ro_ready := True, ro_min_retire_timestamp := clock + ck_flc_lookup_time ck\<rparr>"
    using rob_head[OF E(2)] q by simp
  have "map_transaction (- 1) pool = None" if "\<forall>tr \<in> set pool. tr_tr_id tr \<noteq> - 1" for pool
    using that by (induction pool) auto
  then have none: "map_transaction (- 1) (wo_tr_pool w') = None" using assms(16) i(2) by simp
  obtain k where k: "ck_commit_width ck = Suc k" using assms(7) by (cases "ck_commit_width ck") auto
  have "retire ck clock (wo_tr_pool w') ?q = None"
    using ne assms(8) none by (simp add: retire_def k hd Let_def isOldestStallingNetwork_def new_entry_def)
  then show ?thesis by (simp add: doCycle_def f)
qed

theorem l1_hit_at_head_stops_witness: "doCycle one_cpu one_trace 0 (one_world, one_processor) = None"
proof (rule l1_hit_at_head_stops[of _ one_cpu one_world])
  show "world_ok one_world" by (rule one_world_ok)
  show "line_state (wo_flc one_world) (tb_address one_load) \<noteq> CPU_INVALID" by (simp add: one_world_def one_load_def one_line_cache_ok)
  show "traces_ok one_cpu one_trace" by (rule one_trace_ok)
qed (simp_all add: one_processor_eq one_cpu_def one_world_def one_load_def one_line_cache_def rob_ok_def
    isEmpty_def buffer_ok_def trace_ok_def cpu_records_def flc_transfer_overflow_def)

definition fetch_open :: "cpu_config \<Rightarrow> cpu_world \<Rightarrow> processor \<Rightarrow> bool" where
  "fetch_open ck w p \<longleftrightarrow> length (wo_tr_pool w) \<le> ck_max_tr ck \<and> \<not> flc_transfer_overflow ck (pr_procID p) w \<and> \<not> pr_throttle_mode p"

text \<open>\<open>populateTraceBuffer\<close> reads the records of a network trace, but \<open>fetch\<close> asserts that there are none.\<close>

lemma network_record_stops:
  "fetch_open ck w p \<Longrightarrow> tb_type t = NET_TYPE \<or> tb_type t = MNET_TYPE \<Longrightarrow> fetch_memory ck refill clock t (w, p) = None"
  by (auto simp: fetch_memory_def fetch_open_def)

text \<open>What a processor does between two loads while no miss of \<open>line\<close> completes.\<close>

inductive quiet_steps :: "cpu_config \<Rightarrow> trace_source \<Rightarrow> int \<Rightarrow> processor \<Rightarrow> processor \<Rightarrow> bool" for ck refill line p where
  quiet_start: "quiet_steps ck refill line p p"
| quiet_fetch: "quiet_steps ck refill line p q \<Longrightarrow> fetch ck refill clock (w, q) = Some (w', q') \<Longrightarrow> quiet_steps ck refill line p q'"
| quiet_execute: "quiet_steps ck refill line p q \<Longrightarrow> quiet_steps ck refill line p (executeNonMemoryInstructions ck q)"
| quiet_retire: "quiet_steps ck refill line p q \<Longrightarrow> retire ck clock pool q = Some q' \<Longrightarrow> quiet_steps ck refill line p q'"
| quiet_ready: "quiet_steps ck refill line p q \<Longrightarrow> setReady clock k i q = Some q' \<Longrightarrow>
    drop_bit 7 (ro_address (pr_rob_array q ! k)) \<noteq> line \<Longrightarrow> quiet_steps ck refill line p q'"
| quiet_network: "quiet_steps ck refill line p q \<Longrightarrow>
    quiet_steps ck refill line p (q\<lparr>pr_throttle_mode := m, pr_cpu_response_fifo := fifo\<rparr>)"

lemma insert_ot:
  "insertMemTransaction ck clock t (w, p) = Some (w', p') \<Longrightarrow>
   pr_ot_MemRefs p' = insert (drop_bit 7 (tb_address t)) (pr_ot_MemRefs p)"
  by (auto simp: insertMemTransaction_def Let_def set_rob_def split: if_splits prod.splits elim!: bind_SomeE)

lemma advance_ot: "advance_trace ck refill p = Some q \<Longrightarrow> pr_ot_MemRefs q = pr_ot_MemRefs p"
  by (auto simp: advance_trace_def populateTraceBuffer_def Let_def split: if_splits elim!: bind_SomeE)

lemma fetch_delay_ot:
  assumes "fetch_delay ck refill clock t p = Some q"
  shows "pr_ot_MemRefs q = pr_ot_MemRefs p"
proof -
  let ?p1 = "next_slot (fetched clock CDLY_TYPE (- 1) p)"
  let ?p2 = "?p1\<lparr>pr_mp_trace_buffer := (pr_mp_trace_buffer ?p1)[pr_trace_next ?p1 := t\<lparr>tb_cycles := tb_cycles t - 1\<rparr>]\<rparr>"
  have "pr_ot_MemRefs ?p2 = pr_ot_MemRefs p" by (simp add: next_slot_def fetched_def set_rob_def)
  moreover have "q = ?p2 \<or> advance_trace ck refill ?p2 = Some q"
    using assms by (simp add: fetch_delay_def Let_def split: if_splits)
  ultimately show ?thesis using advance_ot by auto
qed

lemma fetch_memory_ot:
  assumes "fetch_memory ck refill clock t (w, p) = Some (w', p')"
  shows "pr_ot_MemRefs p \<subseteq> pr_ot_MemRefs p' \<and> (fetch_open ck w p \<longrightarrow> drop_bit 7 (tb_address t) \<in> pr_ot_MemRefs p')"
proof (cases "fetch_open ck w p")
  case True
  then obtain p2 where p2: "insertMemTransaction ck clock t (w, (fetched clock (tb_type t) (tb_address t) p)
      \<lparr>pr_num_mem_entrys := pr_num_mem_entrys p + 1, pr_num_unfinished_mem_entrys := pr_num_unfinished_mem_entrys p + 1\<rparr>) = Some (w', p2)"
    "advance_trace ck refill (next_slot p2) = Some p'"
    using assms by (auto simp: fetch_memory_def fetch_open_def Let_def split: if_splits elim!: bind_SomeE)
  from insert_ot[OF p2(1)] advance_ot[OF p2(2)] show ?thesis by (auto simp: next_slot_def fetched_def set_rob_def)
next
  case False
  with assms show ?thesis by (auto simp: fetch_memory_def fetch_open_def split: if_splits elim!: bind_SomeE)
qed

lemma fetch_loop_ot: "fetch_loop ck refill clock n (w, p) = Some (w', p') \<Longrightarrow> pr_ot_MemRefs p \<subseteq> pr_ot_MemRefs p'"
proof (induction n arbitrary: w p)
  case (Suc n)
  show ?case
  proof (cases "isFull p")
    case False
    let ?t = "pr_mp_trace_buffer p ! pr_trace_next p"
    show ?thesis
    proof (cases "tb_type ?t = CDLY_TYPE")
      case True
      with Suc.prems False obtain q where "fetch_delay ck refill clock ?t p = Some q" "fetch_loop ck refill clock n (w, q) = Some (w', p')"
        by (auto simp: Let_def split: if_splits elim!: bind_SomeE)
      with Suc.IH fetch_delay_ot show ?thesis by blast
    next
      case mem: False
      with Suc.prems False have "fetch_memory ck refill clock ?t (w, p) = Some (w', p')" by (auto simp: Let_def split: if_splits)
      from fetch_memory_ot[OF this] show ?thesis by blast
    qed
  qed (use Suc.prems in simp)
qed simp

lemma execute_ot: "pr_ot_MemRefs (execute_loop n i p) = pr_ot_MemRefs p"
  by (induction n arbitrary: i p) (simp_all add: Let_def set_rob_def)

lemma retire_ot: "retire_loop clock pool n p = Some q \<Longrightarrow> pr_ot_MemRefs q = pr_ot_MemRefs p"
  by (induction n arbitrary: p) (auto simp: Let_def split: if_splits elim!: bind_SomeE)

lemma quiet_steps_keep:
  assumes "quiet_steps ck refill line p q" "line \<in> pr_ot_MemRefs p"
  shows "line \<in> pr_ot_MemRefs q"
  using assms
proof (induction rule: quiet_steps.induct)
  case (quiet_fetch q clock w w' q')
  then show ?case using fetch_loop_ot unfolding fetch_def by blast
next
  case (quiet_execute q)
  then show ?case by (simp add: executeNonMemoryInstructions_def execute_ot)
next
  case (quiet_retire q clock pool q')
  then show ?case using retire_ot unfolding retire_def by blast
next
  case (quiet_ready q clock k i q')
  then show ?case by (auto simp: setReady_def set_rob_def split: if_splits)
qed simp_all

lemma insert_present:
  assumes "fresh p" "rob_list p = es @ [e]" "drop_bit 7 (tb_address u) \<in> pr_ot_MemRefs p" "tb_type u = READ_TYPE"
  shows "\<exists>p'. insertMemTransaction ck clock u (v, p) = Some (v, p') \<and> rob_list p' = es @ [e\<lparr>ro_ready := True\<rparr>]"
proof -
  let ?p = "p\<lparr>pr_ot_MemRefs := insert (drop_bit 7 (tb_address u)) (pr_ot_MemRefs p)\<rparr>"
  let ?t = "ro_min_retire_timestamp (pr_rob_array p ! pr_next p)"
  let ?f = "\<lambda>e. e\<lparr>ro_ready := True, ro_min_retire_timestamp := ?t\<rparr>"
  have fr: "fresh ?p" "rob_list ?p = es @ [e]" using assms(1,2) by (simp_all add: fresh_def rob_list_def rob_positions_def)
  have "?f e = e\<lparr>ro_ready := True\<rparr>" using fresh_set_rob(3)[OF assms(1,2)] by simp
  then have l: "rob_list (set_rob (pr_next p) ?f ?p) = es @ [e\<lparr>ro_ready := True\<rparr>]" using fresh_set_rob(1)[OF fr, of ?f] by simp
  let ?q = "(set_rob (pr_next p) ?f ?p)\<lparr>pr_num_unfinished_mem_entrys := pr_num_unfinished_mem_entrys ?p - 1\<rparr>"
  have "insertMemTransaction ck clock u (v, p) = Some (v, ?q)" using assms(3,4) by (simp add: insertMemTransaction_def Let_def)
  moreover have "rob_list ?q = es @ [e\<lparr>ro_ready := True\<rparr>]" using l by (simp add: rob_list_def rob_positions_def)
  ultimately show ?thesis by blast
qed

text \<open>
  C23: A load that hits the first cache makes no transaction, but leaves its line in \<open>ot_MemRefs\<close>, from where only
  \<open>setReady\<close>, for a miss that completes, would take it.  So until a miss of the same line completes (a store of the line
  can miss, a load is not looked up again), through whatever else the processor does, a load of the line is done
  without a lookup, whatever the caches hold: also when the line has been replaced since.
\<close>
theorem load_after_hit_skips_caches:
  assumes "world_ok w" "rob_ok p" "\<not> isFull p" "fetch_open ck w p" "drop_bit 7 (tb_address t) \<notin> pr_ot_MemRefs p"
    "line_state (wo_flc w) (tb_address t) \<noteq> CPU_INVALID" "fetch_memory ck refill clock t (w, p) = Some (w1, p1)"
    "quiet_steps ck refill (drop_bit 7 (tb_address t)) p1 p2"
    "rob_ok p2" "\<not> isFull p2" "fetch_open ck v p2" "tb_type u = READ_TYPE" "drop_bit 7 (tb_address u) = drop_bit 7 (tb_address t)"
    "fetch_memory ck refill clock' u (v, p2) = Some (v', p3)"
  shows "wo_tr_pool w1 = wo_tr_pool w \<and> v' = v \<and> (\<exists>es e. rob_list p3 = es @ [e] \<and> ro_address e = tb_address u \<and> ro_ready e)"
proof -
  let ?f = "(fetched clock (tb_type t) (tb_address t) p)
      \<lparr>pr_num_mem_entrys := pr_num_mem_entrys p + 1, pr_num_unfinished_mem_entrys := pr_num_unfinished_mem_entrys p + 1\<rparr>"
  have f1: "fresh ?f" using fresh_fetched[OF assms(2,3)] by (simp add: fresh_def)
  have l1: "rob_list ?f = rob_list p @ [new_entry clock (tb_type t) (tb_address t) (pr_instructions p + 1)]"
    using rob_list_fetched[OF assms(2,3)] by (simp add: rob_list_def rob_positions_def)
  have o1: "drop_bit 7 (tb_address t) \<notin> pr_ot_MemRefs ?f" using assms(5) by (simp add: fetched_def set_rob_def)
  obtain q2 where "insertMemTransaction ck clock t (w, ?f) = Some (w1, q2)"
    using assms(4,7) by (auto simp: fetch_memory_def fetch_open_def Let_def split: if_splits elim!: bind_SomeE)
  with insert_l1_hit[OF assms(1) f1 l1 o1 assms(6), of ck clock] have pool: "wo_tr_pool w1 = wo_tr_pool w" by auto
  have "drop_bit 7 (tb_address t) \<in> pr_ot_MemRefs p1" using fetch_memory_ot[OF assms(7)] assms(4) by blast
  then have ot: "drop_bit 7 (tb_address u) \<in> pr_ot_MemRefs p2" using quiet_steps_keep[OF assms(8)] assms(13) by simp
  let ?g = "(fetched clock' READ_TYPE (tb_address u) p2)
      \<lparr>pr_num_mem_entrys := pr_num_mem_entrys p2 + 1, pr_num_unfinished_mem_entrys := pr_num_unfinished_mem_entrys p2 + 1\<rparr>"
  let ?e = "new_entry clock' READ_TYPE (tb_address u) (pr_instructions p2 + 1)"
  have g: "fresh ?g" "rob_list ?g = rob_list p2 @ [?e]"
    using fresh_fetched[OF assms(9,10)] rob_list_fetched[OF assms(9,10)] by (simp_all add: fresh_def rob_list_def rob_positions_def)
  have og: "drop_bit 7 (tb_address u) \<in> pr_ot_MemRefs ?g" using ot by (simp add: fetched_def set_rob_def)
  obtain q3 where q3: "insertMemTransaction ck clock' u (v, ?g) = Some (v', q3)" "advance_trace ck refill (next_slot q3) = Some p3"
    using assms(11,12,14) by (auto simp: fetch_memory_def fetch_open_def Let_def split: if_splits elim!: bind_SomeE)
  from insert_present[OF g og assms(12), of ck clock' v] q3(1) have "v' = v" "rob_list q3 = rob_list p2 @ [?e\<lparr>ro_ready := True\<rparr>]"
    by auto
  moreover have "rob_list p3 = rob_list q3"
    using q3(2) by (auto simp: advance_trace_def populateTraceBuffer_def Let_def rob_list_def rob_positions_def next_slot_def
        split: if_splits elim!: bind_SomeE)
  ultimately show ?thesis using pool by (simp add: new_entry_def)
qed

text \<open>The line is loaded once, replaced, and then read from caches that no longer hold it.\<close>

definition two_slots :: processor where
  "two_slots = one_processor\<lparr>pr_rob_array := replicate 2 (new_entry 0 CDLY_TYPE 0 0)\<rparr>"

theorem load_after_hit_skips_caches_witness:
  "\<exists>w1 p1 v' p3. fetch_memory one_cpu one_trace 0 one_load (one_world, two_slots) = Some (w1, p1) \<and>
     fetch_memory one_cpu one_trace 9 one_load (w1\<lparr>wo_flc := one_line_cache\<lparr>cc_sets := [new_cset 1]\<rparr>\<rparr>,
       executeNonMemoryInstructions one_cpu p1) = Some (v', p3) \<and>
     wo_flc v' = one_line_cache\<lparr>cc_sets := [new_cset 1]\<rparr> \<and> (\<exists>es e. rob_list p3 = es @ [e] \<and> ro_ready e)"
proof -
  let ?c = "one_line_cache\<lparr>cc_sets := [new_cset 1]\<rparr>" and ?ex = "executeNonMemoryInstructions one_cpu"
  have "map_option (\<lambda>(w1, p1). (isFull (?ex p1), fetch_open one_cpu (w1\<lparr>wo_flc := ?c\<rparr>) (?ex p1),
      Option.is_none (fetch_memory one_cpu one_trace 9 one_load (w1\<lparr>wo_flc := ?c\<rparr>, ?ex p1))))
    (fetch_memory one_cpu one_trace 0 one_load (one_world, two_slots)) = Some (False, True, False)" by code_simp
  then obtain w1 p1 v' p3 where e: "fetch_memory one_cpu one_trace 0 one_load (one_world, two_slots) = Some (w1, p1)"
    "\<not> isFull (?ex p1)" "fetch_open one_cpu (w1\<lparr>wo_flc := ?c\<rparr>) (?ex p1)"
    "fetch_memory one_cpu one_trace 9 one_load (w1\<lparr>wo_flc := ?c\<rparr>, ?ex p1) = Some (v', p3)"
    by (auto simp: map_option_eq_Some Option.is_none_def)
  have p: "rob_ok two_slots" "\<not> isFull two_slots" "buffer_ok one_cpu two_slots" "drop_bit 7 (tb_address one_load) \<notin> pr_ot_MemRefs two_slots"
    "fetch_open one_cpu one_world two_slots"
    by (simp_all add: two_slots_def one_processor_eq rob_ok_def isFull_def buffer_ok_def trace_ok_def cpu_records_def one_load_def one_cpu_def
        fetch_open_def one_world_def one_line_cache_def flc_transfer_overflow_def)
  have ty: "tb_type one_load = READ_TYPE" by (simp add: one_load_def)
  have l: "line_state (wo_flc one_world) (tb_address one_load) \<noteq> CPU_INVALID" by (simp add: one_world_def one_load_def one_line_cache_ok)
  have "rob_ok p1"
    using fetch_memory_effect[OF p(1-3) one_trace_ok one_world_ok disjI1[OF ty], of 0] e(1) by (auto simp: fetch_result_def)
  then have ok: "rob_ok (?ex p1)" using execute_loop_effect[of p1 "ck_execution_width one_cpu" 0] by (simp add: executeNonMemoryInstructions_def)
  have q: "quiet_steps one_cpu one_trace (drop_bit 7 (tb_address one_load)) p1 (?ex p1)" by (rule quiet_execute[OF quiet_start])
  from load_after_hit_skips_caches[OF one_world_ok p(1,2,5,4) l e(1) q ok e(2,3) ty refl e(4)] e show ?thesis by auto
qed

end
