(* ===== verification/CpuMemInv.thy ===== *)
theory CpuMemInv
  imports CpuMem CpuCoreInv
begin

text \<open>
  The transactions of the CPU model (\<open>src/cpu-sim/cpu_engine.cpp\<close>) over any run: every transaction belongs to an entry of a
  reorder buffer, a transaction that waits for a line has one ahead of it whose request is on its way, and
  the reply lets all of them go.
\<close>

subsection \<open>The pool as a map\<close>

definition pool_ok :: "TRANSTYPE list \<Rightarrow> bool" where
  "pool_ok pool \<longleftrightarrow> distinct (map tr_tr_id pool)"

lemma map_transaction_mem: "map_transaction i pool = Some t \<Longrightarrow> t \<in> set pool \<and> tr_tr_id t = i"
  by (induction pool) (auto split: if_splits)

lemma map_transaction_None: "map_transaction i pool = None \<longleftrightarrow> i \<notin> tr_tr_id ` set pool"
  by (induction pool) auto

lemma map_transaction_in: "pool_ok pool \<Longrightarrow> t \<in> set pool \<Longrightarrow> map_transaction (tr_tr_id t) pool = Some t"
  by (induction pool) (auto simp: pool_ok_def image_iff)

lemma map_transaction_nth: "pool_ok pool \<Longrightarrow> j < length pool \<Longrightarrow> map_transaction (tr_tr_id (pool ! j)) pool = Some (pool ! j)"
  by (simp add: map_transaction_in)

lemma map_transaction_append:
  "map_transaction i (xs @ ys) = (case map_transaction i xs of None \<Rightarrow> map_transaction i ys | Some t \<Rightarrow> Some t)"
  by (induction xs) auto

lemma map_transaction_pool: "pool_ok pool \<Longrightarrow> map_transaction i pool = Some t \<longleftrightarrow> t \<in> set pool \<and> tr_tr_id t = i"
  using map_transaction_mem map_transaction_in by metis

lemma pool_ok_ids: "map tr_tr_id pool' = map tr_tr_id pool \<Longrightarrow> pool_ok pool' = pool_ok pool"
  by (simp add: pool_ok_def)

lemma pool_ids_update: "tr_tr_id t = tr_tr_id (pool ! j) \<Longrightarrow> map tr_tr_id (pool[j := t]) = map tr_tr_id pool"
  by (simp add: map_update list_update_same_conv) (metis list_update_beyond list_update_id map_update not_le)

lemma map_transaction_list_update:
  assumes "pool_ok pool" "j < length pool" "tr_tr_id t = tr_tr_id (pool ! j)"
  shows "map_transaction i (pool[j := t]) = (if i = tr_tr_id t then Some t else map_transaction i pool)"
  using assms
proof (induction pool arbitrary: j)
  case (Cons u us)
  show ?case
  proof (cases j)
    case (Suc m)
    then have "us ! m \<in> set us" using Cons.prems by simp
    then have "tr_tr_id (us ! m) \<noteq> tr_tr_id u" using Cons.prems(1) image_eqI[of _ tr_tr_id "us ! m" "set us"] by (fastforce simp: pool_ok_def)
    then show ?thesis using Cons.IH[of m] Cons.prems Suc by (auto simp: pool_ok_def)
  qed (use Cons.prems in auto)
qed simp

lemma map_transaction_drop_nth:
  assumes "pool_ok pool" "j < length pool"
  shows "map_transaction i (drop_nth j pool) = (if i = tr_tr_id (pool ! j) then None else map_transaction i pool)"
proof -
  let ?xs = "take j pool" and ?ys = "drop (Suc j) pool" and ?t = "pool ! j"
  have p: "pool = ?xs @ ?t # ?ys" using assms(2) by (rule id_take_nth_drop)
  have d: "distinct (map tr_tr_id (?xs @ ?t # ?ys))" using assms(1) p by (simp add: pool_ok_def)
  then have n: "map_transaction (tr_tr_id ?t) ?xs = None" "map_transaction (tr_tr_id ?t) ?ys = None"
    by (auto simp: map_transaction_None)
  have "map_transaction i pool = map_transaction i (?xs @ ?t # ?ys)" using p by simp
  then show ?thesis using n by (auto simp: drop_nth_def map_transaction_append split: option.splits)
qed

lemma pool_ok_drop_nth:
  assumes "pool_ok pool"
  shows "pool_ok (drop_nth j pool)"
proof (cases "j < length pool")
  case True
  then have "map tr_tr_id pool = map tr_tr_id (take j pool @ pool ! j # drop (Suc j) pool)" by (simp add: id_take_nth_drop[symmetric])
  then show ?thesis using assms by (auto simp: pool_ok_def drop_nth_def)
qed (use assms in \<open>simp add: drop_nth_def\<close>)

lemma update_transaction_map:
  assumes "map_transaction i pool = Some t" "tr_tr_id (f t) = i"
  shows "\<exists>pool'. update_transaction i f pool = Some pool' \<and> map tr_tr_id pool' = map tr_tr_id pool \<and>
    (\<forall>j. map_transaction j pool' = (if j = i then Some (f t) else map_transaction j pool))"
  using assms
proof (induction pool)
  case (Cons u us)
  show ?case
  proof (cases "tr_tr_id u = i")
    case False
    with Cons obtain us' where us: "update_transaction i f us = Some us'" "map tr_tr_id us' = map tr_tr_id us"
      "\<forall>j. map_transaction j us' = (if j = i then Some (f t) else map_transaction j us)" by auto
    then show ?thesis using False by auto
  qed (use Cons.prems in auto)
qed simp

subsection \<open>Waking\<close>

definition woken :: "int \<Rightarrow> TRANSTYPE \<Rightarrow> TRANSTYPE" where
  "woken clock t = t\<lparr>tr_timestamp := clock + 1, tr_state := EXIT\<rparr>"

lemma woken_fields [simp]:
  "tr_tr_id (woken c t) = tr_tr_id t" "tr_address (woken c t) = tr_address t" "tr_cpuid (woken c t) = tr_cpuid t"
  "tr_mem_op_id (woken c t) = tr_mem_op_id t" "tr_ptr_to_mf (woken c t) = tr_ptr_to_mf t" "tr_state (woken c t) = EXIT"
  "tr_timestamp (woken c t) = c + 1" "woken c (woken c t) = woken c t"
  by (simp_all add: woken_def)

lemma wake_all:
  assumes "\<forall>i \<in> set ids. map_transaction i pool \<noteq> None"
  shows "\<exists>pool'. fold_opt (wake clock) ids pool = Some pool' \<and> map tr_tr_id pool' = map tr_tr_id pool \<and>
    (\<forall>j. map_transaction j pool' = (if j \<in> set ids then map_option (woken clock) (map_transaction j pool) else map_transaction j pool))"
  using assms
proof (induction ids arbitrary: pool)
  case (Cons i ids)
  then obtain t where t: "map_transaction i pool = Some t" by auto
  then have "tr_tr_id (woken clock t) = i" using map_transaction_mem by simp
  from update_transaction_map[where f = "woken clock", OF t this] obtain pool1 where p1: "wake clock i pool = Some pool1"
    "map tr_tr_id pool1 = map tr_tr_id pool" "\<forall>j. map_transaction j pool1 = (if j = i then Some (woken clock t) else map_transaction j pool)"
    unfolding wake_def woken_def[abs_def] by blast
  then have "\<forall>i \<in> set ids. map_transaction i pool1 \<noteq> None" using Cons.prems by auto
  from Cons.IH[OF this] obtain pool2 where p2: "fold_opt (wake clock) ids pool1 = Some pool2"
    "map tr_tr_id pool2 = map tr_tr_id pool1"
    "\<forall>j. map_transaction j pool2 = (if j \<in> set ids then map_option (woken clock) (map_transaction j pool1) else map_transaction j pool1)" by blast
  show ?case using p1 p2 t by (intro exI[of _ pool2]) (auto simp: comp_def)
qed simp

subsection \<open>The entries of the \<open>MSHR\<close>\<close>

definition mask_ok :: "cpu_cache \<Rightarrow> bool" where
  "mask_ok c \<longleftrightarrow> cc_line_mask c = mask (cc_set_shift c)"

lemma drop_and_not_mask: "drop_bit k (a AND NOT (mask k)) = drop_bit k (a :: int)"
  by (rule bit_eqI) (simp add: bit_drop_bit_eq bit_and_iff bit_not_iff bit_mask_iff)

lemma and_not_mask_eq: "a AND NOT (mask k) = push_bit k (drop_bit k (a :: int))"
  by (rule bit_eqI) (auto simp: bit_drop_bit_eq bit_and_iff bit_not_iff bit_mask_iff bit_push_bit_iff)

lemma same_line_block: "mask_ok c \<Longrightarrow> same_line c a b \<longleftrightarrow> block c a = block c b"
  by (metis and_not_mask_eq drop_and_not_mask block_def mask_ok_def same_line_def)

definition in_flight :: "TRANSTYPE \<Rightarrow> bool" where
  "in_flight t \<longleftrightarrow> tr_state t = CORE_TO_LLC \<and> tr_timestamp t = - 1 \<or> tr_state t = LLC_TO_CORE"

definition pending :: "TRANSTYPE \<Rightarrow> bool" where
  "pending t \<longleftrightarrow> tr_state t = LLC_MSHR_PENDING"

text \<open>The part a transaction has at the second cache of processor \<open>k\<close>: it has asked for a line, or waits for one.\<close>

definition waits :: "cpu_cache \<Rightarrow> nat \<Rightarrow> TRANSTYPE list \<Rightarrow> int \<Rightarrow> (bool \<times> int) option" where
  "waits c k pool i = (case map_transaction i pool of
      None \<Rightarrow> None
    | Some t \<Rightarrow> if tr_cpuid t \<noteq> k then None else if in_flight t then Some (True, block c (tr_address t))
        else if pending t then Some (False, block c (tr_address t)) else None)"

definition mshr_entry_ok :: "cpu_cache \<Rightarrow> (int \<Rightarrow> (bool \<times> int) option) \<Rightarrow> MSHR_entry \<Rightarrow> bool" where
  "mshr_entry_ok c W e \<longleftrightarrow> line_state c (me_line_address e) = CPU_INVALID \<and>
     (case me_tr_id e of [] \<Rightarrow> False | h # ws \<Rightarrow> W h = Some (True, block c (me_line_address e)) \<and>
        (\<forall>w \<in> set ws. W w = Some (False, block c (me_line_address e))))"

definition mshr_ok :: "cpu_cache \<Rightarrow> (int \<Rightarrow> (bool \<times> int) option) \<Rightarrow> bool" where
  "mshr_ok c W \<longleftrightarrow> (\<forall>e \<in> set (cc_MSHR c). mshr_entry_ok c W e) \<and>
     distinct (map (\<lambda>e. block c (me_line_address e)) (cc_MSHR c)) \<and>
     (\<forall>i. W i \<noteq> None \<longrightarrow> (\<exists>e \<in> set (cc_MSHR c). i \<in> set (me_tr_id e)))"

lemma mshr_insert_effect:
  assumes "mask_ok c"
  shows "case mshr_insert c i a es of (b, es') \<Rightarrow>
    if b then \<exists>xs e ys. es = xs @ e # ys \<and> es' = xs @ e\<lparr>me_tr_id := me_tr_id e @ [i]\<rparr> # ys \<and> block c (me_line_address e) = block c a
    else es' = es @ [\<lparr>me_tr_id = [i], me_line_address = a\<rparr>] \<and> (\<forall>e \<in> set es. block c (me_line_address e) \<noteq> block c a)"
proof (induction es)
  case (Cons e es)
  show ?case
  proof (cases "block c a = block c (me_line_address e)")
    case True
    then show ?thesis by (auto simp: same_line_block[OF assms] intro!: exI[of _ "[]"])
  next
    case False
    obtain b es' where r: "mshr_insert c i a es = (b, es')" by fastforce
    show ?thesis
    proof (cases b)
      case True
      then obtain xs f ys where "es = xs @ f # ys" "es' = xs @ f\<lparr>me_tr_id := me_tr_id f @ [i]\<rparr> # ys" "block c (me_line_address f) = block c a"
        using Cons r by auto
      then show ?thesis using False r True
        by (simp add: same_line_block[OF assms]) (rule exI[of _ "e # xs"], rule exI[of _ f], rule exI[of _ ys], simp)
    qed (use Cons r False in \<open>auto simp: same_line_block[OF assms]\<close>)
  qed
qed simp

lemma mshr_delete_none: "mask_ok c \<Longrightarrow> \<forall>e \<in> set es. block c (me_line_address e) \<noteq> block c a \<Longrightarrow> mshr_delete c clock a es pool = Some (es, pool)"
  by (induction es) (auto simp: same_line_block)

text \<open>The entry behind the one that is erased is left out of the search, which does not matter: its line is another.\<close>

lemma mshr_delete_effect:
  assumes "mask_ok c" "distinct (map (\<lambda>e. block c (me_line_address e)) (xs @ e # ys))" "block c (me_line_address e) = block c a"
    "fold_opt (wake clock) (me_tr_id e) pool = Some pool'"
  shows "mshr_delete c clock a (xs @ e # ys) pool = Some (xs @ ys, pool')"
  using assms(2)
proof (induction xs)
  case Nil
  then have n: "\<forall>y \<in> set ys. block c (me_line_address y) \<noteq> block c a" using assms(3) by (auto simp: image_iff)
  show ?case
  proof (cases ys)
    case (Cons y zs)
    then show ?thesis using n assms(3,4) mshr_delete_none[OF assms(1), of zs a] by (simp add: same_line_block[OF assms(1)])
  qed (use assms(3,4) in \<open>simp add: same_line_block[OF assms(1)]\<close>)
next
  case (Cons x xs)
  then have "block c (me_line_address x) \<noteq> block c a" using assms(3) by auto
  then show ?case using Cons by (simp add: same_line_block[OF assms(1)])
qed

subsection \<open>The invariant of the \<open>MSHR\<close>\<close>

lemma mshr_ok_entry:
  assumes "mshr_ok c W" "W i = Some (b, x)"
  obtains xs e ys where "cc_MSHR c = xs @ e # ys" "i \<in> set (me_tr_id e)" "block c (me_line_address e) = x"
proof -
  have "W i \<noteq> None" using assms(2) by simp
  then obtain e where e: "e \<in> set (cc_MSHR c)" "i \<in> set (me_tr_id e)" using assms(1) by (auto simp: mshr_ok_def simp del: not_None_eq)
  then have "mshr_entry_ok c W e" using assms(1) by (simp add: mshr_ok_def)
  then have "block c (me_line_address e) = x" using e(2) assms(2) by (cases "me_tr_id e") (auto simp: mshr_entry_ok_def)
  then show ?thesis using e that by (metis split_list)
qed

text \<open>A transaction that waits has one ahead of it that asked for the line.\<close>

lemma mshr_ok_ahead:
  assumes "mshr_ok c W" "W i = Some (False, x)"
  shows "\<exists>h. W h = Some (True, x)"
proof -
  from mshr_ok_entry[OF assms] obtain xs e ys where e: "cc_MSHR c = xs @ e # ys" "block c (me_line_address e) = x" "i \<in> set (me_tr_id e)" by blast
  then have "mshr_entry_ok c W e" using assms(1) by (simp add: mshr_ok_def)
  then show ?thesis using e by (cases "me_tr_id e") (auto simp: mshr_entry_ok_def)
qed

text \<open>Only one asks for a line.\<close>

lemma mshr_ok_one:
  assumes "mshr_ok c W" "W i = Some (True, x)" "W j = Some (True, x)"
  shows "i = j"
proof -
  from mshr_ok_entry[OF assms(1,2)] obtain xs e ys where e: "cc_MSHR c = xs @ e # ys" "i \<in> set (me_tr_id e)" "block c (me_line_address e) = x" by blast
  from mshr_ok_entry[OF assms(1,3)] obtain us f vs where f: "cc_MSHR c = us @ f # vs" "j \<in> set (me_tr_id f)" "block c (me_line_address f) = x" by blast
  have "distinct (map (\<lambda>e. block c (me_line_address e)) (cc_MSHR c))" using assms(1) by (simp add: mshr_ok_def)
  moreover have "e \<in> set (cc_MSHR c)" using e(1) by simp
  moreover have "f \<in> set (cc_MSHR c)" using f(1) by simp
  ultimately have "e = f" using e(3) f(3) by (auto simp: distinct_map inj_on_def)
  moreover have "mshr_entry_ok c W e" using assms(1) e(1) by (simp add: mshr_ok_def)
  ultimately show ?thesis using e(2) f(2) assms(2,3) by (cases "me_tr_id e") (auto simp: mshr_entry_ok_def)
qed

lemma mshr_ok_merge:
  assumes "mshr_ok c W" "mask_ok c" "W i = None" "insert_blocked_queue i a c = (True, d)"
  shows "mshr_ok d (W(i \<mapsto> (False, block c a)))" "same_shape c d" "cc_sets d = cc_sets c"
proof -
  obtain es where es: "mshr_insert c i a (cc_MSHR c) = (True, es)" "d = c\<lparr>cc_MSHR := es\<rparr>"
    using assms(4) by (auto simp: insert_blocked_queue_def split: prod.splits)
  from mshr_insert_effect[OF assms(2), where i = i and a = a and es = "cc_MSHR c"] es(1) obtain xs e ys where
    x: "cc_MSHR c = xs @ e # ys" "es = xs @ e\<lparr>me_tr_id := me_tr_id e @ [i]\<rparr> # ys" "block c (me_line_address e) = block c a" by auto
  show sh: "same_shape c d" "cc_sets d = cc_sets c" by (simp_all add: es(2) same_shape_def)
  note S = same_shape_eqs[OF sh(1)]
  have ls: "line_state d = line_state c" by (simp add: fun_eq_iff line_state_def cpu_line_def S sh(2))
  have ok: "mshr_entry_ok c W f" if "f \<in> set (cc_MSHR c)" for f using assms(1) that by (simp add: mshr_ok_def)
  have keep: "mshr_entry_ok d (W(i \<mapsto> (False, block c a))) f" if "mshr_entry_ok c W f" for f
    using that assms(3) by (auto simp: mshr_entry_ok_def ls S split: list.splits)
  have "mshr_entry_ok d (W(i \<mapsto> (False, block c a))) (e\<lparr>me_tr_id := me_tr_id e @ [i]\<rparr>)"
    using ok[of e] assms(3) x(1,3) by (auto simp: mshr_entry_ok_def ls S split: list.splits)
  moreover have "mshr_entry_ok d (W(i \<mapsto> (False, block c a))) f" if "f \<in> set xs \<union> set ys" for f using keep ok that x(1) by auto
  moreover have "distinct (map (\<lambda>e. block d (me_line_address e)) es)"
    using assms(1) by (simp add: mshr_ok_def x(1,2) S)
  moreover have "\<exists>f \<in> set es. j \<in> set (me_tr_id f)" if "W j \<noteq> None \<or> j = i" for j
    using assms(1) that by (auto simp: mshr_ok_def x(1,2) simp del: not_None_eq)
  ultimately show "mshr_ok d (W(i \<mapsto> (False, block c a)))"
    by (auto simp: mshr_ok_def es(2) x(2) split: if_splits)
qed

lemma mshr_ok_new:
  assumes "mshr_ok c W" "mask_ok c" "W i = None" "insert_blocked_queue i a c = (False, d)" "line_state c a = CPU_INVALID"
  shows "mshr_ok d (W(i \<mapsto> (True, block c a)))" "same_shape c d" "cc_sets d = cc_sets c"
proof -
  obtain es where es: "mshr_insert c i a (cc_MSHR c) = (False, es)" "d = c\<lparr>cc_MSHR := es\<rparr>"
    using assms(4) by (auto simp: insert_blocked_queue_def split: prod.splits)
  from mshr_insert_effect[OF assms(2), where i = i and a = a and es = "cc_MSHR c"] es(1) have
    x: "es = cc_MSHR c @ [\<lparr>me_tr_id = [i], me_line_address = a\<rparr>]" "\<forall>e \<in> set (cc_MSHR c). block c (me_line_address e) \<noteq> block c a" by auto
  show sh: "same_shape c d" "cc_sets d = cc_sets c" by (simp_all add: es(2) same_shape_def)
  note S = same_shape_eqs[OF sh(1)]
  have ls: "line_state d = line_state c" by (simp add: fun_eq_iff line_state_def cpu_line_def S sh(2))
  have keep: "mshr_entry_ok d (W(i \<mapsto> (True, block c a))) f" if "f \<in> set (cc_MSHR c)" for f
    using that assms(1,3) by (force simp: mshr_ok_def mshr_entry_ok_def ls S split: list.splits)
  have "mshr_entry_ok d (W(i \<mapsto> (True, block c a))) \<lparr>me_tr_id = [i], me_line_address = a\<rparr>"
    using assms(5) by (simp add: mshr_entry_ok_def ls S)
  moreover have "distinct (map (\<lambda>e. block d (me_line_address e)) es)"
    using assms(1) x(2) by (auto simp: mshr_ok_def x(1) S)
  moreover have "\<exists>f \<in> set es. j \<in> set (me_tr_id f)" if "W j \<noteq> None \<or> j = i" for j
    using assms(1) that by (auto simp: mshr_ok_def x(1) simp del: not_None_eq)
  ultimately show "mshr_ok d (W(i \<mapsto> (True, block c a)))"
    using keep by (auto simp: mshr_ok_def es(2) x(1) split: if_splits)
qed

text \<open>The reply: the entry goes, and the line is there.\<close>

lemma mshr_ok_fill:
  assumes "mshr_ok c W" "same_shape c d" "cc_MSHR c = xs @ e # ys" "cc_MSHR d = xs @ ys"
    "\<forall>b. block c b \<noteq> block c (me_line_address e) \<longrightarrow> line_state c b = CPU_INVALID \<longrightarrow> line_state d b = CPU_INVALID"
    "\<forall>j. V j = (if j \<in> set (me_tr_id e) then None else W j)"
  shows "mshr_ok d V"
proof -
  note S = same_shape_eqs[OF assms(2)]
  have dis: "\<forall>f \<in> set (xs @ ys). block c (me_line_address f) \<noteq> block c (me_line_address e)"
    using assms(1,3) by (auto simp: mshr_ok_def image_iff)
  have "mshr_entry_ok d V f" if f: "f \<in> set (xs @ ys)" for f
  proof -
    have fok: "mshr_entry_ok c W f" and eok: "mshr_entry_ok c W e" using assms(1,3) f by (auto simp: mshr_ok_def)
    have We: "\<exists>b. W j = Some (b, block c (me_line_address e))" if "j \<in> set (me_tr_id e)" for j
      using eok that by (cases "me_tr_id e") (auto simp: mshr_entry_ok_def)
    have Wf: "\<exists>b. W j = Some (b, block c (me_line_address f))" if "j \<in> set (me_tr_id f)" for j
      using fok that by (cases "me_tr_id f") (auto simp: mshr_entry_ok_def)
    have "V j = W j" if "j \<in> set (me_tr_id f)" for j
      using We[of j] Wf[OF that] dis f assms(6) by auto
    moreover have "line_state d (me_line_address f) = CPU_INVALID" using fok dis f assms(5) by (auto simp: mshr_entry_ok_def)
    ultimately show ?thesis using fok by (auto simp: mshr_entry_ok_def S split: list.splits)
  qed
  moreover have "distinct (map (\<lambda>e. block d (me_line_address e)) (cc_MSHR d))"
    using assms(1,3,4) by (auto simp: mshr_ok_def S)
  moreover have "\<exists>f \<in> set (cc_MSHR d). j \<in> set (me_tr_id f)" if "V j \<noteq> None" for j
  proof -
    have "W j \<noteq> None" "j \<notin> set (me_tr_id e)" using that assms(6) by (auto split: if_splits)
    then obtain f where "f \<in> set (cc_MSHR c)" "j \<in> set (me_tr_id f)" using assms(1) by (auto simp: mshr_ok_def simp del: not_None_eq)
    then show ?thesis using \<open>j \<notin> set (me_tr_id e)\<close> assms(3,4) by auto
  qed
  ultimately show ?thesis using assms(4) by (simp add: mshr_ok_def)
qed

end
