(* ===== verification/CpuRun.thy ===== *)
theory CpuRun
  imports CpuMemInv
begin

text \<open>
  A run of the CPU model (\<open>src/cpu-sim/cpu_engine.cpp\<close>, \<open>processor.cpp\<close>): the caches and the transactions between the cycles of
  the processors, of the memory side and of the network interface.
\<close>

subsection \<open>A reply fills the caches\<close>

lemma map_ids_nth: "map tr_tr_id ys = map tr_tr_id xs \<Longrightarrow> j < length xs \<Longrightarrow> length ys = length xs \<and> tr_tr_id (ys ! j) = tr_tr_id (xs ! j)"
  by (metis length_map nth_map)

lemma take_line_effect:
  assumes "cpu_cache_ok c" "mask_ok c" "pool_ok pool" "j < length pool" "a = tr_address (pool ! j)" "line_state c a = CPU_INVALID"
    "cc_MSHR c = xs @ e # ys" "block c (me_line_address e) = block c a" "tr_tr_id (pool ! j) \<in> set (me_tr_id e)"
    "distinct (map (\<lambda>e. block c (me_line_address e)) (cc_MSHR c))" "\<forall>i \<in> set (me_tr_id e). map_transaction i pool \<noteq> None"
  shows "\<exists>d pool'. take_line clock j (c, pool) = Some (d, pool') \<and> cpu_cache_ok d \<and> same_shape c d \<and> cc_MSHR d = xs @ ys \<and>
    map tr_tr_id pool' = map tr_tr_id pool \<and>
    (\<forall>b. block c b \<noteq> block c a \<longrightarrow> line_state c b = CPU_INVALID \<longrightarrow> line_state d b = CPU_INVALID) \<and> line_state d a = EXCLUSIVE \<and>
    (\<forall>i. map_transaction i pool' = (if i \<in> set (me_tr_id e) then map_option (woken clock) (map_transaction i pool) else map_transaction i pool))"
proof -
  from cpu_cache_fill_effect[OF assms(1,6), of EXCLUSIVE] obtain v pos c1 c2 where
    v: "victim_lookup a c = Some (v, pos, c1)" "replace_victim v a EXCLUSIVE pos c1 = Some c2" and
    c2: "cpu_cache_ok c2" "same_shape c c2" "cc_MSHR c2 = cc_MSHR c"
      "\<forall>b. line_state c2 b = (if block c b = block c a then EXCLUSIVE else if block c b = block c v then CPU_INVALID else line_state c b)"
    by auto
  let ?t = "pool ! j"
  let ?p1 = "pool[j := ?t\<lparr>tr_timestamp := clock\<rparr>]"
  have m1: "map_transaction i ?p1 = (if i = tr_tr_id ?t then Some (?t\<lparr>tr_timestamp := clock\<rparr>) else map_transaction i pool)" for i
    using map_transaction_list_update[OF assms(3,4), of "?t\<lparr>tr_timestamp := clock\<rparr>" i] by simp
  have ids1: "map tr_tr_id ?p1 = map tr_tr_id pool" by (rule pool_ids_update) simp
  have "\<forall>i \<in> set (me_tr_id e). map_transaction i ?p1 \<noteq> None" using assms(11) by (simp add: m1)
  from wake_all[OF this, of clock] obtain p2 where p2: "fold_opt (wake clock) (me_tr_id e) ?p1 = Some p2" "map tr_tr_id p2 = map tr_tr_id ?p1"
    "\<forall>i. map_transaction i p2 = (if i \<in> set (me_tr_id e) then map_option (woken clock) (map_transaction i ?p1) else map_transaction i ?p1)" by blast
  note S = same_shape_eqs[OF c2(2)]
  have mk: "mask_ok c2" using assms(2) c2(2) by (simp add: mask_ok_def same_shape_def)
  have "mshr_delete c2 clock a (cc_MSHR c2) ?p1 = Some (xs @ ys, p2)"
    unfolding c2(3) assms(7) by (rule mshr_delete_effect[OF mk _ _ p2(1)]) (use assms(7,8,10) in \<open>simp_all add: S\<close>)
  then have del: "delete_blocked_queue clock a (c2, ?p1) = Some (c2\<lparr>cc_MSHR := xs @ ys\<rparr>, p2)" by (simp add: delete_blocked_queue_def)
  let ?d = "c2\<lparr>cc_MSHR := xs @ ys\<rparr>"
  have okp2: "pool_ok p2" using assms(3) p2(2) ids1 pool_ok_ids by metis
  have idp2: "length p2 = length pool" "tr_tr_id (p2 ! j) = tr_tr_id ?t" using map_ids_nth[OF trans[OF p2(2) ids1] assms(4)] by simp_all
  have at: "map_transaction (tr_tr_id ?t) pool = Some ?t" by (rule map_transaction_nth[OF assms(3,4)])
  have "map_transaction (tr_tr_id ?t) p2 = Some (p2 ! j)" using map_transaction_nth[OF okp2, of j] idp2 assms(4) by simp
  then have "p2 ! j = woken clock ?t" using p2(3) assms(9) by (simp add: m1 woken_def)
  then have same: "p2[j := (p2 ! j)\<lparr>tr_state := EXIT\<rparr>] = p2" using idp2(1) assms(4) by (metis list_update_id woken_fields(8) woken_def TRANSTYPE.update_convs(2) TRANSTYPE.surjective TRANSTYPE.ext_inject)
  have fl: "func_look_up a False c2 = Some (line_state c2 a, c2)" by (rule func_look_up_eq[OF c2(1)])
  have r: "take_line clock j (c, pool) = Some (?d, p2)"
    using v del same assms(6) fl unfolding take_line_def prod.case Let_def assms(5)[symmetric]
    by (simp add: func_look_up_eq[OF assms(1)])
  have sh: "same_shape c2 ?d" by (simp add: same_shape_def)
  note T = same_shape_eqs[OF sh]
  have ls: "line_state ?d = line_state c2" by (simp add: fun_eq_iff line_state_def cpu_line_def T)
  have "cpu_cache_ok ?d" using c2(1) by (simp add: cpu_cache_ok_def T)
  moreover have "same_shape c ?d" using c2(2) sh by (simp add: same_shape_def)
  moreover have "\<forall>i. map_transaction i p2 = (if i \<in> set (me_tr_id e) then map_option (woken clock) (map_transaction i pool) else map_transaction i pool)"
    using p2(3) assms(9) at by (simp add: m1 woken_def)
  ultimately show ?thesis using r c2(4) p2(2) ids1 by (intro exI[of _ ?d] exI[of _ p2]) (simp add: ls)
qed

text \<open>The first cache has no outstanding misses of its own.\<close>

lemma take_line_flc:
  assumes "cpu_cache_ok c" "pool_ok pool" "j < length pool" "cc_MSHR c = []" "tr_state (pool ! j) = EXIT"
  shows "\<exists>d ts. take_line clock j (c, pool) = Some (d, pool[j := (pool ! j)\<lparr>tr_timestamp := ts\<rparr>]) \<and> ts \<in> {clock, tr_timestamp (pool ! j)} \<and>
    cpu_cache_ok d \<and> same_shape c d \<and> cc_MSHR d = []"
proof (cases "line_state c (tr_address (pool ! j)) = CPU_INVALID")
  case False
  then show ?thesis using assms
    by (intro exI[of _ c] exI[of _ "tr_timestamp (pool ! j)"]) (simp add: take_line_def Let_def func_look_up_eq same_shape_def)
next
  case True
  let ?a = "tr_address (pool ! j)"
  from cpu_cache_fill_effect[OF assms(1) True, of EXCLUSIVE] obtain v pos c1 c2 where
    v: "victim_lookup ?a c = Some (v, pos, c1)" "replace_victim v ?a EXCLUSIVE pos c1 = Some c2" and
    c2: "cpu_cache_ok c2" "same_shape c c2" "cc_MSHR c2 = cc_MSHR c" by auto
  have fl: "func_look_up ?a False c2 = Some (line_state c2 ?a, c2)" by (rule func_look_up_eq[OF c2(1)])
  have e: "c2\<lparr>cc_MSHR := []\<rparr> = c2" using c2(3) assms(4) by (cases c2) simp
  have "(pool ! j)\<lparr>tr_timestamp := clock, tr_state := EXIT\<rparr> = (pool ! j)\<lparr>tr_timestamp := clock\<rparr>"
    using assms(5) by (cases "pool ! j") simp
  then show ?thesis using v c2 assms(3,4) True fl e
    by (intro exI[of _ c2] exI[of _ clock]) (simp add: take_line_def Let_def func_look_up_eq[OF assms(1)] delete_blocked_queue_def)
qed

text \<open>The entry of a block lists the transactions that take part in it.\<close>

lemma mshr_entry_ids:
  assumes "mshr_ok c W" "cc_MSHR c = xs @ e # ys"
  shows "i \<in> set (me_tr_id e) \<longleftrightarrow> (\<exists>b. W i = Some (b, block c (me_line_address e)))"
proof
  assume "i \<in> set (me_tr_id e)"
  moreover have "mshr_entry_ok c W e" using assms by (simp add: mshr_ok_def)
  ultimately show "\<exists>b. W i = Some (b, block c (me_line_address e))" by (cases "me_tr_id e") (auto simp: mshr_entry_ok_def)
next
  assume "\<exists>b. W i = Some (b, block c (me_line_address e))"
  then obtain b where "W i = Some (b, block c (me_line_address e))" by blast
  from mshr_ok_entry[OF assms(1) this] obtain us f vs where f: "cc_MSHR c = us @ f # vs" "i \<in> set (me_tr_id f)"
    "block c (me_line_address f) = block c (me_line_address e)" by blast
  have "distinct (map (\<lambda>e. block c (me_line_address e)) (cc_MSHR c))" using assms(1) by (simp add: mshr_ok_def)
  moreover have "e \<in> set (cc_MSHR c)" "f \<in> set (cc_MSHR c)" using assms(2) f(1) by (metis in_set_conv_decomp)+
  ultimately have "e = f" using f(3) by (auto simp: distinct_map inj_on_def)
  then show "i \<in> set (me_tr_id e)" using f(2) by simp
qed

definition core_caches_ok :: "cpu_cache \<Rightarrow> cpu_cache \<Rightarrow> nat \<Rightarrow> TRANSTYPE list \<Rightarrow> bool" where
  "core_caches_ok flc mlc k pool \<longleftrightarrow> cpu_cache_ok flc \<and> cc_MSHR flc = [] \<and> cpu_cache_ok mlc \<and> mask_ok mlc \<and>
     mshr_ok mlc (waits mlc k pool)"

definition llc_inv :: "cpu_sys \<Rightarrow> bool" where
  "llc_inv s \<longleftrightarrow> length (sy_flc s) = length (sy_procs s) \<and> length (sy_mlc s) = length (sy_procs s) \<and> pool_ok (sy_pool s) \<and>
     (\<forall>t \<in> set (sy_pool s). tr_cpuid t < length (sy_procs s)) \<and>
     (\<forall>k < length (sy_procs s). core_caches_ok (sy_flc s ! k) (sy_mlc s ! k) k (sy_pool s))"

definition same_outside :: "cpu_sys \<Rightarrow> cpu_sys \<Rightarrow> bool" where
  "same_outside s s' \<longleftrightarrow> sy_procs s' = sy_procs s \<and> sy_transaction_count s' = sy_transaction_count s \<and>
     sy_heap s' = sy_heap s \<and> sy_next_mf s' = sy_next_mf s"

text \<open>The transactions of a processor that take part in a line.\<close>

definition takes_part :: "cpu_cache \<Rightarrow> nat \<Rightarrow> int \<Rightarrow> TRANSTYPE \<Rightarrow> bool" where
  "takes_part c k a t \<longleftrightarrow> tr_cpuid t = k \<and> (in_flight t \<or> pending t) \<and> block c (tr_address t) = block c a"

lemma waits_part: "map_transaction i pool = Some t \<Longrightarrow> (\<exists>b. waits c k pool i = Some (b, block c a)) \<longleftrightarrow> takes_part c k a t"
  by (auto simp: waits_def takes_part_def)

lemma not_in_flight_pending: "in_flight t \<Longrightarrow> \<not> pending t"
  by (auto simp: in_flight_def pending_def)

lemma exit_neutral: "tr_state t = EXIT \<Longrightarrow> \<not> in_flight t \<and> \<not> pending t"
  by (auto simp: in_flight_def pending_def)

lemma waits_shape: "same_shape c d \<Longrightarrow> waits d k pool = waits c k pool"
  by (rule ext) (auto simp: waits_def same_shape_eqs split: option.splits)

lemma all_set_ids:
  assumes "map tr_tr_id ys = map tr_tr_id xs" "pool_ok xs" "u \<in> set ys"
  obtains t where "map_transaction (tr_tr_id u) xs = Some t" "map_transaction (tr_tr_id u) ys = Some u" "t \<in> set xs"
proof -
  have "pool_ok ys" using assms(1,2) pool_ok_ids by metis
  then have m: "map_transaction (tr_tr_id u) ys = Some u" using assms(3) by (rule map_transaction_in)
  have "tr_tr_id ` set ys = tr_tr_id ` set xs" using assms(1) by (metis set_map)
  then have "tr_tr_id u \<in> tr_tr_id ` set xs" using assms(3) by blast
  then obtain t where "map_transaction (tr_tr_id u) xs = Some t" using map_transaction_None by (cases "map_transaction (tr_tr_id u) xs") auto
  then show ?thesis using m that map_transaction_mem by blast
qed

lemma line_state_block:
  assumes "cpu_cache_ok c" "block c a = block c b"
  shows "line_state c a = line_state c b"
proof -
  have "cpu_line c a = cpu_line c b"
    using assms(2) block_eq_iff[OF assms(1), of a b] by (simp add: cpu_line_def line_at_def find_line_def line_hit_def tag_of_def)
  then show ?thesis by (simp add: line_state_def)
qed

lemma llc_to_core_effect:
  assumes "llc_inv s" "j < length (sy_pool s)" "tr_state (sy_pool s ! j) = LLC_TO_CORE" "k = tr_cpuid (sy_pool s ! j)"
    "a = tr_address (sy_pool s ! j)"
  shows "\<exists>s'. llc_to_core clock j s = Some s' \<and> llc_inv s' \<and> same_outside s s' \<and>
    map tr_tr_id (sy_pool s') = map tr_tr_id (sy_pool s) \<and> line_state (sy_mlc s' ! k) a = EXCLUSIVE \<and>
    (\<forall>i t. map_transaction i (sy_pool s) = Some t \<longrightarrow> (\<exists>u. map_transaction i (sy_pool s') = Some u \<and>
       (if takes_part (sy_mlc s ! k) k a t then \<exists>ts \<in> {clock, clock + 1}. u = t\<lparr>tr_state := EXIT, tr_timestamp := ts\<rparr> else u = t)))"
proof -
  let ?pool = "sy_pool s" and ?c = "sy_mlc s ! k" and ?f = "sy_flc s ! k" and ?W = "waits (sy_mlc s ! k) k (sy_pool s)"
  let ?t = "?pool ! j"
  have pk: "pool_ok ?pool" "k < length (sy_procs s)" "k < length (sy_flc s)" "k < length (sy_mlc s)"
    using assms(1,2,4) by (auto simp: llc_inv_def)
  have ck: "cpu_cache_ok ?f" "cc_MSHR ?f = []" "cpu_cache_ok ?c" "mask_ok ?c" "mshr_ok ?c ?W"
    using assms(1) pk(2) by (auto simp: llc_inv_def core_caches_ok_def)
  have at: "map_transaction (tr_tr_id ?t) ?pool = Some ?t" by (rule map_transaction_nth[OF pk(1) assms(2)])
  have fl: "in_flight ?t" using assms(3) by (simp add: in_flight_def)
  then have W: "?W (tr_tr_id ?t) = Some (True, block ?c a)" using at assms(4,5) by (simp add: waits_def)
  from mshr_ok_entry[OF ck(5) W] obtain xs e ys where e: "cc_MSHR ?c = xs @ e # ys" "tr_tr_id ?t \<in> set (me_tr_id e)"
    "block ?c (me_line_address e) = block ?c a" by blast
  have eok: "mshr_entry_ok ?c ?W e" using ck(5) e(1) by (simp add: mshr_ok_def)
  have ids: "i \<in> set (me_tr_id e) \<longleftrightarrow> (\<exists>b. ?W i = Some (b, block ?c a))" for i using mshr_entry_ids[OF ck(5) e(1)] e(3) by simp
  have pres: "\<forall>i \<in> set (me_tr_id e). map_transaction i ?pool \<noteq> None" using ids by (auto simp: waits_def split: option.splits)
  have inv: "line_state ?c a = CPU_INVALID"
  proof -
    have ls: "line_state ?c (me_line_address e) = CPU_INVALID" using eok by (simp add: mshr_entry_ok_def)
    then show ?thesis using line_state_block[OF ck(3) e(3)] by simp
  qed
  have dis: "distinct (map (\<lambda>e. block ?c (me_line_address e)) (cc_MSHR ?c))" using ck(5) by (simp add: mshr_ok_def)
  from take_line_effect[OF ck(3,4) pk(1) assms(2,5) inv e(1,3,2) dis pres, of clock] obtain d p1 where
    r1: "take_line clock j (?c, ?pool) = Some (d, p1)" "cpu_cache_ok d" "same_shape ?c d" "cc_MSHR d = xs @ ys"
      "map tr_tr_id p1 = map tr_tr_id ?pool"
      "\<forall>b. block ?c b \<noteq> block ?c a \<longrightarrow> line_state ?c b = CPU_INVALID \<longrightarrow> line_state d b = CPU_INVALID" "line_state d a = EXCLUSIVE"
      "\<forall>i. map_transaction i p1 = (if i \<in> set (me_tr_id e) then map_option (woken clock) (map_transaction i ?pool) else map_transaction i ?pool)"
    by blast
  have p1: "pool_ok p1" "length p1 = length ?pool" "tr_tr_id (p1 ! j) = tr_tr_id ?t"
    using pool_ok_ids[OF r1(5)] pk(1) map_ids_nth[OF r1(5) assms(2)] by simp_all
  have mj: "map_transaction (tr_tr_id ?t) p1 = Some (p1 ! j)" using map_transaction_nth[OF p1(1), of j] p1(2,3) assms(2) by simp
  have "map_transaction (tr_tr_id ?t) p1 = Some (woken clock ?t)" using r1(8)[rule_format, of "tr_tr_id ?t"] e(2) at by simp
  then have pj: "p1 ! j = woken clock ?t" using mj by simp
  have "j < length p1" "tr_state (p1 ! j) = EXIT" using p1(2) assms(2) pj by simp_all
  from take_line_flc[OF ck(1) p1(1) this(1) ck(2) this(2), of clock] obtain f ts where
    r2: "take_line clock j (?f, p1) = Some (f, p1[j := (p1 ! j)\<lparr>tr_timestamp := ts\<rparr>])" "ts \<in> {clock, clock + 1}"
      "cpu_cache_ok f" "cc_MSHR f = []" unfolding pj woken_fields by blast
  let ?p2 = "p1[j := (p1 ! j)\<lparr>tr_timestamp := ts\<rparr>]"
  let ?s = "s\<lparr>sy_pool := ?p2, sy_mlc := (sy_mlc s)[k := d], sy_flc := (sy_flc s)[k := f]\<rparr>"
  have run: "llc_to_core clock j s = Some ?s"
    unfolding llc_to_core_def Let_def assms(4)[symmetric] using r1(1) r2(1) pk(3,4) by (simp add: cache_of_def)
  have id2: "map tr_tr_id ?p2 = map tr_tr_id ?pool" using pool_ids_update[of "(p1 ! j)\<lparr>tr_timestamp := ts\<rparr>" p1 j] r1(5) by simp
  have m2: "\<exists>u. map_transaction i ?p2 = Some u \<and>
       (if takes_part ?c k a t then \<exists>ts \<in> {clock, clock + 1}. u = t\<lparr>tr_state := EXIT, tr_timestamp := ts\<rparr> else u = t)"
    if t: "map_transaction i ?pool = Some t" for i t
  proof -
    have part: "i \<in> set (me_tr_id e) \<longleftrightarrow> takes_part ?c k a t" using ids waits_part[OF t] by simp
    have m: "map_transaction i ?p2 = (if i = tr_tr_id ?t then Some ((p1 ! j)\<lparr>tr_timestamp := ts\<rparr>) else map_transaction i p1)"
      using map_transaction_list_update[OF p1(1), of j "(p1 ! j)\<lparr>tr_timestamp := ts\<rparr>" i] p1(2,3) assms(2) by simp
    show ?thesis
    proof (cases "i = tr_tr_id ?t")
      case True
      then have "t = ?t" "takes_part ?c k a t" using at t part e(2) by auto
      then show ?thesis using m True pj r2(2) by (cases ?t) (auto simp: woken_def)
    next
      case False
      then show ?thesis using m r1(8) part t by (cases t) (auto simp: woken_def)
    qed
  qed
  have w2: "waits x m ?p2 i = (if m = k \<and> i \<in> set (me_tr_id e) then None else waits x m ?pool i)"
    if "\<forall>y z. block x y = block x z \<longleftrightarrow> block (sy_mlc s ! m) y = block (sy_mlc s ! m) z" "block x = block (sy_mlc s ! m)" for x m i
  proof (cases "map_transaction i ?pool")
    case None
    then have "map_transaction i ?p2 = None" using id2 by (metis map_transaction_None set_map)
    then show ?thesis using None by (simp add: waits_def)
  next
    case (Some t)
    have part: "i \<in> set (me_tr_id e) \<longleftrightarrow> takes_part ?c k a t" using ids waits_part[OF Some] by simp
    from m2[OF Some] obtain u where u: "map_transaction i ?p2 = Some u"
      "if takes_part ?c k a t then \<exists>ts \<in> {clock, clock + 1}. u = t\<lparr>tr_state := EXIT, tr_timestamp := ts\<rparr> else u = t" by blast
    show ?thesis
    proof (cases "takes_part ?c k a t")
      case True
      then have "waits x m ?p2 i = None" using u exit_neutral[of u] by (auto simp: waits_def)
      moreover have "tr_cpuid t = k" using True by (simp add: takes_part_def)
      ultimately show ?thesis using Some True part by (auto simp: waits_def)
    next
      case False
      then show ?thesis using u Some part by (simp add: waits_def)
    qed
  qed
  have "core_caches_ok (sy_flc ?s ! m) (sy_mlc ?s ! m) m ?p2" if m: "m < length (sy_procs s)" for m
  proof (cases "m = k")
    case True
    have "mshr_ok d (waits d k ?p2)"
    proof (rule mshr_ok_fill[OF ck(5) r1(3) e(1) r1(4)])
      show "\<forall>i. waits d k ?p2 i = (if i \<in> set (me_tr_id e) then None else ?W i)"
        using w2[of ?c k] waits_shape[OF r1(3)] by simp
    qed (use r1(6) e(3) in simp)
    moreover have "mask_ok d" using ck(4) r1(3) by (simp add: mask_ok_def same_shape_def)
    ultimately show ?thesis using True pk r1(2) r2(3,4) by (simp add: core_caches_ok_def)
  next
    case False
    have "waits (sy_mlc s ! m) m ?p2 = waits (sy_mlc s ! m) m ?pool" using w2[of "sy_mlc s ! m" m] False by (simp add: fun_eq_iff)
    moreover have "core_caches_ok (sy_flc s ! m) (sy_mlc s ! m) m ?pool" using assms(1) m by (simp add: llc_inv_def)
    ultimately show ?thesis using False by (simp add: core_caches_ok_def)
  qed
  moreover have "tr_cpuid u < length (sy_procs s)" if "u \<in> set ?p2" for u
  proof -
    from all_set_ids[OF id2 pk(1) that] obtain t where t: "map_transaction (tr_tr_id u) ?pool = Some t"
      "map_transaction (tr_tr_id u) ?p2 = Some u" "t \<in> set ?pool" by blast
    then have "tr_cpuid u = tr_cpuid t" using m2[OF t(1)] by (auto split: if_splits)
    then show ?thesis using assms(1) t(3) by (simp add: llc_inv_def)
  qed
  moreover have "pool_ok ?p2" using pk(1) id2 pool_ok_ids by metis
  ultimately have "llc_inv ?s" using assms(1) by (simp add: llc_inv_def)
  moreover have "line_state (sy_mlc ?s ! k) a = EXCLUSIVE" using r1(7) pk(4) by simp
  ultimately show ?thesis using run m2 id2 by (intro exI[of _ ?s]) (simp add: same_outside_def)
qed

end
