(* ===== verification/CpuRunStep.thy ===== *)
theory CpuRunStep
  imports CpuRun
begin

text \<open>
  The steps of \<open>simulate_memory\<close> (\<open>src/cpu-sim/cpu_engine.cpp\<close>): none of them stops, and each keeps what ties the
  transactions to the caches, to the reorder buffers and to the requests that are under way.
\<close>

subsection \<open>Roles\<close>

definition role :: "cpu_cache \<Rightarrow> nat \<Rightarrow> TRANSTYPE \<Rightarrow> (bool \<times> int) option" where
  "role c k t = (if tr_cpuid t \<noteq> k then None else if in_flight t then Some (True, block c (tr_address t))
     else if pending t then Some (False, block c (tr_address t)) else None)"

lemma waits_role: "waits c k pool i = (case map_transaction i pool of None \<Rightarrow> None | Some t \<Rightarrow> role c k t)"
  by (simp add: waits_def role_def split: option.splits)

lemma waits_update:
  assumes "pool_ok pool" "j < length pool" "tr_tr_id t = tr_tr_id (pool ! j)"
  shows "waits c k (pool[j := t]) = (waits c k pool)(tr_tr_id t := role c k t)"
  using map_transaction_list_update[OF assms] by (auto simp: waits_role fun_eq_iff)

lemma waits_at: "pool_ok pool \<Longrightarrow> j < length pool \<Longrightarrow> waits c k pool (tr_tr_id (pool ! j)) = role c k (pool ! j)"
  by (simp add: waits_role map_transaction_nth)

lemma waits_update_same:
  assumes "pool_ok pool" "j < length pool" "tr_tr_id t = tr_tr_id (pool ! j)" "role c k t = role c k (pool ! j)"
  shows "waits c k (pool[j := t]) = waits c k pool"
  using waits_update[OF assms(1-3)] waits_at[OF assms(1,2)] assms(3,4) by (simp add: fun_upd_idem)

lemma waits_drop:
  assumes "pool_ok pool" "j < length pool" "role c k (pool ! j) = None"
  shows "waits c k (drop_nth j pool) = waits c k pool"
  using map_transaction_drop_nth[OF assms(1,2)] waits_at[OF assms(1,2)] assms(3) by (auto simp: waits_role fun_eq_iff)

lemma waits_append:
  assumes "role c k t = None"
  shows "waits c k (pool @ [t]) = waits c k pool"
  using assms by (auto simp: waits_role fun_eq_iff map_transaction_append split: option.splits)

lemma mshr_ok_same_lines:
  assumes "same_lines c d" "mshr_ok c W"
  shows "mshr_ok d W"
proof -
  have l: "same_shape c d" "line_state d = line_state c" "cc_MSHR d = cc_MSHR c" using assms(1) by (auto simp: same_lines_def)
  show ?thesis using assms(2) unfolding mshr_ok_def mshr_entry_ok_def same_shape_eqs(5)[OF l(1)] l(2,3) .
qed

lemma core_caches_same:
  assumes "core_caches_ok f c k pool" "same_lines f g" "same_lines c d" "waits c k pool' = waits c k pool"
  shows "core_caches_ok g d k pool'"
proof -
  have sh: "same_shape c d" using assms(3) by (simp add: same_lines_def)
  have "mshr_ok d (waits d k pool')"
    using mshr_ok_same_lines[OF assms(3)] assms(1,4) waits_shape[OF sh] by (simp add: core_caches_ok_def)
  moreover have "mask_ok d" using assms(1) sh by (simp add: mask_ok_def core_caches_ok_def same_shape_def)
  ultimately show ?thesis using assms(1-3) by (simp add: core_caches_ok_def same_lines_def)
qed

text \<open>A change of one transaction that does not change its role.\<close>

lemma llc_inv_set_tr:
  assumes "llc_inv s" "j < length (sy_pool s)" "\<And>t. tr_tr_id (f t) = tr_tr_id t \<and> tr_cpuid (f t) = tr_cpuid t"
    "\<And>c k. role c k (f (sy_pool s ! j)) = role c k (sy_pool s ! j)"
  shows "llc_inv (set_tr j f s)"
proof -
  let ?t = "f (sy_pool s ! j)"
  have ok: "pool_ok (sy_pool s)" using assms(1) by (simp add: llc_inv_def)
  have id: "tr_tr_id ?t = tr_tr_id (sy_pool s ! j)" using assms(3) by simp
  note W = waits_update_same[OF ok assms(2) id assms(4)]
  have "pool_ok ((sy_pool s)[j := ?t])" using ok pool_ok_ids[OF pool_ids_update[OF id]] by simp
  moreover have "tr_cpuid u < length (sy_procs s)" if "u \<in> set ((sy_pool s)[j := ?t])" for u
  proof -
    have "u = ?t \<or> u \<in> set (sy_pool s)" using that set_update_subset_insert[of "sy_pool s" j ?t] by auto
    moreover have "sy_pool s ! j \<in> set (sy_pool s)" using assms(2) by simp
    ultimately show ?thesis using assms(1,3) by (auto simp: llc_inv_def)
  qed
  ultimately show ?thesis using assms(1) W by (simp add: llc_inv_def set_tr_def core_caches_ok_def)
qed

subsection \<open>\<open>CORE_TO_LLC\<close>\<close>

definition asks :: "TRANSTYPE \<Rightarrow> bool" where
  "asks t \<longleftrightarrow> tr_state t = CORE_TO_LLC \<and> tr_timestamp t = - 1"

lemma asks_in_flight: "asks t \<Longrightarrow> in_flight t"
  by (simp add: asks_def in_flight_def)

definition addr_total :: "addr_map \<Rightarrow> bool" where
  "addr_total am \<longleftrightarrow> (\<forall>a g. addrdec_tlx am a g \<noteq> None)"

text \<open>What the step does to the transaction: it goes on, asks the network in vain, waits, or sends a request.\<close>

definition core_to_llc_cases :: "device_config \<Rightarrow> mf_env \<Rightarrow> u64 \<Rightarrow> nat \<Rightarrow> cpu_sys \<Rightarrow> cpu_sys \<Rightarrow> bool" where
  "core_to_llc_cases dv env now j s s' \<longleftrightarrow> (let t = sy_pool s ! j in
     sy_procs s' = sy_procs s \<and> sy_transaction_count s' = sy_transaction_count s \<and>
     (s' = s \<or>
      sy_heap s' = sy_heap s \<and> sy_next_mf s' = sy_next_mf s \<and>
        (\<exists>t'. sy_pool s' = (sy_pool s)[j := t'] \<and> t' = t\<lparr>tr_state := tr_state t', tr_timestamp := tr_timestamp t'\<rparr> \<and> \<not> asks t') \<or>
      sy_pool s' = (sy_pool s)[j := t\<lparr>tr_timestamp := - 1, tr_ptr_to_mf := Some (sy_next_mf s)\<rparr>] \<and>
        sy_heap s' = (sy_heap s)(sy_next_mf s \<mapsto> cpu_request dv env now t) \<and> sy_next_mf s' = sy_next_mf s + 1))"

lemma core_to_llc_casesI:
  assumes "sy_pool s' = (sy_pool s)[j := t']" "t' = (sy_pool s ! j)\<lparr>tr_state := tr_state t', tr_timestamp := tr_timestamp t'\<rparr>" "\<not> asks t'"
    "sy_procs s' = sy_procs s" "same_outside s s'"
  shows "core_to_llc_cases dv env now j s s'"
  using assms unfolding core_to_llc_cases_def Let_def same_outside_def by metis

lemma core_to_llc_effect:
  assumes "llc_inv s" "addr_total am" "j < length (sy_pool s)" "tr_state (sy_pool s ! j) = CORE_TO_LLC" "tr_timestamp (sy_pool s ! j) \<noteq> - 1"
  shows "\<exists>s' out. core_to_llc dv env am now room j s = Some (s', out) \<and> llc_inv s' \<and> core_to_llc_cases dv env now j s s'"
proof -
  let ?t = "sy_pool s ! j" and ?k = "tr_cpuid (sy_pool s ! j)"
  let ?c = "sy_mlc s ! tr_cpuid (sy_pool s ! j)" and ?f = "sy_flc s ! tr_cpuid (sy_pool s ! j)" and ?a = "tr_address (sy_pool s ! j)"
  have pk: "pool_ok (sy_pool s)" "?k < length (sy_procs s)" "?k < length (sy_flc s)" "?k < length (sy_mlc s)"
    using assms(1,3) by (auto simp: llc_inv_def)
  have ck: "cpu_cache_ok ?f" "cpu_cache_ok ?c" "mask_ok ?c" "mshr_ok ?c (waits ?c ?k (sy_pool s))"
    using assms(1) pk(2) by (auto simp: llc_inv_def core_caches_ok_def)
  have look: "core_to_llc dv env am now room j s = (if line_state ?c ?a \<noteq> CPU_INVALID then Some (set_tr j (\<lambda>t. t\<lparr>tr_state := EXIT\<rparr>) s, [])
      else if \<not> room (tr_tr_id ?t) then Some (s, [])
      else
        let (merged, mlc') = insert_blocked_queue (tr_tr_id ?t) ?a ?c; s1 = s\<lparr>sy_mlc := (sy_mlc s)[?k := mlc']\<rparr> in
        if merged then Some (set_tr j (\<lambda>t. t\<lparr>tr_timestamp := BLOCKED, tr_state := LLC_MSHR_PENDING\<rparr>) s1, [])
        else
          let mf = cpu_request dv env now ?t; p = sy_next_mf s in do {
          tlx \<leftarrow> addrdec_tlx am (ma_addr (mf_access mf)) (mf_is_gpu mf);
          Some (set_tr j (\<lambda>t. t\<lparr>tr_timestamp := - 1, tr_ptr_to_mf := Some p\<rparr>)
              (s1\<lparr>sy_heap := (sy_heap s)(p \<mapsto> mf), sy_next_mf := p + 1\<rparr>),
            [\<lparr>cp_src = cpu_device dv ?k, cp_dst = memory_device dv (unat (tlx_chip tlx)), cp_mf = p, cp_size = request_size ?t\<rparr>]) })"
    using pk(3,4) by (simp add: core_to_llc_def Let_def cache_of_def func_look_up_eq[OF ck(1)] func_look_up_eq[OF ck(2)] cong: if_cong)
  have neutral: "role c k ?t = None" for c k using assms(4,5) by (simp add: role_def in_flight_def pending_def)
  then have free: "waits ?c ?k (sy_pool s) (tr_tr_id ?t) = None" using waits_at[OF pk(1) assms(3)] by simp
  show ?thesis
  proof (cases "line_state ?c ?a = CPU_INVALID")
    case False
    let ?s = "set_tr j (\<lambda>t. t\<lparr>tr_state := EXIT\<rparr>) s"
    have "llc_inv ?s" by (rule llc_inv_set_tr[OF assms(1,3)]) (simp_all add: neutral, simp add: role_def in_flight_def pending_def)
    moreover have "core_to_llc_cases dv env now j s ?s"
      by (rule core_to_llc_casesI[where t' = "?t\<lparr>tr_state := EXIT\<rparr>"]) (simp_all add: set_tr_def asks_def same_outside_def)
    ultimately show ?thesis using False look by simp
  next
    case inv: True
    show ?thesis
    proof (cases "room (tr_tr_id ?t)")
      case False
      then show ?thesis using inv look assms(1) by (simp add: core_to_llc_cases_def Let_def)
    next
      case room: True
      obtain b d where bd: "insert_blocked_queue (tr_tr_id ?t) ?a ?c = (b, d)" by fastforce
      have step: "llc_inv s'" if s': "sy_procs s' = sy_procs s" "sy_pool s' = (sy_pool s)[j := t']" "sy_flc s' = sy_flc s"
          "sy_mlc s' = (sy_mlc s)[?k := d]" and t': "tr_tr_id t' = tr_tr_id ?t" "tr_cpuid t' = ?k" "tr_address t' = ?a"
        and ok: "mshr_ok d ((waits ?c ?k (sy_pool s))(tr_tr_id ?t := role ?c ?k t'))" "same_shape ?c d" "cc_sets d = cc_sets ?c"
        for s' t'
      proof -
        have p': "pool_ok (sy_pool s')" using pk(1) pool_ok_ids[OF pool_ids_update[OF t'(1)]] by (simp add: s'(2))
        have cid: "tr_cpuid u < length (sy_procs s)" if "u \<in> set (sy_pool s')" for u
        proof -
          have "u = t' \<or> u \<in> set (sy_pool s)" using that set_update_subset_insert[of "sy_pool s" j t'] by (auto simp: s'(2))
          then show ?thesis using assms(1) pk(2) t'(2) by (auto simp: llc_inv_def)
        qed
        have cd: "cpu_cache_ok d" using ck(2) ok(2,3) by (simp add: cpu_cache_ok_def same_shape_eqs[OF ok(2)]) (simp add: same_shape_def)
        have "core_caches_ok (sy_flc s' ! m) (sy_mlc s' ! m) m (sy_pool s')" if m: "m < length (sy_procs s)" for m
        proof (cases "m = ?k")
          case True
          have "waits ?c ?k (sy_pool s') = (waits ?c ?k (sy_pool s))(tr_tr_id ?t := role ?c ?k t')"
            using waits_update[OF pk(1) assms(3) t'(1)] by (simp add: s'(2) t'(1))
          then have "mshr_ok d (waits d ?k (sy_pool s'))" using ok(1) waits_shape[OF ok(2)] by simp
          moreover have "mask_ok d" using ck(3) ok(2) by (simp add: mask_ok_def same_shape_def)
          moreover have "cc_MSHR ?f = []" using assms(1) pk(2) by (simp add: llc_inv_def core_caches_ok_def)
          ultimately show ?thesis using True pk(4) ck(1) cd by (simp add: core_caches_ok_def s'(3,4))
        next
          case False
          have "role (sy_mlc s ! m) m t' = role (sy_mlc s ! m) m ?t" using t'(2) False by (simp add: role_def)
          then have "waits (sy_mlc s ! m) m (sy_pool s') = waits (sy_mlc s ! m) m (sy_pool s)"
            using waits_update_same[OF pk(1) assms(3) t'(1)] by (simp add: s'(2))
          moreover have "core_caches_ok (sy_flc s ! m) (sy_mlc s ! m) m (sy_pool s)" using assms(1) m by (simp add: llc_inv_def)
          ultimately show ?thesis using False by (simp add: core_caches_ok_def s'(3,4))
        qed
        then show ?thesis using assms(1) p' cid by (simp add: llc_inv_def s')
      qed
      show ?thesis
      proof (cases b)
        case True
        let ?u = "?t\<lparr>tr_timestamp := BLOCKED, tr_state := LLC_MSHR_PENDING\<rparr>"
        let ?s = "set_tr j (\<lambda>t. t\<lparr>tr_timestamp := BLOCKED, tr_state := LLC_MSHR_PENDING\<rparr>) (s\<lparr>sy_mlc := (sy_mlc s)[?k := d]\<rparr>)"
        from bd True have "insert_blocked_queue (tr_tr_id ?t) ?a ?c = (True, d)" by simp
        note M = mshr_ok_merge[OF ck(4,3) free this]
        have "role ?c ?k ?u = Some (False, block ?c ?a)" by (simp add: role_def in_flight_def pending_def)
        then have "llc_inv ?s" using M by (intro step[where t' = ?u]) (simp_all add: set_tr_def)
        moreover have "core_to_llc_cases dv env now j s ?s"
          by (rule core_to_llc_casesI[where t' = ?u]) (simp_all add: set_tr_def asks_def same_outside_def)
        moreover have "core_to_llc dv env am now room j s = Some (?s, [])" using look inv room bd True by (simp add: Let_def)
        ultimately show ?thesis by blast
      next
        case False
        let ?p = "sy_next_mf s" and ?mf = "cpu_request dv env now ?t"
        let ?u = "?t\<lparr>tr_timestamp := - 1, tr_ptr_to_mf := Some ?p\<rparr>"
        let ?s = "set_tr j (\<lambda>t. t\<lparr>tr_timestamp := - 1, tr_ptr_to_mf := Some ?p\<rparr>)
          (s\<lparr>sy_mlc := (sy_mlc s)[?k := d], sy_heap := (sy_heap s)(?p \<mapsto> ?mf), sy_next_mf := ?p + 1\<rparr>)"
        from bd False have "insert_blocked_queue (tr_tr_id ?t) ?a ?c = (False, d)" by simp
        note M = mshr_ok_new[OF ck(4,3) free this inv]
        have "role ?c ?k ?u = Some (True, block ?c ?a)" using assms(4) by (simp add: role_def in_flight_def)
        then have "llc_inv ?s" using M by (intro step[where t' = ?u]) (simp_all add: set_tr_def)
        moreover have "core_to_llc_cases dv env now j s ?s" unfolding core_to_llc_cases_def Let_def by (simp add: set_tr_def)
        moreover obtain tlx where "addrdec_tlx am (ma_addr (mf_access ?mf)) (mf_is_gpu ?mf) = Some tlx"
          using assms(2) unfolding addr_total_def by blast
        ultimately show ?thesis using look inv room bd False by (simp add: Let_def)
      qed
    qed
  qed
qed

end
