(* ===== verification/CpuRunRob.thy ===== *)
theory CpuRunRob
  imports CpuRunStep
begin

text \<open>
  The transactions and the reorder buffers of the CPU model (\<open>src/cpu-sim/processor.cpp\<close>, \<open>cpu_engine.cpp\<close>): every transaction
  belongs to one entry that waits, and every entry that waits has its transaction, so \<open>EXIT\<close> finds its entry.
\<close>

definition rob_ids :: "reorder_buffer_t list \<Rightarrow> int list" where
  "rob_ids es = filter (\<lambda>i. i \<noteq> - 1) (map ro_tr_id es)"

definition waiting :: "TRANSTYPE \<Rightarrow> reorder_buffer_t \<Rightarrow> bool" where
  "waiting t e \<longleftrightarrow> mem_inst e \<and> \<not> ro_ready e \<and> ro_tr_id e = tr_tr_id t \<and> ro_address e = tr_address t"

definition core_ok :: "cpu_config \<Rightarrow> processor \<Rightarrow> nat \<Rightarrow> TRANSTYPE list \<Rightarrow> int \<Rightarrow> bool" where
  "core_ok ck p k pool n \<longleftrightarrow> rob_inv ck p \<and> pr_procID p = k \<and> 0 \<le> pr_mem_op_id p \<and> pr_mem_op_id p \<le> n \<and> distinct (rob_ids (rob_list p)) \<and>
     (\<forall>i \<in> set (rob_ids (rob_list p)). i < n) \<and>
     (\<forall>t \<in> set pool. tr_cpuid t = k \<longrightarrow> (\<exists>e \<in> set (rob_list p). waiting t e)) \<and>
     (\<forall>e \<in> set (rob_list p). mem_inst e \<longrightarrow> \<not> ro_ready e \<longrightarrow> (\<exists>t \<in> set pool. tr_cpuid t = k \<and> waiting t e))"

definition tr_ok :: "int \<Rightarrow> TRANSTYPE \<Rightarrow> bool" where
  "tr_ok n t \<longleftrightarrow> 0 \<le> tr_tr_id t \<and> tr_tr_id t < n \<and> 0 \<le> tr_mem_op_id t"

definition rob_sys :: "cpu_config \<Rightarrow> cpu_sys \<Rightarrow> bool" where
  "rob_sys ck s \<longleftrightarrow> (\<forall>k < length (sy_procs s). core_ok ck (sy_procs s ! k) k (sy_pool s) (sy_transaction_count s)) \<and>
     (\<forall>t \<in> set (sy_pool s). tr_ok (sy_transaction_count s) t) \<and> 0 \<le> sy_transaction_count s"

text \<open>What the reorder buffers see of a transaction.\<close>

definition tr_key :: "TRANSTYPE \<Rightarrow> int \<times> int \<times> nat \<times> int" where
  "tr_key t = (tr_tr_id t, tr_address t, tr_cpuid t, tr_mem_op_id t)"

lemma key_set:
  assumes "map tr_key ys = map tr_key xs" "u \<in> set ys"
  shows "\<exists>t \<in> set xs. tr_key t = tr_key u"
  using assms by (metis (no_types, opaque_lifting) image_iff set_map)

lemma waiting_key: "tr_key t = tr_key u \<Longrightarrow> waiting t e = waiting u e"
  by (simp add: tr_key_def waiting_def)

lemma core_ok_keys:
  assumes "core_ok ck p k pool n" "map tr_key pool' = map tr_key pool"
  shows "core_ok ck p k pool' n"
proof -
  have a: "\<exists>e \<in> set (rob_list p). waiting t e" if "t \<in> set pool'" "tr_cpuid t = k" for t
  proof -
    from key_set[OF assms(2) that(1)] obtain u where u: "u \<in> set pool" "tr_key u = tr_key t" by blast
    then have "tr_cpuid u = k" using that(2) by (simp add: tr_key_def)
    then show ?thesis using assms(1) u(1) waiting_key[OF u(2)] unfolding core_ok_def by blast
  qed
  have b: "\<exists>t \<in> set pool'. tr_cpuid t = k \<and> waiting t e" if e: "e \<in> set (rob_list p)" "mem_inst e" "\<not> ro_ready e" for e
  proof -
    obtain t where "t \<in> set pool" "tr_cpuid t = k" "waiting t e" using assms(1) e unfolding core_ok_def by blast
    moreover from key_set[OF assms(2)[symmetric] this(1)] obtain u where "u \<in> set pool'" "tr_key u = tr_key t" by blast
    ultimately show ?thesis using waiting_key[of u t] by (auto simp: tr_key_def)
  qed
  show ?thesis using assms(1) a b unfolding core_ok_def by blast
qed

lemma rob_sys_keys:
  assumes "rob_sys ck s" "sy_procs s' = sy_procs s" "sy_transaction_count s' = sy_transaction_count s"
    "map tr_key (sy_pool s') = map tr_key (sy_pool s)"
  shows "rob_sys ck s'"
proof -
  have "tr_ok (sy_transaction_count s) u" if "u \<in> set (sy_pool s')" for u
  proof -
    from key_set[OF assms(4) that] obtain t where "t \<in> set (sy_pool s)" "tr_key t = tr_key u" by blast
    then show ?thesis using assms(1) by (auto simp: rob_sys_def tr_ok_def tr_key_def)
  qed
  then show ?thesis using assms(1-3) core_ok_keys[OF _ assms(4)] by (simp add: rob_sys_def)
qed

lemma keys_update: "tr_key t = tr_key (pool ! j) \<Longrightarrow> map tr_key (pool[j := t]) = map tr_key pool"
  by (cases "j < length pool") (simp_all add: map_update list_update_same_conv list_update_beyond)

lemma keys_of_map:
  assumes "pool_ok pool" "map tr_tr_id pool' = map tr_tr_id pool"
    "\<And>i t. map_transaction i pool = Some t \<Longrightarrow> \<exists>u. map_transaction i pool' = Some u \<and> tr_key u = tr_key t"
  shows "map tr_key pool' = map tr_key pool"
proof (rule nth_equalityI)
  show len: "length (map tr_key pool') = length (map tr_key pool)" using arg_cong[OF assms(2), of length] by simp
  fix i assume "i < length (map tr_key pool')"
  then have i: "i < length pool" "i < length pool'" using len by simp_all
  have id: "tr_tr_id (pool' ! i) = tr_tr_id (pool ! i)" using map_ids_nth[OF assms(2) i(1)] by simp
  have ok': "pool_ok pool'" using assms(1) pool_ok_ids[OF assms(2)] by simp
  from assms(3)[OF map_transaction_nth[OF assms(1) i(1)]] map_transaction_nth[OF ok' i(2)] id
  have "tr_key (pool' ! i) = tr_key (pool ! i)" by auto
  then show "map tr_key pool' ! i = map tr_key pool ! i" using i by simp
qed

subsection \<open>\<open>EXIT\<close>\<close>

lemma rob_ids_append [simp]: "rob_ids (xs @ ys) = rob_ids xs @ rob_ids ys"
  by (simp add: rob_ids_def)

lemma rob_ids_Cons: "rob_ids (e # es) = (if ro_tr_id e \<noteq> - 1 then ro_tr_id e # rob_ids es else rob_ids es)"
  by (simp add: rob_ids_def)

lemma rob_ids_mem: "e \<in> set es \<Longrightarrow> ro_tr_id e \<noteq> - 1 \<Longrightarrow> ro_tr_id e \<in> set (rob_ids es)"
  by (simp add: rob_ids_def)

lemma rob_ids_map: "map ro_tr_id fs = map ro_tr_id es \<Longrightarrow> rob_ids fs = rob_ids es"
  by (simp add: rob_ids_def)

text \<open>The entry of a transaction is found.\<close>

lemma get_entry_id_at:
  assumes "rob_ok p" "rob_list p = xs @ e # ys" "distinct (rob_ids (rob_list p))" "ro_tr_id e = i" "ro_address e = a" "i \<noteq> - 1"
  shows "isPresent a i p" "get_entry_id a i p = Some ((pr_oldest p + length xs) mod window_size p)"
proof -
  have n: "length xs < pr_num_entrys p" using arg_cong[OF assms(2), of length] by simp
  have at: "pr_rob_array p ! (rob_positions p ! m) = rob_list p ! m" if "m < pr_num_entrys p" for m
    using that by (simp add: rob_list_def)
  have e: "rob_list p ! length xs = e" by (simp add: assms(2))
  have "rob_match p a i (rob_positions p ! length xs)" using at[OF n] e assms(4,5) by (simp add: rob_match_def)
  moreover have "rob_positions p ! length xs \<in> set (rob_positions p)" using n by simp
  ultimately show "isPresent a i p" unfolding isPresent_def by blast
  have "i \<notin> set (rob_ids xs)" using assms(3,4,6) by (auto simp: assms(2) rob_ids_Cons)
  then have "ro_tr_id (xs ! m) \<noteq> i" if "m < length xs" for m using that assms(6) rob_ids_mem[of "xs ! m" xs] by auto
  then have "\<not> rob_match p a i (rob_positions p ! m)" if "m < length xs" for m
    using that n at[of m] by (simp add: rob_match_def assms(2) nth_append)
  then show "get_entry_id a i p = Some ((pr_oldest p + length xs) mod window_size p)"
    using n \<open>rob_match p a i (rob_positions p ! length xs)\<close> rob_position[OF n]
    by (auto simp: get_entry_id_def find_Some_iff intro!: exI[of _ "length xs"])
qed

lemma setReady_at:
  assumes "rob_ok p" "rob_list p = xs @ e # ys" "ro_tr_id e = i"
  shows "\<exists>q. setReady clock ((pr_oldest p + length xs) mod window_size p) i p = Some q \<and>
    rob_list q = xs @ e\<lparr>ro_ready := True, ro_min_retire_timestamp := clock\<rparr> # ys \<and> rob_ok q \<and> same_core (p\<lparr>pr_rob_array := pr_rob_array q\<rparr>) q \<and>
    pr_retired_instructions q = pr_retired_instructions p \<and> pr_num_mem_entrys q = pr_num_mem_entrys p \<and>
    pr_mp_trace_buffer q = pr_mp_trace_buffer p \<and> pr_trace_next q = pr_trace_next p"
proof -
  have n: "length xs < pr_num_entrys p" using arg_cong[OF assms(2), of length] by simp
  let ?k = "(pr_oldest p + length xs) mod window_size p" and ?f = "\<lambda>e. e\<lparr>ro_ready := True, ro_min_retire_timestamp := clock\<rparr>"
  have k: "?k < window_size p" "pr_rob_array p ! ?k = e"
    using assms(1) rob_list_nth[OF n] by (simp_all add: rob_ok_def assms(2))
  let ?q = "(set_rob ?k ?f p)\<lparr>pr_ot_MemRefs := pr_ot_MemRefs p - {drop_bit 7 (ro_address (pr_rob_array p ! ?k))},
        pr_num_unfinished_mem_entrys := pr_num_unfinished_mem_entrys p - 1\<rparr>"
  have "rob_list ?q = rob_list (set_rob ?k ?f p)" by (rule rob_list_cong[THEN conjunct1]) simp_all
  also have "\<dots> = xs @ ?f e # ys" using rob_list_set_rob[OF assms(1) n, of ?f] by (simp add: assms(2))
  finally have l: "rob_list ?q = xs @ ?f e # ys" .
  have "rob_ok ?q = rob_ok (set_rob ?k ?f p)" by (simp add: rob_ok_def)
  then have "rob_ok ?q" using assms(1) by simp
  moreover have "setReady clock ?k i p = Some ?q" using k assms(3) by (simp add: setReady_def)
  ultimately show ?thesis using l by (intro exI[of _ ?q]) (simp add: same_core_def)
qed

lemma drop_nth_split: "j < length pool \<Longrightarrow> set (drop_nth j pool) \<subseteq> set pool \<and> set pool \<subseteq> insert (pool ! j) (set (drop_nth j pool))"
proof -
  assume j: "j < length pool"
  have "set pool = set (take j pool @ pool ! j # drop (Suc j) pool)" using id_take_nth_drop[OF j] by simp
  then show ?thesis by (auto simp: drop_nth_def)
qed

lemma drop_nth_other:
  assumes "pool_ok pool" "j < length pool"
  shows "set (drop_nth j pool) = {t \<in> set pool. tr_tr_id t \<noteq> tr_tr_id (pool ! j)}"
proof -
  have "distinct (map tr_tr_id (take j pool @ pool ! j # drop (Suc j) pool))"
    using assms id_take_nth_drop[OF assms(2)] by (simp add: pool_ok_def)
  then have n: "tr_tr_id (pool ! j) \<notin> tr_tr_id ` (set (take j pool) \<union> set (drop (Suc j) pool))" by (simp add: image_Un)
  have "\<forall>t \<in> set (drop_nth j pool). tr_tr_id t \<noteq> tr_tr_id (pool ! j)"
  proof
    fix t assume "t \<in> set (drop_nth j pool)"
    then have "tr_tr_id t \<in> tr_tr_id ` (set (take j pool) \<union> set (drop (Suc j) pool))" by (simp add: drop_nth_def)
    with n show "tr_tr_id t \<noteq> tr_tr_id (pool ! j)" by metis
  qed
  then show ?thesis using drop_nth_split[OF assms(2)] by auto
qed

lemma exit_transaction_effect:
  assumes "llc_inv s" "rob_sys ck s" "j < length (sy_pool s)" "tr_state (sy_pool s ! j) = EXIT" "sy_transaction_count s \<le> 2 ^ 31"
  shows "\<exists>s'. exit_transaction clock j s = Some s' \<and> llc_inv s' \<and> rob_sys ck s' \<and> length (sy_procs s') = length (sy_procs s) \<and>
    sy_pool s' = drop_nth j (sy_pool s) \<and> sy_heap s' = delete_mf (tr_ptr_to_mf (sy_pool s ! j)) (sy_heap s) \<and>
    sy_next_mf s' = sy_next_mf s \<and> sy_transaction_count s' = sy_transaction_count s \<and>
    (\<forall>k < length (sy_procs s). pr_cpu_response_fifo (sy_procs s' ! k) = pr_cpu_response_fifo (sy_procs s ! k))"
proof -
  let ?t = "sy_pool s ! j" and ?n = "sy_transaction_count s"
  define k where "k = tr_cpuid ?t"
  let ?p = "sy_procs s ! k"
  have ok: "pool_ok (sy_pool s)" using assms(1) by (simp add: llc_inv_def)
  have tin: "?t \<in> set (sy_pool s)" using assms(3) by simp
  then have k: "k < length (sy_procs s)" using assms(1) by (simp add: llc_inv_def k_def)
  have C: "core_ok ck ?p k (sy_pool s) ?n" using assms(2) k by (simp add: rob_sys_def)
  have t: "0 \<le> tr_tr_id ?t" "0 \<le> tr_mem_op_id ?t" using assms(2) tin by (simp_all add: rob_sys_def tr_ok_def)
  have "tr_tr_id ?t < ?n" using assms(2) tin by (simp add: rob_sys_def tr_ok_def)
  then have ai: "as_int (tr_tr_id ?t) = tr_tr_id ?t" using as_int_id[OF t(1)] assms(5) by simp
  have inv: "rob_inv ck ?p" "rob_ok ?p" using C by (simp_all add: core_ok_def rob_inv_def)
  obtain e where "e \<in> set (rob_list ?p)" and e: "waiting ?t e" using C tin k_def by (auto simp: core_ok_def)
  then obtain xs ys where xs: "rob_list ?p = xs @ e # ys" by (meson split_list)
  have dis: "distinct (rob_ids (rob_list ?p))" using C by (simp add: core_ok_def)
  have ne: "tr_tr_id ?t \<noteq> - 1" using t(1) by simp
  have ids: "ro_tr_id e = tr_tr_id ?t" "ro_address e = tr_address ?t" using e by (simp_all add: waiting_def)
  note G = get_entry_id_at[OF inv(2) xs dis ids ne]
  from setReady_at[OF inv(2) xs ids(1), of clock] obtain q where q:
    "setReady clock ((pr_oldest ?p + length xs) mod window_size ?p) (tr_tr_id ?t) ?p = Some q"
    "rob_list q = xs @ e\<lparr>ro_ready := True, ro_min_retire_timestamp := clock\<rparr> # ys" "rob_ok q" "same_core (?p\<lparr>pr_rob_array := pr_rob_array q\<rparr>) q"
    "pr_retired_instructions q = pr_retired_instructions ?p" "pr_num_mem_entrys q = pr_num_mem_entrys ?p"
    "pr_mp_trace_buffer q = pr_mp_trace_buffer ?p" "pr_trace_next q = pr_trace_next ?p" by blast
  let ?s = "s\<lparr>sy_procs := (sy_procs s)[k := q], sy_pool := drop_nth j (sy_pool s), sy_heap := delete_mf (tr_ptr_to_mf ?t) (sy_heap s)\<rparr>"
  have run: "exit_transaction clock j s = Some ?s"
    using k G q(1) t(2) ai by (simp add: exit_transaction_def Let_def k_def[symmetric])
  note D = drop_nth_other[OF ok assms(3)]
  have none: "role c m ?t = None" for c m using assms(4) by (simp add: role_def in_flight_def pending_def)
  have "llc_inv ?s"
    using assms(1) pool_ok_drop_nth[OF ok, of j] waits_drop[OF ok assms(3) none] by (simp add: llc_inv_def core_caches_ok_def D)
  moreover have "core_ok ck q k (drop_nth j (sy_pool s)) ?n"
  proof -
    have maps: "map ro_icount (rob_list q) = map ro_icount (rob_list ?p)" "n_mem (rob_list q) = n_mem (rob_list ?p)"
      "rob_ids (rob_list q) = rob_ids (rob_list ?p)" by (simp_all add: q(2) xs mem_inst_def rob_ids_def)
    have fr: "pr_instructions q = pr_instructions ?p" "pr_procID q = pr_procID ?p" "pr_mem_op_id q = pr_mem_op_id ?p"
      using q(4) by (simp_all add: same_core_def)
    have "rob_inv ck q" using inv(1) q(3,5-8) maps fr by (simp add: rob_inv_def buffer_ok_def)
    moreover have "\<exists>f \<in> set (rob_list q). waiting u f" if u: "u \<in> set (drop_nth j (sy_pool s))" "tr_cpuid u = k" for u
    proof -
      have "u \<in> set (sy_pool s)" "tr_tr_id u \<noteq> tr_tr_id ?t" using u(1) D by auto
      then obtain f where "f \<in> set (rob_list ?p)" "waiting u f" using C u(2) by (auto simp: core_ok_def)
      moreover have "f \<noteq> e" using \<open>waiting u f\<close> \<open>tr_tr_id u \<noteq> _\<close> ids(1) by (auto simp: waiting_def)
      ultimately show ?thesis using xs q(2) by auto
    qed
    moreover have "\<exists>u \<in> set (drop_nth j (sy_pool s)). tr_cpuid u = k \<and> waiting u f" if f: "f \<in> set (rob_list q)" "mem_inst f" "\<not> ro_ready f" for f
    proof -
      have fx: "f \<in> set xs \<union> set ys" using f(1,3) q(2) by auto
      then have "f \<in> set (rob_list ?p)" using xs by auto
      then obtain u where u: "u \<in> set (sy_pool s)" "tr_cpuid u = k" "waiting u f" using C f(2,3) unfolding core_ok_def by blast
      have "tr_tr_id u \<noteq> tr_tr_id ?t"
      proof
        assume "tr_tr_id u = tr_tr_id ?t"
        then have "ro_tr_id f = tr_tr_id ?t" using u(3) by (simp add: waiting_def)
        then have "tr_tr_id ?t \<in> set (rob_ids xs) \<union> set (rob_ids ys)" using fx ne rob_ids_mem by (metis Un_iff)
        then show False using dis ids(1) ne by (auto simp: xs rob_ids_Cons)
      qed
      then show ?thesis using u D by auto
    qed
    ultimately show ?thesis using C maps fr by (simp add: core_ok_def)
  qed
  moreover have "core_ok ck (sy_procs s ! m) m (drop_nth j (sy_pool s)) ?n" if m: "m < length (sy_procs s)" "m \<noteq> k" for m
  proof -
    have M: "core_ok ck (sy_procs s ! m) m (sy_pool s) ?n" using assms(2) m(1) by (simp add: rob_sys_def)
    have "\<exists>u \<in> set (drop_nth j (sy_pool s)). tr_cpuid u = m \<and> waiting u f"
      if f: "f \<in> set (rob_list (sy_procs s ! m))" "mem_inst f" "\<not> ro_ready f" for f
    proof -
      obtain u where u: "u \<in> set (sy_pool s)" "tr_cpuid u = m" "waiting u f" using M f unfolding core_ok_def by blast
      then have "u \<noteq> ?t" using m(2) k_def by auto
      then show ?thesis using u drop_nth_split[OF assms(3)] by auto
    qed
    then show ?thesis using M D by (simp add: core_ok_def)
  qed
  ultimately have "core_ok ck (sy_procs ?s ! m) m (sy_pool ?s) ?n" if "m < length (sy_procs s)" for m
    using that k by (cases "m = k") simp_all
  then have "rob_sys ck ?s" using assms(2) D by (simp add: rob_sys_def)
  moreover have "pr_cpu_response_fifo q = pr_cpu_response_fifo ?p" using q(4) by (simp add: same_core_def)
  then have "\<forall>m < length (sy_procs s). pr_cpu_response_fifo (sy_procs ?s ! m) = pr_cpu_response_fifo (sy_procs s ! m)"
    using k by (auto simp: nth_list_update)
  ultimately show ?thesis using run \<open>llc_inv ?s\<close> by (intro exI[of _ ?s]) simp
qed

end
