(* ===== verification/CpuRunMem.thy ===== *)
theory CpuRunMem
  imports CpuRunRob
begin

text \<open>
  The requests of the CPU model (\<open>src/cpu-sim/cpu_engine.cpp\<close>) and the whole of \<open>simulate_memory\<close>: a reply finds the
  transaction that asked, and no cycle of the memory side stops.
\<close>

definition req_inv :: "device_config \<Rightarrow> cpu_sys \<Rightarrow> bool" where
  "req_inv dv s \<longleftrightarrow> (\<forall>q \<ge> sy_next_mf s. sy_heap s q = None) \<and>
     (\<forall>t \<in> set (sy_pool s). \<forall>q. tr_ptr_to_mf t = Some q \<longrightarrow> q < sy_next_mf s) \<and>
     (\<forall>t \<in> set (sy_pool s). \<forall>u \<in> set (sy_pool s). \<forall>q. tr_ptr_to_mf t = Some q \<longrightarrow> tr_ptr_to_mf u = Some q \<longrightarrow> tr_tr_id t = tr_tr_id u) \<and>
     (\<forall>t \<in> set (sy_pool s). asks t \<longrightarrow> (\<exists>q mf. tr_ptr_to_mf t = Some q \<and> sy_heap s q = Some mf \<and> uint (mf_wid mf) = tr_tr_id t \<and>
        unat (mf_tpc mf) = cpu_device dv (tr_cpuid t))) \<and>
     (\<forall>k < length (sy_procs s). distinct (pr_cpu_response_fifo (sy_procs s ! k)) \<and>
        (\<forall>q \<in> set (pr_cpu_response_fifo (sy_procs s ! k)). \<exists>t \<in> set (sy_pool s). tr_cpuid t = k \<and> asks t \<and> tr_ptr_to_mf t = Some q))"

lemma req_inv_change:
  assumes "req_inv dv s"
    "\<And>u. u \<in> set (sy_pool s') \<Longrightarrow> \<exists>t \<in> set (sy_pool s). tr_tr_id t = tr_tr_id u \<and> tr_ptr_to_mf t = tr_ptr_to_mf u \<and> (asks u \<longrightarrow> u = t)"
    "\<And>t. t \<in> set (sy_pool s) \<Longrightarrow> asks t \<Longrightarrow> t \<in> set (sy_pool s')"
    "\<And>t q. t \<in> set (sy_pool s) \<Longrightarrow> asks t \<Longrightarrow> tr_ptr_to_mf t = Some q \<Longrightarrow> sy_heap s' q = sy_heap s q"
    "\<And>q. sy_heap s q = None \<Longrightarrow> sy_heap s' q = None" "sy_next_mf s' = sy_next_mf s" "length (sy_procs s') = length (sy_procs s)"
    "\<And>k. k < length (sy_procs s) \<Longrightarrow> pr_cpu_response_fifo (sy_procs s' ! k) = pr_cpu_response_fifo (sy_procs s ! k)"
  shows "req_inv dv s'"
proof -
  have a: "q < sy_next_mf s" if "u \<in> set (sy_pool s')" "tr_ptr_to_mf u = Some q" for u q
    using assms(1) assms(2)[OF that(1)] that(2) unfolding req_inv_def by metis
  have b: "tr_tr_id t = tr_tr_id u" if "t \<in> set (sy_pool s')" "u \<in> set (sy_pool s')" "tr_ptr_to_mf t = Some q" "tr_ptr_to_mf u = Some q" for t u q
    using assms(1) assms(2)[OF that(1)] assms(2)[OF that(2)] that(3,4) unfolding req_inv_def by metis
  have c: "\<exists>q mf. tr_ptr_to_mf u = Some q \<and> sy_heap s' q = Some mf \<and> uint (mf_wid mf) = tr_tr_id u \<and> unat (mf_tpc mf) = cpu_device dv (tr_cpuid u)"
    if u: "u \<in> set (sy_pool s')" "asks u" for u
  proof -
    have ui: "u \<in> set (sy_pool s)" using assms(2)[OF u(1)] u(2) by auto
    then obtain q mf where q: "tr_ptr_to_mf u = Some q" "sy_heap s q = Some mf" "uint (mf_wid mf) = tr_tr_id u"
      "unat (mf_tpc mf) = cpu_device dv (tr_cpuid u)" using assms(1) u(2) unfolding req_inv_def by blast
    then show ?thesis using assms(4)[OF ui u(2) q(1)] by simp
  qed
  show ?thesis unfolding req_inv_def assms(6,7)
  proof (intro conjI ballI allI impI)
    fix k assume k: "k < length (sy_procs s)"
    show "distinct (pr_cpu_response_fifo (sy_procs s' ! k))" using assms(1,8) k by (simp add: req_inv_def)
    fix q assume "q \<in> set (pr_cpu_response_fifo (sy_procs s' ! k))"
    then obtain t where "t \<in> set (sy_pool s)" "tr_cpuid t = k" "asks t" "tr_ptr_to_mf t = Some q"
      using assms(1,8) k unfolding req_inv_def by metis
    then show "\<exists>t \<in> set (sy_pool s'). tr_cpuid t = k \<and> asks t \<and> tr_ptr_to_mf t = Some q" using assms(3) by blast
  next
    fix q assume "sy_next_mf s \<le> q"
    then show "sy_heap s' q = None" using assms(1,5) by (simp add: req_inv_def)
  qed (use a b c in blast)+
qed

lemma mem_update: "u \<in> set xs \<Longrightarrow> u \<noteq> xs ! j \<Longrightarrow> u \<in> set (xs[j := y])"
  by (metis in_set_conv_nth length_list_update nth_list_update_neq)

lemma mem_updateD: "u \<in> set (xs[j := y]) \<Longrightarrow> u = y \<or> u \<in> set xs"
  using set_update_subset_insert[of xs j y] by auto

text \<open>One transaction changes that neither asked nor asks now.\<close>

lemma req_inv_set:
  assumes "req_inv dv s" "j < length (sy_pool s)" "\<not> asks (sy_pool s ! j)" "\<not> asks t" "sy_pool s' = (sy_pool s)[j := t]"
    "tr_tr_id t = tr_tr_id (sy_pool s ! j)" "tr_ptr_to_mf t = tr_ptr_to_mf (sy_pool s ! j)" "same_outside s s'"
  shows "req_inv dv s'"
proof (rule req_inv_change[OF assms(1)])
  fix u assume "u \<in> set (sy_pool s')"
  then have "u = t \<or> u \<in> set (sy_pool s)" using mem_updateD by (simp add: assms(5))
  moreover have "sy_pool s ! j \<in> set (sy_pool s)" using assms(2) by simp
  ultimately show "\<exists>t \<in> set (sy_pool s). tr_tr_id t = tr_tr_id u \<and> tr_ptr_to_mf t = tr_ptr_to_mf u \<and> (asks u \<longrightarrow> u = t)"
    using assms(4,6,7) by auto
next
  fix u assume "u \<in> set (sy_pool s)" "asks u"
  then show "u \<in> set (sy_pool s')" using assms(3) mem_update unfolding assms(5) by metis
qed (use assms(8) in \<open>simp_all add: same_outside_def\<close>)

text \<open>A request is sent.\<close>

lemma req_inv_new:
  assumes "req_inv dv s" "j < length (sy_pool s)" "\<not> asks (sy_pool s ! j)" "sy_pool s' = (sy_pool s)[j := t]" "t = (sy_pool s ! j)\<lparr>tr_timestamp := - 1, tr_ptr_to_mf := Some (sy_next_mf s)\<rparr>"
    "sy_heap s' = (sy_heap s)(sy_next_mf s \<mapsto> mf)" "sy_next_mf s' = sy_next_mf s + 1" "sy_procs s' = sy_procs s"
    "uint (mf_wid mf) = tr_tr_id (sy_pool s ! j)" "unat (mf_tpc mf) = cpu_device dv (tr_cpuid (sy_pool s ! j))"
  shows "req_inv dv s'"
proof -
  let ?n = "sy_next_mf s"
  have old: "u = t \<or> u \<in> set (sy_pool s)" if "u \<in> set (sy_pool s')" for u using that mem_updateD by (simp add: assms(4))
  have lt: "q < ?n" if "u \<in> set (sy_pool s)" "tr_ptr_to_mf u = Some q" for u q using assms(1) that by (auto simp: req_inv_def)
  have tf: "tr_ptr_to_mf t = Some ?n" "tr_tr_id t = tr_tr_id (sy_pool s ! j)" "tr_cpuid t = tr_cpuid (sy_pool s ! j)" by (simp_all add: assms(5))
  show ?thesis unfolding req_inv_def assms(7,8)
  proof (intro conjI ballI allI impI)
    fix q assume "?n + 1 \<le> q"
    then show "sy_heap s' q = None" using assms(1) by (simp add: req_inv_def assms(6))
  next
    fix u q assume "u \<in> set (sy_pool s')" "tr_ptr_to_mf u = Some q"
    then show "q < ?n + 1" using old lt tf(1) by fastforce
  next
    fix u v q assume uv: "u \<in> set (sy_pool s')" "v \<in> set (sy_pool s')" "tr_ptr_to_mf u = Some q" "tr_ptr_to_mf v = Some q"
    show "tr_tr_id u = tr_tr_id v"
    proof (cases "q = ?n")
      case True
      then have "u = t" "v = t" using uv old lt by blast+
      then show ?thesis by simp
    next
      case False
      have "u \<noteq> t" using uv(3) tf(1) False by auto
      moreover have "v \<noteq> t" using uv(4) tf(1) False by auto
      ultimately have "u \<in> set (sy_pool s)" "v \<in> set (sy_pool s)" using old[OF uv(1)] old[OF uv(2)] by blast+
      then show ?thesis using assms(1) uv(3,4) unfolding req_inv_def by blast
    qed
  next
    fix u assume u: "u \<in> set (sy_pool s')" "asks u"
    show "\<exists>q mf. tr_ptr_to_mf u = Some q \<and> sy_heap s' q = Some mf \<and> uint (mf_wid mf) = tr_tr_id u \<and> unat (mf_tpc mf) = cpu_device dv (tr_cpuid u)"
    proof (cases "u = t")
      case True
      then show ?thesis using tf assms(6,9,10) by simp
    next
      case False
      then have ui: "u \<in> set (sy_pool s)" using old u(1) by blast
      then obtain q mf' where q: "tr_ptr_to_mf u = Some q" "sy_heap s q = Some mf'" "uint (mf_wid mf') = tr_tr_id u"
        "unat (mf_tpc mf') = cpu_device dv (tr_cpuid u)" using assms(1) u(2) unfolding req_inv_def by blast
      then show ?thesis using lt[OF ui q(1)] by (simp add: assms(6))
    qed
  next
    fix k assume k: "k < length (sy_procs s)"
    show "distinct (pr_cpu_response_fifo (sy_procs s ! k))" using assms(1) k by (simp add: req_inv_def)
    fix q assume "q \<in> set (pr_cpu_response_fifo (sy_procs s ! k))"
    then obtain u where u: "u \<in> set (sy_pool s)" "tr_cpuid u = k" "asks u" "tr_ptr_to_mf u = Some q"
      using assms(1) k unfolding req_inv_def by blast
    then have "u \<in> set (sy_pool s')" using assms(3) mem_update unfolding assms(4) by metis
    then show "\<exists>t \<in> set (sy_pool s'). tr_cpuid t = k \<and> asks t \<and> tr_ptr_to_mf t = Some q" using u by blast
  qed
qed

subsection \<open>One transaction\<close>

definition sys_inv :: "device_config \<Rightarrow> cpu_config \<Rightarrow> cpu_sys \<Rightarrow> bool" where
  "sys_inv dv ck s \<longleftrightarrow> llc_inv s \<and> rob_sys ck s \<and> req_inv dv s \<and> sy_transaction_count s \<le> 2 ^ 31"

definition config_ok :: "device_config \<Rightarrow> cpu_config \<Rightarrow> nat \<Rightarrow> bool" where
  "config_ok dv ck n \<longleftrightarrow> dv_n_simt_clusters dv + n \<le> 2 ^ 32 \<and> 0 \<le> ck_flc_lookup_time ck + ck_mlc_lookup_time ck"

text \<open>What a turn leaves as it is.\<close>

definition turn_frame :: "cpu_sys \<Rightarrow> cpu_sys \<Rightarrow> bool" where
  "turn_frame s s' \<longleftrightarrow> length (sy_procs s') = length (sy_procs s) \<and> sy_transaction_count s' = sy_transaction_count s"

lemma start_turn:
  assumes "sys_inv dv ck s" "config_ok dv ck (length (sy_procs s))" "j < length (sy_pool s)" "tr_state (sy_pool s ! j) = START" "0 \<le> clock"
  shows "sys_inv dv ck (set_tr j (\<lambda>t. t\<lparr>tr_timestamp := clock + ck_flc_lookup_time ck + ck_mlc_lookup_time ck, tr_state := CORE_TO_LLC\<rparr>) s)"
    (is "sys_inv dv ck (set_tr j ?f s)")
proof -
  have ts: "clock + ck_flc_lookup_time ck + ck_mlc_lookup_time ck \<noteq> - 1" using assms(2,5) by (simp add: config_ok_def)
  let ?t = "sy_pool s ! j"
  have n: "role c k (?f ?t) = role c k ?t" for c k using assms(4) ts by (simp add: role_def in_flight_def pending_def)
  have "llc_inv (set_tr j ?f s)" by (rule llc_inv_set_tr) (use assms(1,3) n in \<open>simp_all add: sys_inv_def\<close>)
  moreover have "rob_sys ck (set_tr j ?f s)"
    by (rule rob_sys_keys[of ck s]) (use assms(1) in \<open>simp_all add: sys_inv_def set_tr_def keys_update tr_key_def\<close>)
  moreover have "req_inv dv (set_tr j ?f s)"
    by (rule req_inv_set[of dv s j "?f ?t"]) (use assms(1,3,4) ts in \<open>simp_all add: sys_inv_def set_tr_def asks_def same_outside_def\<close>)
  ultimately show ?thesis using assms(1) by (simp add: sys_inv_def set_tr_def)
qed

lemma core_to_llc_turn:
  assumes "sys_inv dv ck s" "config_ok dv ck (length (sy_procs s))" "addr_total am" "j < length (sy_pool s)"
    "tr_state (sy_pool s ! j) = CORE_TO_LLC" "tr_timestamp (sy_pool s ! j) \<noteq> - 1"
  shows "\<exists>s' out. core_to_llc dv env am now room j s = Some (s', out) \<and> sys_inv dv ck s' \<and> turn_frame s s'"
proof -
  have I: "llc_inv s" "rob_sys ck s" "req_inv dv s" using assms(1) by (simp_all add: sys_inv_def)
  let ?t = "sy_pool s ! j"
  from core_to_llc_effect[OF I(1) assms(3-6), of dv env now room] obtain s' out where
    r: "core_to_llc dv env am now room j s = Some (s', out)" "llc_inv s'" "core_to_llc_cases dv env now j s s'" by blast
  have fr: "sy_procs s' = sy_procs s" "sy_transaction_count s' = sy_transaction_count s"
    using r(3) by (simp_all add: core_to_llc_cases_def Let_def)
  have na: "\<not> asks ?t" using assms(6) by (simp add: asks_def)
  have tin: "?t \<in> set (sy_pool s)" using assms(4) by simp
  consider (same) "s' = s"
    | (change) t' where "sy_pool s' = (sy_pool s)[j := t']" "t' = ?t\<lparr>tr_state := tr_state t', tr_timestamp := tr_timestamp t'\<rparr>"
        "\<not> asks t'" "sy_heap s' = sy_heap s" "sy_next_mf s' = sy_next_mf s"
    | (new) "sy_pool s' = (sy_pool s)[j := ?t\<lparr>tr_timestamp := - 1, tr_ptr_to_mf := Some (sy_next_mf s)\<rparr>]"
        "sy_heap s' = (sy_heap s)(sy_next_mf s \<mapsto> cpu_request dv env now ?t)" "sy_next_mf s' = sy_next_mf s + 1"
    using r(3) unfolding core_to_llc_cases_def Let_def by blast
  then have "rob_sys ck s' \<and> req_inv dv s'"
  proof cases
    case same
    then show ?thesis using I by simp
  next
    case change
    have f: "tr_tr_id t' = tr_tr_id ?t" "tr_ptr_to_mf t' = tr_ptr_to_mf ?t" "tr_key t' = tr_key ?t"
      by (subst change(2), simp add: tr_key_def)+
    have "map tr_key (sy_pool s') = map tr_key (sy_pool s)" using keys_update[OF f(3)] by (simp add: change(1))
    moreover have "req_inv dv s'"
      by (rule req_inv_set[OF I(3) assms(4) na change(3,1) f(1,2)]) (use fr change(4,5) in \<open>simp add: same_outside_def\<close>)
    ultimately show ?thesis using rob_sys_keys[OF I(2) fr] by simp
  next
    case new
    let ?u = "?t\<lparr>tr_timestamp := - 1, tr_ptr_to_mf := Some (sy_next_mf s)\<rparr>"
    have "map tr_key (sy_pool s') = map tr_key (sy_pool s)" using keys_update[of ?u "sy_pool s" j] by (simp add: new(1) tr_key_def)
    then have "rob_sys ck s'" by (rule rob_sys_keys[OF I(2) fr])
    moreover have "req_inv dv s'"
    proof (rule req_inv_new[OF I(3) assms(4) na new(1) refl new(2,3) fr(1)])
      have "0 \<le> tr_tr_id ?t" "tr_tr_id ?t < 2 ^ 32" using I(2) tin assms(1) by (fastforce simp: rob_sys_def tr_ok_def sys_inv_def)+
      then show "uint (mf_wid (cpu_request dv env now ?t)) = tr_tr_id ?t"
        by (simp add: cpu_request_def mf_set_status_def new_mem_fetch_def Let_def uint_word_of_int)
      have "tr_cpuid ?t < length (sy_procs s)" using I(1) tin by (simp add: llc_inv_def)
      then have "cpu_device dv (tr_cpuid ?t) < 2 ^ 32" using assms(2) by (simp add: config_ok_def cpu_device_def)
      then show "unat (mf_tpc (cpu_request dv env now ?t)) = cpu_device dv (tr_cpuid ?t)"
        by (simp add: cpu_request_def mf_set_status_def new_mem_fetch_def Let_def unat_of_nat)
    qed
    ultimately show ?thesis by simp
  qed
  then show ?thesis using r(1,2) fr assms(1) by (simp add: sys_inv_def turn_frame_def)
qed

lemma llc_to_core_turn:
  assumes "sys_inv dv ck s" "j < length (sy_pool s)" "tr_state (sy_pool s ! j) = LLC_TO_CORE"
  shows "\<exists>s'. llc_to_core clock j s = Some s' \<and> sys_inv dv ck s' \<and> turn_frame s s'"
proof -
  have I: "llc_inv s" "rob_sys ck s" "req_inv dv s" using assms(1) by (simp_all add: sys_inv_def)
  let ?t = "sy_pool s ! j"
  let ?k = "tr_cpuid ?t" and ?a = "tr_address ?t"
  have ok: "pool_ok (sy_pool s)" using I(1) by (simp add: llc_inv_def)
  from llc_to_core_effect[OF I(1) assms(2,3) refl refl, of clock] obtain s' where
    r: "llc_to_core clock j s = Some s'" "llc_inv s'" "same_outside s s'" "map tr_tr_id (sy_pool s') = map tr_tr_id (sy_pool s)"
    "\<forall>i t. map_transaction i (sy_pool s) = Some t \<longrightarrow> (\<exists>u. map_transaction i (sy_pool s') = Some u \<and>
       (if takes_part (sy_mlc s ! ?k) ?k ?a t then \<exists>ts \<in> {clock, clock + 1}. u = t\<lparr>tr_state := EXIT, tr_timestamp := ts\<rparr> else u = t))" by blast
  have fr: "sy_procs s' = sy_procs s" "sy_transaction_count s' = sy_transaction_count s" "sy_heap s' = sy_heap s" "sy_next_mf s' = sy_next_mf s"
    using r(3) by (simp_all add: same_outside_def)
  have "map tr_key (sy_pool s') = map tr_key (sy_pool s)"
  proof (rule keys_of_map[OF ok r(4)])
    fix i t assume "map_transaction i (sy_pool s) = Some t"
    with r(5) obtain u where "map_transaction i (sy_pool s') = Some u"
      "if takes_part (sy_mlc s ! ?k) ?k ?a t then \<exists>ts \<in> {clock, clock + 1}. u = t\<lparr>tr_state := EXIT, tr_timestamp := ts\<rparr> else u = t" by blast
    then show "\<exists>u. map_transaction i (sy_pool s') = Some u \<and> tr_key u = tr_key t" by (auto simp: tr_key_def split: if_splits)
  qed
  then have "rob_sys ck s'" by (rule rob_sys_keys[OF I(2) fr(1,2)])
  moreover have "req_inv dv s'"
  proof (rule req_inv_change[OF I(3)])
    fix u assume "u \<in> set (sy_pool s')"
    from all_set_ids[OF r(4) ok this] obtain t where t: "map_transaction (tr_tr_id u) (sy_pool s) = Some t"
      "map_transaction (tr_tr_id u) (sy_pool s') = Some u" "t \<in> set (sy_pool s)" by blast
    have "tr_tr_id t = tr_tr_id u" using map_transaction_mem[OF t(1)] by simp
    moreover have "if takes_part (sy_mlc s ! ?k) ?k ?a t then \<exists>ts \<in> {clock, clock + 1}. u = t\<lparr>tr_state := EXIT, tr_timestamp := ts\<rparr> else u = t"
      using r(5) t(1,2) by fastforce
    ultimately show "\<exists>t \<in> set (sy_pool s). tr_tr_id t = tr_tr_id u \<and> tr_ptr_to_mf t = tr_ptr_to_mf u \<and> (asks u \<longrightarrow> u = t)"
      using t(3) by (intro bexI[of _ t]) (auto simp: asks_def split: if_splits)
  next
    fix u assume u: "u \<in> set (sy_pool s)" "asks u"
    have m: "map_transaction (tr_tr_id u) (sy_pool s) = Some u" using map_transaction_in[OF ok u(1)] .
    have tin: "?t \<in> set (sy_pool s)" using assms(2) by simp
    have "\<not> takes_part (sy_mlc s ! ?k) ?k ?a u"
    proof
      assume tp: "takes_part (sy_mlc s ! ?k) ?k ?a u"
      let ?W = "waits (sy_mlc s ! ?k) ?k (sy_pool s)"
      have k: "?k < length (sy_procs s)" using I(1) tin by (simp add: llc_inv_def)
      have mk: "mshr_ok (sy_mlc s ! ?k) ?W" using I(1) k by (simp add: llc_inv_def core_caches_ok_def)
      have "?W (tr_tr_id u) = Some (True, block (sy_mlc s ! ?k) ?a)"
        using m tp asks_in_flight[OF u(2)] by (simp add: waits_def takes_part_def)
      moreover have "?W (tr_tr_id ?t) = Some (True, block (sy_mlc s ! ?k) ?a)"
        using map_transaction_in[OF ok tin] assms(3) by (simp add: waits_def in_flight_def)
      ultimately have "tr_tr_id u = tr_tr_id ?t" by (rule mshr_ok_one[OF mk])
      then have "Some u = Some ?t" using m map_transaction_in[OF ok tin] by (simp only:)
      then have "u = ?t" by simp
      then show False using u(2) assms(3) by (simp add: asks_def)
    qed
    then show "u \<in> set (sy_pool s')" using r(5) m map_transaction_mem by fastforce
  qed (simp_all add: fr)
  ultimately show ?thesis using r(1,2) fr assms(1) by (simp add: sys_inv_def turn_frame_def)
qed

lemma exit_turn:
  assumes "sys_inv dv ck s" "j < length (sy_pool s)" "tr_state (sy_pool s ! j) = EXIT"
  shows "\<exists>s'. exit_transaction clock j s = Some s' \<and> sys_inv dv ck s' \<and> turn_frame s s'"
proof -
  have I: "llc_inv s" "rob_sys ck s" "req_inv dv s" using assms(1) by (simp_all add: sys_inv_def)
  let ?t = "sy_pool s ! j"
  have ok: "pool_ok (sy_pool s)" using I(1) by (simp add: llc_inv_def)
  have tin: "?t \<in> set (sy_pool s)" using assms(2) by simp
  have cnt: "sy_transaction_count s \<le> 2 ^ 31" using assms(1) by (simp add: sys_inv_def)
  from exit_transaction_effect[OF I(1,2) assms(2,3) cnt, of clock] obtain s' where
    r: "exit_transaction clock j s = Some s'" "llc_inv s'" "rob_sys ck s'" "length (sy_procs s') = length (sy_procs s)"
    "sy_pool s' = drop_nth j (sy_pool s)" "sy_heap s' = delete_mf (tr_ptr_to_mf ?t) (sy_heap s)" "sy_next_mf s' = sy_next_mf s"
    "sy_transaction_count s' = sy_transaction_count s"
    "\<forall>k < length (sy_procs s). pr_cpu_response_fifo (sy_procs s' ! k) = pr_cpu_response_fifo (sy_procs s ! k)" by blast
  note D = drop_nth_other[OF ok assms(2)]
  have "req_inv dv s'"
  proof (rule req_inv_change[OF I(3)])
    fix u assume "u \<in> set (sy_pool s')"
    then have "u \<in> set (sy_pool s)" using D by (simp add: r(5))
    then show "\<exists>t \<in> set (sy_pool s). tr_tr_id t = tr_tr_id u \<and> tr_ptr_to_mf t = tr_ptr_to_mf u \<and> (asks u \<longrightarrow> u = t)" by blast
  next
    fix u assume u: "u \<in> set (sy_pool s)" "asks u"
    have "tr_tr_id u \<noteq> tr_tr_id ?t"
    proof
      assume "tr_tr_id u = tr_tr_id ?t"
      then have "Some u = Some ?t" using map_transaction_in[OF ok u(1)] map_transaction_in[OF ok tin] by (simp only:)
      then have "u = ?t" by simp
      then show False using u(2) assms(3) by (simp add: asks_def)
    qed
    then show "u \<in> set (sy_pool s')" using u(1) D by (simp add: r(5))
    fix q assume q: "tr_ptr_to_mf u = Some q"
    then have "tr_ptr_to_mf ?t \<noteq> Some q" using I(3) u(1) tin \<open>tr_tr_id u \<noteq> _\<close> unfolding req_inv_def by blast
    then show "sy_heap s' q = sy_heap s q" by (auto simp: r(6) delete_mf_def split: option.splits)
  next
    fix q assume "sy_heap s q = None"
    then show "sy_heap s' q = None" by (auto simp: r(6) delete_mf_def split: option.splits)
  qed (use r(4,7,9) in simp_all)
  then show ?thesis using r(1-4,8) assms(1) by (simp add: sys_inv_def turn_frame_def)
qed

lemma turn_frame_refl: "turn_frame s s"
  by (simp add: turn_frame_def)

lemma transaction_turn_total:
  assumes "sys_inv dv ck s" "config_ok dv ck (length (sy_procs s))" "addr_total am" "0 \<le> clock"
  shows "\<exists>s' out'. transaction_turn dv ck env am clock now room i (s, out) = Some (s', out') \<and> sys_inv dv ck s' \<and> turn_frame s s'"
proof (cases "length (sy_pool s) \<le> i \<or> clock < tr_timestamp (sy_pool s ! i) \<or> tr_timestamp (sy_pool s ! i) = - 1")
  case True
  then show ?thesis using assms(1) turn_frame_refl by (auto simp: transaction_turn_def Let_def)
next
  case False
  then have i: "i < length (sy_pool s)" "tr_timestamp (sy_pool s ! i) \<noteq> - 1" by auto
  show ?thesis
  proof (cases "tr_state (sy_pool s ! i)")
    case START
    let ?f = "\<lambda>t. t\<lparr>tr_timestamp := clock + ck_flc_lookup_time ck + ck_mlc_lookup_time ck, tr_state := CORE_TO_LLC\<rparr>"
    have "turn_frame s (set_tr i ?f s)" by (simp add: turn_frame_def set_tr_def)
    then show ?thesis using False START start_turn[OF assms(1,2) i(1) START assms(4)] by (auto simp: transaction_turn_def Let_def)
  next
    case CORE_TO_LLC
    from core_to_llc_turn[OF assms(1-3) i(1) CORE_TO_LLC i(2), of env now room] False CORE_TO_LLC show ?thesis
      by (auto simp: transaction_turn_def Let_def)
  next
    case LLC_TO_CORE
    from llc_to_core_turn[OF assms(1) i(1) LLC_TO_CORE, of clock] False LLC_TO_CORE show ?thesis
      by (auto simp: transaction_turn_def Let_def)
  next
    case EXIT
    from exit_turn[OF assms(1) i(1) EXIT, of clock] False EXIT show ?thesis by (auto simp: transaction_turn_def Let_def)
  qed (use False assms(1) turn_frame_refl in \<open>auto simp: transaction_turn_def Let_def\<close>)
qed

lemma simulate_memory_total:
  assumes "sys_inv dv ck s" "config_ok dv ck (length (sy_procs s))" "addr_total am" "0 \<le> clock"
  shows "\<exists>s' out. simulate_memory dv ck env am clock now room s = Some (s', out) \<and> sys_inv dv ck s' \<and> turn_frame s s'"
proof -
  have "\<exists>x. fold_opt (transaction_turn dv ck env am clock now room) [0 ..< length (sy_pool s)] (s, []) = Some x \<and>
      (sys_inv dv ck (fst x) \<and> turn_frame s (fst x))"
  proof (rule fold_opt_total)
    show "sys_inv dv ck (fst (s, [])) \<and> turn_frame s (fst (s, []))" using assms(1) turn_frame_refl by simp
  next
    fix i and t :: "cpu_sys \<times> cpu_packet list"
    assume I: "sys_inv dv ck (fst t) \<and> turn_frame s (fst t)"
    obtain u out where t: "t = (u, out)" by fastforce
    have "config_ok dv ck (length (sy_procs u))" using I assms(2) by (simp add: t turn_frame_def)
    from transaction_turn_total[OF _ this assms(3,4), of env now room i out] I obtain v out' where
      "transaction_turn dv ck env am clock now room i (u, out) = Some (v, out')" "sys_inv dv ck v" "turn_frame u v" by (auto simp: t)
    then show "\<exists>t'. transaction_turn dv ck env am clock now room i t = Some t' \<and> (sys_inv dv ck (fst t') \<and> turn_frame s (fst t'))"
      using I by (auto simp: t turn_frame_def)
  qed
  then show ?thesis by (auto simp: simulate_memory_def)
qed

end
