(* ===== verification/CpuSystem.thy ===== *)
theory CpuSystem
  imports CpuRunMem
begin

text \<open>
  The CPU model (\<open>src/cpu-sim\<close>) as a whole: any interleaving of processor cycles, memory cycles and network
  interface cycles, beside a network and memories that answer requests and nothing else.
\<close>

subsection \<open>A processor cycle\<close>

lemma executed_mem:
  assumes "executed es fs" "f \<in> set fs" "mem_inst f"
  shows "f \<in> set es"
proof -
  obtain i where i: "i < length fs" "fs ! i = f" using assms(2) by (auto simp: in_set_conv_nth)
  then have "length es = length fs" "f = es ! i \<or> \<not> mem_inst (es ! i) \<and> f = (es ! i)\<lparr>ro_ready := True\<rparr>"
    using assms(1) by (auto simp: executed_def list_all2_conv_all_nth)
  then show ?thesis using i assms(3) by (auto simp: mem_inst_def)
qed

lemma executed_mem':
  assumes "executed es fs" "e \<in> set es" "mem_inst e"
  shows "e \<in> set fs"
proof -
  obtain i where i: "i < length es" "es ! i = e" using assms(2) by (auto simp: in_set_conv_nth)
  then have "length es = length fs" "fs ! i = e" using assms(1,3) by (auto simp: executed_def list_all2_conv_all_nth)
  then show ?thesis using i(1) by auto
qed

text \<open>What \<open>fetch\<close> adds to the pool.\<close>

definition fetched_trs :: "int \<Rightarrow> nat \<Rightarrow> int \<Rightarrow> int \<Rightarrow> TRANSTYPE list \<Rightarrow> bool" where
  "fetched_trs clock k n n' ts \<longleftrightarrow> ts = [] \<and> n' = n \<or>
     (\<exists>t. ts = [t] \<and> n' = n + 1 \<and> tr_state t = START \<and> tr_tr_id t = n \<and> tr_cpuid t = k \<and> tr_timestamp t = clock \<and>
        0 \<le> tr_mem_op_id t \<and> tr_ptr_to_mf t = None)"

text \<open>The pool and the buffer \<open>fs\<close> after the fetch belong together.\<close>

definition fetched_core :: "int \<Rightarrow> nat \<Rightarrow> cpu_world \<Rightarrow> cpu_world \<Rightarrow> processor \<Rightarrow> reorder_buffer_t list \<Rightarrow> TRANSTYPE list \<Rightarrow> bool" where
  "fetched_core clock k w w1 p1 fs ts \<longleftrightarrow>
    same_world w w1 \<and> wo_tr_pool w1 = wo_tr_pool w @ ts \<and>
    fetched_trs clock k (wo_transaction_count w) (wo_transaction_count w1) ts \<and>
    distinct (rob_ids fs) \<and> (\<forall>i \<in> set (rob_ids fs). i < wo_transaction_count w1) \<and> 0 \<le> pr_mem_op_id p1 \<and> pr_mem_op_id p1 \<le> wo_transaction_count w1 \<and>
    (\<forall>t \<in> set (wo_tr_pool w1). tr_cpuid t = k \<longrightarrow> (\<exists>e \<in> set fs. waiting t e)) \<and>
    (\<forall>e \<in> set fs. mem_inst e \<longrightarrow> \<not> ro_ready e \<longrightarrow> (\<exists>t \<in> set (wo_tr_pool w1). tr_cpuid t = k \<and> waiting t e))"

lemma fetch_core_effect:
  assumes "core_ok ck p k (wo_tr_pool w) (wo_transaction_count w)" "traces_ok ck refill" "world_ok w" "0 \<le> wo_transaction_count w" "wo_transaction_count w < 2 ^ 31"
  shows "\<exists>w1 p1 fs ts. fetch ck refill clock (w, p) = Some (w1, p1) \<and> fs = rob_list (executeNonMemoryInstructions ck p1) \<and>
    fetched_core clock k w w1 p1 fs ts \<and>
    (case doCycle ck refill clock (w, p) of
       None \<Rightarrow> \<exists>e. e \<in> set fs \<and> \<not> retirable clock e \<and> map_transaction (ro_tr_id e) (wo_tr_pool w1) = None \<and>
         (ck_commit_width ck \<le> ck_execution_width ck \<longrightarrow> mem_inst e \<or> ro_ready e)
     | Some (w2, p2) \<Rightarrow> w2 = w1 \<and> (\<exists>es. fs = es @ rob_list p2 \<and> (\<forall>e \<in> set es. retirable clock e)) \<and> rob_inv ck p2 \<and>
         pr_mem_op_id p2 = pr_mem_op_id p1 \<and> pr_procID p2 = pr_procID p \<and> pr_cpu_response_fifo p2 = pr_cpu_response_fifo p)"
proof -
  let ?n = "wo_transaction_count w"
  have C: "rob_inv ck p" "pr_procID p = k" "0 \<le> pr_mem_op_id p" "distinct (rob_ids (rob_list p))" "\<forall>i \<in> set (rob_ids (rob_list p)). i < ?n"
    "\<forall>t \<in> set (wo_tr_pool w). tr_cpuid t = k \<longrightarrow> (\<exists>e \<in> set (rob_list p). waiting t e)"
    "\<forall>e \<in> set (rob_list p). mem_inst e \<longrightarrow> \<not> ro_ready e \<longrightarrow> (\<exists>t \<in> set (wo_tr_pool w). tr_cpuid t = k \<and> waiting t e)"
    "pr_mem_op_id p \<le> ?n"
    using assms(1) unfolding core_ok_def by blast+
  have mi: "as_int (pr_mem_op_id p) = pr_mem_op_id p" using as_int_id[OF C(3)] C(8) assms(5) by simp
  from doCycle_effect[OF C(1) assms(2,3), of clock] obtain w1 p1 fs where
    D: "fetch_result clock w p w1 p1" "executed (rob_list p1) fs" "fetch ck refill clock (w, p) = Some (w1, p1)"
      "fs = rob_list (executeNonMemoryInstructions ck p1)" and
    R: "case doCycle ck refill clock (w, p) of
       None \<Rightarrow> \<exists>es e gs. fs = es @ e # gs \<and> length es < ck_commit_width ck \<and> \<not> retirable clock e \<and>
         (\<forall>x \<in> set es. \<not> mem_inst x) \<and> map_transaction (ro_tr_id e) (wo_tr_pool w1) = None \<and>
         (ck_commit_width ck \<le> ck_execution_width ck \<longrightarrow> mem_inst e \<or> ro_ready e)
     | Some (w2, p2) \<Rightarrow> w2 = w1 \<and> (\<exists>es. fs = es @ rob_list p2 \<and> (\<forall>e \<in> set es. retirable clock e) \<and> length es \<le> ck_commit_width ck \<and>
         (\<forall>e \<in> set (butlast es). \<not> mem_inst e) \<and>
         pr_retired_instructions p2 = pr_retired_instructions p + int (length es)) \<and> rob_inv ck p2 \<and>
         pr_instructions p2 = pr_instructions p1 \<and> pr_mem_op_id p2 = pr_mem_op_id p1 \<and>
         pr_procID p2 = pr_procID p \<and> pr_cpu_response_fifo p2 = pr_cpu_response_fifo p" by blast
  from D(1) obtain ds ms where F: "rob_list p1 = rob_list p @ ds @ ms" "\<forall>e \<in> set ds. \<not> mem_inst e \<and> ro_tr_id e = - 1"
    "ms = [] \<and> wo_tr_pool w1 = wo_tr_pool w \<and> wo_transaction_count w1 = ?n \<and> pr_mem_op_id p1 = pr_mem_op_id p \<or>
      (\<exists>e. ms = [e] \<and> mem_inst e \<and> mem_fetched clock w p w1 p1 e)" "same_world w w1"
    unfolding fetch_result_def by blast
  have fids: "rob_ids fs = rob_ids (rob_list p) @ rob_ids ms"
  proof -
    have "rob_ids ds = []" using F(2) by (simp add: rob_ids_def)
    then show ?thesis using rob_ids_map[OF executed_props(4)[OF D(2)]] by (simp add: F(1))
  qed
  have mem: "e \<in> set fs \<longleftrightarrow> e \<in> set (rob_list p) \<union> set ms" if "mem_inst e" for e
    using executed_mem[OF D(2), of e] executed_mem'[OF D(2), of e] that F(1,2) by auto
  have old: "\<exists>e \<in> set fs. waiting t e" if t: "t \<in> set (wo_tr_pool w)" "tr_cpuid t = k" for t
  proof -
    obtain e where "e \<in> set (rob_list p)" "waiting t e" using C(6) t by blast
    then show ?thesis using mem[of e] by (auto simp: waiting_def)
  qed
  consider (none) "rob_ids ms = []" "\<forall>e \<in> set ms. ro_ready e" "wo_tr_pool w1 = wo_tr_pool w" "wo_transaction_count w1 = ?n" "pr_mem_op_id p1 = pr_mem_op_id p"
    | (new) e t where "ms = [e]" "mem_inst e" "\<not> ro_ready e" "ro_tr_id e = ?n" "wo_transaction_count w1 = ?n + 1" "pr_mem_op_id p1 = pr_mem_op_id p + 1"
      "wo_tr_pool w1 = wo_tr_pool w @ [t]" "tr_state t = START" "tr_tr_id t = ?n" "tr_address t = ro_address e" "tr_cpuid t = k"
      "tr_timestamp t = clock" "tr_mem_op_id t = as_int (pr_mem_op_id p)" "tr_ptr_to_mf t = None"
    using F(3) C(2) unfolding mem_fetched_def by (auto simp: rob_ids_def)
  then have "\<exists>ts. wo_tr_pool w1 = wo_tr_pool w @ ts \<and> fetched_trs clock k ?n (wo_transaction_count w1) ts \<and> distinct (rob_ids fs) \<and>
    (\<forall>i \<in> set (rob_ids fs). i < wo_transaction_count w1) \<and> 0 \<le> pr_mem_op_id p1 \<and> pr_mem_op_id p1 \<le> wo_transaction_count w1 \<and>
    (\<forall>t \<in> set (wo_tr_pool w1). tr_cpuid t = k \<longrightarrow> (\<exists>e \<in> set fs. waiting t e)) \<and>
    (\<forall>e \<in> set fs. mem_inst e \<longrightarrow> \<not> ro_ready e \<longrightarrow> (\<exists>t \<in> set (wo_tr_pool w1). tr_cpuid t = k \<and> waiting t e))"
  proof cases
    case none
    have "\<exists>t \<in> set (wo_tr_pool w). tr_cpuid t = k \<and> waiting t e" if "e \<in> set fs" "mem_inst e" "\<not> ro_ready e" for e
      using mem[OF that(2)] that none(2) C(7) by blast
    then show ?thesis using none C(3-5,8) old fids by (intro exI[of _ "[]"]) (auto simp: fetched_trs_def)
  next
    case new
    have ids: "rob_ids fs = rob_ids (rob_list p) @ [?n]" using fids new(1,4) assms(4) by (simp add: rob_ids_def)
    have wt: "waiting t e" using new by (simp add: waiting_def)
    have a: "\<exists>e \<in> set fs. waiting u e" if "u \<in> set (wo_tr_pool w1)" "tr_cpuid u = k" for u
      using that old wt mem[OF new(2)] new(1,7) by auto
    have b: "\<exists>t \<in> set (wo_tr_pool w1). tr_cpuid t = k \<and> waiting t f" if f: "f \<in> set fs" "mem_inst f" "\<not> ro_ready f" for f
      using mem[OF f(2)] f C(7) new(1,7,11) wt by auto
    have d: "distinct (rob_ids fs)" "\<forall>i \<in> set (rob_ids fs). i < wo_transaction_count w1" using C(4,5) new(5) by (force simp: ids)+
    show ?thesis using a b d new(5-9,11-14) C(3,8) mi by (intro exI[of _ "[t]"]) (simp add: fetched_trs_def)
  qed
  then obtain ts where T: "wo_tr_pool w1 = wo_tr_pool w @ ts" "fetched_trs clock k ?n (wo_transaction_count w1) ts" "distinct (rob_ids fs)"
    "\<forall>i \<in> set (rob_ids fs). i < wo_transaction_count w1" "0 \<le> pr_mem_op_id p1" "pr_mem_op_id p1 \<le> wo_transaction_count w1"
    "\<forall>t \<in> set (wo_tr_pool w1). tr_cpuid t = k \<longrightarrow> (\<exists>e \<in> set fs. waiting t e)"
    "\<forall>e \<in> set fs. mem_inst e \<longrightarrow> \<not> ro_ready e \<longrightarrow> (\<exists>t \<in> set (wo_tr_pool w1). tr_cpuid t = k \<and> waiting t e)" by blast
  have R': "case doCycle ck refill clock (w, p) of
       None \<Rightarrow> \<exists>e. e \<in> set fs \<and> \<not> retirable clock e \<and> map_transaction (ro_tr_id e) (wo_tr_pool w1) = None \<and>
         (ck_commit_width ck \<le> ck_execution_width ck \<longrightarrow> mem_inst e \<or> ro_ready e)
     | Some (w2, p2) \<Rightarrow> w2 = w1 \<and> (\<exists>es. fs = es @ rob_list p2 \<and> (\<forall>e \<in> set es. retirable clock e)) \<and> rob_inv ck p2 \<and>
         pr_mem_op_id p2 = pr_mem_op_id p1 \<and> pr_procID p2 = pr_procID p \<and> pr_cpu_response_fifo p2 = pr_cpu_response_fifo p"
  proof (cases "doCycle ck refill clock (w, p)")
    case None
    then show ?thesis using R by fastforce
  next
    case (Some wp)
    then show ?thesis using R by (cases wp) fastforce
  qed
  show ?thesis
    by (intro exI[of _ w1] exI[of _ p1] exI[of _ fs] exI[of _ ts] conjI) (use D(3,4) F(4) T R' in \<open>simp_all add: fetched_core_def\<close>)
qed

lemma doCycle_core_ok:
  assumes "core_ok ck p k (wo_tr_pool w) (wo_transaction_count w)" "traces_ok ck refill" "world_ok w" "0 \<le> wo_transaction_count w" "wo_transaction_count w < 2 ^ 31"
    "doCycle ck refill clock (w, p) = Some (w2, p2)"
  shows "core_ok ck p2 k (wo_tr_pool w2) (wo_transaction_count w2) \<and> same_world w w2 \<and> pr_cpu_response_fifo p2 = pr_cpu_response_fifo p \<and>
    (\<exists>ts. wo_tr_pool w2 = wo_tr_pool w @ ts \<and> fetched_trs clock k (wo_transaction_count w) (wo_transaction_count w2) ts)"
proof -
  from fetch_core_effect[OF assms(1-5), of clock] obtain w1 p1 fs ts where fc: "fetched_core clock k w w1 p1 fs ts"
    and R: "case doCycle ck refill clock (w, p) of
       None \<Rightarrow> \<exists>e. e \<in> set fs \<and> \<not> retirable clock e \<and> map_transaction (ro_tr_id e) (wo_tr_pool w1) = None \<and>
         (ck_commit_width ck \<le> ck_execution_width ck \<longrightarrow> mem_inst e \<or> ro_ready e)
     | Some (w2, p2) \<Rightarrow> w2 = w1 \<and> (\<exists>es. fs = es @ rob_list p2 \<and> (\<forall>e \<in> set es. retirable clock e)) \<and> rob_inv ck p2 \<and>
         pr_mem_op_id p2 = pr_mem_op_id p1 \<and> pr_procID p2 = pr_procID p \<and> pr_cpu_response_fifo p2 = pr_cpu_response_fifo p" by blast
  from fc have F: "same_world w w1" "wo_tr_pool w1 = wo_tr_pool w @ ts"
    "fetched_trs clock k (wo_transaction_count w) (wo_transaction_count w1) ts"
    "distinct (rob_ids fs)" "\<forall>i \<in> set (rob_ids fs). i < wo_transaction_count w1" "0 \<le> pr_mem_op_id p1" "pr_mem_op_id p1 \<le> wo_transaction_count w1"
    "\<forall>t \<in> set (wo_tr_pool w1). tr_cpuid t = k \<longrightarrow> (\<exists>e \<in> set fs. waiting t e)"
    "\<forall>e \<in> set fs. mem_inst e \<longrightarrow> \<not> ro_ready e \<longrightarrow> (\<exists>t \<in> set (wo_tr_pool w1). tr_cpuid t = k \<and> waiting t e)"
    unfolding fetched_core_def by blast+
  from R have G: "w2 = w1" "\<exists>es. fs = es @ rob_list p2 \<and> (\<forall>e \<in> set es. retirable clock e)" "rob_inv ck p2"
    "pr_mem_op_id p2 = pr_mem_op_id p1" "pr_procID p2 = pr_procID p" "pr_cpu_response_fifo p2 = pr_cpu_response_fifo p"
    by (simp_all add: assms(6))
  from G(2) obtain es where es: "fs = es @ rob_list p2" "\<forall>e \<in> set es. retirable clock e" by blast
  have k: "pr_procID p = k" using assms(1) by (simp add: core_ok_def)
  have a: "\<exists>e \<in> set (rob_list p2). waiting t e" if t: "t \<in> set (wo_tr_pool w1)" "tr_cpuid t = k" for t
  proof -
    obtain e where "e \<in> set fs" "waiting t e" using F(8) t by blast
    then show ?thesis using es by (auto simp: waiting_def retirable_def)
  qed
  have "core_ok ck p2 k (wo_tr_pool w1) (wo_transaction_count w1)"
    using F(4-7,9) G(3-5) a k by (auto simp: core_ok_def es(1))
  then show ?thesis using F(1-3) G(1,6) by blast
qed

lemma processor_cycle_inv:
  assumes "sys_inv dv ck s" "sy_transaction_count s < 2 ^ 31" "\<forall>k. traces_ok ck (refill k)" "processor_cycle ck refill clock k s = Some s'"
    "0 \<le> clock"
  shows "sys_inv dv ck s' \<and> length (sy_procs s') = length (sy_procs s)"
proof -
  have I: "llc_inv s" "rob_sys ck s" "req_inv dv s" using assms(1) by (simp_all add: sys_inv_def)
  have k: "k < length (sy_procs s)" using assms(4) by (auto simp: processor_cycle_def split: if_splits)
  then have len: "k < length (sy_flc s)" "k < length (sy_mlc s)" using I(1) by (simp_all add: llc_inv_def)
  let ?n = "sy_transaction_count s"
  let ?w = "\<lparr>wo_flc = sy_flc s ! k, wo_mlc = sy_mlc s ! k, wo_tr_pool = sy_pool s, wo_transaction_count = ?n\<rparr>"
  obtain w p where d: "doCycle ck (refill k) clock (?w, sy_procs s ! k) = Some (w, p)" and
    s': "s' = s\<lparr>sy_procs := (sy_procs s)[k := p], sy_flc := (sy_flc s)[k := wo_flc w], sy_mlc := (sy_mlc s)[k := wo_mlc w],
             sy_pool := wo_tr_pool w, sy_transaction_count := wo_transaction_count w\<rparr>"
    using assms(4) k len by (auto simp: processor_cycle_def cache_of_def elim!: bind_SomeE)
  have K: "core_caches_ok (sy_flc s ! k) (sy_mlc s ! k) k (sy_pool s)" using I(1) k by (simp add: llc_inv_def)
  then have w0: "world_ok ?w" by (simp add: world_ok_def core_caches_ok_def)
  have c0: "core_ok ck (sy_procs s ! k) k (wo_tr_pool ?w) (wo_transaction_count ?w)" "0 \<le> wo_transaction_count ?w" "wo_transaction_count ?w < 2 ^ 31"
    using I(2) k assms(2) by (simp_all add: rob_sys_def)
  have tr: "traces_ok ck (refill k)" using assms(3) by blast
  from doCycle_core_ok[OF c0(1) tr w0 c0(2,3) d] obtain ts where
    D: "core_ok ck p k (wo_tr_pool w) (wo_transaction_count w)" "same_lines (sy_flc s ! k) (wo_flc w)" "same_lines (sy_mlc s ! k) (wo_mlc w)"
      "pr_cpu_response_fifo p = pr_cpu_response_fifo (sy_procs s ! k)" "wo_tr_pool w = sy_pool s @ ts"
      "fetched_trs clock k ?n (wo_transaction_count w) ts" by (auto simp: same_world_def)
  have ok: "pool_ok (sy_pool s)" using I(1) by (simp add: llc_inv_def)
  have old: "tr_tr_id t < ?n" if "t \<in> set (sy_pool s)" for t using I(2) that by (auto simp: rob_sys_def tr_ok_def)
  have new: "tr_state t = START \<and> tr_tr_id t = ?n \<and> tr_cpuid t = k \<and> tr_timestamp t = clock \<and> 0 \<le> tr_mem_op_id t \<and> tr_ptr_to_mf t = None \<and>
      ts = [t] \<and> wo_transaction_count w = ?n + 1" if "t \<in> set ts" for t using D(6) that by (auto simp: fetched_trs_def)
  have cnt: "?n \<le> wo_transaction_count w" "wo_transaction_count w \<le> 2 ^ 31" using D(6) assms(2) by (auto simp: fetched_trs_def)
  have pool': "pool_ok (wo_tr_pool w)"
  proof (cases ts)
    case Nil
    then show ?thesis using ok D(5) by simp
  next
    case (Cons t us)
    then have "ts = [t]" "tr_tr_id t = ?n" using new by auto
    moreover have "?n \<notin> tr_tr_id ` set (sy_pool s)" using old by fastforce
    ultimately show ?thesis using ok D(5) by (simp add: pool_ok_def)
  qed
  have waits: "waits c m (wo_tr_pool w) = waits c m (sy_pool s)" for c m
  proof (cases ts)
    case (Cons t us)
    then have t: "ts = [t]" "tr_state t = START" using new by auto
    then have "role c m t = None" by (simp add: role_def in_flight_def pending_def)
    then show ?thesis using waits_append D(5) t(1) by simp
  qed (use D(5) in simp)
  have "core_caches_ok (sy_flc s' ! m) (sy_mlc s' ! m) m (sy_pool s')" if m: "m < length (sy_procs s)" for m
  proof (cases "m = k")
    case True
    then show ?thesis using core_caches_same[OF K D(2,3)] waits len by (simp add: s')
  next
    case False
    have "core_caches_ok (sy_flc s ! m) (sy_mlc s ! m) m (sy_pool s)" using I(1) m by (simp add: llc_inv_def)
    then show ?thesis using False waits by (simp add: s' core_caches_ok_def)
  qed
  moreover have "tr_cpuid t < length (sy_procs s)" if "t \<in> set (sy_pool s')" for t
    using that I(1) D(5) new k by (auto simp: s' llc_inv_def)
  ultimately have "llc_inv s'" using I(1) pool' by (simp add: llc_inv_def s')
  moreover have "rob_sys ck s'"
  proof -
    have "core_ok ck (sy_procs s' ! m) m (wo_tr_pool w) (wo_transaction_count w)" if m: "m < length (sy_procs s)" for m
    proof (cases "m = k")
      case True
      then show ?thesis using D(1) k by (simp add: s')
    next
      case False
      have "core_ok ck (sy_procs s ! m) m (sy_pool s) ?n" using I(2) m by (simp add: rob_sys_def)
      moreover have "t \<in> set (sy_pool s)" if "t \<in> set (wo_tr_pool w)" "tr_cpuid t = m" for t using that new False D(5) by auto
      ultimately have "core_ok ck (sy_procs s ! m) m (wo_tr_pool w) (wo_transaction_count w)"
        using cnt(1) D(5) unfolding core_ok_def by (fastforce simp: D(5))
      then show ?thesis using False by (simp add: s')
    qed
    moreover have "tr_ok (wo_transaction_count w) t" if "t \<in> set (wo_tr_pool w)" for t
    proof (cases "t \<in> set ts")
      case True
      then show ?thesis using new[OF True] c0(2) by (simp add: tr_ok_def)
    next
      case False
      then have "t \<in> set (sy_pool s)" using that D(5) by simp
      then show ?thesis using I(2) cnt(1) by (auto simp: rob_sys_def tr_ok_def)
    qed
    ultimately show ?thesis using c0(2) cnt(1) by (simp add: rob_sys_def s')
  qed
  moreover have "req_inv dv s'"
  proof -
    have na: "\<not> asks t \<and> tr_ptr_to_mf t = None" if "t \<in> set ts" for t using new[OF that] by (simp add: asks_def)
    have fifo: "pr_cpu_response_fifo (sy_procs s' ! m) = pr_cpu_response_fifo (sy_procs s ! m)" for m
      using D(4) k by (cases "m = k") (simp_all add: s')
    have ps: "set (sy_pool s') = set (sy_pool s) \<union> set ts" using D(5) by (simp add: s')
    have fr: "sy_heap s' = sy_heap s" "sy_next_mf s' = sy_next_mf s" "length (sy_procs s') = length (sy_procs s)" by (simp_all add: s')
    show ?thesis unfolding req_inv_def fr
    proof (intro conjI ballI allI impI)
      fix t u q assume "t \<in> set (sy_pool s')" "u \<in> set (sy_pool s')" "tr_ptr_to_mf t = Some q" "tr_ptr_to_mf u = Some q"
      then have "t \<in> set (sy_pool s)" "u \<in> set (sy_pool s)" using ps na by auto
      then show "tr_tr_id t = tr_tr_id u" using I(3) \<open>tr_ptr_to_mf t = _\<close> \<open>tr_ptr_to_mf u = _\<close> unfolding req_inv_def by blast
    next
      fix t assume "t \<in> set (sy_pool s')" "asks t"
      then have "t \<in> set (sy_pool s)" using ps na by auto
      then show "\<exists>q mf. tr_ptr_to_mf t = Some q \<and> sy_heap s q = Some mf \<and> uint (mf_wid mf) = tr_tr_id t \<and>
          unat (mf_tpc mf) = cpu_device dv (tr_cpuid t)" using I(3) \<open>asks t\<close> unfolding req_inv_def by blast
    next
      fix m q assume "m < length (sy_procs s)" "q \<in> set (pr_cpu_response_fifo (sy_procs s' ! m))"
      then obtain t where "t \<in> set (sy_pool s)" "tr_cpuid t = m" "asks t" "tr_ptr_to_mf t = Some q"
        using I(3) unfolding req_inv_def fifo by blast
      then show "\<exists>t \<in> set (sy_pool s'). tr_cpuid t = m \<and> asks t \<and> tr_ptr_to_mf t = Some q" using ps by blast
    next
      fix t q assume "t \<in> set (sy_pool s')" "tr_ptr_to_mf t = Some q"
      then have "t \<in> set (sy_pool s)" using ps na by auto
      then show "q < sy_next_mf s" using I(3) \<open>tr_ptr_to_mf t = _\<close> unfolding req_inv_def by blast
    qed (use I(3) fifo in \<open>simp_all add: req_inv_def\<close>)
  qed
  ultimately show ?thesis using cnt(2) by (simp add: sys_inv_def s')
qed

subsection \<open>A cycle of the network interface\<close>

text \<open>A reply for processor \<open>k\<close> answers a request it waits for, and comes once.\<close>

definition reply_ok :: "cpu_sys \<Rightarrow> nat \<Rightarrow> mfp \<Rightarrow> bool" where
  "reply_ok s k q \<longleftrightarrow> (\<exists>t \<in> set (sy_pool s). tr_cpuid t = k \<and> asks t \<and> tr_ptr_to_mf t = Some q) \<and>
     q \<notin> set (pr_cpu_response_fifo (sy_procs s ! k)) \<and>
     (\<forall>mf. sy_heap s q = Some mf \<longrightarrow> mf_mtype mf = CPU_READ_REPLY \<or> mf_mtype mf = CPU_WRITE_REPLY)"

lemma update_transaction_nth:
  "pool_ok pool \<Longrightarrow> j < length pool \<Longrightarrow> update_transaction (tr_tr_id (pool ! j)) f pool = Some (pool[j := f (pool ! j)])"
proof (induction pool arbitrary: j)
  case (Cons u us)
  show ?case
  proof (cases j)
    case (Suc m)
    then have "us ! m \<in> set us" using Cons.prems(2) by simp
    then have "tr_tr_id u \<noteq> tr_tr_id (us ! m)" using Cons.prems(1) by (metis distinct.simps(2) image_eqI list.set_map list.simps(9) pool_ok_def)
    moreover have "pool_ok us" using Cons.prems(1) by (simp add: pool_ok_def)
    ultimately show ?thesis using Cons.IH[of m] Cons.prems(2) Suc by simp
  qed simp
qed simp

lemma core_ok_fifo [simp]: "core_ok ck (p\<lparr>pr_cpu_response_fifo := x\<rparr>) = core_ok ck p"
  by (intro ext) (simp add: core_ok_def rob_inv_def rob_ok_def buffer_ok_def rob_list_def rob_positions_def)

lemma deliver_reply_effect:
  assumes "sys_inv dv ck s" "k < length (sy_procs s)"
  shows "\<exists>s'. deliver_reply clock k s = Some s' \<and> sys_inv dv ck s' \<and> length (sy_procs s') = length (sy_procs s) \<and>
    (\<forall>q. reply_ok s k q \<longrightarrow> reply_ok s' k q)"
proof (cases "pr_cpu_response_fifo (sy_procs s ! k)")
  case Nil
  then show ?thesis using assms by (simp add: deliver_reply_def Let_def)
next
  case (Cons q qs)
  have I: "llc_inv s" "rob_sys ck s" "req_inv dv s" using assms(1) by (simp_all add: sys_inv_def)
  have ok: "pool_ok (sy_pool s)" using I(1) by (simp add: llc_inv_def)
  have dq: "distinct (q # qs)" using I(3) assms(2) Cons unfolding req_inv_def by metis
  have "q \<in> set (pr_cpu_response_fifo (sy_procs s ! k))" using Cons by simp
  then obtain t where t: "t \<in> set (sy_pool s)" "tr_cpuid t = k" "asks t" "tr_ptr_to_mf t = Some q"
    using I(3) assms(2) unfolding req_inv_def by blast
  obtain mf where mf: "sy_heap s q = Some mf" "uint (mf_wid mf) = tr_tr_id t"
    using I(3) t(1,3,4) unfolding req_inv_def by fastforce
  obtain j where j: "j < length (sy_pool s)" "sy_pool s ! j = t" using t(1) by (auto simp: in_set_conv_nth)
  let ?f = "\<lambda>t. t\<lparr>tr_timestamp := clock + 1, tr_state := LLC_TO_CORE\<rparr>"
  let ?p = "(sy_procs s ! k)\<lparr>pr_cpu_response_fifo := qs\<rparr>"
  let ?s = "(set_tr j ?f s)\<lparr>sy_procs := (sy_procs s)[k := ?p]\<rparr>"
  have "update_transaction (tr_tr_id t) ?f (sy_pool s) = Some ((sy_pool s)[j := ?f t])"
    using update_transaction_nth[OF ok j(1), of ?f] j(2) by simp
  then have run: "deliver_reply clock k s = Some ?s" using mf j(2) by (simp add: deliver_reply_def Let_def Cons set_tr_def)
  have "role c m (?f (sy_pool s ! j)) = role c m (sy_pool s ! j)" for c m
    using t(3) j(2) asks_in_flight[OF t(3)] by (simp add: role_def in_flight_def)
  then have "llc_inv (set_tr j ?f s)" using llc_inv_set_tr[OF I(1) j(1), of ?f] by simp
  then have L: "llc_inv ?s" by (simp add: llc_inv_def set_tr_def)
  have "rob_sys ck (set_tr j ?f s)" by (rule rob_sys_keys[OF I(2)]) (simp_all add: set_tr_def keys_update tr_key_def)
  then have R: "rob_sys ck ?s" using assms(2) by (simp add: rob_sys_def set_tr_def nth_list_update)
  have pl: "sy_pool ?s = (sy_pool s)[j := ?f t]" using j(2) by (simp add: set_tr_def)
  have old: "u = ?f t \<or> u \<in> set (sy_pool s)" if "u \<in> set (sy_pool ?s)" for u using that mem_updateD unfolding pl by metis
  have keep: "u \<in> set (sy_pool ?s)" if "u \<in> set (sy_pool s)" "u \<noteq> t" for u using mem_update[OF that(1)] that(2) j(2) unfolding pl by metis
  have nask: "\<not> asks (?f t)" by (simp add: asks_def)
  have fr: "sy_heap ?s = sy_heap s" "sy_next_mf ?s = sy_next_mf s" "length (sy_procs ?s) = length (sy_procs s)"
    "sy_transaction_count ?s = sy_transaction_count s" by (simp_all add: set_tr_def)
  have orig: "\<exists>v \<in> set (sy_pool s). tr_tr_id v = tr_tr_id u \<and> tr_ptr_to_mf v = tr_ptr_to_mf u" if "u \<in> set (sy_pool ?s)" for u
    using old[OF that] t(1) by auto
  have "req_inv dv ?s" unfolding req_inv_def fr
  proof (intro conjI ballI allI impI)
    fix u v x assume "u \<in> set (sy_pool ?s)" "v \<in> set (sy_pool ?s)" and ptrs: "tr_ptr_to_mf u = Some x" "tr_ptr_to_mf v = Some x"
    then obtain u' v' where "u' \<in> set (sy_pool s)" "tr_tr_id u' = tr_tr_id u" "tr_ptr_to_mf u' = Some x"
      "v' \<in> set (sy_pool s)" "tr_tr_id v' = tr_tr_id v" "tr_ptr_to_mf v' = Some x" using orig by metis
    then show "tr_tr_id u = tr_tr_id v" using I(3) unfolding req_inv_def by metis
  next
    fix u x assume "u \<in> set (sy_pool ?s)" "tr_ptr_to_mf u = Some x"
    then obtain u' where "u' \<in> set (sy_pool s)" "tr_ptr_to_mf u' = Some x" using orig by metis
    then show "x < sy_next_mf s" using I(3) unfolding req_inv_def by blast
  next
    fix u assume u: "u \<in> set (sy_pool ?s)" "asks u"
    then have "u \<in> set (sy_pool s)" using old[OF u(1)] nask by blast
    then show "\<exists>q mf. tr_ptr_to_mf u = Some q \<and> sy_heap s q = Some mf \<and> uint (mf_wid mf) = tr_tr_id u \<and>
        unat (mf_tpc mf) = cpu_device dv (tr_cpuid u)" using I(3) u(2) unfolding req_inv_def by blast
  next
    fix m assume m: "m < length (sy_procs s)"
    show "distinct (pr_cpu_response_fifo (sy_procs ?s ! m))"
      using I(3) m dq by (cases "m = k") (simp_all add: req_inv_def)
    fix x assume x: "x \<in> set (pr_cpu_response_fifo (sy_procs ?s ! m))"
    have "x \<in> set (pr_cpu_response_fifo (sy_procs s ! m))" using x m Cons by (cases "m = k") simp_all
    then obtain u where u: "u \<in> set (sy_pool s)" "tr_cpuid u = m" "asks u" "tr_ptr_to_mf u = Some x"
      using I(3) m unfolding req_inv_def by blast
    have "u \<noteq> t"
    proof (cases "m = k")
      case True
      then have "x \<in> set qs" using x m by simp
      then have "x \<noteq> q" using dq by auto
      then show ?thesis using u(4) t(4) by auto
    qed (use u(2) t(2) in auto)
    then show "\<exists>t \<in> set (sy_pool ?s). tr_cpuid t = m \<and> asks t \<and> tr_ptr_to_mf t = Some x" using keep[OF u(1)] u(2-4) by blast
  qed (use I(3) in \<open>simp add: req_inv_def\<close>)
  moreover have "reply_ok ?s k x" if r: "reply_ok s k x" for x
  proof -
    obtain u where u: "u \<in> set (sy_pool s)" "tr_cpuid u = k" "asks u" "tr_ptr_to_mf u = Some x" using r unfolding reply_ok_def by blast
    have "x \<notin> set (q # qs)" using r Cons by (simp add: reply_ok_def)
    then have "u \<noteq> t" "x \<notin> set qs" using u(4) t(4) by auto
    then show ?thesis using r keep[OF u(1)] u(2-4) assms(2) unfolding reply_ok_def fr by auto
  qed
  ultimately show ?thesis using run L R assms(1) fr by (intro exI[of _ ?s]) (simp add: sys_inv_def)
qed

lemma accept_reply_effect:
  assumes "sys_inv dv ck s" "k < length (sy_procs s)" "\<forall>q. reply = Some q \<longrightarrow> reply_ok s k q"
  shows "\<exists>s'. accept_reply dv now reply k s = Some s' \<and> sys_inv dv ck s' \<and> length (sy_procs s') = length (sy_procs s)"
proof (cases "length (pr_cpu_response_fifo (sy_procs s ! k)) < 8 \<and> reply \<noteq> None")
  case False
  then show ?thesis using assms(1) by (auto simp: accept_reply_def Let_def)
next
  case True
  then obtain q where q: "reply = Some q" by blast
  have I: "llc_inv s" "rob_sys ck s" "req_inv dv s" using assms(1) by (simp_all add: sys_inv_def)
  have r: "q \<notin> set (pr_cpu_response_fifo (sy_procs s ! k))" using assms(3) q by (simp add: reply_ok_def)
  obtain t where t: "t \<in> set (sy_pool s)" "tr_cpuid t = k" "asks t" "tr_ptr_to_mf t = Some q"
    using assms(3) q unfolding reply_ok_def by blast
  then obtain mf where mf: "sy_heap s q = Some mf" "uint (mf_wid mf) = tr_tr_id t" "unat (mf_tpc mf) = cpu_device dv k"
    using I(3) unfolding req_inv_def by fastforce
  then have ty: "mf_mtype mf = CPU_READ_REPLY \<or> mf_mtype mf = CPU_WRITE_REPLY" using assms(3) q by (simp add: reply_ok_def)
  let ?p = "(sy_procs s ! k)\<lparr>pr_cpu_response_fifo := pr_cpu_response_fifo (sy_procs s ! k) @ [q]\<rparr>"
  let ?h = "(sy_heap s)(q \<mapsto> mf_set_status IN_ICNT_TO_SHADER now mf)"
  let ?s = "s\<lparr>sy_heap := ?h, sy_procs := (sy_procs s)[k := ?p]\<rparr>"
  have run: "accept_reply dv now reply k s = Some ?s" using True q mf ty by (simp add: accept_reply_def Let_def)
  have "llc_inv ?s" using I(1) by (simp add: llc_inv_def)
  moreover have "rob_sys ck ?s" using I(2) assms(2) by (simp add: rob_sys_def nth_list_update)
  moreover have "req_inv dv ?s"
  proof -
    have qn: "q < sy_next_mf s" using I(3) t(1,4) unfolding req_inv_def by blast
    have a: "\<exists>x mf. tr_ptr_to_mf u = Some x \<and> ?h x = Some mf \<and> uint (mf_wid mf) = tr_tr_id u \<and> unat (mf_tpc mf) = cpu_device dv (tr_cpuid u)"
      if u: "u \<in> set (sy_pool s)" "asks u" for u
    proof -
      obtain x m where x: "tr_ptr_to_mf u = Some x" "sy_heap s x = Some m" "uint (mf_wid m) = tr_tr_id u"
        "unat (mf_tpc m) = cpu_device dv (tr_cpuid u)" using I(3) u unfolding req_inv_def by blast
      then show ?thesis using mf(1) by (cases "x = q") (simp_all add: mf_set_status_def)
    qed
    have b: "distinct (pr_cpu_response_fifo (sy_procs ?s ! m))" if "m < length (sy_procs s)" for m
      using I(3) that r by (cases "m = k") (simp_all add: req_inv_def)
    have c: "\<exists>t \<in> set (sy_pool s). tr_cpuid t = m \<and> asks t \<and> tr_ptr_to_mf t = Some x"
      if m: "m < length (sy_procs s)" "x \<in> set (pr_cpu_response_fifo (sy_procs ?s ! m))" for m x
    proof (cases "m = k \<and> x = q")
      case True
      then show ?thesis using t by blast
    next
      case False
      then have "x \<in> set (pr_cpu_response_fifo (sy_procs s ! m))" using m by (cases "m = k") simp_all
      then show ?thesis using I(3) m(1) unfolding req_inv_def by blast
    qed
    have d: "\<forall>x \<ge> sy_next_mf s. ?h x = None" using I(3) qn by (simp add: req_inv_def)
    have sel: "sy_pool ?s = sy_pool s" "sy_heap ?s = ?h" "sy_next_mf ?s = sy_next_mf s" "length (sy_procs ?s) = length (sy_procs s)" by simp_all
    from I(3) have e: "\<forall>t \<in> set (sy_pool s). \<forall>q. tr_ptr_to_mf t = Some q \<longrightarrow> q < sy_next_mf s"
      "\<forall>t \<in> set (sy_pool s). \<forall>u \<in> set (sy_pool s). \<forall>q. tr_ptr_to_mf t = Some q \<longrightarrow> tr_ptr_to_mf u = Some q \<longrightarrow> tr_tr_id t = tr_tr_id u"
      unfolding req_inv_def by blast+
    show ?thesis unfolding req_inv_def sel
      by (intro conjI allI impI ballI) (use a b c d e in blast)+
  qed
  ultimately show ?thesis using run assms(1) by (simp add: sys_inv_def)
qed

lemma cpu_icnt_cycle_total:
  assumes "sys_inv dv ck s" "k < length (sy_procs s)" "\<forall>q. reply = Some q \<longrightarrow> reply_ok s k q"
  shows "\<exists>s'. cpu_icnt_cycle dv clock now reply k s = Some s' \<and> sys_inv dv ck s' \<and> length (sy_procs s') = length (sy_procs s)"
proof -
  from deliver_reply_effect[OF assms(1,2), of clock] obtain s1 where
    s1: "deliver_reply clock k s = Some s1" "sys_inv dv ck s1" "length (sy_procs s1) = length (sy_procs s)"
      "\<forall>q. reply_ok s k q \<longrightarrow> reply_ok s1 k q" by blast
  then have "k < length (sy_procs s1)" "\<forall>q. reply = Some q \<longrightarrow> reply_ok s1 k q" using assms(2,3) by simp_all
  from accept_reply_effect[OF s1(2) this, of now] s1(1,3) assms(2) show ?thesis by (auto simp: cpu_icnt_cycle_def)
qed

text \<open>The memories and the network work on the requests: they keep what they are told, and may create objects of their own.\<close>

definition requests_kept :: "cpu_sys \<Rightarrow> heap \<Rightarrow> mfp \<Rightarrow> bool" where
  "requests_kept s h n \<longleftrightarrow> sy_next_mf s \<le> n \<and> (\<forall>q \<ge> n. h q = None) \<and>
     (\<forall>q mf. sy_heap s q = Some mf \<longrightarrow> (\<exists>mf'. h q = Some mf' \<and> mf_wid mf' = mf_wid mf \<and> mf_tpc mf' = mf_tpc mf))"

lemma requests_kept_inv:
  assumes "sys_inv dv ck s" "requests_kept s h n"
  shows "sys_inv dv ck (s\<lparr>sy_heap := h, sy_next_mf := n\<rparr>)"
proof -
  have I: "llc_inv s" "rob_sys ck s" "req_inv dv s" using assms(1) by (simp_all add: sys_inv_def)
  have a: "\<exists>q mf. tr_ptr_to_mf t = Some q \<and> h q = Some mf \<and> uint (mf_wid mf) = tr_tr_id t \<and> unat (mf_tpc mf) = cpu_device dv (tr_cpuid t)"
    if t: "t \<in> set (sy_pool s)" "asks t" for t
  proof -
    obtain q mf where q: "tr_ptr_to_mf t = Some q" "sy_heap s q = Some mf" "uint (mf_wid mf) = tr_tr_id t"
      "unat (mf_tpc mf) = cpu_device dv (tr_cpuid t)" using I(3) t unfolding req_inv_def by blast
    then obtain mf' where "h q = Some mf'" "mf_wid mf' = mf_wid mf" "mf_tpc mf' = mf_tpc mf" using assms(2) unfolding requests_kept_def by blast
    then show ?thesis using q by simp
  qed
  have b: "q < n" if "t \<in> set (sy_pool s)" "tr_ptr_to_mf t = Some q" for t q
  proof -
    have "q < sy_next_mf s" using I(3) that unfolding req_inv_def by blast
    then show ?thesis using assms(2) by (simp add: requests_kept_def)
  qed
  let ?s = "s\<lparr>sy_heap := h, sy_next_mf := n\<rparr>"
  have sel: "sy_pool ?s = sy_pool s" "sy_heap ?s = h" "sy_next_mf ?s = n" "sy_procs ?s = sy_procs s" by simp_all
  from I(3) have e: "\<forall>t \<in> set (sy_pool s). \<forall>u \<in> set (sy_pool s). \<forall>q. tr_ptr_to_mf t = Some q \<longrightarrow> tr_ptr_to_mf u = Some q \<longrightarrow> tr_tr_id t = tr_tr_id u"
    "\<forall>k < length (sy_procs s). distinct (pr_cpu_response_fifo (sy_procs s ! k)) \<and>
      (\<forall>q \<in> set (pr_cpu_response_fifo (sy_procs s ! k)). \<exists>t \<in> set (sy_pool s). tr_cpuid t = k \<and> asks t \<and> tr_ptr_to_mf t = Some q)"
    unfolding req_inv_def by blast+
  from assms(2) have f: "\<forall>q \<ge> n. h q = None" by (simp add: requests_kept_def)
  have "req_inv dv ?s" unfolding req_inv_def sel
    by (intro conjI allI impI ballI) (use a b e f in blast)+
  then show ?thesis using assms(1) by (simp add: sys_inv_def llc_inv_def rob_sys_def)
qed

end
