(* ===== verification/CpuInit.thy ===== *)
theory CpuInit
  imports CpuSystem
begin

text \<open>
  How the CPU model starts (\<open>cache_t::cache_t\<close> of \<open>src/cpu-sim/cache.cpp\<close>): a cache of powers of two is built with the
  shifts and masks its operations need.
\<close>

lemma FloorLog2_mask:
  assumes "a \<le> 31"
  shows "FloorLog2 (word_of_nat (2 ^ a) - 1) = Some a"
proof -
  have m: "word_of_nat (2 ^ a) - 1 = (mask a :: u32)" by (simp add: mask_eq_exp_minus_1)
  have b: "drop_bit y (mask a :: u32) \<noteq> 0 \<longleftrightarrow> y < a" if "y < 32" for y
  proof
    assume "drop_bit y (mask a :: u32) \<noteq> 0"
    then obtain n where "bit (drop_bit y (mask a :: u32)) n" by (auto simp: bit_eq_iff)
    then show "y < a" by (simp add: bit_drop_bit_eq bit_mask_iff)
  next
    assume "y < a"
    then have "bit (drop_bit y (mask a :: u32)) 0" using assms by (simp add: bit_drop_bit_eq bit_mask_iff)
    then show "drop_bit y (mask a :: u32) \<noteq> 0" by auto
  qed
  have "takeWhile (\<lambda>y. drop_bit y (mask a :: u32) \<noteq> 0) [0 ..< 32] = [0 ..< a]"
  proof -
    have "[0 ..< 32] = [0 ..< a] @ [a ..< 32]" using upt_add_eq_append[of 0 a "32 - a"] assms by simp
    then have s: "[0 ..< 32] = [0 ..< a] @ a # [Suc a ..< 32]" using assms by (simp add: upt_conv_Cons)
    show ?thesis unfolding s by (rule takeWhile_append2[THEN trans]) (use assms b in auto)
  qed
  moreover have "(mask a :: u32) < 2 ^ 31"
  proof -
    have "(2 :: nat) ^ a \<le> 2 ^ 31" using assms by (rule power_increasing) simp
    moreover have "(2 :: nat) ^ a \<noteq> 0" by simp
    ultimately have "(2 :: nat) ^ a - 1 < 2 ^ 31" by linarith
    moreover have "mask a = (of_nat (2 ^ a - 1) :: u32)" by (simp add: of_nat_diff mask_eq_exp_minus_1)
    ultimately show ?thesis by (simp add: word_less_nat_alt unat_of_nat del: of_nat_diff)
  qed
  ultimately show ?thesis unfolding FloorLog2_def m by simp
qed

lemma Log2Mask_mask: "a < 32 \<Longrightarrow> Log2Mask a = Some (mask a)"
proof -
  assume a: "a < 32"
  have "fold (\<lambda>i m. m OR push_bit i 1) [0 ..< n] 0 = (mask n :: int)" for n
  proof (induction n)
    case (Suc n)
    have "mask n OR push_bit n 1 = (mask (Suc n) :: int)"
      by (rule bit_eqI) (auto simp: bit_or_iff bit_mask_iff bit_push_bit_iff bit_1_iff bit_exp_iff less_Suc_eq)
    with Suc show ?case by simp
  qed simp
  with a show ?thesis by (simp add: Log2Mask_def)
qed

text \<open>A cache of \<open>2^b\<close> sets of \<open>w\<close> lines of \<open>2^a\<close> bytes is empty and well formed.\<close>

lemma new_cpu_cache_parts:
  assumes "0 < w" "a \<le> 31" "b \<le> 31"
  shows "new_cpu_cache (2 ^ (a + b) * w) (2 ^ a) w l = Some \<lparr>cc_assoc = w, cc_level = l, cc_set_shift = a, cc_tag_shift = a + b,
       cc_set_mask = mask b, cc_line_mask = mask a, cc_numrefs_for_repl = 0,
       cc_sets = replicate (2 ^ b) (new_cset w), cc_queue = [], cc_rq_size = 0, cc_blocked_queue = [], cc_bq_size = 0, cc_MSHR = []\<rparr>"
proof -
  have "2 ^ (a + b) * w div (2 ^ a * w) = 2 ^ b" using assms(1) by (simp add: power_add)
  moreover have "(2 :: nat) ^ a * w \<noteq> 0" using assms(1) by simp
  moreover have "a < 32" "b < 32" using assms(2,3) by simp_all
  ultimately show ?thesis
    using FloorLog2_mask[OF assms(2)] FloorLog2_mask[OF assms(3)] Log2Mask_mask by (simp add: new_cpu_cache_def Let_def)
qed

definition fresh_cache :: "cpu_cache \<Rightarrow> bool" where
  "fresh_cache c \<longleftrightarrow> cpu_cache_ok c \<and> mask_ok c \<and> cc_MSHR c = [] \<and> (\<forall>a. line_state c a = CPU_INVALID)"

lemma fresh_cache_new:
  assumes "0 < w" "a \<le> 31" "b \<le> 31" "new_cpu_cache (2 ^ (a + b) * w) (2 ^ a) w l = Some c"
  shows "fresh_cache c"
proof -
  have c: "c = \<lparr>cc_assoc = w, cc_level = l, cc_set_shift = a, cc_tag_shift = a + b,
       cc_set_mask = mask b, cc_line_mask = mask a, cc_numrefs_for_repl = 0,
       cc_sets = replicate (2 ^ b) (new_cset w), cc_queue = [], cc_rq_size = 0, cc_blocked_queue = [], cc_bq_size = 0, cc_MSHR = []\<rparr>"
    using new_cpu_cache_parts[OF assms(1-3), of l] assms(4) by simp
  have s: "set_ok c n (new_cset w)" for n by (simp add: set_ok_def lines_ok_def n_valid_def new_cset_def new_cline_def c)
  have ok: "cpu_cache_ok c" unfolding cpu_cache_ok_def using s assms(1) by (simp add: c)
  have "cpu_line c x = None" for x
    using decode_less[OF ok, of x] by (simp add: cpu_line_def line_at_None c) (simp add: new_cset_def new_cline_def line_hit_def)
  then show ?thesis using ok by (simp add: fresh_cache_def mask_ok_def line_state_def) (simp add: c)
qed

end
