(* ===== verification/CpuProps.thy ===== *)
theory CpuProps
  imports CpuInit DramTiming
begin

text \<open>
  The properties of the CPU model (\<open>src/cpu-sim\<close>) over every run: \<open>cpu_engine.cpp\<close> advances the processors and the memory
  side, \<open>gpu-sim.cc\<close> the network interfaces, in whatever order the clock domains give.
\<close>

subsection \<open>Runs\<close>

definition cpu_start :: "cpu_config \<Rightarrow> (nat \<Rightarrow> trace_source) \<Rightarrow> cpu_sys \<Rightarrow> bool" where
  "cpu_start ck refill s \<longleftrightarrow> length (sy_flc s) = length (sy_procs s) \<and> length (sy_mlc s) = length (sy_procs s) \<and>
     sy_pool s = [] \<and> sy_transaction_count s = 0 \<and> (\<forall>q \<ge> sy_next_mf s. sy_heap s q = None) \<and>
     (\<forall>k < length (sy_procs s). fresh_cache (sy_flc s ! k) \<and> fresh_cache (sy_mlc s ! k) \<and>
        (\<exists>rob. rob \<noteq> [] \<and> initProcessor ck (refill k) k 0 rob = Some (sy_procs s ! k)))"

text \<open>The clocks are those of the moment of each step; the order of the steps is open.  The transactions are
  numbered with a \<open>long long\<close>, but the numbers are passed as an \<open>int\<close>, so a run has at most \<open>2^31\<close> of them.\<close>

inductive cpu_run ::
  "device_config \<Rightarrow> cpu_config \<Rightarrow> mf_env \<Rightarrow> addr_map \<Rightarrow> (nat \<Rightarrow> trace_source) \<Rightarrow> cpu_sys \<Rightarrow> cpu_sys \<Rightarrow> bool"
  for dv ck env am refill s0 where
  start: "cpu_start ck refill s0 \<Longrightarrow> cpu_run dv ck env am refill s0 s0"
| core: "cpu_run dv ck env am refill s0 s \<Longrightarrow> 0 \<le> clock \<Longrightarrow> sy_transaction_count s < 2 ^ 31 \<Longrightarrow>
    processor_cycle ck refill clock k s = Some s' \<Longrightarrow> cpu_run dv ck env am refill s0 s'"
| memory: "cpu_run dv ck env am refill s0 s \<Longrightarrow> 0 \<le> clock \<Longrightarrow>
    simulate_memory dv ck env am clock now room s = Some (s', out) \<Longrightarrow> cpu_run dv ck env am refill s0 s'"
| icnt: "cpu_run dv ck env am refill s0 s \<Longrightarrow> k < length (sy_procs s) \<Longrightarrow> (\<And>q. reply = Some q \<Longrightarrow> reply_ok s k q) \<Longrightarrow>
    cpu_icnt_cycle dv clock now reply k s = Some s' \<Longrightarrow> cpu_run dv ck env am refill s0 s'"
| outside: "cpu_run dv ck env am refill s0 s \<Longrightarrow> requests_kept s h n \<Longrightarrow> cpu_run dv ck env am refill s0 (s\<lparr>sy_heap := h, sy_next_mf := n\<rparr>)"

definition model_ok :: "device_config \<Rightarrow> cpu_config \<Rightarrow> addr_map \<Rightarrow> (nat \<Rightarrow> trace_source) \<Rightarrow> nat \<Rightarrow> bool" where
  "model_ok dv ck am refill n \<longleftrightarrow> config_ok dv ck n \<and> addr_total am \<and> (\<forall>k. traces_ok ck (refill k))"

lemma waits_empty [simp]: "waits c k [] = (\<lambda>_. None)"
  by (rule ext) (simp add: waits_def)

definition start_processor :: "nat \<Rightarrow> reorder_buffer_t list \<Rightarrow> processor" where
  "start_processor k rob = \<lparr>pr_procID = k, pr_next = 0, pr_oldest = 0, pr_num_entrys = 0, pr_num_mem_entrys = 0,
      pr_num_unfinished_mem_entrys = 0, pr_instructions = 0, pr_retired_instructions = 0, pr_mem_op_id = 0,
      pr_mp_trace_buffer = [], pr_trace_next = 0, pr_trace_pos = 0, pr_rob_array = rob, pr_throttle_mode = False,
      pr_ot_MemRefs = {}, pr_cpu_response_fifo = []\<rparr>"

lemma initProcessor_start:
  assumes "traces_ok ck src" "initProcessor ck src k 0 rob = Some p"
  shows "\<exists>ts pos. p = (start_processor k rob)\<lparr>pr_trace_next := 0, pr_mp_trace_buffer := ts, pr_trace_pos := pos\<rparr> \<and> trace_ok ck ts"
proof -
  have "populateTraceBuffer ck src (start_processor k rob) = Some p"
    using assms(2) by (simp add: initProcessor_def start_processor_def)
  with populateTraceBuffer_effect[OF assms(1), of "start_processor k rob"] show ?thesis by auto
qed

lemma start_inv:
  assumes "cpu_start ck refill s" "\<forall>k. traces_ok ck (refill k)"
  shows "sys_inv dv ck s"
proof -
  have "core_ok ck (sy_procs s ! k) k [] 0" if k: "k < length (sy_procs s)" for k
  proof -
    obtain rob where r: "rob \<noteq> []" "initProcessor ck (refill k) k 0 rob = Some (sy_procs s ! k)"
      using assms(1) k unfolding cpu_start_def by blast
    obtain ts pos where P: "sy_procs s ! k = (start_processor k rob)\<lparr>pr_trace_next := 0, pr_mp_trace_buffer := ts, pr_trace_pos := pos\<rparr>"
      "trace_ok ck ts" using initProcessor_start[OF _ r(2)] assms(2) by blast
    have "rob_list (sy_procs s ! k) = []" by (simp add: P(1) start_processor_def rob_list_def rob_positions_def)
    then show ?thesis using P(2) r(1)
      by (simp add: core_ok_def rob_inv_def rob_ids_def) (simp add: P(1) start_processor_def rob_ok_def buffer_ok_def trace_ok_def)
  qed
  moreover have "mshr_ok (sy_mlc s ! k) (\<lambda>_. None)" if "k < length (sy_procs s)" for k
    using assms(1) that by (simp add: cpu_start_def fresh_cache_def mshr_ok_def)
  moreover have "pr_cpu_response_fifo (sy_procs s ! k) = []" if "k < length (sy_procs s)" for k
  proof -
    obtain rob where "initProcessor ck (refill k) k 0 rob = Some (sy_procs s ! k)" using assms(1) \<open>k < length (sy_procs s)\<close> unfolding cpu_start_def by blast
    from initProcessor_start[OF _ this] assms(2) show ?thesis by (auto simp: start_processor_def)
  qed
  ultimately show ?thesis using assms(1)
    by (simp add: sys_inv_def llc_inv_def rob_sys_def req_inv_def cpu_start_def fresh_cache_def core_caches_ok_def pool_ok_def)
qed

lemma run_inv:
  assumes "cpu_run dv ck env am refill s0 s" "model_ok dv ck am refill (length (sy_procs s0))"
  shows "sys_inv dv ck s \<and> length (sy_procs s) = length (sy_procs s0)"
  using assms
proof (induction rule: cpu_run.induct)
  case start
  then show ?case using start_inv by (simp add: model_ok_def)
next
  case (core s clock k s')
  then show ?case using processor_cycle_inv[of dv ck s refill clock k s'] by (simp add: model_ok_def)
next
  case (memory s clock now room s' out)
  then have "sys_inv dv ck s" "config_ok dv ck (length (sy_procs s))" "addr_total am" by (simp_all add: model_ok_def)
  from simulate_memory_total[OF this memory.hyps(2), of env now room] memory show ?case by (auto simp: turn_frame_def)
next
  case (icnt s k reply clock now s')
  then show ?case using cpu_icnt_cycle_total[of dv ck s k reply clock now] by auto
next
  case (outside s h n)
  then show ?case using requests_kept_inv by simp
qed

subsection \<open>No transaction is lost\<close>

lemma waits_elem: "llc_inv s \<Longrightarrow> t \<in> set (sy_pool s) \<Longrightarrow> waits c k (sy_pool s) (tr_tr_id t) = role c k t"
  using map_transaction_in by (simp add: llc_inv_def waits_role)

text \<open>
  C9: In every run, a transaction that waits behind another for its line (\<open>LLC_MSHR_PENDING\<close>) has exactly one transaction of
  the same processor ahead of it that asked for this line: its request is on its way, or its reply is being delivered.  The
  line is not in the second cache.
\<close>
theorem waiting_has_request:
  assumes "cpu_run dv ck env am refill s0 s" "model_ok dv ck am refill (length (sy_procs s0))" "t \<in> set (sy_pool s)" "pending t"
  shows "(\<exists>!u. u \<in> set (sy_pool s) \<and> in_flight u \<and> tr_cpuid u = tr_cpuid t \<and>
      block (sy_mlc s ! tr_cpuid t) (tr_address u) = block (sy_mlc s ! tr_cpuid t) (tr_address t)) \<and>
    line_state (sy_mlc s ! tr_cpuid t) (tr_address t) = CPU_INVALID"
proof -
  let ?k = "tr_cpuid t" and ?c = "sy_mlc s ! tr_cpuid t"
  let ?W = "waits ?c ?k (sy_pool s)"
  have L: "llc_inv s" using run_inv[OF assms(1,2)] by (simp add: sys_inv_def)
  then have k: "?k < length (sy_procs s)" using assms(3) by (simp add: llc_inv_def)
  then have M: "mshr_ok ?c ?W" "cpu_cache_ok ?c" using L by (simp_all add: llc_inv_def core_caches_ok_def)
  have "?W (tr_tr_id t) = Some (False, block ?c (tr_address t))"
    using waits_elem[OF L assms(3)] assms(4) not_in_flight_pending by (auto simp: role_def)
  from mshr_ok_ahead[OF M(1) this] obtain i where i: "?W i = Some (True, block ?c (tr_address t))" by blast
  then obtain u where u: "map_transaction i (sy_pool s) = Some u" "tr_cpuid u = ?k" "in_flight u" "block ?c (tr_address u) = block ?c (tr_address t)"
    by (auto simp: waits_def split: option.splits if_splits)
  have one: "v = u" if v: "v \<in> set (sy_pool s)" "in_flight v" "tr_cpuid v = ?k" "block ?c (tr_address v) = block ?c (tr_address t)" for v
  proof -
    have "?W (tr_tr_id v) = Some (True, block ?c (tr_address t))" using waits_elem[OF L v(1)] v(2-4) by (simp add: role_def)
    from mshr_ok_one[OF M(1) this i] have "tr_tr_id v = i" .
    then have "map_transaction i (sy_pool s) = Some v" using map_transaction_in[OF _ v(1)] L by (simp add: llc_inv_def)
    then show ?thesis using u(1) by simp
  qed
  from mshr_ok_entry[OF M(1) i] obtain xs e ys where e: "cc_MSHR ?c = xs @ e # ys" "block ?c (me_line_address e) = block ?c (tr_address t)" by blast
  then have "line_state ?c (me_line_address e) = CPU_INVALID" using M(1) by (simp add: mshr_ok_def mshr_entry_ok_def)
  then have inv: "line_state ?c (tr_address t) = CPU_INVALID" using line_state_block[OF M(2) e(2)] by simp
  have ui: "u \<in> set (sy_pool s)" using map_transaction_mem[OF u(1)] by simp
  show ?thesis by (intro conjI ex1I[of _ u]) (use inv ui u(2-4) one in blast)+
qed

text \<open>
  C8: In every run, when the reply for a line is handled, \<open>simulate_memory\<close> puts the line into the second cache and lets go
  every transaction of the processor that asked for it or waited for it: they are in \<open>EXIT\<close> and may be finished in the
  next cycle.  No other transaction is touched.
\<close>
theorem reply_frees_all:
  assumes "cpu_run dv ck env am refill s0 s" "model_ok dv ck am refill (length (sy_procs s0))" "i < length (sy_pool s)"
    "tr_state (sy_pool s ! i) = LLC_TO_CORE" "0 \<le> tr_timestamp (sy_pool s ! i)" "tr_timestamp (sy_pool s ! i) \<le> clock"
    "k = tr_cpuid (sy_pool s ! i)" "a = tr_address (sy_pool s ! i)"
  shows "\<exists>s'. transaction_turn dv ck env am clock now room i (s, out) = Some (s', out) \<and> line_state (sy_mlc s' ! k) a = EXCLUSIVE \<and>
    (\<forall>t \<in> set (sy_pool s). \<exists>u \<in> set (sy_pool s'). tr_tr_id u = tr_tr_id t \<and>
       (if takes_part (sy_mlc s ! k) k a t then tr_state u = EXIT \<and> tr_timestamp u \<le> clock + 1 else u = t))"
proof -
  have L: "llc_inv s" using run_inv[OF assms(1,2)] by (simp add: sys_inv_def)
  then have ok: "pool_ok (sy_pool s)" by (simp add: llc_inv_def)
  from llc_to_core_effect[OF L assms(3,4,7,8), of clock] obtain s' where
    r: "llc_to_core clock i s = Some s'" "line_state (sy_mlc s' ! k) a = EXCLUSIVE"
    "\<forall>j t. map_transaction j (sy_pool s) = Some t \<longrightarrow> (\<exists>u. map_transaction j (sy_pool s') = Some u \<and>
       (if takes_part (sy_mlc s ! k) k a t then \<exists>ts \<in> {clock, clock + 1}. u = t\<lparr>tr_state := EXIT, tr_timestamp := ts\<rparr> else u = t))" by blast
  have "\<exists>u \<in> set (sy_pool s'). tr_tr_id u = tr_tr_id t \<and>
      (if takes_part (sy_mlc s ! k) k a t then tr_state u = EXIT \<and> tr_timestamp u \<le> clock + 1 else u = t)" if t: "t \<in> set (sy_pool s)" for t
  proof -
    from r(3) map_transaction_in[OF ok t] obtain u where u: "map_transaction (tr_tr_id t) (sy_pool s') = Some u"
      "if takes_part (sy_mlc s ! k) k a t then \<exists>ts \<in> {clock, clock + 1}. u = t\<lparr>tr_state := EXIT, tr_timestamp := ts\<rparr> else u = t" by blast
    then show ?thesis using map_transaction_mem[OF u(1)] by (intro bexI[of _ u]) (auto split: if_splits)
  qed
  then show ?thesis using r(1,2) assms(3-6) by (intro exI[of _ s']) (simp add: transaction_turn_def Let_def)
qed

text \<open>
  C10: In every run, the memory side never stops: whatever the network has room for, \<open>simulate_memory\<close> finds the caches' lines and
  the reorder buffer entries of its transactions, and the network interface finds the transaction of every reply it is given.
\<close>
theorem cpu_memory_never_stops:
  assumes "cpu_run dv ck env am refill s0 s" "model_ok dv ck am refill (length (sy_procs s0))" "0 \<le> clock" "k < length (sy_procs s)"
    "\<And>q. reply = Some q \<Longrightarrow> reply_ok s k q"
  shows "simulate_memory dv ck env am clock now room s \<noteq> None \<and> cpu_icnt_cycle dv clock now reply k s \<noteq> None"
proof -
  have I: "sys_inv dv ck s" "length (sy_procs s) = length (sy_procs s0)" using run_inv[OF assms(1,2)] by simp_all
  then have c: "config_ok dv ck (length (sy_procs s))" "addr_total am" using assms(2) by (simp_all add: model_ok_def)
  from simulate_memory_total[OF I(1) c assms(3), of env now room] have "simulate_memory dv ck env am clock now room s \<noteq> None" by auto
  moreover from cpu_icnt_cycle_total[OF I(1) assms(4), of reply clock now] assms(5) have "cpu_icnt_cycle dv clock now reply k s \<noteq> None" by auto
  ultimately show ?thesis by simp
qed

text \<open>
  C21: In every run on traces that can be executed (\<open>source_ok\<close>: the file can be read, its lines parse to delays, reads
  and writes, and such lines keep coming), with no more instructions committed than executed in a cycle, a processor
  cycle stops the simulator in one way only: after the fetch, \<open>retire\<close> meets an instruction that is done but may not
  retire yet, as a hit of a cache is.  The buffer of the trace never runs out, and a miss always has its transaction.
\<close>
theorem processor_cycle_stops:
  assumes "cpu_run dv ck env am refill s0 s" "model_ok dv ck am refill (length (sy_procs s0))" "k < length (sy_procs s)"
    "ck_commit_width ck \<le> ck_execution_width ck" "processor_cycle ck refill clock k s = None"
    "sy_transaction_count s < 2 ^ 31"
  shows "\<exists>w p e. fetch ck (refill k) clock (\<lparr>wo_flc = sy_flc s ! k, wo_mlc = sy_mlc s ! k, wo_tr_pool = sy_pool s,
      wo_transaction_count = sy_transaction_count s\<rparr>, sy_procs s ! k) = Some (w, p) \<and>
    e \<in> set (rob_list (executeNonMemoryInstructions ck p)) \<and> ro_ready e \<and> clock < ro_min_retire_timestamp e"
proof -
  have S: "sys_inv dv ck s" using run_inv[OF assms(1,2)] by simp
  then have I: "llc_inv s" "rob_sys ck s" by (simp_all add: sys_inv_def)
  let ?w = "\<lparr>wo_flc = sy_flc s ! k, wo_mlc = sy_mlc s ! k, wo_tr_pool = sy_pool s, wo_transaction_count = sy_transaction_count s\<rparr>"
  have len: "k < length (sy_flc s)" "k < length (sy_mlc s)" using I(1) assms(3) by (simp_all add: llc_inv_def)
  then have n: "doCycle ck (refill k) clock (?w, sy_procs s ! k) = None"
    using assms(3,5) by (cases "doCycle ck (refill k) clock (?w, sy_procs s ! k)") (auto simp: processor_cycle_def cache_of_def)
  have "core_caches_ok (sy_flc s ! k) (sy_mlc s ! k) k (sy_pool s)" using I(1) assms(3) by (simp add: llc_inv_def)
  then have w0: "world_ok ?w" by (simp add: world_ok_def core_caches_ok_def)
  have c0: "core_ok ck (sy_procs s ! k) k (wo_tr_pool ?w) (wo_transaction_count ?w)" "0 \<le> wo_transaction_count ?w" "wo_transaction_count ?w < 2 ^ 31"
    using I(2) assms(3,6) by (simp_all add: rob_sys_def)
  have tr: "traces_ok ck (refill k)" using assms(2) by (simp add: model_ok_def)
  from fetch_core_effect[OF c0(1) tr w0 c0(2,3), of clock] obtain w p fs ts where
    F: "fetch ck (refill k) clock (?w, sy_procs s ! k) = Some (w, p)" "fs = rob_list (executeNonMemoryInstructions ck p)"
      "fetched_core clock k ?w w p fs ts" and
    R: "case doCycle ck (refill k) clock (?w, sy_procs s ! k) of
       None \<Rightarrow> \<exists>e. e \<in> set fs \<and> \<not> retirable clock e \<and> map_transaction (ro_tr_id e) (wo_tr_pool w) = None \<and>
         (ck_commit_width ck \<le> ck_execution_width ck \<longrightarrow> mem_inst e \<or> ro_ready e)
     | Some (w2, p2) \<Rightarrow> w2 = w \<and> (\<exists>es. fs = es @ rob_list p2 \<and> (\<forall>e \<in> set es. retirable clock e)) \<and> rob_inv ck p2 \<and>
         pr_mem_op_id p2 = pr_mem_op_id p \<and> pr_procID p2 = pr_procID (sy_procs s ! k) \<and>
         pr_cpu_response_fifo p2 = pr_cpu_response_fifo (sy_procs s ! k)" by blast
  from R[unfolded n option.case] assms(4) obtain e where
    e: "e \<in> set fs" "\<not> retirable clock e" "map_transaction (ro_tr_id e) (wo_tr_pool w) = None" "mem_inst e \<or> ro_ready e" by blast
  have "ro_ready e"
  proof (rule ccontr)
    assume r: "\<not> ro_ready e"
    then obtain t where "t \<in> set (wo_tr_pool w)" "waiting t e" using F(3) e(1,4) unfolding fetched_core_def by blast
    then show False using e(3) by (auto simp: waiting_def map_transaction_None)
  qed
  then show ?thesis using F(1,2) e(1,2) by (auto simp: retirable_def)
qed

text \<open>
  C19: In every run, the reorder buffer of each processor holds its instructions in program order, without a gap: from the one
  after the last retired to the last fetched.  Its counters are right, and so are the positions of its ring.
\<close>
theorem rob_in_program_order:
  assumes "cpu_run dv ck env am refill s0 s" "model_ok dv ck am refill (length (sy_procs s0))" "k < length (sy_procs s)" "p = sy_procs s ! k"
  shows "map ro_icount (rob_list p) = [pr_retired_instructions p + 1 .. pr_instructions p] \<and>
    int (pr_num_entrys p) = pr_instructions p - pr_retired_instructions p \<and> pr_num_mem_entrys p = n_mem (rob_list p) \<and>
    pr_num_entrys p \<le> window_size p \<and> pr_next p = (pr_oldest p + pr_num_entrys p) mod window_size p"
proof -
  have "rob_sys ck s" using run_inv[OF assms(1,2)] by (simp add: sys_inv_def)
  then have R: "rob_inv ck p" using assms(3,4) by (simp add: rob_sys_def core_ok_def)
  then have m: "map ro_icount (rob_list p) = [pr_retired_instructions p + 1 .. pr_instructions p]" by (simp add: rob_inv_def)
  have "pr_num_entrys p = nat (pr_instructions p - pr_retired_instructions p)" using arg_cong[OF m, of length] by simp
  then show ?thesis using R m by (simp add: rob_inv_def rob_ok_def)
qed

text \<open>
  C20: In every run, the transactions are well formed: their numbers are different and have been given out, each names a
  processor that exists and an entry of its reorder buffer that waits, with the same address; and every memory
  instruction that waits in a reorder buffer has its transaction.
\<close>
theorem transactions_well_formed:
  assumes "cpu_run dv ck env am refill s0 s" "model_ok dv ck am refill (length (sy_procs s0))"
  shows "distinct (map tr_tr_id (sy_pool s)) \<and>
    (\<forall>t \<in> set (sy_pool s). 0 \<le> tr_tr_id t \<and> tr_tr_id t < sy_transaction_count s \<and> tr_cpuid t < length (sy_procs s) \<and>
       (\<exists>e \<in> set (rob_list (sy_procs s ! tr_cpuid t)). waiting t e)) \<and>
    (\<forall>k < length (sy_procs s). distinct (filter (\<lambda>i. i \<noteq> - 1) (map ro_tr_id (rob_list (sy_procs s ! k)))) \<and>
       (\<forall>e \<in> set (rob_list (sy_procs s ! k)). mem_inst e \<longrightarrow> \<not> ro_ready e \<longrightarrow> (\<exists>t \<in> set (sy_pool s). tr_cpuid t = k \<and> waiting t e)))"
proof -
  have I: "llc_inv s" "rob_sys ck s" using run_inv[OF assms] by (simp_all add: sys_inv_def)
  have c: "tr_cpuid t < length (sy_procs s)" if "t \<in> set (sy_pool s)" for t using I(1) that by (simp add: llc_inv_def)
  have K: "core_ok ck (sy_procs s ! k) k (sy_pool s) (sy_transaction_count s)" if "k < length (sy_procs s)" for k
    using I(2) that by (simp add: rob_sys_def)
  have "\<exists>e \<in> set (rob_list (sy_procs s ! tr_cpuid t)). waiting t e" if "t \<in> set (sy_pool s)" for t
    using K[OF c[OF that]] that unfolding core_ok_def by blast
  moreover have "0 \<le> tr_tr_id t \<and> tr_tr_id t < sy_transaction_count s" if "t \<in> set (sy_pool s)" for t
    using I(2) that by (simp add: rob_sys_def tr_ok_def)
  moreover have "distinct (filter (\<lambda>i. i \<noteq> - 1) (map ro_tr_id (rob_list (sy_procs s ! k)))) \<and>
      (\<forall>e \<in> set (rob_list (sy_procs s ! k)). mem_inst e \<longrightarrow> \<not> ro_ready e \<longrightarrow> (\<exists>t \<in> set (sy_pool s). tr_cpuid t = k \<and> waiting t e))"
    if "k < length (sy_procs s)" for k
    using K[OF that] unfolding core_ok_def rob_ids_def by blast
  moreover have "distinct (map tr_tr_id (sy_pool s))" using I(1) by (simp add: llc_inv_def pool_ok_def)
  ultimately show ?thesis using c by blast
qed

subsection \<open>Runs to look at\<close>

text \<open>A schedule: \<open>Serve q\<close> is what the memories do to request \<open>q\<close>, which comes back as a reply.\<close>

datatype cpu_step = Core int nat | Memory int | Icnt int "mfp option" nat | Serve mfp

definition reply_check :: "cpu_sys \<Rightarrow> nat \<Rightarrow> mfp option \<Rightarrow> bool" where
  "reply_check s k reply \<longleftrightarrow> (case reply of None \<Rightarrow> True | Some q \<Rightarrow>
     list_ex (\<lambda>t. tr_cpuid t = k \<and> tr_state t = CORE_TO_LLC \<and> tr_timestamp t = - 1 \<and> tr_ptr_to_mf t = Some q) (sy_pool s) \<and>
     q \<notin> set (pr_cpu_response_fifo (sy_procs s ! k)) \<and>
     (case sy_heap s q of None \<Rightarrow> True | Some mf \<Rightarrow> mf_mtype mf = CPU_READ_REPLY))"

fun do_step :: "device_config \<Rightarrow> cpu_config \<Rightarrow> mf_env \<Rightarrow> addr_map \<Rightarrow> (nat \<Rightarrow> trace_source) \<Rightarrow> cpu_step \<Rightarrow> cpu_sys \<Rightarrow> cpu_sys option" where
  "do_step dv ck env am refill (Core clock k) s = do {
     ensure (0 \<le> clock \<and> sy_transaction_count s < 2 ^ 31);
     processor_cycle ck refill clock k s }"
| "do_step dv ck env am refill (Memory clock) s = do {
     ensure (0 \<le> clock);
     (s', out) \<leftarrow> simulate_memory dv ck env am clock 0 (\<lambda>_. True) s;
     Some s' }"
| "do_step dv ck env am refill (Icnt clock reply k) s = do {
     ensure (k < length (sy_procs s) \<and> reply_check s k reply);
     cpu_icnt_cycle dv clock 0 reply k s }"
| "do_step dv ck env am refill (Serve q) s = do {
     ensure (q < sy_next_mf s);
     mf \<leftarrow> sy_heap s q;
     Some (s\<lparr>sy_heap := (sy_heap s)(q \<mapsto> mf\<lparr>mf_mtype := CPU_READ_REPLY\<rparr>), sy_next_mf := sy_next_mf s\<rparr>) }"

lemma do_step_run:
  assumes "cpu_run dv ck env am refill s0 s" "model_ok dv ck am refill (length (sy_procs s0))" "do_step dv ck env am refill x s = Some s'"
  shows "cpu_run dv ck env am refill s0 s'"
proof (cases x)
  case (Core clock k)
  then show ?thesis using assms(1,3) cpu_run.core by (auto split: if_splits)
next
  case (Memory clock)
  then obtain out where "0 \<le> clock" "simulate_memory dv ck env am clock 0 (\<lambda>_. True) s = Some (s', out)"
    using assms(3) by (auto split: if_splits elim!: bind_SomeE)
  then show ?thesis by (rule cpu_run.memory[OF assms(1)])
next
  case (Icnt clock reply k)
  then have i: "k < length (sy_procs s)" "reply_check s k reply" "cpu_icnt_cycle dv clock 0 reply k s = Some s'"
    using assms(3) by (auto split: if_splits)
  have "reply_ok s k q" if "reply = Some q" for q
    using i(2) that by (auto simp: reply_check_def reply_ok_def list_ex_iff asks_def)
  then show ?thesis using cpu_run.icnt[OF assms(1) i(1) _ i(3)] by blast
next
  case (Serve q)
  then obtain mf where q: "q < sy_next_mf s" "sy_heap s q = Some mf"
    and s': "s' = s\<lparr>sy_heap := (sy_heap s)(q \<mapsto> mf\<lparr>mf_mtype := CPU_READ_REPLY\<rparr>), sy_next_mf := sy_next_mf s\<rparr>"
    using assms(3) by (auto split: if_splits elim!: bind_SomeE)
  have "\<forall>x \<ge> sy_next_mf s. sy_heap s x = None" using run_inv[OF assms(1,2)] by (simp add: sys_inv_def req_inv_def)
  then have "requests_kept s ((sy_heap s)(q \<mapsto> mf\<lparr>mf_mtype := CPU_READ_REPLY\<rparr>)) (sy_next_mf s)" using q by (auto simp: requests_kept_def)
  then show ?thesis unfolding s' by (rule cpu_run.outside[OF assms(1)])
qed

lemma do_steps_run:
  "cpu_run dv ck env am refill s0 s \<Longrightarrow> model_ok dv ck am refill (length (sy_procs s0)) \<Longrightarrow>
   fold_opt (do_step dv ck env am refill) xs s = Some s' \<Longrightarrow> cpu_run dv ck env am refill s0 s'"
proof (induction xs arbitrary: s)
  case (Cons x xs)
  then obtain s1 where "do_step dv ck env am refill x s = Some s1" "fold_opt (do_step dv ck env am refill) xs s1 = Some s'"
    by (auto elim!: bind_SomeE)
  then show ?case using Cons.IH do_step_run Cons.prems(1,2) by blast
qed simp

text \<open>One processor with caches of one line, and a program that keeps to one line.\<close>

definition small_devices :: device_config where
  "small_devices = \<lparr>dv_n_simt_clusters = 1, dv_n_cores_per_cluster = 1, dv_n_cpu = 1\<rparr>"

definition small_cpu :: cpu_config where
  "small_cpu = \<lparr>ck_issue_width = 1, ck_commit_width = 1, ck_execution_width = 1, ck_flc_lookup_time = 4, ck_mlc_lookup_time = 5,
     ck_flc_rq_size = 8, ck_max_tr = 8, ck_trace_size = 4\<rparr>"

definition small_env :: mf_env where
  "small_env = \<lparr>n_simt_clusters = 1, now_cycle = 0, env_flit_size = 32\<rparr>"

definition small_line :: "nat \<Rightarrow> string" where
  "small_line i = [''0 R 0'', ''0 W 4'', ''0 R 8'', ''0 R 8''] ! (i mod 4)"

definition small_trace :: "nat \<Rightarrow> trace_source" where
  "small_trace k = \<lparr>ts_format = MSR_TRACE_FORMAT, ts_read = (\<lambda>i. GzLine (small_line i))\<rparr>"

definition small_rob :: "reorder_buffer_t list" where
  "small_rob = replicate 4 \<lparr>ro_ready = False, ro_type = CDLY_TYPE, ro_icount = 0, ro_address = 0, ro_tr_id = - 1,
     ro_min_retire_timestamp = 0, ro_enter_time = 0\<rparr>"

definition small_sys :: "cpu_sys option" where
  "small_sys = do {
     c \<leftarrow> new_cpu_cache 128 128 1 1;
     p \<leftarrow> initProcessor small_cpu (small_trace 0) 0 0 small_rob;
     Some \<lparr>sy_procs = [p],
           sy_flc = [c], sy_mlc = [c], sy_pool = [], sy_transaction_count = 0, sy_heap = Map.empty, sy_next_mf = 0\<rparr> }"

definition small_run :: "cpu_step list \<Rightarrow> cpu_sys option" where
  "small_run xs = do { s \<leftarrow> small_sys; fold_opt (do_step small_devices small_cpu small_env one_bank_map small_trace) xs s }"

definition two_misses :: "cpu_step list" where
  "two_misses = [Core 0 0, Memory 0, Core 1 0, Memory 1, Memory 10]"

definition a_reply :: "cpu_step list" where
  "a_reply = two_misses @ [Serve 0, Icnt 11 (Some 0) 0, Icnt 12 None 0]"

definition a_hit :: "cpu_step list" where
  "a_hit = a_reply @ [Memory 13, Memory 14, Memory 15, Core 16 0, Core 17 0]"

lemma small_trace_ok: "source_ok (small_trace k)"
proof (rule source_ok_always)
  fix i
  have "msr_records pid room ''0 W 4'' = Some [memory_record WRITE_TYPE pid 4]"
    "msr_records pid room ''0 R 8'' = Some [memory_record READ_TYPE pid 8]"
    "msr_records pid room ''0 R 0'' = Some [memory_record READ_TYPE pid 0]" for pid room
    by (simp_all add: msr_records_def scan_hex_def scan_int_def scan_word_def is_space_def is_digit_def digit_val_def hex_val_def)
  then have A: "\<exists>ty a. ty \<in> {READ_TYPE, WRITE_TYPE} \<and> (\<forall>pid room. line_records MSR_TRACE_FORMAT pid room l = Some [memory_record ty pid a])"
    if "l \<in> {''0 R 0'', ''0 W 4'', ''0 R 8''}" for l
    using that by (auto simp: line_records_def)
  have "small_line i \<in> {''0 R 0'', ''0 W 4'', ''0 R 8''}"
  proof -
    have "i mod 4 \<in> {0, 1, 2, 3}" using mod_less_divisor[of 4 i] by auto
    then show ?thesis by (auto simp: small_line_def)
  qed
  from A[OF this] obtain ty a where "ty \<in> {READ_TYPE, WRITE_TYPE}"
    "\<forall>pid room. line_records MSR_TRACE_FORMAT pid room (small_line i) = Some [memory_record ty pid a]" by blast
  then have "line_ok MSR_TRACE_FORMAT (small_line i)" "line_counts MSR_TRACE_FORMAT (small_line i)"
    by (auto simp: line_ok_def line_counts_def cpu_records_def memory_record_def)
  then show "\<exists>l. ts_read (small_trace k) i = GzLine l \<and> line_ok (ts_format (small_trace k)) l \<and> line_counts (ts_format (small_trace k)) l"
    by (simp add: small_trace_def)
qed

lemma small_run_run:
  assumes "small_run xs = Some s"
  shows "\<exists>s0. small_sys = Some s0 \<and> cpu_run small_devices small_cpu small_env one_bank_map small_trace s0 s \<and>
    model_ok small_devices small_cpu one_bank_map small_trace (length (sy_procs s0))"
proof -
  obtain s0 where s0: "small_sys = Some s0" "fold_opt (do_step small_devices small_cpu small_env one_bank_map small_trace) xs s0 = Some s"
    using assms by (auto simp: small_run_def elim!: bind_SomeE)
  then obtain c p where c: "new_cpu_cache 128 128 1 1 = Some c" and p: "initProcessor small_cpu (small_trace 0) 0 0 small_rob = Some p"
    and e: "s0 = \<lparr>sy_procs = [p],
      sy_flc = [c], sy_mlc = [c], sy_pool = [], sy_transaction_count = 0, sy_heap = Map.empty, sy_next_mf = 0\<rparr>"
    by (auto simp: small_sys_def elim!: bind_SomeE)
  have "fresh_cache c" by (rule fresh_cache_new[of 1 7 0 1]) (use c in simp_all)
  moreover have "small_rob \<noteq> []" by (simp add: small_rob_def)
  ultimately have st: "cpu_start small_cpu small_trace s0" using p unfolding e by (auto simp: cpu_start_def)
  have "addr_total one_bank_map" by (simp add: addr_total_def addrdec_tlx_def one_bank_map_def new_addr_map_def)
  then have m: "model_ok small_devices small_cpu one_bank_map small_trace (length (sy_procs s0))"
    by (simp add: model_ok_def config_ok_def small_devices_def small_cpu_def e traces_ok_def small_trace_ok)
  show ?thesis using s0(1) m do_steps_run[OF cpu_run.start[OF st] m s0(2)] by blast
qed

lemma two_misses_states: "map_option (\<lambda>s. map (\<lambda>t. (tr_state t, tr_timestamp t, tr_cpuid t)) (sy_pool s)) (small_run two_misses) =
    Some [(CORE_TO_LLC, - 1, 0), (LLC_MSHR_PENDING, - 1, 0)]"
  by code_simp

lemma a_reply_states: "map_option (\<lambda>s. map (\<lambda>t. (tr_state t, tr_timestamp t, tr_cpuid t)) (sy_pool s)) (small_run a_reply) =
    Some [(LLC_TO_CORE, 13, 0), (LLC_MSHR_PENDING, - 1, 0)]"
  by code_simp

lemma a_hit_stops: "map_option (\<lambda>s. (length (sy_procs s), sy_transaction_count s, processor_cycle small_cpu small_trace 18 0 s = None)) (small_run a_hit) =
    Some (1, 2, True)"
  by code_simp

text \<open>The states the runs end in.\<close>

lemma two_misses_end: "\<exists>s. small_run two_misses = Some s \<and> (\<exists>t \<in> set (sy_pool s). pending t)"
proof -
  obtain s where s: "small_run two_misses = Some s"
    "map (\<lambda>t. (tr_state t, tr_timestamp t, tr_cpuid t)) (sy_pool s) = [(CORE_TO_LLC, - 1, 0), (LLC_MSHR_PENDING, - 1, 0)]"
    using two_misses_states by (auto simp: map_option_eq_Some)
  then obtain t u where "sy_pool s = [t, u]" "tr_state u = LLC_MSHR_PENDING" by auto
  then show ?thesis using s(1) by (auto simp: pending_def)
qed

lemma a_reply_end: "\<exists>s. small_run a_reply = Some s \<and> 0 < length (sy_pool s) \<and> tr_state (sy_pool s ! 0) = LLC_TO_CORE \<and>
    tr_timestamp (sy_pool s ! 0) = 13"
proof -
  obtain s where s: "small_run a_reply = Some s"
    "map (\<lambda>t. (tr_state t, tr_timestamp t, tr_cpuid t)) (sy_pool s) = [(LLC_TO_CORE, 13, 0), (LLC_MSHR_PENDING, - 1, 0)]"
    using a_reply_states by (auto simp: map_option_eq_Some)
  then obtain t u where "sy_pool s = [t, u]" "tr_state t = LLC_TO_CORE" "tr_timestamp t = 13" by auto
  then show ?thesis using s(1) by simp
qed

lemma a_hit_end: "\<exists>s. small_run a_hit = Some s \<and> length (sy_procs s) = 1 \<and> processor_cycle small_cpu small_trace 18 0 s = None \<and>
    sy_transaction_count s = 2"
  using a_hit_stops by (auto simp: map_option_eq_Some)

lemma small_run_procs: "small_run xs = Some s \<Longrightarrow> 0 < length (sy_procs s)"
proof -
  assume a: "small_run xs = Some s"
  then obtain s0 where s0: "small_sys = Some s0" "cpu_run small_devices small_cpu small_env one_bank_map small_trace s0 s"
    "model_ok small_devices small_cpu one_bank_map small_trace (length (sy_procs s0))" using small_run_run by blast
  then have "length (sy_procs s0) = 1" by (auto simp: small_sys_def elim!: bind_SomeE)
  then show ?thesis using run_inv[OF s0(2,3)] by simp
qed

theorem waiting_has_request_witness:
  "\<exists>s t u. small_run two_misses = Some s \<and> t \<in> set (sy_pool s) \<and> pending t \<and> u \<in> set (sy_pool s) \<and> in_flight u \<and>
     tr_cpuid u = tr_cpuid t \<and> line_state (sy_mlc s ! tr_cpuid t) (tr_address t) = CPU_INVALID"
proof -
  obtain s t where s: "small_run two_misses = Some s" "t \<in> set (sy_pool s)" "pending t" using two_misses_end by blast
  from small_run_run[OF s(1)] obtain s0 where "cpu_run small_devices small_cpu small_env one_bank_map small_trace s0 s"
    "model_ok small_devices small_cpu one_bank_map small_trace (length (sy_procs s0))" by blast
  from waiting_has_request[OF this s(2,3)] s show ?thesis by blast
qed

theorem reply_frees_all_witness:
  "\<exists>s s'. small_run a_reply = Some s \<and>
     transaction_turn small_devices small_cpu small_env one_bank_map 13 0 (\<lambda>_. True) 0 (s, []) = Some (s', []) \<and>
     line_state (sy_mlc s' ! tr_cpuid (sy_pool s ! 0)) (tr_address (sy_pool s ! 0)) = EXCLUSIVE"
proof -
  obtain s where s: "small_run a_reply = Some s" "0 < length (sy_pool s)" "tr_state (sy_pool s ! 0) = LLC_TO_CORE"
    "tr_timestamp (sy_pool s ! 0) = 13" using a_reply_end by blast
  from small_run_run[OF s(1)] obtain s0 where R: "cpu_run small_devices small_cpu small_env one_bank_map small_trace s0 s"
    "model_ok small_devices small_cpu one_bank_map small_trace (length (sy_procs s0))" by blast
  have "0 \<le> tr_timestamp (sy_pool s ! 0)" "tr_timestamp (sy_pool s ! 0) \<le> 13" using s(4) by simp_all
  from reply_frees_all[OF R s(2,3) this refl refl, of 0 "\<lambda>_. True" "[]"] s(1) show ?thesis by blast
qed

theorem cpu_memory_never_stops_witness:
  "\<exists>s. small_run a_reply = Some s \<and> simulate_memory small_devices small_cpu small_env one_bank_map 13 0 (\<lambda>_. True) s \<noteq> None \<and>
     cpu_icnt_cycle small_devices 13 0 None 0 s \<noteq> None"
proof -
  obtain s where s: "small_run a_reply = Some s" using a_reply_end by blast
  from small_run_run[OF s] obtain s0 where R: "cpu_run small_devices small_cpu small_env one_bank_map small_trace s0 s"
    "model_ok small_devices small_cpu one_bank_map small_trace (length (sy_procs s0))" by blast
  have "(0 :: int) \<le> 13" by simp
  from cpu_memory_never_stops[OF R this small_run_procs[OF s], of None 0 "\<lambda>_. True"] s show ?thesis by auto
qed

theorem processor_cycle_stops_witness:
  "\<exists>s p e. small_run a_hit = Some s \<and> processor_cycle small_cpu small_trace 18 0 s = None \<and>
     e \<in> set (rob_list (executeNonMemoryInstructions small_cpu p)) \<and> ro_ready e \<and> 18 < ro_min_retire_timestamp e"
proof -
  obtain s where s: "small_run a_hit = Some s" "length (sy_procs s) = 1" "processor_cycle small_cpu small_trace 18 0 s = None"
    "sy_transaction_count s = 2" using a_hit_end by blast
  from small_run_run[OF s(1)] obtain s0 where R: "cpu_run small_devices small_cpu small_env one_bank_map small_trace s0 s"
    "model_ok small_devices small_cpu one_bank_map small_trace (length (sy_procs s0))" by blast
  have a: "0 < length (sy_procs s)" "ck_commit_width small_cpu \<le> ck_execution_width small_cpu" using s(2) by (simp_all add: small_cpu_def)
  have "sy_transaction_count s < 2 ^ 31" using s(4) by simp
  from processor_cycle_stops[OF R a s(3) this] s(1,3) show ?thesis by blast
qed

theorem rob_in_program_order_witness:
  "\<exists>s. small_run two_misses = Some s \<and>
     map ro_icount (rob_list (sy_procs s ! 0)) = [pr_retired_instructions (sy_procs s ! 0) + 1 .. pr_instructions (sy_procs s ! 0)]"
proof -
  obtain s where s: "small_run two_misses = Some s" using two_misses_end by blast
  from small_run_run[OF s] obtain s0 where R: "cpu_run small_devices small_cpu small_env one_bank_map small_trace s0 s"
    "model_ok small_devices small_cpu one_bank_map small_trace (length (sy_procs s0))" by blast
  from rob_in_program_order[OF R small_run_procs[OF s] refl] s show ?thesis by blast
qed

theorem transactions_well_formed_witness:
  "\<exists>s t e. small_run two_misses = Some s \<and> t \<in> set (sy_pool s) \<and> e \<in> set (rob_list (sy_procs s ! tr_cpuid t)) \<and> waiting t e"
proof -
  obtain s t where s: "small_run two_misses = Some s" "t \<in> set (sy_pool s)" using two_misses_end by blast
  from small_run_run[OF s(1)] obtain s0 where R: "cpu_run small_devices small_cpu small_env one_bank_map small_trace s0 s"
    "model_ok small_devices small_cpu one_bank_map small_trace (length (sy_procs s0))" by blast
  from transactions_well_formed[OF R] s show ?thesis by blast
qed

end
