(* ===== verification/Spec2Isabelle.thy ===== *)
theory Spec2Isabelle
  imports CacheConfig MemFetch TagArray Mshr DataCache RingFifo TexCache Scoreboard DelayQueue
    FrFcfs DramTiming Throttle SimtStack Coalesce
    CreditFlow RouterRun BypassNet FlyNet Injection CpuProps
begin

text \<open>
  This library verifies the core of a GPU simulator (GPGPU-Sim with \<open>intersim\<close>, a variant of BookSim) that
  was extended to a heterogeneous chip: clusters of shader cores and CPUs share the memory partitions over one
  interconnect.  It models the memory hierarchy of a shader core, the control of its warps, the CPUs with their private
  caches, the interconnect with its routers, and the way of a request from a device to the memory partition and back.

  Conventions.  A class is a record, an enumeration a datatype, a method a function from the state to the state.
  \<open>None\<close> means that the simulator stops: a failed assertion, an \<open>abort()\<close>, an access outside a container, a
  division by zero.  A refusal the code reports to its caller (\<open>RESERVATION_FAIL\<close>, a full queue) is an ordinary
  value.  Integers are words of their width where the code relies on it (addresses, masks, configuration
  parsing), otherwise \<open>nat\<close> or \<open>int\<close>; \<open>/\<close> and \<open>%\<close> on a C \<open>int\<close> are \<open>sdiv\<close> and \<open>smod\<close>.  A pointer that
  identifies an object is a number, a pointer that owns one is the value.  Random numbers, the memory \<open>new\<close>
  leaves unset, the time and what zlib reads are parameters.  Loops are structural recursions or folds, so every
  operation is total; the one loop that may not end, the reading of a trace, is a \<open>partial_function\<close>, whose \<open>None\<close> is also
  that it does not return.

  \<^bold>\<open>Memory hierarchy\<close> (\<open>src/gpgpu-sim\<close>).
  \<^item> \<open>Prelude\<close>: the option monad for assertions (\<open>ensure\<close>, \<open>fold_opt\<close>), collections of lemmas, and the interface
    \<open>fifo_source\<close> of a component that hands out what was put into it.
  \<^item> \<open>StdMap\<close>: the ordered maps of the standard library as the code uses them, and loops that can stop.
  \<^item> \<open>CacheConfig\<close>: \<open>cache_config\<close> (\<open>gpu-cache.h\<close>): parsing of the configuration string, tag, set index and block
    address.  \<open>MemFetch\<close>: \<open>mem_fetch\<close> and the allocators that make requests.
  \<^item> \<open>TagArray\<close>, \<open>Mshr\<close>: \<open>tag_array\<close> and \<open>mshr_table\<close> (\<open>gpu-cache.cc\<close>): probe, access, fill; the queues of merged
    requests.  \<open>DataCache\<close>: \<open>baseline_cache\<close>, \<open>read_only_cache\<close>, \<open>l1_cache\<close>, \<open>l2_cache\<close> with every write and
    allocation policy, built on both.
  \<^item> \<open>RingFifo\<close>, \<open>TexCache\<close>: \<open>tex_cache\<close> and its ring buffer.
  \<^item> \<open>DelayQueue\<close>: \<open>fifo_pipeline\<close> (\<open>delayqueue.h\<close>) and the port of the L2 bank on it.  \<open>FrFcfs\<close>: the FR-FCFS
    scheduler (\<open>dram_sched.cc\<close>).  \<open>AddrDec\<close>: the address decoder (\<open>addrdec.cc\<close>).
  \<^item> \<open>Dram\<close>: \<open>dram_t\<close> (\<open>dram.cc\<close>), the memory controller on these: its banks, timing counters and queues.  \<open>DramTiming\<close>:
    the commands of a run as a step relation over it.

  \<^bold>\<open>Control of the warps.\<close>
  \<^item> \<open>Scoreboard\<close> (\<open>scoreboard.cc\<close>), \<open>Throttle\<close> (\<open>throttling.cc\<close> and the limits in \<open>shader.cc\<close>), \<open>SimtStack\<close> and
    \<open>Coalesce\<close> (\<open>abstract_hardware_model.cc\<close>): hazards, the number of warps that may issue, the reconvergence
    stack, and the transactions of a memory instruction.

  \<^bold>\<open>Interconnect\<close> (\<open>src/intersim\<close>).
  \<^item> \<open>NocTypes\<close>: flits, credits, output sets, pipelines.  \<open>BufferState\<close>, \<open>VChannel\<close>: the two ends of a link.
    \<open>CreditFlow\<close>: a link as a step relation over both.
  \<^item> \<open>Matching\<close>, \<open>SparseAlloc\<close>, \<open>ISlip\<close>, \<open>DenseAlloc\<close>: the allocators; \<open>AllocOps\<close>: the locale \<open>allocator\<close>, what a
    router may rely on, interpreted for iSLIP, Wavefront, LOA and PIM.
  \<^item> \<open>IQRouter\<close>: the input queued router; \<open>RouterInv\<close>: its invariant, phase by phase, in the locale
    \<open>router_allocs\<close> over any two allocators; \<open>RouterRun\<close>: cycles and runs, for iSLIP.
  \<^item> \<open>Routing\<close>: the routing functions (\<open>routefunc.cpp\<close>).  \<open>Topology\<close>: the wiring of \<open>KNCube\<close> and \<open>KNFly\<close>, and
    \<open>deliver\<close>, the way of a packet over it.  \<open>FlyNet\<close>: the butterfly with its routing.
  \<^item> \<open>IcntInterface\<close> (\<open>interconnect_interface.cpp\<close>), \<open>Injection\<close> (\<open>trafficmanager.cpp\<close>): where packets enter and leave.
  \<^item> \<open>BypassNet\<close>: 14 clusters, 14 CPUs and 8 partitions on 36 nodes, put together from the above.

  \<^bold>\<open>CPUs\<close> (\<open>src/cpu-sim\<close>).
  \<^item> \<open>CpuCache\<close>: the private caches (\<open>cache.cpp\<close>) with their outstanding misses and the transactions; \<open>CpuCacheInv\<close>: the
    invariant of the lines, and a cache as a map from blocks to states.
  \<^item> \<open>CpuTrace\<close>: the reading of trace files (\<open>populateTraceBuffer\<close>), line by line, and the files it can read without an
    \<open>exit\<close>.  \<open>CpuCore\<close>: \<open>processor_t\<close> (\<open>processor.cpp\<close>), a core with a reorder buffer that runs a trace; \<open>CpuCoreInv\<close>: the ring
    of the reorder buffer as a list, and what a cycle does to it.
  \<^item> \<open>CpuMem\<close>: \<open>simulate_memory\<close> and the network interface (\<open>cpu_engine.cpp\<close>), which take the transactions from their miss to
    the reply.  \<open>CpuMemInv\<close>, \<open>CpuRun\<close>, \<open>CpuRunStep\<close>, \<open>CpuRunRob\<close>, \<open>CpuRunMem\<close>: their invariants, against the caches, the
    reorder buffers and the requests under way.  \<open>CpuSystem\<close>, \<open>CpuInit\<close>, \<open>CpuProps\<close>: all of it together, as a step
    relation with any order of the steps and any network that answers what it is asked.

  \<^bold>\<open>What is shown.\<close>  Each component has an invariant that all its operations keep, or an abstract object it
  refines: the caches keep tags, MSHRs, miss queue and waiting requests consistent, and a request that waits for a
  fill is handed back after it; the texture cache, the delay pipelines and the boundary buffers return what they
  were given, in order; the FR-FCFS scheduler implements its specification on plain queues;
  the commands of a memory controller keep the distances of its timing parameters; the reconvergence
  stack partitions the live threads; coalescing serves all the bytes that were asked for and no others; the throttling
  schemes keep the limits in range or on their ladder; a link never overflows; the allocators compute legal and maximal matchings; a
  router that does not hold its switch for a packet gives an output channel to one packet at a time and stops only on what
  its neighbours send; the
  butterfly delivers; and on the chip with 36 nodes every request and every reply arrives, for the configurations
  that keep each side to the four partitions near it.  A CPU keeps its instructions in program order, every miss has
  its transaction and its entry, a transaction that waits for a line has a request ahead of it that frees it, and
  the memory side of the CPUs never stops.  Error behaviour is stated where the code has it: operations that
  are refused change nothing, assertions that cannot fail are shown not to, and inputs on which the code does
  stop, alias or circulate for ever are exhibited.

  \<^bold>\<open>Bounds and fuel.\<close>  \<open>deliver\<close> takes as fuel the number of routers a packet may visit.  For the butterfly \<open>n\<close>,
  one per stage, is exact; for the cube 9 is enough because no path of dimension order routing that arrives has more
  than 8 hops; that a packet never arrives is shown for all fuel.  Tables of the cube are evaluated by the
  simplifier, for all 36 nodes.  The reading of a trace ends for every file in which lines that make a record keep coming.

  \<^bold>\<open>Not modelled.\<close>  The pipeline of the shader core, the functional execution of PTX, the
  clock domains and the host interface; fast forwarding, page mapping and configuration of the CPUs; statistics, tracing, and the power model with its floating point formulas,
  none of which the modelled code reads back; the event driven router, \<open>SelAlloc\<close> and \<open>MaxSizeMatch\<close>, which no
  configuration selects; synthetic traffic; the modes of the interconnect with a fixed latency; random faults.
\<close>

end
